(* ===== verification/Prelude.thy ===== *)
theory Prelude
  imports
    Main
    "HOL-Library.FSet"
    "HOL-Library.Finite_Map"
    "HOL-Library.Char_ord"
    "HOL-Library.List_Lexorder"
    "HOL-Library.Product_Lexorder"
    "HOL-Library.Sublist"
begin

text \<open>
  Shared vocabulary of the development: decimal rendering and parsing of numbers (Go's
  \<open>%d\<close>, \<open>strconv.FormatUint\<close> and Lua's \<open>tonumber\<close> on digit strings), the error
  cascade \<open>first_error\<close> that models a sequence of guarded early returns, result values,
  the 64-bit wrap-around of Go's \<open>int64\<close>, and the lemmas on them that every component
  uses.
\<close>

section \<open>Collections\<close>

named_theorems entry_simps \<open>reading a Redis entry after a command wrote it\<close>
named_theorems guard_defs \<open>guards of the scripts, as cascades of early returns\<close>

section \<open>Results\<close>

type_synonym 'a res = "string + 'a"

text \<open>
  A script or handler is a sequence of guards, each an early return with an error code.
  \<open>first_error\<close> returns the code of the first guard that fires.
\<close>

fun first_error :: "(bool \<times> string) list \<Rightarrow> string option" where
  "first_error [] = None"
| "first_error ((c, e) # rest) = (if c then Some e else first_error rest)"

lemma first_error_None_iff: "first_error gs = None \<longleftrightarrow> (\<forall>(c, e) \<in> set gs. \<not> c)"
  by (induction gs rule: first_error.induct) auto

lemma first_error_SomeD: "first_error gs = Some e \<Longrightarrow> (True, e) \<in> set gs"
  by (induction gs rule: first_error.induct) (auto split: if_splits)

section \<open>Decimal strings\<close>

definition digit_char :: "nat \<Rightarrow> char" where
  "digit_char d = ''0123456789'' ! d"

definition is_digit :: "char \<Rightarrow> bool" where
  "is_digit c \<longleftrightarrow> c \<in> set ''0123456789''"

definition digit_val :: "char \<Rightarrow> nat" where
  "digit_val c = of_char c - 48"

text \<open>The Lua pattern \<open>'^%d+$'\<close>: one or more decimal digits and nothing else.\<close>

definition digits_only :: "string \<Rightarrow> bool" where
  "digits_only s \<longleftrightarrow> s \<noteq> [] \<and> list_all is_digit s"

fun show_nat :: "nat \<Rightarrow> string" where
  "show_nat n = (if n < 10 then [digit_char n] else show_nat (n div 10) @ [digit_char (n mod 10)])"

declare show_nat.simps [simp del]

definition tonum :: "string \<Rightarrow> nat" where
  "tonum s = foldl (\<lambda>a c. 10 * a + digit_val c) 0 s"

definition show_int :: "int \<Rightarrow> string" where
  "show_int i = (if i < 0 then CHR ''-'' # show_nat (nat (- i)) else show_nat (nat i))"

lemma less_ten_cases:
  "(n::nat) < 10 \<Longrightarrow> n = 0 \<or> n = 1 \<or> n = 2 \<or> n = 3 \<or> n = 4 \<or> n = 5 \<or> n = 6 \<or> n = 7 \<or> n = 8 \<or> n = 9"
  by arith

lemma is_digit_digit_char [simp]: "d < 10 \<Longrightarrow> is_digit (digit_char d)"
  using less_ten_cases [of d] by (auto simp: is_digit_def digit_char_def)

lemma digit_val_digit_char [simp]: "d < 10 \<Longrightarrow> digit_val (digit_char d) = d"
  using less_ten_cases [of d] by (auto simp: digit_val_def digit_char_def)

lemma digit_char_digit_val [simp]: "is_digit c \<Longrightarrow> digit_char (digit_val c) = c"
  by (auto simp: is_digit_def digit_char_def digit_val_def)

lemma digit_val_less [simp]: "is_digit c \<Longrightarrow> digit_val c < 10"
  by (auto simp: is_digit_def digit_val_def)

lemma show_nat_ne [simp]: "show_nat n \<noteq> []"
  by (subst show_nat.simps) simp

lemma digits_only_show_nat [simp]: "digits_only (show_nat n)"
proof (induction n rule: show_nat.induct)
  case (1 n)
  then show ?case
    by (subst show_nat.simps) (auto simp: digits_only_def)
qed

lemma tonum_snoc [simp]: "tonum (s @ [c]) = 10 * tonum s + digit_val c"
  by (simp add: tonum_def)

lemma tonum_Nil [simp]: "tonum [] = 0"
  by (simp add: tonum_def)

lemma tonum_show_nat [simp]: "tonum (show_nat n) = n"
proof (induction n rule: show_nat.induct)
  case (1 n)
  show ?case
  proof (cases "n < 10")
    case True
    then show ?thesis
      using tonum_snoc [of "[]" "digit_char n"] by (subst show_nat.simps) simp
  next
    case False
    with "1.IH" have "tonum (show_nat (n div 10)) = n div 10" by simp
    with False show ?thesis by (subst show_nat.simps) simp
  qed
qed

lemma show_nat_inject [simp]: "show_nat m = show_nat n \<longleftrightarrow> m = n"
  by (metis tonum_show_nat)

lemma show_nat_zero [simp]: "show_nat 0 = ''0''"
  by (simp add: show_nat.simps digit_char_def)

lemma show_nat_eq_zero_iff [simp]: "show_nat n = ''0'' \<longleftrightarrow> n = 0"
  by (metis show_nat_inject show_nat_zero)

lemma digits_only_imp_digit: "digits_only s \<Longrightarrow> c \<in> set s \<Longrightarrow> is_digit c"
  by (auto simp: digits_only_def list_all_iff)

lemma show_nat_digit: "c \<in> set (show_nat n) \<Longrightarrow> is_digit c"
  using digits_only_imp_digit digits_only_show_nat by blast

lemma show_int_nonneg [simp]: "0 \<le> i \<Longrightarrow> show_int i = show_nat (nat i)"
  by (simp add: show_int_def)

lemma show_int_of_nat [simp]: "show_int (int n) = show_nat n"
  by simp

section \<open>Finite sets\<close>

lemma fcard_minus_single:
  "x |\<in>| A \<Longrightarrow> int (fcard (A |-| {|x|})) = int (fcard A) - 1"
  by (simp add: fcard.rep_eq of_nat_diff Suc_leI card_gt_0_iff) (metis One_nat_def Suc_leI card_gt_0_iff empty_iff finite_fset of_nat_1 of_nat_diff)

lemma fcard_finsert_new: "x |\<notin>| A \<Longrightarrow> int (fcard (finsert x A)) = int (fcard A) + 1"
  by (simp add: fcard.rep_eq)

lemma fcard_single [simp]: "fcard {|x|} = 1"
  by (simp add: fcard.rep_eq)

lemma fcard_one_sentinel: "x |\<in>| A \<Longrightarrow> fcard A = 1 \<longleftrightarrow> A = {|x|}"
proof
  assume x: "x |\<in>| A" and c: "fcard A = 1"
  then have "card (fset A) = 1" by (simp add: fcard.rep_eq)
  then obtain y where "fset A = {y}" by (auto simp: card_1_singleton_iff)
  with x show "A = {|x|}" by (metis bot_fset.rep_eq finsert.rep_eq fset_inject singletonD)
qed simp

section \<open>Go's 64-bit integers\<close>

definition wrap64 :: "int \<Rightarrow> int" where
  "wrap64 i = (i + 2 ^ 63) mod 2 ^ 64 - 2 ^ 63"

definition in_int64 :: "int \<Rightarrow> bool" where
  "in_int64 i \<longleftrightarrow> - (2 ^ 63) \<le> i \<and> i < 2 ^ 63"

lemma wrap64_id [simp]: "in_int64 i \<Longrightarrow> wrap64 i = i"
  by (simp add: wrap64_def in_int64_def)

lemma wrap64_range: "in_int64 (wrap64 i)"
  by (simp add: wrap64_def in_int64_def)

text \<open>
  \<open>strconv.ParseUint(s, 10, 64)\<close> and \<open>strconv.ParseInt(s, 10, 64)\<close>: decimal digits, an
  optional sign for the signed one, and a range check; every other string is an error.
\<close>

definition parse_uint64 :: "string \<Rightarrow> nat option" where
  "parse_uint64 s = (if digits_only s \<and> tonum s < 2 ^ 64 then Some (tonum s) else None)"

fun parse_int64 :: "string \<Rightarrow> int option" where
  "parse_int64 [] = None"
| "parse_int64 (c # s) =
     (if c = CHR ''-'' then
        (if digits_only s \<and> tonum s \<le> 2 ^ 63 then Some (- int (tonum s)) else None)
      else if c = CHR ''+'' then
        (if digits_only s \<and> tonum s < 2 ^ 63 then Some (int (tonum s)) else None)
      else if digits_only (c # s) \<and> tonum (c # s) < 2 ^ 63 then Some (int (tonum (c # s)))
      else None)"

lemma parse_uint64_show [simp]: "n < 2 ^ 64 \<Longrightarrow> parse_uint64 (show_nat n) = Some n"
  by (simp add: parse_uint64_def)

lemma parse_int64_digits:
  assumes "digits_only s"
  shows "parse_int64 s = (if tonum s < 2 ^ 63 then Some (int (tonum s)) else None)"
proof (cases s)
  case Nil
  with assms show ?thesis by (simp add: digits_only_def)
next
  case (Cons c r)
  with assms have "is_digit c" by (simp add: digits_only_def)
  then have "c \<noteq> CHR ''-''" "c \<noteq> CHR ''+''" by (auto simp: is_digit_def)
  with Cons assms show ?thesis by simp
qed

lemma parse_int64_show [simp]: "n < 2 ^ 63 \<Longrightarrow> parse_int64 (show_nat n) = Some (int n)"
  by (simp add: parse_int64_digits)

lemma parse_int64_range: "parse_int64 s = Some i \<Longrightarrow> in_int64 i"
  by (cases s rule: parse_int64.cases) (auto simp: in_int64_def split: if_splits)

section \<open>Splitting strings\<close>

text \<open>Go's \<open>strings.Split\<close> and \<open>strings.SplitN\<close> with a one-character separator.\<close>

fun split_on :: "char \<Rightarrow> string \<Rightarrow> string list" where
  "split_on c [] = [[]]"
| "split_on c (x # xs) =
     (if x = c then [] # split_on c xs
      else (case split_on c xs of [] \<Rightarrow> [[x]] | p # ps \<Rightarrow> (x # p) # ps))"

fun splitn :: "nat \<Rightarrow> char \<Rightarrow> string \<Rightarrow> string list" where
  "splitn 0 c s = []"
| "splitn (Suc 0) c s = [s]"
| "splitn (Suc (Suc n)) c s =
     (case dropWhile (\<lambda>x. x \<noteq> c) s of
        [] \<Rightarrow> [s]
      | _ # rest \<Rightarrow> takeWhile (\<lambda>x. x \<noteq> c) s # splitn (Suc n) c rest)"

lemma split_on_no_sep: "c \<notin> set s \<Longrightarrow> split_on c s = [s]"
  by (induction s) auto

lemma split_on_append: "c \<notin> set a \<Longrightarrow> split_on c (a @ c # b) = a # split_on c b"
  by (induction a) auto

lemma dropWhile_sep: "c \<notin> set a \<Longrightarrow> dropWhile (\<lambda>x. x \<noteq> c) (a @ c # b) = c # b"
  by (induction a) auto

lemma takeWhile_sep: "c \<notin> set a \<Longrightarrow> takeWhile (\<lambda>x. x \<noteq> c) (a @ c # b) = a"
  by (induction a) auto

lemma splitn_append: "c \<notin> set a \<Longrightarrow> splitn (Suc (Suc n)) c (a @ c # b) = a # splitn (Suc n) c b"
  by (simp add: dropWhile_sep takeWhile_sep)

lemma show_nat_no_sep: "\<not> is_digit c \<Longrightarrow> c \<notin> set (show_nat n)"
  using show_nat_digit by blast

end
