(* ===== verification/RedisModel.thy ===== *)
theory RedisModel
  imports Prelude
begin

text \<open>
  The keyspace the Lua scripts of the program run on. A store maps keys to entries; an
  entry is a typed value with an optional expiry instant in server milliseconds. The
  commands are those the scripts call, with their documented effect on one entry; a
  command on a key \<open>k\<close> of a store \<open>s\<close> is always an update \<open>at_key k f s\<close> of
  that entry, so that a fact about one key never has to mention another.

  A collection whose last element is removed disappears (its key becomes absent), a write
  to a collection keeps its expiry, and \<open>SET\<close> clears it. A script runs at one instant:
  keys that have expired at that instant are absent for all of it (\<open>live\<close>). What the
  server is free to choose (the sample of \<open>SRANDMEMBER\<close>, the element of \<open>SPOP\<close>, the
  clock) is a parameter of the scripts that depend on it.
\<close>

section \<open>Entries\<close>

datatype rval =
    RStr string
  | RSet "string fset"
  | RZset "(string, int) fmap"
  | RHash "(string, string) fmap"

datatype rtype = TNone | TString | TSet | TZset | THash

type_synonym rentry = "(rval \<times> int option) option"
type_synonym 'k redis = "'k \<Rightarrow> rentry"

fun rtype_of :: "rentry \<Rightarrow> rtype" where
  "rtype_of None = TNone"
| "rtype_of (Some (RStr _, _)) = TString"
| "rtype_of (Some (RSet _, _)) = TSet"
| "rtype_of (Some (RZset _, _)) = TZset"
| "rtype_of (Some (RHash _, _)) = THash"

definition type_ok :: "rtype \<Rightarrow> rentry \<Rightarrow> bool" where
  "type_ok t e \<longleftrightarrow> rtype_of e = TNone \<or> rtype_of e = t"

subsection \<open>Reading an entry\<close>

fun rget :: "rentry \<Rightarrow> string option" where
  "rget (Some (RStr v, _)) = Some v"
| "rget _ = None"

fun smembers :: "rentry \<Rightarrow> string fset" where
  "smembers (Some (RSet m, _)) = m"
| "smembers _ = {||}"

fun zmap :: "rentry \<Rightarrow> (string, int) fmap" where
  "zmap (Some (RZset m, _)) = m"
| "zmap _ = fmempty"

fun hmap :: "rentry \<Rightarrow> (string, string) fmap" where
  "hmap (Some (RHash m, _)) = m"
| "hmap _ = fmempty"

fun rexpiry :: "rentry \<Rightarrow> int option" where
  "rexpiry None = None"
| "rexpiry (Some (_, x)) = x"

abbreviation scard :: "rentry \<Rightarrow> int" where
  "scard e \<equiv> int (fcard (smembers e))"

abbreviation zdom :: "rentry \<Rightarrow> string fset" where
  "zdom e \<equiv> fmdom (zmap e)"

abbreviation zcard :: "rentry \<Rightarrow> int" where
  "zcard e \<equiv> int (fcard (zdom e))"

abbreviation zscore :: "rentry \<Rightarrow> string \<Rightarrow> int option" where
  "zscore e x \<equiv> fmlookup (zmap e) x"

abbreviation hget :: "rentry \<Rightarrow> string \<Rightarrow> string option" where
  "hget e f \<equiv> fmlookup (hmap e) f"

text \<open>
  \<open>ZRANGE\<close> orders by score, then by the members' bytes; \<open>zfirst\<close> is \<open>ZRANGE key 0 0\<close>
  and \<open>zrange_le\<close> is \<open>ZRANGEBYSCORE key -inf b LIMIT 0 n\<close>.
\<close>

definition zsorted :: "rentry \<Rightarrow> (int \<times> string) list" where
  "zsorted e = sorted_list_of_fset ((\<lambda>x. (the (zscore e x), x)) |`| zdom e)"

definition zfirst :: "rentry \<Rightarrow> string option" where
  "zfirst e = (case zsorted e of [] \<Rightarrow> None | (_, x) # _ \<Rightarrow> Some x)"

definition zrange_le :: "int \<Rightarrow> nat \<Rightarrow> rentry \<Rightarrow> string list" where
  "zrange_le b n e = take n (map snd (filter (\<lambda>(sc, _). sc \<le> b) (zsorted e)))"

definition pttl :: "int \<Rightarrow> rentry \<Rightarrow> int" where
  "pttl now e = (case e of None \<Rightarrow> - 2 | Some (_, None) \<Rightarrow> - 1 | Some (_, Some x) \<Rightarrow> x - now)"

subsection \<open>Writing an entry\<close>

definition rset :: "string \<Rightarrow> rentry \<Rightarrow> rentry" where
  "rset v e = Some (RStr v, None)"

text \<open>\<open>SET key v PX ms NX\<close>: writes nothing when the key exists.\<close>

definition rset_nx_px :: "int \<Rightarrow> string \<Rightarrow> int \<Rightarrow> rentry \<Rightarrow> rentry" where
  "rset_nx_px now v ms e = (if e = None then Some (RStr v, Some (now + ms)) else e)"

definition rdel :: "rentry \<Rightarrow> rentry" where
  "rdel e = None"

fun sadd :: "string \<Rightarrow> rentry \<Rightarrow> rentry" where
  "sadd x None = Some (RSet {|x|}, None)"
| "sadd x (Some (RSet m, t)) = Some (RSet (finsert x m), t)"
| "sadd x e = e"

fun srem :: "string \<Rightarrow> rentry \<Rightarrow> rentry" where
  "srem x (Some (RSet m, t)) =
     (if m |-| {|x|} = {||} then None else Some (RSet (m |-| {|x|}), t))"
| "srem x e = e"

fun zadd :: "int \<Rightarrow> string \<Rightarrow> rentry \<Rightarrow> rentry" where
  "zadd sc x None = Some (RZset (fmupd x sc fmempty), None)"
| "zadd sc x (Some (RZset m, t)) = Some (RZset (fmupd x sc m), t)"
| "zadd sc x e = e"

fun zrem :: "string \<Rightarrow> rentry \<Rightarrow> rentry" where
  "zrem x (Some (RZset m, t)) =
     (if fmdom m |-| {|x|} = {||} then None else Some (RZset (fmdrop x m), t))"
| "zrem x e = e"

fun hset :: "string \<Rightarrow> string \<Rightarrow> rentry \<Rightarrow> rentry" where
  "hset f v None = Some (RHash (fmupd f v fmempty), None)"
| "hset f v (Some (RHash m, t)) = Some (RHash (fmupd f v m), t)"
| "hset f v e = e"

fun hdel :: "string \<Rightarrow> rentry \<Rightarrow> rentry" where
  "hdel f (Some (RHash m, t)) =
     (if fmdom m |-| {|f|} = {||} then None else Some (RHash (fmdrop f m), t))"
| "hdel f e = e"

fun persist :: "rentry \<Rightarrow> rentry" where
  "persist None = None"
| "persist (Some (v, _)) = Some (v, None)"

text \<open>\<open>PEXPIREAT\<close> with an instant that is not in the future deletes the key.\<close>

fun pexpireat :: "int \<Rightarrow> int \<Rightarrow> rentry \<Rightarrow> rentry" where
  "pexpireat now at None = None"
| "pexpireat now at (Some (v, _)) = (if at \<le> now then None else Some (v, Some at))"

definition pexpire :: "int \<Rightarrow> int \<Rightarrow> rentry \<Rightarrow> rentry" where
  "pexpire now ms e = pexpireat now (now + ms) e"

definition rename :: "'k \<Rightarrow> 'k \<Rightarrow> 'k redis \<Rightarrow> 'k redis" where
  "rename a b s k = (if k = a then None else if k = b then s a else s k)"

section \<open>Commands on the store\<close>

text \<open>A command applies an entry function at a key.\<close>

definition at_key :: "'k \<Rightarrow> (rentry \<Rightarrow> rentry) \<Rightarrow> 'k redis \<Rightarrow> 'k redis" where
  "at_key k f s k' = (if k' = k then f (s k) else s k')"

lemma at_key_same [simp]: "at_key k f s k = f (s k)"
  by (simp add: at_key_def)

lemma at_key_other [simp]: "k' \<noteq> k \<Longrightarrow> at_key k f s k' = s k'"
  by (simp add: at_key_def)

text \<open>The store a script sees at instant \<open>now\<close>: expired keys are gone.\<close>

fun live_entry :: "int \<Rightarrow> rentry \<Rightarrow> rentry" where
  "live_entry now (Some (v, Some x)) = (if x < now then None else Some (v, Some x))"
| "live_entry now e = e"

definition live :: "int \<Rightarrow> 'k redis \<Rightarrow> 'k redis" where
  "live now s = (\<lambda>k. live_entry now (s k))"

section \<open>Reading after writing\<close>

lemma type_okI [simp]: "type_ok t None"
  by (simp add: type_ok_def)

lemma type_ok_cases:
  assumes "type_ok t e"
  shows "e = None \<or> rtype_of e = t"
  using assms by (cases e) (auto simp: type_ok_def elim: rtype_of.elims)

lemma rtype_of_None_iff [simp]: "rtype_of e = TNone \<longleftrightarrow> e = None"
  by (cases e rule: rtype_of.cases) auto

lemma rget_rset [entry_simps, simp]: "rget (rset v e) = Some v"
  by (simp add: rset_def)

lemma rtype_rset [entry_simps, simp]: "rtype_of (rset v e) = TString"
  by (simp add: rset_def)

lemma rexpiry_rset [entry_simps, simp]: "rexpiry (rset v e) = None"
  by (simp add: rset_def)

lemma rset_ne_None [simp]: "rset v e \<noteq> None"
  by (simp add: rset_def)

lemma rdel_None [entry_simps, simp]: "rdel e = None"
  by (simp add: rdel_def)

lemma smembers_sadd [entry_simps]:
  "type_ok TSet e \<Longrightarrow> smembers (sadd x e) = finsert x (smembers e)"
  by (cases "(x, e)" rule: sadd.cases) (auto simp: type_ok_def)

lemma rtype_sadd [entry_simps]: "type_ok TSet e \<Longrightarrow> rtype_of (sadd x e) = TSet"
  by (cases "(x, e)" rule: sadd.cases) (auto simp: type_ok_def)

lemma rexpiry_sadd [entry_simps]: "rexpiry (sadd x e) = rexpiry e"
  by (cases "(x, e)" rule: sadd.cases) auto

lemma smembers_srem [entry_simps]: "smembers (srem x e) = smembers e |-| {|x|}"
  by (cases "(x, e)" rule: srem.cases) auto

lemma type_ok_srem [entry_simps]: "type_ok TSet e \<Longrightarrow> type_ok TSet (srem x e)"
  by (cases "(x, e)" rule: srem.cases) (auto simp: type_ok_def)

lemma type_ok_sadd [entry_simps]: "type_ok TSet e \<Longrightarrow> type_ok TSet (sadd x e)"
  by (simp add: rtype_sadd type_ok_def [of _ "sadd x e"])

lemma zmap_zadd [entry_simps]:
  "type_ok TZset e \<Longrightarrow> zmap (zadd sc x e) = fmupd x sc (zmap e)"
  by (cases "(sc, x, e)" rule: zadd.cases) (auto simp: type_ok_def)

lemma rtype_zadd [entry_simps]: "type_ok TZset e \<Longrightarrow> rtype_of (zadd sc x e) = TZset"
  by (cases "(sc, x, e)" rule: zadd.cases) (auto simp: type_ok_def)

lemma rexpiry_zadd [entry_simps]: "rexpiry (zadd sc x e) = rexpiry e"
  by (cases "(sc, x, e)" rule: zadd.cases) auto

lemma type_ok_zadd [entry_simps]: "type_ok TZset e \<Longrightarrow> type_ok TZset (zadd sc x e)"
  by (simp add: rtype_zadd type_ok_def [of _ "zadd sc x e"])

lemma fmdrop_empty: "fmdom m |-| {|x|} = {||} \<Longrightarrow> fmdrop x m = fmempty"
  by (metis fmdom_drop fmrestrict_fset_dom fmrestrict_fset_null)

lemma zmap_zrem [entry_simps]: "zmap (zrem x e) = fmdrop x (zmap e)"
  by (cases "(x, e)" rule: zrem.cases) (auto simp: fmdrop_empty)

lemma type_ok_zrem [entry_simps]: "type_ok TZset e \<Longrightarrow> type_ok TZset (zrem x e)"
  by (cases "(x, e)" rule: zrem.cases) (auto simp: type_ok_def)

lemma hmap_hset [entry_simps]:
  "type_ok THash e \<Longrightarrow> hmap (hset f v e) = fmupd f v (hmap e)"
  by (cases "(f, v, e)" rule: hset.cases) (auto simp: type_ok_def)

lemma rtype_hset [entry_simps]: "type_ok THash e \<Longrightarrow> rtype_of (hset f v e) = THash"
  by (cases "(f, v, e)" rule: hset.cases) (auto simp: type_ok_def)

lemma type_ok_hset [entry_simps]: "type_ok THash e \<Longrightarrow> type_ok THash (hset f v e)"
  by (simp add: rtype_hset type_ok_def [of _ "hset f v e"])

lemma hmap_hdel [entry_simps]: "hmap (hdel f e) = fmdrop f (hmap e)"
  by (cases "(f, e)" rule: hdel.cases) (auto simp: fmdrop_empty)

lemma type_ok_hdel [entry_simps]: "type_ok THash e \<Longrightarrow> type_ok THash (hdel f e)"
  by (cases "(f, e)" rule: hdel.cases) (auto simp: type_ok_def)

lemma persist_reads [entry_simps, simp]:
  "smembers (persist e) = smembers e" "zmap (persist e) = zmap e" "hmap (persist e) = hmap e"
  "rget (persist e) = rget e" "rtype_of (persist e) = rtype_of e" "rexpiry (persist e) = None"
  "type_ok t (persist e) = type_ok t e" "persist e = None \<longleftrightarrow> e = None"
  by (cases e rule: rtype_of.cases; simp add: type_ok_def)+

lemma pexpireat_reads [entry_simps]:
  assumes "now < t"
  shows "smembers (pexpireat now t e) = smembers e" "zmap (pexpireat now t e) = zmap e"
    "hmap (pexpireat now t e) = hmap e" "rget (pexpireat now t e) = rget e"
    "rtype_of (pexpireat now t e) = rtype_of e"
    "type_ok tt (pexpireat now t e) = type_ok tt e" "pexpireat now t e = None \<longleftrightarrow> e = None"
    "e \<noteq> None \<Longrightarrow> rexpiry (pexpireat now t e) = Some t"
  using assms by (cases e rule: rtype_of.cases; simp add: type_ok_def)+

text \<open>A set or index entry is absent exactly when it has no elements.\<close>

definition proper :: "rentry \<Rightarrow> bool" where
  "proper e \<longleftrightarrow> (case e of
     Some (RSet m, _) \<Rightarrow> m \<noteq> {||}
   | Some (RZset m, _) \<Rightarrow> fmdom m \<noteq> {||}
   | Some (RHash m, _) \<Rightarrow> fmdom m \<noteq> {||}
   | _ \<Rightarrow> True)"

lemma proper_None [simp]: "proper None"
  by (simp add: proper_def)

lemma proper_writes [entry_simps, intro]:
  "proper (rset v e)"
  "proper e \<Longrightarrow> proper (sadd x e)" "proper e \<Longrightarrow> proper (srem x e)"
  "proper e \<Longrightarrow> proper (zadd sc x e)" "proper e \<Longrightarrow> proper (zrem x e)"
  "proper e \<Longrightarrow> proper (hset f v e)" "proper e \<Longrightarrow> proper (hdel f e)"
  "proper e \<Longrightarrow> proper (persist e)" "proper e \<Longrightarrow> proper (pexpireat now t e)"
  by (cases e rule: rtype_of.cases; auto simp: proper_def rset_def)+

lemma proper_zset_absent_iff:
  "proper e \<Longrightarrow> type_ok TZset e \<Longrightarrow> e = None \<longleftrightarrow> zdom e = {||}"
  by (cases e rule: rtype_of.cases) (auto simp: proper_def type_ok_def)

section \<open>The first element of a sorted set\<close>

lemma set_zsorted: "set (zsorted e) = (\<lambda>x. (the (zscore e x), x)) ` fset (zdom e)"
  by (simp add: zsorted_def sorted_list_of_fset.rep_eq)

lemma sorted_zsorted: "sorted (zsorted e)"
  by (simp add: zsorted_def sorted_list_of_fset.rep_eq)

lemma zfirst_None_iff: "zfirst e = None \<longleftrightarrow> zdom e = {||}"
proof -
  have "zsorted e = [] \<longleftrightarrow> fset (zdom e) = {}"
    using set_zsorted [of e] by (metis image_is_empty set_empty)
  then show ?thesis
    by (auto simp: zfirst_def bot_fset.rep_eq split: list.splits)
qed

lemma zfirst_SomeD:
  assumes "zfirst e = Some c"
  shows "c |\<in>| zdom e" and "\<And>x. x |\<in>| zdom e \<Longrightarrow> (the (zscore e c), c) \<le> (the (zscore e x), x)"
proof -
  from assms obtain sc rest where z: "zsorted e = (sc, c) # rest"
    by (auto simp: zfirst_def split: list.splits prod.splits)
  then have "(sc, c) \<in> set (zsorted e)" by simp
  then show c: "c |\<in>| zdom e" by (auto simp: set_zsorted)
  from \<open>(sc, c) \<in> set (zsorted e)\<close> have sc: "sc = the (zscore e c)"
    by (auto simp: set_zsorted)
  show "(the (zscore e c), c) \<le> (the (zscore e x), x)" if "x |\<in>| zdom e" for x
  proof -
    from that have "(the (zscore e x), x) \<in> set (zsorted e)"
      by (auto simp: set_zsorted)
    with z sorted_zsorted [of e] sc show ?thesis by auto
  qed
qed

lemma zrange_le_subset:
  assumes "x \<in> set (zrange_le b n e)"
  shows "x |\<in>| zdom e \<and> the (zscore e x) \<le> b"
proof -
  from assms have "x \<in> snd ` set (filter (\<lambda>(sc, _). sc \<le> b) (zsorted e))"
    unfolding zrange_le_def by (metis in_set_takeD set_map)
  then show ?thesis by (auto simp: set_zsorted)
qed

lemma live_entry_idem [simp]: "live_entry now (live_entry now e) = live_entry now e"
  by (cases "(now, e)" rule: live_entry.cases) auto

lemma live_idem [simp]: "live now (live now s) = live now s"
  by (simp add: live_def)

lemma live_mono: "a \<le> b \<Longrightarrow> live b (live a s) = live b s"
proof (rule ext)
  fix k assume "a \<le> b"
  then show "live b (live a s) k = live b s k"
    by (cases "(a, s k)" rule: live_entry.cases) (auto simp: live_def)
qed

lemma live_cases: "live now s k = s k \<or> live now s k = None"
  by (cases "(now, s k)" rule: live_entry.cases) (auto simp: live_def)

section \<open>A range by score\<close>

definition scored_le :: "int \<Rightarrow> rentry \<Rightarrow> string set" where
  "scored_le b e = {x. x |\<in>| zdom e \<and> the (zscore e x) \<le> b}"

lemma distinct_zsorted: "distinct (zsorted e)"
  by (simp add: zsorted_def sorted_list_of_fset.rep_eq)

lemma zrange_filter_set: "set (map snd (filter (\<lambda>(sc, _). sc \<le> b) (zsorted e))) = scored_le b e"
  by (force simp: set_zsorted scored_le_def)

lemma distinct_zrange_filter: "distinct (map snd (filter (\<lambda>(sc, _). sc \<le> b) (zsorted e)))"
proof -
  have "inj_on snd (set (filter (\<lambda>(sc, _). sc \<le> b) (zsorted e)))"
    by (auto simp: inj_on_def set_zsorted)
  then show ?thesis by (simp add: distinct_map distinct_zsorted)
qed

lemma zrange_le_all:
  assumes "card (scored_le b e) \<le> n"
  shows "set (zrange_le b n e) = scored_le b e"
proof -
  let ?xs = "map snd (filter (\<lambda>(sc, _). sc \<le> b) (zsorted e))"
  have "length ?xs = card (scored_le b e)"
    using distinct_card [OF distinct_zrange_filter, of b e] unfolding zrange_filter_set by simp
  with assms have "take n ?xs = ?xs" by (metis take_all)
  then show ?thesis unfolding zrange_le_def zrange_filter_set [symmetric] by simp
qed

lemma zrange_le_scored: "set (zrange_le b n e) \<subseteq> scored_le b e"
  using zrange_le_subset by (auto simp: scored_le_def)

lemma rexpiry_hset [entry_simps, simp]: "rexpiry (hset f v e) = rexpiry e"
  by (cases "(f, v, e)" rule: hset.cases) auto

lemma rexpiry_hdel_None [entry_simps, simp]: "rexpiry e = None \<Longrightarrow> rexpiry (hdel f e) = None"
  by (cases "(f, e)" rule: hdel.cases) auto

end
