(* ===== verification/LikeKeys.thy ===== *)
theory LikeKeys
  imports RedisModel
begin

text \<open>
  The keys of the Like subsystem (\<open>likes/keys.go\<close>). A key is a constructor applied to the
  decimal ids it embeds; \<open>render\<close> is the string the Go functions print. The scripts
  address the store by these constructors, which is sound because \<open>render\<close> is injective
  on keys whose ids are digit strings: two constructors never name the same Redis key.
\<close>

section \<open>Keys\<close>

datatype lkey =
    KDirty | KProcessing | KClaims | KRegistry | KExpiryCandidates | KRecoverableVersions
  | KBehaviorDirty | KBehaviorState | KBehaviorProcessing | KBehaviorClaims
  | KUserLikesExpiryLedger
  | KReady string | KCount string | KUsers string | KVersion string | KRebuildToken string
  | KUserLikes string | KUserLikesOrder string | KUserLikesRestoreLock string
  | KUserLikesRestoreTemp string string | KUserLikesRestoreOrderTemp string string

type_synonym lstore = "lkey redis"

fun render :: "lkey \<Rightarrow> string" where
  "render KDirty = ''post:likes:dirty''"
| "render KProcessing = ''post:likes:processing''"
| "render KClaims = ''post:likes:claims''"
| "render KRegistry = ''post:likes:registry''"
| "render KExpiryCandidates = ''post:likes:expiry:candidates''"
| "render KRecoverableVersions = ''post:likes:recoverable:versions''"
| "render KBehaviorDirty = ''post:likes:behavior:dirty''"
| "render KBehaviorState = ''post:likes:behavior:state''"
| "render KBehaviorProcessing = ''post:likes:behavior:processing''"
| "render KBehaviorClaims = ''post:likes:behavior:claims''"
| "render KUserLikesExpiryLedger = ''user:likes:expiry:ledger''"
| "render (KReady p) = ''post:like:'' @ p @ '':ready''"
| "render (KCount p) = ''post:like:'' @ p @ '':count''"
| "render (KUsers p) = ''post:like:'' @ p @ '':users''"
| "render (KVersion p) = ''post:like:'' @ p @ '':version''"
| "render (KRebuildToken p) = ''post:like:'' @ p @ '':rebuild-token''"
| "render (KUserLikes u) = ''user:likes:'' @ u"
| "render (KUserLikesOrder u) = ''user:likes:order:'' @ u"
| "render (KUserLikesRestoreLock u) = ''user:likes:restore:lock:'' @ u"
| "render (KUserLikesRestoreTemp u t) = ''user:likes:restore:tmp:'' @ u @ '':'' @ t"
| "render (KUserLikesRestoreOrderTemp u t) = ''user:likes:restore:order:tmp:'' @ u @ '':'' @ t"

definition ReadyKey :: "nat \<Rightarrow> lkey" where "ReadyKey p = KReady (show_nat p)"
definition CountKey :: "nat \<Rightarrow> lkey" where "CountKey p = KCount (show_nat p)"
definition UsersKey :: "nat \<Rightarrow> lkey" where "UsersKey p = KUsers (show_nat p)"
definition VersionKey :: "nat \<Rightarrow> lkey" where "VersionKey p = KVersion (show_nat p)"
definition RebuildTokenKey :: "nat \<Rightarrow> lkey" where "RebuildTokenKey p = KRebuildToken (show_nat p)"
definition UserLikesKey :: "nat \<Rightarrow> lkey" where "UserLikesKey u = KUserLikes (show_nat u)"
definition UserLikesOrderKey :: "nat \<Rightarrow> lkey" where
  "UserLikesOrderKey u = KUserLikesOrder (show_nat u)"
definition UserLikesRestoreLockKey :: "nat \<Rightarrow> lkey" where
  "UserLikesRestoreLockKey u = KUserLikesRestoreLock (show_nat u)"
definition UserLikesRestoreTempKey :: "nat \<Rightarrow> string \<Rightarrow> lkey" where
  "UserLikesRestoreTempKey u t = KUserLikesRestoreTemp (show_nat u) t"
definition UserLikesRestoreOrderTempKey :: "nat \<Rightarrow> string \<Rightarrow> lkey" where
  "UserLikesRestoreOrderTempKey u t = KUserLikesRestoreOrderTemp (show_nat u) t"

text \<open>\<open>BehaviorPair\<close> names a user's relation to a post in the behaviour queue.\<close>

definition pair_of :: "string \<Rightarrow> string \<Rightarrow> string" where
  "pair_of u p = u @ '':'' @ p"

definition BehaviorPair :: "nat \<Rightarrow> nat \<Rightarrow> string" where
  "BehaviorPair u p = pair_of (show_nat u) (show_nat p)"

definition UserLikesInitSentinel :: string where
  "UserLikesInitSentinel = ''0''"

lemmas key_defs = ReadyKey_def CountKey_def UsersKey_def VersionKey_def RebuildTokenKey_def
  UserLikesKey_def UserLikesOrderKey_def UserLikesRestoreLockKey_def
  UserLikesRestoreTempKey_def UserLikesRestoreOrderTempKey_def

section \<open>Distinct keys have distinct names\<close>

fun key_ids :: "lkey \<Rightarrow> string list" where
  "key_ids (KReady p) = [p]"
| "key_ids (KCount p) = [p]"
| "key_ids (KUsers p) = [p]"
| "key_ids (KVersion p) = [p]"
| "key_ids (KRebuildToken p) = [p]"
| "key_ids (KUserLikes u) = [u]"
| "key_ids (KUserLikesOrder u) = [u]"
| "key_ids (KUserLikesRestoreLock u) = [u]"
| "key_ids (KUserLikesRestoreTemp u t) = [u]"
| "key_ids (KUserLikesRestoreOrderTemp u t) = [u]"
| "key_ids _ = []"

definition wf_key :: "lkey \<Rightarrow> bool" where
  "wf_key k \<longleftrightarrow> list_all digits_only (key_ids k)"

lemma wf_key_generated [simp]:
  "wf_key (ReadyKey p)" "wf_key (CountKey p)" "wf_key (UsersKey p)" "wf_key (VersionKey p)"
  "wf_key (RebuildTokenKey p)" "wf_key (UserLikesKey p)" "wf_key (UserLikesOrderKey p)"
  "wf_key (UserLikesRestoreLockKey p)" "wf_key (UserLikesRestoreTempKey p t)"
  "wf_key (UserLikesRestoreOrderTempKey p t)"
  by (simp_all add: wf_key_def key_defs)

lemma not_digits [simp]:
  "\<not> is_digit CHR '':''" "\<not> is_digit CHR ''o''" "\<not> is_digit CHR ''r''" "\<not> is_digit CHR ''e''"
  by (simp_all add: is_digit_def)

lemma digits_sep:
  assumes "list_all is_digit a" and "list_all is_digit b" and "\<not> is_digit c"
  shows "a @ c # x = b @ c # y \<longleftrightarrow> a = b \<and> x = y"
proof (rule iffI)
  assume eq: "a @ c # x = b @ c # y"
  then have "takeWhile is_digit (a @ c # x) = takeWhile is_digit (b @ c # y)" by simp
  with assms have "a = b"
    by (simp add: takeWhile_append2 list_all_iff)
  with eq show "a = b \<and> x = y" by simp
qed simp

lemma digits_colon_iff [simp]:
  assumes "digits_only a" and "digits_only b"
  shows "a @ CHR '':'' # x = b @ CHR '':'' # y \<longleftrightarrow> a = b \<and> x = y"
  using assms by (simp add: digits_sep digits_only_def)

lemma digits_not_word [simp]:
  assumes "digits_only a"
  shows "a \<noteq> CHR ''o'' # x" "a \<noteq> CHR ''r'' # x" "a \<noteq> CHR ''e'' # x"
    "CHR ''o'' # x \<noteq> a" "CHR ''r'' # x \<noteq> a" "CHR ''e'' # x \<noteq> a"
  using assms by (auto simp: digits_only_def)

text \<open>
  Two different keys of the Like subsystem never print the same Redis key, as long as
  the ids they embed are decimal: no operation on one key can touch another one's value.
\<close>

theorem render_injective:
  assumes "wf_key k" and "wf_key k'" and "render k = render k'"
  shows "k = k'"
  using assms by (cases k; cases k') (simp_all add: wf_key_def)

theorem render_injective_witness:
  "wf_key (ReadyKey 12) \<and> wf_key (KReady ''12'') \<and> ReadyKey 12 = KReady ''12''"
proof -
  have a: "wf_key (ReadyKey 12)" by simp
  have b: "wf_key (KReady ''12'')"
    by (simp add: wf_key_def digits_only_def is_digit_def)
  have c: "render (ReadyKey 12) = render (KReady ''12'')"
    by (simp add: ReadyKey_def show_nat.simps digit_char_def)
  show ?thesis using a b render_injective [OF a b c] by simp
qed

lemma pair_of_inject:
  assumes "digits_only u" and "digits_only u'"
  shows "pair_of u p = pair_of u' p' \<longleftrightarrow> u = u' \<and> p = p'"
  using assms by (simp add: pair_of_def)

lemma BehaviorPair_inject [simp]: "BehaviorPair u p = BehaviorPair u' p' \<longleftrightarrow> u = u' \<and> p = p'"
  by (simp add: BehaviorPair_def pair_of_inject)

end
