(* ===== verification/LikeMutate.thy ===== *)
theory LikeMutate
  imports LikeKeys
begin

text \<open>
  The hot path of a Like: \<open>mutateScript\<close> of \<open>likes/scripts.go\<close>, run by
  \<open>Store.Mutate\<close> on the twelve keys of one user and one post. A user's relations are a
  set (with the sentinel member \<open>"0"\<close>) and an order index over the same posts; a post has
  a ready flag, a count and a version. The script is split along its own phases: guards,
  eviction plan, eviction, relation change, expiry refresh.

  Numbers are exact integers: Lua's doubles are exact below 2^53. A number handed to
  \<open>redis.call\<close> is stored in full; one that is concatenated into a string is printed with
  \<open>%.14g\<close>, which is \<open>lua_text\<close> below; the order score (microseconds) is printed with \<open>%.0f\<close>.
\<close>

section \<open>Server time\<close>

text \<open>\<open>TIME\<close> returns seconds and microseconds; the scripts derive milliseconds and a score.\<close>

type_synonym server_time = "nat \<times> nat"

definition time_ms :: "server_time \<Rightarrow> int" where
  "time_ms t = int (fst t) * 1000 + int (snd t) div 1000"

definition time_us :: "server_time \<Rightarrow> int" where
  "time_us t = int (fst t) * 1000000 + int (snd t)"

section \<open>The script\<close>

text \<open>\<open>SCARD - 1\<close>: the relations of a user, the sentinel not counted.\<close>

definition active_of :: "rentry \<Rightarrow> int" where
  "active_of e = scard e - 1"

text \<open>
  The consistency check of a user's set and order index that every user script repeats:
  a non-empty relation needs an index, an index has one member per relation.
\<close>

definition order_guards :: "rentry \<Rightarrow> rentry \<Rightarrow> (bool \<times> string) list" where
  "order_guards likes order =
     [(active_of likes > 0 \<and> order = None, ''LIKE_USER_ORDER_MISSING''),
      ((order \<noteq> None \<and> zcard order \<noteq> active_of likes) \<or> (active_of likes = 0 \<and> order \<noteq> None),
         ''LIKE_USER_ORDER_INCONSISTENT'')]"

definition mutate_types_ok :: "string \<Rightarrow> string \<Rightarrow> lstore \<Rightarrow> bool" where
  "mutate_types_ok u p s \<longleftrightarrow>
     type_ok TString (s (KCount p)) \<and> type_ok TString (s (KVersion p)) \<and>
     type_ok TSet (s (KUserLikes u)) \<and> type_ok TSet (s KDirty) \<and>
     type_ok TSet (s KBehaviorDirty) \<and> type_ok THash (s KBehaviorState) \<and>
     type_ok TSet (s KRegistry) \<and> type_ok TZset (s KExpiryCandidates) \<and>
     type_ok THash (s KRecoverableVersions) \<and> type_ok THash (s KUserLikesExpiryLedger) \<and>
     type_ok TZset (s (KUserLikesOrder u))"

definition bad_id :: "string \<Rightarrow> bool" where
  "bad_id x \<longleftrightarrow> \<not> digits_only x \<or> x = ''0''"

definition digits_entry :: "rentry \<Rightarrow> bool" where
  "digits_entry e \<longleftrightarrow> (case rget e of None \<Rightarrow> False | Some v \<Rightarrow> digits_only v)"

definition num_of :: "rentry \<Rightarrow> nat" where
  "num_of e = (case rget e of None \<Rightarrow> 0 | Some v \<Rightarrow> tonum v)"

definition mutate_guards :: "string \<Rightarrow> string \<Rightarrow> int \<Rightarrow> lstore \<Rightarrow> string option" where
  "mutate_guards u p cap s = first_error
    ([(\<not> type_ok TString (s (KReady p)), ''LIKE_TYPE_PRECHECK''),
      (rget (s (KReady p)) = Some ''deleted'', ''LIKE_POST_DELETED''),
      (\<not> mutate_types_ok u p s, ''LIKE_TYPE_PRECHECK''),
      (bad_id p \<or> bad_id u, ''LIKE_POST_NOT_READY''),
      (''0'' |\<notin>| smembers (s (KUserLikes u)), ''LIKE_USER_NOT_READY''),
      (active_of (s (KUserLikes u)) > cap, ''LIKE_USER_OVER_CAP'')]
     @ order_guards (s (KUserLikes u)) (s (KUserLikesOrder u)) @
     [(rget (s (KReady p)) \<noteq> Some ''1'', ''LIKE_POST_NOT_READY''),
      (rget (s (KCount p)) = None \<or> rget (s (KVersion p)) = None, ''LIKE_POST_NOT_READY''),
      (\<not> digits_entry (s (KCount p)) \<or> \<not> digits_entry (s (KVersion p)), ''LIKE_POST_NOT_READY''),
      ((p |\<in>| smembers (s (KUserLikes u))) \<noteq> (zscore (s (KUserLikesOrder u)) p \<noteq> None),
         ''LIKE_USER_ORDER_INCONSISTENT'')])"

text \<open>
  The relation to evict when a new one would exceed the cap: the lowest of the order
  index. A candidate of a deleted post is stale (\<open>None\<close>): its relation goes, its counters
  are already gone. Otherwise its count and version are read and checked.
\<close>

definition plan_eviction :: "string \<Rightarrow> lstore \<Rightarrow> (string \<times> (nat \<times> nat) option) res" where
  "plan_eviction u s =
     (case zfirst (s (KUserLikesOrder u)) of
        None \<Rightarrow> Inl ''LIKE_USER_ORDER_INCONSISTENT''
      | Some c \<Rightarrow>
         (case first_error
            [(bad_id c, ''LIKE_USER_ORDER_INCONSISTENT''),
             (c |\<notin>| smembers (s (KUserLikes u)), ''LIKE_USER_ORDER_INCONSISTENT''),
             (\<not> type_ok TString (s (KReady c)), ''LIKE_USER_EVICTION_POST_TYPE'')] of
            Some e \<Rightarrow> Inl e
          | None \<Rightarrow>
             if rget (s (KReady c)) = Some ''deleted'' then Inr (c, None)
             else (case first_error
               [(rget (s (KReady c)) \<noteq> Some ''1'', ''LIKE_USER_EVICTION_POST_NOT_READY''),
                (\<not> type_ok TString (s (KCount c)) \<or> \<not> type_ok TString (s (KVersion c)),
                   ''LIKE_USER_EVICTION_POST_TYPE''),
                (\<not> digits_entry (s (KCount c)) \<or> \<not> digits_entry (s (KVersion c)),
                   ''LIKE_USER_EVICTION_POST_NOT_READY''),
                (num_of (s (KCount c)) \<le> 0, ''LIKE_USER_EVICTION_COUNT_INCONSISTENT'')] of
               Some e \<Rightarrow> Inl e
             | None \<Rightarrow> Inr (c, Some (num_of (s (KCount c)), num_of (s (KVersion c)))))))"

text \<open>
  A number in Lua's \<open>..\<close> is printed with \<open>%.14g\<close>: in full up to 14 digits, from \<open>10^14\<close> on as
  a mantissa of 14 digits, rounded half to even, without its trailing zeros, and an exponent.
\<close>

definition scientific_text :: "nat \<Rightarrow> nat \<Rightarrow> string" where
  "scientific_text m e =
     (let (m, e) = (if m = 10 ^ 14 then (10 ^ 13, e + 1) else (m, e));
          ds = show_nat m;
          frac = rev (dropWhile (\<lambda>c. c = CHR ''0'') (rev (tl ds)))
      in hd ds # (if frac = [] then [] else CHR ''.'' # frac) @ ''e+'' @
         (if e < 10 then ''0'' else []) @ show_nat e)"

definition lua_text :: "nat \<Rightarrow> string" where
  "lua_text n =
     (if n < 10 ^ 14 then show_nat n
      else
        (let e = length (show_nat n) - 1;
             d = 10 ^ (e - 13);
             q = n div d;
             r = n mod d
         in scientific_text (if 2 * r > d \<or> (2 * r = d \<and> odd q) then q + 1 else q) e))"

text \<open>The encoded state of a relation in the behaviour queue: flag, version, microseconds.\<close>

definition behavior_state :: "string \<Rightarrow> nat \<Rightarrow> int \<Rightarrow> string" where
  "behavior_state flag version us = flag @ ''|'' @ lua_text version @ ''|'' @ show_int us"

lemma scientific_text_no_sep: "CHR ''|'' \<notin> set (scientific_text m e)"
proof -
  have n: "CHR ''|'' \<notin> set (show_nat n)" for n by (simp add: show_nat_no_sep is_digit_def)
  have h: "CHR ''|'' \<noteq> hd (show_nat n)" for n using n [of n] hd_in_set [OF show_nat_ne [of n]] by metis
  have f: "CHR ''|'' \<notin> set (dropWhile P (rev (tl (show_nat n))))" for n P
    using n [of n] by (auto dest!: set_dropWhileD list.set_sel(2) [OF show_nat_ne])
  show ?thesis
    unfolding scientific_text_def Let_def split_def
    by (simp add: n h f)
qed

lemma lua_text_no_sep: "CHR ''|'' \<notin> set (lua_text n)"
  by (simp add: lua_text_def Let_def scientific_text_no_sep show_nat_no_sep is_digit_def)

lemma lua_text_ne [simp]: "lua_text n \<noteq> []"
  by (simp add: lua_text_def scientific_text_def Let_def split_def)

lemma lua_text_small [simp]: "n < 10 ^ 14 \<Longrightarrow> lua_text n = show_nat n"
  by (simp add: lua_text_def)

text \<open>From \<open>10^14\<close> on the text is no decimal integer any more: \<open>ParseInt\<close> refuses it.\<close>

lemma scientific_text_exponent: "CHR ''e'' \<in> set (scientific_text m e)"
  by (simp add: scientific_text_def Let_def split_def)

lemma parse_int64_exponent: "CHR ''e'' \<in> set s \<Longrightarrow> parse_int64 s = None"
proof (cases s)
  case (Cons c r)
  assume e: "CHR ''e'' \<in> set s"
  have "\<not> digits_only x" if "CHR ''e'' \<in> set x" for x
    using that digits_only_imp_digit [of x "CHR ''e''"] by (auto simp: is_digit_def)
  from this [of r] this [of s] e Cons show ?thesis by auto
qed simp

lemma lua_text_large: "\<not> n < 10 ^ 14 \<Longrightarrow> parse_int64 (lua_text n) = None"
  by (simp add: lua_text_def Let_def parse_int64_exponent scientific_text_exponent)

lemma lua_text_samples:
  "lua_text 99999999999999 = ''99999999999999''" "lua_text (10 ^ 14) = ''1e+14''"
  "lua_text 123456789012345 = ''1.2345678901234e+14''" "lua_text 123456789012355 = ''1.2345678901236e+14''"
  "lua_text 999999999999999 = ''1e+15''"
  by (simp_all add: lua_text_def scientific_text_def show_nat.simps digit_char_def)

lemma lua_text_parses:
  assumes "parse_int64 (lua_text n) = Some i"
  shows "show_int i = lua_text n"
proof -
  have n: "n < 10 ^ 14" using assms lua_text_large [of n] by (cases "n < 10 ^ 14") simp_all
  then have "n < 2 ^ 63" by simp
  then have "parse_int64 (lua_text n) = Some (int n)" by (simp only: lua_text_small [OF n] parse_int64_show)
  with assms show ?thesis by (simp add: lua_text_small [OF n] del: lua_text_small)
qed

text \<open>
  The effect on one post: counters written without expiry, the post registered, marked
  dirty for the snapshot relay, and the user's new relation state queued as behaviour.
\<close>

definition touch_post ::
  "string \<Rightarrow> string \<Rightarrow> string \<Rightarrow> nat \<Rightarrow> nat \<Rightarrow> int \<Rightarrow> int \<Rightarrow> lstore \<Rightarrow> lstore" where
  "touch_post u p flag count version now_ms us s =
     (let s = at_key (KReady p) persist s;
          s = at_key (KCount p) persist s;
          s = at_key (KVersion p) persist s;
          s = at_key KRecoverableVersions (hdel p) s;
          s = at_key KRegistry (sadd p) s;
          s = at_key (KCount p) (rset (show_nat count)) s;
          s = at_key (KVersion p) (rset (show_nat version)) s;
          s = at_key KDirty (sadd p) s;
          s = at_key KBehaviorState (hset (pair_of u p) (behavior_state flag version us)) s;
          s = at_key KBehaviorDirty (sadd (pair_of u p)) s
      in at_key KExpiryCandidates (zadd now_ms p) s)"

definition remove_relation :: "string \<Rightarrow> string \<Rightarrow> lstore \<Rightarrow> lstore" where
  "remove_relation u p s = at_key (KUserLikesOrder u) (zrem p) (at_key (KUserLikes u) (srem p) s)"

definition add_relation :: "string \<Rightarrow> string \<Rightarrow> int \<Rightarrow> lstore \<Rightarrow> lstore" where
  "add_relation u p score s =
     at_key (KUserLikesOrder u) (zadd score p) (at_key (KUserLikes u) (sadd p) s)"

definition apply_eviction ::
  "string \<Rightarrow> (string \<times> (nat \<times> nat) option) option \<Rightarrow> int \<Rightarrow> int \<Rightarrow> lstore \<Rightarrow> lstore" where
  "apply_eviction u plan now_ms us s =
     (case plan of
        None \<Rightarrow> s
      | Some (c, None) \<Rightarrow> remove_relation u c s
      | Some (c, Some (n, v)) \<Rightarrow>
          touch_post u c ''0'' (n - 1) (v + 1) now_ms us (remove_relation u c s))"

text \<open>The expiry of the user's relations: refreshed when arming is on, removed otherwise.\<close>

definition refresh_user_ttl :: "string \<Rightarrow> bool \<Rightarrow> int \<Rightarrow> int \<Rightarrow> bool \<Rightarrow> lstore \<Rightarrow> lstore" where
  "refresh_user_ttl u arming now ttl has_order s =
     (if arming then
        (let s = at_key (KUserLikes u) (pexpireat now (now + ttl)) s;
             s = (if has_order then at_key (KUserLikesOrder u) (pexpireat now (now + ttl)) s else s)
         in at_key KUserLikesExpiryLedger (hset u (show_int (now + ttl))) s)
      else
        (let s = at_key (KUserLikes u) persist s;
             s = at_key (KUserLikesOrder u) persist s
         in at_key KUserLikesExpiryLedger (hdel u) s))"

record mutate_reply =
  mr_count :: nat
  mr_current :: bool
  mr_changed :: bool
  mr_version :: nat
  mr_ttl_state :: bool
  mr_candidate :: string
  mr_active :: int
  mr_will_evict :: bool
  mr_stale :: bool

text \<open>
  \<open>mutate_script u p liked now_ms ttl arming cap t s\<close>: the script with ARGV 1 to 7 at
  server time \<open>t\<close>. Every guard fires before the first write, so an error leaves the
  store as it was.
\<close>

definition mutate_script ::
  "string \<Rightarrow> string \<Rightarrow> bool \<Rightarrow> int \<Rightarrow> int \<Rightarrow> bool \<Rightarrow> int \<Rightarrow> server_time \<Rightarrow> lstore \<Rightarrow>
   lstore \<times> mutate_reply res" where
  "mutate_script u p liked now_ms ttl arming cap t s =
    (case mutate_guards u p cap s of
       Some e \<Rightarrow> (s, Inl e)
     | None \<Rightarrow>
        (let count = num_of (s (KCount p));
             version = num_of (s (KVersion p));
             active = active_of (s (KUserLikes u));
             current = (p |\<in>| smembers (s (KUserLikes u)));
             changed = (liked \<noteq> current);
             will_evict = (liked \<and> \<not> current \<and> active \<ge> cap)
         in case (if will_evict then map_sum id Some (plan_eviction u s) else Inr None) of
              Inl e \<Rightarrow> (s, Inl e)
            | Inr plan \<Rightarrow>
               (let cand = (case plan of None \<Rightarrow> '''' | Some (c, _) \<Rightarrow> c);
                    stale = (case plan of Some (_, None) \<Rightarrow> True | _ \<Rightarrow> False)
                in if \<not> changed then
                     (refresh_user_ttl u arming (time_ms t) ttl (active > 0) s,
                      Inr \<lparr>mr_count = count, mr_current = current, mr_changed = False,
                           mr_version = version, mr_ttl_state = arming, mr_candidate = cand,
                           mr_active = active, mr_will_evict = will_evict, mr_stale = stale\<rparr>)
                   else if \<not> liked \<and> count = 0 then (s, Inl ''LIKE_COUNT_INCONSISTENT'')
                   else if \<not> liked \<and> current \<and> zscore (s (KUserLikesOrder u)) p = None
                   then (s, Inl ''LIKE_USER_ORDER_INCONSISTENT'')
                   else
                     (let us = time_us t;
                          s1 = apply_eviction u plan now_ms us s;
                          active1 = (if will_evict then active - 1 else active);
                          s2 = (if liked then add_relation u p us s1 else remove_relation u p s1);
                          count' = (if liked then count + 1 else count - 1);
                          s3 = touch_post u p (if liked then ''1'' else ''0'') count' (version + 1)
                                 now_ms us s2;
                          active' = active1 + (if liked then 1 else - 1)
                      in (refresh_user_ttl u arming (time_ms t) ttl (active' > 0) s3,
                          Inr \<lparr>mr_count = count', mr_current = liked, mr_changed = True,
                               mr_version = version + 1, mr_ttl_state = arming,
                               mr_candidate = cand, mr_active = active',
                               mr_will_evict = will_evict, mr_stale = stale\<rparr>)))))"

section \<open>What each phase writes\<close>

lemma touch_post_reads [simp]:
  "touch_post u p flag c v now us s (KUserLikes x) = s (KUserLikes x)"
    "touch_post u p flag c v now us s (KUserLikesOrder x) = s (KUserLikesOrder x)"
    "touch_post u p flag c v now us s KUserLikesExpiryLedger = s KUserLikesExpiryLedger"
    "touch_post u p flag c v now us s (KReady q) = (if q = p then persist (s (KReady p)) else s (KReady q))"
    "touch_post u p flag c v now us s (KCount q) = (if q = p then Some (RStr (show_nat c), None) else s (KCount q))"
    "touch_post u p flag c v now us s (KVersion q) = (if q = p then Some (RStr (show_nat v), None) else s (KVersion q))"
    "touch_post u p flag c v now us s KDirty = sadd p (s KDirty)"
    "touch_post u p flag c v now us s KRegistry = sadd p (s KRegistry)"
    "touch_post u p flag c v now us s KRecoverableVersions = hdel p (s KRecoverableVersions)"
    "touch_post u p flag c v now us s KExpiryCandidates = zadd now p (s KExpiryCandidates)"
    "touch_post u p flag c v now us s KBehaviorState = hset (pair_of u p) (behavior_state flag v us) (s KBehaviorState)"
    "touch_post u p flag c v now us s KBehaviorDirty = sadd (pair_of u p) (s KBehaviorDirty)"
    "touch_post u p flag c v now us s KProcessing = s KProcessing" "touch_post u p flag c v now us s KClaims = s KClaims"
    "touch_post u p flag c v now us s KBehaviorProcessing = s KBehaviorProcessing" "touch_post u p flag c v now us s KBehaviorClaims = s KBehaviorClaims"
    "touch_post u p flag c v now us s (KRebuildToken q) = s (KRebuildToken q)"
    "touch_post u p flag c v now us s (KUserLikesRestoreLock x) = s (KUserLikesRestoreLock x)"
    "touch_post u p flag c v now us s (KUserLikesRestoreTemp x y) = s (KUserLikesRestoreTemp x y)"
    "touch_post u p flag c v now us s (KUserLikesRestoreOrderTemp x y) = s (KUserLikesRestoreOrderTemp x y)"
    "touch_post u p flag c v now us s (KUsers q) = s (KUsers q)"
  by (simp_all add: touch_post_def Let_def rset_def at_key_def)

lemma remove_relation_reads [simp]:
  "remove_relation u p s (KUserLikes x) = (if x = u then srem p (s (KUserLikes u)) else s (KUserLikes x))"
  "remove_relation u p s (KUserLikesOrder x) =
     (if x = u then zrem p (s (KUserLikesOrder u)) else s (KUserLikesOrder x))"
  "(\<And>x. k \<noteq> KUserLikes x \<and> k \<noteq> KUserLikesOrder x) \<Longrightarrow> remove_relation u p s k = s k"
  by (simp_all add: remove_relation_def at_key_def)

lemma add_relation_reads [simp]:
  "add_relation u p sc s (KUserLikes x) = (if x = u then sadd p (s (KUserLikes u)) else s (KUserLikes x))"
  "add_relation u p sc s (KUserLikesOrder x) =
     (if x = u then zadd sc p (s (KUserLikesOrder u)) else s (KUserLikesOrder x))"
  "(\<And>x. k \<noteq> KUserLikes x \<and> k \<noteq> KUserLikesOrder x) \<Longrightarrow> add_relation u p sc s k = s k"
  by (simp_all add: add_relation_def at_key_def)

lemma refresh_user_ttl_other [simp]:
  "k \<noteq> KUserLikes u \<Longrightarrow> k \<noteq> KUserLikesOrder u \<Longrightarrow> k \<noteq> KUserLikesExpiryLedger \<Longrightarrow>
   refresh_user_ttl u arming now ttl h s k = s k"
  by (simp add: refresh_user_ttl_def Let_def)

lemma refresh_user_ttl_likes:
  "refresh_user_ttl u arming now ttl h s (KUserLikes u) =
     (if arming then pexpireat now (now + ttl) (s (KUserLikes u)) else persist (s (KUserLikes u)))"
  by (simp add: refresh_user_ttl_def Let_def)

lemma refresh_user_ttl_order:
  "refresh_user_ttl u arming now ttl h s (KUserLikesOrder u) =
     (if \<not> arming then persist (s (KUserLikesOrder u))
      else if h then pexpireat now (now + ttl) (s (KUserLikesOrder u))
      else s (KUserLikesOrder u))"
  by (simp add: refresh_user_ttl_def Let_def)

section \<open>Case analysis of a run\<close>

lemma mutate_guards_None:
  assumes "mutate_guards u p cap s = None"
  shows "type_ok TString (s (KReady p))" "rget (s (KReady p)) = Some ''1''"
    "mutate_types_ok u p s" "\<not> bad_id p" "\<not> bad_id u"
    "''0'' |\<in>| smembers (s (KUserLikes u))" "active_of (s (KUserLikes u)) \<le> cap"
    "active_of (s (KUserLikes u)) > 0 \<longleftrightarrow> s (KUserLikesOrder u) \<noteq> None"
    "s (KUserLikesOrder u) \<noteq> None \<Longrightarrow> zcard (s (KUserLikesOrder u)) = active_of (s (KUserLikes u))"
    "digits_entry (s (KCount p))" "digits_entry (s (KVersion p))"
    "(p |\<in>| smembers (s (KUserLikes u))) = (p |\<in>| zdom (s (KUserLikesOrder u)))"
proof -
  note g = assms [unfolded mutate_guards_def order_guards_def append.simps first_error.simps,
      simplified]
  have act: "active_of (s (KUserLikes u)) \<ge> 0" if "''0'' |\<in>| smembers (s (KUserLikes u))"
    using that by (auto simp: active_of_def fcard.rep_eq Suc_le_eq card_gt_0_iff)
  show "type_ok TString (s (KReady p))" "rget (s (KReady p)) = Some ''1''"
    "mutate_types_ok u p s" "\<not> bad_id p" "\<not> bad_id u"
    "''0'' |\<in>| smembers (s (KUserLikes u))" "active_of (s (KUserLikes u)) \<le> cap"
    "s (KUserLikesOrder u) \<noteq> None \<Longrightarrow> zcard (s (KUserLikesOrder u)) = active_of (s (KUserLikes u))"
    "digits_entry (s (KCount p))" "digits_entry (s (KVersion p))"
    "(p |\<in>| smembers (s (KUserLikes u))) = (p |\<in>| zdom (s (KUserLikesOrder u)))"
    using g by (auto split: if_splits simp: fmlookup_dom_iff)
  show "active_of (s (KUserLikes u)) > 0 \<longleftrightarrow> s (KUserLikesOrder u) \<noteq> None"
    using g act by (auto split: if_splits)
qed

lemma plan_eviction_Inr:
  assumes "plan_eviction u s = Inr (c, d)"
  shows "c |\<in>| smembers (s (KUserLikes u))" "zfirst (s (KUserLikesOrder u)) = Some c" "\<not> bad_id c"
    "type_ok TString (s (KReady c))"
    "d = None \<Longrightarrow> rget (s (KReady c)) = Some ''deleted''"
    "d = Some (n, v) \<Longrightarrow> rget (s (KReady c)) = Some ''1'' \<and> n = num_of (s (KCount c)) \<and>
       v = num_of (s (KVersion c)) \<and> 0 < n \<and> digits_entry (s (KCount c)) \<and> digits_entry (s (KVersion c))"
  using assms by (auto simp: plan_eviction_def split: option.splits if_splits)

text \<open>
  A successful run is one of three: nothing to change, a new relation (possibly after
  evicting one), or a removed relation.
\<close>

lemma mutate_script_Inr_cases [consumes 1, case_names unchanged liked unliked]:
  assumes run: "mutate_script u p liked now_ms ttl arming cap t s = (s', Inr r)"
  obtains
    "mutate_guards u p cap s = None" "liked = (p |\<in>| smembers (s (KUserLikes u)))"
    "s' = refresh_user_ttl u arming (time_ms t) ttl (active_of (s (KUserLikes u)) > 0) s"
    "mr_changed r = False" "mr_current r = liked" "mr_count r = num_of (s (KCount p))"
    "mr_version r = num_of (s (KVersion p))" "mr_active r = active_of (s (KUserLikes u))"
    "\<not> mr_will_evict r"
  | plan where "mutate_guards u p cap s = None" "liked" "p |\<notin>| smembers (s (KUserLikes u))"
    "plan = None \<longleftrightarrow> active_of (s (KUserLikes u)) < cap"
    "\<And>c d. plan = Some (c, d) \<Longrightarrow> plan_eviction u s = Inr (c, d)"
    "s' = refresh_user_ttl u arming (time_ms t) ttl (mr_active r > 0)
       (touch_post u p ''1'' (num_of (s (KCount p)) + 1) (num_of (s (KVersion p)) + 1) now_ms (time_us t)
         (add_relation u p (time_us t) (apply_eviction u plan now_ms (time_us t) s)))"
    "mr_changed r" "mr_current r" "mr_count r = num_of (s (KCount p)) + 1"
    "mr_version r = num_of (s (KVersion p)) + 1"
    "mr_active r = (if plan = None then active_of (s (KUserLikes u)) + 1 else active_of (s (KUserLikes u)))"
    "mr_will_evict r \<longleftrightarrow> plan \<noteq> None"
  | "mutate_guards u p cap s = None" "\<not> liked" "p |\<in>| smembers (s (KUserLikes u))"
    "num_of (s (KCount p)) > 0"
    "s' = refresh_user_ttl u arming (time_ms t) ttl (active_of (s (KUserLikes u)) - 1 > 0)
       (touch_post u p ''0'' (num_of (s (KCount p)) - 1) (num_of (s (KVersion p)) + 1) now_ms (time_us t)
         (remove_relation u p s))"
    "mr_changed r" "\<not> mr_current r" "mr_count r = num_of (s (KCount p)) - 1"
    "mr_version r = num_of (s (KVersion p)) + 1" "mr_active r = active_of (s (KUserLikes u)) - 1"
    "\<not> mr_will_evict r"
proof -
  from run have g: "mutate_guards u p cap s = None"
    by (auto simp: mutate_script_def split: option.splits)
  note run' = run [unfolded mutate_script_def Let_def g option.case]
  consider (same) "liked = (p |\<in>| smembers (s (KUserLikes u)))"
    | (like) "liked" "p |\<notin>| smembers (s (KUserLikes u))"
    | (unlike) "\<not> liked" "p |\<in>| smembers (s (KUserLikes u))" by blast
  then show ?thesis
  proof cases
    case same
    with run' g that(1) show ?thesis by auto
  next
    case unlike
    with run' g that(3) show ?thesis by (auto simp: apply_eviction_def split: if_splits)
  next
    case like
    let ?plan = "if active_of (s (KUserLikes u)) \<ge> cap then map_sum id Some (plan_eviction u s) else Inr None"
    from run' like obtain plan where plan: "?plan = Inr plan"
      by (cases ?plan) (auto split: if_splits)
    have "plan = None \<longleftrightarrow> active_of (s (KUserLikes u)) < cap"
      using plan by (cases "plan_eviction u s") (auto split: if_splits)
    moreover have "plan_eviction u s = Inr (c, d)" if "plan = Some (c, d)" for c d
      using plan that by (cases "plan_eviction u s") (auto split: if_splits)
    moreover note pl = plan
    ultimately show ?thesis
      using run' g like pl by (intro that(2) [of plan]) (auto split: if_splits)
  qed
qed

section \<open>The relation invariant of a user\<close>

definition relations :: "rentry \<Rightarrow> string fset" where
  "relations e = smembers e |-| {|''0''|}"

text \<open>
  A user is either absent from Redis (no set, no index), or has a set with the sentinel
  and an index that covers exactly the same posts, within the cap, and both expire at the
  same instant.
\<close>

definition user_inv :: "int \<Rightarrow> string \<Rightarrow> lstore \<Rightarrow> bool" where
  "user_inv cap u s \<longleftrightarrow>
     (let likes = s (KUserLikes u); order = s (KUserLikesOrder u) in
      if likes = None then order = None
      else rtype_of likes = TSet \<and> ''0'' |\<in>| smembers likes \<and>
           type_ok TZset order \<and> proper order \<and> zdom order = relations likes \<and>
           active_of likes \<le> cap \<and>
           (order \<noteq> None \<longrightarrow> rexpiry order = rexpiry likes))"

lemma int_fcard_pred: "x |\<in>| A \<Longrightarrow> int (fcard A - Suc 0) = int (fcard A) - 1"
  using fcard_minus_single [of x A] by simp

lemma active_of_relations:
  "''0'' |\<in>| smembers e \<Longrightarrow> active_of e = int (fcard (relations e))"
  by (simp add: active_of_def relations_def int_fcard_pred)

lemma active_pos_iff:
  "''0'' |\<in>| smembers e \<Longrightarrow> active_of e > 0 \<longleftrightarrow> relations e \<noteq> {||}"
  by (auto simp: active_of_relations fcard.rep_eq card_gt_0_iff) 

lemma user_invI_present:
  assumes "rtype_of (s (KUserLikes u)) = TSet" "''0'' |\<in>| smembers (s (KUserLikes u))"
    "type_ok TZset (s (KUserLikesOrder u))" "proper (s (KUserLikesOrder u))"
    "zdom (s (KUserLikesOrder u)) = relations (s (KUserLikes u))"
    "active_of (s (KUserLikes u)) \<le> cap"
    "s (KUserLikesOrder u) \<noteq> None \<Longrightarrow> rexpiry (s (KUserLikesOrder u)) = rexpiry (s (KUserLikes u))"
  shows "user_inv cap u s"
  using assms by (auto simp: user_inv_def Let_def)

lemma user_inv_cong:
  "s' (KUserLikes u) = s (KUserLikes u) \<Longrightarrow> s' (KUserLikesOrder u) = s (KUserLikesOrder u) \<Longrightarrow>
   user_inv cap u s' = user_inv cap u s"
  by (simp add: user_inv_def)

lemma user_inv_present:
  assumes "user_inv cap u s" "''0'' |\<in>| smembers (s (KUserLikes u))"
  shows "rtype_of (s (KUserLikes u)) = TSet" "type_ok TZset (s (KUserLikesOrder u))"
    "proper (s (KUserLikesOrder u))" "zdom (s (KUserLikesOrder u)) = relations (s (KUserLikes u))"
    "active_of (s (KUserLikes u)) \<le> cap"
    "s (KUserLikesOrder u) \<noteq> None \<Longrightarrow> rexpiry (s (KUserLikesOrder u)) = rexpiry (s (KUserLikes u))"
  using assms by (auto simp: user_inv_def Let_def split: if_splits)

text \<open>
  Refreshing the expiry re-establishes the invariant from its part that does not mention
  expiry: both keys get the same instant, or none.
\<close>

lemma refresh_user_ttl_inv:
  assumes t: "rtype_of (s (KUserLikes u)) = TSet" "''0'' |\<in>| smembers (s (KUserLikes u))"
    and o: "type_ok TZset (s (KUserLikesOrder u))" "proper (s (KUserLikesOrder u))"
      "zdom (s (KUserLikesOrder u)) = relations (s (KUserLikes u))"
    and c: "active_of (s (KUserLikes u)) \<le> cap" and ttl: "0 < ttl"
    and h: "h \<longleftrightarrow> active_of (s (KUserLikes u)) > 0"
  shows "user_inv cap u (refresh_user_ttl u arming now ttl h s)"
proof -
  have h': "h \<longleftrightarrow> s (KUserLikesOrder u) \<noteq> None"
    using h t(2) o by (simp add: active_pos_iff proper_zset_absent_iff)
  have lt: "now < now + ttl" using ttl by simp
  note r = pexpireat_reads [OF lt]
  show ?thesis
  proof (rule user_invI_present)
    show "proper (refresh_user_ttl u arming now ttl h s (KUserLikesOrder u))"
      using o by (auto simp: refresh_user_ttl_order)
    show "rexpiry (refresh_user_ttl u arming now ttl h s (KUserLikesOrder u)) =
        rexpiry (refresh_user_ttl u arming now ttl h s (KUserLikes u))"
      if "refresh_user_ttl u arming now ttl h s (KUserLikesOrder u) \<noteq> None"
    proof -
      have "s (KUserLikes u) \<noteq> None" using t(1) by (metis rtype.distinct(3) rtype_of.simps(1))
      with that h' r show ?thesis
        by (simp add: refresh_user_ttl_order refresh_user_ttl_likes split: if_splits)
    qed
  qed (use t o c r in \<open>auto simp: refresh_user_ttl_likes refresh_user_ttl_order relations_def active_of_def\<close>)
qed

text \<open>The invariant survives the passage of time: the set and the index expire together.\<close>

lemma live_user_inv:
  assumes "user_inv cap u s"
  shows "user_inv cap u (live now s)"
proof (cases "s (KUserLikes u)")
  case None
  with assms show ?thesis by (simp add: user_inv_def live_def)
next
  case (Some e)
  obtain v x where e: "e = (v, x)" by (cases e)
  from assms Some e obtain m where m: "v = RSet m" and ord: "type_ok TZset (s (KUserLikesOrder u))"
    and eq: "s (KUserLikesOrder u) \<noteq> None \<longrightarrow> rexpiry (s (KUserLikesOrder u)) = x"
    by (cases v) (auto simp: user_inv_def Let_def)
  show ?thesis
  proof (cases "s (KUserLikesOrder u)")
    case None
    with Some e m assms show ?thesis
      by (cases x) (auto simp: user_inv_def Let_def live_def)
  next
    case order: (Some e')
    with eq obtain w where "e' = (w, x)" by (cases e') auto
    with order Some e m assms show ?thesis
      by (cases x) (auto simp: user_inv_def Let_def live_def)
  qed
qed

lemma apply_eviction_reads [simp]:
  "x \<noteq> u \<Longrightarrow> apply_eviction u plan now us s (KUserLikes x) = s (KUserLikes x)"
  "x \<noteq> u \<Longrightarrow> apply_eviction u plan now us s (KUserLikesOrder x) = s (KUserLikesOrder x)"
  "apply_eviction u plan now us s (KUserLikes u) =
     (case plan of None \<Rightarrow> s (KUserLikes u) | Some (c, _) \<Rightarrow> srem c (s (KUserLikes u)))"
  "apply_eviction u plan now us s (KUserLikesOrder u) =
     (case plan of None \<Rightarrow> s (KUserLikesOrder u) | Some (c, _) \<Rightarrow> zrem c (s (KUserLikesOrder u)))"
  by (auto simp: apply_eviction_def split: option.splits)

lemma rtype_srem_sentinel:
  "rtype_of e = TSet \<Longrightarrow> x |\<in>| smembers e \<Longrightarrow> x \<noteq> y \<Longrightarrow> rtype_of (srem y e) = TSet"
  by (cases "(y, e)" rule: srem.cases) auto

lemma bad_id_zero [simp]: "bad_id ''0''"
  by (simp add: bad_id_def)

lemma mutate_types_ok_user:
  "mutate_types_ok u p s \<Longrightarrow> type_ok TSet (s (KUserLikes u)) \<and> type_ok TZset (s (KUserLikesOrder u))"
  by (simp add: mutate_types_ok_def)

text \<open>Removing and adding a relation, on the part of the invariant without expiry.\<close>

definition rel_ok :: "rentry \<Rightarrow> rentry \<Rightarrow> bool" where
  "rel_ok likes order \<longleftrightarrow> rtype_of likes = TSet \<and> ''0'' |\<in>| smembers likes \<and>
     type_ok TZset order \<and> proper order \<and> zdom order = relations likes"

lemma rel_ok_remove:
  assumes "rel_ok likes order" "c \<noteq> ''0''"
  shows "rel_ok (srem c likes) (zrem c order)" "relations (srem c likes) = relations likes |-| {|c|}"
proof -
  show r: "relations (srem c likes) = relations likes |-| {|c|}"
    by (auto simp: relations_def smembers_srem)
  from assms show "rel_ok (srem c likes) (zrem c order)"
    unfolding rel_ok_def r
    by (simp add: smembers_srem zmap_zrem rtype_srem_sentinel [of _ "''0''"] type_ok_zrem proper_writes)
qed

lemma rel_ok_add:
  assumes "rel_ok likes order" "c \<noteq> ''0''"
  shows "rel_ok (sadd c likes) (zadd sc c order)" "relations (sadd c likes) = finsert c (relations likes)"
proof -
  from assms have tk: "type_ok TSet likes" by (simp add: rel_ok_def type_ok_def)
  show r: "relations (sadd c likes) = finsert c (relations likes)"
    using assms tk by (auto simp: relations_def smembers_sadd)
  from assms tk show "rel_ok (sadd c likes) (zadd sc c order)"
    unfolding rel_ok_def r
    by (simp add: smembers_sadd zmap_zadd rtype_sadd type_ok_zadd proper_writes)
qed

lemma active_of_remove:
  assumes "rel_ok likes order" "c |\<in>| smembers likes" "c \<noteq> ''0''"
  shows "active_of (srem c likes) = active_of likes - 1"
proof -
  have "c |\<in>| relations likes" using assms by (simp add: relations_def)
  then show ?thesis
    using assms rel_ok_remove [OF assms(1,3)]
    by (simp add: active_of_relations rel_ok_def int_fcard_pred)
qed

lemma active_of_add:
  assumes "rel_ok likes order" "c |\<notin>| smembers likes" "c \<noteq> ''0''"
  shows "active_of (sadd c likes) = active_of likes + 1"
proof -
  have "c |\<notin>| relations likes" using assms by (simp add: relations_def)
  then show ?thesis
    using assms rel_ok_add [OF assms(1,3)]
    by (simp add: active_of_relations rel_ok_def fcard_finsert_new)
qed

lemma user_inv_rel_ok:
  "user_inv cap u s \<Longrightarrow> ''0'' |\<in>| smembers (s (KUserLikes u)) \<Longrightarrow>
   rel_ok (s (KUserLikes u)) (s (KUserLikesOrder u))"
  by (simp add: rel_ok_def user_inv_present)

lemma refresh_user_ttl_inv':
  assumes "rel_ok (s (KUserLikes u)) (s (KUserLikesOrder u))"
    and "active_of (s (KUserLikes u)) \<le> cap" and "0 < ttl"
    and "h \<longleftrightarrow> active_of (s (KUserLikes u)) > 0"
  shows "user_inv cap u (refresh_user_ttl u arming now ttl h s)"
  using assms by (intro refresh_user_ttl_inv) (simp_all add: rel_ok_def)

text \<open>The relations a successful run leaves, and their number.\<close>

lemma mutate_user_entries:
  assumes run: "mutate_script u p liked now_ms ttl arming cap t s = (s', Inr r)"
    and inv: "user_inv cap u s"
  obtains s2 where
    "s' = refresh_user_ttl u arming (time_ms t) ttl (mr_active r > 0) s2"
    "rel_ok (s2 (KUserLikes u)) (s2 (KUserLikesOrder u))"
    "active_of (s2 (KUserLikes u)) = mr_active r" "mr_active r \<le> cap"
    "\<And>x. x \<noteq> u \<Longrightarrow> s2 (KUserLikes x) = s (KUserLikes x)"
    "\<And>x. x \<noteq> u \<Longrightarrow> s2 (KUserLikesOrder x) = s (KUserLikesOrder x)"
  using run
proof (cases rule: mutate_script_Inr_cases)
  case unchanged
  note g = mutate_guards_None [OF unchanged(1)]
  show ?thesis
    by (rule that [of s]) (use unchanged g inv in \<open>simp_all add: user_inv_rel_ok\<close>)
next
  case unliked
  note g = mutate_guards_None [OF unliked(1)]
  have ok: "rel_ok (s (KUserLikes u)) (s (KUserLikesOrder u))" using inv g by (simp add: user_inv_rel_ok)
  have p: "p \<noteq> ''0''" using g by (auto simp: bad_id_def)
  show ?thesis
    by (rule that [of "touch_post u p ''0'' (num_of (s (KCount p)) - 1) (num_of (s (KVersion p)) + 1)
          now_ms (time_us t) (remove_relation u p s)"])
      (use unliked g p rel_ok_remove [OF ok p] active_of_remove [OF ok unliked(3) p] in simp_all)
next
  case (liked plan)
  note g = mutate_guards_None [OF liked(1)]
  have ok: "rel_ok (s (KUserLikes u)) (s (KUserLikesOrder u))" using inv g by (simp add: user_inv_rel_ok)
  have p: "p \<noteq> ''0''" using g by (auto simp: bad_id_def)
  let ?s1 = "apply_eviction u plan now_ms (time_us t) s"
  have ok1: "rel_ok (?s1 (KUserLikes u)) (?s1 (KUserLikesOrder u))"
    and a1: "active_of (?s1 (KUserLikes u)) = mr_active r - 1"
    and n1: "p |\<notin>| smembers (?s1 (KUserLikes u))"
  proof -
    have c: "c \<noteq> ''0'' \<and> c |\<in>| smembers (s (KUserLikes u))" if "plan = Some (c, d)" for c d
      using plan_eviction_Inr [OF liked(5) [OF that]] by auto
    show "rel_ok (?s1 (KUserLikes u)) (?s1 (KUserLikesOrder u))"
      using ok c rel_ok_remove [OF ok] by (auto split: option.splits)
    show "active_of (?s1 (KUserLikes u)) = mr_active r - 1"
      using liked c active_of_remove [OF ok] by (auto split: option.splits)
    show "p |\<notin>| smembers (?s1 (KUserLikes u))"
      using liked by (auto simp: smembers_srem split: option.splits)
  qed
  show ?thesis
    by (rule that [of "touch_post u p ''1'' (num_of (s (KCount p)) + 1) (num_of (s (KVersion p)) + 1)
          now_ms (time_us t) (add_relation u p (time_us t) ?s1)"])
      (use liked g p rel_ok_add [OF ok1 p] active_of_add [OF ok1 n1 p] a1 in
        \<open>auto split: if_splits\<close>)
qed

lemma mutate_user_inv:
  assumes "user_inv cap x s" and "user_inv cap u s" and "0 < ttl"
    and "mutate_script u p liked now_ms ttl arming cap t s = (s', res)"
  shows "user_inv cap x s'"
proof (cases res)
  case (Inl e)
  with assms show ?thesis
    by (auto simp: mutate_script_def Let_def split: option.splits sum.splits if_splits)
next
  case (Inr r)
  with assms obtain s2 where
    s2: "s' = refresh_user_ttl u arming (time_ms t) ttl (mr_active r > 0) s2"
      "rel_ok (s2 (KUserLikes u)) (s2 (KUserLikesOrder u))"
      "active_of (s2 (KUserLikes u)) = mr_active r" "mr_active r \<le> cap"
      "\<And>x. x \<noteq> u \<Longrightarrow> s2 (KUserLikes x) = s (KUserLikes x)"
      "\<And>x. x \<noteq> u \<Longrightarrow> s2 (KUserLikesOrder x) = s (KUserLikesOrder x)"
    by (metis mutate_user_entries)
  show ?thesis
  proof (cases "x = u")
    case True
    with s2 assms(3) show ?thesis by (auto intro: refresh_user_ttl_inv')
  next
    case False
    with s2 have "user_inv cap x s' = user_inv cap x s"
      by (intro user_inv_cong) simp_all
    with assms show ?thesis by simp
  qed
qed

text \<open>
  C1. Every run of the script, successful or not, keeps the relation invariant of every
  user: set and index agree, the cap holds, both keys share their expiry.
\<close>

theorem mutate_preserves_user_inv:
  assumes "\<And>y. user_inv cap y s" and "0 < ttl"
    and "mutate_script u p liked now_ms ttl arming cap t s = (s', res)"
  shows "user_inv cap x s'"
  using mutate_user_inv [OF assms(1) assms(1) assms(2,3)] .

section \<open>Errors change nothing\<close>

text \<open>
  Whatever error the script returns, the store is exactly what it was before the run.
\<close>

theorem mutate_error_atomic:
  "mutate_script u p liked now_ms ttl arming cap t s = (s', Inl e) \<Longrightarrow> s' = s"
  by (auto simp: mutate_script_def Let_def split: option.splits sum.splits if_splits)

section \<open>Counters follow the relations\<close>

lemma num_of_str [simp]: "num_of (Some (RStr (show_nat n), x)) = n"
  by (simp add: num_of_def)

lemma num_of_persist [simp]: "num_of (persist e) = num_of e"
  by (simp add: num_of_def)

lemma refresh_user_ttl_smembers:
  assumes "0 < ttl"
  shows "smembers (refresh_user_ttl u arming now ttl h s (KUserLikes x)) = smembers (s (KUserLikes x))"
  using pexpireat_reads(1) [of now "now + ttl"] assms
  by (cases "x = u") (simp_all add: refresh_user_ttl_likes)

lemma apply_eviction_count:
  "apply_eviction u plan now us s (KCount q) =
     (case plan of Some (c, Some (n, v)) \<Rightarrow>
        (if q = c then Some (RStr (show_nat (n - 1)), None) else s (KCount q))
      | _ \<Rightarrow> s (KCount q))"
  by (auto simp: apply_eviction_def split: option.splits)

definition likes_post :: "lstore \<Rightarrow> string \<Rightarrow> string \<Rightarrow> bool" where
  "likes_post s u q \<longleftrightarrow> q |\<in>| relations (s (KUserLikes u))"

lemma mutate_count_delta:
  assumes run: "mutate_script u p liked now_ms ttl arming cap t s = (s', Inr r)"
    and ttl: "0 < ttl" and inv: "user_inv cap u s" and ready: "rget (s (KReady q)) = Some ''1''"
  shows "int (num_of (s' (KCount q))) - of_bool (likes_post s' u q) =
         int (num_of (s (KCount q))) - of_bool (likes_post s u q)"
  using run
proof (cases rule: mutate_script_Inr_cases)
  case unchanged
  then show ?thesis by (simp add: likes_post_def relations_def refresh_user_ttl_smembers [OF ttl])
next
  case unliked
  note g = mutate_guards_None [OF unliked(1)]
  have p: "p \<noteq> ''0''" using g by (auto simp: bad_id_def)
  show ?thesis
    using unliked p
    by (auto simp: likes_post_def relations_def refresh_user_ttl_smembers [OF ttl] smembers_srem)
next
  case (liked plan)
  note g = mutate_guards_None [OF liked(1)]
  have p: "p \<noteq> ''0''" using g by (auto simp: bad_id_def)
  have tk: "type_ok TSet (s (KUserLikes u))"
    using g(3) by (simp add: mutate_types_ok_def)
  show ?thesis
  proof (cases plan)
    case None
    with liked p tk show ?thesis
      by (auto simp: likes_post_def relations_def refresh_user_ttl_smembers [OF ttl] smembers_sadd
          apply_eviction_count)
  next
    case (Some cd)
    obtain c d where cd: "cd = (c, d)" by (cases cd)
    note e = plan_eviction_Inr [OF liked(5) [OF Some [unfolded cd]]]
    have c: "c \<noteq> ''0''" "c \<noteq> p" "c |\<in>| smembers (s (KUserLikes u))"
      using e(1,3) liked(3) by auto
    show ?thesis
    proof (cases d)
      case None
      with e(5) ready have "q \<noteq> c" by auto
      with liked p tk Some cd None c type_ok_srem [OF tk] show ?thesis
        by (auto simp: likes_post_def relations_def refresh_user_ttl_smembers [OF ttl]
            smembers_sadd smembers_srem apply_eviction_count)
    next
      case d: (Some nv)
      obtain n v where nv: "nv = (n, v)" by (cases nv)
      from e(6) d nv have n: "n = num_of (s (KCount c))" "0 < n" by auto
      with liked p tk Some cd d nv c type_ok_srem [OF tk] show ?thesis
        by (auto simp: likes_post_def relations_def refresh_user_ttl_smembers [OF ttl]
            smembers_sadd smembers_srem apply_eviction_count of_nat_diff)
    qed
  qed
qed

lemma mutate_other_users:
  assumes run: "mutate_script u p liked now_ms ttl arming cap t s = (s', Inr r)" and "x \<noteq> u"
  shows "s' (KUserLikes x) = s (KUserLikes x)" "s' (KUserLikesOrder x) = s (KUserLikesOrder x)"
  using run assms(2) by (cases rule: mutate_script_Inr_cases; simp)+

text \<open>The number of users of a list that like a post, as their sets say.\<close>

definition likers :: "string list \<Rightarrow> lstore \<Rightarrow> string \<Rightarrow> nat" where
  "likers us s q = length (filter (\<lambda>x. likes_post s x q) us)"

lemma likers_change:
  assumes "distinct us" "u \<in> set us" "\<And>x. x \<noteq> u \<Longrightarrow> likes_post s' x q = likes_post s x q"
  shows "int (likers us s' q) = int (likers us s q) + of_bool (likes_post s' u q) - of_bool (likes_post s u q)"
proof -
  from assms(2) obtain as bs where us: "us = as @ u # bs" by (auto simp: in_set_conv_decomp)
  with assms(1) have "u \<notin> set as" "u \<notin> set bs" by auto
  then have "filter (\<lambda>x. likes_post s' x q) as = filter (\<lambda>x. likes_post s x q) as"
    "filter (\<lambda>x. likes_post s' x q) bs = filter (\<lambda>x. likes_post s x q) bs"
    using assms(3) by (metis (mono_tags, lifting) filter_cong)+
  then show ?thesis by (simp add: likers_def us)
qed

text \<open>
  C2. For every live post and every list of users that contains the caller, the difference
  between the post's counter and the number of those users whose relation set holds the
  post is the same before and after a successful run, evictions included.
\<close>

theorem mutate_conserves_balance:
  assumes "mutate_script u p liked now_ms ttl arming cap t s = (s', Inr r)"
    and "0 < ttl" and "user_inv cap u s" and "rget (s (KReady q)) = Some ''1''"
    and "distinct us" and "u \<in> set us"
  shows "int (num_of (s' (KCount q))) - int (likers us s' q) =
         int (num_of (s (KCount q))) - int (likers us s q)"
proof -
  have "likes_post s' x q = likes_post s x q" if "x \<noteq> u" for x
    using mutate_other_users [OF assms(1) that] by (simp add: likes_post_def)
  from likers_change [OF assms(5,6) this] mutate_count_delta [OF assms(1-4)]
  show ?thesis by simp
qed

section \<open>A change is always announced\<close>

lemma apply_eviction_post:
  "apply_eviction u plan now us s (KVersion q) =
     (case plan of Some (c, Some (n, v)) \<Rightarrow>
        (if q = c then Some (RStr (show_nat (v + 1)), None) else s (KVersion q))
      | _ \<Rightarrow> s (KVersion q))"
  "apply_eviction u plan now us s KDirty =
     (case plan of Some (c, Some (n, v)) \<Rightarrow> sadd c (s KDirty) | _ \<Rightarrow> s KDirty)"
  "apply_eviction u plan now us s KBehaviorDirty =
     (case plan of Some (c, Some (n, v)) \<Rightarrow> sadd (pair_of u c) (s KBehaviorDirty) | _ \<Rightarrow> s KBehaviorDirty)"
  "apply_eviction u plan now us s KBehaviorState =
     (case plan of Some (c, Some (n, v)) \<Rightarrow>
         hset (pair_of u c) (behavior_state ''0'' (v + 1) us) (s KBehaviorState)
      | _ \<Rightarrow> s KBehaviorState)"
  by (auto simp: apply_eviction_def split: option.splits)

text \<open>
  C4. For every post, a successful run either leaves the count and the version exactly as
  they were, or moves the version up by one, marks the post dirty for the snapshot relay,
  and queues the behaviour state of the pair with that very version. A change of a
  counter is never silent.
\<close>

theorem mutate_change_announced:
  assumes run: "mutate_script u p liked now_ms ttl arming cap t s = (s', Inr r)"
  shows "(s' (KVersion q) = s (KVersion q) \<and> s' (KCount q) = s (KCount q)) \<or>
     (num_of (s' (KVersion q)) = num_of (s (KVersion q)) + 1 \<and>
      q |\<in>| smembers (s' KDirty) \<and> pair_of u q |\<in>| smembers (s' KBehaviorDirty) \<and>
      (\<exists>flag. hget (s' KBehaviorState) (pair_of u q) =
         Some (behavior_state flag (num_of (s' (KVersion q))) (time_us t))))"
  using run
proof (cases rule: mutate_script_Inr_cases)
  case unchanged
  then show ?thesis by simp
next
  case unliked
  note g = mutate_guards_None(3) [OF unliked(1)]
  then have tk: "type_ok TSet (s KDirty)" "type_ok TSet (s KBehaviorDirty)" "type_ok THash (s KBehaviorState)"
    by (auto simp: mutate_types_ok_def)
  show ?thesis
    using unliked tk by (auto simp: smembers_sadd hmap_hset)
next
  case (liked plan)
  note g = mutate_guards_None(3,5) [OF liked(1)]
  then have tk: "type_ok TSet (s KDirty)" "type_ok TSet (s KBehaviorDirty)" "type_ok THash (s KBehaviorState)"
    and u: "digits_only u"
    by (auto simp: mutate_types_ok_def bad_id_def)
  have pe: "n = num_of (s (KCount c)) \<and> v = num_of (s (KVersion c)) \<and> c \<noteq> p"
    if "plan = Some (c, Some (n, v))" for c n v
    using plan_eviction_Inr(1,6) [OF liked(5) [OF that]] liked(3) by auto
  show ?thesis
    using liked tk u pe
    by (auto simp: smembers_sadd hmap_hset type_ok_sadd type_ok_hset apply_eviction_post apply_eviction_count
        pair_of_inject split: option.splits)
qed

section \<open>Repeating a request\<close>

lemma digits_entry_show [simp]: "digits_entry (Some (RStr (show_nat n), x))"
  by (simp add: digits_entry_def)

lemma digits_entry_rget: "digits_entry e \<Longrightarrow> rget e \<noteq> None"
  by (cases "rget e") (auto simp: digits_entry_def)

lemma mutate_guards_Some_iff:
  assumes "type_ok TString (s (KReady p))" "rget (s (KReady p)) = Some ''1''"
    "mutate_types_ok u p s" "\<not> bad_id p" "\<not> bad_id u" "user_inv cap u s"
    "''0'' |\<in>| smembers (s (KUserLikes u))"
    "digits_entry (s (KCount p))" "digits_entry (s (KVersion p))"
  shows "mutate_guards u p cap s = None"
proof -
  note i = user_inv_present [OF assms(6,7)]
  have z: "zcard (s (KUserLikesOrder u)) = active_of (s (KUserLikes u))"
    using i(4) assms(7) by (simp add: active_of_relations)
  have o: "active_of (s (KUserLikes u)) > 0 \<longleftrightarrow> s (KUserLikesOrder u) \<noteq> None"
    using i assms(7) by (simp add: active_pos_iff proper_zset_absent_iff)
  have m: "(p |\<in>| smembers (s (KUserLikes u))) = (zscore (s (KUserLikesOrder u)) p \<noteq> None)"
  proof -
    have "p \<noteq> ''0''" using assms(4) by auto
    then have "(p |\<in>| zdom (s (KUserLikesOrder u))) = (p |\<in>| smembers (s (KUserLikes u)))"
      unfolding i(4) by (simp add: relations_def)
    then show ?thesis by (simp add: fmlookup_dom_iff)
  qed
  have d: "rget (s (KCount p)) \<noteq> None" "rget (s (KVersion p)) \<noteq> None"
    using assms(8,9) by (simp_all add: digits_entry_rget)
  have ne: "active_of (s (KUserLikes u)) = 0 \<longrightarrow> s (KUserLikesOrder u) = None"
    using o by (metis less_irrefl)
  show ?thesis
    unfolding mutate_guards_def order_guards_def
    using assms i(5) z o m d ne
    by (simp del: not_None_eq)
qed

lemma mutate_guards_after:
  assumes run: "mutate_script u p liked now_ms ttl arming cap t s = (s', Inr r)"
    and ttl: "0 < ttl" and inv: "user_inv cap u s"
  shows "mutate_guards u p cap s' = None"
    "(p |\<in>| smembers (s' (KUserLikes u))) = liked"
    "num_of (s' (KCount p)) = mr_count r" "num_of (s' (KVersion p)) = mr_version r"
    "active_of (s' (KUserLikes u)) = mr_active r"
proof -
  have lt: "time_ms t < time_ms t + ttl" using ttl by simp
  note px = pexpireat_reads [OF lt]
  have inv': "user_inv cap u s'" using mutate_user_inv [OF inv inv ttl run] .
  from run have g: "mutate_guards u p cap s = None"
    by (auto elim: mutate_script_Inr_cases)
  note gs = mutate_guards_None [OF g]
  from mutate_user_entries [OF run inv] obtain s2 where
    s2: "s' = refresh_user_ttl u arming (time_ms t) ttl (mr_active r > 0) s2"
      "rel_ok (s2 (KUserLikes u)) (s2 (KUserLikesOrder u))"
      "active_of (s2 (KUserLikes u)) = mr_active r" by metis
  have mem: "smembers (s' (KUserLikes u)) = smembers (s2 (KUserLikes u))"
    using s2(1) by (simp add: refresh_user_ttl_smembers [OF ttl])
  then show act: "active_of (s' (KUserLikes u)) = mr_active r"
    using s2(3) by (simp add: active_of_def)
  have zero: "''0'' |\<in>| smembers (s' (KUserLikes u))"
    using s2(2) mem by (simp add: rel_ok_def)
  have tk: "mutate_types_ok u p s \<Longrightarrow> mutate_types_ok u p s'"
    using run
    by (cases rule: mutate_script_Inr_cases)
      (auto simp: mutate_types_ok_def refresh_user_ttl_def Let_def px type_ok_sadd type_ok_zadd type_ok_hset
        type_ok_hdel type_ok_srem type_ok_zrem apply_eviction_def type_ok_def [of TString] split: option.splits)
  have rd: "type_ok TString (s' (KReady p))" "rget (s' (KReady p)) = Some ''1''"
    "digits_entry (s' (KCount p))" "digits_entry (s' (KVersion p))"
    using run gs
    by (cases rule: mutate_script_Inr_cases; auto simp: apply_eviction_def split: option.splits)+
  show "mutate_guards u p cap s' = None"
    using mutate_guards_Some_iff [OF rd(1,2) tk [OF gs(3)] gs(4,5) inv' zero rd(3,4)] .
  show "(p |\<in>| smembers (s' (KUserLikes u))) = liked"
    "num_of (s' (KCount p)) = mr_count r" "num_of (s' (KVersion p)) = mr_version r"
    using run gs(3)
    by (cases rule: mutate_script_Inr_cases;
        auto simp: refresh_user_ttl_smembers [OF ttl] smembers_srem smembers_sadd mutate_types_ok_def
          type_ok_srem split: option.splits)+
qed

text \<open>
  Sending the same request again, at any later time and with any settings, succeeds
  and reports no change with the same count, version and number of relations: a retried
  Like is never counted twice.
\<close>

theorem mutate_repeat_noop:
  assumes run: "mutate_script u p liked now_ms ttl arming cap t s = (s', Inr r)"
    and ttl: "0 < ttl" and inv: "user_inv cap u s"
  shows "\<exists>r'. snd (mutate_script u p liked now_ms' ttl' arming' cap t' s') = Inr r' \<and>
     \<not> mr_changed r' \<and> mr_current r' = liked \<and> mr_count r' = mr_count r \<and>
     mr_version r' = mr_version r \<and> mr_active r' = mr_active r \<and> \<not> mr_will_evict r'"
proof -
  note a = mutate_guards_after [OF run ttl inv]
  then show ?thesis
    by (auto simp: mutate_script_def Let_def)
qed

section \<open>Abstract specification: a bounded recency index\<close>

text \<open>
  What the user's relations promise, without Redis: a finite map from posts to the instant
  of the Like. A new Like at the cap drops the entry with the lowest instant (ties by id).
\<close>

definition oldest :: "(string, int) fmap \<Rightarrow> string" where
  "oldest m = snd (Min ((\<lambda>x. (the (fmlookup m x), x)) ` fset (fmdom m)))"

definition spec_mutate :: "int \<Rightarrow> bool \<Rightarrow> string \<Rightarrow> int \<Rightarrow> (string, int) fmap \<Rightarrow> (string, int) fmap" where
  "spec_mutate cap liked p score m =
     (if liked then
        (if p |\<in>| fmdom m then m
         else fmupd p score (if int (fcard (fmdom m)) < cap then m else fmdrop (oldest m) m))
      else fmdrop p m)"

lemma zfirst_oldest:
  assumes "zfirst e = Some c"
  shows "c = oldest (zmap e)"
proof -
  let ?f = "\<lambda>x. (the (zscore e x), x)"
  note z = zfirst_SomeD [OF assms]
  have "Min (?f ` fset (zdom e)) = ?f c"
    by (rule Min_eqI) (use z in auto)
  then show ?thesis by (simp add: oldest_def)
qed

lemma fmdrop_notin: "x |\<notin>| fmdom m \<Longrightarrow> fmdrop x m = m"
  by (rule fmap_ext) (auto simp: fmlookup_dom_iff)

lemma refresh_user_ttl_zmap:
  assumes "0 < ttl"
  shows "zmap (refresh_user_ttl u arming now ttl h s (KUserLikesOrder u)) = zmap (s (KUserLikesOrder u))"
  using pexpireat_reads(2) [of now "now + ttl"] assms
  by (simp add: refresh_user_ttl_order)

text \<open>
  C3. The order index after a successful run is exactly what the specification computes
  from the index before it: the script implements the bounded recency index, and evicts
  the entry with the lowest (instant, id) and only at the cap.
\<close>

theorem mutate_refines_spec:
  assumes run: "mutate_script u p liked now_ms ttl arming cap t s = (s', Inr r)"
    and ttl: "0 < ttl" and inv: "user_inv cap u s"
  shows "zmap (s' (KUserLikesOrder u)) =
         spec_mutate cap liked p (time_us t) (zmap (s (KUserLikesOrder u)))"
proof -
  from run have g: "mutate_guards u p cap s = None"
    by (auto elim: mutate_script_Inr_cases)
  note gs = mutate_guards_None [OF g]
  have tk: "type_ok TZset (s (KUserLikesOrder u))"
    using gs(3) by (simp add: mutate_types_ok_def)
  have card: "zcard (s (KUserLikesOrder u)) = active_of (s (KUserLikes u))"
    using user_inv_present(4) [OF inv gs(6)] gs(6) by (simp add: active_of_relations)
  show ?thesis
    using run
  proof (cases rule: mutate_script_Inr_cases)
    case unchanged
    with gs(12) show ?thesis
      by (simp add: refresh_user_ttl_zmap [OF ttl] spec_mutate_def fmdrop_notin)
  next
    case unliked
    then show ?thesis
      by (simp add: refresh_user_ttl_zmap [OF ttl] spec_mutate_def zmap_zrem)
  next
    case (liked plan)
    have np: "p |\<notin>| zdom (s (KUserLikesOrder u))" using liked(3) gs(12) by simp
    show ?thesis
    proof (cases plan)
      case None
      with liked np card tk show ?thesis
        by (simp add: refresh_user_ttl_zmap [OF ttl] spec_mutate_def zmap_zadd)
    next
      case (Some cd)
      obtain c d where cd: "cd = (c, d)" by (cases cd)
      with plan_eviction_Inr(2) [OF liked(5) [OF Some [unfolded cd]]]
      have "c = oldest (zmap (s (KUserLikesOrder u)))" by (simp add: zfirst_oldest)
      with Some cd liked np card tk show ?thesis
        by (simp add: refresh_user_ttl_zmap [OF ttl] spec_mutate_def zmap_zadd zmap_zrem type_ok_zrem)
    qed
  qed
qed

lemmas eval_simps = type_ok_def digits_only_def is_digit_def digits_entry_def num_of_def tonum_def
  digit_val_def fcard.rep_eq

section \<open>Witnesses\<close>

text \<open>User 1 likes post 5 at the cap of one relation; posts 5 and 7 are ready.\<close>

definition demo_store :: lstore where
  "demo_store = (\<lambda>_. None)
     (KReady ''5'' := Some (RStr ''1'', None), KCount ''5'' := Some (RStr ''3'', None),
      KVersion ''5'' := Some (RStr ''4'', None),
      KReady ''7'' := Some (RStr ''1'', None), KCount ''7'' := Some (RStr ''9'', None),
      KVersion ''7'' := Some (RStr ''12'', None),
      KUserLikes ''1'' := Some (RSet {|''0'', ''5''|}, None),
      KUserLikesOrder ''1'' := Some (RZset (fmupd ''5'' 10 fmempty), None))"

lemma demo_user_inv: "user_inv 1 u demo_store"
  by (cases "u = ''1''")
    (simp_all add: user_inv_def demo_store_def relations_def active_of_def proper_def eval_simps)


lemma zfirst_single [simp]: "zfirst (Some (RZset (fmupd c sc fmempty), x)) = Some c"
  by (simp add: zfirst_def zsorted_def sorted_list_of_fset.rep_eq)

lemma demo_mutate:
  "snd (mutate_script ''1'' ''7'' True 100 3600000 True 1 (1000, 5) demo_store) =
     Inr \<lparr>mr_count = 10, mr_current = True, mr_changed = True, mr_version = 13, mr_ttl_state = True,
          mr_candidate = ''5'', mr_active = 1, mr_will_evict = True, mr_stale = False\<rparr>"
  by (simp add: mutate_script_def mutate_guards_def order_guards_def demo_store_def
      mutate_types_ok_def bad_id_def active_of_def plan_eviction_def Let_def eval_simps)

lemma demo_run:
  obtains s' r where
    "mutate_script ''1'' ''7'' True 100 3600000 True 1 (1000, 5) demo_store = (s', Inr r)"
    "mr_count r = 10" "mr_will_evict r" "mr_version r = 13" "mr_changed r"
  using demo_mutate
  by (cases "mutate_script ''1'' ''7'' True 100 3600000 True 1 (1000, 5) demo_store") auto

theorem mutate_preserves_user_inv_witness:
  "\<exists>s' r. mutate_script ''1'' ''7'' True 100 3600000 True 1 (1000, 5) demo_store = (s', Inr r) \<and>
     mr_will_evict r \<and> user_inv 1 ''1'' s'"
proof -
  obtain s' r where run:
    "mutate_script ''1'' ''7'' True 100 3600000 True 1 (1000, 5) demo_store = (s', Inr r)"
    and ev: "mr_will_evict r" by (rule demo_run)
  have "user_inv 1 ''1'' s'"
    by (rule mutate_preserves_user_inv [OF _ _ run]) (simp_all add: demo_user_inv)
  with run ev show ?thesis by blast
qed

theorem mutate_error_atomic_witness:
  "\<exists>s'. mutate_script ''1'' ''8'' True 100 3600000 True 1 (1000, 5) demo_store =
     (s', Inl ''LIKE_POST_NOT_READY'') \<and> s' = demo_store"
proof -
  have e: "mutate_guards ''1'' ''8'' 1 demo_store = Some ''LIKE_POST_NOT_READY''"
    by (simp add: mutate_guards_def order_guards_def demo_store_def mutate_types_ok_def bad_id_def
        active_of_def eval_simps)
  then have r: "mutate_script ''1'' ''8'' True 100 3600000 True 1 (1000, 5) demo_store =
     (demo_store, Inl ''LIKE_POST_NOT_READY'')"
    by (simp add: mutate_script_def)
  show ?thesis using r mutate_error_atomic [OF r] by blast
qed

theorem mutate_conserves_balance_witness:
  "\<exists>s' r. mutate_script ''1'' ''7'' True 100 3600000 True 1 (1000, 5) demo_store = (s', Inr r) \<and>
     int (num_of (s' (KCount ''5''))) - int (likers [''1'', ''2''] s' ''5'') =
     int (num_of (demo_store (KCount ''5''))) - int (likers [''1'', ''2''] demo_store ''5'')"
proof -
  obtain s' r where run:
    "mutate_script ''1'' ''7'' True 100 3600000 True 1 (1000, 5) demo_store = (s', Inr r)"
    by (rule demo_run)
  have rd: "rget (demo_store (KReady ''5'')) = Some ''1''" by (simp add: demo_store_def)
  show ?thesis
    using run mutate_conserves_balance [OF run _ demo_user_inv rd, of "[''1'', ''2'']"] by auto
qed

theorem mutate_change_announced_witness:
  "\<exists>s' r. mutate_script ''1'' ''7'' True 100 3600000 True 1 (1000, 5) demo_store = (s', Inr r) \<and>
     ((s' (KVersion ''5'') = demo_store (KVersion ''5'') \<and> s' (KCount ''5'') = demo_store (KCount ''5'')) \<or>
      (num_of (s' (KVersion ''5'')) = 5 \<and> ''5'' |\<in>| smembers (s' KDirty)))"
proof -
  obtain s' r where run:
    "mutate_script ''1'' ''7'' True 100 3600000 True 1 (1000, 5) demo_store = (s', Inr r)"
    by (rule demo_run)
  have v: "num_of (demo_store (KVersion ''5'')) = 4"
    by (simp add: demo_store_def num_of_def eval_simps)
  show ?thesis using run mutate_change_announced [OF run, of "''5''"] v by auto
qed

theorem mutate_repeat_noop_witness:
  "\<exists>s' r r'. mutate_script ''1'' ''7'' True 100 3600000 True 1 (1000, 5) demo_store = (s', Inr r) \<and>
     snd (mutate_script ''1'' ''7'' True 200 3600000 True 1 (1001, 0) s') = Inr r' \<and>
     \<not> mr_changed r' \<and> mr_count r' = 10"
proof -
  obtain s' r where run:
    "mutate_script ''1'' ''7'' True 100 3600000 True 1 (1000, 5) demo_store = (s', Inr r)"
    and c: "mr_count r = 10" by (rule demo_run)
  show ?thesis
    using run c mutate_repeat_noop [OF run _ demo_user_inv, of 200 3600000 True "(1001, 0)"] by auto
qed

theorem mutate_refines_spec_witness:
  "\<exists>s' r. mutate_script ''1'' ''7'' True 100 3600000 True 1 (1000, 5) demo_store = (s', Inr r) \<and>
     zmap (s' (KUserLikesOrder ''1'')) = fmupd ''7'' 1000000005 fmempty"
proof -
  obtain s' r where run:
    "mutate_script ''1'' ''7'' True 100 3600000 True 1 (1000, 5) demo_store = (s', Inr r)"
    by (rule demo_run)
  have "spec_mutate 1 True ''7'' (time_us (1000, 5)) (zmap (demo_store (KUserLikesOrder ''1''))) =
      fmupd ''7'' 1000000005 fmempty"
    by (simp add: spec_mutate_def oldest_def demo_store_def time_us_def fmdrop_fmupd_same eval_simps)
  with run mutate_refines_spec [OF run _ demo_user_inv] show ?thesis by auto
qed

end
