(* ===== verification/LikeQueue.thy ===== *)
theory LikeQueue
  imports LikeMutate
begin

text \<open>
  The snapshot work queue: \<open>claimScript\<close>, \<open>ackClaimScript\<close>, \<open>requeueClaimScript\<close> and
  \<open>reapExpiredScript\<close> of \<open>likes/scripts.go\<close>. A post with an undelivered change is in the
  dirty set; a relay claims it under a fresh token and a lease, publishes a snapshot, and
  acknowledges the claim with its token.

  The theory starts with the interface a relay relies on, the locale \<open>work_queue\<close>: what
  each operation does to the pending items, the owners and the values still to deliver.
  From these laws alone the locale shows that no change is ever lost
  (\<open>delivery_inv\<close>). The behaviour queue gives the same interface in its own theory.
\<close>

section \<open>The interface of a work queue\<close>

text \<open>
  The relay's ghost state: which values were loaded under which claim, which were published,
  the latest announced value of every item, and the claim prefixes already used.
\<close>

record 'v ghost =
  loaded :: "(string \<times> string \<times> 'v) set"
  published :: "(string \<times> 'v) set"
  latest :: "string \<Rightarrow> 'v option"
  prefixes :: "string set"

definition claim_token :: "string \<Rightarrow> string \<Rightarrow> string" where
  "claim_token q x = q @ '':'' @ x"

text \<open>
  No change is lost: the latest announced value of an item is published, or it is still
  the stored value and the item is pending or owned. A value loaded under a claim that is
  still the owner is the stored one, unless the item is pending again. A token of a claim
  that is an owner or was loaded from carries a prefix already used.
\<close>

definition delivery_inv ::
  "('s \<Rightarrow> string \<Rightarrow> 'v option) \<Rightarrow> ('s \<Rightarrow> string \<Rightarrow> bool) \<Rightarrow> ('s \<Rightarrow> string \<Rightarrow> string option) \<Rightarrow>
   's \<Rightarrow> 'v ghost \<Rightarrow> bool" where
  "delivery_inv val pend owner s g \<longleftrightarrow>
     (\<forall>x v. latest g x = Some v \<longrightarrow>
        (x, v) \<in> published g \<or> (val s x = Some v \<and> (pend s x \<or> owner s x \<noteq> None))) \<and>
     (\<forall>x c v. (x, c, v) \<in> loaded g \<longrightarrow> owner s x = Some c \<longrightarrow> pend s x \<or> val s x = Some v) \<and>
     (\<forall>x c v. (x, c, v) \<in> loaded g \<longrightarrow> (\<exists>q \<in> prefixes g. c = claim_token q x))"

lemma claim_token_inject [simp]: "claim_token q x = claim_token q' x \<longleftrightarrow> q = q'"
  by (simp add: claim_token_def)

text \<open>
  The laws of a queue. \<open>choice_ok\<close> says what the server may choose (a sample, a popped
  element); every law is about the effect on one item, so that a client reasons about an
  item at a time.
\<close>

locale work_queue =
  fixes val :: "'s \<Rightarrow> string \<Rightarrow> 'v option"
    and pend :: "'s \<Rightarrow> string \<Rightarrow> bool"
    and owner :: "'s \<Rightarrow> string \<Rightarrow> string option"
    and choice_ok :: "'c \<Rightarrow> 's \<Rightarrow> bool"
    and claim :: "int \<Rightarrow> int \<Rightarrow> string \<Rightarrow> 'c \<Rightarrow> 's \<Rightarrow> 's \<times> (string \<times> string) list res"
    and ack :: "string \<Rightarrow> string \<Rightarrow> 'v \<Rightarrow> 's \<Rightarrow> 's \<times> bool res"
    and requeue :: "string \<Rightarrow> string \<Rightarrow> 's \<Rightarrow> 's \<times> bool res"
    and reap :: "int \<Rightarrow> int \<Rightarrow> 's \<Rightarrow> 's \<times> nat res"
  assumes claim_val: "choice_ok ch s \<Longrightarrow> claim n d q ch s = (s', r) \<Longrightarrow> val s' x = val s x"
    and claim_item: "choice_ok ch s \<Longrightarrow> claim n d q ch s = (s', r) \<Longrightarrow>
      (owner s' x = owner s x \<and> pend s' x = pend s x) \<or>
      (owner s x = None \<and> pend s x \<and> owner s' x = Some (claim_token q x) \<and> \<not> pend s' x)"
    and claim_grant: "choice_ok ch s \<Longrightarrow> claim n d q ch s = (s', Inr gs) \<Longrightarrow> (x, c) \<in> set gs \<Longrightarrow>
      owner s x = None \<and> pend s x \<and> owner s' x = Some c \<and> c = claim_token q x"
    and ack_stale: "ack x c v s = (s', ra) \<Longrightarrow> owner s x \<noteq> Some c \<Longrightarrow> s' = s"
    and ack_other: "ack x c v s = (s', ra) \<Longrightarrow> y \<noteq> x \<Longrightarrow>
      val s' y = val s y \<and> pend s' y = pend s y \<and> owner s' y = owner s y"
    and ack_item: "ack x c v s = (s', ra) \<Longrightarrow> owner s x = Some c \<Longrightarrow>
      s' = s \<or> (owner s' x = None \<and>
        ((val s' x = val s x \<and> (pend s x \<and> val s x \<noteq> None \<longrightarrow> pend s' x)) \<or>
         (val s x = Some v \<and> val s' x = None)))"
    and requeue_stale: "requeue x c s = (s', ra) \<Longrightarrow> owner s x \<noteq> Some c \<Longrightarrow> s' = s"
    and requeue_val: "requeue x c s = (s', ra) \<Longrightarrow> val s' y = val s y"
    and requeue_other: "requeue x c s = (s', ra) \<Longrightarrow> y \<noteq> x \<Longrightarrow>
      pend s' y = pend s y \<and> owner s' y = owner s y"
    and requeue_item: "requeue x c s = (s', ra) \<Longrightarrow> owner s x = Some c \<Longrightarrow>
      s' = s \<or> (owner s' x = None \<and> (pend s x \<or> val s x \<noteq> None \<longrightarrow> pend s' x))"
    and reap_val: "reap now n s = (s', rr) \<Longrightarrow> val s' x = val s x"
    and reap_item: "reap now n s = (s', rr) \<Longrightarrow>
      (owner s' x = owner s x \<and> pend s' x = pend s x) \<or>
      (owner s' x = None \<and> (pend s x \<or> val s x \<noteq> None \<longrightarrow> pend s' x))"
begin

abbreviation inv :: "'s \<Rightarrow> 'v ghost \<Rightarrow> bool" where
  "inv \<equiv> delivery_inv val pend owner"

text \<open>Claiming with a prefix never used before moves items from pending to owned.\<close>

lemma claim_inv:
  assumes "inv s g" and "choice_ok ch s" and "claim n d q ch s = (s', r)" and "q \<notin> prefixes g"
  shows "inv s' (g\<lparr>prefixes := insert q (prefixes g)\<rparr>)"
proof -
  have a: "(x, v) \<in> published g \<or> (val s' x = Some v \<and> (pend s' x \<or> owner s' x \<noteq> None))"
    if "latest g x = Some v" for x v
  proof -
    from assms(1) that have "(x, v) \<in> published g \<or> (val s x = Some v \<and> (pend s x \<or> owner s x \<noteq> None))"
      unfolding delivery_inv_def by blast
    then show ?thesis
      using claim_item [OF assms(2,3), of x] claim_val [OF assms(2,3), of x] by force
  qed
  have l: "pend s' x \<or> val s' x = Some v" if "(x, c, v) \<in> loaded g" "owner s' x = Some c" for x c v
  proof -
    from assms(1) that(1) obtain q' where "q' \<in> prefixes g" "c = claim_token q' x"
      unfolding delivery_inv_def by blast
    with assms(4) have "c \<noteq> claim_token q x" by auto
    with that(2) claim_item [OF assms(2,3), of x]
    have "owner s x = Some c" "pend s' x = pend s x" by auto
    with assms(1) that(1) show ?thesis
      using claim_val [OF assms(2,3), of x] unfolding delivery_inv_def by metis
  qed
  show ?thesis
    using a l assms(1) unfolding delivery_inv_def by simp
qed

text \<open>Loading the stored value under a claim.\<close>

lemma load_inv:
  assumes "inv s g" and "val s x = Some v" and "q \<in> prefixes g" and "c = claim_token q x"
  shows "inv s (g\<lparr>loaded := insert (x, c, v) (loaded g)\<rparr>)"
  using assms unfolding delivery_inv_def by auto

lemma publish_inv:
  assumes "inv s g"
  shows "inv s (g\<lparr>published := insert (x, v) (published g)\<rparr>)"
  using assms unfolding delivery_inv_def by auto

text \<open>Acknowledging a value that was loaded under the claim and published.\<close>

lemma ack_inv:
  assumes "inv s g" and "ack x c v s = (s', r)" and "(x, c, v) \<in> loaded g" and "(x, v) \<in> published g"
  shows "inv s' g"
proof (cases "owner s x = Some c")
  case False
  with assms show ?thesis by (simp add: ack_stale [OF assms(2)])
next
  case own: True
  from assms(1,3) own have pv: "pend s x \<or> val s x = Some v"
    unfolding delivery_inv_def by blast
  have it: "s' = s \<or> owner s' x = None \<and>
      ((val s' x = val s x \<and> (pend s x \<and> val s x \<noteq> None \<longrightarrow> pend s' x)) \<or>
       (val s x = Some v \<and> val s' x = None))"
    using ack_item [OF assms(2) own] .
  have a: "(y, w) \<in> published g \<or> (val s' y = Some w \<and> (pend s' y \<or> owner s' y \<noteq> None))"
    if "latest g y = Some w" for y w
  proof (cases "y = x")
    case True
    from assms(1) that have "(y, w) \<in> published g \<or> (val s y = Some w \<and> (pend s y \<or> owner s y \<noteq> None))"
      unfolding delivery_inv_def by blast
    with True it pv assms(4) show ?thesis by auto
  next
    case False
    with assms(1) that ack_other [OF assms(2) False] show ?thesis
      unfolding delivery_inv_def by metis
  qed
  have l: "pend s' y \<or> val s' y = Some w" if "(y, d, w) \<in> loaded g" "owner s' y = Some d" for y d w
  proof (cases "y = x")
    case True
    with it that(2) have "s' = s" by auto
    with assms(1) that show ?thesis unfolding delivery_inv_def by blast
  next
    case False
    with assms(1) that ack_other [OF assms(2) False] show ?thesis
      unfolding delivery_inv_def by metis
  qed
  show ?thesis
    using a l assms(1) unfolding delivery_inv_def by blast
qed

text \<open>Giving a claim back and reaping expired claims only move items back to pending.\<close>

lemma return_inv:
  assumes "inv s g" and "\<And>x. val s' x = val s x"
    and "\<And>x. (owner s' x = owner s x \<and> pend s' x = pend s x) \<or>
             (owner s' x = None \<and> (pend s x \<or> val s x \<noteq> None \<longrightarrow> pend s' x))"
  shows "inv s' g"
proof -
  have a: "(x, v) \<in> published g \<or> (val s' x = Some v \<and> (pend s' x \<or> owner s' x \<noteq> None))"
    if "latest g x = Some v" for x v
  proof -
    from assms(1) that have "(x, v) \<in> published g \<or> (val s x = Some v \<and> (pend s x \<or> owner s x \<noteq> None))"
      unfolding delivery_inv_def by blast
    then show ?thesis using assms(2,3) [of x] by auto
  qed
  have l: "pend s' x \<or> val s' x = Some v" if "(x, c, v) \<in> loaded g" "owner s' x = Some c" for x c v
  proof -
    from that(2) assms(3) [of x] have "owner s x = Some c" "pend s' x = pend s x" by auto
    with assms(1) that(1) show ?thesis
      using assms(2) [of x] unfolding delivery_inv_def by metis
  qed
  show ?thesis using a l assms(1) unfolding delivery_inv_def by blast
qed

lemma requeue_inv:
  assumes "inv s g" and "requeue x c s = (s', r)"
  shows "inv s' g"
proof (rule return_inv [OF assms(1)])
  show "val s' y = val s y" for y by (rule requeue_val [OF assms(2)])
  show "(owner s' y = owner s y \<and> pend s' y = pend s y) \<or>
        (owner s' y = None \<and> (pend s y \<or> val s y \<noteq> None \<longrightarrow> pend s' y))" for y
    using requeue_other [OF assms(2), of y] requeue_stale [OF assms(2)] requeue_item [OF assms(2)]
    by metis
qed

lemma reap_inv:
  assumes "inv s g" and "reap now n s = (s', r)"
  shows "inv s' g"
  using return_inv [OF assms(1) reap_val [OF assms(2)] reap_item [OF assms(2)]] .

text \<open>
  A writer that makes every item whose value it changes pending, and touches no owner, announces
  its changes.
\<close>

lemma announce_inv:
  assumes "inv s g" and "\<And>x. owner s' x = owner s x" and "\<And>x. pend s x \<Longrightarrow> pend s' x"
    and "\<And>x. (val s' x = val s x \<and> latest g' x = latest g x) \<or>
             (pend s' x \<and> latest g' x = val s' x)"
    and "loaded g' = loaded g" and "published g' = published g" and "prefixes g' = prefixes g"
  shows "inv s' g'"
proof -
  have a: "(x, v) \<in> published g' \<or> (val s' x = Some v \<and> (pend s' x \<or> owner s' x \<noteq> None))"
    if "latest g' x = Some v" for x v
    using assms(1) assms(2-4) [of x] that unfolding delivery_inv_def assms(6) by metis
  have l: "pend s' x \<or> val s' x = Some v" if "(x, c, v) \<in> loaded g'" "owner s' x = Some c" for x c v
    using assms(1) assms(2-4) [of x] that unfolding delivery_inv_def assms(5) by metis
  show ?thesis
    using a l assms(1) unfolding delivery_inv_def assms(5-7) by blast
qed

text \<open>An item granted to one claim is granted to nobody else before that claim is resolved.\<close>

lemma exclusive_grant:
  assumes "choice_ok ch s" "claim n d q ch s = (s', Inr gs)" "(x, c) \<in> set gs"
    "choice_ok ch' s'" "claim n' d' q' ch' s' = (s'', Inr gs')"
  shows "(x, c') \<notin> set gs'"
  using claim_grant [OF assms(1-3)] claim_grant [OF assms(4,5), of x c'] by auto

end

section \<open>The scripts of the snapshot queue\<close>

definition snap_types_ok :: "lstore \<Rightarrow> bool" where
  "snap_types_ok s \<longleftrightarrow>
     type_ok TSet (s KDirty) \<and> type_ok TZset (s KProcessing) \<and> type_ok THash (s KClaims)"

text \<open>\<open>claimScript\<close>: the sample of \<open>SRANDMEMBER\<close> is the argument \<open>cands\<close>.\<close>

definition grant_post :: "int \<Rightarrow> string \<Rightarrow> string \<Rightarrow> lstore \<Rightarrow> lstore" where
  "grant_post deadline q x s =
     (let s = at_key KProcessing (zadd deadline x) s;
          s = at_key KClaims (hset x (claim_token q x)) s
      in at_key KDirty (srem x) s)"

fun claim_loop ::
  "int \<Rightarrow> int \<Rightarrow> string \<Rightarrow> string list \<Rightarrow> lstore \<Rightarrow> (string \<times> string) list \<Rightarrow>
   lstore \<times> (string \<times> string) list" where
  "claim_loop limit d q [] s res = (s, res)"
| "claim_loop limit d q (x # xs) s res =
     (if int (length res) \<ge> limit then (s, res)
      else if hget (s KClaims) x = None
      then claim_loop limit d q xs (grant_post d q x s) (res @ [(x, claim_token q x)])
      else claim_loop limit d q xs s res)"

definition claim_script ::
  "int \<Rightarrow> int \<Rightarrow> string \<Rightarrow> string list \<Rightarrow> lstore \<Rightarrow> lstore \<times> (string \<times> string) list res" where
  "claim_script limit d q cands s =
     (case first_error
        [(limit < 1 \<or> limit > 100 \<or> q = '''', ''LIKE_CLAIM_ARGUMENT_INVALID''),
         (\<not> snap_types_ok s, ''LIKE_TYPE_PRECHECK'')] of
        Some e \<Rightarrow> (s, Inl e)
      | None \<Rightarrow> (let (s', res) = claim_loop limit d q cands s [] in (s', Inr res)))"

text \<open>What \<open>SRANDMEMBER\<close> with a positive count may return: distinct members.\<close>

definition sample_ok :: "string list \<Rightarrow> lstore \<Rightarrow> bool" where
  "sample_ok cands s \<longleftrightarrow> distinct cands \<and> set cands \<subseteq> fset (smembers (s KDirty))"

definition ack_claim_script :: "string \<Rightarrow> string \<Rightarrow> lstore \<Rightarrow> lstore \<times> bool res" where
  "ack_claim_script x c s =
     (if \<not> type_ok TZset (s KProcessing) \<or> \<not> type_ok THash (s KClaims)
      then (s, Inl ''LIKE_TYPE_PRECHECK'')
      else if hget (s KClaims) x \<noteq> Some c then (s, Inr False)
      else (at_key KProcessing (zrem x) (at_key KClaims (hdel x) s), Inr True))"

definition requeue_claim_script :: "string \<Rightarrow> string \<Rightarrow> lstore \<Rightarrow> lstore \<times> bool res" where
  "requeue_claim_script x c s =
     (if \<not> snap_types_ok s then (s, Inl ''LIKE_TYPE_PRECHECK'')
      else if hget (s KClaims) x \<noteq> Some c then (s, Inr False)
      else (at_key KDirty (sadd x) (at_key KProcessing (zrem x) (at_key KClaims (hdel x) s)), Inr True))"

fun reap_loop :: "string list \<Rightarrow> lstore \<Rightarrow> nat \<Rightarrow> lstore \<times> nat" where
  "reap_loop [] s n = (s, n)"
| "reap_loop (x # xs) s n =
     (if hget (s KClaims) x \<noteq> None
      then reap_loop xs
        (at_key KDirty (sadd x) (at_key KProcessing (zrem x) (at_key KClaims (hdel x) s))) (n + 1)
      else reap_loop xs (at_key KProcessing (zrem x) s) n)"

definition reap_expired_script :: "int \<Rightarrow> int \<Rightarrow> lstore \<Rightarrow> lstore \<times> nat res" where
  "reap_expired_script now limit s =
     (case first_error
        [(limit < 1 \<or> limit > 100, ''LIKE_CLAIM_ARGUMENT_INVALID''),
         (\<not> snap_types_ok s, ''LIKE_TYPE_PRECHECK'')] of
        Some e \<Rightarrow> (s, Inl e)
      | None \<Rightarrow>
         (let (s', n) = reap_loop (zrange_le now (nat limit) (s KProcessing)) s 0 in (s', Inr n)))"

section \<open>What the loops do\<close>

lemma grant_post_reads:
  "snap_types_ok s \<Longrightarrow> snap_types_ok (grant_post d q x s)"
  "k \<notin> {KDirty, KProcessing, KClaims} \<Longrightarrow> grant_post d q x s k = s k"
  "smembers (grant_post d q x s KDirty) = smembers (s KDirty) |-| {|x|}"
  "snap_types_ok s \<Longrightarrow> hmap (grant_post d q x s KClaims) = fmupd x (claim_token q x) (hmap (s KClaims))"
  "snap_types_ok s \<Longrightarrow> zmap (grant_post d q x s KProcessing) = fmupd x d (zmap (s KProcessing))"
  by (simp_all add: grant_post_def at_key_def snap_types_ok_def Let_def type_ok_srem type_ok_zadd
      type_ok_hset smembers_srem hmap_hset zmap_zadd)

definition unowned :: "lstore \<Rightarrow> string list \<Rightarrow> string list" where
  "unowned s xs = filter (\<lambda>x. hget (s KClaims) x = None) xs"

text \<open>The claim loop grants the first \<open>limit\<close> sampled posts that nobody owns.\<close>

lemma claim_loop_spec:
  assumes "snap_types_ok s" and "distinct xs" and "claim_loop limit d q xs s res = (s', res')"
    and "G = take (nat limit - length res) (unowned s xs)"
  shows "res' = res @ map (\<lambda>x. (x, claim_token q x)) G \<and> snap_types_ok s' \<and>
    (\<forall>k. k \<notin> {KDirty, KProcessing, KClaims} \<longrightarrow> s' k = s k) \<and>
    fset (smembers (s' KDirty)) = fset (smembers (s KDirty)) - set G \<and>
    (\<forall>x. hget (s' KClaims) x = (if x \<in> set G then Some (claim_token q x) else hget (s KClaims) x)) \<and>
    (\<forall>x. zscore (s' KProcessing) x = (if x \<in> set G then Some d else zscore (s KProcessing) x))"
  using assms
proof (induction limit d q xs s res arbitrary: G rule: claim_loop.induct)
  case (1 limit d q s res)
  then show ?case by (simp add: unowned_def)
next
  case (2 limit d q x xs s res)
  show ?case
  proof (cases "int (length res) \<ge> limit")
    case True
    with 2 show ?thesis by simp
  next
    case less: False
    show ?thesis
    proof (cases "hget (s KClaims) x = None")
      case False
      have run: "claim_loop limit d q xs s res = (s', res')" using "2.prems"(3) less False by simp
      have G: "G = take (nat limit - length res) (unowned s xs)"
        using "2.prems"(4) False by (simp add: unowned_def)
      have "distinct xs" using "2.prems"(2) by simp
      from "2.IH"(2) [OF less False "2.prems"(1) this run G] show ?thesis .
    next
      case True
      let ?s = "grant_post d q x s"
      have st: "snap_types_ok ?s" by (rule grant_post_reads(1) [OF "2.prems"(1)])
      have un: "unowned ?s xs = unowned s xs"
        using "2.prems"(1,2) by (auto simp: unowned_def grant_post_reads intro!: filter_cong)
      have len: "nat limit - length res = Suc (nat limit - Suc (length res))" using less by simp
      have G: "G = x # take (nat limit - Suc (length res)) (unowned s xs)"
        using "2.prems"(4) True by (simp add: unowned_def len)
      have run: "claim_loop limit d q xs ?s (res @ [(x, claim_token q x)]) = (s', res')"
        using "2.prems"(3) less True by simp
      have dx: "distinct xs" "x \<notin> set xs" using "2.prems"(2) by simp_all
      note IH = "2.IH"(1) [OF less True st dx(1) run refl, unfolded un]
      have "length (res @ [(x, claim_token q x)]) = Suc (length res)" by simp
      note IH = IH [unfolded this]
      show ?thesis
        unfolding G
      proof (intro conjI)
        show "res' = res @ map (\<lambda>x. (x, claim_token q x))
            (x # take (nat limit - Suc (length res)) (unowned s xs))"
          using IH by simp
        show "snap_types_ok s'" using IH by blast
        show "\<forall>k. k \<notin> {KDirty, KProcessing, KClaims} \<longrightarrow> s' k = s k"
          using IH by (metis grant_post_reads(2))
        show "fset (smembers (s' KDirty)) = fset (smembers (s KDirty)) -
            set (x # take (nat limit - Suc (length res)) (unowned s xs))"
          using IH by (auto simp: grant_post_reads)
      qed (use IH "2.prems"(1) in \<open>simp_all add: grant_post_reads\<close>)
    qed
  qed
qed

lemma claim_script_spec:
  assumes "claim_script limit d q cands s = (s', r)" and "distinct cands"
  shows "(\<exists>e. r = Inl e \<and> s' = s) \<or>
    (\<exists>G. G = take (nat limit) (unowned s cands) \<and> r = Inr (map (\<lambda>x. (x, claim_token q x)) G) \<and>
      snap_types_ok s \<and> snap_types_ok s' \<and>
      (\<forall>k. k \<notin> {KDirty, KProcessing, KClaims} \<longrightarrow> s' k = s k) \<and>
      fset (smembers (s' KDirty)) = fset (smembers (s KDirty)) - set G \<and>
      (\<forall>x. hget (s' KClaims) x = (if x \<in> set G then Some (claim_token q x) else hget (s KClaims) x)) \<and>
      (\<forall>x. zscore (s' KProcessing) x = (if x \<in> set G then Some d else zscore (s KProcessing) x)))"
proof (cases "first_error
        [(limit < 1 \<or> limit > 100 \<or> q = '''', ''LIKE_CLAIM_ARGUMENT_INVALID''),
         (\<not> snap_types_ok s, ''LIKE_TYPE_PRECHECK'')]")
  case (Some e)
  with assms show ?thesis by (auto simp: claim_script_def)
next
  case None
  then have ty: "snap_types_ok s" by (simp split: if_splits)
  obtain s1 res where run: "claim_loop limit d q cands s [] = (s1, res)" by fastforce
  with assms(1) None have eq: "s' = s1" "r = Inr res"
    unfolding claim_script_def by auto
  show ?thesis
    using claim_loop_spec [OF ty assms(2) run refl] ty unfolding eq by simp
qed

lemma reap_loop_spec:
  assumes "snap_types_ok s" and "reap_loop xs s n = (s', m)"
  shows "snap_types_ok s' \<and>
    (\<forall>k. k \<notin> {KDirty, KProcessing, KClaims} \<longrightarrow> s' k = s k) \<and>
    fset (smembers (s' KDirty)) =
      fset (smembers (s KDirty)) \<union> {x \<in> set xs. hget (s KClaims) x \<noteq> None} \<and>
    (\<forall>x. hget (s' KClaims) x = (if x \<in> set xs then None else hget (s KClaims) x)) \<and>
    (\<forall>x. zscore (s' KProcessing) x = (if x \<in> set xs then None else zscore (s KProcessing) x))"
  using assms
proof (induction xs s n rule: reap_loop.induct)
  case (1 s n)
  then show ?case by simp
next
  case (2 x xs s n)
  show ?case
  proof (cases "hget (s KClaims) x")
    case (Some c)
    let ?s = "at_key KDirty (sadd x) (at_key KProcessing (zrem x) (at_key KClaims (hdel x) s))"
    have ty: "snap_types_ok ?s"
      using "2.prems"(1) by (simp add: snap_types_ok_def type_ok_sadd type_ok_zrem type_ok_hdel)
    have run: "reap_loop xs ?s (n + 1) = (s', m)" using "2.prems"(2) Some by simp
    show ?thesis
      using "2.IH"(1) [OF _ ty run] "2.prems"(1) Some
      by (auto simp: snap_types_ok_def smembers_sadd hmap_hdel zmap_zrem)
  next
    case None
    let ?s = "at_key KProcessing (zrem x) s"
    have ty: "snap_types_ok ?s"
      using "2.prems"(1) by (simp add: snap_types_ok_def type_ok_zrem)
    have run: "reap_loop xs ?s n = (s', m)" using "2.prems"(2) None by simp
    show ?thesis
      using "2.IH"(2) [OF _ ty run] "2.prems"(1) None
      by (auto simp: snap_types_ok_def zmap_zrem)
  qed
qed

lemma reap_script_spec:
  assumes "reap_expired_script now limit s = (s', r)"
  shows "(\<exists>e. r = Inl e \<and> s' = s) \<or>
    (\<exists>X n. X = set (zrange_le now (nat limit) (s KProcessing)) \<and> r = Inr n \<and>
      snap_types_ok s \<and> snap_types_ok s' \<and>
      (\<forall>k. k \<notin> {KDirty, KProcessing, KClaims} \<longrightarrow> s' k = s k) \<and>
      fset (smembers (s' KDirty)) = fset (smembers (s KDirty)) \<union> {x \<in> X. hget (s KClaims) x \<noteq> None} \<and>
      (\<forall>x. hget (s' KClaims) x = (if x \<in> X then None else hget (s KClaims) x)) \<and>
      (\<forall>x. zscore (s' KProcessing) x = (if x \<in> X then None else zscore (s KProcessing) x)))"
proof (cases "first_error
        [(limit < 1 \<or> limit > 100, ''LIKE_CLAIM_ARGUMENT_INVALID''),
         (\<not> snap_types_ok s, ''LIKE_TYPE_PRECHECK'')]")
  case (Some e)
  with assms show ?thesis by (auto simp: reap_expired_script_def)
next
  case None
  then have ty: "snap_types_ok s" by (simp split: if_splits)
  obtain s1 n where run: "reap_loop (zrange_le now (nat limit) (s KProcessing)) s 0 = (s1, n)"
    by fastforce
  with assms None have eq: "s' = s1" "r = Inr n"
    unfolding reap_expired_script_def by auto
  show ?thesis
    using reap_loop_spec [OF ty run] ty unfolding eq by blast
qed

section \<open>The snapshot queue implements the interface\<close>

text \<open>
  What a relay delivers for a post: its count and version, as \<open>readAggregateStates\<close> reads
  them (\<open>parseNonNegativeInt64\<close> on both counters of a ready post).
\<close>

definition parseNonNegativeInt64 :: "string \<Rightarrow> int option" where
  "parseNonNegativeInt64 value =
     (case parse_int64 value of None \<Rightarrow> None | Some n \<Rightarrow> if n < 0 then None else Some n)"

definition snap_val :: "lstore \<Rightarrow> string \<Rightarrow> (int \<times> int) option" where
  "snap_val s x =
     (if rget (s (KReady x)) = Some ''1'' then
        (case (rget (s (KCount x)), rget (s (KVersion x))) of
           (Some c, Some v) \<Rightarrow>
             (case (parseNonNegativeInt64 c, parseNonNegativeInt64 v) of
                (Some i, Some j) \<Rightarrow> Some (i, j) | _ \<Rightarrow> None)
         | _ \<Rightarrow> None)
      else None)"

definition snap_pend :: "lstore \<Rightarrow> string \<Rightarrow> bool" where
  "snap_pend s x \<longleftrightarrow> x |\<in>| smembers (s KDirty)"

definition snap_owner :: "lstore \<Rightarrow> string \<Rightarrow> string option" where
  "snap_owner s x = hget (s KClaims) x"

lemma snap_val_cong:
  "s' (KReady x) = s (KReady x) \<Longrightarrow> s' (KCount x) = s (KCount x) \<Longrightarrow> s' (KVersion x) = s (KVersion x) \<Longrightarrow>
   snap_val s' x = snap_val s x"
  by (simp add: snap_val_def)

lemma granted_sample:
  assumes "sample_ok ch s" and "x \<in> set (take n (unowned s ch))"
  shows "hget (s KClaims) x = None" and "x |\<in>| smembers (s KDirty)"
proof -
  have "x \<in> set (unowned s ch)" using assms(2) by (rule in_set_takeD)
  then have "x \<in> set ch" and n: "hget (s KClaims) x = None" by (auto simp: unowned_def)
  then show "x |\<in>| smembers (s KDirty)" using assms(1) by (auto simp: sample_ok_def)
  show "hget (s KClaims) x = None" by (fact n)
qed

interpretation snapq: work_queue snap_val snap_pend snap_owner sample_ok claim_script
  "\<lambda>x c v. ack_claim_script x c" requeue_claim_script reap_expired_script
proof unfold_locales
  fix ch s n d q s' x and r :: "(string \<times> string) list res"
  assume ok: "sample_ok ch s" and run: "claim_script n d q ch s = (s', r)"
  have dis: "distinct ch" using ok by (simp add: sample_ok_def)
  note sp = claim_script_spec [OF run dis]
  show "snap_val s' x = snap_val s x"
    using sp by (auto intro!: snap_val_cong)
  show "(snap_owner s' x = snap_owner s x \<and> snap_pend s' x = snap_pend s x) \<or>
      (snap_owner s x = None \<and> snap_pend s x \<and> snap_owner s' x = Some (claim_token q x) \<and> \<not> snap_pend s' x)"
    using sp
  proof
    assume "\<exists>G. G = take (nat n) (unowned s ch) \<and> r = Inr (map (\<lambda>x. (x, claim_token q x)) G) \<and>
      snap_types_ok s \<and> snap_types_ok s' \<and>
      (\<forall>k. k \<notin> {KDirty, KProcessing, KClaims} \<longrightarrow> s' k = s k) \<and>
      fset (smembers (s' KDirty)) = fset (smembers (s KDirty)) - set G \<and>
      (\<forall>x. hget (s' KClaims) x = (if x \<in> set G then Some (claim_token q x) else hget (s KClaims) x)) \<and>
      (\<forall>x. zscore (s' KProcessing) x = (if x \<in> set G then Some d else zscore (s KProcessing) x))"
    then obtain G where G: "G = take (nat n) (unowned s ch)"
      "fset (smembers (s' KDirty)) = fset (smembers (s KDirty)) - set G"
      "hget (s' KClaims) x = (if x \<in> set G then Some (claim_token q x) else hget (s KClaims) x)"
      by blast
    have "x \<in> set G \<Longrightarrow> hget (s KClaims) x = None \<and> x |\<in>| smembers (s KDirty)"
      using granted_sample [OF ok] G(1) by blast
    with G show ?thesis by (auto simp: snap_owner_def snap_pend_def)
  qed auto
next
  fix ch s n d q s' x c and gs :: "(string \<times> string) list"
  assume ok: "sample_ok ch s" and run: "claim_script n d q ch s = (s', Inr gs)"
    and mem: "(x, c) \<in> set gs"
  have dis: "distinct ch" using ok by (simp add: sample_ok_def)
  from claim_script_spec [OF run dis] obtain G where G: "G = take (nat n) (unowned s ch)"
    "gs = map (\<lambda>x. (x, claim_token q x)) G"
    "hget (s' KClaims) x = (if x \<in> set G then Some (claim_token q x) else hget (s KClaims) x)"
    by auto
  with mem have "x \<in> set G" "c = claim_token q x" by auto
  moreover from this(1) G(1) have "hget (s KClaims) x = None" "x |\<in>| smembers (s KDirty)"
    using granted_sample [OF ok] by blast+
  ultimately show "snap_owner s x = None \<and> snap_pend s x \<and> snap_owner s' x = Some c \<and> c = claim_token q x"
    using G(3) by (simp add: snap_owner_def snap_pend_def)
next
  fix now n s s' x and r :: "nat res"
  assume run: "reap_expired_script now n s = (s', r)"
  note sp = reap_script_spec [OF run]
  show "snap_val s' x = snap_val s x"
    using sp by (auto intro!: snap_val_cong)
  show "(snap_owner s' x = snap_owner s x \<and> snap_pend s' x = snap_pend s x) \<or>
      (snap_owner s' x = None \<and> (snap_pend s x \<or> snap_val s x \<noteq> None \<longrightarrow> snap_pend s' x))"
  proof (cases "\<exists>e. r = Inl e \<and> s' = s")
    case False
    with sp obtain X where X:
      "fset (smembers (s' KDirty)) = fset (smembers (s KDirty)) \<union> {x \<in> X. hget (s KClaims) x \<noteq> None}"
      "hget (s' KClaims) x = (if x \<in> X then None else hget (s KClaims) x)" by blast
    then show ?thesis
      by (cases "x \<in> X"; cases "hget (s KClaims) x") (auto simp: snap_owner_def snap_pend_def)
  qed auto
qed (auto simp: ack_claim_script_def requeue_claim_script_def snap_owner_def snap_pend_def
    hmap_hdel smembers_sadd snap_types_ok_def split: if_splits intro!: snap_val_cong)

section \<open>Leases\<close>

text \<open>Every claim has a lease: the claims and the leases are about the same posts.\<close>

definition queue_inv :: "lstore \<Rightarrow> bool" where
  "queue_inv s \<longleftrightarrow> snap_types_ok s \<and> (\<forall>x. hget (s KClaims) x = None \<longleftrightarrow> zscore (s KProcessing) x = None)"

lemma claim_queue_inv:
  "queue_inv s \<Longrightarrow> claim_script n d q ch s = (s', r) \<Longrightarrow> distinct ch \<Longrightarrow> queue_inv s'"
  by (auto simp: queue_inv_def dest!: claim_script_spec)

lemma ack_queue_inv:
  "queue_inv s \<Longrightarrow> ack_claim_script x c s = (s', r) \<Longrightarrow> queue_inv s'"
  by (auto simp: queue_inv_def ack_claim_script_def snap_types_ok_def hmap_hdel zmap_zrem
      type_ok_hdel type_ok_zrem split: if_splits)

lemma requeue_queue_inv:
  "queue_inv s \<Longrightarrow> requeue_claim_script x c s = (s', r) \<Longrightarrow> queue_inv s'"
  by (auto simp: queue_inv_def requeue_claim_script_def snap_types_ok_def hmap_hdel zmap_zrem
      type_ok_hdel type_ok_zrem type_ok_sadd split: if_splits)

lemma reap_queue_inv:
  "queue_inv s \<Longrightarrow> reap_expired_script now n s = (s', r) \<Longrightarrow> queue_inv s'"
  by (auto simp: queue_inv_def dest!: reap_script_spec)

text \<open>
  A reaper that may return at least as many claims as have expired leaves no expired
  claim behind: every post whose lease ended is dirty again and can be claimed by another
  relay, and a post whose lease has not ended keeps its owner and its lease. No post is
  stranded by a relay that stopped.
\<close>

theorem reap_frees_exactly_expired:
  assumes inv: "queue_inv s" and run: "reap_expired_script now limit s = (s', r)"
    and limit: "1 \<le> limit" "limit \<le> 100" "int (card (scored_le now (s KProcessing))) \<le> limit"
  shows "(\<exists>n. r = Inr n) \<and> queue_inv s' \<and>
    (\<forall>x. x \<in> scored_le now (s KProcessing) \<longrightarrow> snap_owner s' x = None \<and> snap_pend s' x) \<and>
    (\<forall>x. x \<notin> scored_le now (s KProcessing) \<longrightarrow>
       snap_owner s' x = snap_owner s x \<and> snap_pend s' x = snap_pend s x \<and>
       zscore (s' KProcessing) x = zscore (s KProcessing) x)"
proof -
  have "\<nexists>e. r = Inl e"
    using run inv limit by (auto simp: reap_expired_script_def queue_inv_def split: prod.splits)
  with reap_script_spec [OF run] obtain X n where X: "X = set (zrange_le now (nat limit) (s KProcessing))"
    "r = Inr n"
    "fset (smembers (s' KDirty)) = fset (smembers (s KDirty)) \<union> {x \<in> X. hget (s KClaims) x \<noteq> None}"
    "\<And>x. hget (s' KClaims) x = (if x \<in> X then None else hget (s KClaims) x)"
    "\<And>x. zscore (s' KProcessing) x = (if x \<in> X then None else zscore (s KProcessing) x)"
    by blast
  have XE: "X = scored_le now (s KProcessing)"
    using limit(3) by (simp add: X(1) zrange_le_all)
  have own: "hget (s KClaims) x \<noteq> None" if "x \<in> X" for x
    using that inv by (simp add: XE scored_le_def queue_inv_def fmlookup_dom_iff)
  have "snap_owner s' x = None \<and> snap_pend s' x" if "x \<in> X" for x
    using that own [OF that] X(3,4) by (simp add: snap_owner_def snap_pend_def)
  moreover have "snap_owner s' x = snap_owner s x \<and> snap_pend s' x = snap_pend s x \<and>
       zscore (s' KProcessing) x = zscore (s KProcessing) x" if "x \<notin> X" for x
    using that X(3-5) by (simp add: snap_owner_def snap_pend_def)
  ultimately show ?thesis
    using reap_queue_inv [OF inv run] X(2) unfolding XE by blast
qed

definition demo_queue :: lstore where
  "demo_queue = (\<lambda>_. None)
     (KDirty := Some (RSet {|''5''|}, None),
      KClaims := Some (RHash (fmupd ''7'' ''t:7'' fmempty), None),
      KProcessing := Some (RZset (fmupd ''7'' 50 fmempty), None))"

lemma demo_queue_inv: "queue_inv demo_queue"
  by (auto simp: queue_inv_def demo_queue_def snap_types_ok_def type_ok_def)

lemma demo_queue_scored: "scored_le 60 (demo_queue KProcessing) = {''7''}"
  by (auto simp: scored_le_def demo_queue_def)

theorem reap_frees_exactly_expired_witness:
  "\<exists>s' r. reap_expired_script 60 100 demo_queue = (s', r) \<and> snap_owner s' ''7'' = None \<and> snap_pend s' ''7''"
proof -
  obtain s' r where run: "reap_expired_script 60 100 demo_queue = (s', r)" by fastforce
  show ?thesis
    using run reap_frees_exactly_expired [OF demo_queue_inv run] by (auto simp: demo_queue_scored)
qed

text \<open>
  A claim grants the first \<open>limit\<close> sampled posts that have no owner, each under the token
  made of the caller's prefix and the post and with the caller's lease, and takes them out of the
  dirty set. A sampled post that is owned stays dirty, no other post changes, and a
  granted post is not granted to a later claim while the first one holds it.
\<close>

theorem claim_grants_unowned_once:
  assumes ok: "sample_ok cands s" and types: "snap_types_ok s"
    and limit: "1 \<le> limit" "limit \<le> 100" and q: "q \<noteq> ''''"
    and run: "claim_script limit d q cands s = (s', r)"
  shows "r = Inr (map (\<lambda>x. (x, claim_token q x)) (take (nat limit) (unowned s cands))) \<and>
    (\<forall>x. x \<in> set (take (nat limit) (unowned s cands)) \<longrightarrow>
       snap_owner s' x = Some (claim_token q x) \<and> zscore (s' KProcessing) x = Some d \<and> \<not> snap_pend s' x) \<and>
    (\<forall>x. x \<notin> set (take (nat limit) (unowned s cands)) \<longrightarrow>
       snap_owner s' x = snap_owner s x \<and> zscore (s' KProcessing) x = zscore (s KProcessing) x \<and>
       snap_pend s' x = snap_pend s x) \<and>
    (\<forall>x c cands' limit' d' q' s'' gs. (x, c) \<in> set (sum.projr r) \<longrightarrow> sample_ok cands' s' \<longrightarrow>
       claim_script limit' d' q' cands' s' = (s'', Inr gs) \<longrightarrow> x \<notin> fst ` set gs)"
proof -
  have ne: "\<nexists>e. r = Inl e"
    using run types limit q by (auto simp: claim_script_def split: prod.splits)
  have dis: "distinct cands" using ok by (simp add: sample_ok_def)
  let ?G = "take (nat limit) (unowned s cands)"
  from claim_script_spec [OF run dis] ne have G: "r = Inr (map (\<lambda>x. (x, claim_token q x)) ?G)"
    "fset (smembers (s' KDirty)) = fset (smembers (s KDirty)) - set ?G"
    "\<And>x. hget (s' KClaims) x = (if x \<in> set ?G then Some (claim_token q x) else hget (s KClaims) x)"
    "\<And>x. zscore (s' KProcessing) x = (if x \<in> set ?G then Some d else zscore (s KProcessing) x)"
    by blast+
  have ex: "x \<notin> fst ` set gs"
    if "(x, c) \<in> set (sum.projr r)" "sample_ok cands' s'"
      "claim_script limit' d' q' cands' s' = (s'', Inr gs)"
    for x c cands' limit' d' q' s'' gs
  proof
    assume "x \<in> fst ` set gs"
    then obtain c' where "(x, c') \<in> set gs" by auto
    with snapq.exclusive_grant [OF ok run [unfolded G(1)] _ that(2,3), of x c c'] that(1) G(1)
    show False by simp
  qed
  show ?thesis
    using G(2-4) ex unfolding G(1) snap_owner_def snap_pend_def by simp
qed

theorem claim_grants_unowned_once_witness:
  "\<exists>s'. claim_script 2 90 ''u'' [''5''] demo_queue = (s', Inr [(''5'', ''u:5'')]) \<and>
     snap_owner s' ''5'' = Some ''u:5'' \<and> \<not> snap_pend s' ''5''"
proof -
  have ok: "sample_ok [''5''] demo_queue" and ty: "snap_types_ok demo_queue"
    by (auto simp: sample_ok_def demo_queue_def snap_types_ok_def type_ok_def)
  have un: "take (nat 2) (unowned demo_queue [''5'']) = [''5'']"
    by (simp add: unowned_def demo_queue_def)
  obtain s' r where run: "claim_script 2 90 ''u'' [''5''] demo_queue = (s', r)" by fastforce
  show ?thesis
    using run claim_grants_unowned_once [OF ok ty _ _ _ run] un by (simp add: claim_token_def)
qed

end
