(* ===== verification/LikeErrors.thy ===== *)
theory LikeErrors
  imports LikeMutate
begin

text \<open>
  The Go side of a Redis call: replies as \<open>interface{}\<close> values and the helpers that read
  them, failures of the connection, the errors of \<open>likes/types.go\<close> with \<open>errors.Is\<close>, and
  \<open>mapScriptError\<close>, which turns a script's error code into one of them.
\<close>

section \<open>Replies\<close>

datatype redis_value = VString string | VBytes string | VInt int | VNil | VArray "redis_value list"

fun redisBulkString :: "redis_value \<Rightarrow> string option" where
  "redisBulkString (VString v) = Some v"
| "redisBulkString (VBytes v) = Some v"
| "redisBulkString _ = None"

definition parseInt64 :: "string \<Rightarrow> int" where
  "parseInt64 v =
     (case parse_int64 v of
        Some n \<Rightarrow> n
      | None \<Rightarrow>
         (if v \<noteq> [] \<and> (digits_only v \<or> hd v = CHR ''+'' \<and> digits_only (tl v)) then 2 ^ 63 - 1
          else if v \<noteq> [] \<and> hd v = CHR ''-'' \<and> digits_only (tl v) then - (2 ^ 63)
          else 0))"

fun asInt64 :: "redis_value \<Rightarrow> int" where
  "asInt64 (VInt n) = n"
| "asInt64 (VString v) = parseInt64 v"
| "asInt64 (VBytes v) = parseInt64 v"
| "asInt64 _ = 0"

fun asString :: "redis_value \<Rightarrow> string" where
  "asString (VString v) = v"
| "asString (VBytes v) = v"
| "asString (VInt n) = show_int n"
| "asString _ = ''''"

section \<open>Errors\<close>

datatype sentinel =
    ErrNotReady | ErrUserLikeNotReady | ErrPostLikeNotReady | ErrPostLikeUnavailable
  | ErrLikeProjectionNotReady | ErrLikeRecoveryUnsafe | ErrLikeRecoveryFenceLost | ErrLikeRedisType
  | ErrUserLikeRedisType | ErrUserLikeCold | ErrUserLikeRecoveryUnsafe | ErrUserLikeRecoveryBusy
  | ErrUserLikeRecoveryTimeout | ErrUserLikeRecoveryUnavailable | ErrUserLikeRecoveryTooLarge
  | ErrUserLikeRecoveryDisabled | ErrUserLikeRecoveryLockLost | ErrUserLikeRecoveryIncomplete
  | ErrUserLikeOrderIndexMissing | ErrUserLikeOrderIndexInconsistent | ErrUserLikeCapReached
  | ErrUserLikeOverCap | ErrUserLikeLedgerType | ErrUserLikeRestoreLockType | ErrPostLikeRedisType
  | ErrLikeRelationLifecycleMismatch | ErrLikeCountInconsistent | ErrLikeStateExpiryUnsupported
  | ErrLikeInitializationOutcomeUnknown

text \<open>The failures of a connection or a context that the code tells apart.\<close>

datatype net_error =
    ECONNREFUSED | ENETUNREACH | EHOSTUNREACH | ECONNRESET | ETIMEDOUT | EOF
  | NetTimeout | NetTemporary | CtxCanceled | CtxDeadlineExceeded | NetOther string

text \<open>
  \<open>RedisErr\<close> is an error reply of the server with its message, \<open>NetErr\<close> an error of the
  connection or the context, \<open>JoinErr\<close> the result of \<open>errors.Join\<close>.
\<close>

datatype go_error =
    RedisErr string
  | NetErr net_error
  | JoinErr go_error go_error
  | Sentinel sentinel
  | ReadinessError sentinel
  | LikeRedisTypeError sentinel
  | WrapErr string go_error
  | OtherErr string

text \<open>\<open>errors.Is(err, target)\<close>, with the \<open>Is\<close> methods of the two structured errors.\<close>

fun errors_is :: "go_error \<Rightarrow> sentinel \<Rightarrow> bool" where
  "errors_is (Sentinel k) t \<longleftrightarrow> k = t"
| "errors_is (ReadinessError k) t \<longleftrightarrow> t = ErrNotReady \<or> t = k"
| "errors_is (LikeRedisTypeError k) t \<longleftrightarrow> t = ErrLikeRedisType \<or> t = k"
| "errors_is (WrapErr _ e) t \<longleftrightarrow> errors_is e t"
| "errors_is (JoinErr a b) t \<longleftrightarrow> errors_is a t \<or> errors_is b t"
| "errors_is _ t \<longleftrightarrow> False"

definition userNotReadyError :: go_error where
  "userNotReadyError = ReadinessError ErrUserLikeNotReady"
definition postNotReadyError :: go_error where
  "postNotReadyError = ReadinessError ErrPostLikeNotReady"
definition userLikeRedisTypeError :: go_error where
  "userLikeRedisTypeError = LikeRedisTypeError ErrUserLikeRedisType"
definition userLikeLedgerTypeError :: go_error where
  "userLikeLedgerTypeError = LikeRedisTypeError ErrUserLikeLedgerType"
definition postLikeRedisTypeError :: go_error where
  "postLikeRedisTypeError = LikeRedisTypeError ErrPostLikeRedisType"

lemmas error_defs = userNotReadyError_def postNotReadyError_def userLikeRedisTypeError_def
  userLikeLedgerTypeError_def postLikeRedisTypeError_def

section \<open>Script errors\<close>

definition ascii_upper :: "char \<Rightarrow> char" where
  "ascii_upper c = (if 97 \<le> (of_char c :: nat) \<and> (of_char c :: nat) \<le> 122
                    then char_of ((of_char c :: nat) - 32) else c)"

definition ascii_lower :: "char \<Rightarrow> char" where
  "ascii_lower c = (if 65 \<le> (of_char c :: nat) \<and> (of_char c :: nat) \<le> 90
                    then char_of ((of_char c :: nat) + 32) else c)"

abbreviation contains :: "string \<Rightarrow> string \<Rightarrow> bool" where
  "contains message code \<equiv> sublist code message"

text \<open>The cases in the order of the source: the first code the message contains decides.\<close>

definition script_error_table :: "(string \<times> go_error) list" where
  "script_error_table =
     [(''LIKE_USER_EVICTION_POST_TYPE'', postLikeRedisTypeError),
      (''LIKE_USER_EVICTION_POST_NOT_READY'', postNotReadyError),
      (''LIKE_USER_EVICTION_COUNT_INCONSISTENT'', Sentinel ErrLikeCountInconsistent),
      (''LIKE_USER_TYPE'', userLikeRedisTypeError),
      (''LIKE_USER_LEDGER_TYPE'', userLikeLedgerTypeError),
      (''LIKE_USER_ORDER_TYPE'', userLikeRedisTypeError),
      (''LIKE_USER_ORDER_MISSING'', Sentinel ErrUserLikeOrderIndexMissing),
      (''LIKE_USER_ORDER_INCONSISTENT'', Sentinel ErrUserLikeOrderIndexInconsistent),
      (''LIKE_USER_OVER_CAP'', Sentinel ErrUserLikeOverCap),
      (''LIKE_USER_RESTORE_LOCK_TYPE'', Sentinel ErrUserLikeRestoreLockType),
      (''LIKE_USER_RECOVERY_TOO_LARGE'', Sentinel ErrUserLikeRecoveryTooLarge),
      (''LIKE_USER_RECOVERY_LOCK_LOST'', Sentinel ErrUserLikeRecoveryLockLost),
      (''LIKE_USER_RESTORE_INCOMPLETE'', Sentinel ErrUserLikeRecoveryIncomplete),
      (''LIKE_USER_RECOVERY_DISABLED'', Sentinel ErrUserLikeRecoveryDisabled),
      (''LIKE_USER_RECOVERY_UNSAFE'', Sentinel ErrUserLikeRecoveryUnsafe),
      (''LIKE_USER_RECOVERY_POST_DELETED'', Sentinel ErrUserLikeRecoveryUnsafe),
      (''LIKE_USER_RESTORE_TARGET_EXISTS'', Sentinel ErrUserLikeRecoveryUnsafe),
      (''LIKE_USER_RESTORE_TEMP_EXISTS'', Sentinel ErrUserLikeRecoveryUnsafe),
      (''LIKE_USER_RESTORE_POST_STATE'', Sentinel ErrUserLikeRecoveryUnsafe),
      (''LIKE_USER_ORPHAN_SET_PRESENT'', Sentinel ErrUserLikeRecoveryUnsafe),
      (''LIKE_POST_TYPE'', postLikeRedisTypeError),
      (''LIKE_POST_DELETED'', Sentinel ErrPostLikeUnavailable),
      (''LIKE_USER_NOT_READY'', userNotReadyError),
      (''LIKE_POST_NOT_READY'', postNotReadyError),
      (''LIKE_NOT_READY'', Sentinel ErrNotReady),
      (''LIKE_RECOVERY_UNSAFE'', Sentinel ErrLikeRecoveryUnsafe),
      (''LIKE_RECOVERY_FENCE_LOST'', Sentinel ErrLikeRecoveryFenceLost),
      (''LIKE_COUNT_INCONSISTENT'', Sentinel ErrLikeCountInconsistent),
      (''LIKE_TYPE_PRECHECK'', WrapErr ''like Redis key type preflight failed'' (Sentinel ErrLikeRedisType))]"

fun first_match :: "string \<Rightarrow> (string \<times> go_error) list \<Rightarrow> go_error option" where
  "first_match m [] = None"
| "first_match m ((code, e) # rest) = (if contains m code then Some e else first_match m rest)"

definition mapScriptMessage :: "string \<Rightarrow> go_error" where
  "mapScriptMessage message =
     (case first_match message script_error_table of
        Some e \<Rightarrow> e
      | None \<Rightarrow>
         (if contains (map ascii_upper message) ''WRONGTYPE''
          then WrapErr ''like Redis key type preflight failed'' (Sentinel ErrLikeRedisType)
          else RedisErr message))"

text \<open>An error that is not a server reply has none of the codes in its message.\<close>

definition mapScriptError :: "go_error \<Rightarrow> go_error" where
  "mapScriptError err = (case err of RedisErr m \<Rightarrow> mapScriptMessage m | _ \<Rightarrow> err)"

text \<open>
  No case of \<open>mapScriptError\<close> hides a later one: every error code of the table, as a
  script returns it, reaches its own case and is reported as exactly the error the case
  names.
\<close>

theorem mapScriptError_no_shadowing:
  "list_all (\<lambda>(code, e). mapScriptError (RedisErr code) = e) script_error_table"
  unfolding mapScriptError_def mapScriptMessage_def script_error_table_def by code_simp

text \<open>The result of a call as the store's methods return it.\<close>

definition mapped :: "go_error + 'a \<Rightarrow> go_error + 'a" where
  "mapped r = map_sum mapScriptError id r"

section \<open>Calls that may fail\<close>

text \<open>
  A call runs to completion, or the server refuses it without running it (\<open>LOADING\<close>,
  \<open>READONLY\<close>), or its request is lost before the server runs it, or its reply is lost
  after the server ran it: the caller cannot tell the last two apart.
\<close>

datatype fault = Healthy | Refused string | LostRequest net_error | LostReply net_error

definition raw :: "'a res \<Rightarrow> go_error + 'a" where
  "raw r = map_sum RedisErr id r"

definition call :: "fault \<Rightarrow> ('s \<Rightarrow> 's \<times> 'a res) \<Rightarrow> 's \<Rightarrow> 's \<times> (go_error + 'a)" where
  "call f op s =
     (case f of
        Healthy \<Rightarrow> map_prod id raw (op s)
      | Refused m \<Rightarrow> (s, Inl (RedisErr m))
      | LostRequest e \<Rightarrow> (s, Inl (NetErr e))
      | LostReply e \<Rightarrow> (fst (op s), Inl (NetErr e)))"

text \<open>
  A pipeline sends its commands in one write. When the connection breaks, the server may
  have run any number of them; the caller then sees the connection's error and no reply.
\<close>

type_synonym pipe_fault = "(nat \<times> net_error) option"

fun run_all :: "('s \<Rightarrow> 's \<times> 'a res) list \<Rightarrow> 's \<Rightarrow> 's \<times> 'a res list" where
  "run_all [] s = (s, [])"
| "run_all (op # ops) s = (let (s1, r) = op s; (s2, rs) = run_all ops s1 in (s2, r # rs))"

fun first_failure :: "'a res list \<Rightarrow> string option" where
  "first_failure [] = None"
| "first_failure (Inl e # _) = Some e"
| "first_failure (Inr _ # rs) = first_failure rs"

text \<open>\<open>Exec\<close> of a pipeline: the replies, or the first error among them.\<close>

definition pipe_exec :: "pipe_fault \<Rightarrow> ('s \<Rightarrow> 's \<times> 'a res) list \<Rightarrow> 's \<Rightarrow> 's \<times> (go_error + 'a list)" where
  "pipe_exec f ops s =
     (case f of
        Some (n, e) \<Rightarrow> (fst (run_all (take n ops) s), Inl (NetErr e))
      | None \<Rightarrow>
         (let (s', rs) = run_all ops s
          in (s', case first_failure rs of Some m \<Rightarrow> Inl (RedisErr m) | None \<Rightarrow> Inr (map sum.projr rs))))"

lemma run_all_append: "fst (run_all (a @ b) s) = fst (run_all b (fst (run_all a s)))"
  by (induction a arbitrary: s) (simp_all add: Let_def case_prod_unfold)

section \<open>Classifying errors\<close>

text \<open>\<open>errors.Is\<close> for a failure of the connection or context, \<open>errors.As\<close> for a server reply.\<close>

fun net_is :: "go_error \<Rightarrow> net_error \<Rightarrow> bool" where
  "net_is (NetErr e) t \<longleftrightarrow> e = t"
| "net_is (WrapErr _ e) t \<longleftrightarrow> net_is e t"
| "net_is (JoinErr a b) t \<longleftrightarrow> net_is a t \<or> net_is b t"
| "net_is _ t \<longleftrightarrow> False"

fun redis_message :: "go_error \<Rightarrow> string option" where
  "redis_message (RedisErr m) = Some m"
| "redis_message (WrapErr _ e) = redis_message e"
| "redis_message (JoinErr a b) = (case redis_message a of Some m \<Rightarrow> Some m | None \<Rightarrow> redis_message b)"
| "redis_message _ = None"

text \<open>
  \<open>strings.TrimSpace\<close> on bytes: the encodings of the runes with the property \<open>White_Space\<close>
  are removed from both ends.
\<close>

definition space_runes :: "string list" where
  "space_runes =
    [[CHR 0x20], [CHR 0x09], [CHR 0x0A],
     [CHR 0x0B], [CHR 0x0C], [CHR 0x0D],
     [CHR 0xC2, CHR 0x85], [CHR 0xC2, CHR 0xA0], [CHR 0xE1, CHR 0x9A, CHR 0x80],
     [CHR 0xE2, CHR 0x80, CHR 0x80], [CHR 0xE2, CHR 0x80, CHR 0x81], [CHR 0xE2, CHR 0x80, CHR 0x82],
     [CHR 0xE2, CHR 0x80, CHR 0x83], [CHR 0xE2, CHR 0x80, CHR 0x84], [CHR 0xE2, CHR 0x80, CHR 0x85],
     [CHR 0xE2, CHR 0x80, CHR 0x86], [CHR 0xE2, CHR 0x80, CHR 0x87], [CHR 0xE2, CHR 0x80, CHR 0x88],
     [CHR 0xE2, CHR 0x80, CHR 0x89], [CHR 0xE2, CHR 0x80, CHR 0x8A], [CHR 0xE2, CHR 0x80, CHR 0xA8],
     [CHR 0xE2, CHR 0x80, CHR 0xA9], [CHR 0xE2, CHR 0x80, CHR 0xAF], [CHR 0xE2, CHR 0x81, CHR 0x9F],
     [CHR 0xE3, CHR 0x80, CHR 0x80]]"

function strip_left :: "string list \<Rightarrow> string \<Rightarrow> string" where
  "strip_left ws s =
     (case find (\<lambda>w. w \<noteq> [] \<and> prefix w s) ws of
        None \<Rightarrow> s
      | Some w \<Rightarrow> strip_left ws (drop (length w) s))"
  by pat_completeness auto
termination
  by (relation "measure (\<lambda>(ws, s). length s)") (auto simp: find_Some_iff prefix_def)

declare strip_left.simps [simp del]

definition trim_space :: "string \<Rightarrow> string" where
  "trim_space s = rev (strip_left (map rev space_runes) (rev (strip_left space_runes s)))"

lemma strip_left_le: "length (strip_left ws s) \<le> length s"
  by (induction ws s rule: strip_left.induct) (subst strip_left.simps, force split: option.splits)

lemma strip_left_id: "(\<forall>w \<in> set ws. w \<noteq> [] \<longrightarrow> \<not> prefix w s) \<Longrightarrow> strip_left ws s = s"
  by (subst strip_left.simps) (auto simp: find_Some_iff split: option.splits)

end
