(* ===== verification/LikeBehavior.thy ===== *)
theory LikeBehavior
  imports LikeQueue LikeErrors
begin

text \<open>
  The behaviour queue: \<open>likes/behavior_scripts.go\<close> (claim, acknowledge, requeue, reap) and
  the Go side that loads what was claimed (\<open>likes/behavior_store.go\<close>). An item is a
  pair \<open>user:post\<close>; the state hash keeps the latest state of the pair, encoded as
  \<open>flag|version|micros\<close>. The queue implements the interface \<open>work_queue\<close>; what it
  delivers for a pair is the version field of the encoded state.
\<close>

section \<open>The scripts\<close>

definition behavior_claim_types_ok :: "lstore \<Rightarrow> bool" where
  "behavior_claim_types_ok s \<longleftrightarrow>
     type_ok TSet (s KBehaviorDirty) \<and> type_ok TZset (s KBehaviorProcessing) \<and>
     type_ok THash (s KBehaviorClaims)"

definition behavior_types_ok :: "lstore \<Rightarrow> bool" where
  "behavior_types_ok s \<longleftrightarrow> behavior_claim_types_ok s \<and> type_ok THash (s KBehaviorState)"

text \<open>
  The claim loop pops up to \<open>limit\<close> pairs; \<open>pick\<close> is the server's choice of the element
  that \<open>SPOP\<close> removes. An owned pair is put back at the end.
\<close>

definition grant_pair :: "int \<Rightarrow> string \<Rightarrow> string \<Rightarrow> lstore \<Rightarrow> lstore" where
  "grant_pair d q x s =
     at_key KBehaviorProcessing (zadd d x) (at_key KBehaviorClaims (hset x (claim_token q x)) s)"

fun behavior_claim_loop ::
  "nat \<Rightarrow> int \<Rightarrow> string \<Rightarrow> (string fset \<Rightarrow> string) \<Rightarrow> lstore \<Rightarrow> (string \<times> string) list \<Rightarrow> string list \<Rightarrow>
   lstore \<times> (string \<times> string) list \<times> string list" where
  "behavior_claim_loop 0 d q pick s res deferred = (s, res, deferred)"
| "behavior_claim_loop (Suc n) d q pick s res deferred =
     (if smembers (s KBehaviorDirty) = {||} then (s, res, deferred)
      else
        (let x = pick (smembers (s KBehaviorDirty));
             s1 = at_key KBehaviorDirty (srem x) s
         in if hget (s1 KBehaviorClaims) x = None
            then behavior_claim_loop n d q pick (grant_pair d q x s1) (res @ [(x, claim_token q x)]) deferred
            else behavior_claim_loop n d q pick s1 res (deferred @ [x])))"

fun sadd_all :: "string list \<Rightarrow> lstore \<Rightarrow> lstore" where
  "sadd_all [] s = s"
| "sadd_all (x # xs) s = sadd_all xs (at_key KBehaviorDirty (sadd x) s)"

definition behavior_claim_script ::
  "int \<Rightarrow> int \<Rightarrow> string \<Rightarrow> (string fset \<Rightarrow> string) \<Rightarrow> lstore \<Rightarrow> lstore \<times> (string \<times> string) list res" where
  "behavior_claim_script limit d q pick s =
     (case first_error
        [(limit < 1 \<or> limit > 500 \<or> q = '''', ''LIKE_BEHAVIOR_BATCH_INVALID''),
         (\<not> behavior_claim_types_ok s, ''LIKE_TYPE_PRECHECK'')] of
        Some e \<Rightarrow> (s, Inl e)
      | None \<Rightarrow>
         (let (s1, res, deferred) = behavior_claim_loop (nat limit) d q pick s [] []
          in (sadd_all deferred s1, Inr res)))"

text \<open>What \<open>SPOP\<close> may choose: a member of the set.\<close>

definition pick_ok :: "(string fset \<Rightarrow> string) \<Rightarrow> lstore \<Rightarrow> bool" where
  "pick_ok pick s \<longleftrightarrow> (\<forall>m. m |\<subseteq>| smembers (s KBehaviorDirty) \<longrightarrow> m \<noteq> {||} \<longrightarrow> pick m |\<in>| m)"

text \<open>
  The Lua pattern \<open>'^[^|]*|([^|]+)|'\<close>: the field between the first and the second bar,
  when both exist and it is not empty.
\<close>

definition version_field :: "string \<Rightarrow> string option" where
  "version_field st =
     (case dropWhile (\<lambda>c. c \<noteq> CHR ''|'') st of
        [] \<Rightarrow> None
      | _ # rest \<Rightarrow>
         (let f = takeWhile (\<lambda>c. c \<noteq> CHR ''|'') rest
          in if f = [] \<or> dropWhile (\<lambda>c. c \<noteq> CHR ''|'') rest = [] then None else Some f))"

definition behavior_ack_script :: "string \<Rightarrow> string \<Rightarrow> string \<Rightarrow> lstore \<Rightarrow> lstore \<times> bool res" where
  "behavior_ack_script x c v s =
     (if \<not> behavior_types_ok s then (s, Inl ''LIKE_TYPE_PRECHECK'')
      else if hget (s KBehaviorClaims) x \<noteq> Some c then (s, Inr False)
      else
        (let s1 = (case hget (s KBehaviorState) x of
                     Some st \<Rightarrow>
                       (if version_field st = Some v
                        then at_key KBehaviorDirty (srem x) (at_key KBehaviorState (hdel x) s)
                        else at_key KBehaviorDirty (sadd x) s)
                   | None \<Rightarrow> at_key KBehaviorDirty (srem x) s)
         in (at_key KBehaviorProcessing (zrem x) (at_key KBehaviorClaims (hdel x) s1), Inr True)))"

definition behavior_requeue_script :: "string \<Rightarrow> string \<Rightarrow> lstore \<Rightarrow> lstore \<times> bool res" where
  "behavior_requeue_script x c s =
     (if \<not> behavior_types_ok s then (s, Inl ''LIKE_TYPE_PRECHECK'')
      else if hget (s KBehaviorClaims) x \<noteq> Some c then (s, Inr False)
      else
        (let s1 = at_key KBehaviorProcessing (zrem x) (at_key KBehaviorClaims (hdel x) s)
         in (if hget (s1 KBehaviorState) x \<noteq> None then at_key KBehaviorDirty (sadd x) s1 else s1,
             Inr True)))"

fun behavior_reap_loop :: "string list \<Rightarrow> lstore \<Rightarrow> nat \<Rightarrow> lstore \<times> nat" where
  "behavior_reap_loop [] s n = (s, n)"
| "behavior_reap_loop (x # xs) s n =
     (if hget (s KBehaviorClaims) x \<noteq> None then
        (let s1 = at_key KBehaviorClaims (hdel x) s;
             s2 = (if hget (s1 KBehaviorState) x \<noteq> None then at_key KBehaviorDirty (sadd x) s1 else s1)
         in behavior_reap_loop xs (at_key KBehaviorProcessing (zrem x) s2) (n + 1))
      else behavior_reap_loop xs (at_key KBehaviorProcessing (zrem x) s) n)"

definition behavior_reap_expired_script :: "int \<Rightarrow> int \<Rightarrow> lstore \<Rightarrow> lstore \<times> nat res" where
  "behavior_reap_expired_script now limit s =
     (case first_error
        [(limit < 1 \<or> limit > 500, ''LIKE_BEHAVIOR_BATCH_INVALID''),
         (\<not> behavior_types_ok s, ''LIKE_TYPE_PRECHECK'')] of
        Some e \<Rightarrow> (s, Inl e)
      | None \<Rightarrow>
         (let (s', n) = behavior_reap_loop (zrange_le now (nat limit) (s KBehaviorProcessing)) s 0
          in (s', Inr n)))"

section \<open>What the loops do\<close>

definition beh_pend :: "lstore \<Rightarrow> string \<Rightarrow> bool" where
  "beh_pend s x \<longleftrightarrow> x |\<in>| smembers (s KBehaviorDirty)"

definition beh_owner :: "lstore \<Rightarrow> string \<Rightarrow> string option" where
  "beh_owner s x = hget (s KBehaviorClaims) x"

definition beh_val :: "lstore \<Rightarrow> string \<Rightarrow> string option" where
  "beh_val s x = Option.bind (hget (s KBehaviorState) x) version_field"

lemma sadd_all_reads:
  "behavior_claim_types_ok s \<Longrightarrow> behavior_claim_types_ok (sadd_all xs s)"
  "k \<noteq> KBehaviorDirty \<Longrightarrow> sadd_all xs s k = s k"
  "type_ok TSet (s KBehaviorDirty) \<Longrightarrow>
     smembers (sadd_all xs s KBehaviorDirty) = fset_of_list xs |\<union>| smembers (s KBehaviorDirty)"
  by (induction xs arbitrary: s)
    (auto simp: behavior_claim_types_ok_def type_ok_sadd smembers_sadd)

lemma grant_pair_reads:
  "behavior_claim_types_ok s \<Longrightarrow> behavior_claim_types_ok (grant_pair d q x s)"
  "k \<notin> {KBehaviorProcessing, KBehaviorClaims} \<Longrightarrow> grant_pair d q x s k = s k"
  "behavior_claim_types_ok s \<Longrightarrow>
     hmap (grant_pair d q x s KBehaviorClaims) = fmupd x (claim_token q x) (hmap (s KBehaviorClaims))"
  by (simp_all add: grant_pair_def behavior_claim_types_ok_def type_ok_zadd type_ok_hset hmap_hset)

text \<open>
  The effect of a part of the claim loop that granted \<open>gs\<close> and deferred \<open>ds\<close>, on every
  item: it stays as it was, or it was pending and unowned and is now owned under the new
  token, or it was popped while owned.
\<close>

definition popped :: "string \<Rightarrow> string \<Rightarrow> bool \<Rightarrow> bool \<Rightarrow> lstore \<Rightarrow> lstore \<Rightarrow> bool" where
  "popped q x granted deferred s s' \<longleftrightarrow>
     (\<not> granted \<and> \<not> deferred \<and> beh_pend s' x = beh_pend s x \<and> beh_owner s' x = beh_owner s x) \<or>
     (granted \<and> \<not> deferred \<and> beh_pend s x \<and> \<not> beh_pend s' x \<and>
        beh_owner s x = None \<and> beh_owner s' x = Some (claim_token q x)) \<or>
     (deferred \<and> \<not> granted \<and> beh_pend s x \<and> \<not> beh_pend s' x \<and>
        beh_owner s x \<noteq> None \<and> beh_owner s' x = beh_owner s x)"

definition claim_rel :: "string \<Rightarrow> string list \<Rightarrow> string list \<Rightarrow> lstore \<Rightarrow> lstore \<Rightarrow> bool" where
  "claim_rel q gs ds s s' \<longleftrightarrow>
     (\<forall>k. k \<notin> {KBehaviorDirty, KBehaviorProcessing, KBehaviorClaims} \<longrightarrow> s' k = s k) \<and>
     (\<forall>x. popped q x (x \<in> set gs) (x \<in> set ds) s s')"

lemma popped_trans:
  assumes "popped q x g e s s1" and "popped q x g' e' s1 s'"
  shows "popped q x (g \<or> g') (e \<or> e') s s'"
  using assms unfolding popped_def by (elim disjE) simp_all

lemma claim_rel_trans:
  assumes "claim_rel q gs ds s s1" and "claim_rel q gs' ds' s1 s'"
  shows "claim_rel q (gs @ gs') (ds @ ds') s s'"
proof -
  have "popped q x (x \<in> set (gs @ gs')) (x \<in> set (ds @ ds')) s s'" for x
    using popped_trans [of q x "x \<in> set gs" "x \<in> set ds" s s1 "x \<in> set gs'" "x \<in> set ds'" s'] assms
    unfolding claim_rel_def by simp
  moreover have "s' k = s k" if "k \<notin> {KBehaviorDirty, KBehaviorProcessing, KBehaviorClaims}" for k
    using assms that unfolding claim_rel_def by metis
  ultimately show ?thesis unfolding claim_rel_def by blast
qed

lemma claim_rel_granted:
  assumes "claim_rel q gs ds s s'"
  shows "x \<in> set gs \<Longrightarrow> beh_pend s x" "x \<in> set gs \<Longrightarrow> \<not> beh_pend s' x"
proof -
  have "popped q x (x \<in> set gs) (x \<in> set ds) s s'" using assms by (simp add: claim_rel_def)
  then show "x \<in> set gs \<Longrightarrow> beh_pend s x" "x \<in> set gs \<Longrightarrow> \<not> beh_pend s' x"
    by (auto simp: popped_def)
qed

lemma pop_step:
  assumes "behavior_claim_types_ok s" and "x |\<in>| smembers (s KBehaviorDirty)"
  defines "s1 \<equiv> at_key KBehaviorDirty (srem x) s"
  shows "behavior_claim_types_ok s1" "smembers (s1 KBehaviorDirty) = smembers (s KBehaviorDirty) |-| {|x|}"
    "hget (s1 KBehaviorClaims) x = None \<Longrightarrow> claim_rel q [x] [] s (grant_pair d q x s1)"
    "hget (s1 KBehaviorClaims) x \<noteq> None \<Longrightarrow> claim_rel q [] [x] s s1"
proof -
  show ty: "behavior_claim_types_ok s1"
    using assms(1) by (simp add: s1_def behavior_claim_types_ok_def type_ok_srem)
  show "smembers (s1 KBehaviorDirty) = smembers (s KBehaviorDirty) |-| {|x|}"
    by (simp add: s1_def smembers_srem)
  show "claim_rel q [x] [] s (grant_pair d q x s1)" if "hget (s1 KBehaviorClaims) x = None"
    using assms(2) that grant_pair_reads(3) [OF ty, of d q x]
    by (auto simp: claim_rel_def popped_def beh_pend_def beh_owner_def grant_pair_reads(2) s1_def smembers_srem)
  show "claim_rel q [] [x] s s1" if "hget (s1 KBehaviorClaims) x \<noteq> None"
    using assms(2) that
    by (auto simp: claim_rel_def popped_def beh_pend_def beh_owner_def s1_def smembers_srem)
qed

lemma behavior_claim_loop_rel:
  assumes "behavior_claim_types_ok s" and "pick_ok pick s"
    and "behavior_claim_loop n d q pick s res dfr = (s', res', dfr')"
  shows "behavior_claim_types_ok s' \<and>
    (\<exists>gs ds. res' = res @ map (\<lambda>x. (x, claim_token q x)) gs \<and> dfr' = dfr @ ds \<and> claim_rel q gs ds s s' \<and>
       distinct gs \<and> length gs \<le> n)"
  using assms
proof (induction n d q pick s res dfr rule: behavior_claim_loop.induct)
  case (1 d q pick s res dfr)
  then show ?case by (auto simp: claim_rel_def popped_def)
next
  case (2 n d q pick s res dfr)
  show ?case
  proof (cases "smembers (s KBehaviorDirty) = {||}")
    case True
    with "2.prems" show ?thesis by (auto simp: claim_rel_def popped_def)
  next
    case ne: False
    define x where "x = pick (smembers (s KBehaviorDirty))"
    define s1 where "s1 = at_key KBehaviorDirty (srem x) s"
    have x: "x |\<in>| smembers (s KBehaviorDirty)"
      using "2.prems"(2) ne by (simp add: pick_ok_def x_def)
    note st = pop_step [OF "2.prems"(1) x, folded s1_def]
    have pk: "pick_ok pick s1"
      using "2.prems"(2) unfolding pick_ok_def st(2) by (metis fminusD1 fsubset_iff)
    show ?thesis
    proof (cases "hget (s1 KBehaviorClaims) x = None")
      case un: True
      let ?s = "grant_pair d q x s1"
      have ty: "behavior_claim_types_ok ?s" by (rule grant_pair_reads(1) [OF st(1)])
      have pk2: "pick_ok pick ?s" using pk by (simp add: pick_ok_def grant_pair_reads)
      have run: "behavior_claim_loop n d q pick ?s (res @ [(x, claim_token q x)]) dfr = (s', res', dfr')"
        using "2.prems"(3) ne un by (simp add: x_def s1_def Let_def)
      from "2.IH"(1) [OF ne x_def s1_def un ty pk2 run] obtain gs ds where IH:
        "behavior_claim_types_ok s'" "claim_rel q gs ds ?s s'" "dfr' = dfr @ ds"
        "res' = (res @ [(x, claim_token q x)]) @ map (\<lambda>x. (x, claim_token q x)) gs"
        "distinct gs" "length gs \<le> n" by blast
      have "x \<notin> set gs"
        using claim_rel_granted(1) [OF IH(2)] claim_rel_granted(2) [OF st(3) [OF un, of q d]] by auto
      with claim_rel_trans [OF st(3) [OF un] IH(2)] IH show ?thesis
        by (intro conjI exI [of _ "x # gs"] exI [of _ ds]) simp_all
    next
      case ow: False
      have run: "behavior_claim_loop n d q pick s1 res (dfr @ [x]) = (s', res', dfr')"
        using "2.prems"(3) ne ow by (simp add: x_def s1_def Let_def del: not_None_eq)
      from "2.IH"(2) [OF ne x_def s1_def ow st(1) pk run] obtain gs ds where IH:
        "behavior_claim_types_ok s'" "claim_rel q gs ds s1 s'" "dfr' = (dfr @ [x]) @ ds"
        "res' = res @ map (\<lambda>x. (x, claim_token q x)) gs" "distinct gs" "length gs \<le> n" by blast
      from claim_rel_trans [OF st(4) [OF ow] IH(2)] IH show ?thesis
        by (intro conjI exI [of _ gs] exI [of _ "x # ds"]) simp_all
    qed
  qed
qed

lemma behavior_claim_script_spec:
  assumes "behavior_claim_script limit d q pick s = (s', r)" and "pick_ok pick s"
  shows "(\<exists>e. r = Inl e \<and> s' = s) \<or>
    (\<exists>gs. r = Inr (map (\<lambda>x. (x, claim_token q x)) gs) \<and> behavior_claim_types_ok s' \<and>
       distinct gs \<and> int (length gs) \<le> limit \<and>
       (\<forall>k. k \<notin> {KBehaviorDirty, KBehaviorProcessing, KBehaviorClaims} \<longrightarrow> s' k = s k) \<and>
       (\<forall>x. popped q x (x \<in> set gs) False s s'))"
proof (cases "first_error
        [(limit < 1 \<or> limit > 500 \<or> q = '''', ''LIKE_BEHAVIOR_BATCH_INVALID''),
         (\<not> behavior_claim_types_ok s, ''LIKE_TYPE_PRECHECK'')]")
  case (Some e)
  with assms show ?thesis by (auto simp: behavior_claim_script_def)
next
  case None
  then have ty: "behavior_claim_types_ok s" by (simp split: if_splits)
  obtain s1 res ds where run: "behavior_claim_loop (nat limit) d q pick s [] [] = (s1, res, ds)"
    by (metis prod_cases3)
  with assms(1) None have eq: "s' = sadd_all ds s1" "r = Inr res"
    unfolding behavior_claim_script_def by auto
  from behavior_claim_loop_rel [OF ty assms(2) run] obtain gs where gs:
    "behavior_claim_types_ok s1" "res = map (\<lambda>x. (x, claim_token q x)) gs" "claim_rel q gs ds s s1"
    "distinct gs" "length gs \<le> nat limit" by auto
  have len: "int (length gs) \<le> limit" using gs(5) None by (simp split: if_splits)
  have sa: "smembers (s' KBehaviorDirty) = fset_of_list ds |\<union>| smembers (s1 KBehaviorDirty)"
    "s' KBehaviorClaims = s1 KBehaviorClaims" "behavior_claim_types_ok s'"
    using gs(1) sadd_all_reads(1) [OF gs(1), of ds]
    by (simp_all add: eq sadd_all_reads behavior_claim_types_ok_def [of s1])
  have "popped q x (x \<in> set gs) False s s'" for x
  proof -
    have "popped q x (x \<in> set gs) (x \<in> set ds) s s1" using gs(3) by (simp add: claim_rel_def)
    then show ?thesis using sa by (auto simp: popped_def beh_pend_def beh_owner_def fset_of_list_elem)
  qed
  moreover have "s' k = s k" if "k \<notin> {KBehaviorDirty, KBehaviorProcessing, KBehaviorClaims}" for k
    using gs(3) that by (simp add: eq claim_rel_def sadd_all_reads)
  ultimately show ?thesis using sa(3) gs(2,4) eq(2) len by blast
qed

lemma behavior_reap_loop_spec:
  assumes "behavior_types_ok s" and "behavior_reap_loop xs s n = (s', m)"
  shows "behavior_types_ok s' \<and>
    (\<forall>k. k \<notin> {KBehaviorDirty, KBehaviorProcessing, KBehaviorClaims} \<longrightarrow> s' k = s k) \<and>
    (\<forall>x. beh_pend s' x \<longleftrightarrow> beh_pend s x \<or>
       (x \<in> set xs \<and> beh_owner s x \<noteq> None \<and> hget (s KBehaviorState) x \<noteq> None)) \<and>
    (\<forall>x. beh_owner s' x = (if x \<in> set xs then None else beh_owner s x))"
  using assms
proof (induction xs s n rule: behavior_reap_loop.induct)
  case (1 s n)
  then show ?case by simp
next
  case (2 x xs s n)
  show ?case
  proof (cases "hget (s KBehaviorClaims) x = None")
    case False
    define s1 where "s1 = at_key KBehaviorClaims (hdel x) s"
    define s2 where
      "s2 = (if hget (s1 KBehaviorState) x \<noteq> None then at_key KBehaviorDirty (sadd x) s1 else s1)"
    let ?s = "at_key KBehaviorProcessing (zrem x) s2"
    have ty: "behavior_types_ok ?s"
      using "2.prems"(1)
      by (simp add: s1_def s2_def behavior_types_ok_def behavior_claim_types_ok_def type_ok_sadd
          type_ok_zrem type_ok_hdel)
    have run: "behavior_reap_loop xs ?s (n + 1) = (s', m)"
      using "2.prems"(2) False unfolding behavior_reap_loop.simps s1_def s2_def Let_def by (simp only: if_True not_False_eq_True)
    have rd: "hget (?s KBehaviorState) = hget (s KBehaviorState)"
      "\<And>y. beh_owner ?s y = (if y = x then None else beh_owner s y)"
      "\<And>y. beh_pend ?s y \<longleftrightarrow> beh_pend s y \<or> (y = x \<and> hget (s KBehaviorState) x \<noteq> None)"
      using "2.prems"(1)
      by (auto simp: s1_def s2_def beh_owner_def beh_pend_def hmap_hdel smembers_sadd
          behavior_types_ok_def behavior_claim_types_ok_def)
    have fr: "k \<notin> {KBehaviorDirty, KBehaviorProcessing, KBehaviorClaims} \<Longrightarrow> ?s k = s k" for k
      by (simp add: s1_def s2_def)
    show ?thesis
      using "2.IH"(1) [OF _ s1_def s2_def ty run] False fr
      unfolding rd by (auto simp: beh_owner_def)
  next
    case True
    let ?s = "at_key KBehaviorProcessing (zrem x) s"
    have ty: "behavior_types_ok ?s"
      using "2.prems"(1) by (simp add: behavior_types_ok_def behavior_claim_types_ok_def type_ok_zrem)
    have run: "behavior_reap_loop xs ?s n = (s', m)" using "2.prems"(2) True by simp
    have rd: "beh_owner ?s = beh_owner s" "beh_pend ?s = beh_pend s" "?s KBehaviorState = s KBehaviorState"
      by (simp_all add: beh_owner_def beh_pend_def fun_eq_iff)
    show ?thesis
      using "2.IH"(2) [OF _ ty run] True unfolding rd by (auto simp: beh_owner_def)
  qed
qed

lemma behavior_reap_script_spec:
  assumes "behavior_reap_expired_script now limit s = (s', r)"
  shows "(\<exists>e. r = Inl e \<and> s' = s) \<or>
    ((\<exists>n. r = Inr n) \<and> behavior_types_ok s' \<and>
      (\<forall>k. k \<notin> {KBehaviorDirty, KBehaviorProcessing, KBehaviorClaims} \<longrightarrow> s' k = s k) \<and>
      (\<forall>x. beh_pend s' x \<longleftrightarrow> beh_pend s x \<or>
         (x \<in> set (zrange_le now (nat limit) (s KBehaviorProcessing)) \<and>
          beh_owner s x \<noteq> None \<and> hget (s KBehaviorState) x \<noteq> None)) \<and>
      (\<forall>x. beh_owner s' x =
         (if x \<in> set (zrange_le now (nat limit) (s KBehaviorProcessing)) then None else beh_owner s x)))"
proof (cases "first_error
        [(limit < 1 \<or> limit > 500, ''LIKE_BEHAVIOR_BATCH_INVALID''),
         (\<not> behavior_types_ok s, ''LIKE_TYPE_PRECHECK'')]")
  case (Some e)
  with assms show ?thesis by (auto simp: behavior_reap_expired_script_def)
next
  case None
  then have ty: "behavior_types_ok s" by (simp split: if_splits)
  obtain s1 n where run: "behavior_reap_loop (zrange_le now (nat limit) (s KBehaviorProcessing)) s 0 = (s1, n)"
    by fastforce
  with assms None have eq: "s' = s1" "r = Inr n"
    unfolding behavior_reap_expired_script_def by auto
  show ?thesis
    using behavior_reap_loop_spec [OF ty run] unfolding eq by blast
qed

section \<open>The behaviour queue implements the interface\<close>

lemma beh_val_cong: "s' KBehaviorState = s KBehaviorState \<Longrightarrow> beh_val s' x = beh_val s x"
  by (simp add: beh_val_def)

lemma beh_val_state: "beh_val s x \<noteq> None \<Longrightarrow> hget (s KBehaviorState) x \<noteq> None"
  by (cases "hget (s KBehaviorState) x") (simp_all add: beh_val_def)

lemma behavior_ack_reads:
  assumes "behavior_ack_script x c v s = (s', r)" "beh_owner s x = Some c" "s' \<noteq> s"
  shows "beh_owner s' y = (if y = x then None else beh_owner s y)"
    "hget (s' KBehaviorState) y = (if y = x \<and> beh_val s x = Some v then None else hget (s KBehaviorState) y)"
    "beh_pend s' y \<longleftrightarrow> (if y = x then hget (s KBehaviorState) x \<noteq> None \<and> beh_val s x \<noteq> Some v else beh_pend s y)"
proof -
  have ty: "behavior_types_ok s"
    using assms by (auto simp: behavior_ack_script_def beh_owner_def split: if_splits)
  define s1 where "s1 = (case hget (s KBehaviorState) x of
       Some st \<Rightarrow> (if version_field st = Some v
          then at_key KBehaviorDirty (srem x) (at_key KBehaviorState (hdel x) s)
          else at_key KBehaviorDirty (sadd x) s)
     | None \<Rightarrow> at_key KBehaviorDirty (srem x) s)"
  have s': "s' = at_key KBehaviorProcessing (zrem x) (at_key KBehaviorClaims (hdel x) s1)"
    using assms ty by (simp add: behavior_ack_script_def beh_owner_def s1_def split: if_splits)
  have cl: "s1 KBehaviorClaims = s KBehaviorClaims" by (simp add: s1_def split: option.splits)
  show "beh_owner s' y = (if y = x then None else beh_owner s y)"
    by (simp add: s' cl beh_owner_def hmap_hdel)
  show "hget (s' KBehaviorState) y = (if y = x \<and> beh_val s x = Some v then None else hget (s KBehaviorState) y)"
    by (cases "hget (s KBehaviorState) x") (auto simp: s' s1_def beh_val_def hmap_hdel)
  show "beh_pend s' y \<longleftrightarrow> (if y = x then hget (s KBehaviorState) x \<noteq> None \<and> beh_val s x \<noteq> Some v else beh_pend s y)"
    using ty
    by (cases "hget (s KBehaviorState) x")
      (auto simp: s' s1_def beh_val_def beh_pend_def smembers_srem smembers_sadd behavior_types_ok_def
        behavior_claim_types_ok_def)
qed

lemma behavior_requeue_reads:
  assumes "behavior_requeue_script x c s = (s', r)" "beh_owner s x = Some c" "s' \<noteq> s"
  shows "beh_owner s' y = (if y = x then None else beh_owner s y)"
    "beh_pend s' y \<longleftrightarrow> beh_pend s y \<or> (y = x \<and> hget (s KBehaviorState) x \<noteq> None)"
  using assms
  by (auto simp: behavior_requeue_script_def Let_def beh_owner_def beh_pend_def hmap_hdel smembers_sadd
      behavior_types_ok_def behavior_claim_types_ok_def split: if_splits)

interpretation behq: work_queue beh_val beh_pend beh_owner pick_ok behavior_claim_script
  behavior_ack_script behavior_requeue_script behavior_reap_expired_script
proof unfold_locales
  fix ch s n d q s' x and r :: "(string \<times> string) list res"
  assume ok: "pick_ok ch s" and run: "behavior_claim_script n d q ch s = (s', r)"
  note sp = behavior_claim_script_spec [OF run ok]
  show "beh_val s' x = beh_val s x"
    using sp by (auto intro!: beh_val_cong)
  have "s' = s \<or> (\<exists>g. popped q x g False s s')" using sp by blast
  then show "(beh_owner s' x = beh_owner s x \<and> beh_pend s' x = beh_pend s x) \<or>
      (beh_owner s x = None \<and> beh_pend s x \<and> beh_owner s' x = Some (claim_token q x) \<and> \<not> beh_pend s' x)"
    unfolding popped_def by blast
next
  fix ch s n d q s' x c and gs :: "(string \<times> string) list"
  assume ok: "pick_ok ch s" and run: "behavior_claim_script n d q ch s = (s', Inr gs)"
    and mem: "(x, c) \<in> set gs"
  from behavior_claim_script_spec [OF run ok] obtain G where
    G: "gs = map (\<lambda>x. (x, claim_token q x)) G" "popped q x (x \<in> set G) False s s'" by auto
  from G(1) mem have "x \<in> set G" "c = claim_token q x" by auto
  with G(2) show "beh_owner s x = None \<and> beh_pend s x \<and> beh_owner s' x = Some c \<and> c = claim_token q x"
    unfolding popped_def by simp
next
  fix now n s s' x and r :: "nat res"
  assume run: "behavior_reap_expired_script now n s = (s', r)"
  note sp = behavior_reap_script_spec [OF run]
  show "beh_val s' x = beh_val s x"
    using sp by (auto intro!: beh_val_cong)
  show "(beh_owner s' x = beh_owner s x \<and> beh_pend s' x = beh_pend s x) \<or>
      (beh_owner s' x = None \<and> (beh_pend s x \<or> beh_val s x \<noteq> None \<longrightarrow> beh_pend s' x))"
  proof (cases "\<exists>e. r = Inl e \<and> s' = s")
    case False
    let ?X = "set (zrange_le now (nat n) (s KBehaviorProcessing))"
    from sp False have "\<forall>x. beh_pend s' x \<longleftrightarrow> beh_pend s x \<or>
         (x \<in> ?X \<and> beh_owner s x \<noteq> None \<and> hget (s KBehaviorState) x \<noteq> None)"
      "\<forall>x. beh_owner s' x = (if x \<in> ?X then None else beh_owner s x)" by blast+
    note X = this [rule_format, of x]
    show ?thesis
      using X beh_val_state [of s x] by (cases "x \<in> ?X"; cases "beh_owner s x = None") (simp_all del: not_None_eq)
  qed auto
next
  fix x c v s s' y and r :: "bool res"
  assume run: "behavior_ack_script x c v s = (s', r)"
  show "s' = s" if "beh_owner s x \<noteq> Some c"
    using run that by (auto simp: behavior_ack_script_def beh_owner_def split: if_splits)
  then have no: "beh_owner s x = Some c" if "s' \<noteq> s" using that by blast
  show "beh_val s' y = beh_val s y \<and> beh_pend s' y = beh_pend s y \<and> beh_owner s' y = beh_owner s y"
    if "y \<noteq> x"
    using behavior_ack_reads [OF run no, of y] that by (cases "s' = s") (auto simp: beh_val_def)
  show "s' = s \<or> (beh_owner s' x = None \<and>
      ((beh_val s' x = beh_val s x \<and> (beh_pend s x \<and> beh_val s x \<noteq> None \<longrightarrow> beh_pend s' x)) \<or>
       (beh_val s x = Some v \<and> beh_val s' x = None)))" if own: "beh_owner s x = Some c"
  proof (cases "s' = s")
    case False
    note a = behavior_ack_reads [OF run own False, of x]
    show ?thesis
      using a beh_val_state [of s x] by (cases "beh_val s x = Some v") (simp_all add: beh_val_def [of s'] beh_val_def [of s])
  qed simp
next
  fix x c s s' y and r :: "bool res"
  assume run: "behavior_requeue_script x c s = (s', r)"
  have st: "s' KBehaviorState = s KBehaviorState"
    using run by (auto simp: behavior_requeue_script_def Let_def split: if_splits)
  show "s' = s" if "beh_owner s x \<noteq> Some c"
    using run that by (auto simp: behavior_requeue_script_def beh_owner_def split: if_splits)
  then have no: "beh_owner s x = Some c" if "s' \<noteq> s" using that by blast
  show "beh_val s' y = beh_val s y" by (rule beh_val_cong [where s' = s' and s = s, OF st])
  show "beh_pend s' y = beh_pend s y \<and> beh_owner s' y = beh_owner s y" if "y \<noteq> x"
    using behavior_requeue_reads [OF run no, of y] that by (cases "s' = s") auto
  show "s' = s \<or> (beh_owner s' x = None \<and> (beh_pend s x \<or> beh_val s x \<noteq> None \<longrightarrow> beh_pend s' x))"
    if "beh_owner s x = Some c"
    using behavior_requeue_reads [OF run that, of x] beh_val_state [of s x] by (metis)
qed

section \<open>Decoding what was claimed\<close>

definition MaxLikeBehaviorBatchSize :: int where "MaxLikeBehaviorBatchSize = 500"

definition parseBehaviorPair :: "string \<Rightarrow> (nat \<times> nat) res" where
  "parseBehaviorPair pair =
     (case split_on CHR '':'' pair of
        [a, b] \<Rightarrow>
          (case parse_uint64 a of
             None \<Rightarrow> Inl ''invalid behavior user id''
           | Some user \<Rightarrow>
              if user = 0 then Inl ''invalid behavior user id''
              else (case parse_uint64 b of
                      None \<Rightarrow> Inl ''invalid behavior post id''
                    | Some post \<Rightarrow>
                       if post = 0 then Inl ''invalid behavior post id'' else Inr (user, post)))
      | _ \<Rightarrow> Inl ''invalid behavior pair'')"

text \<open>The instant is kept as the Unix microseconds that \<open>time.UnixMicro\<close> receives.\<close>

definition parseBehaviorState :: "string \<Rightarrow> (bool \<times> int \<times> int) res" where
  "parseBehaviorState value =
     (case splitn 3 CHR ''|'' value of
        [flag, ver, us] \<Rightarrow>
          (if flag \<noteq> ''0'' \<and> flag \<noteq> ''1'' then Inl ''invalid liked flag''
           else
             (case parse_int64 ver of
                None \<Rightarrow> Inl ''invalid version''
              | Some version \<Rightarrow>
                 if version \<le> 0 then Inl ''invalid version''
                 else
                   (case parse_int64 us of
                      None \<Rightarrow> Inl ''invalid occurred_at unix micros''
                    | Some micros \<Rightarrow>
                       if micros \<le> 0 then Inl ''invalid occurred_at unix micros''
                       else Inr (flag = ''1'', version, micros))))
      | _ \<Rightarrow> Inl ''invalid encoded state'')"

record behavior_claim =
  bc_pair :: string
  bc_claim_id :: string

record behavior_delivery =
  bd_claim :: behavior_claim
  bd_user :: nat
  bd_post :: nat
  bd_liked :: bool
  bd_version :: int
  bd_occurred :: int

text \<open>One iteration of the loop of \<open>LoadBehaviorDeliveriesWithIssues\<close>.\<close>

definition decode_claim :: "behavior_claim \<Rightarrow> redis_value \<Rightarrow> behavior_delivery res" where
  "decode_claim claim value =
     (if value = VNil then Inl ''behavior state missing''
      else
        (case parseBehaviorPair (bc_pair claim) of
           Inl e \<Rightarrow> Inl e
         | Inr (user, post) \<Rightarrow>
            (case parseBehaviorState (asString value) of
               Inl e \<Rightarrow> Inl e
             | Inr (liked, version, at) \<Rightarrow>
                Inr \<lparr>bd_claim = claim, bd_user = user, bd_post = post, bd_liked = liked,
                     bd_version = version, bd_occurred = at\<rparr>)))"

fun load_loop ::
  "behavior_claim list \<Rightarrow> redis_value list \<Rightarrow> behavior_delivery list \<times> behavior_claim list \<times> go_error option" where
  "load_loop (c # cs) (v # vs) =
     (let (ds, bad, err) = load_loop cs vs
      in case decode_claim c v of
           Inr d \<Rightarrow> (d # ds, bad, err)
         | Inl e \<Rightarrow> (ds, c # bad, Some (OtherErr e)))"
| "load_loop _ _ = ([], [], None)"

definition hmget :: "rentry \<Rightarrow> string list \<Rightarrow> redis_value list" where
  "hmget e fs = map (\<lambda>f. case hget e f of None \<Rightarrow> VNil | Some v \<Rightarrow> VString v) fs"

definition LoadBehaviorDeliveriesWithIssues ::
  "go_error option \<Rightarrow> behavior_claim list \<Rightarrow> lstore \<Rightarrow>
   behavior_delivery list \<times> behavior_claim list \<times> go_error option" where
  "LoadBehaviorDeliveriesWithIssues fault claims s =
     (if claims = [] then ([], [], None)
      else if int (length claims) > MaxLikeBehaviorBatchSize
      then ([], [], Some (OtherErr ''behavior delivery batch exceeds 500''))
      else
        (case fault of
           Some e \<Rightarrow> ([], [], Some e)
         | None \<Rightarrow>
            (let values = hmget (s KBehaviorState) (map bc_pair claims)
             in if length values \<noteq> length claims then ([], [], Some (OtherErr ''behavior state response length''))
                else load_loop claims values)))"

definition LoadBehaviorDeliveries ::
  "go_error option \<Rightarrow> behavior_claim list \<Rightarrow> lstore \<Rightarrow> go_error + behavior_delivery list" where
  "LoadBehaviorDeliveries fault claims s =
     (case LoadBehaviorDeliveriesWithIssues fault claims s of
        (_, _, Some e) \<Rightarrow> Inl e
      | (ds, bad, None) \<Rightarrow> if bad \<noteq> [] then Inl (OtherErr ''invalid behavior states'') else Inr ds)"

section \<open>The queue operations of the store\<close>

fun parse_claim_items :: "redis_value list \<Rightarrow> string list \<Rightarrow> behavior_claim list \<Rightarrow> behavior_claim list res" where
  "parse_claim_items (a # b # rest) seen acc =
     (case (redisBulkString a, redisBulkString b) of
        (Some pair, Some cid) \<Rightarrow>
          (if pair = '''' \<or> cid = '''' then Inl ''malformed behavior claim response''
           else if pair \<in> set seen then Inl ''duplicate behavior pair in claim response''
           else parse_claim_items rest (pair # seen) (acc @ [\<lparr>bc_pair = pair, bc_claim_id = cid\<rparr>]))
      | _ \<Rightarrow> Inl ''malformed behavior claim response'')"
| "parse_claim_items _ seen acc = Inr acc"

definition parseBehaviorClaimReply :: "redis_value \<Rightarrow> int \<Rightarrow> behavior_claim list res" where
  "parseBehaviorClaimReply value batch =
     (case value of
        VArray items \<Rightarrow>
          (if length items mod 2 \<noteq> 0 \<or> int (length items) > batch * 2
           then Inl ''unexpected behavior claim response''
           else parse_claim_items items [] [])
      | _ \<Rightarrow> Inl ''unexpected behavior claim response'')"

text \<open>A Lua table of strings arrives as an array of bulk strings.\<close>

definition claim_reply :: "(string \<times> string) list \<Rightarrow> redis_value" where
  "claim_reply gs = VArray (concat (map (\<lambda>(x, c). [VString x, VString c]) gs))"

definition clamp_behavior_batch :: "int \<Rightarrow> int" where
  "clamp_behavior_batch batch =
     min (if batch \<le> 0 then MaxLikeBehaviorBatchSize else batch) MaxLikeBehaviorBatchSize"

text \<open>
  Instants and durations are nanoseconds; \<open>UnixMilli\<close> rounds down. The prefix is a fresh
  UUID.
\<close>

definition lease_deadline :: "int \<Rightarrow> int \<Rightarrow> int" where
  "lease_deadline now lease = (now + (if lease \<le> 0 then 30000000000 else lease)) div 1000000"

definition ClaimBehaviorDirty ::
  "bool \<Rightarrow> fault \<Rightarrow> int \<Rightarrow> int \<Rightarrow> int \<Rightarrow> string \<Rightarrow> (string fset \<Rightarrow> string) \<Rightarrow> lstore \<Rightarrow>
   lstore \<times> (go_error + behavior_claim list)" where
  "ClaimBehaviorDirty initialized f batch lease now uuid pick s =
     (if \<not> initialized then (s, Inl (OtherErr ''redis is not initialized''))
      else
        (let batch = clamp_behavior_batch batch;
             (s', r) = call f (behavior_claim_script batch (lease_deadline now lease) uuid pick) s
         in (s', case r of
                   Inl e \<Rightarrow> Inl (mapScriptError e)
                 | Inr gs \<Rightarrow>
                    (case parseBehaviorClaimReply (claim_reply gs) batch of
                       Inl e \<Rightarrow> Inl (OtherErr e)
                     | Inr claims \<Rightarrow> Inr claims))))"

text \<open>
  The pipelines run one script per item; the script is an argument so that the steps of other
  clients can be placed between the commands.
\<close>

definition ack_pipeline ::
  "pipe_fault \<Rightarrow> (string \<Rightarrow> string \<Rightarrow> string \<Rightarrow> 's \<Rightarrow> 's \<times> bool res) \<Rightarrow> behavior_delivery list \<Rightarrow> 's \<Rightarrow> 's \<times> (go_error + nat)" where
  "ack_pipeline f script ds s =
     (if ds = [] then (s, Inr 0)
      else if int (length ds) > MaxLikeBehaviorBatchSize then (s, Inl (OtherErr ''behavior ACK batch exceeds 500''))
      else
        (let (s', r) = pipe_exec f
               (map (\<lambda>d. script (bc_pair (bd_claim d)) (bc_claim_id (bd_claim d)) (show_int (bd_version d))) ds) s
         in (s', map_sum id (\<lambda>rs. length (filter id rs)) r)))"

definition AckBehaviorDeliveries ::
  "pipe_fault \<Rightarrow> behavior_delivery list \<Rightarrow> lstore \<Rightarrow> lstore \<times> (go_error + nat)" where
  "AckBehaviorDeliveries f ds s = ack_pipeline f behavior_ack_script ds s"

definition requeue_pipeline ::
  "pipe_fault \<Rightarrow> (string \<Rightarrow> string \<Rightarrow> 's \<Rightarrow> 's \<times> bool res) \<Rightarrow> behavior_claim list \<Rightarrow> 's \<Rightarrow> 's \<times> (go_error + unit)" where
  "requeue_pipeline f script cs s =
     (if cs = [] then (s, Inr ())
      else if int (length cs) > MaxLikeBehaviorBatchSize then (s, Inl (OtherErr ''behavior requeue batch exceeds 500''))
      else
        (let (s', r) = pipe_exec f (map (\<lambda>c. script (bc_pair c) (bc_claim_id c)) cs) s
         in (s', map_sum id (\<lambda>_. ()) r)))"

definition RequeueBehaviorClaims ::
  "pipe_fault \<Rightarrow> behavior_claim list \<Rightarrow> lstore \<Rightarrow> lstore \<times> (go_error + unit)" where
  "RequeueBehaviorClaims f cs s = requeue_pipeline f behavior_requeue_script cs s"

definition ReapBehaviorExpired :: "fault \<Rightarrow> int \<Rightarrow> int \<Rightarrow> lstore \<Rightarrow> lstore \<times> (go_error + nat)" where
  "ReapBehaviorExpired f batch now s =
     (let (s', r) = call f (behavior_reap_expired_script (now div 1000000) (clamp_behavior_batch batch)) s
      in (s', mapped r))"

section \<open>Properties\<close>

lemma version_field_state:
  assumes "CHR ''|'' \<notin> set flag"
  shows "version_field (behavior_state flag v us) = Some (lua_text v)"
  using assms lua_text_no_sep [of v]
  by (simp add: version_field_def behavior_state_def dropWhile_sep takeWhile_sep)

lemma splitn_state:
  assumes "CHR ''|'' \<notin> set fl"
  shows "splitn 3 CHR ''|'' (behavior_state fl v us) = [fl, lua_text v, show_int us]"
proof -
  have "behavior_state fl v us = fl @ CHR ''|'' # lua_text v @ CHR ''|'' # show_int us"
    by (simp add: behavior_state_def)
  then show ?thesis
    using assms lua_text_no_sep [of v] by (simp add: numeral_3_eq_3 splitn_append del: splitn.simps(3))
qed

text \<open>
  C7. What the mutation script queues is what the relay reads: the pair decodes to the
  user and the post and, for a version that Lua prints in full (below \<open>10^14\<close>), the encoded
  state decodes to the flag, the version and the instant, and the version that the
  acknowledgement script extracts from the state is the one Go sends back. From \<open>10^14\<close> on
  Lua's \<open>..\<close> writes an exponent, and the relay refuses the state instead of reading
  another version.
\<close>

theorem behavior_state_roundtrip:
  assumes "0 < u" "u < 2 ^ 64" "0 < p" "p < 2 ^ 64"
    and "0 < v" "0 < us" "us < 2 ^ 63"
  shows "parseBehaviorPair (pair_of (show_nat u) (show_nat p)) = Inr (u, p) \<and>
    parseBehaviorState (behavior_state (if liked then ''1'' else ''0'') v us) =
      (if v < 10 ^ 14 then Inr (liked, int v, us) else Inl ''invalid version'') \<and>
    (v < 10 ^ 14 \<longrightarrow> version_field (behavior_state (if liked then ''1'' else ''0'') v us) = Some (show_int (int v)))"
proof -
  have np: "CHR '':'' \<notin> set (show_nat n)" for n
    by (simp add: show_nat_no_sep is_digit_def)
  have pair: "split_on CHR '':'' (pair_of (show_nat u) (show_nat p)) = [show_nat u, show_nat p]"
    unfolding pair_of_def using np by (simp add: split_on_append split_on_no_sep)
  have us: "parse_int64 (show_int us) = Some us"
    using assms(6,7) by (simp add: nat_less_iff)
  have v: "parse_int64 (lua_text v) = (if v < 10 ^ 14 then Some (int v) else None)"
    using lua_text_large [of v] by simp
  show ?thesis
    using assms us v version_field_state [of "if liked then ''1'' else ''0''" v us]
    by (simp add: parseBehaviorPair_def pair parseBehaviorState_def splitn_state)
qed

theorem behavior_state_roundtrip_witness:
  "parseBehaviorPair (pair_of (show_nat 3) (show_nat 8)) = Inr (3, 8) \<and>
   parseBehaviorState (behavior_state ''1'' 4 1000000005) = Inr (True, 4, 1000000005)"
  using behavior_state_roundtrip [of 3 8 4 1000000005 True] by simp

text \<open>
  C6. Acknowledging a delivery never discards a newer state: when the pair's state still
  carries the delivered version the state is removed, when it carries another one the
  state stays and the pair is queued again. Either way the claim is gone, and no other pair
  changes.
\<close>

theorem behavior_ack_keeps_newer:
  assumes run: "behavior_ack_script x c v s = (s', Inr True)"
  shows "beh_owner s x = Some c \<and> beh_owner s' x = None \<and>
    (beh_val s x = Some v \<longrightarrow> hget (s' KBehaviorState) x = None \<and> \<not> beh_pend s' x) \<and>
    (hget (s KBehaviorState) x \<noteq> None \<and> beh_val s x \<noteq> Some v \<longrightarrow>
       hget (s' KBehaviorState) x = hget (s KBehaviorState) x \<and> beh_pend s' x) \<and>
    (\<forall>y. y \<noteq> x \<longrightarrow> beh_owner s' y = beh_owner s y \<and> beh_pend s' y = beh_pend s y \<and>
       hget (s' KBehaviorState) y = hget (s KBehaviorState) y)"
proof -
  have own: "beh_owner s x = Some c"
    using run by (auto simp: behavior_ack_script_def beh_owner_def split: if_splits)
  have "hget (s' KBehaviorClaims) x = None"
    using run by (auto simp: behavior_ack_script_def Let_def hmap_hdel split: if_splits)
  with own have ne: "s' \<noteq> s" by (auto simp: beh_owner_def)
  note a = behavior_ack_reads [OF run own ne]
  show ?thesis
    using own a [of x] a by (simp del: not_None_eq)
qed

definition demo_behavior :: lstore where
  "demo_behavior = (\<lambda>_. None)
     (KBehaviorState := Some (RHash (fmupd ''3:8'' ''1|5|70'' fmempty), None),
      KBehaviorClaims := Some (RHash (fmupd ''3:8'' ''t:3:8'' fmempty), None),
      KBehaviorProcessing := Some (RZset (fmupd ''3:8'' 50 fmempty), None))"

theorem behavior_ack_keeps_newer_witness:
  "\<exists>s'. behavior_ack_script ''3:8'' ''t:3:8'' ''4'' demo_behavior = (s', Inr True) \<and>
     hget (s' KBehaviorState) ''3:8'' = Some ''1|5|70'' \<and> beh_pend s' ''3:8''"
proof -
  have vf: "version_field ''1|5|70'' = Some ''5''" by (simp add: version_field_def)
  have "snd (behavior_ack_script ''3:8'' ''t:3:8'' ''4'' demo_behavior) = Inr True"
    by (simp add: behavior_ack_script_def demo_behavior_def behavior_types_ok_def
        behavior_claim_types_ok_def type_ok_def Let_def)
  then obtain s' where run: "behavior_ack_script ''3:8'' ''t:3:8'' ''4'' demo_behavior = (s', Inr True)"
    by (metis prod.collapse)
  have st: "hget (demo_behavior KBehaviorState) ''3:8'' = Some ''1|5|70''" by (simp add: demo_behavior_def)
  then have "beh_val demo_behavior ''3:8'' \<noteq> Some ''4''" by (simp add: beh_val_def vf)
  with st run behavior_ack_keeps_newer [OF run] show ?thesis by simp
qed

lemma decode_claim_Inr:
  assumes "decode_claim c v = Inr d"
  shows "bd_claim d = c" "v \<noteq> VNil" "parseBehaviorPair (bc_pair c) = Inr (bd_user d, bd_post d)"
    "parseBehaviorState (asString v) = Inr (bd_liked d, bd_version d, bd_occurred d)"
  using assms by (auto simp: decode_claim_def split: if_splits sum.splits prod.splits)

lemma load_loop_split:
  assumes "length vs = length cs" and "load_loop cs vs = (ds, bad, err)"
  shows "set cs = bd_claim ` set ds \<union> set bad \<and> length cs = length ds + length bad \<and>
    (err = None \<longleftrightarrow> bad = []) \<and>
    (\<forall>d \<in> set ds. \<exists>v. (bd_claim d, v) \<in> set (zip cs vs) \<and> decode_claim (bd_claim d) v = Inr d)"
  using assms
proof (induction cs vs arbitrary: ds bad err rule: load_loop.induct)
  case (1 c cs v vs)
  obtain ds' bad' err' where r: "load_loop cs vs = (ds', bad', err')" by (metis prod_cases3)
  note IH = "1.IH" [OF _ r]
  show ?case
  proof (cases "decode_claim c v")
    case (Inl e)
    then show ?thesis using IH "1.prems" r by auto
  next
    case (Inr d)
    then have "bd_claim d = c" by (rule decode_claim_Inr)
    with Inr "1.prems" r have eq: "ds = d # ds'" "bad = bad'" "err = err'" by simp_all
    from \<open>bd_claim d = c\<close> Inr have "\<exists>w. (bd_claim d, w) \<in> set (zip (c # cs) (v # vs)) \<and> decode_claim (bd_claim d) w = Inr d"
      by (intro exI [of _ v]) simp
    moreover have "\<exists>w. (bd_claim e, w) \<in> set (zip (c # cs) (v # vs)) \<and> decode_claim (bd_claim e) w = Inr e"
      if "e \<in> set ds'" for e
      using IH "1.prems"(1) that by auto
    ultimately show ?thesis using IH "1.prems"(1) \<open>bd_claim d = c\<close> unfolding eq by auto
  qed
qed auto

text \<open>
  Loading a batch of claims accounts for every one of them: each claim is decoded into
  a delivery of exactly the state the hash holds for its pair, or is returned as invalid,
  and an error is reported exactly when some claim is invalid. A malformed pair never
  hides a healthy one.
\<close>

theorem load_accounts_for_claims:
  assumes "length claims \<le> 500"
    and "LoadBehaviorDeliveriesWithIssues None claims s = (ds, bad, err)"
  shows "set claims = bd_claim ` set ds \<union> set bad \<and> length claims = length ds + length bad \<and>
    (err = None \<longleftrightarrow> bad = []) \<and>
    (\<forall>d. d \<in> set ds \<longrightarrow> (\<exists>st. hget (s KBehaviorState) (bc_pair (bd_claim d)) = Some st \<and>
       parseBehaviorPair (bc_pair (bd_claim d)) = Inr (bd_user d, bd_post d) \<and>
       parseBehaviorState st = Inr (bd_liked d, bd_version d, bd_occurred d)))"
proof (cases "claims = []")
  case True
  with assms show ?thesis by (auto simp: LoadBehaviorDeliveriesWithIssues_def)
next
  case False
  let ?vs = "hmget (s KBehaviorState) (map bc_pair claims)"
  have len: "length ?vs = length claims" by (simp add: hmget_def)
  have run: "load_loop claims ?vs = (ds, bad, err)"
    using assms False len by (simp add: LoadBehaviorDeliveriesWithIssues_def MaxLikeBehaviorBatchSize_def Let_def)
  note sp = load_loop_split [OF len run]
  have "\<exists>st. hget (s KBehaviorState) (bc_pair (bd_claim d)) = Some st \<and>
       parseBehaviorPair (bc_pair (bd_claim d)) = Inr (bd_user d, bd_post d) \<and>
       parseBehaviorState st = Inr (bd_liked d, bd_version d, bd_occurred d)" if d: "d \<in> set ds" for d
  proof -
    from sp d obtain v where v: "(bd_claim d, v) \<in> set (zip claims ?vs)" "decode_claim (bd_claim d) v = Inr d"
      by blast
    from v(1) have "v = (case hget (s KBehaviorState) (bc_pair (bd_claim d)) of None \<Rightarrow> VNil | Some st \<Rightarrow> VString st)"
      by (auto simp: hmget_def set_zip)
    with decode_claim_Inr [OF v(2)] show ?thesis
      by (auto split: option.splits)
  qed
  with sp show ?thesis by blast
qed

theorem load_accounts_for_claims_witness:
  "\<exists>ds bad err. LoadBehaviorDeliveriesWithIssues None
      [\<lparr>bc_pair = ''3:8'', bc_claim_id = ''t:3:8''\<rparr>, \<lparr>bc_pair = ''x'', bc_claim_id = ''t:x''\<rparr>] demo_behavior
      = (ds, bad, err) \<and> length ds + length bad = 2"
proof -
  obtain ds bad err where run: "LoadBehaviorDeliveriesWithIssues None
      [\<lparr>bc_pair = ''3:8'', bc_claim_id = ''t:3:8''\<rparr>, \<lparr>bc_pair = ''x'', bc_claim_id = ''t:x''\<rparr>] demo_behavior
      = (ds, bad, err)" by (metis prod_cases3)
  with load_accounts_for_claims [OF _ run] show ?thesis by auto
qed

lemma parse_claim_items_reply:
  assumes "distinct (map fst gs)" "set (map fst gs) \<inter> set seen = {}" "\<forall>(x, c) \<in> set gs. x \<noteq> '''' \<and> c \<noteq> ''''"
  shows "parse_claim_items (concat (map (\<lambda>(x, c). [VString x, VString c]) gs)) seen acc =
    Inr (acc @ map (\<lambda>(x, c). \<lparr>bc_pair = x, bc_claim_id = c\<rparr>) gs)"
  using assms by (induction gs arbitrary: seen acc) auto

lemma length_claim_items: "length (concat (map (\<lambda>(x, c). [VString x, VString c]) gs)) = 2 * length gs"
  by (induction gs) auto

text \<open>
  A call of \<open>ClaimBehaviorDirty\<close> whose reply arrives returns precisely the claims the
  server granted: each returned pair was queued, is now owned in the store under the returned
  claim id, at most the clamped batch of them, and none is refused by the reply parser.
\<close>

theorem ClaimBehaviorDirty_owns:
  assumes pick: "pick_ok pick s" and types: "behavior_claim_types_ok s" and uuid: "uuid \<noteq> ''''"
    and ne: "'''' |\<notin>| smembers (s KBehaviorDirty)"
    and run: "ClaimBehaviorDirty True Healthy batch lease now uuid pick s = (s', r)"
  shows "\<exists>cs. r = Inr cs \<and> int (length cs) \<le> clamp_behavior_batch batch \<and> distinct (map bc_pair cs) \<and>
    (\<forall>c. c \<in> set cs \<longrightarrow> beh_pend s (bc_pair c) \<and> beh_owner s (bc_pair c) = None \<and>
       beh_owner s' (bc_pair c) = Some (bc_claim_id c) \<and> \<not> beh_pend s' (bc_pair c))"
proof -
  let ?b = "clamp_behavior_batch batch"
  have b: "1 \<le> ?b" "?b \<le> 500" by (auto simp: clamp_behavior_batch_def MaxLikeBehaviorBatchSize_def)
  obtain r1 where sc: "behavior_claim_script ?b (lease_deadline now lease) uuid pick s = (s', r1)"
    using run by (cases "behavior_claim_script ?b (lease_deadline now lease) uuid pick s")
      (simp add: ClaimBehaviorDirty_def Let_def call_def)
  have "\<nexists>e. r1 = Inl e"
    using sc b types uuid by (auto simp: behavior_claim_script_def split: prod.splits)
  with behavior_claim_script_spec [OF sc pick] obtain gs where gs:
    "r1 = Inr (map (\<lambda>x. (x, claim_token uuid x)) gs)" "distinct gs" "int (length gs) \<le> ?b"
    "\<forall>x. popped uuid x (x \<in> set gs) False s s'" by blast
  let ?m = "map (\<lambda>x. (x, claim_token uuid x)) gs"
  have granted: "x \<in> set gs \<Longrightarrow> beh_pend s x \<and> \<not> beh_pend s' x \<and> beh_owner s x = None \<and>
      beh_owner s' x = Some (claim_token uuid x)" for x
    using gs(4) unfolding popped_def by blast
  have "x \<in> set gs \<Longrightarrow> x \<noteq> ''''" for x
    using granted [of x] ne by (auto simp: beh_pend_def)
  then have items: "parse_claim_items (concat (map (\<lambda>(x, c). [VString x, VString c]) ?m)) [] [] =
      Inr (map (\<lambda>(x, c). \<lparr>bc_pair = x, bc_claim_id = c\<rparr>) ?m)"
    using gs(2) parse_claim_items_reply [of ?m "[]" "[]"] by (simp add: claim_token_def comp_def)
  have "parseBehaviorClaimReply (claim_reply ?m) ?b =
      Inr (map (\<lambda>(x, c). \<lparr>bc_pair = x, bc_claim_id = c\<rparr>) ?m)"
    unfolding parseBehaviorClaimReply_def claim_reply_def
    using items gs(3) by (simp only: redis_value.case length_claim_items) simp
  then have "r = Inr (map (\<lambda>x. \<lparr>bc_pair = x, bc_claim_id = claim_token uuid x\<rparr>) gs)"
    using run sc gs(1) by (simp add: ClaimBehaviorDirty_def call_def Let_def comp_def raw_def)
  with gs(2,3) granted show ?thesis by (auto simp: comp_def)
qed

theorem ClaimBehaviorDirty_owns_witness:
  "\<exists>s' cs. ClaimBehaviorDirty True Healthy 10 0 5000000 ''u'' (\<lambda>m. ''3:8'')
      ((\<lambda>_. None)(KBehaviorDirty := Some (RSet {|''3:8''|}, None))) = (s', Inr cs) \<and>
    int (length cs) \<le> 10"
proof -
  let ?s = "(\<lambda>_. None)(KBehaviorDirty := Some (RSet {|''3:8''|}, None)) :: lstore"
  have pk: "pick_ok (\<lambda>m. ''3:8'') ?s"
    by (auto simp: pick_ok_def)
  have ty: "behavior_claim_types_ok ?s" by (simp add: behavior_claim_types_ok_def type_ok_def)
  obtain s' r where run: "ClaimBehaviorDirty True Healthy 10 0 5000000 ''u'' (\<lambda>m. ''3:8'') ?s = (s', r)"
    by fastforce
  have cl: "clamp_behavior_batch 10 = 10"
    by (simp add: clamp_behavior_batch_def MaxLikeBehaviorBatchSize_def)
  show ?thesis using run ClaimBehaviorDirty_owns [OF pk ty _ _ run] cl by auto
qed

end
