(* ===== verification/LikeStore.thy ===== *)
theory LikeStore
  imports LikeBehavior
begin

text \<open>
  The Go methods of \<open>likes.Store\<close> (\<open>likes/store.go\<close>, \<open>likes/snapshot_batch.go\<close>) that run
  the mutation, read aggregates and relations, and drive the snapshot queue.

  A read makes several round trips, and other clients may write between them. The world
  \<open>w :: nat \<Rightarrow> fault \<times> lstore\<close> gives, for every round trip of a method, the failure it
  meets and the store it sees.
\<close>

type_synonym world = "nat \<Rightarrow> fault \<times> lstore"

definition read_at :: "world \<Rightarrow> nat \<Rightarrow> (lstore \<Rightarrow> 'a res) \<Rightarrow> go_error + 'a" where
  "read_at w i q = (case w i of (f, s) \<Rightarrow> snd (call f (\<lambda>s. (s, q s)) s))"

lemma read_at_healthy [simp]: "w i = (Healthy, s) \<Longrightarrow> read_at w i q = raw (q s)"
  by (simp add: read_at_def call_def)

record like_state =
  st_count :: int
  st_liked :: bool
  st_version :: int

section \<open>Aggregates of posts\<close>

text \<open>
  \<open>MGET\<close> returns nil for an absent key and for a key that is not a string; \<open>TYPE\<close>, in a
  second round trip, tells them apart.
\<close>

fun type_error :: "rentry \<Rightarrow> go_error option" where
  "type_error e = (if type_ok TString e then None
     else Some (WrapErr ''like Redis key has an unexpected type'' (Sentinel ErrLikeRedisType)))"

text \<open>\<open>aggregateMissingTypeError\<close> over the three values of a post, in order.\<close>

fun missing_type_error :: "(string option \<times> rentry) list \<Rightarrow> go_error option" where
  "missing_type_error [] = None"
| "missing_type_error ((Some _, _) # rest) = missing_type_error rest"
| "missing_type_error ((None, e) # rest) =
     (case type_error e of Some err \<Rightarrow> Some err | None \<Rightarrow> missing_type_error rest)"

definition aggregate_result :: "lstore \<Rightarrow> lstore \<Rightarrow> nat \<Rightarrow> go_error + like_state" where
  "aggregate_result s s2 p =
     (let ready = rget (s (ReadyKey p)); count = rget (s (CountKey p)); version = rget (s (VersionKey p))
      in if ready = Some ''deleted'' then Inl (Sentinel ErrPostLikeUnavailable)
         else
           (case missing_type_error
                  [(ready, s2 (ReadyKey p)), (count, s2 (CountKey p)), (version, s2 (VersionKey p))] of
              Some e \<Rightarrow> Inl e
            | None \<Rightarrow>
               (if ready \<noteq> Some ''1'' then Inl postNotReadyError
                else
                  (case (count, version) of
                     (Some c, Some v) \<Rightarrow>
                       (case (parseNonNegativeInt64 c, parseNonNegativeInt64 v) of
                          (Some i, Some j) \<Rightarrow> Inr \<lparr>st_count = i, st_liked = False, st_version = j\<rparr>
                        | _ \<Rightarrow> Inl postNotReadyError)
                   | _ \<Rightarrow> Inl postNotReadyError))))"

definition any_missing :: "lstore \<Rightarrow> nat \<Rightarrow> bool" where
  "any_missing s p \<longleftrightarrow>
     rget (s (ReadyKey p)) = None \<or>
     (rget (s (ReadyKey p)) \<noteq> Some ''deleted'' \<and>
        (rget (s (CountKey p)) = None \<or> rget (s (VersionKey p)) = None))"

text \<open>Round trip \<open>i\<close> is the \<open>MGET\<close>, round trip \<open>i + 1\<close> the \<open>TYPE\<close> pipeline.\<close>

definition readAggregateStates :: "world \<Rightarrow> nat \<Rightarrow> nat list \<Rightarrow> go_error + (go_error + like_state) list" where
  "readAggregateStates w i ids =
     (if ids = [] then Inr []
      else
        (case read_at w i (\<lambda>s. Inr ()) of
           Inl e \<Rightarrow> Inl (mapScriptError e)
         | Inr _ \<Rightarrow>
            (if list_ex (any_missing (snd (w i))) ids then
               (case read_at w (i + 1) (\<lambda>s. Inr ()) of
                  Inl e \<Rightarrow> Inl (mapScriptError e)
                | Inr _ \<Rightarrow> Inr (map (aggregate_result (snd (w i)) (snd (w (i + 1)))) ids))
             else Inr (map (aggregate_result (snd (w i)) (snd (w i))) ids))))"

definition loadAggregateState :: "bool \<Rightarrow> world \<Rightarrow> nat \<Rightarrow> nat \<Rightarrow> go_error + like_state" where
  "loadAggregateState initialized w i p =
     (if \<not> initialized then Inl (OtherErr ''redis is not initialized'')
      else if p = 0 then Inl postNotReadyError
      else (case readAggregateStates w i [p] of
              Inl e \<Rightarrow> Inl e
            | Inr rs \<Rightarrow> hd rs))"

section \<open>Relations of a user\<close>

definition user_read_guards :: "rentry \<Rightarrow> rentry \<Rightarrow> (bool \<times> string) list" where
  "user_read_guards likes order =
     [(\<not> type_ok TSet likes, ''LIKE_USER_TYPE''),
      (likes = None \<or> ''0'' |\<notin>| smembers likes, ''LIKE_USER_NOT_READY''),
      (\<not> type_ok TZset order, ''LIKE_USER_ORDER_TYPE'')] @ order_guards likes order"

fun member_flags :: "rentry \<Rightarrow> rentry \<Rightarrow> string list \<Rightarrow> bool list res" where
  "member_flags likes order [] = Inr []"
| "member_flags likes order (x # xs) =
     (if (x |\<in>| smembers likes) \<noteq> (zscore order x \<noteq> None) then Inl ''LIKE_USER_ORDER_INCONSISTENT''
      else map_sum id (\<lambda>fs. (x |\<in>| smembers likes) # fs) (member_flags likes order xs))"

definition read_user_like_members_script :: "string \<Rightarrow> string list \<Rightarrow> lstore \<Rightarrow> bool list res" where
  "read_user_like_members_script u ids s =
     (case first_error ((length ids > 100, ''LIKE_USER_READ_BATCH_LIMIT'')
              # user_read_guards (s (KUserLikes u)) (s (KUserLikesOrder u))) of
        Some e \<Rightarrow> Inl e
      | None \<Rightarrow> member_flags (s (KUserLikes u)) (s (KUserLikesOrder u)) ids)"

definition maxUserLikeReadScriptBatch :: nat where "maxUserLikeReadScriptBatch = 100"

function readUserLikeMembers ::
  "world \<Rightarrow> nat \<Rightarrow> nat \<Rightarrow> nat list \<Rightarrow> (nat \<rightharpoonup> bool) \<Rightarrow> go_error + (nat \<rightharpoonup> bool)" where
  "readUserLikeMembers w i u ids acc =
     (if ids = [] then Inr acc
      else
        (let chunk = take maxUserLikeReadScriptBatch ids
         in if 0 \<in> set chunk then Inl postNotReadyError
            else
              (case read_at w i (read_user_like_members_script (show_nat u) (map show_nat chunk)) of
                 Inl e \<Rightarrow> Inl (mapScriptError e)
               | Inr fs \<Rightarrow>
                  readUserLikeMembers w (i + 1) u (drop maxUserLikeReadScriptBatch ids)
                    (fold (\<lambda>(p, f) m. m(p \<mapsto> f)) (zip chunk fs) acc))))"
  by pat_completeness auto
termination
  by (relation "measure (\<lambda>(w, i, u, ids, acc). length ids)") (auto simp: maxUserLikeReadScriptBatch_def)

declare readUserLikeMembers.simps [simp del]

section \<open>Reading for a client\<close>

definition get :: "bool \<Rightarrow> world \<Rightarrow> nat \<Rightarrow> nat \<Rightarrow> go_error + like_state" where
  "get initialized w u p =
     (if \<not> initialized then Inl (OtherErr ''redis is not initialized'')
      else if p = 0 then Inl postNotReadyError
      else
        (case loadAggregateState initialized w 0 p of
           Inl e \<Rightarrow> Inl e
         | Inr st \<Rightarrow>
            (if u > 0 then
               (case readUserLikeMembers w 2 u [p] Map.empty of
                  Inl e \<Rightarrow> Inl e
                | Inr m \<Rightarrow> Inr (st\<lparr>st_liked := (m p = Some True)\<rparr>))
             else Inr st)))"

text \<open>
  The loop of \<open>getMany\<close> over the batch: unavailable and not-ready posts are listed, any other
  error aborts.
\<close>

fun collect_states ::
  "(nat \<times> (go_error + like_state)) list \<Rightarrow> (nat \<rightharpoonup> like_state) \<Rightarrow> nat list \<Rightarrow> nat list \<Rightarrow>
   go_error + ((nat \<rightharpoonup> like_state) \<times> nat list \<times> nat list)" where
  "collect_states [] states bad active = Inr (states, bad, active)"
| "collect_states ((p, r) # rest) states bad active =
     (case r of
        Inl e \<Rightarrow>
          (if errors_is e ErrPostLikeUnavailable \<or> errors_is e ErrPostLikeNotReady
           then collect_states rest states (bad @ [p]) active
           else Inl e)
      | Inr st \<Rightarrow> collect_states rest (states(p \<mapsto> st)) bad (active @ [p]))"

definition set_liked :: "(nat \<rightharpoonup> bool) \<Rightarrow> (nat \<rightharpoonup> like_state) \<Rightarrow> (nat \<rightharpoonup> like_state)" where
  "set_liked m states =
     (\<lambda>p. case m p of
            None \<Rightarrow> states p
          | Some b \<Rightarrow>
             Some ((case states p of
                      Some st \<Rightarrow> st
                    | None \<Rightarrow> \<lparr>st_count = 0, st_liked = False, st_version = 0\<rparr>)\<lparr>st_liked := b\<rparr>))"

definition getMany :: "bool \<Rightarrow> world \<Rightarrow> nat \<Rightarrow> nat list \<Rightarrow> go_error + ((nat \<rightharpoonup> like_state) \<times> nat list)" where
  "getMany initialized w u ids =
     (if \<not> initialized then Inl (OtherErr ''redis is not initialized'')
      else
        (let zeros = filter (\<lambda>p. p = 0) ids; batch = filter (\<lambda>p. p \<noteq> 0) ids
         in if batch = [] then Inr (Map.empty, zeros)
            else
              (case readAggregateStates w 0 batch of
                 Inl e \<Rightarrow> Inl e
               | Inr results \<Rightarrow>
                  (case collect_states (zip batch results) Map.empty zeros [] of
                     Inl e \<Rightarrow> Inl e
                   | Inr (states, bad, active) \<Rightarrow>
                      (if u > 0 \<and> active \<noteq> [] then
                         (case readUserLikeMembers w 2 u active Map.empty of
                            Inl e \<Rightarrow> Inl e
                          | Inr m \<Rightarrow> Inr (set_liked m states, bad))
                       else Inr (states, bad))))))"

definition GetForServing ::
  "bool \<Rightarrow> bool \<Rightarrow> world \<Rightarrow> nat \<Rightarrow> nat \<Rightarrow> int \<Rightarrow> int \<Rightarrow> go_error + like_state" where
  "GetForServing initialized expiry_enabled w u p ttl renewal =
     (if expiry_enabled \<or> ttl \<noteq> 0 \<or> renewal \<noteq> 0 then Inl (Sentinel ErrLikeStateExpiryUnsupported)
      else get initialized w u p)"

definition GetManyForServing ::
  "bool \<Rightarrow> bool \<Rightarrow> world \<Rightarrow> nat \<Rightarrow> nat list \<Rightarrow> int \<Rightarrow> int \<Rightarrow> go_error + ((nat \<rightharpoonup> like_state) \<times> nat list)" where
  "GetManyForServing initialized expiry_enabled w u ids ttl renewal =
     (if expiry_enabled \<or> ttl \<noteq> 0 \<or> renewal \<noteq> 0 then Inl (Sentinel ErrLikeStateExpiryUnsupported)
      else getMany initialized w u ids)"

definition LoadFullState :: "bool \<Rightarrow> world \<Rightarrow> nat \<Rightarrow> nat \<Rightarrow> go_error + (int \<times> int)" where
  "LoadFullState initialized w i p =
     map_sum id (\<lambda>st. (st_count st, st_version st)) (loadAggregateState initialized w i p)"

section \<open>Mutating\<close>

record mutation_result =
  mut_count :: int
  mut_liked :: bool
  mut_changed :: bool
  mut_version :: int
  mut_evicted :: nat
  mut_active :: int

text \<open>
  The reply table as Go receives it: a Lua \<open>true\<close> arrives as 1, a Lua \<open>false\<close> as nil.
\<close>

definition lua_bit :: "bool \<Rightarrow> redis_value" where
  "lua_bit b = VInt (if b then 1 else 0)"

definition encode_mutate_reply :: "mutate_reply \<Rightarrow> redis_value" where
  "encode_mutate_reply r =
     VArray [VInt (int (mr_count r)), lua_bit (mr_current r), if mr_changed r then VInt 1 else VNil,
             VInt (int (mr_version r)), lua_bit (mr_ttl_state r), VString (mr_candidate r),
             VInt (mr_active r), lua_bit (mr_will_evict r), lua_bit (mr_stale r)]"

definition decode_evicted :: "string \<Rightarrow> nat res" where
  "decode_evicted txt =
     (if txt = '''' then Inr 0
      else (case parse_uint64 txt of
              None \<Rightarrow> Inl ''unexpected evicted Post ID''
            | Some n \<Rightarrow> if n = 0 then Inl ''unexpected evicted Post ID'' else Inr n))"

definition decode_mutate_reply :: "redis_value \<Rightarrow> mutation_result res" where
  "decode_mutate_reply value =
     (case value of
        VArray items \<Rightarrow>
          (if length items \<noteq> 9 then Inl ''unexpected mutation response''
           else
             (case decode_evicted (asString (items ! 5)) of
                Inl e \<Rightarrow> Inl e
              | Inr evicted \<Rightarrow>
                 Inr \<lparr>mut_count = asInt64 (items ! 0), mut_liked = (asInt64 (items ! 1) = 1),
                      mut_changed = (asInt64 (items ! 2) = 1), mut_version = asInt64 (items ! 3),
                      mut_evicted = evicted, mut_active = asInt64 (items ! 6)\<rparr>))
      | _ \<Rightarrow> Inl ''unexpected mutation response'')"

text \<open>
  The settings a mutation reads: the expiry of a user's relations and whether arming is on.
  \<open>activeRelationLimit\<close> falls back to the default when no positive limit is set.
\<close>

record user_like_settings =
  us_set_ttl_ms :: int
  us_arming :: bool

definition DefaultUserLikeRestoreMaxRelations :: int where
  "DefaultUserLikeRestoreMaxRelations = 10000"

definition activeRelationLimit :: "int \<Rightarrow> int" where
  "activeRelationLimit configured =
     (if configured > 0 then configured else DefaultUserLikeRestoreMaxRelations)"

definition Mutate ::
  "bool \<Rightarrow> go_error + user_like_settings \<Rightarrow> int \<Rightarrow> fault \<Rightarrow> nat \<Rightarrow> nat \<Rightarrow> bool \<Rightarrow> int \<Rightarrow> server_time \<Rightarrow> lstore \<Rightarrow>
   lstore \<times> (go_error + mutation_result)" where
  "Mutate initialized settings limit f u p liked now_ms t s =
     (if \<not> initialized then (s, Inl (OtherErr ''redis is not initialized''))
      else if u = 0 then (s, Inl userNotReadyError)
      else if p = 0 then (s, Inl postNotReadyError)
      else
        (case settings of
           Inl e \<Rightarrow> (s, Inl e)
         | Inr cfg \<Rightarrow>
            (let (s', r) = call f (mutate_script (show_nat u) (show_nat p) liked now_ms
                             (us_set_ttl_ms cfg) (us_arming cfg) (activeRelationLimit limit) t) s
             in (s', case r of
                       Inl e \<Rightarrow> Inl (mapScriptError e)
                     | Inr reply \<Rightarrow>
                        (case decode_mutate_reply (encode_mutate_reply reply) of
                           Inl e \<Rightarrow> Inl (OtherErr e)
                         | Inr m \<Rightarrow> Inr m)))))"

section \<open>The snapshot queue\<close>

record snapshot_claim =
  sc_post :: nat
  sc_claim_id :: string

record snapshot =
  sn_post :: nat
  sn_count :: int
  sn_version :: int

definition MaxLikeSnapshotBatchSize :: int where "MaxLikeSnapshotBatchSize = 100"

definition clamp_snapshot_batch :: "int \<Rightarrow> int" where
  "clamp_snapshot_batch batch =
     min (if batch \<le> 0 then MaxLikeSnapshotBatchSize else batch) MaxLikeSnapshotBatchSize"

fun parse_snapshot_items :: "redis_value list \<Rightarrow> nat list \<Rightarrow> snapshot_claim list \<Rightarrow> snapshot_claim list res" where
  "parse_snapshot_items (a # b # rest) seen acc =
     (case (Option.bind (redisBulkString a) parse_uint64, redisBulkString b) of
        (Some post, Some cid) \<Rightarrow>
          (if post = 0 \<or> cid = '''' then Inl ''malformed claim response''
           else if post \<in> set seen then Inl ''duplicate post ID in claim response''
           else parse_snapshot_items rest (post # seen) (acc @ [\<lparr>sc_post = post, sc_claim_id = cid\<rparr>]))
      | _ \<Rightarrow> Inl ''malformed claim response'')"
| "parse_snapshot_items _ seen acc = Inr acc"

definition parseSnapshotClaimReply :: "redis_value \<Rightarrow> int \<Rightarrow> snapshot_claim list res" where
  "parseSnapshotClaimReply value batch =
     (case value of
        VArray items \<Rightarrow>
          (if length items mod 2 \<noteq> 0 \<or> int (length items) > batch * 2
           then Inl ''unexpected claim response''
           else parse_snapshot_items items [] [])
      | _ \<Rightarrow> Inl ''unexpected claim response'')"

definition ClaimDirty ::
  "bool \<Rightarrow> bool \<Rightarrow> fault \<Rightarrow> int \<Rightarrow> int \<Rightarrow> int \<Rightarrow> string \<Rightarrow> string list \<Rightarrow> lstore \<Rightarrow>
   lstore \<times> (go_error + snapshot_claim list)" where
  "ClaimDirty initialized has_ctx f batch lease now uuid cands s =
     (if \<not> initialized then (s, Inl (OtherErr ''redis is not initialized''))
      else if \<not> has_ctx then (s, Inl (OtherErr ''claim context is nil''))
      else
        (let batch = clamp_snapshot_batch batch;
             (s', r) = call f (claim_script batch (lease_deadline now lease) uuid cands) s
         in (s', case r of
                   Inl e \<Rightarrow> Inl (mapScriptError e)
                 | Inr gs \<Rightarrow>
                    (case parseSnapshotClaimReply (claim_reply gs) batch of
                       Inl e \<Rightarrow> Inl (OtherErr e)
                     | Inr claims \<Rightarrow> Inr claims))))"

definition AckClaim :: "fault \<Rightarrow> snapshot_claim \<Rightarrow> lstore \<Rightarrow> lstore \<times> (go_error + bool)" where
  "AckClaim f c s =
     map_prod id mapped (call f (ack_claim_script (show_nat (sc_post c)) (sc_claim_id c)) s)"

definition RequeueClaim :: "fault \<Rightarrow> snapshot_claim \<Rightarrow> lstore \<Rightarrow> lstore \<times> (go_error + bool)" where
  "RequeueClaim f c s =
     map_prod id mapped (call f (requeue_claim_script (show_nat (sc_post c)) (sc_claim_id c)) s)"

definition ReapExpired :: "fault \<Rightarrow> int \<Rightarrow> int \<Rightarrow> lstore \<Rightarrow> lstore \<times> (go_error + nat)" where
  "ReapExpired f batch now s =
     map_prod id mapped (call f (reap_expired_script (now div 1000000) (clamp_snapshot_batch batch)) s)"

definition LoadSnapshot :: "bool \<Rightarrow> world \<Rightarrow> nat \<Rightarrow> go_error + snapshot" where
  "LoadSnapshot initialized w p =
     map_sum id (\<lambda>st. \<lparr>sn_post = p, sn_count = st_count st, sn_version = st_version st\<rparr>)
       (loadAggregateState initialized w 0 p)"

definition validateSnapshotBatch :: "bool \<Rightarrow> bool \<Rightarrow> net_error option \<Rightarrow> snapshot_claim list \<Rightarrow> go_error option" where
  "validateSnapshotBatch initialized has_ctx ctx_err claims =
     (if \<not> initialized then Some (OtherErr ''redis is not initialized'')
      else if \<not> has_ctx then Some (OtherErr ''snapshot batch context is nil'')
      else (case ctx_err of
              Some e \<Rightarrow> Some (NetErr e)
            | None \<Rightarrow>
               if int (length claims) > MaxLikeSnapshotBatchSize
               then Some (OtherErr ''snapshot batch exceeds claim limit'')
               else if list_ex (\<lambda>c. sc_post c = 0 \<or> sc_claim_id c = '''') claims
               then Some (OtherErr ''invalid snapshot claim'')
               else None))"

text \<open>Chunks of 32 posts; chunk \<open>j\<close> uses the round trips \<open>2 j\<close> and \<open>2 j + 1\<close>.\<close>

type_synonym snapshot_read = "snapshot_claim \<times> (go_error + snapshot)"

function load_chunks :: "world \<Rightarrow> nat \<Rightarrow> snapshot_claim list \<Rightarrow> go_error + snapshot_read list" where
  "load_chunks w j claims =
     (if claims = [] then Inr []
      else
        (let chunk = take 32 claims
         in case readAggregateStates w (2 * j) (map sc_post chunk) of
              Inl e \<Rightarrow> Inl e
            | Inr rs \<Rightarrow>
               map_sum id
                 (\<lambda>rest. map (\<lambda>(c, r). (c, map_sum id
                     (\<lambda>st. \<lparr>sn_post = sc_post c, sn_count = st_count st, sn_version = st_version st\<rparr>) r))
                     (zip chunk rs) @ rest)
                 (load_chunks w (j + 1) (drop 32 claims))))"
  by pat_completeness auto
termination
  by (relation "measure (\<lambda>(w, j, claims). length claims)") auto

declare load_chunks.simps [simp del]

definition LoadSnapshots ::
  "bool \<Rightarrow> bool \<Rightarrow> net_error option \<Rightarrow> world \<Rightarrow> snapshot_claim list \<Rightarrow> go_error + snapshot_read list" where
  "LoadSnapshots initialized has_ctx ctx_err w claims =
     (case validateSnapshotBatch initialized has_ctx ctx_err claims of
        Some e \<Rightarrow> Inl e
      | None \<Rightarrow> load_chunks w 0 claims)"

text \<open>
  \<open>resolveSnapshotClaims\<close>: a pipeline of \<open>EVALSHA\<close> commands. A command whose script the
  server has not cached answers \<open>NOSCRIPT\<close> without running; those commands alone are sent
  again after the script is loaded. A broken connection is the triple of how many
  commands ran, how many replies arrived, and the error of the others.
\<close>

type_synonym round_fault = "(nat \<times> nat \<times> net_error) option"

definition noscript :: go_error where
  "noscript = RedisErr ''NOSCRIPT No matching script. Please use EVAL.''"

fun run_round :: "(nat \<Rightarrow> bool) \<Rightarrow> (nat \<times> ('s \<Rightarrow> 's \<times> bool res)) list \<Rightarrow> 's \<Rightarrow> 's \<times> (go_error + bool) list" where
  "run_round uncached [] s = (s, [])"
| "run_round uncached ((i, op) # ops) s =
     (let (s1, r) = (if uncached i then (s, Inl noscript) else map_prod id raw (op s));
          (s2, rs) = run_round uncached ops s1
      in (s2, r # rs))"

definition exec_round ::
  "round_fault \<Rightarrow> (nat \<Rightarrow> bool) \<Rightarrow> (nat \<times> ('s \<Rightarrow> 's \<times> bool res)) list \<Rightarrow> 's \<Rightarrow> 's \<times> (go_error + bool) list" where
  "exec_round f uncached cmds s =
     (case f of
        None \<Rightarrow> run_round uncached cmds s
      | Some (sent, got, e) \<Rightarrow>
         (let (s', rs) = run_round uncached (take sent cmds) s
          in (s', take got rs @ replicate (length cmds - length (take got rs)) (Inl (NetErr e)))))"

definition is_noscript :: "go_error + bool \<Rightarrow> bool" where
  "is_noscript r = (case r of Inl (RedisErr m) \<Rightarrow> take 8 m = ''NOSCRIPT'' | _ \<Rightarrow> False)"

definition resolve_ops ::
  "round_fault \<Rightarrow> (nat \<Rightarrow> bool) \<Rightarrow> go_error option \<Rightarrow> round_fault \<Rightarrow> (nat \<Rightarrow> bool) \<Rightarrow>
   ('s \<Rightarrow> 's \<times> bool res) list \<Rightarrow> 's \<Rightarrow> 's \<times> (go_error + (go_error + bool) list)" where
  "resolve_ops f1 un1 load_err f2 un2 ops s =
     (let cmds = enumerate 0 ops;
          (s1, rs) = exec_round f1 un1 cmds s;
          missing = filter (\<lambda>(i, _). is_noscript (rs ! i)) cmds
      in if missing = [] then (s1, Inr rs)
         else (case load_err of
                 Some e \<Rightarrow> (s1, Inl e)
               | None \<Rightarrow>
                  (let (s2, rs2) = exec_round f2 un2 missing s1
                   in (s2, Inr (fold (\<lambda>((i, _), r) acc. acc[i := r]) (zip missing rs2) rs)))))"

definition resolveSnapshotClaims ::
  "bool \<Rightarrow> bool \<Rightarrow> net_error option \<Rightarrow> round_fault \<Rightarrow> (nat \<Rightarrow> bool) \<Rightarrow> go_error option \<Rightarrow> round_fault \<Rightarrow> (nat \<Rightarrow> bool) \<Rightarrow>
   (string \<Rightarrow> string \<Rightarrow> 's \<Rightarrow> 's \<times> bool res) \<Rightarrow> snapshot_claim list \<Rightarrow> 's \<Rightarrow>
   's \<times> (go_error + (snapshot_claim \<times> bool \<times> go_error option) list)" where
  "resolveSnapshotClaims initialized has_ctx ctx_err f1 un1 load_err f2 un2 script claims s =
     (case validateSnapshotBatch initialized has_ctx ctx_err claims of
        Some e \<Rightarrow> (s, Inl e)
      | None \<Rightarrow>
         (if claims = [] then (s, Inr [])
          else
            (let (s', r) = resolve_ops f1 un1 load_err f2 un2
                   (map (\<lambda>c. script (show_nat (sc_post c)) (sc_claim_id c)) claims) s
             in (s', map_sum id
                   (\<lambda>rs. map (\<lambda>(c, v). (case v of
                                  Inr b \<Rightarrow> (c, b, None)
                                | Inl e \<Rightarrow> (c, False, Some (mapScriptError e)))) (zip claims rs)) r))))"

abbreviation AckClaims where
  "AckClaims i h c f1 u1 l f2 u2 \<equiv> resolveSnapshotClaims i h c f1 u1 l f2 u2 ack_claim_script"

abbreviation RequeueClaims where
  "RequeueClaims i h c f1 u1 l f2 u2 \<equiv> resolveSnapshotClaims i h c f1 u1 l f2 u2 requeue_claim_script"

section \<open>Reading what was written\<close>

lemma digits_entry_parse:
  assumes "digits_entry e" "num_of e < 2 ^ 63"
  shows "\<exists>v. rget e = Some v \<and> parseNonNegativeInt64 v = Some (int (num_of e))"
  using assms
  by (auto simp: digits_entry_def num_of_def parseNonNegativeInt64_def parse_int64_digits split: option.splits)

lemma aggregate_result_ready:
  assumes "rget (s (ReadyKey p)) = Some ''1''"
    and "digits_entry (s (CountKey p))" "num_of (s (CountKey p)) < 2 ^ 63"
    and "digits_entry (s (VersionKey p))" "num_of (s (VersionKey p)) < 2 ^ 63"
  shows "aggregate_result s s2 p =
    Inr \<lparr>st_count = int (num_of (s (CountKey p))), st_liked = False, st_version = int (num_of (s (VersionKey p)))\<rparr>"
    and "\<not> any_missing s p"
  using digits_entry_parse [OF assms(2,3)] digits_entry_parse [OF assms(4,5)] assms(1)
  by (auto simp: aggregate_result_def any_missing_def Let_def)

lemma member_flags_guarded:
  assumes "mutate_guards u p cap s = None"
  shows "read_user_like_members_script u [p] s = Inr [p |\<in>| smembers (s (KUserLikes u))]"
proof -
  note g = mutate_guards_None [OF assms]
  have ty: "type_ok TSet (s (KUserLikes u))" "type_ok TZset (s (KUserLikesOrder u))"
    using g(3) by (simp_all add: mutate_types_ok_def)
  have ne: "s (KUserLikes u) \<noteq> None" using g(6) by (cases "s (KUserLikes u)") simp_all
  have m: "(p |\<in>| smembers (s (KUserLikes u))) = (zscore (s (KUserLikesOrder u)) p \<noteq> None)"
    unfolding g(12) by (simp add: fmlookup_dom_iff)
  have "active_of (s (KUserLikes u)) = 0 \<longrightarrow> s (KUserLikesOrder u) = None" using g(8) by (metis less_irrefl)
  moreover have "s (KUserLikesOrder u) = None \<or> zcard (s (KUserLikesOrder u)) = active_of (s (KUserLikes u))"
    using g(9) by blast
  ultimately show ?thesis
    using g(6,8) ty ne m
    by (simp add: read_user_like_members_script_def user_read_guards_def order_guards_def del: not_None_eq)
qed

lemma readUserLikeMembers_single:
  assumes "p > 0" "w i = (Healthy, s)"
    and "read_user_like_members_script (show_nat u) [show_nat p] s = Inr [b]"
  shows "readUserLikeMembers w i u [p] m = Inr (m(p \<mapsto> b))"
  using assms
  by (simp add: readUserLikeMembers.simps maxUserLikeReadScriptBatch_def raw_def)

lemma Mutate_Inr:
  assumes "Mutate True (Inr cfg) limit Healthy u p liked now_ms t s = (s', Inr m)"
  obtains r where "u > 0" "p > 0"
    "mutate_script (show_nat u) (show_nat p) liked now_ms (us_set_ttl_ms cfg) (us_arming cfg)
       (activeRelationLimit limit) t s = (s', Inr r)"
    "mut_count m = int (mr_count r)" "mut_liked m = mr_current r" "mut_changed m = mr_changed r"
    "mut_version m = int (mr_version r)" "mut_active m = mr_active r"
proof -
  from assms have pos: "u > 0" "p > 0" by (auto simp: Mutate_def split: if_splits)
  let ?run = "mutate_script (show_nat u) (show_nat p) liked now_ms (us_set_ttl_ms cfg) (us_arming cfg)
       (activeRelationLimit limit) t s"
  obtain r where r: "?run = (s', Inr r)"
    and dec: "decode_mutate_reply (encode_mutate_reply r) = Inr m"
    using assms pos
    by (cases ?run; cases "snd ?run") (auto simp: Mutate_def call_def raw_def split: sum.splits)
  have "mut_count m = int (mr_count r) \<and> mut_liked m = mr_current r \<and> mut_changed m = mr_changed r \<and>
      mut_version m = int (mr_version r) \<and> mut_active m = mr_active r"
    using dec
    by (auto simp: decode_mutate_reply_def encode_mutate_reply_def lua_bit_def numeral_eq_Suc split: sum.splits if_splits)
  with pos r that show thesis by blast
qed

text \<open>
  Reading a post after a successful Like or Unlike returns the state the mutation
  reported: its count and version, and the relation the user asked for. The reading side
  (one \<open>MGET\<close>, one member script) accepts every state the mutation script leaves.
\<close>

theorem Mutate_then_get:
  assumes run: "Mutate True (Inr cfg) limit Healthy u p liked now_ms t s = (s', Inr m)"
    and ttl: "0 < us_set_ttl_ms cfg" and inv: "user_inv (activeRelationLimit limit) (show_nat u) s"
    and fits: "mut_count m < 2 ^ 63" "mut_version m < 2 ^ 63"
  shows "get True (\<lambda>_. (Healthy, s')) u p =
    Inr \<lparr>st_count = mut_count m, st_liked = liked, st_version = mut_version m\<rparr> \<and> mut_liked m = liked"
proof -
  from run obtain r where r: "u > 0" "p > 0"
    "mutate_script (show_nat u) (show_nat p) liked now_ms (us_set_ttl_ms cfg) (us_arming cfg)
       (activeRelationLimit limit) t s = (s', Inr r)"
    "mut_count m = int (mr_count r)" "mut_liked m = mr_current r" "mut_version m = int (mr_version r)"
    by (rule Mutate_Inr)
  note a = mutate_guards_after [OF r(3) ttl inv]
  note g = mutate_guards_None [OF a(1)]
  have mem: "readUserLikeMembers (\<lambda>_. (Healthy, s')) 2 u [p] Map.empty = Inr [p \<mapsto> liked]"
    using r(2) member_flags_guarded [OF a(1)] a(2) by (intro readUserLikeMembers_single) simp_all
  have "aggregate_result s' s2 p = Inr \<lparr>st_count = mut_count m, st_liked = False, st_version = mut_version m\<rparr>"
    "\<not> any_missing s' p" for s2
    using aggregate_result_ready(1) [of s' p s2] aggregate_result_ready(2) [of s' p] g(2,10,11) a(3,4) r(4,6) fits by (simp_all add: key_defs)
  moreover have "mr_current r = liked"
    using r(3) by (cases rule: mutate_script_Inr_cases) auto
  ultimately show ?thesis
    using r(1,2,5) mem
    by (simp add: get_def loadAggregateState_def readAggregateStates_def raw_def)
qed

section \<open>Batches\<close>

lemma zip_self_map: "zip xs (map f xs) = map (\<lambda>x. (x, f x)) xs"
  by (induction xs) auto

lemma readAggregateStates_healthy:
  "readAggregateStates (\<lambda>_. (Healthy, s)) i ids = Inr (map (aggregate_result s s) ids)"
  by (simp add: readAggregateStates_def raw_def)

lemma collect_states_sound:
  assumes "collect_states rs states bad active = Inr (states', bad', active')"
  shows "bad' = bad @ map fst (filter (\<lambda>(p, r). isl r) rs) \<and>
    active' = active @ map fst (filter (\<lambda>(p, r). \<not> isl r) rs) \<and>
    states' = fold (\<lambda>(p, r) m. case r of Inl _ \<Rightarrow> m | Inr st \<Rightarrow> m(p \<mapsto> st)) rs states"
  using assms
  by (induction rs states bad active rule: collect_states.induct) (auto split: sum.splits if_splits)

lemma fold_results_map:
  "fold (\<lambda>(p, r) m. case r of Inl _ \<Rightarrow> m | Inr st \<Rightarrow> m(p \<mapsto> st)) (map (\<lambda>p. (p, F p)) ids) states q =
   (if q \<in> set ids then (case F q of Inl _ \<Rightarrow> states q | Inr st \<Rightarrow> Some st) else states q)"
  by (induction ids arbitrary: states) (auto split: sum.splits)

text \<open>
  A batched read answers every requested post exactly once: a post is in the result with
  the aggregate a single read returns for it, or it is listed as unavailable. One
  deleted or uninitialised post never hides or fails the others.
\<close>

theorem getMany_partitions_request:
  assumes run: "getMany True (\<lambda>_. (Healthy, s)) 0 ids = Inr (states, bad)"
  shows "set ids = dom states \<union> set bad \<and> dom states \<inter> set bad = {} \<and>
    (\<forall>p st. states p = Some st \<longrightarrow> get True (\<lambda>_. (Healthy, s)) 0 p = Inr st) \<and>
    (\<forall>p. p \<in> set bad \<longrightarrow> (\<exists>e. get True (\<lambda>_. (Healthy, s)) 0 p = Inl e))"
proof -
  let ?w = "\<lambda>_. (Healthy, s)"
  let ?b = "filter (\<lambda>p. p \<noteq> 0) ids"
  have one: "get True ?w 0 p = (if p = 0 then Inl postNotReadyError else aggregate_result s s p)" for p
    by (cases "aggregate_result s s p")
      (simp_all add: get_def loadAggregateState_def readAggregateStates_healthy)
  have res: "readAggregateStates ?w 0 ?b = Inr (map (aggregate_result s s) ?b)"
    by (rule readAggregateStates_healthy)
  show ?thesis
  proof (cases "?b = []")
    case True
    then have "\<forall>p \<in> set ids. p = 0" by (simp add: filter_empty_conv)
    then show ?thesis using run True one by (auto simp: getMany_def)
  next
    case False
    from run False res obtain active where
      c: "collect_states (map (\<lambda>p. (p, aggregate_result s s p)) ?b) Map.empty (filter (\<lambda>p. p = 0) ids) []
         = Inr (states, bad, active)"
      by (auto simp: getMany_def zip_self_map Let_def split: sum.splits if_splits)
    note sp = collect_states_sound [OF c]
    have st: "states q = (if q \<in> set ?b then (case aggregate_result s s q of Inl _ \<Rightarrow> None | Inr st \<Rightarrow> Some st) else None)" for q
      using sp by (simp add: fold_results_map)
    have bd: "set bad = {p \<in> set ids. p = 0 \<or> isl (aggregate_result s s p)}"
      using sp by (auto simp: filter_map comp_def)
    show ?thesis
      unfolding bd by (auto simp: st one isl_def split: sum.splits if_splits)
  qed
qed

section \<open>No command is run twice\<close>

definition never_noscript :: "('s \<Rightarrow> 's \<times> bool res) \<Rightarrow> bool" where
  "never_noscript op \<longleftrightarrow> (\<forall>s e. snd (op s) = Inl e \<longrightarrow> take 8 e \<noteq> ''NOSCRIPT'')"

lemma run_round_spec:
  assumes "run_round un cmds s = (s', rs)" and "\<forall>(i, op) \<in> set cmds. never_noscript op"
  shows "s' = fst (run_all (map snd (filter (\<lambda>(i, _). \<not> un i) cmds)) s) \<and> length rs = length cmds \<and>
    (\<forall>j < length cmds. is_noscript (rs ! j) \<longleftrightarrow> un (fst (cmds ! j)))"
  using assms
proof (induction un cmds s arbitrary: s' rs rule: run_round.induct)
  case (1 un s)
  then show ?case by simp
next
  case (2 un i op ops s)
  obtain s1 r where one: "(if un i then (s, Inl noscript) else map_prod id raw (op s)) = (s1, r)" by fastforce
  obtain s2 rs2 where rest: "run_round un ops s1 = (s2, rs2)" by fastforce
  have eq: "s' = s2" "rs = r # rs2" using "2.prems"(1) one rest by (simp_all add: Let_def)
  have nn: "\<And>e. snd (op s) = Inl e \<Longrightarrow> take 8 e \<noteq> ''NOSCRIPT''"
    using "2.prems"(2) by (simp add: never_noscript_def)
  have nos: "is_noscript r \<longleftrightarrow> un i"
    using one nn
    by (cases "un i"; cases "op s"; cases "snd (op s)") (auto simp: is_noscript_def noscript_def raw_def)
  have s1: "s1 = (if un i then s else fst (op s))" using one by (cases "op s") (auto split: if_splits)
  have IH: "s2 = fst (run_all (map snd (filter (\<lambda>(i, _). \<not> un i) ops)) s1) \<and> length rs2 = length ops \<and>
      (\<forall>j < length ops. is_noscript (rs2 ! j) \<longleftrightarrow> un (fst (ops ! j)))"
    using "2.IH" [OF one [symmetric] refl rest] "2.prems"(2) by simp
  show ?case
    unfolding eq using IH nos s1
    by (auto simp: less_Suc_eq_0_disj split: prod.splits)
qed

text \<open>The indices a round ran.\<close>

definition ran_in :: "round_fault \<Rightarrow> (nat \<Rightarrow> bool) \<Rightarrow> (nat \<times> 'o) list \<Rightarrow> (nat \<times> 'o) list" where
  "ran_in f un cmds = filter (\<lambda>(i, _). \<not> un i) (case f of None \<Rightarrow> cmds | Some (sent, _, _) \<Rightarrow> take sent cmds)"

lemma exec_round_spec:
  assumes "exec_round f un cmds s = (s', rs)" and "\<forall>(i, op) \<in> set cmds. never_noscript op"
  shows "s' = fst (run_all (map snd (ran_in f un cmds)) s) \<and> length rs = length cmds \<and>
    (\<forall>j < length cmds. is_noscript (rs ! j) \<longrightarrow> un (fst (cmds ! j)))"
proof (cases f)
  case None
  with assms show ?thesis
    using run_round_spec [of un cmds s s' rs] by (simp add: exec_round_def ran_in_def)
next
  case (Some x)
  obtain sent got e where x: "x = (sent, got, e)" by (cases x)
  obtain s1 rs1 where run: "run_round un (take sent cmds) s = (s1, rs1)" by fastforce
  have nn: "\<forall>(i, op) \<in> set (take sent cmds). never_noscript op"
    using assms(2) by (auto dest: in_set_takeD)
  note sp = run_round_spec [OF run nn]
  have eq: "s' = s1" "rs = take got rs1 @ replicate (length cmds - length (take got rs1)) (Inl (NetErr e))"
    using assms(1) run Some x by (simp_all add: exec_round_def)
  have len: "length rs1 \<le> length cmds" using sp by simp
  have "is_noscript (rs ! j) \<Longrightarrow> un (fst (cmds ! j))" if j: "j < length cmds" for j
  proof (cases "j < length (take got rs1)")
    case True
    assume "is_noscript (rs ! j)"
    with True sp show ?thesis by (simp add: eq nth_append)
  next
    case False
    assume "is_noscript (rs ! j)"
    with False j len show ?thesis by (auto simp: eq nth_append is_noscript_def)
  qed
  with sp len show ?thesis by (simp add: eq ran_in_def Some x)
qed

text \<open>
  Resolving a batch of claims runs each claim's script at most once, whatever the
  connection and the script cache do: the store after the call is the store after running
  some of the scripts, each at most once, the ones that answered \<open>NOSCRIPT\<close> last. A
  command whose reply was lost is never sent again.
\<close>

theorem resolve_at_most_once:
  assumes scripts: "\<forall>op \<in> set ops. never_noscript op"
    and run: "resolve_ops f1 un1 load_err f2 un2 ops s = (s', r)"
  shows "\<exists>xs. distinct xs \<and> set xs \<subseteq> {..<length ops} \<and> s' = fst (run_all (map (\<lambda>i. ops ! i) xs) s)"
proof -
  let ?c = "enumerate 0 ops"
  have nn: "\<forall>(i, op) \<in> set ?c. never_noscript op"
    using scripts by (auto simp: in_set_enumerate_eq)
  obtain s1 rs where r1: "exec_round f1 un1 ?c s = (s1, rs)" by fastforce
  note sp1 = exec_round_spec [OF r1 nn]
  let ?m = "filter (\<lambda>(i, _). is_noscript (rs ! i)) ?c"
  have sub: "\<And>f un c. set (ran_in f un c) \<subseteq> set c"
    by (auto simp: ran_in_def dest: in_set_takeD split: option.splits)
  have dist: "\<And>f un c. distinct (map fst c) \<Longrightarrow> distinct (map fst (ran_in f un c))"
    by (auto simp: ran_in_def distinct_map_filter take_map [symmetric] split: option.splits)
  have idx: "\<And>c. set c \<subseteq> set ?c \<Longrightarrow> map snd c = map (\<lambda>i. ops ! i) (map fst c)"
    by (auto simp: in_set_enumerate_eq)
  have d0: "distinct (map fst ?c)" by (simp add: map_fst_enumerate)
  let ?x = "map fst (ran_in f1 un1 ?c)"
  have x: "distinct ?x" "set ?x \<subseteq> {..<length ops}" "s1 = fst (run_all (map (\<lambda>i. ops ! i) ?x) s)"
    using dist [OF d0] sub [of f1 un1 ?c] sp1 idx [OF sub [of f1 un1 ?c]]
    by (auto simp: in_set_enumerate_eq)
  show ?thesis
  proof (cases "?m = [] \<or> load_err \<noteq> None")
    case True
    then have "s' = s1" using run r1 by (auto simp: resolve_ops_def Let_def split: option.splits if_splits)
    with x show ?thesis by blast
  next
    case False
    then obtain s2 rs2 where r2: "exec_round f2 un2 ?m s1 = (s2, rs2)" and "s' = s2"
      using run r1 by (cases "exec_round f2 un2 ?m s1") (auto simp: resolve_ops_def Let_def)
    have nm: "\<forall>(i, op) \<in> set ?m. never_noscript op" using nn by auto
    let ?y = "map fst (ran_in f2 un2 ?m)"
    have sm: "set (ran_in f2 un2 ?m) \<subseteq> set ?m" by (rule sub)
    have "set (ran_in f2 un2 ?m) \<subseteq> set ?c" using sm by auto
    note ey = idx [OF this]
    have y: "distinct ?y" "s2 = fst (run_all (map (\<lambda>i. ops ! i) ?y) s1)"
      using dist [of ?m f2 un2] d0 exec_round_spec [OF r2 nm]
      by (simp_all only: distinct_map_filter ey)
    have yi: "i < length ops \<and> un1 i" if "i \<in> set ?y" for i
    proof -
      from that sm have "(i, ops ! i) \<in> set ?m" by (auto simp: in_set_enumerate_eq)
      then have i: "i < length ops" "is_noscript (rs ! i)" by (auto simp: in_set_enumerate_eq)
      with sp1 show ?thesis by (auto simp: nth_enumerate_eq)
    qed
    have "i \<notin> set ?x" if "un1 i" for i using that by (auto simp: ran_in_def)
    with x y yi have "distinct (?x @ ?y)" "set (?x @ ?y) \<subseteq> {..<length ops}" by auto
    moreover have "s' = fst (run_all (map (\<lambda>i. ops ! i) (?x @ ?y)) s)"
      using x(3) y(2) \<open>s' = s2\<close> by (simp add: run_all_append)
    ultimately show ?thesis by blast
  qed
qed

section \<open>Witnesses\<close>

lemma never_noscript_queue: "never_noscript (ack_claim_script x c)" "never_noscript (requeue_claim_script x c)"
  by (auto simp: never_noscript_def ack_claim_script_def requeue_claim_script_def split: if_splits)

theorem resolve_at_most_once_witness:
  "\<exists>s' r xs. resolve_ops (Some (1, 0, EOF)) (\<lambda>i. i = 1) None None (\<lambda>i. False)
      [ack_claim_script ''7'' ''t:7'', ack_claim_script ''5'' ''t:5''] demo_queue = (s', r) \<and>
    distinct xs \<and> set xs \<subseteq> {..<2} \<and>
    s' = fst (run_all (map (\<lambda>i. [ack_claim_script ''7'' ''t:7'', ack_claim_script ''5'' ''t:5''] ! i) xs) demo_queue)"
proof -
  let ?ops = "[ack_claim_script ''7'' ''t:7'', ack_claim_script ''5'' ''t:5'']"
  obtain s' r where run: "resolve_ops (Some (1, 0, EOF)) (\<lambda>i. i = 1) None None (\<lambda>i. False) ?ops demo_queue = (s', r)"
    by fastforce
  have nn: "\<forall>op \<in> set ?ops. never_noscript op" by (simp add: never_noscript_queue)
  have len: "length ?ops = 2" by simp
  show ?thesis using run resolve_at_most_once [OF nn run, unfolded len] by blast
qed

text \<open>User 1 likes post 7, as in the demonstration store of the mutation script.\<close>

lemma show_small: "show_nat (Suc 0) = ''1''" "show_nat 5 = ''5''" "show_nat 7 = ''7''"
  by (simp_all add: show_nat.simps digit_char_def)

lemma demo_Mutate:
  obtains s' m where "Mutate True (Inr \<lparr>us_set_ttl_ms = 3600000, us_arming = True\<rparr>) 1 Healthy 1 7 True 100 (1000, 5)
      demo_store = (s', Inr m)" "mut_count m = 10" "mut_version m = 13"
proof -
  let ?c = "\<lparr>us_set_ttl_ms = 3600000, us_arming = True\<rparr>"
  obtain s' r where run: "mutate_script ''1'' ''7'' True 100 3600000 True 1 (1000, 5) demo_store = (s', r)"
    by fastforce
  with demo_mutate have r: "r = Inr \<lparr>mr_count = 10, mr_current = True, mr_changed = True, mr_version = 13,
      mr_ttl_state = True, mr_candidate = ''5'', mr_active = 1, mr_will_evict = True, mr_stale = False\<rparr>" by simp
  have "parse_uint64 ''5'' = Some 5"
    by (simp add: parse_uint64_def eval_simps)
  with run r have "Mutate True (Inr ?c) 1 Healthy 1 7 True 100 (1000, 5) demo_store =
      (s', Inr \<lparr>mut_count = 10, mut_liked = True, mut_changed = True, mut_version = 13, mut_evicted = 5, mut_active = 1\<rparr>)"
    by (simp add: Mutate_def call_def raw_def show_small activeRelationLimit_def decode_mutate_reply_def
        encode_mutate_reply_def decode_evicted_def lua_bit_def)
  with that show thesis by simp
qed

theorem Mutate_then_get_witness:
  "\<exists>s' m. Mutate True (Inr \<lparr>us_set_ttl_ms = 3600000, us_arming = True\<rparr>) 1 Healthy 1 7 True 100 (1000, 5)
      demo_store = (s', Inr m) \<and>
    get True (\<lambda>_. (Healthy, s')) 1 7 = Inr \<lparr>st_count = 10, st_liked = True, st_version = 13\<rparr>"
proof -
  obtain s' m where run: "Mutate True (Inr \<lparr>us_set_ttl_ms = 3600000, us_arming = True\<rparr>) 1 Healthy 1 7 True 100 (1000, 5)
      demo_store = (s', Inr m)" "mut_count m = 10" "mut_version m = 13" by (rule demo_Mutate)
  show ?thesis
    using run Mutate_then_get [OF run(1)] by (simp add: activeRelationLimit_def demo_user_inv)
qed

theorem getMany_partitions_request_witness:
  "\<exists>states bad. getMany True (\<lambda>_. (Healthy, demo_store)) 0 [7, 9, 0] = Inr (states, bad) \<and>
     {7, 9, 0} = dom states \<union> set bad"
proof -
  have s9: "show_nat 9 = ''9''" by (simp add: show_nat.simps digit_char_def)
  have a: "aggregate_result demo_store demo_store 7 = Inr \<lparr>st_count = 9, st_liked = False, st_version = 12\<rparr>"
    using aggregate_result_ready(1) [of demo_store 7 demo_store]
    by (simp add: key_defs show_small demo_store_def eval_simps)
  have b: "aggregate_result demo_store demo_store 9 = Inl postNotReadyError"
    by (simp add: aggregate_result_def key_defs s9 demo_store_def)
  obtain st bd where run: "getMany True (\<lambda>_. (Healthy, demo_store)) 0 [7, 9, 0] = Inr (st, bd)"
    by (simp add: getMany_def readAggregateStates_healthy a b postNotReadyError_def)
  show ?thesis using run getMany_partitions_request [OF run] by auto
qed

end
