(* ===== verification/LikeRebuild.thy ===== *)
theory LikeRebuild
  imports LikeStore
begin

text \<open>
  The lifecycle of a post's Like state: rebuild tokens, zero-state initialisation and
  recovery, deletion fence and purge (\<open>likes/scripts.go\<close>), and the Go side that runs them
  (\<open>likes/rebuild.go\<close>, \<open>Initialize\<close>, \<open>Recover\<close>, \<open>DeletePost\<close>, \<open>PurgePost\<close> of
  \<open>likes/store.go\<close>). The theory shows that a deleted post stays deleted under every
  operation, that a rebuild begun before a deletion can never install state after it, and
  that a failed initialisation that reports no possible mutation changed nothing.
\<close>

section \<open>The scripts\<close>

definition begin_rebuild_script ::
  "string \<Rightarrow> string \<Rightarrow> int \<Rightarrow> bool \<Rightarrow> int \<Rightarrow> lstore \<Rightarrow> lstore \<times> bool res" where
  "begin_rebuild_script p token ttl allow_deleted now s =
     (case first_error
        [(\<not> type_ok TString (s (KReady p)), ''LIKE_TYPE_PRECHECK''),
         (rget (s (KReady p)) = Some ''deleted'' \<and> \<not> allow_deleted, ''LIKE_POST_DELETED''),
         (\<not> type_ok TString (s (KRebuildToken p)), ''LIKE_TYPE_PRECHECK'')] of
        Some e \<Rightarrow> (s, Inl e)
      | None \<Rightarrow>
         (if rget (s (KRebuildToken p)) = Some token
          then (at_key (KRebuildToken p) (pexpire now ttl) s, Inr True)
          else if rget (s (KRebuildToken p)) \<noteq> None \<or> s (KRebuildToken p) \<noteq> None
          then (s, Inl ''LIKE_RECOVERY_FENCE_LOST'')
          else (at_key (KRebuildToken p) (rset_nx_px now token ttl) s, Inr True)))"

definition release_rebuild_script :: "string \<Rightarrow> string \<Rightarrow> lstore \<Rightarrow> lstore \<times> bool res" where
  "release_rebuild_script p token s =
     (if rget (s (KRebuildToken p)) = Some token then (at_key (KRebuildToken p) rdel s, Inr True)
      else (s, Inr False))"

definition mark_post_deleted_script :: "string \<Rightarrow> lstore \<Rightarrow> lstore \<times> bool res" where
  "mark_post_deleted_script p s =
     (let s1 = (if rget (s (KReady p)) \<noteq> Some ''deleted'' then at_key (KReady p) (rset ''deleted'') s else s)
      in (at_key (KRebuildToken p) rdel s1, Inr True))"

definition lifecycle_types_ok :: "string \<Rightarrow> lstore \<Rightarrow> bool" where
  "lifecycle_types_ok p s \<longleftrightarrow>
     type_ok TString (s (KReady p)) \<and> type_ok TString (s (KCount p)) \<and> type_ok TString (s (KVersion p)) \<and>
     type_ok TSet (s KRegistry) \<and> type_ok TZset (s KExpiryCandidates) \<and>
     type_ok THash (s KRecoverableVersions) \<and> type_ok TString (s (KRebuildToken p))"

text \<open>The writes that \<open>initializeScript\<close> and \<open>recoverScript\<close> share.\<close>

definition install_aggregate :: "string \<Rightarrow> int \<Rightarrow> int \<Rightarrow> int \<Rightarrow> lstore \<Rightarrow> lstore" where
  "install_aggregate p count version now_ms s =
     (let s = at_key (KCount p) (rset (show_int count)) s;
          s = at_key (KVersion p) (rset (show_int version)) s;
          s = at_key KRegistry (sadd p) s;
          s = at_key KExpiryCandidates (zadd now_ms p) s;
          s = at_key KRecoverableVersions (hdel p) s;
          s = at_key (KReady p) (rset ''1'') s
      in at_key (KRebuildToken p) rdel s)"

text \<open>Any trace of earlier state forbids a zero bootstrap.\<close>

definition has_trace :: "string \<Rightarrow> lstore \<Rightarrow> bool" where
  "has_trace p s \<longleftrightarrow>
     s (KCount p) \<noteq> None \<or> s (KVersion p) \<noteq> None \<or> p |\<in>| smembers (s KRegistry) \<or>
     hget (s KRecoverableVersions) p \<noteq> None"

definition initialize_script ::
  "string \<Rightarrow> int \<Rightarrow> int \<Rightarrow> int \<Rightarrow> string \<Rightarrow> lstore \<Rightarrow> lstore \<times> bool res" where
  "initialize_script p count version now_ms token s =
     (case first_error
        [(rget (s (KReady p)) = Some ''deleted'' \<and> take 11 token \<noteq> ''reactivate:'', ''LIKE_POST_DELETED''),
         (\<not> lifecycle_types_ok p s, ''LIKE_TYPE_PRECHECK''),
         (token = '''' \<or> rget (s (KRebuildToken p)) \<noteq> Some token, ''LIKE_RECOVERY_FENCE_LOST''),
         (count \<noteq> 0 \<or> version \<noteq> 0, ''LIKE_RECOVERY_UNSAFE'')] of
        Some e \<Rightarrow> (s, Inl e)
      | None \<Rightarrow>
         (if rget (s (KReady p)) = Some ''1'' then
            (if digits_entry (s (KCount p)) \<and> digits_entry (s (KVersion p))
             then (at_key (KRebuildToken p) rdel s, Inr False)
             else (s, Inl ''LIKE_RECOVERY_UNSAFE''))
          else if rget (s (KReady p)) \<noteq> None \<or> has_trace p s then (s, Inl ''LIKE_RECOVERY_UNSAFE'')
          else (install_aggregate p count version now_ms s, Inr True)))"

text \<open>
  \<open>recoverScript\<close> reads the counters of a ready post with \<open>tonumber\<close>, which accepts more
  than digits; \<open>reads_nonneg\<close> says which strings it reads as a number that is not negative.
\<close>

definition recover_script ::
  "(string \<Rightarrow> bool) \<Rightarrow> string \<Rightarrow> int \<Rightarrow> int \<Rightarrow> int \<Rightarrow> string \<Rightarrow> lstore \<Rightarrow> lstore \<times> bool res" where
  "recover_script reads_nonneg p count version now_ms token s =
     (case first_error
        [(rget (s (KReady p)) = Some ''deleted'', ''LIKE_POST_DELETED''),
         (\<not> lifecycle_types_ok p s, ''LIKE_TYPE_PRECHECK''),
         (token = '''' \<or> rget (s (KRebuildToken p)) \<noteq> Some token, ''LIKE_RECOVERY_FENCE_LOST''),
         (count \<noteq> 0 \<or> version \<noteq> 0, ''LIKE_RECOVERY_UNSAFE'')] of
        Some e \<Rightarrow> (s, Inl e)
      | None \<Rightarrow>
         (if rget (s (KReady p)) = Some ''1'' \<and>
             (case rget (s (KCount p)) of None \<Rightarrow> False | Some c \<Rightarrow> reads_nonneg c) \<and>
             (case rget (s (KVersion p)) of None \<Rightarrow> False | Some v \<Rightarrow> reads_nonneg v)
          then (at_key (KRebuildToken p) rdel s, Inr False)
          else if s (KReady p) \<noteq> None \<or> has_trace p s then (s, Inl ''LIKE_RECOVERY_UNSAFE'')
          else (install_aggregate p count version now_ms s, Inr True)))"

definition purge_types_ok :: "string \<Rightarrow> lstore \<Rightarrow> bool" where
  "purge_types_ok p s \<longleftrightarrow>
     type_ok TString (s (KReady p)) \<and> type_ok TString (s (KCount p)) \<and> type_ok TString (s (KVersion p)) \<and>
     snap_types_ok s \<and> type_ok TSet (s KRegistry) \<and> type_ok TZset (s KExpiryCandidates) \<and>
     type_ok THash (s KRecoverableVersions)"

text \<open>The token is revoked before the type check, so even a failed purge leaves it revoked.\<close>

definition purge_post_script :: "string \<Rightarrow> int \<Rightarrow> int \<Rightarrow> lstore \<Rightarrow> lstore \<times> bool res" where
  "purge_post_script p ttl now s =
     (let s0 = at_key (KRebuildToken p) rdel s
      in if \<not> purge_types_ok p s0 then (s0, Inl ''LIKE_TYPE_PRECHECK'')
         else
           (let s = (if rget (s0 (KReady p)) \<noteq> Some ''deleted'' then at_key (KReady p) rdel s0 else s0);
                s = at_key (KCount p) rdel s;
                s = at_key (KVersion p) rdel s;
                s = at_key KDirty (srem p) s;
                s = at_key KProcessing (zrem p) s;
                s = at_key KClaims (hdel p) s;
                s = at_key KRegistry (srem p) s;
                s = at_key KExpiryCandidates (zrem p) s;
                s = at_key KRecoverableVersions (hdel p) s;
                s = (if rget (s (KReady p)) = Some ''deleted'' \<and> ttl > 0
                     then at_key (KReady p) (pexpire now ttl) s else s)
            in (s, Inr True)))"

section \<open>The Go methods\<close>

definition Initialize ::
  "bool \<Rightarrow> fault \<Rightarrow> nat \<Rightarrow> int \<Rightarrow> int \<Rightarrow> int \<Rightarrow> string \<Rightarrow> lstore \<Rightarrow> lstore \<times> (go_error + bool)" where
  "Initialize initialized f p count version now_ms token s =
     (if \<not> initialized then (s, Inl (OtherErr ''redis is not initialized''))
      else if p = 0 \<or> count < 0 \<or> version < 0 then (s, Inl (Sentinel ErrLikeRecoveryUnsafe))
      else if count \<noteq> 0 \<or> version \<noteq> 0 then (s, Inl (Sentinel ErrLikeRecoveryUnsafe))
      else map_prod id mapped (call f (initialize_script (show_nat p) count version now_ms token) s))"

record recovery_fence =
  rf_expected :: "int option"
  rf_allow_zero :: bool
  rf_token :: string

definition Recover ::
  "bool \<Rightarrow> fault \<Rightarrow> (string \<Rightarrow> bool) \<Rightarrow> nat \<Rightarrow> int \<times> int \<Rightarrow> recovery_fence \<Rightarrow> int \<Rightarrow> lstore \<Rightarrow>
   lstore \<times> (go_error + bool)" where
  "Recover initialized f rd p baseline fence now_ms s =
     (if \<not> initialized then (s, Inl (OtherErr ''redis is not initialized''))
      else if p = 0 \<or> fst baseline \<noteq> 0 \<or> snd baseline \<noteq> 0 \<or> rf_expected fence \<noteq> None \<or> \<not> rf_allow_zero fence
      then (s, Inl (Sentinel ErrLikeRecoveryUnsafe))
      else map_prod id mapped
             (call f (recover_script rd (show_nat p) (fst baseline) (snd baseline) now_ms (rf_token fence)) s))"

definition PurgePost ::
  "bool \<Rightarrow> fault \<Rightarrow> bool \<Rightarrow> int \<Rightarrow> nat \<Rightarrow> int \<Rightarrow> lstore \<Rightarrow> lstore \<times> (go_error + bool)" where
  "PurgePost initialized f expiry_enabled tombstone_ttl p now s =
     (if \<not> initialized then (s, Inl (OtherErr ''redis is not initialized''))
      else if p = 0 then (s, Inl (OtherErr ''invalid post id''))
      else map_prod id mapped
             (call f (purge_post_script (show_nat p) (if expiry_enabled then tombstone_ttl else 0) now) s))"

definition DeletePost ::
  "bool \<Rightarrow> fault \<Rightarrow> fault \<Rightarrow> bool \<Rightarrow> int \<Rightarrow> nat \<Rightarrow> int \<Rightarrow> lstore \<Rightarrow> lstore \<times> (go_error + bool)" where
  "DeletePost initialized f1 f2 expiry_enabled tombstone_ttl p now s =
     (if \<not> initialized then (s, Inl (OtherErr ''redis is not initialized''))
      else if p = 0 then (s, Inl (OtherErr ''invalid post id''))
      else (case call f1 (mark_post_deleted_script (show_nat p)) s of
              (s1, Inl e) \<Rightarrow> (s1, Inl (mapScriptError e))
            | (s1, Inr _) \<Rightarrow> PurgePost initialized f2 expiry_enabled tombstone_ttl p now s1))"

definition ReleaseRebuild :: "fault \<Rightarrow> nat \<Rightarrow> string \<Rightarrow> lstore \<Rightarrow> lstore \<times> (go_error + bool)" where
  "ReleaseRebuild f p token s = call f (release_rebuild_script (show_nat p) token) s"

section \<open>Every operation on posts, interleaved\<close>

text \<open>
  One step of any client: a mutation of any user and post, any lifecycle script on any post
  with any argument, or the passing of time, which drops expired keys.
\<close>

datatype post_op =
    OpMutate string string bool int int bool int server_time
  | OpBegin string string int bool int
  | OpRelease string string
  | OpMarkDeleted string
  | OpInitialize string int int int string
  | OpRecover string int int int string
  | OpPurge string int int
  | OpExpire int

fun run_post_op :: "(string \<Rightarrow> bool) \<Rightarrow> post_op \<Rightarrow> lstore \<Rightarrow> lstore" where
  "run_post_op rd (OpMutate u p liked now_ms ttl arming cap t) s =
     fst (mutate_script u p liked now_ms ttl arming cap t s)"
| "run_post_op rd (OpBegin p token ttl allow now) s = fst (begin_rebuild_script p token ttl allow now s)"
| "run_post_op rd (OpRelease p token) s = fst (release_rebuild_script p token s)"
| "run_post_op rd (OpMarkDeleted p) s = fst (mark_post_deleted_script p s)"
| "run_post_op rd (OpInitialize p count version now_ms token) s =
     fst (initialize_script p count version now_ms token s)"
| "run_post_op rd (OpRecover p count version now_ms token) s =
     fst (recover_script rd p count version now_ms token s)"
| "run_post_op rd (OpPurge p ttl now) s = fst (purge_post_script p ttl now s)"
| "run_post_op rd (OpExpire now) s = live now s"

definition run_post_ops :: "(string \<Rightarrow> bool) \<Rightarrow> post_op list \<Rightarrow> lstore \<Rightarrow> lstore" where
  "run_post_ops rd ops s = fold (run_post_op rd) ops s"

section \<open>The deletion fence\<close>

lemma mutate_Inl_frame: "mutate_script u p liked now_ms ttl arming cap t s = (s', Inl e) \<Longrightarrow> s' = s"
  by (auto simp: mutate_script_def Let_def split: option.splits sum.splits if_splits)

text \<open>
  A mutation never changes a ready flag or a rebuild token, and writes the counters of ready
  posts only.
\<close>

lemma mutate_post_frame:
  defines "run \<equiv> \<lambda>u p liked now_ms ttl arming cap t s. fst (mutate_script u p liked now_ms ttl arming cap t s)"
  shows "rget (run u p liked now_ms ttl arming cap t s (KReady q)) = rget (s (KReady q))"
    "run u p liked now_ms ttl arming cap t s (KRebuildToken q) = s (KRebuildToken q)"
    "rget (s (KReady q)) \<noteq> Some ''1'' \<Longrightarrow>
       run u p liked now_ms ttl arming cap t s (KCount q) = s (KCount q) \<and>
       run u p liked now_ms ttl arming cap t s (KVersion q) = s (KVersion q)"
proof -
  obtain s' r where run: "mutate_script u p liked now_ms ttl arming cap t s = (s', r)" by fastforce
  have "rget (s' (KReady q)) = rget (s (KReady q)) \<and> s' (KRebuildToken q) = s (KRebuildToken q) \<and>
     (rget (s (KReady q)) \<noteq> Some ''1'' \<longrightarrow> s' (KCount q) = s (KCount q) \<and> s' (KVersion q) = s (KVersion q))"
  proof (cases r)
    case (Inl e)
    with run show ?thesis using mutate_Inl_frame by blast
  next
    case (Inr x)
    from run [unfolded Inr] show ?thesis
    proof (cases rule: mutate_script_Inr_cases)
      case unchanged
      then show ?thesis by simp
    next
      case (liked plan)
      have pe: "rget (s (KReady c)) = Some ''1''" if "plan = Some (c, Some (n, v))" for c n v
        using plan_eviction_Inr(6) [OF liked(5) [OF that]] by blast
      have e: "rget (apply_eviction u plan now_ms (time_us t) s (KReady q)) = rget (s (KReady q))"
        "apply_eviction u plan now_ms (time_us t) s (KRebuildToken q) = s (KRebuildToken q)"
        "rget (s (KReady q)) \<noteq> Some ''1'' \<Longrightarrow>
           apply_eviction u plan now_ms (time_us t) s (KCount q) = s (KCount q) \<and>
           apply_eviction u plan now_ms (time_us t) s (KVersion q) = s (KVersion q)"
        using pe by (auto simp: apply_eviction_def split: option.splits)
      show ?thesis
        using e mutate_guards_None(2) [OF liked(1)] by (auto simp: liked(6))
    next
      case unliked
      then show ?thesis using mutate_guards_None(2) [OF unliked(1)] by auto
    qed
  qed
  then show "rget (run u p liked now_ms ttl arming cap t s (KReady q)) = rget (s (KReady q))"
    "run u p liked now_ms ttl arming cap t s (KRebuildToken q) = s (KRebuildToken q)"
    "rget (s (KReady q)) \<noteq> Some ''1'' \<Longrightarrow>
       run u p liked now_ms ttl arming cap t s (KCount q) = s (KCount q) \<and>
       run u p liked now_ms ttl arming cap t s (KVersion q) = s (KVersion q)"
    using run by (simp_all add: run_def)
qed

definition erased :: "string \<Rightarrow> lstore \<Rightarrow> bool" where
  "erased p s \<longleftrightarrow> rget (s (KReady p)) = Some ''deleted'' \<and> s (KCount p) = None \<and> s (KVersion p) = None"

fun is_expire :: "post_op \<Rightarrow> bool" where
  "is_expire (OpExpire _) = True"
| "is_expire _ = False"

lemma install_aggregate_reads:
  "install_aggregate p c v now s (KReady q) = (if q = p then Some (RStr ''1'', None) else s (KReady q))"
  "install_aggregate p c v now s (KCount q) = (if q = p then Some (RStr (show_int c), None) else s (KCount q))"
  "install_aggregate p c v now s (KVersion q) = (if q = p then Some (RStr (show_int v), None) else s (KVersion q))"
  "install_aggregate p c v now s (KRebuildToken q) = (if q = p then None else s (KRebuildToken q))"
  by (simp_all add: install_aggregate_def Let_def at_key_def rset_def)

text \<open>\<open>initialize_script\<close> and \<open>recover_script\<close> write nothing of a fenced post.\<close>

lemma initialize_fst:
  "fst (initialize_script q c v now token s) = s \<or>
   (rget (s (KRebuildToken q)) = Some token \<and>
     (fst (initialize_script q c v now token s) = at_key (KRebuildToken q) rdel s \<or>
      (s (KReady q) = None \<and> \<not> has_trace q s \<and> c = 0 \<and> v = 0 \<and>
       fst (initialize_script q c v now token s) = install_aggregate q c v now s)))"
proof (cases "snd (initialize_script q c v now token s)")
  case (Inl e)
  then show ?thesis
    by (auto simp: initialize_script_def split: option.splits if_splits)
next
  case (Inr b)
  then show ?thesis
    by (cases "s (KReady q)" rule: rget.cases)
      (auto simp: initialize_script_def lifecycle_types_ok_def type_ok_def split: option.splits if_splits)
qed

lemma recover_fst:
  "fst (recover_script rd q c v now token s) = s \<or>
   (rget (s (KRebuildToken q)) = Some token \<and>
     (fst (recover_script rd q c v now token s) = at_key (KRebuildToken q) rdel s \<or>
      (s (KReady q) = None \<and> \<not> has_trace q s \<and> c = 0 \<and> v = 0 \<and>
       fst (recover_script rd q c v now token s) = install_aggregate q c v now s)))"
  by (auto simp: recover_script_def split: option.splits if_splits)

lemma purge_reads:
  assumes "q \<noteq> p"
  shows "fst (purge_post_script q ttl now s) (KReady p) = s (KReady p)"
    "fst (purge_post_script q ttl now s) (KCount p) = s (KCount p)"
    "fst (purge_post_script q ttl now s) (KVersion p) = s (KVersion p)"
    "fst (purge_post_script q ttl now s) (KRebuildToken p) = s (KRebuildToken p)"
  using assms by (simp_all add: purge_post_script_def Let_def)

lemma purge_own:
  assumes "rget (s (KReady p)) = Some ''deleted''"
  shows "rget (fst (purge_post_script p ttl now s) (KReady p)) = Some ''deleted''"
    "s (KCount p) = None \<Longrightarrow> fst (purge_post_script p ttl now s) (KCount p) = None"
    "s (KVersion p) = None \<Longrightarrow> fst (purge_post_script p ttl now s) (KVersion p) = None"
    "fst (purge_post_script p ttl now s) (KRebuildToken p) = None"
  using assms by (simp_all add: purge_post_script_def Let_def pexpire_def pexpireat_reads)

lemma erased_step:
  assumes "erased p s" and "\<not> is_expire op"
  shows "erased p (run_post_op rd op s)"
proof (cases op)
  case (OpMutate u q liked now_ms ttl arming cap t)
  then show ?thesis using assms(1) mutate_post_frame(1,3) [where q = p] by (simp add: erased_def)
next
  case (OpBegin q token ttl allow now)
  then show ?thesis
    using assms(1) by (auto simp: erased_def begin_rebuild_script_def split: option.splits)
next
  case (OpRelease q token)
  then show ?thesis using assms(1) by (auto simp: erased_def release_rebuild_script_def)
next
  case (OpMarkDeleted q)
  then show ?thesis
    using assms(1) by (cases "q = p") (auto simp: erased_def mark_post_deleted_script_def Let_def)
next
  case (OpInitialize q c v now token)
  then show ?thesis
    using assms(1) initialize_fst [of q c v now token s]
    by (cases "q = p") (auto simp: erased_def install_aggregate_reads)
next
  case (OpRecover q c v now token)
  then show ?thesis
    using assms(1) recover_fst [of rd q c v now token s]
    by (cases "q = p") (auto simp: erased_def install_aggregate_reads)
next
  case (OpPurge q ttl now)
  then show ?thesis
    using assms(1) purge_reads [of q p ttl now s] purge_own [of s p ttl now]
    by (cases "q = p") (simp_all add: erased_def)
next
  case (OpExpire now)
  with assms(2) show ?thesis by simp
qed

text \<open>
  C8. A deleted post stays deleted: whatever mutations, rebuilds (with reactivation tokens
  or not), recoveries, deletions and purges of any post run afterwards and in whatever order,
  the ready flag stays the deletion fence, the counters stay absent, and every further Like
  of the post is refused as deleted. The fence ends only when its expiry passes.
\<close>

theorem deleted_post_stays_deleted:
  assumes "erased p s" and "\<forall>op. op \<in> set ops \<longrightarrow> \<not> is_expire op"
  shows "erased p (run_post_ops rd ops s) \<and>
    snd (mutate_script u p liked now_ms ttl arming cap t (run_post_ops rd ops s)) = Inl ''LIKE_POST_DELETED''"
proof -
  have e: "erased p (run_post_ops rd ops s)"
    using assms by (induction ops arbitrary: s) (simp_all add: run_post_ops_def erased_step)
  have "type_ok TString (run_post_ops rd ops s (KReady p))"
    using e by (cases "run_post_ops rd ops s (KReady p)" rule: rget.cases) (auto simp: erased_def type_ok_def)
  with e show ?thesis
    by (simp add: mutate_script_def mutate_guards_def erased_def)
qed

section \<open>Revoked rebuilds\<close>

text \<open>A token that no step reserves again never becomes the token of the post.\<close>

fun reserves :: "string \<Rightarrow> string \<Rightarrow> post_op \<Rightarrow> bool" where
  "reserves p token (OpBegin q tk _ _ _) \<longleftrightarrow> q = p \<and> tk = token"
| "reserves p token _ \<longleftrightarrow> False"

lemma token_step:
  assumes "rget (s (KRebuildToken p)) \<noteq> Some token" and "\<not> reserves p token op"
  shows "rget (run_post_op rd op s (KRebuildToken p)) \<noteq> Some token"
proof (cases op)
  case (OpMutate u q liked now_ms ttl arming cap t)
  then show ?thesis using assms(1) mutate_post_frame(2) [where q = p] by simp
next
  case (OpBegin q tk ttl allow now)
  have "rget (pexpire now ttl (s (KRebuildToken p))) \<noteq> Some token"
    using assms(1) by (cases "s (KRebuildToken p)" rule: rget.cases) (auto simp: pexpire_def)
  with OpBegin assms show ?thesis
    by (cases "q = p") (auto simp: begin_rebuild_script_def rset_nx_px_def split: option.splits)
next
  case (OpRelease q tk)
  then show ?thesis using assms(1) by (cases "q = p") (auto simp: release_rebuild_script_def)
next
  case (OpMarkDeleted q)
  then show ?thesis using assms(1) by (cases "q = p") (auto simp: mark_post_deleted_script_def Let_def)
next
  case (OpInitialize q c v now tk)
  then show ?thesis
    using assms(1) initialize_fst [of q c v now tk s] by (cases "q = p") (auto simp: install_aggregate_reads)
next
  case (OpRecover q c v now tk)
  then show ?thesis
    using assms(1) recover_fst [of rd q c v now tk s] by (cases "q = p") (auto simp: install_aggregate_reads)
next
  case (OpPurge q ttl now)
  then show ?thesis
    using assms(1) purge_reads(4) [of q p ttl now s]
    by (cases "q = p") (simp_all add: purge_post_script_def Let_def)
next
  case (OpExpire now)
  then show ?thesis
    using assms(1) live_cases [of now s "KRebuildToken p"] by auto
qed

lemma token_never_returns:
  assumes "rget (s (KRebuildToken p)) \<noteq> Some token" and "\<forall>op. op \<in> set ops \<longrightarrow> \<not> reserves p token op"
  shows "rget (run_post_ops rd ops s (KRebuildToken p)) \<noteq> Some token"
  using assms by (induction ops arbitrary: s) (simp_all add: run_post_ops_def token_step)

text \<open>
  A rebuild that reserved its token before a deletion can never install state after it:
  once the deletion ran, and as long as the token is not reserved again, both the
  initialisation and the recovery script with that token fail and change nothing. This holds
  after any interleaving of operations, also when the deletion fence has expired or been
  lost, because the token and not the fence is what the scripts demand.
\<close>

theorem deletion_revokes_rebuilds:
  assumes del: "mark_post_deleted_script p s = (s1, r)"
    and fresh: "\<forall>op. op \<in> set ops \<longrightarrow> \<not> reserves p token op"
  shows "\<exists>e e'. initialize_script p count version now_ms token (run_post_ops rd ops s1) =
        (run_post_ops rd ops s1, Inl e) \<and>
      recover_script rd p count version now_ms token (run_post_ops rd ops s1) =
        (run_post_ops rd ops s1, Inl e')"
proof -
  have "s1 (KRebuildToken p) = None"
    using del by (auto simp: mark_post_deleted_script_def Let_def)
  then have t: "rget (run_post_ops rd ops s1 (KRebuildToken p)) \<noteq> Some token"
    by (intro token_never_returns [OF _ fresh]) simp
  show ?thesis
    using t by (auto simp: initialize_script_def recover_script_def split: option.splits)
qed

text \<open>
  Of two rebuilds of the same post, only one holds the right to write: while a token is
  reserved, reserving another one fails and changes nothing, and releasing with another
  token changes nothing.
\<close>

theorem rebuild_token_exclusive:
  assumes "begin_rebuild_script p token ttl allow now s = (s1, Inr ok)" and "0 < ttl" and "other \<noteq> token"
  shows "rget (s1 (KRebuildToken p)) = Some token \<and>
    (\<exists>e. begin_rebuild_script p other ttl' allow' now' s1 = (s1, Inl e)) \<and>
    release_rebuild_script p other s1 = (s1, Inr False)"
proof -
  have t: "rget (s1 (KRebuildToken p)) = Some token"
    using assms(1,2)
    by (auto simp: begin_rebuild_script_def pexpire_def pexpireat_reads rset_nx_px_def
        split: option.splits if_splits)
  then show ?thesis
    using assms(3) by (auto simp: begin_rebuild_script_def release_rebuild_script_def split: option.splits)
qed

text \<open>
  An initialisation that reports a creation found no trace of earlier state and leaves
  the post ready with count and version zero, registered, its token spent, and every other
  key untouched. One that reports no creation changes nothing but the token.
\<close>

theorem initialize_creates_zero_state:
  assumes run: "initialize_script p count version now_ms token s = (s', Inr created)"
  shows "s' (KRebuildToken p) = None \<and>
    (if created then
       s (KReady p) = None \<and> \<not> has_trace p s \<and> snap_val s' p = Some (0, 0) \<and> p |\<in>| smembers (s' KRegistry) \<and>
       (\<forall>k. k \<notin> {KReady p, KCount p, KVersion p, KRegistry, KExpiryCandidates, KRecoverableVersions, KRebuildToken p}
            \<longrightarrow> s' k = s k)
     else rget (s (KReady p)) = Some ''1'' \<and> (\<forall>k. k \<noteq> KRebuildToken p \<longrightarrow> s' k = s k))"
proof -
  have ty: "lifecycle_types_ok p s"
    using run by (auto simp: initialize_script_def split: option.splits if_splits)
  have rd: "s (KReady p) = None" if "rget (s (KReady p)) = None"
    using that ty by (cases "s (KReady p)" rule: rget.cases) (auto simp: lifecycle_types_ok_def type_ok_def)
  show ?thesis
  proof (cases created)
    case False
    with run show ?thesis
      by (auto simp: initialize_script_def split: option.splits if_splits)
  next
    case True
    with run have i: "rget (s (KReady p)) = None" "\<not> has_trace p s" "count = 0" "version = 0"
      "s' = install_aggregate p 0 0 now_ms s"
      by (auto simp: initialize_script_def split: option.splits if_splits)
    have "snap_val s' p = Some (0, 0)"
      by (simp add: i(5) snap_val_def install_aggregate_reads parseNonNegativeInt64_def
          parse_int64_digits digits_only_def is_digit_def tonum_def digit_val_def)
    moreover have "p |\<in>| smembers (s' KRegistry)"
      using ty by (simp add: i(5) install_aggregate_def Let_def lifecycle_types_ok_def smembers_sadd)
    moreover have "s' k = s k" if "k \<notin> {KReady p, KCount p, KVersion p, KRegistry, KExpiryCandidates,
        KRecoverableVersions, KRebuildToken p}" for k
      using that by (simp add: i(5) install_aggregate_def Let_def)
    ultimately show ?thesis
      using True i(1,2) rd by (simp add: i(5) install_aggregate_reads)
  qed
qed

section \<open>Initialising a new post, with retries\<close>

definition refusal_prefixes :: "string list" where
  "refusal_prefixes = [''LOADING '', ''TRYAGAIN '', ''READONLY '', ''CLUSTERDOWN '', ''MASTERDOWN '']"

definition refused_message :: "go_error \<Rightarrow> bool" where
  "refused_message e =
     (case redis_message e of
        None \<Rightarrow> False
      | Some m \<Rightarrow> list_ex (\<lambda>q. prefix q (trim_space m)) refusal_prefixes)"

definition isDefinitelyUnexecutedLikeInitialization :: "go_error \<Rightarrow> bool" where
  "isDefinitelyUnexecutedLikeInitialization e \<longleftrightarrow>
     net_is e ECONNREFUSED \<or> net_is e ENETUNREACH \<or> net_is e EHOSTUNREACH \<or> refused_message e"

definition isRetryableLikeInitializationError :: "go_error \<Rightarrow> bool" where
  "isRetryableLikeInitializationError e \<longleftrightarrow>
     \<not> (errors_is e ErrLikeInitializationOutcomeUnknown \<or> net_is e CtxCanceled \<or> net_is e CtxDeadlineExceeded) \<and>
     (net_is e EOF \<or> net_is e ECONNREFUSED \<or> net_is e ECONNRESET \<or> net_is e ETIMEDOUT \<or>
      net_is e NetTimeout \<or> net_is e NetTemporary \<or> refused_message e)"

definition newPostInitializationAttempts :: nat where "newPostInitializationAttempts = 3"

text \<open>
  The loop of \<open>runNewPostInitializationWithRetry\<close>; \<open>attempt\<close> counts up, the recursion is on
  the attempts left. \<open>wait\<close> is the outcome of the delay: the context's error, or none.
\<close>

fun retry_loop ::
  "(nat \<Rightarrow> 's \<Rightarrow> 's \<times> (go_error + bool)) \<Rightarrow> (nat \<Rightarrow> 's \<Rightarrow> 's \<times> (go_error + bool)) \<Rightarrow> (nat \<Rightarrow> net_error option) \<Rightarrow>
   nat \<Rightarrow> nat \<Rightarrow> go_error option \<Rightarrow> 's \<Rightarrow> 's \<times> (go_error + bool)" where
  "retry_loop acquire init wait attempt 0 lastErr s =
     (s, Inl (case lastErr of
                Some e \<Rightarrow> e
              | None \<Rightarrow> OtherErr ''new Post Like initialization exhausted retries''))"
| "retry_loop acquire init wait attempt (Suc n) lastErr s =
     (let (s1, r) = (case acquire attempt s of
                       (s1, Inl e) \<Rightarrow> (s1, Inl e)
                     | (s1, Inr _) \<Rightarrow> init attempt s1)
      in case r of
           Inr created \<Rightarrow> (s1, Inr created)
         | Inl e \<Rightarrow>
            (if \<not> isRetryableLikeInitializationError e \<or> attempt + 1 = newPostInitializationAttempts
             then (s1, Inl e)
             else (case wait attempt of
                     Some c \<Rightarrow> (s1, Inl (JoinErr e (NetErr c)))
                   | None \<Rightarrow> retry_loop acquire init wait (attempt + 1) n (Some e) s1)))"

definition runNewPostInitializationWithRetry where
  "runNewPostInitializationWithRetry token acquire init wait s =
     (if token = '''' then (s, Inl (Sentinel ErrLikeRecoveryUnsafe))
      else retry_loop acquire init wait 0 newPostInitializationAttempts None s)"

text \<open>What the environment does to each attempt.\<close>

record attempt_env =
  ae_now :: int
  ae_acquire :: fault
  ae_load :: "go_error + (int \<times> int)"
  ae_init :: fault
  ae_check :: fault
  ae_wait :: "net_error option"

type_synonym init_state = "lstore \<times> bool"

definition acquire_step :: "nat \<Rightarrow> string \<Rightarrow> int \<Rightarrow> attempt_env \<Rightarrow> init_state \<Rightarrow> init_state \<times> (go_error + bool)" where
  "acquire_step p token ttl env st =
     (case call (ae_acquire env) (begin_rebuild_script (show_nat p) token ttl False (ae_now env)) (fst st) of
        (s1, r) \<Rightarrow> ((s1, snd st), mapped r))"

definition state_loads :: "attempt_env \<Rightarrow> nat \<Rightarrow> lstore \<Rightarrow> bool" where
  "state_loads env p s = (\<not> isl (LoadFullState True (\<lambda>_. (ae_check env, s)) 0 p))"

definition initialize_step :: "nat \<Rightarrow> string \<Rightarrow> attempt_env \<Rightarrow> init_state \<Rightarrow> init_state \<times> (go_error + bool)" where
  "initialize_step p token env st =
     (case ae_load env of
        Inl e \<Rightarrow> (st, Inl e)
      | Inr (count, version) \<Rightarrow>
         (if count \<noteq> 0 \<or> version \<noteq> 0 then (st, Inl (Sentinel ErrLikeRecoveryUnsafe))
          else
            (case Initialize True (ae_init env) p count version (ae_now env) token (fst st) of
               (s1, Inr created) \<Rightarrow> ((s1, snd st), Inr created)
             | (s1, Inl e) \<Rightarrow>
                (if isDefinitelyUnexecutedLikeInitialization e \<or> errors_is e ErrLikeRecoveryUnsafe \<or>
                    errors_is e ErrLikeRecoveryFenceLost \<or> errors_is e ErrPostLikeUnavailable \<or>
                    errors_is e ErrLikeRedisType
                 then
                   (if errors_is e ErrLikeRecoveryFenceLost \<and> state_loads env p s1
                    then ((s1, snd st), Inr False)
                    else ((s1, snd st), Inl e))
                 else if state_loads env p s1 then ((s1, True), Inr False)
                 else ((s1, True),
                       Inl (WrapErr ''outcome unknown'' (Sentinel ErrLikeInitializationOutcomeUnknown)))))))"

definition InitializeNewPostFromWithOutcome ::
  "bool \<Rightarrow> bool \<Rightarrow> nat \<Rightarrow> string \<Rightarrow> int \<Rightarrow> (nat \<Rightarrow> attempt_env) \<Rightarrow> fault \<Rightarrow> lstore \<Rightarrow>
   lstore \<times> (go_error + bool) \<times> bool" where
  "InitializeNewPostFromWithOutcome has_ctx initialized p token ttl env release_fault s =
     (if \<not> has_ctx then (s, Inl (OtherErr ''new Post Like initialization context is nil''), False)
      else if \<not> initialized then (s, Inl (OtherErr ''redis is not initialized''), False)
      else if p = 0 then (s, Inl (Sentinel ErrLikeRecoveryUnsafe), False)
      else
        (case runNewPostInitializationWithRetry token
                (\<lambda>i. acquire_step p token ttl (env i)) (\<lambda>i. initialize_step p token (env i))
                (\<lambda>i. ae_wait (env i)) (s, False) of
           ((s1, possible), r) \<Rightarrow> (fst (ReleaseRebuild release_fault p token s1), r, possible)))"

section \<open>The outcome report is sound\<close>

text \<open>
  A connection that was refused, or an unreachable host, never ran the request: a lost reply
  has another error.
\<close>

definition faults_honest :: "fault \<Rightarrow> bool" where
  "faults_honest f \<longleftrightarrow>
     (case f of LostReply e \<Rightarrow> e \<notin> {ECONNREFUSED, ENETUNREACH, EHOSTUNREACH} | _ \<Rightarrow> True)"

definition same_but_token :: "nat \<Rightarrow> lstore \<Rightarrow> lstore \<Rightarrow> bool" where
  "same_but_token p s s' \<longleftrightarrow> (\<forall>k. k \<noteq> RebuildTokenKey p \<longrightarrow> s' k = s k)"

lemma same_but_token_refl [simp]: "same_but_token p s s"
  by (simp add: same_but_token_def)

lemma same_but_token_trans: "same_but_token p s s1 \<Longrightarrow> same_but_token p s1 s2 \<Longrightarrow> same_but_token p s s2"
  by (simp add: same_but_token_def)

lemma begin_same: "same_but_token p s (fst (begin_rebuild_script (show_nat p) token ttl allow now s))"
  by (auto simp: same_but_token_def begin_rebuild_script_def RebuildTokenKey_def split: option.splits)

lemma release_same: "same_but_token p s (fst (release_rebuild_script (show_nat p) token s))"
  by (auto simp: same_but_token_def release_rebuild_script_def RebuildTokenKey_def)

lemma call_same:
  assumes "\<And>s. same_but_token p s (fst (op s))"
  shows "same_but_token p s (fst (call f op s))"
  using assms by (cases f) (auto simp: call_def)

lemma ReleaseRebuild_same: "same_but_token p s (fst (ReleaseRebuild f p token s))"
  unfolding ReleaseRebuild_def by (rule call_same) (rule release_same)

lemma initialize_Inl_frame: "initialize_script p c v now token s = (s', Inl e) \<Longrightarrow> s' = s"
  by (auto simp: initialize_script_def split: option.splits if_splits)

text \<open>An error of \<open>Initialize\<close> that the code treats as certain left the store unchanged.\<close>

lemma Initialize_certain:
  assumes "Initialize True f p c v now token s = (s', Inl e)" and "faults_honest f"
    and "isDefinitelyUnexecutedLikeInitialization e \<or> errors_is e ErrLikeRecoveryUnsafe \<or>
      errors_is e ErrLikeRecoveryFenceLost \<or> errors_is e ErrPostLikeUnavailable \<or> errors_is e ErrLikeRedisType"
  shows "s' = s"
proof (cases f)
  case Healthy
  with assms(1) show ?thesis
    by (cases "initialize_script (show_nat p) c v now token s"; cases "snd (initialize_script (show_nat p) c v now token s)")
      (auto simp: Initialize_def call_def mapped_def raw_def initialize_Inl_frame split: if_splits)
next
  case (LostReply x)
  with assms(2) have "x \<notin> {ECONNREFUSED, ENETUNREACH, EHOSTUNREACH}" by (simp add: faults_honest_def)
  with assms LostReply show ?thesis
    by (auto simp: Initialize_def call_def mapped_def mapScriptError_def refused_message_def
        isDefinitelyUnexecutedLikeInitialization_def split: if_splits)
qed (use assms(1) in \<open>auto simp: Initialize_def call_def split: if_splits\<close>)

lemma retry_loop_error_inv:
  assumes "I st"
    and acq: "\<And>i st st' r. I st \<Longrightarrow> acquire i st = (st', r) \<Longrightarrow> I st'"
    and ini: "\<And>i st st' e. I st \<Longrightarrow> init i st = (st', Inl e) \<Longrightarrow> I st'"
    and "retry_loop acquire init wait attempt n lastErr st = (st', Inl e)"
  shows "I st'"
  using assms(1,4)
proof (induction n arbitrary: attempt lastErr st)
  case 0
  then show ?case by simp
next
  case (Suc n)
  obtain s1 r where r: "(case acquire attempt st of
      (s1, Inl e) \<Rightarrow> (s1, Inl e) | (s1, Inr _) \<Rightarrow> init attempt s1) = (s1, r)" by fastforce
  show ?case
  proof (cases r)
    case (Inr c)
    with Suc.prems(2) r show ?thesis by (simp add: Let_def)
  next
    case (Inl x)
    have "I s1"
      using r Inl Suc.prems(1) by (auto split: prod.splits sum.splits intro: acq ini)
    with Suc.IH Suc.prems(2) r Inl show ?thesis
      by (auto simp: Let_def split: if_splits option.splits)
  qed
qed

definition untouched :: "nat \<Rightarrow> lstore \<Rightarrow> init_state \<Rightarrow> bool" where
  "untouched p s0 st \<longleftrightarrow> (\<not> snd st \<longrightarrow> same_but_token p s0 (fst st))"

lemma acquire_untouched:
  assumes "untouched p s0 st" and "acquire_step p token ttl env st = (st', r)"
  shows "untouched p s0 st'"
proof -
  let ?c = "call (ae_acquire env) (begin_rebuild_script (show_nat p) token ttl False (ae_now env)) (fst st)"
  have "same_but_token p (fst st) (fst ?c)" by (rule call_same) (rule begin_same)
  then show ?thesis
    using assms by (auto simp: untouched_def acquire_step_def split: prod.splits intro: same_but_token_trans)
qed

lemma initialize_untouched:
  assumes "untouched p s0 st" and "initialize_step p token env st = (st', Inl e)" and "faults_honest (ae_init env)"
  shows "untouched p s0 st'"
proof (cases "ae_load env")
  case (Inl x)
  with assms show ?thesis by (simp add: initialize_step_def)
next
  case (Inr b)
  obtain c v where b: "b = (c, v)" by (cases b)
  obtain s1 r where i: "Initialize True (ae_init env) p c v (ae_now env) token (fst st) = (s1, r)" by fastforce
  show ?thesis
  proof (cases "c \<noteq> 0 \<or> v \<noteq> 0 \<or> \<not> isl r")
    case True
    with assms(1,2) Inr b i show ?thesis
      by (cases r) (auto simp: initialize_step_def split: if_splits)
  next
    case False
    then obtain x where r: "r = Inl x" by (cases r) auto
    have same: "s1 = fst st" if "isDefinitelyUnexecutedLikeInitialization x \<or> errors_is x ErrLikeRecoveryUnsafe \<or>
      errors_is x ErrLikeRecoveryFenceLost \<or> errors_is x ErrPostLikeUnavailable \<or> errors_is x ErrLikeRedisType"
      using Initialize_certain [OF i [unfolded r] assms(3) that] .
    show ?thesis
      using assms(1,2) Inr b i r False same
      by (auto simp: initialize_step_def untouched_def split: if_splits)
  qed
qed

text \<open>
  A failed initialisation of a new post that reports no possible mutation left every
  key of Redis as it was, but for the post's own short-lived rebuild token: whatever requests
  or replies were lost in up to three attempts, the caller may safely retry from scratch.
\<close>

theorem failed_initialization_report_sound:
  assumes honest: "\<forall>i. faults_honest (ae_init (env i))"
    and run: "InitializeNewPostFromWithOutcome True True p token ttl env f s = (s', Inl e, False)"
    and k: "k \<noteq> RebuildTokenKey p"
  shows "s' k = s k"
proof (cases "p = 0 \<or> token = ''''")
  case True
  then show ?thesis
    using run k ReleaseRebuild_same [of p s f token]
    by (auto simp: InitializeNewPostFromWithOutcome_def runNewPostInitializationWithRetry_def
        same_but_token_def split: if_splits)
next
  case False
  let ?loop = "retry_loop (\<lambda>i. acquire_step p token ttl (env i)) (\<lambda>i. initialize_step p token (env i))
      (\<lambda>i. ae_wait (env i)) 0 newPostInitializationAttempts None (s, False)"
  obtain s1 pos r where l: "?loop = ((s1, pos), r)" by (metis prod.collapse)
  have r: "r = Inl e" "pos = False" "s' = fst (ReleaseRebuild f p token s1)"
    using run False l by (simp_all add: InitializeNewPostFromWithOutcome_def runNewPostInitializationWithRetry_def)
  have "untouched p s (s1, pos)"
  proof (rule retry_loop_error_inv [where I = "untouched p s" and e = e])
    show "?loop = ((s1, pos), Inl e)" using l r by simp
    show "untouched p s (s, False)" by (simp add: untouched_def)
  qed (use honest in \<open>auto intro: acquire_untouched initialize_untouched\<close>)
  with r(2) have "same_but_token p s s1" by (simp add: untouched_def)
  moreover have "same_but_token p s1 s'"
    unfolding r(3) by (rule ReleaseRebuild_same)
  ultimately show ?thesis using k by (simp add: same_but_token_def)
qed

section \<open>Batches of rebuilds\<close>

text \<open>
  \<open>beginRebuildMany\<close>: the ids in their first order without repetition, a token per id. The
  loop over the commands returns some error that is neither a deleted post nor a lost fence;
  the first in order is chosen here.
\<close>

definition rebuild_token :: "bool \<Rightarrow> string \<Rightarrow> string" where
  "rebuild_token reactivation uuid = (if reactivation then ''reactivate:'' @ uuid else uuid)"

definition skippable :: "go_error \<Rightarrow> bool" where
  "skippable e \<longleftrightarrow> errors_is e ErrPostLikeUnavailable \<or> errors_is e ErrLikeRecoveryFenceLost"

fun sort_results ::
  "(nat \<times> bool res) list \<Rightarrow> (nat \<Rightarrow> string) \<Rightarrow> go_error + ((nat \<times> string) list \<times> (nat \<times> go_error) list)" where
  "sort_results [] token = Inr ([], [])"
| "sort_results ((i, r) # rest) token =
     (case sort_results rest token of
        Inl e \<Rightarrow> Inl (case r of Inl m \<Rightarrow> if skippable (mapScriptError (RedisErr m)) then e
                                     else mapScriptError (RedisErr m)
                             | Inr _ \<Rightarrow> e)
      | Inr (tokens, bad) \<Rightarrow>
         (case r of
            Inr _ \<Rightarrow> Inr ((i, token i) # tokens, bad)
          | Inl m \<Rightarrow>
             (if skippable (mapScriptError (RedisErr m)) then Inr (tokens, (i, mapScriptError (RedisErr m)) # bad)
              else Inl (mapScriptError (RedisErr m)))))"

definition beginRebuildMany ::
  "bool \<Rightarrow> pipe_fault \<Rightarrow> (nat \<Rightarrow> string) \<Rightarrow> int \<Rightarrow> bool \<Rightarrow> int \<Rightarrow> nat list \<Rightarrow> lstore \<Rightarrow>
   lstore \<times> (go_error + ((nat \<times> string) list \<times> (nat \<times> go_error) list))" where
  "beginRebuildMany initialized f uuid ttl reactivation now ids s =
     (if \<not> initialized then (s, Inl (OtherErr ''redis is not initialized''))
      else if 0 \<in> set ids then (s, Inl (OtherErr ''invalid post id''))
      else
        (let ids = rev (remdups (rev ids));
             token = (\<lambda>i. rebuild_token reactivation (uuid i));
             ops = map (\<lambda>i. begin_rebuild_script (show_nat i) (token i) ttl reactivation now) ids
         in case f of
              Some (n, e) \<Rightarrow> (fst (run_all (take n ops) s), if ids = [] then Inr ([], []) else Inl (NetErr e))
            | None \<Rightarrow> (let (s', rs) = run_all ops s in (s', sort_results (zip ids rs) token))))"

definition ReleaseRebuildMany :: "pipe_fault \<Rightarrow> (nat \<times> string) list \<Rightarrow> lstore \<Rightarrow> lstore" where
  "ReleaseRebuildMany f tokens s =
     fst (pipe_exec f (map (\<lambda>(p, token). release_rebuild_script (show_nat p) token) tokens) s)"

text \<open>
  \<open>InitializeFrom\<close>: the baseline is loaded only after the token is reserved, and the token is
  released at the end in every case. \<open>load\<close> reads SQL.
\<close>

definition InitializeFrom ::
  "bool \<Rightarrow> pipe_fault \<Rightarrow> fault \<Rightarrow> pipe_fault \<Rightarrow> (nat \<Rightarrow> string) \<Rightarrow> int \<Rightarrow> int \<Rightarrow> nat \<Rightarrow> bool \<Rightarrow> go_error + (int \<times> int) \<Rightarrow>
   lstore \<Rightarrow> lstore \<times> (go_error + bool)" where
  "InitializeFrom initialized f1 f2 f3 uuid ttl now p reactivation load s =
     (if reactivation then (s, Inl (Sentinel ErrLikeRecoveryUnsafe))
      else
        (case beginRebuildMany initialized f1 uuid ttl reactivation now [p] s of
           (s1, Inl e) \<Rightarrow> (s1, Inl e)
         | (s1, Inr (tokens, bad)) \<Rightarrow>
            (case map_of bad p of
               Some e \<Rightarrow> (s1, Inl e)
             | None \<Rightarrow>
                (let (s2, r) =
                   (case load of
                      Inl e \<Rightarrow> (s1, Inl e)
                    | Inr (count, version) \<Rightarrow>
                       Initialize initialized f2 p count version (now div 1000000)
                         (case map_of tokens p of Some tk \<Rightarrow> tk | None \<Rightarrow> '''') s1)
                 in (ReleaseRebuildMany f3 tokens s2, r)))))"

definition BeginRebuild ::
  "bool \<Rightarrow> pipe_fault \<Rightarrow> (nat \<Rightarrow> string) \<Rightarrow> int \<Rightarrow> int \<Rightarrow> nat \<Rightarrow> lstore \<Rightarrow> lstore \<times> (go_error + string)" where
  "BeginRebuild initialized f uuid ttl now p s =
     (case beginRebuildMany initialized f uuid ttl False now [p] s of
        (s1, Inl e) \<Rightarrow> (s1, Inl e)
      | (s1, Inr (tokens, bad)) \<Rightarrow>
         (s1, case map_of bad p of
                Some e \<Rightarrow> Inl e
              | None \<Rightarrow> Inr (case map_of tokens p of Some tk \<Rightarrow> tk | None \<Rightarrow> '''')))"

section \<open>Witnesses\<close>

definition demo_deleted :: lstore where
  "demo_deleted = (\<lambda>_. None)(KReady ''5'' := Some (RStr ''deleted'', Some 900))"

theorem deleted_post_stays_deleted_witness:
  "erased ''5'' (run_post_ops (\<lambda>_. True) [OpBegin ''5'' ''reactivate:a'' 100 True 10,
     OpInitialize ''5'' 0 0 10 ''reactivate:a''] demo_deleted)"
proof -
  have e: "erased ''5'' demo_deleted" by (simp add: erased_def demo_deleted_def)
  show ?thesis
    using deleted_post_stays_deleted [OF e, of "[OpBegin ''5'' ''reactivate:a'' 100 True 10,
     OpInitialize ''5'' 0 0 10 ''reactivate:a'']"] by auto
qed

theorem deletion_revokes_rebuilds_witness:
  "\<exists>s1 r e. mark_post_deleted_script ''5'' demo_store = (s1, r) \<and>
     initialize_script ''5'' 0 0 20 ''tok'' (run_post_ops (\<lambda>_. True) [OpExpire 30] s1) =
       (run_post_ops (\<lambda>_. True) [OpExpire 30] s1, Inl e)"
proof -
  obtain s1 r where del: "mark_post_deleted_script ''5'' demo_store = (s1, r)" by fastforce
  show ?thesis
    using del deletion_revokes_rebuilds [OF del, of "[OpExpire 30]" "''tok''" 0 0 20 "\<lambda>_. True"] by auto
qed

theorem rebuild_token_exclusive_witness:
  "\<exists>s1 e. begin_rebuild_script ''5'' ''a'' 100 False 10 demo_store = (s1, Inr True) \<and>
     begin_rebuild_script ''5'' ''b'' 100 False 20 s1 = (s1, Inl e)"
proof -
  have "snd (begin_rebuild_script ''5'' ''a'' 100 False 10 demo_store) = Inr True"
    by (simp add: begin_rebuild_script_def demo_store_def type_ok_def)
  then obtain s1 where r: "begin_rebuild_script ''5'' ''a'' 100 False 10 demo_store = (s1, Inr True)"
    by (metis prod.collapse)
  show ?thesis using r rebuild_token_exclusive [OF r, of "''b''"] by auto
qed

definition demo_token :: lstore where
  "demo_token = (\<lambda>_. None)(KRebuildToken ''5'' := Some (RStr ''a'', Some 900))"

theorem initialize_creates_zero_state_witness:
  "\<exists>s'. initialize_script ''5'' 0 0 20 ''a'' demo_token = (s', Inr True) \<and> snap_val s' ''5'' = Some (0, 0)"
proof -
  have "snd (initialize_script ''5'' 0 0 20 ''a'' demo_token) = Inr True"
    by (simp add: initialize_script_def demo_token_def lifecycle_types_ok_def type_ok_def has_trace_def)
  then obtain s' where r: "initialize_script ''5'' 0 0 20 ''a'' demo_token = (s', Inr True)"
    by (metis prod.collapse)
  show ?thesis using r initialize_creates_zero_state [OF r] by auto
qed

definition demo_env :: attempt_env where
  "demo_env = \<lparr>ae_now = 10, ae_acquire = Healthy, ae_load = Inl (OtherErr ''sql''), ae_init = Healthy,
               ae_check = Healthy, ae_wait = None\<rparr>"

theorem failed_initialization_report_sound_witness:
  "\<exists>s'. InitializeNewPostFromWithOutcome True True 9 ''a'' 1000 (\<lambda>_. demo_env) Healthy demo_store =
      (s', Inl (OtherErr ''sql''), False) \<and> s' (KReady ''5'') = demo_store (KReady ''5'')"
proof -
  have s9: "show_nat 9 = ''9''" by (simp add: show_nat.simps digit_char_def)
  have "snd (InitializeNewPostFromWithOutcome True True 9 ''a'' 1000 (\<lambda>_. demo_env) Healthy demo_store) =
      (Inl (OtherErr ''sql''), False)"
    by (simp add: InitializeNewPostFromWithOutcome_def runNewPostInitializationWithRetry_def
        newPostInitializationAttempts_def numeral_3_eq_3 acquire_step_def initialize_step_def demo_env_def
        begin_rebuild_script_def s9 demo_store_def call_def mapped_def raw_def Let_def
        isRetryableLikeInitializationError_def refused_message_def)
  then obtain s' where r: "InitializeNewPostFromWithOutcome True True 9 ''a'' 1000 (\<lambda>_. demo_env) Healthy demo_store =
      (s', Inl (OtherErr ''sql''), False)" by (metis prod.collapse)
  have h: "\<forall>i. faults_honest (ae_init ((\<lambda>_. demo_env) i))" by (simp add: faults_honest_def demo_env_def)
  show ?thesis
    using r failed_initialization_report_sound [OF h r, of "KReady ''5''"] by (simp add: RebuildTokenKey_def)
qed

end
