(* ===== verification/LikeUser.thy ===== *)
theory LikeUser
  imports LikeRebuild
begin

text \<open>
  The lifecycle of a user's relations: initialisation, expiry ledger, restore of a cold user
  through a locked temporary set, migration and rollback of expiry, cleanup
  (\<open>likes/user_lifecycle_scripts.go\<close>, and \<open>scanUserLikesScript\<close>,
  \<open>initializeUserEmptyScript\<close>, \<open>removeDeletedUserPostRelationsScript\<close> of
  \<open>likes/scripts.go\<close>). A user's relations may expire as a whole; the ledger keeps the
  instant, so that a set that is missing because it expired (cold) is told from one that
  was lost. The theory shows that every script keeps this distinction sound.
\<close>

section \<open>Initialisation, scanning and cleanup of relations\<close>

definition initialize_user_empty_script ::
  "string \<Rightarrow> bool \<Rightarrow> int \<Rightarrow> server_time \<Rightarrow> lstore \<Rightarrow> lstore \<times> bool res" where
  "initialize_user_empty_script u arming ttl t s =
     (let likes = s (KUserLikes u); order = s (KUserLikesOrder u)
      in case first_error
           ([(\<not> type_ok TSet likes, ''LIKE_USER_TYPE''),
             (\<not> type_ok THash (s KUserLikesExpiryLedger), ''LIKE_USER_LEDGER_TYPE''),
             (\<not> type_ok TZset order, ''LIKE_USER_ORDER_TYPE'')] @
            (if likes \<noteq> None
             then (''0'' |\<notin>| smembers likes, ''LIKE_USER_NOT_READY'') # order_guards likes order
             else [(order \<noteq> None \<or> hget (s KUserLikesExpiryLedger) u \<noteq> None, ''LIKE_USER_NOT_READY'')])) of
           Some e \<Rightarrow> (s, Inl e)
         | None \<Rightarrow>
            (let s1 = (if likes = None then at_key (KUserLikes u) (sadd ''0'') s else s)
             in (refresh_user_ttl u arming (time_ms t) ttl (order \<noteq> None) s1, Inr (likes = None))))"

text \<open>\<open>scanUserLikesScript\<close>: \<open>page\<close> is what \<open>SSCAN\<close> returned, the next cursor and some members.\<close>

definition scan_user_likes_script :: "string \<Rightarrow> string \<times> string list \<Rightarrow> lstore \<Rightarrow> (string \<times> string list) res" where
  "scan_user_likes_script u page s =
     (case first_error (user_read_guards (s (KUserLikes u)) (s (KUserLikesOrder u)) @
              map (\<lambda>x. (x \<noteq> ''0'' \<and> zscore (s (KUserLikesOrder u)) x = None, ''LIKE_USER_ORDER_INCONSISTENT''))
                (snd page)) of
        Some e \<Rightarrow> Inl e
      | None \<Rightarrow> Inr page)"

datatype cleanup_issue = PostReadyTypeError | PostLifecycleMismatch | PostReadyStateInvalid

text \<open>One iteration of the collecting loop of \<open>removeDeletedUserPostRelationsScript\<close>.\<close>

fun collect_removals ::
  "string \<Rightarrow> lstore \<Rightarrow> string list \<Rightarrow> string list \<Rightarrow> (string \<times> cleanup_issue) list \<Rightarrow>
   (string list \<times> (string \<times> cleanup_issue) list) res" where
  "collect_removals u s [] rem iss = Inr (rem, iss)"
| "collect_removals u s (p # ps) rem iss =
     (if p = ''0'' then collect_removals u s ps rem iss
      else if (p |\<in>| smembers (s (KUserLikes u))) \<noteq> (zscore (s (KUserLikesOrder u)) p \<noteq> None)
      then Inl ''LIKE_USER_ORDER_INCONSISTENT''
      else if \<not> type_ok TString (s (KReady p)) then collect_removals u s ps rem (iss @ [(p, PostReadyTypeError)])
      else if rget (s (KReady p)) = None \<or> rget (s (KReady p)) = Some ''deleted''
      then collect_removals u s ps (if p |\<in>| smembers (s (KUserLikes u)) then rem @ [p] else rem) iss
      else if rget (s (KReady p)) = Some ''1'' then collect_removals u s ps rem (iss @ [(p, PostLifecycleMismatch)])
      else collect_removals u s ps rem (iss @ [(p, PostReadyStateInvalid)]))"

fun remove_all :: "string \<Rightarrow> string list \<Rightarrow> lstore \<Rightarrow> int \<Rightarrow> lstore \<times> int" where
  "remove_all u [] s n = (s, n)"
| "remove_all u (p # ps) s n =
     remove_all u ps (remove_relation u p s) (n + (if p |\<in>| smembers (s (KUserLikes u)) then 1 else 0))"

definition remove_deleted_relations_script ::
  "string \<Rightarrow> string list \<Rightarrow> lstore \<Rightarrow> lstore \<times> (int \<times> (string \<times> cleanup_issue) list) res" where
  "remove_deleted_relations_script u ids s =
     (case first_error (user_read_guards (s (KUserLikes u)) (s (KUserLikesOrder u))) of
        Some e \<Rightarrow> (s, Inl e)
      | None \<Rightarrow>
         (case collect_removals u s ids [] [] of
            Inl e \<Rightarrow> (s, Inl e)
          | Inr (rem, iss) \<Rightarrow> (let (s', n) = remove_all u rem s 0 in (s', Inr (n, iss)))))"

section \<open>Inspecting a user\<close>

datatype user_status = UReady | UBusy | UCold | UUnexpectedMissing | UAcquired | UInstalled | UArmed
  | UPersisted | UMissing

definition user_type_guards :: "string \<Rightarrow> lstore \<Rightarrow> (bool \<times> string) list" where
  "user_type_guards u s =
     [(\<not> type_ok TSet (s (KUserLikes u)), ''LIKE_USER_TYPE''),
      (\<not> type_ok THash (s KUserLikesExpiryLedger), ''LIKE_USER_LEDGER_TYPE''),
      (\<not> type_ok TString (s (KUserLikesRestoreLock u)), ''LIKE_USER_RESTORE_LOCK_TYPE''),
      (\<not> type_ok TZset (s (KUserLikesOrder u)), ''LIKE_USER_ORDER_TYPE'')]"

definition present_guards :: "string \<Rightarrow> lstore \<Rightarrow> (bool \<times> string) list" where
  "present_guards u s =
     (''0'' |\<notin>| smembers (s (KUserLikes u)), ''LIKE_USER_NOT_READY'')
       # order_guards (s (KUserLikes u)) (s (KUserLikesOrder u))"

text \<open>A ledger value that is not a positive number, or whose instant is still to come, is unsafe.\<close>

definition ledger_unsafe :: "int \<Rightarrow> string \<Rightarrow> bool" where
  "ledger_unsafe now v \<longleftrightarrow> \<not> digits_only v \<or> tonum v = 0 \<or> now < int (tonum v)"

definition inspect_user_script ::
  "string \<Rightarrow> server_time \<Rightarrow> lstore \<Rightarrow> (user_status \<times> string \<times> int) res" where
  "inspect_user_script u t s =
     (let likes = s (KUserLikes u); order = s (KUserLikesOrder u); now = time_ms t;
          ledger = hget (s KUserLikesExpiryLedger) u
      in case first_error (user_type_guards u s) of
           Some e \<Rightarrow> Inl e
         | None \<Rightarrow>
            (if likes \<noteq> None then
               (case first_error (present_guards u s @
                   [(active_of likes > 0 \<and> abs (pttl now likes - pttl now order) > 1,
                       ''LIKE_USER_ORDER_INCONSISTENT'')]) of
                  Some e \<Rightarrow> Inl e
                | None \<Rightarrow> Inr (UReady, case ledger of None \<Rightarrow> '''' | Some v \<Rightarrow> v, pttl now likes))
             else if order \<noteq> None then Inl ''LIKE_USER_ORDER_INCONSISTENT''
             else
               (case ledger of
                  None \<Rightarrow> Inr (UUnexpectedMissing, '''', - 2)
                | Some v \<Rightarrow>
                   (if ledger_unsafe now v then Inl ''LIKE_USER_RECOVERY_UNSAFE''
                    else if s (KUserLikesRestoreLock u) \<noteq> None then Inr (UBusy, v, - 2)
                    else Inr (UCold, v, - 2)))))"

section \<open>Restoring a cold user\<close>

definition begin_restore_script ::
  "string \<Rightarrow> string \<Rightarrow> int \<Rightarrow> server_time \<Rightarrow> lstore \<Rightarrow> lstore \<times> (user_status \<times> string) res" where
  "begin_restore_script u token lock_ttl t s =
     (let likes = s (KUserLikes u); order = s (KUserLikesOrder u); now = time_ms t
      in case first_error (user_type_guards u s) of
           Some e \<Rightarrow> (s, Inl e)
         | None \<Rightarrow>
            (if likes \<noteq> None then
               (case first_error (present_guards u s) of
                  Some e \<Rightarrow> (s, Inl e)
                | None \<Rightarrow> (s, Inr (UReady, '''')))
             else if order \<noteq> None then (s, Inl ''LIKE_USER_ORDER_INCONSISTENT'')
             else
               (case hget (s KUserLikesExpiryLedger) u of
                  None \<Rightarrow> (s, Inl ''LIKE_USER_RECOVERY_UNSAFE'')
                | Some v \<Rightarrow>
                   (if ledger_unsafe now v then (s, Inl ''LIKE_USER_RECOVERY_UNSAFE'')
                    else if s (KUserLikesRestoreLock u) \<noteq> None then (s, Inr (UBusy, v))
                    else (at_key (KUserLikesRestoreLock u) (rset_nx_px now token lock_ttl) s, Inr (UAcquired, v))))))"

definition create_temp_script ::
  "string \<Rightarrow> string \<Rightarrow> string \<Rightarrow> int \<Rightarrow> server_time \<Rightarrow> lstore \<Rightarrow> lstore \<times> bool res" where
  "create_temp_script u token expected ttl t s =
     (case first_error
        [(s (KUserLikes u) \<noteq> None, ''LIKE_USER_RESTORE_TARGET_EXISTS''),
         (rtype_of (s KUserLikesExpiryLedger) \<noteq> THash, ''LIKE_USER_LEDGER_TYPE''),
         (rget (s (KUserLikesRestoreLock u)) \<noteq> Some token, ''LIKE_USER_RECOVERY_LOCK_LOST''),
         (hget (s KUserLikesExpiryLedger) u \<noteq> Some expected \<or> \<not> digits_only expected \<or> tonum expected = 0,
            ''LIKE_USER_RECOVERY_UNSAFE''),
         (time_ms t < int (tonum expected), ''LIKE_USER_RECOVERY_UNSAFE''),
         (s (KUserLikesRestoreTemp u token) \<noteq> None, ''LIKE_USER_RESTORE_TEMP_EXISTS''),
         (s (KUserLikesOrder u) \<noteq> None, ''LIKE_USER_RESTORE_TARGET_EXISTS''),
         (s (KUserLikesRestoreOrderTemp u token) \<noteq> None, ''LIKE_USER_RESTORE_TEMP_EXISTS'')] of
        Some e \<Rightarrow> (s, Inl e)
      | None \<Rightarrow>
         (at_key (KUserLikesRestoreTemp u token) (pexpire (time_ms t) ttl)
            (at_key (KUserLikesRestoreTemp u token) (sadd ''0'') s), Inr True))"

fun append_all :: "string \<Rightarrow> string \<Rightarrow> (string \<times> int) list \<Rightarrow> lstore \<Rightarrow> lstore" where
  "append_all u token [] s = s"
| "append_all u token ((p, score) # rest) s =
     append_all u token rest
       (at_key (KUserLikesRestoreOrderTemp u token) (zadd score p)
         (at_key (KUserLikesRestoreTemp u token) (sadd p) s))"

definition append_temp_script ::
  "string \<Rightarrow> string \<Rightarrow> (string \<times> int) list \<Rightarrow> int \<Rightarrow> lstore \<Rightarrow> lstore \<times> nat res" where
  "append_temp_script u token rels now s =
     (let temp = s (KUserLikesRestoreTemp u token); order = s (KUserLikesRestoreOrderTemp u token)
      in case first_error
           ([(rtype_of temp \<noteq> TSet \<or> ''0'' |\<notin>| smembers temp, ''LIKE_USER_RESTORE_INCOMPLETE''),
             (pttl now temp \<le> 0, ''LIKE_USER_RESTORE_INCOMPLETE''),
             (\<not> type_ok TZset order, ''LIKE_USER_ORDER_TYPE'')] @
            map (\<lambda>(p, score). (bad_id p \<or> score \<le> 0, ''LIKE_USER_RESTORE_INCOMPLETE'')) rels) of
           Some e \<Rightarrow> (s, Inl e)
         | None \<Rightarrow>
            (at_key (KUserLikesRestoreOrderTemp u token) (pexpire now (pttl now temp)) (append_all u token rels s),
             Inr (length rels)))"

text \<open>
  \<open>finishUserLikeRestoreScript\<close>; \<open>members\<close> is the order in which \<open>SMEMBERS\<close> lists the
  temporary set, which decides which error is reported first.
\<close>

definition member_guards :: "string \<Rightarrow> string \<Rightarrow> string list \<Rightarrow> lstore \<Rightarrow> (bool \<times> string) list" where
  "member_guards u token members s =
     concat (map (\<lambda>p. if p = ''0'' then [] else
        [(\<not> digits_only p, ''LIKE_USER_RESTORE_INCOMPLETE''),
         (zscore (s (KUserLikesRestoreOrderTemp u token)) p = None, ''LIKE_USER_RESTORE_INCOMPLETE''),
         (\<not> type_ok TString (s (KReady p)), ''LIKE_USER_RESTORE_POST_STATE''),
         (rget (s (KReady p)) = Some ''deleted'', ''LIKE_USER_RECOVERY_POST_DELETED'')]) members)"

definition finish_guards ::
  "string \<Rightarrow> string \<Rightarrow> string \<Rightarrow> int \<Rightarrow> int \<Rightarrow> bool \<Rightarrow> string list \<Rightarrow> lstore \<Rightarrow> string option" where
  "finish_guards u token expected count max_rel enabled members s =
     (let temp = s (KUserLikesRestoreTemp u token); torder = s (KUserLikesRestoreOrderTemp u token)
      in first_error
        ([(s (KUserLikesOrder u) \<noteq> None, ''LIKE_USER_RESTORE_TARGET_EXISTS''),
          (\<not> enabled, ''LIKE_USER_RECOVERY_DISABLED''),
          (rtype_of (s KUserLikesExpiryLedger) \<noteq> THash, ''LIKE_USER_LEDGER_TYPE''),
          (hget (s KUserLikesExpiryLedger) u \<noteq> Some expected, ''LIKE_USER_RECOVERY_LOCK_LOST''),
          (rget (s (KUserLikesRestoreLock u)) \<noteq> Some token, ''LIKE_USER_RECOVERY_LOCK_LOST''),
          (rtype_of temp \<noteq> TSet \<or> ''0'' |\<notin>| smembers temp, ''LIKE_USER_RESTORE_INCOMPLETE''),
          (\<not> type_ok TZset torder, ''LIKE_USER_ORDER_TYPE''),
          (count < 0, ''LIKE_USER_RESTORE_INCOMPLETE''),
          (count > max_rel, ''LIKE_USER_RECOVERY_TOO_LARGE''),
          (scard temp \<noteq> count + 1, ''LIKE_USER_RESTORE_INCOMPLETE''),
          ((count = 0 \<and> torder \<noteq> None) \<or> (count > 0 \<and> (torder = None \<or> zcard torder \<noteq> count)),
             ''LIKE_USER_RESTORE_INCOMPLETE'')] @ member_guards u token members s))"

definition arm_temp :: "string \<Rightarrow> string \<Rightarrow> bool \<Rightarrow> int \<Rightarrow> int \<Rightarrow> int \<Rightarrow> lstore \<Rightarrow> lstore" where
  "arm_temp u token arming now ttl count s =
     (if arming then
        (let s = at_key (KUserLikesRestoreTemp u token) (pexpireat now (now + ttl)) s;
             s = (if count > 0 then at_key (KUserLikesRestoreOrderTemp u token) (pexpireat now (now + ttl)) s else s)
         in at_key KUserLikesExpiryLedger (hset u (show_int (now + ttl))) s)
      else
        (let s = at_key (KUserLikesRestoreTemp u token) persist s;
             s = at_key (KUserLikesRestoreOrderTemp u token) persist s
         in at_key KUserLikesExpiryLedger (hdel u) s))"

definition finish_restore_script ::
  "string \<Rightarrow> string \<Rightarrow> string \<Rightarrow> int \<Rightarrow> int \<Rightarrow> bool \<Rightarrow> int \<Rightarrow> bool \<Rightarrow> string list \<Rightarrow> server_time \<Rightarrow> lstore \<Rightarrow>
   lstore \<times> user_status res" where
  "finish_restore_script u token expected count max_rel arming ttl enabled members t s =
     (case first_error
        [(\<not> type_ok TSet (s (KUserLikes u)), ''LIKE_USER_TYPE''),
         (\<not> type_ok TZset (s (KUserLikesOrder u)), ''LIKE_USER_ORDER_TYPE'')] of
        Some e \<Rightarrow> (s, Inl e)
      | None \<Rightarrow>
         (if s (KUserLikes u) \<noteq> None then
            (case first_error (present_guards u s) of
               Some e \<Rightarrow> (s, Inl e)
             | None \<Rightarrow>
                (if rget (s (KUserLikesRestoreLock u)) = Some token
                 then at_key (KUserLikesRestoreLock u) rdel s else s, Inr UReady))
          else
            (case finish_guards u token expected count max_rel enabled members s of
               Some e \<Rightarrow> (s, Inl e)
             | None \<Rightarrow>
                (let s1 = arm_temp u token arming (time_ms t) ttl count s;
                     s2 = rename (KUserLikesRestoreTemp u token) (KUserLikes u) s1;
                     s3 = (if count > 0 then rename (KUserLikesRestoreOrderTemp u token) (KUserLikesOrder u) s2 else s2)
                 in (at_key (KUserLikesRestoreLock u) rdel s3, Inr UInstalled)))))"

definition release_restore_lock_script :: "string \<Rightarrow> string \<Rightarrow> lstore \<Rightarrow> lstore \<times> bool res" where
  "release_restore_lock_script u token s =
     (if rget (s (KUserLikesRestoreLock u)) = Some token
      then (at_key (KUserLikesRestoreLock u) rdel s, Inr True) else (s, Inr False))"

section \<open>Expiry migration, rollback and ledger cleanup\<close>

definition migration_type_guards :: "string \<Rightarrow> lstore \<Rightarrow> (bool \<times> string) list" where
  "migration_type_guards u s =
     [(\<not> type_ok TSet (s (KUserLikes u)), ''LIKE_USER_TYPE''),
      (\<not> type_ok THash (s KUserLikesExpiryLedger), ''LIKE_USER_LEDGER_TYPE''),
      (\<not> type_ok TZset (s (KUserLikesOrder u)), ''LIKE_USER_ORDER_TYPE'')]"

text \<open>What migration and rollback answer for a user whose set is missing.\<close>

definition missing_user_status :: "string \<Rightarrow> int \<Rightarrow> lstore \<Rightarrow> (user_status \<times> string) res" where
  "missing_user_status u now s =
     (if s (KUserLikesOrder u) \<noteq> None then Inl ''LIKE_USER_ORDER_INCONSISTENT''
      else (case hget (s KUserLikesExpiryLedger) u of
              None \<Rightarrow> Inr (UMissing, '''')
            | Some v \<Rightarrow> if ledger_unsafe now v then Inl ''LIKE_USER_RECOVERY_UNSAFE'' else Inr (UCold, v)))"

definition migrate_expiry :: "string \<Rightarrow> int \<Rightarrow> int \<Rightarrow> lstore \<Rightarrow> int res" where
  "migrate_expiry u now ttl s =
     (let likes = s (KUserLikes u); order = s (KUserLikesOrder u); base = now + ttl
      in case hget (s KUserLikesExpiryLedger) u of
           Some v \<Rightarrow>
             (if \<not> digits_only v \<or> tonum v = 0 then Inl ''LIKE_USER_RECOVERY_UNSAFE''
              else (let e1 = max base (int (tonum v)); e2 = (if pttl now likes > 0 then max e1 (now + pttl now likes) else e1)
                    in if active_of likes > 0 \<and> abs (pttl now likes - pttl now order) > 1
                       then Inl ''LIKE_USER_ORDER_INCONSISTENT''
                       else Inr (if active_of likes > 0 \<and> pttl now order > 0 then max e2 (now + pttl now order) else e2)))
         | None \<Rightarrow>
             (let e2 = (if pttl now likes > 0 then max base (now + pttl now likes) else base)
              in if active_of likes > 0 \<and> abs (pttl now likes - pttl now order) > 1
                 then Inl ''LIKE_USER_ORDER_INCONSISTENT''
                 else Inr (if active_of likes > 0 \<and> pttl now order > 0 then max e2 (now + pttl now order) else e2)))"

definition migrate_user_ttl_script ::
  "string \<Rightarrow> int \<Rightarrow> server_time \<Rightarrow> lstore \<Rightarrow> lstore \<times> (user_status \<times> string) res" where
  "migrate_user_ttl_script u ttl t s =
     (let now = time_ms t
      in case first_error (migration_type_guards u s) of
           Some e \<Rightarrow> (s, Inl e)
         | None \<Rightarrow>
            (if s (KUserLikes u) = None then (s, missing_user_status u now s)
             else
               (case first_error (present_guards u s) of
                  Some e \<Rightarrow> (s, Inl e)
                | None \<Rightarrow>
                   (case migrate_expiry u now ttl s of
                      Inl e \<Rightarrow> (s, Inl e)
                    | Inr at \<Rightarrow>
                       (refresh_user_ttl u True now (at - now) (active_of (s (KUserLikes u)) > 0) s,
                        Inr (UArmed, show_int at))))))"

definition rollback_user_ttl_script ::
  "string \<Rightarrow> server_time \<Rightarrow> lstore \<Rightarrow> lstore \<times> (user_status \<times> string) res" where
  "rollback_user_ttl_script u t s =
     (let now = time_ms t
      in case first_error (migration_type_guards u s) of
           Some e \<Rightarrow> (s, Inl e)
         | None \<Rightarrow>
            (if s (KUserLikes u) = None then (s, missing_user_status u now s)
             else
               (case first_error (present_guards u s) of
                  Some e \<Rightarrow> (s, Inl e)
                | None \<Rightarrow> (refresh_user_ttl u False now 0 False s, Inr (UPersisted, '''')))))"

definition cleanup_orphan_ledger_script :: "string \<Rightarrow> string \<Rightarrow> lstore \<Rightarrow> lstore \<times> bool res" where
  "cleanup_orphan_ledger_script u expected s =
     (case first_error
        [(\<not> type_ok TSet (s (KUserLikes u)), ''LIKE_USER_TYPE''),
         (rtype_of (s KUserLikesExpiryLedger) \<noteq> THash, ''LIKE_USER_LEDGER_TYPE''),
         (\<not> type_ok TZset (s (KUserLikesOrder u)), ''LIKE_USER_ORDER_TYPE''),
         (s (KUserLikes u) \<noteq> None \<or> s (KUserLikesOrder u) \<noteq> None, ''LIKE_USER_ORPHAN_SET_PRESENT''),
         (hget (s KUserLikesExpiryLedger) u \<noteq> Some expected, ''LIKE_USER_RECOVERY_LOCK_LOST'')] of
        Some e \<Rightarrow> (s, Inl e)
      | None \<Rightarrow> (at_key KUserLikesExpiryLedger (hdel u) s, Inr True))"

definition cleanup_uncommitted_script :: "string \<Rightarrow> lstore \<Rightarrow> lstore \<times> bool res" where
  "cleanup_uncommitted_script u s =
     (case first_error
        [(\<not> type_ok TSet (s (KUserLikes u)), ''LIKE_USER_TYPE''),
         (\<not> type_ok THash (s KUserLikesExpiryLedger), ''LIKE_USER_LEDGER_TYPE''),
         (s (KUserLikesOrder u) \<noteq> None, ''LIKE_USER_RECOVERY_UNSAFE'')] of
        Some e \<Rightarrow> (s, Inl e)
      | None \<Rightarrow>
         (if s (KUserLikes u) = None then (s, Inr False)
          else if ''0'' |\<notin>| smembers (s (KUserLikes u)) \<or> scard (s (KUserLikes u)) \<noteq> 1
          then (s, Inl ''LIKE_USER_RECOVERY_UNSAFE'')
          else
            (let s1 = at_key (KUserLikes u) rdel s
             in (if s1 KUserLikesExpiryLedger \<noteq> None then at_key KUserLikesExpiryLedger (hdel u) s1 else s1, Inr True))))"

section \<open>The ledger agrees with the expiry of the set\<close>

definition ledger_inv :: "string \<Rightarrow> lstore \<Rightarrow> bool" where
  "ledger_inv u s \<longleftrightarrow>
     (case s (KUserLikes u) of
        None \<Rightarrow> True
      | Some (_, None) \<Rightarrow> hget (s KUserLikesExpiryLedger) u = None
      | Some (_, Some x) \<Rightarrow> hget (s KUserLikesExpiryLedger) u = Some (show_int x) \<and> 0 < x)"

definition user_ok :: "int \<Rightarrow> string \<Rightarrow> lstore \<Rightarrow> bool" where
  "user_ok cap u s \<longleftrightarrow> user_inv cap u s \<and> ledger_inv u s"

definition ledger_typed :: "lstore \<Rightarrow> bool" where
  "ledger_typed s \<longleftrightarrow> type_ok THash (s KUserLikesExpiryLedger) \<and> rexpiry (s KUserLikesExpiryLedger) = None"

lemma user_ok_cong:
  assumes "s' (KUserLikes u) = s (KUserLikes u)" "s' (KUserLikesOrder u) = s (KUserLikesOrder u)"
    "hget (s' KUserLikesExpiryLedger) u = hget (s KUserLikesExpiryLedger) u"
  shows "user_ok cap u s' = user_ok cap u s"
  unfolding user_ok_def user_inv_def ledger_inv_def assms ..

lemma time_ms_nonneg [simp]: "0 \<le> time_ms t"
  by (simp add: time_ms_def)

lemma refresh_ledger:
  "refresh_user_ttl u arming now ttl h s KUserLikesExpiryLedger =
     (if arming then hset u (show_int (now + ttl)) (s KUserLikesExpiryLedger) else hdel u (s KUserLikesExpiryLedger))"
  by (simp add: refresh_user_ttl_def Let_def)

lemma refresh_ledger_typed: "ledger_typed s \<Longrightarrow> ledger_typed (refresh_user_ttl u arming now ttl h s)"
  by (simp add: ledger_typed_def refresh_ledger type_ok_hset type_ok_hdel)

lemma refresh_ledger_other:
  assumes "ledger_typed s" "x \<noteq> u"
  shows "hget (refresh_user_ttl u arming now ttl h s KUserLikesExpiryLedger) x = hget (s KUserLikesExpiryLedger) x"
  using assms by (simp add: ledger_typed_def refresh_ledger hmap_hset hmap_hdel)

lemma refresh_ledger_inv:
  assumes "ledger_typed s" "0 \<le> now" "arming \<Longrightarrow> 0 < ttl"
  shows "ledger_inv u (refresh_user_ttl u arming now ttl h s)"
  using assms
  by (cases "s (KUserLikes u)")
    (auto simp: ledger_inv_def refresh_user_ttl_likes refresh_ledger ledger_typed_def hmap_hset hmap_hdel)

lemma refresh_user_ok:
  assumes "ledger_typed s" "0 \<le> now" "0 < ttl"
    and "rel_ok (s (KUserLikes u)) (s (KUserLikesOrder u))" "active_of (s (KUserLikes u)) \<le> cap"
    and "h \<longleftrightarrow> active_of (s (KUserLikes u)) > 0"
  shows "user_ok cap u (refresh_user_ttl u arming now ttl h s)"
  using assms by (simp add: user_ok_def refresh_user_ttl_inv' refresh_ledger_inv)

lemma refresh_user_ok_other:
  assumes "ledger_typed s" "x \<noteq> u"
  shows "user_ok cap x (refresh_user_ttl u arming now ttl h s) = user_ok cap x s"
  using assms by (intro user_ok_cong) (simp_all add: refresh_ledger_other)

section \<open>Every script keeps the invariant\<close>

lemma user_inv_rel:
  assumes "user_inv cap u s" and "s (KUserLikes u) \<noteq> None"
  shows "rel_ok (s (KUserLikes u)) (s (KUserLikesOrder u))" "active_of (s (KUserLikes u)) \<le> cap"
    "s (KUserLikesOrder u) \<noteq> None \<longleftrightarrow> active_of (s (KUserLikes u)) > 0"
proof -
  show r: "rel_ok (s (KUserLikes u)) (s (KUserLikesOrder u))" and "active_of (s (KUserLikes u)) \<le> cap"
    using assms by (simp_all add: user_inv_def Let_def rel_ok_def)
  from r show "s (KUserLikesOrder u) \<noteq> None \<longleftrightarrow> active_of (s (KUserLikes u)) > 0"
    by (simp add: rel_ok_def active_pos_iff proper_zset_absent_iff)
qed

text \<open>A script that does not touch a user's keys nor the user's ledger field.\<close>

definition user_frame :: "string \<Rightarrow> lstore \<Rightarrow> lstore \<Rightarrow> bool" where
  "user_frame u s s' \<longleftrightarrow>
     (\<forall>x. x \<noteq> u \<longrightarrow> s' (KUserLikes x) = s (KUserLikes x) \<and> s' (KUserLikesOrder x) = s (KUserLikesOrder x) \<and>
        hget (s' KUserLikesExpiryLedger) x = hget (s KUserLikesExpiryLedger) x)"

lemma user_frame_refl [simp]: "user_frame u s s"
  by (simp add: user_frame_def)

lemma user_frame_ok: "user_frame u s s' \<Longrightarrow> x \<noteq> u \<Longrightarrow> user_ok cap x s' = user_ok cap x s"
  by (intro user_ok_cong) (simp_all add: user_frame_def)

lemma refresh_frame: "ledger_typed s \<Longrightarrow> user_frame u s (refresh_user_ttl u arming now ttl h s)"
  by (simp add: user_frame_def refresh_ledger_other)

text \<open>
  What a step of the system owes: the invariant of every user, and the ledger's type.
\<close>

definition system_ok :: "int \<Rightarrow> lstore \<Rightarrow> bool" where
  "system_ok cap s \<longleftrightarrow> ledger_typed s \<and> (\<forall>u. user_ok cap u s)"

lemma system_okI:
  assumes "system_ok cap s" "ledger_typed s'" "user_frame u s s'" "user_ok cap u s'"
  shows "system_ok cap s'"
  unfolding system_ok_def
proof (intro conjI allI)
  fix x show "user_ok cap x s'"
    using assms by (cases "x = u") (auto simp: system_ok_def user_frame_ok)
qed (fact assms(2))

lemma mutate_system_ok:
  assumes ok: "system_ok cap s" and ttl: "0 < ttl"
    and run: "mutate_script u p liked now_ms ttl arming cap t s = (s', r)"
  shows "system_ok cap s'"
proof (cases r)
  case (Inl e)
  with ok run mutate_Inl_frame show ?thesis by blast
next
  case (Inr rep)
  from run Inr have run': "mutate_script u p liked now_ms ttl arming cap t s = (s', Inr rep)" by simp
  obtain s2 h where s2: "s' = refresh_user_ttl u arming (time_ms t) ttl h s2"
      "s2 KUserLikesExpiryLedger = s KUserLikesExpiryLedger"
      "\<And>x. x \<noteq> u \<Longrightarrow> s2 (KUserLikes x) = s (KUserLikes x)"
      "\<And>x. x \<noteq> u \<Longrightarrow> s2 (KUserLikesOrder x) = s (KUserLikesOrder x)"
    using run'
  proof (cases rule: mutate_script_Inr_cases)
    case unchanged
    then show ?thesis by (intro that [of _ s]) auto
  next
    case (liked plan)
    show ?thesis
      by (rule that [OF liked(6)]) (auto simp: apply_eviction_def split: option.splits)
  next
    case unliked
    show ?thesis by (rule that [OF unliked(5)]) simp_all
  qed
  have ty: "ledger_typed s2" using ok s2(2) by (simp add: system_ok_def ledger_typed_def)
  have ui: "user_inv cap u s" using ok by (simp add: system_ok_def user_ok_def)
  show ?thesis
  proof (rule system_okI [OF ok])
    show "ledger_typed s'" unfolding s2(1) by (rule refresh_ledger_typed [OF ty])
    show "user_frame u s s'"
      using refresh_frame [OF ty, of u arming "time_ms t" ttl h] s2 by (simp add: user_frame_def)
    show "user_ok cap u s'"
      using mutate_user_inv [OF ui ui ttl run] refresh_ledger_inv [OF ty, of "time_ms t" arming ttl u h] ttl
      by (simp add: user_ok_def s2(1))
  qed
qed

lemma init_empty_system_ok:
  assumes ok: "system_ok cap s" and ttl: "0 < ttl" "0 \<le> cap"
    and run: "initialize_user_empty_script u arming ttl t s = (s', r)"
  shows "system_ok cap s'"
proof (cases r)
  case (Inl e)
  with ok run show ?thesis
    by (auto simp: initialize_user_empty_script_def Let_def split: option.splits)
next
  case (Inr b)
  define s1 where "s1 = (if s (KUserLikes u) = None then at_key (KUserLikes u) (sadd ''0'') s else s)"
  have s': "s' = refresh_user_ttl u arming (time_ms t) ttl (s (KUserLikesOrder u) \<noteq> None) s1"
    using run Inr by (auto simp: initialize_user_empty_script_def Let_def s1_def split: option.splits)
  have ui: "user_inv cap u s" using ok by (simp add: system_ok_def user_ok_def)
  have ty: "ledger_typed s1" using ok by (simp add: s1_def system_ok_def ledger_typed_def)
  have rel: "rel_ok (s1 (KUserLikes u)) (s1 (KUserLikesOrder u)) \<and> active_of (s1 (KUserLikes u)) \<le> cap \<and>
      (s (KUserLikesOrder u) \<noteq> None \<longleftrightarrow> active_of (s1 (KUserLikes u)) > 0)"
  proof (cases "s (KUserLikes u) = None")
    case True
    with ui have "s (KUserLikesOrder u) = None" by (simp add: user_inv_def)
    with True ttl(2) show ?thesis
      by (simp add: s1_def rel_ok_def active_of_def relations_def type_ok_def)
  next
    case False
    with user_inv_rel [OF ui False] show ?thesis by (simp add: s1_def del: not_None_eq)
  qed
  show ?thesis
  proof (rule system_okI [OF ok])
    show "ledger_typed s'" unfolding s' by (rule refresh_ledger_typed [OF ty])
    show "user_frame u s s'"
      using refresh_frame [OF ty, of u arming "time_ms t" ttl "s (KUserLikesOrder u) \<noteq> None"]
      unfolding s' by (simp add: user_frame_def s1_def del: not_None_eq)
    show "user_ok cap u s'"
      unfolding s' using rel ty ttl(1) by (intro refresh_user_ok) simp_all
  qed
qed

lemma remove_relation_user_ok:
  assumes "user_ok cap u s" "s (KUserLikes u) \<noteq> None" "p \<noteq> ''0''"
  shows "user_ok cap u (remove_relation u p s) \<and> remove_relation u p s (KUserLikes u) \<noteq> None"
proof -
  have ui: "user_inv cap u s" and li: "ledger_inv u s" using assms(1) by (simp_all add: user_ok_def)
  note r = user_inv_rel [OF ui assms(2)]
  note rm = rel_ok_remove [OF r(1) assms(3)]
  have ne: "srem p (s (KUserLikes u)) \<noteq> None"
    using rm(1) by (cases "srem p (s (KUserLikes u))") (simp_all add: rel_ok_def)
  have ex: "rexpiry (srem p (s (KUserLikes u))) = rexpiry (s (KUserLikes u))"
    "\<exists>v. srem p (s (KUserLikes u)) = Some (v, rexpiry (s (KUserLikes u)))"
    using ne by (cases "(p, s (KUserLikes u))" rule: srem.cases; auto split: if_splits)+
  have ox: "zrem p (s (KUserLikesOrder u)) \<noteq> None \<Longrightarrow>
      s (KUserLikesOrder u) \<noteq> None \<and> rexpiry (zrem p (s (KUserLikesOrder u))) = rexpiry (s (KUserLikesOrder u))"
    by (cases "(p, s (KUserLikesOrder u))" rule: zrem.cases) (auto split: if_splits)
  have same: "s (KUserLikesOrder u) \<noteq> None \<Longrightarrow> rexpiry (s (KUserLikesOrder u)) = rexpiry (s (KUserLikes u))"
    using ui assms(2) by (simp add: user_inv_def Let_def)
  have act: "active_of (srem p (s (KUserLikes u))) \<le> cap"
  proof -
    have "fcard (smembers (s (KUserLikes u)) |-| {|p|}) \<le> fcard (smembers (s (KUserLikes u)))"
      by (simp add: fcard.rep_eq card_Diff1_le)
    then have "active_of (srem p (s (KUserLikes u))) \<le> active_of (s (KUserLikes u))"
      unfolding active_of_def smembers_srem by linarith
    with r(2) show ?thesis by simp
  qed
  have "user_inv cap u (remove_relation u p s)"
    using rm(1) ne ex(1) ox same act
    by (simp add: user_inv_def Let_def rel_ok_def del: not_None_eq)
  moreover have "ledger_inv u (remove_relation u p s)"
    using li ex(2) assms(2) by (auto simp: ledger_inv_def split: option.splits prod.splits)
  ultimately show ?thesis using ne by (simp add: user_ok_def)
qed

lemma remove_all_ok:
  assumes "remove_all u rem s n = (s', m)" "user_ok cap u s" "s (KUserLikes u) \<noteq> None" "''0'' \<notin> set rem"
    "ledger_typed s"
  shows "user_ok cap u s' \<and> user_frame u s s' \<and> ledger_typed s'"
  using assms
proof (induction u rem s n rule: remove_all.induct)
  case (1 u s n)
  then show ?case by simp
next
  case (2 u p ps s n)
  let ?s = "remove_relation u p s"
  have p: "p \<noteq> ''0''" using "2.prems"(4) by auto
  note st = remove_relation_user_ok [OF "2.prems"(2,3) p]
  have fr: "user_frame u s ?s" "ledger_typed ?s"
    using "2.prems"(5) by (simp_all add: user_frame_def ledger_typed_def)
  from "2.IH" "2.prems" st fr have "user_ok cap u s' \<and> user_frame u ?s s' \<and> ledger_typed s'"
    by simp
  with fr show ?case by (simp add: user_frame_def)
qed

lemma collect_removals_ok:
  assumes "collect_removals u s ids rem iss = Inr (rem', iss')" "''0'' \<notin> set rem"
  shows "''0'' \<notin> set rem'"
  using assms by (induction u s ids rem iss rule: collect_removals.induct) (auto split: if_splits)

lemma remove_deleted_system_ok:
  assumes ok: "system_ok cap s" and run: "remove_deleted_relations_script u ids s = (s', r)"
  shows "system_ok cap s'"
proof (cases r)
  case (Inl e)
  with run ok show ?thesis
    by (auto simp: remove_deleted_relations_script_def split: option.splits sum.splits prod.splits)
next
  case (Inr x)
  obtain rem iss n where c: "collect_removals u s ids [] [] = Inr (rem, iss)"
    and ra: "remove_all u rem s 0 = (s', n)" and ne: "s (KUserLikes u) \<noteq> None"
    using run Inr
    by (auto simp: remove_deleted_relations_script_def user_read_guards_def split: option.splits sum.splits prod.splits if_splits)
  have "''0'' \<notin> set rem" using collect_removals_ok [OF c] by simp
  with remove_all_ok [OF ra _ ne] ok show ?thesis
    using system_okI [OF ok] by (metis system_ok_def)
qed

lemma finish_relations:
  assumes g: "finish_guards u token expected count max_rel enabled members s = None"
    and mem: "set members = fset (smembers (s (KUserLikesRestoreTemp u token)))"
  shows "rel_ok (s (KUserLikesRestoreTemp u token)) (s (KUserLikesRestoreOrderTemp u token))"
    "active_of (s (KUserLikesRestoreTemp u token)) = count" "count \<le> max_rel" "0 \<le> count"
    "s (KUserLikesRestoreOrderTemp u token) \<noteq> None \<longleftrightarrow> count > 0"
    "s (KUserLikesOrder u) = None" "rtype_of (s KUserLikesExpiryLedger) = THash"
    "\<And>p. p |\<in>| relations (s (KUserLikesRestoreTemp u token)) \<Longrightarrow> rget (s (KReady p)) \<noteq> Some ''deleted''"
proof -
  let ?T = "s (KUserLikesRestoreTemp u token)" and ?O = "s (KUserLikesRestoreOrderTemp u token)"
  have all: "\<forall>(c, e) \<in> set (member_guards u token members s). \<not> c"
    and b: "s (KUserLikesOrder u) = None" "rtype_of (s KUserLikesExpiryLedger) = THash"
      "rtype_of ?T = TSet" "''0'' |\<in>| smembers ?T" "type_ok TZset ?O" "0 \<le> count" "count \<le> max_rel"
      "scard ?T = count + 1" "(count = 0 \<longrightarrow> ?O = None) \<and> (count > 0 \<longrightarrow> ?O \<noteq> None \<and> zcard ?O = count)"
    using g unfolding finish_guards_def Let_def first_error_None_iff by (auto simp: ball_Un simp del: not_None_eq)
  have m: "zscore ?O p \<noteq> None \<and> rget (s (KReady p)) \<noteq> Some ''deleted''" if "p |\<in>| relations ?T" for p
  proof -
    from that have "p \<in> set members" "p \<noteq> ''0''" using mem by (auto simp: relations_def)
    with all show ?thesis unfolding member_guards_def by fastforce
  qed
  have act: "active_of ?T = count" using b(8) by (simp add: active_of_def)
  have sub: "relations ?T |\<subseteq>| zdom ?O" using m by (auto simp: fmlookup_dom_iff)
  have "int (fcard (relations ?T)) = count" using act b(4) by (simp add: active_of_relations)
  moreover have "zcard ?O = count" using b(6,9) by (cases "count = 0") auto
  ultimately have "relations ?T = zdom ?O"
    using sub by (metis card_subset_eq fcard.rep_eq finite_fset fset_inject less_eq_fset.rep_eq of_nat_eq_iff)
  moreover have "proper ?O"
  proof (cases "count = 0")
    case True
    with b(9) show ?thesis by simp
  next
    case False
    with b(6,9) have "zdom ?O \<noteq> {||}" by auto
    then show ?thesis by (cases "?O" rule: zmap.cases) (auto simp: proper_def)
  qed
  ultimately show "rel_ok ?T ?O" using b by (simp add: rel_ok_def)
  show "active_of ?T = count" "count \<le> max_rel" "0 \<le> count" "?O \<noteq> None \<longleftrightarrow> count > 0" "s (KUserLikesOrder u) = None"
    "rtype_of (s KUserLikesExpiryLedger) = THash"
    "\<And>p. p |\<in>| relations ?T \<Longrightarrow> rget (s (KReady p)) \<noteq> Some ''deleted''"
    using act b m by auto
qed

lemma arm_temp_reads:
  fixes u token arming now count
  assumes "0 < ttl" "ledger_typed s"
  defines "s1 \<equiv> arm_temp u token arming now ttl count s"
  shows "s1 (KUserLikes x) = s (KUserLikes x)" "s1 (KUserLikesOrder x) = s (KUserLikesOrder x)"
    "s1 (KUserLikesRestoreTemp u token) =
       (if arming then pexpireat now (now + ttl) else persist) (s (KUserLikesRestoreTemp u token))"
    "s1 (KUserLikesRestoreOrderTemp u token) =
       (if \<not> arming then persist (s (KUserLikesRestoreOrderTemp u token))
        else if count > 0 then pexpireat now (now + ttl) (s (KUserLikesRestoreOrderTemp u token))
        else s (KUserLikesRestoreOrderTemp u token))"
    "hget (s1 KUserLikesExpiryLedger) x =
       (if x = u then (if arming then Some (show_int (now + ttl)) else None) else hget (s KUserLikesExpiryLedger) x)"
    "ledger_typed s1"
proof -
  have "type_ok THash (s KUserLikesExpiryLedger)" "rexpiry (s KUserLikesExpiryLedger) = None"
    using assms(2) by (simp_all add: ledger_typed_def)
  then show "s1 (KUserLikes x) = s (KUserLikes x)" "s1 (KUserLikesOrder x) = s (KUserLikesOrder x)"
    "s1 (KUserLikesRestoreTemp u token) =
       (if arming then pexpireat now (now + ttl) else persist) (s (KUserLikesRestoreTemp u token))"
    "s1 (KUserLikesRestoreOrderTemp u token) =
       (if \<not> arming then persist (s (KUserLikesRestoreOrderTemp u token))
        else if count > 0 then pexpireat now (now + ttl) (s (KUserLikesRestoreOrderTemp u token))
        else s (KUserLikesRestoreOrderTemp u token))"
    "hget (s1 KUserLikesExpiryLedger) x =
       (if x = u then (if arming then Some (show_int (now + ttl)) else None) else hget (s KUserLikesExpiryLedger) x)"
    "ledger_typed s1"
    by (simp_all add: s1_def arm_temp_def Let_def hmap_hset hmap_hdel ledger_typed_def type_ok_hset type_ok_hdel)
qed

text \<open>
  An installed restore: the temporary set and index became the user's, with one expiry and the
  ledger to match, and the lock is gone.
\<close>

lemma finish_installed:
  assumes run: "finish_restore_script u token expected count max_rel arming ttl enabled members t s = (s', Inr UInstalled)"
    and ttl: "0 < ttl" and mem: "set members = fset (smembers (s (KUserLikesRestoreTemp u token)))"
    and typed: "ledger_typed s"
  shows "finish_guards u token expected count max_rel enabled members s = None" "s (KUserLikes u) = None"
    "user_ok max_rel u s'" "user_frame u s s'" "ledger_typed s'"
    "relations (s' (KUserLikes u)) = relations (s (KUserLikesRestoreTemp u token))"
    "zmap (s' (KUserLikesOrder u)) = zmap (s (KUserLikesRestoreOrderTemp u token))"
    "s' (KUserLikesRestoreLock u) = None"
    "smembers (s' (KUserLikes u)) = smembers (s (KUserLikesRestoreTemp u token))"
proof -
  show none: "s (KUserLikes u) = None" and g: "finish_guards u token expected count max_rel enabled members s = None"
    using run by (auto simp: finish_restore_script_def split: option.splits if_splits simp del: not_None_eq)
  note f = finish_relations [OF g mem]
  let ?T = "s (KUserLikesRestoreTemp u token)" and ?O = "s (KUserLikesRestoreOrderTemp u token)"
  define s1 where "s1 = arm_temp u token arming (time_ms t) ttl count s"
  have s': "s' = at_key (KUserLikesRestoreLock u) rdel
      (if count > 0 then rename (KUserLikesRestoreOrderTemp u token) (KUserLikesOrder u)
          (rename (KUserLikesRestoreTemp u token) (KUserLikes u) s1)
       else rename (KUserLikesRestoreTemp u token) (KUserLikes u) s1)"
    using run none g by (auto simp: finish_restore_script_def s1_def Let_def split: option.splits if_splits)
  note a = arm_temp_reads [where u = u and token = token and arming = arming and now = "time_ms t" and
      count = count, OF ttl typed, folded s1_def]
  have lt: "time_ms t < time_ms t + ttl" using ttl by simp
  note px = pexpireat_reads [OF lt]
  have l: "s' (KUserLikes u) = s1 (KUserLikesRestoreTemp u token)"
    by (simp add: s' rename_def)
  have o: "s' (KUserLikesOrder u) = (if count > 0 then s1 (KUserLikesRestoreOrderTemp u token) else None)"
    using f(6) by (simp add: s' rename_def a)
  have led: "s' KUserLikesExpiryLedger = s1 KUserLikesExpiryLedger" by (simp add: s' rename_def)
  show "s' (KUserLikesRestoreLock u) = None" by (simp add: s')
  show "ledger_typed s'" using a(6) led by (simp add: ledger_typed_def)
  show "user_frame u s s'" using a(1,2,5) led by (auto simp: user_frame_def s' rename_def)
  have ne: "?T \<noteq> None" using f(1) by (cases ?T) (auto simp: rel_ok_def)
  show sm: "smembers (s' (KUserLikes u)) = smembers ?T" by (simp add: l a(3) px)
  then show "relations (s' (KUserLikes u)) = relations ?T" by (simp add: relations_def)
  show zm: "zmap (s' (KUserLikesOrder u)) = zmap ?O"
  proof (cases "count > 0")
    case False
    with f(5) have "?O = None" by blast
    with False show ?thesis by (simp add: o)
  qed (simp add: o a(4) px)
  have "user_inv max_rel u s'"
    using f(1-3,5) ne sm zm px unfolding user_inv_def Let_def l o
    by (auto simp: a(3,4) rel_ok_def active_of_def relations_def proper_writes)
  moreover have "0 < time_ms t + ttl" using ttl time_ms_nonneg [of t] by linarith
  then have "ledger_inv u s'"
    using ne lt unfolding ledger_inv_def l led a(5)
    by (cases ?T) (auto simp: a(3))
  ultimately show "user_ok max_rel u s'" by (simp add: user_ok_def)
qed

lemma user_ok_mono: "user_ok m u s \<Longrightarrow> m \<le> cap \<Longrightarrow> user_ok cap u s"
  by (auto simp: user_ok_def user_inv_def Let_def)

lemma finish_system_ok:
  assumes ok: "system_ok cap s" and le: "max_rel \<le> cap" and ttl: "0 < ttl"
    and mem: "set members = fset (smembers (s (KUserLikesRestoreTemp u token)))"
    and run: "finish_restore_script u token expected count max_rel arming ttl enabled members t s = (s', r)"
  shows "system_ok cap s'"
proof (cases "r = Inr UInstalled")
  case True
  have "ledger_typed s" using ok by (simp add: system_ok_def)
  note f = finish_installed [OF run [unfolded True] ttl mem this]
  show ?thesis by (rule system_okI [OF ok f(5,4) user_ok_mono [OF f(3) le]])
next
  case False
  have "s' = s \<or> s' = at_key (KUserLikesRestoreLock u) rdel s"
    using run False by (auto simp: finish_restore_script_def Let_def split: option.splits if_splits)
  then have fr: "user_frame u s s'" "ledger_typed s' = ledger_typed s"
    "s' (KUserLikes u) = s (KUserLikes u)" "s' (KUserLikesOrder u) = s (KUserLikesOrder u)"
    "s' KUserLikesExpiryLedger = s KUserLikesExpiryLedger"
    by (auto simp: user_frame_def ledger_typed_def)
  then have "user_ok cap u s' = user_ok cap u s" by (intro user_ok_cong) simp_all
  with ok fr show ?thesis by (metis system_okI system_ok_def)
qed

lemma migrate_expiry_bounds:
  assumes "migrate_expiry u now ttl s = Inr at"
  shows "now + ttl \<le> at" "pttl now (s (KUserLikes u)) > 0 \<Longrightarrow> now + pttl now (s (KUserLikes u)) \<le> at"
    "hget (s KUserLikesExpiryLedger) u = Some v \<Longrightarrow> int (tonum v) \<le> at"
  using assms by (auto simp: migrate_expiry_def Let_def split: option.splits if_splits)

lemma migrate_system_ok:
  assumes ok: "system_ok cap s" and ttl: "0 < ttl" and run: "migrate_user_ttl_script u ttl t s = (s', r)"
  shows "system_ok cap s'"
proof (cases "s' = s")
  case False
  then obtain at where at: "migrate_expiry u (time_ms t) ttl s = Inr at"
    and s': "s' = refresh_user_ttl u True (time_ms t) (at - time_ms t) (active_of (s (KUserLikes u)) > 0) s"
    and ne: "s (KUserLikes u) \<noteq> None"
    using run by (auto simp: migrate_user_ttl_script_def Let_def split: option.splits if_splits sum.splits simp del: not_None_eq)
  have pos: "0 < at - time_ms t" using migrate_expiry_bounds(1) [OF at] ttl by simp
  have ty: "ledger_typed s" and ui: "user_inv cap u s" using ok by (simp_all add: system_ok_def user_ok_def)
  note r = user_inv_rel [OF ui ne]
  show ?thesis
  proof (rule system_okI [OF ok])
    show "ledger_typed s'" unfolding s' by (rule refresh_ledger_typed [OF ty])
    show "user_frame u s s'" unfolding s' by (rule refresh_frame [OF ty])
    show "user_ok cap u s'" unfolding s' using r ty pos by (intro refresh_user_ok) simp_all
  qed
qed (use ok in simp)

lemma rollback_system_ok:
  assumes ok: "system_ok cap s" and run: "rollback_user_ttl_script u t s = (s', r)"
  shows "system_ok cap s'"
proof (cases "s' = s")
  case False
  then have s': "s' = refresh_user_ttl u False (time_ms t) 0 False s" and ne: "s (KUserLikes u) \<noteq> None"
    using run by (auto simp: rollback_user_ttl_script_def Let_def split: option.splits if_splits)
  have s'': "s' = refresh_user_ttl u False (time_ms t) 1 (active_of (s (KUserLikes u)) > 0) s"
    by (simp add: s' refresh_user_ttl_def)
  have ty: "ledger_typed s" and ui: "user_inv cap u s" using ok by (simp_all add: system_ok_def user_ok_def)
  show ?thesis
  proof (rule system_okI [OF ok])
    show "ledger_typed s'" unfolding s' by (rule refresh_ledger_typed [OF ty])
    show "user_frame u s s'" unfolding s' by (rule refresh_frame [OF ty])
    show "user_ok cap u s'" unfolding s'' using user_inv_rel [OF ui ne] ty by (intro refresh_user_ok) simp_all
  qed
qed (use ok in simp)

lemma cleanup_uncommitted_system_ok:
  assumes ok: "system_ok cap s" and run: "cleanup_uncommitted_script u s = (s', r)"
  shows "system_ok cap s'"
proof (cases "s' = s")
  case False
  then have c: "s' (KUserLikes u) = None" "s' (KUserLikesOrder u) = None" "ledger_typed s'" "user_frame u s s'"
    using run ok [unfolded system_ok_def]
    by (auto simp: cleanup_uncommitted_script_def Let_def ledger_typed_def user_frame_def type_ok_hdel hmap_hdel
        split: option.splits if_splits)
  show ?thesis
    by (rule system_okI [OF ok c(3,4)]) (simp add: user_ok_def user_inv_def ledger_inv_def c(1,2))
qed (use ok in simp)

lemma cleanup_orphan_system_ok:
  assumes ok: "system_ok cap s" and run: "cleanup_orphan_ledger_script u expected s = (s', r)"
  shows "system_ok cap s'"
proof (cases "s' = s")
  case False
  then have s': "s' = at_key KUserLikesExpiryLedger (hdel u) s"
    and none: "s (KUserLikes u) = None" "s (KUserLikesOrder u) = None"
    using run by (auto simp: cleanup_orphan_ledger_script_def simp del: not_None_eq split: option.splits if_splits)
  then have c: "s' (KUserLikes u) = None" "s' (KUserLikesOrder u) = None" "ledger_typed s'" "user_frame u s s'"
    using ok by (simp_all add: system_ok_def ledger_typed_def user_frame_def type_ok_hdel hmap_hdel)
  show ?thesis
    by (rule system_okI [OF ok c(3,4)]) (simp add: user_ok_def user_inv_def ledger_inv_def c(1,2))
qed (use ok in simp)

text \<open>A step that leaves every user's set, index and ledger field alone.\<close>

lemma quiet_system_ok:
  assumes "system_ok cap s" "\<And>x. s' (KUserLikes x) = s (KUserLikes x)"
    "\<And>x. s' (KUserLikesOrder x) = s (KUserLikesOrder x)" "s' KUserLikesExpiryLedger = s KUserLikesExpiryLedger"
  shows "system_ok cap s'"
  using assms user_ok_cong [of s' _ s cap] by (simp add: system_ok_def ledger_typed_def)

lemma append_all_quiet:
  "append_all u token rels s (KUserLikes x) = s (KUserLikes x)"
  "append_all u token rels s (KUserLikesOrder x) = s (KUserLikesOrder x)"
  "append_all u token rels s KUserLikesExpiryLedger = s KUserLikesExpiryLedger"
  by (induction u token rels s rule: append_all.induct) simp_all

lemma restore_steps_quiet:
  "system_ok cap s \<Longrightarrow> begin_restore_script u token lock_ttl t s = (s', r) \<Longrightarrow> system_ok cap s'"
  "system_ok cap s \<Longrightarrow> create_temp_script u token expected ttl t s = (s', r1) \<Longrightarrow> system_ok cap s'"
  "system_ok cap s \<Longrightarrow> append_temp_script u token rels now s = (s', r2) \<Longrightarrow> system_ok cap s'"
  "system_ok cap s \<Longrightarrow> release_restore_lock_script u token s = (s', r3) \<Longrightarrow> system_ok cap s'"
proof -
  show "system_ok cap s'" if "system_ok cap s" "begin_restore_script u token lock_ttl t s = (s', r)"
    using that(2)
    by (intro quiet_system_ok [OF that(1)])
      (auto simp: begin_restore_script_def Let_def split: option.splits if_splits)
  show "system_ok cap s'" if "system_ok cap s" "create_temp_script u token expected ttl t s = (s', r1)"
    using that(2)
    by (intro quiet_system_ok [OF that(1)]) (auto simp: create_temp_script_def split: option.splits)
  show "system_ok cap s'" if "system_ok cap s" "append_temp_script u token rels now s = (s', r2)"
    using that(2)
    by (intro quiet_system_ok [OF that(1)])
      (auto simp: append_temp_script_def Let_def append_all_quiet split: option.splits)
  show "system_ok cap s'" if "system_ok cap s" "release_restore_lock_script u token s = (s', r3)"
    using that(2)
    by (intro quiet_system_ok [OF that(1)]) (auto simp: release_restore_lock_script_def split: if_splits)
qed

lemma live_system_ok:
  assumes ok: "system_ok cap s"
  shows "system_ok cap (live now s)"
proof -
  have led: "rexpiry (s KUserLikesExpiryLedger) = None" using ok by (simp add: system_ok_def ledger_typed_def)
  have l: "live now s KUserLikesExpiryLedger = s KUserLikesExpiryLedger"
    using led by (cases "(now, s KUserLikesExpiryLedger)" rule: live_entry.cases) (auto simp: live_def)
  have "ledger_inv u (live now s)" if "ledger_inv u s" for u
    using that live_cases [of now s "KUserLikes u"] by (auto simp: ledger_inv_def l split: option.splits)
  with ok l show ?thesis
    by (simp add: system_ok_def user_ok_def live_user_inv ledger_typed_def)
qed

lemma post_op_quiet:
  assumes "system_ok cap s" "\<forall>u p liked now_ms ttl arming cap t. op \<noteq> OpMutate u p liked now_ms ttl arming cap t"
  shows "system_ok cap (run_post_op rd op s)"
proof (cases op)
  case OpExpire
  with assms show ?thesis by (simp add: live_system_ok)
next
  case OpBegin
  then show ?thesis
    by (intro quiet_system_ok [OF assms(1)]) (simp_all add: begin_rebuild_script_def Let_def split: option.splits)
next
  case OpInitialize
  then show ?thesis
    by (intro quiet_system_ok [OF assms(1)])
      (simp_all add: initialize_script_def install_aggregate_def Let_def split: option.splits)
next
  case OpRecover
  then show ?thesis
    by (intro quiet_system_ok [OF assms(1)])
      (simp_all add: recover_script_def install_aggregate_def Let_def split: option.splits)
next
  case OpPurge
  then show ?thesis
    by (intro quiet_system_ok [OF assms(1)]) (simp_all add: purge_post_script_def Let_def)
qed (use assms in \<open>auto intro!: quiet_system_ok [OF assms(1)]
       simp: release_rebuild_script_def mark_post_deleted_script_def Let_def\<close>)

section \<open>Every reachable state\<close>

text \<open>
  One step of the like service seen from the users: any script on any user, with arguments the
  Go methods can pass (a positive time to live, a restore bounded by the relation cap, the
  members of the temporary set as \<open>SMEMBERS\<close> lists them), any post script, or the passing
  of time.
\<close>

inductive user_step :: "(string \<Rightarrow> bool) \<Rightarrow> int \<Rightarrow> lstore \<Rightarrow> lstore \<Rightarrow> bool" for rd cap where
  step_mutate: "0 < ttl \<Longrightarrow> mutate_script u p liked now_ms ttl arming cap t s = (s', r) \<Longrightarrow> user_step rd cap s s'"
| step_init_empty: "0 < ttl \<Longrightarrow> initialize_user_empty_script u arming ttl t s = (s', b) \<Longrightarrow> user_step rd cap s s'"
| step_remove_deleted: "remove_deleted_relations_script u ids s = (s', n) \<Longrightarrow> user_step rd cap s s'"
| step_begin: "begin_restore_script u token lock_ttl t s = (s', st) \<Longrightarrow> user_step rd cap s s'"
| step_create: "create_temp_script u token expected ttl t s = (s', b) \<Longrightarrow> user_step rd cap s s'"
| step_append: "append_temp_script u token rels now s = (s', k) \<Longrightarrow> user_step rd cap s s'"
| step_finish: "0 < ttl \<Longrightarrow> max_rel \<le> cap \<Longrightarrow> set members = fset (smembers (s (KUserLikesRestoreTemp u token))) \<Longrightarrow>
    finish_restore_script u token expected count max_rel arming ttl enabled members t s = (s', us) \<Longrightarrow>
    user_step rd cap s s'"
| step_release: "release_restore_lock_script u token s = (s', b) \<Longrightarrow> user_step rd cap s s'"
| step_migrate: "0 < ttl \<Longrightarrow> migrate_user_ttl_script u ttl t s = (s', st) \<Longrightarrow> user_step rd cap s s'"
| step_rollback: "rollback_user_ttl_script u t s = (s', st) \<Longrightarrow> user_step rd cap s s'"
| step_orphan: "cleanup_orphan_ledger_script u expected s = (s', b) \<Longrightarrow> user_step rd cap s s'"
| step_uncommitted: "cleanup_uncommitted_script u s = (s', b) \<Longrightarrow> user_step rd cap s s'"
| step_post: "\<forall>u p liked now_ms ttl arming cap t. op \<noteq> OpMutate u p liked now_ms ttl arming cap t \<Longrightarrow>
    user_step rd cap s (run_post_op rd op s)"

lemma user_step_ok:
  assumes "user_step rd cap s s'" "0 \<le> cap" "system_ok cap s"
  shows "system_ok cap s'"
  using assms
  by (induction rule: user_step.induct)
    (blast intro: mutate_system_ok init_empty_system_ok remove_deleted_system_ok restore_steps_quiet
      finish_system_ok migrate_system_ok rollback_system_ok cleanup_orphan_system_ok
      cleanup_uncommitted_system_ok post_op_quiet)+

lemma empty_system_ok: "system_ok cap (\<lambda>_. None)"
  by (simp add: system_ok_def ledger_typed_def user_ok_def user_inv_def ledger_inv_def type_ok_def)

lemma reachable_system_ok:
  assumes "(user_step rd cap)\<^sup>*\<^sup>* s0 s" "system_ok cap s0" "0 \<le> cap"
  shows "system_ok cap s"
  using assms by (induction rule: rtranclp_induct) (auto intro: user_step_ok)

section \<open>The properties\<close>

lemma system_ok_present:
  assumes ok: "system_ok cap s" and ne: "s (KUserLikes u) \<noteq> None"
  shows "first_error (present_guards u s) = None" "0 \<le> active_of (s (KUserLikes u))"
    "active_of (s (KUserLikes u)) > 0 \<Longrightarrow> pttl now (s (KUserLikesOrder u)) = pttl now (s (KUserLikes u))"
proof -
  have ui: "user_inv cap u s" using ok by (simp add: system_ok_def user_ok_def)
  note r = user_inv_rel [OF ui ne]
  have act: "active_of (s (KUserLikes u)) = zcard (s (KUserLikesOrder u))" "''0'' |\<in>| smembers (s (KUserLikes u))"
    using r(1) by (simp_all add: rel_ok_def active_of_relations)
  then show "0 \<le> active_of (s (KUserLikes u))" by simp
  show "first_error (present_guards u s) = None"
    unfolding present_guards_def order_guards_def first_error_None_iff
    using r(3) act by (auto simp del: not_None_eq)
  assume "active_of (s (KUserLikes u)) > 0"
  then have o: "s (KUserLikesOrder u) \<noteq> None" using r(3) by blast
  then have "rexpiry (s (KUserLikesOrder u)) = rexpiry (s (KUserLikes u))"
    using ui ne by (simp add: user_inv_def Let_def)
  then show "pttl now (s (KUserLikesOrder u)) = pttl now (s (KUserLikes u))"
    using o ne by (auto simp: pttl_def)
qed

lemma system_ok_types:
  assumes "system_ok cap s"
  shows "type_ok TSet (s (KUserLikes u))" "type_ok TZset (s (KUserLikesOrder u))"
    "type_ok THash (s KUserLikesExpiryLedger)"
proof -
  have ui: "user_inv cap u s" using assms by (simp add: system_ok_def user_ok_def)
  show "type_ok TSet (s (KUserLikes u))" "type_ok TZset (s (KUserLikesOrder u))"
    using ui by (auto simp: user_inv_def Let_def type_ok_def split: if_splits)
  show "type_ok THash (s KUserLikesExpiryLedger)"
    using assms by (simp add: system_ok_def ledger_typed_def)
qed

lemma inspect_present:
  assumes ok: "system_ok cap s" and ne: "s (KUserLikes u) \<noteq> None"
    and lock: "type_ok TString (s (KUserLikesRestoreLock u))"
  shows "inspect_user_script u t s =
     Inr (UReady, case hget (s KUserLikesExpiryLedger) u of None \<Rightarrow> '''' | Some v \<Rightarrow> v, pttl (time_ms t) (s (KUserLikes u)))"
proof -
  have "first_error (user_type_guards u s) = None"
    using system_ok_types [OF ok] lock by (simp add: user_type_guards_def)
  moreover have "first_error (present_guards u s @
      [(active_of (s (KUserLikes u)) > 0 \<and>
        abs (pttl (time_ms t) (s (KUserLikes u)) - pttl (time_ms t) (s (KUserLikesOrder u))) > 1,
        ''LIKE_USER_ORDER_INCONSISTENT'')]) = None"
    using system_ok_present(1) [OF ok ne] system_ok_present(3) [OF ok ne, of "time_ms t"] unfolding first_error_None_iff by auto
  ultimately show ?thesis using ne by (simp add: inspect_user_script_def Let_def del: not_None_eq)
qed

lemma inspect_expired:
  assumes ok: "system_ok cap s" and e: "s (KUserLikes u) = Some (x, Some e)" and due: "e < time_ms t"
    and lock: "type_ok TString (s (KUserLikesRestoreLock u))"
  shows "inspect_user_script u t (live (time_ms t) s) =
     Inr (if live (time_ms t) s (KUserLikesRestoreLock u) = None then UCold else UBusy, show_int e, - 2)"
proof -
  let ?s = "live (time_ms t) s"
  have ok': "system_ok cap ?s" by (rule live_system_ok [OF ok])
  have gone: "?s (KUserLikes u) = None" using e due by (simp add: live_def)
  have lock': "type_ok TString (?s (KUserLikesRestoreLock u))"
    using lock live_cases [of "time_ms t" s "KUserLikesRestoreLock u"] by (auto simp: type_ok_def)
  have "user_inv cap u ?s" using ok' by (simp add: system_ok_def user_ok_def)
  then have order: "?s (KUserLikesOrder u) = None" using gone by (simp add: user_inv_def)
  have led: "?s KUserLikesExpiryLedger = s KUserLikesExpiryLedger"
    using ok by (cases "(time_ms t, s KUserLikesExpiryLedger)" rule: live_entry.cases)
      (auto simp: live_def system_ok_def ledger_typed_def)
  have "ledger_inv u s" using ok by (simp add: system_ok_def user_ok_def)
  then have h: "hget (?s KUserLikesExpiryLedger) u = Some (show_int e)" "0 < e"
    using e by (simp_all add: ledger_inv_def led)
  then have "digits_only (show_int e)" "tonum (show_int e) = nat e"
    by (simp_all add: show_int_def)
  then have "\<not> ledger_unsafe (time_ms t) (show_int e)" using h due by (simp add: ledger_unsafe_def)
  moreover have "first_error (user_type_guards u ?s) = None"
    using system_ok_types [OF ok'] lock' by (simp add: user_type_guards_def)
  ultimately show ?thesis using gone order h by (simp add: inspect_user_script_def Let_def)
qed

text \<open>
  C5. In every state the service can reach, the inspection of a user never answers that the
  user's data is inconsistent: a user whose set is present is ready, with the remaining time
  to live of the set; when the set's expiry has passed, the same inspection answers cold (busy
  while another restore holds the lock) with the instant the ledger recorded, never
  missing-unexpectedly. Between the two any interleaving of likes, evictions, initialisations,
  restores, migrations, rollbacks, cleanups, post scripts and expiries may have happened.
\<close>

theorem reachable_users_classified:
  assumes reach: "(user_step rd cap)\<^sup>*\<^sup>* (\<lambda>_. None) s" and cap: "0 \<le> cap"
    and present: "s (KUserLikes u) = Some (x, expiry)"
    and lock: "type_ok TString (s (KUserLikesRestoreLock u))"
  shows "inspect_user_script u t s =
      Inr (UReady, case expiry of None \<Rightarrow> '''' | Some e \<Rightarrow> show_int e, pttl (time_ms t) (s (KUserLikes u))) \<and>
    (\<forall>e. expiry = Some e \<longrightarrow> e < time_ms t \<longrightarrow>
      inspect_user_script u t (live (time_ms t) s) =
        Inr (if live (time_ms t) s (KUserLikesRestoreLock u) = None then UCold else UBusy, show_int e, - 2))"
proof -
  have ok: "system_ok cap s" by (rule reachable_system_ok [OF reach empty_system_ok cap])
  have "ledger_inv u s" using ok by (simp add: system_ok_def user_ok_def)
  then have "(case hget (s KUserLikesExpiryLedger) u of None \<Rightarrow> '''' | Some v \<Rightarrow> v) =
      (case expiry of None \<Rightarrow> '''' | Some e \<Rightarrow> show_int e)"
    using present by (auto simp: ledger_inv_def split: option.splits)
  with inspect_present [OF ok _ lock, of t] present
  have "inspect_user_script u t s =
      Inr (UReady, case expiry of None \<Rightarrow> '''' | Some e \<Rightarrow> show_int e, pttl (time_ms t) (s (KUserLikes u)))"
    by simp
  moreover have "inspect_user_script u t (live (time_ms t) s) =
        Inr (if live (time_ms t) s (KUserLikesRestoreLock u) = None then UCold else UBusy, show_int e, - 2)"
    if "expiry = Some e" "e < time_ms t" for e
    using inspect_expired [OF ok _ that(2) lock] present that(1) by simp
  ultimately show ?thesis by blast
qed

text \<open>
  C9. A restore that reports installed hands the user exactly the relations and order scores
  collected in its temporary keys, at most the requested number and none of a deleted post;
  the user's invariant and ledger then hold, the lock is free, no other user is touched; and
  it happened only while the caller held the lock, the ledger still carried the expected
  instant and the user had no set.
\<close>

theorem restore_installs_collected:
  assumes run: "finish_restore_script u token expected count max_rel arming ttl enabled members t s = (s', Inr UInstalled)"
    and ok: "system_ok cap s" and ttl: "0 < ttl"
    and mem: "set members = fset (smembers (s (KUserLikesRestoreTemp u token)))"
  shows "s (KUserLikes u) = None \<and> enabled \<and> rget (s (KUserLikesRestoreLock u)) = Some token \<and>
    hget (s KUserLikesExpiryLedger) u = Some expected \<and>
    relations (s' (KUserLikes u)) = relations (s (KUserLikesRestoreTemp u token)) \<and>
    zmap (s' (KUserLikesOrder u)) = zmap (s (KUserLikesRestoreOrderTemp u token)) \<and>
    active_of (s' (KUserLikes u)) = count \<and> count \<le> max_rel \<and>
    (\<forall>p. p |\<in>| relations (s' (KUserLikes u)) \<longrightarrow> rget (s (KReady p)) \<noteq> Some ''deleted'') \<and>
    user_ok max_rel u s' \<and> s' (KUserLikesRestoreLock u) = None \<and>
    (\<forall>x. x \<noteq> u \<longrightarrow> user_ok cap x s')"
proof -
  have typed: "ledger_typed s" using ok by (simp add: system_ok_def)
  note f = finish_installed [OF run ttl mem typed]
  note g = finish_relations [OF f(1) mem]
  have "enabled \<and> rget (s (KUserLikesRestoreLock u)) = Some token \<and> hget (s KUserLikesExpiryLedger) u = Some expected"
    using f(1) unfolding finish_guards_def Let_def first_error_None_iff by (auto simp: ball_Un)
  moreover have "active_of (s' (KUserLikes u)) = count"
    using g(2) f(9) by (simp add: active_of_def)
  moreover have "\<forall>x. x \<noteq> u \<longrightarrow> user_ok cap x s'"
    using ok f(4) by (simp add: user_frame_ok system_ok_def)
  ultimately show ?thesis using f g(3,8) by auto
qed

text \<open>
  Migration to expiring relations only ever extends a user's life: after it, the set
  expires at the reported instant, which is at least the requested time to live away and no
  earlier than the expiry the set had before; the ledger records that instant and the
  relations are the same.
\<close>

theorem migration_never_shortens:
  assumes run: "migrate_user_ttl_script u ttl t s = (s', Inr (UArmed, v))"
    and ok: "system_ok cap s" and ttl: "0 < ttl"
  shows "\<exists>at. v = show_int at \<and> rexpiry (s' (KUserLikes u)) = Some at \<and> time_ms t + ttl \<le> at \<and>
    (\<forall>e. rexpiry (s (KUserLikes u)) = Some e \<longrightarrow> e \<le> at) \<and>
    hget (s' KUserLikesExpiryLedger) u = Some (show_int at) \<and>
    relations (s' (KUserLikes u)) = relations (s (KUserLikes u)) \<and>
    zmap (s' (KUserLikesOrder u)) = zmap (s (KUserLikesOrder u)) \<and> system_ok cap s'"
proof -
  have ne: "s (KUserLikes u) \<noteq> None"
    using run by (auto simp: migrate_user_ttl_script_def missing_user_status_def Let_def
        split: option.splits if_splits simp del: not_None_eq)
  then obtain at where at: "migrate_expiry u (time_ms t) ttl s = Inr at" "v = show_int at"
    and s': "s' = refresh_user_ttl u True (time_ms t) (at - time_ms t) (active_of (s (KUserLikes u)) > 0) s"
    using run by (auto simp: migrate_user_ttl_script_def Let_def
        split: option.splits if_splits sum.splits simp del: not_None_eq)
  note b = migrate_expiry_bounds [OF at(1)]
  have later: "time_ms t < at" using b(1) ttl by linarith
  note px = pexpireat_reads [OF later]
  have l: "s' (KUserLikes u) = pexpireat (time_ms t) at (s (KUserLikes u))"
    by (simp add: s' refresh_user_ttl_likes)
  have li: "ledger_inv u s" and typed: "ledger_typed s" using ok by (simp_all add: system_ok_def user_ok_def)
  have "e \<le> at" if "rexpiry (s (KUserLikes u)) = Some e" for e
  proof -
    from that obtain x where "s (KUserLikes u) = Some (x, Some e)"
      by (cases "s (KUserLikes u)") auto
    with li have h: "hget (s KUserLikesExpiryLedger) u = Some (show_int e)" "0 < e" by (simp_all add: ledger_inv_def)
    from b(3) [OF h(1)] h(2) show ?thesis by (simp add: show_int_def)
  qed
  moreover have "rexpiry (s' (KUserLikes u)) = Some at"
    using ne px by (cases "s (KUserLikes u)") (auto simp: l)
  moreover have "relations (s' (KUserLikes u)) = relations (s (KUserLikes u))"
    by (simp add: l relations_def px)
  moreover have "zmap (s' (KUserLikesOrder u)) = zmap (s (KUserLikesOrder u))"
    by (simp add: s' refresh_user_ttl_def Let_def px)
  moreover have "hget (s' KUserLikesExpiryLedger) u = Some (show_int at)"
    using typed by (simp add: s' refresh_ledger hmap_hset ledger_typed_def)
  moreover have "system_ok cap s'" by (rule migrate_system_ok [OF ok ttl run])
  ultimately show ?thesis using at(2) b(1) by blast
qed

definition removable :: "lstore \<Rightarrow> string \<Rightarrow> bool" where
  "removable s p \<longleftrightarrow> p \<noteq> ''0'' \<and> type_ok TString (s (KReady p)) \<and> rget (s (KReady p)) \<in> {None, Some ''deleted''}"

lemma collect_removals_exact:
  assumes "collect_removals u s ids rem iss = Inr (rem', iss')"
  shows "rem' = rem @ filter (\<lambda>p. removable s p \<and> p |\<in>| smembers (s (KUserLikes u))) ids"
  using assms
  by (induction u s ids rem iss rule: collect_removals.induct) (auto simp: removable_def split: if_splits)

lemma remove_all_exact:
  assumes "remove_all u rem s n = (s', m)"
  shows "smembers (s' (KUserLikes u)) = smembers (s (KUserLikes u)) |-| fset_of_list rem"
    "m = n + (scard (s (KUserLikes u)) - scard (s' (KUserLikes u)))"
    "\<forall>k. k \<noteq> KUserLikes u \<longrightarrow> k \<noteq> KUserLikesOrder u \<longrightarrow> s' k = s k"
  using assms
proof (induction u rem s n rule: remove_all.induct)
  case (2 u p ps s n)
  {
    case 1
    with 2(1) show ?case by (auto simp: smembers_srem)
  next
    case 2
    have "scard (remove_relation u p s (KUserLikes u)) =
        scard (s (KUserLikes u)) - (if p |\<in>| smembers (s (KUserLikes u)) then 1 else 0)"
      by (simp add: smembers_srem int_fcard_pred)
    with 2 "2.IH"(2) show ?case by simp
  next
    case 3
    have "remove_relation u p s k = s k" if "k \<noteq> KUserLikes u" "k \<noteq> KUserLikesOrder u" for k
      using that by (simp add: remove_relation_def at_key_def)
    with 3 "2.IH"(3) show ?case by simp
  }
qed simp_all

text \<open>
  Removing the relations of deleted posts removes, of the posts it is asked about, exactly
  those whose ready flag is absent or deleted, and reports how many relations that were; every
  other relation stays, no key but the user's set and index is written, and the invariant of
  every user holds afterwards.
\<close>

theorem remove_deleted_exact:
  assumes run: "remove_deleted_relations_script u ids s = (s', Inr (n, iss))" and ok: "system_ok cap s"
  shows "relations (s' (KUserLikes u)) = relations (s (KUserLikes u)) |-| fset_of_list (filter (removable s) ids) \<and>
    n = int (fcard (relations (s (KUserLikes u)))) - int (fcard (relations (s' (KUserLikes u)))) \<and>
    (\<forall>k. k \<noteq> KUserLikes u \<longrightarrow> k \<noteq> KUserLikesOrder u \<longrightarrow> s' k = s k) \<and> system_ok cap s'"
proof -
  obtain rem where c: "collect_removals u s ids [] [] = Inr (rem, iss)"
    and ra: "remove_all u rem s 0 = (s', n)" and ne: "s (KUserLikes u) \<noteq> None"
    using run
    by (auto simp: remove_deleted_relations_script_def user_read_guards_def split: option.splits sum.splits prod.splits if_splits)
  note r = remove_all_exact [OF ra]
  have rem: "rem = filter (\<lambda>p. removable s p \<and> p |\<in>| smembers (s (KUserLikes u))) ids"
    using collect_removals_exact [OF c] by simp
  have sent: "''0'' |\<in>| smembers (s (KUserLikes u))"
    using ok ne by (simp add: system_ok_def user_ok_def user_inv_def Let_def)
  with r(1) rem have sent': "''0'' |\<in>| smembers (s' (KUserLikes u))"
    by (simp add: fset_of_list_elem removable_def)
  have "relations (s' (KUserLikes u)) = relations (s (KUserLikes u)) |-| fset_of_list (filter (removable s) ids)"
    unfolding relations_def r(1) rem by (auto simp: fset_of_list_elem)
  moreover have "n = active_of (s (KUserLikes u)) - active_of (s' (KUserLikes u))"
    using r(2) by (simp add: active_of_def)
  ultimately show ?thesis
    using r(3) remove_deleted_system_ok [OF ok run] sent sent' by (simp add: active_of_relations)
qed

section \<open>Witnesses\<close>

lemma show_stamps: "show_nat 6000 = ''6000''" "show_nat 9000 = ''9000''"
  by (simp_all add: show_nat.simps digit_char_def)

definition demo_new_user :: lstore where
  "demo_new_user = fst (initialize_user_empty_script ''1'' True 1000 (5, 0) (\<lambda>_. None))"

lemma demo_new_user_simps:
  "demo_new_user (KUserLikes ''1'') = Some (RSet {|''0''|}, Some 6000)"
  "demo_new_user (KUserLikesRestoreLock ''1'') = None"
  by (simp_all add: demo_new_user_def initialize_user_empty_script_def Let_def refresh_user_ttl_def
      type_ok_def time_ms_def eval_simps)

lemma demo_new_user_reached: "(user_step rd 10)\<^sup>*\<^sup>* (\<lambda>_. None) demo_new_user"
  unfolding demo_new_user_def
  by (intro r_into_rtranclp step_init_empty [of 1000 "''1''" True "(5, 0)" _ _
        "snd (initialize_user_empty_script ''1'' True 1000 (5, 0) (\<lambda>_. None))"]) simp_all

theorem reachable_users_classified_witness:
  "inspect_user_script ''1'' (5, 0) demo_new_user = Inr (UReady, ''6000'', 1000) \<and>
   inspect_user_script ''1'' (7, 0) (live 7000 demo_new_user) = Inr (UCold, ''6000'', - 2)"
proof -
  note w = reachable_users_classified [OF demo_new_user_reached _ demo_new_user_simps(1)]
  have "live 7000 demo_new_user (KUserLikesRestoreLock ''1'') = None"
    by (simp add: live_def demo_new_user_simps)
  with w [where t = "(5, 0)"] w [where t = "(7, 0)"] show ?thesis
    by (simp add: demo_new_user_simps type_ok_def time_ms_def pttl_def show_int_def show_stamps)
qed

text \<open>User 1 is cold since instant 100 and token \<open>k\<close> has collected one relation, to post 7.\<close>

definition demo_restore :: lstore where
  "demo_restore = (\<lambda>_. None)
     (KUserLikesExpiryLedger := Some (RHash (fmupd ''1'' ''100'' fmempty), None),
      KUserLikesRestoreLock ''1'' := Some (RStr ''k'', Some 9000),
      KUserLikesRestoreTemp ''1'' ''k'' := Some (RSet {|''0'', ''7''|}, Some 9000),
      KUserLikesRestoreOrderTemp ''1'' ''k'' := Some (RZset (fmupd ''7'' 3 fmempty), Some 9000))"

lemma demo_restore_ok: "system_ok 10 demo_restore"
  by (simp add: system_ok_def ledger_typed_def user_ok_def user_inv_def ledger_inv_def demo_restore_def type_ok_def)

lemma demo_restore_run:
  "snd (finish_restore_script ''1'' ''k'' ''100'' 1 10 True 1000 True [''0'', ''7''] (5, 0) demo_restore) = Inr UInstalled"
  by (simp add: finish_restore_script_def finish_guards_def member_guards_def Let_def demo_restore_def
      type_ok_def digits_only_def is_digit_def eval_simps)

theorem restore_installs_collected_witness:
  "\<exists>s'. finish_restore_script ''1'' ''k'' ''100'' 1 10 True 1000 True [''0'', ''7''] (5, 0) demo_restore =
      (s', Inr UInstalled) \<and> relations (s' (KUserLikes ''1'')) = {|''7''|} \<and> user_ok 10 ''1'' s'"
proof -
  obtain s' where run: "finish_restore_script ''1'' ''k'' ''100'' 1 10 True 1000 True [''0'', ''7''] (5, 0) demo_restore =
      (s', Inr UInstalled)"
    using demo_restore_run by (metis prod.collapse)
  have mem: "set [''0'', ''7''] = fset (smembers (demo_restore (KUserLikesRestoreTemp ''1'' ''k'')))"
    by (simp add: demo_restore_def)
  have "relations (demo_restore (KUserLikesRestoreTemp ''1'' ''k'')) = {|''7''|}"
    by (auto simp: demo_restore_def relations_def)
  with restore_installs_collected [OF run demo_restore_ok _ mem] run show ?thesis by simp
qed

definition demo_armed :: lstore where
  "demo_armed = (\<lambda>_. None)
     (KUserLikesExpiryLedger := Some (RHash (fmupd ''1'' ''9000'' fmempty), None),
      KUserLikes ''1'' := Some (RSet {|''0''|}, Some 9000))"

lemma demo_armed_ok: "system_ok 10 demo_armed"
  by (auto simp: system_ok_def ledger_typed_def user_ok_def user_inv_def ledger_inv_def demo_armed_def type_ok_def
      relations_def active_of_def show_int_def show_stamps)

theorem migration_never_shortens_witness:
  "\<exists>s'. migrate_user_ttl_script ''1'' 1000 (1, 0) demo_armed = (s', Inr (UArmed, ''9000'')) \<and>
     rexpiry (s' (KUserLikes ''1'')) = Some 9000"
proof -
  have "snd (migrate_user_ttl_script ''1'' 1000 (1, 0) demo_armed) = Inr (UArmed, ''9000'')"
    by (simp add: migrate_user_ttl_script_def migration_type_guards_def present_guards_def order_guards_def
        migrate_expiry_def demo_armed_def Let_def type_ok_def active_of_def time_ms_def pttl_def digits_only_def
        is_digit_def tonum_def digit_val_def show_int_def show_stamps)
  then obtain s' where run: "migrate_user_ttl_script ''1'' 1000 (1, 0) demo_armed = (s', Inr (UArmed, ''9000''))"
    by (metis prod.collapse)
  have "rexpiry (demo_armed (KUserLikes ''1'')) = Some 9000" by (simp add: demo_armed_def)
  moreover obtain at where at: "''9000'' = show_int at" "rexpiry (s' (KUserLikes ''1'')) = Some at"
      "time_ms (1, 0) + 1000 \<le> at"
    using migration_never_shortens [OF run demo_armed_ok] by auto
  moreover have "tonum (show_int at) = nat at" using at(3) by (simp add: show_int_def time_ms_def)
  then have "at = 9000" using at(3) unfolding at(1) [symmetric] by (simp add: tonum_def digit_val_def time_ms_def)
  ultimately show ?thesis using run by blast
qed

definition demo_stale :: lstore where
  "demo_stale = demo_store (KReady ''5'' := Some (RStr ''deleted'', None))"

lemma demo_stale_ok: "system_ok 1 demo_stale"
proof -
  have "user_inv 1 u demo_stale" for u
    using demo_user_inv [of u] by (simp add: demo_stale_def user_inv_def)
  then show ?thesis
    by (auto simp: system_ok_def ledger_typed_def user_ok_def ledger_inv_def demo_stale_def demo_store_def type_ok_def)
qed

theorem remove_deleted_exact_witness:
  "\<exists>s'. remove_deleted_relations_script ''1'' [''5'', ''7''] demo_stale =
      (s', Inr (1, [(''7'', PostLifecycleMismatch)])) \<and> relations (s' (KUserLikes ''1'')) = {||}"
proof -
  have "snd (remove_deleted_relations_script ''1'' [''5'', ''7''] demo_stale) = Inr (1, [(''7'', PostLifecycleMismatch)])"
    by (simp add: remove_deleted_relations_script_def user_read_guards_def order_guards_def demo_stale_def
        demo_store_def type_ok_def active_of_def eval_simps)
  then obtain s' where run: "remove_deleted_relations_script ''1'' [''5'', ''7''] demo_stale =
      (s', Inr (1, [(''7'', PostLifecycleMismatch)]))"
    by (metis prod.collapse)
  have "relations (demo_stale (KUserLikes ''1'')) = {|''5''|}" "filter (removable demo_stale) [''5'', ''7''] = [''5'']"
    by (auto simp: demo_stale_def demo_store_def relations_def removable_def type_ok_def)
  with remove_deleted_exact [OF run demo_stale_ok] run show ?thesis by simp
qed

end
