(* ===== verification/Eventing.thy ===== *)
theory Eventing
  imports LikeErrors
begin

text \<open>
  Events on their way through Kafka and the database (\<open>eventing/event_id.go\<close>,
  \<open>eventing/like_events.go\<close>, \<open>eventing/outbox.go\<close>): event ids, the envelopes of like events,
  the inbox that makes a redelivered event a no-op, and the batches of the outbox. Strings
  are Go strings, sequences of bytes. A JSON document is represented by the value it parses
  to; what \<open>json.Unmarshal\<close> makes of that value is written out.
\<close>

section \<open>Event ids\<close>

definition byte :: "char \<Rightarrow> nat" where
  "byte c = of_char c"

definition cont :: "char \<Rightarrow> bool" where
  "cont c \<longleftrightarrow> 0x80 \<le> byte c \<and> byte c \<le> 0xBF"

definition in_range :: "nat \<Rightarrow> nat \<Rightarrow> char \<Rightarrow> bool" where
  "in_range lo hi c \<longleftrightarrow> lo \<le> byte c \<and> byte c \<le> hi"

text \<open>
  The number of runes of a string if it is valid UTF-8: no overlong encoding, no surrogate,
  nothing above U+10FFFF.
\<close>

fun rune_count :: "string \<Rightarrow> nat option" where
  "rune_count [] = Some 0"
| "rune_count (a # s) =
     (if byte a < 0x80 then map_option Suc (rune_count s)
      else if in_range 0xC2 0xDF a then
        (case s of b # s \<Rightarrow> if cont b then map_option Suc (rune_count s) else None | _ \<Rightarrow> None)
      else if in_range 0xE0 0xEF a then
        (case s of
           b # c # s \<Rightarrow>
             (if in_range (if byte a = 0xE0 then 0xA0 else 0x80) (if byte a = 0xED then 0x9F else 0xBF) b \<and> cont c
              then map_option Suc (rune_count s) else None)
         | _ \<Rightarrow> None)
      else if in_range 0xF0 0xF4 a then
        (case s of
           b # c # d # s \<Rightarrow>
             (if in_range (if byte a = 0xF0 then 0x90 else 0x80) (if byte a = 0xF4 then 0x8F else 0xBF) b \<and>
                 cont c \<and> cont d
              then map_option Suc (rune_count s) else None)
         | _ \<Rightarrow> None)
      else None)"

definition ConsumerInboxEventIDMaxLength :: nat where "ConsumerInboxEventIDMaxLength = 128"

definition NormalizeEventID :: "string \<Rightarrow> string option" where
  "NormalizeEventID raw_id =
     (let eid = trim_space raw_id
      in if eid = [] \<or> CHR 0x00 \<in> set eid then None
         else (case rune_count eid of
                 None \<Rightarrow> None
               | Some n \<Rightarrow>
                  if length eid > ConsumerInboxEventIDMaxLength \<and> n > ConsumerInboxEventIDMaxLength
                  then None else Some eid))"

section \<open>JSON values\<close>

text \<open>\<open>JNumber\<close> is a number literal that is not an integer.\<close>

datatype json = JNull | JBool bool | JInt int | JNumber string | JString string
  | JArray "json list" | JObject "(string \<times> json) list"

text \<open>
  \<open>json.Unmarshal\<close> into an integer field of the range \<open>lo..hi\<close>: null leaves it alone,
  anything but an integer in range is an error.
\<close>

fun unmarshal_int :: "int \<Rightarrow> int \<Rightarrow> json \<Rightarrow> int \<Rightarrow> int option" where
  "unmarshal_int lo hi (JInt n) old = (if lo \<le> n \<and> n \<le> hi then Some n else None)"
| "unmarshal_int lo hi JNull old = Some old"
| "unmarshal_int lo hi _ old = None"

record like_snapshot_payload =
  pl_post :: int
  pl_count :: int
  pl_version :: int

text \<open>Field names match up to case; a later field overwrites an earlier one.\<close>

definition fold_name :: "string \<Rightarrow> string" where
  "fold_name n = map ascii_lower n"

fun unmarshal_fields :: "(string \<times> json) list \<Rightarrow> like_snapshot_payload \<Rightarrow> like_snapshot_payload option" where
  "unmarshal_fields [] p = Some p"
| "unmarshal_fields ((n, v) # fs) p =
     (if fold_name n = ''post_id'' then
        (case unmarshal_int 0 (2 ^ 64 - 1) v (pl_post p) of
           None \<Rightarrow> None | Some i \<Rightarrow> unmarshal_fields fs (p\<lparr>pl_post := i\<rparr>))
      else if fold_name n = ''like_count'' then
        (case unmarshal_int (- (2 ^ 63)) (2 ^ 63 - 1) v (pl_count p) of
           None \<Rightarrow> None | Some i \<Rightarrow> unmarshal_fields fs (p\<lparr>pl_count := i\<rparr>))
      else if fold_name n = ''version'' then
        (case unmarshal_int (- (2 ^ 63)) (2 ^ 63 - 1) v (pl_version p) of
           None \<Rightarrow> None | Some i \<Rightarrow> unmarshal_fields fs (p\<lparr>pl_version := i\<rparr>))
      else unmarshal_fields fs p)"

definition empty_payload :: like_snapshot_payload where
  "empty_payload = \<lparr>pl_post = 0, pl_count = 0, pl_version = 0\<rparr>"

fun unmarshal_payload :: "json \<Rightarrow> like_snapshot_payload option" where
  "unmarshal_payload (JObject fs) = unmarshal_fields fs empty_payload"
| "unmarshal_payload JNull = Some empty_payload"
| "unmarshal_payload _ = None"

definition marshal_payload :: "like_snapshot_payload \<Rightarrow> json" where
  "marshal_payload p =
     JObject [(''post_id'', JInt (pl_post p)), (''like_count'', JInt (pl_count p)), (''version'', JInt (pl_version p))]"

section \<open>Envelopes\<close>

record envelope =
  ev_id :: string
  ev_type :: string
  ev_schema :: int
  ev_agg_type :: string
  ev_agg_id :: string
  ev_occurred :: int
  ev_payload :: json

definition EventTypePostLikeSnapshot :: string where "EventTypePostLikeSnapshot = ''post.like.snapshot''"

definition NewLikeSnapshotEnvelope :: "int \<Rightarrow> nat \<Rightarrow> int \<Rightarrow> int \<Rightarrow> envelope res" where
  "NewLikeSnapshotEnvelope now post count version =
     (if post = 0 \<or> count < 0 \<or> version < 0 then Inl ''invalid post like snapshot''
      else Inr \<lparr>ev_id = ''like-snapshot:'' @ show_nat post @ '':'' @ show_int version,
                ev_type = EventTypePostLikeSnapshot, ev_schema = 1, ev_agg_type = ''post'',
                ev_agg_id = show_nat post, ev_occurred = now,
                ev_payload = marshal_payload \<lparr>pl_post = int post, pl_count = count, pl_version = version\<rparr>\<rparr>)"

definition EventTypeForBehaviorAction :: "string \<Rightarrow> string" where
  "EventTypeForBehaviorAction action =
     (if trim_space action = ''like'' then ''post.liked''
      else if trim_space action = ''unlike'' then ''post.unliked'' else ''post.viewed'')"

definition behavior_payload :: "nat \<Rightarrow> nat \<Rightarrow> string \<Rightarrow> int \<Rightarrow> json" where
  "behavior_payload user post action version =
     JObject ([(''user_id'', JInt (int user)), (''post_id'', JInt (int post)), (''action'', JString action),
               (''source'', JString ''redis'')] @ (if version = 0 then [] else [(''like_version'', JInt version)]))"

text \<open>The instant \<open>at\<close> is in Unix microseconds; \<open>zero_time\<close> is the year 1.\<close>

definition zero_time :: int where "zero_time = - 62135596800000000"

definition NewLikeBehaviorEnvelope :: "string \<Rightarrow> nat \<Rightarrow> nat \<Rightarrow> string \<Rightarrow> int \<Rightarrow> int \<Rightarrow> envelope res" where
  "NewLikeBehaviorEnvelope event_id user post action version at =
     (case NormalizeEventID event_id of
        None \<Rightarrow> Inl ''event id must contain 1 to 128 UTF-8 characters without NUL''
      | Some eid \<Rightarrow>
         (if user = 0 \<or> post = 0 \<or> (trim_space action \<noteq> ''like'' \<and> trim_space action \<noteq> ''unlike'') \<or>
             version \<le> 0 \<or> at = zero_time
          then Inl ''invalid post like behavior''
          else Inr \<lparr>ev_id = eid, ev_type = EventTypeForBehaviorAction action, ev_schema = 1, ev_agg_type = ''post'',
                    ev_agg_id = show_nat post, ev_occurred = at,
                    ev_payload = behavior_payload user post (trim_space action) version\<rparr>))"

text \<open>
  \<open>DecodeEnvelope\<close>; the argument is the outcome of \<open>json.Unmarshal\<close> of the message into an
  envelope.
\<close>

definition DecodeEnvelope :: "envelope option \<Rightarrow> envelope res" where
  "DecodeEnvelope unmarshalled =
     (case unmarshalled of
        None \<Rightarrow> Inl ''decode event envelope''
      | Some ev \<Rightarrow>
         (case NormalizeEventID (ev_id ev) of
            None \<Rightarrow> Inl ''event id must contain 1 to 128 UTF-8 characters without NUL''
          | Some eid \<Rightarrow>
             if trim_space (ev_type ev) = [] then Inl ''event type is required''
             else Inr (ev\<lparr>ev_id := eid\<rparr>)))"

section \<open>Outbox batches\<close>

definition outboxBatchMaxRows :: nat where "outboxBatchMaxRows = 500"
definition outboxBatchMaxMessageBytes :: nat where "outboxBatchMaxMessageBytes = 2 ^ 20"

text \<open>
  The inner loop of \<open>AddOutboxEvents\<close>: how many events the next batch takes, given the rows
  and bytes it already has. An event is represented by its message.
\<close>

fun batch_rows :: "string list \<Rightarrow> nat \<Rightarrow> nat \<Rightarrow> nat" where
  "batch_rows [] rows used = rows"
| "batch_rows (e # es) rows used =
     (if \<not> rows < outboxBatchMaxRows then rows
      else if rows > 0 \<and> used + length e > outboxBatchMaxMessageBytes then rows
      else batch_rows es (rows + 1) (used + length e))"

lemma batch_rows_bounds: "rows \<le> batch_rows es rows used" "batch_rows es rows used \<le> rows + length es"
  "rows \<le> outboxBatchMaxRows \<Longrightarrow> batch_rows es rows used \<le> outboxBatchMaxRows"
  by (induction es rows used rule: batch_rows.induct) auto

lemma batch_rows_pos: "es \<noteq> [] \<Longrightarrow> 0 < batch_rows es 0 0"
  using batch_rows_bounds(1) [of "Suc 0"] by (cases es) (auto simp: outboxBatchMaxRows_def Suc_le_eq)

text \<open>
  \<open>AddOutboxEvents\<close>; \<open>create i batch\<close> is the database's answer to the \<open>i\<close>-th insert, with
  the rows inserted so far in \<open>db\<close>.
\<close>

function add_batches :: "(nat \<Rightarrow> string list \<Rightarrow> string option) \<Rightarrow> nat \<Rightarrow> string list \<Rightarrow> string list list \<Rightarrow>
    string list list \<times> string option" where
  "add_batches create i events db =
     (if events = [] then (db, None)
      else
        (let k = batch_rows events 0 0; batch = take k events
         in case create i batch of
              Some e \<Rightarrow> (db, Some e)
            | None \<Rightarrow> add_batches create (i + 1) (drop k events) (db @ [batch])))"
  by pat_completeness auto
termination
  by (relation "measure (\<lambda>(c, i, es, db). length es)") (auto intro!: diff_less simp: batch_rows_pos)

declare add_batches.simps [simp del]

definition AddOutboxEvents ::
  "bool \<Rightarrow> (nat \<Rightarrow> string list \<Rightarrow> string option) \<Rightarrow> string list \<Rightarrow> string list list \<times> string option" where
  "AddOutboxEvents has_tx create events =
     (if \<not> has_tx then ([], Some ''database transaction is nil'') else add_batches create 0 events [])"

section \<open>Properties\<close>

lemma strip_left_None: "find (\<lambda>w. w \<noteq> [] \<and> prefix w s) ws = None \<Longrightarrow> strip_left ws s = s"
  by (subst strip_left.simps) simp

lemma strip_left_Some:
  "find (\<lambda>w. w \<noteq> [] \<and> prefix w s) ws = Some w \<Longrightarrow> strip_left ws s = strip_left ws (drop (length w) s)"
  by (subst strip_left.simps) simp

lemma strip_left_stuck:
  assumes "w \<in> set ws" "w \<noteq> []"
  shows "\<not> prefix w (strip_left ws s)"
  using assms
proof (induction ws s rule: strip_left.induct)
  case (1 ws s)
  show ?case
  proof (cases "find (\<lambda>w. w \<noteq> [] \<and> prefix w s) ws")
    case None
    with "1.prems" show ?thesis by (auto simp: strip_left_None find_None_iff)
  next
    case (Some v)
    with "1.IH" "1.prems" show ?thesis by (simp add: strip_left_Some)
  qed
qed

lemma strip_left_suffix: "\<exists>p. s = p @ strip_left ws s"
proof (induction ws s rule: strip_left.induct)
  case (1 ws s)
  show ?case
  proof (cases "find (\<lambda>w. w \<noteq> [] \<and> prefix w s) ws")
    case None
    then show ?thesis by (simp add: strip_left_None)
  next
    case (Some w)
    then have "prefix w s" by (auto simp: find_Some_iff)
    then have s: "s = w @ drop (length w) s" by (auto simp: prefix_def)
    from "1.IH" [OF Some] obtain p where "drop (length w) s = p @ strip_left ws (drop (length w) s)" by blast
    with s have "s = (w @ p) @ strip_left ws (drop (length w) s)" by simp
    then show ?thesis unfolding strip_left_Some [OF Some] by blast
  qed
qed

lemma trim_space_idem [simp]: "trim_space (trim_space s) = trim_space s"
proof -
  define l where "l = strip_left space_runes s"
  define r where "r = strip_left (map rev space_runes) (rev l)"
  have t: "trim_space s = rev r" by (simp add: trim_space_def l_def r_def)
  obtain p where "rev l = p @ r" using strip_left_suffix r_def by metis
  then have l: "l = rev r @ rev p" by (metis rev_append rev_rev_ident)
  have "\<not> prefix w (rev r)" if "w \<in> set space_runes" "w \<noteq> []" for w
    using strip_left_stuck [OF that, of s] unfolding l_def [symmetric] l by (metis prefix_prefix)
  then have "strip_left space_runes (rev r) = rev r" by (intro strip_left_id) blast
  moreover have "strip_left (map rev space_runes) r = r"
    by (intro strip_left_id ballI impI) (simp add: r_def strip_left_stuck)
  ultimately show ?thesis unfolding t by (simp add: trim_space_def)
qed

text \<open>
  The contract of event ids is the same at every edge: an id that was normalised once, when
  the event was produced, normalises to itself when it is decoded and when it is recorded in
  the inbox, so that all three agree on the deduplication key.
\<close>

theorem NormalizeEventID_stable:
  assumes "NormalizeEventID i = Some eid"
  shows "NormalizeEventID eid = Some eid"
proof -
  have "eid = trim_space i" using assms by (auto simp: NormalizeEventID_def Let_def split: if_splits option.splits)
  then show ?thesis using assms by (simp add: NormalizeEventID_def Let_def split: if_splits option.splits)
qed

text \<open>The bytes of a batch, and what \<open>AddOutboxEvents\<close> promises of one.\<close>

definition batch_ok :: "string list \<Rightarrow> bool" where
  "batch_ok b \<longleftrightarrow> b \<noteq> [] \<and> length b \<le> outboxBatchMaxRows \<and>
     (length b = 1 \<or> sum_list (map length b) \<le> outboxBatchMaxMessageBytes)"

lemma batch_rows_bytes:
  assumes "0 < rows" "used \<le> outboxBatchMaxMessageBytes \<or> batch_rows es rows used = rows"
  shows "batch_rows es rows used = rows \<or>
    used + sum_list (map length (take (batch_rows es rows used - rows) es)) \<le> outboxBatchMaxMessageBytes"
  using assms
proof (induction es rows used rule: batch_rows.induct)
  case (2 e es rows used)
  show ?case
  proof (cases "\<not> rows < outboxBatchMaxRows \<or> used + length e > outboxBatchMaxMessageBytes")
    case True
    with "2.prems" show ?thesis by auto
  next
    case False
    then have step: "batch_rows (e # es) rows used = batch_rows es (rows + 1) (used + length e)" by simp
    have ge: "rows + 1 \<le> batch_rows es (rows + 1) (used + length e)" by (rule batch_rows_bounds(1))
    then have k: "batch_rows es (rows + 1) (used + length e) - rows =
        Suc (batch_rows es (rows + 1) (used + length e) - (rows + 1))" by simp
    from "2.IH" False have "batch_rows es (rows + 1) (used + length e) = rows + 1 \<or>
      used + length e + sum_list (map length (take (batch_rows es (rows + 1) (used + length e) - (rows + 1)) es))
        \<le> outboxBatchMaxMessageBytes" by auto
    with False show ?thesis unfolding step k by (auto simp del: batch_rows.simps)
  qed
qed simp

lemma first_batch_ok:
  assumes "events \<noteq> []"
  shows "batch_ok (take (batch_rows events 0 0) events)"
proof -
  obtain e es where ev: "events = e # es" using assms by (cases events) auto
  have k: "batch_rows events 0 0 = batch_rows es 1 (length e)"
    by (simp add: ev outboxBatchMaxRows_def)
  have ge: "1 \<le> batch_rows es 1 (length e)" by (rule batch_rows_bounds(1))
  have le: "batch_rows es 1 (length e) \<le> Suc (length es)" using batch_rows_bounds(2) [of es 1] by simp
  have rows: "batch_rows es 1 (length e) \<le> outboxBatchMaxRows"
    by (rule batch_rows_bounds(3)) (simp add: outboxBatchMaxRows_def)
  have "batch_rows es 1 (length e) = 1" if "\<not> length e \<le> outboxBatchMaxMessageBytes"
    using that by (cases es) auto
  then have "batch_rows es 1 (length e) = 1 \<or>
      length e + sum_list (map length (take (batch_rows es 1 (length e) - 1) es)) \<le> outboxBatchMaxMessageBytes"
    using batch_rows_bytes [of 1 "length e" es] by linarith
  then show ?thesis
    unfolding k batch_ok_def ev using ge le rows
    by (cases "batch_rows es 1 (length e)") auto
qed

lemma add_batches_all:
  assumes "add_batches create i events db = (db', None)"
  shows "concat db' = concat db @ events \<and> (\<forall>b \<in> set db' - set db. batch_ok b)"
  using assms
proof (induction create i events db rule: add_batches.induct)
  case (1 create i events db)
  show ?case
  proof (cases "events = []")
    case True
    with "1.prems" show ?thesis by (simp add: add_batches.simps)
  next
    case False
    let ?k = "batch_rows events 0 0"
    from "1.prems" False have c: "create i (take ?k events) = None"
      and rec: "add_batches create (i + 1) (drop ?k events) (db @ [take ?k events]) = (db', None)"
      by (subst (asm) add_batches.simps, auto simp: Let_def split: option.splits)+
    from "1.IH" [OF False refl refl c rec] first_batch_ok [OF False] show ?thesis by auto
  qed
qed

text \<open>
  The outbox writes every event exactly once and in order: when no insert fails, the
  batches are the events, cut into non-empty pieces of at most 500 rows and at most 1 MiB of
  messages, except that a message that alone is larger is a batch of its own. The loop ends
  for every input.
\<close>

theorem AddOutboxEvents_partitions:
  assumes "AddOutboxEvents True create events = (batches, None)"
  shows "concat batches = events \<and> (\<forall>b \<in> set batches. batch_ok b)"
  using add_batches_all [of create 0 events "[]" batches] assms by (simp add: AddOutboxEvents_def)

section \<open>Witnesses\<close>

lemma demo_event_id: "NormalizeEventID '' e:7'' = Some ''e:7''"
proof -
  have "find (\<lambda>w. w \<noteq> [] \<and> prefix w '' e:7'') space_runes = Some '' ''"
    and a: "find (\<lambda>w. w \<noteq> [] \<and> prefix w ''e:7'') space_runes = None"
    and b: "find (\<lambda>w. w \<noteq> [] \<and> prefix w ''7:e'') (map rev space_runes) = None"
    by (simp_all add: space_runes_def)
  then have "strip_left space_runes '' e:7'' = strip_left space_runes ''e:7''"
    by (simp add: strip_left_Some)
  then have "trim_space '' e:7'' = ''e:7''"
    by (simp add: trim_space_def strip_left_None [OF a] strip_left_None [OF b])
  then show ?thesis
    by (simp add: NormalizeEventID_def byte_def ConsumerInboxEventIDMaxLength_def)
qed

theorem NormalizeEventID_stable_witness: "NormalizeEventID ''e:7'' = Some ''e:7''"
  by (rule NormalizeEventID_stable [OF demo_event_id])

theorem AddOutboxEvents_partitions_witness:
  "\<exists>batches. AddOutboxEvents True (\<lambda>_ _. None) [''a'', ''bc''] = (batches, None) \<and> concat batches = [''a'', ''bc'']"
proof -
  have run: "AddOutboxEvents True (\<lambda>_ _. None) [''a'', ''bc''] = ([[''a'', ''bc'']], None)"
    unfolding AddOutboxEvents_def
    by (subst add_batches.simps, simp add: outboxBatchMaxRows_def outboxBatchMaxMessageBytes_def)
      (subst add_batches.simps, simp)
  from AddOutboxEvents_partitions [OF run] run show ?thesis by blast
qed

end
