(* ===== verification/LikeRelay.thy ===== *)
theory LikeRelay
  imports LikeStore Eventing
begin

text \<open>
  The relays that publish dirty posts and dirty behaviour pairs (\<open>tasks/like_snapshot_relay.go\<close>,
  \<open>tasks/like_behavior_relay.go\<close>). Any number of them run beside the API servers. The theory
  has the atomic steps of all of them as one relation, \<open>queue_step\<close>, on the store and a ghost
  state; the extension \<open>queue_system\<close> of the queue interface by a writer shows that no step
  loses a change. The Go functions of the snapshot relay are then shown to be sequences of
  such steps (\<open>LikeRelayRound\<close>), whatever the other clients do between and during their calls.
\<close>

section \<open>The steps of a queue and its clients\<close>

inductive queue_step ::
  "('s \<Rightarrow> string \<Rightarrow> 'v option) \<Rightarrow> ('c \<Rightarrow> 's \<Rightarrow> bool) \<Rightarrow>
   (int \<Rightarrow> int \<Rightarrow> string \<Rightarrow> 'c \<Rightarrow> 's \<Rightarrow> 's \<times> (string \<times> string) list res) \<Rightarrow>
   (string \<Rightarrow> string \<Rightarrow> 'v \<Rightarrow> 's \<Rightarrow> 's \<times> bool res) \<Rightarrow> (string \<Rightarrow> string \<Rightarrow> 's \<Rightarrow> 's \<times> bool res) \<Rightarrow>
   (int \<Rightarrow> int \<Rightarrow> 's \<Rightarrow> 's \<times> nat res) \<Rightarrow> ('s \<Rightarrow> 's \<Rightarrow> bool) \<Rightarrow>
   's \<times> 'v ghost \<Rightarrow> 's \<times> 'v ghost \<Rightarrow> bool"
  for val choice_ok claim ack requeue reap writes where
  written: "writes s s' \<Longrightarrow>
    queue_step val choice_ok claim ack requeue reap writes (s, g)
      (s', g\<lparr>latest := \<lambda>x. if val s' x = val s x then latest g x else val s' x\<rparr>)"
| reaped: "reap now n s = (s', k) \<Longrightarrow>
    queue_step val choice_ok claim ack requeue reap writes (s, g) (s', g)"
| claimed: "choice_ok ch s \<Longrightarrow> q \<notin> prefixes g \<Longrightarrow> claim n d q ch s = (s', gs) \<Longrightarrow>
    queue_step val choice_ok claim ack requeue reap writes (s, g) (s', g\<lparr>prefixes := insert q (prefixes g)\<rparr>)"
| was_loaded: "val s x = Some v \<Longrightarrow> q \<in> prefixes g \<Longrightarrow> c = claim_token q x \<Longrightarrow>
    queue_step val choice_ok claim ack requeue reap writes (s, g) (s, g\<lparr>loaded := insert (x, c, v) (loaded g)\<rparr>)"
| was_published: "(x, c, v) \<in> loaded g \<Longrightarrow>
    queue_step val choice_ok claim ack requeue reap writes (s, g) (s, g\<lparr>published := insert (x, v) (published g)\<rparr>)"
| acked: "(x, c, v) \<in> loaded g \<Longrightarrow> (x, v) \<in> published g \<Longrightarrow> ack x c v s = (s', b) \<Longrightarrow>
    queue_step val choice_ok claim ack requeue reap writes (s, g) (s', g)"
| requeued: "requeue x c s = (s', b) \<Longrightarrow>
    queue_step val choice_ok claim ack requeue reap writes (s, g) (s', g)"

text \<open>A writer announces what it changes and leaves the owners alone.\<close>

locale queue_system = work_queue val pend owner choice_ok claim ack requeue reap
  for val :: "'s \<Rightarrow> string \<Rightarrow> 'v option" and pend owner and choice_ok :: "'c \<Rightarrow> 's \<Rightarrow> bool"
    and claim ack requeue reap +
  fixes writes :: "'s \<Rightarrow> 's \<Rightarrow> bool"
  assumes writes_owner: "writes s s' \<Longrightarrow> owner s' x = owner s x"
    and writes_pend: "writes s s' \<Longrightarrow> pend s x \<Longrightarrow> pend s' x"
    and writes_val: "writes s s' \<Longrightarrow> val s' x \<noteq> val s x \<Longrightarrow> pend s' x"
begin

abbreviation step :: "'s \<times> 'v ghost \<Rightarrow> 's \<times> 'v ghost \<Rightarrow> bool" where
  "step \<equiv> queue_step val choice_ok claim ack requeue reap writes"

lemma step_inv:
  assumes "step a b" "inv (fst a) (snd a)"
  shows "inv (fst b) (snd b)"
  using assms
proof (induction rule: queue_step.induct)
  case (written s s' g)
  show ?case
    unfolding fst_conv snd_conv
  proof (rule announce_inv)
    show "inv s g" using written.prems by simp
    show "owner s' x = owner s x" "pend s x \<Longrightarrow> pend s' x" for x
      using writes_owner writes_pend written.hyps by auto
    show "(val s' x = val s x \<and>
        latest (g\<lparr>latest := \<lambda>x. if val s' x = val s x then latest g x else val s' x\<rparr>) x = latest g x) \<or>
      (pend s' x \<and> latest (g\<lparr>latest := \<lambda>x. if val s' x = val s x then latest g x else val s' x\<rparr>) x = val s' x)" for x
      using writes_val [OF written.hyps] by auto
  qed simp_all
qed (auto intro: reap_inv claim_inv load_inv publish_inv ack_inv requeue_inv)

lemma reach_inv:
  assumes "step\<^sup>*\<^sup>* a b" "inv (fst a) (snd a)"
  shows "inv (fst b) (snd b)"
  using assms by (induction rule: rtranclp_induct) (auto intro: step_inv)

lemma step_grows:
  "step a b \<Longrightarrow> loaded (snd a) \<subseteq> loaded (snd b) \<and> published (snd a) \<subseteq> published (snd b) \<and>
     prefixes (snd a) \<subseteq> prefixes (snd b)"
  by (induction rule: queue_step.induct) auto

lemma reach_grows:
  assumes "step\<^sup>*\<^sup>* a b"
  shows "loaded (snd a) \<subseteq> loaded (snd b)" "published (snd a) \<subseteq> published (snd b)" "prefixes (snd a) \<subseteq> prefixes (snd b)"
  using assms by (induction rule: rtranclp_induct) (use step_grows in blast)+

lemma reach_finite:
  assumes "step\<^sup>*\<^sup>* a b" "finite (prefixes (snd a))"
  shows "finite (prefixes (snd b))"
  using assms
proof (induction rule: rtranclp_induct)
  case (step y z)
  have "finite (prefixes (snd y)) \<Longrightarrow> finite (prefixes (snd z))"
    using step.hyps(2) by (induction rule: queue_step.induct) auto
  with step.IH step.prems show ?case by blast
qed

text \<open>An item that is neither pending nor owned was delivered at its latest value.\<close>

lemma drained_delivered:
  assumes "step\<^sup>*\<^sup>* a (s, g)" "inv (fst a) (snd a)" "\<not> pend s x" "owner s x = None" "latest g x = Some v"
  shows "(x, v) \<in> published g"
  using reach_inv [OF assms(1,2)] assms(3-5) unfolding delivery_inv_def fst_conv snd_conv by (metis option.distinct(1))

end

section \<open>The writers of the like queues\<close>

text \<open>What a run of the mutation script does to the two queues.\<close>

lemma zdom_pexpireat: "x |\<in>| zdom (pexpireat now t e) \<Longrightarrow> x |\<in>| zdom e"
  by (cases "(now, t, e)" rule: pexpireat.cases; cases "fst (the e)") (auto split: if_splits)

lemma refresh_order_sub:
  "x |\<in>| zdom (refresh_user_ttl u arming now ttl h s (KUserLikesOrder w)) \<Longrightarrow> x |\<in>| zdom (s (KUserLikesOrder w))"
  by (cases "w = u") (auto simp: refresh_user_ttl_order split: if_splits dest: zdom_pexpireat)

text \<open>
  The contract of a writer on one post and one user: it takes no claim away, only adds dirty
  items, and every post whose counters it changes and every pair whose state it changes is
  dirty afterwards; a changed post was ready and its version is one higher.
\<close>

definition post_announced :: "lstore \<Rightarrow> lstore \<Rightarrow> string \<Rightarrow> bool" where
  "post_announced s s' x \<longleftrightarrow>
     snap_pend s' x \<and> rget (s (KReady x)) = Some ''1'' \<and> digits_entry (s (KCount x)) \<and> digits_entry (s (KVersion x)) \<and>
     digits_entry (s' (KCount x)) \<and> digits_entry (s' (KVersion x)) \<and>
     num_of (s' (KVersion x)) = num_of (s (KVersion x)) + 1"

definition encoded :: "string \<Rightarrow> bool" where
  "encoded st \<longleftrightarrow> (\<exists>flag v us. CHR ''|'' \<notin> set flag \<and> st = behavior_state flag v us)"

definition announces :: "string \<Rightarrow> lstore \<Rightarrow> lstore \<Rightarrow> bool" where
  "announces p s s' \<longleftrightarrow>
     s' KClaims = s KClaims \<and> s' KBehaviorClaims = s KBehaviorClaims \<and>
     (\<forall>x. snap_pend s x \<longrightarrow> snap_pend s' x) \<and> (\<forall>x. beh_pend s x \<longrightarrow> beh_pend s' x) \<and>
     (\<forall>x. hget (s' KBehaviorState) x = hget (s KBehaviorState) x \<or> beh_pend s' x) \<and>
     (\<forall>x st. hget (s' KBehaviorState) x = Some st \<longrightarrow> hget (s KBehaviorState) x = Some st \<or> encoded st) \<and>
     (\<forall>x. rget (s' (KReady x)) = rget (s (KReady x))) \<and>
     (\<forall>x. (s' (KCount x) = s (KCount x) \<and> s' (KVersion x) = s (KVersion x)) \<or> post_announced s s' x) \<and>
     (\<forall>x. snap_pend s' x \<longrightarrow> snap_pend s x \<or> x = p \<or> (\<exists>w. x |\<in>| zdom (s (KUserLikesOrder w)))) \<and>
     (\<forall>x w. x |\<in>| zdom (s' (KUserLikesOrder w)) \<longrightarrow> x |\<in>| zdom (s (KUserLikesOrder w)) \<or> x = p)"

lemma encoded_state [simp]: "encoded (behavior_state ''0'' v us)" "encoded (behavior_state ''1'' v us)"
  unfolding encoded_def by (rule exI [of _ "''0''"], force) (rule exI [of _ "''1''"], force)

lemma announces_refresh:
  "announces p s s1 \<Longrightarrow> announces p s (refresh_user_ttl u arming now ttl h s1)"
  unfolding announces_def post_announced_def snap_pend_def beh_pend_def
  by (simp del: fmlookup_dom_iff) (meson refresh_order_sub)

lemma announces_refl: "announces p s s"
  by (simp add: announces_def)

lemma zdom_zadd: "x |\<in>| zdom (zadd sc p e) \<Longrightarrow> x |\<in>| zdom e \<or> x = p"
  by (cases "(sc, p, e)" rule: zadd.cases) auto

lemma plan_in_order:
  assumes "plan_eviction u s = Inr (c, d)" "mutate_types_ok u p s"
  shows "c |\<in>| zdom (s (KUserLikesOrder u))"
  using plan_eviction_Inr(2) [OF assms(1)] by (rule zfirst_SomeD(1))

lemma mutate_announces:
  assumes run: "mutate_script u p liked now_ms ttl arming cap t s = (s', Inr r)"
  shows "announces p s s'"
  using run
proof (cases rule: mutate_script_Inr_cases)
  case unchanged
  then show ?thesis by (simp add: announces_refresh announces_refl)
next
  case unliked
  note g = mutate_guards_None [OF unliked(1)]
  from g(3) have tk: "type_ok TSet (s KDirty)" "type_ok TSet (s KBehaviorDirty)" "type_ok THash (s KBehaviorState)"
    by (auto simp: mutate_types_ok_def)
  show ?thesis
    unfolding unliked(5) using tk g(2,10,11)
    by (intro announces_refresh)
      (auto simp: announces_def post_announced_def snap_pend_def beh_pend_def smembers_sadd hmap_hset zmap_zrem)
next
  case (liked plan)
  note g = mutate_guards_None [OF liked(1)]
  from g(3,5) have tk: "type_ok TSet (s KDirty)" "type_ok TSet (s KBehaviorDirty)" "type_ok THash (s KBehaviorState)"
    by (auto simp: mutate_types_ok_def)
  have pe: "n = num_of (s (KCount c)) \<and> v = num_of (s (KVersion c)) \<and> c \<noteq> p \<and> rget (s (KReady c)) = Some ''1'' \<and>
      digits_entry (s (KCount c)) \<and> digits_entry (s (KVersion c)) \<and> c |\<in>| zdom (s (KUserLikesOrder u))"
    if "plan = Some (c, Some (n, v))" for c n v
    using plan_eviction_Inr(1,6) [OF liked(5) [OF that]] liked(3) plan_in_order [OF liked(5) [OF that] g(3)] by auto
  let ?e = "apply_eviction u plan now_ms (time_us t) s"
  have order: "x |\<in>| zdom (?e (KUserLikesOrder w)) \<Longrightarrow> x |\<in>| zdom (s (KUserLikesOrder w))" for x w
    by (auto simp: apply_eviction_def zmap_zrem split: option.splits if_splits)
  show ?thesis
  proof (cases "\<exists>c n v. plan = Some (c, Some (n, v))")
    case True
    then obtain c n v where pl: "plan = Some (c, Some (n, v))" by blast
    note pc = pe [OF pl]
    have e: "?e KDirty = sadd c (s KDirty)" "?e KBehaviorDirty = sadd (pair_of u c) (s KBehaviorDirty)"
      "?e KBehaviorState = hset (pair_of u c) (behavior_state ''0'' (v + 1) (time_us t)) (s KBehaviorState)"
      "?e (KReady x) = (if x = c then persist (s (KReady c)) else s (KReady x))"
      "?e (KCount x) = (if x = c then Some (RStr (show_nat (n - 1)), None) else s (KCount x))"
      "?e (KVersion x) = (if x = c then Some (RStr (show_nat (v + 1)), None) else s (KVersion x))"
      "?e KClaims = s KClaims" "?e KBehaviorClaims = s KBehaviorClaims" for x
      by (simp_all add: pl apply_eviction_def)
    show ?thesis
      unfolding liked(6)
    proof (rule announces_refresh, unfold announces_def post_announced_def snap_pend_def beh_pend_def, intro conjI allI impI)
      fix x w assume "x |\<in>| zdom (touch_post u p ''1'' (num_of (s (KCount p)) + 1) (num_of (s (KVersion p)) + 1) now_ms
          (time_us t) (add_relation u p (time_us t) ?e) (KUserLikesOrder w))"
      then show "x |\<in>| zdom (s (KUserLikesOrder w)) \<or> x = p"
        using order by (auto split: if_splits dest!: zdom_zadd)
    qed (use tk pc g(2,10,11) in \<open>auto simp: e smembers_sadd hmap_hset type_ok_sadd type_ok_hset split: if_splits\<close>)
  next
    case False
    then have k: "?e k = s k" if "\<And>w. k \<noteq> KUserLikes w \<and> k \<noteq> KUserLikesOrder w" for k
      using that by (auto simp: apply_eviction_def split: option.splits)
    show ?thesis
      unfolding liked(6) using tk g(2,10,11) order
      by (intro announces_refresh)
        (auto simp: k announces_def post_announced_def snap_pend_def beh_pend_def smembers_sadd hmap_hset dest!: zdom_zadd)
  qed
qed

text \<open>
  A write of the service: a successful mutation, with the ids the Go code passes and counters
  that stay in the range of an \<open>int64\<close>. A failed mutation writes nothing.
\<close>

definition int64_counters :: "lstore \<Rightarrow> bool" where
  "int64_counters s \<longleftrightarrow> (\<forall>x. num_of (s (KVersion x)) < 2 ^ 63 \<and> num_of (s (KCount x)) < 2 ^ 63)"

inductive like_write :: "lstore \<Rightarrow> lstore \<Rightarrow> bool" where
  "mutate_script (show_nat u) (show_nat p) liked now_ms ttl arming cap t s = (s', Inr r) \<Longrightarrow>
   int64_counters s \<Longrightarrow> int64_counters s' \<Longrightarrow> like_write s s'"

lemma like_writeD:
  assumes "like_write s s'"
  obtains p where "announces (show_nat p) s s'" "int64_counters s" "int64_counters s'"
  using assms by (cases rule: like_write.cases) (auto dest: mutate_announces)

lemma snap_val_digits:
  assumes "rget (s (KReady x)) = Some ''1''" "digits_entry (s (KCount x))" "digits_entry (s (KVersion x))"
    "num_of (s (KCount x)) < 2 ^ 63" "num_of (s (KVersion x)) < 2 ^ 63"
  shows "snap_val s x = Some (int (num_of (s (KCount x))), int (num_of (s (KVersion x))))"
  using digits_entry_parse [OF assms(2,4)] digits_entry_parse [OF assms(3,5)] assms(1) by (auto simp: snap_val_def)

text \<open>A write keeps the value of a post, or makes it dirty with the next version.\<close>

lemma like_write_val:
  assumes "like_write s s'"
  shows "snap_val s' x = snap_val s x \<or>
    (snap_pend s' x \<and> (\<exists>c v c'. snap_val s x = Some (c, v) \<and> snap_val s' x = Some (c', v + 1)))"
proof -
  obtain p where a: "announces (show_nat p) s s'"
    and b: "int64_counters s" "int64_counters s'"
    using assms by (rule like_writeD)
  show ?thesis
  proof (cases "s' (KCount x) = s (KCount x) \<and> s' (KVersion x) = s (KVersion x)")
    case True
    with a have "snap_val s' x = snap_val s x" by (simp add: snap_val_def announces_def)
    then show ?thesis ..
  next
    case False
    with a have n: "post_announced s s' x" by (auto simp: announces_def)
    then have v': "snap_val s' x = Some (int (num_of (s' (KCount x))), int (num_of (s' (KVersion x))))"
      using a n b(2) unfolding announces_def post_announced_def int64_counters_def
      by (intro snap_val_digits) metis+
    have "snap_val s x = Some (int (num_of (s (KCount x))), int (num_of (s (KVersion x))))"
      using n b by (intro snap_val_digits) (auto simp: post_announced_def int64_counters_def)
    with v' n show ?thesis by (auto simp: post_announced_def)
  qed
qed

interpretation snaps: queue_system snap_val snap_pend snap_owner sample_ok claim_script
  "\<lambda>x c v. ack_claim_script x c" requeue_claim_script reap_expired_script like_write
proof (intro queue_system.intro queue_system_axioms.intro)
  show "work_queue snap_val snap_pend snap_owner sample_ok claim_script (\<lambda>x c v. ack_claim_script x c)
      requeue_claim_script reap_expired_script"
    by (rule snapq.work_queue_axioms)
  fix s s' x assume w: "like_write s s'"
  then obtain p where a: "announces (show_nat p) s s'" by (rule like_writeD)
  show "snap_owner s' x = snap_owner s x" using a by (simp add: announces_def snap_owner_def)
  show "snap_pend s' x" if "snap_pend s x" using a that by (simp add: announces_def)
  show "snap_pend s' x" if "snap_val s' x \<noteq> snap_val s x" using like_write_val [OF w, of x] that by auto
qed

interpretation behs: queue_system beh_val beh_pend beh_owner pick_ok behavior_claim_script
  behavior_ack_script behavior_requeue_script behavior_reap_expired_script like_write
proof (intro queue_system.intro queue_system_axioms.intro)
  show "work_queue beh_val beh_pend beh_owner pick_ok behavior_claim_script behavior_ack_script
      behavior_requeue_script behavior_reap_expired_script"
    by (rule behq.work_queue_axioms)
  fix s s' x assume w: "like_write s s'"
  then obtain p where a: "announces (show_nat p) s s'" by (rule like_writeD)
  show "beh_owner s' x = beh_owner s x" using a by (simp add: announces_def beh_owner_def)
  show "beh_pend s' x" if "beh_pend s x" using a that by (simp add: announces_def)
  show "beh_pend s' x" if "beh_val s' x \<noteq> beh_val s x"
    using a that unfolding announces_def beh_val_def by metis
qed

abbreviation snap_step :: "lstore \<times> (int \<times> int) ghost \<Rightarrow> lstore \<times> (int \<times> int) ghost \<Rightarrow> bool" where
  "snap_step \<equiv> queue_step snap_val sample_ok claim_script (\<lambda>x c v. ack_claim_script x c)
     requeue_claim_script reap_expired_script like_write"

abbreviation beh_step :: "lstore \<times> string ghost \<Rightarrow> lstore \<times> string ghost \<Rightarrow> bool" where
  "beh_step \<equiv> queue_step beh_val pick_ok behavior_claim_script behavior_ack_script
     behavior_requeue_script behavior_reap_expired_script like_write"

section \<open>Ids and versions along the steps\<close>

text \<open>Every queued or liked post is named by the decimal id the service wrote.\<close>

definition canonical :: "string \<Rightarrow> bool" where
  "canonical x \<longleftrightarrow> x = show_nat (tonum x)"

lemma canonical_show [simp]: "canonical (show_nat n)"
  by (simp add: canonical_def)

definition snap_canon :: "lstore \<Rightarrow> bool" where
  "snap_canon s \<longleftrightarrow>
     (\<forall>x. snap_pend s x \<or> snap_owner s x \<noteq> None \<or> (\<exists>w. x |\<in>| zdom (s (KUserLikesOrder w))) \<longrightarrow> canonical x)"

text \<open>
  What the relays have read or published of a post is not newer than its stored value, and
  what has the stored version is the stored value; the latest announced value is stored.
\<close>

definition version_inv :: "lstore \<Rightarrow> (int \<times> int) ghost \<Rightarrow> bool" where
  "version_inv s g \<longleftrightarrow>
     (\<forall>x c v. (x, (c, v)) \<in> published g \<or> (\<exists>k. (x, k, (c, v)) \<in> loaded g) \<longrightarrow>
        (\<exists>c' v'. snap_val s x = Some (c', v') \<and> (v < v' \<or> (v = v' \<and> c = c')))) \<and>
     (\<forall>x cv. latest g x = Some cv \<longrightarrow> snap_val s x = Some cv)"

lemma version_inv_same:
  assumes "version_inv s g" "\<And>x. snap_val s' x = snap_val s x" "published g' = published g"
    "loaded g' = loaded g" "latest g' = latest g"
  shows "version_inv s' g'"
  using assms by (simp add: version_inv_def)

lemma ack_val: "ack_claim_script x c s = (s', b) \<Longrightarrow> snap_val s' y = snap_val s y"
  by (auto simp: ack_claim_script_def split: if_splits intro!: snap_val_cong)

lemma snap_step_version:
  assumes "snap_step a b" "version_inv (fst a) (snd a)"
  shows "version_inv (fst b) (snd b)"
  using assms
proof (induction rule: queue_step.induct)
  case (written s s' g)
  let ?g = "g\<lparr>latest := \<lambda>x. if snap_val s' x = snap_val s x then latest g x else snap_val s' x\<rparr>"
  have old: "\<exists>c' v'. snap_val s' x = Some (c', v') \<and> (v < v' \<or> (v = v' \<and> c = c'))"
    if "(x, (c, v)) \<in> published g \<or> (\<exists>k. (x, k, (c, v)) \<in> loaded g)" for x c v
  proof -
    from written.prems that obtain c0 v0 where c0: "snap_val s x = Some (c0, v0)" "v < v0 \<or> (v = v0 \<and> c = c0)"
      unfolding version_inv_def fst_conv snd_conv by blast
    from like_write_val [OF written.hyps, of x] show ?thesis
    proof
      assume "snap_val s' x = snap_val s x"
      with c0 show ?thesis by auto
    next
      assume "snap_pend s' x \<and> (\<exists>c v c'. snap_val s x = Some (c, v) \<and> snap_val s' x = Some (c', v + 1))"
      with c0 obtain c' where "snap_val s' x = Some (c', v0 + 1)" by auto
      moreover have "v < v0 + 1" using c0(2) by auto
      ultimately show ?thesis by blast
    qed
  qed
  have "latest g x = Some cv \<longrightarrow> snap_val s x = Some cv" for x cv
    using written.prems unfolding version_inv_def fst_conv snd_conv by blast
  then have lat: "latest ?g x = Some cv \<longrightarrow> snap_val s' x = Some cv" for x cv by simp
  have pl: "published ?g = published g" "loaded ?g = loaded g" by simp_all
  show ?case
    unfolding version_inv_def fst_conv snd_conv pl by (intro conjI allI lat) (blast intro: old)
next
  case (claimed ch s q g n d s' gs)
  then show ?case
    by (auto intro!: version_inv_same [of s g] dest: snapq.claim_val)
next
  case (acked x c v g s s' b)
  then show ?case by (auto intro!: version_inv_same [of s g] dest: ack_val)
next
  case (reaped now n s s' k g)
  then show ?case by (auto intro!: version_inv_same [of s g] dest: snapq.reap_val)
next
  case (requeued x c s s' b g)
  then show ?case by (auto intro!: version_inv_same [of s g] dest: snapq.requeue_val)
next
  case (was_loaded s x v q g c)
  then show ?case by (cases v) (simp add: version_inv_def, blast)
next
  case (was_published x c v g s)
  then show ?case by (cases v) (simp add: version_inv_def, blast)
qed

lemma snap_step_canon:
  assumes "snap_step a b" "snap_canon (fst a)"
  shows "snap_canon (fst b)"
  using assms
proof (induction rule: queue_step.induct)
  case (written s s' g)
  then obtain p where a: "announces (show_nat p) s s'" by (auto elim: like_writeD)
  have "canonical x" if "snap_pend s' x \<or> snap_owner s' x \<noteq> None \<or> (\<exists>w. x |\<in>| zdom (s' (KUserLikesOrder w)))" for x
    using that a written.prems canonical_show unfolding announces_def snap_canon_def snap_owner_def fst_conv by metis
  then show ?case by (simp add: snap_canon_def)
next
  case (claimed ch s q g n d s' gs)
  then have dis: "distinct ch" by (simp add: sample_ok_def)
  have ord: "s' (KUserLikesOrder w) = s (KUserLikesOrder w)" for w
    using claim_script_spec [OF claimed.hyps(3) dis] by auto
  have "canonical x" if "snap_pend s' x \<or> snap_owner s' x \<noteq> None \<or> (\<exists>w. x |\<in>| zdom (s' (KUserLikesOrder w)))" for x
    using that snapq.claim_item [OF claimed.hyps(1,3), of x] claimed.prems
    unfolding snap_canon_def ord fst_conv by metis
  then show ?case by (simp add: snap_canon_def)
next
  case (reaped now n s s' k g)
  have "snap_pend s' x \<or> snap_owner s' x \<noteq> None \<Longrightarrow> snap_pend s x \<or> snap_owner s x \<noteq> None" for x
    using reap_script_spec [OF reaped.hyps] by (auto simp: snap_pend_def snap_owner_def split: if_splits)
  moreover have "s' (KUserLikesOrder w) = s (KUserLikesOrder w)" for w
    using reap_script_spec [OF reaped.hyps] by auto
  ultimately show ?case using reaped.prems unfolding snap_canon_def fst_conv by metis
next
  case (requeued x c s s' b g)
  have "snap_pend s' y \<or> snap_owner s' y \<noteq> None \<Longrightarrow> snap_pend s y \<or> snap_owner s y \<noteq> None" for y
    using requeued.hyps by (auto simp: requeue_claim_script_def snap_pend_def snap_owner_def smembers_sadd hmap_hdel
        snap_types_ok_def split: if_splits)
  moreover have "s' (KUserLikesOrder w) = s (KUserLikesOrder w)" for w
    using requeued.hyps by (auto simp: requeue_claim_script_def split: if_splits)
  ultimately show ?case using requeued.prems unfolding snap_canon_def fst_conv by metis
next
  case (acked x c v g s s' b)
  have "snap_pend s' y \<or> snap_owner s' y \<noteq> None \<Longrightarrow> snap_pend s y \<or> snap_owner s y \<noteq> None" for y
    using acked.hyps by (auto simp: ack_claim_script_def snap_pend_def snap_owner_def hmap_hdel split: if_splits)
  moreover have "s' (KUserLikesOrder w) = s (KUserLikesOrder w)" for w
    using acked.hyps by (auto simp: ack_claim_script_def split: if_splits)
  ultimately show ?case using acked.prems unfolding snap_canon_def fst_conv by metis
qed simp_all

lemma snap_reach:
  assumes "snap_step\<^sup>*\<^sup>* a b"
  shows "version_inv (fst a) (snd a) \<Longrightarrow> version_inv (fst b) (snd b)" "snap_canon (fst a) \<Longrightarrow> snap_canon (fst b)"
  using assms by (induction rule: rtranclp_induct) (auto dest: snap_step_version snap_step_canon)

end
