(* ===== verification/LikeRelayRound.thy ===== *)
theory LikeRelayRound
  imports LikeRelay
begin

text \<open>
  A round of the snapshot relay (\<open>tasks/like_snapshot_relay.go\<close>): reap, claim up to the
  budget, then load, publish and acknowledge batch by batch, and give back whatever was not
  finished. Every function is translated with the failures it can meet; the theory shows that
  a round, successful or not, is a sequence of steps of \<open>queue_step\<close>.
\<close>

section \<open>The snapshot relay\<close>

type_synonym sys = "lstore \<times> (int \<times> int) ghost"

text \<open>
  What a round of the relay meets. Its remote calls are numbered; before call \<open>i\<close> the other
  clients act as \<open>re_other i\<close>, and between the commands of a pipeline as \<open>re_between i x\<close>,
  \<open>x\<close> being the post of the next command. Then come the failures of the call, the context,
  the clock, a fresh UUID, the sample the server draws, the failures of the two pipelines of
  a resolution, and the broker's answer with the events it stored when it failed.
\<close>

record relay_env =
  re_other :: "nat \<Rightarrow> sys \<Rightarrow> sys"
  re_between :: "nat \<Rightarrow> string \<Rightarrow> sys \<Rightarrow> sys"
  re_fault :: "nat \<Rightarrow> fault"
  re_ctx :: "nat \<Rightarrow> net_error option"
  re_now :: "nat \<Rightarrow> int"
  re_uuid :: "nat \<Rightarrow> sys \<Rightarrow> string"
  re_sample :: "nat \<Rightarrow> lstore \<Rightarrow> string list"
  re_round1 :: "nat \<Rightarrow> round_fault"
  re_uncached1 :: "nat \<Rightarrow> nat \<Rightarrow> bool"
  re_script_load :: "nat \<Rightarrow> go_error option"
  re_round2 :: "nat \<Rightarrow> round_fault"
  re_uncached2 :: "nat \<Rightarrow> nat \<Rightarrow> bool"
  re_publish :: "nat \<Rightarrow> envelope list \<Rightarrow> go_error option"
  re_stored :: "nat \<Rightarrow> envelope \<Rightarrow> bool"

definition join_err :: "go_error option \<Rightarrow> go_error option \<Rightarrow> go_error option" where
  "join_err a b = (case (a, b) of (None, _) \<Rightarrow> b | (_, None) \<Rightarrow> a | (Some x, Some y) \<Rightarrow> Some (JoinErr x y))"

definition ack_at :: "relay_env \<Rightarrow> nat \<Rightarrow> string \<Rightarrow> string \<Rightarrow> sys \<Rightarrow> sys \<times> bool res" where
  "ack_at env i x c sys =
     (case re_between env i x sys of (s, g) \<Rightarrow> (case ack_claim_script x c s of (s', r) \<Rightarrow> ((s', g), r)))"

definition requeue_at :: "relay_env \<Rightarrow> nat \<Rightarrow> string \<Rightarrow> string \<Rightarrow> sys \<Rightarrow> sys \<times> bool res" where
  "requeue_at env i x c sys =
     (case re_between env i x sys of (s, g) \<Rightarrow> (case requeue_claim_script x c s of (s', r) \<Rightarrow> ((s', g), r)))"

fun first_result_error :: "string \<Rightarrow> (snapshot_claim \<times> bool \<times> go_error option) list \<Rightarrow> go_error option" where
  "first_result_error what [] = None"
| "first_result_error what ((c, _, Some e) # rest) = Some (WrapErr what e)"
| "first_result_error what ((c, _, None) # rest) = first_result_error what rest"

definition resolveLikeSnapshotClaims ::
  "relay_env \<Rightarrow> nat \<Rightarrow> bool \<Rightarrow> snapshot_claim list \<Rightarrow> sys \<Rightarrow> sys \<times> go_error option" where
  "resolveLikeSnapshotClaims env i requeue claims sys =
     (if claims = [] then (sys, None)
      else
        (case resolveSnapshotClaims True True (re_ctx env i) (re_round1 env i) (re_uncached1 env i)
                (re_script_load env i) (re_round2 env i) (re_uncached2 env i)
                (if requeue then requeue_at env i else ack_at env i) claims sys of
           (sys', Inl e) \<Rightarrow> (sys', Some (WrapErr (if requeue then ''requeue claims'' else ''ack claims'') e))
         | (sys', Inr results) \<Rightarrow> (sys', first_result_error (if requeue then ''requeue'' else ''ack'') results)))"

text \<open>
  Loading the snapshots of a batch. The store each round trip sees is the one the other
  clients have left; the ghost state records what the relay's claims saw.
\<close>

fun mark_loaded :: "snapshot_claim list \<Rightarrow> sys \<Rightarrow> sys" where
  "mark_loaded [] sys = sys"
| "mark_loaded (c # cs) (s, g) =
     (case snap_val s (show_nat (sc_post c)) of
        None \<Rightarrow> mark_loaded cs (s, g)
      | Some v \<Rightarrow> mark_loaded cs (s, g\<lparr>loaded := insert (show_nat (sc_post c), sc_claim_id c, v) (loaded g)\<rparr>))"

function load_trace :: "relay_env \<Rightarrow> nat \<Rightarrow> snapshot_claim list \<Rightarrow> sys \<Rightarrow> sys list" where
  "load_trace env i claims sys =
     (if claims = [] then []
      else (let a = mark_loaded (take 32 claims) (re_other env i sys); b = re_other env (i + 1) a
            in a # b # load_trace env (i + 2) (drop 32 claims) b))"
  by pat_completeness auto
termination
  by (relation "measure (\<lambda>(env, i, claims, sys). length claims)") auto

declare load_trace.simps [simp del]

definition load_world :: "relay_env \<Rightarrow> nat \<Rightarrow> sys list \<Rightarrow> world" where
  "load_world env i tr k = (re_fault env (i + k), if k < length tr then fst (tr ! k) else (\<lambda>_. None))"

definition load_snapshots ::
  "relay_env \<Rightarrow> nat \<Rightarrow> snapshot_claim list \<Rightarrow> sys \<Rightarrow> (nat \<times> sys) \<times> (go_error + snapshot_read list)" where
  "load_snapshots env i claims sys =
     (let tr = load_trace env i claims sys
      in ((i + length tr, if tr = [] then sys else List.last tr),
          LoadSnapshots True True (re_ctx env i) (load_world env i tr) claims))"

text \<open>
  The loop over the reads: the claims to publish with their events, the claims to give back,
  and the first error.
\<close>

fun sort_reads ::
  "int \<Rightarrow> snapshot_read list \<Rightarrow> (snapshot_claim \<times> snapshot \<times> envelope) list \<times> snapshot_claim list \<times> go_error option" where
  "sort_reads now [] = ([], [], None)"
| "sort_reads now ((c, r) # rest) =
     (let (pend, retry, err) = sort_reads now rest
      in case r of
           Inl e \<Rightarrow> (pend, c # retry, Some (WrapErr ''load post'' e))
         | Inr sn \<Rightarrow>
            (case NewLikeSnapshotEnvelope now (sn_post sn) (sn_count sn) (sn_version sn) of
               Inl e \<Rightarrow> (pend, c # retry, Some (WrapErr ''create envelope'' (OtherErr e)))
             | Inr ev \<Rightarrow> ((c, sn, ev) # pend, retry, err)))"

text \<open>
  \<open>publishEnvelopeBatch\<close>: the broker stores all events when it answers without an error, and
  any of them otherwise. The ghost state records what it stored.
\<close>

fun mark_published :: "(snapshot_claim \<times> snapshot \<times> envelope) list \<Rightarrow> sys \<Rightarrow> sys" where
  "mark_published [] sys = sys"
| "mark_published ((c, sn, ev) # rest) (s, g) =
     mark_published rest (s, g\<lparr>published := insert (show_nat (sn_post sn), (sn_count sn, sn_version sn)) (published g)\<rparr>)"

definition publish_events ::
  "relay_env \<Rightarrow> nat \<Rightarrow> (snapshot_claim \<times> snapshot \<times> envelope) list \<Rightarrow> sys \<Rightarrow> sys \<times> go_error option" where
  "publish_events env i items sys =
     (case re_publish env i (map (\<lambda>(c, sn, ev). ev) items) of
        None \<Rightarrow> (mark_published items (re_other env i sys), None)
      | Some e \<Rightarrow> (mark_published (filter (\<lambda>(c, sn, ev). re_stored env i ev) items) (re_other env i sys), Some e))"

definition processLikeSnapshotClaims ::
  "relay_env \<Rightarrow> nat \<Rightarrow> snapshot_claim list \<Rightarrow> sys \<Rightarrow> (nat \<times> sys) \<times> go_error option" where
  "processLikeSnapshotClaims env i claims sys =
     (case load_snapshots env i claims sys of
        ((j, sys1), Inl e) \<Rightarrow>
          (case resolveLikeSnapshotClaims env j True claims sys1 of
             (sys2, e2) \<Rightarrow> ((j + 1, sys2), join_err (Some (WrapErr ''load snapshots'' e)) e2))
      | ((j, sys1), Inr reads) \<Rightarrow>
          (case sort_reads (re_now env j) reads of
             (items, retry, err) \<Rightarrow>
               (case resolveLikeSnapshotClaims env j True retry sys1 of
                  (sys2, e2) \<Rightarrow>
                    (let first = join_err err e2
                     in if items = [] then ((j + 1, sys2), first)
                        else
                          (case publish_events env (j + 1) items sys2 of
                             (sys3, Some pe) \<Rightarrow>
                               (case resolveLikeSnapshotClaims env (j + 2) True (map fst items) sys3 of
                                  (sys4, e4) \<Rightarrow>
                                    ((j + 3, sys4), join_err first (join_err (Some (WrapErr ''publish snapshot batch'' pe)) e4)))
                           | (sys3, None) \<Rightarrow>
                               (case resolveLikeSnapshotClaims env (j + 2) False (map fst items) sys3 of
                                  (sys4, e4) \<Rightarrow> ((j + 3, sys4), join_err first e4)))))))"

text \<open>
  The claiming phase of \<open>runLikeSnapshotRelayRound\<close>, with \<open>n\<close> attempts left; the result is
  the claims made so far and the error that ended the round, if any.
\<close>

fun claim_phase ::
  "relay_env \<Rightarrow> int \<Rightarrow> int \<Rightarrow> int \<Rightarrow> nat \<Rightarrow> nat \<Rightarrow> sys \<Rightarrow> snapshot_claim list \<Rightarrow>
   (nat \<times> sys) \<times> snapshot_claim list \<times> go_error option" where
  "claim_phase env batch budget lease 0 i sys claims = ((i, sys), claims, None)"
| "claim_phase env batch budget lease (Suc n) i sys claims =
     (case re_ctx env i of
        Some e \<Rightarrow> ((i, sys), claims, Some (NetErr e))
      | None \<Rightarrow>
         (case re_other env i sys of
            (s1, g1) \<Rightarrow>
              (case ReapExpired (re_fault env i) batch (re_now env i) s1 of
                 (s2, Inl e) \<Rightarrow> ((i + 1, (s2, g1)), claims, Some (WrapErr ''reap round claims'' e))
               | (s2, Inr _) \<Rightarrow>
                  (case re_other env (i + 1) (s2, g1) of
                     (s3, g3) \<Rightarrow>
                       (let q = re_uuid env (i + 1) (s3, g3)
                        in case ClaimDirty True True (re_fault env (i + 1)) (min batch (budget - int (length claims)))
                                  lease (re_now env (i + 1)) q (re_sample env (i + 1) s3) s3 of
                             (s4, Inl e) \<Rightarrow>
                               ((i + 2, (s4, g3\<lparr>prefixes := insert q (prefixes g3)\<rparr>)), claims,
                                Some (WrapErr ''claim round'' e))
                           | (s4, Inr next) \<Rightarrow>
                               (let sys4 = (s4, g3\<lparr>prefixes := insert q (prefixes g3)\<rparr>); all = claims @ next
                                in if next = [] \<or> int (length all) = budget then ((i + 2, sys4), all, None)
                                   else claim_phase env batch budget lease n (i + 2) sys4 all))))))"

text \<open>The processing phase: the claims it did not finish and the error that ended it.\<close>

function process_phase ::
  "relay_env \<Rightarrow> nat \<Rightarrow> nat \<Rightarrow> sys \<Rightarrow> snapshot_claim list \<Rightarrow> (nat \<times> sys) \<times> snapshot_claim list \<times> go_error option" where
  "process_phase env batch i sys claims =
     (if claims = [] \<or> batch = 0 then ((i, sys), claims, None)
      else
        (case re_ctx env i of
           Some e \<Rightarrow> ((i, sys), claims, Some (NetErr e))
         | None \<Rightarrow>
            (case processLikeSnapshotClaims env i (take batch claims) sys of
               ((j, sys1), Some e) \<Rightarrow> ((j, sys1), claims, Some e)
             | ((j, sys1), None) \<Rightarrow> process_phase env batch j sys1 (drop batch claims))))"
  by pat_completeness auto
termination
  by (relation "measure (\<lambda>(env, batch, i, sys, claims). length claims)") auto

declare process_phase.simps [simp del]

text \<open>The deferred release of the claims that were not finished.\<close>

function release_phase ::
  "relay_env \<Rightarrow> nat \<Rightarrow> nat \<Rightarrow> sys \<Rightarrow> snapshot_claim list \<Rightarrow> go_error option \<Rightarrow> sys \<times> go_error option" where
  "release_phase env batch i sys claims err =
     (if claims = [] \<or> batch = 0 then (sys, err)
      else
        (case resolveLikeSnapshotClaims env i True (take batch claims) sys of
           (sys1, e) \<Rightarrow> release_phase env batch (i + 1) sys1 (drop batch claims) (join_err err e)))"
  by pat_completeness auto
termination
  by (relation "measure (\<lambda>(env, batch, i, sys, claims, err). length claims)") auto

declare release_phase.simps [simp del]

definition runLikeSnapshotRelayRound ::
  "relay_env \<Rightarrow> int \<Rightarrow> int \<Rightarrow> int \<Rightarrow> sys \<Rightarrow> sys \<times> go_error option" where
  "runLikeSnapshotRelayRound env batch budget lease sys =
     (case claim_phase env batch budget lease (nat ((budget + batch - 1) div batch)) 0 sys [] of
        ((i, sys1), claims, Some e) \<Rightarrow> release_phase env (nat batch) i sys1 claims (Some e)
      | ((i, sys1), claims, None) \<Rightarrow>
          (case process_phase env (nat batch) i sys1 claims of
             ((j, sys2), unfinished, err) \<Rightarrow> release_phase env (nat batch) j sys2 unfinished err))"

section \<open>A round is a sequence of queue steps\<close>

text \<open>What is assumed of the surroundings: other clients take queue steps, UUIDs are fresh, a sample is a sample.\<close>

definition env_ok :: "relay_env \<Rightarrow> bool" where
  "env_ok env \<longleftrightarrow>
     (\<forall>i sys. snap_step\<^sup>*\<^sup>* sys (re_other env i sys)) \<and> (\<forall>i x sys. snap_step\<^sup>*\<^sup>* sys (re_between env i x sys)) \<and>
     (\<forall>i sys. finite (prefixes (snd sys)) \<longrightarrow> re_uuid env i sys \<notin> prefixes (snd sys)) \<and> (\<forall>i s. sample_ok (re_sample env i s) s)"

lemma env_okD:
  assumes "env_ok env"
  shows "snap_step\<^sup>*\<^sup>* a sys \<Longrightarrow> snap_step\<^sup>*\<^sup>* a (re_other env i sys)"
    "snap_step\<^sup>*\<^sup>* a sys \<Longrightarrow> snap_step\<^sup>*\<^sup>* a (re_between env i x sys)"
    "finite (prefixes (snd sys)) \<Longrightarrow> re_uuid env i sys \<notin> prefixes (snd sys)" "sample_ok (re_sample env i s) s"
  using assms unfolding env_ok_def by (blast intro: rtranclp_trans)+

text \<open>The claims a relay holds carry tokens of its own prefixes.\<close>

definition claims_ok :: "(int \<times> int) ghost \<Rightarrow> snapshot_claim list \<Rightarrow> bool" where
  "claims_ok g claims \<longleftrightarrow>
     (\<forall>c \<in> set claims. \<exists>q \<in> prefixes g. sc_claim_id c = claim_token q (show_nat (sc_post c)))"

lemma claims_ok_mono: "snap_step\<^sup>*\<^sup>* a b \<Longrightarrow> claims_ok (snd a) cs \<Longrightarrow> claims_ok (snd b) cs"
  unfolding claims_ok_def using snaps.reach_grows(3) by blast

lemma claims_ok_take: "claims_ok g cs \<Longrightarrow> claims_ok g (take n cs)" "claims_ok g cs \<Longrightarrow> claims_ok g (drop n cs)"
  by (auto simp: claims_ok_def dest: in_set_takeD in_set_dropD)

text \<open>Resolving a batch runs scripts only: an invariant of every script is one of the resolution.\<close>

lemma run_round_closed:
  assumes "\<And>i op z. (i, op) \<in> set cmds \<Longrightarrow> I z \<Longrightarrow> I (fst (op z))" "I s"
  shows "I (fst (run_round un cmds s))"
  using assms
proof (induction un cmds s rule: run_round.induct)
  case (2 un i op ops s)
  obtain s1 r where r: "(if un i then (s, Inl noscript) else map_prod id raw (op s)) = (s1, r)" by fastforce
  have "I s1"
    using r "2.prems"(1) [of i op s] "2.prems"(2) by (cases "un i") (auto simp: map_prod_def split: prod.splits)
  with "2.IH" [OF r [symmetric]] "2.prems"(1) show ?case
    by (simp add: Let_def r split: prod.splits) fastforce
qed simp

lemma exec_round_closed:
  assumes "\<And>i op z. (i, op) \<in> set cmds \<Longrightarrow> I z \<Longrightarrow> I (fst (op z))" "I s"
  shows "I (fst (exec_round f un cmds s))"
proof (cases f)
  case None
  have "I (fst (run_round un cmds s))" by (rule run_round_closed [where I = I]) (use assms in blast)+
  with None show ?thesis by (simp add: exec_round_def)
next
  case (Some x)
  obtain a b e where x: "x = (a, b, e)" by (cases x)
  have "I (fst (run_round un (take a cmds) s))"
    by (rule run_round_closed [where I = I]) (use assms in \<open>auto dest: in_set_takeD\<close>)
  with Some x show ?thesis by (simp add: exec_round_def split: prod.splits) (metis fst_conv)
qed

lemma resolve_ops_closed:
  assumes ops: "\<And>op z. op \<in> set ops \<Longrightarrow> I z \<Longrightarrow> I (fst (op z))" and start: "I s"
  shows "I (fst (resolve_ops f1 un1 le f2 un2 ops s))"
proof -
  have mem: "op \<in> set ops" if "(i, op) \<in> set (enumerate 0 ops)" for i op
    using that by (auto simp: in_set_enumerate_eq)
  have one: "I (fst (exec_round f1 un1 (enumerate 0 ops) s))"
    by (rule exec_round_closed [where I = I]) (use ops mem start in blast)+
  obtain s1 rs where e1: "exec_round f1 un1 (enumerate 0 ops) s = (s1, rs)" by fastforce
  let ?m = "filter (\<lambda>(i, _). is_noscript (rs ! i)) (enumerate 0 ops)"
  have "I (fst (exec_round f2 un2 ?m s1))"
    by (rule exec_round_closed [where I = I]) (use ops mem one e1 in auto)
  then show ?thesis
    using one e1 by (auto simp: resolve_ops_def Let_def split: option.splits prod.splits)
qed

lemma resolveSnapshotClaims_closed:
  assumes "\<And>c z. c \<in> set claims \<Longrightarrow> I z \<Longrightarrow> I (fst (script (show_nat (sc_post c)) (sc_claim_id c) z))" "I s"
  shows "I (fst (resolveSnapshotClaims a b ce f1 un1 le f2 un2 script claims s))"
proof -
  have "I (fst (resolve_ops f1 un1 le f2 un2 (map (\<lambda>c. script (show_nat (sc_post c)) (sc_claim_id c)) claims) s))"
    by (rule resolve_ops_closed [where I = I]) (use assms in auto)
  with assms(2) show ?thesis
    by (auto simp: resolveSnapshotClaims_def split: option.splits prod.splits)
qed

text \<open>Giving claims back, and acknowledging claims whose snapshot was loaded and published.\<close>

lemma resolve_requeue_steps:
  assumes "env_ok env" "resolveLikeSnapshotClaims env i True claims sys = (sys', e)"
  shows "snap_step\<^sup>*\<^sup>* sys sys'"
proof -
  have op: "snap_step\<^sup>*\<^sup>* sys (fst (requeue_at env i x c z))" if "snap_step\<^sup>*\<^sup>* sys z" for x c z
  proof -
    obtain s g where z: "re_between env i x z = (s, g)" by fastforce
    obtain s' r where r: "requeue_claim_script x c s = (s', r)" by fastforce
    have "snap_step\<^sup>*\<^sup>* sys (s, g)" using env_okD(2) [OF assms(1) that, of i x] z by simp
    also have "snap_step (s, g) (s', g)" by (rule requeued [where requeue = requeue_claim_script, OF r])
    finally show ?thesis by (simp add: requeue_at_def z r)
  qed
  have "snap_step\<^sup>*\<^sup>* sys (fst (resolveSnapshotClaims True True (re_ctx env i) (re_round1 env i) (re_uncached1 env i)
      (re_script_load env i) (re_round2 env i) (re_uncached2 env i) (requeue_at env i) claims sys))"
    by (rule resolveSnapshotClaims_closed [where I = "\<lambda>z. snap_step\<^sup>*\<^sup>* sys z"]) (use op in auto)
  with assms(2) show ?thesis
    by (auto simp: resolveLikeSnapshotClaims_def split: if_splits prod.splits sum.splits)
qed

lemma resolve_ack_steps:
  assumes "env_ok env" "resolveLikeSnapshotClaims env i False claims sys = (sys', e)"
    and fin: "\<And>c. c \<in> set claims \<Longrightarrow> \<exists>v. (show_nat (sc_post c), sc_claim_id c, v) \<in> loaded (snd sys) \<and>
      (show_nat (sc_post c), v) \<in> published (snd sys)"
  shows "snap_step\<^sup>*\<^sup>* sys sys'"
proof -
  have op: "snap_step\<^sup>*\<^sup>* sys (fst (ack_at env i (show_nat (sc_post c)) (sc_claim_id c) z))"
    if "c \<in> set claims" "snap_step\<^sup>*\<^sup>* sys z" for c z
  proof -
    let ?x = "show_nat (sc_post c)"
    obtain s g where z: "re_between env i ?x z = (s, g)" by fastforce
    obtain s' r where r: "ack_claim_script ?x (sc_claim_id c) s = (s', r)" by fastforce
    have st: "snap_step\<^sup>*\<^sup>* sys (s, g)" using env_okD(2) [OF assms(1) that(2), of i ?x] z by simp
    from fin [OF that(1)] obtain v where "(?x, sc_claim_id c, v) \<in> loaded (snd sys)" "(?x, v) \<in> published (snd sys)"
      by blast
    with snaps.reach_grows(1,2) [OF st] have "(?x, sc_claim_id c, v) \<in> loaded g" "(?x, v) \<in> published g" by auto
    from acked [OF this, where ack = "\<lambda>x c v. ack_claim_script x c", OF r] have "snap_step (s, g) (s', g)" .
    with st have "snap_step\<^sup>*\<^sup>* sys (s', g)" by (rule rtranclp.rtrancl_into_rtrancl)
    then show ?thesis by (simp add: ack_at_def z r)
  qed
  have "snap_step\<^sup>*\<^sup>* sys (fst (resolveSnapshotClaims True True (re_ctx env i) (re_round1 env i) (re_uncached1 env i)
      (re_script_load env i) (re_round2 env i) (re_uncached2 env i) (ack_at env i) claims sys))"
    by (rule resolveSnapshotClaims_closed [where I = "\<lambda>z. snap_step\<^sup>*\<^sup>* sys z"]) (use op in auto)
  with assms(2) show ?thesis
    by (auto simp: resolveLikeSnapshotClaims_def split: if_splits prod.splits sum.splits)
qed

text \<open>Loading: what a successful read returned is recorded as loaded under the claim.\<close>

lemma mark_loaded_steps:
  assumes "claims_ok (snd sys) cs"
  shows "snap_step\<^sup>*\<^sup>* sys (mark_loaded cs sys)" "fst (mark_loaded cs sys) = fst sys"
    "\<And>c v. c \<in> set cs \<Longrightarrow> snap_val (fst sys) (show_nat (sc_post c)) = Some v \<Longrightarrow>
       (show_nat (sc_post c), sc_claim_id c, v) \<in> loaded (snd (mark_loaded cs sys))"
proof -
  have "snap_step\<^sup>*\<^sup>* sys (mark_loaded cs sys) \<and> fst (mark_loaded cs sys) = fst sys \<and>
    (\<forall>c v. c \<in> set cs \<longrightarrow> snap_val (fst sys) (show_nat (sc_post c)) = Some v \<longrightarrow>
       (show_nat (sc_post c), sc_claim_id c, v) \<in> loaded (snd (mark_loaded cs sys)))"
    using assms
  proof (induction cs sys rule: mark_loaded.induct)
    case (2 c cs s g)
    show ?case
    proof (cases "snap_val s (show_nat (sc_post c))")
      case None
      with "2.IH"(1) "2.prems" show ?thesis by (simp add: claims_ok_def)
    next
      case (Some v)
      let ?g = "g\<lparr>loaded := insert (show_nat (sc_post c), sc_claim_id c, v) (loaded g)\<rparr>"
      from "2.prems" obtain q where q: "q \<in> prefixes g" "sc_claim_id c = claim_token q (show_nat (sc_post c))"
        by (auto simp: claims_ok_def)
      have st: "snap_step (s, g) (s, ?g)" by (rule was_loaded [where val = snap_val, OF Some q])
      have ih: "snap_step\<^sup>*\<^sup>* (s, ?g) (mark_loaded cs (s, ?g))" "fst (mark_loaded cs (s, ?g)) = s"
        "\<forall>d v. d \<in> set cs \<longrightarrow> snap_val s (show_nat (sc_post d)) = Some v \<longrightarrow>
          (show_nat (sc_post d), sc_claim_id d, v) \<in> loaded (snd (mark_loaded cs (s, ?g)))"
        using "2.IH"(2) [OF Some] "2.prems" by (simp_all add: claims_ok_def)
      have "(show_nat (sc_post c), sc_claim_id c, v) \<in> loaded (snd (mark_loaded cs (s, ?g)))"
        using snaps.reach_grows(1) [OF ih(1)] by auto
      with ih st Some show ?thesis by (auto intro: converse_rtranclp_into_rtranclp)
    qed
  qed simp
  then show "snap_step\<^sup>*\<^sup>* sys (mark_loaded cs sys)" "fst (mark_loaded cs sys) = fst sys"
    "\<And>c v. c \<in> set cs \<Longrightarrow> snap_val (fst sys) (show_nat (sc_post c)) = Some v \<Longrightarrow>
       (show_nat (sc_post c), sc_claim_id c, v) \<in> loaded (snd (mark_loaded cs sys))" by blast+
qed

lemma aggregate_result_val:
  "aggregate_result s s2 p = Inr st \<Longrightarrow> snap_val s (show_nat p) = Some (st_count st, st_version st)"
  by (auto simp: aggregate_result_def snap_val_def key_defs Let_def split: if_splits option.splits)

lemma chunk_read_val:
  assumes "readAggregateStates w i (map sc_post cs) = Inr rs" "(c, Inr st) \<in> set (zip cs rs)"
  shows "snap_val (snd (w i)) (show_nat (sc_post c)) = Some (st_count st, st_version st)"
proof -
  have "(c, Inr st) \<in> set (zip cs (map (aggregate_result (snd (w i)) s2) (map sc_post cs))) \<Longrightarrow> ?thesis" for s2
    by (auto simp: zip_map2 zip_same aggregate_result_val)
  with assms show ?thesis
    by (auto simp: readAggregateStates_def split: if_splits sum.splits)
qed

text \<open>One chunk: both round trips, with the ghost state of the claims it read.\<close>

definition chunk_mark :: "relay_env \<Rightarrow> nat \<Rightarrow> snapshot_claim list \<Rightarrow> sys \<Rightarrow> sys" where
  "chunk_mark env i claims sys = mark_loaded (take 32 claims) (re_other env i sys)"

lemma load_trace_Cons:
  "load_trace env i [] sys = []"
  "claims \<noteq> [] \<Longrightarrow> load_trace env i claims sys =
     (let a = chunk_mark env i claims sys; b = re_other env (i + 1) a
      in a # b # load_trace env (i + 2) (drop 32 claims) b)"
  by (simp_all add: load_trace.simps [of env i claims] load_trace.simps [of env i "[]"] chunk_mark_def)

lemma chunk_steps:
  fixes i :: nat
  assumes "env_ok env" "claims_ok (snd sys) claims"
  defines "a \<equiv> chunk_mark env i claims sys"
  defines "b \<equiv> re_other env (i + 1) a"
  shows "snap_step\<^sup>*\<^sup>* sys a" "snap_step\<^sup>*\<^sup>* a b" "claims_ok (snd b) (drop 32 claims)"
    "\<And>c v. c \<in> set (take 32 claims) \<Longrightarrow> snap_val (fst a) (show_nat (sc_post c)) = Some v \<Longrightarrow>
       (show_nat (sc_post c), sc_claim_id c, v) \<in> loaded (snd a)"
proof -
  have o: "snap_step\<^sup>*\<^sup>* sys (re_other env i sys)" by (rule env_okD(1) [OF assms(1)]) simp
  have ok: "claims_ok (snd (re_other env i sys)) (take 32 claims)"
    by (rule claims_ok_take(1)) (rule claims_ok_mono [OF o assms(2)])
  note m = mark_loaded_steps [OF ok, folded chunk_mark_def]
  show sa: "snap_step\<^sup>*\<^sup>* sys a" using o m(1) unfolding a_def by (rule rtranclp_trans)
  show ab: "snap_step\<^sup>*\<^sup>* a b" unfolding b_def by (rule env_okD(1) [OF assms(1)]) simp
  show "claims_ok (snd b) (drop 32 claims)"
    by (rule claims_ok_take(2), rule claims_ok_mono [OF rtranclp_trans [OF sa ab] assms(2)])
  show "(show_nat (sc_post c), sc_claim_id c, v) \<in> loaded (snd a)"
    if "c \<in> set (take 32 claims)" "snap_val (fst a) (show_nat (sc_post c)) = Some v" for c v
    using m(3) [OF that(1), of v] that(2) m(2) unfolding a_def by simp
qed

lemma load_trace_steps:
  assumes "env_ok env" "claims_ok (snd sys) claims"
  shows "snap_step\<^sup>*\<^sup>* sys (List.last (sys # load_trace env i claims sys))"
  using assms
proof (induction env i claims sys rule: load_trace.induct)
  case (1 env i claims sys)
  show ?case
  proof (cases "claims = []")
    case False
    note ch = chunk_steps [where i = i, OF "1.prems"]
    have "snap_step\<^sup>*\<^sup>* (re_other env (i + 1) (chunk_mark env i claims sys)) (List.last (re_other env (i + 1) (chunk_mark env i claims sys) #
        load_trace env (i + 2) (drop 32 claims) (re_other env (i + 1) (chunk_mark env i claims sys))))"
      by (rule "1.IH" [OF False refl refl, folded chunk_mark_def]) (use "1.prems" ch(3) in auto)
    with ch(1,2) show ?thesis
      by (simp add: load_trace_Cons(2) [OF False] Let_def)
  qed (simp add: load_trace_Cons)
qed

lemma load_chunks_read:
  assumes "env_ok env" "claims_ok (snd sys) claims"
    and "\<And>k. k < length (load_trace env i claims sys) \<Longrightarrow> snd (w (2 * j + k)) = fst (load_trace env i claims sys ! k)"
    and "load_chunks w j claims = Inr reads" "(c, Inr sn) \<in> set reads"
  shows "c \<in> set claims \<and> sn_post sn = sc_post c \<and> (show_nat (sc_post c), sc_claim_id c, (sn_count sn, sn_version sn))
    \<in> loaded (snd (List.last (sys # load_trace env i claims sys)))"
  using assms
proof (induction env i claims sys arbitrary: j reads rule: load_trace.induct)
  case (1 env i claims sys)
  show ?case
  proof (cases "claims = []")
    case True
    with "1.prems" show ?thesis by (simp add: load_chunks.simps)
  next
    case False
    define a where "a = chunk_mark env i claims sys"
    define b where "b = re_other env (i + 1) a"
    define tr where "tr = load_trace env (i + 2) (drop 32 claims) b"
    have tr: "load_trace env i claims sys = a # b # tr"
      by (simp add: load_trace_Cons(2) [OF False] Let_def a_def b_def tr_def)
    note ch = chunk_steps [where i = i, OF "1.prems"(1,2), folded a_def, folded b_def]
    have w: "snd (w (2 * j)) = fst a" "k < length tr \<Longrightarrow> snd (w (2 * (j + 1) + k)) = fst (tr ! k)" for k
      using "1.prems"(3) [of 0] "1.prems"(3) [of "k + 2"] by (simp_all add: tr)
    from "1.prems"(4) False obtain rs rest where
      rs: "readAggregateStates w (2 * j) (map sc_post (take 32 claims)) = Inr rs"
      and rest: "load_chunks w (j + 1) (drop 32 claims) = Inr rest"
      and reads: "reads = map (\<lambda>(c, r). (c, map_sum id
         (\<lambda>st. \<lparr>sn_post = sc_post c, sn_count = st_count st, sn_version = st_version st\<rparr>) r)) (zip (take 32 claims) rs) @ rest"
      by (subst (asm) load_chunks.simps) (auto simp: Let_def map_sum_def split: sum.splits)
    have final: "List.last (sys # load_trace env i claims sys) = List.last (b # tr)" by (simp add: tr)
    have bt: "snap_step\<^sup>*\<^sup>* b (List.last (b # tr))"
      unfolding tr_def by (rule load_trace_steps [OF "1.prems"(1) ch(3)])
    from "1.prems"(5) reads consider "(c, Inr sn) \<in> set rest"
      | st where "(c, Inr st) \<in> set (zip (take 32 claims) rs)"
          "sn = \<lparr>sn_post = sc_post c, sn_count = st_count st, sn_version = st_version st\<rparr>"
      by (auto simp: map_sum_def split: sum.splits)
    then show ?thesis
    proof cases
      case 1
      have "c \<in> set (drop 32 claims) \<and> sn_post sn = sc_post c \<and>
          (show_nat (sc_post c), sc_claim_id c, (sn_count sn, sn_version sn)) \<in> loaded (snd (List.last (b # tr)))"
        unfolding tr_def
        by (rule "1.IH" [OF False refl refl, folded chunk_mark_def, folded a_def, folded b_def, OF "1.prems"(1) ch(3) _ rest 1])
          (use w(2) in \<open>simp add: tr_def\<close>)
      then show ?thesis unfolding final by (auto dest: in_set_dropD)
    next
      case (2 st)
      then have c: "c \<in> set (take 32 claims)" by (rule_tac set_zip_leftD)
      have "snap_val (fst a) (show_nat (sc_post c)) = Some (sn_count sn, sn_version sn)"
        using chunk_read_val [OF rs 2(1)] w(1) 2(2) by simp
      from ch(4) [OF c this] snaps.reach_grows(1) [OF rtranclp_trans [OF ch(2) bt]]
      show ?thesis unfolding final using c 2(2) by (auto dest: in_set_takeD)
    qed
  qed
qed

text \<open>A batch: what it loads, publishes and acknowledges.\<close>

lemma load_snapshots_steps:
  assumes "env_ok env" "claims_ok (snd sys) claims" "load_snapshots env i claims sys = ((j, sys'), r)"
  shows "snap_step\<^sup>*\<^sup>* sys sys'"
    "r = Inr reads \<Longrightarrow> (c, Inr sn) \<in> set reads \<Longrightarrow> c \<in> set claims \<and> sn_post sn = sc_post c \<and>
      (show_nat (sc_post c), sc_claim_id c, (sn_count sn, sn_version sn)) \<in> loaded (snd sys')"
proof -
  let ?tr = "load_trace env i claims sys"
  have fin: "sys' = List.last (sys # ?tr)" and r: "r = LoadSnapshots True True (re_ctx env i) (load_world env i ?tr) claims"
    using assms(3) by (auto simp: load_snapshots_def Let_def)
  show "snap_step\<^sup>*\<^sup>* sys sys'" unfolding fin by (rule load_trace_steps [OF assms(1,2)])
  assume "r = Inr reads" and mem: "(c, Inr sn) \<in> set reads"
  with r have "load_chunks (load_world env i ?tr) 0 claims = Inr reads"
    by (simp add: LoadSnapshots_def split: option.splits)
  from load_chunks_read [where i = i, OF assms(1,2) _ this mem]
  show "c \<in> set claims \<and> sn_post sn = sc_post c \<and>
      (show_nat (sc_post c), sc_claim_id c, (sn_count sn, sn_version sn)) \<in> loaded (snd sys')"
    unfolding fin by (simp add: load_world_def)
qed

lemma sort_reads_items:
  "sort_reads now reads = (items, retry, err) \<Longrightarrow> (c, sn, ev) \<in> set items \<Longrightarrow>
     (c, Inr sn) \<in> set reads \<and> NewLikeSnapshotEnvelope now (sn_post sn) (sn_count sn) (sn_version sn) = Inr ev"
  by (induction now reads arbitrary: items retry err rule: sort_reads.induct)
    (auto simp: Let_def split: prod.splits sum.splits)

definition items_loaded :: "(int \<times> int) ghost \<Rightarrow> (snapshot_claim \<times> snapshot \<times> envelope) list \<Rightarrow> bool" where
  "items_loaded g items \<longleftrightarrow> (\<forall>(c, sn, ev) \<in> set items. sn_post sn = sc_post c \<and>
     (show_nat (sc_post c), sc_claim_id c, (sn_count sn, sn_version sn)) \<in> loaded g)"

lemma items_loaded_mono: "snap_step\<^sup>*\<^sup>* a b \<Longrightarrow> items_loaded (snd a) items \<Longrightarrow> items_loaded (snd b) items"
  using snaps.reach_grows(1) [of a b] by (fastforce simp: items_loaded_def)

lemma mark_published_steps:
  "items_loaded (snd sys) items \<Longrightarrow> snap_step\<^sup>*\<^sup>* sys (mark_published items sys) \<and>
     (\<forall>(c, sn, ev) \<in> set items. (show_nat (sn_post sn), (sn_count sn, sn_version sn)) \<in> published (snd (mark_published items sys)))"
proof (induction items sys rule: mark_published.induct)
  case (2 c sn ev rest s g)
  let ?g = "g\<lparr>published := insert (show_nat (sn_post sn), (sn_count sn, sn_version sn)) (published g)\<rparr>"
  have l: "(show_nat (sn_post sn), sc_claim_id c, (sn_count sn, sn_version sn)) \<in> loaded g"
    using "2.prems" by (auto simp: items_loaded_def)
  have st: "snap_step (s, g) (s, ?g)" by (rule was_published [OF l])
  have ih: "snap_step\<^sup>*\<^sup>* (s, ?g) (mark_published rest (s, ?g))"
    "\<forall>(c, sn, ev) \<in> set rest. (show_nat (sn_post sn), (sn_count sn, sn_version sn)) \<in> published (snd (mark_published rest (s, ?g)))"
    using "2.IH" "2.prems" by (auto simp: items_loaded_def)
  moreover have "(show_nat (sn_post sn), (sn_count sn, sn_version sn)) \<in> published (snd (mark_published rest (s, ?g)))"
    using snaps.reach_grows(2) [OF ih(1)] by auto
  ultimately show ?case using st by (auto intro: converse_rtranclp_into_rtranclp)
qed simp

lemma publish_events_steps:
  assumes "env_ok env" "items_loaded (snd sys) items" "publish_events env i items sys = (sys', e)"
  shows "snap_step\<^sup>*\<^sup>* sys sys'"
    "e = None \<Longrightarrow> (c, sn, ev) \<in> set items \<Longrightarrow> (show_nat (sn_post sn), (sn_count sn, sn_version sn)) \<in> published (snd sys')"
proof -
  have o: "snap_step\<^sup>*\<^sup>* sys (re_other env i sys)" by (rule env_okD(1) [OF assms(1)]) simp
  have l: "items_loaded (snd (re_other env i sys)) (filter P items)" for P
    using items_loaded_mono [OF o assms(2)] by (auto simp: items_loaded_def)
  have l': "items_loaded (snd (re_other env i sys)) items" using l [of "\<lambda>_. True"] by simp
  have m: "snap_step\<^sup>*\<^sup>* sys (mark_published (filter P items) (re_other env i sys))" for P
    using rtranclp_trans [OF o] mark_published_steps [OF l, of P] by blast
  show "snap_step\<^sup>*\<^sup>* sys sys'"
    using assms(3) m [of "\<lambda>_. True"] m by (auto simp: publish_events_def split: option.splits)
  show "(show_nat (sn_post sn), (sn_count sn, sn_version sn)) \<in> published (snd sys')"
    if "e = None" "(c, sn, ev) \<in> set items"
    using assms(3) that mark_published_steps [OF l'] by (auto simp: publish_events_def split: option.splits)
qed

lemma process_steps:
  assumes "env_ok env" "claims_ok (snd sys) claims" "processLikeSnapshotClaims env i claims sys = ((j, sys'), e)"
  shows "snap_step\<^sup>*\<^sup>* sys sys'"
proof -
  obtain k sys1 r where ld: "load_snapshots env i claims sys = ((k, sys1), r)" by (metis prod.collapse)
  note s1 = load_snapshots_steps [OF assms(1,2) ld]
  show ?thesis
  proof (cases r)
    case (Inl er)
    then show ?thesis
      using assms(3) ld s1(1) by (auto simp: processLikeSnapshotClaims_def split: prod.splits
          dest!: resolve_requeue_steps [OF assms(1)] intro: rtranclp_trans)
  next
    case (Inr reads)
    obtain items retry err where so: "sort_reads (re_now env k) reads = (items, retry, err)" by (metis prod.collapse)
    obtain sys2 e2 where r2: "resolveLikeSnapshotClaims env k True retry sys1 = (sys2, e2)" by fastforce
    obtain sys3 pe where r3: "publish_events env (k + 1) items sys2 = (sys3, pe)" by fastforce
    have st2: "snap_step\<^sup>*\<^sup>* sys1 sys2" by (rule resolve_requeue_steps [OF assms(1) r2])
    have il1: "items_loaded (snd sys1) items"
      using s1(2) [OF Inr] sort_reads_items [OF so] by (fastforce simp: items_loaded_def)
    note il2 = items_loaded_mono [OF st2 il1]
    note st3 = publish_events_steps [OF assms(1) il2 r3]
    note il3 = items_loaded_mono [OF st3(1) il2]
    obtain sys4 e4 where r4: "resolveLikeSnapshotClaims env (k + 2) (pe \<noteq> None) (map fst items) sys3 = (sys4, e4)"
      by fastforce
    have st4: "snap_step\<^sup>*\<^sup>* sys3 sys4"
    proof (cases pe)
      case None
      have fin: "\<exists>v. (show_nat (sc_post c), sc_claim_id c, v) \<in> loaded (snd sys3) \<and> (show_nat (sc_post c), v) \<in> published (snd sys3)"
        if "c \<in> set (map fst items)" for c
      proof -
        from that obtain sn ev where m: "(c, sn, ev) \<in> set items" by auto
        with il3 have p: "sn_post sn = sc_post c"
          and l: "(show_nat (sc_post c), sc_claim_id c, (sn_count sn, sn_version sn)) \<in> loaded (snd sys3)"
          by (auto simp: items_loaded_def)
        from st3(2) [OF None m] l p show ?thesis by auto
      qed
      from None r4 have "resolveLikeSnapshotClaims env (k + 2) False (map fst items) sys3 = (sys4, e4)" by simp
      from resolve_ack_steps [OF assms(1) this fin] show ?thesis .
    next
      case (Some x)
      then have "resolveLikeSnapshotClaims env (k + 2) True (map fst items) sys3 = (sys4, e4)" using r4 by simp
      then show ?thesis by (rule resolve_requeue_steps [OF assms(1)])
    qed
    have "sys' = (if items = [] then sys2 else sys4)"
      using assms(3) r2 r3 r4 Inr so ld by (auto simp: processLikeSnapshotClaims_def Let_def split: option.splits if_splits)
    with s1(1) st2 st3(1) st4 show ?thesis by (auto intro: rtranclp_trans)
  qed
qed

text \<open>The claiming phase: a claim it makes carries its own token for the post it names.\<close>

lemma parse_items_tokens:
  assumes "parse_snapshot_items (concat (map (\<lambda>(x, c). [VString x, VString c]) gs)) seen acc = Inr cs"
    and "\<And>x c. (x, c) \<in> set gs \<Longrightarrow> canonical x \<and> c = claim_token q x"
    and "\<forall>c \<in> set acc. sc_claim_id c = claim_token q (show_nat (sc_post c))"
  shows "\<forall>c \<in> set cs. sc_claim_id c = claim_token q (show_nat (sc_post c))"
  using assms
proof (induction gs arbitrary: seen acc)
  case (Cons g gs)
  obtain x c where g: "g = (x, c)" by fastforce
  have x: "x = show_nat (tonum x)" "c = claim_token q x"
    using Cons.prems(2) [of x c] g by (simp_all add: canonical_def)
  from Cons.prems(1) g obtain seen' where
    "parse_snapshot_items (concat (map (\<lambda>(x, c). [VString x, VString c]) gs)) seen' (acc @ [\<lparr>sc_post = tonum x, sc_claim_id = c\<rparr>]) = Inr cs"
    by (auto simp: parse_uint64_def split: if_splits option.splits)
  then show ?case
    by (rule Cons.IH) (use Cons.prems(2,3) x in auto)
qed simp

lemma call_reach:
  assumes "\<And>s' r. op s = (s', r) \<Longrightarrow> R s s'" "R s s" "call f op s = (s', r)"
  shows "R s s'"
  using assms by (cases f; cases "op s") (auto simp: call_def)

lemma raw_Inr [simp]: "raw r = Inr a \<longleftrightarrow> r = Inr a"
  by (cases r) (simp_all add: raw_def)

lemma ReapExpired_steps:
  assumes "ReapExpired f batch now s = (s', r)"
  shows "snap_step\<^sup>*\<^sup>* (s, g) (s', g)"
proof -
  obtain r' where c: "call f (reap_expired_script (now div 1000000) (clamp_snapshot_batch batch)) s = (s', r')"
    using assms by (auto simp: ReapExpired_def map_prod_def split: prod.splits)
  show ?thesis
    by (rule call_reach [where R = "\<lambda>s s'. snap_step\<^sup>*\<^sup>* (s, g) (s', g)", OF _ _ c])
      (auto intro!: r_into_rtranclp reaped [where reap = reap_expired_script])
qed

lemma ClaimDirty_steps:
  assumes run: "ClaimDirty True True f batch lease now q ch s = (s', r)"
    and ch: "sample_ok ch s" and q: "q \<notin> prefixes g" and canon: "snap_canon s"
  defines "g' \<equiv> g\<lparr>prefixes := insert q (prefixes g)\<rparr>"
  shows "snap_step\<^sup>*\<^sup>* (s, g) (s', g')" "r = Inr cs \<Longrightarrow> claims_ok g' cs"
proof -
  let ?op = "claim_script (clamp_snapshot_batch batch) (lease_deadline now lease) q ch"
  obtain r' where c: "call f ?op s = (s', r')"
    and r: "r = (case r' of Inl e \<Rightarrow> Inl (mapScriptError e)
      | Inr gs \<Rightarrow> (case parseSnapshotClaimReply (claim_reply gs) (clamp_snapshot_batch batch) of
          Inl e \<Rightarrow> Inl (OtherErr e) | Inr claims \<Rightarrow> Inr claims))"
    using run by (auto simp: ClaimDirty_def Let_def split: prod.splits)
  have step: "snap_step\<^sup>*\<^sup>* (s, g) (s1, g')" if "claim_script n d q ch s = (s1, r1)" for n d s1 r1
    unfolding g'_def
    by (rule r_into_rtranclp, rule claimed [where claim = claim_script and choice_ok = sample_ok, OF ch q that])
  have none: "claim_script 0 0 q ch s = (s, Inl ''LIKE_CLAIM_ARGUMENT_INVALID'')" by (simp add: claim_script_def)
  show "snap_step\<^sup>*\<^sup>* (s, g) (s', g')"
    by (rule call_reach [where R = "\<lambda>s s'. snap_step\<^sup>*\<^sup>* (s, g) (s', g')", OF _ _ c])
      (auto intro: step step [OF none])
  show "claims_ok g' cs" if "r = Inr cs"
  proof -
    from that r obtain gs where gs: "r' = Inr gs"
      and p: "parseSnapshotClaimReply (claim_reply gs) (clamp_snapshot_batch batch) = Inr cs"
      by (auto split: sum.splits)
    with c have o: "?op s = (s', Inr gs)"
      by (cases f; cases "?op s") (auto simp: call_def)
    have "canonical x \<and> c = claim_token q x" if "(x, c) \<in> set gs" for x c
      using snapq.claim_grant [OF ch o that] canon unfolding snap_canon_def by blast
    from p this have "\<forall>c \<in> set cs. sc_claim_id c = claim_token q (show_nat (sc_post c))"
      by (auto simp: parseSnapshotClaimReply_def claim_reply_def split: if_splits
          dest: parse_items_tokens [where q = q and acc = "[]"])
    then show ?thesis by (auto simp: claims_ok_def g'_def)
  qed
qed

lemma claim_phase_steps:
  assumes "env_ok env" "claims_ok (snd sys) claims" "snap_canon (fst sys) \<and> finite (prefixes (snd sys))"
    "claim_phase env batch budget lease n i sys claims = ((j, sys'), claims', e)"
  shows "snap_step\<^sup>*\<^sup>* sys sys' \<and> claims_ok (snd sys') claims'"
  using assms
proof (induction env batch budget lease n i sys claims rule: claim_phase.induct)
  case (2 env batch budget lease n i sys claims)
  show ?case
  proof (cases "re_ctx env i")
    case (Some er)
    with "2.prems" show ?thesis by auto
  next
    case None
    obtain s1 g1 where o1: "re_other env i sys = (s1, g1)" by fastforce
    obtain s2 r2 where re: "ReapExpired (re_fault env i) batch (re_now env i) s1 = (s2, r2)" by fastforce
    obtain s3 g3 where o3: "re_other env (i + 1) (s2, g1) = (s3, g3)" by fastforce
    define q where "q = re_uuid env (i + 1) (s3, g3)"
    obtain s4 r4 where cl: "ClaimDirty True True (re_fault env (i + 1)) (min batch (budget - int (length claims)))
      lease (re_now env (i + 1)) q (re_sample env (i + 1) s3) s3 = (s4, r4)" by fastforce
    define g4 where "g4 = g3\<lparr>prefixes := insert q (prefixes g3)\<rparr>"
    have a1: "snap_step\<^sup>*\<^sup>* sys (s1, g1)" using env_okD(1) [OF "2.prems"(1), of sys sys i] o1 by simp
    have a2: "snap_step\<^sup>*\<^sup>* sys (s2, g1)" using a1 ReapExpired_steps [OF re] by (rule rtranclp_trans)
    have a3: "snap_step\<^sup>*\<^sup>* sys (s3, g3)" using env_okD(1) [OF "2.prems"(1) a2, of "i + 1"] o3 by simp
    have canon: "snap_canon s3" using snap_reach(2) [OF a3] "2.prems"(3) by simp
    have fin: "finite (prefixes g3)" using snaps.reach_finite [OF a3] "2.prems"(3) by simp
    have fresh: "q \<notin> prefixes g3" using env_okD(3) [OF "2.prems"(1), of "(s3, g3)" "i + 1"] fin by (simp add: q_def)
    note c4 = ClaimDirty_steps [OF cl env_okD(4) [OF "2.prems"(1)] fresh canon, folded g4_def]
    have a4: "snap_step\<^sup>*\<^sup>* sys (s4, g4)" using a3 c4(1) by (rule rtranclp_trans)
    have ok: "claims_ok g1 claims" "claims_ok g4 claims"
      using claims_ok_mono [OF a1 "2.prems"(2)] claims_ok_mono [OF a4 "2.prems"(2)] by simp_all
    show ?thesis
    proof (cases r2)
      case (Inl er)
      with "2.prems"(4) None o1 re a2 ok show ?thesis by auto
    next
      case (Inr k)
      note eqs = None o1 re Inr o3 q_def [symmetric] cl
      show ?thesis
      proof (cases r4)
        case (Inl er)
        with "2.prems"(4) eqs a4 ok show ?thesis by (auto simp: g4_def Let_def)
      next
        case (Inr more)
        have all: "claims_ok g4 (claims @ more)" using ok(2) c4(2) [OF Inr] by (auto simp: claims_ok_def)
        show ?thesis
        proof (cases "more = [] \<or> int (length (claims @ more)) = budget")
          case True
          with "2.prems"(4) eqs Inr a4 all show ?thesis by (auto simp: g4_def Let_def)
        next
          case False
          have "snap_step\<^sup>*\<^sup>* (s4, g4) sys' \<and> claims_ok (snd sys') claims'"
            by (rule "2.IH" [OF None o1 [symmetric] re [symmetric] \<open>r2 = Inr k\<close> o3 [symmetric] q_def cl [symmetric] Inr _ refl False])
              (use "2.prems"(1,4) eqs Inr False all fin snap_reach(2) [OF a4] "2.prems"(3) in \<open>auto simp: g4_def Let_def\<close>)
          with a4 show ?thesis by (auto intro: rtranclp_trans)
        qed
      qed
    qed
  qed
qed simp

lemma process_phase_steps:
  assumes "env_ok env" "claims_ok (snd sys) claims" "process_phase env batch i sys claims = ((j, sys'), rest, e)"
  shows "snap_step\<^sup>*\<^sup>* sys sys'"
  using assms
proof (induction env batch i sys claims rule: process_phase.induct)
  case (1 env batch i sys claims)
  obtain k sys1 e1 where p: "processLikeSnapshotClaims env i (take batch claims) sys = ((k, sys1), e1)"
    by (metis prod.collapse)
  have st: "snap_step\<^sup>*\<^sup>* sys sys1"
    by (rule process_steps [OF "1.prems"(1) claims_ok_take(1) [OF "1.prems"(2)] p])
  have ok: "claims_ok (snd sys1) (drop batch claims)"
    by (rule claims_ok_take(2) [OF claims_ok_mono [OF st "1.prems"(2)]])
  show ?case
    using "1.prems"(3) p st "1.IH" [OF _ _ p [symmetric] _ _ "1.prems"(1) ok]
    by (subst (asm) process_phase.simps) (auto split: if_splits option.splits intro: rtranclp_trans)
qed

lemma release_phase_steps:
  assumes "env_ok env" "release_phase env batch i sys claims err = (sys', e)"
  shows "snap_step\<^sup>*\<^sup>* sys sys'"
  using assms
proof (induction env batch i sys claims err rule: release_phase.induct)
  case (1 env batch i sys claims err)
  obtain sys1 e1 where r: "resolveLikeSnapshotClaims env i True (take batch claims) sys = (sys1, e1)" by fastforce
  note st = resolve_requeue_steps [OF "1.prems"(1) r]
  show ?case
    using "1.prems"(2) r st "1.IH" [OF _ r [symmetric] "1.prems"(1)]
    by (subst (asm) release_phase.simps) (auto split: if_splits intro: rtranclp_trans)
qed

lemma round_steps:
  assumes "env_ok env" "snap_canon (fst sys) \<and> finite (prefixes (snd sys))" "runLikeSnapshotRelayRound env batch budget lease sys = (sys', e)"
  shows "snap_step\<^sup>*\<^sup>* sys sys'"
proof -
  obtain i sys1 claims e1 where
    c: "claim_phase env batch budget lease (nat ((budget + batch - 1) div batch)) 0 sys [] = ((i, sys1), claims, e1)"
    by (metis prod.collapse)
  have "claims_ok (snd sys) []" by (simp add: claims_ok_def)
  from claim_phase_steps [OF assms(1) this assms(2) c]
  have s1: "snap_step\<^sup>*\<^sup>* sys sys1" and ok: "claims_ok (snd sys1) claims" by auto
  show ?thesis
  proof (cases e1)
    case (Some er)
    with assms(3) c have "release_phase env (nat batch) i sys1 claims (Some er) = (sys', e)"
      by (simp add: runLikeSnapshotRelayRound_def)
    from s1 release_phase_steps [OF assms(1) this] show ?thesis by (rule rtranclp_trans)
  next
    case None
    obtain j sys2 rest e2 where p: "process_phase env (nat batch) i sys1 claims = ((j, sys2), rest, e2)"
      by (metis prod.collapse)
    with None assms(3) c have "release_phase env (nat batch) j sys2 rest e2 = (sys', e)"
      by (simp add: runLikeSnapshotRelayRound_def)
    from rtranclp_trans [OF s1 process_phase_steps [OF assms(1) ok p]] release_phase_steps [OF assms(1) this]
    show ?thesis by (rule rtranclp_trans)
  qed
qed

section \<open>A batch in a quiet system\<close>

text \<open>No failures, and nobody else writes during the batch.\<close>

definition quiet_env :: "relay_env \<Rightarrow> bool" where
  "quiet_env env \<longleftrightarrow>
     (\<forall>i sys. re_other env i sys = sys) \<and> (\<forall>i x sys. re_between env i x sys = sys) \<and>
     (\<forall>i. re_fault env i = Healthy \<and> re_ctx env i = None \<and> re_round1 env i = None) \<and>
     (\<forall>i k. \<not> re_uncached1 env i k) \<and> (\<forall>i evs. re_publish env i evs = None)"

lemma quiet_envD [simp]:
  assumes "quiet_env env"
  shows "re_other env i sys = sys" "re_between env i x sys = sys" "re_fault env i = Healthy" "re_ctx env i = None"
    "re_round1 env i = None" "re_uncached1 env i = (\<lambda>_. False)" "re_publish env i evs = None"
  using assms unfolding quiet_env_def by blast+

lemma snap_val_aggregate:
  assumes "snap_val s (show_nat p) = Some (c, v)"
  shows "aggregate_result s s2 p = Inr \<lparr>st_count = c, st_liked = False, st_version = v\<rparr>" "\<not> any_missing s p" "0 \<le> c" "0 \<le> v"
  using assms
  by (auto simp: snap_val_def aggregate_result_def any_missing_def key_defs Let_def parseNonNegativeInt64_def
      split: if_splits option.splits)

definition snapshot_of :: "lstore \<Rightarrow> snapshot_claim \<Rightarrow> snapshot" where
  "snapshot_of s c = (case snap_val s (show_nat (sc_post c)) of
     Some (n, v) \<Rightarrow> \<lparr>sn_post = sc_post c, sn_count = n, sn_version = v\<rparr>
   | None \<Rightarrow> \<lparr>sn_post = sc_post c, sn_count = 0, sn_version = 0\<rparr>)"

lemma fst_mark_loaded: "fst (mark_loaded cs sys) = fst sys"
  by (induction cs sys rule: mark_loaded.induct) (auto split: option.splits)

lemma quiet_trace:
  assumes "quiet_env env" "y \<in> set (load_trace env i claims sys)"
  shows "fst y = fst sys"
  using assms
proof (induction env i claims sys rule: load_trace.induct)
  case (1 env i claims sys)
  show ?case
  proof (cases "claims = []")
    case False
    have a: "fst (chunk_mark env i claims sys) = fst sys" "re_other env k z = z" for k z
      using "1.prems"(1) by (simp_all add: chunk_mark_def fst_mark_loaded)
    from "1.IH" [OF False refl refl "1.prems"(1), folded chunk_mark_def] "1.prems"(2) show ?thesis
      by (auto simp: load_trace_Cons(2) [OF False] Let_def a)
  qed (use "1.prems" in \<open>simp add: load_trace_Cons\<close>)
qed

lemma quiet_load_chunks:
  assumes "\<And>k. fst (w k) = Healthy" "\<And>k. 2 * j \<le> k \<Longrightarrow> k < 2 * j + 2 * ((length claims + 31) div 32) \<Longrightarrow> snd (w k) = s"
    and "\<And>c. c \<in> set claims \<Longrightarrow> snap_val s (show_nat (sc_post c)) \<noteq> None"
  shows "load_chunks w j claims = Inr (map (\<lambda>c. (c, Inr (snapshot_of s c))) claims)"
  using assms
proof (induction w j claims rule: load_chunks.induct)
  case (1 w j claims)
  show ?case
  proof (cases "claims = []")
    case False
    have len: "(length claims + 31) div 32 = Suc ((length (drop 32 claims) + 31) div 32)"
      using False by (cases "length claims \<le> 32") (auto simp: div_if not_le)
    have w: "w (2 * j) = (Healthy, s)"
      using "1.prems"(1,2) [of "2 * j"] len by (simp add: prod_eq_iff)
    let ?st = "\<lambda>c. \<lparr>st_count = sn_count (snapshot_of s c), st_liked = False, st_version = sn_version (snapshot_of s c)\<rparr>"
    have ag: "aggregate_result s s2 (sc_post c) = Inr (?st c)" "\<not> any_missing s (sc_post c)"
      "\<lparr>sn_post = sc_post c, sn_count = sn_count (snapshot_of s c), sn_version = sn_version (snapshot_of s c)\<rparr> = snapshot_of s c"
      if "c \<in> set claims" for c s2
      using "1.prems"(3) [OF that] snap_val_aggregate [of s "sc_post c"] by (auto simp: snapshot_of_def)
    have "list_ex (any_missing s) (map sc_post (take 32 claims)) = False"
      using ag(2) by (auto simp: list_ex_iff dest: in_set_takeD)
    then have rd: "readAggregateStates w (2 * j) (map sc_post (take 32 claims)) = Inr (map (Inr \<circ> ?st) (take 32 claims))"
      using w ag(1) False by (auto simp: readAggregateStates_def raw_def dest: in_set_takeD)
    have ih: "load_chunks w (j + 1) (drop 32 claims) = Inr (map (\<lambda>c. (c, Inr (snapshot_of s c))) (drop 32 claims))"
      by (rule "1.IH" [OF False refl rd]) (use "1.prems" len in \<open>auto dest: in_set_dropD\<close>)
    have zip: "map (\<lambda>(c, r). (c, map_sum id (\<lambda>st. \<lparr>sn_post = sc_post c, sn_count = st_count st, sn_version = st_version st\<rparr>) r))
        (zip (take 32 claims) (map (Inr \<circ> ?st) (take 32 claims))) = map (\<lambda>c. (c, Inr (snapshot_of s c))) (take 32 claims)"
      using ag(3) by (auto simp: zip_map2 zip_same_conv_map dest: in_set_takeD)
    have "map f (take 32 claims) @ map f (drop 32 claims) = map f claims" for f :: "snapshot_claim \<Rightarrow> snapshot_read"
      by (simp flip: map_append)
    then show ?thesis
      using False by (subst load_chunks.simps) (simp add: Let_def rd ih [simplified] zip del: append_take_drop_id)
  qed (simp add: load_chunks.simps)
qed

lemma load_trace_length: "length (load_trace env i claims sys) = 2 * ((length claims + 31) div 32)"
proof (induction env i claims sys rule: load_trace.induct)
  case (1 env i claims sys)
  show ?case
  proof (cases "claims = []")
    case False
    have "(length claims + 31) div 32 = Suc ((length (drop 32 claims) + 31) div 32)"
      using False by (cases "length claims \<le> 32") (auto simp: div_if not_le)
    with "1.IH" [OF False refl refl, folded chunk_mark_def] show ?thesis
      by (simp add: load_trace_Cons(2) [OF False] Let_def)
  qed (simp add: load_trace_Cons)
qed

text \<open>Acknowledging owned claims of distinct posts resolves each of them.\<close>

lemma quiet_ack_round:
  assumes "quiet_env env" "type_ok TZset (s KProcessing)" "type_ok THash (s KClaims)" "distinct (map sc_post claims)"
    "\<And>c. c \<in> set claims \<Longrightarrow> snap_owner s (show_nat (sc_post c)) = Some (sc_claim_id c)"
  shows "\<exists>s'. run_round (\<lambda>_. False) (enumerate n (map (\<lambda>c. ack_at env i (show_nat (sc_post c)) (sc_claim_id c)) claims)) (s, g) =
      ((s', g), replicate (length claims) (Inr True)) \<and>
    (\<forall>c \<in> set claims. snap_owner s' (show_nat (sc_post c)) = None) \<and>
    (\<forall>x. x \<notin> (\<lambda>c. show_nat (sc_post c)) ` set claims \<longrightarrow> snap_owner s' x = snap_owner s x) \<and>
    (\<forall>k. k \<noteq> KProcessing \<longrightarrow> k \<noteq> KClaims \<longrightarrow> s' k = s k)"
  using assms
proof (induction claims arbitrary: s n)
  case (Cons c claims)
  let ?x = "show_nat (sc_post c)"
  let ?s = "at_key KProcessing (zrem ?x) (at_key KClaims (hdel ?x) s)"
  have own: "snap_owner ?s x = (if x = ?x then None else snap_owner s x)" for x
    using Cons.prems(3) by (simp add: snap_owner_def at_key_def hmap_hdel)
  have op: "ack_at env i ?x (sc_claim_id c) (s, g) = ((?s, g), Inr True)"
    using Cons.prems by (simp add: ack_at_def ack_claim_script_def snap_owner_def)
  have ty: "type_ok TZset (?s KProcessing)" "type_ok THash (?s KClaims)"
    using Cons.prems by (simp_all add: at_key_def type_ok_zrem type_ok_hdel)
  have other: "show_nat (sc_post d) \<noteq> ?x" if "d \<in> set claims" for d
    using Cons.prems(4) that by (auto simp: image_iff)
  from Cons.IH [OF Cons.prems(1) ty, of "Suc n"] Cons.prems(4,5) other obtain s' where
    ih: "run_round (\<lambda>_. False) (enumerate (Suc n) (map (\<lambda>c. ack_at env i (show_nat (sc_post c)) (sc_claim_id c)) claims)) (?s, g) =
      ((s', g), replicate (length claims) (Inr True))"
    "\<forall>c \<in> set claims. snap_owner s' (show_nat (sc_post c)) = None"
    "\<forall>x. x \<notin> (\<lambda>c. show_nat (sc_post c)) ` set claims \<longrightarrow> snap_owner s' x = snap_owner ?s x"
    "\<forall>k. k \<noteq> KProcessing \<longrightarrow> k \<noteq> KClaims \<longrightarrow> s' k = ?s k"
    by (auto simp: own)
  have "snap_owner s' ?x = None" using ih(3) own other by (metis imageE)
  with ih Cons.prems(1) op own show ?case
    by (intro exI [of _ s']) (auto simp: at_key_def raw_def)
qed simp

lemma no_noscript: "filter (\<lambda>(i, _). is_noscript (replicate n (Inr True) ! i)) (enumerate 0 ops) = []"
  if "length ops = n"
  using that by (auto simp: filter_empty_conv in_set_enumerate_eq is_noscript_def)

lemma first_result_ok: "first_result_error what (map (\<lambda>(c, v). (case v of Inr b \<Rightarrow> (c, b, None) | Inl e \<Rightarrow> (c, False, Some (mapScriptError e))))
    (zip claims (replicate (length claims) (Inr True)))) = None"
  by (induction claims) simp_all

lemma quiet_ack:
  assumes "quiet_env env" "type_ok TZset (s KProcessing)" "type_ok THash (s KClaims)" "distinct (map sc_post claims)"
    "\<And>c. c \<in> set claims \<Longrightarrow> snap_owner s (show_nat (sc_post c)) = Some (sc_claim_id c)"
    and "length claims \<le> 100" "\<And>c. c \<in> set claims \<Longrightarrow> sc_post c \<noteq> 0 \<and> sc_claim_id c \<noteq> ''''"
  shows "\<exists>s'. resolveLikeSnapshotClaims env i False claims (s, g) = ((s', g), None) \<and>
    (\<forall>c \<in> set claims. snap_owner s' (show_nat (sc_post c)) = None) \<and>
    (\<forall>x. x \<notin> (\<lambda>c. show_nat (sc_post c)) ` set claims \<longrightarrow> snap_owner s' x = snap_owner s x) \<and>
    (\<forall>k. k \<noteq> KProcessing \<longrightarrow> k \<noteq> KClaims \<longrightarrow> s' k = s k)"
proof -
  from quiet_ack_round [where n = 0 and i = i and g = g, OF assms(1-5)] obtain s' where
    r: "run_round (\<lambda>_. False) (enumerate 0 (map (\<lambda>c. ack_at env i (show_nat (sc_post c)) (sc_claim_id c)) claims)) (s, g) =
      ((s', g), replicate (length claims) (Inr True))"
    and s': "\<forall>c \<in> set claims. snap_owner s' (show_nat (sc_post c)) = None"
      "\<forall>x. x \<notin> (\<lambda>c. show_nat (sc_post c)) ` set claims \<longrightarrow> snap_owner s' x = snap_owner s x"
      "\<forall>k. k \<noteq> KProcessing \<longrightarrow> k \<noteq> KClaims \<longrightarrow> s' k = s k"
    by blast
  have v: "validateSnapshotBatch True True None claims = None"
    using assms(6,7) by (auto simp: validateSnapshotBatch_def MaxLikeSnapshotBatchSize_def list_ex_iff)
  have "resolveLikeSnapshotClaims env i False claims (s, g) = ((s', g), None)"
  proof (cases "claims = []")
    case True
    with r show ?thesis by (simp add: resolveLikeSnapshotClaims_def)
  next
    case False
    then show ?thesis
      using assms(1) v r by (simp add: resolveLikeSnapshotClaims_def resolveSnapshotClaims_def resolve_ops_def exec_round_def
          no_noscript first_result_ok)
  qed
  with s' show ?thesis by blast
qed

lemma snapshot_of_envelope:
  assumes "sc_post c \<noteq> 0" "snap_val s (show_nat (sc_post c)) \<noteq> None"
  obtains ev where "NewLikeSnapshotEnvelope now (sn_post (snapshot_of s c)) (sn_count (snapshot_of s c)) (sn_version (snapshot_of s c)) = Inr ev"
proof -
  from assms(2) obtain n v where nv: "snap_val s (show_nat (sc_post c)) = Some (n, v)" by fastforce
  with snap_val_aggregate(3,4) [OF nv] assms(1) show ?thesis
    by (intro that) (auto simp: snapshot_of_def NewLikeSnapshotEnvelope_def)
qed

lemma quiet_sort:
  assumes "\<And>c. c \<in> set claims \<Longrightarrow> sc_post c \<noteq> 0 \<and> snap_val s (show_nat (sc_post c)) \<noteq> None"
  shows "\<exists>items. sort_reads now (map (\<lambda>c. (c, Inr (snapshot_of s c))) claims) = (items, [], None) \<and>
    map (\<lambda>(c, sn, ev). (c, sn)) items = map (\<lambda>c. (c, snapshot_of s c)) claims"
  using assms
proof (induction claims)
  case (Cons c claims)
  then obtain items where ih: "sort_reads now (map (\<lambda>c. (c, Inr (snapshot_of s c))) claims) = (items, [], None)"
    "map (\<lambda>(c, sn, ev). (c, sn)) items = map (\<lambda>c. (c, snapshot_of s c)) claims" by (auto simp del: not_None_eq)
  from Cons.prems [of c] obtain ev where
    "NewLikeSnapshotEnvelope now (sn_post (snapshot_of s c)) (sn_count (snapshot_of s c)) (sn_version (snapshot_of s c)) = Inr ev"
    using snapshot_of_envelope [of c s now] by (metis list.set_intros(1))
  with ih show ?case by (intro exI [of _ "(c, snapshot_of s c, ev) # items"]) simp
qed simp

lemma quiet_published:
  "fst (mark_published items sys) = fst sys"
  "(c, sn, ev) \<in> set items \<Longrightarrow> (show_nat (sn_post sn), (sn_count sn, sn_version sn)) \<in> published (snd (mark_published items sys))"
proof -
  have grows: "published (snd sys) \<subseteq> published (snd (mark_published items sys))" for items :: "(snapshot_claim \<times> snapshot \<times> envelope) list" and sys
    by (induction items sys rule: mark_published.induct) auto
  show "fst (mark_published items sys) = fst sys"
    by (induction items sys rule: mark_published.induct) auto
  show "(c, sn, ev) \<in> set items \<Longrightarrow> (show_nat (sn_post sn), (sn_count sn, sn_version sn)) \<in> published (snd (mark_published items sys))"
  proof (induction items sys rule: mark_published.induct)
    case (2 c' sn' ev' rest s g)
    then show ?case using grows [of "(s, g\<lparr>published := insert (show_nat (sn_post sn'), (sn_count sn', sn_version sn')) (published g)\<rparr>)" rest]
      by auto
  qed simp
qed

text \<open>
  In a quiet system a batch of owned claims on distinct ready posts is delivered: the call
  returns no error, the current counters of every post of the batch have been published, its
  claim is gone, and neither the dirty set nor any counter has changed.
\<close>

theorem healthy_batch_delivers:
  assumes quiet: "quiet_env env" and ty: "type_ok TZset (s KProcessing)" "type_ok THash (s KClaims)"
    and dis: "distinct (map sc_post claims)" and len: "claims \<noteq> []" "length claims \<le> 100"
    and ok: "\<forall>c \<in> set claims. sc_post c \<noteq> 0 \<and> sc_claim_id c \<noteq> '''' \<and>
      snap_owner s (show_nat (sc_post c)) = Some (sc_claim_id c) \<and> snap_val s (show_nat (sc_post c)) \<noteq> None"
  shows "\<exists>j s' g'. processLikeSnapshotClaims env i claims (s, g) = ((j, (s', g')), None) \<and>
    (\<forall>c \<in> set claims. snap_owner s' (show_nat (sc_post c)) = None \<and>
       (show_nat (sc_post c), the (snap_val s (show_nat (sc_post c)))) \<in> published g') \<and>
    (\<forall>x. snap_pend s' x = snap_pend s x \<and> snap_val s' x = snap_val s x)"
proof -
  let ?tr = "load_trace env i claims (s, g)"
  let ?j = "i + length ?tr"
  obtain g1 where ls: "(if ?tr = [] then (s, g) else List.last ?tr) = (s, g1)"
    using quiet_trace [OF quiet, of _ i claims "(s, g)"] by (cases "?tr = []") (auto simp: prod_eq_iff dest: last_in_set)
  have "load_chunks (load_world env i ?tr) 0 claims = Inr (map (\<lambda>c. (c, Inr (snapshot_of s c))) claims)"
  proof (rule quiet_load_chunks)
    show "snd (load_world env i ?tr k) = s" if "k < 2 * 0 + 2 * ((length claims + 31) div 32)" for k
      using that quiet_trace [OF quiet nth_mem, of k i claims "(s, g)"] by (simp add: load_world_def load_trace_length)
  qed (use quiet ok in \<open>auto simp: load_world_def\<close>)
  moreover have "validateSnapshotBatch True True None claims = None"
    using len ok by (auto simp: validateSnapshotBatch_def MaxLikeSnapshotBatchSize_def list_ex_iff)
  ultimately have ld: "load_snapshots env i claims (s, g) = ((?j, (s, g1)), Inr (map (\<lambda>c. (c, Inr (snapshot_of s c))) claims))"
    using quiet ls by (simp add: load_snapshots_def Let_def LoadSnapshots_def)
  from quiet_sort [of claims s "re_now env ?j"] ok obtain items where
    so: "sort_reads (re_now env ?j) (map (\<lambda>c. (c, Inr (snapshot_of s c))) claims) = (items, [], None)"
    and it: "map (\<lambda>(c, sn, ev). (c, sn)) items = map (\<lambda>c. (c, snapshot_of s c)) claims" by blast
  have "map fst items = map fst (map (\<lambda>(c, sn, ev). (c, sn)) items)" by (simp add: case_prod_beta)
  with it len(1) have fi: "map fst items = claims" and ne: "items \<noteq> []" by (auto simp: comp_def)
  obtain g3 where pu: "publish_events env (?j + 1) items (s, g1) = ((s, g3), None)"
    and g3: "mark_published items (s, g1) = (s, g3)"
    using quiet quiet_published(1) [of items "(s, g1)"] by (auto simp: publish_events_def prod_eq_iff)
  from quiet_ack [OF quiet ty dis _ len(2), of "?j + 2" g3] ok obtain s' where
    ac: "resolveLikeSnapshotClaims env (?j + 2) False claims (s, g3) = ((s', g3), None)"
    and s': "\<forall>c \<in> set claims. snap_owner s' (show_nat (sc_post c)) = None"
      "\<forall>k. k \<noteq> KProcessing \<longrightarrow> k \<noteq> KClaims \<longrightarrow> s' k = s k" by blast
  have none: "resolveLikeSnapshotClaims env ?j True [] (s, g1) = ((s, g1), None)"
    by (simp add: resolveLikeSnapshotClaims_def)
  have run: "processLikeSnapshotClaims env i claims (s, g) = ((?j + 3, (s', g3)), None)"
    using ld so none ne pu fi ac by (simp add: processLikeSnapshotClaims_def join_err_def)
  have pub: "(show_nat (sc_post c), the (snap_val s (show_nat (sc_post c)))) \<in> published g3" if c: "c \<in> set claims" for c
  proof -
    from c it obtain ev where "(c, snapshot_of s c, ev) \<in> set items"
      by (force dest!: arg_cong [where f = set])
    from quiet_published(2) [OF this, of "(s, g1)"] g3 ok c show ?thesis
      by (auto simp: snapshot_of_def)
  qed
  have keep: "snap_pend s' x = snap_pend s x \<and> snap_val s' x = snap_val s x" for x
    using s'(2) by (simp add: snap_pend_def snap_val_def)
  show ?thesis using run s'(1) pub keep by blast
qed

section \<open>A round loses nothing\<close>

text \<open>
  C11. A round of the relay never loses a change, whatever fails in it and whatever the other
  writers and relays do between and during its calls: if before the round the latest
  announced counters of every post were published or still queued, they are so after it, and
  the claims of the round are only resolved for what it published.
\<close>

theorem relay_round_loses_nothing:
  assumes "env_ok env" "snap_canon s \<and> finite (prefixes g)" "delivery_inv snap_val snap_pend snap_owner s g"
    and "runLikeSnapshotRelayRound env batch budget lease (s, g) = ((s', g'), e)"
  shows "delivery_inv snap_val snap_pend snap_owner s' g' \<and>
    (\<forall>x v. latest g' x = Some v \<longrightarrow>
       (x, v) \<in> published g' \<or> (snap_val s' x = Some v \<and> (snap_pend s' x \<or> snap_owner s' x \<noteq> None)))"
proof -
  have "snap_step\<^sup>*\<^sup>* (s, g) (s', g')" by (rule round_steps [OF assms(1) _ assms(4)]) (use assms(2) in simp)
  from snaps.reach_inv [OF this] assms(3) have "delivery_inv snap_val snap_pend snap_owner s' g'" by simp
  then show ?thesis unfolding delivery_inv_def by blast
qed

definition fresh_uuid :: "string set \<Rightarrow> string" where
  "fresh_uuid P = replicate (Suc (Max (insert 0 (length ` P)))) CHR ''u''"

lemma fresh_uuid: "finite P \<Longrightarrow> fresh_uuid P \<notin> P"
proof
  assume f: "finite P" and m: "fresh_uuid P \<in> P"
  from m have "length (fresh_uuid P) \<in> insert 0 (length ` P)" by simp
  with f have "length (fresh_uuid P) \<le> Max (insert 0 (length ` P))" by (intro Max_ge) simp_all
  then show False by (simp add: fresh_uuid_def)
qed

definition demo_relay :: relay_env where
  "demo_relay = \<lparr>re_other = \<lambda>_ sys. sys, re_between = \<lambda>_ _ sys. sys, re_fault = \<lambda>_. Healthy, re_ctx = \<lambda>_. None,
     re_now = \<lambda>_. 5000000, re_uuid = \<lambda>_ sys. fresh_uuid (prefixes (snd sys)),
     re_sample = \<lambda>_ s. (if ''7'' |\<in>| smembers (s KDirty) then [''7''] else []),
     re_round1 = \<lambda>_. None, re_uncached1 = \<lambda>_ _. False, re_script_load = \<lambda>_. None, re_round2 = \<lambda>_. None,
     re_uncached2 = \<lambda>_ _. False, re_publish = \<lambda>_ _. None, re_stored = \<lambda>_ _. False\<rparr>"

definition demo_dirty :: lstore where
  "demo_dirty = demo_store(KDirty := Some (RSet {|''7''|}, None))"

definition demo_claimed :: lstore where
  "demo_claimed = demo_store(KClaims := Some (RHash (fmupd ''7'' ''u:7'' fmempty), None),
     KProcessing := Some (RZset (fmupd ''7'' 50 fmempty), None))"

definition demo_ghost :: "(int \<times> int) ghost" where
  "demo_ghost = \<lparr>loaded = {}, published = {}, latest = [''7'' \<mapsto> (9, 12)], prefixes = {}\<rparr>"

lemma demo_value: "snap_val demo_dirty ''7'' = Some (9, 12)" "snap_val demo_claimed ''7'' = Some (9, 12)"
  by (simp_all add: snap_val_def demo_dirty_def demo_claimed_def demo_store_def parseNonNegativeInt64_def eval_simps)

lemma demo_relay_ok: "env_ok demo_relay" "quiet_env demo_relay"
  by (auto simp: env_ok_def quiet_env_def demo_relay_def fresh_uuid sample_ok_def)

theorem relay_round_loses_nothing_witness:
  "\<exists>s' g' e. runLikeSnapshotRelayRound demo_relay 10 20 30 (demo_dirty, demo_ghost) = ((s', g'), e) \<and>
     delivery_inv snap_val snap_pend snap_owner s' g'"
proof -
  obtain s' g' e where run: "runLikeSnapshotRelayRound demo_relay 10 20 30 (demo_dirty, demo_ghost) = ((s', g'), e)"
    by (metis prod.collapse)
  have "canonical ''7''" "canonical ''5''" by (simp_all add: canonical_def show_nat.simps digit_char_def eval_simps)
  then have c: "snap_canon demo_dirty \<and> finite (prefixes demo_ghost)"
    by (auto simp: snap_canon_def snap_pend_def snap_owner_def demo_dirty_def demo_store_def demo_ghost_def)
  have d: "delivery_inv snap_val snap_pend snap_owner demo_dirty demo_ghost"
    using demo_value(1) by (auto simp: delivery_inv_def demo_ghost_def snap_pend_def demo_dirty_def)
  from relay_round_loses_nothing [OF demo_relay_ok(1) c d run] run show ?thesis by blast
qed

theorem healthy_batch_delivers_witness:
  "\<exists>j s' g'. processLikeSnapshotClaims demo_relay 0 [\<lparr>sc_post = 7, sc_claim_id = ''u:7''\<rparr>] (demo_claimed, demo_ghost) =
      ((j, (s', g')), None) \<and> snap_owner s' ''7'' = None \<and> (''7'', (9, 12)) \<in> published g'"
proof -
  have n: "show_nat 7 = ''7''" by (simp add: show_nat.simps digit_char_def)
  have ty: "type_ok TZset (demo_claimed KProcessing)" "type_ok THash (demo_claimed KClaims)"
    and o: "snap_owner demo_claimed ''7'' = Some ''u:7''"
    by (simp_all add: demo_claimed_def type_ok_def snap_owner_def)
  have "\<exists>j s' g'. processLikeSnapshotClaims demo_relay 0 [\<lparr>sc_post = 7, sc_claim_id = ''u:7''\<rparr>] (demo_claimed, demo_ghost) =
      ((j, (s', g')), None) \<and> (\<forall>c \<in> set [\<lparr>sc_post = 7, sc_claim_id = ''u:7''\<rparr>]. snap_owner s' (show_nat (sc_post c)) = None \<and>
       (show_nat (sc_post c), the (snap_val demo_claimed (show_nat (sc_post c)))) \<in> published g') \<and>
    (\<forall>x. snap_pend s' x = snap_pend demo_claimed x \<and> snap_val s' x = snap_val demo_claimed x)"
    by (rule healthy_batch_delivers) (use demo_relay_ok ty o demo_value n in auto)
  then show ?thesis by (auto simp: n demo_value)
qed

end
