(* ===== verification/KafkaRetry.thy ===== *)
theory KafkaRetry
  imports Eventing
begin

text \<open>
  Failures of a Kafka consumer and how they are retried (\<open>tasks/kafka_recovery.go\<close>): the two
  classes of failures, the bounded retry with exponential backoff, and the publication of a
  message that can never be processed to the dead letter topic. Durations are nanoseconds
  kept at the 64 bits of \<open>time.Duration\<close>.
\<close>

section \<open>Failures\<close>

datatype failure_class = Permanent | Retryable

text \<open>
  \<open>ProcessErr\<close> is a \<open>kafkaProcessError\<close> with its class, code and reason; \<open>CtxErr\<close> the error
  of a context; \<open>PlainErr\<close> any other error.
\<close>

datatype kafka_error =
    ProcessErr failure_class string string
  | CtxErr net_error
  | PlainErr string

fun kafkaFailureClassOf :: "kafka_error \<Rightarrow> failure_class option" where
  "kafkaFailureClassOf (ProcessErr c _ _) = Some c"
| "kafkaFailureClassOf _ = None"

fun kafkaFailureCode :: "kafka_error \<Rightarrow> string" where
  "kafkaFailureCode (ProcessErr _ code _) = code"
| "kafkaFailureCode _ = ''''"

section \<open>Bounded retry\<close>

record kafkaRetryPolicy =
  MaxAttempts :: int
  InitialBackoff :: int
  MaxBackoff :: int

definition defaultKafkaRetryPolicy :: kafkaRetryPolicy where
  "defaultKafkaRetryPolicy = \<lparr>MaxAttempts = 5, InitialBackoff = 250000000, MaxBackoff = 2000000000\<rparr>"

text \<open>
  The loop of \<open>kafkaRetryBackoff\<close>, with \<open>k\<close> rounds left; doubling wraps at 64 bits. The
  policy's values are not negative, so the quotient is rounded down as in Go.
\<close>

fun backoff_loop :: "int \<Rightarrow> nat \<Rightarrow> int \<Rightarrow> int" where
  "backoff_loop mx 0 delay = (if mx > 0 \<and> delay > mx then mx else delay)"
| "backoff_loop mx (Suc k) delay =
     (if mx > 0 \<and> delay \<ge> mx div 2 then mx else backoff_loop mx k (wrap64 (delay * 2)))"

definition kafkaRetryBackoff :: "kafkaRetryPolicy \<Rightarrow> int \<Rightarrow> int" where
  "kafkaRetryBackoff policy failed = backoff_loop (MaxBackoff policy) (nat (failed - 1)) (InitialBackoff policy)"

text \<open>
  \<open>waitForKafkaRetry\<close> ends when the delay has passed or the context is done; either way its
  result is the context's error, so \<open>ctx\<close> at that instant is all it needs. The context is
  asked at successive instants \<open>i\<close>, and an error of a context stays.

  \<open>attempt_loop\<close> is the loop of \<open>retryKafkaOperation\<close> from attempt \<open>attempt\<close> on, with
  \<open>left\<close> attempts left; it also returns how often the operation ran.
\<close>

fun attempt_loop ::
  "(nat \<Rightarrow> net_error option) \<Rightarrow> nat \<Rightarrow> nat \<Rightarrow> ('s \<Rightarrow> 's \<times> kafka_error option) \<Rightarrow> 's \<Rightarrow> nat \<Rightarrow>
   's \<times> kafka_error option \<times> nat" where
  "attempt_loop ctx i 0 oper s runs = (s, None, runs)"
| "attempt_loop ctx i (Suc left) oper s runs =
     (case ctx i of
        Some e \<Rightarrow> (s, Some (CtxErr e), runs)
      | None \<Rightarrow>
         (case oper s of
            (s', None) \<Rightarrow> (s', None, runs + 1)
          | (s', Some err) \<Rightarrow>
             (case ctx (i + 1) of
                Some e \<Rightarrow> (s', Some (CtxErr e), runs + 1)
              | None \<Rightarrow>
                 (if kafkaFailureClassOf err \<noteq> Some Retryable \<or> left = 0 then (s', Some err, runs + 1)
                  else
                    (case ctx (i + 2) of
                       Some e \<Rightarrow> (s', Some (CtxErr e), runs + 1)
                     | None \<Rightarrow>
                        (case ctx (i + 3) of
                           Some e \<Rightarrow> (s', Some (CtxErr e), runs + 1)
                         | None \<Rightarrow> attempt_loop ctx (i + 4) left oper s' (runs + 1)))))))"

definition retryKafkaOperation ::
  "(nat \<Rightarrow> net_error option) \<Rightarrow> kafkaRetryPolicy \<Rightarrow> ('s \<Rightarrow> 's \<times> kafka_error option) \<Rightarrow> 's \<Rightarrow>
   's \<times> kafka_error option \<times> nat" where
  "retryKafkaOperation ctx policy oper s =
     (if MaxAttempts policy < 1 \<or> InitialBackoff policy < 0 \<or> MaxBackoff policy < 0
      then (s, Some (PlainErr ''Kafka retry policy values must be non-negative and MaxAttempts must be positive''), 0)
      else attempt_loop ctx 0 (nat (MaxAttempts policy)) oper s 0)"

section \<open>Dead letters\<close>

record dead_letter =
  dl_consumer :: string
  dl_class :: failure_class
  dl_code :: string
  dl_attempts :: int

text \<open>
  \<open>publishConsumerDLQ\<close> of a failure; \<open>publish\<close> is the publisher's answer, absent when there
  is no publisher. \<open>build\<close> says whether the record of the source message can be built
  (\<open>NewDeadLetterRecord\<close>, \<open>BuildDeadLetterMessage\<close>).
\<close>

definition deadLetterFailure :: "string \<Rightarrow> kafka_error \<Rightarrow> int \<Rightarrow> dead_letter res" where
  "deadLetterFailure consumer err attempts =
     (case err of
        ProcessErr cls code _ \<Rightarrow>
          (if code = '''' then Inl ''consumer DLQ failure must have a classified error and stable code''
           else Inr \<lparr>dl_consumer = consumer, dl_class = cls, dl_code = code,
                     dl_attempts = (if attempts < 1 then 1 else attempts)\<rparr>)
      | _ \<Rightarrow> Inl ''consumer DLQ failure must have a classified error and stable code'')"

definition publishConsumerDLQ ::
  "net_error option \<Rightarrow> (dead_letter \<Rightarrow> string option) option \<Rightarrow> (dead_letter \<Rightarrow> string option) \<Rightarrow>
   string \<Rightarrow> kafka_error \<Rightarrow> int \<Rightarrow> kafka_error + dead_letter" where
  "publishConsumerDLQ ctx publish build consumer err attempts =
     (case ctx of
        Some e \<Rightarrow> Inl (CtxErr e)
      | None \<Rightarrow>
         (case publish of
            None \<Rightarrow> Inl (ProcessErr Retryable ''dlq_publish'' ''consumer DLQ publisher is unavailable'')
          | Some pub \<Rightarrow>
             (case deadLetterFailure consumer err attempts of
                Inl e \<Rightarrow> Inl (ProcessErr Retryable ''dlq_publish'' e)
              | Inr d \<Rightarrow>
                 (case build d of
                    Some e \<Rightarrow> Inl (ProcessErr Retryable ''dlq_publish'' e)
                  | None \<Rightarrow>
                     (case pub d of
                        Some e \<Rightarrow> Inl (ProcessErr Retryable ''dlq_publish'' e)
                      | None \<Rightarrow> Inr d)))))"

section \<open>Properties\<close>

text \<open>What the loop did: it ran the operation some number of times in a row and nothing else.\<close>

lemma attempt_loop_runs:
  assumes "attempt_loop ctx i n oper s k = (s', r, k')"
  shows "k \<le> k' \<and> k' \<le> k + n \<and> s' = ((\<lambda>x. fst (oper x)) ^^ (k' - k)) s"
  using assms
proof (induction ctx i n oper s k rule: attempt_loop.induct)
  case (2 ctx i left oper s k)
  obtain s1 e where o: "oper s = (s1, e)" by fastforce
  show ?case
  proof (cases "k' = k + 1 \<and> s' = s1 \<or> k' = k \<and> s' = s")
    case True
    with o show ?thesis by auto
  next
    case False
    with "2.prems" o have nn: "ctx i = None" "e \<noteq> None" "ctx (i + 1) = None" "ctx (i + 2) = None" "ctx (i + 3) = None"
      "\<not> (kafkaFailureClassOf (the e) \<noteq> Some Retryable \<or> left = 0)"
      and rec: "attempt_loop ctx (i + 4) left oper s1 (k + 1) = (s', r, k')"
      by (auto split: option.splits if_splits)
    obtain err where e: "e = Some err" using nn(2) by blast
    from "2.IH" [OF nn(1) o [symmetric] e nn(3) _ nn(4,5) rec] nn(6) e
    have "k + 1 \<le> k' \<and> k' \<le> k + 1 + left \<and> s' = ((\<lambda>x. fst (oper x)) ^^ (k' - (k + 1))) s1" by simp
    moreover from this have "k' - k = Suc (k' - (k + 1))" by linarith
    ultimately show ?thesis using o by (simp add: funpow_Suc_right del: funpow.simps)
  qed
qed simp

lemma attempt_loop_success:
  assumes "attempt_loop ctx i (Suc n) oper s k = (s', None, k')"
  shows "\<exists>x. oper x = (s', None)"
  using assms
proof (induction n arbitrary: i s k)
  case 0
  then show ?case by (auto split: option.splits prod.splits if_splits)
next
  case (Suc n)
  from Suc.prems consider "oper s = (s', None)"
    | s1 where "attempt_loop ctx (i + 4) (Suc n) oper s1 (k + 1) = (s', None, k')"
    unfolding attempt_loop.simps(2) [of ctx i "Suc n"]
    by (auto split: option.splits prod.splits if_splits simp del: attempt_loop.simps)
  then show ?case using Suc.IH by cases blast+
qed

text \<open>
  An invariant of the operation is an invariant of the retry, and what a successful run
  establishes holds after a successful retry.
\<close>

lemma attempt_loop_invariant:
  assumes "attempt_loop ctx i n oper s k = (s', r, k')" "I s"
    and "\<And>x. I x \<Longrightarrow> I (fst (oper x))" and "\<And>x y. I x \<Longrightarrow> oper x = (y, None) \<Longrightarrow> G y"
  shows "I s' \<and> (r = None \<longrightarrow> 0 < n \<longrightarrow> G s')"
  using assms(1,2)
proof (induction n arbitrary: i s k)
  case (Suc n)
  obtain s1 e where o: "oper s = (s1, e)" by fastforce
  have I1: "I s1" using assms(3) [OF Suc.prems(2)] o by simp
  have G1: "G s1" if "e = None" using assms(4) [OF Suc.prems(2)] o that by simp
  from Suc.prems(1) o consider "s' = s" "r \<noteq> None" | "s' = s1" "r = None \<longrightarrow> e = None"
    | "attempt_loop ctx (i + 4) n oper s1 (k + 1) = (s', r, k')" "0 < n"
    by (auto split: option.splits if_splits simp del: not_None_eq)
  then show ?case using Suc.IH I1 G1 Suc.prems(2) by cases auto
qed simp

lemma retry_invariant:
  assumes "retryKafkaOperation ctx policy oper s = (s', r, k)" "I s"
    and "\<And>x. I x \<Longrightarrow> I (fst (oper x))" and "\<And>x y. I x \<Longrightarrow> oper x = (y, None) \<Longrightarrow> G y"
  shows "I s' \<and> (r = None \<longrightarrow> G s')"
proof (cases "MaxAttempts policy < 1 \<or> InitialBackoff policy < 0 \<or> MaxBackoff policy < 0")
  case True
  with assms(1,2) show ?thesis by (auto simp: retryKafkaOperation_def)
next
  case False
  with assms(1) have "attempt_loop ctx 0 (nat (MaxAttempts policy)) oper s 0 = (s', r, k)"
    by (simp add: retryKafkaOperation_def)
  from attempt_loop_invariant [where I = I and G = G, OF this assms(2-4)] False show ?thesis by simp
qed

text \<open>
  A retried operation runs at most \<open>MaxAttempts\<close> times and nothing else happens to the
  state; a retry that reports success ended with a run of the operation that succeeded; one
  whose policy is invalid runs nothing.
\<close>

theorem retryKafkaOperation_effect:
  assumes "retryKafkaOperation ctx policy oper s = (s', r, runs)"
  shows "s' = ((\<lambda>x. fst (oper x)) ^^ runs) s \<and> int runs \<le> max 0 (MaxAttempts policy) \<and>
    (r = None \<longrightarrow> (\<exists>x. oper x = (s', None)))"
proof (cases "MaxAttempts policy < 1 \<or> InitialBackoff policy < 0 \<or> MaxBackoff policy < 0")
  case True
  with assms show ?thesis by (auto simp: retryKafkaOperation_def)
next
  case False
  then obtain n where n: "nat (MaxAttempts policy) = Suc n" by (cases "nat (MaxAttempts policy)") auto
  from assms False have run: "attempt_loop ctx 0 (Suc n) oper s 0 = (s', r, runs)"
    by (simp add: retryKafkaOperation_def n)
  from attempt_loop_runs [OF run] have "runs \<le> Suc n" "s' = ((\<lambda>x. fst (oper x)) ^^ runs) s" by auto
  moreover have "\<exists>x. oper x = (s', None)" if "r = None"
    using attempt_loop_success [of ctx 0 n oper s 0 s' runs] run that by simp
  ultimately show ?thesis using n False by auto
qed

lemma backoff_loop_bounds:
  assumes "0 < mx" "mx < 2 ^ 63" "0 \<le> d" "d < 2 ^ 63"
  shows "backoff_loop mx k d \<le> mx" "0 \<le> backoff_loop mx k d" "min (d * 2 ^ k) mx \<le> backoff_loop mx k d"
  using assms
proof (induction mx k d rule: backoff_loop.induct)
  case (2 mx k d)
  {
    case 1
    show ?case
    proof (cases "d \<ge> mx div 2")
      case False
      then have "wrap64 (d * 2) = d * 2" "d * 2 < 2 ^ 63" using 1 by (auto intro!: wrap64_id simp: in_int64_def)
      with "2.IH"(1) 1 False show ?thesis by simp
    qed (use 1 in simp)
  next
    case 2
    show ?case
    proof (cases "d \<ge> mx div 2")
      case False
      then have "wrap64 (d * 2) = d * 2" "d * 2 < 2 ^ 63" using 2 by (auto intro!: wrap64_id simp: in_int64_def)
      with "2.IH"(2) 2 False show ?thesis by simp
    qed (use 2 in simp)
  next
    case 3
    show ?case
    proof (cases "d \<ge> mx div 2")
      case False
      then have w: "wrap64 (d * 2) = d * 2" "d * 2 < 2 ^ 63" using 3 by (auto intro!: wrap64_id simp: in_int64_def)
      with "2.IH"(3) 3 False show ?thesis by (simp add: mult.assoc)
    qed (use 3 in simp)
  }
qed auto

text \<open>
  With a positive maximum the backoff after the \<open>k\<close>-th failure never overflows: it is
  never negative, never above the maximum, and at least the initial delay doubled \<open>k - 1\<close>
  times or the maximum, whichever is less.
\<close>

theorem kafkaRetryBackoff_bounds:
  assumes "0 < MaxBackoff policy" "MaxBackoff policy < 2 ^ 63"
    and "0 \<le> InitialBackoff policy" "InitialBackoff policy < 2 ^ 63" "1 \<le> k"
  shows "0 \<le> kafkaRetryBackoff policy k \<and> kafkaRetryBackoff policy k \<le> MaxBackoff policy \<and>
    min (InitialBackoff policy * 2 ^ nat (k - 1)) (MaxBackoff policy) \<le> kafkaRetryBackoff policy k"
  using backoff_loop_bounds [OF assms(1-4), of "nat (k - 1)"] by (simp add: kafkaRetryBackoff_def)

text \<open>An operation that fails twice and then succeeds, on a counter.\<close>

definition demo_operation :: "nat \<Rightarrow> nat \<times> kafka_error option" where
  "demo_operation n = (n + 1, if n < 2 then Some (ProcessErr Retryable ''database_transaction'' '''') else None)"

theorem retryKafkaOperation_effect_witness:
  "retryKafkaOperation (\<lambda>_. None) defaultKafkaRetryPolicy demo_operation 0 = (3, None, 3) \<and>
   (\<exists>x. demo_operation x = (3, None))"
proof -
  have run: "retryKafkaOperation (\<lambda>_. None) defaultKafkaRetryPolicy demo_operation 0 = (3, None, 3)"
    by (simp add: retryKafkaOperation_def defaultKafkaRetryPolicy_def demo_operation_def numeral_eq_Suc)
  from retryKafkaOperation_effect [OF run] run show ?thesis by blast
qed

theorem kafkaRetryBackoff_bounds_witness:
  "min 1000000000 2000000000 \<le> kafkaRetryBackoff defaultKafkaRetryPolicy 3 \<and>
   kafkaRetryBackoff defaultKafkaRetryPolicy 3 \<le> 2000000000"
  using kafkaRetryBackoff_bounds [of defaultKafkaRetryPolicy 3]
  by (simp add: defaultKafkaRetryPolicy_def numeral_2_eq_2)

end
