(* ===== verification/LikeProjection.thy ===== *)
theory LikeProjection
  imports KafkaRetry
begin

text \<open>
  The projection of like snapshots into the database (\<open>tasks/like_snapshot_consumer.go\<close> and
  \<open>MarkInboxProcessed\<close> of \<open>eventing/outbox.go\<close>). Kafka delivers every published snapshot at
  least once, possibly late, twice or out of order; the inbox and the version guard of the
  update make the row of a post converge to the newest snapshot. The database is the inbox
  and, for every post that is not deleted, its like count and the version it came from.
\<close>

section \<open>The database\<close>

record like_db =
  inbox :: "(string \<times> string) fset"
  posts :: "nat \<rightharpoonup> int \<times> int"

text \<open>
  A transaction commits, or fails and is rolled back, or commits while the answer is lost.
\<close>

datatype tx_fault = TxOk | TxRolledBack string | TxAnswerLost string

datatype apply_outcome = SnapshotApplied | SnapshotNoop

definition MarkInboxProcessed :: "string \<Rightarrow> string \<Rightarrow> like_db \<Rightarrow> (like_db \<times> bool) option" where
  "MarkInboxProcessed consumer event_id db =
     (case NormalizeEventID event_id of
        None \<Rightarrow> None
      | Some eid \<Rightarrow>
         if (consumer, eid) |\<in>| inbox db then Some (db, False)
         else Some (db\<lparr>inbox := finsert (consumer, eid) (inbox db)\<rparr>, True))"

text \<open>
  \<open>MarkInboxProcessedBatch\<close>: the distinct normalized ids, one \<open>INSERT ... ON CONFLICT DO NOTHING
  RETURNING\<close>, and the ids it inserted.
\<close>

fun unique_ids :: "string list \<Rightarrow> string list \<Rightarrow> string list res" where
  "unique_ids [] acc = Inr acc"
| "unique_ids (i # rest) acc =
     (case NormalizeEventID i of
        None \<Rightarrow> Inl ''event id must contain 1 to 128 UTF-8 characters without NUL''
      | Some eid \<Rightarrow> unique_ids rest (if eid \<in> set acc then acc else acc @ [eid]))"

definition insert_returning :: "string \<Rightarrow> string list \<Rightarrow> like_db \<Rightarrow> like_db \<times> string list" where
  "insert_returning consumer ids db =
     (db\<lparr>inbox := inbox db |\<union>| fset_of_list (map (Pair consumer) ids)\<rparr>,
      filter (\<lambda>i. (consumer, i) |\<notin>| inbox db) ids)"

definition MarkInboxProcessedBatch :: "string \<Rightarrow> string list \<Rightarrow> like_db \<Rightarrow> (like_db \<times> string fset) res" where
  "MarkInboxProcessedBatch consumer event_ids db =
     (let name = trim_space consumer
      in if name = [] then Inl ''consumer name is required''
         else
           (case unique_ids event_ids [] of
              Inl e \<Rightarrow> Inl e
            | Inr ids \<Rightarrow>
               (if ids = [] then Inr (db, {||})
                else (case insert_returning name ids db of
                        (db', inserted) \<Rightarrow> Inr (db', fset_of_list (filter (\<lambda>i. i \<noteq> []) inserted))))))"

text \<open>The update of the row, guarded by its version; the second component is \<open>RowsAffected > 0\<close>.\<close>

definition update_row :: "like_snapshot_payload \<Rightarrow> like_db \<Rightarrow> like_db \<times> bool" where
  "update_row p db =
     (case posts db (nat (pl_post p)) of
        None \<Rightarrow> (db, False)
      | Some (count, version) \<Rightarrow>
         if version < pl_version p
         then (db\<lparr>posts := (posts db)(nat (pl_post p) \<mapsto> (pl_count p, pl_version p))\<rparr>, True)
         else (db, False))"

definition snapshot_tx :: "string \<Rightarrow> envelope \<Rightarrow> like_snapshot_payload \<Rightarrow> like_db \<Rightarrow> (like_db \<times> apply_outcome) res" where
  "snapshot_tx consumer event p db =
     (case MarkInboxProcessed consumer (ev_id event) db of
        None \<Rightarrow> Inl ''event id must contain 1 to 128 UTF-8 characters without NUL''
      | Some (db1, False) \<Rightarrow> Inr (db1, SnapshotNoop)
      | Some (db1, True) \<Rightarrow>
         (case update_row p db1 of
            (db2, True) \<Rightarrow> Inr (db2, SnapshotApplied)
          | (db2, False) \<Rightarrow> Inr (db2, SnapshotNoop)))"

definition applyLikeSnapshotPayload ::
  "bool \<Rightarrow> net_error option \<Rightarrow> string \<Rightarrow> tx_fault \<Rightarrow> envelope \<Rightarrow> like_snapshot_payload \<Rightarrow> like_db \<Rightarrow>
   like_db \<times> (kafka_error + apply_outcome)" where
  "applyLikeSnapshotPayload has_db ctx consumer f event p db =
     (if \<not> has_db then (db, Inl (ProcessErr Retryable ''database_unavailable'' ''database is unavailable''))
      else
        (case ctx of
           Some e \<Rightarrow> (db, Inl (CtxErr e))
         | None \<Rightarrow>
            (case snapshot_tx consumer event p db of
               Inl e \<Rightarrow> (db, Inl (ProcessErr Retryable ''database_transaction'' e))
             | Inr (db', outcome) \<Rightarrow>
                (case f of
                   TxOk \<Rightarrow> (db', Inr outcome)
                 | TxRolledBack e \<Rightarrow> (db, Inl (ProcessErr Retryable ''database_transaction'' e))
                 | TxAnswerLost e \<Rightarrow> (db', Inl (ProcessErr Retryable ''database_transaction'' e))))))"

section \<open>Decoding\<close>

definition decodeLikeSnapshotEvent :: "envelope \<Rightarrow> kafka_error + like_snapshot_payload" where
  "decodeLikeSnapshotEvent event =
     (if ev_type event \<noteq> EventTypePostLikeSnapshot
      then Inl (ProcessErr Permanent ''unsupported_event_type'' (ev_type event))
      else if ev_schema event \<noteq> 1
      then Inl (ProcessErr Permanent ''unsupported_schema'' (show_int (ev_schema event)))
      else
        (case unmarshal_payload (ev_payload event) of
           None \<Rightarrow> Inl (ProcessErr Permanent ''decode_payload'' '''')
         | Some p \<Rightarrow>
            (if trim_space (ev_id event) = [] \<or> pl_post p = 0 \<or> pl_version p \<le> 0 \<or> pl_count p < 0
             then Inl (ProcessErr Permanent ''invalid_payload''
                         ''like snapshot payload is missing required fields or has invalid values'')
             else Inr p)))"

definition decodeLikeSnapshotMessage :: "envelope option \<Rightarrow> kafka_error + (envelope \<times> like_snapshot_payload)" where
  "decodeLikeSnapshotMessage message =
     (case DecodeEnvelope message of
        Inl e \<Rightarrow> Inl (ProcessErr Permanent ''decode_envelope'' e)
      | Inr event \<Rightarrow>
         (case decodeLikeSnapshotEvent event of
            Inl e \<Rightarrow> Inl e
          | Inr p \<Rightarrow> Inr (event, p)))"

section \<open>The consumer\<close>

text \<open>
  What the consumer meets while it processes a message: the context at every instant it is
  asked, the outcome of the \<open>k\<close>-th transaction, and the dead letter publisher.
\<close>

record message_env =
  me_has_db :: bool
  me_ctx :: "nat \<Rightarrow> net_error option"
  me_tx :: "nat \<Rightarrow> tx_fault"
  me_tx_ctx :: "nat \<Rightarrow> net_error option"
  me_dlq :: "(dead_letter \<Rightarrow> string option) option"
  me_build :: "dead_letter \<Rightarrow> string option"
  me_dlq_ctx :: "net_error option"
  me_final_ctx :: "net_error option"

record consumer_state =
  cs_db :: like_db
  cs_dlq :: "(envelope option \<times> dead_letter) list"
  cs_committed :: "envelope option list"

text \<open>The operation that is retried: the attempts are counted, one transaction each.\<close>

definition apply_attempt ::
  "message_env \<Rightarrow> string \<Rightarrow> envelope \<Rightarrow> like_snapshot_payload \<Rightarrow> like_db \<times> nat \<Rightarrow> (like_db \<times> nat) \<times> kafka_error option" where
  "apply_attempt env consumer event p st =
     (case applyLikeSnapshotPayload (me_has_db env) (me_tx_ctx env (snd st)) consumer (me_tx env (snd st)) event p (fst st) of
        (db', r) \<Rightarrow> ((db', snd st + 1), case r of Inl e \<Rightarrow> Some e | Inr _ \<Rightarrow> None))"

definition processLikeSnapshotMessageWithApply ::
  "message_env \<Rightarrow> kafkaRetryPolicy \<Rightarrow> string \<Rightarrow> envelope option \<Rightarrow> consumer_state \<Rightarrow>
   consumer_state \<times> kafka_error option" where
  "processLikeSnapshotMessageWithApply env policy consumer message s =
     (case me_ctx env 0 of
        Some e \<Rightarrow> (s, Some (CtxErr e))
      | None \<Rightarrow>
         (case decodeLikeSnapshotMessage message of
            Inl err \<Rightarrow>
              (if kafkaFailureClassOf err \<noteq> Some Permanent then (s, Some err)
               else
                 (case publishConsumerDLQ (me_dlq_ctx env) (me_dlq env) (me_build env)
                         ''like_snapshot_projection'' err 1 of
                    Inl e \<Rightarrow> (s, Some e)
                  | Inr d \<Rightarrow> (s\<lparr>cs_dlq := cs_dlq s @ [(message, d)]\<rparr>, None)))
          | Inr (event, p) \<Rightarrow>
             (case retryKafkaOperation (\<lambda>i. me_ctx env (i + 1)) policy (apply_attempt env consumer event p)
                     (cs_db s, 0) of
                ((db', _), None, _) \<Rightarrow> (s\<lparr>cs_db := db'\<rparr>, None)
              | ((db', _), Some err, _) \<Rightarrow>
                 (s\<lparr>cs_db := db'\<rparr>, Some (case me_final_ctx env of Some e \<Rightarrow> CtxErr e | None \<Rightarrow> err)))))"

text \<open>
  The loop of \<open>consumeLikeSnapshotMessagesWithApply\<close> over what the reader fetches: a message
  with its environment, the context after it and the answer to its commit; the loop ends at
  the first error, and the group resumes after the last commit.
\<close>

fun consumeLikeSnapshotMessagesWithApply ::
  "kafkaRetryPolicy \<Rightarrow> string \<Rightarrow>
   (kafka_error + envelope option \<times> message_env \<times> net_error option \<times> string option) list \<Rightarrow>
   consumer_state \<Rightarrow> consumer_state \<times> kafka_error option" where
  "consumeLikeSnapshotMessagesWithApply policy consumer [] s = (s, None)"
| "consumeLikeSnapshotMessagesWithApply policy consumer (Inl e # _) s = (s, Some e)"
| "consumeLikeSnapshotMessagesWithApply policy consumer (Inr (message, env, ctx, commit) # rest) s =
     (case processLikeSnapshotMessageWithApply env policy consumer message s of
        (s', Some e) \<Rightarrow> (s', Some e)
      | (s', None) \<Rightarrow>
         (case ctx of
            Some e \<Rightarrow> (s', Some (CtxErr e))
          | None \<Rightarrow>
             (case commit of
                Some e \<Rightarrow> (s', Some (ProcessErr Retryable ''kafka_commit'' e))
              | None \<Rightarrow>
                 consumeLikeSnapshotMessagesWithApply policy consumer rest
                   (s'\<lparr>cs_committed := cs_committed s' @ [message]\<rparr>))))"

section \<open>Versions only grow\<close>

definition db_le :: "like_db \<Rightarrow> like_db \<Rightarrow> bool" where
  "db_le db db' \<longleftrightarrow> inbox db |\<subseteq>| inbox db' \<and>
     (\<forall>x. case posts db x of
            None \<Rightarrow> posts db' x = None
          | Some (c, v) \<Rightarrow> \<exists>c' v'. posts db' x = Some (c', v') \<and> v \<le> v')"

lemma db_le_refl [simp]: "db_le db db"
  by (simp add: db_le_def split: option.splits)

lemma db_le_trans [trans]:
  assumes "db_le a b" "db_le b c"
  shows "db_le a c"
proof -
  have "case posts a x of None \<Rightarrow> posts c x = None | Some (n, v) \<Rightarrow> \<exists>n' v'. posts c x = Some (n', v') \<and> v \<le> v'" for x
  proof (cases "posts a x")
    case None
    with assms(1) have "posts b x = None" by (auto simp: db_le_def dest!: spec [of _ x])
    with assms(2) have "posts c x = None" by (auto simp: db_le_def dest!: spec [of _ x])
    with None show ?thesis by simp
  next
    case (Some r)
    obtain n v where r: "r = (n, v)" by fastforce
    with Some assms(1) obtain n1 v1 where b: "posts b x = Some (n1, v1)" "v \<le> v1"
      by (auto simp: db_le_def dest!: spec [of _ x])
    with assms(2) obtain n2 v2 where "posts c x = Some (n2, v2)" "v1 \<le> v2"
      by (auto simp: db_le_def dest!: spec [of _ x])
    with Some r b(2) show ?thesis by auto
  qed
  with assms show ?thesis by (auto simp: db_le_def)
qed

lemma snapshot_tx_le:
  assumes "snapshot_tx consumer event p db = Inr (db', o')"
  shows "db_le db db'"
  using assms
  by (auto simp: snapshot_tx_def MarkInboxProcessed_def update_row_def db_le_def
      split: option.splits if_splits bool.splits)

text \<open>
  What the inbox promises about a set of events: an event recorded there is reflected by the
  row of its post. It holds as long as an id stands for one post and version.
\<close>

definition reflected :: "like_db \<Rightarrow> like_snapshot_payload \<Rightarrow> bool" where
  "reflected db p \<longleftrightarrow> (case posts db (nat (pl_post p)) of None \<Rightarrow> True | Some (c, v) \<Rightarrow> pl_version p \<le> v)"

definition inbox_sound :: "string \<Rightarrow> (envelope \<times> like_snapshot_payload) set \<Rightarrow> like_db \<Rightarrow> bool" where
  "inbox_sound consumer E db \<longleftrightarrow>
     (\<forall>(e, p) \<in> E. \<forall>eid. NormalizeEventID (ev_id e) = Some eid \<longrightarrow> (consumer, eid) |\<in>| inbox db \<longrightarrow> reflected db p)"

definition ids_identify :: "(envelope \<times> like_snapshot_payload) set \<Rightarrow> bool" where
  "ids_identify E \<longleftrightarrow>
     (\<forall>(e1, p1) \<in> E. \<forall>(e2, p2) \<in> E. NormalizeEventID (ev_id e1) = NormalizeEventID (ev_id e2) \<longrightarrow>
        NormalizeEventID (ev_id e1) \<noteq> None \<longrightarrow> pl_post p1 = pl_post p2 \<and> pl_version p1 = pl_version p2)"

lemma reflected_mono: "db_le db db' \<Longrightarrow> reflected db p \<Longrightarrow> reflected db' p"
  by (fastforce simp: reflected_def db_le_def split: option.splits dest!: spec [of _ "nat (pl_post p)"])

lemma inbox_sound_subset: "inbox_sound consumer E db \<Longrightarrow> F \<subseteq> E \<Longrightarrow> inbox_sound consumer F db"
  unfolding inbox_sound_def by blast

lemma snapshot_tx_effect:
  assumes run: "snapshot_tx consumer e p db = Inr (db', o')" and snd: "inbox_sound consumer E db"
    and mem: "(e, p) \<in> E" and ids: "ids_identify E"
  shows "inbox_sound consumer E db'" "reflected db' p"
    "\<exists>eid. NormalizeEventID (ev_id e) = Some eid \<and> (consumer, eid) |\<in>| inbox db'"
proof -
  obtain eid where n: "NormalizeEventID (ev_id e) = Some eid"
    using run by (auto simp: snapshot_tx_def MarkInboxProcessed_def split: option.splits)
  note le = snapshot_tx_le [OF run]
  have new: "inbox db' = finsert (consumer, eid) (inbox db)"
    using run n by (auto simp: snapshot_tx_def MarkInboxProcessed_def update_row_def
        split: option.splits if_splits bool.splits)
  show "\<exists>eid. NormalizeEventID (ev_id e) = Some eid \<and> (consumer, eid) |\<in>| inbox db'" using n new by simp
  show ref: "reflected db' p"
  proof (cases "(consumer, eid) |\<in>| inbox db")
    case True
    with snd mem n have "reflected db p" by (fastforce simp: inbox_sound_def)
    then show ?thesis by (rule reflected_mono [OF le])
  next
    case False
    with run n show ?thesis
      by (auto simp: snapshot_tx_def MarkInboxProcessed_def update_row_def reflected_def
          split: option.splits if_splits bool.splits)
  qed
  show "inbox_sound consumer E db'"
    unfolding inbox_sound_def
  proof (clarify)
    fix e2 p2 eid2 assume m2: "(e2, p2) \<in> E" and n2: "NormalizeEventID (ev_id e2) = Some eid2"
      and i2: "(consumer, eid2) |\<in>| inbox db'"
    show "reflected db' p2"
    proof (cases "eid2 = eid")
      case True
      with ids mem m2 n n2 have "pl_post p2 = pl_post p" "pl_version p2 = pl_version p"
        by (fastforce simp: ids_identify_def)+
      with ref show ?thesis by (auto simp: reflected_def split: option.splits)
    next
      case False
      with i2 new have "(consumer, eid2) |\<in>| inbox db" by simp
      with snd m2 n2 have "reflected db p2" by (fastforce simp: inbox_sound_def)
      then show ?thesis by (rule reflected_mono [OF le])
    qed
  qed
qed

section \<open>Convergence\<close>

text \<open>
  Delivering a list of decoded events, each with a transaction that commits, in whatever
  order and however often.
\<close>

definition deliver1 :: "string \<Rightarrow> envelope \<times> like_snapshot_payload \<Rightarrow> like_db \<Rightarrow> like_db" where
  "deliver1 consumer ep db = fst (applyLikeSnapshotPayload True None consumer TxOk (fst ep) (snd ep) db)"

definition deliver :: "string \<Rightarrow> (envelope \<times> like_snapshot_payload) list \<Rightarrow> like_db \<Rightarrow> like_db" where
  "deliver consumer ds db = fold (deliver1 consumer) ds db"

definition snapshots_of :: "(envelope \<times> like_snapshot_payload) set \<Rightarrow> nat \<Rightarrow> (int \<times> int) set" where
  "snapshots_of E x = {(pl_count p, pl_version p) | e p. (e, p) \<in> E \<and> nat (pl_post p) = x}"

lemma deliver1_tx:
  assumes "NormalizeEventID (ev_id e) \<noteq> None"
  shows "\<exists>o'. snapshot_tx consumer e p db = Inr (deliver1 consumer (e, p) db, o')"
  using assms
  by (auto simp: deliver1_def applyLikeSnapshotPayload_def snapshot_tx_def MarkInboxProcessed_def
      split: option.splits bool.splits prod.splits)

lemma update_row_source:
  "posts (fst (update_row p db)) x = posts db x \<or>
   (nat (pl_post p) = x \<and> posts (fst (update_row p db)) x = Some (pl_count p, pl_version p))"
  by (auto simp: update_row_def split: option.splits)

lemma snapshot_tx_source:
  assumes "snapshot_tx consumer e p db = Inr (db', o')"
  shows "posts db' x = posts db x \<or>
    (nat (pl_post p) = x \<and> posts db' x = Some (pl_count p, pl_version p))"
  using assms update_row_source [of p "db\<lparr>inbox := finsert (consumer, the (NormalizeEventID (ev_id e))) (inbox db)\<rparr>" x]
  by (auto simp: snapshot_tx_def MarkInboxProcessed_def split: option.splits bool.splits prod.splits if_splits)

lemma deliver_invariant:
  assumes "set ds \<subseteq> E" "inbox_sound consumer E db" "ids_identify E"
    "\<forall>(e, p) \<in> E. NormalizeEventID (ev_id e) \<noteq> None"
  shows "inbox_sound consumer E (deliver consumer ds db) \<and> db_le db (deliver consumer ds db) \<and>
    (\<forall>(e, p) \<in> set ds. reflected (deliver consumer ds db) p) \<and>
    (\<forall>x. posts (deliver consumer ds db) x = posts db x \<or>
         (\<exists>s \<in> snapshots_of (set ds) x. posts (deliver consumer ds db) x = Some s))"
  using assms
proof (induction ds arbitrary: db)
  case Nil
  then show ?case by (simp add: deliver_def)
next
  case (Cons d ds)
  obtain e p where d: "d = (e, p)" by fastforce
  let ?db = "deliver1 consumer (e, p) db"
  from Cons.prems d obtain o' where tx: "snapshot_tx consumer e p db = Inr (?db, o')"
    using deliver1_tx by fastforce
  have mem: "(e, p) \<in> E" using Cons.prems d by simp
  note eff = snapshot_tx_effect [OF tx Cons.prems(2) mem Cons.prems(3)]
  have fold: "deliver consumer (d # ds) db = deliver consumer ds ?db" by (simp add: deliver_def d)
  from Cons.IH [OF _ eff(1) Cons.prems(3,4)] Cons.prems(1)
  have ih: "inbox_sound consumer E (deliver consumer ds ?db)" "db_le ?db (deliver consumer ds ?db)"
    "\<forall>(e, p) \<in> set ds. reflected (deliver consumer ds ?db) p"
    "\<And>x. posts (deliver consumer ds ?db) x = posts ?db x \<or>
         (\<exists>s \<in> snapshots_of (set ds) x. posts (deliver consumer ds ?db) x = Some s)"
    by auto
  have src: "posts (deliver consumer ds ?db) x = posts db x \<or>
         (\<exists>s \<in> snapshots_of (set (d # ds)) x. posts (deliver consumer ds ?db) x = Some s)" for x
    using ih(4) [of x] snapshot_tx_source [OF tx, of x] d unfolding snapshots_of_def by force
  show ?case
    unfolding fold using ih src eff(2) reflected_mono [OF ih(2)] db_le_trans [OF snapshot_tx_le [OF tx] ih(2)] d
    by auto
qed

text \<open>
  C13. Whatever the order and multiplicity in which published snapshots arrive, the row of
  every post ends as the newest of them: after any sequence of deliveries the row of a live
  post is one of the delivered snapshots of that post or the row it had, and no delivered
  snapshot and no earlier row has a higher version. A deleted post stays absent.
\<close>

theorem snapshot_projection_converges:
  assumes "inbox_sound consumer (set ds) db" "ids_identify (set ds)"
    and "\<forall>(e, p) \<in> set ds. NormalizeEventID (ev_id e) \<noteq> None"
  shows "case posts db x of
      None \<Rightarrow> posts (deliver consumer ds db) x = None
    | Some row \<Rightarrow> \<exists>c v. posts (deliver consumer ds db) x = Some (c, v) \<and>
        (c, v) \<in> insert row (snapshots_of (set ds) x) \<and>
        (\<forall>(c', v') \<in> insert row (snapshots_of (set ds) x). v' \<le> v)"
proof -
  note inv = deliver_invariant [OF subset_refl assms]
  let ?db = "deliver consumer ds db"
  show ?thesis
  proof (cases "posts db x")
    case None
    with inv show ?thesis by (auto simp: db_le_def dest!: spec [of _ x])
  next
    case (Some row)
    obtain c0 v0 where row: "row = (c0, v0)" by fastforce
    from inv have "db_le db ?db" by blast
    with Some row obtain c v where cv: "posts ?db x = Some (c, v)" "v0 \<le> v"
      by (auto simp: db_le_def dest!: spec [of _ x])
    have "(c, v) \<in> insert row (snapshots_of (set ds) x)"
      using inv cv(1) Some by (auto dest!: spec [of _ x])
    moreover have "v' \<le> v" if "(c', v') \<in> snapshots_of (set ds) x" for c' v'
    proof -
      from that obtain e p where "(e, p) \<in> set ds" "nat (pl_post p) = x" "v' = pl_version p"
        by (auto simp: snapshots_of_def)
      moreover from this(1) inv have "reflected ?db p" by blast
      ultimately show ?thesis using cv(1) by (simp add: reflected_def)
    qed
    ultimately show ?thesis using Some row cv by auto
  qed
qed

section \<open>From the relay to the projection\<close>

lemma length_show_nat: "0 < k \<Longrightarrow> n < 10 ^ k \<Longrightarrow> length (show_nat n) \<le> k"
proof (induction k arbitrary: n)
  case (Suc k)
  show ?case
  proof (cases "n < 10")
    case True
    then show ?thesis by (subst show_nat.simps) simp
  next
    case False
    then have "0 < k" using Suc.prems by (cases k) auto
    moreover have "n div 10 < 10 ^ k" using Suc.prems by (simp add: less_mult_imp_div_less)
    ultimately show ?thesis using Suc.IH False by (subst show_nat.simps) simp
  qed
qed simp

lemma rune_count_ascii: "\<forall>c \<in> set s. byte c < 0x80 \<Longrightarrow> rune_count s = Some (length s)"
  by (induction s) auto

lemma digit_byte: "is_digit c \<Longrightarrow> 33 \<le> byte c \<and> byte c < 0x80 \<and> c \<noteq> CHR 0x00"
  by (auto simp: is_digit_def byte_def)

lemma digits_byte: "c \<in> set (show_nat n) \<Longrightarrow> byte c < 0x80 \<and> c \<noteq> CHR 0x00"
  using digit_byte digits_only_imp_digit [OF digits_only_show_nat] by blast

lemma trim_space_stable:
  assumes "s \<noteq> []" "\<forall>c \<in> {hd s, List.last s}. 33 \<le> byte c \<and> byte c < 0x80"
  shows "trim_space s = s"
proof -
  have a: "\<forall>w \<in> set space_runes. w \<noteq> [] \<and> (byte (hd w) < 33 \<or> 0x80 \<le> byte (hd w)) \<and>
      (byte (List.last w) < 33 \<or> 0x80 \<le> byte (List.last w))"
    by (simp add: space_runes_def byte_def)
  have np: "\<not> prefix w s" if "w \<in> set space_runes" for w
    using a that assms by (cases w; cases s) auto
  have ns: "\<not> prefix (rev w) (rev s)" if "w \<in> set space_runes" for w
  proof
    assume "prefix (rev w) (rev s)"
    then obtain z where "rev s = rev w @ z" by (auto simp: prefix_def)
    then have "s = rev z @ w" by (metis rev_append rev_rev_ident)
    with a that assms(2) show False by (auto simp: last_append)
  qed
  have "strip_left space_runes s = s" using np by (intro strip_left_id) blast
  moreover have "strip_left (map rev space_runes) (rev s) = rev s" using ns by (intro strip_left_id) auto
  ultimately show ?thesis by (simp add: trim_space_def)
qed

lemma NormalizeEventID_ascii:
  assumes "trim_space i = i" "i \<noteq> []" "CHR 0x00 \<notin> set i" "rune_count i = Some (length i)" "length i \<le> 128"
  shows "NormalizeEventID i = Some i"
  using assms by (simp add: NormalizeEventID_def ConsumerInboxEventIDMaxLength_def)

lemma snapshot_id_normal:
  assumes "post < 2 ^ 64" "0 \<le> version" "version < 2 ^ 63"
  shows "NormalizeEventID (''like-snapshot:'' @ show_nat post @ '':'' @ show_int version) =
     Some (''like-snapshot:'' @ show_nat post @ '':'' @ show_int version)" (is "NormalizeEventID ?i = _")
proof -
  have v: "show_int version = show_nat (nat version)" using assms(2) by (simp add: show_int_def)
  have ascii: "\<forall>c \<in> set ?i. byte c < 0x80 \<and> c \<noteq> CHR 0x00"
    using digits_byte by (auto simp: v byte_def)
  have "is_digit (List.last (show_nat (nat version)))"
    using digits_only_show_nat [of "nat version"] show_nat_ne [of "nat version"]
    by (metis digits_only_imp_digit last_in_set)
  then have "33 \<le> byte (List.last (show_nat (nat version)))" by (simp add: digit_byte)
  then have t: "trim_space ?i = ?i"
    using ascii by (intro trim_space_stable) (auto simp: v last_append byte_def)
  have "post < 10 ^ 20" by (rule less_trans [OF assms(1)]) simp
  moreover have "nat version < 2 ^ 63" using assms(2,3) by (simp add: nat_less_iff)
  then have "nat version < 10 ^ 19" by (rule less_trans) simp
  ultimately have len: "length (show_nat post) \<le> 20" "length (show_nat (nat version)) \<le> 19"
    by (simp_all only: length_show_nat zero_less_numeral)
  have "length ?i \<le> 128" using len by (simp add: v)
  moreover have "rune_count ?i = Some (length ?i)" using ascii by (intro rune_count_ascii) blast
  ultimately show ?thesis using t ascii by (intro NormalizeEventID_ascii) auto
qed

lemma snapshot_event_decodes:
  assumes "NewLikeSnapshotEnvelope now post count version = Inr event"
    and "post < 2 ^ 64" "count < 2 ^ 63" "0 < version" "version < 2 ^ 63"
  shows "decodeLikeSnapshotMessage (Some event) =
    Inr (event, \<lparr>pl_post = int post, pl_count = count, pl_version = version\<rparr>) \<and>
    NormalizeEventID (ev_id event) = Some (ev_id event)"
proof -
  have e: "event = \<lparr>ev_id = ''like-snapshot:'' @ show_nat post @ '':'' @ show_int version,
                ev_type = EventTypePostLikeSnapshot, ev_schema = 1, ev_agg_type = ''post'',
                ev_agg_id = show_nat post, ev_occurred = now,
                ev_payload = marshal_payload \<lparr>pl_post = int post, pl_count = count, pl_version = version\<rparr>\<rparr>"
    and g: "post \<noteq> 0" "0 \<le> count"
    using assms(1) by (auto simp: NewLikeSnapshotEnvelope_def split: if_splits)
  have n: "NormalizeEventID (ev_id event) = Some (ev_id event)"
    unfolding e using snapshot_id_normal [OF assms(2) _ assms(5)] assms(4) by simp
  then have "trim_space (ev_id event) = ev_id event"
    by (auto simp: NormalizeEventID_def Let_def split: if_splits option.splits)
  moreover have "trim_space (ev_type event) \<noteq> []"
    by (simp add: e EventTypePostLikeSnapshot_def trim_space_stable byte_def)
  moreover have "unmarshal_payload (ev_payload event) = Some \<lparr>pl_post = int post, pl_count = count, pl_version = version\<rparr>"
    using assms(2-5) g by (simp add: e marshal_payload_def fold_name_def ascii_lower_def empty_payload_def)
  ultimately show ?thesis
    using n assms(4) g by (simp add: decodeLikeSnapshotMessage_def DecodeEnvelope_def decodeLikeSnapshotEvent_def e)
qed

text \<open>
  What the relay publishes is what the projection applies: the envelope of a snapshot with
  a positive version is accepted by every decoding step of the consumer and gives back the
  post, the count and the version, and its event id is the same at both ends.
\<close>

theorem snapshot_event_roundtrip:
  assumes "NewLikeSnapshotEnvelope now post count version = Inr event"
    and "post < 2 ^ 64" "count < 2 ^ 63" "0 < version" "version < 2 ^ 63"
  shows "decodeLikeSnapshotMessage (Some event) =
    Inr (event, \<lparr>pl_post = int post, pl_count = count, pl_version = version\<rparr>) \<and>
    NormalizeEventID (ev_id event) = Some (ev_id event)"
  using snapshot_event_decodes [OF assms] .

section \<open>Commits\<close>

text \<open>A message is settled when the dead letter topic has it or the database reflects it.\<close>

definition settled :: "string \<Rightarrow> consumer_state \<Rightarrow> envelope option \<Rightarrow> bool" where
  "settled consumer s m \<longleftrightarrow>
     (case decodeLikeSnapshotMessage m of
        Inl err \<Rightarrow> \<exists>d. (m, d) \<in> set (cs_dlq s) \<and> dl_class d = Permanent \<and> dl_code d = kafkaFailureCode err
      | Inr (e, p) \<Rightarrow> reflected (cs_db s) p \<and>
          (\<exists>eid. NormalizeEventID (ev_id e) = Some eid \<and> (consumer, eid) |\<in>| inbox (cs_db s)))"

definition state_le :: "consumer_state \<Rightarrow> consumer_state \<Rightarrow> bool" where
  "state_le s s' \<longleftrightarrow> db_le (cs_db s) (cs_db s') \<and> set (cs_dlq s) \<subseteq> set (cs_dlq s')"

lemma settled_mono: "state_le s s' \<Longrightarrow> settled consumer s m \<Longrightarrow> settled consumer s' m"
  using reflected_mono [of "cs_db s" "cs_db s'"]
  by (auto simp: settled_def state_le_def db_le_def split: sum.splits prod.splits)

lemma apply_db_cases:
  assumes "applyLikeSnapshotPayload has_db ctx consumer f e p db = (db', r)"
  shows "(db' = db \<and> (\<exists>x. r = Inl x)) \<or> (\<exists>o'. snapshot_tx consumer e p db = Inr (db', o'))"
  using assms
  by (auto simp: applyLikeSnapshotPayload_def split: if_splits option.splits sum.splits prod.splits tx_fault.splits)

lemma decode_permanent:
  "decodeLikeSnapshotMessage m = Inl err \<Longrightarrow> \<exists>code reason. err = ProcessErr Permanent code reason \<and> code \<noteq> ''''"
  by (auto simp: decodeLikeSnapshotMessage_def decodeLikeSnapshotEvent_def split: sum.splits option.splits if_splits)

lemma process_settles:
  assumes run: "processLikeSnapshotMessageWithApply env policy consumer m s = (s', r)"
    and sound: "inbox_sound consumer E (cs_db s)" "ids_identify E"
    and mem: "\<And>e p. decodeLikeSnapshotMessage m = Inr (e, p) \<Longrightarrow> (e, p) \<in> E"
  shows "inbox_sound consumer E (cs_db s')" "state_le s s'" "cs_committed s' = cs_committed s"
    "r = None \<Longrightarrow> settled consumer s' m"
proof -
  have "inbox_sound consumer E (cs_db s') \<and> state_le s s' \<and> cs_committed s' = cs_committed s \<and>
    (r = None \<longrightarrow> settled consumer s' m)"
  proof (cases "me_ctx env 0")
    case (Some e)
    with run sound show ?thesis
      by (auto simp: processLikeSnapshotMessageWithApply_def state_le_def)
  next
    case ctx: None
    show ?thesis
    proof (cases "decodeLikeSnapshotMessage m")
      case (Inl err)
      with decode_permanent obtain code reason where err: "err = ProcessErr Permanent code reason" "code \<noteq> ''''"
        by blast
      with run ctx Inl sound show ?thesis
        by (auto simp: processLikeSnapshotMessageWithApply_def publishConsumerDLQ_def deadLetterFailure_def
            settled_def state_le_def split: option.splits)
    next
      case (Inr ep)
      obtain e p where ep: "ep = (e, p)" by fastforce
      with Inr mem have inE: "(e, p) \<in> E" by simp
      obtain db' n r' k where retry: "retryKafkaOperation (\<lambda>i. me_ctx env (i + 1)) policy (apply_attempt env consumer e p)
          (cs_db s, 0) = ((db', n), r', k)" by (metis prod_cases3 surj_pair)
      let ?I = "\<lambda>st. inbox_sound consumer E (fst st) \<and> db_le (cs_db s) (fst st)"
      let ?G = "\<lambda>st. reflected (fst st) p \<and>
          (\<exists>eid. NormalizeEventID (ev_id e) = Some eid \<and> (consumer, eid) |\<in>| inbox (fst st))"
      have tx: "?I st'" "r'' = None \<Longrightarrow> ?G st'"
        if "?I st" "apply_attempt env consumer e p st = (st', r'')" for st st' r''
      proof -
        obtain db1 q where a: "applyLikeSnapshotPayload (me_has_db env) (me_tx_ctx env (snd st)) consumer
            (me_tx env (snd st)) e p (fst st) = (db1, q)" by fastforce
        with that(2) have st': "fst st' = db1" "r'' = (case q of Inl e \<Rightarrow> Some e | Inr _ \<Rightarrow> None)"
          by (auto simp: apply_attempt_def)
        from apply_db_cases [OF a] have "?I st' \<and> (r'' = None \<longrightarrow> ?G st')"
        proof
          assume "db1 = fst st \<and> (\<exists>x. q = Inl x)"
          with that(1) st' show ?thesis by auto
        next
          assume "\<exists>o'. snapshot_tx consumer e p (fst st) = Inr (db1, o')"
          then obtain o' where t: "snapshot_tx consumer e p (fst st) = Inr (db1, o')" ..
          from that(1) have "inbox_sound consumer E (fst st)" by simp
          from snapshot_tx_effect [OF t this inE sound(2)] db_le_trans [OF _ snapshot_tx_le [OF t]] that(1)
          show ?thesis unfolding st'(1) by blast
        qed
        then show "?I st'" "r'' = None \<Longrightarrow> ?G st'" by blast+
      qed
      have start: "?I (cs_db s, 0)" using sound by simp
      have "?I (db', n) \<and> (r' = None \<longrightarrow> ?G (db', n))"
        by (rule retry_invariant [where I = ?I and G = ?G, OF retry start]) (metis tx(1) prod.collapse, metis tx(2))
      moreover have "s' = s\<lparr>cs_db := db'\<rparr>" "r = None \<longleftrightarrow> r' = None"
        using run ctx Inr ep retry
        by (auto simp: processLikeSnapshotMessageWithApply_def split: option.splits)
      ultimately show ?thesis using Inr ep by (simp add: settled_def state_le_def)
    qed
  qed
  then show "inbox_sound consumer E (cs_db s')" "state_le s s'" "cs_committed s' = cs_committed s"
    "r = None \<Longrightarrow> settled consumer s' m" by blast+
qed

text \<open>The events a reader's messages decode to.\<close>

definition fetched ::
  "(kafka_error + envelope option \<times> message_env \<times> net_error option \<times> string option) list \<Rightarrow>
   (envelope \<times> like_snapshot_payload) set" where
  "fetched fs = {(e, p). \<exists>m x. Inr (m, x) \<in> set fs \<and> decodeLikeSnapshotMessage m = Inr (e, p)}"

lemma state_le_trans [trans]: "state_le a b \<Longrightarrow> state_le b c \<Longrightarrow> state_le a c"
  by (auto simp: state_le_def intro: db_le_trans)

lemma consume_settles:
  assumes "consumeLikeSnapshotMessagesWithApply policy consumer fs s = (s', r)"
    and "inbox_sound consumer E (cs_db s)" "ids_identify E" "fetched fs \<subseteq> E"
    and "\<forall>m \<in> set (cs_committed s). settled consumer s m"
  shows "\<forall>m \<in> set (cs_committed s'). settled consumer s' m"
  using assms
proof (induction policy consumer fs s rule: consumeLikeSnapshotMessagesWithApply.induct)
  case (3 policy consumer m env ctx commit rest s)
  obtain s1 r1 where p: "processLikeSnapshotMessageWithApply env policy consumer m s = (s1, r1)" by fastforce
  have mem: "(e, q) \<in> E" if "decodeLikeSnapshotMessage m = Inr (e, q)" for e q
    using "3.prems"(4) that by (fastforce simp: fetched_def)
  note ps = process_settles [OF p "3.prems"(2,3) mem]
  have old: "\<forall>m \<in> set (cs_committed s1). settled consumer s1 m"
    using "3.prems"(5) ps(2,3) settled_mono by auto
  show ?case
  proof (cases "r1 = None \<and> ctx = None \<and> commit = None")
    case False
    with "3.prems"(1) p have "s' = s1" by (auto split: option.splits)
    with old show ?thesis by simp
  next
    case True
    let ?s = "s1\<lparr>cs_committed := cs_committed s1 @ [m]\<rparr>"
    have set: "settled consumer ?s = settled consumer s1" by (auto simp: settled_def fun_eq_iff split: sum.splits)
    have "consumeLikeSnapshotMessagesWithApply policy consumer rest ?s = (s', r)"
      using "3.prems"(1) p True by simp
    moreover have "fetched rest \<subseteq> E" using "3.prems"(4) by (fastforce simp: fetched_def)
    moreover have "\<forall>m \<in> set (cs_committed ?s). settled consumer ?s m"
      using old ps(4) True unfolding set by simp
    ultimately show ?thesis
      using "3.IH" [of s1 r1] p True ps(1) "3.prems"(3) by simp
  qed
qed simp_all

text \<open>
  C14. The consumer commits an offset only after the message is settled: at every return of
  the consumer loop, with whatever transaction, dead letter and commit failures it met,
  every committed message is reflected by the database (its event id in the inbox, its post
  at least at its version) or, if it can never be decoded, is in the dead letter topic under
  the code of its failure. So a crash loses no snapshot: what is not settled is delivered
  again.
\<close>

theorem commit_only_after_effect:
  assumes "consumeLikeSnapshotMessagesWithApply policy consumer fs s = (s', r)"
    and "cs_committed s = []" and "inbox_sound consumer (fetched fs) (cs_db s)" "ids_identify (fetched fs)"
    and "m \<in> set (cs_committed s')"
  shows "settled consumer s' m"
  using consume_settles [OF assms(1,3,4) subset_refl] assms(2,5) by simp

section \<open>Witnesses\<close>

definition demo_event :: "int \<Rightarrow> int \<Rightarrow> envelope" where
  "demo_event count version =
     \<lparr>ev_id = ''like-snapshot:'' @ show_nat 7 @ '':'' @ show_int version,
      ev_type = EventTypePostLikeSnapshot, ev_schema = 1, ev_agg_type = ''post'',
      ev_agg_id = show_nat 7, ev_occurred = 0,
      ev_payload = marshal_payload \<lparr>pl_post = 7, pl_count = count, pl_version = version\<rparr>\<rparr>"

lemma demo_event_new: "0 \<le> c \<Longrightarrow> 0 \<le> v \<Longrightarrow> NewLikeSnapshotEnvelope 0 7 c v = Inr (demo_event c v)"
  by (simp add: NewLikeSnapshotEnvelope_def demo_event_def)

section \<open>The batch inbox\<close>

text \<open>Marking one after the other; the ids that were new.\<close>

fun mark_each :: "string \<Rightarrow> string list \<Rightarrow> like_db \<Rightarrow> (like_db \<times> string fset) option" where
  "mark_each consumer [] db = Some (db, {||})"
| "mark_each consumer (i # rest) db =
     (case MarkInboxProcessed consumer i db of
        None \<Rightarrow> None
      | Some (db1, first) \<Rightarrow>
         (case mark_each consumer rest db1 of
            None \<Rightarrow> None
          | Some (db2, fs) \<Rightarrow> Some (db2, if first then finsert (the (NormalizeEventID i)) fs else fs)))"

lemma NormalizeEventID_nonempty: "NormalizeEventID i = Some e \<Longrightarrow> e \<noteq> []"
  by (auto simp: NormalizeEventID_def Let_def split: if_splits option.splits)

lemma unique_ids_spec:
  "unique_ids ids acc = Inr us \<Longrightarrow>
     set us = set acc \<union> {e. \<exists>i \<in> set ids. NormalizeEventID i = Some e} \<and> (\<forall>i \<in> set ids. NormalizeEventID i \<noteq> None)"
  by (induction ids acc rule: unique_ids.induct) (auto split: option.splits if_splits)

lemma mark_each_spec:
  assumes "\<forall>i \<in> set ids. NormalizeEventID i \<noteq> None"
  shows "\<exists>db' fs. mark_each consumer ids db = Some (db', fs) \<and> posts db' = posts db \<and>
    inbox db' = inbox db |\<union>| fset_of_list (map (\<lambda>i. (consumer, the (NormalizeEventID i))) ids) \<and>
    fset fs = {e. (\<exists>i \<in> set ids. NormalizeEventID i = Some e) \<and> (consumer, e) |\<notin>| inbox db}"
  using assms
proof (induction ids arbitrary: db)
  case (Cons i ids)
  then obtain e where e: "NormalizeEventID i = Some e" by auto
  let ?db1 = "db\<lparr>inbox := finsert (consumer, e) (inbox db)\<rparr>"
  have m: "MarkInboxProcessed consumer i db = Some (if (consumer, e) |\<in>| inbox db then (db, False) else (?db1, True))"
    by (simp add: MarkInboxProcessed_def e)
  show ?case
  proof (cases "(consumer, e) |\<in>| inbox db")
    case True
    from Cons.IH [of db] Cons.prems obtain db' fs where
      "mark_each consumer ids db = Some (db', fs)" "posts db' = posts db"
      "inbox db' = inbox db |\<union>| fset_of_list (map (\<lambda>i. (consumer, the (NormalizeEventID i))) ids)"
      "fset fs = {e. (\<exists>i \<in> set ids. NormalizeEventID i = Some e) \<and> (consumer, e) |\<notin>| inbox db}" by auto
    with True e m show ?thesis by auto
  next
    case False
    from Cons.IH [of ?db1] Cons.prems obtain db' fs where
      "mark_each consumer ids ?db1 = Some (db', fs)" "posts db' = posts db"
      "inbox db' = finsert (consumer, e) (inbox db) |\<union>| fset_of_list (map (\<lambda>i. (consumer, the (NormalizeEventID i))) ids)"
      "fset fs = {x. (\<exists>i \<in> set ids. NormalizeEventID i = Some x) \<and> (consumer, x) |\<notin>| finsert (consumer, e) (inbox db)}"
      by auto
    with False e m show ?thesis by auto
  qed
qed simp

text \<open>
  The batch form of the inbox is the one-by-one form: for a consumer name without
  surrounding blanks, marking a list of ids in one statement leaves the inbox as marking
  them one after the other would, and returns exactly the ids the single form would have
  reported as new, duplicates in the list included.
\<close>

theorem MarkInboxProcessedBatch_equiv:
  assumes "trim_space consumer = consumer"
    and "MarkInboxProcessedBatch consumer ids db = Inr (db', first)"
  shows "mark_each consumer ids db = Some (db', first)"
proof -
  from assms obtain us where us: "unique_ids ids [] = Inr us"
    by (auto simp: MarkInboxProcessedBatch_def Let_def split: if_splits sum.splits)
  note sp = unique_ids_spec [OF us]
  have img: "set us = (\<lambda>i. the (NormalizeEventID i)) ` set ids" using sp by force
  have ne: "[] \<notin> set us" using sp NormalizeEventID_nonempty by fastforce
  have db': "db' = db\<lparr>inbox := inbox db |\<union>| fset_of_list (map (Pair consumer) us)\<rparr>"
    using assms us by (auto simp: MarkInboxProcessedBatch_def insert_returning_def Let_def split: if_splits)
  have first: "fset first = {e \<in> set us. (consumer, e) |\<notin>| inbox db}"
    using assms us ne by (auto simp: MarkInboxProcessedBatch_def insert_returning_def Let_def fset_of_list.rep_eq split: if_splits)
  from mark_each_spec [of ids consumer db] sp obtain db2 fs where
    m: "mark_each consumer ids db = Some (db2, fs)" "posts db2 = posts db"
    "inbox db2 = inbox db |\<union>| fset_of_list (map (\<lambda>i. (consumer, the (NormalizeEventID i))) ids)"
    "fset fs = {e. (\<exists>i \<in> set ids. NormalizeEventID i = Some e) \<and> (consumer, e) |\<notin>| inbox db}" by blast
  have "fset_of_list (map (Pair consumer) us) = fset_of_list (map (\<lambda>i. (consumer, the (NormalizeEventID i))) ids)"
    by (simp only: fset_inject [symmetric] fset_of_list.rep_eq set_map img image_image)
  then have "inbox db2 = inbox db'" by (simp add: m(3) db' del: fset_of_list_map)
  moreover have "fs = first" using m(4) first sp by (auto simp flip: fset_inject)
  ultimately show ?thesis using m(1,2) db' by (cases db2) auto
qed

theorem snapshot_event_roundtrip_witness:
  "decodeLikeSnapshotMessage (Some (demo_event 4 9)) =
     Inr (demo_event 4 9, \<lparr>pl_post = 7, pl_count = 4, pl_version = 9\<rparr>)"
  using snapshot_event_roundtrip [OF demo_event_new [of 4 9]] by simp

definition demo_db :: like_db where
  "demo_db = \<lparr>inbox = {||}, posts = [7 \<mapsto> (1, 1)]\<rparr>"

definition demo_deliveries :: "(envelope \<times> like_snapshot_payload) list" where
  "demo_deliveries = map (\<lambda>(c, v). (demo_event c v, \<lparr>pl_post = 7, pl_count = c, pl_version = v\<rparr>)) [(4, 9), (3, 5), (4, 9)]"

lemma demo_ids: "NormalizeEventID (ev_id (demo_event c v)) = Some (''like-snapshot:7:'' @ show_int v)"
  if "0 \<le> v" "v < 2 ^ 63"
proof -
  have "show_nat 7 = ''7''" by (simp add: show_nat.simps digit_char_def)
  then show ?thesis using snapshot_id_normal [of 7 v] that by (simp add: demo_event_def)
qed

lemma demo_batch:
  assumes "NormalizeEventID x = Some i" "trim_space ''g'' = ''g''"
  shows "MarkInboxProcessedBatch ''g'' [x, x] demo_db = Inr (demo_db\<lparr>inbox := {|(''g'', i)|}\<rparr>, {|i|})"
  using assms NormalizeEventID_nonempty [OF assms(1)]
  by (simp add: MarkInboxProcessedBatch_def insert_returning_def Let_def demo_db_def) fastforce

theorem MarkInboxProcessedBatch_equiv_witness:
  "\<exists>i. mark_each ''g'' [ev_id (demo_event 4 9), ev_id (demo_event 4 9)] demo_db =
     Some (demo_db\<lparr>inbox := {|(''g'', i)|}\<rparr>, {|i|})"
proof -
  obtain i where n: "NormalizeEventID (ev_id (demo_event 4 9)) = Some i" using demo_ids [of 9 4] by fastforce
  have g: "trim_space ''g'' = ''g''" by (simp add: trim_space_def strip_left_id space_runes_def)
  from MarkInboxProcessedBatch_equiv [OF g demo_batch [OF n g]] show ?thesis by blast
qed

theorem snapshot_projection_converges_witness:
  "posts (deliver ''g'' demo_deliveries demo_db) 7 = Some (4, 9)"
proof -
  have s: "inbox_sound ''g'' (set demo_deliveries) demo_db"
    by (simp add: inbox_sound_def demo_db_def)
  have five: "show_int 5 = ''5''" "show_int 9 = ''9''"
    by (simp_all add: show_int_def show_nat.simps digit_char_def)
  have i: "ids_identify (set demo_deliveries)"
    by (simp add: ids_identify_def demo_deliveries_def demo_ids five)
  have n: "\<forall>(e, p) \<in> set demo_deliveries. NormalizeEventID (ev_id e) \<noteq> None"
    by (simp add: demo_deliveries_def demo_ids)
  have sn: "snapshots_of (set demo_deliveries) 7 = {(4, 9), (3, 5)}"
    by (force simp: snapshots_of_def demo_deliveries_def)
  have row: "posts demo_db 7 = Some (1, 1)" by (simp add: demo_db_def)
  from snapshot_projection_converges [OF s i n, of 7, unfolded row sn]
  show ?thesis by auto
qed

definition demo_env :: message_env where
  "demo_env = \<lparr>me_has_db = True, me_ctx = \<lambda>_. None, me_tx = \<lambda>_. TxOk, me_tx_ctx = \<lambda>_. None,
     me_dlq = None, me_build = \<lambda>_. None, me_dlq_ctx = None, me_final_ctx = None\<rparr>"

definition demo_state :: consumer_state where
  "demo_state = \<lparr>cs_db = demo_db, cs_dlq = [], cs_committed = []\<rparr>"

theorem commit_only_after_effect_witness:
  "\<exists>s'. consumeLikeSnapshotMessagesWithApply defaultKafkaRetryPolicy ''g''
      [Inr (Some (demo_event 4 9), demo_env, None, None)] demo_state = (s', None) \<and>
    cs_committed s' = [Some (demo_event 4 9)] \<and> settled ''g'' s' (Some (demo_event 4 9))"
proof -
  let ?m = "Some (demo_event 4 9)"
  have dec: "decodeLikeSnapshotMessage ?m = Inr (demo_event 4 9, \<lparr>pl_post = 7, pl_count = 4, pl_version = 9\<rparr>)"
    using snapshot_event_decodes [OF demo_event_new [of 4 9]] by simp
  let ?fs = "[Inr (?m, demo_env, None, None)]"
  have f: "fetched ?fs = {(demo_event 4 9, \<lparr>pl_post = 7, pl_count = 4, pl_version = 9\<rparr>)}"
    using dec by (auto simp: fetched_def)
  obtain s' where run: "consumeLikeSnapshotMessagesWithApply defaultKafkaRetryPolicy ''g'' ?fs demo_state = (s', None)"
    and c: "cs_committed s' = [?m]"
    using dec demo_ids [of 9 4]
    by (simp add: processLikeSnapshotMessageWithApply_def retryKafkaOperation_def defaultKafkaRetryPolicy_def
        apply_attempt_def applyLikeSnapshotPayload_def snapshot_tx_def MarkInboxProcessed_def update_row_def
        demo_env_def demo_state_def demo_db_def numeral_eq_Suc)
  have "settled ''g'' s' ?m"
    by (rule commit_only_after_effect [OF run])
      (simp_all add: c f demo_state_def demo_db_def inbox_sound_def ids_identify_def)
  with run c show ?thesis by blast
qed

end
