(* ===== verification/LikePipeline.thy ===== *)
theory LikePipeline
  imports LikeRelayRound LikeProjection
begin

text \<open>
  The whole path of a like count: mutation in Redis, dirty set, relay, broker, consumer, row
  of the post in the database. The theory joins the steps of the queue (\<open>LikeRelay\<close>) with the
  projection (\<open>LikeProjection\<close>).
\<close>

section \<open>Versions along a run\<close>

lemma parse_nonneg_range: "parseNonNegativeInt64 v = Some n \<Longrightarrow> 0 \<le> n \<and> n < 2 ^ 63"
  by (cases v) (auto simp: parseNonNegativeInt64_def parse_int64.simps split: option.splits if_splits)

lemma snap_val_range: "snap_val s x = Some (c, v) \<Longrightarrow> 0 \<le> c \<and> 0 \<le> v \<and> v < 2 ^ 63"
  by (auto simp: snap_val_def dest: parse_nonneg_range split: if_splits option.splits)

text \<open>A post that a write announced has a higher version than at the start.\<close>

lemma snap_step_newer:
  assumes "snap_step a b" "\<exists>c v. snap_val (fst a) x = Some (c, v) \<and> v1 \<le> v \<and> (latest (snd a) x \<noteq> None \<longrightarrow> v1 < v)"
  shows "\<exists>c v. snap_val (fst b) x = Some (c, v) \<and> v1 \<le> v \<and> (latest (snd b) x \<noteq> None \<longrightarrow> v1 < v)"
  using assms
proof (induction rule: queue_step.induct)
  case (written s s' g)
  from written.prems obtain c v where cv: "snap_val s x = Some (c, v)" "v1 \<le> v" "latest g x \<noteq> None \<longrightarrow> v1 < v"
    unfolding fst_conv snd_conv by blast
  from like_write_val [OF written.hyps, of x] show ?case
  proof
    assume "snap_val s' x = snap_val s x"
    with cv show ?case by auto
  next
    assume "snap_pend s' x \<and> (\<exists>c v c'. snap_val s x = Some (c, v) \<and> snap_val s' x = Some (c', v + 1))"
    with cv obtain c' where "snap_val s' x = Some (c', v + 1)" by auto
    with cv(2) show ?case by auto
  qed
next
  case (claimed ch s q g n d s' gs)
  then show ?case using snapq.claim_val [OF claimed.hyps(1,3)] by simp
next
  case (reaped now n s s' k g)
  then show ?case using snapq.reap_val [OF reaped.hyps] by simp
next
  case (requeued y c s s' b g)
  then show ?case using snapq.requeue_val [OF requeued.hyps] by simp
next
  case (acked y c v g s s' b)
  then show ?case using ack_val [OF acked.hyps(3)] by simp
qed simp_all

lemma snap_reach_newer:
  assumes "snap_step\<^sup>*\<^sup>* a b" "\<exists>c v. snap_val (fst a) x = Some (c, v) \<and> v1 \<le> v \<and> (latest (snd a) x \<noteq> None \<longrightarrow> v1 < v)"
  shows "\<exists>c v. snap_val (fst b) x = Some (c, v) \<and> v1 \<le> v \<and> (latest (snd b) x \<noteq> None \<longrightarrow> v1 < v)"
  using assms by (induction rule: rtranclp_induct) (blast intro: snap_step_newer)+

section \<open>The events of a run\<close>

text \<open>An event that a relay published, and the payload the consumer decodes from it.\<close>

definition published_event :: "(int \<times> int) ghost \<Rightarrow> envelope \<Rightarrow> like_snapshot_payload \<Rightarrow> bool" where
  "published_event g e p \<longleftrightarrow>
     (\<exists>now post. post < 2 ^ 64 \<and> pl_post p = int post \<and> (show_nat post, (pl_count p, pl_version p)) \<in> published g \<and>
        NewLikeSnapshotEnvelope now post (pl_count p) (pl_version p) = Inr e \<and>
        decodeLikeSnapshotMessage (Some e) = Inr (e, p))"

text \<open>What the broker delivers: published events only, and every decodable one at least once.\<close>

definition at_least_once :: "(int \<times> int) ghost \<Rightarrow> (envelope \<times> like_snapshot_payload) list \<Rightarrow> bool" where
  "at_least_once g ds \<longleftrightarrow>
     (\<forall>(e, p) \<in> set ds. published_event g e p) \<and>
     (\<forall>post c v. (show_nat post, (c, v)) \<in> published g \<longrightarrow> 0 < v \<longrightarrow>
        (\<exists>e. (e, \<lparr>pl_post = int post, pl_count = c, pl_version = v\<rparr>) \<in> set ds))"

lemma snapshot_id_inject:
  assumes "''like-snapshot:'' @ show_nat p @ '':'' @ show_nat v = ''like-snapshot:'' @ show_nat p' @ '':'' @ show_nat v'"
  shows "p = p' \<and> v = v'"
proof -
  have "CHR '':'' \<notin> set (show_nat n)" for n using show_nat_no_sep [of "CHR '':''" n] by (simp add: is_digit_def)
  with assms have "show_nat p = show_nat p' \<and> show_nat v = show_nat v'"
    by (simp add: append_Cons_eq_iff)
  then show ?thesis by (metis tonum_show_nat)
qed

lemma published_event_id:
  assumes "published_event g e p" "version_inv s g"
  shows "\<exists>post v. NormalizeEventID (ev_id e) = Some (''like-snapshot:'' @ show_nat post @ '':'' @ show_nat v) \<and>
    pl_post p = int post \<and> pl_version p = int v"
proof -
  from assms(1) obtain now post where post: "post < 2 ^ 64" "pl_post p = int post"
    "(show_nat post, (pl_count p, pl_version p)) \<in> published g"
    and e: "NewLikeSnapshotEnvelope now post (pl_count p) (pl_version p) = Inr e" by (auto simp: published_event_def)
  from assms(2) post(3) obtain c' v' where "snap_val s (show_nat post) = Some (c', v')" "pl_version p \<le> v'"
    unfolding version_inv_def by (metis order.refl less_imp_le)
  with snap_val_range have v: "pl_version p < 2 ^ 63" by fastforce
  from e have nn: "0 \<le> pl_version p" "ev_id e = ''like-snapshot:'' @ show_nat post @ '':'' @ show_int (pl_version p)"
    by (auto simp: NewLikeSnapshotEnvelope_def split: if_splits)
  have "NormalizeEventID (ev_id e) = Some (''like-snapshot:'' @ show_nat post @ '':'' @ show_nat (nat (pl_version p)))"
    using snapshot_id_normal [OF post(1) nn(1) v] nn by (simp add: show_int_def)
  with post(2) nn(1) show ?thesis by (intro exI [of _ post] exI [of _ "nat (pl_version p)"]) simp
qed

lemma published_ids_identify:
  assumes "at_least_once g ds" "version_inv s g"
  shows "ids_identify (set ds)" "\<forall>(e, p) \<in> set ds. NormalizeEventID (ev_id e) \<noteq> None"
proof -
  have pe: "published_event g e p" if "(e, p) \<in> set ds" for e p using assms(1) that by (auto simp: at_least_once_def)
  have "NormalizeEventID (ev_id e) \<noteq> None" if "(e, p) \<in> set ds" for e p
    using published_event_id [OF pe [OF that] assms(2)] by (elim exE conjE) simp
  then show "\<forall>(e, p) \<in> set ds. NormalizeEventID (ev_id e) \<noteq> None" by blast
  show "ids_identify (set ds)"
    unfolding ids_identify_def
  proof (clarify)
    fix e1 p1 e2 p2 y assume m: "(e1, p1) \<in> set ds" "(e2, p2) \<in> set ds"
      and eq: "NormalizeEventID (ev_id e1) = NormalizeEventID (ev_id e2)"
    obtain a v b w where "NormalizeEventID (ev_id e1) = Some (''like-snapshot:'' @ show_nat a @ '':'' @ show_nat v)"
      "pl_post p1 = int a" "pl_version p1 = int v"
      "NormalizeEventID (ev_id e2) = Some (''like-snapshot:'' @ show_nat b @ '':'' @ show_nat w)"
      "pl_post p2 = int b" "pl_version p2 = int w"
      using published_event_id [OF pe [OF m(1)] assms(2)] published_event_id [OF pe [OF m(2)] assms(2)] by blast
    moreover from this eq have "a = b \<and> v = w" by (intro snapshot_id_inject) (metis option.inject)
    ultimately show "pl_post p1 = pl_post p2 \<and> pl_version p1 = pl_version p2" by simp
  qed
qed

text \<open>
  C10. From any start where Redis is not behind the database, run any mutations, relays and
  reapers in any interleaving; then deliver what was published, in any order and as often
  as the broker likes. A post that was changed and is neither dirty nor claimed at the end
  has in the database exactly the count and version it has in Redis.
\<close>

theorem drained_posts_reach_database:
  assumes run: "snap_step\<^sup>*\<^sup>* (s0, g0) (s, g)"
    and start: "loaded g0 = {}" "published g0 = {}" "latest g0 = Map.empty"
    and row: "posts db p = Some (c0, v0)" "snap_val s0 (show_nat p) = Some (c1, v1)" "v0 \<le> v1"
    and delivered: "at_least_once g ds" "inbox_sound consumer (set ds) db"
    and drained: "\<not> snap_pend s (show_nat p)" "snap_owner s (show_nat p) = None" "latest g (show_nat p) \<noteq> None"
  shows "posts (deliver consumer ds db) p = snap_val s (show_nat p)"
proof -
  let ?x = "show_nat p"
  have vi: "version_inv s g" using snap_reach(1) [OF run] start by (simp add: version_inv_def)
  have di: "delivery_inv snap_val snap_pend snap_owner s0 g0" using start by (simp add: delivery_inv_def)
  from drained(3) obtain c v where l: "latest g ?x = Some (c, v)" by fastforce
  then have cur: "snap_val s ?x = Some (c, v)" using vi unfolding version_inv_def by metis
  have newer: "v1 < v" using snap_reach_newer [OF run, of ?x v1] row(2) start(3) l cur by auto
  have pub: "(?x, (c, v)) \<in> published g"
    using snaps.drained_delivered [OF run _ drained(1,2) l] di by simp
  have pos: "0 < v" using newer snap_val_range [OF row(2)] by simp
  note ids = published_ids_identify [OF delivered(1) vi]
  let ?db = "deliver consumer ds db"
  note inv = deliver_invariant [OF subset_refl delivered(2) ids]
  from delivered(1) pub pos obtain e where "(e, \<lparr>pl_post = int p, pl_count = c, pl_version = v\<rparr>) \<in> set ds"
    unfolding at_least_once_def by blast
  with inv have ref: "reflected ?db \<lparr>pl_post = int p, pl_count = c, pl_version = v\<rparr>" by blast
  from inv row(1) obtain c2 v2 where fin: "posts ?db p = Some (c2, v2)" by (auto simp: db_le_def dest!: spec [of _ p])
  with ref have ge: "v \<le> v2" by (simp add: reflected_def)
  then have "posts ?db p \<noteq> posts db p" using fin row newer by auto
  with inv fin obtain e' p' where d: "(e', p') \<in> set ds" "nat (pl_post p') = p" "c2 = pl_count p'" "v2 = pl_version p'"
    by (auto simp: snapshots_of_def dest!: spec [of _ p])
  from delivered(1) d(1) have "published_event g e' p'" by (auto simp: at_least_once_def)
  with d have "(?x, (c2, v2)) \<in> published g" by (auto simp: published_event_def)
  with vi cur have "v2 < v \<or> (v2 = v \<and> c2 = c)" unfolding version_inv_def by (metis option.inject prod.inject)
  with ge fin cur show ?thesis by auto
qed

lemma demo_counters:
  assumes "mutate_script ''1'' ''7'' True 100 3600000 True 1 (1000, 5) demo_store = (s', Inr r)"
  shows "s' (KCount x) = (if x = ''7'' then Some (RStr (show_nat 10), None) else if x = ''5'' then Some (RStr (show_nat 2), None) else None)"
    "s' (KVersion x) = (if x = ''7'' then Some (RStr (show_nat 13), None) else if x = ''5'' then Some (RStr (show_nat 5), None) else None)"
    "s' KClaims = None" "s' KProcessing = None" "s' KDirty = Some (RSet {|''7'', ''5''|}, None)" "s' (KReady ''7'') = Some (RStr ''1'', None)"
proof -
  have e: "s' = fst (mutate_script ''1'' ''7'' True 100 3600000 True 1 (1000, 5) demo_store)" by (simp add: assms)
  show "s' (KCount x) = (if x = ''7'' then Some (RStr (show_nat 10), None) else if x = ''5'' then Some (RStr (show_nat 2), None) else None)"
    "s' (KVersion x) = (if x = ''7'' then Some (RStr (show_nat 13), None) else if x = ''5'' then Some (RStr (show_nat 5), None) else None)"
    "s' KClaims = None" "s' KProcessing = None" "s' KDirty = Some (RSet {|''7'', ''5''|}, None)" "s' (KReady ''7'') = Some (RStr ''1'', None)"
    unfolding e
  by (simp_all add: mutate_script_def mutate_guards_def order_guards_def demo_store_def apply_eviction_def
      mutate_types_ok_def bad_id_def active_of_def plan_eviction_def Let_def eval_simps)
qed

lemma demo_write:
  assumes "mutate_script ''1'' ''7'' True 100 3600000 True 1 (1000, 5) demo_store = (s', Inr r)"
  shows "like_write demo_store s'" "snap_val s' ''7'' = Some (10, 13)" "snap_val demo_store ''7'' = Some (9, 12)"
proof -
  note c = demo_counters [OF assms]
  have n: "show_nat 1 = ''1''" "show_nat 7 = ''7''" by (simp_all add: show_nat.simps digit_char_def)
  have "int64_counters demo_store" "int64_counters s'"
    by (auto simp: int64_counters_def c num_of_def) (auto simp: demo_store_def num_of_def eval_simps)
  with like_write.intros [of 1 7 True 100 3600000 True 1 "(1000, 5)" demo_store s' r] assms n
  show "like_write demo_store s'" by simp
  show "snap_val s' ''7'' = Some (10, 13)"
    by (simp add: snap_val_def c parseNonNegativeInt64_def parse_int64_digits)
  show "snap_val demo_store ''7'' = Some (9, 12)"
    by (simp add: snap_val_def demo_store_def parseNonNegativeInt64_def eval_simps)
qed

definition empty_ghost :: "(int \<times> int) ghost" where
  "empty_ghost = \<lparr>loaded = {}, published = {}, latest = Map.empty, prefixes = {}\<rparr>"

text \<open>One like, one claim, one published event, one acknowledgement.\<close>

lemma demo_pipeline:
  obtains s g where "snap_step\<^sup>*\<^sup>* (demo_store, empty_ghost) (s, g)" "\<not> snap_pend s ''7''" "snap_owner s ''7'' = None"
    "latest g ''7'' = Some (10, 13)" "published g = {(''7'', (10, 13))}" "snap_val s ''7'' = Some (10, 13)"
proof -
  obtain s1 r where mu: "mutate_script ''1'' ''7'' True 100 3600000 True 1 (1000, 5) demo_store = (s1, Inr r)"
    by (rule demo_run)
  note w = demo_write [OF mu] and c = demo_counters [OF mu]
  define g1 where "g1 = empty_ghost\<lparr>latest := \<lambda>x. if snap_val s1 x = snap_val demo_store x then latest empty_ghost x else snap_val s1 x\<rparr>"
  have st1: "snap_step (demo_store, empty_ghost) (s1, g1)"
    unfolding g1_def by (rule written [where val = snap_val and writes = like_write, OF w(1)])
  obtain s2 gs where cl: "claim_script 1 90 ''u'' [''7''] s1 = (s2, gs)" by fastforce
  have ok: "sample_ok [''7''] s1" by (simp add: sample_ok_def c)
  have ty: "snap_types_ok s1" by (simp add: snap_types_ok_def c type_ok_def)
  then obtain x where x: "gs = Inr x" using cl by (auto simp: claim_script_def split: prod.splits)
  have un: "take (nat 1) (unowned s1 [''7'']) = [''7'']" by (simp add: unowned_def c)
  have dis: "distinct [''7'']" by simp
  from claim_script_spec [OF cl dis, unfolded un] x have d: "snap_types_ok s2"
    "fset (smembers (s2 KDirty)) = fset (smembers (s1 KDirty)) - {''7''}"
    "\<forall>y. hget (s2 KClaims) y = (if y = ''7'' then Some (claim_token ''u'' y) else hget (s1 KClaims) y)" by simp_all
  from d have s2: "snap_owner s2 ''7'' = Some ''u:7''" "\<not> snap_pend s2 ''7''" "snap_types_ok s2"
    by (simp_all add: snap_owner_def snap_pend_def claim_token_def)
  have v2: "snap_val s2 ''7'' = Some (10, 13)" using snapq.claim_val [OF ok cl, of "''7''"] w(2) by simp
  define g2 where "g2 = g1\<lparr>prefixes := insert ''u'' (prefixes g1)\<rparr>"
  have st2: "snap_step (s1, g1) (s2, g2)"
    unfolding g2_def
    by (rule claimed [where claim = claim_script and choice_ok = sample_ok, OF ok _ cl]) (simp add: g1_def empty_ghost_def)
  define g3 where "g3 = g2\<lparr>loaded := insert (''7'', ''u:7'', (10, 13)) (loaded g2)\<rparr>"
  have "''u'' \<in> prefixes g2" "''u:7'' = claim_token ''u'' ''7''" by (simp_all add: g2_def claim_token_def)
  from was_loaded [where val = snap_val, OF v2 this] have st3: "snap_step (s2, g2) (s2, g3)" unfolding g3_def .
  define g4 where "g4 = g3\<lparr>published := insert (''7'', (10, 13)) (published g3)\<rparr>"
  have l: "(''7'', ''u:7'', (10, 13)) \<in> loaded g3" by (simp add: g3_def)
  from was_published [OF l] have st4: "snap_step (s2, g3) (s2, g4)" unfolding g4_def .
  obtain s3 b where ak: "ack_claim_script ''7'' ''u:7'' s2 = (s3, b)" by fastforce
  have "(''7'', ''u:7'', (10, 13)) \<in> loaded g4" "(''7'', (10, 13)) \<in> published g4" using l by (simp_all add: g4_def)
  from acked [OF this, where ack = "\<lambda>x c v. ack_claim_script x c", OF ak] have st5: "snap_step (s2, g4) (s3, g4)" .
  show thesis
  proof (rule that)
    show "snap_step\<^sup>*\<^sup>* (demo_store, empty_ghost) (s3, g4)"
      using st1 st2 st3 st4 st5 by (meson converse_rtranclp_into_rtranclp r_into_rtranclp)
    show "snap_owner s3 ''7'' = None" "\<not> snap_pend s3 ''7''"
      using ak s2 by (auto simp: ack_claim_script_def snap_owner_def snap_pend_def snap_types_ok_def hmap_hdel split: if_splits)
    show "latest g4 ''7'' = Some (10, 13)" "published g4 = {(''7'', (10, 13))}"
      using w(2,3) by (simp_all add: g4_def g3_def g2_def g1_def empty_ghost_def)
    show "snap_val s3 ''7'' = Some (10, 13)" using ack_val [OF ak, of "''7''"] v2 by simp
  qed
qed

theorem drained_posts_reach_database_witness:
  "posts (deliver ''g'' [(demo_event 10 13, \<lparr>pl_post = 7, pl_count = 10, pl_version = 13\<rparr>)] demo_db) 7 = Some (10, 13)"
proof -
  obtain s g where run: "snap_step\<^sup>*\<^sup>* (demo_store, empty_ghost) (s, g)" "\<not> snap_pend s ''7''" "snap_owner s ''7'' = None"
    "latest g ''7'' = Some (10, 13)" and pub: "published g = {(''7'', (10, 13))}" and v: "snap_val s ''7'' = Some (10, 13)"
    by (rule demo_pipeline)
  have n: "show_nat 7 = ''7''" by (simp add: show_nat.simps digit_char_def)
  have n': "show_nat p = ''7'' \<longleftrightarrow> p = 7" for p using n by (metis tonum_show_nat)
  let ?ds = "[(demo_event 10 13, \<lparr>pl_post = 7, pl_count = 10, pl_version = 13\<rparr>)]"
  have ev: "NewLikeSnapshotEnvelope 0 7 10 13 = Inr (demo_event 10 13)" by (rule demo_event_new) simp_all
  with snapshot_event_decodes [OF ev] have "published_event g (demo_event 10 13) \<lparr>pl_post = 7, pl_count = 10, pl_version = 13\<rparr>"
    unfolding published_event_def by (intro exI [of _ 0] exI [of _ 7]) (simp add: pub n)
  then have al: "at_least_once g ?ds" by (simp add: at_least_once_def pub n')
  have g0: "loaded empty_ghost = {}" "published empty_ghost = {}" "latest empty_ghost = Map.empty" by (simp_all add: empty_ghost_def)
  have row: "posts demo_db 7 = Some (1, 1)" and sound: "inbox_sound ''g'' (set ?ds) demo_db"
    by (simp_all add: demo_db_def inbox_sound_def)
  have v0: "snap_val demo_store (show_nat 7) = Some (9, 12)" using demo_write(3) demo_run n by metis
  have "posts (deliver ''g'' ?ds demo_db) 7 = snap_val s (show_nat 7)"
    by (rule drained_posts_reach_database [OF run(1) g0 row v0 _ al sound]) (use run n in simp_all)
  with v n show ?thesis by simp
qed

end
