(* ===== verification/LikeBehaviorRelay.thy ===== *)
theory LikeBehaviorRelay
  imports LikeRelayRound
begin

text \<open>
  The relay of behaviour states (\<open>tasks/like_behavior_relay.go\<close>): one batch of reaping,
  claiming, loading, publishing and acknowledging, with the failures of every call. The theory
  shows that a batch is a sequence of steps of the behaviour queue, so that the interface
  \<open>queue_system\<close> applies to it.
\<close>

section \<open>A batch of the relay\<close>

type_synonym bsys = "lstore \<times> string ghost"

text \<open>The surroundings of a batch; its calls are numbered from 0 (reap) to 5 (acknowledge).\<close>

record behavior_env =
  be_other :: "nat \<Rightarrow> bsys \<Rightarrow> bsys"
  be_between :: "nat \<Rightarrow> string \<Rightarrow> bsys \<Rightarrow> bsys"
  be_fault :: "nat \<Rightarrow> fault"
  be_now :: "nat \<Rightarrow> int"
  be_uuid :: "bsys \<Rightarrow> string"
  be_pick :: "lstore \<Rightarrow> string fset \<Rightarrow> string"
  be_load_fault :: "go_error option"
  be_pipe :: "nat \<Rightarrow> pipe_fault"
  be_publish :: "envelope list \<Rightarrow> go_error option"
  be_stored :: "envelope \<Rightarrow> bool"

definition beh_ack_at :: "behavior_env \<Rightarrow> nat \<Rightarrow> string \<Rightarrow> string \<Rightarrow> string \<Rightarrow> bsys \<Rightarrow> bsys \<times> bool res" where
  "beh_ack_at env i x c v sys =
     (case be_between env i x sys of (s, g) \<Rightarrow> (case behavior_ack_script x c v s of (s', r) \<Rightarrow> ((s', g), r)))"

definition beh_requeue_at :: "behavior_env \<Rightarrow> nat \<Rightarrow> string \<Rightarrow> string \<Rightarrow> bsys \<Rightarrow> bsys \<times> bool res" where
  "beh_requeue_at env i x c sys =
     (case be_between env i x sys of (s, g) \<Rightarrow> (case behavior_requeue_script x c s of (s', r) \<Rightarrow> ((s', g), r)))"

definition requeue_claims :: "behavior_env \<Rightarrow> nat \<Rightarrow> behavior_claim list \<Rightarrow> bsys \<Rightarrow> bsys \<times> go_error option" where
  "requeue_claims env i claims sys =
     (case requeue_pipeline (be_pipe env i) (beh_requeue_at env i) claims sys of
        (sys', Inl e) \<Rightarrow> (sys', Some e) | (sys', Inr _) \<Rightarrow> (sys', None))"

definition behavior_event_id :: "behavior_delivery \<Rightarrow> string" where
  "behavior_event_id d =
     ''like-state:'' @ show_nat (bd_user d) @ '':'' @ show_nat (bd_post d) @ '':'' @ show_int (bd_version d)"

fun behavior_events :: "behavior_delivery list \<Rightarrow> envelope list res" where
  "behavior_events [] = Inr []"
| "behavior_events (d # ds) =
     (case NewLikeBehaviorEnvelope (behavior_event_id d) (bd_user d) (bd_post d)
             (if bd_liked d then ''like'' else ''unlike'') (bd_version d) (bd_occurred d) of
        Inl e \<Rightarrow> Inl e
      | Inr ev \<Rightarrow> (case behavior_events ds of Inl e \<Rightarrow> Inl e | Inr evs \<Rightarrow> Inr (ev # evs)))"

text \<open>The ghost state: what the claims saw and what the broker stored.\<close>

fun beh_loaded :: "behavior_claim list \<Rightarrow> bsys \<Rightarrow> bsys" where
  "beh_loaded [] sys = sys"
| "beh_loaded (c # cs) (s, g) =
     (case beh_val s (bc_pair c) of
        None \<Rightarrow> beh_loaded cs (s, g)
      | Some v \<Rightarrow> beh_loaded cs (s, g\<lparr>loaded := insert (bc_pair c, bc_claim_id c, v) (loaded g)\<rparr>))"

fun beh_published :: "behavior_delivery list \<Rightarrow> bsys \<Rightarrow> bsys" where
  "beh_published [] sys = sys"
| "beh_published (d # ds) (s, g) =
     beh_published ds (s, g\<lparr>published := insert (bc_pair (bd_claim d), show_int (bd_version d)) (published g)\<rparr>)"

definition publish_deliveries ::
  "behavior_env \<Rightarrow> behavior_delivery list \<Rightarrow> envelope list \<Rightarrow> bsys \<Rightarrow> bsys \<times> go_error option" where
  "publish_deliveries env ds evs sys =
     (case be_publish env evs of
        None \<Rightarrow> (beh_published ds (be_other env 4 sys), None)
      | Some e \<Rightarrow> (beh_published (map fst (filter (\<lambda>(d, ev). be_stored env ev) (zip ds evs))) (be_other env 4 sys), Some e))"

text \<open>The batch from the loaded deliveries on.\<close>

definition deliver_batch ::
  "behavior_env \<Rightarrow> behavior_claim list \<Rightarrow> behavior_delivery list \<Rightarrow> go_error option \<Rightarrow> bsys \<Rightarrow> bsys \<times> go_error option" where
  "deliver_batch env claims ds err sys =
     (case behavior_events ds of
        Inl e \<Rightarrow> (fst (requeue_claims env 5 claims sys), Some (OtherErr e))
      | Inr evs \<Rightarrow>
         (case publish_deliveries env ds evs sys of
            (sys1, Some e) \<Rightarrow> (fst (requeue_claims env 5 claims sys1), Some (WrapErr ''publish Kafka batch'' e))
          | (sys1, None) \<Rightarrow>
             (case ack_pipeline (be_pipe env 5) (beh_ack_at env 5) ds sys1 of
                (sys2, Inl e) \<Rightarrow> (sys2, Some (WrapErr ''ack behavior claims'' e))
              | (sys2, Inr _) \<Rightarrow> (sys2, err))))"

definition process_claims :: "behavior_env \<Rightarrow> behavior_claim list \<Rightarrow> bsys \<Rightarrow> bsys \<times> go_error option" where
  "process_claims env claims sys =
     (case beh_loaded claims (be_other env 2 sys) of
        (s, g) \<Rightarrow>
          (case LoadBehaviorDeliveriesWithIssues (be_load_fault env) claims s of
             (ds, bad, loadErr) \<Rightarrow>
               (if loadErr \<noteq> None \<and> bad = []
                then (fst (requeue_claims env 3 claims (s, g)), Some (WrapErr ''load behavior state'' (the loadErr)))
                else
                  (case (if bad \<noteq> [] then requeue_claims env 3 bad (s, g) else ((s, g), None)) of
                     (sys1, requeueErr) \<Rightarrow>
                       (if ds = [] then (sys1, join_err loadErr requeueErr)
                        else deliver_batch env claims ds (join_err loadErr requeueErr) sys1)))))"

definition runLikeBehaviorRelayBatch :: "behavior_env \<Rightarrow> int \<Rightarrow> int \<Rightarrow> bsys \<Rightarrow> bsys \<times> go_error option" where
  "runLikeBehaviorRelayBatch env batch lease sys =
     (case be_other env 0 sys of
        (s1, g1) \<Rightarrow>
          (case ReapBehaviorExpired (be_fault env 0) batch (be_now env 0) s1 of
             (s2, Inl e) \<Rightarrow> ((s2, g1), Some (WrapErr ''reap expired claims'' e))
           | (s2, Inr _) \<Rightarrow>
              (case be_other env 1 (s2, g1) of
                 (s3, g3) \<Rightarrow>
                   (let q = be_uuid env (s3, g3); g4 = g3\<lparr>prefixes := insert q (prefixes g3)\<rparr>
                    in case ClaimBehaviorDirty True (be_fault env 1) batch lease (be_now env 1) q (be_pick env s3) s3 of
                         (s4, Inl e) \<Rightarrow> ((s4, g4), Some (WrapErr ''claim dirty behavior'' e))
                       | (s4, Inr claims) \<Rightarrow>
                           (if claims = [] then ((s4, g4), None) else process_claims env claims (s4, g4))))))"

section \<open>A batch is a sequence of queue steps\<close>

definition beh_env_ok :: "behavior_env \<Rightarrow> bool" where
  "beh_env_ok env \<longleftrightarrow>
     (\<forall>i sys. beh_step\<^sup>*\<^sup>* sys (be_other env i sys)) \<and> (\<forall>i x sys. beh_step\<^sup>*\<^sup>* sys (be_between env i x sys)) \<and>
     (\<forall>sys. finite (prefixes (snd sys)) \<longrightarrow> be_uuid env sys \<notin> prefixes (snd sys)) \<and>
     (\<forall>s. pick_ok (be_pick env s) s)"

lemma beh_env_okD:
  assumes "beh_env_ok env"
  shows "beh_step\<^sup>*\<^sup>* a sys \<Longrightarrow> beh_step\<^sup>*\<^sup>* a (be_other env i sys)"
    "beh_step\<^sup>*\<^sup>* a sys \<Longrightarrow> beh_step\<^sup>*\<^sup>* a (be_between env i x sys)"
    "finite (prefixes (snd sys)) \<Longrightarrow> be_uuid env sys \<notin> prefixes (snd sys)" "pick_ok (be_pick env s) s"
  using assms unfolding beh_env_ok_def by (blast intro: rtranclp_trans)+

lemma run_all_closed:
  assumes "\<And>op z. op \<in> set ops \<Longrightarrow> I z \<Longrightarrow> I (fst (op z))" "I s"
  shows "I (fst (run_all ops s))"
  using assms
proof (induction ops s rule: run_all.induct)
  case (2 op ops s)
  obtain s1 r where r: "op s = (s1, r)" by fastforce
  have "I s1" using "2.prems"(1) [of op s] "2.prems"(2) r by simp
  with "2.IH" [OF r [symmetric] refl] "2.prems"(1) show ?case
    by (simp add: Let_def r split: prod.splits) fastforce
qed simp

lemma pipe_exec_closed:
  assumes "\<And>op z. op \<in> set ops \<Longrightarrow> I z \<Longrightarrow> I (fst (op z))" "I s"
  shows "I (fst (pipe_exec f ops s))"
proof (cases f)
  case None
  have "I (fst (run_all ops s))" by (rule run_all_closed [where I = I]) (use assms in blast)+
  with None show ?thesis by (cases "run_all ops s") (simp add: pipe_exec_def)
next
  case (Some x)
  have "I (fst (run_all (take (fst x) ops) s))"
    by (rule run_all_closed [where I = I]) (use assms in \<open>auto dest: in_set_takeD\<close>)
  with Some show ?thesis by (cases x) (simp add: pipe_exec_def)
qed

lemma requeue_claims_steps:
  assumes "beh_env_ok env"
  shows "beh_step\<^sup>*\<^sup>* sys (fst (requeue_claims env i claims sys))"
proof -
  have op: "beh_step\<^sup>*\<^sup>* sys (fst (beh_requeue_at env i x c z))" if "beh_step\<^sup>*\<^sup>* sys z" for x c z
  proof -
    obtain s g where z: "be_between env i x z = (s, g)" by fastforce
    obtain s' r where r: "behavior_requeue_script x c s = (s', r)" by fastforce
    have "beh_step\<^sup>*\<^sup>* sys (s, g)" using beh_env_okD(2) [OF assms that, of i x] z by simp
    also have "beh_step (s, g) (s', g)" by (rule requeued [where requeue = behavior_requeue_script, OF r])
    finally show ?thesis by (simp add: beh_requeue_at_def z r)
  qed
  have "beh_step\<^sup>*\<^sup>* sys (fst (pipe_exec (be_pipe env i) (map (\<lambda>c. beh_requeue_at env i (bc_pair c) (bc_claim_id c)) claims) sys))"
    by (rule pipe_exec_closed [where I = "\<lambda>z. beh_step\<^sup>*\<^sup>* sys z"]) (use op in auto)
  then show ?thesis
    by (auto simp: requeue_claims_def requeue_pipeline_def split: prod.splits sum.splits)
qed

definition beh_claims_ok :: "string ghost \<Rightarrow> behavior_claim list \<Rightarrow> bool" where
  "beh_claims_ok g claims \<longleftrightarrow> (\<forall>c \<in> set claims. \<exists>q \<in> prefixes g. bc_claim_id c = claim_token q (bc_pair c))"

lemma beh_claims_ok_mono: "beh_step\<^sup>*\<^sup>* a b \<Longrightarrow> beh_claims_ok (snd a) cs \<Longrightarrow> beh_claims_ok (snd b) cs"
  unfolding beh_claims_ok_def using behs.reach_grows(3) by blast

lemma beh_loaded_steps:
  assumes "beh_claims_ok (snd sys) cs"
  shows "beh_step\<^sup>*\<^sup>* sys (beh_loaded cs sys) \<and> fst (beh_loaded cs sys) = fst sys \<and>
    (\<forall>c v. c \<in> set cs \<longrightarrow> beh_val (fst sys) (bc_pair c) = Some v \<longrightarrow>
       (bc_pair c, bc_claim_id c, v) \<in> loaded (snd (beh_loaded cs sys)))"
  using assms
proof (induction cs sys rule: beh_loaded.induct)
  case (2 c cs s g)
  show ?case
  proof (cases "beh_val s (bc_pair c)")
    case None
    with "2.IH"(1) "2.prems" show ?thesis by (simp add: beh_claims_ok_def)
  next
    case (Some v)
    let ?g = "g\<lparr>loaded := insert (bc_pair c, bc_claim_id c, v) (loaded g)\<rparr>"
    from "2.prems" obtain q where q: "q \<in> prefixes g" "bc_claim_id c = claim_token q (bc_pair c)"
      by (auto simp: beh_claims_ok_def)
    have st: "beh_step (s, g) (s, ?g)" by (rule was_loaded [where val = beh_val, OF Some q])
    have ih: "beh_step\<^sup>*\<^sup>* (s, ?g) (beh_loaded cs (s, ?g))" "fst (beh_loaded cs (s, ?g)) = s"
      "\<forall>d v. d \<in> set cs \<longrightarrow> beh_val s (bc_pair d) = Some v \<longrightarrow>
        (bc_pair d, bc_claim_id d, v) \<in> loaded (snd (beh_loaded cs (s, ?g)))"
      using "2.IH"(2) [OF Some] "2.prems" by (simp_all add: beh_claims_ok_def)
    have "(bc_pair c, bc_claim_id c, v) \<in> loaded (snd (beh_loaded cs (s, ?g)))"
      using behs.reach_grows(1) [OF ih(1)] by auto
    with ih st Some show ?thesis by (auto intro: converse_rtranclp_into_rtranclp)
  qed
qed simp

text \<open>
  The version texts that the service writes: one that Go reads as a number is the very text
  of that number, so the version that the acknowledgement sends back is the stored text.
\<close>

definition beh_canon :: "lstore \<Rightarrow> bool" where
  "beh_canon s \<longleftrightarrow> (\<forall>x v i. beh_val s x = Some v \<longrightarrow> parse_int64 v = Some i \<longrightarrow> show_int i = v)"

lemma beh_step_canon:
  assumes "beh_step a b" "beh_canon (fst a)"
  shows "beh_canon (fst b)"
  using assms
proof (induction rule: queue_step.induct)
  case (written s s' g)
  then obtain p where a: "announces (show_nat p) s s'" by (auto elim: like_writeD)
  have "show_int i = v" if "beh_val s' x = Some v" "parse_int64 v = Some i" for x v i
  proof -
    from that obtain st where st: "hget (s' KBehaviorState) x = Some st" "version_field st = Some v"
      by (auto simp: beh_val_def bind_eq_Some_conv)
    from st a have "hget (s KBehaviorState) x = Some st \<or> encoded st" by (simp add: announces_def)
    then show ?thesis
    proof
      assume "hget (s KBehaviorState) x = Some st"
      with st have "beh_val s x = Some v" by (simp add: beh_val_def)
      with written.prems that(2) show ?thesis by (simp add: beh_canon_def)
    next
      assume "encoded st"
      with st that(2) show ?thesis by (auto simp: encoded_def version_field_state lua_text_parses)
    qed
  qed
  then show ?case by (simp add: beh_canon_def)
next
  case (acked x c v g s s' b)
  have "beh_val s' y = beh_val s y \<or> beh_val s' y = None" for y
    using behq.ack_stale [OF acked.hyps(3)] behq.ack_item [OF acked.hyps(3)] behq.ack_other [OF acked.hyps(3), of y]
    by (cases "y = x") metis+
  with acked.prems show ?case unfolding beh_canon_def fst_conv by (metis option.distinct(1))
next
  case (claimed ch s q g n d s' gs)
  then show ?case by (simp add: beh_canon_def behq.claim_val [OF claimed.hyps(1,3)])
next
  case (reaped now n s s' k g)
  then show ?case by (simp add: beh_canon_def behq.reap_val [OF reaped.hyps])
next
  case (requeued x c s s' b g)
  then show ?case by (simp add: beh_canon_def behq.requeue_val [OF requeued.hyps])
qed simp_all

lemma beh_reach_canon: "beh_step\<^sup>*\<^sup>* a b \<Longrightarrow> beh_canon (fst a) \<Longrightarrow> beh_canon (fst b)"
  by (induction rule: rtranclp_induct) (auto dest: beh_step_canon)

lemma splitn_ConsD:
  assumes "splitn (Suc (Suc n)) c s = a # b # r"
  shows "\<exists>rest. s = a @ c # rest \<and> c \<notin> set a \<and> splitn (Suc n) c rest = b # r"
proof -
  from assms obtain y rest where d: "dropWhile (\<lambda>x. x \<noteq> c) s = y # rest" and a: "a = takeWhile (\<lambda>x. x \<noteq> c) s"
    "splitn (Suc n) c rest = b # r" by (auto split: list.splits)
  from d have "y = c" using hd_dropWhile [of "\<lambda>x. x \<noteq> c" s] by simp
  with d a show ?thesis by (metis takeWhile_dropWhile_id set_takeWhileD)
qed

lemma parse_state_version:
  assumes "parseBehaviorState st = Inr (liked, version, at)"
  shows "\<exists>vf. version_field st = Some vf \<and> parse_int64 vf = Some version \<and> 0 < version"
proof -
  from assms obtain fl ver us where sp: "splitn 3 CHR ''|'' st = [fl, ver, us]"
    and v: "parse_int64 ver = Some version" "0 < version"
    by (auto simp: parseBehaviorState_def split: list.splits if_splits option.splits)
  from splitn_ConsD [OF sp [unfolded numeral_3_eq_3]] obtain r1 where
    r1: "st = fl @ CHR ''|'' # r1" "CHR ''|'' \<notin> set fl" "splitn (Suc (Suc 0)) CHR ''|'' r1 = [ver, us]" by blast
  from splitn_ConsD [OF r1(3)] obtain r2 where r2: "r1 = ver @ CHR ''|'' # r2" "CHR ''|'' \<notin> set ver" by blast
  have "ver \<noteq> []" using v(1) by auto
  then have "version_field st = Some ver"
    using r1(1,2) r2 by (auto simp: version_field_def dropWhile_sep takeWhile_sep)
  with v show ?thesis by blast
qed

lemma delivered_versions:
  assumes "beh_canon s" "LoadBehaviorDeliveriesWithIssues f claims s = (ds, bad, err)" "d \<in> set ds"
  shows "bd_claim d \<in> set claims \<and> beh_val s (bc_pair (bd_claim d)) = Some (show_int (bd_version d))"
proof -
  let ?vs = "hmget (s KBehaviorState) (map bc_pair claims)"
  have len: "length ?vs = length claims" by (simp add: hmget_def)
  have run: "load_loop claims ?vs = (ds, bad, err)"
    using assms(2,3) len by (auto simp: LoadBehaviorDeliveriesWithIssues_def Let_def split: if_splits option.splits)
  from load_loop_split [OF len run] assms(3) obtain v where
    v: "(bd_claim d, v) \<in> set (zip claims ?vs)" "decode_claim (bd_claim d) v = Inr d" by blast
  from v(1) have vv: "v = (case hget (s KBehaviorState) (bc_pair (bd_claim d)) of None \<Rightarrow> VNil | Some st \<Rightarrow> VString st)"
    by (auto simp: hmget_def set_zip)
  with decode_claim_Inr [OF v(2)] obtain st where st: "hget (s KBehaviorState) (bc_pair (bd_claim d)) = Some st"
    "parseBehaviorState st = Inr (bd_liked d, bd_version d, bd_occurred d)" by (auto split: option.splits)
  from parse_state_version [OF st(2)] obtain vf where vf: "version_field st = Some vf" "parse_int64 vf = Some (bd_version d)"
    by blast
  then have "beh_val s (bc_pair (bd_claim d)) = Some vf" using st by (simp add: beh_val_def)
  with assms(1) vf(2) set_zip_leftD [OF v(1)] show ?thesis by (auto simp: beh_canon_def)
qed

text \<open>Publishing and acknowledging what was loaded.\<close>

definition deliveries_loaded :: "string ghost \<Rightarrow> behavior_delivery list \<Rightarrow> bool" where
  "deliveries_loaded g ds \<longleftrightarrow>
     (\<forall>d \<in> set ds. (bc_pair (bd_claim d), bc_claim_id (bd_claim d), show_int (bd_version d)) \<in> loaded g)"

lemma deliveries_loaded_mono: "beh_step\<^sup>*\<^sup>* a b \<Longrightarrow> deliveries_loaded (snd a) ds \<Longrightarrow> deliveries_loaded (snd b) ds"
  unfolding deliveries_loaded_def using behs.reach_grows(1) by blast

lemma beh_published_steps:
  "deliveries_loaded (snd sys) ds \<Longrightarrow> beh_step\<^sup>*\<^sup>* sys (beh_published ds sys) \<and>
     (\<forall>d \<in> set ds. (bc_pair (bd_claim d), show_int (bd_version d)) \<in> published (snd (beh_published ds sys)))"
proof (induction ds sys rule: beh_published.induct)
  case (2 d ds s g)
  let ?g = "g\<lparr>published := insert (bc_pair (bd_claim d), show_int (bd_version d)) (published g)\<rparr>"
  have l: "(bc_pair (bd_claim d), bc_claim_id (bd_claim d), show_int (bd_version d)) \<in> loaded g"
    using "2.prems" by (auto simp: deliveries_loaded_def)
  have st: "beh_step (s, g) (s, ?g)" by (rule was_published [OF l])
  have ih: "beh_step\<^sup>*\<^sup>* (s, ?g) (beh_published ds (s, ?g))"
    "\<forall>d \<in> set ds. (bc_pair (bd_claim d), show_int (bd_version d)) \<in> published (snd (beh_published ds (s, ?g)))"
    using "2.IH" "2.prems" by (auto simp: deliveries_loaded_def)
  moreover have "(bc_pair (bd_claim d), show_int (bd_version d)) \<in> published (snd (beh_published ds (s, ?g)))"
    using behs.reach_grows(2) [OF ih(1)] by auto
  ultimately show ?case using st by (auto intro: converse_rtranclp_into_rtranclp)
qed simp

lemma publish_deliveries_steps:
  assumes "beh_env_ok env" "deliveries_loaded (snd sys) ds" "publish_deliveries env ds evs sys = (sys', e)"
  shows "beh_step\<^sup>*\<^sup>* sys sys'"
    "e = None \<Longrightarrow> d \<in> set ds \<Longrightarrow> (bc_pair (bd_claim d), show_int (bd_version d)) \<in> published (snd sys')"
proof -
  have o: "beh_step\<^sup>*\<^sup>* sys (be_other env 4 sys)" by (rule beh_env_okD(1) [OF assms(1)]) simp
  have l: "deliveries_loaded (snd (be_other env 4 sys)) xs" if "set xs \<subseteq> set ds" for xs
    using deliveries_loaded_mono [OF o assms(2)] that by (auto simp: deliveries_loaded_def)
  have m: "beh_step\<^sup>*\<^sup>* sys (beh_published xs (be_other env 4 sys))" if "set xs \<subseteq> set ds" for xs
    using rtranclp_trans [OF o] beh_published_steps [OF l [OF that]] by blast
  have sub: "set (map fst (filter P (zip ds evs))) \<subseteq> set ds" for P by (auto dest: set_zip_leftD)
  show "beh_step\<^sup>*\<^sup>* sys sys'"
    using assms(3) m [OF subset_refl] m [OF sub] by (auto simp: publish_deliveries_def split: option.splits)
  show "(bc_pair (bd_claim d), show_int (bd_version d)) \<in> published (snd sys')" if "e = None" "d \<in> set ds"
    using assms(3) that beh_published_steps [OF l [OF subset_refl]] by (auto simp: publish_deliveries_def split: option.splits)
qed

lemma ack_pipeline_steps:
  assumes "beh_env_ok env" "deliveries_loaded (snd sys) ds"
    "\<And>d. d \<in> set ds \<Longrightarrow> (bc_pair (bd_claim d), show_int (bd_version d)) \<in> published (snd sys)"
  shows "beh_step\<^sup>*\<^sup>* sys (fst (ack_pipeline f (beh_ack_at env i) ds sys))"
proof -
  have op: "beh_step\<^sup>*\<^sup>* sys (fst (beh_ack_at env i (bc_pair (bd_claim d)) (bc_claim_id (bd_claim d)) (show_int (bd_version d)) z))"
    if d: "d \<in> set ds" and z: "beh_step\<^sup>*\<^sup>* sys z" for d z
  proof -
    let ?x = "bc_pair (bd_claim d)" and ?c = "bc_claim_id (bd_claim d)" and ?v = "show_int (bd_version d)"
    obtain s g where zb: "be_between env i ?x z = (s, g)" by fastforce
    obtain s' r where r: "behavior_ack_script ?x ?c ?v s = (s', r)" by fastforce
    have st: "beh_step\<^sup>*\<^sup>* sys (s, g)" using beh_env_okD(2) [OF assms(1) z, of i ?x] zb by simp
    have "(?x, ?c, ?v) \<in> loaded g" "(?x, ?v) \<in> published g"
      using behs.reach_grows(1,2) [OF st] assms(2,3) d by (auto simp: deliveries_loaded_def)
    from acked [OF this, where ack = behavior_ack_script, OF r] have "beh_step (s, g) (s', g)" .
    with st have "beh_step\<^sup>*\<^sup>* sys (s', g)" by (rule rtranclp.rtrancl_into_rtrancl)
    then show ?thesis by (simp add: beh_ack_at_def zb r)
  qed
  have "beh_step\<^sup>*\<^sup>* sys (fst (pipe_exec f (map (\<lambda>d. beh_ack_at env i (bc_pair (bd_claim d)) (bc_claim_id (bd_claim d))
      (show_int (bd_version d))) ds) sys))"
    by (rule pipe_exec_closed [where I = "\<lambda>z. beh_step\<^sup>*\<^sup>* sys z"]) (use op in auto)
  then show ?thesis by (auto simp: ack_pipeline_def split: prod.splits sum.splits)
qed

lemma deliver_batch_steps:
  assumes "beh_env_ok env" "deliveries_loaded (snd sys) ds"
  shows "beh_step\<^sup>*\<^sup>* sys (fst (deliver_batch env claims ds err sys))"
proof (cases "behavior_events ds")
  case (Inl e)
  with requeue_claims_steps [OF assms(1)] show ?thesis by (simp add: deliver_batch_def)
next
  case (Inr evs)
  obtain sys1 pe where p: "publish_deliveries env ds evs sys = (sys1, pe)" by fastforce
  note st = publish_deliveries_steps [OF assms p]
  note tr = rtranclp_trans [OF st(1)]
  show ?thesis
  proof (cases pe)
    case None
    have "beh_step\<^sup>*\<^sup>* sys1 (fst (ack_pipeline (be_pipe env 5) (beh_ack_at env 5) ds sys1))"
      by (rule ack_pipeline_steps [OF assms(1) deliveries_loaded_mono [OF st(1) assms(2)] st(2) [OF None]])
    from tr [OF this] Inr p None show ?thesis by (auto simp: deliver_batch_def split: prod.splits sum.splits)
  next
    case (Some e)
    with tr [OF requeue_claims_steps [OF assms(1)]] Inr p show ?thesis by (simp add: deliver_batch_def)
  qed
qed

lemma process_claims_steps:
  assumes "beh_env_ok env" "beh_claims_ok (snd sys) claims" "beh_canon (fst sys)"
  shows "beh_step\<^sup>*\<^sup>* sys (fst (process_claims env claims sys))"
proof -
  let ?o = "be_other env 2 sys"
  have o: "beh_step\<^sup>*\<^sup>* sys ?o" by (rule beh_env_okD(1) [OF assms(1)]) simp
  note ld = beh_loaded_steps [OF beh_claims_ok_mono [OF o assms(2)]]
  obtain s g where sg: "beh_loaded claims ?o = (s, g)" by fastforce
  have st: "beh_step\<^sup>*\<^sup>* sys (s, g)" using rtranclp_trans [OF o] ld sg by metis
  obtain ds bad le where l: "LoadBehaviorDeliveriesWithIssues (be_load_fault env) claims s = (ds, bad, le)"
    by (metis prod.collapse)
  have "beh_canon s" using beh_reach_canon [OF st assms(3)] by simp
  from delivered_versions [OF this l] ld sg have dl: "deliveries_loaded (snd (s, g)) ds"
    by (auto simp: deliveries_loaded_def)
  obtain sys1 re where r: "(if bad \<noteq> [] then requeue_claims env 3 bad (s, g) else ((s, g), None)) = (sys1, re)" by fastforce
  have s1: "beh_step\<^sup>*\<^sup>* (s, g) sys1"
    using r requeue_claims_steps [OF assms(1), of "(s, g)" 3 bad] by (auto split: if_splits)
  have "beh_step\<^sup>*\<^sup>* (s, g) (fst (process_claims env claims sys))"
    using requeue_claims_steps [OF assms(1), of "(s, g)" 3 claims] s1
      rtranclp_trans [OF s1 deliver_batch_steps [OF assms(1) deliveries_loaded_mono [OF s1 dl]]]
    by (simp add: process_claims_def sg l r)
  with st show ?thesis by (rule rtranclp_trans)
qed

lemma parse_pairs_tokens:
  assumes "parse_claim_items (concat (map (\<lambda>(x, c). [VString x, VString c]) gs)) seen acc = Inr cs"
    and "\<And>x c. (x, c) \<in> set gs \<Longrightarrow> c = claim_token q x"
    and "\<forall>c \<in> set acc. bc_claim_id c = claim_token q (bc_pair c)"
  shows "\<forall>c \<in> set cs. bc_claim_id c = claim_token q (bc_pair c)"
  using assms
proof (induction gs arbitrary: seen acc)
  case (Cons g gs)
  obtain x c where g: "g = (x, c)" by fastforce
  from Cons.prems(1) g obtain seen' where
    "parse_claim_items (concat (map (\<lambda>(x, c). [VString x, VString c]) gs)) seen' (acc @ [\<lparr>bc_pair = x, bc_claim_id = c\<rparr>]) = Inr cs"
    by (auto split: if_splits)
  then show ?case
    by (rule Cons.IH) (use Cons.prems(2,3) g in auto)
qed simp

lemma ClaimBehaviorDirty_steps:
  assumes run: "ClaimBehaviorDirty True f batch lease now q pick s = (s', r)"
    and pick: "pick_ok pick s" and q: "q \<notin> prefixes g"
  defines "g' \<equiv> g\<lparr>prefixes := insert q (prefixes g)\<rparr>"
  shows "beh_step\<^sup>*\<^sup>* (s, g) (s', g')" "r = Inr cs \<Longrightarrow> beh_claims_ok g' cs"
proof -
  let ?op = "behavior_claim_script (clamp_behavior_batch batch) (lease_deadline now lease) q pick"
  obtain r' where c: "call f ?op s = (s', r')"
    and r: "r = (case r' of Inl e \<Rightarrow> Inl (mapScriptError e)
      | Inr gs \<Rightarrow> (case parseBehaviorClaimReply (claim_reply gs) (clamp_behavior_batch batch) of
          Inl e \<Rightarrow> Inl (OtherErr e) | Inr claims \<Rightarrow> Inr claims))"
    using run by (auto simp: ClaimBehaviorDirty_def Let_def split: prod.splits)
  have step: "beh_step\<^sup>*\<^sup>* (s, g) (s1, g')" if "behavior_claim_script n d q pick s = (s1, r1)" for n d s1 r1
    unfolding g'_def
    by (rule r_into_rtranclp, rule claimed [where claim = behavior_claim_script and choice_ok = pick_ok, OF pick q that])
  have none: "\<exists>e. behavior_claim_script 0 0 q pick s = (s, Inl e)" by (simp add: behavior_claim_script_def)
  show "beh_step\<^sup>*\<^sup>* (s, g) (s', g')"
    by (rule call_reach [where R = "\<lambda>s s'. beh_step\<^sup>*\<^sup>* (s, g) (s', g')", OF _ _ c]) (use step none in blast)+
  show "beh_claims_ok g' cs" if "r = Inr cs"
  proof -
    from that r obtain gs where gs: "r' = Inr gs"
      and p: "parseBehaviorClaimReply (claim_reply gs) (clamp_behavior_batch batch) = Inr cs"
      by (auto split: sum.splits)
    with c have o: "?op s = (s', Inr gs)" by (cases f; cases "?op s") (auto simp: call_def)
    have "c = claim_token q x" if "(x, c) \<in> set gs" for x c using behq.claim_grant [OF pick o that] by blast
    with p have "\<forall>c \<in> set cs. bc_claim_id c = claim_token q (bc_pair c)"
      by (auto simp: parseBehaviorClaimReply_def claim_reply_def split: if_splits
          dest: parse_pairs_tokens [where q = q and acc = "[]"])
    then show ?thesis by (auto simp: beh_claims_ok_def g'_def)
  qed
qed

lemma ReapBehaviorExpired_steps:
  assumes "ReapBehaviorExpired f batch now s = (s', r)"
  shows "beh_step\<^sup>*\<^sup>* (s, g) (s', g)"
proof -
  obtain r' where c: "call f (behavior_reap_expired_script (now div 1000000) (clamp_behavior_batch batch)) s = (s', r')"
    using assms by (auto simp: ReapBehaviorExpired_def Let_def split: prod.splits)
  show ?thesis
    by (rule call_reach [where R = "\<lambda>s s'. beh_step\<^sup>*\<^sup>* (s, g) (s', g)", OF _ _ c])
      (auto intro!: r_into_rtranclp reaped [where reap = behavior_reap_expired_script])
qed

lemma behavior_batch_steps:
  assumes "beh_env_ok env" "beh_canon (fst sys)" "finite (prefixes (snd sys))"
  shows "beh_step\<^sup>*\<^sup>* sys (fst (runLikeBehaviorRelayBatch env batch lease sys))"
proof -
  obtain s1 g1 where o1: "be_other env 0 sys = (s1, g1)" by fastforce
  obtain s2 r2 where re: "ReapBehaviorExpired (be_fault env 0) batch (be_now env 0) s1 = (s2, r2)" by fastforce
  obtain s3 g3 where o3: "be_other env (Suc 0) (s2, g1) = (s3, g3)" by fastforce
  define q where "q = be_uuid env (s3, g3)"
  define g4 where "g4 = g3\<lparr>prefixes := insert q (prefixes g3)\<rparr>"
  obtain s4 r4 where cl: "ClaimBehaviorDirty True (be_fault env (Suc 0)) batch lease (be_now env (Suc 0)) q (be_pick env s3) s3 = (s4, r4)"
    by fastforce
  have a1: "beh_step\<^sup>*\<^sup>* sys (s1, g1)" using beh_env_okD(1) [OF assms(1), of sys sys 0] o1 by simp
  have a2: "beh_step\<^sup>*\<^sup>* sys (s2, g1)" using a1 ReapBehaviorExpired_steps [OF re] by (rule rtranclp_trans)
  have a3: "beh_step\<^sup>*\<^sup>* sys (s3, g3)" using beh_env_okD(1) [OF assms(1) a2, of "Suc 0"] o3 by simp
  have fresh: "q \<notin> prefixes g3"
    using beh_env_okD(3) [OF assms(1), of "(s3, g3)"] behs.reach_finite [OF a3 assms(3)] by (simp add: q_def)
  note c4 = ClaimBehaviorDirty_steps [OF cl beh_env_okD(4) [OF assms(1)] fresh, folded g4_def]
  have a4: "beh_step\<^sup>*\<^sup>* sys (s4, g4)" using a3 c4(1) by (rule rtranclp_trans)
  have pr: "beh_step\<^sup>*\<^sup>* sys (fst (process_claims env claims (s4, g4)))" if "r4 = Inr claims" for claims
    using a4 process_claims_steps [OF assms(1), of "(s4, g4)" claims] c4(2) [OF that] beh_reach_canon [OF a4 assms(2)]
    by (simp add: rtranclp_trans)
  show ?thesis
    using a2 a4 pr by (cases r2; cases r4) (simp_all add: runLikeBehaviorRelayBatch_def o1 re o3 cl Let_def g4_def flip: q_def)
qed

text \<open>
  C12. A batch of the behaviour relay never loses a change of a user's like, whatever fails in
  it and whatever the other writers and relays do meanwhile: the latest state of every
  pair of user and post is, at its version, published or still queued.
\<close>

theorem behavior_batch_loses_nothing:
  assumes "beh_env_ok env" "beh_canon s" "finite (prefixes g)" "delivery_inv beh_val beh_pend beh_owner s g"
    and "runLikeBehaviorRelayBatch env batch lease (s, g) = ((s', g'), e)"
  shows "delivery_inv beh_val beh_pend beh_owner s' g' \<and>
    (\<forall>x v. latest g' x = Some v \<longrightarrow>
       (x, v) \<in> published g' \<or> (beh_val s' x = Some v \<and> (beh_pend s' x \<or> beh_owner s' x \<noteq> None)))"
proof -
  have "beh_step\<^sup>*\<^sup>* (s, g) (s', g')"
    using behavior_batch_steps [OF assms(1), of "(s, g)" batch lease] assms(2,3,5) by simp
  from behs.reach_inv [OF this] assms(4) have "delivery_inv beh_val beh_pend beh_owner s' g'" by simp
  then show ?thesis unfolding delivery_inv_def by blast
qed

definition demo_behavior_env :: behavior_env where
  "demo_behavior_env = \<lparr>be_other = \<lambda>_ sys. sys, be_between = \<lambda>_ _ sys. sys, be_fault = \<lambda>_. Healthy, be_now = \<lambda>_. 5000000,
     be_uuid = \<lambda>sys. fresh_uuid (prefixes (snd sys)),
     be_pick = \<lambda>s m. (if ''3:8'' |\<in>| m then ''3:8'' else (SOME x. x |\<in>| m)),
     be_load_fault = None, be_pipe = \<lambda>_. None, be_publish = \<lambda>_. None, be_stored = \<lambda>_. False\<rparr>"

lemma demo_behavior_env_ok: "beh_env_ok demo_behavior_env"
proof -
  have "(SOME x. x |\<in>| m) |\<in>| m" if "m \<noteq> {||}" for m :: "string fset"
    by (rule someI_ex) (use that in auto)
  then show ?thesis by (auto simp: beh_env_ok_def demo_behavior_env_def fresh_uuid pick_ok_def)
qed

definition demo_behavior_dirty :: lstore where
  "demo_behavior_dirty = (\<lambda>_. None)
     (KBehaviorState := Some (RHash (fmupd ''3:8'' ''1|5|70'' fmempty), None),
      KBehaviorDirty := Some (RSet {|''3:8''|}, None))"

definition demo_behavior_ghost :: "string ghost" where
  "demo_behavior_ghost = \<lparr>loaded = {}, published = {}, latest = [''3:8'' \<mapsto> ''5''], prefixes = {}\<rparr>"

theorem behavior_batch_loses_nothing_witness:
  "\<exists>s' g' e. runLikeBehaviorRelayBatch demo_behavior_env 10 30 (demo_behavior_dirty, demo_behavior_ghost) = ((s', g'), e) \<and>
     delivery_inv beh_val beh_pend beh_owner s' g'"
proof -
  obtain s' g' e where
    run: "runLikeBehaviorRelayBatch demo_behavior_env 10 30 (demo_behavior_dirty, demo_behavior_ghost) = ((s', g'), e)"
    by (metis prod.collapse)
  have v: "beh_val demo_behavior_dirty x = (if x = ''3:8'' then Some ''5'' else None)" for x
    by (simp add: beh_val_def demo_behavior_dirty_def version_field_def)
  have five: "show_nat 5 = ''5''" by (simp add: show_nat.simps digit_char_def)
  have "parse_int64 ''5'' = Some 5" using parse_int64_show [of 5] five by simp
  then have c: "beh_canon demo_behavior_dirty" using five by (auto simp: beh_canon_def v split: if_splits)
  have f: "finite (prefixes demo_behavior_ghost)" by (simp add: demo_behavior_ghost_def)
  have p: "beh_pend demo_behavior_dirty ''3:8''" by (simp add: beh_pend_def demo_behavior_dirty_def)
  have d: "delivery_inv beh_val beh_pend beh_owner demo_behavior_dirty demo_behavior_ghost"
    using p by (auto simp: delivery_inv_def demo_behavior_ghost_def v)
  from behavior_batch_loses_nothing [OF demo_behavior_env_ok c f d run] run show ?thesis by blast
qed

end
