(* ===== verification/LikeConfig.thy ===== *)
theory LikeConfig
  imports LikeErrors
begin

text \<open>
  The settings of the like service (\<open>config/env.go\<close>, \<open>config/user_like_lifecycle.go\<close>): how an
  environment variable becomes a batch size, a lease or a timeout. The environment is a
  function from names to values; durations are nanoseconds.
\<close>

section \<open>Durations\<close>

type_synonym environment = "string \<Rightarrow> string option"

definition nanosecond :: int where "nanosecond = 1"
definition millisecond :: int where "millisecond = 1000000"
definition second :: int where "second = 1000000000"
definition minute :: int where "minute = 60 * second"
definition hour :: int where "hour = 60 * minute"

lemmas time_units = nanosecond_def millisecond_def second_def minute_def hour_def

text \<open>The units of \<open>time.ParseDuration\<close>; micro has two spellings in UTF-8.\<close>

definition unit_of :: "string \<Rightarrow> int option" where
  "unit_of u = map_of
     [(''ns'', nanosecond), (''us'', 1000), ([CHR 0xC2, CHR 0xB5, CHR ''s''], 1000), ([CHR 0xCE, CHR 0xBC, CHR ''s''], 1000),
      (''ms'', millisecond), (''s'', second), (''m'', minute), (''h'', hour)] u"

text \<open>
  The digits after a point: they are read until the value would leave 63 bits, the result is
  the value and its scale.
\<close>

fun fraction_loop :: "string \<Rightarrow> int \<Rightarrow> int \<Rightarrow> int \<times> int" where
  "fraction_loop [] x scale = (x, scale)"
| "fraction_loop (c # cs) x scale =
     (if x > (2 ^ 63 - 1) div 10 \<or> x * 10 + int (digit_val c) > 2 ^ 63 then (x, scale)
      else fraction_loop cs (x * 10 + int (digit_val c)) (scale * 10))"

lemma dropWhile_shorter: "takeWhile P s \<noteq> [] \<Longrightarrow> length (dropWhile P s) < length s"
  by (cases s) (auto simp: le_imp_less_Suc length_dropWhile_le split: if_splits)

text \<open>
  The loop over the parts \<open>number unit\<close>. Go computes the fraction in floating point; here it
  is the exact value rounded down.
\<close>

function duration_loop :: "string \<Rightarrow> int \<Rightarrow> int option" where
  "duration_loop s d =
     (if s = [] then Some d
      else
        (let ip = takeWhile is_digit s; r1 = dropWhile is_digit s;
             (fp, r2) = (if r1 \<noteq> [] \<and> hd r1 = CHR ''.'' then (takeWhile is_digit (tl r1), dropWhile is_digit (tl r1)) else ([], r1));
             u = takeWhile (\<lambda>c. c \<noteq> CHR ''.'' \<and> \<not> is_digit c) r2
         in if int (tonum ip) > 2 ^ 63 \<or> (ip = [] \<and> fp = []) \<or> u = [] then None
            else
              (case unit_of u of
                 None \<Rightarrow> None
               | Some unit \<Rightarrow>
                  (if int (tonum ip) > 2 ^ 63 div unit then None
                   else
                     (let (f, scale) = fraction_loop fp 0 1;
                          v = int (tonum ip) * unit + (if f > 0 then f * unit div scale else 0)
                      in if v > 2 ^ 63 \<or> d + v > 2 ^ 63 then None
                         else duration_loop (dropWhile (\<lambda>c. c \<noteq> CHR ''.'' \<and> \<not> is_digit c) r2) (d + v))))))"
  by pat_completeness auto

termination
proof (relation "measure (\<lambda>(s, d). length s)")
  fix s :: string and d ip r1 p fp r2 u unit q f scale v
  assume ne: "s \<noteq> []" and r1: "r1 = dropWhile is_digit s"
    and p: "p = (if r1 \<noteq> [] \<and> hd r1 = CHR ''.'' then (takeWhile is_digit (tl r1), dropWhile is_digit (tl r1)) else ([], r1))"
    "(fp, r2) = p" and u: "u = takeWhile (\<lambda>c. c \<noteq> CHR ''.'' \<and> \<not> is_digit c) r2"
    and g: "\<not> (int (tonum ip) > 2 ^ 63 \<or> (ip = [] \<and> fp = []) \<or> u = [])"
  have "length (dropWhile (\<lambda>c. c \<noteq> CHR ''.'' \<and> \<not> is_digit c) r2) < length r2"
    using g u by (intro dropWhile_shorter) auto
  also have "length r2 \<le> length r1"
    using p by (auto split: if_splits intro: le_trans [OF length_dropWhile_le])
  also have "\<dots> \<le> length s" by (simp add: r1 length_dropWhile_le)
  finally show "((dropWhile (\<lambda>c. c \<noteq> CHR ''.'' \<and> \<not> is_digit c) r2, d + v), (s, d)) \<in> measure (\<lambda>(s, d). length s)" by simp
qed simp

declare duration_loop.simps [simp del]

definition ParseDuration :: "string \<Rightarrow> int option" where
  "ParseDuration str =
     (let neg = (str \<noteq> [] \<and> hd str = CHR ''-'');
          s = (if str \<noteq> [] \<and> (hd str = CHR ''-'' \<or> hd str = CHR ''+'') then tl str else str)
      in if s = ''0'' then Some 0
         else if s = [] then None
         else (case duration_loop s 0 of
                 None \<Rightarrow> None
               | Some d \<Rightarrow> if neg then Some (- d) else if d > 2 ^ 63 - 1 then None else Some d))"

section \<open>Variables with defaults\<close>

text \<open>\<open>os.Getenv\<close> is the empty string when the variable is not set.\<close>

definition Getenv :: "environment \<Rightarrow> string \<Rightarrow> string" where
  "Getenv env key = (case env key of None \<Rightarrow> [] | Some v \<Rightarrow> v)"

definition envDuration :: "environment \<Rightarrow> string \<Rightarrow> int \<Rightarrow> int" where
  "envDuration env key fallback =
     (let s = trim_space (Getenv env key)
      in if s = [] then fallback
         else (case ParseDuration s of None \<Rightarrow> fallback | Some d \<Rightarrow> if d \<le> 0 then fallback else d))"

definition envInt :: "environment \<Rightarrow> string \<Rightarrow> int \<Rightarrow> int" where
  "envInt env key fallback =
     (let s = trim_space (Getenv env key)
      in if s = [] then fallback else (case parse_int64 s of None \<Rightarrow> fallback | Some n \<Rightarrow> n))"

text \<open>No rune outside ASCII has one of these letters as its lower case.\<close>

definition truthy :: "string \<Rightarrow> bool option" where
  "truthy v =
     (let w = map ascii_lower (trim_space v)
      in if w \<in> {''1'', ''true'', ''yes'', ''y'', ''on''} then Some True
         else if w \<in> {''0'', ''false'', ''no'', ''n'', ''off''} then Some False
         else None)"

definition envBool :: "environment \<Rightarrow> string \<Rightarrow> bool \<Rightarrow> bool" where
  "envBool env key fallback = (case truthy (Getenv env key) of None \<Rightarrow> fallback | Some b \<Rightarrow> b)"

section \<open>The relays\<close>

definition MaxLikeSnapshotRoundSize :: int where "MaxLikeSnapshotRoundSize = 1000"
definition MaxSnapshotBatch :: int where "MaxSnapshotBatch = 100"
definition MaxBehaviorBatch :: int where "MaxBehaviorBatch = 500"

definition LikeSnapshotBatchSize :: "environment \<Rightarrow> int" where
  "LikeSnapshotBatchSize env =
     (let batch = envInt env ''LIKE_SNAPSHOT_BATCH_SIZE'' MaxSnapshotBatch
      in if batch < 1 then MaxSnapshotBatch else min batch MaxSnapshotBatch)"

definition LikeSnapshotRoundSize :: "environment \<Rightarrow> int" where
  "LikeSnapshotRoundSize env =
     (let n = envInt env ''LIKE_SNAPSHOT_ROUND_SIZE'' (LikeSnapshotBatchSize env)
      in if n < 1 then LikeSnapshotBatchSize env else min n MaxLikeSnapshotRoundSize)"

definition LikeClaimLease :: "environment \<Rightarrow> int" where
  "LikeClaimLease env = envDuration env ''LIKE_CLAIM_LEASE'' (30 * second)"

definition LikeSnapshotRoundTimeout :: "environment \<Rightarrow> int" where
  "LikeSnapshotRoundTimeout env =
     (let d = envDuration env ''LIKE_SNAPSHOT_ROUND_TIMEOUT'' (5 * second);
          d = (if d \<le> 0 then 5 * second else d);
          lease = LikeClaimLease env;
          lease = (if lease \<le> 0 then 30 * second else lease)
      in min d (min (5 * second) (lease div 2)))"

definition LikeBehaviorBatchSize :: "environment \<Rightarrow> int" where
  "LikeBehaviorBatchSize env =
     (let batch = envInt env ''LIKE_BEHAVIOR_BATCH_SIZE'' 500
      in if batch < 1 then MaxBehaviorBatch else min batch MaxBehaviorBatch)"

definition LikeBehaviorClaimLease :: "environment \<Rightarrow> int" where
  "LikeBehaviorClaimLease env = envDuration env ''LIKE_BEHAVIOR_CLAIM_LEASE'' (30 * second)"

section \<open>Posts\<close>

definition LikeStateExpiryEnabled :: "environment \<Rightarrow> bool" where
  "LikeStateExpiryEnabled env = envBool env ''LIKE_STATE_EXPIRY_ENABLED'' False"

definition ValidateLikeStateExpiryConfig :: "environment \<Rightarrow> go_error option" where
  "ValidateLikeStateExpiryConfig env =
     (if LikeStateExpiryEnabled env then Some (Sentinel ErrLikeStateExpiryUnsupported) else None)"

definition LikeStateTTL :: "environment \<Rightarrow> int" where
  "LikeStateTTL env = envDuration env ''LIKE_STATE_TTL'' (24 * hour)"

definition LikeStateIdleBeforeExpiry :: "environment \<Rightarrow> int" where
  "LikeStateIdleBeforeExpiry env = envDuration env ''LIKE_STATE_IDLE_BEFORE_EXPIRY'' hour"

definition LikeStateReadRenewalThreshold :: "environment \<Rightarrow> int" where
  "LikeStateReadRenewalThreshold env =
     (let ttl = LikeStateTTL env; fallback = ttl div 2
      in if fallback \<le> 0 then 0
         else (let threshold = envDuration env ''LIKE_STATE_READ_RENEWAL_THRESHOLD'' fallback
               in if threshold \<ge> ttl then fallback else threshold))"

definition LikeDeletionTombstoneTTL :: "environment \<Rightarrow> int" where
  "LikeDeletionTombstoneTTL env = max millisecond (envDuration env ''LIKE_DELETION_TOMBSTONE_TTL'' (24 * hour))"

definition LikeRebuildTokenTTL :: "environment \<Rightarrow> int" where
  "LikeRebuildTokenTTL env = max millisecond (envDuration env ''LIKE_REBUILD_TOKEN_TTL'' (30 * second))"

definition LikeStateMaintenanceBatchSize :: "environment \<Rightarrow> int" where
  "LikeStateMaintenanceBatchSize env =
     (let batch = envInt env ''LIKE_STATE_MAINTENANCE_BATCH_SIZE'' 100 in if batch < 1 then 1 else batch)"

section \<open>The lifecycle of users\<close>

record user_like_lifecycle_config =
  ArmingEnabled :: bool
  RestoreEnabled :: bool
  SetTTL :: int
  RestoreLockTTL :: int
  RestoreBatchSize :: int
  RestoreMaxRelations :: int
  RestoreRequestTimeout :: int
  RestoreConcurrency :: int

definition parseBoolSetting :: "environment \<Rightarrow> string \<Rightarrow> bool \<Rightarrow> bool res" where
  "parseBoolSetting env name fallback =
     (case env name of
        None \<Rightarrow> Inr fallback
      | Some v \<Rightarrow> (case truthy v of None \<Rightarrow> Inl (name @ '' must be a boolean'') | Some b \<Rightarrow> Inr b))"

definition SetTTLName :: string where "SetTTLName = ''USER_LIKE_SET_TTL''"
definition RestoreLockTTLName :: string where "RestoreLockTTLName = ''USER_LIKE_RESTORE_LOCK_TTL''"
definition RestoreTimeoutName :: string where "RestoreTimeoutName = ''USER_LIKE_RESTORE_REQUEST_TIMEOUT''"

definition parseDurationSetting :: "environment \<Rightarrow> string \<Rightarrow> int \<Rightarrow> int res" where
  "parseDurationSetting env name fallback =
     (case env name of
        None \<Rightarrow> Inr fallback
      | Some v \<Rightarrow>
         (case ParseDuration (trim_space v) of
            None \<Rightarrow> Inl (name @ '' must be a positive duration'')
          | Some d \<Rightarrow>
             (if d \<le> 0 then Inl (name @ '' must be a positive duration'')
              else if name = SetTTLName \<and> (d < hour \<or> d > 365 * 24 * hour)
              then Inl (name @ '' must be between 1h and 365d'')
              else if name = RestoreLockTTLName \<and> (d < second \<or> d > 5 * minute)
              then Inl (name @ '' must be between 1s and 5m'')
              else if name = RestoreTimeoutName \<and> (d < 100 * millisecond \<or> d > 30 * second)
              then Inl (name @ '' must be between 100ms and 30s'')
              else if d div millisecond \<le> 0 then Inl (name @ '' is too small for Redis millisecond precision'')
              else Inr d)))"

definition parseBoundedIntSetting :: "environment \<Rightarrow> string \<Rightarrow> int \<Rightarrow> int \<Rightarrow> int \<Rightarrow> int res" where
  "parseBoundedIntSetting env name fallback minimum maximum =
     (case env name of
        None \<Rightarrow> Inr fallback
      | Some v \<Rightarrow>
         (case parse_int64 (trim_space v) of
            None \<Rightarrow> Inl (name @ '' out of range'')
          | Some n \<Rightarrow> if n < minimum \<or> n > maximum then Inl (name @ '' out of range'') else Inr n))"

definition and_then :: "'a res \<Rightarrow> ('a \<Rightarrow> 'b res) \<Rightarrow> 'b res" where
  "and_then r f = (case r of Inl e \<Rightarrow> Inl e | Inr a \<Rightarrow> f a)"

definition UserLikeLifecycleSettings :: "environment \<Rightarrow> user_like_lifecycle_config res" where
  "UserLikeLifecycleSettings env =
     and_then (parseBoolSetting env ''USER_LIKE_TTL_ARMING_ENABLED'' True) (\<lambda>arming.
     and_then (parseBoolSetting env ''USER_LIKE_TTL_RESTORE_ENABLED'' True) (\<lambda>restore.
     and_then (parseDurationSetting env SetTTLName (72 * hour)) (\<lambda>set_ttl.
     and_then (parseDurationSetting env RestoreLockTTLName (30 * second)) (\<lambda>lock_ttl.
     and_then (parseDurationSetting env RestoreTimeoutName (2 * second)) (\<lambda>timeout.
     and_then (parseBoundedIntSetting env ''USER_LIKE_RESTORE_BATCH_SIZE'' 500 1 5000) (\<lambda>batch.
     and_then (parseBoundedIntSetting env ''USER_LIKE_RESTORE_MAX_RELATIONS'' 10000 1 10000) (\<lambda>rows.
     and_then (parseBoundedIntSetting env ''USER_LIKE_RESTORE_CONCURRENCY'' 8 1 64) (\<lambda>slots.
       if lock_ttl \<le> timeout + second
       then Inl ''USER_LIKE_RESTORE_LOCK_TTL must exceed USER_LIKE_RESTORE_REQUEST_TIMEOUT by at least 1s''
       else Inr \<lparr>ArmingEnabled = arming, RestoreEnabled = restore, SetTTL = set_ttl, RestoreLockTTL = lock_ttl,
                 RestoreBatchSize = batch, RestoreMaxRelations = rows, RestoreRequestTimeout = timeout,
                 RestoreConcurrency = slots\<rparr>))))))))"

section \<open>Bounds\<close>

lemma envDuration_pos: "0 < fallback \<Longrightarrow> 0 < envDuration env key fallback"
  by (auto simp: envDuration_def Let_def split: option.splits)

text \<open>
  Whatever the environment holds, the relays run with sane numbers: batches and rounds are
  within the limits the scripts and the store accept, and a round gives up before half of the
  lease of its claims has passed, so its claims are still its own when it acknowledges
  them. The threshold for renewing an expiring post is below its time to live.
\<close>

theorem relay_settings_bounds:
  "1 \<le> LikeSnapshotBatchSize env \<and> LikeSnapshotBatchSize env \<le> 100 \<and>
   1 \<le> LikeSnapshotRoundSize env \<and> LikeSnapshotRoundSize env \<le> 1000 \<and>
   1 \<le> LikeBehaviorBatchSize env \<and> LikeBehaviorBatchSize env \<le> 500 \<and>
   0 < LikeClaimLease env \<and> 0 \<le> LikeSnapshotRoundTimeout env \<and> LikeSnapshotRoundTimeout env \<le> 5 * second \<and>
   2 * LikeSnapshotRoundTimeout env \<le> LikeClaimLease env \<and>
   0 \<le> LikeStateReadRenewalThreshold env \<and> LikeStateReadRenewalThreshold env < LikeStateTTL env \<and>
   millisecond \<le> LikeRebuildTokenTTL env \<and> millisecond \<le> LikeDeletionTombstoneTTL env"
proof -
  have lease: "0 < LikeClaimLease env" unfolding LikeClaimLease_def by (rule envDuration_pos) (simp add: time_units)
  have ttl: "0 < LikeStateTTL env" unfolding LikeStateTTL_def by (rule envDuration_pos) (simp add: time_units)
  have batch: "1 \<le> LikeSnapshotBatchSize env \<and> LikeSnapshotBatchSize env \<le> 100"
    by (simp add: LikeSnapshotBatchSize_def MaxSnapshotBatch_def Let_def)
  have round: "1 \<le> LikeSnapshotRoundSize env \<and> LikeSnapshotRoundSize env \<le> 1000"
    using batch by (simp add: LikeSnapshotRoundSize_def MaxLikeSnapshotRoundSize_def Let_def)
  have time: "0 \<le> LikeSnapshotRoundTimeout env \<and> LikeSnapshotRoundTimeout env \<le> 5 * second \<and>
      2 * LikeSnapshotRoundTimeout env \<le> LikeClaimLease env"
    using lease by (auto simp: LikeSnapshotRoundTimeout_def Let_def time_units)
  have "0 < envDuration env ''LIKE_STATE_READ_RENEWAL_THRESHOLD'' (LikeStateTTL env div 2)" if "0 < LikeStateTTL env div 2"
    using that by (rule envDuration_pos)
  then have thr: "0 \<le> LikeStateReadRenewalThreshold env \<and> LikeStateReadRenewalThreshold env < LikeStateTTL env"
    using ttl by (auto simp: LikeStateReadRenewalThreshold_def Let_def)
  show ?thesis
    using lease batch round time thr
    by (simp add: LikeBehaviorBatchSize_def MaxBehaviorBatch_def LikeRebuildTokenTTL_def LikeDeletionTombstoneTTL_def Let_def)
qed

lemma and_then_Inr: "and_then r f = Inr b \<longleftrightarrow> (\<exists>a. r = Inr a \<and> f a = Inr b)"
  by (auto simp: and_then_def split: sum.splits)

lemma parseDurationSetting_Inr:
  assumes "parseDurationSetting env name fallback = Inr d" "0 < fallback"
  shows "0 < d \<and> (d = fallback \<or> millisecond \<le> d) \<and>
    (name = SetTTLName \<longrightarrow> d = fallback \<or> (hour \<le> d \<and> d \<le> 365 * 24 * hour)) \<and>
    (name = RestoreLockTTLName \<longrightarrow> d = fallback \<or> (second \<le> d \<and> d \<le> 5 * minute)) \<and>
    (name = RestoreTimeoutName \<longrightarrow> d = fallback \<or> (100 * millisecond \<le> d \<and> d \<le> 30 * second))"
  using assms by (auto simp: parseDurationSetting_def time_units split: option.splits if_splits)

lemma parseBoundedIntSetting_Inr:
  "parseBoundedIntSetting env name fallback lo hi = Inr n \<Longrightarrow> lo \<le> fallback \<Longrightarrow> fallback \<le> hi \<Longrightarrow> lo \<le> n \<and> n \<le> hi"
  by (auto simp: parseBoundedIntSetting_def split: option.splits if_splits)

lemma accepted_settings:
  assumes "UserLikeLifecycleSettings env = Inr c"
  shows "hour \<le> SetTTL c \<and> SetTTL c \<le> 365 * 24 * hour \<and> 0 < SetTTL c div millisecond \<and>
      RestoreRequestTimeout c + second < RestoreLockTTL c \<and> RestoreLockTTL c \<le> 5 * minute \<and>
      100 * millisecond \<le> RestoreRequestTimeout c \<and> 0 < RestoreLockTTL c div millisecond \<and>
      1 \<le> RestoreBatchSize c \<and> RestoreBatchSize c \<le> 5000 \<and>
      1 \<le> RestoreMaxRelations c \<and> RestoreMaxRelations c \<le> 10000 \<and>
      1 \<le> RestoreConcurrency c \<and> RestoreConcurrency c \<le> 64"
proof (intro conjI)
  from assms obtain arming restore set_ttl lock_ttl timeout batch rows slots where
    d: "parseDurationSetting env SetTTLName (72 * hour) = Inr set_ttl"
       "parseDurationSetting env RestoreLockTTLName (30 * second) = Inr lock_ttl"
       "parseDurationSetting env RestoreTimeoutName (2 * second) = Inr timeout"
       "parseBoundedIntSetting env ''USER_LIKE_RESTORE_BATCH_SIZE'' 500 1 5000 = Inr batch"
       "parseBoundedIntSetting env ''USER_LIKE_RESTORE_MAX_RELATIONS'' 10000 1 10000 = Inr rows"
       "parseBoundedIntSetting env ''USER_LIKE_RESTORE_CONCURRENCY'' 8 1 64 = Inr slots"
    and fin: "(if lock_ttl \<le> timeout + second
       then Inl ''USER_LIKE_RESTORE_LOCK_TTL must exceed USER_LIKE_RESTORE_REQUEST_TIMEOUT by at least 1s''
       else Inr \<lparr>ArmingEnabled = arming, RestoreEnabled = restore, SetTTL = set_ttl, RestoreLockTTL = lock_ttl,
         RestoreBatchSize = batch, RestoreMaxRelations = rows, RestoreRequestTimeout = timeout, RestoreConcurrency = slots\<rparr>) = Inr c"
    unfolding UserLikeLifecycleSettings_def and_then_Inr by (elim exE conjE) (rule that)
  have lk: "\<not> lock_ttl \<le> timeout + second" using fin by (auto split: if_splits)
  with fin have c: "c = \<lparr>ArmingEnabled = arming, RestoreEnabled = restore, SetTTL = set_ttl, RestoreLockTTL = lock_ttl,
       RestoreBatchSize = batch, RestoreMaxRelations = rows, RestoreRequestTimeout = timeout, RestoreConcurrency = slots\<rparr>"
    by simp
  have t1: "hour \<le> set_ttl \<and> set_ttl \<le> 365 * 24 * hour"
    using parseDurationSetting_Inr [OF d(1)] by (auto simp: time_units)
  have t2: "lock_ttl \<le> 5 * minute \<and> second \<le> lock_ttl"
    using parseDurationSetting_Inr [OF d(2)] by (auto simp: time_units)
  have t3: "100 * millisecond \<le> timeout"
    using parseDurationSetting_Inr [OF d(3)] by (auto simp: time_units)
  note t = t1 t2 t3
  note n = parseBoundedIntSetting_Inr [OF d(4)] parseBoundedIntSetting_Inr [OF d(5)] parseBoundedIntSetting_Inr [OF d(6)]
  show "hour \<le> SetTTL c" "SetTTL c \<le> 365 * 24 * hour" "RestoreLockTTL c \<le> 5 * minute"
    "100 * millisecond \<le> RestoreRequestTimeout c" using t by (simp_all add: c)
  show "0 < SetTTL c div millisecond" "0 < RestoreLockTTL c div millisecond"
    using t by (simp_all add: c time_units pos_imp_zdiv_pos_iff)
  show "RestoreRequestTimeout c + second < RestoreLockTTL c" using lk by (simp add: c)
  show "1 \<le> RestoreBatchSize c" "RestoreBatchSize c \<le> 5000" "1 \<le> RestoreMaxRelations c" "RestoreMaxRelations c \<le> 10000"
    "1 \<le> RestoreConcurrency c" "RestoreConcurrency c \<le> 64" using n by (simp_all add: c)
qed

text \<open>
  Settings of the user lifecycle that are accepted are safe: the time to live is between an
  hour and a year, a restore is bounded in rows, batch and concurrency, and its lock outlives
  the request by more than a second; in the milliseconds sent to Redis nothing is zero. With no
  variable set the defaults are accepted.
\<close>

theorem lifecycle_settings_safe:
  "(\<forall>c. UserLikeLifecycleSettings env = Inr c \<longrightarrow>
      hour \<le> SetTTL c \<and> SetTTL c \<le> 365 * 24 * hour \<and> 0 < SetTTL c div millisecond \<and>
      RestoreRequestTimeout c + second < RestoreLockTTL c \<and> RestoreLockTTL c \<le> 5 * minute \<and>
      100 * millisecond \<le> RestoreRequestTimeout c \<and> 0 < RestoreLockTTL c div millisecond \<and>
      1 \<le> RestoreBatchSize c \<and> RestoreBatchSize c \<le> 5000 \<and>
      1 \<le> RestoreMaxRelations c \<and> RestoreMaxRelations c \<le> 10000 \<and>
      1 \<le> RestoreConcurrency c \<and> RestoreConcurrency c \<le> 64) \<and>
   UserLikeLifecycleSettings (\<lambda>_. None) =
     Inr \<lparr>ArmingEnabled = True, RestoreEnabled = True, SetTTL = 72 * hour, RestoreLockTTL = 30 * second,
          RestoreBatchSize = 500, RestoreMaxRelations = 10000, RestoreRequestTimeout = 2 * second, RestoreConcurrency = 8\<rparr>"
proof (rule conjI)
  show "\<forall>c. UserLikeLifecycleSettings env = Inr c \<longrightarrow>
      hour \<le> SetTTL c \<and> SetTTL c \<le> 365 * 24 * hour \<and> 0 < SetTTL c div millisecond \<and>
      RestoreRequestTimeout c + second < RestoreLockTTL c \<and> RestoreLockTTL c \<le> 5 * minute \<and>
      100 * millisecond \<le> RestoreRequestTimeout c \<and> 0 < RestoreLockTTL c div millisecond \<and>
      1 \<le> RestoreBatchSize c \<and> RestoreBatchSize c \<le> 5000 \<and>
      1 \<le> RestoreMaxRelations c \<and> RestoreMaxRelations c \<le> 10000 \<and>
      1 \<le> RestoreConcurrency c \<and> RestoreConcurrency c \<le> 64" using accepted_settings by blast
qed (simp add: UserLikeLifecycleSettings_def and_then_def parseBoolSetting_def parseDurationSetting_def
    parseBoundedIntSetting_def time_units)

lemma parse_duration_examples:
  "ParseDuration ''1h30m'' = Some (90 * minute)" "ParseDuration ''1.5s'' = Some (1500 * millisecond)"
  "ParseDuration ''-0'' = Some 0" "ParseDuration ''10'' = None" "ParseDuration ''.h'' = None"
  by code_simp+

theorem lifecycle_settings_safe_witness:
  "\<exists>c. UserLikeLifecycleSettings (\<lambda>_. None) = Inr c \<and> SetTTL c = 72 * hour \<and>
     RestoreRequestTimeout c + second < RestoreLockTTL c \<and> 0 < SetTTL c div millisecond"
  using lifecycle_settings_safe [of "\<lambda>_. None"] by fastforce

end
