(* ===== verification/LikeRestore.thy ===== *)
theory LikeRestore
  imports LikeUser LikeConfig Eventing
begin

text \<open>
  The restore of a cold user's relations (\<open>likes/user_lifecycle.go\<close>, and the calls of
  \<open>likes/user_lifecycle_store.go\<close> it makes). Reads come from a repeatable-read transaction, so
  the rows are one list; every Redis call may fail, and other clients act before every call.
\<close>

section \<open>Surroundings\<close>

text \<open>
  The calls of one request are numbered. Before call \<open>i\<close> other clients act (\<open>ro_other\<close>), the
  call meets the failure \<open>ro_fault\<close> at the server's time \<open>ro_time\<close>, and \<open>ro_ctx\<close> is the
  state of the request's context. \<open>ro_members\<close> is the order in which \<open>SMEMBERS\<close> lists a set,
  \<open>ro_ticks\<close> how often the waiting loop wakes before the context ends.
\<close>

record restore_env =
  ro_other :: "nat \<Rightarrow> lstore \<Rightarrow> lstore"
  ro_fault :: "nat \<Rightarrow> fault"
  ro_time :: "nat \<Rightarrow> server_time"
  ro_ctx :: "nat \<Rightarrow> net_error option"
  ro_members :: "string fset \<Rightarrow> string list"
  ro_ticks :: nat

text \<open>
  The database: whether the user exists, the rows of the user's liked posts that are not deleted
  (post id and instant in microseconds, by id), and the failures of the user query, of page
  \<open>k\<close> and of the end of the transaction.
\<close>

record restore_db =
  rd_user :: bool
  rd_rows :: "(nat \<times> int) list"
  rd_user_fault :: "(net_error + string) option"
  rd_page_fault :: "nat \<Rightarrow> (net_error + string) option"
  rd_commit_fault :: "(net_error + string) option"

fun db_err :: "net_error + string \<Rightarrow> go_error" where
  "db_err (Inl e) = NetErr e"
| "db_err (Inr m) = OtherErr m"

definition at_call :: "restore_env \<Rightarrow> nat \<Rightarrow> (lstore \<Rightarrow> lstore \<times> 'a res) \<Rightarrow> lstore \<Rightarrow> lstore \<times> (go_error + 'a)" where
  "at_call env i op s = map_prod id mapped (call (ro_fault env i) op (ro_other env i s))"

section \<open>The store's methods\<close>

record user_like_redis_state =
  ur_status :: user_status
  ur_expires :: "int option"
  ur_ttl :: int

definition decode_user_state :: "user_status \<times> string \<times> int \<Rightarrow> go_error + user_like_redis_state" where
  "decode_user_state reply =
     (case reply of
        (st, expiry, ttl) \<Rightarrow>
          (let state = (\<lambda>x. \<lparr>ur_status = st, ur_expires = x, ur_ttl = wrap64 (ttl * 1000000)\<rparr>)
           in if expiry = [] then Inr (state None)
              else (case parse_int64 expiry of
                      None \<Rightarrow> Inl (Sentinel ErrUserLikeRecoveryUnsafe)
                    | Some ms \<Rightarrow> if ms \<le> 0 then Inl (Sentinel ErrUserLikeRecoveryUnsafe) else Inr (state (Some ms)))))"

definition InspectUserLikeState ::
  "restore_env \<Rightarrow> nat \<Rightarrow> nat \<Rightarrow> lstore \<Rightarrow> lstore \<times> (go_error + user_like_redis_state)" where
  "InspectUserLikeState env i user s =
     (if user = 0 then (s, Inl userNotReadyError)
      else (case at_call env i (\<lambda>s. (s, inspect_user_script (show_nat user) (ro_time env i) s)) s of
              (s', Inl e) \<Rightarrow> (s', Inl e)
            | (s', Inr reply) \<Rightarrow> (s', decode_user_state reply)))"

definition IsUserLikeCold :: "restore_env \<Rightarrow> nat \<Rightarrow> nat \<Rightarrow> lstore \<Rightarrow> lstore \<times> (go_error + bool)" where
  "IsUserLikeCold env i user s =
     (case InspectUserLikeState env i user s of
        (s', Inl e) \<Rightarrow> (s', Inl e)
      | (s', Inr st) \<Rightarrow>
         (s', if ur_status st \<in> {UCold, UBusy} then Inr True
              else if ur_status st = UReady then Inr False
              else Inl (Sentinel ErrUserLikeRecoveryUnsafe)))"

definition beginUserLikeRestore ::
  "restore_env \<Rightarrow> nat \<Rightarrow> nat \<Rightarrow> string \<Rightarrow> int \<Rightarrow> lstore \<Rightarrow> lstore \<times> (go_error + user_status \<times> string)" where
  "beginUserLikeRestore env i user token lock_ttl s =
     at_call env i (begin_restore_script (show_nat user) token (lock_ttl div millisecond) (ro_time env i)) s"

definition createUserLikeRestoreTemp ::
  "restore_env \<Rightarrow> nat \<Rightarrow> nat \<Rightarrow> string \<Rightarrow> string \<Rightarrow> int \<Rightarrow> lstore \<Rightarrow> lstore \<times> (go_error + bool)" where
  "createUserLikeRestoreTemp env i user token expected ttl s =
     at_call env i (create_temp_script (show_nat user) token expected (ttl div millisecond) (ro_time env i)) s"

definition addUserLikeRestoreTempMembers ::
  "restore_env \<Rightarrow> nat \<Rightarrow> nat \<Rightarrow> string \<Rightarrow> (nat \<times> int) list \<Rightarrow> lstore \<Rightarrow> lstore \<times> go_error option" where
  "addUserLikeRestoreTempMembers env i user token rows s =
     (if rows = [] then (s, None)
      else if list_ex (\<lambda>(p, at). p = 0 \<or> at = zero_time) rows then (s, Some (Sentinel ErrUserLikeRecoveryUnsafe))
      else
        (case at_call env i (append_temp_script (show_nat user) token (map (\<lambda>(p, at). (show_nat p, at)) rows)
                               (time_ms (ro_time env i))) s of
           (s', Inl e) \<Rightarrow> (s', Some e)
         | (s', Inr _) \<Rightarrow> (s', None)))"

definition finishUserLikeRestore ::
  "restore_env \<Rightarrow> nat \<Rightarrow> nat \<Rightarrow> string \<Rightarrow> string \<Rightarrow> int \<Rightarrow> user_like_lifecycle_config \<Rightarrow> lstore \<Rightarrow>
   lstore \<times> (go_error + user_status)" where
  "finishUserLikeRestore env i user token expected count c s =
     at_call env i
       (\<lambda>s. finish_restore_script (show_nat user) token expected count (RestoreMaxRelations c) (ArmingEnabled c)
          (SetTTL c div millisecond) (RestoreEnabled c)
          (ro_members env (smembers (s (KUserLikesRestoreTemp (show_nat user) token)))) (ro_time env i) s) s"

text \<open>The release ignores every failure: \<open>DEL\<close> of the temporary keys, then the lock.\<close>

definition releaseUserLikeRestore :: "restore_env \<Rightarrow> nat \<Rightarrow> nat \<Rightarrow> string \<Rightarrow> bool \<Rightarrow> lstore \<Rightarrow> lstore" where
  "releaseUserLikeRestore env i user token has_temp s =
     (let u = show_nat user;
          s1 = (if has_temp
                then fst (at_call env i (\<lambda>s. (at_key (KUserLikesRestoreOrderTemp u token) rdel
                                               (at_key (KUserLikesRestoreTemp u token) rdel s), Inr ())) s)
                else s)
      in fst (at_call env (i + 1) (release_restore_lock_script u token) s1))"

section \<open>Errors of a restore\<close>

text \<open>An error with the stage it was tagged with, if any (\<open>withUserLikeRestoreStage\<close>).\<close>

type_synonym restore_error = "string option \<times> go_error"

definition classifyRestoreFailure :: "restore_error \<Rightarrow> string" where
  "classifyRestoreFailure err =
     (case err of
        (stage, e) \<Rightarrow>
          (if errors_is e ErrUserLikeRecoveryTimeout \<or> net_is e CtxDeadlineExceeded \<or> net_is e CtxCanceled then ''timeout''
           else if errors_is e ErrUserLikeRecoveryBusy then ''lock_busy''
           else if errors_is e ErrUserLikeRecoveryTooLarge then ''too_large''
           else if list_ex (errors_is e)
             [ErrUserLikeRecoveryUnsafe, ErrUserLikeRecoveryLockLost, ErrUserLikeRecoveryIncomplete, ErrUserLikeNotReady,
              ErrLikeRedisType, ErrUserLikeOrderIndexMissing, ErrUserLikeOrderIndexInconsistent] then ''unsafe''
           else (case stage of Some result \<Rightarrow> result | None \<Rightarrow> ''failed_pg'')))"

definition sanitizeUserLikeRestoreError :: "restore_error \<Rightarrow> string \<Rightarrow> go_error" where
  "sanitizeUserLikeRestoreError err result =
     (if result = ''failed_pg'' \<or> result = ''failed_redis'' then Sentinel ErrUserLikeRecoveryUnavailable else snd err)"

definition recordRestoreFailure :: "restore_error \<Rightarrow> string \<Rightarrow> go_error" where
  "recordRestoreFailure err result = sanitizeUserLikeRestoreError err result"

definition redis_failure :: "go_error \<Rightarrow> go_error" where
  "redis_failure e = (let err = (Some ''failed_redis'', e) in recordRestoreFailure err (classifyRestoreFailure err))"

section \<open>Loading the rows\<close>

text \<open>The checks of the loop over a page: ids ascend from \<open>last\<close>, instants are set.\<close>

fun valid_rows :: "nat \<Rightarrow> (nat \<times> int) list \<Rightarrow> bool" where
  "valid_rows l [] \<longleftrightarrow> True"
| "valid_rows l ((p, at) # rows) \<longleftrightarrow> p \<noteq> 0 \<and> l < p \<and> at \<noteq> zero_time \<and> valid_rows p rows"

definition page :: "restore_db \<Rightarrow> int \<Rightarrow> nat \<Rightarrow> (nat \<times> int) list" where
  "page db limit l = take (nat limit) (filter (\<lambda>(p, _). l < p) (rd_rows db))"

lemma valid_rows_mem: "valid_rows l rows \<Longrightarrow> r \<in> set rows \<Longrightarrow> l < fst r"
  by (induction l rows rule: valid_rows.induct) auto

lemma valid_rows_last: "valid_rows l rows \<Longrightarrow> rows \<noteq> [] \<Longrightarrow> l < fst (List.last rows)"
  by (rule valid_rows_mem [OF _ last_in_set])

lemma page_shrinks:
  assumes "page db n l \<noteq> []" "valid_rows l (page db n l)"
  shows "length (filter (\<lambda>(p, _). fst (List.last (page db n l)) < p) (rd_rows db)) < length (filter (\<lambda>(p, _). l < p) (rd_rows db))"
proof -
  let ?r = "List.last (page db n l)"
  have "?r \<in> set (page db n l)" by (rule last_in_set [OF assms(1)])
  moreover have "set (page db n l) \<subseteq> set (rd_rows db)" unfolding page_def using set_take_subset by fastforce
  ultimately have r: "?r \<in> set (rd_rows db)" "l < fst ?r" using valid_rows_last [OF assms(2,1)] by blast+
  have "length (filter (\<lambda>(p, _). fst ?r < p) (rd_rows db)) = length (filter (\<lambda>(p, _). fst ?r < p) (filter (\<lambda>(p, _). l < p) (rd_rows db)))"
    using r(2) by (auto intro!: arg_cong [where f = length] filter_cong)
  also have "\<dots> < length (filter (\<lambda>(p, _). l < p) (rd_rows db))"
    by (rule length_filter_less [of ?r]) (use r in auto)
  finally show ?thesis .
qed

function load_pages ::
  "restore_env \<Rightarrow> restore_db \<Rightarrow> user_like_lifecycle_config \<Rightarrow> nat \<Rightarrow> string \<Rightarrow> nat \<Rightarrow> nat \<Rightarrow> nat \<Rightarrow> int \<Rightarrow> lstore \<Rightarrow>
   (nat \<times> int \<times> lstore) \<times> restore_error option" where
  "load_pages env db c user token i k l count s =
     (case ro_ctx env i of
        Some e \<Rightarrow> ((i, count, s), Some (None, NetErr e))
      | None \<Rightarrow>
         (case rd_page_fault db k of
            Some e \<Rightarrow> ((i, count, s), Some (Some ''failed_pg'', db_err e))
          | None \<Rightarrow>
             (let rows = page db (RestoreBatchSize c) l
              in if rows = [] then ((i, count, s), None)
                 else if count + int (length rows) > RestoreMaxRelations c
                 then ((i, count, s), Some (None, Sentinel ErrUserLikeRecoveryTooLarge))
                 else if \<not> valid_rows l rows then ((i, count, s), Some (None, Sentinel ErrUserLikeRecoveryUnsafe))
                 else
                   (case addUserLikeRestoreTempMembers env i user token rows s of
                      (s', Some e) \<Rightarrow> ((i + 1, count, s'), Some (Some ''failed_redis'', e))
                    | (s', None) \<Rightarrow>
                       load_pages env db c user token (i + 1) (k + 1) (fst (List.last rows)) (count + int (length rows)) s'))))"
  by pat_completeness auto

termination
  by (relation "measure (\<lambda>(env, db, c, user, token, i, k, l, count, s). length (filter (\<lambda>(p, _). l < p) (rd_rows db)))")
    (auto intro: page_shrinks)

declare load_pages.simps [simp del]

definition finish_load :: "restore_error option \<Rightarrow> restore_error option" where
  "finish_load err =
     (case err of
        None \<Rightarrow> None
      | Some (stage, e) \<Rightarrow>
         (if errors_is e ErrUserLikeRecoveryUnsafe \<or> errors_is e ErrUserLikeRecoveryTooLarge \<or>
             net_is e CtxDeadlineExceeded \<or> net_is e CtxCanceled \<or> stage \<noteq> None then Some (stage, e)
          else Some (Some ''failed_pg'', e)))"

definition loadRelationsIntoTemp ::
  "restore_env \<Rightarrow> restore_db \<Rightarrow> user_like_lifecycle_config \<Rightarrow> nat \<Rightarrow> string \<Rightarrow> nat \<Rightarrow> lstore \<Rightarrow>
   (nat \<times> int \<times> lstore) \<times> restore_error option" where
  "loadRelationsIntoTemp env db c user token i s =
     (case rd_user_fault db of
        Some e \<Rightarrow> ((i, 0, s), finish_load (Some (Some ''failed_pg'', db_err e)))
      | None \<Rightarrow>
         (if \<not> rd_user db then ((i, 0, s), finish_load (Some (None, Sentinel ErrUserLikeRecoveryUnsafe)))
          else
            (case load_pages env db c user token i 0 0 0 s of
               (r, Some err) \<Rightarrow> (r, finish_load (Some err))
             | (r, None) \<Rightarrow> (r, finish_load (map_option (\<lambda>e. (None, db_err e)) (rd_commit_fault db))))))"

section \<open>Restoring\<close>

record restore_state =
  rs_store :: lstore
  rs_inflight :: int

text \<open>The compare-and-swap loop on the counter of running restores takes effect at one instant.\<close>

definition acquireUserLikeRestoreSlot :: "int \<Rightarrow> restore_state \<Rightarrow> restore_state \<times> bool" where
  "acquireUserLikeRestoreSlot maximum st =
     (if rs_inflight st \<ge> maximum then (st, False) else (st\<lparr>rs_inflight := rs_inflight st + 1\<rparr>, True))"

definition releaseUserLikeRestoreSlot :: "restore_state \<Rightarrow> restore_state" where
  "releaseUserLikeRestoreSlot st = st\<lparr>rs_inflight := rs_inflight st - 1\<rparr>"

primrec waitForRestore :: "restore_env \<Rightarrow> nat \<Rightarrow> nat \<Rightarrow> nat \<Rightarrow> lstore \<Rightarrow> lstore \<times> go_error option" where
  "waitForRestore env user i 0 s = (s, Some (WrapErr ''context done'' (Sentinel ErrUserLikeRecoveryTimeout)))"
| "waitForRestore env user i (Suc n) s =
     (case InspectUserLikeState env i user s of
        (s', Inl e) \<Rightarrow> (s', Some (redis_failure e))
      | (s', Inr st) \<Rightarrow>
         (case ur_status st of
            UReady \<Rightarrow> (s', None)
          | UBusy \<Rightarrow> waitForRestore env user (i + 1) n s'
          | UCold \<Rightarrow> (s', Some (Sentinel ErrUserLikeRecoveryBusy))
          | UUnexpectedMissing \<Rightarrow>
             (s', Some (recordRestoreFailure (None, Sentinel ErrUserLikeRecoveryUnsafe) ''unsafe''))
          | _ \<Rightarrow> (s', Some (Sentinel ErrUserLikeRecoveryUnsafe))))"

text \<open>From the temporary keys on, until the deferred release.\<close>

definition install_relations ::
  "restore_env \<Rightarrow> restore_db \<Rightarrow> user_like_lifecycle_config \<Rightarrow> nat \<Rightarrow> string \<Rightarrow> string \<Rightarrow> lstore \<Rightarrow>
   (nat \<times> lstore) \<times> go_error option" where
  "install_relations env db c user token expected s =
     (case loadRelationsIntoTemp env db c user token 3 s of
        ((i, count, s1), Some err) \<Rightarrow>
          ((i, s1), Some (sanitizeUserLikeRestoreError err (classifyRestoreFailure err)))
      | ((i, count, s1), None) \<Rightarrow>
          (case ro_ctx env i of
             Some e \<Rightarrow> ((i, s1), Some (WrapErr ''context done'' (Sentinel ErrUserLikeRecoveryTimeout)))
           | None \<Rightarrow>
              (case finishUserLikeRestore env i user token expected count c s1 of
                 (s2, Inl e) \<Rightarrow> ((i + 1, s2), Some (redis_failure e))
               | (s2, Inr status) \<Rightarrow>
                  ((i + 1, s2), if status = UInstalled \<or> status = UReady then None
                                else Some (Sentinel ErrUserLikeRecoveryUnsafe)))))"

definition restore_locked ::
  "restore_env \<Rightarrow> restore_db \<Rightarrow> user_like_lifecycle_config \<Rightarrow> nat \<Rightarrow> string \<Rightarrow> lstore \<Rightarrow> lstore \<times> go_error option" where
  "restore_locked env db c user token s =
     (case beginUserLikeRestore env 1 user token (RestoreLockTTL c) s of
        (s1, Inl e) \<Rightarrow> (s1, Some (redis_failure e))
      | (s1, Inr (status, expected)) \<Rightarrow>
         (case status of
            UReady \<Rightarrow> (s1, None)
          | UBusy \<Rightarrow> waitForRestore env user 2 (ro_ticks env) s1
          | UAcquired \<Rightarrow>
             (case createUserLikeRestoreTemp env 2 user token expected
                     (max (2 * RestoreLockTTL c) (2 * RestoreRequestTimeout c)) s1 of
                (s2, Inl e) \<Rightarrow> (releaseUserLikeRestore env 3 user token False s2, Some (redis_failure e))
              | (s2, Inr _) \<Rightarrow>
                 (case install_relations env db c user token expected s2 of
                    ((i, s3), r) \<Rightarrow> (releaseUserLikeRestore env i user token True s3, r)))
          | _ \<Rightarrow> (s1, Some (recordRestoreFailure (None, Sentinel ErrUserLikeRecoveryUnsafe) ''unsafe''))))"

definition RecoverIfCold ::
  "restore_env \<Rightarrow> restore_db \<Rightarrow> user_like_lifecycle_config res \<Rightarrow> bool \<Rightarrow> nat \<Rightarrow> string \<Rightarrow> restore_state \<Rightarrow>
   restore_state \<times> go_error option" where
  "RecoverIfCold env db settings initialized user token st =
     (if \<not> initialized \<or> user = 0 then (st, Some (Sentinel ErrUserLikeRecoveryUnsafe))
      else
        (case settings of
           Inl e \<Rightarrow> (st, Some (OtherErr e))
         | Inr c \<Rightarrow>
            (if \<not> RestoreEnabled c then (st, Some (Sentinel ErrUserLikeRecoveryDisabled))
             else
               (case InspectUserLikeState env 0 user (rs_store st) of
                  (s1, Inl e) \<Rightarrow> (st\<lparr>rs_store := s1\<rparr>, Some (redis_failure e))
                | (s1, Inr state) \<Rightarrow>
                   (let st1 = st\<lparr>rs_store := s1\<rparr>
                    in case ur_status state of
                         UReady \<Rightarrow> (st1, None)
                       | UBusy \<Rightarrow> (case waitForRestore env user 1 (ro_ticks env) s1 of
                                    (s2, r) \<Rightarrow> (st1\<lparr>rs_store := s2\<rparr>, r))
                       | UCold \<Rightarrow>
                          (case acquireUserLikeRestoreSlot (RestoreConcurrency c) st1 of
                             (st2, False) \<Rightarrow> (st2, Some (Sentinel ErrUserLikeRecoveryBusy))
                           | (st2, True) \<Rightarrow>
                              (case restore_locked env db c user token (rs_store st2) of
                                 (s3, r) \<Rightarrow> (releaseUserLikeRestoreSlot (st2\<lparr>rs_store := s3\<rparr>), r)))
                       | _ \<Rightarrow> (st1, Some (recordRestoreFailure (None, Sentinel ErrUserLikeRecoveryUnsafe) ''unsafe'')))))))"

section \<open>Whatever happens\<close>

definition restore_env_ok :: "(string \<Rightarrow> bool) \<Rightarrow> int \<Rightarrow> restore_env \<Rightarrow> bool" where
  "restore_env_ok rd cap env \<longleftrightarrow>
     (\<forall>i s. (user_step rd cap)\<^sup>*\<^sup>* s (ro_other env i s)) \<and> (\<forall>A. set (ro_members env A) = fset A)"

text \<open>What a call reports: a server reply it could not map, or an error without one.\<close>

definition reported :: "go_error \<Rightarrow> bool" where
  "reported e \<longleftrightarrow> (\<exists>m. e = RedisErr m) \<or> redis_message e = None"

lemma first_match_mem: "first_match m tab = Some e \<Longrightarrow> e \<in> snd ` set tab"
  by (induction m tab rule: first_match.induct) (auto split: if_splits)

lemma mapScriptMessage_reported: "reported (mapScriptMessage m)"
proof -
  have t: "\<forall>e \<in> snd ` set script_error_table. redis_message e = None"
    by (simp add: script_error_table_def error_defs)
  have "redis_message e = None" if "first_match m script_error_table = Some e" for e
    by (rule bspec [OF t first_match_mem [OF that]])
  then show ?thesis by (simp add: mapScriptMessage_def reported_def split: option.splits)
qed

lemma at_call_error:
  assumes "at_call env i op s = (s', Inl e)"
  shows "reported e"
proof -
  from assms obtain e0 where "e = mapScriptError e0" "(\<exists>m. e0 = RedisErr m) \<or> (\<exists>n. e0 = NetErr n)"
    by (cases "ro_fault env i"; cases "op (ro_other env i s)"; cases "snd (op (ro_other env i s))")
      (auto simp: at_call_def call_def mapped_def raw_def)
  then show ?thesis
    using mapScriptMessage_reported by (elim disjE exE) (simp_all add: mapScriptError_def reported_def)
qed

lemma redis_failure_opaque: "reported e \<Longrightarrow> redis_message (redis_failure e) = None"
  by (auto simp: reported_def redis_failure_def recordRestoreFailure_def sanitizeUserLikeRestoreError_def
      classifyRestoreFailure_def Let_def)

lemma at_call_inv:
  assumes "\<And>s s' r. I s \<Longrightarrow> op s = (s', r) \<Longrightarrow> I s'" "\<And>s. I s \<Longrightarrow> I (ro_other env i s)" "I s"
  shows "I (fst (at_call env i op s))"
proof -
  obtain s1 r where o: "op (ro_other env i s) = (s1, r)" by fastforce
  have "I (ro_other env i s)" "I s1" using assms o by blast+
  with o show ?thesis by (cases "ro_fault env i") (simp_all add: at_call_def call_def)
qed

lemma others_ok: "restore_env_ok rd cap env \<Longrightarrow> 0 \<le> cap \<Longrightarrow> system_ok cap s \<Longrightarrow> system_ok cap (ro_other env i s)"
  using reachable_system_ok by (metis restore_env_ok_def)

lemma call_ok:
  assumes "restore_env_ok rd cap env" "0 \<le> cap" "system_ok cap s"
    "\<And>s s' r. system_ok cap s \<Longrightarrow> op s = (s', r) \<Longrightarrow> system_ok cap s'"
  shows "system_ok cap (fst (at_call env i op s))"
  using assms(4) others_ok [OF assms(1,2)] assms(3) by (rule at_call_inv)

lemma Inspect_ok:
  assumes "restore_env_ok rd cap env" "0 \<le> cap" "system_ok cap s" "InspectUserLikeState env i user s = (s', r)"
  shows "system_ok cap s'" "r = Inl e \<Longrightarrow> reported e"
proof -
  let ?op = "\<lambda>s. (s, inspect_user_script (show_nat user) (ro_time env i) s)"
  obtain s1 r1 where c: "at_call env i ?op s = (s1, r1)" by fastforce
  have "system_ok cap s1" using call_ok [OF assms(1-3), of ?op i] c by simp
  with assms(3,4) c show "system_ok cap s'"
    by (auto simp: InspectUserLikeState_def split: if_splits sum.splits)
  assume "r = Inl e"
  with assms(4) c show "reported e"
    using at_call_error [of env i ?op s s1 e]
    by (auto simp: InspectUserLikeState_def decode_user_state_def error_defs reported_def Let_def split: if_splits sum.splits option.splits)
qed

lemma wait_ok:
  assumes "restore_env_ok rd cap env" "0 \<le> cap" "system_ok cap s" "waitForRestore env user i n s = (s', r)"
  shows "system_ok cap s' \<and> (\<forall>e. r = Some e \<longrightarrow> redis_message e = None)"
  using assms(3,4)
proof (induction n arbitrary: i s)
  case (Suc n)
  obtain s1 r1 where ins: "InspectUserLikeState env i user s = (s1, r1)" by fastforce
  note ok = Inspect_ok [OF assms(1,2) Suc.prems(1) ins]
  show ?case
    using Suc.prems(2) ins ok Suc.IH [OF ok(1), of "i + 1"] redis_failure_opaque
    by (auto simp: recordRestoreFailure_def sanitizeUserLikeRestoreError_def split: sum.splits user_status.splits)
qed auto

lemma del_temp_ok: "system_ok cap s \<Longrightarrow> system_ok cap (at_key (KUserLikesRestoreOrderTemp u token) rdel (at_key (KUserLikesRestoreTemp u token) rdel s))"
  by (rule quiet_system_ok) simp_all

lemma release_ok:
  assumes "restore_env_ok rd cap env" "0 \<le> cap" "system_ok cap s"
  shows "system_ok cap (releaseUserLikeRestore env i user token b s)"
proof -
  let ?u = "show_nat user"
  have "system_ok cap (if b then fst (at_call env i (\<lambda>s. (at_key (KUserLikesRestoreOrderTemp ?u token) rdel
      (at_key (KUserLikesRestoreTemp ?u token) rdel s), Inr ())) s) else s)"
    using assms(3) del_temp_ok by (auto intro!: call_ok [OF assms])
  from call_ok [OF assms(1,2) this, of "release_restore_lock_script ?u token" "i + 1"] restore_steps_quiet(4)
  show ?thesis unfolding releaseUserLikeRestore_def Let_def by blast
qed

lemma add_members_ok:
  assumes "restore_env_ok rd cap env" "0 \<le> cap" "system_ok cap s"
    "addUserLikeRestoreTempMembers env i user token rows s = (s', r)"
  shows "system_ok cap s'" "r = Some e \<Longrightarrow> reported e"
proof -
  let ?op = "append_temp_script (show_nat user) token (map (\<lambda>(p, at). (show_nat p, at)) rows) (time_ms (ro_time env i))"
  obtain s1 r1 where c: "at_call env i ?op s = (s1, r1)" by fastforce
  have "system_ok cap s1" using call_ok [OF assms(1-3), of ?op i] restore_steps_quiet(3) c by (metis fst_conv)
  with assms(3,4) c show "system_ok cap s'"
    by (auto simp: addUserLikeRestoreTempMembers_def split: if_splits sum.splits)
  show "reported e" if "r = Some e"
    using that assms(4) c at_call_error [of env i ?op s s1 e]
    by (auto simp: addUserLikeRestoreTempMembers_def reported_def split: if_splits sum.splits)
qed

text \<open>An error of the load is one that the classification can hide or that carries no reply.\<close>

definition stage_ok :: "restore_error \<Rightarrow> bool" where
  "stage_ok err \<longleftrightarrow> redis_message (snd err) = None \<or> (reported (snd err) \<and> (\<exists>r. fst err = Some r \<and> r \<in> {''failed_pg'', ''failed_redis''}))"

lemma db_err_opaque [simp]: "redis_message (db_err e) = None"
  by (cases e) simp_all

lemma sanitize_opaque:
  "stage_ok err \<Longrightarrow> redis_message (sanitizeUserLikeRestoreError err (classifyRestoreFailure err)) = None"
  by (cases err) (auto simp: stage_ok_def reported_def sanitizeUserLikeRestoreError_def classifyRestoreFailure_def)

lemma load_pages_ok:
  assumes "restore_env_ok rd cap env" "0 \<le> cap" "system_ok cap s"
    "load_pages env db c user token i k l count s = ((j, n, s'), r)"
  shows "system_ok cap s' \<and> (\<forall>err. r = Some err \<longrightarrow> stage_ok err)"
  using assms
proof (induction env db c user token i k l count s rule: load_pages.induct)
  case (1 env db c user token i k l count s)
  let ?rows = "page db (RestoreBatchSize c) l"
  obtain s1 r1 where a: "addUserLikeRestoreTempMembers env i user token ?rows s = (s1, r1)" by fastforce
  note ok = add_members_ok [OF "1.prems"(1-3) a]
  show ?case
    using "1.prems"(3,4) a ok "1.IH" [OF _ _ refl _ _ _ a [symmetric] _ "1.prems"(1,2) ok(1)]
    by (subst (asm) load_pages.simps) (auto simp: Let_def stage_ok_def split: option.splits if_splits)
qed

lemma load_ok:
  assumes "restore_env_ok rd cap env" "0 \<le> cap" "system_ok cap s"
    "loadRelationsIntoTemp env db c user token i s = ((j, n, s'), r)"
  shows "system_ok cap s'" "r = Some err \<Longrightarrow> stage_ok err"
proof -
  obtain p r1 where l: "load_pages env db c user token i 0 0 0 s = (p, r1)" by fastforce
  obtain j1 n1 s1 where p: "p = (j1, n1, s1)" by (cases p)
  note ok = load_pages_ok [OF assms(1-3) l [unfolded p]]
  have fin: "finish_load (Some x) = Some y \<Longrightarrow> stage_ok x \<Longrightarrow> stage_ok y" for x y
    by (cases x) (auto simp: finish_load_def stage_ok_def reported_def split: if_splits)
  show "system_ok cap s'"
    using assms(3,4) l p ok by (auto simp: loadRelationsIntoTemp_def split: option.splits if_splits)
  assume "r = Some err"
  with assms(4) l p ok fin show "stage_ok err"
    by (auto simp: loadRelationsIntoTemp_def map_option_case finish_load_def stage_ok_def split: option.splits if_splits)
qed

definition config_ok :: "int \<Rightarrow> user_like_lifecycle_config \<Rightarrow> bool" where
  "config_ok cap c \<longleftrightarrow> 0 < SetTTL c div millisecond \<and> RestoreMaxRelations c \<le> cap"

lemma finish_ok:
  assumes "restore_env_ok rd cap env" "0 \<le> cap" "system_ok cap s" "config_ok cap c"
    "finishUserLikeRestore env i user token expected count c s = (s', r)"
  shows "system_ok cap s'" "r = Inl e \<Longrightarrow> reported e"
proof -
  let ?op = "\<lambda>s. finish_restore_script (show_nat user) token expected count (RestoreMaxRelations c) (ArmingEnabled c)
      (SetTTL c div millisecond) (RestoreEnabled c)
      (ro_members env (smembers (s (KUserLikesRestoreTemp (show_nat user) token)))) (ro_time env i) s"
  have mem: "set (ro_members env A) = fset A" for A using assms(1) by (simp add: restore_env_ok_def)
  have "system_ok cap (fst (at_call env i ?op s))"
    by (rule call_ok [OF assms(1-3)], rule finish_system_ok) (use assms(4) mem in \<open>auto simp: config_ok_def\<close>)
  with assms(5) show "system_ok cap s'" by (simp add: finishUserLikeRestore_def)
  show "reported e" if "r = Inl e"
    using that assms(5) at_call_error [of env i ?op s s' e] by (simp add: finishUserLikeRestore_def)
qed

lemma install_ok:
  assumes "restore_env_ok rd cap env" "0 \<le> cap" "system_ok cap s" "config_ok cap c"
    "install_relations env db c user token expected s = ((i, s'), r)"
  shows "system_ok cap s' \<and> (\<forall>e. r = Some e \<longrightarrow> redis_message e = None)"
proof -
  obtain j n s1 r1 where l: "loadRelationsIntoTemp env db c user token 3 s = ((j, n, s1), r1)" by (metis prod.collapse)
  note lo = load_ok [OF assms(1-3) l]
  obtain s2 r2 where f: "finishUserLikeRestore env j user token expected n c s1 = (s2, r2)" by fastforce
  note fo = finish_ok [OF assms(1,2) lo(1) assms(4) f]
  show ?thesis
    using assms(5) l f lo fo sanitize_opaque redis_failure_opaque
    by (auto simp: install_relations_def split: option.splits sum.splits if_splits)
qed

lemma locked_ok:
  assumes "restore_env_ok rd cap env" "0 \<le> cap" "system_ok cap s" "config_ok cap c"
    "restore_locked env db c user token s = (s', r)"
  shows "system_ok cap s' \<and> (\<forall>e. r = Some e \<longrightarrow> redis_message e = None)"
proof -
  let ?b = "begin_restore_script (show_nat user) token (RestoreLockTTL c div millisecond) (ro_time env 1)"
  obtain s1 r1 where b: "at_call env 1 ?b s = (s1, r1)" by fastforce
  have o1: "system_ok cap s1" using call_ok [OF assms(1-3), of ?b 1] restore_steps_quiet(1) b by (metis fst_conv)
  show ?thesis
  proof (cases r1)
    case (Inl e)
    with b at_call_error [of env 1 ?b s s1 e] redis_failure_opaque o1 assms(5) show ?thesis
      by (auto simp: restore_locked_def beginUserLikeRestore_def)
  next
    case (Inr x)
    obtain status expected where x: "x = (status, expected)" by fastforce
    let ?t = "max (2 * RestoreLockTTL c) (2 * RestoreRequestTimeout c) div millisecond"
    let ?c = "create_temp_script (show_nat user) token expected ?t (ro_time env 2)"
    obtain s2 r2 where cr: "at_call env 2 ?c s1 = (s2, r2)" by fastforce
    have o2: "system_ok cap s2" using call_ok [OF assms(1,2) o1, of ?c 2] restore_steps_quiet(2) cr by (metis fst_conv)
    obtain s3 i r3 where ins: "install_relations env db c user token expected s2 = ((i, s3), r3)" by (metis prod.collapse)
    note o3 = install_ok [OF assms(1,2) o2 assms(4) ins]
    obtain s4 r4 where w: "waitForRestore env user 2 (ro_ticks env) s1 = (s4, r4)" by fastforce
    note o4 = wait_ok [OF assms(1,2) o1 w]
    have rep: "r2 = Inl e \<Longrightarrow> redis_message (redis_failure e) = None" for e
      using cr at_call_error [of env 2 ?c s1 s2 e] redis_failure_opaque by simp
    have rel: "system_ok cap z \<Longrightarrow> system_ok cap (releaseUserLikeRestore env k user token b z)" for k b z
      by (rule release_ok [OF assms(1,2)])
    show ?thesis
      using assms(5) b Inr x cr ins w o1 o2 o3 o4 rep rel
      by (cases status; cases r2)
        (auto simp: restore_locked_def beginUserLikeRestore_def createUserLikeRestoreTemp_def recordRestoreFailure_def
          sanitizeUserLikeRestoreError_def)
  qed
qed

text \<open>
  C16. Whatever fails during the recovery of a user and whatever other clients do meanwhile, the
  recovery keeps every invariant of the relations of all users (set, index, cap, ledger), gives
  its restore slot back on every path, and never hands the text of a Redis reply to its
  caller: an error is a readiness, recovery or context error.
\<close>

theorem recover_keeps_invariants:
  assumes "restore_env_ok rd cap env" "10000 \<le> cap" "system_ok cap (rs_store st)"
    and "RecoverIfCold env db (UserLikeLifecycleSettings e) initialized user token st = (st', r)"
  shows "system_ok cap (rs_store st') \<and> rs_inflight st' = rs_inflight st \<and> (\<forall>err. r = Some err \<longrightarrow> redis_message err = None)"
proof (cases "UserLikeLifecycleSettings e")
  case (Inl m)
  with assms show ?thesis by (auto simp: RecoverIfCold_def split: if_splits)
next
  case (Inr c)
  have cfg: "config_ok cap c" using accepted_settings [OF Inr] assms(2) by (simp add: config_ok_def)
  have cap: "0 \<le> cap" using assms(2) by simp
  obtain s1 r1 where ins: "InspectUserLikeState env 0 user (rs_store st) = (s1, r1)" by fastforce
  note o1 = Inspect_ok [OF assms(1) cap assms(3) ins]
  obtain s2 r2 where w: "waitForRestore env user 1 (ro_ticks env) s1 = (s2, r2)" by fastforce
  note o2 = wait_ok [OF assms(1) cap o1(1) w]
  obtain s3 r3 where l: "restore_locked env db c user token s1 = (s3, r3)" by fastforce
  note o3 = locked_ok [OF assms(1) cap o1(1) cfg l]
  show ?thesis
  proof (cases "\<not> initialized \<or> user = 0 \<or> \<not> RestoreEnabled c")
    case True
    with Inr assms(3,4) show ?thesis by (auto simp: RecoverIfCold_def split: if_splits)
  next
    case False
    show ?thesis
    proof (cases r1)
      case (Inl er)
      with False Inr ins assms(4) o1 redis_failure_opaque show ?thesis by (auto simp: RecoverIfCold_def)
    next
      case r1: (Inr state)
      show ?thesis
        using assms(4) Inr False ins r1 w l o1 o2 o3
        by (cases "ur_status state"; cases "rs_inflight st \<ge> RestoreConcurrency c")
          (auto simp: RecoverIfCold_def acquireUserLikeRestoreSlot_def releaseUserLikeRestoreSlot_def Let_def
            recordRestoreFailure_def sanitizeUserLikeRestoreError_def)
    qed
  qed
qed

end
