(* ===== verification/LikeRecovery.thy ===== *)
theory LikeRecovery
  imports LikeRestore
begin

text \<open>
  Recovery of a cold user when nothing fails: \<open>RecoverIfCold\<close> pages through the rows of the
  database, collects them in the temporary keys and installs exactly them.
\<close>

section \<open>Collecting the rows\<close>

abbreviation ids :: "(nat \<times> int) list \<Rightarrow> (string \<times> int) list" where
  "ids rows \<equiv> map (\<lambda>(p, at). (show_nat p, at)) rows"

text \<open>The temporary keys hold the relations \<open>rels\<close>, every other key is as in \<open>s0\<close>.\<close>

definition collected :: "string \<Rightarrow> string \<Rightarrow> int \<Rightarrow> lstore \<Rightarrow> (string \<times> int) list \<Rightarrow> lstore \<Rightarrow> bool" where
  "collected u token exp s0 rels s \<longleftrightarrow>
     (\<exists>m. s (KUserLikesRestoreTemp u token) = Some (RSet m, Some exp) \<and> fset m = insert ''0'' (fst ` set rels)) \<and>
     type_ok TZset (s (KUserLikesRestoreOrderTemp u token)) \<and>
     (\<forall>x. zscore (s (KUserLikesRestoreOrderTemp u token)) x = map_of rels x) \<and>
     (s (KUserLikesRestoreOrderTemp u token) \<noteq> None \<longleftrightarrow> rels \<noteq> []) \<and>
     (\<forall>k. k \<noteq> KUserLikesRestoreTemp u token \<longrightarrow> k \<noteq> KUserLikesRestoreOrderTemp u token \<longrightarrow> s k = s0 k)"

lemma append_all_collected:
  assumes "collected u token exp s0 pre s" "distinct (map fst (pre @ rels))"
  shows "collected u token exp s0 (pre @ rels) (append_all u token rels s)"
  using assms
proof (induction rels arbitrary: pre s)
  case (Cons r rels)
  obtain p sc where r: "r = (p, sc)" by fastforce
  let ?s = "at_key (KUserLikesRestoreOrderTemp u token) (zadd sc p) (at_key (KUserLikesRestoreTemp u token) (sadd p) s)"
  from Cons.prems(1) obtain m where m: "s (KUserLikesRestoreTemp u token) = Some (RSet m, Some exp)"
    "fset m = insert ''0'' (fst ` set pre)" by (auto simp: collected_def)
  have ty: "type_ok TZset (s (KUserLikesRestoreOrderTemp u token))" using Cons.prems(1) by (simp add: collected_def)
  have new: "p \<notin> fst ` set pre" using Cons.prems(2) r by auto
  have "map_of pre p = None" using new by (simp add: map_of_eq_None_iff)
  then have z: "map_of (pre @ [(p, sc)]) x = (if x = p then Some sc else map_of pre x)" for x
    by (cases "x = p") (auto simp: map_add_def split: option.splits)
  have ne: "zadd sc p e \<noteq> None" for e by (cases "(sc, p, e)" rule: zadd.cases) auto
  have "collected u token exp s0 (pre @ [(p, sc)]) ?s"
    using Cons.prems(1) m ty z ne by (auto simp: collected_def zmap_zadd type_ok_zadd)
  from Cons.IH [OF this] Cons.prems(2) r show ?case by simp
qed simp

lemma append_temp_collected:
  assumes c: "collected u token exp s0 pre s" and d: "distinct (map fst (pre @ rels))" and now: "now < exp"
    and ok: "\<forall>(p, sc) \<in> set rels. \<not> bad_id p \<and> 0 < sc"
  shows "\<exists>s'. append_temp_script u token rels now s = (s', Inr (length rels)) \<and> collected u token exp s0 (pre @ rels) s'"
proof -
  let ?s = "append_all u token rels s"
  note a = append_all_collected [OF c d]
  have ttl: "now < now + pttl now (s (KUserLikesRestoreTemp u token))" and "pttl now (s (KUserLikesRestoreTemp u token)) > 0"
    using c now by (auto simp: collected_def pttl_def)
  have none: "first_error
           ([(rtype_of (s (KUserLikesRestoreTemp u token)) \<noteq> TSet \<or> ''0'' |\<notin>| smembers (s (KUserLikesRestoreTemp u token)),
                ''LIKE_USER_RESTORE_INCOMPLETE''),
             (pttl now (s (KUserLikesRestoreTemp u token)) \<le> 0, ''LIKE_USER_RESTORE_INCOMPLETE''),
             (\<not> type_ok TZset (s (KUserLikesRestoreOrderTemp u token)), ''LIKE_USER_ORDER_TYPE'')] @
            map (\<lambda>(p, score). (bad_id p \<or> score \<le> 0, ''LIKE_USER_RESTORE_INCOMPLETE'')) rels) = None"
    unfolding first_error_None_iff using c ok ttl by (auto simp: collected_def)
  let ?s' = "at_key (KUserLikesRestoreOrderTemp u token) (pexpire now (pttl now (s (KUserLikesRestoreTemp u token)))) ?s"
  have "append_temp_script u token rels now s = (?s', Inr (length rels))"
    unfolding append_temp_script_def Let_def none by simp
  moreover have "collected u token exp s0 (pre @ rels) ?s'"
    using a pexpireat_reads [OF ttl] by (simp add: collected_def pexpire_def)
  ultimately show ?thesis by blast
qed

section \<open>Paging\<close>

lemma valid_rows_append: "valid_rows l (a @ b) \<longleftrightarrow> valid_rows l a \<and> valid_rows (if a = [] then l else fst (List.last a)) b"
  by (induction l a rule: valid_rows.induct) auto

lemma valid_rows_distinct: "valid_rows l rows \<Longrightarrow> distinct (map fst rows)"
  by (induction l rows rule: valid_rows.induct) (auto dest: valid_rows_mem)

lemma valid_rows_zero: "valid_rows l rows \<Longrightarrow> (p, at) \<in> set rows \<Longrightarrow> p \<noteq> 0 \<and> at \<noteq> zero_time"
  by (induction l rows rule: valid_rows.induct) auto

lemma filter_page:
  assumes "valid_rows l rest" "a = take n rest" "a \<noteq> []"
  shows "filter (\<lambda>(p, _). fst (List.last a) < p) rest = drop n rest"
proof -
  have v: "valid_rows l a" "valid_rows (fst (List.last a)) (drop n rest)"
    using assms valid_rows_append [of l "take n rest" "drop n rest"] by (auto split: if_splits)
  have le: "fst r \<le> fst (List.last a)" if "r \<in> set a" for r
    using v(1) that
  proof (induction l a rule: valid_rows.induct)
    case (2 l p at rows)
    then show ?case using valid_rows_last [of p rows] by (cases "rows = []") auto
  qed simp
  have "filter (\<lambda>(p, _). fst (List.last a) < p) a = []"
    using le by (fastforce simp: filter_empty_conv)
  moreover have "filter (\<lambda>(p, _). fst (List.last a) < p) (drop n rest) = drop n rest"
    using valid_rows_mem [OF v(2)] by (auto simp: filter_id_conv)
  moreover have "filter P rest = filter P a @ filter P (drop n rest)" for P
    using assms(2) by (metis append_take_drop_id filter_append)
  ultimately show ?thesis by simp
qed

text \<open>No failures, nobody else, and a clock that stays below \<open>deadline\<close>.\<close>

definition quiet_restore :: "int \<Rightarrow> restore_env \<Rightarrow> restore_db \<Rightarrow> bool" where
  "quiet_restore deadline env db \<longleftrightarrow>
     (\<forall>i s. ro_other env i s = s) \<and> (\<forall>i. ro_fault env i = Healthy \<and> ro_ctx env i = None) \<and>
     (\<forall>i. time_ms (ro_time env i) < deadline) \<and> (\<forall>A. set (ro_members env A) = fset A) \<and>
     rd_user db \<and> rd_user_fault db = None \<and> (\<forall>k. rd_page_fault db k = None) \<and> rd_commit_fault db = None"

lemma quiet_call: "quiet_restore d env db \<Longrightarrow> at_call env i op s = map_prod id (\<lambda>r. mapped (raw r)) (op s)"
  by (cases "op s") (simp add: quiet_restore_def at_call_def call_def)

lemma mapped_Inr [simp]: "mapped (raw (Inr a)) = Inr a"
  by (simp add: mapped_def raw_def)

lemma quiet_pages:
  assumes "quiet_restore exp env db" "collected u token exp s0 (ids pre) s" "u = show_nat user"
    and "rd_rows db = pre @ rest" "valid_rows l rest" "filter (\<lambda>(p, _). l < p) (rd_rows db) = rest"
    and "distinct (map fst (rd_rows db))" "\<forall>(p, at) \<in> set (rd_rows db). 0 < at"
    and "count + int (length rest) \<le> RestoreMaxRelations c" "1 \<le> RestoreBatchSize c"
  shows "\<exists>j s'. load_pages env db c user token i k l count s = ((j, count + int (length rest), s'), None) \<and>
    collected u token exp s0 (ids (rd_rows db)) s'"
  using assms
proof (induction env db c user token i k l count s arbitrary: pre rest rule: load_pages.induct)
  case (1 env db c user token i k l count s)
  let ?n = "nat (RestoreBatchSize c)" and ?a = "page db (RestoreBatchSize c) l"
  note q = "1.prems"(1)
  have ctx: "ro_ctx env i = None" "rd_page_fault db k = None" using q by (simp_all add: quiet_restore_def)
  have a: "?a = take ?n rest" by (simp add: page_def "1.prems"(6))
  show ?case
  proof (cases "rest = []")
    case True
    with "1.prems" ctx a show ?thesis by (subst load_pages.simps) simp
  next
    case False
    have ne: "?a \<noteq> []" using False "1.prems"(10) by (simp add: a)
    have va: "valid_rows l ?a"
      using "1.prems"(5) valid_rows_append [of l "take ?n rest" "drop ?n rest"] by (simp add: a)
    have vd: "valid_rows (fst (List.last ?a)) (drop ?n rest)"
      using "1.prems"(5) ne valid_rows_append [of l "take ?n rest" "drop ?n rest"] by (simp add: a)
    have small: "\<not> count + int (length ?a) > RestoreMaxRelations c" using "1.prems"(9) by (simp add: a)
    have rows: "rd_rows db = (pre @ ?a) @ drop ?n rest" using "1.prems"(4) by (simp add: a)
    have inj: "map fst (ids xs) = map show_nat (map fst xs)" for xs :: "(nat \<times> int) list" by (simp add: case_prod_beta)
    have "distinct (map fst (pre @ ?a))" using "1.prems"(7) unfolding rows by (simp add: Int_Un_distrib)
    then have "distinct (map show_nat (map fst (pre @ ?a)))" unfolding distinct_map [of show_nat] by (simp add: inj_on_def)
    then have dis: "distinct (map fst (ids pre @ ids ?a))" unfolding map_append inj .
    have pos: "\<forall>(p, sc) \<in> set (ids ?a). \<not> bad_id p \<and> 0 < sc"
      using "1.prems"(8) valid_rows_zero [OF va] unfolding rows by (fastforce simp: bad_id_def)
    have now: "time_ms (ro_time env i) < exp" using q by (simp add: quiet_restore_def)
    from append_temp_collected [OF "1.prems"(2) dis now pos] obtain s' where
      s': "append_temp_script u token (ids ?a) (time_ms (ro_time env i)) s = (s', Inr (length (ids ?a)))"
      "collected u token exp s0 (ids pre @ ids ?a) s'" by blast
    have nz: "\<not> list_ex (\<lambda>(p, at). p = 0 \<or> at = zero_time) ?a"
      using valid_rows_zero [OF va] by (auto simp: list_ex_iff)
    have add: "addUserLikeRestoreTempMembers env i user token ?a s = (s', None)"
      using ne nz s'(1) "1.prems"(3) by (simp add: addUserLikeRestoreTempMembers_def quiet_call [OF q])
    have lp: "l < fst (List.last ?a)" by (rule valid_rows_last [OF va ne])
    have "filter (\<lambda>(p, _). fst (List.last ?a) < p) (rd_rows db) =
        filter (\<lambda>(p, _). fst (List.last ?a) < p) (filter (\<lambda>(p, _). l < p) (rd_rows db))"
      using lp by (auto intro!: filter_cong)
    also have "\<dots> = drop ?n rest"
      unfolding "1.prems"(6) by (rule filter_page [OF "1.prems"(5) a ne])
    finally have fil: "filter (\<lambda>(p, _). fst (List.last ?a) < p) (rd_rows db) = drop ?n rest" .
    have cnt: "count + int (length ?a) + int (length (drop ?n rest)) = count + int (length rest)" by (simp add: a)
    have "\<exists>j s'a. load_pages env db c user token (i + 1) (k + 1) (fst (List.last ?a)) (count + int (length ?a)) s' =
        ((j, count + int (length ?a) + int (length (drop ?n rest)), s'a), None) \<and> collected u token exp s0 (ids (rd_rows db)) s'a"
      by (rule "1.IH" [OF ctx refl ne small _ add [symmetric] refl q _ "1.prems"(3) rows vd fil "1.prems"(7,8) _ "1.prems"(10)])
        (use va s'(2) "1.prems"(9) cnt in simp_all)
    then show ?thesis
      unfolding cnt using ctx ne small va add by (subst load_pages.simps) (simp add: Let_def)
  qed
qed

section \<open>Installing them\<close>

lemma collected_cards:
  assumes c: "collected u token exp s0 rels s" and d: "distinct (map fst rels)" and z: "''0'' \<notin> fst ` set rels"
  shows "scard (s (KUserLikesRestoreTemp u token)) = int (length rels) + 1"
    "zcard (s (KUserLikesRestoreOrderTemp u token)) = int (length rels)"
    "relations (s (KUserLikesRestoreTemp u token)) = fset_of_list (map fst rels)"
proof -
  from c obtain m where m: "s (KUserLikesRestoreTemp u token) = Some (RSet m, Some exp)"
    "fset m = insert ''0'' (fst ` set rels)" by (auto simp: collected_def)
  have card: "card (fst ` set rels) = length rels" using distinct_card [OF d] by simp
  with m z show "scard (s (KUserLikesRestoreTemp u token)) = int (length rels) + 1"
    by (simp add: fcard.rep_eq)
  have "x |\<in>| zdom (s (KUserLikesRestoreOrderTemp u token)) \<longleftrightarrow> x \<in> fst ` set rels" for x
  proof -
    have "zscore (s (KUserLikesRestoreOrderTemp u token)) x = map_of rels x" using c by (simp add: collected_def)
    then show ?thesis using map_of_eq_None_iff [of rels x] by (metis fmdom_notD fmdom_notI)
  qed
  then have "fset (zdom (s (KUserLikesRestoreOrderTemp u token))) = fst ` set rels" by blast
  with card show "zcard (s (KUserLikesRestoreOrderTemp u token)) = int (length rels)"
    by (simp add: fcard.rep_eq)
  have "fset (relations (s (KUserLikesRestoreTemp u token))) = fset (fset_of_list (map fst rels))"
    using m z by (auto simp: relations_def fset_of_list.rep_eq)
  then show "relations (s (KUserLikesRestoreTemp u token)) = fset_of_list (map fst rels)"
    by (simp only: fset_inject)
qed

lemma collected_guards:
  assumes c: "collected u token exp s0 rels s" and d: "distinct (map fst rels)" and ok: "\<forall>p \<in> fst ` set rels. digits_only p \<and> p \<noteq> ''0''"
    and posts: "\<forall>p \<in> fst ` set rels. type_ok TString (s0 (KReady p)) \<and> rget (s0 (KReady p)) \<noteq> Some ''deleted''"
    and s0: "s0 (KUserLikesOrder u) = None" "rtype_of (s0 KUserLikesExpiryLedger) = THash"
      "hget (s0 KUserLikesExpiryLedger) u = Some expected" "rget (s0 (KUserLikesRestoreLock u)) = Some token"
    and max: "int (length rels) \<le> max_rel" and mem: "set members = fset (smembers (s (KUserLikesRestoreTemp u token)))"
  shows "finish_guards u token expected (int (length rels)) max_rel True members s = None"
proof -
  have z: "''0'' \<notin> fst ` set rels" using ok by blast
  note k = collected_cards [OF c d z]
  from c obtain m where m: "s (KUserLikesRestoreTemp u token) = Some (RSet m, Some exp)"
    "fset m = insert ''0'' (fst ` set rels)" by (auto simp: collected_def)
  have same: "s k = s0 k" if "k \<noteq> KUserLikesRestoreTemp u token" "k \<noteq> KUserLikesRestoreOrderTemp u token" for k
    using c that by (simp add: collected_def)
  have ordr: "type_ok TZset (s (KUserLikesRestoreOrderTemp u token))"
    "s (KUserLikesRestoreOrderTemp u token) = None \<longleftrightarrow> rels = []"
    "\<And>x. zscore (s (KUserLikesRestoreOrderTemp u token)) x = map_of rels x"
    using c by (auto simp: collected_def)
  have "\<not> b" if "(b, e) \<in> set (member_guards u token members s)" for b e
  proof -
    from that obtain p where p: "p \<in> set members" "p \<noteq> ''0''"
      "b \<in> {\<not> digits_only p, zscore (s (KUserLikesRestoreOrderTemp u token)) p = None, \<not> type_ok TString (s (KReady p)),
         rget (s (KReady p)) = Some ''deleted''}"
      unfolding member_guards_def by (fastforce split: if_splits)
    have "p \<in> fst ` set rels" using p(1,2) mem m by auto
    moreover from this have "map_of rels p \<noteq> None" by (simp add: map_of_eq_None_iff)
    ultimately show ?thesis using p(3) ok posts by (auto simp: same ordr(3))
  qed
  moreover have "''0'' |\<in>| smembers (s (KUserLikesRestoreTemp u token))" "rtype_of (s (KUserLikesRestoreTemp u token)) = TSet"
    using m by auto
  ultimately show ?thesis
    unfolding finish_guards_def Let_def first_error_None_iff using s0 max ordr(1,2) k(1,2) by (auto simp: same)
qed

text \<open>The user's relations are gone and the ledger's instant has passed; nobody restores them yet.\<close>

definition cold_user :: "string \<Rightarrow> string \<Rightarrow> int \<Rightarrow> lstore \<Rightarrow> bool" where
  "cold_user u token x s \<longleftrightarrow>
     s (KUserLikes u) = None \<and> s (KUserLikesOrder u) = None \<and> s (KUserLikesRestoreLock u) = None \<and>
     s (KUserLikesRestoreTemp u token) = None \<and> s (KUserLikesRestoreOrderTemp u token) = None \<and>
     hget (s KUserLikesExpiryLedger) u = Some (show_int x) \<and> 0 < x \<and> x < 2 ^ 63"

lemma ledger_hash: "hget e f = Some v \<Longrightarrow> rtype_of e = THash \<and> type_ok THash e"
  by (cases e rule: hmap.cases) (auto simp: type_ok_def)

lemma show_pos: "0 < x \<Longrightarrow> digits_only (show_int x) \<and> tonum (show_int x) = nat x \<and> show_int x \<noteq> []"
  by (simp add: show_int_def)

lemma cold_guards:
  assumes "cold_user u token x s"
  shows "first_error (user_type_guards u s) = None"
  using assms ledger_hash [of "s KUserLikesExpiryLedger" u "show_int x"]
  by (simp add: cold_user_def user_type_guards_def type_ok_def)

lemma cold_inspect:
  assumes "quiet_restore d env db" "cold_user (show_nat user) token x s" "user \<noteq> 0" "x \<le> time_ms (ro_time env i)"
  shows "\<exists>ttl. InspectUserLikeState env i user s = (s, Inr \<lparr>ur_status = UCold, ur_expires = Some x, ur_ttl = ttl\<rparr>)"
proof -
  have x: "0 < x" "x < 2 ^ 63" using assms(2) by (simp_all add: cold_user_def)
  have "\<not> ledger_unsafe (time_ms (ro_time env i)) (show_int x)"
    using show_pos [OF x(1)] assms(4) x(1) by (simp add: ledger_unsafe_def)
  then have ins: "inspect_user_script (show_nat user) (ro_time env i) s = Inr (UCold, show_int x, - 2)"
    using assms(2) cold_guards [OF assms(2)] by (simp add: inspect_user_script_def Let_def cold_user_def)
  have "parse_int64 (show_int x) = Some x" using x by (simp add: in_int64_def)
  then show ?thesis
    using show_pos [OF x(1)] x(1) assms(3)
    by (simp add: InspectUserLikeState_def quiet_call [OF assms(1)] ins decode_user_state_def Let_def)
qed

lemma cold_begin:
  assumes "quiet_restore d env db" "cold_user (show_nat user) token x s" "x \<le> time_ms (ro_time env i)"
  shows "beginUserLikeRestore env i user token ttl s =
    (at_key (KUserLikesRestoreLock (show_nat user)) (rset_nx_px (time_ms (ro_time env i)) token (ttl div millisecond)) s,
     Inr (UAcquired, show_int x))"
proof -
  have x: "0 < x" using assms(2) by (simp add: cold_user_def)
  have "\<not> ledger_unsafe (time_ms (ro_time env i)) (show_int x)"
    using show_pos [OF x] assms(3) x by (simp add: ledger_unsafe_def)
  then show ?thesis
    using assms(2) cold_guards [OF assms(2)]
    by (simp add: beginUserLikeRestore_def quiet_call [OF assms(1)] begin_restore_script_def Let_def cold_user_def)
qed

lemma cold_create:
  assumes "quiet_restore d env db" "cold_user (show_nat user) token x s" "x \<le> time_ms (ro_time env i)"
    and "s1 = at_key (KUserLikesRestoreLock (show_nat user)) (rset_nx_px now token lock) s" and ttl: "0 < ttl div millisecond"
  shows "\<exists>s2. createUserLikeRestoreTemp env i user token (show_int x) ttl s1 = (s2, Inr True) \<and>
    collected (show_nat user) token (time_ms (ro_time env i) + ttl div millisecond) s1 [] s2"
proof -
  let ?u = "show_nat user" and ?t = "time_ms (ro_time env i)"
  let ?s2 = "at_key (KUserLikesRestoreTemp ?u token) (pexpire ?t (ttl div millisecond))
      (at_key (KUserLikesRestoreTemp ?u token) (sadd ''0'') s1)"
  have x: "0 < x" using assms(2) by (simp add: cold_user_def)
  have "createUserLikeRestoreTemp env i user token (show_int x) ttl s1 = (?s2, Inr True)"
    using assms(2,3) show_pos [OF x] ledger_hash [of "s KUserLikesExpiryLedger" ?u "show_int x"] x
    by (simp add: createUserLikeRestoreTemp_def quiet_call [OF assms(1)] create_temp_script_def assms(4) cold_user_def rset_nx_px_def)
  moreover have "collected ?u token (?t + ttl div millisecond) s1 [] ?s2"
    using assms(2) ttl by (simp add: collected_def cold_user_def assms(4) pexpire_def type_ok_def)
  ultimately show ?thesis by blast
qed

lemma quiet_restore_mono: "quiet_restore d env db \<Longrightarrow> d \<le> d' \<Longrightarrow> quiet_restore d' env db"
  unfolding quiet_restore_def by (meson order_less_le_trans)

lemma quiet_load:
  assumes "quiet_restore exp env db" "collected (show_nat user) token exp s0 [] s" "valid_rows 0 (rd_rows db)"
    and "\<forall>(p, at) \<in> set (rd_rows db). 0 < at" "int (length (rd_rows db)) \<le> RestoreMaxRelations c" "1 \<le> RestoreBatchSize c"
  shows "\<exists>j s'. loadRelationsIntoTemp env db c user token i s = ((j, int (length (rd_rows db)), s'), None) \<and>
    collected (show_nat user) token exp s0 (ids (rd_rows db)) s'"
proof -
  have all: "filter (\<lambda>(p, _). 0 < p) (rd_rows db) = rd_rows db"
    using valid_rows_zero [OF assms(3)] by (auto simp: filter_id_conv)
  obtain j s' where "load_pages env db c user token i 0 0 0 s = ((j, int (length (rd_rows db)), s'), None)"
    "collected (show_nat user) token exp s0 (ids (rd_rows db)) s'"
    using quiet_pages [where pre = "[]" and user = user and token = token and ?s0.0 = s0 and l = 0 and count = 0 and k = 0 and i = i and s = s and c = c,
        OF assms(1) _ refl _ assms(3) all valid_rows_distinct [OF assms(3)] assms(4) _ assms(6)] assms(2,5) by auto
  with assms(1) show ?thesis by (simp add: loadRelationsIntoTemp_def quiet_restore_def finish_load_def)
qed

lemma quiet_finish:
  assumes q: "quiet_restore d env db" and c: "collected u token exp s0 rels s" and d: "distinct (map fst rels)"
    and ok: "\<forall>p \<in> fst ` set rels. digits_only p \<and> p \<noteq> ''0''"
    and posts: "\<forall>p \<in> fst ` set rels. type_ok TString (s0 (KReady p)) \<and> rget (s0 (KReady p)) \<noteq> Some ''deleted''"
    and s0: "s0 (KUserLikes u) = None" "s0 (KUserLikesOrder u) = None"
      "hget (s0 KUserLikesExpiryLedger) u = Some expected" "rget (s0 (KUserLikesRestoreLock u)) = Some token"
    and max: "int (length rels) \<le> RestoreMaxRelations cfg" and en: "RestoreEnabled cfg"
    and ttl: "0 < SetTTL cfg div millisecond" and typed: "ledger_typed s0" and u: "u = show_nat user"
  shows "\<exists>s'. finishUserLikeRestore env i user token expected (int (length rels)) cfg s = (s', Inr UInstalled) \<and>
    relations (s' (KUserLikes u)) = fset_of_list (map fst rels) \<and> s' (KUserLikes u) \<noteq> None \<and>
    (\<forall>p. zscore (s' (KUserLikesOrder u)) p = map_of rels p) \<and> s' (KUserLikesRestoreLock u) = None"
proof -
  let ?mem = "ro_members env (smembers (s (KUserLikesRestoreTemp u token)))"
  let ?run = "finish_restore_script u token expected (int (length rels)) (RestoreMaxRelations cfg) (ArmingEnabled cfg)
      (SetTTL cfg div millisecond) True ?mem (ro_time env i) s"
  have mem: "set ?mem = fset (smembers (s (KUserLikesRestoreTemp u token)))" using q by (simp add: quiet_restore_def)
  have same: "s k = s0 k" if "k \<noteq> KUserLikesRestoreTemp u token" "k \<noteq> KUserLikesRestoreOrderTemp u token" for k
    using c that by (simp add: collected_def)
  note g = collected_guards [OF c d ok posts s0(2) _ s0(3,4) max mem]
  have "rtype_of (s0 KUserLikesExpiryLedger) = THash" using ledger_hash [OF s0(3)] by simp
  note g = g [OF this]
  obtain s' where s': "?run = (s', Inr UInstalled)"
    using g s0(1,2) by (simp add: finish_restore_script_def same Let_def type_ok_def)
  have "ledger_typed s" using typed by (simp add: ledger_typed_def same)
  note f = finish_installed [OF s' ttl mem this]
  have z: "''0'' \<notin> fst ` set rels" using ok by blast
  have "s' (KUserLikes u) \<noteq> None"
    using f(9) collected_cards(1) [OF c d z] by (cases "s' (KUserLikes u)") (auto simp: fcard.rep_eq)
  moreover have "zscore (s' (KUserLikesOrder u)) p = map_of rels p" for p
    using f(7) c by (simp add: collected_def)
  ultimately show ?thesis
    using s' f(6,8) collected_cards(3) [OF c d z] en u
    by (simp add: finishUserLikeRestore_def quiet_call [OF q] del: not_None_eq)
qed

lemma quiet_release:
  assumes "quiet_restore d env db"
  shows "releaseUserLikeRestore env i user token True s (KUserLikes x) = s (KUserLikes x)"
    "releaseUserLikeRestore env i user token True s (KUserLikesOrder x) = s (KUserLikesOrder x)"
    "s (KUserLikesRestoreLock x) = None \<Longrightarrow> releaseUserLikeRestore env i user token True s (KUserLikesRestoreLock x) = None"
  by (simp_all add: releaseUserLikeRestore_def quiet_call [OF assms] release_restore_lock_script_def Let_def at_key_def rdel_def)

text \<open>
  C15. A user whose relations expired gets them back: when the settings allow restores, a slot
  is free, no call fails and the lock outlives the run, the recovery of a cold user ends
  without an error, and the user's relations are then exactly the posts of the database's
  rows, ordered by their instants, with the lock free and every user's invariant kept.
\<close>

theorem healthy_restore_rebuilds:
  fixes user :: nat and s :: lstore
  defines "u \<equiv> show_nat user"
  assumes cfg: "UserLikeLifecycleSettings e = Inr c" "RestoreEnabled c" "rs_inflight st < RestoreConcurrency c"
    and user: "user \<noteq> 0" "cold_user u token x s" "s = rs_store st" "system_ok cap s" "10000 \<le> cap"
    and q: "quiet_restore (time_ms (ro_time env 1) + RestoreLockTTL c div millisecond) env db"
    and clock: "x \<le> time_ms (ro_time env 0)" "\<And>i j. i \<le> j \<Longrightarrow> time_ms (ro_time env i) \<le> time_ms (ro_time env j)"
    and rows: "valid_rows 0 (rd_rows db)" "\<forall>(p, at) \<in> set (rd_rows db). 0 < at" "int (length (rd_rows db)) \<le> RestoreMaxRelations c"
    and posts: "\<forall>p \<in> fst ` set (ids (rd_rows db)). type_ok TString (s (KReady p)) \<and> rget (s (KReady p)) \<noteq> Some ''deleted''"
  shows "\<exists>st'. RecoverIfCold env db (UserLikeLifecycleSettings e) True user token st = (st', None) \<and>
    relations (rs_store st' (KUserLikes u)) = fset_of_list (map fst (ids (rd_rows db))) \<and>
    rs_store st' (KUserLikes u) \<noteq> None \<and>
    (\<forall>p. zscore (rs_store st' (KUserLikesOrder u)) p = map_of (ids (rd_rows db)) p) \<and>
    rs_store st' (KUserLikesRestoreLock u) = None \<and> system_ok cap (rs_store st') \<and> rs_inflight st' = rs_inflight st"
proof -
  note a = accepted_settings [OF cfg(1)]
  let ?ttl = "max (2 * RestoreLockTTL c) (2 * RestoreRequestTimeout c)"
  let ?exp = "time_ms (ro_time env 2) + ?ttl div millisecond"
  have xi: "x \<le> time_ms (ro_time env i)" for i using clock(1) clock(2) [of 0 i] by simp
  obtain t where ins: "InspectUserLikeState env 0 user s = (s, Inr \<lparr>ur_status = UCold, ur_expires = Some x, ur_ttl = t\<rparr>)"
    using cold_inspect [OF q _ user(1) xi] user(2) unfolding u_def by blast
  define s1 where "s1 = at_key (KUserLikesRestoreLock u) (rset_nx_px (time_ms (ro_time env 1)) token (RestoreLockTTL c div millisecond)) s"
  have begin_eq: "beginUserLikeRestore env 1 user token (RestoreLockTTL c) s = (s1, Inr (UAcquired, show_int x))"
    unfolding s1_def u_def by (rule cold_begin [OF q user(2) [unfolded u_def] xi])
  have lock_le: "RestoreLockTTL c div millisecond \<le> ?ttl div millisecond"
    using a by (intro zdiv_mono1) (auto simp: time_units)
  have ttl: "0 < ?ttl div millisecond" using a lock_le by linarith
  obtain s2 where s2: "createUserLikeRestoreTemp env 2 user token (show_int x) ?ttl s1 = (s2, Inr True)"
      "collected u token ?exp s1 [] s2"
    using cold_create [OF q user(2) [unfolded u_def] xi s1_def [unfolded u_def] ttl] unfolding u_def by blast
  have q2: "quiet_restore ?exp env db"
    using quiet_restore_mono [OF q] lock_le clock(2) [of 1 2] by simp
  have batch: "1 \<le> RestoreBatchSize c" using a by blast
  obtain j s3 where load: "loadRelationsIntoTemp env db c user token 3 s2 = ((j, int (length (rd_rows db)), s3), None)"
      "collected u token ?exp s1 (ids (rd_rows db)) s3"
    using quiet_load [OF q2 s2(2) [unfolded u_def] rows batch] unfolding u_def by blast
  have inj: "map fst (ids xs) = map show_nat (map fst xs)" for xs :: "(nat \<times> int) list" by (simp add: case_prod_beta)
  have dis: "distinct (map fst (ids (rd_rows db)))"
    unfolding inj distinct_map [of show_nat] using valid_rows_distinct [OF rows(1)] by (simp add: inj_on_def)
  have ok: "\<forall>p \<in> fst ` set (ids (rd_rows db)). digits_only p \<and> p \<noteq> ''0''"
  proof
    fix p assume "p \<in> fst ` set (ids (rd_rows db))"
    then obtain k at where k: "(k, at) \<in> set (rd_rows db)" "p = show_nat k" by auto
    from valid_rows_zero [OF rows(1) k(1)] show "digits_only p \<and> p \<noteq> ''0''" by (simp add: k(2))
  qed
  have s1: "s1 (KUserLikes u) = None" "s1 (KUserLikesOrder u) = None" "hget (s1 KUserLikesExpiryLedger) u = Some (show_int x)"
      "rget (s1 (KUserLikesRestoreLock u)) = Some token" "ledger_typed s1" "\<And>p. s1 (KReady p) = s (KReady p)"
    using user(2,4) by (simp_all add: s1_def cold_user_def rset_nx_px_def system_ok_def ledger_typed_def)
  have len: "int (length (ids (rd_rows db))) = int (length (rd_rows db))" by simp
  obtain s4 where fin: "finishUserLikeRestore env j user token (show_int x) (int (length (rd_rows db))) c s3 = (s4, Inr UInstalled)"
      "relations (s4 (KUserLikes u)) = fset_of_list (map fst (ids (rd_rows db)))" "s4 (KUserLikes u) \<noteq> None"
      "\<forall>p. zscore (s4 (KUserLikesOrder u)) p = map_of (ids (rd_rows db)) p" "s4 (KUserLikesRestoreLock u) = None"
    using quiet_finish [OF q load(2) dis ok _ s1(1-4) _ cfg(2) _ s1(5) u_def [THEN meta_eq_to_obj_eq], of j] posts rows(3) a s1(6) unfolding len by auto
  have ctx: "ro_ctx env j = None" using q by (simp add: quiet_restore_def)
  let ?s5 = "releaseUserLikeRestore env (j + 1) user token True s4"
  have lck: "restore_locked env db c user token s = (?s5, None)"
    using begin_eq s2(1) load(1) fin(1) ctx by (simp add: restore_locked_def install_relations_def)
  have env: "restore_env_ok (\<lambda>_. True) cap env" using q by (simp add: restore_env_ok_def quiet_restore_def)
  have "config_ok cap c" using a user(5) by (auto simp: config_ok_def)
  with locked_ok [OF env _ user(4) _ lck] user(5) have "system_ok cap ?s5" by simp
  moreover have "RecoverIfCold env db (UserLikeLifecycleSettings e) True user token st = (st\<lparr>rs_store := ?s5\<rparr>, None)"
    using cfg user(1) ins lck
    by (simp add: RecoverIfCold_def user(3) acquireUserLikeRestoreSlot_def releaseUserLikeRestoreSlot_def Let_def)
  ultimately show ?thesis using fin quiet_release [OF q] by auto
qed

section \<open>A run\<close>

definition demo_cold :: lstore where
  "demo_cold = (\<lambda>_. None) (KUserLikesExpiryLedger := Some (RHash (fmupd ''1'' ''5000'' fmempty), None))"

definition demo_env :: restore_env where
  "demo_env = \<lparr>ro_other = \<lambda>_ s. s, ro_fault = \<lambda>_. Healthy, ro_time = \<lambda>_. (6, 0), ro_ctx = \<lambda>_. None,
     ro_members = \<lambda>A. sorted_list_of_fset A, ro_ticks = 0\<rparr>"

definition demo_db :: restore_db where
  "demo_db = \<lparr>rd_user = True, rd_rows = [(7, 100), (9, 50)], rd_user_fault = None, rd_page_fault = \<lambda>_. None,
     rd_commit_fault = None\<rparr>"

lemma demo_cold_ok: "system_ok cap demo_cold"
  by (simp add: system_ok_def ledger_typed_def user_ok_def user_inv_def ledger_inv_def demo_cold_def type_ok_def)

lemma demo_settings:
  "\<exists>c. UserLikeLifecycleSettings (\<lambda>_. None) = Inr c \<and> RestoreEnabled c \<and> RestoreConcurrency c = 8 \<and>
     RestoreMaxRelations c = 10000 \<and> RestoreLockTTL c = 30 * second"
  by (simp add: UserLikeLifecycleSettings_def and_then_def parseBoolSetting_def parseDurationSetting_def
    parseBoundedIntSetting_def time_units)

theorem healthy_restore_rebuilds_witness:
  "\<exists>st'. RecoverIfCold demo_env demo_db (UserLikeLifecycleSettings (\<lambda>_. None)) True 1 ''k''
       \<lparr>rs_store = demo_cold, rs_inflight = 0\<rparr> = (st', None) \<and>
     relations (rs_store st' (KUserLikes ''1'')) = fset_of_list [''7'', ''9'']"
proof -
  obtain c where c: "UserLikeLifecycleSettings (\<lambda>_. None) = Inr c" "RestoreEnabled c" "RestoreConcurrency c = 8"
    "RestoreMaxRelations c = 10000" "RestoreLockTTL c = 30 * second" using demo_settings by blast
  let ?st = "\<lparr>rs_store = demo_cold, rs_inflight = 0\<rparr>"
  have n: "show_nat 1 = ''1''" "show_nat 7 = ''7''" "show_nat 9 = ''9''" "show_int 5000 = ''5000''"
    by (simp_all add: show_int_def show_nat.simps digit_char_def)
  have cold: "cold_user (show_nat 1) ''k'' 5000 demo_cold"
    unfolding n by (simp add: cold_user_def demo_cold_def n)
  have z: "zero_time < 0" by (simp add: zero_time_def)
  have rows: "valid_rows 0 (rd_rows demo_db)" using z by (simp add: demo_db_def)
  have quiet: "quiet_restore (time_ms (ro_time demo_env 1) + RestoreLockTTL c div millisecond) demo_env demo_db"
    by (simp add: quiet_restore_def demo_env_def demo_db_def time_ms_def c(5) time_units)
  have posts: "\<forall>p \<in> fst ` set (ids (rd_rows demo_db)). type_ok TString (demo_cold (KReady p)) \<and> rget (demo_cold (KReady p)) \<noteq> Some ''deleted''"
    by (simp add: demo_cold_def type_ok_def)
  have store: "demo_cold = rs_store ?st" "rs_inflight ?st < RestoreConcurrency c" using c(3) by simp_all
  have time: "5000 \<le> time_ms (ro_time demo_env 0)" "\<And>i j. i \<le> j \<Longrightarrow> time_ms (ro_time demo_env i) \<le> time_ms (ro_time demo_env j)"
    by (simp_all add: demo_env_def time_ms_def)
  have count: "\<forall>(p, at) \<in> set (rd_rows demo_db). 0 < at" "int (length (rd_rows demo_db)) \<le> RestoreMaxRelations c"
    using c(4) by (simp_all add: demo_db_def)
  have new: "map fst (ids (rd_rows demo_db)) = [''7'', ''9'']" by (simp add: demo_db_def n)
  from healthy_restore_rebuilds [where env = demo_env and db = demo_db and st = ?st and cap = 10000,
      OF c(1,2) store(2) _ cold store(1) demo_cold_ok _ quiet time rows count posts]
  show ?thesis unfolding n new by auto
qed

theorem recover_keeps_invariants_witness:
  "system_ok 10000 (rs_store (fst (RecoverIfCold (demo_env\<lparr>ro_fault := \<lambda>_. LostReply CtxCanceled\<rparr>) demo_db
      (UserLikeLifecycleSettings (\<lambda>_. None)) True 1 ''k'' \<lparr>rs_store = demo_cold, rs_inflight = 0\<rparr>)))"
  using recover_keeps_invariants [of "\<lambda>_. True" 10000 "demo_env\<lparr>ro_fault := \<lambda>_. LostReply CtxCanceled\<rparr>"
      "\<lparr>rs_store = demo_cold, rs_inflight = 0\<rparr>" demo_db "\<lambda>_. None" True 1 "''k''"] demo_cold_ok
  by (auto simp: restore_env_ok_def demo_env_def prod_eq_iff)

end
