(* ===== verification/GoFloat.thy ===== *)
theory GoFloat
  imports Complex_Main Prelude "HOL-Library.Log_Nat" "HOL-Library.Multiset"
begin

text \<open>
  Go's \<open>float64\<close>: binary floating point with 53 significant bits, rounding to the nearest value
  and to even in between, gradual underflow and infinities. A finite value is a rational;
  the two zeros are one value, so that only the sign of a quotient by zero is not Go's. Also
  here: \<open>math.Max\<close>, \<open>math.Round\<close>, \<open>math.Sqrt\<close>, conversions from and to \<open>int\<close>, the
  hours of a duration and the stable sort of the \<open>sort\<close> package.
\<close>

section \<open>Values and rounding\<close>

datatype float64 = NaN | PInf | NInf | Fin rat

definition pow2 :: "int \<Rightarrow> rat" where
  "pow2 e = (if e \<ge> 0 then 2 ^ nat e else 1 / 2 ^ nat (- e))"

definition round_even :: "rat \<Rightarrow> int" where
  "round_even q =
     (let k = \<lfloor>q\<rfloor>; d = q - of_int k
      in if d < 1 / 2 then k else if d > 1 / 2 then k + 1 else if even k then k else k + 1)"

text \<open>The exponent of the last bit of a positive value, at least that of the subnormals.\<close>

definition last_bit :: "rat \<Rightarrow> int" where
  "last_bit q =
     (case quotient_of q of
        (a, b) \<Rightarrow>
          (let e = bitlen a - bitlen b - 53
           in max (- 1074) (if q \<ge> pow2 (e + 53) then e + 1 else e)))"

definition fl :: "rat \<Rightarrow> float64" where
  "fl q =
     (if q = 0 then Fin 0
      else
        (let u = pow2 (last_bit \<bar>q\<bar>); r = of_int (round_even (q / u)) * u
         in if r \<ge> pow2 1024 then PInf else if r \<le> - pow2 1024 then NInf else Fin r))"

section \<open>Comparisons\<close>

fun flt :: "float64 \<Rightarrow> float64 \<Rightarrow> bool" where
  "flt NaN y = False"
| "flt x NaN = False"
| "flt NInf y = (y \<noteq> NInf)"
| "flt x NInf = False"
| "flt PInf y = False"
| "flt x PInf = True"
| "flt (Fin a) (Fin b) = (a < b)"

definition feq :: "float64 \<Rightarrow> float64 \<Rightarrow> bool" where
  "feq x y \<longleftrightarrow> x \<noteq> NaN \<and> x = y"

abbreviation fle :: "float64 \<Rightarrow> float64 \<Rightarrow> bool" where
  "fle x y \<equiv> flt x y \<or> feq x y"

lemma flt_irrefl [simp]: "\<not> flt x x"
  by (cases x) auto

lemma flt_trans: "flt x y \<Longrightarrow> flt y z \<Longrightarrow> flt x z"
  by (cases x; cases y; cases z) auto

lemma flt_asym: "flt x y \<Longrightarrow> \<not> flt y x"
  using flt_trans flt_irrefl by blast

lemma flt_total: "x \<noteq> NaN \<Longrightarrow> y \<noteq> NaN \<Longrightarrow> flt x y \<or> x = y \<or> flt y x"
  by (cases x; cases y) auto

lemma flt_NaN [simp]: "\<not> flt x NaN"
  by (cases x) auto

section \<open>Arithmetic\<close>

fun fneg :: "float64 \<Rightarrow> float64" where
  "fneg NaN = NaN"
| "fneg PInf = NInf"
| "fneg NInf = PInf"
| "fneg (Fin a) = Fin (- a)"

fun fadd :: "float64 \<Rightarrow> float64 \<Rightarrow> float64" where
  "fadd (Fin a) (Fin b) = fl (a + b)"
| "fadd NaN y = NaN"
| "fadd x NaN = NaN"
| "fadd PInf NInf = NaN"
| "fadd NInf PInf = NaN"
| "fadd PInf y = PInf"
| "fadd x PInf = PInf"
| "fadd NInf y = NInf"
| "fadd x NInf = NInf"

abbreviation fsub :: "float64 \<Rightarrow> float64 \<Rightarrow> float64" where
  "fsub x y \<equiv> fadd x (fneg y)"

definition fsign :: "float64 \<Rightarrow> rat" where
  "fsign x = (case x of NaN \<Rightarrow> 0 | PInf \<Rightarrow> 1 | NInf \<Rightarrow> - 1 | Fin a \<Rightarrow> sgn a)"

definition finf :: "rat \<Rightarrow> float64" where
  "finf s = (if s > 0 then PInf else if s < 0 then NInf else NaN)"

definition fmul :: "float64 \<Rightarrow> float64 \<Rightarrow> float64" where
  "fmul x y =
     (case (x, y) of
        (Fin a, Fin b) \<Rightarrow> fl (a * b)
      | (NaN, _) \<Rightarrow> NaN
      | (_, NaN) \<Rightarrow> NaN
      | _ \<Rightarrow> finf (fsign x * fsign y))"

text \<open>A zero divisor counts as the positive zero.\<close>

definition fdiv :: "float64 \<Rightarrow> float64 \<Rightarrow> float64" where
  "fdiv x y =
     (case (x, y) of
        (Fin a, Fin b) \<Rightarrow> if b = 0 then finf (sgn a) else fl (a / b)
      | (NaN, _) \<Rightarrow> NaN
      | (_, NaN) \<Rightarrow> NaN
      | (Fin a, _) \<Rightarrow> Fin 0
      | (_, Fin b) \<Rightarrow> finf (fsign x * (if b < 0 then - 1 else 1))
      | _ \<Rightarrow> NaN)"

definition of_num :: "int \<Rightarrow> float64" where
  "of_num i = fl (of_int i)"

definition fmax :: "float64 \<Rightarrow> float64 \<Rightarrow> float64" where
  "fmax x y = (if x = PInf \<or> y = PInf then PInf else if x = NaN \<or> y = NaN then NaN else if flt x y then y else x)"

definition fmin :: "float64 \<Rightarrow> float64 \<Rightarrow> float64" where
  "fmin x y = (if x = NInf \<or> y = NInf then NInf else if x = NaN \<or> y = NaN then NaN else if flt y x then y else x)"

text \<open>\<open>math.Round\<close> rounds halves away from zero; integers are below \<open>2\<^sup>5\<^sup>3\<close> or already whole.\<close>

fun fround :: "float64 \<Rightarrow> float64" where
  "fround (Fin a) = Fin (if a < 0 then - of_int \<lfloor>- a + 1 / 2\<rfloor> else of_int \<lfloor>a + 1 / 2\<rfloor>)"
| "fround x = x"

text \<open>The conversion to \<open>int\<close> truncates; out of range it gives the smallest integer (amd64).\<close>

fun to_int :: "float64 \<Rightarrow> int" where
  "to_int (Fin a) =
     (let i = (if a < 0 then - \<lfloor>- a\<rfloor> else \<lfloor>a\<rfloor>) in if in_int64 i then i else - (2 ^ 63))"
| "to_int x = - (2 ^ 63)"

text \<open>
  The square root of a positive value: the integer root of the value scaled by a power of
  four, with one sticky bit for what is left, then rounded.
\<close>

function root_loop :: "int \<Rightarrow> int \<Rightarrow> int \<Rightarrow> int" where
  "root_loop n lo hi =
     (if hi \<le> lo + 1 then lo
      else (let mid = (lo + hi) div 2
            in if mid * mid \<le> n then root_loop n mid hi else root_loop n lo mid))"
  by pat_completeness auto
termination
  by (relation "measure (\<lambda>(n, lo, hi). nat (hi - lo))") auto

declare root_loop.simps [simp del]

definition int_root :: "int \<Rightarrow> int" where
  "int_root n = root_loop n 0 (n + 1)"

definition fsqrt :: "float64 \<Rightarrow> float64" where
  "fsqrt x =
     (case x of
        Fin a \<Rightarrow>
          (if a < 0 then NaN
           else if a = 0 then Fin 0
           else
             (let k = max 0 (60 - last_bit a);
                  n = \<lfloor>a * pow2 (2 * k)\<rfloor>; r = int_root n;
                  sticky = (if of_int (r * r) = a * pow2 (2 * k) then 0 else 1 / 2)
              in fl ((of_int r + sticky) / pow2 k)))
      | NInf \<Rightarrow> NaN
      | _ \<Rightarrow> x)"

section \<open>Durations\<close>

text \<open>\<open>Time.Sub\<close> saturates; \<open>Duration.Hours\<close> adds whole hours and the rest.\<close>

definition time_sub :: "int \<Rightarrow> int \<Rightarrow> int" where
  "time_sub a b = max (- (2 ^ 63)) (min (2 ^ 63 - 1) (a - b))"

text \<open>Go's division and remainder truncate.\<close>

definition quot :: "int \<Rightarrow> int \<Rightarrow> int" where
  "quot a b = sgn a * sgn b * (\<bar>a\<bar> div \<bar>b\<bar>)"

definition duration_hours :: "int \<Rightarrow> float64" where
  "duration_hours d =
     (let h = quot d 3600000000000
      in fadd (of_num h) (fdiv (of_num (d - h * 3600000000000)) (of_num 3600000000000)))"

section \<open>Sorting\<close>

text \<open>
  \<open>sort.SliceStable\<close> with a comparison: the insertion sort it starts with. For an order that is
  irreflexive, transitive and total on the elements, the result is the sorted arrangement
  that keeps equal elements in place.
\<close>

fun insert_before :: "('a \<Rightarrow> 'a \<Rightarrow> bool) \<Rightarrow> 'a \<Rightarrow> 'a list \<Rightarrow> 'a list" where
  "insert_before lt x [] = [x]"
| "insert_before lt x (y # ys) = (if lt y x then y # insert_before lt x ys else x # y # ys)"

definition sort_slice :: "('a \<Rightarrow> 'a \<Rightarrow> bool) \<Rightarrow> 'a list \<Rightarrow> 'a list" where
  "sort_slice lt xs = foldr (insert_before lt) xs []"

lemma mset_insert_before: "mset (insert_before lt x ys) = add_mset x (mset ys)"
  by (induction ys) auto

lemma mset_sort_slice [simp]: "mset (sort_slice lt xs) = mset xs"
  by (induction xs) (auto simp: sort_slice_def mset_insert_before)

lemma set_sort_slice [simp]: "set (sort_slice lt xs) = set xs"
  using mset_eq_setD [OF mset_sort_slice] .

lemma length_sort_slice [simp]: "length (sort_slice lt xs) = length xs"
  using mset_eq_length [OF mset_sort_slice] .

text \<open>A comparison that orders the elements of a set.\<close>

definition orders :: "('a \<Rightarrow> 'a \<Rightarrow> bool) \<Rightarrow> 'a set \<Rightarrow> bool" where
  "orders lt A \<longleftrightarrow>
     (\<forall>x \<in> A. \<not> lt x x) \<and> (\<forall>x \<in> A. \<forall>y \<in> A. \<forall>z \<in> A. lt x y \<longrightarrow> lt y z \<longrightarrow> lt x z) \<and>
     (\<forall>x \<in> A. \<forall>y \<in> A. x \<noteq> y \<longrightarrow> lt x y \<or> lt y x)"

lemma orders_subset: "orders lt A \<Longrightarrow> B \<subseteq> A \<Longrightarrow> orders lt B"
  unfolding orders_def by blast

lemma insert_before_sorted:
  assumes "orders lt (insert x (set ys))" "sorted_wrt lt ys" "x \<notin> set ys"
  shows "sorted_wrt lt (insert_before lt x ys)"
  using assms
proof (induction ys)
  case (Cons y ys)
  have set: "set (insert_before lt x ys) = insert x (set ys)"
    by (metis mset_insert_before set_mset_add_mset_insert set_mset_mset)
  have o: "orders lt (insert x (set ys))" by (rule orders_subset [OF Cons.prems(1)]) auto
  show ?case
  proof (cases "lt y x")
    case True
    have "\<forall>z \<in> set ys. lt y z" using Cons.prems(2) by simp
    with True Cons.IH [OF o] Cons.prems(2,3) set show ?thesis by simp
  next
    case False
    with Cons.prems(1,3) have xy: "lt x y" by (auto simp: orders_def)
    have "lt x z" if "z \<in> set ys" for z
    proof -
      have "lt y z" using Cons.prems(2) that by simp
      with xy Cons.prems(1) that show ?thesis unfolding orders_def by (meson insertCI list.set_intros)
    qed
    with False xy Cons.prems(2) show ?thesis by simp
  qed
qed simp

lemma sort_slice_sorted:
  assumes "orders lt (set xs)" "distinct xs"
  shows "sorted_wrt lt (sort_slice lt xs)"
  using assms
proof (induction xs)
  case (Cons x xs)
  have o: "orders lt (set xs)" by (rule orders_subset [OF Cons.prems(1)]) auto
  have step: "sort_slice lt (x # xs) = insert_before lt x (sort_slice lt xs)" by (simp add: sort_slice_def)
  show ?case
    unfolding step by (rule insert_before_sorted) (use Cons o in auto)
qed (simp add: sort_slice_def)

end
