(* ===== verification/RecFusion.thy ===== *)
theory RecFusion
  imports GoFloat "HOL-Library.Word"
begin

text \<open>
  Candidate lists of the recommendation service (\<open>recommendation/fusion.go\<close>): reciprocal-rank
  fusion of recall lists and the merge of candidate pools. Post ids are numbers, instants are
  nanoseconds. The loops keep the index of every post in a map, as the code does.
\<close>

section \<open>Candidates\<close>

text \<open>\<open>CandidateSource\<close> is a byte with four named values.\<close>

datatype candidate_source =
  CandidateSourceSemantic | CandidateSourceFollowing | CandidateSourceRecent | CandidateSourceTrending
  | UnknownSource "8 word"

record candidate =
  PostID :: nat
  RecallTier :: "8 word"
  PositiveSemanticSimilarity :: float64
  SemanticRank :: int
  FollowingRank :: int
  RecentRank :: int
  TrendingRank :: int
  FusionScore :: float64
  SourceCount :: int
  FromSemantic :: bool
  FromFollowing :: bool
  FromRecent :: bool
  FromTrending :: bool
  FromHistorical :: bool
  FromOnboardingInterest :: bool
  WasSoftServed :: bool
  LastServedAt :: int

record candidate_set =
  Source :: candidate_source
  Candidates :: "candidate list"

definition zero_instant :: int where "zero_instant = - 62135596800000000000"

definition candidateSourceSupported :: "candidate_source \<Rightarrow> bool" where
  "candidateSourceSupported source =
     (case source of UnknownSource _ \<Rightarrow> False | _ \<Rightarrow> True)"

section \<open>Fusion\<close>

text \<open>What a list adds to a candidate: the first rank from each source counts.\<close>

definition recordRecallSource :: "candidate_source \<Rightarrow> int \<Rightarrow> float64 \<Rightarrow> candidate \<Rightarrow> candidate \<times> bool" where
  "recordRecallSource source rank sim c =
     (case source of
        CandidateSourceSemantic \<Rightarrow>
          (let c = c\<lparr>FromSemantic := True\<rparr>
           in if SemanticRank c \<noteq> 0 then (c, False)
              else (c\<lparr>SemanticRank := rank, PositiveSemanticSimilarity := sim, SourceCount := SourceCount c + 1\<rparr>, True))
      | CandidateSourceFollowing \<Rightarrow>
          (let c = c\<lparr>FromFollowing := True\<rparr>
           in if FollowingRank c \<noteq> 0 then (c, False)
              else (c\<lparr>FollowingRank := rank, SourceCount := SourceCount c + 1\<rparr>, True))
      | CandidateSourceRecent \<Rightarrow>
          (let c = c\<lparr>FromRecent := True\<rparr>
           in if RecentRank c \<noteq> 0 then (c, False)
              else (c\<lparr>RecentRank := rank, SourceCount := SourceCount c + 1\<rparr>, True))
      | CandidateSourceTrending \<Rightarrow>
          (let c = c\<lparr>FromTrending := True\<rparr>
           in if TrendingRank c \<noteq> 0 then (c, False)
              else (c\<lparr>TrendingRank := rank, SourceCount := SourceCount c + 1\<rparr>, True))
      | UnknownSource _ \<Rightarrow> (c, False))"

definition reset_fusion :: "candidate \<Rightarrow> candidate" where
  "reset_fusion c = c\<lparr>FromSemantic := False, FromFollowing := False, FromRecent := False, FromTrending := False,
     SemanticRank := 0, FollowingRank := 0, RecentRank := 0, TrendingRank := 0, FusionScore := Fin 0, SourceCount := 0\<rparr>"

text \<open>The two statements on the entry of a post: the flag, and the score if the source is new.\<close>

definition fuse_into :: "int \<Rightarrow> candidate_source \<Rightarrow> int \<Rightarrow> candidate \<Rightarrow> candidate \<Rightarrow> candidate" where
  "fuse_into k source rank c current =
     (let current = current\<lparr>FromOnboardingInterest := FromOnboardingInterest current \<or> FromOnboardingInterest c\<rparr>
      in case recordRecallSource source rank (PositiveSemanticSimilarity c) current of
           (current, True) \<Rightarrow>
             current\<lparr>FusionScore := fadd (FusionScore current) (fdiv (Fin 1) (fadd (of_num k) (of_num rank)))\<rparr>
         | (current, False) \<Rightarrow> current)"

text \<open>The loop over the candidates of one list; \<open>index\<close> is the position of the next one.\<close>

fun fuse_list ::
  "int \<Rightarrow> candidate_source \<Rightarrow> candidate list \<Rightarrow> int \<Rightarrow> nat set \<Rightarrow> candidate list \<Rightarrow> (nat \<rightharpoonup> nat) \<Rightarrow>
   candidate list \<times> (nat \<rightharpoonup> nat)" where
  "fuse_list k source [] index seen fused byID = (fused, byID)"
| "fuse_list k source (c # cs) index seen fused byID =
     (if PostID c = 0 then fuse_list k source cs (index + 1) seen fused byID
      else if PostID c \<in> seen then fuse_list k source cs (index + 1) seen fused byID
      else
        (let (fused, byID, i) =
               (case byID (PostID c) of
                  Some i \<Rightarrow> (fused, byID, i)
                | None \<Rightarrow> (fused @ [reset_fusion c], byID(PostID c \<mapsto> length fused), length fused))
         in fuse_list k source cs (index + 1) (insert (PostID c) seen)
              (fused[i := fuse_into k source (index + 1) c (fused ! i)]) byID))"

fun fuse_lists ::
  "int \<Rightarrow> candidate_set list \<Rightarrow> candidate list \<Rightarrow> (nat \<rightharpoonup> nat) \<Rightarrow> candidate list \<times> (nat \<rightharpoonup> nat)" where
  "fuse_lists k [] fused byID = (fused, byID)"
| "fuse_lists k (l # ls) fused byID =
     (if \<not> candidateSourceSupported (Source l) then fuse_lists k ls fused byID
      else (case fuse_list k (Source l) (Candidates l) 0 {} fused byID of
              (fused, byID) \<Rightarrow> fuse_lists k ls fused byID))"

definition bestRecallRank :: "candidate \<Rightarrow> int" where
  "bestRecallRank c =
     foldl (\<lambda>best rank. if rank > 0 \<and> rank < best then rank else best) (2 ^ 63 - 1)
       [SemanticRank c, FollowingRank c, RecentRank c, TrendingRank c]"

definition fusionCandidateBefore :: "candidate \<Rightarrow> candidate \<Rightarrow> bool" where
  "fusionCandidateBefore l r =
     (if \<not> feq (FusionScore l) (FusionScore r) then flt (FusionScore r) (FusionScore l)
      else if SourceCount l \<noteq> SourceCount r then SourceCount l > SourceCount r
      else if bestRecallRank l \<noteq> bestRecallRank r then bestRecallRank l < bestRecallRank r
      else PostID l > PostID r)"

definition DefaultFusionRankConstant :: int where "DefaultFusionRankConstant = 60"

definition FuseCandidates :: "int \<Rightarrow> int \<Rightarrow> candidate_set list \<Rightarrow> candidate list" where
  "FuseCandidates limit rank_constant recall =
     (if limit \<le> 0 then []
      else
        (let k = (if rank_constant \<le> 0 then DefaultFusionRankConstant else rank_constant);
             (fused, _) = fuse_lists k recall [] Map.empty
         in if fused = [] then []
            else (let fused = sort_slice fusionCandidateBefore fused
                  in if int (length fused) > limit then take (nat limit) fused else fused)))"

section \<open>Merging\<close>

definition minNonZeroRank :: "int \<Rightarrow> int \<Rightarrow> int" where
  "minNonZeroRank l r = (if l = 0 then r else if r = 0 \<or> l < r then l else r)"

definition merge_into :: "candidate \<Rightarrow> candidate \<Rightarrow> candidate" where
  "merge_into c m =
     (let m = m\<lparr>FromSemantic := FromSemantic m \<or> FromSemantic c, FromFollowing := FromFollowing m \<or> FromFollowing c,
            FromRecent := FromRecent m \<or> FromRecent c, FromTrending := FromTrending m \<or> FromTrending c,
            FromOnboardingInterest := FromOnboardingInterest m \<or> FromOnboardingInterest c,
            SemanticRank := minNonZeroRank (SemanticRank m) (SemanticRank c),
            FollowingRank := minNonZeroRank (FollowingRank m) (FollowingRank c),
            RecentRank := minNonZeroRank (RecentRank m) (RecentRank c),
            TrendingRank := minNonZeroRank (TrendingRank m) (TrendingRank c)\<rparr>;
          m = (if flt (FusionScore m) (FusionScore c) then m\<lparr>FusionScore := FusionScore c\<rparr> else m);
          m = (if SourceCount c > SourceCount m then m\<lparr>SourceCount := SourceCount c\<rparr> else m);
          m = m\<lparr>WasSoftServed := WasSoftServed m \<or> WasSoftServed c\<rparr>;
          m = (if LastServedAt m = zero_instant \<or> (LastServedAt c \<noteq> zero_instant \<and> LastServedAt c < LastServedAt m)
               then m\<lparr>LastServedAt := LastServedAt c\<rparr> else m)
      in if FromSemantic c then m\<lparr>PositiveSemanticSimilarity := PositiveSemanticSimilarity c\<rparr> else m)"

fun merge_loop :: "nat \<Rightarrow> candidate list \<Rightarrow> candidate list \<Rightarrow> (nat \<rightharpoonup> nat) \<Rightarrow> candidate list \<times> (nat \<rightharpoonup> nat)" where
  "merge_loop limit [] merged byID = (merged, byID)"
| "merge_loop limit (c # cs) merged byID =
     (if PostID c = 0 then merge_loop limit cs merged byID
      else (case byID (PostID c) of
              Some i \<Rightarrow> merge_loop limit cs (merged[i := merge_into c (merged ! i)]) byID
            | None \<Rightarrow>
               (if length merged \<ge> limit then merge_loop limit cs merged byID
                else merge_loop limit cs (merged @ [c]) (byID(PostID c \<mapsto> length merged)))))"

text \<open>The two nested loops read the sources one after the other.\<close>

definition MergeCandidates :: "int \<Rightarrow> candidate list list \<Rightarrow> candidate list" where
  "MergeCandidates limit sources =
     (if limit \<le> 0 then [] else fst (merge_loop (nat limit) (concat sources) [] Map.empty))"

definition CandidatePostIDs :: "candidate list \<Rightarrow> nat list" where
  "CandidatePostIDs cs = filter (\<lambda>p. p \<noteq> 0) (map PostID cs)"

section \<open>Fusion, post by post\<close>

text \<open>
  The reference: a list contributes, for every post, its first entry with the entry's place in the
  list; the fused entry of a post folds its contributions, in the order of the lists, onto
  the first of them.
\<close>

type_synonym contribution = "candidate_source \<times> int \<times> candidate"

abbreviation post_of :: "contribution \<Rightarrow> nat" where
  "post_of e \<equiv> PostID (snd (snd e))"

definition contributions :: "candidate_set \<Rightarrow> contribution list" where
  "contributions l =
     map (\<lambda>i. (Source l, int i + 1, Candidates l ! i))
       (filter (\<lambda>i. PostID (Candidates l ! i) \<noteq> 0 \<and> PostID (Candidates l ! i) \<notin> PostID ` set (take i (Candidates l)))
          [0..<length (Candidates l)])"

definition all_contributions :: "candidate_set list \<Rightarrow> contribution list" where
  "all_contributions recall = concat (map contributions (filter (\<lambda>l. candidateSourceSupported (Source l)) recall))"

definition fuse_post :: "int \<Rightarrow> contribution list \<Rightarrow> nat \<Rightarrow> candidate" where
  "fuse_post k es p =
     (let es = filter (\<lambda>e. post_of e = p) es
      in foldl (\<lambda>current (source, rank, c). fuse_into k source rank c current) (reset_fusion (snd (snd (hd es)))) es)"

text \<open>The posts in the order of their first contribution.\<close>

definition posts_in_order :: "contribution list \<Rightarrow> nat list" where
  "posts_in_order es = rev (remdups (rev (map post_of es)))"

lemma posts_in_order_snoc:
  "posts_in_order (es @ [e]) = (if post_of e \<in> post_of ` set es then posts_in_order es else posts_in_order es @ [post_of e])"
  by (simp add: posts_in_order_def)

lemma set_posts_in_order [simp]: "set (posts_in_order es) = post_of ` set es" "distinct (posts_in_order es)"
  by (auto simp: posts_in_order_def)

subsection \<open>The loop folds the contributions\<close>

definition add_contribution ::
  "int \<Rightarrow> candidate list \<times> (nat \<rightharpoonup> nat) \<Rightarrow> contribution \<Rightarrow> candidate list \<times> (nat \<rightharpoonup> nat)" where
  "add_contribution k st e =
     (case (st, e) of
        ((fused, byID), (source, rank, c)) \<Rightarrow>
          (let (fused, byID, i) =
                 (case byID (PostID c) of
                    Some i \<Rightarrow> (fused, byID, i)
                  | None \<Rightarrow> (fused @ [reset_fusion c], byID(PostID c \<mapsto> length fused), length fused))
           in (fused[i := fuse_into k source rank c (fused ! i)], byID)))"

lemma fuse_list_contributions:
  "fuse_list k src cs (int n) seen fused byID =
     foldl (add_contribution k) (fused, byID)
       (map (\<lambda>i. (src, int (n + i) + 1, cs ! i))
          (filter (\<lambda>i. PostID (cs ! i) \<noteq> 0 \<and> PostID (cs ! i) \<notin> seen \<union> PostID ` set (take i cs)) [0..<length cs]))"
proof (induction cs arbitrary: n seen fused byID)
  case (Cons c cs)
  let ?S = "if PostID c = 0 \<or> PostID c \<in> seen then seen else insert (PostID c) seen"
  have upt: "[0..<length (c # cs)] = 0 # map Suc [0..<length cs]" by (simp add: map_Suc_upt upt_conv_Cons del: upt_Suc)
  have eq: "(PostID (cs ! i) \<noteq> 0 \<and> PostID (cs ! i) \<notin> seen \<union> PostID ` set (take (Suc i) (c # cs))) \<longleftrightarrow>
      (PostID (cs ! i) \<noteq> 0 \<and> PostID (cs ! i) \<notin> ?S \<union> PostID ` set (take i cs))" for i
    by auto
  have rest: "map (\<lambda>i. (src, int (n + i) + 1, (c # cs) ! i))
        (filter (\<lambda>i. PostID ((c # cs) ! i) \<noteq> 0 \<and> PostID ((c # cs) ! i) \<notin> seen \<union> PostID ` set (take i (c # cs))) (map Suc [0..<length cs])) =
      map (\<lambda>i. (src, int (Suc n + i) + 1, cs ! i))
        (filter (\<lambda>i. PostID (cs ! i) \<noteq> 0 \<and> PostID (cs ! i) \<notin> ?S \<union> PostID ` set (take i cs)) [0..<length cs])"
    unfolding filter_map map_map comp_def nth_Cons_Suc eq by simp
  have head: "filter P (0 # xs) = (if P 0 then [0] else []) @ filter P xs" for P and xs :: "nat list" by simp
  have suc: "int n + 1 = int (Suc n)" by simp
  show ?case
  proof (cases "PostID c = 0 \<or> PostID c \<in> seen")
    case True
    then have "fuse_list k src (c # cs) (int n) seen fused byID = fuse_list k src cs (int (Suc n)) ?S fused byID"
      unfolding suc [symmetric] by auto
    with True show ?thesis unfolding upt head map_append rest Cons.IH [of "Suc n"] by auto
  next
    case False
    obtain fused' byID' where step: "add_contribution k (fused, byID) (src, int n + 1, c) = (fused', byID')" by fastforce
    have "fuse_list k src (c # cs) (int n) seen fused byID = fuse_list k src cs (int (Suc n)) ?S fused' byID'"
      unfolding suc [symmetric] using False step by (auto simp: add_contribution_def Let_def split: option.splits)
    with False show ?thesis unfolding upt head map_append rest Cons.IH [of "Suc n"] by (simp add: step)
  qed
qed simp

lemma fuse_lists_contributions:
  "fuse_lists k recall fused byID = foldl (add_contribution k) (fused, byID) (all_contributions recall)"
proof (induction recall arbitrary: fused byID)
  case (Cons l recall)
  have "fuse_list k (Source l) (Candidates l) 0 {} fused byID = foldl (add_contribution k) (fused, byID) (contributions l)"
    using fuse_list_contributions [of k "Source l" "Candidates l" 0 "{}"] by (simp add: contributions_def)
  with Cons show ?case by (auto simp: all_contributions_def split: prod.splits)
qed (simp add: all_contributions_def)

lemma PostID_recordRecallSource: "PostID (fst (recordRecallSource s r x c)) = PostID c"
  by (simp add: recordRecallSource_def Let_def split: candidate_source.split)

lemma PostID_fuse_into [simp]: "PostID (fuse_into k s r c current) = PostID current"
  using PostID_recordRecallSource [of s r "PositiveSemanticSimilarity c"
      "current\<lparr>FromOnboardingInterest := FromOnboardingInterest current \<or> FromOnboardingInterest c\<rparr>"]
  by (auto simp: fuse_into_def Let_def split: prod.splits bool.splits)

lemma fuse_post_snoc:
  "fuse_post k (es @ [(s, r, c)]) p =
     (if p \<noteq> PostID c then fuse_post k es p
      else if p \<in> post_of ` set es then fuse_into k s r c (fuse_post k es p)
      else fuse_into k s r c (reset_fusion c))"
proof (cases "filter (\<lambda>e. post_of e = p) es")
  case Nil
  then have "p \<notin> post_of ` set es" by (auto simp: filter_empty_conv)
  with Nil show ?thesis by (cases "p = PostID c") (simp_all add: fuse_post_def)
next
  case (Cons e es')
  then have "e \<in> set (filter (\<lambda>e. post_of e = p) es)" by simp
  then have "p \<in> post_of ` set es" by force
  with Cons show ?thesis by (cases "p = PostID c") (simp_all add: fuse_post_def)
qed

lemma fold_contributions:
  "\<exists>byID. foldl (add_contribution k) ([], Map.empty) es = (map (fuse_post k es) (posts_in_order es), byID) \<and>
     (\<forall>p i. byID p = Some i \<longleftrightarrow> i < length (posts_in_order es) \<and> posts_in_order es ! i = p)"
proof (induction es rule: rev_induct)
  case Nil
  then show ?case by (simp add: posts_in_order_def)
next
  case (snoc e es)
  obtain s r c where e: "e = (s, r, c)" by (cases e)
  let ?ps = "posts_in_order es" and ?p = "PostID c"
  obtain byID where st: "foldl (add_contribution k) ([], Map.empty) es = (map (fuse_post k es) ?ps, byID)"
    and by_id: "\<And>p i. byID p = Some i \<longleftrightarrow> i < length ?ps \<and> ?ps ! i = p" using snoc by blast
  have run: "foldl (add_contribution k) ([], Map.empty) (es @ [e]) = add_contribution k (map (fuse_post k es) ?ps, byID) (s, r, c)"
    by (simp add: st e)
  show ?case
  proof (cases "byID ?p")
    case (Some i)
    with by_id have i: "i < length ?ps" "?ps ! i = ?p" by blast+
    then have mem: "?p \<in> post_of ` set es" using nth_mem [OF i(1)] by simp
    have "(map (fuse_post k es) ?ps)[i := fuse_into k s r c (map (fuse_post k es) ?ps ! i)] = map (fuse_post k (es @ [e])) ?ps"
    proof (rule nth_equalityI)
      fix j assume "j < length ((map (fuse_post k es) ?ps)[i := fuse_into k s r c (map (fuse_post k es) ?ps ! i)])"
      then have j: "j < length ?ps" by simp
      then have "?ps ! j = ?p \<longleftrightarrow> j = i" using i by (metis nth_eq_iff_index_eq set_posts_in_order(2))
      with i j mem show "(map (fuse_post k es) ?ps)[i := fuse_into k s r c (map (fuse_post k es) ?ps ! i)] ! j =
          map (fuse_post k (es @ [e])) ?ps ! j"
        by (simp add: nth_list_update e fuse_post_snoc)
    qed simp
    then have "foldl (add_contribution k) ([], Map.empty) (es @ [e]) = (map (fuse_post k (es @ [e])) ?ps, byID)"
      unfolding run by (simp add: add_contribution_def Some)
    moreover have "posts_in_order (es @ [e]) = ?ps" using mem by (simp add: e posts_in_order_snoc)
    ultimately show ?thesis using by_id by simp
  next
    case None
    then have mem: "?p \<notin> post_of ` set es"
      using by_id by (metis in_set_conv_nth option.distinct(1) set_posts_in_order(1))
    have "map (fuse_post k (es @ [e])) ?ps = map (fuse_post k es) ?ps"
      using mem by (intro map_cong refl) (force simp: e fuse_post_snoc)
    then have "foldl (add_contribution k) ([], Map.empty) (es @ [e]) =
        (map (fuse_post k (es @ [e])) (?ps @ [?p]), byID(?p \<mapsto> length ?ps))"
      unfolding run using mem by (simp add: add_contribution_def None e fuse_post_snoc nth_append list_update_append)
    moreover have "posts_in_order (es @ [e]) = ?ps @ [?p]" using mem by (simp add: e posts_in_order_snoc)
    moreover have "(byID(?p \<mapsto> length ?ps)) p = Some i \<longleftrightarrow> i < length (?ps @ [?p]) \<and> (?ps @ [?p]) ! i = p" for p i
      using by_id [of p i] None by (auto simp: nth_append less_Suc_eq)
    ultimately show ?thesis by simp
  qed
qed

section \<open>What fusion returns\<close>

lemma fused_lists:
  "\<exists>byID. fuse_lists k recall [] Map.empty =
     (map (fuse_post k (all_contributions recall)) (posts_in_order (all_contributions recall)), byID)"
  unfolding fuse_lists_contributions using fold_contributions by blast

text \<open>
  C17. Fusing recall lists with an index and updates in place gives, for every post of a supported
  list, the fold of the post's own contributions (its first place in each list, in the order of
  the lists), sorted by the fusion order and cut at the limit; a post id of zero, a repeated
  entry and a list of an unknown source contribute nothing.
\<close>

theorem FuseCandidates_by_post:
  "FuseCandidates limit rank_constant recall =
     take (nat limit)
       (sort_slice fusionCandidateBefore
          (map (fuse_post (if rank_constant \<le> 0 then DefaultFusionRankConstant else rank_constant) (all_contributions recall))
             (posts_in_order (all_contributions recall))))"
proof -
  let ?k = "if rank_constant \<le> 0 then DefaultFusionRankConstant else rank_constant"
  obtain byID where "fuse_lists ?k recall [] Map.empty =
      (map (fuse_post ?k (all_contributions recall)) (posts_in_order (all_contributions recall)), byID)"
    using fused_lists by blast
  then show ?thesis by (auto simp: FuseCandidates_def Let_def sort_slice_def)
qed

lemma PostID_fold: "PostID (foldl (\<lambda>current (source, rank, c). fuse_into k source rank c current) c0 es) = PostID c0"
  by (induction es arbitrary: c0) (auto split: prod.splits)

lemma PostID_fuse_post: "p \<in> post_of ` set es \<Longrightarrow> PostID (fuse_post k es p) = p"
proof -
  assume "p \<in> post_of ` set es"
  then have "filter (\<lambda>e. post_of e = p) es \<noteq> []" by (force simp: filter_empty_conv)
  then have "hd (filter (\<lambda>e. post_of e = p) es) \<in> set (filter (\<lambda>e. post_of e = p) es)" by (rule hd_in_set)
  then show ?thesis by (simp add: fuse_post_def Let_def PostID_fold reset_fusion_def)
qed

text \<open>The fusion order is a total order on entries of different posts whose scores are numbers.\<close>

lemma fusionCandidateBefore_orders:
  assumes "\<forall>c \<in> A. FusionScore c \<noteq> NaN" "inj_on PostID A"
  shows "orders fusionCandidateBefore A"
proof -
  have key: "fusionCandidateBefore l r \<longleftrightarrow>
      flt (FusionScore r) (FusionScore l) \<or> (FusionScore l = FusionScore r \<and>
        (SourceCount r < SourceCount l \<or> (SourceCount l = SourceCount r \<and>
          (bestRecallRank l < bestRecallRank r \<or> (bestRecallRank l = bestRecallRank r \<and> PostID r < PostID l)))))"
    if "l \<in> A" "r \<in> A" for l r
    using that assms(1) by (auto simp: fusionCandidateBefore_def feq_def)
  show ?thesis
    unfolding orders_def
  proof (intro conjI ballI impI)
    fix x y z assume "x \<in> A" "y \<in> A" "z \<in> A" "fusionCandidateBefore x y" "fusionCandidateBefore y z"
    then show "fusionCandidateBefore x z" using key [of x y] key [of y z] key [of x z] by (auto dest: flt_trans)
  next
    fix x y assume "x \<in> A" "y \<in> A" "x \<noteq> y"
    moreover from this have "PostID x \<noteq> PostID y" using assms(2) by (auto dest: inj_onD)
    moreover have "flt (FusionScore x) (FusionScore y) \<or> FusionScore x = FusionScore y \<or> flt (FusionScore y) (FusionScore x)"
      using \<open>x \<in> A\<close> \<open>y \<in> A\<close> assms(1) flt_total by blast
    ultimately show "fusionCandidateBefore x y \<or> fusionCandidateBefore y x"
      unfolding key [OF \<open>x \<in> A\<close> \<open>y \<in> A\<close>] key [OF \<open>y \<in> A\<close> \<open>x \<in> A\<close>]
      using linorder_less_linear [of "SourceCount x" "SourceCount y"] linorder_less_linear [of "PostID x" "PostID y"]
        linorder_less_linear [of "bestRecallRank x" "bestRecallRank y"] by argo
  qed (use key in auto)
qed

subsection \<open>Scores are numbers\<close>

definition nonneg :: "float64 \<Rightarrow> bool" where
  "nonneg x \<longleftrightarrow> x = PInf \<or> (\<exists>a \<ge> 0. x = Fin a)"

lemma round_even_nonneg: "0 \<le> q \<Longrightarrow> 0 \<le> round_even q"
  by (simp add: round_even_def Let_def)

lemma pow2_pos [simp]: "0 < pow2 e"
  by (simp add: pow2_def)

lemma fl_nonneg: "0 \<le> q \<Longrightarrow> nonneg (fl q)"
proof -
  assume q: "0 \<le> q"
  let ?u = "pow2 (last_bit \<bar>q\<bar>)" let ?r = "of_int (round_even (q / ?u)) * ?u"
  have "0 \<le> ?r" using q by (intro mult_nonneg_nonneg) (simp_all add: round_even_nonneg less_imp_le)
  moreover have "- pow2 1024 < 0" by simp
  ultimately have "\<not> ?r \<le> - pow2 1024" by linarith
  with \<open>0 \<le> ?r\<close> show ?thesis by (auto simp: fl_def Let_def nonneg_def)
qed

lemma fadd_nonneg: "nonneg x \<Longrightarrow> nonneg y \<Longrightarrow> nonneg (fadd x y)"
  by (cases x; cases y) (auto simp: nonneg_def fl_nonneg [unfolded nonneg_def])

lemma fdiv_one_nonneg: "nonneg y \<Longrightarrow> nonneg (fdiv (Fin 1) y)"
  by (cases y) (auto simp: nonneg_def fdiv_def finf_def fl_nonneg [unfolded nonneg_def])

lemma of_num_nonneg: "0 \<le> i \<Longrightarrow> nonneg (of_num i)"
  by (simp add: of_num_def fl_nonneg)

lemma fuse_into_nonneg:
  assumes "0 \<le> k" "0 \<le> r" "nonneg (FusionScore current)"
  shows "nonneg (FusionScore (fuse_into k s r c current))"
proof -
  have "nonneg (fadd (FusionScore current) (fdiv (Fin 1) (fadd (of_num k) (of_num r))))"
    using assms by (intro fadd_nonneg fdiv_one_nonneg of_num_nonneg) simp_all
  with assms(3) show ?thesis
    by (auto simp: fuse_into_def recordRecallSource_def Let_def split: candidate_source.split)
qed

lemma contributions_rank: "(s, r, c) \<in> set (all_contributions recall) \<Longrightarrow> 0 < r"
  by (auto simp: all_contributions_def contributions_def)

lemma fuse_post_score:
  assumes "0 \<le> k" "\<forall>(s, r, c) \<in> set es. 0 < r"
  shows "nonneg (FusionScore (fuse_post k es p))"
proof -
  have fold: "nonneg (FusionScore c0) \<Longrightarrow> \<forall>(s, r, c) \<in> set es. 0 < r \<Longrightarrow>
      nonneg (FusionScore (foldl (\<lambda>current (source, rank, c). fuse_into k source rank c current) c0 es))" for c0 es
    by (induction es arbitrary: c0) (auto simp: fuse_into_nonneg [OF assms(1)])
  show ?thesis
    unfolding fuse_post_def Let_def
    by (rule fold) (use assms(2) in \<open>auto simp: reset_fusion_def nonneg_def\<close>)
qed

text \<open>The provenance of an entry: a flag for every source with a rank, and their number.\<close>

definition provenance_ok :: "candidate \<Rightarrow> bool" where
  "provenance_ok c \<longleftrightarrow>
     (FromSemantic c \<longleftrightarrow> SemanticRank c \<noteq> 0) \<and> (FromFollowing c \<longleftrightarrow> FollowingRank c \<noteq> 0) \<and>
     (FromRecent c \<longleftrightarrow> RecentRank c \<noteq> 0) \<and> (FromTrending c \<longleftrightarrow> TrendingRank c \<noteq> 0) \<and>
     SourceCount c = of_bool (FromSemantic c) + of_bool (FromFollowing c) + of_bool (FromRecent c) + of_bool (FromTrending c)"

lemma fuse_into_provenance:
  assumes "0 < r" "provenance_ok current"
  shows "provenance_ok (fuse_into k s r c current)"
    "candidateSourceSupported s \<Longrightarrow> 1 \<le> SourceCount (fuse_into k s r c current)"
  using assms
  by (cases s; cases "FromSemantic current"; cases "FromFollowing current"; cases "FromRecent current"; cases "FromTrending current";
      simp add: fuse_into_def recordRecallSource_def provenance_ok_def candidateSourceSupported_def Let_def)+

lemma fold_provenance:
  assumes "\<forall>(s, r, c) \<in> set es. 0 < r \<and> candidateSourceSupported s" "provenance_ok c0" "es \<noteq> [] \<or> 1 \<le> SourceCount c0"
  shows "provenance_ok (foldl (\<lambda>current (source, rank, c). fuse_into k source rank c current) c0 es) \<and>
    1 \<le> SourceCount (foldl (\<lambda>current (source, rank, c). fuse_into k source rank c current) c0 es)"
  using assms
proof (induction es arbitrary: c0)
  case (Cons e es)
  obtain s r c where e: "e = (s, r, c)" by (cases e)
  with Cons.prems have "provenance_ok (fuse_into k s r c c0)" "1 \<le> SourceCount (fuse_into k s r c c0)"
    by (auto intro: fuse_into_provenance)
  with Cons.IH [of "fuse_into k s r c c0"] Cons.prems(1) e show ?case by simp
qed simp

lemma contributions_supported: "(s, r, c) \<in> set (all_contributions recall) \<Longrightarrow> candidateSourceSupported s"
  by (auto simp: all_contributions_def contributions_def)

lemma fuse_post_provenance:
  assumes "p \<in> post_of ` set (all_contributions recall)"
  shows "provenance_ok (fuse_post k (all_contributions recall) p) \<and> 1 \<le> SourceCount (fuse_post k (all_contributions recall) p)"
  unfolding fuse_post_def Let_def
proof (rule fold_provenance)
  show "\<forall>(s, r, c) \<in> set (filter (\<lambda>e. post_of e = p) (all_contributions recall)). 0 < r \<and> candidateSourceSupported s"
    using contributions_rank contributions_supported by fastforce
  show "filter (\<lambda>e. post_of e = p) (all_contributions recall) \<noteq> [] \<or> 1 \<le> SourceCount (reset_fusion c)" for c
    using assms by (force simp: filter_empty_conv)
qed (simp add: provenance_ok_def reset_fusion_def)

lemma sorted_wrt_take_drop: "sorted_wrt P xs \<Longrightarrow> x \<in> set (take n xs) \<Longrightarrow> y \<in> set (drop n xs) \<Longrightarrow> P x y"
  using sorted_wrt_append [of P "take n xs" "drop n xs"] by simp

lemma contributions_posts: "post_of ` set (contributions l) = PostID ` set (Candidates l) - {0}"
proof
  show "PostID ` set (Candidates l) - {0} \<subseteq> post_of ` set (contributions l)"
  proof
    fix p assume p: "p \<in> PostID ` set (Candidates l) - {0}"
    define i where "i = (LEAST i. i < length (Candidates l) \<and> PostID (Candidates l ! i) = p)"
    have "\<exists>i. i < length (Candidates l) \<and> PostID (Candidates l ! i) = p" using p by (auto simp: in_set_conv_nth)
    then have i: "i < length (Candidates l)" "PostID (Candidates l ! i) = p"
      unfolding i_def by (smt (verit, best) LeastI)+
    have "PostID (Candidates l ! j) \<noteq> p" if "j < i" for j
      using not_less_Least [OF that [unfolded i_def]] that i(1) by auto
    then have "p \<notin> PostID ` set (take i (Candidates l))" by (fastforce simp: in_set_conv_nth)
    with i p have "(Source l, int i + 1, Candidates l ! i) \<in> set (contributions l)" by (auto simp: contributions_def)
    with i(2) show "p \<in> post_of ` set (contributions l)" by force
  qed
qed (auto simp: contributions_def)

lemma set_all_contributions:
  "post_of ` set (all_contributions recall) =
     {PostID c | c l. l \<in> set recall \<and> candidateSourceSupported (Source l) \<and> c \<in> set (Candidates l) \<and> PostID c \<noteq> 0}"
proof -
  have "post_of ` set (all_contributions recall) =
      (\<Union>l \<in> {l \<in> set recall. candidateSourceSupported (Source l)}. post_of ` set (contributions l))"
    by (auto simp: all_contributions_def)
  then show ?thesis unfolding contributions_posts by auto
qed

text \<open>
  The fused list is a ranking: at most the limit of entries, one for each post, strictly
  descending in the fusion order; a post that some supported list names is left out only when
  the limit is reached, and then it ranks below every entry returned. Every entry's flags,
  ranks and source count agree, and it comes from at least one source.
\<close>

theorem FuseCandidates_ranked:
  fixes recall :: "candidate_set list" and limit rank_constant :: int
  defines "out \<equiv> FuseCandidates limit rank_constant recall"
    and "posts \<equiv> {PostID c | c l. l \<in> set recall \<and> candidateSourceSupported (Source l) \<and> c \<in> set (Candidates l) \<and> PostID c \<noteq> 0}"
  shows "length out = min (nat limit) (card posts) \<and> distinct (map PostID out) \<and> PostID ` set out \<subseteq> posts \<and>
    sorted_wrt fusionCandidateBefore out \<and>
    (\<forall>p \<in> posts - PostID ` set out. \<exists>c'. PostID c' = p \<and> (\<forall>c \<in> set out. fusionCandidateBefore c c')) \<and>
    (\<forall>c \<in> set out. provenance_ok c \<and> 1 \<le> SourceCount c)"
proof -
  let ?k = "if rank_constant \<le> 0 then DefaultFusionRankConstant else rank_constant"
  let ?es = "all_contributions recall"
  let ?f = "fuse_post ?k ?es" and ?ps = "posts_in_order ?es"
  let ?all = "sort_slice fusionCandidateBefore (map ?f ?ps)"
  have posts: "posts = set ?ps"
    unfolding posts_def set_posts_in_order set_all_contributions by blast
  have id: "PostID (?f p) = p" if "p \<in> set ?ps" for p using that PostID_fuse_post by simp
  have inj: "inj_on PostID (set (map ?f ?ps))" using id by (auto simp: inj_on_def)
  have "inj_on ?f (set ?ps)" by (rule inj_onI) (metis id)
  then have dm: "distinct (map ?f ?ps)" by (simp add: distinct_map)
  have k: "0 \<le> ?k" by (simp add: DefaultFusionRankConstant_def)
  have "nonneg (FusionScore (?f p))" for p by (rule fuse_post_score [OF k]) (auto dest: contributions_rank)
  then have "FusionScore (?f p) \<noteq> NaN" for p by (metis nonneg_def float64.distinct(1) float64.distinct(5))
  then have o: "orders fusionCandidateBefore (set (map ?f ?ps))" by (intro fusionCandidateBefore_orders inj) auto
  have sorted: "sorted_wrt fusionCandidateBefore ?all" by (rule sort_slice_sorted [OF o dm])
  have dall: "distinct ?all" using dm by (metis mset_sort_slice mset_eq_imp_distinct_iff)
  have out: "out = take (nat limit) ?all" unfolding out_def by (rule FuseCandidates_by_post)
  have sub: "set out \<subseteq> set (map ?f ?ps)" using set_take_subset [of "nat limit" ?all] unfolding out by simp
  have len: "length out = min (nat limit) (card posts)"
    using distinct_card [of ?ps] by (simp add: out posts)
  have low: "\<exists>c'. PostID c' = p \<and> (\<forall>c \<in> set out. fusionCandidateBefore c c')" if p: "p \<in> posts - PostID ` set out" for p
  proof (intro exI conjI ballI)
    show "PostID (?f p) = p" using id p posts by blast
    fix c assume c: "c \<in> set out"
    have "?f p \<in> set ?all" using p posts by simp
    moreover have "?f p \<notin> set (take (nat limit) ?all)" using p id [of p] posts out by (metis DiffE imageI)
    ultimately have "?f p \<in> set (drop (nat limit) ?all)" by (metis append_take_drop_id Un_iff set_append)
    with sorted c show "fusionCandidateBefore c (?f p)" unfolding out by (blast intro: sorted_wrt_take_drop)
  qed
  have "provenance_ok c \<and> 1 \<le> SourceCount c" if "c \<in> set out" for c
  proof -
    from subsetD [OF sub that] have "c \<in> ?f ` set ?ps" by simp
    then obtain p where "c = ?f p" "p \<in> set ?ps" by (rule imageE)
    then show ?thesis using fuse_post_provenance by simp
  qed
  moreover have "PostID ` set out \<subseteq> posts"
  proof -
    have "map PostID (map ?f ?ps) = ?ps" unfolding map_map comp_def by (rule map_idI) (rule id)
    then have "posts = PostID ` set (map ?f ?ps)" unfolding posts by (metis set_map)
    then show ?thesis using image_mono [OF sub, of PostID] by (simp only:)
  qed
  moreover have "distinct (map PostID out)"
    unfolding distinct_map using dall inj_on_subset [OF inj sub] by (simp add: out)
  moreover have "sorted_wrt fusionCandidateBefore out" unfolding out by (rule sorted_wrt_take [OF sorted])
  ultimately show ?thesis using len low by blast
qed

section \<open>What merging returns\<close>

lemma PostID_merge_into [simp]: "PostID (merge_into c m) = PostID m"
  by (simp add: merge_into_def Let_def)

text \<open>The posts of the first entries, and how the merge of one post folds its entries.\<close>

definition first_posts :: "nat \<Rightarrow> candidate list \<Rightarrow> nat list" where
  "first_posts limit cs = take limit (rev (remdups (rev (filter (\<lambda>p. p \<noteq> 0) (map PostID cs)))))"

definition merge_post :: "candidate list \<Rightarrow> nat \<Rightarrow> candidate" where
  "merge_post cs p =
     (let cs = filter (\<lambda>c. PostID c = p) cs in foldl (\<lambda>m c. merge_into c m) (hd cs) (tl cs))"

lemma merge_loop_posts:
  assumes "\<And>p i. byID p = Some i \<longleftrightarrow> i < length (first_posts limit pre) \<and> first_posts limit pre ! i = p"
  shows "\<exists>byID'. merge_loop limit cs (map (merge_post pre) (first_posts limit pre)) byID =
    (map (merge_post (pre @ cs)) (first_posts limit (pre @ cs)), byID')"
  using assms
proof (induction cs arbitrary: pre byID)
  case (Cons c cs)
  let ?ps = "first_posts limit pre" and ?p = "PostID c" and ?all = "rev (remdups (rev (filter (\<lambda>p. p \<noteq> 0) (map PostID pre))))"
  have snoc: "first_posts limit (pre @ [c]) = (if ?p = 0 \<or> ?p \<in> PostID ` set pre then ?ps else take limit (?all @ [?p]))"
    by (auto simp: first_posts_def)
  have post: "merge_post (pre @ [c]) q =
      (if q \<noteq> ?p then merge_post pre q else if q \<in> PostID ` set pre then merge_into c (merge_post pre q) else c)" for q
  proof (cases "filter (\<lambda>c. PostID c = q) pre")
    case Nil
    then have "q \<notin> PostID ` set pre" by (auto simp: filter_empty_conv)
    with Nil show ?thesis by (cases "q = ?p") (simp_all add: merge_post_def)
  next
    case (Cons d ds)
    then have "d \<in> set (filter (\<lambda>c. PostID c = q) pre)" by simp
    then have "q \<in> PostID ` set pre" by force
    with Cons show ?thesis by (cases "q = ?p") (simp_all add: merge_post_def)
  qed
  have dist: "distinct ?ps" by (simp add: first_posts_def)
  have mem: "q \<in> set ?ps \<Longrightarrow> q \<in> PostID ` set pre \<and> q \<noteq> 0" for q
    using set_take_subset [of limit ?all] by (auto simp: first_posts_def)
  have same: "merge_loop limit (c # cs) (map (merge_post pre) ?ps) byID = merge_loop limit cs (map (merge_post (pre @ [c])) ?ps) byID \<and>
      first_posts limit (pre @ [c]) = ?ps"
    if "?p = 0 \<or> (byID ?p = None \<and> limit \<le> length ?ps)"
  proof -
    have "?p \<notin> set ?ps" using that mem Cons.prems by (metis in_set_conv_nth option.distinct(1))
    then have "map (merge_post pre) ?ps = map (merge_post (pre @ [c])) ?ps" by (auto simp: post)
    moreover have "first_posts limit (pre @ [c]) = ?ps"
    proof (cases "?p = 0 \<or> ?p \<in> PostID ` set pre")
      case False
      with that have "limit \<le> length ?all" by (simp add: first_posts_def)
      with False show ?thesis unfolding snoc by (simp add: first_posts_def)
    qed (simp add: snoc)
    moreover have "merge_loop limit (c # cs) (map (merge_post pre) ?ps) byID = merge_loop limit cs (map (merge_post pre) ?ps) byID"
      using that by auto
    ultimately show ?thesis by metis
  qed
  consider (skip) "?p = 0 \<or> (byID ?p = None \<and> limit \<le> length ?ps)"
    | (again) i where "?p \<noteq> 0" "byID ?p = Some i"
    | (new) "?p \<noteq> 0" "byID ?p = None" "length ?ps < limit"
    by (cases "byID ?p") force+
  then show ?case
  proof cases
    case skip
    from same [OF skip] Cons.IH [of byID "pre @ [c]"] Cons.prems show ?thesis by simp
  next
    case again
    then have i: "i < length ?ps" "?ps ! i = ?p" using Cons.prems by blast+
    then have in_pre: "?p \<in> PostID ` set pre" using mem nth_mem by metis
    have "(map (merge_post pre) ?ps)[i := merge_into c (map (merge_post pre) ?ps ! i)] = map (merge_post (pre @ [c])) ?ps"
    proof (rule nth_equalityI)
      fix j assume "j < length ((map (merge_post pre) ?ps)[i := merge_into c (map (merge_post pre) ?ps ! i)])"
      then have j: "j < length ?ps" by simp
      then have "?ps ! j = ?p \<longleftrightarrow> j = i" using i dist by (metis nth_eq_iff_index_eq)
      with i j in_pre show "(map (merge_post pre) ?ps)[i := merge_into c (map (merge_post pre) ?ps ! i)] ! j =
          map (merge_post (pre @ [c])) ?ps ! j" by (simp add: nth_list_update post)
    qed simp
    then have "merge_loop limit (c # cs) (map (merge_post pre) ?ps) byID =
        merge_loop limit cs (map (merge_post (pre @ [c])) (first_posts limit (pre @ [c]))) byID"
      using again in_pre by (simp add: snoc)
    moreover have "first_posts limit (pre @ [c]) = ?ps" using in_pre by (simp add: snoc)
    ultimately show ?thesis using Cons.IH [of byID "pre @ [c]"] Cons.prems by simp
  next
    case new
    then have "?p \<notin> set ?ps" using Cons.prems by (metis in_set_conv_nth option.distinct(1))
    moreover have short: "?ps = ?all" using new(3) by (simp add: first_posts_def)
    ultimately have out: "?p \<notin> PostID ` set pre" using new(1) by auto
    then have ps: "first_posts limit (pre @ [c]) = ?ps @ [?p]"
      using new short unfolding snoc by simp
    have "map (merge_post (pre @ [c])) ?ps = map (merge_post pre) ?ps"
      using \<open>?p \<notin> set ?ps\<close> by (intro map_cong refl) (auto simp: post)
    then have "map (merge_post (pre @ [c])) (first_posts limit (pre @ [c])) = map (merge_post pre) ?ps @ [c]"
      using out by (simp add: ps) (simp add: post)
    moreover have "merge_loop limit (c # cs) (map (merge_post pre) ?ps) byID =
        merge_loop limit cs (map (merge_post pre) ?ps @ [c]) (byID(?p \<mapsto> length ?ps))"
      using new by simp
    ultimately have run: "merge_loop limit (c # cs) (map (merge_post pre) ?ps) byID =
        merge_loop limit cs (map (merge_post (pre @ [c])) (first_posts limit (pre @ [c]))) (byID(?p \<mapsto> length ?ps))"
      by metis
    have upd: "(byID(?p \<mapsto> length ?ps)) q = Some i \<longleftrightarrow>
        i < length (first_posts limit (pre @ [c])) \<and> first_posts limit (pre @ [c]) ! i = q" for q i
      using Cons.prems [of q i] new(2) by (auto simp: ps nth_append less_Suc_eq)
    from Cons.IH [OF upd] show ?thesis unfolding run by (simp add: fun_upd_def)
  qed
qed simp

text \<open>
  A merge of candidate pools keeps the first entries of distinct posts, as many as the limit
  allows, in their order; the entry of a post folds all of the post's entries of all pools, also
  those read after the limit was reached.
\<close>

theorem MergeCandidates_by_post:
  "MergeCandidates limit sources =
     map (merge_post (concat sources)) (first_posts (nat limit) (concat sources))"
proof (cases "limit \<le> 0")
  case False
  obtain byID where "merge_loop (nat limit) (concat sources) (map (merge_post []) (first_posts (nat limit) [])) Map.empty =
      (map (merge_post ([] @ concat sources)) (first_posts (nat limit) ([] @ concat sources)), byID)"
    using merge_loop_posts [of Map.empty "nat limit" "[]" "concat sources"] by (auto simp: first_posts_def)
  with False show ?thesis by (simp add: MergeCandidates_def first_posts_def)
qed (simp add: MergeCandidates_def first_posts_def)

section \<open>A run\<close>

definition entry :: "nat \<Rightarrow> candidate" where
  "entry p = \<lparr>PostID = p, RecallTier = 1, PositiveSemanticSimilarity = Fin 0, SemanticRank = 0, FollowingRank = 0,
     RecentRank = 0, TrendingRank = 0, FusionScore = Fin 0, SourceCount = 0, FromSemantic = False, FromFollowing = False,
     FromRecent = False, FromTrending = False, FromHistorical = False, FromOnboardingInterest = False,
     WasSoftServed = False, LastServedAt = zero_instant\<rparr>"

theorem FuseCandidates_ranked_witness:
  "length (FuseCandidates 1 60 [\<lparr>Source = CandidateSourceRecent, Candidates = [entry 5, entry 0, entry 7, entry 5]\<rparr>]) = 1 \<and>
   list_all (\<lambda>c. provenance_ok c \<and> 1 \<le> SourceCount c)
     (FuseCandidates 1 60 [\<lparr>Source = CandidateSourceRecent, Candidates = [entry 5, entry 0, entry 7, entry 5]\<rparr>])"
proof -
  let ?recall = "[\<lparr>Source = CandidateSourceRecent, Candidates = [entry 5, entry 0, entry 7, entry 5]\<rparr>]"
  have "{PostID c | c l. l \<in> set ?recall \<and> candidateSourceSupported (Source l) \<and> c \<in> set (Candidates l) \<and> PostID c \<noteq> 0} =
      {p. \<exists>c \<in> {entry 5, entry 0, entry 7}. p = PostID c \<and> PostID c \<noteq> 0}"
    by (auto simp: candidateSourceSupported_def)
  also have "\<dots> = {5, 7}"
  proof -
    have "PostID (entry p) = p" for p by (simp add: entry_def)
    then show ?thesis by auto
  qed
  finally have "{PostID c | c l. l \<in> set ?recall \<and> candidateSourceSupported (Source l) \<and> c \<in> set (Candidates l) \<and> PostID c \<noteq> 0} = {5, 7}" .
  with FuseCandidates_ranked [of 1 60 ?recall] show ?thesis by (simp add: list_all_iff)
qed

end
