(* ===== verification/RecPositions.thy ===== *)
theory RecPositions
  imports GoFloat
begin

text \<open>
  The positions of a page (\<open>recommendation/selection.go\<close>): where candidates from outside the
  viewer's network and explorations go. \<open>digest\<close> is the hexadecimal SHA-256 of a string.
\<close>

section \<open>Balanced positions\<close>

text \<open>The nearest unused position, the left one first.\<close>

function nearest_free :: "int \<Rightarrow> int set \<Rightarrow> int \<Rightarrow> int \<Rightarrow> int" where
  "nearest_free limit used position distance =
     (if distance > limit then position
      else if position - distance \<ge> 1 \<and> position - distance \<notin> used then position - distance
      else if position + distance \<le> limit \<and> position + distance \<notin> used then position + distance
      else nearest_free limit used position (distance + 1))"
  by pat_completeness auto
termination
  by (relation "measure (\<lambda>(limit, used, position, distance). nat (limit + 1 - distance))") auto

declare nearest_free.simps [simp del]

text \<open>\<open>k\<close> counts from one to the target; the products wrap.\<close>

definition balanced_position :: "int \<Rightarrow> int \<Rightarrow> int \<Rightarrow> int" where
  "balanced_position limit target k =
     (let position = to_int (fround (fdiv (of_num (wrap64 (k * limit))) (of_num target)));
          position = (if position < 1 then 1 else position)
      in if position > limit then limit else position)"

function balanced_loop :: "int \<Rightarrow> int \<Rightarrow> int \<Rightarrow> int set \<Rightarrow> int list \<Rightarrow> int list" where
  "balanced_loop limit target k used result =
     (if k > target then result
      else
        (let position = balanced_position limit target k;
             position = (if position \<in> used then nearest_free limit used position 1 else position)
         in balanced_loop limit target (k + 1) (insert position used) (result @ [position])))"
  by pat_completeness auto
termination
  by (relation "measure (\<lambda>(limit, target, k, used, result). nat (target + 1 - k))") auto

declare balanced_loop.simps [simp del]

definition BalancedPositions :: "int \<Rightarrow> int \<Rightarrow> int list" where
  "BalancedPositions limit target =
     (if limit \<le> 0 \<or> target \<le> 0 then []
      else if target \<ge> limit then map (\<lambda>i. int i + 1) [0..<nat limit]
      else sort (balanced_loop limit target 1 {} []))"

lemma nearest_free_found:
  assumes "\<exists>p \<in> {1..limit} - used. distance \<le> \<bar>p - position\<bar>" "1 \<le> position" "position \<le> limit" "1 \<le> distance"
  shows "nearest_free limit used position distance \<in> {1..limit} - used"
  using assms
proof (induction limit used position distance rule: nearest_free.induct)
  case (1 limit used position distance)
  from "1.prems"(1) obtain p where p: "p \<in> {1..limit} - used" "distance \<le> \<bar>p - position\<bar>" by blast
  have le: "\<not> distance > limit" using p "1.prems"(2,3) by auto
  show ?case
  proof (cases "(position - distance \<ge> 1 \<and> position - distance \<notin> used) \<or> (position + distance \<le> limit \<and> position + distance \<notin> used)")
    case True
    then show ?thesis using le "1.prems"(2-4) by (subst nearest_free.simps) auto
  next
    case False
    have "p \<noteq> position - distance \<and> p \<noteq> position + distance" using False p by auto
    then have "distance + 1 \<le> \<bar>p - position\<bar>" using p(2) by auto
    then have "nearest_free limit used position (distance + 1) \<in> {1..limit} - used"
      using False le p(1) "1.prems"(2-4) by (intro "1.IH") auto
    then show ?thesis using False le by (subst nearest_free.simps) auto
  qed
qed

lemma balanced_loop_spec:
  assumes "target < limit" "used = set result" "distinct result" "set result \<subseteq> {1..limit}" "int (length result) = k - 1" "1 \<le> k"
    and "k \<le> target + 1"
  shows "distinct (balanced_loop limit target k used result) \<and> set (balanced_loop limit target k used result) \<subseteq> {1..limit} \<and>
    int (length (balanced_loop limit target k used result)) = target"
  using assms
proof (induction limit target k used result rule: balanced_loop.induct)
  case (1 limit target k used result)
  show ?case
  proof (cases "k > target")
    case True
    with "1.prems" show ?thesis by (subst (1 2 3) balanced_loop.simps) simp
  next
    case False
    let ?p = "balanced_position limit target k"
    let ?q = "if ?p \<in> used then nearest_free limit used ?p 1 else ?p"
    have p: "1 \<le> ?p" "?p \<le> limit" using False "1.prems"(1,6) by (auto simp: balanced_position_def Let_def)
    have q: "?q \<in> {1..limit} - used"
    proof (cases "?p \<in> used")
      case True
      have "card used < card {1..limit}"
        using "1.prems"(1,2,3,5) False distinct_card [of result] by simp
      then have "\<not> {1..limit} \<subseteq> used" using "1.prems"(2) card_mono [of used "{1..limit}"] by fastforce
      then obtain x where "x \<in> {1..limit} - used" by blast
      moreover from this True have "x \<noteq> ?p" by auto
      then have "1 \<le> \<bar>x - ?p\<bar>" by simp
      ultimately have "\<exists>x \<in> {1..limit} - used. 1 \<le> \<bar>x - ?p\<bar>" by blast
      from nearest_free_found [OF this p] True show ?thesis by simp
    qed (use p in simp)
    then have "distinct (balanced_loop limit target (k + 1) (insert ?q used) (result @ [?q])) \<and>
        set (balanced_loop limit target (k + 1) (insert ?q used) (result @ [?q])) \<subseteq> {1..limit} \<and>
        int (length (balanced_loop limit target (k + 1) (insert ?q used) (result @ [?q]))) = target"
      using "1.prems" False by (intro "1.IH" [OF False refl refl]) auto
    then show ?thesis using False by (subst (1 2 3) balanced_loop.simps) (simp only: Let_def if_False)
  qed
qed

text \<open>
  C18. The balanced positions are what their caller needs: whenever limit and target are positive,
  they are exactly as many different positions of the page as the target asks for (all of them
  when it asks for more), in ascending order; the search for a free position always finds one.
\<close>

theorem BalancedPositions_exact:
  "int (length (BalancedPositions limit target)) = max 0 (min limit target) \<and>
   sorted_wrt (<) (BalancedPositions limit target) \<and> set (BalancedPositions limit target) \<subseteq> {1..limit}"
proof -
  consider "limit \<le> 0 \<or> target \<le> 0" | "0 < limit" "limit \<le> target" | "0 < target" "target < limit" by linarith
  then show ?thesis
  proof cases
    case 2
    then show ?thesis
      by (auto simp: BalancedPositions_def sorted_wrt_map intro!: sorted_wrt_mono_rel [OF _ sorted_wrt_upt])
  next
    case 3
    then have "distinct (balanced_loop limit target 1 {} []) \<and> set (balanced_loop limit target 1 {} []) \<subseteq> {1..limit} \<and>
        int (length (balanced_loop limit target 1 {} [])) = target" by (intro balanced_loop_spec) auto
    with 3 show ?thesis by (simp add: BalancedPositions_def strict_sorted_iff)
  qed (auto simp: BalancedPositions_def)
qed

section \<open>Exploration\<close>

record exploration_config =
  Ratio :: float64
  MaxSlots :: int
  RecentWindowDays :: int
  NovelPostMaxAgeDays :: int

definition ExplorationTarget :: "int \<Rightarrow> exploration_config \<Rightarrow> int" where
  "ExplorationTarget limit cfg =
     (if limit \<le> 0 \<or> fle (Ratio cfg) (Fin 0) then 0
      else
        (let target = to_int (fround (fmul (of_num limit) (Ratio cfg)));
             target = (if target > MaxSlots cfg then MaxSlots cfg else target);
             target = (if target > limit then limit else target)
         in if target < 0 then 0 else target))"

definition position_score :: "(string \<Rightarrow> string) \<Rightarrow> string \<Rightarrow> int \<Rightarrow> string" where
  "position_score digest request_id p = digest (request_id @ ''|recommendation_exploration_positions_v1|'' @ show_int p)"

text \<open>A position with its score; the ones added at the end have the empty score.\<close>

definition scored_before :: "int \<times> string \<Rightarrow> int \<times> string \<Rightarrow> bool" where
  "scored_before l r = (if snd l \<noteq> snd r then snd l < snd r else fst l < fst r)"

definition inner_position :: "int \<Rightarrow> int \<Rightarrow> bool" where
  "inner_position limit p \<longleftrightarrow> \<not> (limit > 2 \<and> (p = 1 \<or> p = limit))"

fun fill_positions :: "int list \<Rightarrow> int set \<Rightarrow> int \<Rightarrow> (int \<times> string) list \<Rightarrow> (int \<times> string) list" where
  "fill_positions [] remaining target positions = positions"
| "fill_positions (p # ps) remaining target positions =
     (if \<not> int (length positions) < target then positions
      else if p \<in> remaining then fill_positions ps remaining target positions
      else fill_positions ps remaining target (positions @ [(p, [])]))"

definition explorationPositions :: "(string \<Rightarrow> string) \<Rightarrow> string \<Rightarrow> int \<Rightarrow> int \<Rightarrow> int list" where
  "explorationPositions digest request_id limit target =
     (if limit \<le> 0 \<or> target \<le> 0 then []
      else
        (let target = (if target > limit then limit else target);
             positions = map (\<lambda>p. (p, position_score digest request_id p))
                           (filter (inner_position limit) [1..limit]);
             positions = sort_slice scored_before positions;
             positions = (if target > int (length positions)
                          then fill_positions [1..limit] (fst ` set positions) target positions else positions)
         in sort (map fst (take (nat target) positions))))"

lemma fill_positions_spec:
  assumes "distinct ps" "distinct (map fst positions)" "remaining \<subseteq> fst ` set positions" "set ps \<inter> fst ` set positions \<subseteq> remaining"
    and "int (length positions) \<le> target" "target \<le> int (length positions + card (set ps - remaining))"
  shows "\<exists>new. fill_positions ps remaining target positions = positions @ new \<and> fst ` set new \<subseteq> set ps \<and>
    distinct (map fst (positions @ new)) \<and> int (length (positions @ new)) = target"
  using assms
proof (induction ps remaining target positions rule: fill_positions.induct)
  case (2 p ps remaining target positions)
  show ?case
  proof (cases "int (length positions) < target")
    case False
    with "2.prems" show ?thesis by auto
  next
    case less: True
    show ?thesis
    proof (cases "p \<in> remaining")
      case True
      then have "set (p # ps) - remaining = set ps - remaining" by auto
      then have "\<exists>new. fill_positions ps remaining target positions = positions @ new \<and> fst ` set new \<subseteq> set ps \<and>
          distinct (map fst (positions @ new)) \<and> int (length (positions @ new)) = target"
        by (intro "2.IH"(1) [OF _ True]) (use "2.prems" less in auto)
      with less True show ?thesis by auto
    next
      case False
      with "2.prems"(4) have new: "p \<notin> fst ` set positions" by auto
      have "set (p # ps) - remaining = insert p (set ps - remaining)" using False by auto
      then have card: "card (set (p # ps) - remaining) = Suc (card (set ps - remaining))" using "2.prems"(1) by simp
      have "\<exists>new. fill_positions ps remaining target (positions @ [(p, [])]) = (positions @ [(p, [])]) @ new \<and>
          fst ` set new \<subseteq> set ps \<and> distinct (map fst ((positions @ [(p, [])]) @ new)) \<and>
          int (length ((positions @ [(p, [])]) @ new)) = target"
      proof (rule "2.IH"(2) [OF _ False])
        show "\<not> \<not> int (length positions) < target" using less by simp
        show "set ps \<inter> fst ` set (positions @ [(p, [])]) \<subseteq> remaining" using "2.prems"(1,4) by auto
        show "target \<le> int (length (positions @ [(p, [])]) + card (set ps - remaining))" using "2.prems"(6) card by simp
      qed (use "2.prems" less new in auto)
      then obtain new where "fill_positions ps remaining target (positions @ [(p, [])]) = (positions @ [(p, [])]) @ new"
        "fst ` set new \<subseteq> set ps" "distinct (map fst ((positions @ [(p, [])]) @ new))"
        "int (length ((positions @ [(p, [])]) @ new)) = target" by blast
      with less False show ?thesis by (intro exI [of _ "(p, []) # new"]) auto
    qed
  qed
qed auto

lemma scored_inner:
  fixes digest request_id limit
  defines "ps \<equiv> map (\<lambda>p. (p, position_score digest request_id p))
      (filter (inner_position limit) [1..limit])"
  shows "distinct (map fst (sort_slice scored_before ps))" "fst ` set ps = {p \<in> {1..limit}. inner_position limit p}"
proof -
  have map: "map fst ps = filter (inner_position limit) [1..limit]" by (simp add: ps_def comp_def)
  have "mset (map fst (sort_slice scored_before ps)) = mset (map fst ps)" by simp
  moreover have "distinct (map fst ps)" unfolding map by simp
  ultimately show "distinct (map fst (sort_slice scored_before ps))" by (metis mset_eq_imp_distinct_iff)
  have "fst ` set ps = set (map fst ps)" by simp
  then show "fst ` set ps = {p \<in> {1..limit}. inner_position limit p}" unfolding map by auto
qed

text \<open>
  C19. Whatever the digest of a request is, the exploration positions are as many different
  positions of the page as the target asks for, ascending; the first and the last position of
  a page of more than two are left to the ranking unless all others are explored already.
\<close>

theorem explorationPositions_exact:
  "int (length (explorationPositions digest request_id limit target)) = max 0 (min limit target) \<and>
   sorted_wrt (<) (explorationPositions digest request_id limit target) \<and>
   set (explorationPositions digest request_id limit target) \<subseteq> {1..limit} \<and>
   (2 < limit \<and> target \<le> limit - 2 \<longrightarrow> {1, limit} \<inter> set (explorationPositions digest request_id limit target) = {})"
proof (cases "limit \<le> 0 \<or> target \<le> 0")
  case False
  let ?t = "if target > limit then limit else target"
  let ?raw = "map (\<lambda>p. (p, position_score digest request_id p))
      (filter (inner_position limit) [1..limit])"
  let ?ps = "sort_slice scored_before ?raw"
  let ?all = "if ?t > int (length ?ps) then fill_positions [1..limit] (fst ` set ?ps) ?t ?ps else ?ps"
  note s = scored_inner [of digest request_id limit]
  have in_ps: "fst ` set ?ps = {p \<in> {1..limit}. inner_position limit p}" using s(2) by simp
  have all: "distinct (map fst ?all) \<and> fst ` set ?all \<subseteq> {1..limit} \<and> ?t \<le> int (length ?all)"
  proof (cases "?t > int (length ?ps)")
    case True
    have "card ({1..limit} - fst ` set ?ps) = card {1..limit} - card (fst ` set ?ps)"
      by (rule card_Diff_subset) (rule finite_imageI, rule finite_set, use in_ps in blast)
    moreover have "card (fst ` set ?ps) = length ?ps" using distinct_card [OF s(1)] by simp
    moreover have "card (fst ` set ?ps) \<le> card {1..limit}" by (rule card_mono) (auto simp: in_ps)
    ultimately have room: "?t \<le> int (length ?ps + card (set [1..limit] - fst ` set ?ps))" using False by auto
    have "\<exists>new. fill_positions [1..limit] (fst ` set ?ps) ?t ?ps = ?ps @ new \<and> fst ` set new \<subseteq> set [1..limit] \<and>
        distinct (map fst (?ps @ new)) \<and> int (length (?ps @ new)) = ?t"
      by (rule fill_positions_spec) (use s(1) True room in auto)
    then obtain new where "fill_positions [1..limit] (fst ` set ?ps) ?t ?ps = ?ps @ new" "fst ` set new \<subseteq> {1..limit}"
      "distinct (map fst (?ps @ new))" "int (length (?ps @ new)) = ?t" by auto
    moreover have "fst ` set ?ps \<subseteq> {1..limit}" unfolding in_ps by auto
    ultimately show ?thesis unfolding if_P [OF True] by (simp only: set_append image_Un) simp
  next
    case less: False
    have "fst ` set ?ps \<subseteq> {1..limit}" unfolding in_ps by auto
    with s(1) less show ?thesis unfolding if_not_P [OF less] by (simp only: not_less)
  qed
  have eq: "explorationPositions digest request_id limit target = sort (map fst (take (nat ?t) ?all))"
    using False by (simp add: explorationPositions_def Let_def)
  define A where "A = ?all"
  define n where "n = ?t"
  have A: "distinct (map fst A)" "fst ` set A \<subseteq> {1..limit}" "n \<le> int (length A)" using all unfolding A_def n_def by blast+
  have eq: "explorationPositions digest request_id limit target = sort (map fst (take (nat n) A))"
    unfolding A_def n_def by (rule eq)
  have dist: "distinct (map fst (take (nat n) A))" unfolding take_map [symmetric] by (rule distinct_take [OF A(1)])
  have take: "set (map fst (take (nat n) A)) \<subseteq> fst ` set A" unfolding set_map by (rule image_mono [OF set_take_subset])
  then have sub: "set (map fst (take (nat n) A)) \<subseteq> {1..limit}" using A(2) by blast
  have len: "int (length (map fst (take (nat n) A))) = max 0 (min limit target)"
    using A(3) False by (auto simp: n_def)
  have "{1, limit} \<inter> set (map fst (take (nat n) A)) = {}" if t: "2 < limit" "target \<le> limit - 2"
  proof -
    have "{p \<in> {1..limit}. inner_position limit p} = {2..limit - 1}" using t(1) by (auto simp: inner_position_def)
    then have in2: "fst ` set ?ps = {2..limit - 1}" using in_ps by simp
    then have "int (length ?ps) = limit - 2" using distinct_card [OF s(1)] t(1) by simp
    then have "A = ?ps" unfolding A_def using t by simp
    with take in2 show ?thesis by auto
  qed
  then show ?thesis
    unfolding eq using dist sub len by (simp add: strict_sorted_iff)
next
  case True
  then have "explorationPositions digest request_id limit target = []" by (simp only: explorationPositions_def if_True)
  with True show ?thesis by auto
qed

theorem explorationPositions_exact_witness:
  "{1, 5} \<inter> set (explorationPositions (\<lambda>s. s) ''request'' 5 3) = {}"
  using explorationPositions_exact [of "\<lambda>s. s" "''request''" 5 3] by simp

text \<open>The number of explorations never exceeds the page nor the configured slots.\<close>

lemma ExplorationTarget_bounds:
  "0 \<le> ExplorationTarget limit cfg \<and> ExplorationTarget limit cfg \<le> max 0 limit \<and>
   ExplorationTarget limit cfg \<le> max 0 (MaxSlots cfg)"
  by (simp add: ExplorationTarget_def Let_def)

end
