(* ===== verification/RecSelection.thy ===== *)
theory RecSelection
  imports RecFusion RecPositions
begin

text \<open>
  The selection of a page (\<open>recommendation/selection.go\<close>, with the cosine similarity of
  \<open>recommendation/profile.go\<close>): candidates are taken one by one under the diversity,
  author-window, network and exploration rules. Embeddings are lists of floats; a post carries
  the fields selection reads. Instants are nanoseconds.
\<close>

section \<open>Data\<close>

record post =
  ID :: nat
  AuthorID :: nat
  CreatedAt :: int

record score_breakdown =
  PositiveSemantic :: float64
  NegativeSemantic :: float64
  NegativeConfidence :: float64
  InteractionAffinity :: float64
  FollowingBonusApplied :: float64
  SemanticComponent :: float64
  TrendingComponent :: float64
  AuthorAffinityComponent :: float64
  OnboardingInterestComponent :: float64
  LanguageAffinity :: float64
  LanguageComponent :: float64
  DiversityPenalty :: float64
  BaseScore :: float64
  FinalScore :: float64

type_synonym embedding = "float64 list"

record ranked_candidate =
  Candidate :: candidate
  Post :: post
  Embedding :: embedding
  Breakdown :: score_breakdown
  ExplorationSemantic :: float64
  IsInNetwork :: bool
  IsNovelAuthor :: bool

datatype selection_mode = SelectionModeRanked | SelectionModeExploration

datatype exploration_reason =
  NoReason | ExplorationReasonRecent | ExplorationReasonNovelAuthor | ExplorationReasonRecentNovelAuthor

record selected_candidate =
  SCandidate :: candidate
  SPost :: post
  SEmbedding :: embedding
  SBreakdown :: score_breakdown
  SIsInNetwork :: bool
  SIsNovelAuthor :: bool
  ExplorationOpportunity :: bool
  SelectionMode :: selection_mode
  ExplorationReason :: exploration_reason
  SExplorationSemantic :: float64

datatype selection_phase = SelectionPhaseFresh | SelectionPhaseSoft

record diversity_config =
  Enabled :: bool
  AuthorWindowSize :: int
  MaxSameAuthorInWindow :: int
  SemanticDuplicateThreshold :: float64
  SemanticDuplicatePenalty :: float64

record selection_config =
  OutOfNetworkMinRatio :: float64
  Diversity :: diversity_config
  Exploration :: exploration_config

record selection_input =
  InCandidates :: "ranked_candidate list"
  Initial :: "selected_candidate list"
  Prior :: "selected_candidate list"
  Limit :: int
  Now :: int
  Phase :: selection_phase
  RequestID :: string
  Config :: selection_config

section \<open>Similarity\<close>

definition ValidEmbeddingVector :: "embedding \<Rightarrow> bool" where
  "ValidEmbeddingVector v \<longleftrightarrow>
     v \<noteq> [] \<and> list_all (\<lambda>x. x \<noteq> NaN \<and> x \<noteq> PInf \<and> x \<noteq> NInf) v \<and> list_ex (\<lambda>x. \<not> feq x (Fin 0)) v"

definition validComparableEmbedding :: "embedding \<Rightarrow> embedding \<Rightarrow> bool" where
  "validComparableEmbedding l r \<longleftrightarrow> ValidEmbeddingVector l \<and> ValidEmbeddingVector r \<and> length l = length r"

definition clamp_similarity :: "float64 \<Rightarrow> float64" where
  "clamp_similarity v = (if flt (Fin 1) v then Fin 1 else if flt v (Fin (- 1)) then Fin (- 1) else v)"

definition CosineSimilarity :: "embedding \<Rightarrow> embedding \<Rightarrow> float64" where
  "CosineSimilarity l r =
     (if \<not> ValidEmbeddingVector l \<or> \<not> ValidEmbeddingVector r \<or> length l \<noteq> length r then Fin 0
      else
        (let (dot, ln, rn) =
               foldl (\<lambda>(dot, ln, rn) (x, y). (fadd dot (fmul x y), fadd ln (fmul x x), fadd rn (fmul y y)))
                 (Fin 0, Fin 0, Fin 0) (zip l r)
         in if fle ln (Fin 0) \<or> fle rn (Fin 0) then Fin 0
            else clamp_similarity (fdiv dot (fsqrt (fmul ln rn)))))"

definition ClampUnit :: "float64 \<Rightarrow> float64" where
  "ClampUnit v = (if v = NaN \<or> v = PInf \<or> v = NInf \<or> flt v (Fin 0) then Fin 0 else if flt (Fin 1) v then Fin 1 else v)"

definition threshold_valid :: "diversity_config \<Rightarrow> bool" where
  "threshold_valid cfg \<longleftrightarrow>
     \<not> flt (SemanticDuplicateThreshold cfg) (Fin (- 1)) \<and> \<not> flt (Fin 1) (SemanticDuplicateThreshold cfg)"

definition isSemanticDuplicate :: "ranked_candidate \<Rightarrow> selected_candidate list \<Rightarrow> diversity_config \<Rightarrow> bool" where
  "isSemanticDuplicate c selected cfg =
     (if \<not> Enabled cfg \<or> \<not> threshold_valid cfg \<or> \<not> ValidEmbeddingVector (Embedding c) \<or> selected = [] then False
      else
        (let items = filter (\<lambda>item. validComparableEmbedding (SEmbedding item) (Embedding c)) selected;
             best = foldl (\<lambda>m item. fmax m (CosineSimilarity (Embedding c) (SEmbedding item))) (Fin (- 1)) items
         in items \<noteq> [] \<and> fle (SemanticDuplicateThreshold cfg) best))"

section \<open>The diversity state\<close>

text \<open>One flag for every candidate: whether it repeats something already selected.\<close>

record diversity_state =
  ds_candidates :: "ranked_candidate list"
  ds_duplicates :: "bool list"
  ds_enabled :: bool
  ds_threshold :: float64
  ds_penalty :: float64

definition newSelectionDiversityState ::
  "ranked_candidate list \<Rightarrow> selected_candidate list \<Rightarrow> diversity_config \<Rightarrow> diversity_state" where
  "newSelectionDiversityState candidates selected cfg =
     (let st = \<lparr>ds_candidates = candidates, ds_duplicates = replicate (length candidates) False, ds_enabled = False,
                ds_threshold = SemanticDuplicateThreshold cfg, ds_penalty = SemanticDuplicatePenalty cfg\<rparr>
      in if \<not> Enabled cfg \<or> \<not> threshold_valid cfg then st
         else st\<lparr>ds_enabled := True, ds_duplicates := map (\<lambda>c. isSemanticDuplicate c selected cfg) candidates\<rparr>)"

definition isDuplicate :: "diversity_state \<Rightarrow> nat \<Rightarrow> bool" where
  "isDuplicate st i \<longleftrightarrow> i < length (ds_duplicates st) \<and> ds_duplicates st ! i"

definition penalty :: "diversity_state \<Rightarrow> nat \<Rightarrow> float64" where
  "penalty st i = (if isDuplicate st i then ds_penalty st else Fin 0)"

definition addSelected :: "selected_candidate \<Rightarrow> diversity_state \<Rightarrow> diversity_state" where
  "addSelected selected st =
     (if \<not> ds_enabled st \<or> \<not> ValidEmbeddingVector (SEmbedding selected) then st
      else st\<lparr>ds_duplicates :=
        map (\<lambda>(d, c).
               if d \<or> \<not> validComparableEmbedding (Embedding c) (SEmbedding selected) then d
               else fle (ds_threshold st) (CosineSimilarity (Embedding c) (SEmbedding selected)))
          (zip (ds_duplicates st) (ds_candidates st))\<rparr>)"

section \<open>Orders\<close>

definition recommendationPostTime :: "post \<Rightarrow> int" where
  "recommendationPostTime p = CreatedAt p"

definition recommendationPostAgeDays :: "int \<Rightarrow> int \<Rightarrow> float64" where
  "recommendationPostAgeDays post_time now =
     (let days = fdiv (duration_hours (time_sub now post_time)) (Fin 24) in if flt days (Fin 0) then Fin 0 else days)"

definition explorationReason :: "ranked_candidate \<Rightarrow> int \<Rightarrow> exploration_config \<Rightarrow> exploration_reason" where
  "explorationReason c now cfg =
     (let days = recommendationPostAgeDays (recommendationPostTime (Post c)) now;
          recent = (FromRecent (Candidate c) \<and> fle days (of_num (RecentWindowDays cfg)));
          novel = (IsNovelAuthor c \<and> fle days (of_num (NovelPostMaxAgeDays cfg)))
      in if recent \<and> novel then ExplorationReasonRecentNovelAuthor
         else if novel then ExplorationReasonNovelAuthor
         else if recent then ExplorationReasonRecent
         else NoReason)"

definition explorationReasonPriority :: "exploration_reason \<Rightarrow> int" where
  "explorationReasonPriority r =
     (case r of ExplorationReasonRecentNovelAuthor \<Rightarrow> 3 | ExplorationReasonNovelAuthor \<Rightarrow> 2
      | ExplorationReasonRecent \<Rightarrow> 1 | NoReason \<Rightarrow> 0)"

definition net_score :: "ranked_candidate \<Rightarrow> float64" where
  "net_score c = fsub (BaseScore (Breakdown c)) (DiversityPenalty (Breakdown c))"

definition strictExplorationBefore :: "ranked_candidate \<Rightarrow> ranked_candidate \<Rightarrow> int \<Rightarrow> selection_config \<Rightarrow> bool" where
  "strictExplorationBefore l r now cfg =
     (let lr = explorationReasonPriority (explorationReason l now (Exploration cfg));
          rr = explorationReasonPriority (explorationReason r now (Exploration cfg));
          ltm = recommendationPostTime (Post l); rtm = recommendationPostTime (Post r)
      in if \<not> feq (ExplorationSemantic l) (ExplorationSemantic r) then flt (ExplorationSemantic r) (ExplorationSemantic l)
         else if lr \<noteq> rr then lr > rr
         else if \<not> feq (net_score l) (net_score r) then flt (net_score r) (net_score l)
         else if ltm \<noteq> rtm then ltm > rtm
         else ID (Post l) > ID (Post r))"

definition selectionBefore :: "ranked_candidate \<Rightarrow> ranked_candidate \<Rightarrow> selection_phase \<Rightarrow> bool" where
  "selectionBefore l r phase =
     (let ls = LastServedAt (Candidate l); rs = LastServedAt (Candidate r);
          lb = BaseScore (Breakdown l); rb = BaseScore (Breakdown r);
          ltm = recommendationPostTime (Post l); rtm = recommendationPostTime (Post r)
      in if phase = SelectionPhaseSoft \<and> ls \<noteq> rs
         then (if ls = zero_instant then False else if rs = zero_instant then True else ls < rs)
         else if \<not> feq (net_score l) (net_score r) then flt (net_score r) (net_score l)
         else if \<not> feq lb rb then flt rb lb
         else if ltm \<noteq> rtm then ltm > rtm
         else ID (Post l) > ID (Post r))"

section \<open>Choosing one candidate\<close>

definition authorWindowAllows :: "ranked_candidate \<Rightarrow> selected_candidate list \<Rightarrow> diversity_config \<Rightarrow> bool" where
  "authorWindowAllows c selected cfg =
     (if \<not> Enabled cfg \<or> AuthorWindowSize cfg \<le> 0 \<or> MaxSameAuthorInWindow cfg \<le> 0 then True
      else
        (let start = max 0 (int (length selected) - AuthorWindowSize cfg)
         in int (length (filter (\<lambda>s. AuthorID (SPost s) = AuthorID (Post c)) (drop (nat start) selected)))
              < MaxSameAuthorInWindow cfg))"

definition with_penalty :: "diversity_state \<Rightarrow> nat \<Rightarrow> ranked_candidate \<Rightarrow> ranked_candidate" where
  "with_penalty st i c = c\<lparr>Breakdown := (Breakdown c)\<lparr>DiversityPenalty := penalty st i\<rparr>\<rparr>"

text \<open>The loop that keeps the best admissible candidate; \<open>i\<close> is the index of the next one.\<close>

fun best_loop ::
  "(nat \<Rightarrow> ranked_candidate \<Rightarrow> bool) \<Rightarrow> (ranked_candidate \<Rightarrow> ranked_candidate \<Rightarrow> bool) \<Rightarrow> diversity_state \<Rightarrow>
   ranked_candidate list \<Rightarrow> nat \<Rightarrow> ranked_candidate option \<Rightarrow> ranked_candidate option" where
  "best_loop admissible before st [] i best = best"
| "best_loop admissible before st (c # cs) i best =
     best_loop admissible before st cs (i + 1)
       (if \<not> admissible i c then best
        else (case best of
                None \<Rightarrow> Some (with_penalty st i c)
              | Some b \<Rightarrow> if before (with_penalty st i c) b then Some (with_penalty st i c) else best))"

definition chooseCandidate ::
  "ranked_candidate list \<Rightarrow> selected_candidate list \<Rightarrow> diversity_state \<Rightarrow> (ranked_candidate \<Rightarrow> bool) \<Rightarrow>
   (ranked_candidate \<Rightarrow> bool) \<Rightarrow> selection_config \<Rightarrow> selection_phase \<Rightarrow> bool \<Rightarrow> ranked_candidate option" where
  "chooseCandidate candidates selected st available preferred cfg phase enforce =
     best_loop
       (\<lambda>i c. available c \<and> preferred c \<and> (enforce \<longrightarrow> authorWindowAllows (with_penalty st i c) selected (Diversity cfg)))
       (\<lambda>l r. selectionBefore l r phase) st candidates 0 None"

definition chooseStrictExplorationCandidateFrom ::
  "ranked_candidate list \<Rightarrow> selected_candidate list \<Rightarrow> diversity_state \<Rightarrow> (ranked_candidate \<Rightarrow> bool) \<Rightarrow>
   (ranked_candidate \<Rightarrow> bool) \<Rightarrow> selection_config \<Rightarrow> int \<Rightarrow> ranked_candidate option" where
  "chooseStrictExplorationCandidateFrom candidates selected st available preferred cfg now =
     best_loop
       (\<lambda>i c. available c \<and> preferred c \<and> explorationReason c now (Exploration cfg) \<noteq> NoReason \<and>
          \<not> isDuplicate st i \<and> authorWindowAllows c selected (Diversity cfg))
       (\<lambda>l r. strictExplorationBefore l r now cfg) st candidates 0 None"

definition prefer_out :: "int set \<Rightarrow> int \<Rightarrow> ranked_candidate \<Rightarrow> bool" where
  "prefer_out out_positions position c \<longleftrightarrow> (position \<in> out_positions \<longrightarrow> \<not> IsInNetwork c)"

definition or_else :: "'a option \<Rightarrow> 'a option \<Rightarrow> 'a option" where
  "or_else a b = (case a of None \<Rightarrow> b | Some _ \<Rightarrow> a)"

definition chooseNormalCandidate ::
  "ranked_candidate list \<Rightarrow> selected_candidate list \<Rightarrow> diversity_state \<Rightarrow> (ranked_candidate \<Rightarrow> bool) \<Rightarrow>
   int set \<Rightarrow> int \<Rightarrow> selection_config \<Rightarrow> selection_phase \<Rightarrow> ranked_candidate option" where
  "chooseNormalCandidate candidates selected st available out_positions position cfg phase =
     (let pick = chooseCandidate candidates selected st available; prefer_it = prefer_out out_positions position
      in or_else (pick prefer_it cfg phase True)
          (or_else (pick (\<lambda>_. True) cfg phase True)
            (or_else (pick prefer_it cfg phase False) (pick (\<lambda>_. True) cfg phase False))))"

definition chooseStrictExplorationCandidateWithConfig ::
  "ranked_candidate list \<Rightarrow> selected_candidate list \<Rightarrow> diversity_state \<Rightarrow> (ranked_candidate \<Rightarrow> bool) \<Rightarrow>
   int set \<Rightarrow> int \<Rightarrow> selection_config \<Rightarrow> int \<Rightarrow> ranked_candidate option" where
  "chooseStrictExplorationCandidateWithConfig candidates selected st available out_positions position cfg now =
     or_else
       (chooseStrictExplorationCandidateFrom candidates selected st available (prefer_out out_positions position) cfg now)
       (chooseStrictExplorationCandidateFrom candidates selected st available (\<lambda>_. True) cfg now)"

section \<open>Selecting a page\<close>

definition phase_allows :: "selection_phase \<Rightarrow> ranked_candidate \<Rightarrow> bool" where
  "phase_allows phase c \<longleftrightarrow>
     (phase = SelectionPhaseFresh \<longrightarrow> \<not> WasSoftServed (Candidate c)) \<and>
     (phase = SelectionPhaseSoft \<longrightarrow> WasSoftServed (Candidate c))"

text \<open>What one turn chooses: the candidate, whether the turn is an opportunity, and how it was chosen.\<close>

definition choose_turn ::
  "selection_input \<Rightarrow> int set \<Rightarrow> int set \<Rightarrow> selected_candidate list \<Rightarrow> diversity_state \<Rightarrow> nat set \<Rightarrow> int \<Rightarrow>
   (ranked_candidate \<times> bool \<times> selection_mode \<times> exploration_reason \<times> float64) option" where
  "choose_turn input out_positions exploration context st selected_ids position =
     (let available = (\<lambda>c. ID (Post c) \<notin> selected_ids \<and> phase_allows (Phase input) c);
          normal = chooseNormalCandidate (InCandidates input) context st available out_positions position (Config input) (Phase input);
          plain = (\<lambda>opportunity. map_option (\<lambda>c. (c, opportunity, SelectionModeRanked, NoReason, Fin 0)) normal)
      in if Phase input = SelectionPhaseFresh \<and> position \<in> exploration then
           (case chooseStrictExplorationCandidateWithConfig (InCandidates input) context st available out_positions position
                   (Config input) (Now input) of
              Some strict \<Rightarrow>
                (if (case normal of None \<Rightarrow> True | Some n \<Rightarrow> ID (Post strict) \<noteq> ID (Post n))
                 then Some (strict, True, SelectionModeExploration,
                        explorationReason strict (Now input) (Exploration (Config input)), ClampUnit (ExplorationSemantic strict))
                 else plain True)
            | None \<Rightarrow> plain True)
         else plain False)"

definition selected_of :: "ranked_candidate \<Rightarrow> bool \<Rightarrow> selection_mode \<Rightarrow> exploration_reason \<Rightarrow> float64 \<Rightarrow> selected_candidate" where
  "selected_of c opportunity mode reason semantic =
     \<lparr>SCandidate = Candidate c, SPost = Post c, SEmbedding = Embedding c,
      SBreakdown = (Breakdown c)\<lparr>FinalScore := net_score c\<rparr>, SIsInNetwork = IsInNetwork c, SIsNovelAuthor = IsNovelAuthor c,
      ExplorationOpportunity = opportunity, SelectionMode = mode, ExplorationReason = reason, SExplorationSemantic = semantic\<rparr>"

function select_loop ::
  "selection_input \<Rightarrow> int set \<Rightarrow> int set \<Rightarrow> selected_candidate list \<Rightarrow> selected_candidate list \<Rightarrow> diversity_state \<Rightarrow> nat set \<Rightarrow>
   selected_candidate list" where
  "select_loop input out_positions exploration result context st selected_ids =
     (if \<not> int (length result) < Limit input then result
      else
        (case choose_turn input out_positions exploration context st selected_ids (int (length result) + 1) of
           None \<Rightarrow> result
         | Some (c, opportunity, mode, reason, semantic) \<Rightarrow>
            (let selected = selected_of c opportunity mode reason semantic
             in select_loop input out_positions exploration (result @ [selected]) (context @ [selected])
                  (addSelected selected st) (insert (ID (Post c)) selected_ids))))"
  by pat_completeness auto
termination
  by (relation "measure (\<lambda>(input, out_positions, exploration, result, context, st, selected_ids).
        nat (Limit input - int (length result)))") auto

declare select_loop.simps [simp del]

definition SelectCandidates :: "(string \<Rightarrow> string) \<Rightarrow> selection_input \<Rightarrow> selected_candidate list" where
  "SelectCandidates digest input =
     (if Limit input \<le> 0 then []
      else
        (let context = Prior input @ Initial input; cfg = Config input;
             out_target = to_int (fround (fmul (of_num (Limit input)) (OutOfNetworkMinRatio cfg)));
             exploration = (if Phase input = SelectionPhaseFresh
               then explorationPositions digest (RequestID input) (Limit input) (ExplorationTarget (Limit input) (Exploration cfg))
               else [])
         in select_loop input (set (BalancedPositions (Limit input) out_target)) (set exploration) (Initial input) context
              (newSelectionDiversityState (InCandidates input) context (Diversity cfg)) ((\<lambda>s. ID (SPost s)) ` set context)))"

definition SelectNextPage :: "(string \<Rightarrow> string) \<Rightarrow> selection_input \<Rightarrow> selected_candidate list \<Rightarrow> selected_candidate list" where
  "SelectNextPage digest input prior = SelectCandidates digest (input\<lparr>Prior := prior\<rparr>)"

record selection_counts =
  Target :: int
  Opportunities :: int
  Results :: int

definition ExplorationCountsForSelection :: "selected_candidate list \<Rightarrow> int \<Rightarrow> selection_counts" where
  "ExplorationCountsForSelection selected target =
     \<lparr>Target = target, Opportunities = int (length (filter ExplorationOpportunity selected)),
      Results = int (length (filter (\<lambda>s. SelectionMode s = SelectionModeExploration) selected))\<rparr>"

definition NovelAuthorCount :: "selected_candidate list \<Rightarrow> int" where
  "NovelAuthorCount selected = int (length (filter SIsNovelAuthor selected))"

section \<open>The loop over the candidates\<close>

lemma best_loop_Some:
  assumes "best_loop adm bef st cs i best = Some r"
  shows "best = Some r \<or> (\<exists>j < length cs. adm (i + j) (cs ! j) \<and> r = with_penalty st (i + j) (cs ! j))"
  using assms
proof (induction cs arbitrary: i best)
  case (Cons c cs)
  let ?best = "if \<not> adm i c then best
      else (case best of None \<Rightarrow> Some (with_penalty st i c)
            | Some b \<Rightarrow> if bef (with_penalty st i c) b then Some (with_penalty st i c) else best)"
  from Cons.prems have "best_loop adm bef st cs (i + 1) ?best = Some r" by simp
  from Cons.IH [OF this] show ?case
  proof (elim disjE exE conjE)
    assume "?best = Some r"
    then have "best = Some r \<or> (adm i c \<and> r = with_penalty st i c)" by (auto split: if_splits option.splits)
    then show ?thesis by (elim disjE) (auto intro: exI [of _ 0])
  next
    fix j assume "j < length cs" "adm (i + 1 + j) (cs ! j)" "r = with_penalty st (i + 1 + j) (cs ! j)"
    then show ?thesis by (intro disjI2 exI [of _ "Suc j"]) simp
  qed
qed simp

lemma best_loop_None: "best_loop adm bef st cs i best = None \<longleftrightarrow> best = None \<and> (\<forall>j < length cs. \<not> adm (i + j) (cs ! j))"
proof (induction cs arbitrary: i best)
  case (Cons c cs)
  have "(\<forall>j < length (c # cs). \<not> adm (i + j) ((c # cs) ! j)) \<longleftrightarrow>
      \<not> adm i c \<and> (\<forall>j < length cs. \<not> adm (i + 1 + j) (cs ! j))"
    by (auto simp: less_Suc_eq_0_disj)
  then show ?case unfolding best_loop.simps Cons.IH by (auto split: option.splits)
qed simp

text \<open>A comparison of candidates by a key leaves the best one at the end of the loop.\<close>

definition ranks :: "('a \<Rightarrow> 'a \<Rightarrow> bool) \<Rightarrow> 'a set \<Rightarrow> bool" where
  "ranks bef A \<longleftrightarrow>
     (\<forall>x \<in> A. \<forall>y \<in> A. bef x y \<longrightarrow> \<not> bef y x) \<and> (\<forall>x \<in> A. \<forall>y \<in> A. \<forall>z \<in> A. bef x z \<longrightarrow> bef x y \<or> bef y z)"

lemma best_loop_best:
  assumes "best_loop adm bef st cs i best = Some r"
    and "ranks bef ({with_penalty st (i + j) (cs ! j) | j. j < length cs \<and> adm (i + j) (cs ! j)} \<union> set_option best)"
  shows "(\<forall>j < length cs. adm (i + j) (cs ! j) \<longrightarrow> \<not> bef (with_penalty st (i + j) (cs ! j)) r) \<and>
    (\<forall>b. best = Some b \<longrightarrow> \<not> bef b r)"
  using assms
proof (induction cs arbitrary: i best)
  case Nil
  then show ?case by (auto simp: ranks_def)
next
  case (Cons c cs)
  let ?w = "with_penalty st i c"
  let ?A = "{with_penalty st (i + j) ((c # cs) ! j) | j. j < length (c # cs) \<and> adm (i + j) ((c # cs) ! j)}"
  let ?B = "{with_penalty st (i + 1 + j) (cs ! j) | j. j < length cs \<and> adm (i + 1 + j) (cs ! j)}"
  define best' where "best' = (if \<not> adm i c then best
      else (case best of None \<Rightarrow> Some ?w | Some b \<Rightarrow> if bef ?w b then Some ?w else best))"
  have run: "best_loop adm bef st cs (i + 1) best' = Some r" using Cons.prems(1) by (simp add: best'_def)
  have ex: "(\<exists>j. Q j) \<longleftrightarrow> Q 0 \<or> (\<exists>j. Q (Suc j))" for Q :: "nat \<Rightarrow> bool" by (metis not0_implies_Suc)
  have "x \<in> ?A \<longleftrightarrow> x \<in> (if adm i c then {?w} else {}) \<union> ?B" for x
    unfolding mem_Collect_eq Un_iff by (subst ex) simp
  then have A: "?A = (if adm i c then {?w} else {}) \<union> ?B" by blast
  have sub: "?B \<union> set_option best' \<subseteq> ?A \<union> set_option best"
    unfolding A best'_def by (auto split: option.splits if_splits)
  have rk: "ranks bef (?B \<union> set_option best')"
    using Cons.prems(2) sub unfolding ranks_def by (meson subsetD)
  note IH = Cons.IH [OF run rk]
  have r_in: "r \<in> ?B \<union> set_option best'" using best_loop_Some [OF run] by auto
  have asym: "bef x y \<Longrightarrow> \<not> bef y x" if "x \<in> ?A \<union> set_option best" "y \<in> ?A \<union> set_option best" for x y
    using Cons.prems(2) that unfolding ranks_def by blast
  have neg: "bef x z \<Longrightarrow> bef x y \<or> bef y z"
    if "x \<in> ?A \<union> set_option best" "y \<in> ?A \<union> set_option best" "z \<in> ?A \<union> set_option best" for x y z
    using Cons.prems(2) that unfolding ranks_def by blast
  have rA: "r \<in> ?A \<union> set_option best" using r_in sub by blast
  have first: "\<not> bef ?w r" if "adm i c"
  proof -
    have wA: "?w \<in> ?A \<union> set_option best" unfolding A using that by simp
    show ?thesis
    proof (cases "best' = Some ?w")
      case True
      with IH show ?thesis by blast
    next
      case False
      then obtain b where b: "best = Some b" "\<not> bef ?w b" "best' = Some b"
        using \<open>adm i c\<close> by (auto simp: best'_def split: option.splits if_splits)
      have "b \<in> ?A \<union> set_option best" using b(1) by simp
      from neg [OF wA this rA] b IH show ?thesis by blast
    qed
  qed
  have old: "\<not> bef b r" if b: "best = Some b" for b
  proof (cases "best' = Some b")
    case True
    with IH show ?thesis by blast
  next
    case False
    then have w: "adm i c" "bef ?w b" using b by (auto simp: best'_def split: if_splits)
    have wA: "?w \<in> ?A \<union> set_option best" unfolding A using w(1) by simp
    have bA: "b \<in> ?A \<union> set_option best" using b by simp
    from neg [OF bA wA rA] asym [OF wA bA] w first show ?thesis by blast
  qed
  show ?case
  proof (intro conjI allI impI)
    fix j assume "j < length (c # cs)" "adm (i + j) ((c # cs) ! j)"
    then show "\<not> bef (with_penalty st (i + j) ((c # cs) ! j)) r"
      using first IH by (cases j) auto
  qed (use old in blast)
qed

section \<open>What a turn chooses\<close>

abbreviation ids_of :: "selected_candidate list \<Rightarrow> nat set" where
  "ids_of ss \<equiv> (\<lambda>s. ID (SPost s)) ` set ss"

lemma with_penalty_simps [simp]:
  "Post (with_penalty st i c) = Post c" "Candidate (with_penalty st i c) = Candidate c"
  "Embedding (with_penalty st i c) = Embedding c" "IsInNetwork (with_penalty st i c) = IsInNetwork c"
  "IsNovelAuthor (with_penalty st i c) = IsNovelAuthor c"
  "ExplorationSemantic (with_penalty st i c) = ExplorationSemantic c"
  "DiversityPenalty (Breakdown (with_penalty st i c)) = penalty st i"
  "BaseScore (Breakdown (with_penalty st i c)) = BaseScore (Breakdown c)"
  by (simp_all add: with_penalty_def)

lemma window_with_penalty [simp]: "authorWindowAllows (with_penalty st i c) ctx cfg = authorWindowAllows c ctx cfg"
  by (simp add: authorWindowAllows_def)

lemma or_else_Some: "or_else a b = Some x \<longleftrightarrow> a = Some x \<or> (a = None \<and> b = Some x)"
  by (auto simp: or_else_def split: option.splits)

lemma or_else_None: "or_else a b = None \<longleftrightarrow> a = None \<and> b = None"
  by (auto simp: or_else_def split: option.splits)

lemma chooseCandidate_Some:
  assumes "chooseCandidate cs ctx st av pr cfg ph en = Some r"
  shows "\<exists>j < length cs. r = with_penalty st j (cs ! j) \<and> av (cs ! j) \<and> (en \<longrightarrow> authorWindowAllows (cs ! j) ctx (Diversity cfg))"
  using best_loop_Some [OF assms [unfolded chooseCandidate_def]] by auto

lemma chooseCandidate_None:
  "chooseCandidate cs ctx st av pr cfg ph en = None \<longleftrightarrow>
     (\<forall>c \<in> set cs. \<not> (av c \<and> pr c \<and> (en \<longrightarrow> authorWindowAllows c ctx (Diversity cfg))))"
  unfolding chooseCandidate_def best_loop_None by (auto simp: all_set_conv_all_nth)

lemma normal_Some:
  assumes "chooseNormalCandidate cs ctx st av out pos cfg ph = Some r"
  shows "\<exists>j < length cs. r = with_penalty st j (cs ! j) \<and> av (cs ! j) \<and>
    (authorWindowAllows (cs ! j) ctx (Diversity cfg) \<or> (\<forall>c \<in> set cs. av c \<longrightarrow> \<not> authorWindowAllows c ctx (Diversity cfg)))"
proof -
  from assms consider
      (1) pr where "chooseCandidate cs ctx st av pr cfg ph True = Some r"
    | (2) pr where "chooseCandidate cs ctx st av (\<lambda>_. True) cfg ph True = None" "chooseCandidate cs ctx st av pr cfg ph False = Some r"
    unfolding chooseNormalCandidate_def Let_def or_else_Some or_else_None by blast
  then show ?thesis
  proof cases
    case 1
    from chooseCandidate_Some [OF 1] show ?thesis by blast
  next
    case 2
    have "\<forall>c \<in> set cs. av c \<longrightarrow> \<not> authorWindowAllows c ctx (Diversity cfg)"
      using 2(1) unfolding chooseCandidate_None by blast
    with chooseCandidate_Some [OF 2(2)] show ?thesis by blast
  qed
qed

lemma normal_None: "chooseNormalCandidate cs ctx st av out pos cfg ph = None \<Longrightarrow> \<forall>c \<in> set cs. \<not> av c"
  unfolding chooseNormalCandidate_def Let_def or_else_None chooseCandidate_None by blast

lemma strict_Some:
  assumes "chooseStrictExplorationCandidateWithConfig cs ctx st av out pos cfg now = Some r"
  shows "\<exists>j < length cs. r = with_penalty st j (cs ! j) \<and> av (cs ! j) \<and> authorWindowAllows (cs ! j) ctx (Diversity cfg) \<and>
    \<not> isDuplicate st j \<and> explorationReason (cs ! j) now (Exploration cfg) \<noteq> NoReason"
proof -
  from assms obtain pr where "chooseStrictExplorationCandidateFrom cs ctx st av pr cfg now = Some r"
    unfolding chooseStrictExplorationCandidateWithConfig_def or_else_Some by blast
  from best_loop_Some [OF this [unfolded chooseStrictExplorationCandidateFrom_def]] show ?thesis by auto
qed

text \<open>What a turn takes: a candidate not yet on the page, of the phase, inside the author window if any is.\<close>

lemma choose_turn_Some:
  assumes "choose_turn input out expl ctx st ids pos = Some (c, opp, mode, reason, sem)"
  shows "\<exists>j < length (InCandidates input). c = with_penalty st j (InCandidates input ! j) \<and>
    ID (Post c) \<notin> ids \<and> phase_allows (Phase input) (InCandidates input ! j) \<and>
    (mode = SelectionModeExploration \<longrightarrow> opp \<and> Phase input = SelectionPhaseFresh \<and> pos \<in> expl \<and> \<not> isDuplicate st j \<and>
       explorationReason (InCandidates input ! j) (Now input) (Exploration (Config input)) \<noteq> NoReason) \<and>
    (authorWindowAllows (InCandidates input ! j) ctx (Diversity (Config input)) \<or>
     (\<forall>c' \<in> set (InCandidates input). ID (Post c') \<notin> ids \<and> phase_allows (Phase input) c' \<longrightarrow>
        \<not> authorWindowAllows c' ctx (Diversity (Config input))))"
proof -
  let ?av = "\<lambda>c. ID (Post c) \<notin> ids \<and> phase_allows (Phase input) c"
  let ?normal = "chooseNormalCandidate (InCandidates input) ctx st ?av out pos (Config input) (Phase input)"
  let ?strict = "chooseStrictExplorationCandidateWithConfig (InCandidates input) ctx st ?av out pos (Config input) (Now input)"
  consider (normal) "?normal = Some c" "mode = SelectionModeRanked"
    | (strict) "?strict = Some c" "opp" "Phase input = SelectionPhaseFresh" "pos \<in> expl"
    using assms unfolding choose_turn_def Let_def by (auto split: if_splits option.splits)
  then show ?thesis
  proof cases
    case normal
    from normal_Some [OF normal(1)] normal(2) show ?thesis by auto
  next
    case strict
    from strict_Some [OF strict(1)] strict(2-4) show ?thesis by auto
  qed
qed

lemma choose_turn_None:
  assumes "choose_turn input out expl ctx st ids pos = None"
  shows "\<forall>c \<in> set (InCandidates input). phase_allows (Phase input) c \<longrightarrow> ID (Post c) \<in> ids"
proof -
  have "chooseNormalCandidate (InCandidates input) ctx st (\<lambda>c. ID (Post c) \<notin> ids \<and> phase_allows (Phase input) c) out pos
      (Config input) (Phase input) = None"
    using assms unfolding choose_turn_def Let_def by (auto split: if_splits option.splits)
  from normal_None [OF this] show ?thesis by blast
qed

section \<open>The diversity flags\<close>

text \<open>Similarities are numbers; Go's \<open>float32\<close> components are too small for anything else.\<close>

definition similar_ok :: "ranked_candidate \<Rightarrow> embedding \<Rightarrow> bool" where
  "similar_ok c e \<longleftrightarrow> CosineSimilarity (Embedding c) e \<noteq> NaN"

lemma fle_trans: "fle x y \<Longrightarrow> fle y z \<Longrightarrow> fle x z"
  by (cases x; cases y; cases z) (auto simp: feq_def)

lemma cosine_ge: "CosineSimilarity l r \<noteq> NaN \<Longrightarrow> fle (Fin (- 1)) (CosineSimilarity l r)"
proof -
  have step: "clamp_similarity v \<noteq> NaN \<Longrightarrow> fle (Fin (- 1)) (clamp_similarity v)" for v
    by (cases v) (auto simp: feq_def clamp_similarity_def split: if_splits)
  have "CosineSimilarity l r = Fin 0 \<or> (\<exists>v. CosineSimilarity l r = clamp_similarity v)"
    unfolding CosineSimilarity_def Let_def by (auto split: prod.split)
  moreover assume "CosineSimilarity l r \<noteq> NaN"
  moreover have "fle (Fin (- 1)) (Fin 0)" by simp
  ultimately show ?thesis using step by metis
qed

lemma fle_fmax: "x \<noteq> NaN \<Longrightarrow> y \<noteq> NaN \<Longrightarrow> fmax x y \<noteq> NaN \<and> (fle t (fmax x y) \<longleftrightarrow> fle t x \<or> fle t y)"
  by (cases x; cases y; cases t) (auto simp: fmax_def feq_def)

lemma fold_fmax:
  assumes "\<forall>e \<in> set es. f e \<noteq> NaN" "m \<noteq> NaN"
  shows "fle t (foldl (\<lambda>m e. fmax m (f e)) m es) \<longleftrightarrow> fle t m \<or> (\<exists>e \<in> set es. fle t (f e))"
  using assms
proof (induction es arbitrary: m)
  case (Cons e es)
  then show ?case using fle_fmax [of m "f e" t] by auto
qed simp

text \<open>A candidate is a duplicate when it comes close to one comparable selected item.\<close>

lemma isSemanticDuplicate_iff:
  assumes "\<forall>s \<in> set ctx. similar_ok c (SEmbedding s)"
  shows "isSemanticDuplicate c ctx cfg \<longleftrightarrow>
    Enabled cfg \<and> threshold_valid cfg \<and>
    (\<exists>s \<in> set ctx. validComparableEmbedding (SEmbedding s) (Embedding c) \<and>
       fle (SemanticDuplicateThreshold cfg) (CosineSimilarity (Embedding c) (SEmbedding s)))"
proof -
  let ?items = "filter (\<lambda>s. validComparableEmbedding (SEmbedding s) (Embedding c)) ctx"
  let ?t = "SemanticDuplicateThreshold cfg"
  have "fle ?t (foldl (\<lambda>m s. fmax m (CosineSimilarity (Embedding c) (SEmbedding s))) (Fin (- 1)) ?items) \<longleftrightarrow>
      fle ?t (Fin (- 1)) \<or> (\<exists>s \<in> set ?items. fle ?t (CosineSimilarity (Embedding c) (SEmbedding s)))"
    by (rule fold_fmax) (use assms in \<open>auto simp: similar_ok_def\<close>)
  moreover have "fle ?t (CosineSimilarity (Embedding c) (SEmbedding s))" if "fle ?t (Fin (- 1))" "s \<in> set ctx" for s
    using that assms fle_trans [OF _ cosine_ge] unfolding similar_ok_def by blast
  moreover have "?items \<noteq> [] \<longleftrightarrow> (\<exists>s \<in> set ctx. validComparableEmbedding (SEmbedding s) (Embedding c))"
    by (auto simp: filter_empty_conv)
  moreover have "validComparableEmbedding (SEmbedding s) (Embedding c) \<Longrightarrow> ValidEmbeddingVector (Embedding c)" for s
    by (simp add: validComparableEmbedding_def)
  ultimately show ?thesis
    unfolding isSemanticDuplicate_def Let_def by (auto split: if_splits)
qed

lemma isDuplicate_new:
  "isDuplicate (newSelectionDiversityState cs ctx cfg) j \<longleftrightarrow> j < length cs \<and> isSemanticDuplicate (cs ! j) ctx cfg"
  by (auto simp: isDuplicate_def newSelectionDiversityState_def isSemanticDuplicate_def Let_def)

lemma penalty_new:
  "j < length cs \<Longrightarrow> penalty (newSelectionDiversityState cs ctx cfg) j =
     (if isSemanticDuplicate (cs ! j) ctx cfg then SemanticDuplicatePenalty cfg else Fin 0)"
  by (simp add: penalty_def isDuplicate_new) (simp add: newSelectionDiversityState_def Let_def)

lemma add_state:
  assumes "\<forall>c \<in> set cs. \<forall>s \<in> set (ctx @ [x]). similar_ok c (SEmbedding s)"
  shows "addSelected x (newSelectionDiversityState cs ctx cfg) = newSelectionDiversityState cs (ctx @ [x]) cfg"
proof (cases "Enabled cfg \<and> threshold_valid cfg")
  case True
  have new: "isSemanticDuplicate c (ctx @ [x]) cfg \<longleftrightarrow>
      isSemanticDuplicate c ctx cfg \<or> (validComparableEmbedding (SEmbedding x) (Embedding c) \<and>
        fle (SemanticDuplicateThreshold cfg) (CosineSimilarity (Embedding c) (SEmbedding x)))" if "c \<in> set cs" for c
    using isSemanticDuplicate_iff [of "ctx @ [x]" c cfg] isSemanticDuplicate_iff [of ctx c cfg] assms that True by auto
  have sym: "validComparableEmbedding l r = validComparableEmbedding r l" for l r
    by (auto simp: validComparableEmbedding_def)
  have zip: "zip (map f cs) cs = map (\<lambda>c. (f c, c)) cs" for f :: "ranked_candidate \<Rightarrow> bool" by (induction cs) auto
  show ?thesis
  proof (cases "ValidEmbeddingVector (SEmbedding x)")
    case valid: True
    define F where "F c = (if isSemanticDuplicate c ctx cfg \<or> \<not> validComparableEmbedding (Embedding c) (SEmbedding x)
            then isSemanticDuplicate c ctx cfg
            else fle (SemanticDuplicateThreshold cfg) (CosineSimilarity (Embedding c) (SEmbedding x)))" for c
    let ?st = "newSelectionDiversityState cs ctx cfg"
    have "F c = isSemanticDuplicate c (ctx @ [x]) cfg" if "c \<in> set cs" for c
      using new [OF that] sym [of "Embedding c" "SEmbedding x"] unfolding F_def by (simp only: if_bool_eq_disj) blast
    then have F: "map F cs = map (\<lambda>c. isSemanticDuplicate c (ctx @ [x]) cfg) cs" by (intro map_cong refl)
    have "addSelected x ?st = ?st\<lparr>ds_duplicates := map F cs\<rparr>"
      using True valid by (simp add: addSelected_def newSelectionDiversityState_def Let_def zip comp_def F_def)
    also have "\<dots> = newSelectionDiversityState cs (ctx @ [x]) cfg"
      unfolding F using True by (simp add: newSelectionDiversityState_def Let_def)
    finally show ?thesis .
  next
    case False
    then have "isSemanticDuplicate c (ctx @ [x]) cfg = isSemanticDuplicate c ctx cfg" if "c \<in> set cs" for c
      using new [OF that] by (simp add: validComparableEmbedding_def)
    with False True show ?thesis
      by (simp add: addSelected_def newSelectionDiversityState_def Let_def cong: map_cong)
  qed
qed (auto simp: addSelected_def newSelectionDiversityState_def Let_def)

text \<open>
  The duplicate flags that a selection updates item by item are always the flags a fresh
  comparison of every candidate with everything selected so far would give.
\<close>

theorem addSelected_incremental:
  assumes "\<forall>c \<in> set cs. \<forall>s \<in> set (ctx @ xs). similar_ok c (SEmbedding s)"
  shows "foldl (\<lambda>st x. addSelected x st) (newSelectionDiversityState cs ctx cfg) xs = newSelectionDiversityState cs (ctx @ xs) cfg"
  using assms
proof (induction xs arbitrary: ctx)
  case (Cons x xs)
  have "addSelected x (newSelectionDiversityState cs ctx cfg) = newSelectionDiversityState cs (ctx @ [x]) cfg"
    using Cons.prems by (intro add_state) auto
  with Cons.IH [of "ctx @ [x]"] Cons.prems show ?case by simp
qed simp

section \<open>The page\<close>

text \<open>
  The loop, for an invariant \<open>I\<close> of its state and a property \<open>Q\<close> of every item it takes relative
  to what was selected before: it stops at the limit or when a turn finds nothing.
\<close>

lemma select_loop_inv:
  assumes "I ctx st ids" "int (length ctx) - int (length result) = d"
    and step: "\<And>ctx st ids pos c opp mode reason sem.
      I ctx st ids \<Longrightarrow> pos = int (length ctx) - d + 1 \<Longrightarrow> choose_turn input out expl ctx st ids pos = Some (c, opp, mode, reason, sem) \<Longrightarrow>
      Q ctx (selected_of c opp mode reason sem) \<and>
      I (ctx @ [selected_of c opp mode reason sem]) (addSelected (selected_of c opp mode reason sem) st) (insert (ID (Post c)) ids)"
  shows "\<exists>new st' ids'. select_loop input out expl result ctx st ids = result @ new \<and>
    (\<forall>i < length new. Q (ctx @ take i new) (new ! i)) \<and> I (ctx @ new) st' ids' \<and>
    int (length (result @ new)) \<le> max (Limit input) (int (length result)) \<and>
    (int (length (result @ new)) < Limit input \<longrightarrow>
      choose_turn input out expl (ctx @ new) st' ids' (int (length (result @ new)) + 1) = None)"
  using assms(1,2)
proof (induction "nat (Limit input - int (length result))" arbitrary: result ctx st ids rule: less_induct)
  case less
  let ?turn = "choose_turn input out expl ctx st ids (int (length result) + 1)"
  show ?case
  proof (cases "int (length result) < Limit input \<and> ?turn \<noteq> None")
    case False
    then have "select_loop input out expl result ctx st ids = result"
      by (subst select_loop.simps) (auto split: option.splits)
    with False less.prems show ?thesis
      by (intro exI [of _ "[]"] exI [of _ st] exI [of _ ids]) (simp del: not_None_eq)
  next
    case True
    then obtain c opp mode reason sem where turn: "?turn = Some (c, opp, mode, reason, sem)" by (metis not_None_eq prod_cases5)
    let ?s = "selected_of c opp mode reason sem"
    have run: "select_loop input out expl result ctx st ids =
        select_loop input out expl (result @ [?s]) (ctx @ [?s]) (addSelected ?s st) (insert (ID (Post c)) ids)"
      using True turn by (subst select_loop.simps) (simp add: Let_def)
    have "int (length result) + 1 = int (length ctx) - d + 1" using less.prems(2) by simp
    note st = step [OF less.prems(1) this turn]
    have "nat (Limit input - int (length (result @ [?s]))) < nat (Limit input - int (length result))" using True by simp
    moreover have "int (length (ctx @ [?s])) - int (length (result @ [?s])) = d" using less.prems(2) by simp
    ultimately obtain new st' ids' where
      new: "select_loop input out expl (result @ [?s]) (ctx @ [?s]) (addSelected ?s st) (insert (ID (Post c)) ids) = (result @ [?s]) @ new"
        "\<forall>i < length new. Q ((ctx @ [?s]) @ take i new) (new ! i)" "I ((ctx @ [?s]) @ new) st' ids'"
        "int (length ((result @ [?s]) @ new)) \<le> max (Limit input) (int (length (result @ [?s])))"
        "int (length ((result @ [?s]) @ new)) < Limit input \<longrightarrow>
          choose_turn input out expl ((ctx @ [?s]) @ new) st' ids' (int (length ((result @ [?s]) @ new)) + 1) = None"
      using less.hyps [OF _ conjunct2 [OF st]] by blast
    have "Q (ctx @ take i (?s # new)) ((?s # new) ! i)" if "i < length (?s # new)" for i
      using that new(2) st by (cases i) auto
    with new(1,3-5) True run show ?thesis
      by (intro exI [of _ "?s # new"] exI [of _ st'] exI [of _ ids']) auto
  qed
qed

text \<open>A candidate the turn after \<open>ctx\<close> may take.\<close>

definition may_take :: "selection_input \<Rightarrow> selected_candidate list \<Rightarrow> ranked_candidate \<Rightarrow> bool" where
  "may_take input ctx c \<longleftrightarrow>
     c \<in> set (InCandidates input) \<and> ID (Post c) \<notin> ids_of ctx \<and> phase_allows (Phase input) c"

definition taken_from :: "selection_input \<Rightarrow> selected_candidate list \<Rightarrow> selected_candidate \<Rightarrow> bool" where
  "taken_from input ctx s \<longleftrightarrow>
     (\<exists>c. may_take input ctx c \<and> SPost s = Post c \<and> SCandidate s = Candidate c \<and> SEmbedding s = Embedding c \<and>
        (authorWindowAllows c ctx (Diversity (Config input)) \<or>
         (\<forall>c'. may_take input ctx c' \<longrightarrow> \<not> authorWindowAllows c' ctx (Diversity (Config input)))))"

lemma select_loop_taken:
  assumes "ids = ids_of ctx"
  shows "\<exists>new. select_loop input out expl result ctx st ids = result @ new \<and>
    (\<forall>i < length new. taken_from input (ctx @ take i new) (new ! i)) \<and>
    int (length (result @ new)) \<le> max (Limit input) (int (length result)) \<and>
    (int (length (result @ new)) < Limit input \<longrightarrow> (\<forall>c. \<not> may_take input (ctx @ new) c))"
proof -
  have "\<exists>new st' ids'. select_loop input out expl result ctx st ids = result @ new \<and>
    (\<forall>i < length new. taken_from input (ctx @ take i new) (new ! i)) \<and> ids' = ids_of (ctx @ new) \<and>
    int (length (result @ new)) \<le> max (Limit input) (int (length result)) \<and>
    (int (length (result @ new)) < Limit input \<longrightarrow>
      choose_turn input out expl (ctx @ new) st' ids' (int (length (result @ new)) + 1) = None)"
  proof (rule select_loop_inv [where I = "\<lambda>ctx st ids. ids = ids_of ctx" and d = "int (length ctx) - int (length result)"])
    fix ctx st ids pos c opp mode reason sem
    assume ids: "ids = ids_of ctx" and turn: "choose_turn input out expl ctx st ids pos = Some (c, opp, mode, reason, sem)"
    from choose_turn_Some [OF turn] obtain j where j: "j < length (InCandidates input)" "c = with_penalty st j (InCandidates input ! j)"
      "ID (Post c) \<notin> ids" "phase_allows (Phase input) (InCandidates input ! j)"
      "authorWindowAllows (InCandidates input ! j) ctx (Diversity (Config input)) \<or>
       (\<forall>c' \<in> set (InCandidates input). ID (Post c') \<notin> ids \<and> phase_allows (Phase input) c' \<longrightarrow>
          \<not> authorWindowAllows c' ctx (Diversity (Config input)))" by blast
    then have "taken_from input ctx (selected_of c opp mode reason sem)"
      unfolding taken_from_def may_take_def ids
      by (intro exI [of _ "InCandidates input ! j"]) (simp add: selected_of_def ids, blast)
    then show "taken_from input ctx (selected_of c opp mode reason sem) \<and>
        insert (ID (Post c)) ids = ids_of (ctx @ [selected_of c opp mode reason sem])"
      by (simp add: ids selected_of_def)
  qed (use assms in simp_all)
  then show ?thesis using choose_turn_None unfolding may_take_def by blast
qed

text \<open>
  C20. A page keeps the items it was started with and adds candidates one at a time: each is a
  candidate of the requested phase whose post was neither shown before nor taken already, and it
  respects the author window unless every candidate that could be taken breaks it. The page
  never exceeds the limit, and it is shorter only when no candidate is left to take.
\<close>

theorem SelectCandidates_page:
  fixes input :: selection_input
  defines "ctx \<equiv> Prior input @ Initial input"
  assumes "0 < Limit input"
  shows "\<exists>new. SelectCandidates digest input = Initial input @ new \<and>
    (\<forall>i < length new. taken_from input (ctx @ take i new) (new ! i)) \<and>
    distinct (map (\<lambda>s. ID (SPost s)) new) \<and> ids_of new \<inter> ids_of ctx = {} \<and>
    int (length (Initial input @ new)) \<le> max (Limit input) (int (length (Initial input))) \<and>
    (int (length (Initial input @ new)) < Limit input \<longrightarrow> (\<forall>c. \<not> may_take input (ctx @ new) c))"
proof -
  obtain new where new: "SelectCandidates digest input = Initial input @ new"
    "\<forall>i < length new. taken_from input (ctx @ take i new) (new ! i)"
    "int (length (Initial input @ new)) \<le> max (Limit input) (int (length (Initial input)))"
    "int (length (Initial input @ new)) < Limit input \<longrightarrow> (\<forall>c. \<not> may_take input (ctx @ new) c)"
    using select_loop_taken [OF refl] assms(2) unfolding SelectCandidates_def Let_def ctx_def
    by (metis (no_types, lifting) not_less)
  have fresh: "ID (SPost (new ! i)) \<notin> ids_of (ctx @ take i new)" if "i < length new" for i
    using new(2) that unfolding taken_from_def may_take_def by metis
  have "distinct (map (\<lambda>s. ID (SPost s)) new)"
  proof (subst distinct_conv_nth, intro allI impI)
    fix i j assume ij: "i < length (map (\<lambda>s. ID (SPost s)) new)" "j < length (map (\<lambda>s. ID (SPost s)) new)" "i \<noteq> j"
    have "ID (SPost (new ! a)) \<noteq> ID (SPost (new ! b))" if "a < b" "b < length new" for a b
    proof -
      have "new ! a \<in> set (take b new)" using that by (metis in_set_conv_nth length_take min_less_iff_conj nth_take order_less_trans)
      then have "ID (SPost (new ! a)) \<in> ids_of (ctx @ take b new)" by (intro imageI) simp
      with fresh [OF that(2)] show ?thesis by metis
    qed
    with ij show "map (\<lambda>s. ID (SPost s)) new ! i \<noteq> map (\<lambda>s. ID (SPost s)) new ! j"
      by (metis length_map linorder_neqE_nat nth_map)
  qed
  moreover have "ids_of new \<inter> ids_of ctx = {}"
    using fresh by (fastforce simp: in_set_conv_nth)
  ultimately show ?thesis using new by blast
qed

section \<open>Scores of the page\<close>

text \<open>Comparisons that rank, and their lexicographic composition.\<close>

lemma ranks_key: "ranks (\<lambda>x y. (f x :: 'b :: linorder) < f y) A"
  unfolding ranks_def
proof (intro conjI ballI impI)
  fix x y z assume "f x < f z"
  then show "f x < f y \<or> f y < f z" using le_less_trans [of "f y" "f x" "f z"] by (cases "f x < f y") (simp_all add: not_less)
qed (auto dest: less_imp_not_less)

lemma ranks_flt: "\<forall>x \<in> A. f x \<noteq> NaN \<Longrightarrow> ranks (\<lambda>x y. flt (f y) (f x)) A"
  unfolding ranks_def
proof (intro conjI ballI impI)
  fix x y z assume "\<forall>x \<in> A. f x \<noteq> NaN" "x \<in> A" "y \<in> A" "z \<in> A" "flt (f z) (f x)"
  moreover from this have "flt (f x) (f y) \<or> f x = f y \<or> flt (f y) (f x)" by (intro flt_total) blast+
  ultimately show "flt (f y) (f x) \<or> flt (f z) (f y)" using flt_trans by metis
qed (auto dest: flt_asym)

lemma ranks_lex: "ranks p A \<Longrightarrow> ranks q A \<Longrightarrow> ranks (\<lambda>x y. p x y \<or> (\<not> p y x \<and> q x y)) A"
  unfolding ranks_def by blast

lemma ranks_cong: "ranks p A \<Longrightarrow> (\<And>x y. x \<in> A \<Longrightarrow> y \<in> A \<Longrightarrow> q x y \<longleftrightarrow> p x y) \<Longrightarrow> ranks q A"
  unfolding ranks_def by blast

text \<open>Posts never served rank last among those served before.\<close>

definition served_key :: "selection_phase \<Rightarrow> ranked_candidate \<Rightarrow> int \<times> int" where
  "served_key phase c =
     (if phase \<noteq> SelectionPhaseSoft then (0, 0)
      else if LastServedAt (Candidate c) = zero_instant then (1, 0) else (0, LastServedAt (Candidate c)))"

text \<open>
  The two orders in the abstract: a list of criteria, the first of which that separates two
  candidates decides. A ranked page goes by the score after the penalty, the score before it,
  the newer post and the larger id, a soft page before that by the post served longest ago; an
  exploration goes by the exploration score, the weight of the reason, the score after the
  penalty, the newer post and the larger id.
\<close>

fun first_difference :: "('a \<Rightarrow> 'a \<Rightarrow> bool) list \<Rightarrow> 'a \<Rightarrow> 'a \<Rightarrow> bool" where
  "first_difference [] x y = False"
| "first_difference (p # ps) x y = (p x y \<or> (\<not> p y x \<and> first_difference ps x y))"

definition selection_order :: "selection_phase \<Rightarrow> ranked_candidate \<Rightarrow> ranked_candidate \<Rightarrow> bool" where
  "selection_order phase =
     first_difference
       [\<lambda>x y. served_key phase x < served_key phase y,
        \<lambda>x y. flt (net_score y) (net_score x),
        \<lambda>x y. flt (BaseScore (Breakdown y)) (BaseScore (Breakdown x)),
        \<lambda>x y. - CreatedAt (Post x) < - CreatedAt (Post y),
        \<lambda>x y. - int (ID (Post x)) < - int (ID (Post y))]"

definition exploration_order :: "int \<Rightarrow> selection_config \<Rightarrow> ranked_candidate \<Rightarrow> ranked_candidate \<Rightarrow> bool" where
  "exploration_order now cfg =
     first_difference
       [\<lambda>x y. flt (ExplorationSemantic y) (ExplorationSemantic x),
        \<lambda>x y. - explorationReasonPriority (explorationReason x now (Exploration cfg)) <
               - explorationReasonPriority (explorationReason y now (Exploration cfg)),
        \<lambda>x y. flt (net_score y) (net_score x),
        \<lambda>x y. - CreatedAt (Post x) < - CreatedAt (Post y),
        \<lambda>x y. - int (ID (Post x)) < - int (ID (Post y))]"

lemma ranks_nil: "ranks (first_difference []) A"
  by (simp add: ranks_def)

lemma ranks_cons: "ranks p A \<Longrightarrow> ranks (first_difference ps) A \<Longrightarrow> ranks (first_difference (p # ps)) A"
  by (rule ranks_cong [OF ranks_lex [of p A "first_difference ps"]]) simp_all

lemma feq_iff: "x \<noteq> NaN \<Longrightarrow> y \<noteq> NaN \<Longrightarrow> feq x y \<longleftrightarrow> \<not> flt x y \<and> \<not> flt y x"
  using flt_total flt_irrefl unfolding feq_def by metis

lemma selectionBefore_order:
  assumes "net_score x \<noteq> NaN" "net_score y \<noteq> NaN" "BaseScore (Breakdown x) \<noteq> NaN" "BaseScore (Breakdown y) \<noteq> NaN"
  shows "selectionBefore x y phase \<longleftrightarrow> selection_order phase x y"
  using assms
  by (auto simp: selectionBefore_def selection_order_def served_key_def recommendationPostTime_def Let_def feq_iff dest: flt_asym)

lemma strictExplorationBefore_order:
  assumes "net_score x \<noteq> NaN" "net_score y \<noteq> NaN" "ExplorationSemantic x \<noteq> NaN" "ExplorationSemantic y \<noteq> NaN"
  shows "strictExplorationBefore x y now cfg \<longleftrightarrow> exploration_order now cfg x y"
  using assms
  by (auto simp: strictExplorationBefore_def exploration_order_def recommendationPostTime_def Let_def feq_iff dest: flt_asym)

lemma selectionBefore_ranks:
  assumes "\<forall>c \<in> A. net_score c \<noteq> NaN \<and> BaseScore (Breakdown c) \<noteq> NaN"
  shows "ranks (\<lambda>l r. selectionBefore l r phase) A"
proof -
  have "ranks (selection_order phase) A"
    unfolding selection_order_def
    by (intro ranks_cons ranks_nil ranks_key ranks_flt) (use assms in simp_all)
  then show ?thesis by (rule ranks_cong) (use assms selectionBefore_order in blast)
qed

text \<open>A candidate as the turn after \<open>ctx\<close> sees it: with the penalty if it repeats something selected.\<close>

definition as_scored :: "selection_input \<Rightarrow> selected_candidate list \<Rightarrow> ranked_candidate \<Rightarrow> ranked_candidate" where
  "as_scored input ctx c =
     c\<lparr>Breakdown := (Breakdown c)\<lparr>DiversityPenalty :=
        if isSemanticDuplicate c ctx (Diversity (Config input)) then SemanticDuplicatePenalty (Diversity (Config input)) else Fin 0\<rparr>\<rparr>"

text \<open>
  The ranked choice prefers the author window, then the network that the position asks for, and
  decides by \<open>selectionBefore\<close>: \<open>rank_tier\<close> is the first of the four stages a candidate enters.
\<close>

definition rank_tier :: "selection_input \<Rightarrow> selected_candidate list \<Rightarrow> int set \<Rightarrow> int \<Rightarrow> ranked_candidate \<Rightarrow> nat" where
  "rank_tier input ctx out pos c =
     (if authorWindowAllows c ctx (Diversity (Config input)) then 0 else 2) + (if prefer_out out pos c then 0 else 1)"

definition best_ranked :: "selection_input \<Rightarrow> selected_candidate list \<Rightarrow> int set \<Rightarrow> int \<Rightarrow> ranked_candidate \<Rightarrow> bool" where
  "best_ranked input ctx out pos c \<longleftrightarrow>
     may_take input ctx c \<and>
     (\<forall>c'. may_take input ctx c' \<longrightarrow>
        rank_tier input ctx out pos c \<le> rank_tier input ctx out pos c' \<and>
        (rank_tier input ctx out pos c' = rank_tier input ctx out pos c \<longrightarrow>
           \<not> selection_order (Phase input) (as_scored input ctx c') (as_scored input ctx c)))"

text \<open>The exploration choice: reasoned, no duplicate, within the window, and then by its own order.\<close>

definition explorable :: "selection_input \<Rightarrow> selected_candidate list \<Rightarrow> ranked_candidate \<Rightarrow> bool" where
  "explorable input ctx c \<longleftrightarrow>
     may_take input ctx c \<and> explorationReason c (Now input) (Exploration (Config input)) \<noteq> NoReason \<and>
     \<not> isSemanticDuplicate c ctx (Diversity (Config input)) \<and> authorWindowAllows c ctx (Diversity (Config input))"

definition best_explorer :: "selection_input \<Rightarrow> selected_candidate list \<Rightarrow> int set \<Rightarrow> int \<Rightarrow> ranked_candidate \<Rightarrow> bool" where
  "best_explorer input ctx out pos c \<longleftrightarrow>
     explorable input ctx c \<and>
     (\<forall>c'. explorable input ctx c' \<longrightarrow>
        (prefer_out out pos c' \<longrightarrow> prefer_out out pos c) \<and>
        (prefer_out out pos c' = prefer_out out pos c \<longrightarrow>
           \<not> exploration_order (Now input) (Config input) (as_scored input ctx c') (as_scored input ctx c)))"

definition best_choice ::
  "selection_input \<Rightarrow> selected_candidate list \<Rightarrow> int set \<Rightarrow> int set \<Rightarrow> selected_candidate \<Rightarrow> bool" where
  "best_choice input ctx out expl s \<longleftrightarrow>
     (let pos = int (length ctx) + 1 - int (length (Prior input));
          opportunity = (Phase input = SelectionPhaseFresh \<and> pos \<in> expl)
      in \<exists>c. SPost s = Post c \<and>
        DiversityPenalty (SBreakdown s) = DiversityPenalty (Breakdown (as_scored input ctx c)) \<and>
        FinalScore (SBreakdown s) = net_score (as_scored input ctx c) \<and>
        ExplorationOpportunity s = opportunity \<and>
        (case SelectionMode s of
           SelectionModeRanked \<Rightarrow>
             best_ranked input ctx out pos c \<and> ExplorationReason s = NoReason \<and> SExplorationSemantic s = Fin 0 \<and>
             (opportunity \<longrightarrow> (\<forall>e. best_explorer input ctx out pos e \<longrightarrow> ID (Post e) = ID (Post c)))
         | SelectionModeExploration \<Rightarrow>
             opportunity \<and> best_explorer input ctx out pos c \<and>
             ExplorationReason s = explorationReason c (Now input) (Exploration (Config input)) \<and>
             SExplorationSemantic s = ClampUnit (ExplorationSemantic c) \<and>
             (\<forall>n. best_ranked input ctx out pos n \<longrightarrow> ID (Post n) \<noteq> ID (Post c))))"

lemma with_penalty_new:
  "j < length cs \<Longrightarrow> cs = InCandidates input \<Longrightarrow>
     with_penalty (newSelectionDiversityState cs ctx (Diversity (Config input))) j (cs ! j) = as_scored input ctx (cs ! j)"
  by (simp add: with_penalty_def as_scored_def penalty_new)

lemma as_scored_simps [simp]:
  "Post (as_scored input ctx c) = Post c" "Candidate (as_scored input ctx c) = Candidate c"
  "IsInNetwork (as_scored input ctx c) = IsInNetwork c" "IsNovelAuthor (as_scored input ctx c) = IsNovelAuthor c"
  "ExplorationSemantic (as_scored input ctx c) = ExplorationSemantic c"
  "BaseScore (Breakdown (as_scored input ctx c)) = BaseScore (Breakdown c)"
  by (simp_all add: as_scored_def)

lemma explorationReason_as_scored [simp]:
  "explorationReason (as_scored input ctx c) now cfg = explorationReason c now cfg"
  by (simp add: explorationReason_def)

text \<open>Candidates that neither order separates are one post.\<close>

lemma selection_order_ties:
  "\<not> selection_order phase x y \<Longrightarrow> \<not> selection_order phase y x \<Longrightarrow> ID (Post x) = ID (Post y)"
  unfolding selection_order_def first_difference.simps by linarith

lemma exploration_order_ties:
  "\<not> exploration_order now cfg x y \<Longrightarrow> \<not> exploration_order now cfg y x \<Longrightarrow> ID (Post x) = ID (Post y)"
  unfolding exploration_order_def first_difference.simps by linarith

lemma strictExplorationBefore_ranks:
  assumes "\<forall>c \<in> A. net_score c \<noteq> NaN \<and> ExplorationSemantic c \<noteq> NaN"
  shows "ranks (\<lambda>l r. strictExplorationBefore l r now cfg) A"
proof -
  have "ranks (exploration_order now cfg) A"
    unfolding exploration_order_def
    by (intro ranks_cons ranks_nil ranks_key ranks_flt) (use assms in simp_all)
  then show ?thesis by (rule ranks_cong) (use assms strictExplorationBefore_order in blast)
qed

text \<open>Scores, exploration scores and similarities are numbers.\<close>

definition numbers :: "selection_input \<Rightarrow> bool" where
  "numbers input \<longleftrightarrow>
     (\<forall>c \<in> set (InCandidates input). BaseScore (Breakdown c) \<noteq> NaN \<and> ExplorationSemantic c \<noteq> NaN \<and>
        fsub (BaseScore (Breakdown c)) (Fin 0) \<noteq> NaN \<and>
        fsub (BaseScore (Breakdown c)) (SemanticDuplicatePenalty (Diversity (Config input))) \<noteq> NaN \<and>
        (\<forall>e \<in> Embedding ` set (InCandidates input) \<union> SEmbedding ` set (Prior input @ Initial input). similar_ok c e))"

lemma numbers_score: "numbers input \<Longrightarrow> c \<in> set (InCandidates input) \<Longrightarrow>
    net_score (as_scored input ctx c) \<noteq> NaN \<and> BaseScore (Breakdown c) \<noteq> NaN \<and> ExplorationSemantic c \<noteq> NaN"
  by (simp add: numbers_def net_score_def as_scored_def)

text \<open>One stage, over the candidates as the turn scores them.\<close>

lemma stage_best:
  fixes input ctx
  defines "st \<equiv> newSelectionDiversityState (InCandidates input) ctx (Diversity (Config input))"
  assumes run: "best_loop adm bef st (InCandidates input) 0 None = Some r"
    and adm: "\<And>j. j < length (InCandidates input) \<Longrightarrow> adm j (InCandidates input ! j) \<longleftrightarrow> P (InCandidates input ! j)"
    and rk: "ranks bef (as_scored input ctx ` set (InCandidates input))"
  shows "\<exists>c \<in> set (InCandidates input). P c \<and> r = as_scored input ctx c \<and>
    (\<forall>c' \<in> set (InCandidates input). P c' \<longrightarrow> \<not> bef (as_scored input ctx c') (as_scored input ctx c))"
proof -
  let ?cs = "InCandidates input"
  have wp: "j < length ?cs \<Longrightarrow> with_penalty st j (?cs ! j) = as_scored input ctx (?cs ! j)" for j
    unfolding st_def by (rule with_penalty_new [OF _ refl])
  have "{with_penalty st (0 + j) (?cs ! j) | j. j < length ?cs \<and> adm (0 + j) (?cs ! j)} \<union> set_option None
      \<subseteq> as_scored input ctx ` set ?cs" by (auto simp: wp)
  then have "ranks bef ({with_penalty st (0 + j) (?cs ! j) | j. j < length ?cs \<and> adm (0 + j) (?cs ! j)} \<union> set_option None)"
    using rk unfolding ranks_def by (meson subsetD)
  from best_loop_best [OF run this] have
    b: "\<And>j. j < length ?cs \<Longrightarrow> P (?cs ! j) \<Longrightarrow> \<not> bef (as_scored input ctx (?cs ! j)) r" by (simp add: adm wp)
  from best_loop_Some [OF run] obtain j where j: "j < length ?cs" "P (?cs ! j)" "r = as_scored input ctx (?cs ! j)"
    by (auto simp: adm wp)
  show ?thesis
  proof (rule bexI [of _ "?cs ! j"], intro conjI ballI impI)
    fix c' assume "c' \<in> set ?cs" "P c'"
    then obtain i where "i < length ?cs" "c' = ?cs ! i" by (metis in_set_conv_nth)
    with b [of i] \<open>P c'\<close> show "\<not> bef (as_scored input ctx c') (as_scored input ctx (?cs ! j))" unfolding j(3) by simp
  qed (use j in simp_all)
qed

text \<open>The candidates a turn after \<open>ctx\<close> finds available, as the code passes them on.\<close>

abbreviation available_in :: "selection_input \<Rightarrow> selected_candidate list \<Rightarrow> ranked_candidate \<Rightarrow> bool" where
  "available_in input ctx c \<equiv> ID (Post c) \<notin> ids_of ctx \<and> phase_allows (Phase input) c"

abbreviation scored_state :: "selection_input \<Rightarrow> selected_candidate list \<Rightarrow> diversity_state" where
  "scored_state input ctx \<equiv> newSelectionDiversityState (InCandidates input) ctx (Diversity (Config input))"

lemma chooseCandidate_best:
  assumes "numbers input"
    and "chooseCandidate (InCandidates input) ctx (scored_state input ctx) (available_in input ctx) pr (Config input) (Phase input) en = Some r"
  shows "\<exists>c. may_take input ctx c \<and> pr c \<and> (en \<longrightarrow> authorWindowAllows c ctx (Diversity (Config input))) \<and> r = as_scored input ctx c \<and>
    (\<forall>c'. may_take input ctx c' \<and> pr c' \<and> (en \<longrightarrow> authorWindowAllows c' ctx (Diversity (Config input))) \<longrightarrow>
       \<not> selection_order (Phase input) (as_scored input ctx c') (as_scored input ctx c))"
proof -
  have ord: "selectionBefore (as_scored input ctx a) (as_scored input ctx b) (Phase input) \<longleftrightarrow>
      selection_order (Phase input) (as_scored input ctx a) (as_scored input ctx b)"
    if "a \<in> set (InCandidates input)" "b \<in> set (InCandidates input)" for a b
    by (rule selectionBefore_order) (use numbers_score [OF assms(1)] that in auto)
  let ?P = "\<lambda>c. available_in input ctx c \<and> pr c \<and> (en \<longrightarrow> authorWindowAllows c ctx (Diversity (Config input)))"
  have "ranks (\<lambda>l r. selectionBefore l r (Phase input)) (as_scored input ctx ` set (InCandidates input))"
    by (rule selectionBefore_ranks) (use numbers_score [OF assms(1)] in auto)
  from stage_best [where P = ?P, OF assms(2) [unfolded chooseCandidate_def] _ this] obtain c where
    c: "c \<in> set (InCandidates input)" "?P c" "r = as_scored input ctx c"
      "\<And>c'. c' \<in> set (InCandidates input) \<Longrightarrow> ?P c' \<Longrightarrow>
         \<not> selectionBefore (as_scored input ctx c') (as_scored input ctx c) (Phase input)" by auto
  show ?thesis
    by (intro exI [of _ c]) (use c ord [OF _ c(1)] in \<open>auto simp: may_take_def\<close>)
qed

lemma normal_best:
  assumes "numbers input"
    and run: "chooseNormalCandidate (InCandidates input) ctx (scored_state input ctx) (available_in input ctx) out pos
      (Config input) (Phase input) = Some r"
  shows "\<exists>c. r = as_scored input ctx c \<and> best_ranked input ctx out pos c"
proof -
  let ?w = "\<lambda>c. authorWindowAllows c ctx (Diversity (Config input))" and ?p = "prefer_out out pos"
  let ?pick = "\<lambda>pr en. chooseCandidate (InCandidates input) ctx (scored_state input ctx) (available_in input ctx) pr (Config input) (Phase input) en"
  have none: "?pick pr en = None \<longleftrightarrow> (\<forall>c. may_take input ctx c \<longrightarrow> \<not> (pr c \<and> (en \<longrightarrow> ?w c)))" for pr en
    unfolding chooseCandidate_None may_take_def by blast
  from run consider (1) "?pick ?p True = Some r"
    | (2) "?pick ?p True = None" "?pick (\<lambda>_. True) True = Some r"
    | (3) "?pick (\<lambda>_. True) True = None" "?pick ?p False = Some r"
    | (4) "?pick (\<lambda>_. True) True = None" "?pick ?p False = None" "?pick (\<lambda>_. True) False = Some r"
    unfolding chooseNormalCandidate_def Let_def or_else_Some by argo
  then show ?thesis
  proof cases
    case 1
    from chooseCandidate_best [OF assms(1) 1] show ?thesis by (fastforce simp: best_ranked_def rank_tier_def)
  next
    case 2
    from chooseCandidate_best [OF assms(1) 2(2)] 2(1) show ?thesis unfolding none by (fastforce simp: best_ranked_def rank_tier_def)
  next
    case 3
    from chooseCandidate_best [OF assms(1) 3(2)] 3(1) show ?thesis unfolding none by (fastforce simp: best_ranked_def rank_tier_def)
  next
    case 4
    from chooseCandidate_best [OF assms(1) 4(3)] 4(1,2) show ?thesis unfolding none by (fastforce simp: best_ranked_def rank_tier_def)
  qed
qed

lemma explorer_stage:
  assumes "numbers input"
    and "chooseStrictExplorationCandidateFrom (InCandidates input) ctx (scored_state input ctx) (available_in input ctx) pr
      (Config input) (Now input) = Some r"
  shows "\<exists>c. explorable input ctx c \<and> pr c \<and> r = as_scored input ctx c \<and>
    (\<forall>c'. explorable input ctx c' \<and> pr c' \<longrightarrow>
       \<not> exploration_order (Now input) (Config input) (as_scored input ctx c') (as_scored input ctx c))"
proof -
  have ord: "strictExplorationBefore (as_scored input ctx a) (as_scored input ctx b) (Now input) (Config input) \<longleftrightarrow>
      exploration_order (Now input) (Config input) (as_scored input ctx a) (as_scored input ctx b)"
    if "a \<in> set (InCandidates input)" "b \<in> set (InCandidates input)" for a b
    by (rule strictExplorationBefore_order) (use numbers_score [OF assms(1)] that in auto)
  let ?P = "\<lambda>c. available_in input ctx c \<and> pr c \<and> explorationReason c (Now input) (Exploration (Config input)) \<noteq> NoReason \<and>
    \<not> isSemanticDuplicate c ctx (Diversity (Config input)) \<and> authorWindowAllows c ctx (Diversity (Config input))"
  have "ranks (\<lambda>l r. strictExplorationBefore l r (Now input) (Config input)) (as_scored input ctx ` set (InCandidates input))"
    by (rule strictExplorationBefore_ranks) (use numbers_score [OF assms(1)] in auto)
  from stage_best [where P = ?P, OF assms(2) [unfolded chooseStrictExplorationCandidateFrom_def] _ this] show ?thesis
    unfolding may_take_def explorable_def using ord by (auto simp: isDuplicate_new)
qed

lemma explorer_stage_None:
  "chooseStrictExplorationCandidateFrom (InCandidates input) ctx (scored_state input ctx) (available_in input ctx) pr
      (Config input) (Now input) = None \<longleftrightarrow> (\<forall>c. explorable input ctx c \<longrightarrow> \<not> pr c)"
  unfolding chooseStrictExplorationCandidateFrom_def best_loop_None explorable_def may_take_def
  by (auto simp: isDuplicate_new in_set_conv_nth)

lemma explorer_best:
  assumes "numbers input"
    and run: "chooseStrictExplorationCandidateWithConfig (InCandidates input) ctx (scored_state input ctx) (available_in input ctx) out pos
      (Config input) (Now input) = Some r"
  shows "\<exists>c. r = as_scored input ctx c \<and> best_explorer input ctx out pos c"
proof -
  let ?pick = "\<lambda>pr. chooseStrictExplorationCandidateFrom (InCandidates input) ctx (scored_state input ctx) (available_in input ctx) pr
      (Config input) (Now input)"
  from run consider (1) "?pick (prefer_out out pos) = Some r"
    | (2) "?pick (prefer_out out pos) = None" "?pick (\<lambda>_. True) = Some r"
    unfolding chooseStrictExplorationCandidateWithConfig_def or_else_Some by argo
  then show ?thesis
  proof cases
    case 1
    from explorer_stage [OF assms(1) 1] show ?thesis unfolding best_explorer_def by blast
  next
    case 2
    from explorer_stage [OF assms(1) 2(2)] 2(1) show ?thesis unfolding explorer_stage_None best_explorer_def by blast
  qed
qed

text \<open>The best choices of a turn are one post each.\<close>

lemma best_ranked_unique:
  assumes "best_ranked input ctx out pos a" "best_ranked input ctx out pos b"
  shows "ID (Post a) = ID (Post b)"
proof -
  have t: "may_take input ctx a" "may_take input ctx b" using assms by (simp_all add: best_ranked_def)
  have "rank_tier input ctx out pos a = rank_tier input ctx out pos b"
    using assms t unfolding best_ranked_def by (meson le_antisym)
  with assms t have "\<not> selection_order (Phase input) (as_scored input ctx a) (as_scored input ctx b)"
    "\<not> selection_order (Phase input) (as_scored input ctx b) (as_scored input ctx a)"
    unfolding best_ranked_def by metis+
  from selection_order_ties [OF this] show ?thesis by simp
qed

lemma best_explorer_unique:
  assumes "best_explorer input ctx out pos a" "best_explorer input ctx out pos b"
  shows "ID (Post a) = ID (Post b)"
proof -
  have t: "explorable input ctx a" "explorable input ctx b" using assms by (simp_all add: best_explorer_def)
  have "prefer_out out pos a = prefer_out out pos b" using assms t unfolding best_explorer_def by blast
  with assms t have "\<not> exploration_order (Now input) (Config input) (as_scored input ctx a) (as_scored input ctx b)"
    "\<not> exploration_order (Now input) (Config input) (as_scored input ctx b) (as_scored input ctx a)"
    unfolding best_explorer_def by metis+
  from exploration_order_ties [OF this] show ?thesis by simp
qed

lemma choose_turn_best:
  assumes turn: "choose_turn input out expl ctx (scored_state input ctx) (ids_of ctx) pos = Some (c, opp, mode, reason, sem)"
    and pos: "pos = int (length ctx) + 1 - int (length (Prior input))"
    and num: "numbers input"
  shows "best_choice input ctx out expl (selected_of c opp mode reason sem)"
proof -
  let ?normal = "chooseNormalCandidate (InCandidates input) ctx (scored_state input ctx) (available_in input ctx) out pos (Config input) (Phase input)"
  let ?strict = "chooseStrictExplorationCandidateWithConfig (InCandidates input) ctx (scored_state input ctx) (available_in input ctx) out pos
      (Config input) (Now input)"
  let ?opp = "Phase input = SelectionPhaseFresh \<and> pos \<in> expl"
  have idle: "\<not> best_ranked input ctx out pos n" if "?normal = None" for n
    using normal_None [OF that] by (auto simp: best_ranked_def may_take_def)
  have dull: "\<not> best_explorer input ctx out pos e" if "?strict = None" for e
    using that unfolding chooseStrictExplorationCandidateWithConfig_def or_else_None explorer_stage_None best_explorer_def by blast
  consider (ranked) "?normal = Some c" "mode = SelectionModeRanked" "opp = ?opp" "reason = NoReason" "sem = Fin 0"
      "?opp \<longrightarrow> ?strict = None \<or> (\<exists>e. ?strict = Some e \<and> ID (Post e) = ID (Post c))"
    | (explored) "?strict = Some c" "mode = SelectionModeExploration" "opp" ?opp
      "reason = explorationReason c (Now input) (Exploration (Config input))" "sem = ClampUnit (ExplorationSemantic c)"
      "?normal = None \<or> (\<exists>n. ?normal = Some n \<and> ID (Post c) \<noteq> ID (Post n))"
    using turn unfolding choose_turn_def Let_def by (auto split: if_splits option.splits)
  then show ?thesis
  proof cases
    case ranked
    from normal_best [OF num ranked(1)] obtain n where n: "c = as_scored input ctx n" "best_ranked input ctx out pos n" by blast
    have "ID (Post e) = ID (Post n)" if o: ?opp and e: "best_explorer input ctx out pos e" for e
    proof -
      from ranked(6) o dull e obtain s where s: "?strict = Some s" "ID (Post s) = ID (Post c)" by blast
      from explorer_best [OF num s(1)] best_explorer_unique [OF e] s(2) n(1) show ?thesis by force
    qed
    with n ranked(2-5) show ?thesis
      unfolding best_choice_def Let_def pos [symmetric] by (intro exI [of _ n]) (simp add: selected_of_def)
  next
    case explored
    from explorer_best [OF num explored(1)] obtain e where e: "c = as_scored input ctx e" "best_explorer input ctx out pos e" by blast
    have "ID (Post n) \<noteq> ID (Post e)" if n: "best_ranked input ctx out pos n" for n
    proof -
      from explored(7) idle n obtain m where m: "?normal = Some m" "ID (Post c) \<noteq> ID (Post m)" by blast
      from normal_best [OF num m(1)] best_ranked_unique [OF n] m(2) e(1) show ?thesis by force
    qed
    with e explored(2-6) show ?thesis
      unfolding best_choice_def Let_def pos [symmetric] by (intro exI [of _ e]) (simp add: selected_of_def)
  qed
qed

text \<open>
  C21. Every item of a page is scored against exactly what precedes it, with the duplicate
  penalty if and only if it comes too close to an earlier item or page, and it is the choice its
  turn must make. An item taken by rank is unbeaten: no candidate that was available is in an
  earlier stage (within the author window before outside it, then of the network the position
  asks for before the other), and none of its stage comes before it in the selection order. An
  exploration happens only on an exploration position of a fresh page; it has a reason, is no
  duplicate, respects the window, and among such candidates is of the asked network if any is
  and unbeaten in the exploration order. On such a position the exploration choice is taken
  if it is another post than the ranked one, and the item says why.
\<close>

theorem SelectCandidates_best:
  fixes input :: selection_input and digest :: "string \<Rightarrow> string"
  defines "ctx \<equiv> Prior input @ Initial input"
    and "out \<equiv> set (BalancedPositions (Limit input)
           (to_int (fround (fmul (of_num (Limit input)) (OutOfNetworkMinRatio (Config input))))))"
    and "expl \<equiv> set (explorationPositions digest (RequestID input) (Limit input)
           (ExplorationTarget (Limit input) (Exploration (Config input))))"
  assumes "0 < Limit input" "numbers input"
  shows "\<exists>new. SelectCandidates digest input = Initial input @ new \<and>
    (\<forall>i < length new. best_choice input (ctx @ take i new) out expl (new ! i))"
proof -
  let ?cs = "InCandidates input" and ?div = "Diversity (Config input)"
  let ?known = "Embedding ` set ?cs \<union> SEmbedding ` set (Prior input @ Initial input)"
  let ?st = "newSelectionDiversityState ?cs ctx ?div"
  define I where "I = (\<lambda>c st ids. ids = ids_of c \<and> st = newSelectionDiversityState ?cs c ?div \<and> SEmbedding ` set c \<subseteq> ?known)"
  let ?expl = "set (if Phase input = SelectionPhaseFresh
      then explorationPositions digest (RequestID input) (Limit input) (ExplorationTarget (Limit input) (Exploration (Config input)))
      else [])"
  have "\<exists>new st' ids'. select_loop input out ?expl (Initial input) ctx ?st (ids_of ctx) = Initial input @ new \<and>
    (\<forall>i < length new. best_choice input (ctx @ take i new) out expl (new ! i)) \<and> I (ctx @ new) st' ids' \<and>
    int (length (Initial input @ new)) \<le> max (Limit input) (int (length (Initial input))) \<and>
    (int (length (Initial input @ new)) < Limit input \<longrightarrow>
      choose_turn input out ?expl (ctx @ new) st' ids' (int (length (Initial input @ new)) + 1) = None)"
  proof (rule select_loop_inv [where d = "int (length (Prior input))"])
    show "I ctx ?st (ids_of ctx)" by (auto simp: I_def ctx_def)
    show "int (length ctx) - int (length (Initial input)) = int (length (Prior input))" by (simp add: ctx_def)
    fix ctx st ids pos c opp mode reason sem
    assume inv: "I ctx st ids" and pos: "pos = int (length ctx) - int (length (Prior input)) + 1"
      and turn: "choose_turn input out ?expl ctx st ids pos = Some (c, opp, mode, reason, sem)"
    let ?s = "selected_of c opp mode reason sem"
    have st: "ids = ids_of ctx" "st = newSelectionDiversityState ?cs ctx ?div" "SEmbedding ` set ctx \<subseteq> ?known"
      using inv by (simp_all add: I_def)
    have "best_choice input ctx out ?expl ?s"
      by (rule choose_turn_best [OF turn [unfolded st(1,2)]]) (use assms(5) pos in simp_all)
    then have best: "best_choice input ctx out expl ?s"
      by (auto simp: best_choice_def expl_def cong: if_cong)
    from choose_turn_Some [OF turn] have "Embedding c \<in> Embedding ` set ?cs" by auto
    then have known: "SEmbedding ` set (ctx @ [?s]) \<subseteq> ?known" using st(3) by (auto simp: selected_of_def)
    then have "\<forall>c \<in> set ?cs. \<forall>s \<in> set (ctx @ [?s]). similar_ok c (SEmbedding s)"
      using assms(5) unfolding numbers_def by blast
    then have "addSelected ?s st = newSelectionDiversityState ?cs (ctx @ [?s]) ?div"
      unfolding st(2) by (rule add_state)
    then show "best_choice input ctx out expl ?s \<and> I (ctx @ [?s]) (addSelected ?s st) (insert (ID (Post c)) ids)"
      using best known st(1) by (simp add: I_def selected_of_def)
  qed
  then show ?thesis
    using assms(4) unfolding SelectCandidates_def Let_def ctx_def out_def by auto
qed

section \<open>Two candidates\<close>

definition sample_score :: "int \<Rightarrow> score_breakdown" where
  "sample_score base =
     \<lparr>PositiveSemantic = Fin 0, NegativeSemantic = Fin 0, NegativeConfidence = Fin 0, InteractionAffinity = Fin 0,
      FollowingBonusApplied = Fin 0, SemanticComponent = Fin 0, TrendingComponent = Fin 0,
      AuthorAffinityComponent = Fin 0, OnboardingInterestComponent = Fin 0, LanguageAffinity = Fin 0,
      LanguageComponent = Fin 0, DiversityPenalty = Fin 0, BaseScore = Fin (of_int base), FinalScore = Fin 0\<rparr>"

definition sample_recalled :: "nat \<Rightarrow> candidate" where
  "sample_recalled i =
     \<lparr>PostID = i, RecallTier = 0, PositiveSemanticSimilarity = Fin 0, SemanticRank = 0, FollowingRank = 0,
      RecentRank = 0, TrendingRank = 0, FusionScore = Fin 0, SourceCount = 0, FromSemantic = False,
      FromFollowing = False, FromRecent = False, FromTrending = False, FromHistorical = False,
      FromOnboardingInterest = False, WasSoftServed = False, LastServedAt = zero_instant\<rparr>"

definition sample_ranked :: "nat \<Rightarrow> ranked_candidate" where
  "sample_ranked i =
     \<lparr>Candidate = sample_recalled i, Post = \<lparr>ID = i, AuthorID = 7, CreatedAt = int i\<rparr>, Embedding = [],
      Breakdown = sample_score 0, ExplorationSemantic = Fin 0, IsInNetwork = False, IsNovelAuthor = False\<rparr>"

definition sample_selection :: selection_input where
  "sample_selection =
     \<lparr>InCandidates = [sample_ranked 1, sample_ranked 2],
      Initial = [],
      Prior = [selected_of (sample_ranked 3) False SelectionModeRanked NoReason (Fin 0)],
      Limit = 3, Now = 0, Phase = SelectionPhaseFresh, RequestID = ''request'',
      Config = \<lparr>OutOfNetworkMinRatio = Fin (1 / 2),
        Diversity = \<lparr>Enabled = True, AuthorWindowSize = 10, MaxSameAuthorInWindow = 2,
          SemanticDuplicateThreshold = Fin (1 / 2), SemanticDuplicatePenalty = Fin 0\<rparr>,
        Exploration = \<lparr>Ratio = Fin 0, MaxSlots = 0, RecentWindowDays = 7, NovelPostMaxAgeDays = 30\<rparr>\<rparr>\<rparr>"

lemma similar_ok_empty: "similar_ok c []"
  by (simp add: similar_ok_def CosineSimilarity_def ValidEmbeddingVector_def)

lemma fl_zero: "fl 0 = Fin 0"
  by (simp add: fl_def)

theorem addSelected_incremental_witness:
  "foldl (\<lambda>st x. addSelected x st)
     (newSelectionDiversityState [sample_ranked 1, sample_ranked 2] [] (Diversity (Config sample_selection)))
     (Prior sample_selection) =
   newSelectionDiversityState [sample_ranked 1, sample_ranked 2] (Prior sample_selection) (Diversity (Config sample_selection))"
  using addSelected_incremental [of "[sample_ranked 1, sample_ranked 2]" "[]" "Prior sample_selection" "Diversity (Config sample_selection)"]
  by (simp add: sample_selection_def selected_of_def sample_ranked_def similar_ok_empty)

theorem SelectCandidates_page_witness:
  "ids_of (SelectCandidates (\<lambda>s. s) sample_selection) = {1, 2}"
proof -
  have [simp]: "Limit sample_selection = 3" "Initial sample_selection = []" "InCandidates sample_selection = [sample_ranked 1, sample_ranked 2]"
    "Phase sample_selection = SelectionPhaseFresh" "ids_of (Prior sample_selection) = {3}"
    by (simp_all add: sample_selection_def selected_of_def sample_ranked_def)
  have ranked [simp]: "ID (Post (sample_ranked i)) = i" "WasSoftServed (Candidate (sample_ranked i)) = False" for i
    by (simp_all add: sample_ranked_def sample_recalled_def)
  obtain new where new: "SelectCandidates (\<lambda>s. s) sample_selection = new" "distinct (map (\<lambda>s. ID (SPost s)) new)"
    "\<forall>i < length new. taken_from sample_selection (Prior sample_selection @ take i new) (new ! i)"
    "int (length new) < 3 \<longrightarrow> (\<forall>c. \<not> may_take sample_selection (Prior sample_selection @ new) c)"
    using SelectCandidates_page [of sample_selection "\<lambda>s. s"] by auto
  have "ID (SPost (new ! i)) \<in> {1, 2}" if "i < length new" for i
    using new(3) that unfolding taken_from_def may_take_def by fastforce
  then have sub: "ids_of new \<subseteq> {1, 2}" unfolding set_conv_nth by blast
  have "length new = card (ids_of new)" using distinct_card [OF new(2)] by simp
  also have "\<dots> \<le> 2" using card_mono [OF _ sub] by simp
  finally have "\<forall>c. \<not> may_take sample_selection (Prior sample_selection @ new) c" using new(4) by simp
  from this [THEN spec [of _ "sample_ranked 1"]] this [THEN spec [of _ "sample_ranked 2"]]
  have "1 \<in> ids_of new" "2 \<in> ids_of new" by (auto simp: may_take_def phase_allows_def image_Un)
  with sub new(1) show ?thesis by auto
qed

theorem SelectCandidates_best_witness:
  "numbers sample_selection \<and>
   list_all (\<lambda>i. best_choice sample_selection (Prior sample_selection @ take i (SelectCandidates (\<lambda>s. s) sample_selection))
        (set (BalancedPositions 3 (to_int (fround (fmul (of_num 3) (Fin (1 / 2)))))))
        (set (explorationPositions (\<lambda>s. s) ''request'' 3 (ExplorationTarget 3 (Exploration (Config sample_selection)))))
        (SelectCandidates (\<lambda>s. s) sample_selection ! i))
     [0..<length (SelectCandidates (\<lambda>s. s) sample_selection)]"
proof -
  have num: "numbers sample_selection"
    by (auto simp: numbers_def sample_selection_def sample_ranked_def selected_of_def similar_ok_empty sample_score_def fl_zero)
  have [simp]: "Limit sample_selection = 3" "Initial sample_selection = []" "OutOfNetworkMinRatio (Config sample_selection) = Fin (1 / 2)"
    "RequestID sample_selection = ''request''"
    by (simp_all add: sample_selection_def)
  show ?thesis
    using num SelectCandidates_best [of sample_selection "\<lambda>s. s"] by (simp add: list_all_iff)
qed

end
