(* ===== verification/AuthStore.thy ===== *)
theory AuthStore
  imports LikeErrors GoFloat
begin

text \<open>
  Refresh sessions (\<open>auth/refresh_store.go\<close>, \<open>auth/logout.go\<close>): the three Lua scripts on the
  session, the used-secret marker and the recovery record of a family, and the methods that run
  them. Instants and durations of Go are nanoseconds, the clock of the server milliseconds.
  \<open>tonumber\<close> is modelled on decimal integers, the only numbers the program stores.
\<close>

section \<open>Keys\<close>

datatype akey = KSession string | KUsed string string | KRecovery string string string

type_synonym astore = "akey redis"

definition refreshKeyPrefix :: string where "refreshKeyPrefix = ''auth:refresh:v1:''"
definition usedRefreshKeyPrefix :: string where "usedRefreshKeyPrefix = ''auth:refresh:used:v1:''"
definition refreshRecoveryKeyPrefix :: string where "refreshRecoveryKeyPrefix = ''auth:refresh:recovery:v1:''"

fun refresh_key :: "akey \<Rightarrow> string" where
  "refresh_key (KSession sid) = refreshKeyPrefix @ ''{'' @ sid @ ''}''"
| "refresh_key (KUsed sid h) = usedRefreshKeyPrefix @ ''{'' @ sid @ ''}:'' @ h"
| "refresh_key (KRecovery sid h request) = refreshRecoveryKeyPrefix @ ''{'' @ sid @ ''}:'' @ h @ '':'' @ request"

section \<open>Errors and data\<close>

datatype auth_error =
    ErrAccessTokenInvalid | ErrRefreshInvalid | ErrRefreshExpired | ErrRefreshReused
  | ErrAuthVersionUnavailable | ErrAuthVersionUserMissing
  | AuthRedis string go_error | AuthOther string

record refresh_session =
  SessionID :: string
  UserID :: nat
  AuthVersion :: int
  SecretHash :: string
  SessionCreatedAt :: int
  LastRotatedAt :: int
  AbsoluteExpiresAt :: int
  TTL :: int

definition go_second :: int where "go_second = 1000000000"

text \<open>\<open>Unix()\<close> of an instant, and a duration in whole seconds, at least one.\<close>

definition unix :: "int \<Rightarrow> int" where
  "unix t = t div go_second"

definition durationSecondsCeil :: "int \<Rightarrow> int" where
  "durationSecondsCeil d =
     (let seconds = quot d go_second;
          seconds = (if d mod go_second \<noteq> 0 then seconds + 1 else seconds)
      in if seconds < 1 then 1 else seconds)"

fun parseRedisInt :: "redis_value \<Rightarrow> int option" where
  "parseRedisInt (VInt i) = Some i"
| "parseRedisInt (VString v) = parse_int64 v"
| "parseRedisInt (VBytes v) = parse_int64 v"
| "parseRedisInt _ = None"

section \<open>Scripts\<close>

definition wrong_type :: string where
  "wrong_type = ''WRONGTYPE Operation against a key holding the wrong kind of value''"

text \<open>\<open>tonumber\<close> of a field that may be missing.\<close>

fun lua_int :: "string option \<Rightarrow> int option" where
  "lua_int None = None"
| "lua_int (Some v) =
     (if digits_only v then Some (int (tonum v))
      else if v \<noteq> [] \<and> hd v = CHR ''-'' \<and> digits_only (tl v) then Some (- int (tonum (tl v)))
      else None)"

definition expire :: "int \<Rightarrow> int \<Rightarrow> rentry \<Rightarrow> rentry" where
  "expire srv seconds = pexpire srv (seconds * 1000)"

definition ttl_seconds :: "int \<Rightarrow> rentry \<Rightarrow> int" where
  "ttl_seconds srv e = (let ms = pttl srv e in if ms < 0 then ms else (ms + 500) div 1000)"

definition set_ex :: "int \<Rightarrow> string \<Rightarrow> int \<Rightarrow> rentry \<Rightarrow> rentry" where
  "set_ex srv v seconds e = Some (RStr v, Some (srv + seconds * 1000))"

definition create_script :: "string \<Rightarrow> nat \<Rightarrow> int \<Rightarrow> string \<Rightarrow> int \<Rightarrow> int \<Rightarrow> int \<Rightarrow> int \<Rightarrow> int \<Rightarrow> astore \<Rightarrow> astore \<times> int res" where
  "create_script sid user version h created rotated absolute ttl srv s =
     (if s (KSession sid) \<noteq> None then (s, Inr 0)
      else
        (let s = at_key (KSession sid) (hset ''user_id'' (show_nat user)) s;
             s = at_key (KSession sid) (hset ''auth_version'' (show_int version)) s;
             s = at_key (KSession sid) (hset ''secret_hash'' h) s;
             s = at_key (KSession sid) (hset ''created_at'' (show_int created)) s;
             s = at_key (KSession sid) (hset ''last_rotated_at'' (show_int rotated)) s;
             s = at_key (KSession sid) (hset ''absolute_expires_at'' (show_int absolute)) s
         in (at_key (KSession sid) (expire srv ttl) s, Inr 1)))"

text \<open>The value of a field in a reply: \<open>false\<close> becomes a nil.\<close>

definition reply_field :: "string option \<Rightarrow> redis_value" where
  "reply_field f = (case f of None \<Rightarrow> VNil | Some v \<Rightarrow> VString v)"

definition version_ok :: "string option \<Rightarrow> bool" where
  "version_ok v = (case v of None \<Rightarrow> False | Some v \<Rightarrow> digits_only v \<and> \<not> tonum v < 1)"

text \<open>
  A secret that is not the current one, but was used: the same request gets the recorded
  successor while it is still current (\<open>None\<close>: the replay is not allowed).
\<close>

definition replay :: "string \<Rightarrow> string \<Rightarrow> string \<Rightarrow> int \<Rightarrow> int \<Rightarrow> astore \<Rightarrow> redis_value list option" where
  "replay sid expected request now srv s =
     (let e = s (KSession sid); kr = s (KRecovery sid expected request) in
      if request \<noteq> '''' \<and> hget e ''secret_hash'' = hget kr ''next_hash''
      then
        (case (hget kr ''sealed_secret'', lua_int (hget e ''absolute_expires_at'')) of
           (Some sealed, Some absolute) \<Rightarrow>
             (if ttl_seconds srv e > 0 \<and> absolute > now
              then Some (if \<not> version_ok (hget e ''auth_version'') then [VInt (- 4)]
                         else [VInt 1, reply_field (hget e ''user_id''), reply_field (hget e ''auth_version''),
                               VInt (ttl_seconds srv e), VString sealed])
              else None)
         | _ \<Rightarrow> None)
      else None)"

text \<open>The rotation of the current secret, once the session may live on for \<open>ttl\<close> seconds.\<close>

definition renew ::
  "string \<Rightarrow> string \<Rightarrow> string \<Rightarrow> int \<Rightarrow> string \<Rightarrow> string \<Rightarrow> int \<Rightarrow> int \<Rightarrow> int \<Rightarrow> int \<Rightarrow> astore \<Rightarrow>
   astore \<times> redis_value list res" where
  "renew sid expected new now request sealed recovery_ttl remaining ttl srv s =
     (let ks = KSession sid; kr = KRecovery sid expected request; e = s ks;
          s = at_key (KUsed sid expected) (set_ex srv ''used'' remaining) s;
          s = at_key ks (hset ''last_rotated_at'' (show_int now) \<circ> hset ''secret_hash'' new) s;
          s = at_key ks (expire srv ttl) s;
          reply = [VInt 1, reply_field (hget e ''user_id''), reply_field (hget e ''auth_version''), VInt ttl, VString sealed]
      in if request = '''' then (s, Inr reply)
         else if \<not> type_ok THash (s kr) then (s, Inl wrong_type)
         else
           (let s = at_key kr (hset ''sealed_secret'' sealed \<circ> hset ''next_hash'' new) s
            in (at_key kr (expire srv (min recovery_ttl ttl)) s, Inr reply)))"

definition rotate_script ::
  "string \<Rightarrow> string \<Rightarrow> string \<Rightarrow> int \<Rightarrow> int \<Rightarrow> string \<Rightarrow> string \<Rightarrow> int \<Rightarrow> int \<Rightarrow> astore \<Rightarrow> astore \<times> redis_value list res" where
  "rotate_script sid expected new now idle request sealed recovery_ttl srv s =
     (let ks = KSession sid; ku = KUsed sid expected; e = s ks in
      if e = None then (s, Inr [VInt (if s ku \<noteq> None then - 2 else - 1)])
      else if \<not> type_ok THash e then (s, Inl wrong_type)
      else if hget e ''secret_hash'' \<noteq> Some expected then
        (if s ku = None then (s, Inr [VInt (- 1)])
         else if request \<noteq> '''' \<and> \<not> type_ok THash (s (KRecovery sid expected request)) then (s, Inl wrong_type)
         else (case replay sid expected request now srv s of
                 Some reply \<Rightarrow> (s, Inr reply)
               | None \<Rightarrow> (at_key ks rdel s, Inr [VInt (- 2)])))
      else
        (case lua_int (hget e ''absolute_expires_at'') of
           None \<Rightarrow> (at_key ks rdel s, Inr [VInt (- 3)])
         | Some absolute \<Rightarrow>
            (if absolute \<le> now then (at_key ks rdel s, Inr [VInt (- 3)])
             else
               (let remaining = absolute - now; ttl = (if idle > remaining then remaining else idle) in
                if ttl < 1 then (at_key ks rdel s, Inr [VInt (- 3)])
                else if \<not> version_ok (hget e ''auth_version'') then (s, Inr [VInt (- 4)])
                else renew sid expected new now request sealed recovery_ttl remaining ttl srv s))))"

definition revoke_script :: "string \<Rightarrow> string \<Rightarrow> astore \<Rightarrow> astore \<times> int res" where
  "revoke_script sid expected s =
     (let e = s (KSession sid) in
      if e = None then (s, Inr 1)
      else if \<not> type_ok THash e then (s, Inl wrong_type)
      else if hget e ''secret_hash'' \<noteq> Some expected \<and> s (KUsed sid expected) = None then (s, Inr (- 1))
      else (at_key (KSession sid) rdel s, Inr 1))"

section \<open>Methods of the store\<close>

definition refreshRecoveryTTL :: int where "refreshRecoveryTTL = 2 * 60 * go_second"

record refresh_recovery =
  RequestID :: string
  SealedSecret :: string

definition session_valid :: "refresh_session \<Rightarrow> bool" where
  "session_valid ses \<longleftrightarrow>
     \<not> (SessionID ses = '''' \<or> UserID ses = 0 \<or> AuthVersion ses \<le> 0 \<or> SecretHash ses = '''' \<or> TTL ses \<le> 0)"

definition Create :: "fault \<Rightarrow> refresh_session \<Rightarrow> int \<Rightarrow> astore \<Rightarrow> astore \<times> (auth_error + unit)" where
  "Create f ses srv s =
     (if \<not> session_valid ses then (s, Inl (AuthOther ''invalid refresh session''))
      else
        (case call f (create_script (SessionID ses) (UserID ses) (AuthVersion ses) (SecretHash ses)
                  (unix (SessionCreatedAt ses)) (unix (LastRotatedAt ses)) (unix (AbsoluteExpiresAt ses))
                  (durationSecondsCeil (TTL ses)) srv) (live srv s) of
           (s, Inl e) \<Rightarrow> (s, Inl (AuthRedis ''create refresh session'' e))
         | (s, Inr r) \<Rightarrow> (s, if r \<noteq> 1 then Inl (AuthOther ''refresh session already exists'') else Inr ())))"

definition parse_rotation :: "string \<Rightarrow> redis_value list \<Rightarrow> auth_error + nat \<times> int \<times> int \<times> string" where
  "parse_rotation request values =
     (case values of
        [] \<Rightarrow> Inl (AuthOther ''invalid Redis refresh rotation response'')
      | status # rest \<Rightarrow>
         (case parseRedisInt status of
            None \<Rightarrow> Inl (AuthOther ''invalid Redis refresh rotation status'')
          | Some st \<Rightarrow>
             (if st = - 1 then Inl ErrRefreshInvalid
              else if st = - 2 then Inl ErrRefreshReused
              else if st = - 3 then Inl ErrRefreshExpired
              else if st = - 4 then Inl ErrRefreshInvalid
              else if st = 1 then
                (case rest of
                   [user, version, ttl, sealed] \<Rightarrow>
                     (case parseRedisInt user of
                        None \<Rightarrow> Inl (AuthOther ''invalid refresh session user ID'')
                      | Some u \<Rightarrow>
                         if u \<le> 0 then Inl (AuthOther ''invalid refresh session user ID'') else
                         (case parseRedisInt version of
                            None \<Rightarrow> Inl (AuthOther ''invalid refresh session authentication version'')
                          | Some v \<Rightarrow>
                             if v \<le> 0 then Inl (AuthOther ''invalid refresh session authentication version'') else
                             (case parseRedisInt ttl of
                                None \<Rightarrow> Inl (AuthOther ''invalid refresh session TTL'')
                              | Some t \<Rightarrow>
                                 if t \<le> 0 then Inl (AuthOther ''invalid refresh session TTL'') else
                                 (case sealed of
                                    VString x \<Rightarrow>
                                      (if request \<noteq> '''' \<and> x = '''' then Inl (AuthOther ''invalid refresh recovery secret'')
                                       else Inr (nat u, v, wrap64 (t * go_second), x))
                                  | _ \<Rightarrow> Inl (AuthOther ''invalid refresh recovery secret'')))))
                 | _ \<Rightarrow> Inl (AuthOther ''incomplete Redis refresh rotation response''))
              else Inl (AuthOther ''unknown Redis refresh rotation status''))))"

definition Rotate ::
  "fault \<Rightarrow> string \<Rightarrow> string \<Rightarrow> string \<Rightarrow> int \<Rightarrow> int \<Rightarrow> refresh_recovery \<Rightarrow> int \<Rightarrow> astore \<Rightarrow>
   astore \<times> (auth_error + nat \<times> int \<times> int \<times> string)" where
  "Rotate f sid expected new now idle recovery srv s =
     (case call f (rotate_script sid expected new (unix now) (durationSecondsCeil idle) (RequestID recovery)
               (SealedSecret recovery) (durationSecondsCeil refreshRecoveryTTL) srv) (live srv s) of
        (s, Inl e) \<Rightarrow> (s, Inl (AuthRedis ''rotate refresh session'' e))
      | (s, Inr values) \<Rightarrow> (s, parse_rotation (RequestID recovery) values))"

definition Revoke :: "fault \<Rightarrow> string \<Rightarrow> string \<Rightarrow> int \<Rightarrow> astore \<Rightarrow> astore \<times> (auth_error + unit)" where
  "Revoke f sid expected srv s =
     (if sid = '''' \<or> expected = '''' then (s, Inl (AuthOther ''invalid refresh revocation parameters''))
      else
        (case call f (revoke_script sid expected) (live srv s) of
           (s, Inl e) \<Rightarrow> (s, Inl (AuthRedis ''revoke refresh session'' e))
         | (s, Inr r) \<Rightarrow>
            (s, if r = 1 then Inr () else if r = - 1 then Inl ErrRefreshInvalid
                else Inl (AuthOther ''invalid Redis refresh revocation response''))))"

section \<open>What a rotation does to the store\<close>

lemma call_effect: "call f op s = (s', r) \<Longrightarrow> s' = s \<or> s' = fst (op s)"
  by (cases f; cases "op s") (auto simp: call_def)

lemma call_Inr: "call f op s = (s', Inr x) \<Longrightarrow> op s = (s', Inr x)"
  by (cases f; cases "op s"; cases "snd (op s)") (auto simp: call_def raw_def)

lemma lua_int_show [simp]: "lua_int (Some (show_int i)) = Some i"
proof (cases "i < 0")
  case True
  have "\<not> digits_only (show_int i)" using True by (simp add: show_int_def digits_only_def is_digit_def)
  with True show ?thesis by (simp add: show_int_def)
qed simp

lemma lua_int_show_nat [simp]: "lua_int (Some (show_nat n)) = Some (int n)"
  by simp

declare lua_int.simps(2) [simp del]

text \<open>The three outcomes: nothing, the end of the family, a new secret.\<close>

definition renewed_session :: "string \<Rightarrow> int \<Rightarrow> int \<Rightarrow> int \<Rightarrow> rentry \<Rightarrow> rentry" where
  "renewed_session new now ttl srv e = expire srv ttl (hset ''last_rotated_at'' (show_int now) (hset ''secret_hash'' new e))"

lemma rotate_current:
  assumes "s (KSession sid) \<noteq> None" "type_ok THash (s (KSession sid))"
    and "hget (s (KSession sid)) ''secret_hash'' = Some expected"
    and "lua_int (hget (s (KSession sid)) ''absolute_expires_at'') = Some absolute"
  shows "rotate_script sid expected new now idle request sealed recovery_ttl srv s =
    (if absolute \<le> now \<or> min idle (absolute - now) < 1 then (at_key (KSession sid) rdel s, Inr [VInt (- 3)])
     else if \<not> version_ok (hget (s (KSession sid)) ''auth_version'') then (s, Inr [VInt (- 4)])
     else renew sid expected new now request sealed recovery_ttl (absolute - now) (min idle (absolute - now)) srv s)"
proof -
  have m: "(if idle > absolute - now then absolute - now else idle) = min idle (absolute - now)" by (auto simp: min_def)
  show ?thesis
    using assms unfolding rotate_script_def Let_def m by (simp del: not_None_eq)
qed

lemma rotate_script_cases:
  assumes run: "rotate_script sid expected new now idle request sealed recovery_ttl srv s = (s', r)"
  obtains (same) "s' = s" "hget (s (KSession sid)) ''secret_hash'' \<noteq> Some expected \<or> (\<exists>e. r = Inl e) \<or> (\<exists>i < 0. r = Inr [VInt i])"
  | (ended) "s' = at_key (KSession sid) rdel s" "\<exists>i < 0. r = Inr [VInt i]" "s (KSession sid) \<noteq> None"
  | (renewed) absolute ttl where "s (KSession sid) \<noteq> None" "type_ok THash (s (KSession sid))"
      "hget (s (KSession sid)) ''secret_hash'' = Some expected"
      "lua_int (hget (s (KSession sid)) ''absolute_expires_at'') = Some absolute" "now < absolute"
      "ttl = min idle (absolute - now)" "1 \<le> ttl"
      "(s', r) = renew sid expected new now request sealed recovery_ttl (absolute - now) ttl srv s"
proof (cases "s (KSession sid) = None \<or> \<not> type_ok THash (s (KSession sid))")
  case True
  then have "s' = s" "(\<exists>e. r = Inl e) \<or> (\<exists>i < 0. r = Inr [VInt i])"
    using run by (auto simp: rotate_script_def Let_def split: if_splits)
  then show thesis using same by blast
next
  case False
  then have e: "s (KSession sid) \<noteq> None" "type_ok THash (s (KSession sid))" by auto
  show thesis
  proof (cases "hget (s (KSession sid)) ''secret_hash'' = Some expected")
    case other: False
    have "(s' = s) \<or> (s' = at_key (KSession sid) rdel s \<and> r = Inr [VInt (- 2)])"
      using run e other unfolding rotate_script_def Let_def by (auto split: if_splits option.splits)
    then show thesis using same ended e(1) other by auto
  next
    case cur: True
    let ?abs = "lua_int (hget (s (KSession sid)) ''absolute_expires_at'')"
    show thesis
    proof (cases ?abs)
      case None
      then show thesis using run e cur ended unfolding rotate_script_def Let_def by (auto split: if_splits)
    next
      case (Some absolute)
      let ?ttl = "min idle (absolute - now)"
      note run' = run [unfolded rotate_current [of s sid, OF e cur Some]]
      consider "absolute \<le> now \<or> ?ttl < 1" | "now < absolute" "1 \<le> ?ttl" by linarith
      then show thesis
      proof cases
        case 1
        with run' have "s' = at_key (KSession sid) rdel s" "r = Inr [VInt (- 3)]" by auto
        then show thesis using ended e(1) by auto
      next
        case 2
        then have "\<not> (absolute \<le> now \<or> ?ttl < 1)" by linarith
        with run' have run'': "(if \<not> version_ok (hget (s (KSession sid)) ''auth_version'') then (s, Inr [VInt (- 4)])
          else renew sid expected new now request sealed recovery_ttl (absolute - now) ?ttl srv s) = (s', r)" by metis
        show thesis
        proof (cases "version_ok (hget (s (KSession sid)) ''auth_version'')")
          case True
          with run'' have "(s', r) = renew sid expected new now request sealed recovery_ttl (absolute - now) ?ttl srv s" by metis
          from renewed [OF e cur Some 2(1) refl 2(2) this] show thesis .
        next
          case False
          with run'' have "s' = s" "r = Inr [VInt (- 4)]" by auto
          then show thesis using same by auto
        qed
      qed
    qed
  qed
qed

lemma renew_store:
  assumes "(s', r) = renew sid expected new now request sealed rttl remaining ttl srv s"
  shows "s' (KSession sid) = renewed_session new now ttl srv (s (KSession sid))"
    and "s' (KUsed sid expected) = set_ex srv ''used'' remaining (s (KUsed sid expected))"
    and "k \<notin> {KSession sid, KUsed sid expected, KRecovery sid expected request} \<Longrightarrow> s' k = s k"
    and "s' (KRecovery sid expected request) = s (KRecovery sid expected request) \<or>
      (type_ok THash (s (KRecovery sid expected request)) \<and>
       s' (KRecovery sid expected request) =
         expire srv (min rttl ttl) (hset ''sealed_secret'' sealed (hset ''next_hash'' new (s (KRecovery sid expected request)))))"
  using assms by (auto simp: renew_def Let_def renewed_session_def at_key_def split: if_splits)

section \<open>Reachable states\<close>

text \<open>
  Any number of clients call the methods, each call with any failure, while the clock of the
  server runs. The state carries what the calls drew so far: the session of every session id, the
  hashes of all secrets, and the pairs of a session and a hash it was rotated away from. Session
  ids and secrets come from the random generator and are never drawn twice.
\<close>

record auth_sys =
  au_store :: astore
  au_clock :: int
  au_created :: "string \<rightharpoonup> refresh_session"
  au_issued :: "string set"
  au_retired :: "(string \<times> string) set"

definition current_hash :: "auth_sys \<Rightarrow> string \<Rightarrow> string option" where
  "current_hash \<sigma> sid = hget (live (au_clock \<sigma>) (au_store \<sigma>) (KSession sid)) ''secret_hash''"

inductive auth_step :: "auth_sys \<Rightarrow> auth_sys \<Rightarrow> bool" where
  au_create: "au_created \<sigma> (SessionID ses) = None \<Longrightarrow> SecretHash ses \<notin> au_issued \<sigma> \<Longrightarrow>
    Create f ses (au_clock \<sigma>) (au_store \<sigma>) = (s', r) \<Longrightarrow>
    auth_step \<sigma> (\<sigma>\<lparr>au_store := s', au_created := (au_created \<sigma>)(SessionID ses \<mapsto> ses),
      au_issued := insert (SecretHash ses) (au_issued \<sigma>)\<rparr>)"
| au_rotate: "new \<notin> au_issued \<sigma> \<Longrightarrow>
    Rotate f sid expected new now idle recovery (au_clock \<sigma>) (au_store \<sigma>) = (s', r) \<Longrightarrow>
    auth_step \<sigma> (\<sigma>\<lparr>au_store := s', au_issued := insert new (au_issued \<sigma>),
      au_retired := (if hget (s' (KSession sid)) ''secret_hash'' = Some new then insert (sid, expected) (au_retired \<sigma>)
        else au_retired \<sigma>)\<rparr>)"
| au_revoke: "Revoke f sid h (au_clock \<sigma>) (au_store \<sigma>) = (s', r) \<Longrightarrow> auth_step \<sigma> (\<sigma>\<lparr>au_store := s'\<rparr>)"
| au_tick: "au_clock \<sigma> \<le> now \<Longrightarrow> auth_step \<sigma> (\<sigma>\<lparr>au_clock := now\<rparr>)"

definition auth_init :: "int \<Rightarrow> auth_sys" where
  "auth_init now = \<lparr>au_store = \<lambda>_. None, au_clock = now, au_created = Map.empty, au_issued = {}, au_retired = {}\<rparr>"

definition auth_reach :: "auth_sys \<Rightarrow> bool" where
  "auth_reach \<sigma> \<longleftrightarrow> (\<exists>now. auth_step\<^sup>*\<^sup>* (auth_init now) \<sigma>)"

text \<open>What is true of the entry of a session.\<close>

definition session_entry :: "auth_sys \<Rightarrow> string \<Rightarrow> rentry \<Rightarrow> bool" where
  "session_entry \<sigma> sid e \<longleftrightarrow> type_ok THash e \<and>
     (e \<noteq> None \<longrightarrow> (\<exists>ses h. au_created \<sigma> sid = Some ses \<and> session_valid ses \<and>
        hget e ''secret_hash'' = Some h \<and> h \<in> au_issued \<sigma> \<and> (sid, h) \<notin> au_retired \<sigma> \<and>
        hget e ''user_id'' = Some (show_nat (UserID ses)) \<and> hget e ''auth_version'' = Some (show_int (AuthVersion ses)) \<and>
        hget e ''absolute_expires_at'' = Some (show_int (unix (AbsoluteExpiresAt ses)))))"

definition auth_inv :: "auth_sys \<Rightarrow> bool" where
  "auth_inv \<sigma> \<longleftrightarrow>
     (\<forall>sid. session_entry \<sigma> sid (au_store \<sigma> (KSession sid))) \<and>
     (\<forall>sid h. type_ok TString (au_store \<sigma> (KUsed sid h))) \<and>
     (\<forall>sid h request. type_ok THash (au_store \<sigma> (KRecovery sid h request))) \<and>
     (\<forall>(sid, h) \<in> au_retired \<sigma>. h \<in> au_issued \<sigma>)"

lemma session_entry_None [simp]: "session_entry \<sigma> sid None"
  by (simp add: session_entry_def)

lemma session_entry_store [simp]: "session_entry (\<sigma>\<lparr>au_store := s\<rparr>) sid e = session_entry \<sigma> sid e"
  by (simp add: session_entry_def)

lemma type_ok_live: "type_ok ty e \<Longrightarrow> type_ok ty (live_entry now e)"
  by (cases "(now, e)" rule: live_entry.cases) auto

lemma session_entry_live: "session_entry \<sigma> sid e \<Longrightarrow> session_entry \<sigma> sid (live_entry now e)"
  by (cases "(now, e)" rule: live_entry.cases) auto

text \<open>A store that satisfies the invariant, seen at an instant, does so too.\<close>

lemma auth_inv_live: "auth_inv \<sigma> \<Longrightarrow> auth_inv (\<sigma>\<lparr>au_store := live now (au_store \<sigma>)\<rparr>)"
  unfolding auth_inv_def live_def
  using session_entry_live [of \<sigma>] type_ok_live by simp

lemma expire_reads [simp]:
  assumes "0 < ttl"
  shows "hmap (expire srv ttl e) = hmap e" "type_ok ty (expire srv ttl e) = type_ok ty e" "expire srv ttl e = None \<longleftrightarrow> e = None"
    "e \<noteq> None \<Longrightarrow> rexpiry (expire srv ttl e) = Some (srv + ttl * 1000)"
  using assms pexpireat_reads [of srv "srv + ttl * 1000"] unfolding expire_def pexpire_def by simp_all

lemma hset_ne_None [simp]: "hset f v e \<noteq> None"
  by (cases "(f, v, e)" rule: hset.cases) auto

lemma durationSecondsCeil_pos: "1 \<le> durationSecondsCeil d"
  by (simp add: durationSecondsCeil_def Let_def)

text \<open>The writes to a session, as facts on its entry.\<close>

lemma created_entry:
  assumes "create_script sid user version h created rotated absolute ttl srv s = (s', r)" "0 < ttl" "s (KSession sid) = None"
  shows "type_ok THash (s' (KSession sid))" "hget (s' (KSession sid)) ''secret_hash'' = Some h"
    "hget (s' (KSession sid)) ''user_id'' = Some (show_nat user)" "hget (s' (KSession sid)) ''auth_version'' = Some (show_int version)"
    "hget (s' (KSession sid)) ''absolute_expires_at'' = Some (show_int absolute)" "\<forall>k. k \<noteq> KSession sid \<longrightarrow> s' k = s k"
  using assms(1,3) expire_reads [OF assms(2)] by (auto simp: create_script_def Let_def entry_simps type_ok_def [of THash "Some _"])

lemma renewed_entry:
  assumes "1 \<le> ttl" "type_ok THash e"
  shows "type_ok THash (renewed_session new now ttl srv e)"
    "hget (renewed_session new now ttl srv e) ''secret_hash'' = Some new"
    "f \<noteq> ''secret_hash'' \<Longrightarrow> f \<noteq> ''last_rotated_at'' \<Longrightarrow> hget (renewed_session new now ttl srv e) f = hget e f"
    "renewed_session new now ttl srv e \<noteq> None"
proof -
  have t: "0 < ttl" using assms by simp
  show "type_ok THash (renewed_session new now ttl srv e)"
    "hget (renewed_session new now ttl srv e) ''secret_hash'' = Some new"
    "renewed_session new now ttl srv e \<noteq> None"
    unfolding renewed_session_def using assms(2) by (simp_all add: expire_reads [OF t] entry_simps del: not_None_eq)
  show "hget (renewed_session new now ttl srv e) f = hget e f" if "f \<noteq> ''secret_hash''" "f \<noteq> ''last_rotated_at''"
    unfolding renewed_session_def using assms(2) that by (simp add: expire_reads [OF t] entry_simps del: not_None_eq)
qed

text \<open>The methods change the store as their scripts do, or not at all.\<close>

lemma Create_store:
  assumes "Create f ses srv s = (s', r)"
  shows "s' = s \<or> s' = live srv s \<or> (session_valid ses \<and> live srv s (KSession (SessionID ses)) = None \<and>
    (\<exists>x. create_script (SessionID ses) (UserID ses) (AuthVersion ses) (SecretHash ses) (unix (SessionCreatedAt ses))
       (unix (LastRotatedAt ses)) (unix (AbsoluteExpiresAt ses)) (durationSecondsCeil (TTL ses)) srv (live srv s) = (s', x)))"
proof (cases "session_valid ses")
  case True
  let ?op = "create_script (SessionID ses) (UserID ses) (AuthVersion ses) (SecretHash ses) (unix (SessionCreatedAt ses))
       (unix (LastRotatedAt ses)) (unix (AbsoluteExpiresAt ses)) (durationSecondsCeil (TTL ses)) srv"
  obtain y where "call f ?op (live srv s) = (s', y)"
    using assms True unfolding Create_def by (auto split: prod.splits sum.splits)
  then consider "s' = live srv s" | "s' = fst (?op (live srv s))" using call_effect by metis
  then show ?thesis
  proof cases
    case 2
    show ?thesis
    proof (cases "live srv s (KSession (SessionID ses)) = None")
      case False
      with 2 show ?thesis by (simp add: create_script_def)
    next
      case absent: True
      from 2 have "?op (live srv s) = (s', snd (?op (live srv s)))" by simp
      with True absent show ?thesis by blast
    qed
  qed simp
qed (use assms in \<open>auto simp: Create_def\<close>)

lemma Rotate_store:
  assumes "Rotate f sid expected new now idle recovery srv s = (s', r)"
  shows "s' = live srv s \<or> (\<exists>x. rotate_script sid expected new (unix now) (durationSecondsCeil idle) (RequestID recovery)
    (SealedSecret recovery) (durationSecondsCeil refreshRecoveryTTL) srv (live srv s) = (s', x))"
proof -
  let ?op = "rotate_script sid expected new (unix now) (durationSecondsCeil idle) (RequestID recovery)
    (SealedSecret recovery) (durationSecondsCeil refreshRecoveryTTL) srv"
  obtain y where "call f ?op (live srv s) = (s', y)"
    using assms unfolding Rotate_def by (auto split: prod.splits sum.splits)
  then have "s' = live srv s \<or> s' = fst (?op (live srv s))" by (rule call_effect)
  then show ?thesis by (metis prod.collapse)
qed

lemma Rotate_Inr:
  assumes "Rotate f sid expected new now idle recovery srv s = (s', Inr x)"
  obtains vs where "rotate_script sid expected new (unix now) (durationSecondsCeil idle) (RequestID recovery)
    (SealedSecret recovery) (durationSecondsCeil refreshRecoveryTTL) srv (live srv s) = (s', Inr vs)"
    "parse_rotation (RequestID recovery) vs = Inr x"
proof -
  let ?op = "rotate_script sid expected new (unix now) (durationSecondsCeil idle) (RequestID recovery)
    (SealedSecret recovery) (durationSecondsCeil refreshRecoveryTTL) srv"
  obtain vs where v: "call f ?op (live srv s) = (s', Inr vs)" "parse_rotation (RequestID recovery) vs = Inr x"
    using assms unfolding Rotate_def by (auto split: prod.splits sum.splits)
  from that [OF call_Inr [OF v(1)] v(2)] show thesis .
qed

lemma Revoke_store:
  assumes "Revoke f sid h srv s = (s', r)"
  shows "s' = s \<or> s' = live srv s \<or> s' = at_key (KSession sid) rdel (live srv s)"
proof (cases "sid = [] \<or> h = []")
  case False
  obtain y where "call f (revoke_script sid h) (live srv s) = (s', y)"
    using assms False unfolding Revoke_def by (auto split: prod.splits sum.splits)
  then have "s' = live srv s \<or> s' = fst (revoke_script sid h (live srv s))" by (rule call_effect)
  then show ?thesis by (auto simp: revoke_script_def Let_def)
qed (use assms in \<open>auto simp: Revoke_def\<close>)

section \<open>The invariant\<close>

lemma session_entry_mono:
  assumes "session_entry \<sigma> sid e" "au_issued \<sigma> \<subseteq> au_issued \<sigma>'"
    and "au_created \<sigma>' sid = au_created \<sigma> sid \<or> au_created \<sigma> sid = None"
    and "\<And>h. h \<in> au_issued \<sigma> \<Longrightarrow> hget e ''secret_hash'' = Some h \<Longrightarrow> (sid, h) \<in> au_retired \<sigma>' \<Longrightarrow> (sid, h) \<in> au_retired \<sigma>"
  shows "session_entry \<sigma>' sid e"
proof (cases "e = None")
  case False
  with assms(1) obtain ses h where "au_created \<sigma> sid = Some ses" "h \<in> au_issued \<sigma>" "(sid, h) \<notin> au_retired \<sigma>"
    "hget e ''secret_hash'' = Some h" and rest: "type_ok THash e" "session_valid ses" "hget e ''user_id'' = Some (show_nat (UserID ses))"
    "hget e ''auth_version'' = Some (show_int (AuthVersion ses))"
    "hget e ''absolute_expires_at'' = Some (show_int (unix (AbsoluteExpiresAt ses)))"
    unfolding session_entry_def by (elim conjE impE exE)
  moreover from this have "au_created \<sigma>' sid = Some ses" "h \<in> au_issued \<sigma>'" "(sid, h) \<notin> au_retired \<sigma>'"
    using assms(2-4) by auto
  ultimately show ?thesis unfolding session_entry_def by blast
qed simp

lemma auth_invI:
  assumes "\<And>sid. session_entry \<sigma> sid (au_store \<sigma> (KSession sid))"
    "\<And>sid h. type_ok TString (au_store \<sigma> (KUsed sid h))"
    "\<And>sid h request. type_ok THash (au_store \<sigma> (KRecovery sid h request))"
    "\<And>sid h. (sid, h) \<in> au_retired \<sigma> \<Longrightarrow> h \<in> au_issued \<sigma>"
  shows "auth_inv \<sigma>"
  unfolding auth_inv_def using assms by blast

lemma auth_invD:
  assumes "auth_inv \<sigma>"
  shows "session_entry \<sigma> sid (live now (au_store \<sigma>) (KSession sid))"
    "type_ok TString (live now (au_store \<sigma>) (KUsed sid h))" "type_ok THash (live now (au_store \<sigma>) (KRecovery sid h request))"
    "(sid, h) \<in> au_retired \<sigma> \<Longrightarrow> h \<in> au_issued \<sigma>"
proof -
  note inv = assms [unfolded auth_inv_def]
  show "session_entry \<sigma> sid (live now (au_store \<sigma>) (KSession sid))"
    unfolding live_def by (rule session_entry_live) (rule inv [THEN conjunct1, THEN spec])
  show "type_ok TString (live now (au_store \<sigma>) (KUsed sid h))"
    unfolding live_def by (rule type_ok_live) (rule inv [THEN conjunct2, THEN conjunct1, THEN spec, THEN spec])
  show "type_ok THash (live now (au_store \<sigma>) (KRecovery sid h request))"
    unfolding live_def by (rule type_ok_live) (rule inv [THEN conjunct2, THEN conjunct2, THEN conjunct1, THEN spec, THEN spec, THEN spec])
  show "(sid, h) \<in> au_retired \<sigma> \<Longrightarrow> h \<in> au_issued \<sigma>"
    using inv by blast
qed

lemma set_ex_type [simp]: "type_ok TString (set_ex srv v n e)"
  by (simp add: set_ex_def type_ok_def)

lemma auth_inv_create:
  assumes inv: "auth_inv \<sigma>" and new: "au_created \<sigma> (SessionID ses) = None" "SecretHash ses \<notin> au_issued \<sigma>"
    and run: "Create f ses (au_clock \<sigma>) (au_store \<sigma>) = (s', r)"
  shows "auth_inv (\<sigma>\<lparr>au_store := s', au_created := (au_created \<sigma>)(SessionID ses \<mapsto> ses),
    au_issued := insert (SecretHash ses) (au_issued \<sigma>)\<rparr>)" (is "auth_inv ?\<sigma>")
proof -
  let ?L = "live (au_clock \<sigma>) (au_store \<sigma>)" and ?sid = "SessionID ses"
  have keep: "session_entry ?\<sigma> sid e" if "session_entry \<sigma> sid e" for sid e
    by (rule session_entry_mono [OF that]) (use new in auto)
  have old: "session_entry ?\<sigma> sid (?L (KSession sid))" "session_entry ?\<sigma> sid (au_store \<sigma> (KSession sid))" for sid
    using keep auth_invD(1) [OF inv] inv unfolding auth_inv_def by blast+
  consider "s' = au_store \<sigma>" | "s' = ?L"
    | x where "session_valid ses" "?L (KSession ?sid) = None"
      "create_script ?sid (UserID ses) (AuthVersion ses) (SecretHash ses) (unix (SessionCreatedAt ses))
       (unix (LastRotatedAt ses)) (unix (AbsoluteExpiresAt ses)) (durationSecondsCeil (TTL ses)) (au_clock \<sigma>) ?L = (s', x)"
    using Create_store [OF run] by blast
  then show ?thesis
  proof cases
    case 3
    have "0 < durationSecondsCeil (TTL ses)" using durationSecondsCeil_pos [of "TTL ses"] by simp
    note e = created_entry [OF 3(3) this 3(2)]
    have fresh: "(?sid, SecretHash ses) \<notin> au_retired \<sigma>" using auth_invD(4) [OF inv] new(2) by blast
    have "session_entry ?\<sigma> sid (s' (KSession sid))" for sid
    proof (cases "sid = ?sid")
      case True
      then show ?thesis using e(1-5) 3(1) fresh unfolding session_entry_def by simp
    next
      case False
      then show ?thesis using e(6) old(1) by simp
    qed
    then show ?thesis
      using e(6) auth_invD [OF inv] by (intro auth_invI) (auto simp del: not_None_eq)
  qed (use old auth_invD [OF inv] inv in \<open>auto intro!: auth_invI simp: auth_inv_def\<close>)
qed

lemma auth_inv_revoke:
  assumes inv: "auth_inv \<sigma>" and run: "Revoke f sid h (au_clock \<sigma>) (au_store \<sigma>) = (s', r)"
  shows "auth_inv (\<sigma>\<lparr>au_store := s'\<rparr>)"
proof -
  let ?L = "live (au_clock \<sigma>) (au_store \<sigma>)"
  have live: "auth_inv (\<sigma>\<lparr>au_store := ?L\<rparr>)" by (rule auth_inv_live [OF inv])
  from Revoke_store [OF run] show ?thesis
  proof (elim disjE)
    assume s': "s' = at_key (KSession sid) rdel ?L"
    show ?thesis using live unfolding s' auth_inv_def session_entry_def by (simp add: at_key_def del: not_None_eq)
  qed (use inv live in auto)
qed

lemma auth_inv_rotate:
  assumes inv: "auth_inv \<sigma>" and new: "new \<notin> au_issued \<sigma>"
    and run: "Rotate f sid expected new now idle recovery (au_clock \<sigma>) (au_store \<sigma>) = (s', r)"
  shows "auth_inv (\<sigma>\<lparr>au_store := s', au_issued := insert new (au_issued \<sigma>),
      au_retired := (if hget (s' (KSession sid)) ''secret_hash'' = Some new then insert (sid, expected) (au_retired \<sigma>)
        else au_retired \<sigma>)\<rparr>)" (is "auth_inv ?\<sigma>")
proof -
  let ?L = "live (au_clock \<sigma>) (au_store \<sigma>)"
  note L = auth_invD(1-3) [OF inv, where now = "au_clock \<sigma>"] auth_invD(4) [OF inv]
  have other: "session_entry ?\<sigma> sid' (?L (KSession sid'))" if "sid' \<noteq> sid" for sid'
    by (rule session_entry_mono [OF L(1)]) (use that in \<open>auto split: if_splits\<close>)
  have cur: "hget (?L (KSession sid)) ''secret_hash'' \<noteq> Some new"
    using L(1) [of sid] new unfolding session_entry_def by (cases "?L (KSession sid) = None") auto
  have keep: "session_entry ?\<sigma> sid (?L (KSession sid))" if "hget (s' (KSession sid)) ''secret_hash'' \<noteq> Some new"
    by (rule session_entry_mono [OF L(1)]) (use that in auto)
  have quiet: ?thesis if s': "s' = ?L \<or> s' = at_key (KSession sid) rdel ?L"
  proof -
    have h: "hget (s' (KSession sid)) ''secret_hash'' \<noteq> Some new" using s' cur by auto
    have "session_entry ?\<sigma> sid' (s' (KSession sid'))" for sid'
      using s' keep [OF h] other [of sid'] by (cases "sid' = sid") auto
    then show ?thesis using s' L(2-4) h by (intro auth_invI) auto
  qed
  from Rotate_store [OF run] show ?thesis
  proof (elim disjE exE)
    fix x assume script: "rotate_script sid expected new (unix now) (durationSecondsCeil idle) (RequestID recovery)
      (SealedSecret recovery) (durationSecondsCeil refreshRecoveryTTL) (au_clock \<sigma>) ?L = (s', x)"
    show ?thesis
    proof (cases rule: rotate_script_cases [OF script])
      case 1
      show ?thesis by (rule quiet) (rule disjI1 [OF 1(1)])
    next
      case 2
      show ?thesis by (rule quiet) (rule disjI2 [OF 2(1)])
    next
      case (3 absolute ttl)
      have t: "0 < min (durationSecondsCeil refreshRecoveryTTL) ttl" using 3(7) durationSecondsCeil_pos [of refreshRecoveryTTL] by simp
      note st = renew_store [OF 3(8)]
      note e = renewed_entry [OF 3(7,2), where new = new and now = "unix now" and srv = "au_clock \<sigma>"]
      from L(1) [of sid] 3(1,3) obtain ses where ses: "au_created \<sigma> sid = Some ses" "session_valid ses"
        "expected \<in> au_issued \<sigma>" "hget (?L (KSession sid)) ''user_id'' = Some (show_nat (UserID ses))"
        "hget (?L (KSession sid)) ''auth_version'' = Some (show_int (AuthVersion ses))"
        "hget (?L (KSession sid)) ''absolute_expires_at'' = Some (show_int (unix (AbsoluteExpiresAt ses)))"
        unfolding session_entry_def by auto
      have ret: "(sid, new) \<notin> insert (sid, expected) (au_retired \<sigma>)" using L(4) new ses(3) by blast
      have "session_entry ?\<sigma> sid (s' (KSession sid))"
        unfolding session_entry_def st(1) using e ses ret by (simp del: not_None_eq)
      moreover have "s' (KSession sid') = ?L (KSession sid')" if "sid' \<noteq> sid" for sid' using st(3) that by simp
      ultimately have "session_entry ?\<sigma> sid' (s' (KSession sid'))" for sid'
        using other [of sid'] by (cases "sid' = sid") simp_all
      moreover have "type_ok TString (s' (KUsed sid' h))" for sid' h
        using st(2) st(3) [of "KUsed sid' h"] L(2) by (cases "sid' = sid \<and> h = expected") auto
      moreover have "type_ok THash (s' (KRecovery sid' h request))" for sid' h request
        using st(4) st(3) [of "KRecovery sid' h request"] L(3)
        by (cases "sid' = sid \<and> h = expected \<and> request = RequestID recovery") (auto simp: expire_reads [OF t] entry_simps)
      ultimately show ?thesis using L(4) ses(3) by (intro auth_invI) (auto split: if_splits)
    qed
  qed (rule quiet, erule disjI1)
qed

lemma auth_inv_step: "auth_step \<sigma> \<sigma>' \<Longrightarrow> auth_inv \<sigma> \<Longrightarrow> auth_inv \<sigma>'"
proof (induction rule: auth_step.induct)
  case (au_create \<sigma> ses f s' r)
  from auth_inv_create [OF au_create(4,1,2,3)] show ?case .
next
  case (au_rotate new \<sigma> f sid expected now idle recovery s' r)
  from auth_inv_rotate [OF au_rotate(3,1,2)] show ?case .
next
  case (au_revoke f sid h \<sigma> s' r)
  from auth_inv_revoke [OF au_revoke(2,1)] show ?case .
next
  case (au_tick \<sigma> now)
  then show ?case by (simp add: auth_inv_def session_entry_def)
qed

lemma auth_reach_inv: "auth_reach \<sigma> \<Longrightarrow> auth_inv \<sigma>"
proof -
  assume "auth_reach \<sigma>"
  then obtain now where "auth_step\<^sup>*\<^sup>* (auth_init now) \<sigma>" unfolding auth_reach_def by blast
  moreover have "auth_inv (auth_init now)" by (simp add: auth_inv_def auth_init_def)
  ultimately show ?thesis by (induction rule: rtranclp_induct) (blast intro: auth_inv_step)+
qed

section \<open>A secret is accepted once\<close>

lemma rotate_script_other:
  assumes "rotate_script sid h new now idle request sealed recovery_ttl srv s = (s', Inr vs)"
    and "hget (s (KSession sid)) ''secret_hash'' \<noteq> Some h"
  shows "(\<exists>i < 0. vs = [VInt i]) \<or> (s' = s \<and> replay sid h request now srv s = Some vs)"
  using assms unfolding rotate_script_def Let_def by (auto split: if_splits option.splits)

lemma replay_Some:
  assumes "replay sid h request now srv s = Some vs" "\<forall>i < 0. vs \<noteq> [VInt i]"
  obtains sealed where "request \<noteq> []" "hget (s (KSession sid)) ''secret_hash'' = hget (s (KRecovery sid h request)) ''next_hash''"
    "hget (s (KRecovery sid h request)) ''sealed_secret'' = Some sealed" "version_ok (hget (s (KSession sid)) ''auth_version'')"
    "\<exists>absolute. lua_int (hget (s (KSession sid)) ''absolute_expires_at'') = Some absolute \<and> now < absolute"
    "vs = [VInt 1, reply_field (hget (s (KSession sid)) ''user_id''), reply_field (hget (s (KSession sid)) ''auth_version''),
       VInt (ttl_seconds srv (s (KSession sid))), VString sealed]"
  using assms unfolding replay_def Let_def by (auto split: if_splits option.splits dest: spec [of _ "- 4"])

lemma parse_rotation_refused: "i < 0 \<Longrightarrow> parse_rotation request [VInt i] \<noteq> Inr x"
  by (simp add: parse_rotation_def)

lemma parse_rotation_Inr:
  assumes "parse_rotation request [VInt 1, user, version, ttl, VString sealed] = Inr (u, v, t, x)"
  shows "parseRedisInt user = Some (int u)" "0 < u" "parseRedisInt version = Some v" "0 < v"
    "\<exists>secs. parseRedisInt ttl = Some secs \<and> 0 < secs \<and> t = wrap64 (secs * go_second)" "x = sealed"
  using assms unfolding parse_rotation_def by (auto split: option.splits if_splits)

lemma retired_not_current:
  assumes "auth_inv \<sigma>" "(sid, h) \<in> au_retired \<sigma>"
  shows "current_hash \<sigma> sid \<noteq> Some h"
  using auth_invD(1) [OF assms(1), of sid "au_clock \<sigma>"] assms(2)
  unfolding current_hash_def session_entry_def by (cases "live (au_clock \<sigma>) (au_store \<sigma>) (KSession sid) = None") auto

text \<open>
  C22. A refresh secret is accepted once. In every state that any interleaving of logins,
  rotations and logouts reaches, whatever calls failed in between, a secret that was rotated
  away is never rotated again: presenting it leaves the store as it was or ends its family. The
  only answer it can still get is the one recorded for the same request, while the secret that
  request was given is the current one.
\<close>

theorem rotated_secret_is_spent:
  fixes \<sigma> :: auth_sys
  defines "s \<equiv> live (au_clock \<sigma>) (au_store \<sigma>)"
  assumes reach: "auth_reach \<sigma>" and spent: "(sid, h) \<in> au_retired \<sigma>"
    and run: "Rotate f sid h new now idle recovery (au_clock \<sigma>) (au_store \<sigma>) = (s', r)"
  shows "(s' = s \<or> s' = at_key (KSession sid) rdel s) \<and>
    (\<forall>u v t x. r = Inr (u, v, t, x) \<longrightarrow> s' = s \<and> RequestID recovery \<noteq> [] \<and>
      hget (s (KRecovery sid h (RequestID recovery))) ''sealed_secret'' = Some x \<and>
      hget (s (KRecovery sid h (RequestID recovery))) ''next_hash'' = current_hash \<sigma> sid)"
proof (intro conjI allI impI)
  have cur: "hget (s (KSession sid)) ''secret_hash'' \<noteq> Some h"
    using retired_not_current [OF auth_reach_inv [OF reach] spent] by (simp add: current_hash_def s_def)
  show "s' = s \<or> s' = at_key (KSession sid) rdel s"
    using Rotate_store [OF run]
  proof (elim disjE exE)
    fix y assume script: "rotate_script sid h new (unix now) (durationSecondsCeil idle) (RequestID recovery)
      (SealedSecret recovery) (durationSecondsCeil refreshRecoveryTTL) (au_clock \<sigma>) (live (au_clock \<sigma>) (au_store \<sigma>)) = (s', y)"
    show ?thesis
      by (cases rule: rotate_script_cases [OF script [folded s_def]]) (use cur in auto)
  qed (simp add: s_def)
  fix u v t x assume "r = Inr (u, v, t, x)"
  from Rotate_Inr [OF run [unfolded this]] obtain vs where
    vs: "rotate_script sid h new (unix now) (durationSecondsCeil idle) (RequestID recovery)
      (SealedSecret recovery) (durationSecondsCeil refreshRecoveryTTL) (au_clock \<sigma>) s = (s', Inr vs)"
    "parse_rotation (RequestID recovery) vs = Inr (u, v, t, x)" unfolding s_def .
  have ok: "\<forall>i < 0. vs \<noteq> [VInt i]" using vs(2) parse_rotation_refused by blast
  with rotate_script_other [OF vs(1) cur] have "s' = s" "replay sid h (RequestID recovery) (unix now) (au_clock \<sigma>) s = Some vs"
    by blast+
  from replay_Some [OF this(2) ok] obtain sealed where sealed: "RequestID recovery \<noteq> []"
    "hget (s (KSession sid)) ''secret_hash'' = hget (s (KRecovery sid h (RequestID recovery))) ''next_hash''"
    "hget (s (KRecovery sid h (RequestID recovery))) ''sealed_secret'' = Some sealed"
    "vs = [VInt 1, reply_field (hget (s (KSession sid)) ''user_id''), reply_field (hget (s (KSession sid)) ''auth_version''),
       VInt (ttl_seconds (au_clock \<sigma>) (s (KSession sid))), VString sealed]" by metis
  from parse_rotation_Inr(6) [OF vs(2) [unfolded sealed(4)]] sealed \<open>s' = s\<close>
  show "s' = s" "RequestID recovery \<noteq> []"
    "hget (s (KRecovery sid h (RequestID recovery))) ''sealed_secret'' = Some x"
    "hget (s (KRecovery sid h (RequestID recovery))) ''next_hash'' = current_hash \<sigma> sid"
    by (simp_all add: current_hash_def s_def)
qed

section \<open>An ended family stays ended\<close>

lemma live_absent: "a \<le> b \<Longrightarrow> live a s k = None \<Longrightarrow> live b s k = None"
  using live_mono [of a b s] by (metis live_def live_entry.simps(2))

text \<open>A session id that was drawn, and whose session is not there.\<close>

definition ended :: "auth_sys \<Rightarrow> string \<Rightarrow> bool" where
  "ended \<sigma> sid \<longleftrightarrow> au_created \<sigma> sid \<noteq> None \<and> live (au_clock \<sigma>) (au_store \<sigma>) (KSession sid) = None"

lemma Rotate_absent:
  assumes "Rotate f sid h new now idle recovery srv s = (s', r)" "live srv s (KSession sid) = None"
  shows "s' = live srv s" "\<exists>e. r = Inl e"
proof -
  let ?op = "rotate_script sid h new (unix now) (durationSecondsCeil idle) (RequestID recovery)
    (SealedSecret recovery) (durationSecondsCeil refreshRecoveryTTL) srv"
  have op: "?op (live srv s) = (live srv s, Inr [VInt (if live srv s (KUsed sid h) \<noteq> None then - 2 else - 1)])"
    using assms(2) by (simp add: rotate_script_def Let_def)
  then show "s' = live srv s" using Rotate_store [OF assms(1)] by auto
  show "\<exists>e. r = Inl e"
  proof (cases r)
    case (Inr x)
    from Rotate_Inr [OF assms(1) [unfolded Inr]] obtain vs where
      "?op (live srv s) = (s', Inr vs)" "parse_rotation (RequestID recovery) vs = Inr x" .
    then show ?thesis using op parse_rotation_refused [of _ "RequestID recovery" x] by (auto split: if_splits)
  qed simp
qed

lemma Rotate_other:
  assumes "Rotate f sid h new now idle recovery srv s = (s', r)" "sid' \<noteq> sid"
  shows "s' (KSession sid') = live srv s (KSession sid')"
  using Rotate_store [OF assms(1)]
proof (elim disjE exE)
  fix y assume script: "rotate_script sid h new (unix now) (durationSecondsCeil idle) (RequestID recovery)
      (SealedSecret recovery) (durationSecondsCeil refreshRecoveryTTL) srv (live srv s) = (s', y)"
  show ?thesis
  proof (cases rule: rotate_script_cases [OF script])
    case (3 absolute ttl)
    from renew_store(3) [OF 3(8), of "KSession sid'"] assms(2) show ?thesis by simp
  qed (use assms(2) in auto)
qed simp

lemma ended_step:
  assumes "auth_step \<sigma> \<sigma>'" "ended \<sigma> sid"
  shows "ended \<sigma>' sid"
  using assms(1)
proof cases
  case (au_create ses f s' r)
  have other: "SessionID ses \<noteq> sid" using au_create(2) assms(2) by (auto simp: ended_def)
  have "s' (KSession sid) = au_store \<sigma> (KSession sid) \<or> s' (KSession sid) = live (au_clock \<sigma>) (au_store \<sigma>) (KSession sid)"
    using Create_store [OF au_create(4)] other created_entry(6) [OF _ _] durationSecondsCeil_pos [of "TTL ses"]
    by (metis akey.inject(1) zero_less_one order_less_le_trans)
  then have "live (au_clock \<sigma>) s' (KSession sid) = None"
    using assms(2) unfolding ended_def live_def by auto
  then show ?thesis using assms(2) unfolding au_create(1) ended_def by simp
next
  case (au_rotate new f sid' h now idle recovery s' r)
  have "s' (KSession sid) = live (au_clock \<sigma>) (au_store \<sigma>) (KSession sid)"
  proof (cases "sid = sid'")
    case True
    then show ?thesis using Rotate_absent(1) [OF au_rotate(3)] assms(2) unfolding ended_def by metis
  next
    case False
    then show ?thesis by (rule Rotate_other [OF au_rotate(3)])
  qed
  then have "live (au_clock \<sigma>) s' (KSession sid) = None"
    using assms(2) unfolding ended_def live_def by simp
  then show ?thesis using assms(2) unfolding au_rotate(1) ended_def by simp
next
  case (au_revoke f sid' h s' r)
  have "s' (KSession sid) = au_store \<sigma> (KSession sid) \<or> s' (KSession sid) = live (au_clock \<sigma>) (au_store \<sigma>) (KSession sid) \<or>
      s' (KSession sid) = None"
    using Revoke_store [OF au_revoke(2)] by (cases "sid' = sid") auto
  then have "live (au_clock \<sigma>) s' (KSession sid) = None"
    using assms(2) unfolding ended_def live_def by auto
  then show ?thesis using assms(2) unfolding au_revoke(1) ended_def by simp
next
  case (au_tick now)
  then show ?thesis using assms(2) live_absent unfolding ended_def by auto
qed

lemma ended_steps: "auth_step\<^sup>*\<^sup>* \<sigma> \<sigma>' \<Longrightarrow> ended \<sigma> sid \<Longrightarrow> ended \<sigma>' sid"
  by (induction rule: rtranclp_induct) (auto intro: ended_step)

lemma created_present:
  assumes "auth_inv \<sigma>" "live (au_clock \<sigma>) (au_store \<sigma>) (KSession sid) \<noteq> None"
  shows "au_created \<sigma> sid \<noteq> None"
  using auth_invD(1) [OF assms(1), of sid "au_clock \<sigma>"] assms(2) unfolding session_entry_def by auto

text \<open>What the server knows of a family that was created and is still there.\<close>

lemma present_session:
  assumes "auth_inv \<sigma>" "live (au_clock \<sigma>) (au_store \<sigma>) (KSession sid) \<noteq> None"
  obtains ses where "au_created \<sigma> sid = Some ses" "type_ok THash (live (au_clock \<sigma>) (au_store \<sigma>) (KSession sid))"
    "lua_int (hget (live (au_clock \<sigma>) (au_store \<sigma>) (KSession sid)) ''absolute_expires_at'') = Some (unix (AbsoluteExpiresAt ses))"
  using auth_invD(1) [OF assms(1), of sid "au_clock \<sigma>"] assms(2) unfolding session_entry_def by force

text \<open>
  The retry of a recorded request: the answer was kept, the secret it handed out is still the
  current one, and the session has time left on both clocks.
\<close>

definition recorded_retry :: "auth_sys \<Rightarrow> string \<Rightarrow> string \<Rightarrow> refresh_recovery \<Rightarrow> int \<Rightarrow> bool" where
  "recorded_retry \<sigma> sid h recovery now \<longleftrightarrow>
     (let s = live (au_clock \<sigma>) (au_store \<sigma>); kr = s (KRecovery sid h (RequestID recovery))
      in RequestID recovery \<noteq> [] \<and> hget kr ''next_hash'' = current_hash \<sigma> sid \<and> hget kr ''sealed_secret'' \<noteq> None \<and>
         ttl_seconds (au_clock \<sigma>) (s (KSession sid)) > 0 \<and>
         (\<exists>ses. au_created \<sigma> sid = Some ses \<and> unix now < unix (AbsoluteExpiresAt ses)))"

text \<open>The events that end a family, each with the store that it leaves.\<close>

inductive ends_family :: "auth_sys \<Rightarrow> string \<Rightarrow> astore \<Rightarrow> bool" for \<sigma> sid where
  expired: "live (au_clock \<sigma>) (au_store \<sigma>) (KSession sid) = None \<Longrightarrow> ends_family \<sigma> sid (au_store \<sigma>)"
| logged_out: "sid \<noteq> [] \<Longrightarrow> h \<noteq> [] \<Longrightarrow>
    current_hash \<sigma> sid = Some h \<or> live (au_clock \<sigma>) (au_store \<sigma>) (KUsed sid h) \<noteq> None \<Longrightarrow>
    Revoke Healthy sid h (au_clock \<sigma>) (au_store \<sigma>) = (s', r) \<Longrightarrow> ends_family \<sigma> sid s'"
| replayed: "current_hash \<sigma> sid \<noteq> Some h \<Longrightarrow> live (au_clock \<sigma>) (au_store \<sigma>) (KUsed sid h) \<noteq> None \<Longrightarrow>
    \<not> recorded_retry \<sigma> sid h recovery now \<Longrightarrow>
    Rotate Healthy sid h new now idle recovery (au_clock \<sigma>) (au_store \<sigma>) = (s', r) \<Longrightarrow> ends_family \<sigma> sid s'"
| overdue: "current_hash \<sigma> sid = Some h \<Longrightarrow> au_created \<sigma> sid = Some ses \<Longrightarrow> unix (AbsoluteExpiresAt ses) \<le> unix now \<Longrightarrow>
    Rotate Healthy sid h new now idle recovery (au_clock \<sigma>) (au_store \<sigma>) = (s', r) \<Longrightarrow> ends_family \<sigma> sid s'"
| reported: "e = ErrRefreshReused \<or> e = ErrRefreshExpired \<Longrightarrow>
    Rotate f sid h new now idle recovery (au_clock \<sigma>) (au_store \<sigma>) = (s', Inl e) \<Longrightarrow> ends_family \<sigma> sid s'"

lemma rdel_absent: "s (KSession sid) = None \<Longrightarrow> at_key (KSession sid) rdel s = s"
  by (auto simp: at_key_def)

lemma Revoke_ends:
  assumes "Revoke Healthy sid h srv s = (s', r)" "sid \<noteq> []" "h \<noteq> []" "type_ok THash (live srv s (KSession sid))"
    and "hget (live srv s (KSession sid)) ''secret_hash'' = Some h \<or> live srv s (KUsed sid h) \<noteq> None"
  shows "s' = at_key (KSession sid) rdel (live srv s)"
proof (cases "live srv s (KSession sid) = None")
  case True
  with assms(1-3) show ?thesis by (simp add: Revoke_def call_def revoke_script_def Let_def raw_def rdel_absent)
next
  case False
  with assms show ?thesis by (auto simp: Revoke_def call_def revoke_script_def Let_def raw_def)
qed

lemma Rotate_Healthy:
  assumes "Rotate Healthy sid h new now idle recovery srv s = (s', r)"
  shows "s' = fst (rotate_script sid h new (unix now) (durationSecondsCeil idle) (RequestID recovery)
    (SealedSecret recovery) (durationSecondsCeil refreshRecoveryTTL) srv (live srv s))"
  using assms unfolding Rotate_def call_def raw_def by (auto simp: map_prod_def split: prod.splits sum.splits)

lemma parse_rotation_final:
  assumes "parse_rotation request vs = Inl e" "e = ErrRefreshReused \<or> e = ErrRefreshExpired"
  shows "\<exists>rest. vs = VInt (- 2) # rest \<or> vs = VInt (- 3) # rest \<or> (\<exists>v. vs = v # rest \<and> (\<forall>i. v \<noteq> VInt i))"
  using assms by (auto simp: parse_rotation_def split: list.splits option.splits if_splits redis_value.splits elim!: parseRedisInt.elims)

lemma rotate_script_final:
  assumes run: "rotate_script sid h new now idle request sealed n srv s = (s', Inr vs)"
    and e: "parse_rotation request' vs = Inl e" "e = ErrRefreshReused \<or> e = ErrRefreshExpired"
  shows "s' = at_key (KSession sid) rdel s"
proof -
  have no: "vs \<noteq> [VInt (- 1)]" "vs \<noteq> [VInt (- 4)]" "vs \<noteq> VInt 1 # rest" for rest
    using parse_rotation_final [OF e] by auto
  have re: "replay sid h request now srv s \<noteq> Some vs"
    using no by (auto simp: replay_def Let_def split: if_splits option.splits)
  have nw: "renew sid h new now request sealed n remaining ttl srv s \<noteq> (s', Inr vs)" for remaining ttl
    using no(3) by (auto simp: renew_def Let_def split: if_splits)
  show ?thesis
    using run no re nw by (auto simp: rotate_script_def Let_def rdel_absent split: if_splits option.splits)
qed

lemma Rotate_replay_ends:
  assumes "Rotate Healthy sid h new now idle recovery (au_clock \<sigma>) (au_store \<sigma>) = (s', r)" "auth_inv \<sigma>"
    and "current_hash \<sigma> sid \<noteq> Some h" "live (au_clock \<sigma>) (au_store \<sigma>) (KUsed sid h) \<noteq> None" "\<not> recorded_retry \<sigma> sid h recovery now"
  shows "s' = at_key (KSession sid) rdel (live (au_clock \<sigma>) (au_store \<sigma>))"
proof (cases "live (au_clock \<sigma>) (au_store \<sigma>) (KSession sid) = None")
  case True
  with Rotate_absent(1) [OF assms(1)] show ?thesis by (simp add: rdel_absent)
next
  case False
  let ?s = "live (au_clock \<sigma>) (au_store \<sigma>)"
  obtain ses where ses: "au_created \<sigma> sid = Some ses" "type_ok THash (?s (KSession sid))"
    "lua_int (hget (?s (KSession sid)) ''absolute_expires_at'') = Some (unix (AbsoluteExpiresAt ses))"
    by (rule present_session [OF assms(2) False])
  have kr: "type_ok THash (?s (KRecovery sid h (RequestID recovery)))" by (rule auth_invD(3) [OF assms(2)])
  have "replay sid h (RequestID recovery) (unix now) (au_clock \<sigma>) ?s = None"
    using assms(5) ses(1,3) unfolding recorded_retry_def replay_def Let_def current_hash_def
    by (auto split: option.splits)
  with False ses(2) kr assms(3,4) show ?thesis
    unfolding Rotate_Healthy [OF assms(1)] rotate_script_def Let_def by (auto simp: current_hash_def)
qed

lemma Rotate_overdue_ends:
  assumes "Rotate Healthy sid h new now idle recovery (au_clock \<sigma>) (au_store \<sigma>) = (s', r)" "auth_inv \<sigma>"
    and "current_hash \<sigma> sid = Some h" "au_created \<sigma> sid = Some ses" "unix (AbsoluteExpiresAt ses) \<le> unix now"
  shows "s' = at_key (KSession sid) rdel (live (au_clock \<sigma>) (au_store \<sigma>))"
proof -
  let ?s = "live (au_clock \<sigma>) (au_store \<sigma>)"
  have there: "?s (KSession sid) \<noteq> None" using assms(3) by (cases "?s (KSession sid)") (simp_all add: current_hash_def)
  obtain ses' where ses': "au_created \<sigma> sid = Some ses'" "type_ok THash (?s (KSession sid))"
    "lua_int (hget (?s (KSession sid)) ''absolute_expires_at'') = Some (unix (AbsoluteExpiresAt ses'))"
    by (rule present_session [OF assms(2) there])
  show ?thesis
    unfolding Rotate_Healthy [OF assms(1)]
    using rotate_current [of ?s sid, OF there ses'(2) assms(3) [unfolded current_hash_def] ses'(3)] ses'(1) assms(4,5) by simp
qed

lemma ends_family_store:
  assumes "ends_family \<sigma> sid s'" "auth_inv \<sigma>"
  shows "live (au_clock \<sigma>) s' = at_key (KSession sid) rdel (live (au_clock \<sigma>) (au_store \<sigma>))"
proof -
  let ?s = "live (au_clock \<sigma>) (au_store \<sigma>)"
  have idem: "live (au_clock \<sigma>) (at_key (KSession sid) rdel ?s) = at_key (KSession sid) rdel ?s"
  proof
    fix k show "live (au_clock \<sigma>) (at_key (KSession sid) rdel ?s) k = at_key (KSession sid) rdel ?s k"
      by (cases "(au_clock \<sigma>, au_store \<sigma> k)" rule: live_entry.cases) (auto simp: live_def at_key_def rdel_def)
  qed
  have ty: "type_ok THash (?s (KSession sid))"
    using auth_invD(1) [OF assms(2), of sid "au_clock \<sigma>"] unfolding session_entry_def by simp
  from assms(1) show ?thesis
  proof cases
    case expired
    then show ?thesis by (simp add: rdel_absent)
  next
    case (logged_out h r)
    from Revoke_ends [OF logged_out(4,1,2) ty] logged_out(3) idem show ?thesis by (simp add: current_hash_def)
  next
    case (replayed h recovery now new idle r)
    from Rotate_replay_ends [OF replayed(4) assms(2) replayed(1-3)] idem show ?thesis by simp
  next
    case (overdue h ses now new idle recovery r)
    from Rotate_overdue_ends [OF overdue(4) assms(2) overdue(1-3)] idem show ?thesis by simp
  next
    case (reported e f h new now idle recovery)
    let ?op = "rotate_script sid h new (unix now) (durationSecondsCeil idle) (RequestID recovery)
      (SealedSecret recovery) (durationSecondsCeil refreshRecoveryTTL) (au_clock \<sigma>)"
    from reported obtain vs where v: "call f ?op ?s = (s', Inr vs)" "parse_rotation (RequestID recovery) vs = Inl e"
      unfolding Rotate_def by (auto split: prod.splits sum.splits)
    from rotate_script_final [OF call_Inr [OF v(1)] v(2) reported(1)] idem show ?thesis by simp
  qed
qed

text \<open>
  C23. The end of a login family is final. A family ends when its session expires on the server,
  when a logout with any secret it ever used arrives, when a used secret is presented that is
  not the retry of a recorded request, whatever request it names, when its current secret is
  presented after the absolute expiry, and whenever a rotation reports a replay or an expiry.
  Each of these leaves the server without the session, with everything else as it was; from then
  on, whatever logins, rotations and logouts follow and however they fail, no secret of the
  family is accepted.
\<close>

theorem ended_family_stays_ended:
  assumes reach: "auth_reach \<sigma>" and created: "au_created \<sigma> sid = Some ses"
    and ends: "ends_family \<sigma> sid s'"
    and later: "auth_step\<^sup>*\<^sup>* (\<sigma>\<lparr>au_store := s', au_issued := issued, au_retired := retired\<rparr>) \<sigma>'"
    and again: "Rotate f sid h new now idle recovery (au_clock \<sigma>') (au_store \<sigma>') = (s'', r)"
  shows "live (au_clock \<sigma>) s' = at_key (KSession sid) rdel (live (au_clock \<sigma>) (au_store \<sigma>)) \<and>
    (\<exists>e. r = Inl e) \<and> s'' (KSession sid) = None"
proof -
  note s' = ends_family_store [OF ends auth_reach_inv [OF reach]]
  have "ended (\<sigma>\<lparr>au_store := s', au_issued := issued, au_retired := retired\<rparr>) sid"
    using created by (simp add: ended_def s' rdel_def)
  from ended_steps [OF later this] have gone: "live (au_clock \<sigma>') (au_store \<sigma>') (KSession sid) = None"
    by (simp add: ended_def)
  from Rotate_absent [OF again gone] gone s' show ?thesis by simp
qed

section \<open>What an accepted rotation returns\<close>

lemma parse_int64_show_nat: "parse_int64 (show_nat n) = Some i \<Longrightarrow> i = int n"
  by (auto simp: parse_int64_digits split: if_splits)

lemma renewed_expiry:
  assumes "0 < ttl" "e \<noteq> None"
  shows "rexpiry (renewed_session new now ttl srv e) = Some (srv + ttl * 1000)"
  unfolding renewed_session_def by (rule expire_reads(4) [OF assms(1)]) simp

text \<open>
  C24. A rotation that is accepted answers with the user and the authentication version of the
  login that created the family, and only before the family's absolute expiry. If the secret
  was the current one, the new one takes its place, the old one is marked as used for at least
  as long as the session can live, and the session cannot outlive its absolute expiry.
\<close>

theorem accepted_rotation_sound:
  fixes \<sigma> :: auth_sys
  defines "s \<equiv> live (au_clock \<sigma>) (au_store \<sigma>)"
  assumes reach: "auth_reach \<sigma>"
    and run: "Rotate f sid h new now idle recovery (au_clock \<sigma>) (au_store \<sigma>) = (s', Inr (u, v, t, x))"
  shows "\<exists>ses. au_created \<sigma> sid = Some ses \<and> u = UserID ses \<and> v = AuthVersion ses \<and> unix now < unix (AbsoluteExpiresAt ses) \<and>
    (current_hash \<sigma> sid = Some h \<longrightarrow> hget (s' (KSession sid)) ''secret_hash'' = Some new \<and> x = SealedSecret recovery \<and>
       (\<exists>session marker. rexpiry (s' (KSession sid)) = Some session \<and> rexpiry (s' (KUsed sid h)) = Some marker \<and>
          session \<le> marker \<and> marker = au_clock \<sigma> + (unix (AbsoluteExpiresAt ses) - unix now) * 1000))"
proof -
  have inv: "auth_inv \<sigma>" by (rule auth_reach_inv [OF reach])
  from Rotate_Inr [OF run] obtain vs where
    vs: "rotate_script sid h new (unix now) (durationSecondsCeil idle) (RequestID recovery)
      (SealedSecret recovery) (durationSecondsCeil refreshRecoveryTTL) (au_clock \<sigma>) s = (s', Inr vs)"
    "parse_rotation (RequestID recovery) vs = Inr (u, v, t, x)" unfolding s_def .
  have ok: "\<forall>i < 0. vs \<noteq> [VInt i]" using vs(2) parse_rotation_refused by blast
  have entry: "session_entry \<sigma> sid (s (KSession sid))" unfolding s_def by (rule auth_invD(1) [OF inv])
  have reply: ?thesis
    if e: "s (KSession sid) \<noteq> None" and reply: "vs = [VInt 1, reply_field (hget (s (KSession sid)) ''user_id''),
        reply_field (hget (s (KSession sid)) ''auth_version''), VInt secs, VString sealed]"
      and alive: "\<exists>absolute. lua_int (hget (s (KSession sid)) ''absolute_expires_at'') = Some absolute \<and> unix now < absolute"
      and fresh: "\<And>absolute. lua_int (hget (s (KSession sid)) ''absolute_expires_at'') = Some absolute \<Longrightarrow>
        current_hash \<sigma> sid = Some h \<Longrightarrow> hget (s' (KSession sid)) ''secret_hash'' = Some new \<and> sealed = SealedSecret recovery \<and>
        (\<exists>session. rexpiry (s' (KSession sid)) = Some session \<and> session \<le> au_clock \<sigma> + (absolute - unix now) * 1000 \<and>
          rexpiry (s' (KUsed sid h)) = Some (au_clock \<sigma> + (absolute - unix now) * 1000))" for secs sealed
  proof -
    from entry e obtain ses where ses: "au_created \<sigma> sid = Some ses" "session_valid ses"
      "hget (s (KSession sid)) ''user_id'' = Some (show_nat (UserID ses))"
      "hget (s (KSession sid)) ''auth_version'' = Some (show_int (AuthVersion ses))"
      "hget (s (KSession sid)) ''absolute_expires_at'' = Some (show_int (unix (AbsoluteExpiresAt ses)))"
      unfolding session_entry_def by auto
    note p = parse_rotation_Inr [OF vs(2) [unfolded reply]]
    have "u = UserID ses" using p(1) parse_int64_show_nat unfolding ses(3) reply_field_def by fastforce
    moreover have "0 < AuthVersion ses" using ses(2) by (simp add: session_valid_def)
    then have "v = AuthVersion ses"
      using p(3) parse_int64_show_nat [of "nat (AuthVersion ses)"] unfolding ses(4) reply_field_def by simp
    moreover have "unix now < unix (AbsoluteExpiresAt ses)" using alive unfolding ses(5) by simp
    ultimately show ?thesis using ses(1) fresh unfolding ses(5) p(6) by auto
  qed
  show ?thesis
  proof (cases "hget (s (KSession sid)) ''secret_hash'' = Some h")
    case False
    with rotate_script_other [OF vs(1)] ok have "replay sid h (RequestID recovery) (unix now) (au_clock \<sigma>) s = Some vs" by blast
    from replay_Some [OF this ok] obtain sealed where sealed:
      "version_ok (hget (s (KSession sid)) ''auth_version'')"
      "\<exists>absolute. lua_int (hget (s (KSession sid)) ''absolute_expires_at'') = Some absolute \<and> unix now < absolute"
      "vs = [VInt 1, reply_field (hget (s (KSession sid)) ''user_id''), reply_field (hget (s (KSession sid)) ''auth_version''),
         VInt (ttl_seconds (au_clock \<sigma>) (s (KSession sid))), VString sealed]" by metis
    have "s (KSession sid) \<noteq> None" using sealed(1) by (cases "s (KSession sid)") (simp_all add: version_ok_def)
    then show ?thesis by (rule reply [OF _ sealed(3,2)]) (use False in \<open>simp_all add: current_hash_def s_def\<close>)
  next
    case True
    show ?thesis
    proof (cases rule: rotate_script_cases [OF vs(1)])
      case (3 absolute ttl)
      have t: "0 < ttl" using 3(7) by simp
      note st = renew_store [OF 3(8)]
      have "Inr vs = snd (s', Inr vs :: redis_value list res)" by simp
      then have "vs = [VInt 1, reply_field (hget (s (KSession sid)) ''user_id''), reply_field (hget (s (KSession sid)) ''auth_version''),
         VInt ttl, VString (SealedSecret recovery)]"
        unfolding 3(8) by (auto simp: renew_def Let_def split: if_splits)
      then show ?thesis
      proof (rule reply [OF 3(1)])
        show "\<exists>absolute. lua_int (hget (s (KSession sid)) ''absolute_expires_at'') = Some absolute \<and> unix now < absolute"
          using 3(4,5) by blast
        have within: "ttl * 1000 \<le> (absolute - unix now) * 1000" using 3(6) by (intro mult_right_mono) simp_all
        fix a assume "lua_int (hget (s (KSession sid)) ''absolute_expires_at'') = Some a"
        then have a: "a = absolute" using 3(4) by simp
        have "rexpiry (s' (KUsed sid h)) = Some (au_clock \<sigma> + (absolute - unix now) * 1000)"
          unfolding st(2) by (simp add: set_ex_def)
        then show "hget (s' (KSession sid)) ''secret_hash'' = Some new \<and> SealedSecret recovery = SealedSecret recovery \<and>
          (\<exists>session. rexpiry (s' (KSession sid)) = Some session \<and> session \<le> au_clock \<sigma> + (a - unix now) * 1000 \<and>
            rexpiry (s' (KUsed sid h)) = Some (au_clock \<sigma> + (a - unix now) * 1000))"
          unfolding st(1) a using renewed_entry(2) [OF 3(7,2)] renewed_expiry [OF t 3(1)] within by auto
      qed
    qed (use True ok in auto)
  qed
qed

section \<open>A login and a rotation\<close>

definition sample_session :: refresh_session where
  "sample_session = \<lparr>SessionID = ''s'', UserID = 7, AuthVersion = 1, SecretHash = ''h1'', SessionCreatedAt = 0,
     LastRotatedAt = 0, AbsoluteExpiresAt = 1000 * go_second, TTL = 100 * go_second\<rparr>"

definition no_recovery :: refresh_recovery where
  "no_recovery = \<lparr>RequestID = [], SealedSecret = []\<rparr>"

lemma sample_seconds [simp]: "durationSecondsCeil (100 * go_second) = 100" "unix (1000 * go_second) = 1000" "unix 0 = 0"
  by (simp_all add: durationSecondsCeil_def quot_def go_second_def unix_def)

lemma sample_login:
  obtains s m where "Create Healthy sample_session 0 (\<lambda>_. None) = (s, Inr ())"
    "s = (\<lambda>k. if k = KSession ''s'' then Some (RHash m, Some 100000) else None)"
    "fmlookup m ''secret_hash'' = Some ''h1''" "fmlookup m ''user_id'' = Some (show_nat 7)"
    "fmlookup m ''auth_version'' = Some (show_int 1)" "fmlookup m ''absolute_expires_at'' = Some (show_int 1000)"
proof -
  obtain s r where run: "Create Healthy sample_session 0 (\<lambda>_. None) = (s, r)" by fastforce
  have none: "live 0 (\<lambda>_. None) = (\<lambda>_. None :: rentry)" by (simp add: live_def)
  have valid: "session_valid sample_session" by (simp add: session_valid_def sample_session_def go_second_def)
  have "create_script ''s'' 7 1 ''h1'' 0 0 1000 100 0 (\<lambda>_. None) = (s, Inr 1) \<and> r = Inr ()"
    using run valid by (simp add: Create_def call_def none sample_session_def create_script_def Let_def raw_def)
  then show thesis
    using that run by (fastforce simp: create_script_def Let_def at_key_def expire_def pexpire_def)
qed

definition sample_state :: "astore \<Rightarrow> auth_sys" where
  "sample_state s = (auth_init 0)\<lparr>au_store := s, au_created := [''s'' \<mapsto> sample_session], au_issued := {''h1''}\<rparr>"

lemma sample_start:
  obtains s where "auth_reach (sample_state s)" "Create Healthy sample_session 0 (\<lambda>_. None) = (s, Inr ())" "live 0 s = s"
    "s (KSession ''s'') \<noteq> None" "type_ok THash (s (KSession ''s''))" "hget (s (KSession ''s'')) ''secret_hash'' = Some ''h1''"
    "lua_int (hget (s (KSession ''s'')) ''absolute_expires_at'') = Some 1000"
    "hget (s (KSession ''s'')) ''user_id'' = Some (show_nat 7)" "hget (s (KSession ''s'')) ''auth_version'' = Some (show_nat 1)"
proof -
  obtain s m where login: "Create Healthy sample_session 0 (\<lambda>_. None) = (s, Inr ())"
    and s: "s = (\<lambda>k. if k = KSession ''s'' then Some (RHash m, Some 100000) else None)"
    and m: "fmlookup m ''secret_hash'' = Some ''h1''" "fmlookup m ''user_id'' = Some (show_nat 7)"
    "fmlookup m ''auth_version'' = Some (show_int 1)" "fmlookup m ''absolute_expires_at'' = Some (show_int 1000)"
    by (rule sample_login)
  have "auth_step (auth_init 0) (sample_state s)"
    using au_create [of "auth_init 0" sample_session Healthy s "Inr ()"] login
    by (simp add: auth_init_def sample_state_def sample_session_def)
  then have reach: "auth_reach (sample_state s)" unfolding auth_reach_def by blast
  show thesis
    by (rule that [OF reach login]) (auto simp: s m live_def type_ok_def)
qed

text \<open>The script's run on the sample.\<close>

lemma sample_script:
  assumes "s (KSession ''s'') \<noteq> None" "type_ok THash (s (KSession ''s''))" "hget (s (KSession ''s'')) ''secret_hash'' = Some ''h1''"
    "lua_int (hget (s (KSession ''s'')) ''absolute_expires_at'') = Some 1000" "hget (s (KSession ''s'')) ''auth_version'' = Some (show_nat 1)"
  shows "rotate_script ''s'' ''h1'' ''h2'' 0 100 request sealed n 0 s = renew ''s'' ''h1'' ''h2'' 0 request sealed n 1000 100 0 s"
  unfolding rotate_current [of s "''s''", OF assms(1-4)] using assms(5) by (simp add: version_ok_def)

lemma sample_renewal:
  obtains s s2 where "auth_reach (sample_state s)" "Create Healthy sample_session 0 (\<lambda>_. None) = (s, Inr ())"
    "Rotate Healthy ''s'' ''h1'' ''h2'' 0 (100 * go_second) no_recovery 0 s = (s2, Inr (7, 1, 100 * go_second, []))"
    "live 0 s2 (KSession ''s'') \<noteq> None" "hget (live 0 s2 (KSession ''s'')) ''secret_hash'' = Some ''h2''"
    "hget (s2 (KSession ''s'')) ''secret_hash'' = Some ''h2''" "live 0 s2 (KUsed ''s'' ''h1'') \<noteq> None"
    "hget (live 0 s (KSession ''s'')) ''secret_hash'' = Some ''h1''"
proof -
  obtain s where reach: "auth_reach (sample_state s)" and login: "Create Healthy sample_session 0 (\<lambda>_. None) = (s, Inr ())"
    and live: "live 0 s = s" and entry: "s (KSession ''s'') \<noteq> None" "type_ok THash (s (KSession ''s''))"
      "hget (s (KSession ''s'')) ''secret_hash'' = Some ''h1''" "lua_int (hget (s (KSession ''s'')) ''absolute_expires_at'') = Some 1000"
    and rest: "hget (s (KSession ''s'')) ''user_id'' = Some (show_nat 7)" "hget (s (KSession ''s'')) ''auth_version'' = Some (show_nat 1)"
    by (rule sample_start)
  note script = sample_script [of s, OF entry rest(2)]
  obtain s2 r2 where run: "Rotate Healthy ''s'' ''h1'' ''h2'' 0 (100 * go_second) no_recovery 0 s = (s2, r2)" by fastforce
  have wrap: "wrap64 (100 * go_second) = 100 * go_second" by (rule wrap64_id) (simp add: in_int64_def go_second_def)
  let ?n = "durationSecondsCeil refreshRecoveryTTL"
  obtain s3 where renew: "(s3, Inr [VInt 1, VString (show_nat 7), VString (show_nat 1), VInt 100, VString []]) =
      renew ''s'' ''h1'' ''h2'' 0 [] [] ?n 1000 100 0 s"
    by (simp add: renew_def Let_def rest reply_field_def)
  have r2: "s3 = s2" "r2 = Inr (7, 1, 100 * go_second, [])"
    using run renew [symmetric] by (simp_all add: Rotate_def call_def live no_recovery_def script raw_def parse_rotation_def wrap)
  note st = renew_store [OF renew [unfolded r2(1)]]
  have h2: "hget (s2 (KSession ''s'')) ''secret_hash'' = Some ''h2''" "s2 (KSession ''s'') \<noteq> None"
    "rexpiry (s2 (KSession ''s'')) = Some 100000"
    unfolding st(1) using renewed_entry [OF _ entry(2), of 100] renewed_expiry [OF _ entry(1), of 100] by simp_all
  have "live 0 s2 (KSession ''s'') = s2 (KSession ''s'')"
    using h2(2,3) by (cases "(0 :: int, s2 (KSession ''s''))" rule: live_entry.cases) (auto simp: live_def)
  moreover have "live 0 s2 (KUsed ''s'' ''h1'') \<noteq> None" unfolding live_def st(2) by (simp add: set_ex_def)
  ultimately show thesis
    using h2 entry(3) by (intro that [OF reach login run [unfolded r2(2)]]) (simp_all add: live del: not_None_eq)
qed

lemma sample_rotation:
  obtains \<sigma> where "auth_reach \<sigma>" "au_clock \<sigma> = 0" "(''s'', ''h1'') \<in> au_retired \<sigma>" "live 0 (au_store \<sigma>) (KSession ''s'') \<noteq> None"
    "live 0 (au_store \<sigma>) (KUsed ''s'' ''h1'') \<noteq> None" "current_hash \<sigma> ''s'' = Some ''h2''"
proof -
  obtain s s2 where reach: "auth_reach (sample_state s)"
    and run: "Rotate Healthy ''s'' ''h1'' ''h2'' 0 (100 * go_second) no_recovery 0 s = (s2, Inr (7, 1, 100 * go_second, []))"
    and s2: "live 0 s2 (KSession ''s'') \<noteq> None" "hget (live 0 s2 (KSession ''s'')) ''secret_hash'' = Some ''h2''"
      "hget (s2 (KSession ''s'')) ''secret_hash'' = Some ''h2''" "live 0 s2 (KUsed ''s'' ''h1'') \<noteq> None"
    by (rule sample_renewal)
  define \<sigma> where "\<sigma> = (sample_state s)\<lparr>au_store := s2, au_issued := {''h2'', ''h1''}, au_retired := {(''s'', ''h1'')}\<rparr>"
  have "auth_step (sample_state s) \<sigma>"
    using au_rotate [of "''h2''" "sample_state s" Healthy "''s''" "''h1''" 0 "100 * go_second" no_recovery] run s2(3)
    by (simp add: \<sigma>_def sample_state_def auth_init_def)
  with reach have "auth_reach \<sigma>"
    unfolding auth_reach_def using rtranclp.rtrancl_into_rtrancl [of auth_step] by metis
  then show thesis
    using s2 by (intro that [of \<sigma>]) (simp_all add: \<sigma>_def sample_state_def auth_init_def current_hash_def del: not_None_eq)
qed

theorem rotated_secret_is_spent_witness:
  "\<exists>\<sigma> e. auth_reach \<sigma> \<and> current_hash \<sigma> ''s'' = Some ''h2'' \<and>
     snd (Rotate Healthy ''s'' ''h1'' ''h3'' 0 (100 * go_second) no_recovery (au_clock \<sigma>) (au_store \<sigma>)) = Inl e"
proof -
  obtain \<sigma> where \<sigma>: "auth_reach \<sigma>" "(''s'', ''h1'') \<in> au_retired \<sigma>" "current_hash \<sigma> ''s'' = Some ''h2''"
    using sample_rotation by metis
  obtain s' r where run: "Rotate Healthy ''s'' ''h1'' ''h3'' 0 (100 * go_second) no_recovery (au_clock \<sigma>) (au_store \<sigma>) = (s', r)"
    by fastforce
  from rotated_secret_is_spent [OF \<sigma>(1,2) run] have "\<exists>e. r = Inl e" by (cases r) (auto simp: no_recovery_def)
  with \<sigma> run show ?thesis by (metis snd_conv)
qed

theorem ended_family_stays_ended_witness:
  "\<exists>\<sigma> s'. auth_reach \<sigma> \<and> current_hash \<sigma> ''s'' = Some ''h2'' \<and>
     fst (Revoke Healthy ''s'' ''h1'' (au_clock \<sigma>) (au_store \<sigma>)) = s' \<and>
     (\<exists>e. snd (Rotate Healthy ''s'' ''h2'' ''h3'' 0 (100 * go_second) no_recovery (au_clock \<sigma>) s') = Inl e)"
proof -
  obtain \<sigma> where \<sigma>: "auth_reach \<sigma>" "live (au_clock \<sigma>) (au_store \<sigma>) (KSession ''s'') \<noteq> None"
    "live (au_clock \<sigma>) (au_store \<sigma>) (KUsed ''s'' ''h1'') \<noteq> None" "current_hash \<sigma> ''s'' = Some ''h2''"
    using sample_rotation by metis
  obtain s' r where run: "Revoke Healthy ''s'' ''h1'' (au_clock \<sigma>) (au_store \<sigma>) = (s', r)" by fastforce
  let ?\<sigma> = "\<sigma>\<lparr>au_store := s', au_issued := {}, au_retired := {}\<rparr>"
  obtain s'' r'' where again: "Rotate Healthy ''s'' ''h2'' ''h3'' 0 (100 * go_second) no_recovery (au_clock ?\<sigma>) (au_store ?\<sigma>) = (s'', r'')"
    by fastforce
  have ends: "ends_family \<sigma> ''s'' s'" by (rule logged_out [OF _ _ disjI2 [OF \<sigma>(3)] run]) simp_all
  obtain ses where "au_created \<sigma> ''s'' = Some ses" using created_present [OF auth_reach_inv [OF \<sigma>(1)] \<sigma>(2)] by blast
  then have "\<exists>e. r'' = Inl e"
    using ended_family_stays_ended [OF \<sigma>(1) _ ends rtranclp.rtrancl_refl again] by blast
  with \<sigma> run again show ?thesis by (intro exI [of _ \<sigma>] exI [of _ s']) auto
qed

theorem accepted_rotation_sound_witness:
  "\<exists>s s' session marker. Create Healthy sample_session 0 (\<lambda>_. None) = (s, Inr ()) \<and>
    Rotate Healthy ''s'' ''h1'' ''h2'' 0 (100 * go_second) no_recovery 0 s = (s', Inr (7, 1, 100 * go_second, [])) \<and>
    rexpiry (s' (KSession ''s'')) = Some session \<and> rexpiry (s' (KUsed ''s'' ''h1'')) = Some marker \<and> session \<le> marker"
proof -
  obtain s s2 where reach: "auth_reach (sample_state s)" and login: "Create Healthy sample_session 0 (\<lambda>_. None) = (s, Inr ())"
    and run: "Rotate Healthy ''s'' ''h1'' ''h2'' 0 (100 * go_second) no_recovery 0 s = (s2, Inr (7, 1, 100 * go_second, []))"
    and cur: "hget (live 0 s (KSession ''s'')) ''secret_hash'' = Some ''h1''"
    by (rule sample_renewal)
  have "au_clock (sample_state s) = 0" "au_store (sample_state s) = s" "current_hash (sample_state s) ''s'' = Some ''h1''"
    using cur by (simp_all add: sample_state_def auth_init_def current_hash_def)
  with accepted_rotation_sound [OF reach, of Healthy "''s''" "''h1''" "''h2''" 0 "100 * go_second" no_recovery s2] run login
  show ?thesis by auto
qed

section \<open>The types of the keys\<close>

text \<open>
  C25. Every interleaving of logins, rotations and logouts keeps the Redis type of every key: a
  session and a recovery record are hashes and a used marker is a string, so that no command of
  the three scripts ever meets a key of the wrong type. A session that is there carries the
  user, the authentication version and the absolute expiry it was created with, and a secret
  hash that was drawn and not rotated away.
\<close>

theorem auth_keys_typed:
  assumes "auth_reach \<sigma>"
  shows "type_ok THash (au_store \<sigma> (KSession sid)) \<and> type_ok TString (au_store \<sigma> (KUsed sid h)) \<and>
    type_ok THash (au_store \<sigma> (KRecovery sid h request)) \<and>
    (au_store \<sigma> (KSession sid) = None \<or> (\<exists>ses h'. au_created \<sigma> sid = Some ses \<and> session_valid ses \<and>
       hget (au_store \<sigma> (KSession sid)) ''user_id'' = Some (show_nat (UserID ses)) \<and>
       hget (au_store \<sigma> (KSession sid)) ''auth_version'' = Some (show_int (AuthVersion ses)) \<and>
       hget (au_store \<sigma> (KSession sid)) ''absolute_expires_at'' = Some (show_int (unix (AbsoluteExpiresAt ses))) \<and>
       hget (au_store \<sigma> (KSession sid)) ''secret_hash'' = Some h' \<and> h' \<in> au_issued \<sigma> \<and> (sid, h') \<notin> au_retired \<sigma>))"
proof -
  have inv: "session_entry \<sigma> sid (au_store \<sigma> (KSession sid))" "type_ok TString (au_store \<sigma> (KUsed sid h))"
    "type_ok THash (au_store \<sigma> (KRecovery sid h request))"
    using auth_reach_inv [OF assms] unfolding auth_inv_def by blast+
  from inv(1) show ?thesis
    unfolding session_entry_def using inv(2,3) by blast
qed

theorem auth_keys_typed_witness:
  "\<exists>\<sigma> ses. auth_reach \<sigma> \<and> au_store \<sigma> (KSession ''s'') \<noteq> None \<and> au_created \<sigma> ''s'' = Some ses \<and>
     type_ok TString (au_store \<sigma> (KUsed ''s'' ''h1'')) \<and> hget (au_store \<sigma> (KSession ''s'')) ''user_id'' = Some (show_nat (UserID ses))"
proof -
  obtain \<sigma> where \<sigma>: "auth_reach \<sigma>" "live (au_clock \<sigma>) (au_store \<sigma>) (KSession ''s'') \<noteq> None"
    using sample_rotation by metis
  have present: "au_store \<sigma> (KSession ''s'') \<noteq> None"
  proof
    assume "au_store \<sigma> (KSession ''s'') = None"
    then have "live (au_clock \<sigma>) (au_store \<sigma>) (KSession ''s'') = None" by (simp add: live_def)
    with \<sigma>(2) show False by (rule notE)
  qed
  note typed = auth_keys_typed [OF \<sigma>(1), of "''s''" "''h1''" "[]"]
  from typed have used: "type_ok TString (au_store \<sigma> (KUsed ''s'' ''h1''))" by (elim conjE)
  from typed present obtain ses where "au_created \<sigma> ''s'' = Some ses"
    "hget (au_store \<sigma> (KSession ''s'')) ''user_id'' = Some (show_nat (UserID ses))" by (elim conjE disjE exE) (erule notE, assumption)
  with \<sigma>(1) present used show ?thesis by (intro exI conjI)
qed

end
