(* ===== verification/AuthService.thy ===== *)
theory AuthService
  imports AuthStore "HOL-Library.Word"
begin

text \<open>
  Refresh tokens and the token service (\<open>auth/refresh_token.go\<close>, \<open>auth/refresh_recovery.go\<close>,
  \<open>auth/service.go\<close>) and the check of access tokens against the account's version
  (\<open>auth/access_token.go\<close>). Bytes are words of eight bits, \<open>base64.RawURLEncoding\<close> is modelled;
  SHA-256, HMAC, AES-GCM, the parser of UUIDs and the signature of access tokens are parameters,
  and so is what the random generator draws.
\<close>

section \<open>Base64\<close>

type_synonym byte = "8 word"

definition base64_alphabet :: string where
  "base64_alphabet = ''ABCDEFGHIJKLMNOPQRSTUVWXYZabcdefghijklmnopqrstuvwxyz0123456789-_''"

definition base64_char :: "nat \<Rightarrow> char" where
  "base64_char i = base64_alphabet ! i"

definition base64_value :: "char \<Rightarrow> nat option" where
  "base64_value c =
     (let i = length (takeWhile (\<lambda>x. x \<noteq> c) base64_alphabet) in if i < 64 then Some i else None)"

fun sextets :: "byte list \<Rightarrow> nat list" where
  "sextets [] = []"
| "sextets [a] = [unat a div 4, unat a mod 4 * 16]"
| "sextets [a, b] = [unat a div 4, unat a mod 4 * 16 + unat b div 16, unat b mod 16 * 4]"
| "sextets (a # b # c # rest) =
     [unat a div 4, unat a mod 4 * 16 + unat b div 16, unat b mod 16 * 4 + unat c div 64, unat c mod 64] @ sextets rest"

definition base64_encode :: "byte list \<Rightarrow> string" where
  "base64_encode bytes = map base64_char (sextets bytes)"

text \<open>The bits left over at the end are ignored; one character left over is an error.\<close>

fun octets :: "nat list \<Rightarrow> byte list option" where
  "octets [] = Some []"
| "octets [w] = None"
| "octets [w, x] = Some [of_nat (w * 4 + x div 16)]"
| "octets [w, x, y] = Some [of_nat (w * 4 + x div 16), of_nat (x mod 16 * 16 + y div 4)]"
| "octets (w # x # y # z # rest) =
     map_option (\<lambda>bytes. [of_nat (w * 4 + x div 16), of_nat (x mod 16 * 16 + y div 4), of_nat (y mod 4 * 64 + z)] @ bytes)
       (octets rest)"

text \<open>The decoder skips line ends.\<close>

definition base64_decode :: "string \<Rightarrow> byte list option" where
  "base64_decode s =
     (let codes = map base64_value (filter (\<lambda>c. c \<noteq> CHR 0x0A \<and> c \<noteq> CHR 0x0D) s)
      in if None \<in> set codes then None else octets (map the codes))"

section \<open>Tokens\<close>

definition refreshTokenPrefix :: string where "refreshTokenPrefix = ''rt1''"

definition formatRefreshToken :: "string \<Rightarrow> byte list \<Rightarrow> string" where
  "formatRefreshToken sid secret = refreshTokenPrefix @ ''.'' @ sid @ ''.'' @ base64_encode secret"

definition parseRefreshToken :: "(string \<Rightarrow> bool) \<Rightarrow> string \<Rightarrow> auth_error + string \<times> byte list" where
  "parseRefreshToken uuid_ok token =
     (case split_on (CHR ''.'') token of
        [p, sid, encoded] \<Rightarrow>
          (if p \<noteq> refreshTokenPrefix then Inl ErrRefreshInvalid
           else if \<not> uuid_ok sid then Inl ErrRefreshInvalid
           else (case base64_decode encoded of
                   None \<Rightarrow> Inl ErrRefreshInvalid
                 | Some secret \<Rightarrow> if length secret \<noteq> 32 then Inl ErrRefreshInvalid else Inr (sid, secret)))
      | _ \<Rightarrow> Inl ErrRefreshInvalid)"

lemma base64_value_char: "i < 64 \<Longrightarrow> base64_value (base64_char i) = Some i"
proof -
  have "list_all (\<lambda>i. base64_value (base64_char i) = Some i) [0..<64]" by code_simp
  then show "i < 64 \<Longrightarrow> base64_value (base64_char i) = Some i" by (simp add: list_all_iff)
qed

lemma base64_char_plain: "i < 64 \<Longrightarrow> base64_char i \<notin> {CHR 0x0A, CHR 0x0D, CHR ''.''}"
proof -
  have "list_all (\<lambda>i. base64_char i \<noteq> CHR 0x0A \<and> base64_char i \<noteq> CHR 0x0D \<and> base64_char i \<noteq> CHR ''.'') [0..<64]" by code_simp
  then show "i < 64 \<Longrightarrow> base64_char i \<notin> {CHR 0x0A, CHR 0x0D, CHR ''.''}" by (simp add: list_all_iff)
qed

lemma unat_byte: "unat (a :: byte) < 256"
  using unsigned_less [of a] by simp

lemma sextet_bounds:
  fixes a b c :: nat
  assumes "a < 256" "b < 256" "c < 256"
  shows "a div 4 < 64" "a mod 4 * 16 + b div 16 < 64" "b mod 16 * 4 + c div 64 < 64" "a mod 4 * 16 < 64" "b mod 16 * 4 < 64"
proof -
  have d: "a div 4 < 64" "b div 16 < 16" "c div 64 < 4" using assms by (simp_all add: less_mult_imp_div_less)
  have m: "a mod 4 < 4" "b mod 16 < 16" by simp_all
  show "a div 4 < 64" "a mod 4 * 16 + b div 16 < 64" "b mod 16 * 4 + c div 64 < 64" "a mod 4 * 16 < 64" "b mod 16 * 4 < 64"
    using d m by linarith+
qed

lemma octet_join:
  fixes a b c :: nat
  assumes "a < 256" "b < 256" "c < 256"
  shows "a div 4 * 4 + (a mod 4 * 16 + b div 16) div 16 = a" "a div 4 * 4 + a mod 4 * 16 div 16 = a"
    "(a mod 4 * 16 + b div 16) mod 16 * 16 + (b mod 16 * 4 + c div 64) div 4 = b"
    "(a mod 4 * 16 + b div 16) mod 16 * 16 + b mod 16 * 4 div 4 = b"
    "(b mod 16 * 4 + c div 64) mod 4 * 64 + c mod 64 = c"
proof -
  have d: "b div 16 < 16" "c div 64 < 4" using assms by (simp_all add: less_mult_imp_div_less)
  have "(a mod 4 * 16 + b div 16) div 16 = a mod 4" "(a mod 4 * 16 + b div 16) mod 16 = b div 16"
    "(b mod 16 * 4 + c div 64) div 4 = b mod 16" "(b mod 16 * 4 + c div 64) mod 4 = c div 64"
    "a mod 4 * 16 div 16 = a mod 4" "b mod 16 * 4 div 4 = b mod 16"
    using d by (simp_all only: div_mult_self3 mod_mult_self3 mod_less div_less nonzero_mult_div_cancel_right)
  then show "a div 4 * 4 + (a mod 4 * 16 + b div 16) div 16 = a" "a div 4 * 4 + a mod 4 * 16 div 16 = a"
    "(a mod 4 * 16 + b div 16) mod 16 * 16 + (b mod 16 * 4 + c div 64) div 4 = b"
    "(a mod 4 * 16 + b div 16) mod 16 * 16 + b mod 16 * 4 div 4 = b"
    "(b mod 16 * 4 + c div 64) mod 4 * 64 + c mod 64 = c"
    by (simp_all only: div_mult_mod_eq)
qed

lemma sextets_small: "list_all (\<lambda>i. i < 64) (sextets bytes)"
proof (induction bytes rule: sextets.induct)
  case (2 a)
  then show ?case using sextet_bounds [OF unat_byte [of a] unat_byte [of a] unat_byte [of a]] by simp
next
  case (3 a b)
  then show ?case using sextet_bounds [OF unat_byte [of a] unat_byte [of b] unat_byte [of b]] by simp
next
  case (4 a b c rest)
  then show ?case using sextet_bounds [OF unat_byte [of a] unat_byte [of b] unat_byte [of c]] by simp
qed simp

lemma octets_sextets: "octets (sextets bytes) = Some bytes"
proof (induction bytes rule: sextets.induct)
  case (2 a)
  have z: "0 < (256 :: nat)" by simp
  show ?case unfolding sextets.simps octets.simps octet_join(2) [OF unat_byte [of a] z z] by simp
next
  case (3 a b)
  have z: "0 < (256 :: nat)" by simp
  show ?case
    unfolding sextets.simps octets.simps octet_join(1,4) [OF unat_byte [of a] unat_byte [of b] z] by simp
next
  case (4 a b c rest)
  show ?case
    unfolding sextets.simps append.simps octets.simps 4 octet_join(1,3,5) [OF unat_byte [of a] unat_byte [of b] unat_byte [of c]] by simp
qed simp

lemma base64_roundtrip: "base64_decode (base64_encode bytes) = Some bytes"
proof -
  have "map base64_value (filter (\<lambda>c. c \<noteq> CHR 0x0A \<and> c \<noteq> CHR 0x0D) (map base64_char xs)) = map Some xs"
    if "list_all (\<lambda>i. i < 64) xs" for xs
    using that base64_char_plain by (induction xs) (auto simp: base64_value_char)
  from this [OF sextets_small] show ?thesis
    by (auto simp: base64_decode_def base64_encode_def Let_def octets_sextets comp_def)
qed

lemma base64_no_dot: "CHR ''.'' \<notin> set (base64_encode bytes)"
proof
  assume "CHR ''.'' \<in> set (base64_encode bytes)"
  then obtain i where "CHR ''.'' = base64_char i" "i \<in> set (sextets bytes)" by (auto simp: base64_encode_def)
  moreover from this have "i < 64" using sextets_small [of bytes] by (simp add: list_all_iff)
  ultimately show False using base64_char_plain [of i] by simp
qed

lemma split_token:
  "CHR ''.'' \<notin> set sid \<Longrightarrow>
   split_on (CHR ''.'') (formatRefreshToken sid secret) = [refreshTokenPrefix, sid, base64_encode secret]"
  using base64_no_dot split_on_append [of "CHR ''.''"] split_on_no_sep [of "CHR ''.''"]
  unfolding formatRefreshToken_def by (simp add: refreshTokenPrefix_def)

text \<open>
  A token that the service hands out is read back as the session and the secret it was made
  from: no byte of the secret is lost or changed on the way.
\<close>

theorem refresh_token_roundtrip:
  assumes "uuid_ok sid" "CHR ''.'' \<notin> set sid" "length secret = 32"
  shows "parseRefreshToken uuid_ok (formatRefreshToken sid secret) = Inr (sid, secret)"
  using assms by (simp add: parseRefreshToken_def split_token base64_roundtrip)

section \<open>Recovery of a lost rotation\<close>

text \<open>
  The cryptography the service calls: the hash of a secret in hexadecimal, the wrapping key
  derived from a secret, and authenticated encryption with additional data (a nonce of 12 bytes
  and a tag of 16).
\<close>

record crypto =
  cr_hash :: "byte list \<Rightarrow> string"
  cr_wrap :: "byte list \<Rightarrow> byte list"
  cr_seal :: "byte list \<Rightarrow> byte list \<Rightarrow> byte list \<Rightarrow> string \<Rightarrow> byte list"
  cr_open :: "byte list \<Rightarrow> byte list \<Rightarrow> byte list \<Rightarrow> string \<Rightarrow> byte list option"

definition crypto_laws :: "crypto \<Rightarrow> bool" where
  "crypto_laws cr \<longleftrightarrow>
     (\<forall>key nonce plain binding. length (cr_seal cr key nonce plain binding) = length plain + 16) \<and>
     (\<forall>key nonce plain binding. cr_open cr key nonce (cr_seal cr key nonce plain binding) binding = Some plain)"

definition refreshRecoveryBinding :: "string \<Rightarrow> string \<Rightarrow> string \<Rightarrow> string" where
  "refreshRecoveryBinding sid h request = sid @ '':'' @ h @ '':'' @ request"

definition sealRefreshSecret ::
  "crypto \<Rightarrow> byte list option \<Rightarrow> byte list \<Rightarrow> string \<Rightarrow> string \<Rightarrow> string \<Rightarrow> byte list \<Rightarrow> auth_error + string" where
  "sealRefreshSecret cr nonce previous sid h request secret =
     (case nonce of
        None \<Rightarrow> Inl (AuthOther ''random'')
      | Some nonce \<Rightarrow>
         Inr (base64_encode (nonce @ cr_seal cr (cr_wrap cr previous) nonce secret (refreshRecoveryBinding sid h request))))"

definition openRefreshSecret ::
  "crypto \<Rightarrow> byte list \<Rightarrow> string \<Rightarrow> string \<Rightarrow> string \<Rightarrow> string \<Rightarrow> auth_error + byte list" where
  "openRefreshSecret cr previous sid h request sealed =
     (case base64_decode sealed of
        None \<Rightarrow> Inl (AuthOther ''invalid refresh recovery result'')
      | Some payload \<Rightarrow>
         (if length payload \<noteq> 12 + 32 + 16 then Inl (AuthOther ''invalid refresh recovery result'')
          else (case cr_open cr (cr_wrap cr previous) (take 12 payload) (drop 12 payload) (refreshRecoveryBinding sid h request) of
                  None \<Rightarrow> Inl (AuthOther ''cannot authenticate refresh recovery result'')
                | Some secret \<Rightarrow> Inr secret)))"

section \<open>The service\<close>

record auth_config =
  Issuer :: string
  Audience :: string
  ActiveKID :: string
  AccessTTL :: int
  RefreshIdleTTL :: int
  RefreshAbsoluteTTL :: int
  ClockSkew :: int

record access_claims =
  ClaimSessionID :: string
  ClaimTokenType :: string
  ClaimAuthVersion :: int
  ClaimIssuer :: string
  ClaimSubject :: string
  ClaimAudience :: "string list"
  ClaimExpiresAt :: "int option"
  ClaimNotBefore :: "int option"
  ClaimIssuedAt :: "int option"
  ClaimID :: string

record token_pair =
  PairUserID :: nat
  PairAuthVersion :: int
  AccessToken :: string
  RefreshToken :: string
  TokenType :: string
  AccessExpiresIn :: int
  RefreshExpiresIn :: int

text \<open>
  What a call draws and meets: the clock, the identifiers and secrets (\<open>None\<close>: the generator
  failed), the signature of the access token, and the fate of the call to Redis at the
  server's instant.
\<close>

record auth_call =
  ac_now :: int
  ac_uuid :: string
  ac_secret :: "byte list option"
  ac_nonce :: "byte list option"
  ac_jti :: string
  ac_fault :: fault
  ac_server :: int

definition accessTokenType :: string where "accessTokenType = ''access''"

definition signAccessToken ::
  "(string \<Rightarrow> access_claims \<Rightarrow> auth_error + string) \<Rightarrow> auth_config \<Rightarrow> auth_call \<Rightarrow> nat \<Rightarrow> int \<Rightarrow> string \<Rightarrow> auth_error + string" where
  "signAccessToken sign cfg c user version sid =
     sign (ActiveKID cfg)
       \<lparr>ClaimSessionID = sid, ClaimTokenType = accessTokenType, ClaimAuthVersion = version, ClaimIssuer = Issuer cfg,
        ClaimSubject = show_nat user, ClaimAudience = [Audience cfg], ClaimExpiresAt = Some (ac_now c + AccessTTL cfg),
        ClaimNotBefore = Some (ac_now c), ClaimIssuedAt = Some (ac_now c), ClaimID = ac_jti c\<rparr>"

definition minDuration :: "int \<Rightarrow> int \<Rightarrow> int" where
  "minDuration l r = (if l < r then l else r)"

definition newRefreshSecret :: "auth_call \<Rightarrow> auth_error + byte list" where
  "newRefreshSecret c = (case ac_secret c of None \<Rightarrow> Inl (AuthOther ''generate refresh token'') | Some secret \<Rightarrow> Inr secret)"

definition IssuePair ::
  "crypto \<Rightarrow> (string \<Rightarrow> access_claims \<Rightarrow> auth_error + string) \<Rightarrow> auth_config \<Rightarrow> auth_call \<Rightarrow> nat \<Rightarrow> int \<Rightarrow> astore \<Rightarrow>
   astore \<times> (auth_error + token_pair)" where
  "IssuePair cr sign cfg c user version s =
     (if user = 0 \<or> version \<le> 0 then (s, Inl (AuthOther ''user ID and authentication version must be positive''))
      else
        (case newRefreshSecret c of
           Inl e \<Rightarrow> (s, Inl e)
         | Inr secret \<Rightarrow>
            (case signAccessToken sign cfg c user version (ac_uuid c) of
               Inl e \<Rightarrow> (s, Inl e)
             | Inr access \<Rightarrow>
                (let absolute = ac_now c + RefreshAbsoluteTTL cfg;
                     ttl = minDuration (RefreshIdleTTL cfg) (time_sub absolute (ac_now c))
                 in if ttl \<le> 0 then (s, Inl ErrRefreshExpired)
                    else
                      (case Create (ac_fault c)
                              \<lparr>SessionID = ac_uuid c, UserID = user, AuthVersion = version, SecretHash = cr_hash cr secret,
                               SessionCreatedAt = ac_now c, LastRotatedAt = ac_now c, AbsoluteExpiresAt = absolute, TTL = ttl\<rparr>
                              (ac_server c) s of
                         (s, Inl e) \<Rightarrow> (s, Inl e)
                       | (s, Inr _) \<Rightarrow>
                          (s, Inr \<lparr>PairUserID = user, PairAuthVersion = version, AccessToken = access,
                                   RefreshToken = formatRefreshToken (ac_uuid c) secret, TokenType = ''Bearer'',
                                   AccessExpiresIn = AccessTTL cfg, RefreshExpiresIn = ttl\<rparr>))))))"

text \<open>\<open>uuid_random\<close> accepts the canonical spelling of a random UUID and nothing else.\<close>

definition RotateRefresh ::
  "crypto \<Rightarrow> (string \<Rightarrow> bool) \<Rightarrow> (string \<Rightarrow> bool) \<Rightarrow> (string \<Rightarrow> access_claims \<Rightarrow> auth_error + string) \<Rightarrow> auth_config \<Rightarrow>
   auth_call \<Rightarrow> string \<Rightarrow> string \<Rightarrow> astore \<Rightarrow> astore \<times> (auth_error + token_pair)" where
  "RotateRefresh cr uuid_ok uuid_random sign cfg c token request s =
     (case parseRefreshToken uuid_ok token of
        Inl e \<Rightarrow> (s, Inl e)
      | Inr (sid, previous) \<Rightarrow>
         (if request \<noteq> [] \<and> \<not> uuid_random request then (s, Inl ErrRefreshInvalid)
          else
            (case newRefreshSecret c of
               Inl e \<Rightarrow> (s, Inl e)
             | Inr secret \<Rightarrow>
                (let h = cr_hash cr previous in
                 case (if request = [] then Inr [] else sealRefreshSecret cr (ac_nonce c) previous sid h request secret) of
                   Inl e \<Rightarrow> (s, Inl e)
                 | Inr sealed \<Rightarrow>
                    (case Rotate (ac_fault c) sid h (cr_hash cr secret) (ac_now c) (RefreshIdleTTL cfg)
                            \<lparr>RequestID = request, SealedSecret = sealed\<rparr> (ac_server c) s of
                       (s, Inl e) \<Rightarrow> (s, Inl e)
                     | (s, Inr (user, version, ttl, recorded)) \<Rightarrow>
                        (case (if request = [] then Inr secret else openRefreshSecret cr previous sid h request recorded) of
                           Inl e \<Rightarrow> (s, Inl e)
                         | Inr secret \<Rightarrow>
                            (case signAccessToken sign cfg c user version sid of
                               Inl e \<Rightarrow> (s, Inl e)
                             | Inr access \<Rightarrow>
                                (s, Inr \<lparr>PairUserID = user, PairAuthVersion = version, AccessToken = access,
                                         RefreshToken = formatRefreshToken sid secret, TokenType = ''Bearer'',
                                         AccessExpiresIn = AccessTTL cfg, RefreshExpiresIn = ttl\<rparr>)))))))) "

definition RevokeRefresh ::
  "crypto \<Rightarrow> (string \<Rightarrow> bool) \<Rightarrow> auth_call \<Rightarrow> string \<Rightarrow> astore \<Rightarrow> astore \<times> (auth_error + unit)" where
  "RevokeRefresh cr uuid_ok c token s =
     (case parseRefreshToken uuid_ok token of
        Inl e \<Rightarrow> (s, Inl e)
      | Inr (sid, secret) \<Rightarrow> Revoke (ac_fault c) sid (cr_hash cr secret) (ac_server c) s)"

section \<open>The retry of a rotation\<close>

lemma live_keep: "rexpiry e = Some x \<Longrightarrow> now \<le> x \<Longrightarrow> live_entry now e = e"
  by (cases "(now, e)" rule: live_entry.cases) auto

lemma seal_open:
  assumes "crypto_laws cr" "length nonce = 12" "length secret = 32"
  shows "openRefreshSecret cr previous sid h request
    (base64_encode (nonce @ cr_seal cr (cr_wrap cr previous) nonce secret (refreshRecoveryBinding sid h request))) = Inr secret"
  using assms by (simp add: openRefreshSecret_def base64_roundtrip crypto_laws_def)

lemma parse_rotation_ok:
  assumes "0 < u" "u < 2 ^ 63" "0 < v" "in_int64 v" "0 < secs" "sealed \<noteq> []"
  shows "parse_rotation request [VInt 1, VString (show_nat u), VString (show_int v), VInt secs, VString sealed] =
    Inr (u, v, wrap64 (secs * go_second), sealed)"
proof -
  have "parse_int64 (show_int v) = Some v" using assms(3,4) by (simp add: in_int64_def)
  then show ?thesis using assms by (simp add: parse_rotation_def)
qed

text \<open>What a rotation that took place leaves in the store.\<close>

lemma rotation_left:
  fixes \<sigma> :: auth_sys
  defines "s \<equiv> live (au_clock \<sigma>) (au_store \<sigma>)"
  assumes inv: "auth_inv \<sigma>" and run: "Rotate f sid h new now idle recovery (au_clock \<sigma>) (au_store \<sigma>) = (s1, r)"
    and fresh: "new \<notin> au_issued \<sigma>" and rotated: "hget (s1 (KSession sid)) ''secret_hash'' = Some new"
    and request: "RequestID recovery \<noteq> []" and created: "au_created \<sigma> sid = Some ses"
  defines "ttl \<equiv> min (durationSecondsCeil idle) (unix (AbsoluteExpiresAt ses) - unix now)"
  shows "session_valid ses \<and> h \<in> au_issued \<sigma> \<and> 1 \<le> ttl \<and>
    (\<exists>m. s1 (KSession sid) = Some (RHash m, Some (au_clock \<sigma> + ttl * 1000)) \<and>
       fmlookup m ''user_id'' = Some (show_nat (UserID ses)) \<and> fmlookup m ''auth_version'' = Some (show_int (AuthVersion ses)) \<and>
       fmlookup m ''absolute_expires_at'' = Some (show_int (unix (AbsoluteExpiresAt ses)))) \<and>
    rexpiry (s1 (KUsed sid h)) = Some (au_clock \<sigma> + (unix (AbsoluteExpiresAt ses) - unix now) * 1000) \<and>
    (\<exists>m. s1 (KRecovery sid h (RequestID recovery)) =
         Some (RHash m, Some (au_clock \<sigma> + min (durationSecondsCeil refreshRecoveryTTL) ttl * 1000)) \<and>
       fmlookup m ''next_hash'' = Some new \<and> fmlookup m ''sealed_secret'' = Some (SealedSecret recovery))"
proof -
  have entry: "session_entry \<sigma> sid (s (KSession sid))" unfolding s_def by (rule auth_invD(1) [OF inv])
  have old: "hget (s (KSession sid)) ''secret_hash'' \<noteq> Some new"
    using entry fresh unfolding session_entry_def by (cases "s (KSession sid) = None") auto
  from Rotate_store [OF run] show ?thesis
  proof (elim disjE exE)
    assume "s1 = live (au_clock \<sigma>) (au_store \<sigma>)"
    then show ?thesis using rotated old by (simp add: s_def)
  next
    fix y assume script: "rotate_script sid h new (unix now) (durationSecondsCeil idle) (RequestID recovery)
      (SealedSecret recovery) (durationSecondsCeil refreshRecoveryTTL) (au_clock \<sigma>) (live (au_clock \<sigma>) (au_store \<sigma>)) = (s1, y)"
    show ?thesis
    proof (cases rule: rotate_script_cases [OF script [folded s_def]])
      case (3 absolute n)
      from entry 3(1,3) obtain ses' where ses: "au_created \<sigma> sid = Some ses'" "session_valid ses'" "h \<in> au_issued \<sigma>"
        "hget (s (KSession sid)) ''user_id'' = Some (show_nat (UserID ses'))"
        "hget (s (KSession sid)) ''auth_version'' = Some (show_int (AuthVersion ses'))"
        "hget (s (KSession sid)) ''absolute_expires_at'' = Some (show_int (unix (AbsoluteExpiresAt ses')))"
        unfolding session_entry_def by auto
      have ses': "ses' = ses" using ses(1) created by simp
      have n: "n = ttl" "absolute = unix (AbsoluteExpiresAt ses)"
        using 3(4,6) ses(6) unfolding ses' ttl_def by simp_all
      note st = renew_store [OF 3(8)] and e = renewed_entry [OF 3(7,2)] and x = renewed_expiry [OF _ 3(1)]
      have pos: "0 < n" "0 < min (durationSecondsCeil refreshRecoveryTTL) n"
        using 3(7) durationSecondsCeil_pos [of refreshRecoveryTTL] by simp_all
      have tr: "type_ok THash (s (KRecovery sid h (RequestID recovery)))"
        unfolding s_def by (rule auth_invD(3) [OF inv])
      have kr: "s1 (KRecovery sid h (RequestID recovery)) = expire (au_clock \<sigma>) (min (durationSecondsCeil refreshRecoveryTTL) n)
          (hset ''sealed_secret'' (SealedSecret recovery) (hset ''next_hash'' new (s (KRecovery sid h (RequestID recovery)))))"
        using 3(8) tr request by (simp add: renew_def Let_def)
      have shape: "\<exists>m. e = Some (RHash m, Some z) \<and> m = hmap e" if "type_ok THash e" "e \<noteq> None" "rexpiry e = Some z" for e z
        using that by (cases e rule: rtype_of.cases) (auto simp: type_ok_def)
      have session: "type_ok THash (s1 (KSession sid))" "s1 (KSession sid) \<noteq> None"
          "rexpiry (s1 (KSession sid)) = Some (au_clock \<sigma> + ttl * 1000)"
        unfolding st(1) using e x [OF pos(1)] n(1) by auto
      have kept: "type_ok THash (s1 (KRecovery sid h (RequestID recovery)))" "s1 (KRecovery sid h (RequestID recovery)) \<noteq> None"
          "rexpiry (s1 (KRecovery sid h (RequestID recovery))) =
           Some (au_clock \<sigma> + min (durationSecondsCeil refreshRecoveryTTL) ttl * 1000)"
        unfolding kr using tr by (simp_all add: expire_reads [OF pos(2)] n(1) [symmetric] entry_simps del: not_None_eq)
      have "fmlookup (hmap (s1 (KSession sid))) ''user_id'' = Some (show_nat (UserID ses))"
          "fmlookup (hmap (s1 (KSession sid))) ''auth_version'' = Some (show_int (AuthVersion ses))"
          "fmlookup (hmap (s1 (KSession sid))) ''absolute_expires_at'' = Some (show_int (unix (AbsoluteExpiresAt ses)))"
        unfolding st(1) using e(3) ses unfolding ses' by simp_all
      moreover have "fmlookup (hmap (s1 (KRecovery sid h (RequestID recovery)))) ''next_hash'' = Some new"
          "fmlookup (hmap (s1 (KRecovery sid h (RequestID recovery)))) ''sealed_secret'' = Some (SealedSecret recovery)"
        unfolding kr using tr by (simp_all add: expire_reads [OF pos(2)] entry_simps del: not_None_eq)
      moreover have "rexpiry (s1 (KUsed sid h)) = Some (au_clock \<sigma> + (unix (AbsoluteExpiresAt ses) - unix now) * 1000)"
        unfolding st(2) n(2) by (simp add: set_ex_def)
      ultimately show ?thesis
        using shape [OF session] shape [OF kept] ses(2,3) 3(7) unfolding ses' n(1) by metis
    qed (use rotated old in auto)
  qed
qed

definition sealed_secret :: "crypto \<Rightarrow> byte list \<Rightarrow> string \<Rightarrow> string \<Rightarrow> byte list \<Rightarrow> byte list \<Rightarrow> string" where
  "sealed_secret cr previous sid request nonce secret =
     base64_encode (nonce @ cr_seal cr (cr_wrap cr previous) nonce secret (refreshRecoveryBinding sid (cr_hash cr previous) request))"

lemma RotateRefresh_Rotate:
  assumes "parseRefreshToken uuid_ok token = Inr (sid, previous)" "request \<noteq> []" "uuid_random request"
    and "ac_secret c = Some secret" "ac_nonce c = Some nonce"
    and "RotateRefresh cr uuid_ok uuid_random sign cfg c token request s = (s', r)"
  shows "\<exists>r'. Rotate (ac_fault c) sid (cr_hash cr previous) (cr_hash cr secret) (ac_now c) (RefreshIdleTTL cfg)
    \<lparr>RequestID = request, SealedSecret = sealed_secret cr previous sid request nonce secret\<rparr> (ac_server c) s = (s', r')"
  using assms unfolding RotateRefresh_def
  by (auto simp: newRefreshSecret_def sealRefreshSecret_def sealed_secret_def Let_def split: prod.splits sum.splits)

lemma RotateRefresh_accepts:
  assumes "parseRefreshToken uuid_ok token = Inr (sid, previous)" "request \<noteq> []" "uuid_random request"
    and "ac_secret c = Some secret" "ac_nonce c = Some nonce" "crypto_laws cr" "length nonce' = 12" "length secret' = 32"
    and "sign (ActiveKID cfg) \<lparr>ClaimSessionID = sid, ClaimTokenType = accessTokenType, ClaimAuthVersion = version, ClaimIssuer = Issuer cfg,
        ClaimSubject = show_nat user, ClaimAudience = [Audience cfg], ClaimExpiresAt = Some (ac_now c + AccessTTL cfg),
        ClaimNotBefore = Some (ac_now c), ClaimIssuedAt = Some (ac_now c), ClaimID = ac_jti c\<rparr> = Inr access"
    and "Rotate (ac_fault c) sid (cr_hash cr previous) (cr_hash cr secret) (ac_now c) (RefreshIdleTTL cfg)
      \<lparr>RequestID = request, SealedSecret = sealed_secret cr previous sid request nonce secret\<rparr> (ac_server c) s =
      (s', Inr (user, version, ttl, sealed_secret cr previous sid request nonce' secret'))"
  shows "RotateRefresh cr uuid_ok uuid_random sign cfg c token request s =
    (s', Inr \<lparr>PairUserID = user, PairAuthVersion = version, AccessToken = access, RefreshToken = formatRefreshToken sid secret',
      TokenType = ''Bearer'', AccessExpiresIn = AccessTTL cfg, RefreshExpiresIn = ttl\<rparr>)"
  using assms seal_open [OF assms(6,7,8)] unfolding RotateRefresh_def
  by (simp add: newRefreshSecret_def sealRefreshSecret_def sealed_secret_def Let_def signAccessToken_def)

lemma base64_encode_ne: "bytes \<noteq> [] \<Longrightarrow> base64_encode bytes \<noteq> []"
  by (cases bytes rule: sextets.cases) (simp_all add: base64_encode_def)

text \<open>
  C26. A client that loses the answer to a rotation can ask again. If a rotation with a request
  id took place, whether or not its answer arrived, then the same token with the same request id
  gets, within two minutes and the life of the session, the very refresh token that was lost,
  however often it asks: the answer changes nothing in the store.
\<close>

theorem RotateRefresh_retry:
  fixes \<sigma> :: auth_sys and c1 c2 :: auth_call and cfg :: auth_config
  assumes reach: "auth_reach \<sigma>" and laws: "crypto_laws cr"
    and token: "parseRefreshToken uuid_ok token = Inr (sid, previous)" "request \<noteq> []" "uuid_random request"
    and first: "RotateRefresh cr uuid_ok uuid_random sign cfg c1 token request (au_store \<sigma>) = (s1, r1)" "ac_server c1 = au_clock \<sigma>"
    and drawn: "ac_secret c1 = Some secret" "length secret = 32" "ac_nonce c1 = Some nonce" "length nonce = 12"
      "cr_hash cr secret \<notin> au_issued \<sigma>"
    and rotated: "hget (s1 (KSession sid)) ''secret_hash'' = Some (cr_hash cr secret)"
    and created: "au_created \<sigma> sid = Some ses" "UserID ses < 2 ^ 63" "in_int64 (AuthVersion ses)"
    and kept: "\<forall>k \<in> {KSession sid, KUsed sid (cr_hash cr previous), KRecovery sid (cr_hash cr previous) request}. s2 k = s1 k"
    and again: "ac_fault c2 = Healthy" "ac_secret c2 \<noteq> None" "ac_nonce c2 \<noteq> None"
    and soon: "ac_server c2 + 500 \<le> ac_server c1 + 1000 * min 120 (min (durationSecondsCeil (RefreshIdleTTL cfg))
        (unix (AbsoluteExpiresAt ses) - unix (ac_now c1)))" "unix (ac_now c2) < unix (AbsoluteExpiresAt ses)"
    and signs: "\<forall>claims. \<exists>access. sign (ActiveKID cfg) claims = Inr access"
  shows "\<exists>pair. RotateRefresh cr uuid_ok uuid_random sign cfg c2 token request s2 = (live (ac_server c2) s2, Inr pair) \<and>
    RefreshToken pair = formatRefreshToken sid secret \<and> PairUserID pair = UserID ses \<and> PairAuthVersion pair = AuthVersion ses"
proof -
  let ?h = "cr_hash cr previous" and ?srv = "ac_server c2" and ?s = "live (ac_server c2) s2"
  let ?sealed = "sealed_secret cr previous sid request nonce secret"
  let ?ttl = "min (durationSecondsCeil (RefreshIdleTTL cfg)) (unix (AbsoluteExpiresAt ses) - unix (ac_now c1))"
  have inv: "auth_inv \<sigma>" by (rule auth_reach_inv [OF reach])
  from RotateRefresh_Rotate [where uuid_random = uuid_random, OF token drawn(1,3) first(1)] obtain r' where
    run: "Rotate (ac_fault c1) sid ?h (cr_hash cr secret) (ac_now c1) (RefreshIdleTTL cfg)
      \<lparr>RequestID = request, SealedSecret = ?sealed\<rparr> (au_clock \<sigma>) (au_store \<sigma>) = (s1, r')" unfolding first(2) by blast
  from rotation_left [OF inv run drawn(5) rotated _ created(1)] token(2) obtain m n where
    valid: "session_valid ses" "?h \<in> au_issued \<sigma>" "1 \<le> ?ttl"
    and s1: "s1 (KSession sid) = Some (RHash m, Some (au_clock \<sigma> + ?ttl * 1000))"
      "fmlookup m ''user_id'' = Some (show_nat (UserID ses))" "fmlookup m ''auth_version'' = Some (show_int (AuthVersion ses))"
      "fmlookup m ''absolute_expires_at'' = Some (show_int (unix (AbsoluteExpiresAt ses)))"
      "rexpiry (s1 (KUsed sid ?h)) = Some (au_clock \<sigma> + (unix (AbsoluteExpiresAt ses) - unix (ac_now c1)) * 1000)"
      "s1 (KRecovery sid ?h request) = Some (RHash n, Some (au_clock \<sigma> + min (durationSecondsCeil refreshRecoveryTTL) ?ttl * 1000))"
      "fmlookup n ''next_hash'' = Some (cr_hash cr secret)" "fmlookup n ''sealed_secret'' = Some ?sealed"
    by auto
  have two: "durationSecondsCeil refreshRecoveryTTL = 120"
    by (simp add: durationSecondsCeil_def refreshRecoveryTTL_def go_second_def quot_def)
  define ttl life where "ttl = ?ttl" and "life = unix (AbsoluteExpiresAt ses) - unix (ac_now c1)"
  have fold: "?ttl = ttl" "unix (AbsoluteExpiresAt ses) - unix (ac_now c1) = life" by (simp_all add: ttl_def life_def)
  have in_time: "?srv + 500 \<le> au_clock \<sigma> + 1000 * min 120 ttl" using soon(1) first(2) by (simp add: ttl_def)
  have shorter: "min 120 ttl * 1000 \<le> ttl * 1000" "ttl \<le> life" by (auto simp: ttl_def life_def)
  then have "?srv \<le> au_clock \<sigma> + ttl * 1000" "?srv \<le> au_clock \<sigma> + life * 1000" "?srv \<le> au_clock \<sigma> + min 120 ttl * 1000"
    using in_time by linarith+
  note alive = this [unfolded fold [symmetric]] and shapes = s1(1,5,6) [unfolded two]
  have session: "?s (KSession sid) = s1 (KSession sid)"
    using kept live_keep [of "s1 (KSession sid)", OF _ alive(1)] shapes(1) by (simp add: live_def)
  have marker: "?s (KUsed sid ?h) = s1 (KUsed sid ?h)"
    using kept live_keep [of "s1 (KUsed sid ?h)", OF shapes(2) alive(2)] by (simp add: live_def)
  have recorded: "?s (KRecovery sid ?h request) = s1 (KRecovery sid ?h request)"
    using kept live_keep [of "s1 (KRecovery sid ?h request)", OF _ alive(3)] shapes(3) by (simp add: live_def)
  have marked: "s1 (KUsed sid ?h) \<noteq> None" using s1(5) by (cases "s1 (KUsed sid ?h)") simp_all
  have "500 \<le> au_clock \<sigma> + ttl * 1000 - ?srv" using in_time shorter(1) by linarith
  moreover have "pttl ?srv (s1 (KSession sid)) = au_clock \<sigma> + ttl * 1000 - ?srv" by (simp add: pttl_def s1(1) [unfolded fold(1)])
  ultimately have secs: "0 < ttl_seconds ?srv (s1 (KSession sid))"
    by (simp add: ttl_seconds_def Let_def pos_imp_zdiv_pos_iff)
  have current: "fmlookup m ''secret_hash'' = Some (cr_hash cr secret)" using rotated s1(1) by simp
  have other: "cr_hash cr secret \<noteq> ?h" using valid(2) drawn(5) by metis
  obtain secret2 nonce2 where c2: "ac_secret c2 = Some secret2" "ac_nonce c2 = Some nonce2" using again by auto
  have positive: "0 < UserID ses" "0 < AuthVersion ses" using valid(1) by (auto simp: session_valid_def)
  have v: "version_ok (Some (show_int (AuthVersion ses)))" using positive by (simp add: version_ok_def)
  let ?reply = "[VInt 1, VString (show_nat (UserID ses)), VString (show_int (AuthVersion ses)),
     VInt (ttl_seconds ?srv (s1 (KSession sid))), VString ?sealed]"
  have script: "rotate_script sid ?h (cr_hash cr secret2) (unix (ac_now c2)) (durationSecondsCeil (RefreshIdleTTL cfg)) request
      (sealed_secret cr previous sid request nonce2 secret2) k ?srv ?s = (?s, Inr ?reply)" for k
    using other secs soon(2) token(2) marked v
    by (simp add: rotate_script_def Let_def session marker recorded replay_def s1 current type_ok_def reply_field_def del: not_None_eq)
  have ne: "?sealed \<noteq> []" unfolding sealed_secret_def by (rule base64_encode_ne) (use drawn(4) in auto)
  have "Rotate (ac_fault c2) sid ?h (cr_hash cr secret2) (ac_now c2) (RefreshIdleTTL cfg)
      \<lparr>RequestID = request, SealedSecret = sealed_secret cr previous sid request nonce2 secret2\<rparr> ?srv s2 =
      (?s, Inr (UserID ses, AuthVersion ses, wrap64 (ttl_seconds ?srv (s1 (KSession sid)) * go_second), ?sealed))"
    unfolding Rotate_def again(1) call_def
    by (simp add: script raw_def parse_rotation_ok [OF positive(1) created(2) positive(2) created(3) secs ne])
  from RotateRefresh_accepts [where uuid_random = uuid_random, OF token c2 laws drawn(4,2) _ this] signs show ?thesis
    by (metis token_pair.select_convs(1,2,4))
qed

section \<open>A lost answer\<close>

definition sample_crypto :: crypto where
  "sample_crypto = \<lparr>cr_hash = \<lambda>b. if b = replicate 32 0 then ''h1'' else ''h2'', cr_wrap = \<lambda>b. b,
     cr_seal = \<lambda>key nonce plain binding. plain @ replicate 16 0,
     cr_open = \<lambda>key nonce sealed binding. Some (take (length sealed - 16) sealed)\<rparr>"

definition sample_config :: auth_config where
  "sample_config = \<lparr>Issuer = ''go.exchange'', Audience = ''go.exchange.api'', ActiveKID = ''k'', AccessTTL = 900 * go_second,
     RefreshIdleTTL = 100 * go_second, RefreshAbsoluteTTL = 1000 * go_second, ClockSkew = 0\<rparr>"

definition sample_call :: "byte \<Rightarrow> fault \<Rightarrow> int \<Rightarrow> auth_call" where
  "sample_call b f srv = \<lparr>ac_now = 0, ac_uuid = ''s'', ac_secret = Some (replicate 32 b), ac_nonce = Some (replicate 12 b),
     ac_jti = ''j'', ac_fault = f, ac_server = srv\<rparr>"

definition sample_sign :: "string \<Rightarrow> access_claims \<Rightarrow> auth_error + string" where
  "sample_sign kid claims = Inr ''jwt''"

definition sample_token :: string where
  "sample_token = formatRefreshToken ''s'' (replicate 32 0)"

theorem refresh_token_roundtrip_witness:
  "parseRefreshToken (\<lambda>sid. sid = ''s'') sample_token = Inr (''s'', replicate 32 0)"
  unfolding sample_token_def by (rule refresh_token_roundtrip) simp_all

text \<open>The answer to the first call is lost; the second call, a second later, gets its token.\<close>

theorem RotateRefresh_retry_witness:
  "\<exists>\<sigma> s1 r1 s2 pair. auth_reach \<sigma> \<and>
     RotateRefresh sample_crypto (\<lambda>_. True) (\<lambda>_. True) sample_sign sample_config (sample_call 1 (LostReply NetTimeout) 0)
       sample_token ''request'' (au_store \<sigma>) = (s1, Inl r1) \<and>
     RotateRefresh sample_crypto (\<lambda>_. True) (\<lambda>_. True) sample_sign sample_config (sample_call 2 Healthy 1000)
       sample_token ''request'' s1 = (s2, Inr pair) \<and>
     RefreshToken pair = formatRefreshToken ''s'' (replicate 32 1)"
proof -
  obtain s where reach: "auth_reach (sample_state s)" and live: "live 0 s = s"
    and entry: "s (KSession ''s'') \<noteq> None" "type_ok THash (s (KSession ''s''))"
      "hget (s (KSession ''s'')) ''secret_hash'' = Some ''h1''" "lua_int (hget (s (KSession ''s'')) ''absolute_expires_at'') = Some 1000"
      "hget (s (KSession ''s'')) ''auth_version'' = Some (show_nat 1)"
    by (rule sample_start) blast
  have state: "au_store (sample_state s) = s" "au_clock (sample_state s) = 0" "au_issued (sample_state s) = {''h1''}"
    "au_created (sample_state s) ''s'' = Some sample_session"
    by (simp_all add: sample_state_def auth_init_def)
  have laws: "crypto_laws sample_crypto" by (simp add: crypto_laws_def sample_crypto_def)
  have token: "parseRefreshToken (\<lambda>_. True) sample_token = Inr (''s'', replicate 32 0)"
    by (simp add: sample_token_def parseRefreshToken_def split_token base64_roundtrip)
  let ?c1 = "sample_call 1 (LostReply NetTimeout) 0" and ?c2 = "sample_call 2 Healthy 1000"
  have ne: "replicate 32 (1 :: byte) \<noteq> replicate 32 0" by (simp add: replicate_eq_replicate)
  have hash: "cr_hash sample_crypto (replicate 32 0) = ''h1''" "cr_hash sample_crypto (replicate 32 1) = ''h2''"
    using ne by (simp_all add: sample_crypto_def)
  have call: "ac_server ?c1 = 0" "ac_secret ?c1 = Some (replicate 32 1)" "ac_nonce ?c1 = Some (replicate 12 1)"
    "ac_fault ?c2 = Healthy" "ac_secret ?c2 \<noteq> None" "ac_nonce ?c2 \<noteq> None" "ac_server ?c2 = 1000" "ac_now ?c1 = 0" "ac_now ?c2 = 0"
    "ac_fault ?c1 = LostReply NetTimeout"
    by (simp_all add: sample_call_def)
  obtain s1 r where first: "RotateRefresh sample_crypto (\<lambda>_. True) (\<lambda>_. True) sample_sign sample_config ?c1
      sample_token ''request'' (au_store (sample_state s)) = (s1, r)" by fastforce
  have request: "''request'' \<noteq> []" by simp
  from RotateRefresh_Rotate [where uuid_random = "\<lambda>_. True", OF token request TrueI call(2,3) first] obtain r' where
    run: "Rotate (LostReply NetTimeout) ''s'' ''h1'' ''h2'' 0 (100 * go_second)
      \<lparr>RequestID = ''request'', SealedSecret = sealed_secret sample_crypto (replicate 32 0) ''s'' ''request'' (replicate 12 1) (replicate 32 1)\<rparr>
      0 s = (s1, r')"
    unfolding hash call state by (auto simp: sample_config_def)
  let ?sealed = "sealed_secret sample_crypto (replicate 32 0) ''s'' ''request'' (replicate 12 1) (replicate 32 1)"
  let ?n = "durationSecondsCeil refreshRecoveryTTL"
  have "s1 = fst (renew ''s'' ''h1'' ''h2'' 0 ''request'' ?sealed ?n 1000 100 0 s)"
    using run by (simp add: Rotate_def call_def live sample_script [of s, OF entry])
  then obtain y where "(s1, y) = renew ''s'' ''h1'' ''h2'' 0 ''request'' ?sealed ?n 1000 100 0 s" by (metis prod.collapse)
  from renew_store(1) [OF this] have rotated: "hget (s1 (KSession ''s'')) ''secret_hash'' = Some (cr_hash sample_crypto (replicate 32 1))"
    unfolding hash using renewed_entry(2) [OF _ entry(2), of 100] by simp
  have lost: "\<exists>e. r = Inl e"
    using first run token unfolding state(1)
    by (auto simp: RotateRefresh_def newRefreshSecret_def call sealRefreshSecret_def sealed_secret_def hash sample_config_def
        Rotate_def call_def split: prod.splits sum.splits)
  have "\<exists>pair. RotateRefresh sample_crypto (\<lambda>_. True) (\<lambda>_. True) sample_sign sample_config ?c2 sample_token ''request'' s1 =
      (live (ac_server ?c2) s1, Inr pair) \<and> RefreshToken pair = formatRefreshToken ''s'' (replicate 32 1) \<and>
      PairUserID pair = UserID sample_session \<and> PairAuthVersion pair = AuthVersion sample_session"
  proof (rule RotateRefresh_retry [OF reach laws token request TrueI first _ call(2) _ call(3) _ _ rotated state(4) _ _ _ call(4-6)])
    show "cr_hash sample_crypto (replicate 32 1) \<notin> au_issued (sample_state s)" by (simp add: hash state)
    show "\<forall>claims. \<exists>access. sample_sign (ActiveKID sample_config) claims = Inr access" by (simp add: sample_sign_def)
  qed (simp_all add: call state sample_session_def sample_config_def in_int64_def)
  with reach first lost show ?thesis by blast
qed

section \<open>Access tokens\<close>

definition Validate :: "access_claims \<Rightarrow> auth_error + unit" where
  "Validate c =
     (if ClaimTokenType c \<noteq> accessTokenType \<or> trim_space (ClaimSessionID c) = '''' \<or> ClaimAuthVersion c \<le> 0
      then Inl ErrAccessTokenInvalid
      else if ClaimSubject c = '''' \<or> ClaimID c = '''' \<or> ClaimIssuedAt c = None \<or> ClaimNotBefore c = None \<or> ClaimExpiresAt c = None
      then Inl ErrAccessTokenInvalid
      else (case parse_uint64 (ClaimSubject c) of
              None \<Rightarrow> Inl ErrAccessTokenInvalid
            | Some user \<Rightarrow> if user = 0 then Inl ErrAccessTokenInvalid else Inr ()))"

text \<open>What the database knows of a user that is not deleted.\<close>

datatype version_row = NoUser | QueryFailed string | VersionRow int

definition ReadAuthVersion :: "(nat \<Rightarrow> version_row) \<Rightarrow> nat \<Rightarrow> auth_error + int" where
  "ReadAuthVersion db user =
     (if user = 0 then Inl ErrAuthVersionUnavailable
      else (case db user of
              NoUser \<Rightarrow> Inl ErrAuthVersionUserMissing
            | QueryFailed _ \<Rightarrow> Inl ErrAuthVersionUnavailable
            | VersionRow v \<Rightarrow> if v \<le> 0 then Inl ErrAuthVersionUnavailable else Inr v))"

text \<open>\<open>verify\<close> is the signature check; it may give no claims.\<close>

definition VerifyAccessContext ::
  "(string \<Rightarrow> auth_error + access_claims option) \<Rightarrow> (nat \<Rightarrow> auth_error + int) \<Rightarrow> string \<Rightarrow> auth_error + access_claims" where
  "VerifyAccessContext verify versions token =
     (case verify token of
        Inl e \<Rightarrow> Inl e
      | Inr None \<Rightarrow> Inl ErrAccessTokenInvalid
      | Inr (Some claims) \<Rightarrow>
         (case parse_uint64 (ClaimSubject claims) of
            None \<Rightarrow> Inl ErrAccessTokenInvalid
          | Some user \<Rightarrow>
             (if user = 0 then Inl ErrAccessTokenInvalid
              else (case versions user of
                      Inl e \<Rightarrow> Inl (if e = ErrAuthVersionUserMissing then ErrAccessTokenInvalid else ErrAuthVersionUnavailable)
                    | Inr current \<Rightarrow>
                       (if current \<le> 0 then Inl ErrAuthVersionUnavailable
                        else if ClaimAuthVersion claims \<noteq> current then Inl ErrAccessTokenInvalid
                        else Inr claims)))))"

text \<open>
  An access token is good exactly as long as the account's authentication version is the one
  it was issued with: the token of a login or a rotation is accepted while the version stands,
  and refused once the version has changed, the user is gone, or the version cannot be read.
  The signature check accepts a token of its own key whose claims pass \<open>Validate\<close>.
\<close>

theorem access_token_follows_version:
  fixes cfg :: auth_config and c :: auth_call and db :: "nat \<Rightarrow> version_row"
  assumes signed: "signAccessToken sign cfg c user version sid = Inr access"
    and good: "0 < user" "user < 2 ^ 64" "0 < version" "trim_space sid \<noteq> ''''" "ac_jti c \<noteq> ''''"
    and verify: "\<And>kid claims token. sign kid claims = Inr token \<Longrightarrow>
      verify token = (case Validate claims of Inl e \<Rightarrow> Inl e | Inr _ \<Rightarrow> Inr (Some claims))"
  shows "(\<exists>claims. VerifyAccessContext verify (ReadAuthVersion db) access = Inr claims) \<longleftrightarrow> db user = VersionRow version"
proof -
  let ?claims = "\<lparr>ClaimSessionID = sid, ClaimTokenType = accessTokenType, ClaimAuthVersion = version, ClaimIssuer = Issuer cfg,
        ClaimSubject = show_nat user, ClaimAudience = [Audience cfg], ClaimExpiresAt = Some (ac_now c + AccessTTL cfg),
        ClaimNotBefore = Some (ac_now c), ClaimIssuedAt = Some (ac_now c), ClaimID = ac_jti c\<rparr>"
  have "Validate ?claims = Inr ()" using good by (simp add: Validate_def)
  with verify [OF signed [unfolded signAccessToken_def]] have "verify access = Inr (Some ?claims)" by simp
  then show ?thesis
    using good by (auto simp: VerifyAccessContext_def ReadAuthVersion_def split: version_row.splits if_splits)
qed

definition sample_claims :: access_claims where
  "sample_claims = \<lparr>ClaimSessionID = ''s'', ClaimTokenType = accessTokenType, ClaimAuthVersion = 1, ClaimIssuer = Issuer sample_config,
     ClaimSubject = show_nat 7, ClaimAudience = [Audience sample_config], ClaimExpiresAt = Some (AccessTTL sample_config),
     ClaimNotBefore = Some 0, ClaimIssuedAt = Some 0, ClaimID = ''j''\<rparr>"

text \<open>One signed token; a password change raises the version from one to two.\<close>

theorem access_token_follows_version_witness:
  "(\<exists>claims. VerifyAccessContext (\<lambda>_. Inr (Some sample_claims)) (ReadAuthVersion (\<lambda>_. VersionRow 1)) ''jwt'' = Inr claims) \<and>
   (\<nexists>claims. VerifyAccessContext (\<lambda>_. Inr (Some sample_claims)) (ReadAuthVersion (\<lambda>_. VersionRow 2)) ''jwt'' = Inr claims)"
proof -
  let ?sign = "\<lambda>kid claims. if claims = sample_claims then Inr ''jwt'' else Inl (AuthOther ''sign'')"
  have signed: "signAccessToken ?sign sample_config (sample_call 1 Healthy 0) 7 1 ''s'' = Inr ''jwt''"
    by (simp add: signAccessToken_def sample_call_def sample_claims_def)
  have space: "trim_space ''s'' \<noteq> []" by code_simp
  have "Validate sample_claims = Inr ()" using space by (simp add: Validate_def sample_claims_def)
  then have verify: "Inr (Some sample_claims) = (case Validate claims of Inl e \<Rightarrow> Inl e | Inr _ \<Rightarrow> Inr (Some claims))"
    if "?sign kid claims = Inr token" for kid claims token using that by (auto split: if_splits)
  have "(\<exists>claims. VerifyAccessContext (\<lambda>_. Inr (Some sample_claims)) (ReadAuthVersion db) ''jwt'' = Inr claims) \<longleftrightarrow> db 7 = VersionRow 1" for db
    by (rule access_token_follows_version [OF signed _ _ _ space _ verify]) (simp_all add: sample_call_def)
  then show ?thesis by simp
qed

end
