(* ===== verification/RateLimit.thy ===== *)
theory RateLimit
  imports AuthStore
begin

text \<open>
  Fixed-window rate limits: the limiter of application actions (\<open>ratelimit/policy.go\<close>,
  \<open>ratelimit/redis_limiter.go\<close>, \<open>ratelimit/middleware.go\<close>) and the limiter of authentication
  attempts (\<open>auth/rate_limiter.go\<close>). Both count in Redis under keys that name a window; the
  clients take the window from their own clocks. Instants and durations of Go are nanoseconds,
  the clock of the server milliseconds.
\<close>

section \<open>Admissions per window\<close>

text \<open>
  What both limiters rely on: a call runs in a state and admits or not; \<open>counts c k\<close> says that
  the call counts in window \<open>k\<close>. The provider keeps \<open>counted k s n\<close>, that \<open>n\<close> admissions in
  window \<open>k\<close> are on record, and admits only below the quota.
\<close>

fun run_calls :: "('c \<Rightarrow> 's \<Rightarrow> 's \<times> bool) \<Rightarrow> 'c list \<Rightarrow> 's \<Rightarrow> 's \<times> bool list" where
  "run_calls op [] s = (s, [])"
| "run_calls op (c # cs) s =
     (let (s, a) = op c s; (s, as) = run_calls op cs s in (s, a # as))"

fun all_enabled :: "('c \<Rightarrow> 's \<Rightarrow> 's \<times> bool) \<Rightarrow> ('c \<Rightarrow> 's \<Rightarrow> bool) \<Rightarrow> 'c list \<Rightarrow> 's \<Rightarrow> bool" where
  "all_enabled op enabled [] s = True"
| "all_enabled op enabled (c # cs) s = (enabled c s \<and> all_enabled op enabled cs (fst (op c s)))"

definition admissions :: "('c \<Rightarrow> 'k \<Rightarrow> bool) \<Rightarrow> 'k \<Rightarrow> 'c list \<Rightarrow> bool list \<Rightarrow> nat" where
  "admissions counts k cs as = length (filter (\<lambda>(c, a). a \<and> counts c k) (zip cs as))"

locale fixed_window =
  fixes op :: "'c \<Rightarrow> 's \<Rightarrow> 's \<times> bool"
    and enabled :: "'c \<Rightarrow> 's \<Rightarrow> bool"
    and counts :: "'c \<Rightarrow> 'k \<Rightarrow> bool"
    and quota :: "'k \<Rightarrow> nat"
    and counted :: "'k \<Rightarrow> 's \<Rightarrow> nat \<Rightarrow> bool"
  assumes keeps: "enabled c s \<Longrightarrow> op c s = (s', a) \<Longrightarrow> counted k s n \<Longrightarrow> counted k s' n"
    and admits: "enabled c s \<Longrightarrow> op c s = (s', True) \<Longrightarrow> counts c k \<Longrightarrow> counted k s n \<Longrightarrow> n < quota k \<and> counted k s' (n + 1)"
begin

lemma admissions_bounded:
  assumes "run_calls op cs s = (s', as)" "all_enabled op enabled cs s" "counted k s n" "n \<le> quota k"
  shows "n + admissions counts k cs as \<le> quota k \<and> counted k s' (n + admissions counts k cs as)"
  using assms
proof (induction cs arbitrary: s as n)
  case (Cons c cs)
  obtain s1 a where c: "op c s = (s1, a)" by fastforce
  obtain as' where as: "run_calls op cs s1 = (s', as')" "as = a # as'"
    using Cons.prems(1) c by (auto split: prod.splits)
  have on: "enabled c s" "all_enabled op enabled cs s1" using Cons.prems(2) c by simp_all
  show ?case
  proof (cases "a \<and> counts c k")
    case True
    with admits [OF on(1) _ _ Cons.prems(3), of s1] c have "n < quota k" "counted k s1 (n + 1)" by simp_all
    with Cons.IH [OF as(1) on(2), of "n + 1"] True show ?thesis by (simp add: admissions_def as(2))
  next
    case False
    then have "admissions counts k (c # cs) as = admissions counts k cs as'" by (auto simp: admissions_def as(2))
    with Cons.IH [OF as(1) on(2) keeps [OF on(1) c Cons.prems(3)] Cons.prems(4)] show ?thesis by simp
  qed
qed (simp add: admissions_def)

end

section \<open>Policies\<close>

type_synonym rl_action = string

record rate_rule =
  RuleLimit :: int
  Window :: int

record rate_policy =
  PolicyAction :: rl_action
  Rules :: "rate_rule list"

datatype rate_error = ErrUnknownAction rl_action | ErrInvalidPolicy string | RateRedis go_error | RateOther string

definition go_minute :: int where "go_minute = 60 * go_second"
definition go_hour :: int where "go_hour = 60 * go_minute"

definition rate_rules :: "(int \<times> int) list \<Rightarrow> rate_rule list" where
  "rate_rules rs = map (\<lambda>(l, w). \<lparr>RuleLimit = l, Window = w\<rparr>) rs"

definition Policies :: "(rl_action \<times> rate_policy) list" where
  "Policies = map (\<lambda>(a, rs). (a, \<lparr>PolicyAction = a, Rules = rate_rules rs\<rparr>))
     [(''post_create'', [(5, go_minute), (50, go_hour), (300, 24 * go_hour)]),
      (''post_search'', [(60, go_minute), (600, go_hour)]),
      (''follow_mutation'', [(15, go_minute), (100, go_hour), (500, 24 * go_hour)]),
      (''media_upload'', [(10, go_minute), (100, 24 * go_hour)]),
      (''profile_media_upload'', [(10, go_minute), (50, 24 * go_hour)]),
      (''translation'', [(20, go_minute), (200, go_hour)]),
      (''recommendations'', [(120, go_minute)]),
      (''like_mutation'', [(100, 10 * go_second), (600, go_minute), (20000, 24 * go_hour)])]"

definition rule_ok :: "rate_rule \<Rightarrow> bool" where
  "rule_ok r \<longleftrightarrow> \<not> (RuleLimit r \<le> 0 \<or> Window r \<le> 0) \<and> Window r mod go_second = 0"

definition validatePolicy :: "rate_policy \<Rightarrow> rate_error + unit" where
  "validatePolicy p =
     (if PolicyAction p = '''' \<or> Rules p = [] then Inl (ErrInvalidPolicy (PolicyAction p))
      else if list_all rule_ok (Rules p) then Inr () else Inl (ErrInvalidPolicy (PolicyAction p)))"

definition PolicyFor :: "(rl_action \<rightharpoonup> rate_policy) \<Rightarrow> rl_action \<Rightarrow> rate_error + rate_policy" where
  "PolicyFor policies action =
     (case policies action of
        None \<Rightarrow> Inl (ErrUnknownAction action)
      | Some p \<Rightarrow> (case validatePolicy p of Inl e \<Rightarrow> Inl e | Inr _ \<Rightarrow> Inr p))"

definition ValidatePolicies :: "(rl_action \<times> rate_policy) list \<Rightarrow> bool" where
  "ValidatePolicies ps =
     list_all (\<lambda>(a, p). validatePolicy (if PolicyAction p = '''' then p\<lparr>PolicyAction := a\<rparr> else p) = Inr ()) ps"

text \<open>The limits of likes can be set in the environment.\<close>

definition env_limit :: "(string \<Rightarrow> string option) \<Rightarrow> string \<Rightarrow> int \<Rightarrow> int option" where
  "env_limit env name fallback =
     (case env name of
        None \<Rightarrow> Some fallback
      | Some v \<Rightarrow>
         (case parse_int64 (trim_space v) of
            None \<Rightarrow> None
          | Some n \<Rightarrow> if n \<le> 0 \<or> n > 1000000 then None else Some n))"

definition likeMutationPolicyFromEnvironment :: "(string \<Rightarrow> string option) \<Rightarrow> rate_error + rate_policy" where
  "likeMutationPolicyFromEnvironment env =
     (case (env_limit env ''LIKE_MUTATION_RATE_10S'' 100, env_limit env ''LIKE_MUTATION_RATE_1M'' 600,
            env_limit env ''LIKE_MUTATION_RATE_24H'' 20000) of
        (Some a, Some b, Some c) \<Rightarrow>
          Inr \<lparr>PolicyAction = ''like_mutation'', Rules = rate_rules [(a, 10 * go_second), (b, go_minute), (c, 24 * go_hour)]\<rparr>
      | _ \<Rightarrow> Inl (RateOther ''must be an integer between 1 and 1000000''))"

definition NewRedisLimiter :: "(string \<Rightarrow> string option) \<Rightarrow> rate_error + (rl_action \<rightharpoonup> rate_policy)" where
  "NewRedisLimiter env =
     (if \<not> ValidatePolicies Policies then Inl (ErrInvalidPolicy '''')
      else
        (case likeMutationPolicyFromEnvironment env of
           Inl e \<Rightarrow> Inl e
         | Inr p \<Rightarrow>
            (case validatePolicy p of
               Inl e \<Rightarrow> Inl e
             | Inr _ \<Rightarrow> Inr ((map_of Policies)(''like_mutation'' \<mapsto> p)))))"

section \<open>The script\<close>

definition not_integer :: string where "not_integer = ''ERR value is not an integer or out of range''"

text \<open>\<open>INCR\<close> of a string that is an integer of 64 bits; it keeps the expiry.\<close>

definition incr :: "rentry \<Rightarrow> string + int \<times> rentry" where
  "incr e =
     (case e of
        None \<Rightarrow> Inr (1, Some (RStr (show_int 1), None))
      | Some (RStr v, x) \<Rightarrow>
         (case lua_int (Some v) of
            None \<Rightarrow> Inl not_integer
          | Some n \<Rightarrow>
             if \<not> in_int64 n \<or> n = 2 ^ 63 - 1 then Inl not_integer else Inr (n + 1, Some (RStr (show_int (n + 1)), x)))
      | _ \<Rightarrow> Inl wrong_type)"

record rate_arg =
  ra_key :: string
  ra_limit :: int
  ra_retry :: int
  ra_ttl :: int

text \<open>The first loop: the rule that blocks for longest, with its index from one.\<close>

fun check_limits :: "rate_arg list \<Rightarrow> int \<Rightarrow> (int \<times> int) option \<Rightarrow> string redis \<Rightarrow> string + (int \<times> int) option" where
  "check_limits [] i blocked s = Inr blocked"
| "check_limits (a # as) i blocked s =
     (if \<not> type_ok TString (s (ra_key a)) then Inl wrong_type
      else
        (case lua_int (Some (case rget (s (ra_key a)) of None \<Rightarrow> ''0'' | Some v \<Rightarrow> v)) of
           None \<Rightarrow> Inl ''attempt to compare nil with number''
         | Some n \<Rightarrow>
            check_limits as (i + 1)
              (if n \<ge> ra_limit a \<and> (case blocked of None \<Rightarrow> True | Some (_, retry) \<Rightarrow> ra_retry a > retry)
               then Some (i, ra_retry a) else blocked) s))"

text \<open>The second loop: every counter is raised; the rule with the least left is reported.\<close>

fun count_limits :: "rate_arg list \<Rightarrow> int \<Rightarrow> (int \<times> int) option \<Rightarrow> int \<Rightarrow> string redis \<Rightarrow> string redis \<times> (string + (int \<times> int) option)" where
  "count_limits [] i effective srv s = (s, Inr effective)"
| "count_limits (a # as) i effective srv s =
     (case incr (s (ra_key a)) of
        Inl e \<Rightarrow> (s, Inl e)
      | Inr (n, e) \<Rightarrow>
         (let s = at_key (ra_key a) (\<lambda>_. expire srv (ra_ttl a) e) s; remaining = ra_limit a - n
          in count_limits as (i + 1)
               (case effective of
                  None \<Rightarrow> Some (i, remaining)
                | Some (_, least) \<Rightarrow> if remaining < least then Some (i, remaining) else effective) srv s))"

definition fixed_window_script :: "rate_arg list \<Rightarrow> int \<Rightarrow> string redis \<Rightarrow> string redis \<times> (int \<times> int \<times> int) res" where
  "fixed_window_script args srv s =
     (case check_limits args 1 None s of
        Inl e \<Rightarrow> (s, Inl e)
      | Inr (Some (i, _)) \<Rightarrow> (s, Inr (0, i, 0))
      | Inr None \<Rightarrow>
         (case count_limits args 1 None srv s of
            (s, Inl e) \<Rightarrow> (s, Inl e)
          | (s, Inr None) \<Rightarrow> (s, Inr (1, 0, 0))
          | (s, Inr (Some (i, remaining))) \<Rightarrow> (s, Inr (1, i, remaining))))"

section \<open>The limiter\<close>

definition redisCleanupBufferSeconds :: int where "redisCleanupBufferSeconds = 5"

definition ceilSeconds :: "int \<Rightarrow> int" where
  "ceilSeconds d =
     (let seconds = quot d go_second;
          seconds = (if d mod go_second \<noteq> 0 then seconds + 1 else seconds)
      in if seconds < 1 then 1 else seconds)"

definition window_seconds :: "int \<Rightarrow> int" where
  "window_seconds w = quot w go_second"

definition fixedWindowResetAt :: "int \<Rightarrow> int \<Rightarrow> int" where
  "fixedWindowResetAt now w = (quot (unix now) (window_seconds w) + 1) * window_seconds w * go_second"

definition rateLimitKey :: "string \<Rightarrow> rl_action \<Rightarrow> int \<Rightarrow> int \<Rightarrow> string" where
  "rateLimitKey subject action seconds wid =
     ''rl:v1:{user:'' @ subject @ ''}:'' @ action @ '':'' @ show_int seconds @ '':'' @ show_int wid"

definition rate_arg_of :: "string \<Rightarrow> rl_action \<Rightarrow> int \<Rightarrow> rate_rule \<Rightarrow> rate_arg" where
  "rate_arg_of subject action now rule =
     (let retry = ceilSeconds (time_sub (fixedWindowResetAt now (Window rule)) now)
      in \<lparr>ra_key = rateLimitKey subject action (window_seconds (Window rule)) (quot (unix now) (window_seconds (Window rule))),
          ra_limit = RuleLimit rule, ra_retry = retry, ra_ttl = retry + redisCleanupBufferSeconds\<rparr>)"

record rate_decision =
  Allowed :: bool
  DecisionLimit :: int
  Remaining :: int
  RetryAfter :: int
  ResetAt :: int

definition Allow ::
  "(rl_action \<rightharpoonup> rate_policy) \<Rightarrow> fault \<Rightarrow> string \<Rightarrow> rl_action \<Rightarrow> int \<Rightarrow> int \<Rightarrow> string redis \<Rightarrow>
   string redis \<times> (rate_error + rate_decision)" where
  "Allow policies f subject action now srv s =
     (case PolicyFor policies action of
        Inl e \<Rightarrow> (s, Inl e)
      | Inr p \<Rightarrow>
         (let subject = trim_space subject in
          if subject = '''' then (s, Inl (RateOther ''rate-limit subject is required''))
          else
            (case call f (fixed_window_script (map (rate_arg_of subject action now) (Rules p)) srv) (live srv s) of
               (s, Inl e) \<Rightarrow> (s, Inl (RateRedis e))
             | (s, Inr (allowed, i, remaining)) \<Rightarrow>
                (if i < 1 \<or> i > int (length (Rules p)) then (s, Inl (RateOther ''invalid rate limiter response''))
                 else
                   (let rule = Rules p ! nat (i - 1);
                        reset = fixedWindowResetAt now (Window rule);
                        wait = time_sub reset now
                    in (s, Inr \<lparr>Allowed = (allowed \<noteq> 0), DecisionLimit = RuleLimit rule,
                                Remaining = (if allowed = 0 then 0 else if remaining < 0 then 0 else remaining),
                                RetryAfter = (if allowed \<noteq> 0 then 0 else if wait \<le> 0 then go_second else wait),
                                ResetAt = reset\<rparr>))))))"

section \<open>What the script does\<close>

text \<open>The limiter's keys hold counters with an expiry.\<close>

definition counters :: "string redis \<Rightarrow> bool" where
  "counters s \<longleftrightarrow> (\<forall>k. s k = None \<or> (\<exists>c x. s k = Some (RStr (show_nat c), Some x)))"

lemma counters_live: "counters s \<Longrightarrow> counters (live srv s)"
  unfolding counters_def by (metis live_cases)

lemma expire_pos: "0 < n \<Longrightarrow> expire srv n (Some (v, x)) = Some (v, Some (srv + n * 1000))"
  by (simp add: expire_def pexpire_def)

lemma check_limits_pass:
  "check_limits as i b s = Inr None \<Longrightarrow> b = None \<and>
     (\<forall>a \<in> set as. \<exists>n. lua_int (Some (case rget (s (ra_key a)) of None \<Rightarrow> ''0'' | Some v \<Rightarrow> v)) = Some n \<and> n < ra_limit a)"
proof (induction as arbitrary: i b)
  case (Cons a as)
  let ?v = "lua_int (Some (case rget (s (ra_key a)) of None \<Rightarrow> ''0'' | Some v \<Rightarrow> v))"
  from Cons.prems obtain n where n: "?v = Some n" by (cases ?v) (simp_all split: if_splits)
  let ?b = "if n \<ge> ra_limit a \<and> (case b of None \<Rightarrow> True | Some (_, retry) \<Rightarrow> ra_retry a > retry) then Some (i, ra_retry a) else b"
  have "type_ok TString (s (ra_key a))" using Cons.prems by (simp split: if_splits)
  with Cons.prems n have "check_limits as (i + 1) ?b s = Inr None" by simp
  from Cons.IH [OF this] n show ?case by (auto split: if_splits)
qed simp

text \<open>A counter of the store after a raise.\<close>

lemma incr_counter:
  assumes "counters s" "incr (s k) = Inr (n, e)"
  shows "\<exists>c v. e = Some (RStr (show_nat c), v) \<and> n = int c \<and>
    (case s k of None \<Rightarrow> c = 1 | Some (RStr w, _) \<Rightarrow> \<exists>d. w = show_nat d \<and> c = d + 1 | _ \<Rightarrow> False)"
proof (cases "s k")
  case None
  with assms(2) show ?thesis by (auto simp: incr_def intro: exI [of _ 1])
next
  case (Some y)
  with assms(1) obtain d x where d: "s k = Some (RStr (show_nat d), Some x)" unfolding counters_def by (metis option.distinct(1))
  with assms(2) have "n = int d + 1" "e = Some (RStr (show_int (int d + 1)), Some x)"
    by (auto simp: incr_def split: if_splits)
  then show ?thesis using d by (intro exI [of _ "d + 1"]) (simp add: nat_add_distrib)
qed

definition stays :: "rate_arg list \<Rightarrow> int \<Rightarrow> string \<Rightarrow> rentry \<Rightarrow> rentry \<Rightarrow> bool" where
  "stays as srv k e e' \<longleftrightarrow>
     (\<forall>c x. e = Some (RStr (show_nat c), Some x) \<longrightarrow>
        (\<exists>c' x'. e' = Some (RStr (show_nat c'), Some x') \<and> c \<le> c' \<and>
           (x' = x \<or> (\<exists>a \<in> set as. ra_key a = k \<and> x' = srv + ra_ttl a * 1000))))"

definition raised :: "rate_arg list \<Rightarrow> int \<Rightarrow> string \<Rightarrow> rentry \<Rightarrow> rentry \<Rightarrow> bool" where
  "raised as srv k e e' \<longleftrightarrow>
     (\<exists>c' x'. e' = Some (RStr (show_nat c'), Some x') \<and> (\<exists>a \<in> set as. ra_key a = k \<and> x' = srv + ra_ttl a * 1000) \<and>
        1 \<le> c' \<and> (\<forall>c x. e = Some (RStr (show_nat c), x) \<longrightarrow> c + 1 \<le> c'))"

lemma stays_refl [simp]: "stays as srv k e e"
  by (auto simp: stays_def)

lemma stays_mono: "stays as srv k e e' \<Longrightarrow> set as \<subseteq> set bs \<Longrightarrow> stays bs srv k e e'"
  unfolding stays_def by blast

lemma raised_stays: "raised as srv k e e' \<Longrightarrow> stays as srv k e e'"
  unfolding raised_def stays_def by fastforce

lemma raised_then_stays: "raised as srv k e e' \<Longrightarrow> stays as srv k e' e'' \<Longrightarrow> raised as srv k e e''"
proof -
  assume r: "raised as srv k e e'" and s: "stays as srv k e' e''"
  from r obtain c x where e': "e' = Some (RStr (show_nat c), Some x)" "\<exists>a \<in> set as. ra_key a = k \<and> x = srv + ra_ttl a * 1000"
    "1 \<le> c" "\<forall>d x. e = Some (RStr (show_nat d), x) \<longrightarrow> d + 1 \<le> c" unfolding raised_def by blast
  from s [unfolded stays_def] e'(1) obtain c' x' where e'': "e'' = Some (RStr (show_nat c'), Some x')" "c \<le> c'"
    "x' = x \<or> (\<exists>a \<in> set as. ra_key a = k \<and> x' = srv + ra_ttl a * 1000)" by blast
  have "\<exists>a \<in> set as. ra_key a = k \<and> x' = srv + ra_ttl a * 1000" using e'(2) e''(3) by blast
  moreover have "1 \<le> c'" "\<forall>d x. e = Some (RStr (show_nat d), x) \<longrightarrow> d + 1 \<le> c'" using e'(3,4) e''(2) by (auto intro: order_trans)
  ultimately show "raised as srv k e e''" unfolding raised_def using e''(1) by blast
qed

lemma count_limits_effect:
  assumes "count_limits as i b srv s = (s', r)" "counters s" "\<forall>a \<in> set as. 0 < ra_ttl a"
  shows "counters s' \<and> (\<forall>k. stays as srv k (s k) (s' k)) \<and> (\<forall>e. r = Inr e \<longrightarrow> (\<forall>a \<in> set as. raised as srv (ra_key a) (s (ra_key a)) (s' (ra_key a))))"
  using assms
proof (induction as arbitrary: i b s)
  case (Cons a as)
  show ?case
  proof (cases "incr (s (ra_key a))")
    case (Inl e)
    with Cons.prems show ?thesis by auto
  next
    case (Inr y)
    then obtain n e where y: "incr (s (ra_key a)) = Inr (n, e)" by (cases y) auto
    from incr_counter [OF Cons.prems(2) y] obtain c v where e: "e = Some (RStr (show_nat c), v)"
      "case s (ra_key a) of None \<Rightarrow> c = 1 | Some (RStr w, _) \<Rightarrow> \<exists>d. w = show_nat d \<and> c = d + 1 | _ \<Rightarrow> False" by blast
    define s1 where "s1 = at_key (ra_key a) (\<lambda>_. expire srv (ra_ttl a) e) s"
    have s1: "s1 (ra_key a) = Some (RStr (show_nat c), Some (srv + ra_ttl a * 1000))"
      using Cons.prems(3) by (simp add: s1_def e expire_pos)
    have up: "raised [a] srv (ra_key a) (s (ra_key a)) (s1 (ra_key a))"
      using e(2) s1 by (auto simp: raised_def split: option.splits prod.splits rval.splits)
    have c1: "counters s1" using Cons.prems(2) s1 unfolding counters_def s1_def by (metis at_key_other)
    obtain b' where run: "count_limits as (i + 1) b' srv s1 = (s', r)"
      using Cons.prems(1) y by (simp add: s1_def Let_def)
    note IH = Cons.IH [OF run c1] Cons.prems(3)
    have st: "stays (a # as) srv k (s1 k) (s' k)" for k
      using IH by (auto intro: stays_mono)
    have upa: "raised (a # as) srv (ra_key a) (s (ra_key a)) (s1 (ra_key a))" using up unfolding raised_def by auto
    have "stays (a # as) srv k (s k) (s' k)" for k
    proof (cases "k = ra_key a")
      case True
      with raised_stays [OF raised_then_stays [OF upa st]] show ?thesis by simp
    next
      case False
      then show ?thesis using st [of k] by (simp add: s1_def)
    qed
    moreover have "raised (a # as) srv (ra_key x) (s (ra_key x)) (s' (ra_key x))" if "r = Inr z" "x \<in> set (a # as)" for x z
    proof (cases "ra_key x = ra_key a")
      case True
      with raised_then_stays [OF upa st] show ?thesis by simp
    next
      case False
      then have "raised as srv (ra_key x) (s1 (ra_key x)) (s' (ra_key x))" using that IH by auto
      then show ?thesis using False unfolding raised_def s1_def by auto
    qed
    ultimately show ?thesis using IH by auto
  qed
qed auto

section \<open>Windows and clocks\<close>

lemma show_int_no_colon: "CHR '':'' \<notin> set (show_int i)"
  using show_nat_no_sep [of "CHR '':''"] by (auto simp: show_int_def is_digit_def)

lemma show_int_inject [simp]: "show_int i = show_int j \<longleftrightarrow> i = j"
  by (metis lua_int_show option.inject)

lemma split_on_ne: "split_on c s \<noteq> []"
  by (cases s) (auto split: list.splits)

lemma split_last: "c \<notin> set b \<Longrightarrow> split_on c (a @ c # b) = split_on c a @ [b]"
  by (induction a) (auto simp: split_on_no_sep split_on_ne split: list.splits)

lemma rateLimitKey_window:
  assumes "rateLimitKey subject action seconds wid = rateLimitKey subject' action' seconds' wid'"
  shows "seconds = seconds' \<and> wid = wid'"
proof -
  have parts: "\<exists>p. split_on (CHR '':'') (rateLimitKey subject action seconds wid) = p @ [show_int seconds, show_int wid]"
    for subject action seconds wid
    using split_last [OF show_int_no_colon, of "''rl:v1:{user:'' @ subject @ ''}:'' @ action @ '':'' @ show_int seconds" wid]
      split_last [OF show_int_no_colon, of "''rl:v1:{user:'' @ subject @ ''}:'' @ action" seconds]
    by (simp add: rateLimitKey_def del: split_on.simps)
  show ?thesis using parts [of subject action seconds wid] parts [of subject' action' seconds' wid'] assms by auto
qed

text \<open>The whole seconds of a valid window, and the window an instant lies in.\<close>

lemma valid_window:
  assumes "rule_ok r" "in_int64 (Window r)"
  shows "Window r = window_seconds (Window r) * go_second" "0 < window_seconds (Window r)"
proof -
  have "Window r = Window r div go_second * go_second" "0 < Window r"
    using assms(1) div_mult_mod_eq [of "Window r" go_second] by (simp_all add: rule_ok_def)
  moreover have "window_seconds (Window r) = Window r div go_second"
    using calculation(2) by (simp add: window_seconds_def quot_def go_second_def)
  ultimately show "Window r = window_seconds (Window r) * go_second" "0 < window_seconds (Window r)"
    by (simp_all add: go_second_def)
qed

lemma in_window:
  assumes "0 < w" "0 \<le> now"
  shows "now < (quot (unix now) w + 1) * w * go_second" "(quot (unix now) w + 1) * w * go_second - now \<le> w * go_second"
proof -
  have u: "0 \<le> unix now" "now = unix now * go_second + now mod go_second" "0 \<le> now mod go_second" "now mod go_second < go_second"
    using assms(2) by (simp_all add: unix_def go_second_def)
  have q: "quot (unix now) w = unix now div w" using u(1) assms(1) by (cases "unix now = 0") (simp_all add: quot_def)
  have d: "unix now = unix now div w * w + unix now mod w" "0 \<le> unix now mod w" "unix now mod w < w"
    using assms(1) by simp_all
  have e: "(quot (unix now) w + 1) * w = unix now - unix now mod w + w" unfolding q using d(1) by (simp add: algebra_simps)
  have g: "0 < go_second" by (simp add: go_second_def)
  have "unix now + 1 \<le> (quot (unix now) w + 1) * w" using d(3) unfolding e by simp
  then have "(unix now + 1) * go_second \<le> (quot (unix now) w + 1) * w * go_second" using g by (intro mult_right_mono) simp_all
  then show "now < (quot (unix now) w + 1) * w * go_second" using u by (simp add: algebra_simps)
  have "(quot (unix now) w + 1) * w \<le> unix now + w" using d(2) unfolding e by simp
  then have "(quot (unix now) w + 1) * w * go_second \<le> (unix now + w) * go_second" using g by (intro mult_right_mono) simp_all
  moreover have "(unix now + w) * go_second = unix now * go_second + w * go_second" by (rule distrib_right)
  moreover have "unix now * go_second \<le> now" using u(2,3) by linarith
  ultimately show "(quot (unix now) w + 1) * w * go_second - now \<le> w * go_second" by linarith
qed

lemma ceilSeconds_ge: "d \<le> ceilSeconds d * go_second"
proof -
  have g: "0 < go_second" by (simp add: go_second_def)
  have dm: "d = d div go_second * go_second + d mod go_second" "0 \<le> d mod go_second" "d mod go_second < go_second"
    using g by simp_all
  show ?thesis
  proof (cases "d \<le> 0")
    case True
    have "1 \<le> ceilSeconds d" by (simp add: ceilSeconds_def Let_def)
    then have "0 \<le> ceilSeconds d * go_second" using g by simp
    with True show ?thesis by linarith
  next
    case False
    then have "quot d go_second = d div go_second" by (simp add: quot_def go_second_def)
    then have "d div go_second + (if d mod go_second \<noteq> 0 then 1 else 0) \<le> ceilSeconds d" by (simp add: ceilSeconds_def Let_def)
    then have "(d div go_second + (if d mod go_second \<noteq> 0 then 1 else 0)) * go_second \<le> ceilSeconds d * go_second"
      using g by (intro mult_right_mono) simp_all
    moreover have "d \<le> (d div go_second + (if d mod go_second \<noteq> 0 then 1 else 0)) * go_second"
    proof (cases "d mod go_second = 0")
      case False
      have "(d div go_second + 1) * go_second = d div go_second * go_second + go_second" by (simp add: distrib_right)
      then have "d \<le> (d div go_second + 1) * go_second" using dm by linarith
      then show ?thesis by (simp only: False not_False_eq_True if_True)
    qed (use dm in simp)
    ultimately show ?thesis by linarith
  qed
qed

text \<open>A client's clock is within two and a half seconds of the server's.\<close>

definition close_clock :: "int \<Rightarrow> int \<Rightarrow> bool" where
  "close_clock now srv \<longleftrightarrow> 0 \<le> now \<and> \<bar>now - srv * 1000000\<bar> \<le> 2500000000"

text \<open>
  The counter of a window that ends at \<open>end\<close> (in seconds) is kept at least until no close
  clock can be in the window any more.
\<close>

lemma counter_outlives_window:
  assumes "close_clock now srv" "0 < w" "in_int64 (w * go_second)"
    and ttl: "(quot (unix now) w + 1) * w * go_second - now \<le> (ttl - 5) * go_second"
  shows "(quot (unix now) w + 1) * w * 1000 + 2500 \<le> srv + ttl * 1000" "srv < (quot (unix now) w + 1) * w * 1000 + 2500"
proof -
  have "now < (quot (unix now) w + 1) * w * go_second" by (rule in_window(1)) (use assms in \<open>simp_all add: close_clock_def\<close>)
  then show "srv < (quot (unix now) w + 1) * w * 1000 + 2500"
    using assms(1) by (simp add: close_clock_def go_second_def abs_le_iff)
  show "(quot (unix now) w + 1) * w * 1000 + 2500 \<le> srv + ttl * 1000"
    using assms(1) ttl by (simp add: close_clock_def go_second_def abs_le_iff)
qed

section \<open>The limiter as a fixed window\<close>

text \<open>
  A call of \<open>Allow\<close> with the client's instant, the server's instant and its fate; the state
  is the clock of the server and the store. A window is a subject, an action, a rule of its
  policy and the number of the window.
\<close>

record rate_call =
  rc_subject :: string
  rc_action :: rl_action
  rc_now :: int
  rc_srv :: int
  rc_fault :: fault

type_synonym rate_state = "int \<times> string redis"
type_synonym rate_window = "string \<times> rl_action \<times> rate_rule \<times> int"

definition rate_op :: "(rl_action \<rightharpoonup> rate_policy) \<Rightarrow> rate_call \<Rightarrow> rate_state \<Rightarrow> rate_state \<times> bool" where
  "rate_op policies c st =
     (case Allow policies (rc_fault c) (rc_subject c) (rc_action c) (rc_now c) (rc_srv c) (snd st) of
        (s, r) \<Rightarrow> ((rc_srv c, s), case r of Inr d \<Rightarrow> Allowed d | Inl _ \<Rightarrow> False))"

definition rate_enabled :: "(rl_action \<rightharpoonup> rate_policy) \<Rightarrow> rate_call \<Rightarrow> rate_state \<Rightarrow> bool" where
  "rate_enabled policies c st \<longleftrightarrow> fst st \<le> rc_srv c \<and> close_clock (rc_now c) (rc_srv c) \<and>
     (\<forall>p \<in> ran policies. \<forall>r \<in> set (Rules p). in_int64 (Window r))"

fun rate_counts :: "(rl_action \<rightharpoonup> rate_policy) \<Rightarrow> rate_call \<Rightarrow> rate_window \<Rightarrow> bool" where
  "rate_counts policies c (subject, action, rule, wid) \<longleftrightarrow>
     trim_space (rc_subject c) = subject \<and> rc_action c = action \<and>
     (\<exists>p. PolicyFor policies action = Inr p \<and> rule \<in> set (Rules p)) \<and>
     quot (unix (rc_now c)) (window_seconds (Window rule)) = wid"

fun rate_quota :: "rate_window \<Rightarrow> nat" where
  "rate_quota (subject, action, rule, wid) = nat (RuleLimit rule)"

fun window_key :: "rate_window \<Rightarrow> string" where
  "window_key (subject, action, rule, wid) = rateLimitKey subject action (window_seconds (Window rule)) wid"

text \<open>The instant of the server from which no close clock is in the window.\<close>

fun window_over :: "rate_window \<Rightarrow> int" where
  "window_over (subject, action, rule, wid) = (wid + 1) * window_seconds (Window rule) * 1000 + 2500"

definition rate_counted :: "rate_window \<Rightarrow> rate_state \<Rightarrow> nat \<Rightarrow> bool" where
  "rate_counted k st n \<longleftrightarrow> counters (snd st) \<and>
     (n = 0 \<or> window_over k \<le> fst st \<or>
      (\<exists>c x. snd st (window_key k) = Some (RStr (show_nat c), Some x) \<and> n \<le> c \<and> window_over k \<le> x))"

lemma Allow_store:
  assumes "Allow policies f subject action now srv s = (s', r)"
  shows "s' = s \<or> s' = live srv s \<or>
    (\<exists>p r. PolicyFor policies action = Inr p \<and>
       count_limits (map (rate_arg_of (trim_space subject) action now) (Rules p)) 1 None srv (live srv s) = (s', r))"
proof (cases "PolicyFor policies action")
  case (Inr p)
  let ?op = "fixed_window_script (map (rate_arg_of (trim_space subject) action now) (Rules p)) srv"
  show ?thesis
  proof (cases "trim_space subject = []")
    case False
    obtain y where "call f ?op (live srv s) = (s', y)"
      using assms Inr False unfolding Allow_def Let_def by (auto split: prod.splits sum.splits if_splits)
    then have "s' = live srv s \<or> s' = fst (?op (live srv s))" by (rule call_effect)
    then show ?thesis
      using Inr by (auto simp: fixed_window_script_def split: sum.splits option.splits prod.splits)
  qed (use assms Inr in \<open>simp add: Allow_def\<close>)
qed (use assms in \<open>simp add: Allow_def\<close>)

lemma Allow_allowed:
  assumes "Allow policies f subject action now srv s = (s', Inr d)" "Allowed d"
  obtains p e where "PolicyFor policies action = Inr p"
    "check_limits (map (rate_arg_of (trim_space subject) action now) (Rules p)) 1 None (live srv s) = Inr None"
    "count_limits (map (rate_arg_of (trim_space subject) action now) (Rules p)) 1 None srv (live srv s) = (s', Inr e)"
proof (cases "PolicyFor policies action")
  case (Inr p)
  let ?args = "map (rate_arg_of (trim_space subject) action now) (Rules p)"
  obtain i rem a where "call f (fixed_window_script ?args srv) (live srv s) = (s', Inr (a, i, rem))" "a \<noteq> 0"
    using assms Inr unfolding Allow_def Let_def by (auto split: prod.splits sum.splits if_splits)
  from call_Inr [OF this(1)] this(2) show thesis
    using that [OF Inr] unfolding fixed_window_script_def by (auto split: sum.splits option.splits prod.splits)
qed (use assms in \<open>simp add: Allow_def\<close>)

lemma PolicyFor_rules:
  assumes "PolicyFor policies action = Inr p" "r \<in> set (Rules p)"
  shows "rule_ok r" "p \<in> ran policies"
  using assms by (auto simp: PolicyFor_def validatePolicy_def list_all_iff ran_def split: option.splits sum.splits if_splits)

text \<open>The arguments of a call whose key is that of a window keep the counter long enough.\<close>

lemma rate_arg_window:
  assumes p: "PolicyFor policies action = Inr p" "rule \<in> set (Rules p)" "in_int64 (Window rule)" and clock: "close_clock now srv"
    and key: "ra_key (rate_arg_of subject action now rule) = window_key k"
  shows "window_over k \<le> srv + ra_ttl (rate_arg_of subject action now rule) * 1000" "srv < window_over k"
    "0 < ra_ttl (rate_arg_of subject action now rule)"
proof -
  obtain subject' action' rule' wid where k: "k = (subject', action', rule', wid)" by (cases k) auto
  let ?w = "window_seconds (Window rule)" and ?wid = "quot (unix now) (window_seconds (Window rule))"
  have w: "Window rule = ?w * go_second" "0 < ?w" by (rule valid_window [OF PolicyFor_rules(1) [OF p(1,2)] p(3)])+
  have same: "?w = window_seconds (Window rule')" "?wid = wid"
    using key rateLimitKey_window unfolding k by (auto simp: rate_arg_of_def Let_def)
  then have over: "window_over k = (?wid + 1) * ?w * 1000 + 2500" by (simp add: k)
  have now: "0 \<le> now" using clock by (simp add: close_clock_def)
  have reset: "fixedWindowResetAt now (Window rule) = (?wid + 1) * ?w * go_second" by (simp add: fixedWindowResetAt_def)
  have sub: "time_sub (fixedWindowResetAt now (Window rule)) now = (?wid + 1) * ?w * go_second - now"
    using in_window [OF w(2) now] p(3) unfolding reset time_sub_def in_int64_def w(1) [symmetric] by simp
  have ttl: "ra_ttl (rate_arg_of subject action now rule) = ceilSeconds ((?wid + 1) * ?w * go_second - now) + 5"
    by (simp add: rate_arg_of_def Let_def sub redisCleanupBufferSeconds_def)
  have "(?wid + 1) * ?w * go_second - now \<le> (ra_ttl (rate_arg_of subject action now rule) - 5) * go_second"
    unfolding ttl using ceilSeconds_ge by simp
  from counter_outlives_window [OF clock w(2) _ this] p(3) w(1)
  show "window_over k \<le> srv + ra_ttl (rate_arg_of subject action now rule) * 1000" "srv < window_over k"
    unfolding over by simp_all
  show "0 < ra_ttl (rate_arg_of subject action now rule)" unfolding ttl by (simp add: ceilSeconds_def Let_def)
qed

lemma rate_args_ttl:
  assumes "rate_enabled policies c st" "PolicyFor policies (rc_action c) = Inr p"
    and "a \<in> set (map (rate_arg_of subject (rc_action c) (rc_now c)) (Rules p))"
  shows "0 < ra_ttl a" "ra_key a = window_key k \<Longrightarrow> window_over k \<le> rc_srv c + ra_ttl a * 1000"
proof -
  obtain rule where r: "rule \<in> set (Rules p)" "a = rate_arg_of subject (rc_action c) (rc_now c) rule" using assms(3) by auto
  have fit: "in_int64 (Window rule)" and clock: "close_clock (rc_now c) (rc_srv c)"
    using assms(1) PolicyFor_rules(2) [OF assms(2) r(1)] r(1) by (auto simp: rate_enabled_def)
  have "ra_key (rate_arg_of subject (rc_action c) (rc_now c) rule) =
      window_key (subject, rc_action c, rule, quot (unix (rc_now c)) (window_seconds (Window rule)))"
    by (simp add: rate_arg_of_def Let_def)
  from rate_arg_window(3) [OF assms(2) r(1) fit clock this] show "0 < ra_ttl a" by (simp add: r(2))
  show "window_over k \<le> rc_srv c + ra_ttl a * 1000" if "ra_key a = window_key k"
    using rate_arg_window(1) [OF assms(2) r(1) fit clock] that by (simp add: r(2))
qed

lemma rate_counted_live:
  assumes "rate_counted k st n" "fst st \<le> srv"
  shows "rate_counted k (srv, live srv (snd st)) n"
proof -
  have "counters (live srv (snd st))" using assms(1) counters_live unfolding rate_counted_def by blast
  moreover have "live srv (snd st) (window_key k) = snd st (window_key k)"
    if "snd st (window_key k) = Some (v, Some x)" "window_over k \<le> x" "srv < window_over k" for v x
    using that by (simp add: live_def)
  ultimately show ?thesis using assms unfolding rate_counted_def by (cases "window_over k \<le> srv") auto
qed

lemma rate_counted_stays:
  assumes "rate_counted k (srv, s) n" "counters s'" "stays as srv (window_key k) (s (window_key k)) (s' (window_key k))"
    and "\<And>a. a \<in> set as \<Longrightarrow> ra_key a = window_key k \<Longrightarrow> window_over k \<le> srv + ra_ttl a * 1000"
  shows "rate_counted k (srv, s') n"
  using assms(1) unfolding rate_counted_def
proof (elim conjE disjE exE)
  fix c x assume e: "snd (srv, s) (window_key k) = Some (RStr (show_nat c), Some x)" "n \<le> c" "window_over k \<le> x"
  with assms(3) obtain c' x' where "s' (window_key k) = Some (RStr (show_nat c'), Some x')" "c \<le> c'"
    "x' = x \<or> (\<exists>a \<in> set as. ra_key a = window_key k \<and> x' = srv + ra_ttl a * 1000)" unfolding stays_def by auto
  moreover from this(3) have "window_over k \<le> x'" using e(3) assms(4) by blast
  ultimately show "counters (snd (srv, s')) \<and> (n = 0 \<or> window_over k \<le> fst (srv, s') \<or>
      (\<exists>c x. snd (srv, s') (window_key k) = Some (RStr (show_nat c), Some x) \<and> n \<le> c \<and> window_over k \<le> x))"
    using assms(2) e(2) by auto
qed (use assms(2) in auto)

lemma rate_keeps:
  assumes on: "rate_enabled policies c st" and run: "rate_op policies c st = (st', a)" and n: "rate_counted k st n"
  shows "rate_counted k st' n"
proof -
  obtain s' r where al: "Allow policies (rc_fault c) (rc_subject c) (rc_action c) (rc_now c) (rc_srv c) (snd st) = (s', r)"
    by fastforce
  have st': "st' = (rc_srv c, s')" using run al by (simp add: rate_op_def)
  have later: "fst st \<le> rc_srv c" using on by (simp add: rate_enabled_def)
  have live: "rate_counted k (rc_srv c, live (rc_srv c) (snd st)) n" by (rule rate_counted_live [OF n later])
  from Allow_store [OF al] show ?thesis
  proof (elim disjE exE conjE)
    assume "s' = snd st"
    then show ?thesis using n later unfolding st' rate_counted_def by auto
  next
    assume "s' = live (rc_srv c) (snd st)"
    then show ?thesis using live st' by simp
  next
    fix p r' assume p: "PolicyFor policies (rc_action c) = Inr p"
      and script: "count_limits (map (rate_arg_of (trim_space (rc_subject c)) (rc_action c) (rc_now c)) (Rules p)) 1 None (rc_srv c)
        (live (rc_srv c) (snd st)) = (s', r')"
    have "counters (live (rc_srv c) (snd st))" using live by (simp add: rate_counted_def)
    from count_limits_effect [OF script this] rate_args_ttl(1) [OF on p]
    have "counters s'" "\<forall>k. stays (map (rate_arg_of (trim_space (rc_subject c)) (rc_action c) (rc_now c)) (Rules p)) (rc_srv c) k
      (live (rc_srv c) (snd st) k) (s' k)" by auto
    then show ?thesis
      unfolding st' using rate_counted_stays [OF live] rate_args_ttl(2) [OF on p] by blast
  qed
qed

lemma rate_admits:
  assumes on: "rate_enabled policies c st" and run: "rate_op policies c st = (st', True)" and use: "rate_counts policies c k"
    and n: "rate_counted k st n"
  shows "n < rate_quota k \<and> rate_counted k st' (n + 1)"
proof -
  obtain subject action rule wid where k: "k = (subject, action, rule, wid)" by (cases k) auto
  let ?L = "live (rc_srv c) (snd st)"
  obtain s' d where al: "Allow policies (rc_fault c) (rc_subject c) (rc_action c) (rc_now c) (rc_srv c) (snd st) = (s', Inr d)"
    "Allowed d" "st' = (rc_srv c, s')"
    using run by (auto simp: rate_op_def split: prod.splits sum.splits)
  have c: "trim_space (rc_subject c) = subject" "rc_action c = action" "quot (unix (rc_now c)) (window_seconds (Window rule)) = wid"
    using use by (simp_all add: k)
  from use obtain p where p: "PolicyFor policies (rc_action c) = Inr p" "rule \<in> set (Rules p)" by (auto simp: k)
  let ?args = "map (rate_arg_of (trim_space (rc_subject c)) (rc_action c) (rc_now c)) (Rules p)"
  from Allow_allowed [OF al(1,2)] p(1) obtain e where
    check: "check_limits ?args 1 None ?L = Inr None" and count: "count_limits ?args 1 None (rc_srv c) ?L = (s', Inr e)"
    by (metis sum.inject(2))
  let ?a = "rate_arg_of (trim_space (rc_subject c)) (rc_action c) (rc_now c) rule"
  have a: "?a \<in> set ?args" "ra_key ?a = window_key k" "ra_limit ?a = RuleLimit rule"
    using p(2) c by (auto simp: rate_arg_of_def Let_def k)
  have fit: "in_int64 (Window rule)" and clock: "close_clock (rc_now c) (rc_srv c)"
    using on PolicyFor_rules(2) [OF p] p(2) by (auto simp: rate_enabled_def)
  have open_window: "rc_srv c < window_over k" by (rule rate_arg_window(2) [OF p fit clock a(2)])
  have later: "fst st \<le> rc_srv c" using on by (simp add: rate_enabled_def)
  have live: "rate_counted k (rc_srv c, ?L) n" by (rule rate_counted_live [OF n later])
  then have L: "counters ?L" by (simp add: rate_counted_def)
  from check_limits_pass [OF check] a(1) obtain m where
    m: "lua_int (Some (case rget (?L (window_key k)) of None \<Rightarrow> ''0'' | Some v \<Rightarrow> v)) = Some m" "m < RuleLimit rule"
    unfolding a(2,3) [symmetric] by blast
  have "0 < RuleLimit rule" using PolicyFor_rules(1) [OF p] by (simp add: rule_ok_def)
  moreover have below: "int n < RuleLimit rule" if "0 < n"
  proof -
    from live that open_window obtain d x where "?L (window_key k) = Some (RStr (show_nat d), Some x)" "n \<le> d"
      by (auto simp: rate_counted_def)
    with m show ?thesis by simp
  qed
  ultimately have quota: "n < rate_quota k" by (cases "n = 0") (auto simp: k)
  from count_limits_effect [OF count L] rate_args_ttl(1) [OF on p(1)] a
  have s': "counters s'" "raised ?args (rc_srv c) (window_key k) (?L (window_key k)) (s' (window_key k))" by auto
  from s'(2) obtain d x where d: "s' (window_key k) = Some (RStr (show_nat d), Some x)"
    "\<exists>b \<in> set ?args. ra_key b = window_key k \<and> x = rc_srv c + ra_ttl b * 1000" "1 \<le> d"
    "\<forall>c x. ?L (window_key k) = Some (RStr (show_nat c), x) \<longrightarrow> c + 1 \<le> d" unfolding raised_def by blast
  have "window_over k \<le> x" using d(2) rate_args_ttl(2) [OF on p(1)] by blast
  moreover have "n + 1 \<le> d"
  proof (cases "n = 0")
    case False
    with live open_window obtain b y where "?L (window_key k) = Some (RStr (show_nat b), Some y)" "n \<le> b"
      by (auto simp: rate_counted_def)
    with d(4) show ?thesis by fastforce
  qed (use d(3) in simp)
  ultimately have "rate_counted k st' (n + 1)" using s'(1) d(1) unfolding al(3) rate_counted_def by auto
  with quota show ?thesis by blast
qed

interpretation rate: fixed_window "rate_op policies" "rate_enabled policies" "rate_counts policies" rate_quota rate_counted
  by unfold_locales (use rate_keeps rate_admits in blast)+

text \<open>
  C27. No user exceeds a quota. Whatever calls of any clients reach the limiter in whatever order
  and whichever fail, for every subject, action and rule, at most \<open>limit\<close> calls whose client
  saw the same window are admitted, as long as the clients' clocks stay within two and a half
  seconds of the server's: then no counter expires while its window is open.
\<close>

theorem rate_limit_holds:
  fixes policies :: "rl_action \<rightharpoonup> rate_policy" and window :: rate_window
  assumes "run_calls (rate_op policies) calls (now, \<lambda>_. None) = (st, admitted)"
    and "all_enabled (rate_op policies) (rate_enabled policies) calls (now, \<lambda>_. None)"
  shows "admissions (rate_counts policies) window calls admitted \<le> rate_quota window"
  using rate.admissions_bounded [OF assms, of window 0] by (simp add: rate_counted_def counters_def)

section \<open>What a denial says\<close>

text \<open>A rule of a call whose counter has reached the limit.\<close>

definition exhausted :: "string redis \<Rightarrow> rate_arg \<Rightarrow> bool" where
  "exhausted s a \<longleftrightarrow>
     (\<exists>n. lua_int (Some (case rget (s (ra_key a)) of None \<Rightarrow> ''0'' | Some v \<Rightarrow> v)) = Some n \<and> ra_limit a \<le> n)"

lemma check_limits_block:
  "check_limits as i b s = Inr (Some (j, rt)) \<Longrightarrow>
     (\<forall>a \<in> set as. exhausted s a \<longrightarrow> ra_retry a \<le> rt) \<and>
     (b = Some (j, rt) \<or> (\<exists>m < length as. j = i + int m \<and> exhausted s (as ! m) \<and> rt = ra_retry (as ! m))) \<and>
     (\<forall>x r. b = Some (x, r) \<longrightarrow> r \<le> rt)"
proof (induction as arbitrary: i b)
  case (Cons a as)
  let ?v = "lua_int (Some (case rget (s (ra_key a)) of None \<Rightarrow> ''0'' | Some v \<Rightarrow> v))"
  from Cons.prems obtain n where n: "?v = Some n" by (cases ?v) (simp_all split: if_splits)
  define b' where "b' = (if n \<ge> ra_limit a \<and> (case b of None \<Rightarrow> True | Some (_, retry) \<Rightarrow> ra_retry a > retry) then Some (i, ra_retry a) else b)"
  have "type_ok TString (s (ra_key a))" using Cons.prems by (simp split: if_splits)
  with Cons.prems n have "check_limits as (i + 1) b' s = Inr (Some (j, rt))" by (simp add: b'_def)
  note IH = Cons.IH [OF this]
  have full: "exhausted s a \<longleftrightarrow> ra_limit a \<le> n" using n by (auto simp: exhausted_def)
  have a: "exhausted s a \<longrightarrow> ra_retry a \<le> rt"
    using IH unfolding full b'_def by (fastforce split: option.splits if_splits)
  have old: "\<forall>x r. b = Some (x, r) \<longrightarrow> r \<le> rt"
    using IH unfolding b'_def by (fastforce split: option.splits if_splits)
  have "b = Some (j, rt) \<or> (\<exists>m < length (a # as). j = i + int m \<and> exhausted s ((a # as) ! m) \<and> rt = ra_retry ((a # as) ! m))"
    using IH
  proof (elim conjE disjE exE)
    assume "b' = Some (j, rt)"
    then show ?thesis using full unfolding b'_def by (auto split: if_splits intro: exI [of _ 0])
  next
    fix m assume "m < length as" "j = i + 1 + int m" "exhausted s (as ! m)" "rt = ra_retry (as ! m)"
    then show ?thesis by (intro disjI2 exI [of _ "Suc m"]) simp
  qed
  with IH a old show ?case by simp
qed simp

text \<open>
  C28. A denied call consumes nothing: the store is as it was. It names a rule that is used up,
  the one that takes longest to open again, and asks the client to wait until that rule's
  window ends, at most the length of the window.
\<close>

theorem denied_call_consumes_nothing:
  fixes policies :: "rl_action \<rightharpoonup> rate_policy"
  assumes run: "Allow policies f subject action now srv s = (s', Inr d)" and denied: "\<not> Allowed d"
    and now: "0 \<le> now" and fit: "\<forall>p \<in> ran policies. \<forall>r \<in> set (Rules p). in_int64 (Window r)"
  shows "s' = live srv s \<and> Remaining d = 0 \<and>
    (\<exists>p rule. PolicyFor policies action = Inr p \<and> rule \<in> set (Rules p) \<and>
       exhausted s' (rate_arg_of (trim_space subject) action now rule) \<and>
       (\<forall>r \<in> set (Rules p). exhausted s' (rate_arg_of (trim_space subject) action now r) \<longrightarrow>
          ra_retry (rate_arg_of (trim_space subject) action now r) \<le> ra_retry (rate_arg_of (trim_space subject) action now rule)) \<and>
       DecisionLimit d = RuleLimit rule \<and> ResetAt d = now + RetryAfter d \<and> 0 < RetryAfter d \<and> RetryAfter d \<le> Window rule)"
proof (cases "PolicyFor policies action")
  case (Inr p)
  let ?args = "map (rate_arg_of (trim_space subject) action now) (Rules p)"
  obtain i rem where c: "call f (fixed_window_script ?args srv) (live srv s) = (s', Inr (0, i, rem))"
    and i: "\<not> (i < 1 \<or> i > int (length (Rules p)))"
    and d: "d = \<lparr>Allowed = False, DecisionLimit = RuleLimit (Rules p ! nat (i - 1)), Remaining = 0,
       RetryAfter = (if time_sub (fixedWindowResetAt now (Window (Rules p ! nat (i - 1)))) now \<le> 0 then go_second
         else time_sub (fixedWindowResetAt now (Window (Rules p ! nat (i - 1)))) now),
       ResetAt = fixedWindowResetAt now (Window (Rules p ! nat (i - 1)))\<rparr>"
    using run denied Inr unfolding Allow_def Let_def by (auto split: prod.splits sum.splits if_splits)
  from call_Inr [OF c] obtain rt where blocked: "check_limits ?args 1 None (live srv s) = Inr (Some (i, rt))" and s': "s' = live srv s"
    unfolding fixed_window_script_def by (auto split: sum.splits option.splits prod.splits)
  from check_limits_block [OF blocked] obtain m where m: "m < length ?args" "i = 1 + int m" "exhausted s' (?args ! m)"
    "rt = ra_retry (?args ! m)" "\<forall>a \<in> set ?args. exhausted s' a \<longrightarrow> ra_retry a \<le> rt" unfolding s' by auto
  define rule where "rule = Rules p ! m"
  have rule: "rule \<in> set (Rules p)" "Rules p ! nat (i - 1) = rule" using m(1,2) by (simp_all add: rule_def)
  have w: "Window rule = window_seconds (Window rule) * go_second" "0 < window_seconds (Window rule)"
    using valid_window [OF PolicyFor_rules(1) [OF Inr rule(1)]] fit PolicyFor_rules(2) [OF Inr rule(1)] rule(1) by blast+
  let ?reset = "fixedWindowResetAt now (Window rule)"
  have r: "now < ?reset" "?reset - now \<le> Window rule"
    using in_window [OF w(2) now] w(1) unfolding fixedWindowResetAt_def by simp_all
  have "in_int64 (Window rule)" using fit PolicyFor_rules(2) [OF Inr rule(1)] rule(1) by blast
  then have sub: "time_sub ?reset now = ?reset - now" using r by (simp add: time_sub_def in_int64_def)
  have args: "?args ! m = rate_arg_of (trim_space subject) action now rule" using m(1) by (simp add: rule_def)
  show ?thesis
    using Inr rule m(3,5) r unfolding m(4) args by (auto simp: s' d sub)
qed (use run in \<open>simp add: Allow_def\<close>)

section \<open>Authentication attempts\<close>

text \<open>The actions, with their window and the limits per address and per subject.\<close>

record attempt_policy =
  AttemptWindow :: int
  IPLimit :: int
  SubjectLimit :: int

definition attemptPolicies :: "(string \<times> attempt_policy) list" where
  "attemptPolicies = map (\<lambda>(a, w, i, j). (a, \<lparr>AttemptWindow = w, IPLimit = i, SubjectLimit = j\<rparr>))
     [(''login'', go_minute, 30, 5), (''register'', 10 * go_minute, 10, 3), (''refresh'', go_minute, 60, 20),
      (''logout'', go_minute, 60, 20), (''change_password'', go_minute, 30, 5)]"

definition attemptKey :: "string \<Rightarrow> string \<Rightarrow> string \<Rightarrow> int \<Rightarrow> string" where
  "attemptKey action bucket digest wid =
     ''auth:attempts:v1:'' @ action @ '':'' @ bucket @ '':'' @ digest @ '':'' @ show_int wid"

definition bump :: "int \<Rightarrow> int \<Rightarrow> string \<Rightarrow> string redis \<Rightarrow> string redis \<times> (string + int)" where
  "bump srv ttl k s =
     (case incr (s k) of
        Inl e \<Rightarrow> (s, Inl e)
      | Inr (n, e) \<Rightarrow>
         (let s = at_key k (\<lambda>_. e) s in (if n = 1 then at_key k (expire srv ttl) s else s, Inr n)))"

definition attempt_counter_script :: "string \<Rightarrow> string \<Rightarrow> int \<Rightarrow> int \<Rightarrow> string redis \<Rightarrow> string redis \<times> (int \<times> int) res" where
  "attempt_counter_script ip_key subject_key ttl srv s =
     (case bump srv ttl ip_key s of
        (s, Inl e) \<Rightarrow> (s, Inl e)
      | (s, Inr ip) \<Rightarrow>
         (case bump srv ttl subject_key s of
            (s, Inl e) \<Rightarrow> (s, Inl e)
          | (s, Inr subject) \<Rightarrow> (s, Inr (ip, subject))))"

definition normalizeAttemptSubject :: "(string \<Rightarrow> string) \<Rightarrow> string \<Rightarrow> string \<Rightarrow> string" where
  "normalizeAttemptSubject to_lower action subject =
     (if action = ''login'' \<or> action = ''register'' then to_lower (trim_space subject) else trim_space subject)"

definition retryAfterForWindow :: "int \<Rightarrow> int \<Rightarrow> int" where
  "retryAfterForWindow now window =
     (let seconds = quot window go_second;
          boundary = (quot (unix now) seconds + 1) * seconds * go_second;
          wait = time_sub boundary now
      in if wait < go_second then go_second else if wait > window then window else wait)"

definition RetryAfterSeconds :: "string \<Rightarrow> int \<Rightarrow> int" where
  "RetryAfterSeconds action retry =
     (case map_of attemptPolicies action of
        None \<Rightarrow> 1
      | Some p \<Rightarrow>
         (let seconds = quot retry go_second;
              seconds = (if retry mod go_second \<noteq> 0 then seconds + 1 else seconds);
              seconds = (if seconds < 1 then 1 else seconds);
              max_seconds = quot (AttemptWindow p) go_second
          in if seconds > max_seconds then max_seconds else seconds))"

text \<open>
  \<open>Allow\<close> of the attempt limiter: \<open>parse_ip\<close> is \<open>net.ParseIP\<close> with its canonical text,
  \<open>digest\<close> SHA-256 in hexadecimal.
\<close>

record attempt_env =
  ae_parse_ip :: "string \<Rightarrow> string option"
  ae_to_lower :: "string \<Rightarrow> string"
  ae_digest :: "string \<Rightarrow> string"

record attempt_call =
  at_action :: string
  at_ip :: string
  at_subject :: string
  at_now :: int
  at_srv :: int
  at_fault :: fault

definition attempt_keys :: "attempt_env \<Rightarrow> string \<Rightarrow> string \<Rightarrow> attempt_call \<Rightarrow> int \<Rightarrow> string \<times> string" where
  "attempt_keys env ip subject c seconds =
     (attemptKey (at_action c) ''ip'' (ae_digest env ip) (quot (unix (at_now c)) seconds),
      attemptKey (at_action c) ''subject'' (ae_digest env subject) (quot (unix (at_now c)) seconds))"

definition AllowAttempt :: "attempt_env \<Rightarrow> attempt_call \<Rightarrow> string redis \<Rightarrow> string redis \<times> (rate_error + bool \<times> int)" where
  "AllowAttempt env c s =
     (case map_of attemptPolicies (at_action c) of
        None \<Rightarrow> (s, Inl (RateOther ''unsupported authentication attempt action''))
      | Some p \<Rightarrow>
         (case ae_parse_ip env (trim_space (at_ip c)) of
            None \<Rightarrow> (s, Inl (RateOther ''invalid authentication client IP''))
          | Some ip \<Rightarrow>
             (let seconds = quot (AttemptWindow p) go_second;
                  (ip_key, subject_key) =
                    attempt_keys env ip (normalizeAttemptSubject (ae_to_lower env) (at_action c) (at_subject c)) c seconds
              in case call (at_fault c) (attempt_counter_script ip_key subject_key (seconds + 5) (at_srv c)) (live (at_srv c) s) of
                   (s, Inl e) \<Rightarrow> (s, Inl (RateRedis e))
                 | (s, Inr (ip_count, subject_count)) \<Rightarrow>
                    (s, Inr (if ip_count \<le> IPLimit p \<and> subject_count \<le> SubjectLimit p then (True, 0)
                             else (False, retryAfterForWindow (at_now c) (AttemptWindow p)))))))"

text \<open>A counter that is raised: a new one lives for \<open>ttl\<close> seconds, an old one keeps its expiry.\<close>

lemma bump_effect:
  assumes "bump srv ttl k s = (s', r)" "counters s" "0 < ttl"
  shows "counters s' \<and> (\<forall>k'. k' \<noteq> k \<longrightarrow> s' k' = s k') \<and>
    (s k = None \<longrightarrow> s' k = Some (RStr (show_nat 1), Some (srv + ttl * 1000)) \<and> r = Inr 1) \<and>
    (\<forall>c x. s k = Some (RStr (show_nat c), x) \<longrightarrow> s' k = Some (RStr (show_nat (c + 1)), x) \<and> r = Inr (int (c + 1)) \<or>
       c = 0 \<and> s' k = Some (RStr (show_nat 1), Some (srv + ttl * 1000)) \<and> r = Inr 1 \<or> (\<exists>e. s' = s \<and> r = Inl e))"
proof (cases "incr (s k)")
  case (Inl e)
  moreover from this have "s k \<noteq> None" by (cases "s k") (simp_all add: incr_def)
  ultimately have "s' = s" "r = Inl e" "s k \<noteq> None" using assms(1) by (simp_all add: bump_def del: not_None_eq)
  then show ?thesis using assms(2) by auto
next
  case (Inr y)
  then obtain n e where y: "incr (s k) = Inr (n, e)" by (cases y) auto
  have s': "s' = (if n = 1 then at_key k (expire srv ttl) (at_key k (\<lambda>_. e) s) else at_key k (\<lambda>_. e) s)" "r = Inr n"
    using assms(1) y by (auto simp: bump_def Let_def)
  from incr_counter [OF assms(2) y] obtain c v where c: "e = Some (RStr (show_nat c), v)" "n = int c"
    "case s k of None \<Rightarrow> c = 1 | Some (RStr w, _) \<Rightarrow> \<exists>d. w = show_nat d \<and> c = d + 1 | _ \<Rightarrow> False" by blast
  have other: "s' k' = s k'" if "k' \<noteq> k" for k' using that by (simp add: s')
  show ?thesis
  proof (cases "s k")
    case None
    with c have e: "s' k = Some (RStr (show_nat 1), Some (srv + ttl * 1000))" "r = Inr 1"
      using s' assms(3) by (simp_all add: expire_pos)
    then have "counters s'" using assms(2) other unfolding counters_def by metis
    with e other None show ?thesis by simp
  next
    case (Some z)
    with assms(2) obtain d x where d: "s k = Some (RStr (show_nat d), Some x)" unfolding counters_def by (metis option.distinct(1))
    then have cd: "c = d + 1" using c(3) by simp
    have "e = Some (RStr (show_nat (d + 1)), Some x)"
      using y unfolding d incr_def by (auto simp: nat_add_distrib split: if_splits)
    then have "s' k = (if d = 0 then Some (RStr (show_nat 1), Some (srv + ttl * 1000)) else Some (RStr (show_nat (d + 1)), Some x))"
      using s' c(2) cd assms(3) by (simp add: expire_pos)
    moreover from this have "counters s'" using assms(2) other unfolding counters_def by (metis (full_types))
    ultimately show ?thesis using other d s'(2) c(2) cd by auto
  qed
qed

section \<open>The attempt limiter as a fixed window\<close>

text \<open>A window: an action, a bucket with the digest of its value, and the number of the window.\<close>

type_synonym attempt_window = "string \<times> string \<times> string \<times> int"

definition attempt_op :: "attempt_env \<Rightarrow> attempt_call \<Rightarrow> rate_state \<Rightarrow> rate_state \<times> bool" where
  "attempt_op env c st =
     (case AllowAttempt env c (snd st) of
        (s, r) \<Rightarrow> ((at_srv c, s), case r of Inr (a, _) \<Rightarrow> a | Inl _ \<Rightarrow> False))"

definition attempt_enabled :: "attempt_call \<Rightarrow> rate_state \<Rightarrow> bool" where
  "attempt_enabled c st \<longleftrightarrow> fst st \<le> at_srv c \<and> close_clock (at_now c) (at_srv c)"

definition attempt_seconds :: "string \<Rightarrow> int" where
  "attempt_seconds action = (case map_of attemptPolicies action of None \<Rightarrow> 1 | Some p \<Rightarrow> quot (AttemptWindow p) go_second)"

fun attempt_counts :: "attempt_env \<Rightarrow> attempt_call \<Rightarrow> attempt_window \<Rightarrow> bool" where
  "attempt_counts env c (action, bucket, digest, wid) \<longleftrightarrow>
     at_action c = action \<and> quot (unix (at_now c)) (attempt_seconds action) = wid \<and>
     (\<exists>ip. ae_parse_ip env (trim_space (at_ip c)) = Some ip \<and>
        (bucket = ''ip'' \<and> digest = ae_digest env ip \<or>
         bucket = ''subject'' \<and> digest = ae_digest env (normalizeAttemptSubject (ae_to_lower env) action (at_subject c))))"

fun attempt_quota :: "attempt_window \<Rightarrow> nat" where
  "attempt_quota (action, bucket, digest, wid) =
     (case map_of attemptPolicies action of
        None \<Rightarrow> 0
      | Some p \<Rightarrow> nat (if bucket = ''ip'' then IPLimit p else SubjectLimit p))"

fun attempt_window_key :: "attempt_window \<Rightarrow> string" where
  "attempt_window_key (action, bucket, digest, wid) = attemptKey action bucket digest wid"

fun attempt_over :: "attempt_window \<Rightarrow> int" where
  "attempt_over (action, bucket, digest, wid) = (wid + 1) * attempt_seconds action * 1000 + 2500"

definition attempt_known :: "attempt_window \<Rightarrow> bool" where
  "attempt_known k \<longleftrightarrow> map_of attemptPolicies (fst k) \<noteq> None"

definition attempt_counted :: "attempt_window \<Rightarrow> rate_state \<Rightarrow> nat \<Rightarrow> bool" where
  "attempt_counted k st n \<longleftrightarrow> counters (snd st) \<and>
     (attempt_known k \<and> \<not> attempt_over k \<le> fst st \<longrightarrow>
        n = 0 \<and> snd st (attempt_window_key k) = None \<or>
        (\<exists>c x. snd st (attempt_window_key k) = Some (RStr (show_nat c), Some x) \<and> n \<le> c \<and> attempt_over k \<le> x)) \<and>
     (\<not> attempt_known k \<longrightarrow> n = 0)"

lemma attempt_policy:
  assumes "map_of attemptPolicies action = Some p"
  shows "CHR '':'' \<notin> set action" "AttemptWindow p = attempt_seconds action * go_second" "0 < attempt_seconds action"
    "attempt_seconds action = quot (AttemptWindow p) go_second"
proof -
  have "(action, p) \<in> set attemptPolicies" using assms by (rule map_of_SomeD)
  then have "CHR '':'' \<notin> set action \<and> AttemptWindow p = quot (AttemptWindow p) go_second * go_second \<and> 0 < quot (AttemptWindow p) go_second"
    unfolding attemptPolicies_def by (auto simp: go_minute_def go_second_def quot_def)
  then show "CHR '':'' \<notin> set action" "AttemptWindow p = attempt_seconds action * go_second" "0 < attempt_seconds action"
    "attempt_seconds action = quot (AttemptWindow p) go_second"
    using assms by (simp_all add: attempt_seconds_def)
qed

lemma attemptKey_window:
  assumes "attemptKey a b d w = attemptKey a' b' d' w'" "CHR '':'' \<notin> set a" "CHR '':'' \<notin> set a'"
  shows "a = a' \<and> w = w'"
proof -
  have front: "split_on (CHR '':'') (attemptKey a b d w) ! 3 = a" if "CHR '':'' \<notin> set a" for a b d w
    using that split_on_append [of "CHR '':''"] by (simp add: attemptKey_def)
  have rear: "\<exists>p. split_on (CHR '':'') (attemptKey a b d w) = p @ [show_int w]" for a b d w
    using split_last [OF show_int_no_colon, of "''auth:attempts:v1:'' @ a @ '':'' @ b @ '':'' @ d" w]
    by (simp add: attemptKey_def del: split_on.simps)
  show ?thesis using front [OF assms(2), of b d w] front [OF assms(3), of b' d' w'] rear [of a b d w] rear [of a' b' d' w'] assms(1) by auto
qed

text \<open>A counter that a close clock creates in its window lives until the window is over.\<close>

lemma fresh_counter:
  assumes "close_clock now srv" "0 < w"
  shows "(quot (unix now) w + 1) * w * 1000 + 2500 \<le> srv + (w + 5) * 1000" "srv < (quot (unix now) w + 1) * w * 1000 + 2500"
proof -
  have now: "0 \<le> now" using assms(1) by (simp add: close_clock_def)
  have "(quot (unix now) w + 1) * w * go_second - now \<le> w * go_second" "now < (quot (unix now) w + 1) * w * go_second"
    using in_window [OF assms(2) now] by simp_all
  then show "(quot (unix now) w + 1) * w * 1000 + 2500 \<le> srv + (w + 5) * 1000" "srv < (quot (unix now) w + 1) * w * 1000 + 2500"
    using assms(1) by (simp_all add: close_clock_def go_second_def abs_le_iff)
qed

lemma attempt_bump:
  assumes n: "attempt_counted k (srv, s) n" and run: "bump srv ttl K s = (s', r)" and ttl: "0 < ttl"
    and fresh: "attempt_known k \<Longrightarrow> K = attempt_window_key k \<Longrightarrow> attempt_over k \<le> srv + ttl * 1000"
  shows "attempt_counted k (srv, s') n"
    and "attempt_known k \<Longrightarrow> K = attempt_window_key k \<Longrightarrow> srv < attempt_over k \<Longrightarrow> r = Inr m \<Longrightarrow>
      int n + 1 \<le> m \<and> attempt_counted k (srv, s') (n + 1)"
proof -
  have cs: "counters s" using n by (simp add: attempt_counted_def)
  note eff = bump_effect [OF run cs ttl]
  have both: "attempt_counted k (srv, s') n \<and> (K = attempt_window_key k \<longrightarrow> (\<forall>m. r = Inr m \<longrightarrow> int n + 1 \<le> m \<and> attempt_counted k (srv, s') (n + 1)))"
    if open_window: "attempt_known k" "srv < attempt_over k"
  proof (cases "K = attempt_window_key k")
    case True
    consider "n = 0" "s K = None" | c x where "s K = Some (RStr (show_nat c), Some x)" "n \<le> c" "attempt_over k \<le> x"
      using n open_window True by (auto simp: attempt_counted_def)
    then show ?thesis
    proof cases
      case 1
      with eff fresh [OF open_window(1) True] show ?thesis using True open_window by (auto simp: attempt_counted_def)
    next
      case 2
      with eff fresh [OF open_window(1) True] n show ?thesis using True open_window by (fastforce simp: attempt_counted_def)
    qed
  next
    case False
    with eff n show ?thesis by (auto simp: attempt_counted_def)
  qed
  show "attempt_counted k (srv, s') n"
    using both eff n by (cases "attempt_known k \<and> srv < attempt_over k") (auto simp: attempt_counted_def)
  show "attempt_known k \<Longrightarrow> K = attempt_window_key k \<Longrightarrow> srv < attempt_over k \<Longrightarrow> r = Inr m \<Longrightarrow>
      int n + 1 \<le> m \<and> attempt_counted k (srv, s') (n + 1)"
    using both by blast
qed

lemma attempt_counted_live:
  assumes "attempt_counted k st n" "fst st \<le> srv"
  shows "attempt_counted k (srv, live srv (snd st)) n"
proof -
  have "counters (live srv (snd st))" using assms(1) counters_live unfolding attempt_counted_def by blast
  moreover have "live srv (snd st) (attempt_window_key k) = snd st (attempt_window_key k)"
    if "snd st (attempt_window_key k) = Some (v, Some x)" "attempt_over k \<le> x" "srv < attempt_over k" for v x
    using that by (simp add: live_def)
  moreover have "live srv (snd st) (attempt_window_key k) = None" if "snd st (attempt_window_key k) = None"
    using that by (simp add: live_def)
  ultimately show ?thesis using assms unfolding attempt_counted_def by (cases "attempt_known k \<and> srv < attempt_over k") auto
qed

text \<open>A call that reaches the script.\<close>

lemma AllowAttempt_run:
  assumes "AllowAttempt env c s = (s', r)"
  shows "s' = s \<or> (\<exists>p ip y. map_of attemptPolicies (at_action c) = Some p \<and> ae_parse_ip env (trim_space (at_ip c)) = Some ip \<and>
    call (at_fault c)
      (attempt_counter_script
        (attemptKey (at_action c) ''ip'' (ae_digest env ip) (quot (unix (at_now c)) (attempt_seconds (at_action c))))
        (attemptKey (at_action c) ''subject'' (ae_digest env (normalizeAttemptSubject (ae_to_lower env) (at_action c) (at_subject c)))
          (quot (unix (at_now c)) (attempt_seconds (at_action c))))
        (attempt_seconds (at_action c) + 5) (at_srv c)) (live (at_srv c) s) = (s', y) \<and>
    (\<forall>w. r = Inr (True, w) \<longrightarrow> (\<exists>ip_count subject_count. y = Inr (ip_count, subject_count) \<and>
       ip_count \<le> IPLimit p \<and> subject_count \<le> SubjectLimit p)))"
proof (cases "map_of attemptPolicies (at_action c)")
  case (Some p)
  note sec = attempt_policy(4) [OF Some, symmetric]
  show ?thesis
  proof (cases "ae_parse_ip env (trim_space (at_ip c))")
    case ip: (Some ip)
    show ?thesis
      using assms unfolding AllowAttempt_def Some ip option.case sec attempt_keys_def Let_def prod.case
      by (auto split: prod.splits sum.splits if_splits)
  qed (use assms Some in \<open>simp add: AllowAttempt_def\<close>)
qed (use assms in \<open>simp add: AllowAttempt_def\<close>)

text \<open>The two counters of the script, one after the other.\<close>

lemma attempt_script_counted:
  assumes n: "attempt_counted k (srv, s) n" and ttl: "0 < ttl"
    and fresh: "\<And>K. K \<in> {ip_key, subject_key} \<Longrightarrow> attempt_known k \<Longrightarrow> K = attempt_window_key k \<Longrightarrow> attempt_over k \<le> srv + ttl * 1000"
  shows "attempt_counted k (srv, fst (attempt_counter_script ip_key subject_key ttl srv s)) n"
    and "attempt_counter_script ip_key subject_key ttl srv s = (s', Inr (a, b)) \<Longrightarrow> attempt_known k \<Longrightarrow> srv < attempt_over k \<Longrightarrow>
      attempt_window_key k = ip_key \<Longrightarrow> int n + 1 \<le> a \<and> attempt_counted k (srv, s') (n + 1)"
    and "attempt_counter_script ip_key subject_key ttl srv s = (s', Inr (a, b)) \<Longrightarrow> attempt_known k \<Longrightarrow> srv < attempt_over k \<Longrightarrow>
      attempt_window_key k = subject_key \<Longrightarrow> int n + 1 \<le> b \<and> attempt_counted k (srv, s') (n + 1)"
proof -
  obtain s1 r1 where one: "bump srv ttl ip_key s = (s1, r1)" by fastforce
  obtain s2 r2 where two: "bump srv ttl subject_key s1 = (s2, r2)" by fastforce
  have n1: "attempt_counted k (srv, s1) n" by (rule attempt_bump(1) [OF n one ttl fresh]) simp_all
  have n2: "attempt_counted k (srv, s2) m" if "attempt_counted k (srv, s1) m" for m
    by (rule attempt_bump(1) [OF that two ttl fresh]) simp_all
  show "attempt_counted k (srv, fst (attempt_counter_script ip_key subject_key ttl srv s)) n"
    using n1 n2 [OF n1] by (simp add: attempt_counter_script_def one two split: sum.splits)
  {
    assume run: "attempt_counter_script ip_key subject_key ttl srv s = (s', Inr (a, b))" and k: "attempt_known k" "srv < attempt_over k"
    then have r: "r1 = Inr a" "r2 = Inr b" "s' = s2" by (auto simp: attempt_counter_script_def one two split: sum.splits)
    show "int n + 1 \<le> a \<and> attempt_counted k (srv, s') (n + 1)" if key: "attempt_window_key k = ip_key"
    proof -
      have "int n + 1 \<le> a \<and> attempt_counted k (srv, s1) (n + 1)"
        by (rule attempt_bump(2) [OF n one ttl fresh k(1) _ k(2) r(1)]) (simp_all add: key)
      then show ?thesis using n2 r(3) by blast
    qed
    show "int n + 1 \<le> b \<and> attempt_counted k (srv, s') (n + 1)" if key: "attempt_window_key k = subject_key"
    proof -
      have "int n + 1 \<le> b \<and> attempt_counted k (srv, s2) (n + 1)"
        by (rule attempt_bump(2) [OF n1 two ttl fresh k(1) _ k(2) r(2)]) (simp_all add: key)
      then show ?thesis using r(3) by blast
    qed
  }
qed

lemma attempt_fresh:
  assumes p: "map_of attemptPolicies (at_action c) = Some p" and clock: "close_clock (at_now c) (at_srv c)"
    and key: "attemptKey (at_action c) bucket digest (quot (unix (at_now c)) (attempt_seconds (at_action c))) = attempt_window_key k"
    and known: "attempt_known k"
  shows "attempt_over k \<le> at_srv c + (attempt_seconds (at_action c) + 5) * 1000" "at_srv c < attempt_over k"
proof -
  obtain action b d wid where k: "k = (action, b, d, wid)" by (cases k) auto
  from known obtain q where q: "map_of attemptPolicies action = Some q" by (auto simp: attempt_known_def k)
  from attemptKey_window [OF key [unfolded k attempt_window_key.simps] attempt_policy(1) [OF p] attempt_policy(1) [OF q]]
  have same: "action = at_action c" "wid = quot (unix (at_now c)) (attempt_seconds (at_action c))" by auto
  show "attempt_over k \<le> at_srv c + (attempt_seconds (at_action c) + 5) * 1000" "at_srv c < attempt_over k"
    using fresh_counter [OF clock attempt_policy(3) [OF p]] by (simp_all add: k same)
qed

lemma attempt_keeps:
  assumes on: "attempt_enabled c st" and run: "attempt_op env c st = (st', a)" and n: "attempt_counted k st n"
  shows "attempt_counted k st' n"
proof -
  obtain s' r where al: "AllowAttempt env c (snd st) = (s', r)" by fastforce
  have st': "st' = (at_srv c, s')" using run al by (simp add: attempt_op_def)
  have later: "fst st \<le> at_srv c" "close_clock (at_now c) (at_srv c)" using on by (simp_all add: attempt_enabled_def)
  have live: "attempt_counted k (at_srv c, live (at_srv c) (snd st)) n" by (rule attempt_counted_live [OF n later(1)])
  from AllowAttempt_run [OF al] show ?thesis
  proof (elim disjE exE conjE)
    assume "s' = snd st"
    then show ?thesis using n later unfolding st' attempt_counted_def by auto
  next
    fix p ip y assume p: "map_of attemptPolicies (at_action c) = Some p"
    let ?wid = "quot (unix (at_now c)) (attempt_seconds (at_action c))"
    let ?ip = "attemptKey (at_action c) ''ip'' (ae_digest env ip) ?wid"
    let ?subject = "attemptKey (at_action c) ''subject'' (ae_digest env (normalizeAttemptSubject (ae_to_lower env) (at_action c) (at_subject c))) ?wid"
    assume "call (at_fault c) (attempt_counter_script ?ip ?subject (attempt_seconds (at_action c) + 5) (at_srv c))
      (live (at_srv c) (snd st)) = (s', y)"
    from call_effect [OF this] show ?thesis
    proof
      assume "s' = fst (attempt_counter_script ?ip ?subject (attempt_seconds (at_action c) + 5) (at_srv c) (live (at_srv c) (snd st)))"
      moreover have "attempt_counted k (at_srv c, fst (attempt_counter_script ?ip ?subject (attempt_seconds (at_action c) + 5) (at_srv c)
          (live (at_srv c) (snd st)))) n"
        by (rule attempt_script_counted(1) [OF live])
          (use attempt_policy(3) [OF p] attempt_fresh(1) [OF p later(2), where k = k] in auto)
      ultimately show ?thesis unfolding st' by simp
    qed (use live st' in simp)
  qed
qed

lemma attempt_admits:
  assumes on: "attempt_enabled c st" and run: "attempt_op env c st = (st', True)" and use: "attempt_counts env c k"
    and n: "attempt_counted k st n"
  shows "n < attempt_quota k \<and> attempt_counted k st' (n + 1)"
proof -
  obtain action bucket digest wid where k: "k = (action, bucket, digest, wid)" by (cases k) auto
  have known: "attempt_known k"
    using run use by (auto simp: k attempt_known_def attempt_op_def AllowAttempt_def split: option.splits)
  obtain s' w where al: "AllowAttempt env c (snd st) = (s', Inr (True, w))" "st' = (at_srv c, s')"
    using run by (auto simp: attempt_op_def split: prod.splits sum.splits)
  have later: "fst st \<le> at_srv c" "close_clock (at_now c) (at_srv c)" using on by (simp_all add: attempt_enabled_def)
  have live: "attempt_counted k (at_srv c, live (at_srv c) (snd st)) n" by (rule attempt_counted_live [OF n later(1)])
  have c: "at_action c = action" "quot (unix (at_now c)) (attempt_seconds action) = wid" using use by (simp_all add: k)
  from known obtain p where p: "map_of attemptPolicies (at_action c) = Some p" by (auto simp: attempt_known_def k c(1))
  let ?sub = "normalizeAttemptSubject (ae_to_lower env) action (at_subject c)"
  have "\<exists>y. AllowAttempt env c (snd st) = (s', y)" using al by blast
  from use obtain ip where ip: "ae_parse_ip env (trim_space (at_ip c)) = Some ip"
    "bucket = ''ip'' \<and> digest = ae_digest env ip \<or> bucket = ''subject'' \<and> digest = ae_digest env ?sub" by (auto simp: k)
  let ?ip = "attemptKey action ''ip'' (ae_digest env ip) wid" and ?subject = "attemptKey action ''subject'' (ae_digest env ?sub) wid"
  have fits: "0 \<le> IPLimit p" "0 \<le> SubjectLimit p"
    using map_of_SomeD [OF p] unfolding attemptPolicies_def by auto
  obtain a b where y: "call (at_fault c) (attempt_counter_script ?ip ?subject (attempt_seconds action + 5) (at_srv c)) (live (at_srv c) (snd st))
      = (s', Inr (a, b))" "a \<le> IPLimit p" "b \<le> SubjectLimit p"
    using al(1) p ip(1) attempt_policy(4) [OF p] c unfolding AllowAttempt_def attempt_keys_def
    by (auto split: prod.splits sum.splits if_splits)
  note script = call_Inr [OF y(1)]
  have ttl: "0 < attempt_seconds action + 5" using attempt_policy(3) [OF p] c(1) by simp
  have fresh: "attempt_over k \<le> at_srv c + (attempt_seconds action + 5) * 1000"
    if "K \<in> {?ip, ?subject}" "K = attempt_window_key k" for K
    using attempt_fresh(1) [OF p later(2) _ known] that c by auto
  have key: "bucket = ''ip'' \<and> attempt_window_key k = ?ip \<or> bucket = ''subject'' \<and> attempt_window_key k = ?subject"
    using ip(2) by (auto simp: k)
  then have over: "at_srv c < attempt_over k"
    using attempt_fresh(2) [OF p later(2) _ known] c by metis
  from key show ?thesis
  proof (elim disjE conjE)
    assume "bucket = ''ip''" "attempt_window_key k = ?ip"
    with attempt_script_counted(2) [OF live ttl _ script known over] fresh y(2) fits p c(1) show ?thesis
      by (fastforce simp: k al(2))
  next
    assume "bucket = ''subject''" "attempt_window_key k = ?subject"
    with attempt_script_counted(3) [OF live ttl _ script known over] fresh y(3) fits p c(1) show ?thesis
      by (fastforce simp: k al(2))
  qed
qed

interpretation attempts: fixed_window "attempt_op env" attempt_enabled "attempt_counts env" attempt_quota attempt_counted
  by unfold_locales (use attempt_keeps attempt_admits in blast)+

text \<open>
  No address and no subject gets more attempts than its policy allows: of the logins,
  registrations, refreshes, logouts and password changes whose client saw the same window, at
  most the limit of the bucket is admitted per address and per subject, whatever the order of
  the calls and whichever fail, while the clients' clocks stay within two and a half seconds of
  the server's.
\<close>

theorem attempt_limit_holds:
  fixes env :: attempt_env and window :: attempt_window
  assumes "run_calls (attempt_op env) calls (now, \<lambda>_. None) = (st, admitted)"
    and "all_enabled (attempt_op env) attempt_enabled calls (now, \<lambda>_. None)"
  shows "admissions (attempt_counts env) window calls admitted \<le> attempt_quota window"
  using attempts.admissions_bounded [OF assms, of window 0] by (simp add: attempt_counted_def counters_def)

section \<open>The middleware\<close>

datatype failure_mode = FailOpen | FailClosed

text \<open>The user id that authentication left in the request, by its Go type.\<close>

datatype context_value = CtxUint nat | CtxUint64 nat | CtxInt int | CtxInt64 int | CtxOther

fun SubjectFromContext :: "context_value option \<Rightarrow> string option" where
  "SubjectFromContext (Some (CtxUint n)) = (if n > 0 then Some (show_nat n) else None)"
| "SubjectFromContext (Some (CtxUint64 n)) = (if n > 0 then Some (show_nat n) else None)"
| "SubjectFromContext (Some (CtxInt i)) = (if i > 0 then Some (show_int i) else None)"
| "SubjectFromContext (Some (CtxInt64 i)) = (if i > 0 then Some (show_int i) else None)"
| "SubjectFromContext _ = None"

datatype enforcement = Proceeds | ProceedsWith rate_decision | RefusedWith string "rate_decision option"

definition handleLimiterError :: "failure_mode \<Rightarrow> enforcement" where
  "handleLimiterError mode = (if mode = FailOpen then Proceeds else RefusedWith ''RATE_LIMIT_UNAVAILABLE'' None)"

text \<open>\<open>limiter\<close> is what \<open>Allow\<close> answers, if there is a limiter.\<close>

definition Enforce :: "context_value option \<Rightarrow> (string \<Rightarrow> rate_error + rate_decision) option \<Rightarrow> failure_mode \<Rightarrow> enforcement" where
  "Enforce user limiter mode =
     (case SubjectFromContext user of
        None \<Rightarrow> RefusedWith ''AUTH_REQUIRED'' None
      | Some subject \<Rightarrow>
         (case limiter of
            None \<Rightarrow> handleLimiterError mode
          | Some allow \<Rightarrow>
             (case allow subject of
                Inl e \<Rightarrow> handleLimiterError mode
              | Inr d \<Rightarrow> if \<not> Allowed d then RefusedWith ''RATE_LIMITED'' (Some d) else ProceedsWith d)))"

lemma enforce_closed:
  assumes "Enforce user limiter FailClosed = r" "\<nexists>code d. r = RefusedWith code d"
  shows "\<exists>subject allow d. SubjectFromContext user = Some subject \<and> limiter = Some allow \<and> allow subject = Inr d \<and> Allowed d \<and> r = ProceedsWith d"
  using assms by (auto simp: Enforce_def handleLimiterError_def split: option.splits sum.splits if_splits)

text \<open>The wait a denied attempt is told never exceeds its window.\<close>

lemma retry_bounds:
  assumes "map_of attemptPolicies action = Some p" "0 \<le> now"
  shows "go_second \<le> retryAfterForWindow now (AttemptWindow p)" "retryAfterForWindow now (AttemptWindow p) \<le> AttemptWindow p"
proof -
  note w = attempt_policy [OF assms(1)]
  have "1 * go_second \<le> attempt_seconds action * go_second" using w(3) by (intro mult_right_mono) (simp_all add: go_second_def)
  then have "go_second \<le> AttemptWindow p" unfolding w(2) by simp
  then show "go_second \<le> retryAfterForWindow now (AttemptWindow p)" "retryAfterForWindow now (AttemptWindow p) \<le> AttemptWindow p"
    by (auto simp: retryAfterForWindow_def Let_def)
qed

section \<open>Runs\<close>

definition sample_policies :: "rl_action \<rightharpoonup> rate_policy" where
  "sample_policies = [''a'' \<mapsto> \<lparr>PolicyAction = ''a'', Rules = rate_rules [(1, 60000000000)]\<rparr>]"

definition sample_rate_call :: rate_call where
  "sample_rate_call = \<lparr>rc_subject = ''7'', rc_action = ''a'', rc_now = 0, rc_srv = 0, rc_fault = Healthy\<rparr>"

lemma sample_fits: "\<forall>p \<in> ran sample_policies. \<forall>r \<in> set (Rules p). in_int64 (Window r)"
  by (auto simp: sample_policies_def rate_rules_def in_int64_def)

text \<open>Two calls in one window with a limit of one.\<close>

theorem rate_limit_holds_witness:
  "admissions (rate_counts sample_policies) (''7'', ''a'', \<lparr>RuleLimit = 1, Window = 60000000000\<rparr>, 0)
     [sample_rate_call, sample_rate_call]
     (snd (run_calls (rate_op sample_policies) [sample_rate_call, sample_rate_call] (0, \<lambda>_. None))) \<le> 1"
proof -
  obtain st as where run: "run_calls (rate_op sample_policies) [sample_rate_call, sample_rate_call] (0, \<lambda>_. None) = (st, as)" by fastforce
  have clock: "fst (fst (rate_op sample_policies sample_rate_call st)) = 0" for st
    by (simp add: rate_op_def sample_rate_call_def split: prod.splits)
  have "all_enabled (rate_op sample_policies) (rate_enabled sample_policies) [sample_rate_call, sample_rate_call] (0, \<lambda>_. None)"
    using sample_fits clock by (simp add: rate_enabled_def close_clock_def) (simp add: sample_rate_call_def)
  from rate_limit_holds [OF run this, of "(''7'', ''a'', \<lparr>RuleLimit = 1, Window = 60000000000\<rparr>, 0)"] show ?thesis unfolding run by simp
qed

text \<open>A full counter.\<close>

theorem denied_call_consumes_nothing_witness:
  "\<exists>d. Allow sample_policies Healthy ''7'' ''a'' 0 0
      (\<lambda>k. if k = rateLimitKey ''7'' ''a'' 60 0 then Some (RStr ''1'', Some 65000) else None) =
      (\<lambda>k. if k = rateLimitKey ''7'' ''a'' 60 0 then Some (RStr ''1'', Some 65000) else None, Inr d) \<and>
    \<not> Allowed d \<and> RetryAfter d \<le> 60000000000"
proof -
  let ?s = "\<lambda>k. if k = rateLimitKey ''7'' ''a'' 60 0 then Some (RStr ''1'', Some 65000) else None :: rentry"
  have trim: "trim_space ''7'' = ''7''" by code_simp
  have live: "live 0 ?s = ?s" by (auto simp: live_def)
  have one: "lua_int (Some ''1'') = Some 1" by code_simp
  have p: "PolicyFor sample_policies ''a'' = Inr \<lparr>PolicyAction = ''a'', Rules = [\<lparr>RuleLimit = 1, Window = 60000000000\<rparr>]\<rparr>"
    by (simp add: PolicyFor_def sample_policies_def validatePolicy_def rule_ok_def rate_rules_def go_second_def)
  have w: "window_seconds 60000000000 = 60" "unix 0 = 0" "quot 0 60 = 0"
    by (simp_all add: window_seconds_def quot_def go_second_def unix_def)
  obtain d where d: "Allow sample_policies Healthy ''7'' ''a'' 0 0 ?s = (?s, Inr d)" "\<not> Allowed d"
    using one by (simp add: Allow_def p trim live rate_arg_of_def Let_def w fixed_window_script_def call_def raw_def type_ok_def)
  from denied_call_consumes_nothing [OF d _ sample_fits] p d show ?thesis by auto
qed

definition sample_attempts :: attempt_env where
  "sample_attempts = \<lparr>ae_parse_ip = Some, ae_to_lower = \<lambda>s. s, ae_digest = \<lambda>s. s\<rparr>"

definition sample_attempt :: attempt_call where
  "sample_attempt = \<lparr>at_action = ''login'', at_ip = ''::1'', at_subject = ''u'', at_now = 0, at_srv = 0, at_fault = Healthy\<rparr>"

text \<open>Ten logins of one subject within a minute: at most five are admitted.\<close>

theorem attempt_limit_holds_witness:
  "admissions (attempt_counts sample_attempts) (''login'', ''subject'', ''u'', 0) (replicate 10 sample_attempt)
     (snd (run_calls (attempt_op sample_attempts) (replicate 10 sample_attempt) (0, \<lambda>_. None))) \<le> 5"
proof -
  obtain st as where run: "run_calls (attempt_op sample_attempts) (replicate 10 sample_attempt) (0, \<lambda>_. None) = (st, as)" by fastforce
  have clock: "fst (fst (attempt_op sample_attempts sample_attempt st)) = 0" for st
    by (simp add: attempt_op_def sample_attempt_def split: prod.splits)
  have "all_enabled (attempt_op sample_attempts) attempt_enabled (replicate n sample_attempt) st" if "fst st = 0" for n st
    using that clock by (induction n arbitrary: st) (simp_all add: attempt_enabled_def close_clock_def sample_attempt_def)
  then have "all_enabled (attempt_op sample_attempts) attempt_enabled (replicate 10 sample_attempt) (0, \<lambda>_. None)" by simp
  from attempt_limit_holds [OF run this, of "(''login'', ''subject'', ''u'', 0)"] show ?thesis
    unfolding run by (simp add: attemptPolicies_def)
qed

end
