(* ===== verification/WakeUp.thy ===== *)
theory WakeUp
  imports Prelude
begin

text \<open>
  Waiting on a channel that is closed whenever something changes. A goroutine that cannot be
  served reads the current channel under the mutex, unlocks and sleeps until that channel is
  closed or a timer fires; a change closes the channel and makes a new one. Channels are numbered
  in the order they are made, so that the channel a sleeper holds is closed exactly when its
  number is no longer the current one. The locale says what keeps such a loop from sleeping
  through the moment at which it could be served.
\<close>

locale wake_up =
  fixes step :: "'s \<Rightarrow> 's \<Rightarrow> bool"
    and inv :: "'s \<Rightarrow> bool"
    and channel :: "'s \<Rightarrow> nat"
    and available :: "'r \<Rightarrow> int \<Rightarrow> 's \<Rightarrow> bool"
    and timer :: "'r \<Rightarrow> int \<Rightarrow> 's \<Rightarrow> int option"
  assumes keeps: "step s s' \<Longrightarrow> inv s \<Longrightarrow> inv s'"
    and fresh: "step s s' \<Longrightarrow> inv s \<Longrightarrow> channel s \<le> channel s'"
    and quiet: "step s s' \<Longrightarrow> inv s \<Longrightarrow> channel s' = channel s \<Longrightarrow> available r now s' \<Longrightarrow> available r now s"
    and timed: "inv s \<Longrightarrow> \<not> available r now s \<Longrightarrow> now \<le> later \<Longrightarrow> available r later s \<Longrightarrow>
      \<exists>d. timer r now s = Some d \<and> d \<le> later"
begin

lemma kept: "step\<^sup>*\<^sup>* s s' \<Longrightarrow> inv s \<Longrightarrow> inv s' \<and> channel s \<le> channel s'"
proof (induction rule: rtranclp_induct)
  case (step t u)
  then have "inv t" "channel s \<le> channel t" by blast+
  with keeps [OF step.hyps(2)] fresh [OF step.hyps(2)] show ?case by fastforce
qed simp

lemma quiet_steps:
  "step\<^sup>*\<^sup>* s s' \<Longrightarrow> inv s \<Longrightarrow> channel s' = channel s \<Longrightarrow> available r now s' \<Longrightarrow> available r now s"
proof (induction rule: rtranclp_induct)
  case (step t u)
  from kept [OF step.hyps(1) step.prems(1)] have t: "inv t" "channel s \<le> channel t" by blast+
  with fresh [OF step.hyps(2)] step.prems(2) have same: "channel u = channel t" "channel t = channel s" by fastforce+
  from quiet [OF step.hyps(2) t(1) same(1) step.prems(3)] step.IH [OF step.prems(1) same(2)] show ?case by blast
qed

text \<open>
  A request that could not be served and went to sleep, and that could be served later, has been
  woken: its channel is closed or its timer has fired.
\<close>

lemma woken:
  assumes "inv s" "\<not> available r now s" "step\<^sup>*\<^sup>* s s'" "now \<le> later" "available r later s'"
  shows "channel s' \<noteq> channel s \<or> (\<exists>d. timer r now s = Some d \<and> d \<le> later)"
proof (cases "channel s' = channel s")
  case True
  from quiet_steps [OF assms(3,1) True assms(5)] timed [OF assms(1,2,4)] show ?thesis by blast
qed simp

end

end
