(* ===== verification/ImageBudget.thy ===== *)
theory ImageBudget
  imports WakeUp LikeErrors
begin

text \<open>
  The limiter of image work (imagebudget/limiter.go): at most \<open>maxActive\<close> decoded images with
  at most \<open>maxPixels\<close> source pixels together, at most \<open>maxWaiting\<close> callers in the queue and
  none there longer than \<open>maxWait\<close>. Every pass of the loop of \<open>Acquire\<close> runs under the
  mutex and is one step; between two passes the caller sleeps on the channel it read.
\<close>

record limiter =
  lm_active :: int
  lm_waiting :: int
  lm_maxActive :: int
  lm_maxWaiting :: int
  lm_pixels :: int
  lm_maxPixels :: int
  lm_maxWait :: int
  lm_changed :: nat

definition New :: "int \<Rightarrow> int \<Rightarrow> int \<Rightarrow> int \<Rightarrow> limiter" where
  "New maxActive maxWaiting maxPixels maxWait =
     \<lparr>lm_active = 0, lm_waiting = 0, lm_maxActive = maxActive, lm_maxWaiting = maxWaiting, lm_pixels = 0,
      lm_maxPixels = maxPixels, lm_maxWait = maxWait, lm_changed = 0\<rparr>"

text \<open>A caller in \<open>Acquire\<close>: its pixels, the deadline of its wait, and whether it is queued.\<close>

record waiter =
  wt_pixels :: int
  wt_deadline :: int
  wt_queued :: bool

datatype acquire_error = ErrBusy | CtxErr string

definition acquire_entry :: "string option \<Rightarrow> int \<Rightarrow> int \<Rightarrow> limiter \<Rightarrow> acquire_error + waiter" where
  "acquire_entry ctx now pixels l =
     (case ctx of
        Some e \<Rightarrow> Inl (CtxErr e)
      | None \<Rightarrow> if pixels \<le> 0 \<or> pixels > lm_maxPixels l then Inl ErrBusy
          else Inr \<lparr>wt_pixels = pixels, wt_deadline = now + lm_maxWait l, wt_queued = False\<rparr>)"

datatype acquire_outcome = Refused acquire_error | Granted | Sleeps nat waiter

definition fits :: "int \<Rightarrow> limiter \<Rightarrow> bool" where
  "fits pixels l \<longleftrightarrow> lm_active l < lm_maxActive l \<and> pixels \<le> lm_maxPixels l - lm_pixels l"

text \<open>The deferred function: a queued caller leaves the queue.\<close>

definition leave :: "waiter \<Rightarrow> limiter \<Rightarrow> limiter" where
  "leave w l = (if wt_queued w then l\<lparr>lm_waiting := lm_waiting l - 1\<rparr> else l)"

definition acquire_pass :: "string option \<Rightarrow> int \<Rightarrow> waiter \<Rightarrow> limiter \<Rightarrow> limiter \<times> acquire_outcome" where
  "acquire_pass ctx now w l =
     (case ctx of
        Some e \<Rightarrow> (leave w l, Refused (CtxErr e))
      | None \<Rightarrow>
         (if now \<ge> wt_deadline w then (leave w l, Refused ErrBusy)
          else if fits (wt_pixels w) l
          then (leave w (l\<lparr>lm_active := lm_active l + 1, lm_pixels := lm_pixels l + wt_pixels w\<rparr>), Granted)
          else if wt_queued w then (l, Sleeps (lm_changed l) w)
          else if lm_waiting l \<ge> lm_maxWaiting l then (l, Refused ErrBusy)
          else (l\<lparr>lm_waiting := lm_waiting l + 1\<rparr>, Sleeps (lm_changed l) (w\<lparr>wt_queued := True\<rparr>))))"

definition release :: "int \<Rightarrow> limiter \<Rightarrow> limiter" where
  "release pixels l =
     l\<lparr>lm_active := lm_active l - 1, lm_pixels := lm_pixels l - pixels, lm_changed := lm_changed l + 1\<rparr>"

section \<open>Any number of callers\<close>

text \<open>
  The callers, by a number: those inside \<open>Acquire\<close> and those that hold a slot. The function
  that \<open>Acquire\<close> returns releases only once, so a second call finds no holder.
\<close>

record budget =
  bg_limiter :: limiter
  bg_waiters :: "nat \<rightharpoonup> waiter"
  bg_holders :: "nat \<rightharpoonup> int"

definition release_once :: "nat \<Rightarrow> budget \<Rightarrow> budget" where
  "release_once i s =
     (case bg_holders s i of
        None \<Rightarrow> s
      | Some pixels \<Rightarrow> s\<lparr>bg_limiter := release pixels (bg_limiter s), bg_holders := (bg_holders s)(i := None)\<rparr>)"

inductive budget_step :: "budget \<Rightarrow> budget \<Rightarrow> bool" where
  bs_enter: "bg_waiters s i = None \<Longrightarrow> bg_holders s i = None \<Longrightarrow> acquire_entry ctx now pixels (bg_limiter s) = Inr w \<Longrightarrow>
    budget_step s (s\<lparr>bg_waiters := (bg_waiters s)(i \<mapsto> w)\<rparr>)"
| bs_sleep: "bg_waiters s i = Some w \<Longrightarrow> acquire_pass ctx now w (bg_limiter s) = (l, Sleeps n w') \<Longrightarrow>
    budget_step s (s\<lparr>bg_limiter := l, bg_waiters := (bg_waiters s)(i \<mapsto> w')\<rparr>)"
| bs_grant: "bg_waiters s i = Some w \<Longrightarrow> acquire_pass ctx now w (bg_limiter s) = (l, Granted) \<Longrightarrow>
    budget_step s (s\<lparr>bg_limiter := l, bg_waiters := (bg_waiters s)(i := None), bg_holders := (bg_holders s)(i \<mapsto> wt_pixels w)\<rparr>)"
| bs_refuse: "bg_waiters s i = Some w \<Longrightarrow> acquire_pass ctx now w (bg_limiter s) = (l, Refused e) \<Longrightarrow>
    budget_step s (s\<lparr>bg_limiter := l, bg_waiters := (bg_waiters s)(i := None)\<rparr>)"
| bs_release: "budget_step s (release_once i s)"

definition budget_init :: "limiter \<Rightarrow> budget" where
  "budget_init l = \<lparr>bg_limiter = l, bg_waiters = Map.empty, bg_holders = Map.empty\<rparr>"

text \<open>The sum of what is held, the callers in the queue, and what the counters must say.\<close>

definition total :: "(nat \<rightharpoonup> int) \<Rightarrow> int" where
  "total m = (\<Sum>i \<in> dom m. the (m i))"

definition queued :: "budget \<Rightarrow> nat set" where
  "queued s = {i. \<exists>w. bg_waiters s i = Some w \<and> wt_queued w}"

definition budget_inv :: "budget \<Rightarrow> bool" where
  "budget_inv s \<longleftrightarrow> (let l = bg_limiter s in
     finite (dom (bg_waiters s)) \<and> finite (dom (bg_holders s)) \<and>
     (\<forall>i w. bg_waiters s i = Some w \<longrightarrow> 0 < wt_pixels w \<and> wt_pixels w \<le> lm_maxPixels l \<and> bg_holders s i = None) \<and>
     (\<forall>i p. bg_holders s i = Some p \<longrightarrow> 0 < p) \<and>
     lm_active l = int (card (dom (bg_holders s))) \<and> lm_active l \<le> max 0 (lm_maxActive l) \<and>
     lm_pixels l = total (bg_holders s) \<and> lm_pixels l \<le> max 0 (lm_maxPixels l) \<and>
     lm_waiting l = int (card (queued s)) \<and> lm_waiting l \<le> max 0 (lm_maxWaiting l))"

lemma total_empty [simp]: "total Map.empty = 0"
  by (simp add: total_def)

lemma total_insert: "finite (dom m) \<Longrightarrow> m i = None \<Longrightarrow> total (m(i \<mapsto> p)) = total m + p"
proof -
  assume m: "finite (dom m)" "m i = None"
  then have "(\<Sum>j \<in> dom m. the ((m(i \<mapsto> p)) j)) = total m"
    unfolding total_def by (intro sum.cong) auto
  with m show ?thesis by (simp add: total_def domIff)
qed

lemma total_remove: "finite (dom m) \<Longrightarrow> m i = Some p \<Longrightarrow> total (m(i := None)) = total m - p"
proof -
  assume m: "finite (dom m)" "m i = Some p"
  then have "total (m(i := None)) + p = total ((m(i := None))(i \<mapsto> p))" by (subst total_insert) simp_all
  moreover from m have "(m(i := None))(i \<mapsto> p) = m" by auto
  ultimately show ?thesis by simp
qed

lemma card_remove_key: "finite (dom m) \<Longrightarrow> m i = Some p \<Longrightarrow> int (card (dom (m(i := None)))) = int (card (dom m)) - 1"
  by (subst card.remove [of "dom m" i]) auto

lemma finite_queued: "finite (dom (bg_waiters s)) \<Longrightarrow> finite (queued s)"
  by (rule finite_subset [of _ "dom (bg_waiters s)"]) (auto simp: queued_def)

text \<open>How one entry of the waiters changes the queue.\<close>

lemma queued_update:
  "queued (s\<lparr>bg_limiter := l, bg_waiters := (bg_waiters s)(i := x), bg_holders := h\<rparr>) =
     (if \<exists>w. x = Some w \<and> wt_queued w then insert i (queued s) else queued s - {i})"
  unfolding queued_def by auto

lemma leave_reads [simp]:
  "lm_active (leave w l) = lm_active l" "lm_pixels (leave w l) = lm_pixels l" "lm_maxActive (leave w l) = lm_maxActive l"
  "lm_maxPixels (leave w l) = lm_maxPixels l" "lm_maxWaiting (leave w l) = lm_maxWaiting l" "lm_changed (leave w l) = lm_changed l"
  "lm_waiting (leave w l) = lm_waiting l - (if wt_queued w then 1 else 0)"
  by (simp_all add: leave_def)

lemma budget_invD:
  assumes "budget_inv s"
  shows "finite (dom (bg_waiters s))" "finite (dom (bg_holders s))"
    "bg_waiters s i = Some w \<Longrightarrow> 0 < wt_pixels w \<and> wt_pixels w \<le> lm_maxPixels (bg_limiter s) \<and> bg_holders s i = None"
    "bg_holders s i = Some p \<Longrightarrow> 0 < p"
    "lm_active (bg_limiter s) = int (card (dom (bg_holders s)))" "lm_active (bg_limiter s) \<le> max 0 (lm_maxActive (bg_limiter s))"
    "lm_pixels (bg_limiter s) = total (bg_holders s)" "lm_pixels (bg_limiter s) \<le> max 0 (lm_maxPixels (bg_limiter s))"
    "lm_waiting (bg_limiter s) = int (card (queued s))" "lm_waiting (bg_limiter s) \<le> max 0 (lm_maxWaiting (bg_limiter s))"
  using assms unfolding budget_inv_def Let_def by (auto simp: domI)

text \<open>A caller that leaves the queue makes it one shorter.\<close>

lemma queue_left:
  assumes "budget_inv s" "bg_waiters s i = Some w"
  shows "lm_waiting (bg_limiter s) - (if wt_queued w then 1 else 0) = int (card (queued s - {i}))"
proof (cases "wt_queued w")
  case True
  then have "i \<in> queued s" using assms(2) by (auto simp: queued_def)
  with finite_queued [OF budget_invD(1) [OF assms(1)]] True show ?thesis
    using budget_invD(9) [OF assms(1)] by (simp add: card_Diff_singleton card_gt_0_iff of_nat_diff Suc_leI) (metis card_gt_0_iff empty_iff One_nat_def Suc_leI of_nat_1 of_nat_diff)
next
  case False
  then have "i \<notin> queued s" using assms(2) by (auto simp: queued_def)
  with False show ?thesis using budget_invD(9) [OF assms(1)] by simp
qed

section \<open>The invariant\<close>

text \<open>What a pass does to the limiter, by its outcome.\<close>

lemma pass_Granted:
  assumes "acquire_pass ctx now w l = (l', Granted)"
  shows "fits (wt_pixels w) l" "l' = leave w (l\<lparr>lm_active := lm_active l + 1, lm_pixels := lm_pixels l + wt_pixels w\<rparr>)"
  using assms unfolding acquire_pass_def by (auto split: option.splits if_splits)

lemma pass_Refused:
  assumes "acquire_pass ctx now w l = (l', Refused e)"
  shows "l' = leave w l"
  using assms unfolding acquire_pass_def by (auto simp: leave_def split: option.splits if_splits)

lemma pass_Sleeps:
  assumes "acquire_pass ctx now w l = (l', Sleeps n w')"
  shows "\<not> fits (wt_pixels w) l" "n = lm_changed l" "wt_pixels w' = wt_pixels w" "wt_deadline w' = wt_deadline w" "wt_queued w'"
    "now < wt_deadline w"
    "l' = (if wt_queued w then l else l\<lparr>lm_waiting := lm_waiting l + 1\<rparr>)" "wt_queued w \<or> lm_waiting l < lm_maxWaiting l"
  using assms unfolding acquire_pass_def by (auto split: option.splits if_splits)

lemma enter_inv:
  assumes inv: "budget_inv s" and free: "bg_waiters s i = None" "bg_holders s i = None"
    and entry: "acquire_entry ctx now pixels (bg_limiter s) = Inr w"
  shows "budget_inv (s\<lparr>bg_waiters := (bg_waiters s)(i \<mapsto> w)\<rparr>)"
proof -
  have w: "0 < wt_pixels w" "wt_pixels w \<le> lm_maxPixels (bg_limiter s)" "\<not> wt_queued w"
    using entry unfolding acquire_entry_def by (auto split: option.splits if_splits)
  have q: "queued (s\<lparr>bg_waiters := (bg_waiters s)(i \<mapsto> w)\<rparr>) = queued s"
    using w(3) free(1) unfolding queued_def by auto
  show ?thesis
    using inv w free q unfolding budget_inv_def Let_def by simp
qed

lemma sleep_inv:
  assumes inv: "budget_inv s" and w: "bg_waiters s i = Some w" and pass: "acquire_pass ctx now w (bg_limiter s) = (l, Sleeps n w')"
  shows "budget_inv (s\<lparr>bg_limiter := l, bg_waiters := (bg_waiters s)(i \<mapsto> w')\<rparr>)"
proof -
  note p = pass_Sleeps [OF pass]
  have q: "queued (s\<lparr>bg_limiter := l, bg_waiters := (bg_waiters s)(i \<mapsto> w')\<rparr>) = insert i (queued s)"
    using p(5) unfolding queued_def by auto
  have "i \<in> queued s \<longleftrightarrow> wt_queued w" using w by (auto simp: queued_def)
  then have c: "int (card (insert i (queued s))) = lm_waiting l"
    using budget_invD(1,9) [OF inv] p(7) finite_queued [of s] by (simp add: card_insert_if)
  have max: "lm_waiting l \<le> max 0 (lm_maxWaiting l)"
    using budget_invD(10) [OF inv] p(7,8) by auto
  have same: "lm_active l = lm_active (bg_limiter s)" "lm_pixels l = lm_pixels (bg_limiter s)"
    "lm_maxActive l = lm_maxActive (bg_limiter s)" "lm_maxPixels l = lm_maxPixels (bg_limiter s)" using p(7) by simp_all
  show ?thesis
    using inv budget_invD(3) [OF inv w] p(3) unfolding budget_inv_def Let_def by (simp add: q c max same)
qed

lemma grant_inv:
  assumes inv: "budget_inv s" and w: "bg_waiters s i = Some w" and pass: "acquire_pass ctx now w (bg_limiter s) = (l, Granted)"
  shows "budget_inv (s\<lparr>bg_limiter := l, bg_waiters := (bg_waiters s)(i := None), bg_holders := (bg_holders s)(i \<mapsto> wt_pixels w)\<rparr>)"
proof -
  note p = pass_Granted [OF pass]
  note d = budget_invD [OF inv]
  note q = queue_left [OF inv w]
  have h: "bg_holders s i = None" "0 < wt_pixels w" using d(3) [OF w] by blast+
  then have "int (card (dom ((bg_holders s)(i \<mapsto> wt_pixels w)))) = int (card (dom (bg_holders s))) + 1"
    using d(2) by (simp add: domIff)
  moreover have "total ((bg_holders s)(i \<mapsto> wt_pixels w)) = total (bg_holders s) + wt_pixels w"
    by (rule total_insert [OF d(2) h(1)])
  moreover have "lm_active (bg_limiter s) + 1 \<le> max 0 (lm_maxActive (bg_limiter s))"
    "lm_pixels (bg_limiter s) + wt_pixels w \<le> max 0 (lm_maxPixels (bg_limiter s))"
    using p(1) unfolding fits_def by linarith+
  moreover have "int (card (queued s - {i})) \<le> max 0 (lm_maxWaiting (bg_limiter s))"
    using d(10) q by (simp split: if_splits)
  ultimately show ?thesis
    using inv p(2) q h unfolding budget_inv_def Let_def by (simp add: queued_update)
qed

lemma refuse_inv:
  assumes inv: "budget_inv s" and w: "bg_waiters s i = Some w" and pass: "acquire_pass ctx now w (bg_limiter s) = (l, Refused e)"
  shows "budget_inv (s\<lparr>bg_limiter := l, bg_waiters := (bg_waiters s)(i := None)\<rparr>)"
proof -
  note q = queue_left [OF inv w]
  have "int (card (queued s - {i})) \<le> max 0 (lm_maxWaiting (bg_limiter s))"
    using budget_invD(10) [OF inv] q by (simp split: if_splits)
  with inv q pass_Refused [OF pass] show ?thesis
    unfolding budget_inv_def Let_def using queued_update [where s = s and l = l and i = i and x = None and h = "bg_holders s"] by simp
qed

lemma release_inv:
  assumes inv: "budget_inv s"
  shows "budget_inv (release_once i s)"
proof (cases "bg_holders s i")
  case (Some p)
  note d = budget_invD [OF inv]
  have "queued (s\<lparr>bg_limiter := release p (bg_limiter s), bg_holders := (bg_holders s)(i := None)\<rparr>) = queued s"
    by (simp add: queued_def)
  moreover note card_remove_key [OF d(2) Some] total_remove [OF d(2) Some] d(4) [OF Some]
  moreover have "lm_pixels (bg_limiter s) - p \<le> max 0 (lm_maxPixels (bg_limiter s))" using d(4) [OF Some] d(8) by linarith
  moreover have "\<forall>j. j \<noteq> i \<longrightarrow> (\<exists>w. bg_waiters s j = Some w) \<longrightarrow> bg_holders s j = None" using d(3) by blast
  ultimately show ?thesis
    using inv Some unfolding budget_inv_def Let_def by (auto simp: release_once_def release_def)
qed (simp add: release_once_def inv)

lemma budget_step_inv: "budget_step s s' \<Longrightarrow> budget_inv s \<Longrightarrow> budget_inv s'"
proof (induction rule: budget_step.induct)
  case (bs_enter s i ctx now pixels w)
  then show ?case by (blast intro: enter_inv)
next
  case (bs_sleep s i w ctx now l n w')
  then show ?case by (blast intro: sleep_inv)
next
  case (bs_grant s i w ctx now l)
  then show ?case by (blast intro: grant_inv)
next
  case (bs_refuse s i w ctx now l e)
  then show ?case by (blast intro: refuse_inv)
next
  case (bs_release s i)
  then show ?case by (rule release_inv)
qed

lemma budget_init_inv: "budget_inv (budget_init (New maxActive maxWaiting maxPixels maxWait))"
  by (simp add: budget_inv_def budget_init_def New_def queued_def)

text \<open>No step closes fewer channels, or makes room without closing the current one.\<close>

lemma budget_step_changed: "budget_step s s' \<Longrightarrow> budget_inv s \<Longrightarrow> lm_changed (bg_limiter s) \<le> lm_changed (bg_limiter s')"
  by (induction rule: budget_step.induct)
    (auto simp: release_once_def release_def dest!: pass_Granted(2) pass_Sleeps(7) pass_Refused split: option.splits)

lemma budget_step_quiet:
  "budget_step s s' \<Longrightarrow> budget_inv s \<Longrightarrow> lm_changed (bg_limiter s') = lm_changed (bg_limiter s) \<Longrightarrow>
   fits pixels (bg_limiter s') \<Longrightarrow> fits pixels (bg_limiter s)"
proof (induction rule: budget_step.induct)
  case (bs_grant s i w ctx now l)
  with budget_invD(3) [OF bs_grant.prems(1) bs_grant.hyps(1)] pass_Granted(2) [OF bs_grant.hyps(2)]
  show ?case by (simp add: fits_def)
next
  case (bs_sleep s i w ctx now l n w')
  with pass_Sleeps(7) [OF bs_sleep.hyps(2)] show ?case by (simp add: fits_def split: if_splits)
next
  case (bs_refuse s i w ctx now l e)
  with pass_Refused [OF bs_refuse.hyps(2)] show ?case by (simp add: fits_def)
next
  case (bs_release s i)
  then show ?case by (auto simp: release_once_def release_def split: option.splits)
qed (simp add: fits_def)

interpretation image_wait: wake_up budget_step budget_inv "lm_changed \<circ> bg_limiter"
    "\<lambda>pixels _ s. fits pixels (bg_limiter s)" "\<lambda>_ _ _. None"
proof
  fix s s' show "budget_step s s' \<Longrightarrow> budget_inv s \<Longrightarrow> budget_inv s'" by (rule budget_step_inv)
  show "budget_step s s' \<Longrightarrow> budget_inv s \<Longrightarrow> (lm_changed \<circ> bg_limiter) s \<le> (lm_changed \<circ> bg_limiter) s'"
    using budget_step_changed by simp
  show "budget_step s s' \<Longrightarrow> budget_inv s \<Longrightarrow> (lm_changed \<circ> bg_limiter) s' = (lm_changed \<circ> bg_limiter) s \<Longrightarrow>
      fits r (bg_limiter s') \<Longrightarrow> fits r (bg_limiter s)" for r
    using budget_step_quiet [of s s' r] by simp
qed blast

lemma budget_steps_max: "budget_step\<^sup>*\<^sup>* s s' \<Longrightarrow> lm_maxActive (bg_limiter s') = lm_maxActive (bg_limiter s) \<and>
    lm_maxPixels (bg_limiter s') = lm_maxPixels (bg_limiter s) \<and> lm_maxWaiting (bg_limiter s') = lm_maxWaiting (bg_limiter s)"
proof (induction rule: rtranclp_induct)
  case (step t u)
  from step.hyps(2) have "lm_maxActive (bg_limiter u) = lm_maxActive (bg_limiter t) \<and>
    lm_maxPixels (bg_limiter u) = lm_maxPixels (bg_limiter t) \<and> lm_maxWaiting (bg_limiter u) = lm_maxWaiting (bg_limiter t)"
    by (induction rule: budget_step.induct)
      (auto simp: release_once_def release_def dest!: pass_Granted(2) pass_Sleeps(7) pass_Refused split: option.splits)
  with step.IH show ?case by simp
qed simp

lemma sleeper_is_woken:
  assumes inv: "budget_inv s" and sleeps: "bg_waiters s i = Some w" "acquire_pass ctx now w (bg_limiter s) = (l, Sleeps n w')"
    and later: "budget_step\<^sup>*\<^sup>* (s\<lparr>bg_limiter := l, bg_waiters := (bg_waiters s)(i \<mapsto> w')\<rparr>) s'"
    and room: "fits (wt_pixels w') (bg_limiter s')"
  shows "n < lm_changed (bg_limiter s')"
proof -
  let ?t = "s\<lparr>bg_limiter := l, bg_waiters := (bg_waiters s)(i \<mapsto> w')\<rparr>"
  note p = pass_Sleeps [OF sleeps(2)]
  have asleep: "budget_step s ?t" by (rule budget_step.bs_sleep [OF sleeps])
  have t: "budget_inv ?t" by (rule budget_step_inv [OF asleep inv])
  from image_wait.kept [OF later t] have inv': "lm_changed l \<le> lm_changed (bg_limiter s')" by auto
  have n: "n = lm_changed l" using p(2,7) by (simp split: if_splits)
  have "\<not> fits (wt_pixels w') (bg_limiter ?t)" using p(1,3,7) by (simp add: fits_def split: if_splits)
  from image_wait.woken [OF t this later, where now = 0 and later = 0] inv' n room show ?thesis by auto
qed

text \<open>
  C29. Image work is bounded and nobody sleeps through free capacity. However many callers come,
  wait, give up, finish or release twice, at every moment those that hold a slot are no more than
  \<open>maxActive\<close>, their pixels no more than \<open>maxPixels\<close> and the queue no longer than
  \<open>maxWaiting\<close>; and whenever there is room for a caller that went to sleep, the channel it
  sleeps on has been closed.
\<close>

theorem image_work_bounded:
  fixes s :: budget
  assumes reach: "budget_step\<^sup>*\<^sup>* (budget_init (New maxActive maxWaiting maxPixels maxWait)) s"
  shows "int (card (dom (bg_holders s))) \<le> max 0 maxActive \<and> total (bg_holders s) \<le> max 0 maxPixels \<and>
    int (card (queued s)) \<le> max 0 maxWaiting \<and>
    (\<forall>i w ctx now l n w' s'. bg_waiters s i = Some w \<longrightarrow> acquire_pass ctx now w (bg_limiter s) = (l, Sleeps n w') \<longrightarrow>
       budget_step\<^sup>*\<^sup>* (s\<lparr>bg_limiter := l, bg_waiters := (bg_waiters s)(i \<mapsto> w')\<rparr>) s' \<longrightarrow>
       fits (wt_pixels w') (bg_limiter s') \<longrightarrow> n < lm_changed (bg_limiter s'))"
proof -
  from image_wait.kept [OF reach budget_init_inv] have inv: "budget_inv s" by blast
  from budget_steps_max [OF reach] have max: "lm_maxActive (bg_limiter s) = maxActive" "lm_maxPixels (bg_limiter s) = maxPixels"
    "lm_maxWaiting (bg_limiter s) = maxWaiting" by (simp_all add: budget_init_def New_def)
  have "int (card (dom (bg_holders s))) \<le> max 0 maxActive" "total (bg_holders s) \<le> max 0 maxPixels"
    "int (card (queued s)) \<le> max 0 maxWaiting"
    using budget_invD(5-10) [OF inv] max by simp_all
  then show ?thesis using sleeper_is_woken [OF inv] by blast
qed

definition sample_budget :: budget where
  "sample_budget = \<lparr>bg_limiter = \<lparr>lm_active = 1, lm_waiting = 0, lm_maxActive = 1, lm_maxWaiting = 4, lm_pixels = 60,
     lm_maxPixels = 100, lm_maxWait = 5, lm_changed = 0\<rparr>,
     bg_waiters = [2 \<mapsto> \<lparr>wt_pixels = 50, wt_deadline = 5, wt_queued = False\<rparr>], bg_holders = [1 \<mapsto> 60]\<rparr>"

lemma sample_budget_reach: "budget_step\<^sup>*\<^sup>* (budget_init (New 1 4 100 5)) sample_budget"
proof -
  let ?l = "New 1 4 100 5"
  let ?w = "\<lparr>wt_pixels = 60, wt_deadline = 5, wt_queued = False\<rparr>"
  let ?a = "(budget_init ?l)\<lparr>bg_waiters := [1 \<mapsto> ?w]\<rparr>"
  let ?b = "?a\<lparr>bg_limiter := ?l\<lparr>lm_active := 1, lm_pixels := 60\<rparr>, bg_waiters := Map.empty, bg_holders := [1 \<mapsto> 60]\<rparr>"
  have a: "budget_step (budget_init ?l) ?a"
    using bs_enter [of "budget_init ?l" 1 None 0 60 ?w] by (simp add: budget_init_def acquire_entry_def New_def)
  have b: "budget_step ?a ?b"
    using bs_grant [of ?a 1 ?w None 0 "?l\<lparr>lm_active := 1, lm_pixels := 60\<rparr>"]
    by (simp add: budget_init_def acquire_pass_def New_def fits_def leave_def fun_upd_idem)
  have c: "budget_step ?b sample_budget"
    using bs_enter [of ?b 2 None 0 50 "\<lparr>wt_pixels = 50, wt_deadline = 5, wt_queued = False\<rparr>"]
    by (simp add: budget_init_def acquire_entry_def New_def sample_budget_def)
  from a b c show ?thesis by (meson rtranclp.rtrancl_into_rtrancl rtranclp.rtrancl_refl)
qed

theorem image_work_bounded_witness:
  "int (card (dom (bg_holders sample_budget))) \<le> 1 \<and> total (bg_holders sample_budget) \<le> 100 \<and>
   (\<exists>l n w'. acquire_pass None 0 \<lparr>wt_pixels = 50, wt_deadline = 5, wt_queued = False\<rparr> (bg_limiter sample_budget) = (l, Sleeps n w') \<and>
     n < lm_changed (bg_limiter (release_once 1 (sample_budget\<lparr>bg_limiter := l, bg_waiters := [2 \<mapsto> w']\<rparr>))))"
proof -
  let ?w = "\<lparr>wt_pixels = 50, wt_deadline = 5, wt_queued = False\<rparr>"
  let ?l = "(bg_limiter sample_budget)\<lparr>lm_waiting := 1\<rparr>" and ?w' = "?w\<lparr>wt_queued := True\<rparr>"
  let ?t = "sample_budget\<lparr>bg_limiter := ?l, bg_waiters := [2 \<mapsto> ?w']\<rparr>"
  have w: "bg_waiters sample_budget 2 = Some ?w" by (simp add: sample_budget_def)
  have pass: "acquire_pass None 0 ?w (bg_limiter sample_budget) = (?l, Sleeps 0 ?w')"
    by (simp add: acquire_pass_def sample_budget_def fits_def)
  have later: "budget_step\<^sup>*\<^sup>* (sample_budget\<lparr>bg_limiter := ?l, bg_waiters := (bg_waiters sample_budget)(2 \<mapsto> ?w')\<rparr>) (release_once 1 ?t)"
    using bs_release [of ?t 1] by (simp add: sample_budget_def)
  have room: "fits (wt_pixels ?w') (bg_limiter (release_once 1 ?t))"
    by (simp add: release_once_def release_def sample_budget_def fits_def)
  from image_work_bounded [OF sample_budget_reach] have
    "int (card (dom (bg_holders sample_budget))) \<le> 1" "total (bg_holders sample_budget) \<le> 100"
    "0 < lm_changed (bg_limiter (release_once 1 ?t))" using w pass later room by (simp, simp, blast)
  with pass show ?thesis by blast
qed

end
