(* ===== verification/OffsetCommit.thy ===== *)
theory OffsetCommit
  imports KafkaRetry LikeConfig
begin

text \<open>
  The consumer group of the embedding pipeline (tasks/post\_embedding\_group.go): one worker per
  assigned partition fetches batches, processes each until it succeeds, and commits its offset
  through a coordinator shared by all workers of a generation. Each blocking call of a worker is
  one step, so that workers, the closing of the generation and everything else interleave; the
  members of a group, each with a coordinator and workers of its own, and its generations do too.
\<close>

section \<open>The commit coordinator\<close>

record offset_progress =
  initialNextOffset :: int
  lastConfirmedNextOffset :: int
  pendingNextOffset :: int
  pending :: bool

record coordinator =
  co_topic :: string
  co_closing :: bool
  co_progress :: "int \<rightharpoonup> offset_progress"

text \<open>The assignments are partitions with the offsets committed for them, negative if there is none.\<close>

definition newPostEmbeddingOffsetCommitCoordinator :: "string \<Rightarrow> (int \<times> int) list \<Rightarrow> coordinator" where
  "newPostEmbeddingOffsetCommitCoordinator topic assignments =
     \<lparr>co_topic = topic, co_closing = False,
      co_progress = map_of (rev (map (\<lambda>(p, off). (p, \<lparr>initialNextOffset = off, lastConfirmedNextOffset = off,
        pendingNextOffset = 0, pending = False\<rparr>)) assignments))\<rparr>"

datatype commit_error =
    CommitCtx net_error
  | CommitGateClosed
  | CommitTopic string
  | CommitPartition int
  | OffsetRegression
  | CommitTargetChanged
  | CommitRpc string

text \<open>The answer of \<open>CommitOffsets\<close>: an error may come although the broker stored the offset.\<close>

datatype commit_fault = CommitOk | CommitRefused string | CommitUncertain string

text \<open>
  What \<open>Commit\<close> meets: the two contexts when it holds \<open>rpcMu\<close>, whether the gate closed or a
  context ended before the second check, and the answer of the broker. \<open>rpcMu\<close> is held
  throughout, so no other commit runs meanwhile.
\<close>

record commit_env =
  ce_ctx :: "net_error option"
  ce_generation_ctx :: "net_error option"
  ce_closing_late :: bool
  ce_rpc :: commit_fault

definition Commit ::
  "commit_env \<Rightarrow> string \<Rightarrow> int \<Rightarrow> int \<Rightarrow> coordinator \<Rightarrow> (int \<rightharpoonup> int) \<Rightarrow> coordinator \<times> (int \<rightharpoonup> int) \<times> commit_error option" where
  "Commit env topic p next c broker =
     (case (ce_ctx env, ce_generation_ctx env) of
        (Some e, _) \<Rightarrow> (c, broker, Some (CommitCtx e))
      | (None, Some e) \<Rightarrow> (c, broker, Some (CommitCtx e))
      | (None, None) \<Rightarrow>
         (if co_closing c then (c, broker, Some CommitGateClosed)
          else if trim_space topic \<noteq> co_topic c then (c, broker, Some (CommitTopic topic))
          else (case co_progress c p of
             None \<Rightarrow> (c, broker, Some (CommitPartition p))
           | Some st \<Rightarrow>
              (if next < lastConfirmedNextOffset st \<or> pending st \<and> next < pendingNextOffset st then (c, broker, Some OffsetRegression)
               else if pending st \<and> next \<noteq> pendingNextOffset st then (c, broker, Some CommitTargetChanged)
               else if \<not> pending st \<and> next = lastConfirmedNextOffset st then (c, broker, None)
               else
                 (let st1 = st\<lparr>pendingNextOffset := next, pending := True\<rparr>;
                      c1 = c\<lparr>co_progress := (co_progress c)(p \<mapsto> st1)\<rparr>;
                      st2 = st1\<lparr>lastConfirmedNextOffset := (if next > lastConfirmedNextOffset st1 then next else lastConfirmedNextOffset st1),
                        pending := False, pendingNextOffset := 0\<rparr>;
                      c2 = c1\<lparr>co_progress := (co_progress c1)(p \<mapsto> st2)\<rparr>
                  in if ce_closing_late env then (c1, broker, Some CommitGateClosed)
                     else case ce_rpc env of
                       CommitOk \<Rightarrow> (c2, broker(p \<mapsto> next), None)
                     | CommitRefused e \<Rightarrow> (c1, broker, Some (CommitRpc e))
                     | CommitUncertain e \<Rightarrow> (c1, broker(p \<mapsto> next), Some (CommitRpc e)))))))"

definition LastConfirmedNextOffset :: "coordinator \<Rightarrow> int \<Rightarrow> int \<Rightarrow> int" where
  "LastConfirmedNextOffset c p fallback =
     (case co_progress c p of
        None \<Rightarrow> fallback
      | Some st \<Rightarrow> if lastConfirmedNextOffset st < 0 \<and> initialNextOffset st \<ge> 0 then initialNextOffset st
          else lastConfirmedNextOffset st)"

definition CloseCoordinator :: "coordinator \<Rightarrow> coordinator" where
  "CloseCoordinator c = c\<lparr>co_closing := True\<rparr>"

section \<open>A worker\<close>

record kafka_message =
  km_topic :: string
  km_partition :: int
  km_offset :: int
  km_value :: "envelope option"

fun increasing_offsets :: "kafka_message list \<Rightarrow> bool" where
  "increasing_offsets (a # b # rest) \<longleftrightarrow> km_offset a < km_offset b \<and> increasing_offsets (b # rest)"
| "increasing_offsets _ \<longleftrightarrow> True"

definition validatePostEmbeddingPartitionBatch :: "kafka_message list \<Rightarrow> string \<Rightarrow> int \<Rightarrow> bool" where
  "validatePostEmbeddingPartitionBatch ms topic p \<longleftrightarrow>
     ms \<noteq> [] \<and> list_all (\<lambda>m. km_topic m = topic \<and> km_partition m = p) ms \<and> increasing_offsets ms"

record fetch_result =
  ft_messages :: "kafka_message list"
  ft_ctx :: "string option"
  ft_terminal :: "string option"

datatype phase = Fetching | Processing fetch_result | Committing fetch_result nat | Recommitting fetch_result | Returned string

record worker =
  wk_next :: int
  wk_hold :: bool
  wk_phase :: phase

definition postEmbeddingCommitAttempts :: nat where "postEmbeddingCommitAttempts = 3"

definition target :: "fetch_result \<Rightarrow> int" where
  "target f = km_offset (last (ft_messages f)) + 1"

text \<open>After a commit: the error the fetch ended with, or the next fetch.\<close>

definition committed :: "fetch_result \<Rightarrow> worker \<Rightarrow> worker" where
  "committed f wk = wk\<lparr>wk_next := target f, wk_phase := (case ft_terminal f of Some e \<Rightarrow> Returned e | None \<Rightarrow> Fetching)\<rparr>"

text \<open>
  What a worker of \<open>consumePostEmbeddingPartitionReader\<close> comes back from: a fetch, a run of
  the batch processor, a commit, or the end of its context. The pauses between attempts end with
  the next attempt or with the context.
\<close>

datatype worker_event =
    EvFetched fetch_result
  | EvProcessed "string option"
  | EvCommit commit_env
  | EvCtxDone string

definition consume_step ::
  "string \<Rightarrow> int \<Rightarrow> worker_event \<Rightarrow> worker \<Rightarrow> coordinator \<Rightarrow> (int \<rightharpoonup> int) \<Rightarrow> worker \<times> coordinator \<times> (int \<rightharpoonup> int)" where
  "consume_step topic p ev wk c broker =
     (case (wk_phase wk, ev) of
        (Returned e, _) \<Rightarrow> (wk, c, broker)
      | (_, EvCtxDone e) \<Rightarrow> (wk\<lparr>wk_phase := Returned e\<rparr>, c, broker)
      | (Fetching, EvFetched f) \<Rightarrow>
         (case ft_ctx f of
            Some e \<Rightarrow> (wk\<lparr>wk_phase := Returned e\<rparr>, c, broker)
          | None \<Rightarrow>
             (if ft_messages f = [] then
                (case ft_terminal f of Some e \<Rightarrow> (wk\<lparr>wk_phase := Returned e\<rparr>, c, broker) | None \<Rightarrow> (wk, c, broker))
              else if \<not> validatePostEmbeddingPartitionBatch (ft_messages f) topic p
              then (wk\<lparr>wk_hold := True, wk_phase := Returned ''invalid partition batch''\<rparr>, c, broker)
              else (wk\<lparr>wk_phase := Processing f\<rparr>, c, broker)))
      | (Processing f, EvProcessed None) \<Rightarrow> (wk\<lparr>wk_hold := False, wk_phase := Committing f 1\<rparr>, c, broker)
      | (Processing f, EvProcessed (Some e)) \<Rightarrow> (wk\<lparr>wk_hold := True\<rparr>, c, broker)
      | (Committing f k, EvCommit env) \<Rightarrow>
         (case Commit env topic p (target f) c broker of
            (c', b', None) \<Rightarrow> (committed f wk, c', b')
          | (c', b', Some e) \<Rightarrow>
              (wk\<lparr>wk_phase := (if k < postEmbeddingCommitAttempts then Committing f (k + 1) else Recommitting f)\<rparr>, c', b'))
      | (Recommitting f, EvCommit env) \<Rightarrow>
         (case Commit env topic p (target f) c broker of
            (c', b', None) \<Rightarrow> (committed f wk, c', b')
          | (c', b', Some e) \<Rightarrow> (wk, c', b'))
      | _ \<Rightarrow> (wk, c, broker))"

text \<open>
  The offset from which \<open>runPostEmbeddingPartitionWorkerPass\<close> opens the next reader: the one
  reached, or what the coordinator has confirmed.
\<close>

definition reopen_offset :: "coordinator \<Rightarrow> int \<Rightarrow> int \<Rightarrow> int \<Rightarrow> int" where
  "reopen_offset c p next attempt = LastConfirmedNextOffset c p (if attempt \<ge> next then attempt else next)"

section \<open>A generation\<close>

text \<open>
  The coordinator, the offsets the broker holds, the workers, and the world the batch processor
  changes. \<open>gr_reader\<close> is the offset from which the reader of a partition goes on.
\<close>

record 'w generation =
  gr_coord :: coordinator
  gr_broker :: "int \<rightharpoonup> int"
  gr_workers :: "int \<rightharpoonup> worker"
  gr_reader :: "int \<Rightarrow> int"
  gr_world :: 'w

text \<open>
  What Kafka promises of a reader: it delivers the messages of the partition from its position
  on, in order and without a gap. \<open>log\<close> is everything the partition ever holds.
\<close>

definition delivers :: "(int \<Rightarrow> kafka_message set) \<Rightarrow> int \<Rightarrow> int \<Rightarrow> kafka_message list \<Rightarrow> bool" where
  "delivers log p pos ms \<longleftrightarrow>
     (\<forall>m \<in> set ms. m \<in> log p \<and> pos \<le> km_offset m) \<and>
     (ms \<noteq> [] \<longrightarrow> (\<forall>m \<in> log p. pos \<le> km_offset m \<and> km_offset m \<le> km_offset (last ms) \<longrightarrow> m \<in> set ms))"

text \<open>
  The steps, for a batch processor \<open>proc\<close> that relates the messages and the worlds before and
  after a run to its answer, and for everything else that changes the world.
\<close>

inductive generation_step ::
  "(int \<Rightarrow> kafka_message set) \<Rightarrow> (kafka_message list \<Rightarrow> 'w \<Rightarrow> 'w \<Rightarrow> string option \<Rightarrow> bool) \<Rightarrow> ('w \<Rightarrow> 'w \<Rightarrow> bool) \<Rightarrow>
   'w generation \<Rightarrow> 'w generation \<Rightarrow> bool" for log proc other where
  gr_open: "co_progress (gr_coord g) p \<noteq> None \<Longrightarrow>
    gr_workers g p = None \<or> (\<exists>wk e. gr_workers g p = Some wk \<and> wk_phase wk = Returned e) \<Longrightarrow>
    next = reopen_offset (gr_coord g) p reached attempt \<Longrightarrow>
    generation_step log proc other g
      (g\<lparr>gr_workers := (gr_workers g)(p \<mapsto> \<lparr>wk_next = next, wk_hold = False, wk_phase = Fetching\<rparr>), gr_reader := (gr_reader g)(p := next)\<rparr>)"
| gr_fetch: "gr_workers g p = Some wk \<Longrightarrow> wk_phase wk = Fetching \<Longrightarrow> delivers log p (gr_reader g p) (ft_messages f) \<Longrightarrow>
    consume_step (co_topic (gr_coord g)) p (EvFetched f) wk (gr_coord g) (gr_broker g) = (wk', c', b') \<Longrightarrow>
    generation_step log proc other g
      (g\<lparr>gr_workers := (gr_workers g)(p \<mapsto> wk'),
         gr_reader := (gr_reader g)(p := if ft_messages f = [] then gr_reader g p else target f), gr_coord := c', gr_broker := b'\<rparr>)"
| gr_process: "gr_workers g p = Some wk \<Longrightarrow> wk_phase wk = Processing f \<Longrightarrow> proc (ft_messages f) (gr_world g) w' r \<Longrightarrow>
    consume_step (co_topic (gr_coord g)) p (EvProcessed r) wk (gr_coord g) (gr_broker g) = (wk', c', b') \<Longrightarrow>
    generation_step log proc other g
      (g\<lparr>gr_workers := (gr_workers g)(p \<mapsto> wk'), gr_world := w', gr_coord := c', gr_broker := b'\<rparr>)"
| gr_commit: "gr_workers g p = Some wk \<Longrightarrow>
    consume_step (co_topic (gr_coord g)) p (EvCommit env) wk (gr_coord g) (gr_broker g) = (wk', c', b') \<Longrightarrow>
    generation_step log proc other g (g\<lparr>gr_workers := (gr_workers g)(p \<mapsto> wk'), gr_coord := c', gr_broker := b'\<rparr>)"
| gr_cancel: "gr_workers g p = Some wk \<Longrightarrow>
    consume_step (co_topic (gr_coord g)) p (EvCtxDone e) wk (gr_coord g) (gr_broker g) = (wk', c', b') \<Longrightarrow>
    generation_step log proc other g (g\<lparr>gr_workers := (gr_workers g)(p \<mapsto> wk'), gr_coord := c', gr_broker := b'\<rparr>)"
| gr_close: "generation_step log proc other g (g\<lparr>gr_coord := CloseCoordinator (gr_coord g)\<rparr>)"
| gr_other: "other (gr_world g) w' \<Longrightarrow> generation_step log proc other g (g\<lparr>gr_world := w'\<rparr>)"

section \<open>The group\<close>

text \<open>
  Every process of the group is a member with its own coordinator and workers; they share the
  broker and the world.
\<close>

record member =
  mb_coord :: coordinator
  mb_workers :: "int \<rightharpoonup> worker"
  mb_reader :: "int \<Rightarrow> int"

record 'w consumer_group =
  cg_members :: "nat \<Rightarrow> member"
  cg_broker :: "int \<rightharpoonup> int"
  cg_world :: 'w

definition member_view :: "'w consumer_group \<Rightarrow> nat \<Rightarrow> 'w generation" where
  "member_view G i =
     \<lparr>gr_coord = mb_coord (cg_members G i), gr_broker = cg_broker G, gr_workers = mb_workers (cg_members G i),
      gr_reader = mb_reader (cg_members G i), gr_world = cg_world G\<rparr>"

definition put_member :: "'w consumer_group \<Rightarrow> nat \<Rightarrow> 'w generation \<Rightarrow> 'w consumer_group" where
  "put_member G i g =
     \<lparr>cg_members = (cg_members G)(i := \<lparr>mb_coord = gr_coord g, mb_workers = gr_workers g, mb_reader = gr_reader g\<rparr>),
      cg_broker = gr_broker g, cg_world = gr_world g\<rparr>"

text \<open>
  A new generation assigns each member some of the partitions, at the offset the broker holds for
  them, or at \<open>StartOffset\<close> when there is none.
\<close>

definition FirstOffset :: int where "FirstOffset = - 2"

definition new_member :: "string \<Rightarrow> (int \<rightharpoonup> int) \<Rightarrow> int list \<Rightarrow> member" where
  "new_member topic broker ps =
     \<lparr>mb_coord = newPostEmbeddingOffsetCommitCoordinator topic
        (map (\<lambda>p. (p, case broker p of Some a \<Rightarrow> a | None \<Rightarrow> FirstOffset)) ps),
      mb_workers = Map.empty, mb_reader = (\<lambda>_. 0)\<rparr>"

text \<open>
  The steps of a group: a step of a member; a new generation, after which the broker refuses the
  commits of the old one; and the end of a run of the batch processor that an old generation left
  behind.
\<close>

inductive group_step ::
  "(int \<Rightarrow> kafka_message set) \<Rightarrow> (kafka_message list \<Rightarrow> 'w \<Rightarrow> 'w \<Rightarrow> string option \<Rightarrow> bool) \<Rightarrow> ('w \<Rightarrow> 'w \<Rightarrow> bool) \<Rightarrow> string \<Rightarrow>
   'w consumer_group \<Rightarrow> 'w consumer_group \<Rightarrow> bool" for log proc other topic where
  cg_member: "generation_step log proc other (member_view G i) g' \<Longrightarrow> group_step log proc other topic G (put_member G i g')"
| cg_rebalance: "\<forall>i j p. p \<in> set (ps i) \<longrightarrow> p \<in> set (ps j) \<longrightarrow> i = j \<Longrightarrow>
    group_step log proc other topic G (G\<lparr>cg_members := \<lambda>i. new_member topic (cg_broker G) (ps i)\<rparr>)"
| cg_left_over: "proc ms (cg_world G) w' r \<Longrightarrow> group_step log proc other topic G (G\<lparr>cg_world := w'\<rparr>)"

text \<open>A group begins with no generation, at the offsets committed by then.\<close>

definition group_init :: "string \<Rightarrow> (int \<rightharpoonup> int) \<Rightarrow> 'w \<Rightarrow> 'w consumer_group" where
  "group_init topic broker w = \<lparr>cg_members = (\<lambda>_. new_member topic broker []), cg_broker = broker, cg_world = w\<rparr>"

section \<open>What the coordinator keeps\<close>

lemma Commit_cases:
  assumes "Commit env topic p next c broker = (c', broker', r)"
  obtains (refused) e where "c' = c" "broker' = broker" "r = Some e"
  | (repeated) st where "co_progress c p = Some st" "next = lastConfirmedNextOffset st" "c' = c" "broker' = broker" "r = None"
  | (tried) st e where "co_progress c p = Some st" "lastConfirmedNextOffset st \<le> next" "pending st \<Longrightarrow> next = pendingNextOffset st"
      "c' = c\<lparr>co_progress := (co_progress c)(p \<mapsto> st\<lparr>pendingNextOffset := next, pending := True\<rparr>)\<rparr>"
      "broker' = broker \<or> broker' = broker(p \<mapsto> next)" "r = Some e"
  | (confirmed) st where "co_progress c p = Some st" "lastConfirmedNextOffset st \<le> next" "pending st \<Longrightarrow> next = pendingNextOffset st"
      "c' = c\<lparr>co_progress := (co_progress c)(p \<mapsto> st\<lparr>lastConfirmedNextOffset := next, pending := False, pendingNextOffset := 0\<rparr>)\<rparr>"
      "broker' = broker(p \<mapsto> next)" "r = None"
proof (cases "co_progress c p")
  case None
  with assms obtain e where "c' = c" "broker' = broker" "r = Some e" by (auto simp: Commit_def split: option.splits if_splits)
  then show thesis by (rule refused)
next
  case (Some st)
  show thesis
  proof (cases "ce_ctx env = None \<and> ce_generation_ctx env = None \<and> \<not> co_closing c \<and> trim_space topic = co_topic c \<and>
      \<not> (next < lastConfirmedNextOffset st \<or> pending st \<and> next < pendingNextOffset st) \<and> \<not> (pending st \<and> next \<noteq> pendingNextOffset st)")
    case False
    with assms Some obtain e where "c' = c" "broker' = broker" "r = Some e" by (auto simp: Commit_def split: option.splits if_splits)
    then show thesis by (rule refused)
  next
    case ok: True
    show thesis
    proof (cases "\<not> pending st \<and> next = lastConfirmedNextOffset st")
      case True
      with assms Some ok show thesis by (intro repeated [OF Some]) (auto simp: Commit_def)
    next
      case False
      have max: "(if next > lastConfirmedNextOffset st then next else lastConfirmedNextOffset st) = next" using ok by auto
      show thesis
      proof (cases "\<not> ce_closing_late env \<and> ce_rpc env = CommitOk")
        case True
        with assms Some ok False max show thesis
          by (intro confirmed [OF Some]) (auto simp: Commit_def Let_def)
      next
        case late: False
        with assms Some ok False obtain e where
          "c' = c\<lparr>co_progress := (co_progress c)(p \<mapsto> st\<lparr>pendingNextOffset := next, pending := True\<rparr>)\<rparr>"
          "broker' = broker \<or> broker' = broker(p \<mapsto> next)" "r = Some e"
          by (auto simp: Commit_def Let_def split: commit_fault.splits if_splits)
        with ok show thesis by (intro tried [OF Some]) auto
      qed
    qed
  qed
qed

definition progress_ok :: "(int \<Rightarrow> int \<Rightarrow> bool) \<Rightarrow> int \<Rightarrow> coordinator \<Rightarrow> (int \<rightharpoonup> int) \<Rightarrow> bool" where
  "progress_ok below p c broker \<longleftrightarrow>
     (\<forall>off. broker p = Some off \<longrightarrow> below p off) \<and>
     (case co_progress c p of
        None \<Rightarrow> True
      | Some st \<Rightarrow> below p (lastConfirmedNextOffset st) \<and> (pending st \<longrightarrow> below p (pendingNextOffset st)) \<and>
          initialNextOffset st \<le> lastConfirmedNextOffset st \<and>
          (\<forall>off. broker p = Some off \<longrightarrow> off \<le> lastConfirmedNextOffset st \<or> pending st \<and> off \<le> pendingNextOffset st))"

lemma progress_closing [simp]: "progress_ok below p (c\<lparr>co_closing := x\<rparr>) broker = progress_ok below p c broker"
  by (simp add: progress_ok_def)

text \<open>
  A commit of an offset up to which everything is done keeps that for all offsets, and the broker's
  offset does not go back.
\<close>

lemma Commit_progress:
  assumes run: "Commit env topic p next c broker = (c', broker', r)" and ok: "\<forall>q. progress_ok below q c broker" and reached: "below p next"
  shows "(\<forall>q. progress_ok below q c' broker') \<and> dom (co_progress c') = dom (co_progress c) \<and>
    (\<forall>q. co_progress c q = None \<longrightarrow> broker' q = broker q) \<and>
    (\<forall>q off. broker q = Some off \<longrightarrow> (\<exists>off'. broker' q = Some off' \<and> off \<le> off'))"
proof (cases rule: Commit_cases [OF run])
  case (1 e)
  with ok show ?thesis by auto
next
  case (2 st)
  with ok show ?thesis by auto
next
  case (3 st e)
  have old: "\<And>off. broker p = Some off \<Longrightarrow> off \<le> next"
    using ok [rule_format, of p] 3(1-3) by (fastforce simp: progress_ok_def)
  have "progress_ok below p c' broker'"
    using ok [rule_format, of p] 3 reached old by (auto simp: progress_ok_def)
  moreover have "progress_ok below q c' broker'" if "q \<noteq> p" for q
    using ok [rule_format, of q] 3(4,5) that by (auto simp: progress_ok_def split: option.splits)
  ultimately have "\<forall>q. progress_ok below q c' broker'" by metis
  moreover have "\<forall>q off. broker q = Some off \<longrightarrow> (\<exists>off'. broker' q = Some off' \<and> off \<le> off')"
    using 3(5) old by auto
  moreover have "dom (co_progress c') = dom (co_progress c)" using 3(1,4) by auto
  moreover have "\<forall>q. co_progress c q = None \<longrightarrow> broker' q = broker q" using 3(1,5) by auto
  ultimately show ?thesis by blast
next
  case (4 st)
  have old: "\<And>off. broker p = Some off \<Longrightarrow> off \<le> next"
    using ok [rule_format, of p] 4(1-3) by (fastforce simp: progress_ok_def)
  have "progress_ok below p c' broker'"
    using ok [rule_format, of p] 4 reached old by (auto simp: progress_ok_def)
  moreover have "progress_ok below q c' broker'" if "q \<noteq> p" for q
    using ok [rule_format, of q] 4(4,5) that by (auto simp: progress_ok_def split: option.splits)
  ultimately have "\<forall>q. progress_ok below q c' broker'" by metis
  moreover have "\<forall>q off. broker q = Some off \<longrightarrow> (\<exists>off'. broker' q = Some off' \<and> off \<le> off')"
    using 4(5) old by auto
  moreover have "dom (co_progress c') = dom (co_progress c)" using 4(1,4) by auto
  moreover have "\<forall>q. co_progress c q = None \<longrightarrow> broker' q = broker q" using 4(1,5) by auto
  ultimately show ?thesis by blast
qed

section \<open>Nothing is committed before its effect\<close>

text \<open>
  A batch processor whose success settles every message of the batch, in a world where a settled
  message stays settled.
\<close>

locale batch_effect =
  fixes proc :: "kafka_message list \<Rightarrow> 'w \<Rightarrow> 'w \<Rightarrow> string option \<Rightarrow> bool"
    and other :: "'w \<Rightarrow> 'w \<Rightarrow> bool"
    and settled :: "kafka_message \<Rightarrow> 'w \<Rightarrow> bool"
  assumes settles: "proc ms w w' None \<Longrightarrow> m \<in> set ms \<Longrightarrow> settled m w'"
    and keeps: "proc ms w w' r \<Longrightarrow> settled m w \<Longrightarrow> settled m w'"
    and others: "other w w' \<Longrightarrow> settled m w \<Longrightarrow> settled m w'"
begin

text \<open>Every message of the partition from the start of the generation up to an offset is settled.\<close>

definition below :: "(int \<Rightarrow> kafka_message set) \<Rightarrow> (int \<Rightarrow> int) \<Rightarrow> 'w \<Rightarrow> int \<Rightarrow> int \<Rightarrow> bool" where
  "below log start w p off \<longleftrightarrow> (\<forall>m \<in> log p. start p \<le> km_offset m \<and> km_offset m < off \<longrightarrow> settled m w)"

definition worker_ok :: "(int \<Rightarrow> kafka_message set) \<Rightarrow> (int \<Rightarrow> int) \<Rightarrow> 'w \<Rightarrow> int \<Rightarrow> int \<Rightarrow> worker \<Rightarrow> bool" where
  "worker_ok log start w p reader wk \<longleftrightarrow>
     (case wk_phase wk of
        Fetching \<Rightarrow> below log start w p reader
      | Processing f \<Rightarrow> (\<forall>m \<in> log p. start p \<le> km_offset m \<and> km_offset m < target f \<longrightarrow> settled m w \<or> m \<in> set (ft_messages f)) \<and> reader = target f
      | Committing f k \<Rightarrow> below log start w p (target f) \<and> reader = target f
      | Recommitting f \<Rightarrow> below log start w p (target f) \<and> reader = target f
      | Returned e \<Rightarrow> True)"

definition generation_inv :: "(int \<Rightarrow> kafka_message set) \<Rightarrow> (int \<Rightarrow> int) \<Rightarrow> 'w generation \<Rightarrow> bool" where
  "generation_inv log start g \<longleftrightarrow>
     (\<forall>p. progress_ok (below log start (gr_world g)) p (gr_coord g) (gr_broker g)) \<and>
     (\<forall>p wk. gr_workers g p = Some wk \<longrightarrow> worker_ok log start (gr_world g) p (gr_reader g p) wk)"

lemma below_world: "(\<And>m. settled m w \<Longrightarrow> settled m w') \<Longrightarrow> below log start w p off \<Longrightarrow> below log start w' p off"
  unfolding below_def by blast

lemma worker_world: "(\<And>m. settled m w \<Longrightarrow> settled m w') \<Longrightarrow> worker_ok log start w p r wk \<Longrightarrow> worker_ok log start w' p r wk"
  using below_world [of w w'] unfolding worker_ok_def by (auto split: phase.splits)

lemma progress_world: "(\<And>m. settled m w \<Longrightarrow> settled m w') \<Longrightarrow> progress_ok (below log start w) p c b \<Longrightarrow> progress_ok (below log start w') p c b"
  using below_world [of w w'] unfolding progress_ok_def by (auto split: option.splits)

lemma inv_world:
  "(\<And>m. settled m (gr_world g) \<Longrightarrow> settled m w') \<Longrightarrow> generation_inv log start g \<Longrightarrow> generation_inv log start (g\<lparr>gr_world := w'\<rparr>)"
  using progress_world [of "gr_world g" w'] worker_world [of "gr_world g" w'] unfolding generation_inv_def by simp

text \<open>The offset a commit asks for.\<close>

lemma commit_step:
  assumes run: "consume_step topic p (EvCommit env) wk c broker = (wk', c', b')" and wk: "worker_ok log start w p r wk"
    and ok: "\<forall>q. progress_ok (below log start w) q c broker"
  shows "(\<forall>q. progress_ok (below log start w) q c' b') \<and> worker_ok log start w p r wk' \<and>
    dom (co_progress c') = dom (co_progress c) \<and> (\<forall>q. co_progress c q = None \<longrightarrow> b' q = broker q) \<and>
    (\<forall>q off. broker q = Some off \<longrightarrow> (\<exists>off'. b' q = Some off' \<and> off \<le> off'))"
proof -
  have same: ?thesis if "wk' = wk" "c' = c" "b' = broker" using that wk ok by auto
  have commits: ?thesis
    if "below log start w p (target f)" "r = target f" "Commit env topic p (target f) c broker = (c', b', x)"
      "wk' = wk \<or> wk' = wk\<lparr>wk_phase := Committing f k\<rparr> \<or> wk' = wk\<lparr>wk_phase := Recommitting f\<rparr> \<or> wk' = committed f wk" for f k x
  proof -
    note c = Commit_progress [OF that(3) ok that(1)]
    have "worker_ok log start w p r wk'"
      using that wk by (auto simp: worker_ok_def committed_def split: option.splits)
    with c show ?thesis by blast
  qed
  show ?thesis
  proof (cases "wk_phase wk")
    case (Committing f k)
    with wk have "below log start w p (target f)" "r = target f" by (simp_all add: worker_ok_def)
    note wkf = this
    obtain x where "Commit env topic p (target f) c broker = (c', b', x)"
      "wk' = wk \<or> wk' = wk\<lparr>wk_phase := Committing f (k + 1)\<rparr> \<or> wk' = wk\<lparr>wk_phase := Recommitting f\<rparr> \<or> wk' = committed f wk"
      using run Committing by (auto simp: consume_step_def split: prod.splits option.splits if_splits)
    with wkf show ?thesis by (rule commits)
  next
    case (Recommitting f)
    with wk have "below log start w p (target f)" "r = target f" by (simp_all add: worker_ok_def)
    note wkf = this
    obtain x where "Commit env topic p (target f) c broker = (c', b', x)"
      "wk' = wk \<or> wk' = wk\<lparr>wk_phase := Committing f (0)\<rparr> \<or> wk' = wk\<lparr>wk_phase := Recommitting f\<rparr> \<or> wk' = committed f wk"
      using run Recommitting by (auto simp: consume_step_def split: prod.splits option.splits if_splits)
    with wkf show ?thesis by (rule commits)
  qed (use run same in \<open>auto simp: consume_step_def\<close>)
qed

lemma quiet_worker:
  assumes "consume_step topic p ev wk c broker = (wk', c', b')" "\<forall>env. ev \<noteq> EvCommit env"
  shows "c' = c" "b' = broker"
  using assms unfolding consume_step_def
  by (auto split: phase.splits worker_event.splits option.splits if_splits)

lemma fetch_step:
  assumes run: "consume_step topic p (EvFetched f) wk c broker = (wk', c', b')" and phase: "wk_phase wk = Fetching"
    and reader: "delivers log p r (ft_messages f)" and wk: "worker_ok log start w p r wk"
  shows "worker_ok log start w p (if ft_messages f = [] then r else target f) wk'"
proof (cases "\<exists>e. wk_phase wk' = Returned e")
  case False
  have b: "below log start w p r" using wk phase by (simp add: worker_ok_def)
  show ?thesis
  proof (cases "ft_messages f = []")
    case True
    with run phase False have "wk_phase wk' = Fetching" by (auto simp: consume_step_def split: option.splits)
    with True b show ?thesis by (simp add: worker_ok_def)
  next
    case ne: False
    with run phase False have "wk_phase wk' = Processing f"
      by (auto simp: consume_step_def split: option.splits if_splits)
    moreover have "settled m w \<or> m \<in> set (ft_messages f)" if "m \<in> log p" "start p \<le> km_offset m" "km_offset m < target f" for m
    proof (cases "km_offset m < r")
      case True
      with that b show ?thesis by (auto simp: below_def)
    next
      case False
      with that reader ne show ?thesis by (auto simp: delivers_def target_def)
    qed
    ultimately show ?thesis using ne by (simp add: worker_ok_def)
  qed
qed (auto simp: worker_ok_def)

lemma process_step:
  assumes run: "consume_step topic p (EvProcessed r) wk c broker = (wk', c', b')" and phase: "wk_phase wk = Processing f"
    and proc: "proc (ft_messages f) w w' r" and wk: "worker_ok log start w p reader wk"
  shows "worker_ok log start w' p reader wk'"
proof (cases r)
  case None
  with run phase have "wk_phase wk' = Committing f 1" by (simp add: consume_step_def) auto
  moreover have "below log start w' p (target f)"
    using wk phase settles [of "ft_messages f" w w'] keeps [OF proc] proc None unfolding worker_ok_def below_def by auto
  ultimately show ?thesis using wk phase by (simp add: worker_ok_def)
next
  case (Some e)
  with run phase have "wk_phase wk' = Processing f" by (auto simp: consume_step_def)
  with wk phase have "worker_ok log start w p reader wk'" by (simp add: worker_ok_def)
  with keeps [OF proc] show ?thesis by (rule worker_world)
qed

text \<open>Every step keeps the invariant and never moves an offset of the broker back.\<close>

lemma generation_step_inv:
  "generation_step log proc other g g' \<Longrightarrow> generation_inv log start g \<Longrightarrow>
   generation_inv log start g' \<and> dom (co_progress (gr_coord g')) = dom (co_progress (gr_coord g)) \<and>
   (\<forall>p. co_progress (gr_coord g) p = None \<longrightarrow> gr_broker g' p = gr_broker g p) \<and>
   (\<forall>m. settled m (gr_world g) \<longrightarrow> settled m (gr_world g')) \<and>
   (\<forall>p off. gr_broker g p = Some off \<longrightarrow> (\<exists>off'. gr_broker g' p = Some off' \<and> off \<le> off'))"
proof (induction rule: generation_step.induct)
  case (gr_open g p nxt reached attempt)
  then obtain st where st: "co_progress (gr_coord g) p = Some st" by blast
  with gr_open.prems have ok: "below log start (gr_world g) p (lastConfirmedNextOffset st)" "initialNextOffset st \<le> lastConfirmedNextOffset st"
    unfolding generation_inv_def progress_ok_def by (force split: option.splits)+
  have "nxt = lastConfirmedNextOffset st" using gr_open.hyps(3) st ok(2) by (simp add: reopen_offset_def LastConfirmedNextOffset_def)
  with gr_open.prems ok(1) show ?case unfolding generation_inv_def by (simp add: worker_ok_def)
next
  case (gr_fetch g p wk f wk' c' b')
  have same: "c' = gr_coord g" "b' = gr_broker g" using quiet_worker [OF gr_fetch.hyps(4)] by auto
  have "worker_ok log start (gr_world g) p (gr_reader g p) wk" using gr_fetch.prems gr_fetch.hyps(1) unfolding generation_inv_def by blast
  from fetch_step [OF gr_fetch.hyps(4,2,3) this] gr_fetch.prems same show ?case unfolding generation_inv_def by auto
next
  case (gr_process g p wk f w' r wk' c' b')
  have same: "c' = gr_coord g" "b' = gr_broker g" using quiet_worker [OF gr_process.hyps(4)] by auto
  have "worker_ok log start (gr_world g) p (gr_reader g p) wk" using gr_process.prems gr_process.hyps(1) unfolding generation_inv_def by blast
  from process_step [OF gr_process.hyps(4,2,3) this] inv_world [OF keeps [OF gr_process.hyps(3)] gr_process.prems] same keeps [OF gr_process.hyps(3)]
  show ?case unfolding generation_inv_def by auto
next
  case (gr_commit g p wk env wk' c' b')
  have "worker_ok log start (gr_world g) p (gr_reader g p) wk" using gr_commit.prems gr_commit.hyps(1) unfolding generation_inv_def by blast
  from commit_step [OF gr_commit.hyps(2) this] gr_commit.prems
  have c: "\<forall>q. progress_ok (below log start (gr_world g)) q c' b'" "worker_ok log start (gr_world g) p (gr_reader g p) wk'"
    "dom (co_progress c') = dom (co_progress (gr_coord g))" "\<forall>q. co_progress (gr_coord g) q = None \<longrightarrow> b' q = gr_broker g q"
    "\<forall>q off. gr_broker g q = Some off \<longrightarrow> (\<exists>off'. b' q = Some off' \<and> off \<le> off')"
    unfolding generation_inv_def by blast+
  with gr_commit.prems show ?case unfolding generation_inv_def by auto
next
  case (gr_cancel g p wk e wk' c' b')
  have same: "c' = gr_coord g" "b' = gr_broker g" using quiet_worker [OF gr_cancel.hyps(2)] by auto
  have "worker_ok log start (gr_world g) p (gr_reader g p) wk" using gr_cancel.prems gr_cancel.hyps(1) unfolding generation_inv_def by blast
  moreover have "\<exists>x. wk_phase wk' = Returned x" using gr_cancel.hyps(2) by (auto simp: consume_step_def split: phase.splits)
  ultimately have "worker_ok log start (gr_world g) p (gr_reader g p) wk'" by (auto simp: worker_ok_def)
  with gr_cancel.prems same show ?case unfolding generation_inv_def by auto
next
  case (gr_close g)
  then show ?case unfolding generation_inv_def CloseCoordinator_def by simp
next
  case (gr_other g w')
  from inv_world [OF others [OF gr_other.hyps] gr_other.prems] others [OF gr_other.hyps] show ?case by simp
qed

text \<open>The members of a group hold different partitions, and each keeps the invariant of its generation.\<close>

definition group_inv :: "(int \<Rightarrow> kafka_message set) \<Rightarrow> (int \<Rightarrow> int) \<Rightarrow> 'w consumer_group \<Rightarrow> bool" where
  "group_inv log start G \<longleftrightarrow>
     (\<forall>i. generation_inv log start (member_view G i)) \<and>
     (\<forall>i j p. p \<in> dom (co_progress (mb_coord (cg_members G i))) \<longrightarrow> p \<in> dom (co_progress (mb_coord (cg_members G j))) \<longrightarrow> i = j)"

lemma group_inv_below: "group_inv log start G \<Longrightarrow> cg_broker G p = Some off \<Longrightarrow> below log start (cg_world G) p off"
  unfolding group_inv_def generation_inv_def progress_ok_def member_view_def by auto

lemma group_inv_world:
  assumes "\<And>m. settled m (cg_world G) \<Longrightarrow> settled m w'" "group_inv log start G"
  shows "group_inv log start (G\<lparr>cg_world := w'\<rparr>)"
proof -
  have view: "member_view (G\<lparr>cg_world := w'\<rparr>) i = (member_view G i)\<lparr>gr_world := w'\<rparr>" for i
    by (simp add: member_view_def)
  have "generation_inv log start (member_view (G\<lparr>cg_world := w'\<rparr>) i)" for i
    unfolding view
  proof (rule inv_world)
    show "settled m w'" if "settled m (gr_world (member_view G i))" for m using assms(1) that by (simp add: member_view_def)
    show "generation_inv log start (member_view G i)" using assms(2) by (simp add: group_inv_def)
  qed
  with assms(2) show ?thesis by (simp add: group_inv_def)
qed

text \<open>What a member of the same group sees of another member's step.\<close>

lemma other_member_inv:
  assumes inv: "generation_inv log start g" and mono: "\<And>m. settled m (gr_world g) \<Longrightarrow> settled m w'"
    and past: "\<And>p off. b' p = Some off \<Longrightarrow> below log start w' p off"
    and own: "\<And>p. p \<in> dom (co_progress (gr_coord g)) \<Longrightarrow> b' p = gr_broker g p"
  shows "generation_inv log start (g\<lparr>gr_broker := b', gr_world := w'\<rparr>)"
proof -
  from inv_world [OF mono inv] have w: "generation_inv log start (g\<lparr>gr_world := w'\<rparr>)" .
  have "progress_ok (below log start w') p (gr_coord g) b'" for p
  proof (cases "co_progress (gr_coord g) p")
    case None
    with past show ?thesis by (simp add: progress_ok_def)
  next
    case (Some st)
    then have "b' p = gr_broker g p" using own by blast
    moreover have "progress_ok (below log start w') p (gr_coord g) (gr_broker g)" using w unfolding generation_inv_def by simp
    ultimately show ?thesis using Some by (simp add: progress_ok_def)
  qed
  with w show ?thesis unfolding generation_inv_def by simp
qed

lemma member_step_inv:
  assumes step: "generation_step log proc other (member_view G i) g'" and inv: "group_inv log start G"
  shows "group_inv log start (put_member G i g') \<and>
    (\<forall>p off. cg_broker G p = Some off \<longrightarrow> (\<exists>off'. gr_broker g' p = Some off' \<and> off \<le> off'))"
proof -
  let ?G = "put_member G i g'"
  have gi: "generation_inv log start (member_view G j)" for j using inv by (simp add: group_inv_def)
  have apart: "p \<in> dom (co_progress (mb_coord (cg_members G j))) \<Longrightarrow> p \<in> dom (co_progress (mb_coord (cg_members G k))) \<Longrightarrow> j = k" for j k p
    using inv unfolding group_inv_def by blast
  note s = generation_step_inv [OF step gi]
  have new: "generation_inv log start g'" using s by blast
  have view: "member_view ?G i = g'" by (cases g') (simp add: member_view_def put_member_def)
  have dom: "dom (co_progress (gr_coord g')) = dom (co_progress (mb_coord (cg_members G i)))"
    using s by (simp add: member_view_def)
  have quiet: "gr_broker g' p = cg_broker G p" if "p \<in> dom (co_progress (mb_coord (cg_members G j)))" "j \<noteq> i" for j p
  proof -
    have "p \<notin> dom (co_progress (mb_coord (cg_members G i)))" using apart that by blast
    with s show ?thesis by (auto simp: member_view_def dom_def)
  qed
  have "generation_inv log start (member_view ?G j)" for j
  proof (cases "j = i")
    case True
    with new view show ?thesis by simp
  next
    case False
    have eq: "member_view ?G j = (member_view G j)\<lparr>gr_broker := gr_broker g', gr_world := gr_world g'\<rparr>"
      using False by (simp add: member_view_def put_member_def)
    show ?thesis
      unfolding eq
    proof (rule other_member_inv [OF gi])
      show "settled m (gr_world g')" if "settled m (gr_world (member_view G j))" for m
        using s that by (simp add: member_view_def)
      show "below log start (gr_world g') p off" if "gr_broker g' p = Some off" for p off
        using new that unfolding generation_inv_def progress_ok_def by blast
      show "gr_broker g' p = gr_broker (member_view G j) p" if "p \<in> dom (co_progress (gr_coord (member_view G j)))" for p
        using quiet False that by (simp add: member_view_def)
    qed
  qed
  moreover have "dom (co_progress (mb_coord (cg_members ?G j))) = dom (co_progress (mb_coord (cg_members G j)))" for j
    using dom by (simp add: put_member_def)
  ultimately have "group_inv log start ?G" using apart unfolding group_inv_def by metis
  with s show ?thesis by (simp add: member_view_def)
qed

lemma new_member_progress:
  "co_progress (mb_coord (new_member topic broker ps)) p =
     (if p \<in> set ps then (let a = (case broker p of Some a \<Rightarrow> a | None \<Rightarrow> FirstOffset) in
        Some \<lparr>initialNextOffset = a, lastConfirmedNextOffset = a, pendingNextOffset = 0, pending = False\<rparr>) else None)"
proof -
  have "map_of (map (\<lambda>p. (p, f p)) xs) p = (if p \<in> set xs then Some (f p) else None)" for f :: "int \<Rightarrow> offset_progress" and xs
    by (induction xs) auto
  from this [of "\<lambda>p. (\<lambda>a. \<lparr>initialNextOffset = a, lastConfirmedNextOffset = a, pendingNextOffset = 0, pending = False\<rparr>)
      (case broker p of Some a \<Rightarrow> a | None \<Rightarrow> FirstOffset)" "rev ps"]
  show ?thesis
    by (simp add: new_member_def newPostEmbeddingOffsetCommitCoordinator_def comp_def rev_map Let_def)
qed

lemma new_members_inv:
  assumes broker: "\<And>p off. b p = Some off \<Longrightarrow> below log start w p off" and start: "\<And>p. 0 \<le> start p"
    and apart: "\<forall>i j p. p \<in> set (ps i) \<longrightarrow> p \<in> set (ps j) \<longrightarrow> i = j"
  shows "group_inv log start \<lparr>cg_members = \<lambda>i. new_member topic b (ps i), cg_broker = b, cg_world = w\<rparr>"
proof -
  have first: "below log start w p FirstOffset" for p
    using start [of p] by (auto simp: below_def FirstOffset_def)
  have "progress_ok (below log start w) p (mb_coord (new_member topic b (ps i))) b" for p i
    using broker first by (auto simp: progress_ok_def new_member_progress Let_def split: option.splits)
  then have "generation_inv log start (member_view \<lparr>cg_members = \<lambda>i. new_member topic b (ps i), cg_broker = b, cg_world = w\<rparr> i)" for i
    by (simp add: generation_inv_def member_view_def new_member_def)
  moreover have "dom (co_progress (mb_coord (new_member topic b (ps i)))) = set (ps i)" for i
    by (auto simp: dom_def new_member_progress Let_def)
  ultimately show ?thesis using apart by (simp add: group_inv_def)
qed

lemma group_step_inv:
  assumes "group_step log proc other topic G G'" "group_inv log start G" "\<And>p. 0 \<le> start p"
  shows "group_inv log start G' \<and> (\<forall>p off. cg_broker G p = Some off \<longrightarrow> (\<exists>off'. cg_broker G' p = Some off' \<and> off \<le> off'))"
  using assms(1)
proof cases
  case (cg_member i g')
  from member_step_inv [OF cg_member(2) assms(2)] show ?thesis by (simp add: cg_member(1) put_member_def)
next
  case (cg_rebalance ps)
  have "G' = \<lparr>cg_members = \<lambda>i. new_member topic (cg_broker G) (ps i), cg_broker = cg_broker G, cg_world = cg_world G\<rparr>"
    by (simp add: cg_rebalance(1))
  with new_members_inv [OF group_inv_below [OF assms(2)] assms(3) cg_rebalance(2)] show ?thesis by simp
next
  case (cg_left_over ms w' r)
  from group_inv_world [OF keeps [OF cg_left_over(2)] assms(2)] show ?thesis by (simp add: cg_left_over(1))
qed

definition origin :: "(int \<rightharpoonup> int) \<Rightarrow> int \<Rightarrow> int" where
  "origin broker p = (case broker p of Some a \<Rightarrow> max 0 a | None \<Rightarrow> 0)"

lemma origin_nonneg: "0 \<le> origin broker p"
  by (simp add: origin_def split: option.splits)

lemma group_reach_inv:
  assumes "(group_step log proc other topic)\<^sup>*\<^sup>* (group_init topic broker w) G"
  shows "group_inv log (origin broker) G"
  using assms
proof (induction rule: rtranclp_induct)
  case base
  have "below log (origin broker) w p off" if "broker p = Some off" for p off
    using that by (auto simp: below_def origin_def)
  from new_members_inv [where ps = "\<lambda>_. []", OF this origin_nonneg] show ?case by (simp add: group_init_def)
next
  case (step G G')
  with group_step_inv [OF step.hyps(2) step.IH origin_nonneg] show ?case by blast
qed

text \<open>
  Whatever the members of a group do, through any number of generations: the messages before a
  committed offset are settled, and an offset never goes back.
\<close>

lemma committed_settled:
  assumes "(group_step log proc other topic)\<^sup>*\<^sup>* (group_init topic broker w) G" "cg_broker G p = Some off"
    and "m \<in> log p" "0 \<le> km_offset m" "\<forall>a. broker p = Some a \<longrightarrow> a \<le> km_offset m" "km_offset m < off"
  shows "settled m (cg_world G)"
  using group_inv_below [OF group_reach_inv [OF assms(1)] assms(2)] assms(3-6)
  by (auto simp: below_def origin_def split: option.splits)

lemma offsets_forward:
  assumes "(group_step log proc other topic)\<^sup>*\<^sup>* (group_init topic broker w) G"
    and "group_step log proc other topic G G'" "cg_broker G p = Some off"
  shows "\<exists>off'. cg_broker G' p = Some off' \<and> off \<le> off'"
  using group_step_inv [OF assms(2) group_reach_inv [OF assms(1)] origin_nonneg] assms(3) by blast

end

end
