(* ===== verification/ProviderGate.thy ===== *)
theory ProviderGate
  imports WakeUp GoFloat AuthStore
begin

text \<open>
  The circuit breaker in front of the embedding provider (tasks/post\_embedding\_provider\_gate.go
  and post\_embedding\_provider\_recovery.go). Requests hold a permit; at most two run at once. A
  failure of the provider opens the circuit for a cooldown, after which a single probe decides
  whether it closes again. Every operation runs under the mutex and is one step.
\<close>

section \<open>What a failure means\<close>

datatype provider_action = ProviderActionRetry | ProviderActionPause | ProviderActionSplitBatch | NoAction

record provider_decision =
  Action :: provider_action
  Reason :: string
  HTTPStatus :: int
  ProviderCode :: string
  DecRetryAfter :: int
  RetryAfterProvided :: bool
  RetryAfterValid :: bool
  RequestId :: string

definition decided :: "provider_action \<Rightarrow> string \<Rightarrow> provider_decision" where
  "decided a r = \<lparr>Action = a, Reason = r, HTTPStatus = 0, ProviderCode = '''', DecRetryAfter = 0,
     RetryAfterProvided = False, RetryAfterValid = False, RequestId = ''''\<rparr>"

text \<open>
  What \<open>errors.Is\<close> and \<open>errors.As\<close> find in the error of a call: a cancelled context, the HTTP
  answer of the provider, a broken contract, a certificate problem, a network error or a missed
  deadline. The codes of an HTTP answer are in lower case and trimmed.
\<close>

record http_failure =
  hf_status :: int
  hf_code :: string
  hf_type :: string
  hf_retry_after :: int
  hf_provided :: bool
  hf_valid :: bool
  hf_request :: string

record call_failure =
  cf_canceled :: bool
  cf_http :: "http_failure option"
  cf_contract :: bool
  cf_certificate :: bool
  cf_network :: bool

definition isProviderQuotaError :: "(string \<Rightarrow> string) \<Rightarrow> string \<Rightarrow> string \<Rightarrow> bool" where
  "isProviderQuotaError lower code type \<longleftrightarrow>
     (\<exists>v \<in> {lower (trim_space code), lower (trim_space type)}. v \<in>
        {''credit_balance_exhausted'', ''organization_spend_limit_exceeded'', ''project_spend_limit_exceeded'',
         ''organization_usage_limit_exceeded'', ''usage_limit_exceeded'', ''insufficient_quota''})"

definition status_decision :: "(string \<Rightarrow> string) \<Rightarrow> int \<Rightarrow> http_failure \<Rightarrow> provider_action \<times> string" where
  "status_decision lower batch h =
     (let st = hf_status h in
      if st = 400 then (ProviderActionPause, ''config'')
      else if st = 401 then (ProviderActionPause, ''auth'')
      else if st = 402 then (ProviderActionPause, ''quota'')
      else if st = 403 then (ProviderActionPause, ''permission'')
      else if st = 404 then (ProviderActionPause, ''config'')
      else if st = 408 \<or> st = 425 then (ProviderActionRetry, ''transport'')
      else if st = 409 then (ProviderActionPause, ''unknown'')
      else if st = 413 then (if batch > 1 then ProviderActionSplitBatch else ProviderActionPause, ''config'')
      else if st = 422 then (ProviderActionPause, ''config'')
      else if st = 429 then
        (if isProviderQuotaError lower (hf_code h) (hf_type h) then (ProviderActionPause, ''quota'')
         else (ProviderActionRetry, ''rate_limit''))
      else if st = 500 \<or> st = 502 \<or> st = 503 \<or> st = 504 then (ProviderActionRetry, ''server'')
      else if st = 501 then (ProviderActionPause, ''config'')
      else (ProviderActionPause, ''unknown''))"

definition classifyPostEmbeddingProviderError :: "(string \<Rightarrow> string) \<Rightarrow> call_failure \<Rightarrow> int \<Rightarrow> provider_decision" where
  "classifyPostEmbeddingProviderError lower err batch =
     (if cf_canceled err then decided NoAction ''transport''
      else (let batch = (if batch < 1 then 1 else batch) in
        case cf_http err of
          Some h \<Rightarrow>
            (case status_decision lower batch h of
               (a, r) \<Rightarrow> \<lparr>Action = a, Reason = r, HTTPStatus = hf_status h, ProviderCode = hf_code h,
                  DecRetryAfter = hf_retry_after h, RetryAfterProvided = hf_provided h, RetryAfterValid = hf_valid h,
                  RequestId = hf_request h\<rparr>)
        | None \<Rightarrow>
            if cf_contract err then
              (if batch > 1 then decided ProviderActionSplitBatch ''contract'' else decided ProviderActionPause ''contract'')
            else if cf_certificate err then decided ProviderActionPause ''config''
            else if cf_network err then decided ProviderActionRetry ''transport''
            else decided ProviderActionRetry ''unknown''))"

datatype failure_scope = FailureScopePartition | FailureScopeInstance | FailureScopeSharedOrUnknown

definition classifyPostEmbeddingFailureScope :: "provider_decision \<Rightarrow> int \<Rightarrow> failure_scope" where
  "classifyPostEmbeddingFailureScope d batch =
     (if Reason d = ''contract'' \<or> HTTPStatus d = 413 \<or> (Action d = ProviderActionSplitBatch \<and> batch > 1)
      then FailureScopePartition else FailureScopeSharedOrUnknown)"

section \<open>The cooldown\<close>

definition postEmbeddingRetryBaseCooldown :: int where "postEmbeddingRetryBaseCooldown = 5 * go_second"
definition postEmbeddingRetryMaxCooldown :: int where "postEmbeddingRetryMaxCooldown = 5 * 60 * go_second"
definition postEmbeddingServicePause :: int where "postEmbeddingServicePause = 15 * 60 * go_second"
definition postEmbeddingContractPause :: int where "postEmbeddingContractPause = 5 * 60 * go_second"

text \<open>The doubling loop; \<open>k\<close> is the number of turns left.\<close>

fun cooldown_loop :: "nat \<Rightarrow> int \<Rightarrow> int" where
  "cooldown_loop 0 delay = delay"
| "cooldown_loop (Suc k) delay =
     (if delay < postEmbeddingRetryMaxCooldown then
        (if delay > postEmbeddingRetryMaxCooldown div 2 then postEmbeddingRetryMaxCooldown
         else cooldown_loop k (delay * 2))
      else delay)"

text \<open>
  The coordinator's counter of failures in a row goes in and out. The jitter is a parameter: the
  code draws a factor at random.
\<close>

definition retry_cooldown :: "(int \<Rightarrow> int) \<Rightarrow> nat \<Rightarrow> int" where
  "retry_cooldown jitter n =
     (let delay = cooldown_loop (n - 1) postEmbeddingRetryBaseCooldown;
          delay = (if delay > postEmbeddingRetryMaxCooldown then postEmbeddingRetryMaxCooldown else delay);
          delay = jitter delay;
          delay = (if delay < postEmbeddingRetryBaseCooldown then postEmbeddingRetryBaseCooldown else delay)
      in if delay > postEmbeddingRetryMaxCooldown then postEmbeddingRetryMaxCooldown else delay)"

definition cooldownFor :: "(int \<Rightarrow> int) \<Rightarrow> provider_decision \<Rightarrow> nat \<Rightarrow> int \<times> provider_decision \<times> nat" where
  "cooldownFor jitter d n =
     (let (delay, d', n') =
        (case Action d of
           ProviderActionRetry \<Rightarrow> (retry_cooldown jitter (n + 1), d, n + 1)
         | ProviderActionPause \<Rightarrow>
             (if Reason d = ''contract'' then postEmbeddingContractPause else postEmbeddingServicePause, d, n)
         | _ \<Rightarrow> (postEmbeddingServicePause, d\<lparr>Action := ProviderActionPause, Reason := ''unknown''\<rparr>, n));
          delay = (if RetryAfterValid d' \<and> DecRetryAfter d' > delay then DecRetryAfter d' else delay);
          delay = (if delay \<le> 0 then postEmbeddingRetryBaseCooldown else delay)
      in (delay, d', n'))"

section \<open>The gate\<close>

datatype circuit_state = CircuitClosed | CircuitOpen | CircuitHalfOpen

record gate =
  gt_state :: circuit_state
  gt_openUntil :: int
  gt_openReason :: string
  gt_inFlight :: int
  gt_epoch :: nat
  gt_changed :: nat
  gt_failures :: nat

record permit =
  pm_epoch :: nat
  pm_halfOpen :: bool

definition postEmbeddingProviderRequestLimit :: int where "postEmbeddingProviderRequestLimit = 2"

definition newPostEmbeddingProviderGate :: gate where
  "newPostEmbeddingProviderGate = \<lparr>gt_state = CircuitClosed, gt_openUntil = 0, gt_openReason = '''', gt_inFlight = 0,
     gt_epoch = 0, gt_changed = 0, gt_failures = 0\<rparr>"

definition signalLocked :: "gate \<Rightarrow> gate" where
  "signalLocked g = g\<lparr>gt_changed := gt_changed g + 1\<rparr>"

text \<open>A pass of the loop of \<open>acquire\<close>: an error, a permit, or the channel and timer to wait for.\<close>

datatype gate_outcome = Cancelled string | Permitted permit | WaitsFor nat "int option"

definition acquire :: "string option \<Rightarrow> int \<Rightarrow> gate \<Rightarrow> gate \<times> gate_outcome" where
  "acquire ctx now g =
     (case ctx of
        Some e \<Rightarrow> (g, Cancelled e)
      | None \<Rightarrow>
         (case gt_state g of
            CircuitClosed \<Rightarrow>
              (if gt_inFlight g < postEmbeddingProviderRequestLimit
               then (g\<lparr>gt_inFlight := gt_inFlight g + 1\<rparr>, Permitted \<lparr>pm_epoch = gt_epoch g, pm_halfOpen = False\<rparr>)
               else (g, WaitsFor (gt_changed g) None))
          | CircuitOpen \<Rightarrow>
              (if gt_openUntil g \<le> now \<and> gt_inFlight g = 0
               then (signalLocked (g\<lparr>gt_state := CircuitHalfOpen, gt_epoch := gt_epoch g + 1, gt_inFlight := gt_inFlight g + 1\<rparr>),
                     Permitted \<lparr>pm_epoch = gt_epoch g + 1, pm_halfOpen = True\<rparr>)
               else (g, WaitsFor (gt_changed g) (if now < gt_openUntil g then Some (gt_openUntil g) else None)))
          | CircuitHalfOpen \<Rightarrow>
              (if gt_inFlight g = 0
               then (g\<lparr>gt_inFlight := gt_inFlight g + 1\<rparr>, Permitted \<lparr>pm_epoch = gt_epoch g, pm_halfOpen = True\<rparr>)
               else (g, WaitsFor (gt_changed g) None))))"

definition land :: "gate \<Rightarrow> gate" where
  "land g = (if gt_inFlight g > 0 then g\<lparr>gt_inFlight := gt_inFlight g - 1\<rparr> else g)"

text \<open>The permit is the probe the gate is waiting for.\<close>

definition probes :: "permit \<Rightarrow> gate \<Rightarrow> bool" where
  "probes p g \<longleftrightarrow> pm_halfOpen p \<and> pm_epoch p = gt_epoch g \<and> gt_state g = CircuitHalfOpen"

definition openLocked :: "(int \<Rightarrow> int) \<Rightarrow> int \<Rightarrow> provider_decision \<Rightarrow> gate \<Rightarrow> gate" where
  "openLocked jitter now d g =
     (case cooldownFor jitter d (gt_failures g) of
        (delay, d', n) \<Rightarrow>
          signalLocked (g\<lparr>gt_failures := n, gt_state := CircuitOpen, gt_openReason := Reason d', gt_openUntil := now + delay,
            gt_epoch := gt_epoch g + 1\<rparr>))"

definition providerRequestSucceeded :: "permit \<Rightarrow> gate \<Rightarrow> gate" where
  "providerRequestSucceeded p g =
     (let g = land g in
      if probes p g
      then signalLocked (g\<lparr>gt_state := CircuitClosed, gt_failures := 0, gt_openUntil := 0, gt_openReason := '''',
             gt_epoch := gt_epoch g + 1\<rparr>)
      else signalLocked g)"

definition providerRequestFailed ::
  "(int \<Rightarrow> int) \<Rightarrow> int \<Rightarrow> provider_decision \<Rightarrow> failure_scope \<Rightarrow> bool \<Rightarrow> permit \<Rightarrow> gate \<Rightarrow> gate" where
  "providerRequestFailed jitter now d scope exhausted p g =
     (let g = land g in
      signalLocked
       (if probes p g \<and> scope \<noteq> FailureScopePartition then openLocked jitter now d g
        else if \<not> probes p g \<and> pm_epoch p = gt_epoch g \<and> gt_state g = CircuitClosed \<and> scope \<noteq> FailureScopePartition \<and>
          (Action d \<noteq> ProviderActionRetry \<or> exhausted)
        then openLocked jitter now d g else g))"

definition providerRequestPanicked :: "(int \<Rightarrow> int) \<Rightarrow> int \<Rightarrow> permit \<Rightarrow> gate \<Rightarrow> gate" where
  "providerRequestPanicked jitter now p g =
     (let g = land g in
      signalLocked
       (if probes p g
        then (case cooldownFor jitter (decided ProviderActionRetry ''unknown'') (gt_failures g) of
                (delay, d, n) \<Rightarrow> g\<lparr>gt_failures := n, gt_state := CircuitOpen, gt_openUntil := now + delay,
                   gt_epoch := gt_epoch g + 1, gt_openReason := Reason d\<rparr>)
        else g))"

definition providerRequestCanceled :: "int \<Rightarrow> permit \<Rightarrow> gate \<Rightarrow> gate" where
  "providerRequestCanceled now p g =
     (let g = land g in
      signalLocked
       (if probes p g
        then g\<lparr>gt_state := CircuitOpen, gt_openUntil := now + postEmbeddingRetryBaseCooldown, gt_epoch := gt_epoch g + 1,
               gt_openReason := (if gt_openReason g = '''' then ''transport'' else gt_openReason g)\<rparr>
        else g))"

section \<open>Bounds of the cooldown\<close>

lemmas cooldown_constants = postEmbeddingRetryBaseCooldown_def postEmbeddingRetryMaxCooldown_def postEmbeddingServicePause_def
  postEmbeddingContractPause_def go_second_def

text \<open>The loop in closed form: doubling from the base, stopped at the maximum.\<close>

lemma cooldown_loop_closed:
  "0 < delay \<Longrightarrow> delay \<le> postEmbeddingRetryMaxCooldown \<Longrightarrow>
   cooldown_loop k delay = min (delay * 2 ^ k) postEmbeddingRetryMaxCooldown"
proof (induction k arbitrary: delay)
  case (Suc k)
  have big: "x \<le> x * 2 ^ m" if "0 < x" for x :: int and m :: nat using that by (simp add: mult_le_cancel_left1)
  have even: "postEmbeddingRetryMaxCooldown = 2 * (postEmbeddingRetryMaxCooldown div 2)"
    by (simp add: postEmbeddingRetryMaxCooldown_def go_second_def)
  show ?case
  proof (cases "delay > postEmbeddingRetryMaxCooldown div 2")
    case True
    with even have "postEmbeddingRetryMaxCooldown < 2 * delay" by linarith
    also have "\<dots> \<le> 2 * delay * 2 ^ k" using big [of "2 * delay" k] Suc.prems(1) by simp
    also have "\<dots> = delay * 2 ^ Suc k" by simp
    finally show ?thesis using True Suc.prems(2) by auto
  next
    case False
    with even Suc.prems have "0 < delay * 2" "delay * 2 \<le> postEmbeddingRetryMaxCooldown" "delay < postEmbeddingRetryMaxCooldown" by linarith+
    with Suc.IH [of "delay * 2"] False show ?thesis by (simp add: mult.assoc)
  qed
qed simp

lemma retry_cooldown_bounds: "5 * go_second \<le> retry_cooldown jitter n \<and> retry_cooldown jitter n \<le> 300 * go_second"
  by (simp add: retry_cooldown_def Let_def cooldown_constants)

text \<open>
  The cooldown of the circuit is bounded whatever the provider answers and the jitter
  draws: at least five seconds, at most fifteen minutes unless the provider itself asked for
  longer, never shorter than a valid \<open>Retry-After\<close>. Retries in a row double it from five
  seconds to at most five minutes.
\<close>

theorem cooldown_bounded:
  fixes jitter :: "int \<Rightarrow> int"
  assumes "cooldownFor jitter d n = (delay, d', n')"
  shows "5 * go_second \<le> delay \<and> (delay \<le> 900 * go_second \<or> (RetryAfterValid d \<and> delay = DecRetryAfter d)) \<and>
    (\<not> RetryAfterValid d \<or> DecRetryAfter d \<le> delay) \<and> Action d' \<in> {ProviderActionRetry, ProviderActionPause} \<and>
    (Action d \<noteq> ProviderActionRetry \<or> RetryAfterValid d \<or> n' = n + 1 \<and> delay = max (5 * go_second) (min (300 * go_second)
       (jitter (min (5 * go_second * 2 ^ n) (300 * go_second)))))"
proof -
  have "cooldown_loop n (5 * go_second) = min (5 * go_second * 2 ^ n) (300 * go_second)"
    using cooldown_loop_closed [of "5 * go_second" n] by (simp add: postEmbeddingRetryMaxCooldown_def go_second_def)
  then have loop: "retry_cooldown jitter (n + 1) = max (5 * go_second) (min (300 * go_second) (jitter (min (5 * go_second * 2 ^ n) (300 * go_second))))"
    unfolding retry_cooldown_def Let_def by (simp add: cooldown_constants min_def max_def)
  note b = retry_cooldown_bounds [of jitter "n + 1"]
  have pos: "0 < go_second" by (simp add: go_second_def)
  show ?thesis
  proof (cases "Action d")
    case ProviderActionRetry
    with assms have "delay = (if RetryAfterValid d \<and> DecRetryAfter d > retry_cooldown jitter (n + 1) then DecRetryAfter d else retry_cooldown jitter (n + 1))"
      "d' = d" "n' = n + 1"
      using b pos by (auto simp: cooldownFor_def Let_def split: if_splits)
    with b pos ProviderActionRetry show ?thesis unfolding loop [symmetric] by auto
  next
    case ProviderActionPause
    with assms show ?thesis by (auto simp: cooldownFor_def Let_def cooldown_constants split: if_splits)
  next
    case ProviderActionSplitBatch
    with assms show ?thesis by (auto simp: cooldownFor_def Let_def cooldown_constants split: if_splits)
  next
    case NoAction
    with assms show ?thesis by (auto simp: cooldownFor_def Let_def cooldown_constants split: if_splits)
  qed
qed

theorem cooldown_bounded_witness:
  "fst (cooldownFor (\<lambda>d. d - go_second) (decided ProviderActionRetry ''server'') 3) = 39 * go_second"
proof -
  obtain delay d' n' where run: "cooldownFor (\<lambda>d. d - go_second) (decided ProviderActionRetry ''server'') 3 = (delay, d', n')"
    by (rule prod_cases3)
  from cooldown_bounded [OF run] run show ?thesis by (simp add: decided_def go_second_def)
qed

section \<open>Any number of workers\<close>

text \<open>
  The gate with the permits that are out, by a number, and the clock. The function that ends a
  request runs once per permit, however often it is called.
\<close>

record gate_sys =
  gs_gate :: gate
  gs_permits :: "nat \<rightharpoonup> permit"
  gs_clock :: int

definition finish :: "nat \<Rightarrow> (permit \<Rightarrow> gate \<Rightarrow> gate) \<Rightarrow> gate_sys \<Rightarrow> gate_sys" where
  "finish i f s =
     (case gs_permits s i of
        None \<Rightarrow> s
      | Some p \<Rightarrow> s\<lparr>gs_gate := f p (gs_gate s), gs_permits := (gs_permits s)(i := None)\<rparr>)"

inductive gate_step :: "gate_sys \<Rightarrow> gate_sys \<Rightarrow> bool" where
  gs_tick: "gs_clock s \<le> now \<Longrightarrow> gate_step s (s\<lparr>gs_clock := now\<rparr>)"
| gs_acquire: "gs_permits s i = None \<Longrightarrow> acquire ctx (gs_clock s) (gs_gate s) = (g, Permitted p) \<Longrightarrow>
    gate_step s (s\<lparr>gs_gate := g, gs_permits := (gs_permits s)(i \<mapsto> p)\<rparr>)"
| gs_succeed: "gate_step s (finish i providerRequestSucceeded s)"
| gs_fail: "gate_step s (finish i (providerRequestFailed jitter (gs_clock s) d scope exhausted) s)"
| gs_panic: "gate_step s (finish i (providerRequestPanicked jitter (gs_clock s)) s)"
| gs_cancel: "gate_step s (finish i (providerRequestCanceled (gs_clock s)) s)"

definition gate_init :: "int \<Rightarrow> gate_sys" where
  "gate_init now = \<lparr>gs_gate = newPostEmbeddingProviderGate, gs_permits = Map.empty, gs_clock = now\<rparr>"

text \<open>
  In a closed circuit every permit is of the current epoch; in an open one every permit is
  older; in a half-open one the only permit is the probe.
\<close>

definition permit_ok :: "gate \<Rightarrow> permit \<Rightarrow> bool" where
  "permit_ok g p =
     (case gt_state g of
        CircuitClosed \<Rightarrow> \<not> pm_halfOpen p \<and> pm_epoch p = gt_epoch g
      | CircuitOpen \<Rightarrow> pm_epoch p < gt_epoch g
      | CircuitHalfOpen \<Rightarrow> pm_halfOpen p \<and> pm_epoch p = gt_epoch g)"

definition gate_inv :: "gate_sys \<Rightarrow> bool" where
  "gate_inv s \<longleftrightarrow> (let g = gs_gate s; ps = gs_permits s in
     finite (dom ps) \<and> gt_inFlight g = int (card (dom ps)) \<and> gt_inFlight g \<le> 2 \<and>
     (gt_state g = CircuitHalfOpen \<longrightarrow> gt_inFlight g \<le> 1) \<and> (\<forall>i p. ps i = Some p \<longrightarrow> permit_ok g p))"

lemma signal_reads [simp]:
  "gt_state (signalLocked g) = gt_state g" "gt_inFlight (signalLocked g) = gt_inFlight g" "gt_epoch (signalLocked g) = gt_epoch g"
  "gt_openUntil (signalLocked g) = gt_openUntil g" "gt_changed (signalLocked g) = gt_changed g + 1"
  by (simp_all add: signalLocked_def)

lemma land_reads [simp]:
  "gt_state (land g) = gt_state g" "gt_epoch (land g) = gt_epoch g" "gt_openUntil (land g) = gt_openUntil g"
  "gt_changed (land g) = gt_changed g"
  by (simp_all add: land_def)

lemma land_flight: "gt_inFlight (land g) = (if gt_inFlight g > 0 then gt_inFlight g - 1 else gt_inFlight g)"
  by (simp add: land_def)

lemma open_reads [simp]:
  "gt_state (openLocked jitter now d g) = CircuitOpen" "gt_inFlight (openLocked jitter now d g) = gt_inFlight g"
  "gt_epoch (openLocked jitter now d g) = gt_epoch g + 1" "gt_changed (openLocked jitter now d g) = gt_changed g + 1"
  by (simp_all add: openLocked_def split: prod.splits)

text \<open>
  What every way of ending a request has in common: it gives the slot back and closes the
  channel; the state stays, opens with a new epoch, or closes on a successful probe.
\<close>

definition lands :: "permit \<Rightarrow> gate \<Rightarrow> gate \<Rightarrow> bool" where
  "lands p g g' \<longleftrightarrow> gt_inFlight g' = gt_inFlight (land g) \<and> gt_changed g < gt_changed g' \<and>
     (gt_state g' = gt_state g \<and> gt_epoch g' = gt_epoch g \<and> gt_openUntil g' = gt_openUntil g \<and> (\<not> probes p g \<or> gt_state g' = CircuitHalfOpen) \<or>
      gt_state g' = CircuitOpen \<and> gt_epoch g' = gt_epoch g + 1 \<and> (probes p g \<or> pm_epoch p = gt_epoch g \<and> gt_state g = CircuitClosed) \<or>
      gt_state g' = CircuitClosed \<and> gt_epoch g' = gt_epoch g + 1 \<and> probes p g)"

lemma lands_all:
  "lands p g (providerRequestSucceeded p g)"
  "lands p g (providerRequestFailed jitter now d scope exhausted p g)"
  "lands p g (providerRequestPanicked jitter now p g)"
  "lands p g (providerRequestCanceled now p g)"
  unfolding lands_def providerRequestSucceeded_def providerRequestFailed_def providerRequestPanicked_def providerRequestCanceled_def
  by (auto simp: Let_def probes_def split: prod.splits)

lemma gate_invD:
  assumes "gate_inv s"
  shows "finite (dom (gs_permits s))" "gt_inFlight (gs_gate s) = int (card (dom (gs_permits s)))" "gt_inFlight (gs_gate s) \<le> 2"
    "gt_state (gs_gate s) = CircuitHalfOpen \<Longrightarrow> gt_inFlight (gs_gate s) \<le> 1"
    "gs_permits s i = Some p \<Longrightarrow> permit_ok (gs_gate s) p"
  using assms unfolding gate_inv_def Let_def by blast+

lemma alone:
  assumes "finite (dom m)" "m i = Some p" "int (card (dom m)) \<le> 1"
  shows "m = [i \<mapsto> p]"
proof -
  have "dom m = {i}"
    using assms card_le_Suc0_iff_eq [of "dom m"] by (auto dest: domI)
  then show ?thesis using assms(2) by (metis dom_eq_singleton_conv option.inject fun_upd_same)
qed

text \<open>A probe is the only permit.\<close>

lemma probe_alone:
  assumes "gate_inv s" "gs_permits s i = Some p" "gt_state (gs_gate s) = CircuitHalfOpen"
  shows "gs_permits s = [i \<mapsto> p]"
proof (rule alone [OF gate_invD(1) [OF assms(1)] assms(2)])
  from gate_invD(2) [OF assms(1)] gate_invD(4) [OF assms(1,3)] show "int (card (dom (gs_permits s))) \<le> 1" by linarith
qed

lemma finish_inv:
  assumes inv: "gate_inv s" and lands: "\<And>p g. lands p g (f p g)"
  shows "gate_inv (finish i f s)"
proof (cases "gs_permits s i")
  case (Some p)
  let ?g = "gs_gate s" and ?g' = "f p (gs_gate s)" and ?ps = "(gs_permits s)(i := None)"
  note d = gate_invD [OF inv]
  note l = lands [of p ?g, unfolded lands_def]
  have "0 < card (dom (gs_permits s))" using Some d(1) by (auto simp: card_gt_0_iff)
  then have pos: "0 < gt_inFlight ?g" using d(2) by simp
  have card: "int (card (dom ?ps)) = int (card (dom (gs_permits s))) - 1"
    using Some d(1) by (subst card.remove [of "dom (gs_permits s)" i]) auto
  have flight: "gt_inFlight ?g' = int (card (dom ?ps))"
    using l pos card d(2) by (simp add: land_flight)
  have ok: "permit_ok ?g' q" if q: "?ps j = Some q" for j q
  proof -
    from q have j: "j \<noteq> i" "gs_permits s j = Some q" by (auto split: if_splits)
    have "gt_state ?g \<noteq> CircuitHalfOpen" using probe_alone [OF inv Some] j by (metis fun_upd_other option.distinct(1))
    with l d(5) [OF j(2)] show ?thesis by (auto simp: permit_ok_def probes_def split: circuit_state.splits)
  qed
  have half: "gt_inFlight ?g' \<le> 1" if "gt_state ?g' = CircuitHalfOpen"
  proof -
    from l that have "gt_state ?g = CircuitHalfOpen" by auto
    with d(4) flight card d(2) show ?thesis by simp
  qed
  from d(1) flight card d(2,3) ok half Some show ?thesis
    unfolding gate_inv_def Let_def by (simp add: finish_def)
qed (simp add: finish_def inv)

lemma acquire_Permitted:
  assumes "acquire ctx now g = (g', Permitted p)"
  shows "gt_inFlight g' = gt_inFlight g + 1"
    "(gt_state g = CircuitClosed \<and> gt_inFlight g < 2 \<and> p = \<lparr>pm_epoch = gt_epoch g, pm_halfOpen = False\<rparr> \<and>
        gt_state g' = CircuitClosed \<and> gt_epoch g' = gt_epoch g \<and> gt_changed g' = gt_changed g) \<or>
     (gt_state g = CircuitOpen \<and> gt_inFlight g = 0 \<and> gt_openUntil g \<le> now \<and> p = \<lparr>pm_epoch = gt_epoch g + 1, pm_halfOpen = True\<rparr> \<and>
        gt_state g' = CircuitHalfOpen \<and> gt_epoch g' = gt_epoch g + 1 \<and> gt_changed g' = gt_changed g + 1) \<or>
     (gt_state g = CircuitHalfOpen \<and> gt_inFlight g = 0 \<and> p = \<lparr>pm_epoch = gt_epoch g, pm_halfOpen = True\<rparr> \<and>
        gt_state g' = CircuitHalfOpen \<and> gt_epoch g' = gt_epoch g \<and> gt_changed g' = gt_changed g)"
  using assms unfolding acquire_def postEmbeddingProviderRequestLimit_def
  by (auto split: option.splits circuit_state.splits if_splits)

lemma acquire_inv:
  assumes inv: "gate_inv s" and free: "gs_permits s i = None" and run: "acquire ctx now (gs_gate s) = (g, Permitted p)"
  shows "gate_inv (s\<lparr>gs_gate := g, gs_permits := (gs_permits s)(i \<mapsto> p)\<rparr>)"
proof -
  note d = gate_invD [OF inv]
  have card: "int (card (dom ((gs_permits s)(i \<mapsto> p)))) = gt_inFlight g"
    using d(1,2) free acquire_Permitted(1) [OF run] by (simp add: domIff)
  have empty: "gs_permits s = Map.empty" if "gt_inFlight (gs_gate s) = 0" using that d(1,2) by simp
  have ok: "permit_ok g q" if "((gs_permits s)(i \<mapsto> p)) j = Some q" for j q
    using that acquire_Permitted(2) [OF run] d(5) [of j q] empty by (auto simp: permit_ok_def split: if_splits)
  have limit: "gt_inFlight g \<le> 2" "gt_state g = CircuitHalfOpen \<Longrightarrow> gt_inFlight g \<le> 1"
    using acquire_Permitted [OF run] d(3) by auto
  have "finite (dom ((gs_permits s)(i \<mapsto> p)))" using d(1) by simp
  with card limit ok show ?thesis unfolding gate_inv_def Let_def by simp
qed

lemma gate_step_inv: "gate_step s s' \<Longrightarrow> gate_inv s \<Longrightarrow> gate_inv s'"
proof (induction rule: gate_step.induct)
  case (gs_tick s now)
  then show ?case by (simp add: gate_inv_def)
next
  case (gs_acquire s i ctx g p)
  then show ?case by (blast intro: acquire_inv)
qed (blast intro: finish_inv lands_all)+

lemma gate_init_inv: "gate_inv (gate_init now)"
  by (simp add: gate_inv_def gate_init_def newPostEmbeddingProviderGate_def)

section \<open>Waiting for a permit\<close>

text \<open>A caller whose context is alive would get a permit.\<close>

definition admits :: "int \<Rightarrow> gate \<Rightarrow> bool" where
  "admits now g = (case acquire None now g of (_, Permitted _) \<Rightarrow> True | _ \<Rightarrow> False)"

lemma admits_iff:
  "admits now g \<longleftrightarrow> (case gt_state g of
     CircuitClosed \<Rightarrow> gt_inFlight g < 2
   | CircuitOpen \<Rightarrow> gt_openUntil g \<le> now \<and> gt_inFlight g = 0
   | CircuitHalfOpen \<Rightarrow> gt_inFlight g = 0)"
  unfolding admits_def acquire_def postEmbeddingProviderRequestLimit_def
  by (auto split: circuit_state.splits)

lemma acquire_WaitsFor:
  assumes "acquire ctx now g = (g', WaitsFor n t)"
  shows "g' = g" "n = gt_changed g" "\<not> admits now g"
    "t = (if gt_state g = CircuitOpen \<and> now < gt_openUntil g then Some (gt_openUntil g) else None)"
  using assms unfolding acquire_def admits_iff postEmbeddingProviderRequestLimit_def
  by (auto split: option.splits circuit_state.splits if_splits)

definition wait_timer :: "int \<Rightarrow> gate \<Rightarrow> int option" where
  "wait_timer now g = (if gt_state g = CircuitOpen \<and> now < gt_openUntil g then Some (gt_openUntil g) else None)"

lemma finish_changed:
  "(\<And>p g. lands p g (f p g)) \<Longrightarrow> finish i f s = s \<or> gt_changed (gs_gate s) < gt_changed (gs_gate (finish i f s))"
  unfolding finish_def lands_def by (auto split: option.splits)

text \<open>A step closes the channel or changes nothing that could let a caller in.\<close>

lemma gate_step_signals:
  "gate_step s s' \<Longrightarrow> gt_changed (gs_gate s) < gt_changed (gs_gate s') \<or>
     gt_changed (gs_gate s') = gt_changed (gs_gate s) \<and> (admits now (gs_gate s') \<longrightarrow> admits now (gs_gate s))"
proof (induction rule: gate_step.induct)
  case (gs_acquire s i ctx g p)
  from acquire_Permitted [OF gs_acquire.hyps(2)] show ?case by (auto simp: admits_iff)
next
  case (gs_succeed s i)
  from finish_changed [of providerRequestSucceeded i s] lands_all(1) show ?case by auto
next
  case (gs_fail s i jitter d scope exhausted)
  from finish_changed [of "providerRequestFailed jitter (gs_clock s) d scope exhausted" i s] lands_all(2) show ?case by auto
next
  case (gs_panic s i jitter)
  from finish_changed [of "providerRequestPanicked jitter (gs_clock s)" i s] lands_all(3) show ?case by auto
next
  case (gs_cancel s i)
  from finish_changed [of "providerRequestCanceled (gs_clock s)" i s] lands_all(4) show ?case by auto
qed simp

interpretation permit_wait: wake_up gate_step gate_inv "gt_changed \<circ> gs_gate"
    "\<lambda>(_::unit) now s. admits now (gs_gate s)" "\<lambda>_ now s. wait_timer now (gs_gate s)"
proof
  fix s s' :: gate_sys and now later :: int
  show "gate_step s s' \<Longrightarrow> gate_inv s \<Longrightarrow> gate_inv s'" by (rule gate_step_inv)
  show "gate_step s s' \<Longrightarrow> gate_inv s \<Longrightarrow> (gt_changed \<circ> gs_gate) s \<le> (gt_changed \<circ> gs_gate) s'"
    using gate_step_signals [of s s' 0] by auto
  show "gate_step s s' \<Longrightarrow> gate_inv s \<Longrightarrow> (gt_changed \<circ> gs_gate) s' = (gt_changed \<circ> gs_gate) s \<Longrightarrow>
      admits now (gs_gate s') \<Longrightarrow> admits now (gs_gate s)"
    using gate_step_signals [of s s' now] by auto
  show "gate_inv s \<Longrightarrow> \<not> admits now (gs_gate s) \<Longrightarrow> now \<le> later \<Longrightarrow> admits later (gs_gate s) \<Longrightarrow>
      \<exists>d. wait_timer now (gs_gate s) = Some d \<and> d \<le> later"
    by (auto simp: admits_iff wait_timer_def split: circuit_state.splits)
qed

text \<open>
  No worker sleeps while a permit is free. Whatever requests start, succeed, fail, panic or
  are cancelled after a worker went to sleep, once the gate would let it in, the channel it
  waits for has been closed or its timer has fired.
\<close>

theorem gate_wakes_sleepers:
  fixes s s' :: gate_sys
  assumes reach: "gate_step\<^sup>*\<^sup>* (gate_init start) s" and sleeps: "acquire ctx now (gs_gate s) = (g, WaitsFor n t)"
    and later: "gate_step\<^sup>*\<^sup>* s s'" and now: "now \<le> gs_clock s'" and free: "admits (gs_clock s') (gs_gate s')"
  shows "g = gs_gate s \<and> (n < gt_changed (gs_gate s') \<or> (\<exists>d. t = Some d \<and> d \<le> gs_clock s'))"
proof -
  note w = acquire_WaitsFor [OF sleeps]
  from permit_wait.kept [OF reach gate_init_inv] have inv: "gate_inv s" by blast
  from permit_wait.kept [OF later inv] have "gt_changed (gs_gate s) \<le> gt_changed (gs_gate s')" by simp
  with permit_wait.woken [OF inv w(3) later now free] w show ?thesis
    unfolding wait_timer_def by auto
qed

section \<open>What the circuit guarantees\<close>

text \<open>
  C30. The circuit protects the provider. In every reachable state at most two requests run, and
  at most one while the circuit is half open; an open circuit lets nobody in before its cooldown
  is over and the last request has ended, and then only as a probe; and it closes again only
  when that probe, the only request, succeeds: the late success of an older request never
  closes it.
\<close>

theorem circuit_protects_provider:
  fixes s s' :: gate_sys
  assumes reach: "gate_step\<^sup>*\<^sup>* (gate_init start) s" and step: "gate_step s s'"
  shows "card (dom (gs_permits s)) \<le> 2 \<and>
    (gt_state (gs_gate s) = CircuitHalfOpen \<longrightarrow> card (dom (gs_permits s)) \<le> 1) \<and>
    (gt_state (gs_gate s) = CircuitOpen \<and> \<not> dom (gs_permits s') \<subseteq> dom (gs_permits s) \<longrightarrow>
       gt_openUntil (gs_gate s) \<le> gs_clock s \<and> (\<exists>i p. gs_permits s' = [i \<mapsto> p] \<and> pm_halfOpen p)) \<and>
    (gt_state (gs_gate s) \<noteq> CircuitClosed \<and> gt_state (gs_gate s') = CircuitClosed \<longrightarrow>
       (\<exists>i p. gs_permits s = [i \<mapsto> p] \<and> probes p (gs_gate s) \<and> s' = finish i providerRequestSucceeded s))"
proof -
  from permit_wait.kept [OF reach gate_init_inv] have inv: "gate_inv s" by blast
  note d = gate_invD [OF inv]
  have opens: "gt_openUntil (gs_gate s) \<le> gs_clock s \<and> (\<exists>i p. gs_permits s' = [i \<mapsto> p] \<and> pm_halfOpen p)"
    if op: "gt_state (gs_gate s) = CircuitOpen" and new: "\<not> dom (gs_permits s') \<subseteq> dom (gs_permits s)"
    using step
  proof cases
    case (gs_acquire i ctx g p)
    from acquire_Permitted(2) [OF gs_acquire(3)] op d(1,2) have "gs_permits s = Map.empty" by auto
    moreover have "gt_openUntil (gs_gate s) \<le> gs_clock s" "pm_halfOpen p"
      using acquire_Permitted(2) [OF gs_acquire(3)] op by auto
    ultimately show ?thesis unfolding gs_acquire(1) by (intro conjI exI [of _ i] exI [of _ p]) simp_all
  qed (use new in \<open>auto simp: finish_def split: option.splits\<close>)
  have stays_open: False if op: "gt_state (gs_gate s) \<noteq> CircuitClosed" and cl: "gt_state (gs_gate (finish i f s)) = CircuitClosed"
    and lands: "\<And>p g. gt_state (f p g) = CircuitClosed \<Longrightarrow> gt_state g = CircuitClosed" for i f
    using op cl lands by (auto simp: finish_def split: option.splits)
  have closes: "\<exists>i p. gs_permits s = [i \<mapsto> p] \<and> probes p (gs_gate s) \<and> s' = finish i providerRequestSucceeded s"
    if op: "gt_state (gs_gate s) \<noteq> CircuitClosed" and cl: "gt_state (gs_gate s') = CircuitClosed"
    using step
  proof cases
    case (gs_acquire i ctx g p)
    with acquire_Permitted(2) [OF gs_acquire(3)] op cl show ?thesis by auto
  next
    case (gs_succeed i)
    show ?thesis
    proof (cases "gs_permits s i")
      case (Some p)
      with gs_succeed op cl have pr: "probes p (gs_gate s)"
        by (auto simp: finish_def providerRequestSucceeded_def Let_def probes_def split: if_splits)
      with probe_alone [OF inv Some] gs_succeed show ?thesis by (auto simp: probes_def)
    qed (use gs_succeed op cl in \<open>simp add: finish_def\<close>)
  next
    case (gs_fail i jitter de scope exhausted)
    have "gt_state (providerRequestFailed jitter (gs_clock s) de scope exhausted q g) = CircuitClosed \<Longrightarrow> gt_state g = CircuitClosed" for q g
      by (auto simp: providerRequestFailed_def Let_def split: if_splits)
    then have False
      using stays_open [where i = i and f = "providerRequestFailed jitter (gs_clock s) de scope exhausted"] op cl unfolding gs_fail by blast
    then show ?thesis ..
  next
    case (gs_panic i jitter)
    have "gt_state (providerRequestPanicked jitter (gs_clock s) q g) = CircuitClosed \<Longrightarrow> gt_state g = CircuitClosed" for q g
      by (auto simp: providerRequestPanicked_def Let_def split: if_splits prod.splits)
    then have False
      using stays_open [where i = i and f = "providerRequestPanicked jitter (gs_clock s)"] op cl unfolding gs_panic by blast
    then show ?thesis ..
  next
    case (gs_cancel i)
    have "gt_state (providerRequestCanceled (gs_clock s) q g) = CircuitClosed \<Longrightarrow> gt_state g = CircuitClosed" for q g
      by (auto simp: providerRequestCanceled_def Let_def split: if_splits)
    then have False
      using stays_open [where i = i and f = "providerRequestCanceled (gs_clock s)"] op cl unfolding gs_cancel by blast
    then show ?thesis ..
  qed (use op cl in simp)
  from opens closes d(2-4) show ?thesis by auto
qed

section \<open>A run\<close>

text \<open>A request fails, the circuit opens, and after the cooldown a probe is let in.\<close>

definition server_down :: provider_decision where
  "server_down = decided ProviderActionPause ''server''"

definition sample_open :: gate_sys where
  "sample_open = \<lparr>gs_gate = \<lparr>gt_state = CircuitOpen, gt_openUntil = 900 * go_second, gt_openReason = ''server'', gt_inFlight = 0,
      gt_epoch = 1, gt_changed = 2, gt_failures = 0\<rparr>, gs_permits = Map.empty, gs_clock = 0\<rparr>"

lemma sample_open_reach: "gate_step\<^sup>*\<^sup>* (gate_init 0) sample_open"
proof -
  let ?p = "\<lparr>pm_epoch = 0, pm_halfOpen = False\<rparr>"
  let ?a = "(gate_init 0)\<lparr>gs_gate := newPostEmbeddingProviderGate\<lparr>gt_inFlight := 1\<rparr>, gs_permits := [1 \<mapsto> ?p]\<rparr>"
  have a: "gate_step (gate_init 0) ?a"
    using gs_acquire [of "gate_init 0" 1 None "newPostEmbeddingProviderGate\<lparr>gt_inFlight := 1\<rparr>" ?p]
    by (simp add: gate_init_def acquire_def newPostEmbeddingProviderGate_def postEmbeddingProviderRequestLimit_def)
  have "finish 1 (providerRequestFailed id 0 server_down FailureScopeSharedOrUnknown True) ?a = sample_open"
    by (simp add: finish_def providerRequestFailed_def Let_def land_def probes_def gate_init_def newPostEmbeddingProviderGate_def
        openLocked_def cooldownFor_def server_down_def decided_def signalLocked_def sample_open_def postEmbeddingServicePause_def
        go_second_def)
  then have "gate_step ?a sample_open"
    using gs_fail [of ?a 1 id server_down FailureScopeSharedOrUnknown True] by (simp add: gate_init_def)
  with a show ?thesis by (meson rtranclp.rtrancl_into_rtrancl rtranclp.rtrancl_refl)
qed

theorem circuit_protects_provider_witness:
  "\<exists>g p. acquire None (900 * go_second) (gs_gate sample_open) = (g, Permitted p) \<and> pm_halfOpen p \<and>
     acquire None 0 (gs_gate sample_open) = (gs_gate sample_open, WaitsFor 2 (Some (900 * go_second)))"
proof -
  let ?s = "sample_open\<lparr>gs_clock := 900 * go_second\<rparr>"
  have tick: "gate_step sample_open ?s"
    by (rule gs_tick) (simp add: sample_open_def go_second_def)
  then have reach: "gate_step\<^sup>*\<^sup>* (gate_init 0) ?s"
    using sample_open_reach by (meson rtranclp.rtrancl_into_rtrancl)
  obtain g p where run: "acquire None (900 * go_second) (gs_gate ?s) = (g, Permitted p)"
    by (simp add: acquire_def sample_open_def)
  have step: "gate_step ?s (?s\<lparr>gs_gate := g, gs_permits := (gs_permits ?s)(1 \<mapsto> p)\<rparr>)"
    by (rule gs_acquire [where ctx = None]) (use run in \<open>simp_all add: sample_open_def\<close>)
  let ?t = "?s\<lparr>gs_gate := g, gs_permits := (gs_permits ?s)(1 \<mapsto> p)\<rparr>"
  have "gt_state (gs_gate ?s) = CircuitOpen \<and> \<not> dom (gs_permits ?t) \<subseteq> dom (gs_permits ?s)" by (simp add: sample_open_def)
  with circuit_protects_provider [OF reach step] obtain i q where q: "gs_permits ?t = [i \<mapsto> q]" "pm_halfOpen q" by blast
  have "gs_permits ?t 1 = Some p" by simp
  with q have "pm_halfOpen p" by (auto split: if_splits)
  moreover have "acquire None 0 (gs_gate sample_open) = (gs_gate sample_open, WaitsFor 2 (Some (900 * go_second)))"
    by (simp add: acquire_def sample_open_def go_second_def)
  ultimately show ?thesis using run by auto
qed

theorem gate_wakes_sleepers_witness:
  "\<exists>n t. acquire None 0 (gs_gate sample_open) = (gs_gate sample_open, WaitsFor n t) \<and>
     (n < gt_changed (gs_gate sample_open) \<or> (\<exists>d. t = Some d \<and> d \<le> 900 * go_second))"
proof -
  let ?s = "sample_open\<lparr>gs_clock := 900 * go_second\<rparr>"
  have tick: "gate_step\<^sup>*\<^sup>* sample_open ?s"
    by (intro r_into_rtranclp gs_tick) (simp add: sample_open_def go_second_def)
  have run: "acquire None 0 (gs_gate sample_open) = (gs_gate sample_open, WaitsFor 2 (Some (900 * go_second)))"
    by (simp add: acquire_def sample_open_def go_second_def)
  have "0 \<le> gs_clock ?s" "admits (gs_clock ?s) (gs_gate ?s)"
    by (simp_all add: go_second_def admits_iff sample_open_def)
  from gate_wakes_sleepers [OF sample_open_reach run tick this] run show ?thesis by auto
qed

end
