(* ===== verification/EmbeddingBatch.thy ===== *)
theory EmbeddingBatch
  imports OffsetCommit ProviderGate
begin

text \<open>
  What the embedding pipeline does with a batch of messages (tasks/post\_embedding.go): decode
  each, look the post and its stored embedding up, ask the provider for the texts that need one,
  split the batch when the provider says so, and store each embedding in a transaction that
  checks the post again. Every call to the database, the provider or the dead letter topic is
  counted; other clients change the database before each.
\<close>

section \<open>The database\<close>

record stored_embedding =
  se_model :: string
  se_dimensions :: nat
  se_vector :: "float64 list"
  se_hash :: string
  se_updated :: int

text \<open>
  The posts, the embeddings by post and version, the version served, the users with a behaviour
  or reaction on a post, the dirty profiles with their versions, and the dead letters. Of a post
  the model keeps every content it has had, oldest first, so that its revisions can be spoken of;
  the database holds the last one. A deleted post never comes back (\<open>syncExistingPost\<close> of
  \<open>devdata/sync.go\<close> refuses it).
\<close>

record embedding_db =
  em_contents :: "nat \<Rightarrow> string list"
  em_deleted :: "nat set"
  em_vectors :: "nat \<times> string \<rightharpoonup> stored_embedding"
  em_serving :: "string option"
  em_users :: "nat \<Rightarrow> nat set"
  em_dirty :: "nat \<rightharpoonup> int"
  em_dlq :: "(kafka_message \<times> dead_letter) list"

text \<open>The content of a post that is there.\<close>

definition em_posts :: "embedding_db \<Rightarrow> nat \<Rightarrow> string option" where
  "em_posts db p = (if p \<in> em_deleted db \<or> em_contents db p = [] then None else Some (last (em_contents db p)))"

datatype write_outcome = WriteCommitted | WriteStaleContent | WritePostMissing

text \<open>\<open>InvalidateProfiles\<close>: a new row, or the next version of the one there.\<close>

definition InvalidateProfiles :: "nat set \<Rightarrow> (nat \<rightharpoonup> int) \<Rightarrow> (nat \<rightharpoonup> int)" where
  "InvalidateProfiles users dirty = (\<lambda>u. if u \<in> users \<and> u \<noteq> 0 then
     Some (case dirty u of None \<Rightarrow> 1 | Some v \<Rightarrow> v + 1) else dirty u)"

definition lockEmbeddingServingVersion :: "embedding_db \<Rightarrow> string res" where
  "lockEmbeddingServingVersion db =
     (case em_serving db of
        None \<Rightarrow> Inl ''lock embedding serving state''
      | Some v \<Rightarrow> if trim_space v = '''' then Inl ''embedding serving state version is blank'' else Inr (trim_space v))"

record new_embedding =
  ne_post :: nat
  ne_version :: string
  ne_stored :: stored_embedding

definition CommitEmbeddingIfCurrent :: "(string \<Rightarrow> string) \<Rightarrow> new_embedding \<Rightarrow> embedding_db \<Rightarrow> string + embedding_db \<times> write_outcome" where
  "CommitEmbeddingIfCurrent hash e db =
     (case em_posts db (ne_post e) of
        None \<Rightarrow> Inr (db, WritePostMissing)
      | Some content \<Rightarrow>
         (if hash content \<noteq> se_hash (ne_stored e) then Inr (db, WriteStaleContent)
          else (case lockEmbeddingServingVersion db of
             Inl err \<Rightarrow> Inl err
           | Inr serving \<Rightarrow>
              (let db1 = db\<lparr>em_vectors := (em_vectors db)((ne_post e, ne_version e) \<mapsto> ne_stored e)\<rparr>
               in Inr (if ne_version e = serving
                       then db1\<lparr>em_dirty := InvalidateProfiles (em_users db (ne_post e)) (em_dirty db)\<rparr>
                       else db1, WriteCommitted)))))"

section \<open>Calls\<close>

text \<open>
  How a database call can go: the transaction commits, rolls back, or commits while the answer
  is lost. \<open>EmbedPanics\<close> is a panic of the client of the provider.
\<close>

datatype db_fault = DbOk | DbFailed string | DbAnswerLost string

record embed_result =
  er_model :: string
  er_vectors :: "float64 list list"

datatype embed_answer = EmbedOk embed_result | EmbedErr call_failure | EmbedPanics

datatype gate_call = GateSucceeded | GateFailed provider_decision failure_scope bool | GatePanicked | GateCanceled

text \<open>
  What the processor meets at its \<open>i\<close>-th call: the context before and after it, the contexts
  inside a retry that begins there, what others did before it, how it goes, and the parameters
  of the code: the hash of a content, the check of a UUID, lower case, the jitter.
\<close>

record embed_env =
  ee_ctx :: "nat \<Rightarrow> net_error option"
  ee_ctx_after :: "nat \<Rightarrow> net_error option"
  ee_retry_ctx :: "nat \<Rightarrow> nat \<Rightarrow> net_error option"
  ee_sleep :: "nat \<Rightarrow> int \<Rightarrow> net_error option"
  ee_other :: "nat \<Rightarrow> embedding_db \<Rightarrow> embedding_db"
  ee_fault :: "nat \<Rightarrow> db_fault"
  ee_permit :: "nat \<Rightarrow> net_error + permit"
  ee_embed :: "nat \<Rightarrow> string list \<Rightarrow> embed_answer"
  ee_dlq :: "nat \<Rightarrow> (dead_letter \<Rightarrow> string option) option"
  ee_build :: "kafka_message \<Rightarrow> dead_letter \<Rightarrow> string option"
  ee_now :: "nat \<Rightarrow> int"
  ee_hash :: "string \<Rightarrow> string"
  ee_uuid_ok :: "string \<Rightarrow> bool"
  ee_lower :: "string \<Rightarrow> string"
  ee_jitter :: "int \<Rightarrow> int"

record embed_sys =
  es_calls :: nat
  es_db :: embedding_db
  es_permits :: "permit list"
  es_gate :: "(permit \<times> gate_call) list"

datatype embed_error = KafkaError kafka_error | ProviderFailed bool provider_decision

text \<open>The state a call finds: what others did has happened.\<close>

definition arrive :: "embed_env \<Rightarrow> embed_sys \<Rightarrow> embed_sys" where
  "arrive env sys = sys\<lparr>es_db := ee_other env (es_calls sys) (es_db sys), es_calls := es_calls sys + 1\<rparr>"

definition db_error :: "embed_env \<Rightarrow> nat \<Rightarrow> string \<Rightarrow> kafka_error" where
  "db_error env i e = (case ee_ctx_after env i of Some c \<Rightarrow> CtxErr c | None \<Rightarrow> ProcessErr Retryable ''database_transaction'' e)"

text \<open>A read in a retried stage; the answer is kept in the second component.\<close>

definition read_stage :: "embed_env \<Rightarrow> (embedding_db \<Rightarrow> 'a option) \<Rightarrow> embed_sys \<times> 'a option \<Rightarrow> (embed_sys \<times> 'a option) \<times> kafka_error option" where
  "read_stage env look st =
     (let i = es_calls (fst st); sys = arrive env (fst st) in
      case ee_fault env i of
        DbOk \<Rightarrow> ((sys, look (es_db sys)), None)
      | DbFailed e \<Rightarrow> ((sys, None), Some (db_error env i e))
      | DbAnswerLost e \<Rightarrow> ((sys, None), Some (db_error env i e)))"

definition commit_stage :: "embed_env \<Rightarrow> new_embedding \<Rightarrow> embed_sys \<times> write_outcome \<Rightarrow> (embed_sys \<times> write_outcome) \<times> kafka_error option" where
  "commit_stage env e st =
     (let i = es_calls (fst st); sys = arrive env (fst st) in
      case CommitEmbeddingIfCurrent (ee_hash env) e (es_db sys) of
        Inl err \<Rightarrow> ((sys, WriteCommitted), Some (db_error env i err))
      | Inr (db, outcome) \<Rightarrow>
         (case ee_fault env i of
            DbOk \<Rightarrow> ((sys\<lparr>es_db := db\<rparr>, outcome), None)
          | DbFailed err \<Rightarrow> ((sys, outcome), Some (db_error env i err))
          | DbAnswerLost err \<Rightarrow> ((sys\<lparr>es_db := db\<rparr>, outcome), Some (db_error env i err))))"

definition retryPostEmbeddingStage ::
  "embed_env \<Rightarrow> kafkaRetryPolicy \<Rightarrow> (embed_sys \<times> 'a \<Rightarrow> (embed_sys \<times> 'a) \<times> kafka_error option) \<Rightarrow> embed_sys \<times> 'a \<Rightarrow>
   (embed_sys \<times> 'a) \<times> kafka_error option" where
  "retryPostEmbeddingStage env policy oper st =
     (case retryKafkaOperation (ee_retry_ctx env (es_calls (fst st))) policy oper st of (st', r, _) \<Rightarrow> (st', r))"

section \<open>One request to the provider\<close>

definition validPostEmbeddingVector :: "float64 list \<Rightarrow> bool" where
  "validPostEmbeddingVector v \<longleftrightarrow> v \<noteq> [] \<and> list_all (\<lambda>x. case x of Fin _ \<Rightarrow> True | _ \<Rightarrow> False) v"

definition validatePostEmbeddingBatchResult :: "embed_result \<Rightarrow> nat \<Rightarrow> bool" where
  "validatePostEmbeddingBatchResult r expected \<longleftrightarrow>
     expected \<ge> 1 \<and> length (er_vectors r) = expected \<and> trim_space (er_model r) \<noteq> '''' \<and>
     list_all validPostEmbeddingVector (er_vectors r) \<and>
     list_all (\<lambda>v. length v = length (hd (er_vectors r))) (er_vectors r)"

datatype once_outcome = OnceError kafka_error | OnceGenerated embed_result | OnceFailed provider_decision bool

definition ends :: "permit \<Rightarrow> gate_call \<Rightarrow> embed_sys \<Rightarrow> embed_sys" where
  "ends p g sys = sys\<lparr>es_gate := es_gate sys @ [(p, g)]\<rparr>"

definition callPostEmbeddingProviderOnce ::
  "embed_env \<Rightarrow> kafkaRetryPolicy \<Rightarrow> string list \<Rightarrow> int \<Rightarrow> embed_sys \<Rightarrow> embed_sys \<times> once_outcome" where
  "callPostEmbeddingProviderOnce env policy texts attempt sys0 =
     (let i = es_calls sys0; sys1 = arrive env sys0; n = int (length texts) in
      case ee_permit env i of
        Inl e \<Rightarrow> (sys1, OnceError (CtxErr e))
      | Inr p \<Rightarrow>
         (let sys = sys1\<lparr>es_permits := es_permits sys1 @ [p]\<rparr> in
          case ee_ctx env i of
            Some e \<Rightarrow> (ends p GateCanceled sys, OnceError (CtxErr e))
          | None \<Rightarrow>
             (case ee_embed env i texts of
                EmbedPanics \<Rightarrow> (ends p GatePanicked sys, OnceError (PlainErr ''panic''))
              | EmbedOk r \<Rightarrow>
                 (if validatePostEmbeddingBatchResult r (length texts)
                  then (ends p GateSucceeded sys, OnceGenerated (r\<lparr>er_model := trim_space (er_model r)\<rparr>))
                  else
                    (case ee_ctx_after env i of
                       Some e \<Rightarrow> (ends p GateCanceled sys, OnceError (CtxErr e))
                     | None \<Rightarrow>
                        (let d = decided (if length texts > 1 then ProviderActionSplitBatch else ProviderActionPause) ''contract''
                         in (ends p (GateFailed d FailureScopePartition False) sys, OnceFailed d (pm_halfOpen p)))))
              | EmbedErr f \<Rightarrow>
                 (if cf_canceled f then (ends p GateCanceled sys, OnceError (PlainErr ''context canceled''))
                  else
                    (case ee_ctx_after env i of
                       Some e \<Rightarrow> (ends p GateCanceled sys, OnceError (CtxErr e))
                     | None \<Rightarrow>
                        (let d = classifyPostEmbeddingProviderError (ee_lower env) f n;
                             long = RetryAfterValid d \<and> DecRetryAfter d > MaxBackoff policy;
                             exhausted = Action d = ProviderActionRetry \<and> (attempt \<ge> MaxAttempts policy \<or> long)
                         in (ends p (GateFailed d (classifyPostEmbeddingFailureScope d n) exhausted) sys,
                             OnceFailed d (pm_halfOpen p))))))))"

text \<open>The pause between two requests.\<close>

fun double_to :: "int \<Rightarrow> nat \<Rightarrow> int \<Rightarrow> int" where
  "double_to mx 0 delay = delay"
| "double_to mx (Suc k) delay =
     (if delay < mx then (if delay > mx div 2 then mx else double_to mx k (delay * 2)) else delay)"

definition providerRetryBackoff :: "kafkaRetryPolicy \<Rightarrow> int \<Rightarrow> (int \<Rightarrow> int) \<Rightarrow> int" where
  "providerRetryBackoff policy attempt jitter =
     (let delay = (if InitialBackoff policy \<le> 0 then InitialBackoff defaultKafkaRetryPolicy else InitialBackoff policy);
          delay = double_to (MaxBackoff policy) (nat (attempt - 1)) delay;
          delay = (if MaxBackoff policy > 0 \<and> delay > MaxBackoff policy then MaxBackoff policy else delay);
          delay = jitter delay
      in if MaxBackoff policy > 0 \<and> delay > MaxBackoff policy then MaxBackoff policy else delay)"

definition normalizedKafkaRetryPolicy :: "kafkaRetryPolicy \<Rightarrow> kafkaRetryPolicy" where
  "normalizedKafkaRetryPolicy p =
     (let p = (if MaxAttempts p < 1 then p\<lparr>MaxAttempts := MaxAttempts defaultKafkaRetryPolicy\<rparr> else p);
          p = (if InitialBackoff p \<le> 0 then p\<lparr>InitialBackoff := InitialBackoff defaultKafkaRetryPolicy\<rparr> else p);
          p = (if MaxBackoff p \<le> 0 then p\<lparr>MaxBackoff := MaxBackoff defaultKafkaRetryPolicy\<rparr> else p)
      in if MaxBackoff p < InitialBackoff p then p\<lparr>MaxBackoff := InitialBackoff p\<rparr> else p)"

text \<open>The attempts; \<open>left\<close> counts those after this one, so the last has \<open>left = 0\<close>.\<close>

fun generate_loop ::
  "embed_env \<Rightarrow> kafkaRetryPolicy \<Rightarrow> string list \<Rightarrow> nat \<Rightarrow> embed_sys \<Rightarrow> embed_sys \<times> (embed_error + embed_result)" where
  "generate_loop env policy texts left sys =
     (let attempt = MaxAttempts policy - int left; i = es_calls sys in
      case ee_ctx env i of
        Some e \<Rightarrow> (sys, Inl (KafkaError (CtxErr e)))
      | None \<Rightarrow>
         (case callPostEmbeddingProviderOnce env policy texts attempt sys of
            (sys1, OnceError e) \<Rightarrow> (sys1, Inl (KafkaError e))
          | (sys1, OnceGenerated r) \<Rightarrow> (sys1, Inr r)
          | (sys1, OnceFailed d probe) \<Rightarrow>
             (if Action d \<noteq> ProviderActionRetry \<or> probe then (sys1, Inl (ProviderFailed False d))
              else if RetryAfterValid d \<and> DecRetryAfter d > MaxBackoff policy then (sys1, Inl (ProviderFailed False d))
              else
                (case left of
                   0 \<Rightarrow> (sys1, Inl (ProviderFailed True d))
                 | Suc k \<Rightarrow>
                    (let backoff = providerRetryBackoff policy attempt (ee_jitter env);
                         backoff = (if RetryAfterValid d \<and> DecRetryAfter d > backoff then DecRetryAfter d else backoff)
                     in case ee_sleep env i backoff of
                          Some e \<Rightarrow> (sys1, Inl (KafkaError (CtxErr e)))
                        | None \<Rightarrow> generate_loop env policy texts k sys1)))))"

declare generate_loop.simps [simp del]

definition generatePostEmbeddingTextsWithRuntimeAndGate ::
  "embed_env \<Rightarrow> kafkaRetryPolicy \<Rightarrow> string list \<Rightarrow> embed_sys \<Rightarrow> embed_sys \<times> (embed_error + embed_result)" where
  "generatePostEmbeddingTextsWithRuntimeAndGate env policy texts sys =
     (let policy = normalizedKafkaRetryPolicy policy
      in generate_loop env policy texts (nat (MaxAttempts policy) - 1) sys)"

section \<open>A batch\<close>

definition EventTypePostEmbeddingRequested :: string where "EventTypePostEmbeddingRequested = ''post.embedding.requested''"

fun unmarshal_post_id :: "(string \<times> json) list \<Rightarrow> int \<Rightarrow> int option" where
  "unmarshal_post_id [] old = Some old"
| "unmarshal_post_id ((n, v) # fs) old =
     (if fold_name n = ''post_id''
      then (case unmarshal_int 0 (2 ^ 64 - 1) v old of None \<Rightarrow> None | Some i \<Rightarrow> unmarshal_post_id fs i)
      else unmarshal_post_id fs old)"

fun unmarshal_embedding_payload :: "json \<Rightarrow> int option" where
  "unmarshal_embedding_payload (JObject fs) = unmarshal_post_id fs 0"
| "unmarshal_embedding_payload JNull = Some 0"
| "unmarshal_embedding_payload _ = None"

text \<open>The zero value of \<open>time.Time\<close>, in nanoseconds of the epoch.\<close>

definition zero_time :: int where "zero_time = - 62135596800 * go_second"

definition decodePostEmbeddingMessage :: "(string \<Rightarrow> bool) \<Rightarrow> kafka_message \<Rightarrow> kafka_error + nat" where
  "decodePostEmbeddingMessage uuid_ok m =
     (case DecodeEnvelope (km_value m) of
        Inl e \<Rightarrow> Inl (ProcessErr Permanent ''decode_envelope'' e)
      | Inr ev \<Rightarrow>
         (if \<not> uuid_ok (ev_id ev) then Inl (ProcessErr Permanent ''invalid_payload'' ''post embedding event id must be a UUID'')
          else if ev_type ev \<noteq> EventTypePostEmbeddingRequested then Inl (ProcessErr Permanent ''unsupported_event_type'' (ev_type ev))
          else if ev_schema ev \<noteq> 1 then Inl (ProcessErr Permanent ''unsupported_schema'' (show_int (ev_schema ev)))
          else if ev_agg_type ev \<noteq> ''post'' then Inl (ProcessErr Permanent ''invalid_payload'' (ev_agg_type ev))
          else if ev_occurred ev = zero_time then Inl (ProcessErr Permanent ''invalid_payload'' ''post embedding occurred_at is required'')
          else (case unmarshal_embedding_payload (ev_payload ev) of
             None \<Rightarrow> Inl (ProcessErr Permanent ''decode_payload'' '''')
           | Some post \<Rightarrow>
              (if post = 0 then Inl (ProcessErr Permanent ''invalid_payload'' ''post embedding payload post_id is required'')
               else if ev_agg_id ev \<noteq> show_nat (nat post)
               then Inl (ProcessErr Permanent ''invalid_payload'' ''post embedding aggregate_id does not match payload post_id'')
               else Inr (nat post)))))"

record work_item =
  wi_message :: kafka_message
  wi_post :: nat
  wi_hash :: string
  wi_text :: string

text \<open>
  \<open>None\<close> is a request with nothing to do: the post is gone, or its embedding is of the same
  content.
\<close>

definition loadPostEmbeddingSource ::
  "embed_env \<Rightarrow> kafkaRetryPolicy \<Rightarrow> string \<Rightarrow> nat \<Rightarrow> embed_sys \<Rightarrow> embed_sys \<times> (kafka_error + (string \<times> string) option)" where
  "loadPostEmbeddingSource env policy version post sys =
     (case retryPostEmbeddingStage env policy (read_stage env (\<lambda>db. em_posts db post)) (sys, None) of
        ((sys1, _), Some e) \<Rightarrow> (sys1, Inl e)
      | ((sys1, None), None) \<Rightarrow> (sys1, Inr None)
      | ((sys1, Some content), None) \<Rightarrow>
         (case retryPostEmbeddingStage env policy (read_stage env (\<lambda>db. em_vectors db (post, version))) (sys1, None) of
            ((sys2, _), Some e) \<Rightarrow> (sys2, Inl e)
          | ((sys2, existing), None) \<Rightarrow>
             (if (case existing of Some e \<Rightarrow> se_hash e = ee_hash env content | None \<Rightarrow> False) then (sys2, Inr None)
              else (sys2, Inr (Some (content, ee_hash env content))))))"

definition publishPostEmbeddingDLQ :: "embed_env \<Rightarrow> kafka_message \<Rightarrow> kafka_error \<Rightarrow> embed_sys \<Rightarrow> embed_sys \<times> kafka_error option" where
  "publishPostEmbeddingDLQ env m err sys0 =
     (let i = es_calls sys0; sys = arrive env sys0 in
      case publishConsumerDLQ (ee_ctx env i) (ee_dlq env i) (ee_build env m) ''post_embedding'' err 1 of
        Inl e \<Rightarrow> (sys, Some e)
      | Inr d \<Rightarrow> (sys\<lparr>es_db := (es_db sys)\<lparr>em_dlq := em_dlq (es_db sys) @ [(m, d)]\<rparr>\<rparr>, None))"

fun collect_work ::
  "embed_env \<Rightarrow> kafkaRetryPolicy \<Rightarrow> string \<Rightarrow> kafka_message list \<Rightarrow> embed_sys \<Rightarrow> embed_sys \<times> (kafka_error + work_item list)" where
  "collect_work env policy version [] sys = (sys, Inr [])"
| "collect_work env policy version (m # ms) sys =
     (case ee_ctx env (es_calls sys) of
        Some e \<Rightarrow> (sys, Inl (CtxErr e))
      | None \<Rightarrow>
         (case decodePostEmbeddingMessage (ee_uuid_ok env) m of
            Inl err \<Rightarrow>
              (if kafkaFailureClassOf err \<noteq> Some Permanent then (sys, Inl err)
               else (case publishPostEmbeddingDLQ env m err sys of
                  (sys1, Some e) \<Rightarrow> (sys1, Inl e)
                | (sys1, None) \<Rightarrow> collect_work env policy version ms sys1))
          | Inr post \<Rightarrow>
              (case loadPostEmbeddingSource env policy version post sys of
                 (sys1, Inl e) \<Rightarrow> (sys1, Inl e)
               | (sys1, Inr None) \<Rightarrow> collect_work env policy version ms sys1
               | (sys1, Inr (Some (content, h))) \<Rightarrow>
                   (case collect_work env policy version ms sys1 of
                      (sys2, Inl e) \<Rightarrow> (sys2, Inl e)
                    | (sys2, Inr items) \<Rightarrow>
                        (sys2, Inr (\<lparr>wi_message = m, wi_post = post, wi_hash = h, wi_text = content\<rparr> # items))))))"

definition commitPostEmbedding ::
  "embed_env \<Rightarrow> kafkaRetryPolicy \<Rightarrow> new_embedding \<Rightarrow> embed_sys \<Rightarrow> embed_sys \<times> (kafka_error + write_outcome)" where
  "commitPostEmbedding env policy e sys =
     (case retryPostEmbeddingStage env policy (commit_stage env e) (sys, WriteCommitted) of
        ((sys1, _), Some err) \<Rightarrow> (sys1, Inl err)
      | ((sys1, outcome), None) \<Rightarrow> (sys1, Inr outcome))"

fun store_items ::
  "embed_env \<Rightarrow> kafkaRetryPolicy \<Rightarrow> string \<Rightarrow> string \<Rightarrow> int \<Rightarrow> (work_item \<times> float64 list) list \<Rightarrow> embed_sys \<Rightarrow>
   embed_sys \<times> embed_error option" where
  "store_items env policy version model now [] sys = (sys, None)"
| "store_items env policy version model now ((item, v) # rest) sys =
     (case ee_ctx env (es_calls sys) of
        Some e \<Rightarrow> (sys, Some (KafkaError (CtxErr e)))
      | None \<Rightarrow>
         (case commitPostEmbedding env policy
            \<lparr>ne_post = wi_post item, ne_version = version,
             ne_stored = \<lparr>se_model = model, se_dimensions = length v, se_vector = v, se_hash = wi_hash item, se_updated = now\<rparr>\<rparr> sys of
            (sys1, Inl e) \<Rightarrow> (sys1, Some (KafkaError e))
          | (sys1, Inr WriteStaleContent) \<Rightarrow>
              (sys1, Some (KafkaError (ProcessErr Retryable ''source_changed'' ''post content changed during embedding generation'')))
          | (sys1, Inr _) \<Rightarrow> store_items env policy version model now rest sys1))"

function processPostEmbeddingWorkItemsWithHooks ::
  "embed_env \<Rightarrow> kafkaRetryPolicy \<Rightarrow> string \<Rightarrow> work_item list \<Rightarrow> embed_sys \<Rightarrow> embed_sys \<times> embed_error option" where
  "processPostEmbeddingWorkItemsWithHooks env policy version items sys =
     (case generatePostEmbeddingTextsWithRuntimeAndGate env policy (map wi_text items) sys of
        (sys1, Inl (KafkaError e)) \<Rightarrow> (sys1, Some (KafkaError e))
      | (sys1, Inl (ProviderFailed w d)) \<Rightarrow>
         (if Action d \<noteq> ProviderActionSplitBatch \<or> length items < 2 then (sys1, Some (ProviderFailed w d))
          else
            (case processPostEmbeddingWorkItemsWithHooks env policy version (take (length items div 2) items) sys1 of
               (sys2, Some e) \<Rightarrow> (sys2, Some e)
             | (sys2, None) \<Rightarrow> processPostEmbeddingWorkItemsWithHooks env policy version (drop (length items div 2) items) sys2))
      | (sys1, Inr r) \<Rightarrow>
         store_items env policy version (trim_space (er_model r)) (ee_now env (es_calls sys1)) (zip items (er_vectors r)) sys1)"
  by pat_completeness auto
termination
  by (relation "measure (\<lambda>(env, policy, version, items, sys). length items)") auto

declare processPostEmbeddingWorkItemsWithHooks.simps [simp del]

definition processPostEmbeddingBatchWithHooks ::
  "embed_env \<Rightarrow> kafkaRetryPolicy \<Rightarrow> string \<Rightarrow> kafka_message list \<Rightarrow> embed_sys \<Rightarrow> embed_sys \<times> embed_error option" where
  "processPostEmbeddingBatchWithHooks env policy build ms sys =
     (case ee_ctx env (es_calls sys) of
        Some e \<Rightarrow> (sys, Some (KafkaError (CtxErr e)))
      | None \<Rightarrow>
         (if trim_space build = '''' then (sys, Some (KafkaError (PlainErr ''build embedding version is required'')))
          else
            (case collect_work env policy (trim_space build) ms sys of
               (sys1, Inl e) \<Rightarrow> (sys1, Some (KafkaError e))
             | (sys1, Inr items) \<Rightarrow>
                (if items = [] then (sys1, None)
                 else processPostEmbeddingWorkItemsWithHooks env policy (trim_space build) items sys1))))"

section \<open>What is settled\<close>

text \<open>
  A later edit to a content of another hash. It deletes the embeddings of the post and makes a
  request for the new content, in one transaction (\<open>syncExistingPost\<close>).
\<close>

definition superseded :: "(string \<Rightarrow> string) \<Rightarrow> nat \<Rightarrow> nat \<Rightarrow> embedding_db \<Rightarrow> bool" where
  "superseded hash p k db \<longleftrightarrow>
     (\<exists>j > k. j < length (em_contents db p) \<and> hash (em_contents db p ! j) \<noteq> hash (em_contents db p ! k))"

text \<open>
  What a version owes to revision \<open>k\<close> of a post is done: the post is gone, or was edited since, or
  the embedding stored is of that very content.
\<close>

definition embedded :: "(string \<Rightarrow> string) \<Rightarrow> nat \<Rightarrow> string \<Rightarrow> nat \<Rightarrow> embedding_db \<Rightarrow> bool" where
  "embedded hash p v k db \<longleftrightarrow> p \<in> em_deleted db \<or> superseded hash p k db \<or>
     (\<exists>e. em_vectors db (p, v) = Some e \<and> se_hash e = hash (em_contents db p ! k))"

text \<open>
  A request is published in the transaction that writes the content it is for (\<open>revision m\<close>, its
  index among the contents of the post), or later, so whoever reads the request finds that
  content or a newer one in the database.
\<close>

definition visible :: "(string \<Rightarrow> bool) \<Rightarrow> (kafka_message \<Rightarrow> nat) \<Rightarrow> kafka_message \<Rightarrow> embedding_db \<Rightarrow> bool" where
  "visible uuid_ok revision m db \<longleftrightarrow>
     (\<forall>p. decodePostEmbeddingMessage uuid_ok m = Inr p \<longrightarrow> revision m < length (em_contents db p))"

text \<open>
  A message is settled when it cannot be decoded and is in the dead letter topic under the code of
  its failure, or when its revision is embedded.
\<close>

definition request_settled ::
  "(string \<Rightarrow> string) \<Rightarrow> (string \<Rightarrow> bool) \<Rightarrow> (kafka_message \<Rightarrow> nat) \<Rightarrow> string \<Rightarrow> kafka_message \<Rightarrow> embedding_db \<Rightarrow> bool" where
  "request_settled hash uuid_ok revision v m db \<longleftrightarrow>
     (case decodePostEmbeddingMessage uuid_ok m of
        Inl err \<Rightarrow> (\<exists>d. (m, d) \<in> set (em_dlq db) \<and> dl_code d = kafkaFailureCode err)
      | Inr p \<Rightarrow> revision m < length (em_contents db p) \<and> embedded hash p v (revision m) db)"

text \<open>
  What any client may do: contents are added, deleted posts and dead letters stay, and what was
  owed to a revision and done stays done.
\<close>

definition allowed :: "(string \<Rightarrow> string) \<Rightarrow> embedding_db \<Rightarrow> embedding_db \<Rightarrow> bool" where
  "allowed hash db db' \<longleftrightarrow>
     (\<forall>p. prefix (em_contents db p) (em_contents db' p)) \<and>
     em_deleted db \<subseteq> em_deleted db' \<and> set (em_dlq db) \<subseteq> set (em_dlq db') \<and>
     (\<forall>p v. \<forall>k < length (em_contents db p). embedded hash p v k db \<longrightarrow> embedded hash p v k db')"

lemma allowed_refl [simp]: "allowed hash db db"
  by (simp add: allowed_def)

lemma allowed_length: "allowed hash db db' \<Longrightarrow> length (em_contents db p) \<le> length (em_contents db' p)"
  by (simp add: allowed_def prefix_length_le)

lemma allowed_nth:
  "allowed hash db db' \<Longrightarrow> i < length (em_contents db p) \<Longrightarrow> em_contents db' p ! i = em_contents db p ! i"
  unfolding allowed_def prefix_def by (metis nth_append)

lemma allowed_embedded:
  "allowed hash db db' \<Longrightarrow> k < length (em_contents db p) \<Longrightarrow> embedded hash p v k db \<Longrightarrow> embedded hash p v k db'"
  unfolding allowed_def by blast

lemma allowed_trans:
  assumes "allowed hash a b" "allowed hash b c"
  shows "allowed hash a c"
  unfolding allowed_def
proof (intro conjI allI impI)
  show "prefix (em_contents a p) (em_contents c p)" for p
    using assms unfolding allowed_def by (meson prefix_order.trans)
  show "em_deleted a \<subseteq> em_deleted c" "set (em_dlq a) \<subseteq> set (em_dlq c)" using assms unfolding allowed_def by blast+
  show "embedded hash p v k c" if "k < length (em_contents a p)" "embedded hash p v k a" for p v k
    using allowed_embedded [OF assms(1) that] allowed_embedded [OF assms(2)] allowed_length [OF assms(1), of p] that(1) by simp
qed

lemma settled_allowed:
  assumes "allowed hash db db'" "request_settled hash ok revision v m db"
  shows "request_settled hash ok revision v m db'"
  using assms allowed_embedded [OF assms(1)] allowed_length [OF assms(1)] unfolding request_settled_def
  by (auto simp: allowed_def split: sum.splits intro: less_le_trans)

lemma visible_allowed: "allowed hash db db' \<Longrightarrow> visible ok revision m db \<Longrightarrow> visible ok revision m db'"
  unfolding visible_def using allowed_length by (meson less_le_trans)

text \<open>
  The other clients of the program make such changes: they create posts, delete them, and edit
  them, deleting the embeddings of the post when the hash changes.
\<close>

definition edit_post :: "(string \<Rightarrow> string) \<Rightarrow> nat \<Rightarrow> string \<Rightarrow> embedding_db \<Rightarrow> embedding_db" where
  "edit_post hash p c db =
     db\<lparr>em_contents := (em_contents db)(p := em_contents db p @ [c]),
        em_vectors := (if em_contents db p \<noteq> [] \<and> hash (last (em_contents db p)) \<noteq> hash c
          then (\<lambda>(q, v). if q = p then None else em_vectors db (q, v)) else em_vectors db)\<rparr>"

lemma edit_allowed: "allowed hash db (edit_post hash p c db)"
proof -
  let ?cs = "em_contents db p" and ?db = "edit_post hash p c db"
  have cs: "em_contents ?db p = ?cs @ [c]" "q \<noteq> p \<Longrightarrow> em_contents ?db q = em_contents db q" for q
    by (simp_all add: edit_post_def)
  have "embedded hash q v k ?db" if len: "k < length (em_contents db q)" and owed: "embedded hash q v k db" for q v k
  proof (cases "q = p")
    case False
    with owed show ?thesis by (auto simp: embedded_def superseded_def edit_post_def)
  next
    case True
    have k: "k < length ?cs" "?cs \<noteq> []" using len True by auto
    have sup: "superseded hash p k ?db" if "j > k" "j < length (?cs @ [c])" "hash ((?cs @ [c]) ! j) \<noteq> hash (?cs ! k)" for j
      unfolding superseded_def cs using that k(1) by (intro exI [of _ j]) (simp add: nth_append)
    consider (gone) "p \<in> em_deleted db" | (before) "superseded hash p k db"
      | (kept) e where "em_vectors db (p, v) = Some e" "se_hash e = hash (?cs ! k)"
      using owed True unfolding embedded_def by blast
    then show ?thesis
    proof cases
      case gone
      with True show ?thesis by (simp add: embedded_def edit_post_def)
    next
      case before
      then obtain j where "j > k" "j < length ?cs" "hash (?cs ! j) \<noteq> hash (?cs ! k)" by (auto simp: superseded_def)
      then show ?thesis using sup [of j] True by (simp add: embedded_def nth_append)
    next
      case kept
      show ?thesis
      proof (cases "hash (last ?cs) = hash c")
        case same: True
        with kept True k show ?thesis by (auto simp: embedded_def edit_post_def nth_append)
      next
        case False
        have "superseded hash p k ?db"
        proof (cases "hash (last ?cs) = hash (?cs ! k)")
          case True
          with False k show ?thesis using sup [of "length ?cs"] by (simp add: nth_append)
        next
          case ne: False
          then have "k \<noteq> length ?cs - 1" using k by (auto simp: last_conv_nth)
          with k ne show ?thesis using sup [of "length ?cs - 1"] by (simp add: nth_append last_conv_nth)
        qed
        with True show ?thesis by (simp add: embedded_def)
      qed
    qed
  qed
  then show ?thesis by (auto simp: allowed_def edit_post_def)
qed

lemma allowed_clients:
  "allowed hash db (edit_post hash p c db)"
  "allowed hash db (db\<lparr>em_deleted := insert p (em_deleted db)\<rparr>)"
  "allowed hash db (db\<lparr>em_dlq := em_dlq db @ [x]\<rparr>)"
proof -
  show "allowed hash db (edit_post hash p c db)" by (rule edit_allowed)
  show "allowed hash db (db\<lparr>em_deleted := insert p (em_deleted db)\<rparr>)" "allowed hash db (db\<lparr>em_dlq := em_dlq db @ [x]\<rparr>)"
    by (auto simp: allowed_def embedded_def superseded_def)
qed

text \<open>An embedding of the last content is what is owed to every revision so far.\<close>

lemma embedded_last:
  assumes "em_vectors db (p, v) = Some e" "se_hash e = hash (em_contents db p ! i)"
    and "k \<le> i" "i < length (em_contents db p)"
  shows "embedded hash p v k db"
  using assms unfolding embedded_def superseded_def by (cases "k = i") (auto simp: order_le_less)

lemma embedded_missing: "em_posts db p = None \<Longrightarrow> k < length (em_contents db p) \<Longrightarrow> embedded hash p v k db"
  by (auto simp: em_posts_def embedded_def split: if_splits)

lemma commit_allowed:
  assumes run: "CommitEmbeddingIfCurrent hash e db = Inr (db', outcome)"
  shows "allowed hash db db' \<and> (outcome = WriteStaleContent \<or>
    (\<forall>k < length (em_contents db (ne_post e)). embedded hash (ne_post e) (ne_version e) k db'))"
proof (cases "em_posts db (ne_post e)")
  case None
  with run have "db' = db" by (simp add: CommitEmbeddingIfCurrent_def)
  with None embedded_missing show ?thesis by simp
next
  case (Some content)
  show ?thesis
  proof (cases "hash content = se_hash (ne_stored e)")
    case False
    with run Some have "db' = db" "outcome = WriteStaleContent" by (auto simp: CommitEmbeddingIfCurrent_def)
    then show ?thesis by simp
  next
    case True
    let ?p = "ne_post e"
    from run Some True have db': "em_vectors db' = (em_vectors db)((?p, ne_version e) \<mapsto> ne_stored e)"
      "em_contents db' = em_contents db" "em_deleted db' = em_deleted db" "em_dlq db' = em_dlq db"
      by (auto simp: CommitEmbeddingIfCurrent_def Let_def split: sum.splits if_splits)
    have c: "em_contents db ?p \<noteq> []" "content = em_contents db ?p ! (length (em_contents db ?p) - 1)"
      using Some by (auto simp: em_posts_def last_conv_nth split: if_splits)
    have new: "embedded hash ?p (ne_version e) k db'" if "k < length (em_contents db ?p)" for k
      by (rule embedded_last [where i = "length (em_contents db ?p) - 1"]) (use db' c True that in auto)
    have "embedded hash q v k db'" if "k < length (em_contents db q)" "embedded hash q v k db" for q v k
    proof (cases "q = ?p \<and> v = ne_version e")
      case True
      with new that(1) show ?thesis by auto
    next
      case False
      with that(2) show ?thesis by (auto simp: embedded_def superseded_def db')
    qed
    with new show ?thesis by (simp add: allowed_def db')
  qed
qed

section \<open>What a run of the processor does\<close>

text \<open>
  A piece of a run: the database changes as any client may change it, and every permit taken
  has been given back once.
\<close>

definition moves :: "embed_env \<Rightarrow> embed_sys \<Rightarrow> embed_sys \<Rightarrow> bool" where
  "moves env sys sys' \<longleftrightarrow> allowed (ee_hash env) (es_db sys) (es_db sys') \<and>
     (map fst (es_gate sys) = es_permits sys \<longrightarrow> map fst (es_gate sys') = es_permits sys')"

definition env_ok :: "embed_env \<Rightarrow> bool" where
  "env_ok env \<longleftrightarrow> (\<forall>i db. allowed (ee_hash env) db (ee_other env i db))"

lemma moves_refl [simp]: "moves env sys sys"
  by (simp add: moves_def)

lemma moves_trans: "moves env a b \<Longrightarrow> moves env b c \<Longrightarrow> moves env a c"
  unfolding moves_def using allowed_trans by blast

lemma moves_arrive: "env_ok env \<Longrightarrow> moves env sys (arrive env sys)"
  by (simp add: env_ok_def moves_def arrive_def)

lemma moves_length: "moves env a b \<Longrightarrow> k < length (em_contents (es_db a) p) \<Longrightarrow> k < length (em_contents (es_db b) p)"
  unfolding moves_def using allowed_length by (meson less_le_trans)

lemma moves_embedded: "moves env a b \<Longrightarrow> k < length (em_contents (es_db a) p) \<Longrightarrow>
    embedded (ee_hash env) p v k (es_db a) \<Longrightarrow> embedded (ee_hash env) p v k (es_db b)"
  unfolding moves_def using allowed_embedded by blast

lemma moves_visible: "moves env a b \<Longrightarrow> visible ok revision m (es_db a) \<Longrightarrow> visible ok revision m (es_db b)"
  unfolding moves_def using visible_allowed by blast

text \<open>Everything owed to the revisions of a post that were there at an earlier moment is done.\<close>

definition caught_up :: "embed_env \<Rightarrow> nat \<Rightarrow> string \<Rightarrow> embed_sys \<Rightarrow> embed_sys \<Rightarrow> bool" where
  "caught_up env p v sys0 sys \<longleftrightarrow> (\<forall>k < length (em_contents (es_db sys0) p). embedded (ee_hash env) p v k (es_db sys))"

lemma caught_up_before: "moves env a b \<Longrightarrow> caught_up env p v b c \<Longrightarrow> caught_up env p v a c"
  unfolding caught_up_def using moves_length by blast

lemma caught_up_after: "moves env a b \<Longrightarrow> moves env b c \<Longrightarrow> caught_up env p v a b \<Longrightarrow> caught_up env p v a c"
  unfolding caught_up_def using moves_length moves_embedded by blast

lemma moves_settled: "moves env a b \<Longrightarrow> request_settled (ee_hash env) ok revision v m (es_db a) \<Longrightarrow>
    request_settled (ee_hash env) ok revision v m (es_db b)"
  unfolding moves_def using settled_allowed by blast

lemma read_stage_moves:
  assumes "env_ok env" "read_stage env look st = (st', r)"
  shows "moves env (fst st) (fst st') \<and> (r = None \<longrightarrow> snd st' = look (es_db (fst st')))"
  using assms(2) moves_arrive [OF assms(1), of "fst st"] unfolding read_stage_def
  by (auto simp: Let_def split: db_fault.splits)

lemma read_retry:
  fixes look :: "embedding_db \<Rightarrow> 'a option"
  assumes "env_ok env" "retryPostEmbeddingStage env policy (read_stage env look) (sys, x) = ((sys', y), r)"
  shows "moves env sys sys' \<and> (r = None \<longrightarrow> y = look (es_db sys'))"
proof -
  obtain k where run: "retryKafkaOperation (ee_retry_ctx env (es_calls sys)) policy (read_stage env look) (sys, x) = ((sys', y), r, k)"
    using assms(2) unfolding retryPostEmbeddingStage_def by (auto split: prod.splits)
  have "moves env sys (fst (sys', y)) \<and> (r = None \<longrightarrow> snd (sys', y) = look (es_db (fst (sys', y))))"
  proof (rule retry_invariant [where I = "\<lambda>st. moves env sys (fst st)" and G = "\<lambda>st. snd st = look (es_db (fst st))", OF run])
    fix x :: "embed_sys \<times> 'a option" assume "moves env sys (fst x)"
    moreover obtain st' r' where st: "read_stage env look x = (st', r')" by fastforce
    ultimately show "moves env sys (fst (fst (read_stage env look x)))"
      using read_stage_moves [OF assms(1) st] moves_trans st by auto
  next
    fix x y :: "embed_sys \<times> 'a option" assume "read_stage env look x = (y, None)"
    with read_stage_moves [OF assms(1) this] show "snd y = look (es_db (fst y))" by blast
  qed simp
  then show ?thesis by simp
qed

lemma commit_stage_moves:
  assumes "env_ok env" "commit_stage env e st = (st', r)"
  shows "moves env (fst st) (fst st') \<and>
    (r = None \<longrightarrow> snd st' = WriteStaleContent \<or> caught_up env (ne_post e) (ne_version e) (fst st) (fst st'))"
proof -
  let ?s = "arrive env (fst st)"
  note a = moves_arrive [OF assms(1), of "fst st"]
  show ?thesis
  proof (cases "CommitEmbeddingIfCurrent (ee_hash env) e (es_db ?s)")
    case (Inl err)
    with assms(2) a show ?thesis by (auto simp: commit_stage_def Let_def)
  next
    case (Inr x)
    obtain db outcome where x: "x = (db, outcome)" by fastforce
    note c = commit_allowed [OF Inr [unfolded x]]
    have "moves env ?s (?s\<lparr>es_db := db\<rparr>)" using c by (simp add: moves_def)
    with a have m: "moves env (fst st) (?s\<lparr>es_db := db\<rparr>)" by (rule moves_trans)
    have "outcome = WriteStaleContent \<or> caught_up env (ne_post e) (ne_version e) ?s (?s\<lparr>es_db := db\<rparr>)"
      using c by (auto simp: caught_up_def)
    with caught_up_before [OF a] have
      "outcome = WriteStaleContent \<or> caught_up env (ne_post e) (ne_version e) (fst st) (?s\<lparr>es_db := db\<rparr>)" by blast
    with assms(2) Inr x m a show ?thesis by (auto simp: commit_stage_def Let_def split: db_fault.splits)
  qed
qed

lemma commit_moves:
  assumes "env_ok env" "commitPostEmbedding env policy e sys = (sys', r)"
  shows "moves env sys sys' \<and> (\<forall>w. r = Inr w \<longrightarrow> w = WriteStaleContent \<or> caught_up env (ne_post e) (ne_version e) sys sys')"
proof -
  obtain y err k where run: "retryKafkaOperation (ee_retry_ctx env (es_calls sys)) policy (commit_stage env e) (sys, WriteCommitted) = ((sys', y), err, k)"
    and r: "r = (case err of Some x \<Rightarrow> Inl x | None \<Rightarrow> Inr y)"
    using assms(2) unfolding commitPostEmbedding_def retryPostEmbeddingStage_def by (auto split: prod.splits option.splits)
  let ?G = "\<lambda>st. moves env sys (fst st) \<longrightarrow> snd st = WriteStaleContent \<or> caught_up env (ne_post e) (ne_version e) sys (fst st)"
  have "moves env sys (fst (sys', y)) \<and> (err = None \<longrightarrow> ?G (sys', y))"
  proof (rule retry_invariant [where I = "\<lambda>st. moves env sys (fst st)" and G = ?G, OF run])
    fix x :: "embed_sys \<times> write_outcome" assume "moves env sys (fst x)"
    moreover obtain st' r' where st: "commit_stage env e x = (st', r')" by fastforce
    ultimately show "moves env sys (fst (fst (commit_stage env e x)))"
      using commit_stage_moves [OF assms(1) st] moves_trans st by auto
  next
    fix x y :: "embed_sys \<times> write_outcome" assume "moves env sys (fst x)" "commit_stage env e x = (y, None)"
    with commit_stage_moves [OF assms(1) this(2)] caught_up_before show "?G y" by blast
  qed simp
  with r show ?thesis by (auto split: option.splits)
qed

lemma once_moves:
  assumes "env_ok env" "callPostEmbeddingProviderOnce env policy texts attempt sys = (sys', r)"
  shows "moves env sys sys' \<and> (\<forall>g. r = OnceGenerated g \<longrightarrow> length (er_vectors g) = length texts)"
proof -
  note a = moves_arrive [OF assms(1), of sys]
  have e: "moves env (arrive env sys) (ends p g (arrive env sys\<lparr>es_permits := es_permits (arrive env sys) @ [p]\<rparr>))" for p g
    by (simp add: moves_def ends_def)
  show ?thesis
    using assms(2) a moves_trans [OF a e] unfolding callPostEmbeddingProviderOnce_def Let_def
    by (auto simp: validatePostEmbeddingBatchResult_def split: sum.splits option.splits embed_answer.splits if_splits)
qed

lemma generate_moves:
  "env_ok env \<Longrightarrow> generate_loop env policy texts left sys = (sys', r) \<Longrightarrow>
   moves env sys sys' \<and> (\<forall>g. r = Inr g \<longrightarrow> length (er_vectors g) = length texts)"
proof (induction left arbitrary: sys)
  case 0
  from "0.prems"(2) show ?case
    using once_moves [OF "0.prems"(1)] unfolding generate_loop.simps [of env policy texts 0]
    by (auto simp: Let_def split: option.splits prod.splits once_outcome.splits if_splits)
next
  case (Suc k)
  obtain s1 o1 where once: "callPostEmbeddingProviderOnce env policy texts (MaxAttempts policy - int (Suc k)) sys = (s1, o1)" by fastforce
  note m = once_moves [OF Suc.prems(1) once]
  from Suc.prems(2) once m consider "moves env sys sys' \<and> (\<forall>g. r = Inr g \<longrightarrow> length (er_vectors g) = length texts)"
    | "generate_loop env policy texts k s1 = (sys', r)"
    unfolding generate_loop.simps [of env policy texts "Suc k"]
    by (auto simp: Let_def split: option.splits once_outcome.splits if_splits)
  then show ?case
    using Suc.IH [OF Suc.prems(1)] m moves_trans by cases blast+
qed

lemma store_moves:
  "env_ok env \<Longrightarrow> store_items env policy v model now xs sys = (sys', r) \<Longrightarrow>
   moves env sys sys' \<and> (r = None \<longrightarrow> (\<forall>x \<in> set xs. caught_up env (wi_post (fst x)) v sys sys'))"
proof (induction xs arbitrary: sys)
  case (Cons x xs)
  obtain item vec where x: "x = (item, vec)" by fastforce
  let ?e = "\<lparr>ne_post = wi_post item, ne_version = v,
             ne_stored = \<lparr>se_model = model, se_dimensions = length vec, se_vector = vec, se_hash = wi_hash item, se_updated = now\<rparr>\<rparr>"
  obtain s1 r1 where c: "commitPostEmbedding env policy ?e sys = (s1, r1)" by fastforce
  note m = commit_moves [OF Cons.prems(1) c]
  from Cons.prems(2) x c m consider "moves env sys sys'" "r \<noteq> None"
    | w where "r1 = Inr w" "w \<noteq> WriteStaleContent" "store_items env policy v model now xs s1 = (sys', r)"
    by (auto split: option.splits sum.splits write_outcome.splits)
  then show ?case
  proof cases
    case (2 w)
    note IH = Cons.IH [OF Cons.prems(1) 2(3)]
    have "caught_up env (wi_post item) v sys s1" using m 2(1,2) by auto
    with IH m have first: "caught_up env (wi_post item) v sys sys'" using caught_up_after by blast
    have "caught_up env (wi_post (fst y)) v sys sys'" if "r = None" "y \<in> set xs" for y
      using IH m that caught_up_before by blast
    moreover have "moves env sys sys'" using IH m moves_trans by blast
    ultimately show ?thesis using first by (auto simp: x)
  qed blast
qed simp

lemma items_moves:
  "env_ok env \<Longrightarrow> processPostEmbeddingWorkItemsWithHooks env policy v items sys = (sys', r) \<Longrightarrow>
   moves env sys sys' \<and> (r = None \<longrightarrow> (\<forall>it \<in> set items. caught_up env (wi_post it) v sys sys'))"
proof (induction env policy v items sys arbitrary: sys' r rule: processPostEmbeddingWorkItemsWithHooks.induct)
  case (1 env policy v items sys)
  obtain s1 g where gen: "generatePostEmbeddingTextsWithRuntimeAndGate env policy (map wi_text items) sys = (s1, g)" by fastforce
  have m: "moves env sys s1" "\<forall>x. g = Inr x \<longrightarrow> length (er_vectors x) = length items"
    using generate_moves [OF "1.prems"(1)] gen unfolding generatePostEmbeddingTextsWithRuntimeAndGate_def Let_def by fastforce+
  note run = "1.prems"(2) [unfolded processPostEmbeddingWorkItemsWithHooks.simps [of env policy v items sys] gen]
  show ?case
  proof (cases g)
    case (Inr x)
    from run Inr have "store_items env policy v (trim_space (er_model x)) (ee_now env (es_calls s1)) (zip items (er_vectors x)) s1 = (sys', r)" by simp
    note st = store_moves [OF "1.prems"(1) this]
    have "set (map fst (zip items (er_vectors x))) = set items" using m(2) Inr by simp
    then have "\<forall>it \<in> set items. \<exists>y \<in> set (zip items (er_vectors x)). fst y = it" by (metis (no_types, lifting) image_iff list.set_map)
    with st m(1) show ?thesis using moves_trans caught_up_before by metis
  next
    case (Inl e)
    show ?thesis
    proof (cases "\<exists>w d. e = ProviderFailed w d \<and> Action d = ProviderActionSplitBatch \<and> \<not> length items < 2")
      case False
      with run Inl have "sys' = s1" "r \<noteq> None" by (auto split: embed_error.splits if_splits)
      with m show ?thesis by blast
    next
      case True
      then obtain w d where e: "e = ProviderFailed w d" and split: "\<not> (Action d \<noteq> ProviderActionSplitBatch \<or> length items < 2)" by auto
      obtain s2 r2 where first: "processPostEmbeddingWorkItemsWithHooks env policy v (take (length items div 2) items) s1 = (s2, r2)" by fastforce
      note g1 = gen [unfolded Inl e, symmetric]
      from "1.IH"(1) [OF g1 refl refl split "1.prems"(1) first] have h1: "moves env s1 s2"
        "r2 = None \<Longrightarrow> \<forall>it \<in> set (take (length items div 2) items). caught_up env (wi_post it) v s1 s2" by blast+
      show ?thesis
      proof (cases r2)
        case (Some x)
        with run Inl e split first have "sys' = s2" "r \<noteq> None" by auto
        with m(1) h1(1) show ?thesis using moves_trans by blast
      next
        case None
        with run Inl e split first
        have second: "processPostEmbeddingWorkItemsWithHooks env policy v (drop (length items div 2) items) s2 = (sys', r)"
          by auto
        from "1.IH"(2) [OF g1 refl refl split first [symmetric, unfolded None] refl "1.prems"(1) second] have h2: "moves env s2 sys'"
          "r = None \<Longrightarrow> \<forall>it \<in> set (drop (length items div 2) items). caught_up env (wi_post it) v s2 sys'" by blast+
        have "set items = set (take (length items div 2) items) \<union> set (drop (length items div 2) items)"
          by (metis append_take_drop_id set_append)
        moreover have m2: "moves env sys s2" using m(1) h1(1) moves_trans by blast
        have "caught_up env (wi_post it) v sys sys'" if "it \<in> set (take (length items div 2) items)" for it
          using h1(2) [OF None] that caught_up_before [OF m(1)] caught_up_after [OF m2 h2(1)] by blast
        moreover have "r = None \<Longrightarrow> caught_up env (wi_post it) v sys sys'" if "it \<in> set (drop (length items div 2) items)" for it
          using h2(2) that caught_up_before [OF m2] by blast
        ultimately show ?thesis using moves_trans [OF m2 h2(1)] by blast
      qed
    qed
  qed
qed

lemma load_moves:
  assumes ok: "env_ok env" and run: "loadPostEmbeddingSource env policy v post sys = (sys', r)"
  shows "moves env sys sys' \<and> (r = Inr None \<longrightarrow> caught_up env post v sys sys')"
proof -
  obtain s1 x r1 where first: "retryPostEmbeddingStage env policy (read_stage env (\<lambda>db. em_posts db post)) (sys, None) = ((s1, x), r1)"
    by (metis prod.collapse)
  note m1 = read_retry [OF ok first]
  have gone: "caught_up env post v sys s1" if "r1 = None" "x = None"
    using m1 that embedded_missing moves_length unfolding caught_up_def by metis
  show ?thesis
  proof (cases "r1 = None \<and> x \<noteq> None")
    case False
    with run first m1 gone show ?thesis
      unfolding loadPostEmbeddingSource_def by (cases r1; cases x) auto
  next
    case True
    then obtain content where x: "x = Some content" "r1 = None" by blast
    obtain s2 y r2 where second: "retryPostEmbeddingStage env policy (read_stage env (\<lambda>db. em_vectors db (post, v))) (s1, None) = ((s2, y), r2)"
      by (metis prod.collapse)
    note m2 = read_retry [OF ok second]
    have fresh: "caught_up env post v sys s2"
      if "r2 = None" "y = Some e" "se_hash e = ee_hash env content" for e
      unfolding caught_up_def
    proof (intro allI impI)
      fix k assume k: "k < length (em_contents (es_db sys) post)"
      let ?i = "length (em_contents (es_db s1) post) - 1"
      have k1: "k < length (em_contents (es_db s1) post)" using moves_length k m1 by blast
      have "em_posts (es_db s1) post = Some content" using m1 x by auto
      then have c: "content = em_contents (es_db s1) post ! ?i" by (auto simp: em_posts_def last_conv_nth split: if_splits)
      have "em_contents (es_db s2) post ! ?i = em_contents (es_db s1) post ! ?i" "?i < length (em_contents (es_db s2) post)"
        using m2 k1 allowed_nth [of _ "es_db s1" "es_db s2" ?i post] moves_length [of env s1 s2 ?i post] unfolding moves_def by auto
      with m2 that c k1 show "embedded (ee_hash env) post v k (es_db s2)"
        by (intro embedded_last [where e = e and i = ?i]) auto
    qed
    have "moves env sys s2" using m1 m2 moves_trans by blast
    with run first second x fresh show ?thesis
      unfolding loadPostEmbeddingSource_def by (cases r2; cases y) (auto split: if_splits)
  qed
qed

lemma dlq_moves:
  assumes ok: "env_ok env" and run: "publishPostEmbeddingDLQ env m err sys = (sys', r)"
  shows "moves env sys sys' \<and> (r = None \<longrightarrow> (\<exists>d. (m, d) \<in> set (em_dlq (es_db sys')) \<and> dl_code d = kafkaFailureCode err))"
proof -
  let ?s = "arrive env sys"
  have new: "moves env ?s (?s\<lparr>es_db := (es_db ?s)\<lparr>em_dlq := em_dlq (es_db ?s) @ [(m, d)]\<rparr>\<rparr>)" for d
    using allowed_clients(3) by (simp add: moves_def)
  have "sys' = ?s \<and> r \<noteq> None \<or>
      (\<exists>d. sys' = ?s\<lparr>es_db := (es_db ?s)\<lparr>em_dlq := em_dlq (es_db ?s) @ [(m, d)]\<rparr>\<rparr> \<and> dl_code d = kafkaFailureCode err)"
    using run by (cases err) (auto simp: publishPostEmbeddingDLQ_def publishConsumerDLQ_def deadLetterFailure_def Let_def
        split: option.splits sum.splits if_splits)
  with moves_arrive [OF ok, of sys] moves_trans [OF _ new] show ?thesis by fastforce
qed

text \<open>
  What a run does for a message: the dead letter of one that cannot be decoded, or what was owed
  to its post when the run began.
\<close>

definition answered :: "embed_env \<Rightarrow> string \<Rightarrow> embed_sys \<Rightarrow> embed_sys \<Rightarrow> kafka_message \<Rightarrow> bool" where
  "answered env v sys0 sys m \<longleftrightarrow>
     (case decodePostEmbeddingMessage (ee_uuid_ok env) m of
        Inl err \<Rightarrow> (\<exists>d. (m, d) \<in> set (em_dlq (es_db sys)) \<and> dl_code d = kafkaFailureCode err)
      | Inr p \<Rightarrow> caught_up env p v sys0 sys)"

lemma answered_before: "moves env a b \<Longrightarrow> answered env v b c m \<Longrightarrow> answered env v a c m"
  unfolding answered_def using caught_up_before by (auto split: sum.splits)

lemma answered_after: "moves env a b \<Longrightarrow> moves env b c \<Longrightarrow> answered env v a b m \<Longrightarrow> answered env v a c m"
  unfolding answered_def using caught_up_after by (auto simp: moves_def allowed_def split: sum.splits)

lemma collect_moves:
  "env_ok env \<Longrightarrow> collect_work env policy v ms sys = (sys', r) \<Longrightarrow>
   moves env sys sys' \<and> (\<forall>items. r = Inr items \<longrightarrow> (\<forall>m \<in> set ms. answered env v sys sys' m \<or>
     (\<exists>it \<in> set items. decodePostEmbeddingMessage (ee_uuid_ok env) m = Inr (wi_post it))))"
proof (induction ms arbitrary: sys sys' r)
  case (Cons m ms)
  let ?settled = "\<lambda>s. answered env v sys s m"
  show ?case
  proof (cases "ee_ctx env (es_calls sys)")
    case (Some e)
    with Cons.prems(2) show ?thesis by auto
  next
    case None
    show ?thesis
    proof (cases "decodePostEmbeddingMessage (ee_uuid_ok env) m")
      case (Inl err)
      obtain s1 r1 where dlq: "publishPostEmbeddingDLQ env m err sys = (s1, r1)" by fastforce
      note d = dlq_moves [OF Cons.prems(1) dlq]
      show ?thesis
      proof (cases "kafkaFailureClassOf err = Some Permanent \<and> r1 = None")
        case True
        with Cons.prems(2) None Inl dlq have rest: "collect_work env policy v ms s1 = (sys', r)" by simp
        note IH = Cons.IH [OF Cons.prems(1) rest]
        have "?settled s1" using d True Inl by (simp add: answered_def)
        with IH d have "?settled sys'" using answered_after by blast
        with IH d show ?thesis using moves_trans answered_before by (metis set_ConsD)
      next
        case False
        with Cons.prems(2) None Inl dlq d show ?thesis by (auto split: option.splits if_splits)
      qed
    next
      case (Inr post)
      obtain s1 r1 where load: "loadPostEmbeddingSource env policy v post sys = (s1, r1)" by fastforce
      note l = load_moves [OF Cons.prems(1) load]
      obtain s2 r2 where rest: "collect_work env policy v ms s1 = (s2, r2)" by fastforce
      note IH = Cons.IH [OF Cons.prems(1) rest]
      show ?thesis
      proof (cases r1)
        case (Inl e)
        with Cons.prems(2) None Inr load l show ?thesis by auto
      next
        case r1: (Inr x)
        show ?thesis
        proof (cases x)
          case gone: None
          with Cons.prems(2) None Inr load r1 rest have "sys' = s2" "r = r2" by simp_all
          moreover have "?settled s1"
            using l r1 gone Inr by (simp add: answered_def)
          then have "?settled s2" using IH l answered_after by blast
          ultimately show ?thesis using IH l moves_trans answered_before by (metis set_ConsD)
        next
          case (Some y)
          obtain content h where y: "y = (content, h)" by fastforce
          have s2: "sys' = s2" using Cons.prems(2) None Inr load r1 rest Some y by (auto split: sum.splits)
          have "moves env sys sys'" using IH l s2 moves_trans by blast
          moreover have "\<exists>items0. r2 = Inr items0 \<and> items = \<lparr>wi_message = m, wi_post = post, wi_hash = h, wi_text = content\<rparr> # items0"
            if "r = Inr items" for items
            using Cons.prems(2) None Inr load r1 rest Some y that by (auto split: sum.splits)
          moreover have "answered env v sys s2 q" if "answered env v s1 s2 q" for q
            using answered_before [OF conjunct1 [OF l] that] .
          ultimately show ?thesis using IH s2 Inr by fastforce
        qed
      qed
    qed
  qed
qed simp

lemma batch_moves:
  assumes ok: "env_ok env" and run: "processPostEmbeddingBatchWithHooks env policy build ms sys = (sys', r)"
  shows "moves env sys sys' \<and> (r = None \<longrightarrow> (\<forall>m \<in> set ms. answered env (trim_space build) sys sys' m))"
proof (cases "ee_ctx env (es_calls sys) = None \<and> trim_space build \<noteq> ''''")
  case False
  with run show ?thesis unfolding processPostEmbeddingBatchWithHooks_def by (auto split: option.splits)
next
  case True
  obtain s1 r1 where collect: "collect_work env policy (trim_space build) ms sys = (s1, r1)" by fastforce
  note c = collect_moves [OF ok collect]
  show ?thesis
  proof (cases r1)
    case (Inl e)
    with run True collect c show ?thesis unfolding processPostEmbeddingBatchWithHooks_def by auto
  next
    case (Inr items)
    show ?thesis
    proof (cases "items = []")
      case empty: True
      with run True collect Inr c show ?thesis unfolding processPostEmbeddingBatchWithHooks_def by auto
    next
      case False
      with run True collect Inr have items: "processPostEmbeddingWorkItemsWithHooks env policy (trim_space build) items s1 = (sys', r)"
        unfolding processPostEmbeddingBatchWithHooks_def by simp
      note i = items_moves [OF ok items]
      have "answered env (trim_space build) sys sys' m" if "r = None" "m \<in> set ms" for m
      proof -
        from c Inr that(2) consider "answered env (trim_space build) sys s1 m"
          | it where "it \<in> set items" "decodePostEmbeddingMessage (ee_uuid_ok env) m = Inr (wi_post it)" by blast
        then show ?thesis
        proof cases
          case 1
          with c i show ?thesis using answered_after by blast
        next
          case 2
          from i that(1) 2(1) have "caught_up env (wi_post it) (trim_space build) s1 sys'" by blast
          with c have "caught_up env (wi_post it) (trim_space build) sys sys'" using caught_up_before by blast
          with 2(2) show ?thesis by (simp add: answered_def)
        qed
      qed
      moreover have "moves env sys sys'" using c i moves_trans by blast
      ultimately show ?thesis by auto
    qed
  qed
qed

text \<open>
  C31. A batch that is reported done is done. Whatever calls fail, however often they are retried
  or the batch is split, and whatever other clients do meanwhile: when the processor returns
  without an error, every message of the batch that cannot be decoded is in the dead letter
  topic under the code of its failure, and the post of every other message has an embedding of
  the content it had when the run began, unless it is gone or was edited to another content
  since, which deletes its embeddings and makes a request of its own. A run that fails keeps
  what was done, and every permit of the provider gate that a run takes is given back exactly
  once, in order.
\<close>

theorem embedding_batch_settles:
  assumes "env_ok env" "processPostEmbeddingBatchWithHooks env policy build ms sys = (sys', r)"
  shows "allowed (ee_hash env) (es_db sys) (es_db sys') \<and>
    (r = None \<longrightarrow> (\<forall>m \<in> set ms. case decodePostEmbeddingMessage (ee_uuid_ok env) m of
        Inl err \<Rightarrow> \<exists>d. (m, d) \<in> set (em_dlq (es_db sys')) \<and> dl_code d = kafkaFailureCode err
      | Inr p \<Rightarrow> \<forall>k < length (em_contents (es_db sys) p). embedded (ee_hash env) p (trim_space build) k (es_db sys'))) \<and>
    (map fst (es_gate sys) = es_permits sys \<longrightarrow> map fst (es_gate sys') = es_permits sys')"
  using batch_moves [OF assms] unfolding moves_def answered_def caught_up_def by blast

section \<open>The pipeline\<close>

text \<open>
  A run of the processor in some environment, as the consumer group sees it, on messages whose
  revisions are in the database (\<open>visible\<close>).
\<close>

definition embedding_run ::
  "(string \<Rightarrow> string) \<Rightarrow> (string \<Rightarrow> bool) \<Rightarrow> (kafka_message \<Rightarrow> nat) \<Rightarrow> string \<Rightarrow>
   kafka_message list \<Rightarrow> embedding_db \<Rightarrow> embedding_db \<Rightarrow> string option \<Rightarrow> bool" where
  "embedding_run hash uuid_ok revision build ms db db' r \<longleftrightarrow>
     (\<forall>m \<in> set ms. visible uuid_ok revision m db) \<and>
     (\<exists>env policy sys sys' err. env_ok env \<and> ee_hash env = hash \<and> ee_uuid_ok env = uuid_ok \<and> es_db sys = db \<and> es_db sys' = db' \<and>
        processPostEmbeddingBatchWithHooks env policy build ms sys = (sys', err) \<and> (r = None \<longleftrightarrow> err = None))"

lemma answered_settled:
  assumes "moves env sys sys'" "answered env v sys sys' m" "visible (ee_uuid_ok env) revision m (es_db sys)"
  shows "request_settled (ee_hash env) (ee_uuid_ok env) revision v m (es_db sys')"
  using assms(2,3) moves_length [OF assms(1)]
  by (auto simp: answered_def caught_up_def visible_def request_settled_def split: sum.splits)

lemma run_settles:
  assumes "embedding_run hash uuid_ok revision build ms db db' None" "m \<in> set ms"
  shows "request_settled hash uuid_ok revision (trim_space build) m db'"
proof -
  from assms obtain env policy sys sys' where run: "env_ok env" "processPostEmbeddingBatchWithHooks env policy build ms sys = (sys', None)"
    and eq: "ee_hash env = hash" "ee_uuid_ok env = uuid_ok" "es_db sys = db" "es_db sys' = db'"
    unfolding embedding_run_def by blast
  have "visible uuid_ok revision m db" using assms unfolding embedding_run_def by blast
  moreover from batch_moves [OF run] assms(2) have "moves env sys sys'" "answered env (trim_space build) sys sys' m" by blast+
  ultimately show ?thesis using answered_settled [of env sys sys' "trim_space build" m revision] eq by simp
qed

lemma run_allowed: "embedding_run hash uuid_ok revision build ms db db' r \<Longrightarrow> allowed hash db db'"
  unfolding embedding_run_def using batch_moves moves_def by blast

interpretation embedding: batch_effect "embedding_run hash uuid_ok revision build" "allowed hash"
  "request_settled hash uuid_ok revision (trim_space build)"
  by unfold_locales (blast intro: run_settles run_allowed settled_allowed)+

text \<open>
  C32. The pipeline commits nothing it has not done. A consumer group begins at the offsets the
  broker holds, or at the first message where it holds none, and goes through any number of
  generations, with any number of members, partitions, restarts of readers, failed or lost
  commits, failed batches, runs an old generation left behind, and other clients of the
  database. When the broker then holds an offset for a partition, every message before it, from
  where the group began, is settled: it could not be decoded and is in the dead letter topic
  under the code of its failure, or the revision of the post it was written for has its
  embedding, unless the post is gone or has been edited to a content of another hash after that
  revision. And no step moves a committed offset back.
\<close>

theorem committed_requests_settled:
  fixes G G' :: "embedding_db consumer_group"
  assumes run: "(group_step published (embedding_run hash uuid_ok revision build) (allowed hash) topic)\<^sup>*\<^sup>* (group_init topic broker db) G"
    and offset: "cg_broker G p = Some off"
    and step: "group_step published (embedding_run hash uuid_ok revision build) (allowed hash) topic G G'"
  shows "(\<forall>m \<in> published p. 0 \<le> km_offset m \<and> (\<forall>a. broker p = Some a \<longrightarrow> a \<le> km_offset m) \<and> km_offset m < off \<longrightarrow>
      request_settled hash uuid_ok revision (trim_space build) m (cg_world G)) \<and>
    (\<exists>off'. cg_broker G' p = Some off' \<and> off \<le> off')"
  using embedding.committed_settled [OF run offset] embedding.offsets_forward [OF run step offset] by blast

section \<open>A run\<close>

definition sample_message :: kafka_message where
  "sample_message = \<lparr>km_topic = ''t'', km_partition = 0, km_offset = 0, km_value = Some \<lparr>ev_id = ''e'', ev_type = ''post.embedding.requested'',
     ev_schema = 1, ev_agg_type = ''post'', ev_agg_id = ''7'', ev_occurred = 5, ev_payload = JObject [(''post_id'', JInt 7)]\<rparr>\<rparr>"

definition sample_db :: embedding_db where
  "sample_db = \<lparr>em_contents = (\<lambda>p. if p = 7 then [''hi''] else []), em_deleted = {}, em_vectors = Map.empty, em_serving = Some ''v1'', em_users = (\<lambda>_. {4}),
     em_dirty = Map.empty, em_dlq = []\<rparr>"

definition sample_env :: embed_env where
  "sample_env = \<lparr>ee_ctx = (\<lambda>_. None), ee_ctx_after = (\<lambda>_. None), ee_retry_ctx = (\<lambda>_ _. None), ee_sleep = (\<lambda>_ _. None),
     ee_other = (\<lambda>_ db. db), ee_fault = (\<lambda>_. DbOk), ee_permit = (\<lambda>_. Inr \<lparr>pm_epoch = 0, pm_halfOpen = False\<rparr>),
     ee_embed = (\<lambda>_ _. EmbedOk \<lparr>er_model = ''m'', er_vectors = [[Fin 1]]\<rparr>), ee_dlq = (\<lambda>_. None), ee_build = (\<lambda>_ _. None), ee_now = (\<lambda>_. 0),
     ee_hash = (\<lambda>c. c), ee_uuid_ok = (\<lambda>_. True), ee_lower = (\<lambda>c. c), ee_jitter = (\<lambda>d. d)\<rparr>"

definition sample_sys :: embed_sys where
  "sample_sys = \<lparr>es_calls = 0, es_db = sample_db, es_permits = [], es_gate = []\<rparr>"

lemma sample_env_ok: "env_ok sample_env"
  by (simp add: env_ok_def sample_env_def)

lemma sample_decodes: "decodePostEmbeddingMessage (\<lambda>_. True) sample_message = Inr 7"
  by code_simp

lemma sample_batch:
  "\<exists>sys'. processPostEmbeddingBatchWithHooks sample_env defaultKafkaRetryPolicy ''v1'' [sample_message] sample_sys = (sys', None) \<and>
     em_vectors (es_db sys') (7, ''v1'') \<noteq> None"
proof -
  have stages: "trim_space ''v1'' = ''v1''" "trim_space ''m'' = ''m''" by code_simp+
  have load: "loadPostEmbeddingSource sample_env defaultKafkaRetryPolicy ''v1'' 7 sample_sys =
      (sample_sys\<lparr>es_calls := 2\<rparr>, Inr (Some (''hi'', ''hi'')))"
    by (simp add: loadPostEmbeddingSource_def retryPostEmbeddingStage_def retryKafkaOperation_def defaultKafkaRetryPolicy_def
        eval_nat_numeral read_stage_def arrive_def sample_env_def sample_sys_def sample_db_def em_posts_def)
  show ?thesis
    using load stages sample_decodes
    by (simp add: processPostEmbeddingBatchWithHooks_def processPostEmbeddingWorkItemsWithHooks.simps sample_env_def sample_sys_def
        generatePostEmbeddingTextsWithRuntimeAndGate_def normalizedKafkaRetryPolicy_def defaultKafkaRetryPolicy_def generate_loop.simps
        callPostEmbeddingProviderOnce_def validatePostEmbeddingBatchResult_def validPostEmbeddingVector_def ends_def arrive_def Let_def
        commitPostEmbedding_def retryPostEmbeddingStage_def retryKafkaOperation_def eval_nat_numeral commit_stage_def sample_db_def
        CommitEmbeddingIfCurrent_def lockEmbeddingServingVersion_def em_posts_def)
qed

theorem embedding_batch_settles_witness:
  "\<exists>sys'. processPostEmbeddingBatchWithHooks sample_env defaultKafkaRetryPolicy ''v1'' [sample_message] sample_sys = (sys', None) \<and>
     embedded (\<lambda>c. c) 7 ''v1'' 0 (es_db sys') \<and> map fst (es_gate sys') = es_permits sys'"
proof -
  obtain sys' where run: "processPostEmbeddingBatchWithHooks sample_env defaultKafkaRetryPolicy ''v1'' [sample_message] sample_sys = (sys', None)"
    using sample_batch by blast
  have "trim_space ''v1'' = ''v1''" by code_simp
  with embedding_batch_settles [OF sample_env_ok run] sample_decodes
  have "embedded (\<lambda>c. c) 7 ''v1'' 0 (es_db sys')" "map fst (es_gate sys') = es_permits sys'"
    by (simp_all add: sample_env_def sample_sys_def sample_db_def)
  with run show ?thesis by blast
qed

definition sample_published :: "int \<Rightarrow> kafka_message set" where
  "sample_published p = (if p = 0 then {sample_message} else {})"

definition sample_fetch :: fetch_result where
  "sample_fetch = \<lparr>ft_messages = [sample_message], ft_ctx = None, ft_terminal = None\<rparr>"

text \<open>
  A group of two processes without a committed offset: the first generation gives the partition
  to member 0, which embeds the post and commits; a second one gives it to member 1.
\<close>

abbreviation "sample_group_step \<equiv>
  group_step sample_published (embedding_run (\<lambda>c. c) (\<lambda>_. True) (\<lambda>_. 0) ''v1'') (allowed (\<lambda>c. c)) ''t''"

lemma sample_commits:
  "\<exists>G. sample_group_step\<^sup>*\<^sup>* (group_init ''t'' Map.empty sample_db) G \<and> cg_broker G 0 = Some 1"
proof -
  let ?step = "generation_step sample_published (embedding_run (\<lambda>c. c) (\<lambda>_. True) (\<lambda>_. 0) ''v1'') (allowed (\<lambda>c. c))"
  let ?G0 = "group_init ''t'' Map.empty sample_db"
  let ?ps = "\<lambda>i::nat. if i = 0 then [0::int] else []"
  let ?G1 = "?G0\<lparr>cg_members := \<lambda>i. new_member ''t'' (cg_broker ?G0) (?ps i)\<rparr>"
  have r1: "sample_group_step ?G0 ?G1" by (rule cg_rebalance) (simp split: if_splits)
  let ?g0 = "member_view ?G1 0"
  let ?w0 = "\<lparr>wk_next = - 2, wk_hold = False, wk_phase = Fetching\<rparr>"
  let ?g1 = "?g0\<lparr>gr_workers := (gr_workers ?g0)(0 \<mapsto> ?w0), gr_reader := (gr_reader ?g0)(0 := - 2)\<rparr>"
  have t: "trim_space ''t'' = ''t''" by code_simp
  have zero: "co_progress (gr_coord ?g0) 0 = Some \<lparr>initialNextOffset = - 2, lastConfirmedNextOffset = - 2, pendingNextOffset = 0, pending = False\<rparr>"
    "gr_workers ?g0 = Map.empty" "co_topic (gr_coord ?g0) = ''t''" "\<not> co_closing (gr_coord ?g0)"
    "gr_world ?g0 = sample_db"
    by (simp_all add: group_init_def member_view_def new_member_def FirstOffset_def newPostEmbeddingOffsetCommitCoordinator_def t)
  have s1: "?step ?g0 ?g1"
    by (rule gr_open [where reached = "- 2" and attempt = 0]) (simp_all add: zero reopen_offset_def LastConfirmedNextOffset_def)
  let ?w1 = "?w0\<lparr>wk_phase := Processing sample_fetch\<rparr>"
  let ?g2 = "?g1\<lparr>gr_workers := (gr_workers ?g1)(0 \<mapsto> ?w1),
    gr_reader := (gr_reader ?g1)(0 := if ft_messages sample_fetch = [] then gr_reader ?g1 0 else target sample_fetch),
    gr_coord := gr_coord ?g1, gr_broker := gr_broker ?g1\<rparr>"
  have s2: "?step ?g1 ?g2"
    by (rule gr_fetch [where wk = ?w0])
      (simp_all add: zero delivers_def sample_fetch_def sample_published_def sample_message_def consume_step_def
        validatePostEmbeddingPartitionBatch_def)
  obtain sys' where run: "processPostEmbeddingBatchWithHooks sample_env defaultKafkaRetryPolicy ''v1'' [sample_message] sample_sys = (sys', None)"
    using sample_batch by blast
  let ?w2 = "?w1\<lparr>wk_hold := False, wk_phase := Committing sample_fetch 1\<rparr>"
  let ?g3 = "?g2\<lparr>gr_workers := (gr_workers ?g2)(0 \<mapsto> ?w2), gr_world := es_db sys', gr_coord := gr_coord ?g2, gr_broker := gr_broker ?g2\<rparr>"
  have vis: "visible (\<lambda>_. True) (\<lambda>_. 0) sample_message sample_db"
    by (simp add: visible_def sample_decodes sample_db_def)
  have "embedding_run (\<lambda>c. c) (\<lambda>_. True) (\<lambda>_. 0) ''v1'' [sample_message] sample_db (es_db sys') None"
    unfolding embedding_run_def
  proof (intro conjI)
    show "\<forall>m\<in>set [sample_message]. visible (\<lambda>_. True) (\<lambda>_. 0) m sample_db" using vis by simp
  qed (use run sample_env_ok in \<open>intro exI [of _ sample_env] exI [of _ defaultKafkaRetryPolicy] exI [of _ sample_sys] exI [of _ sys'],
      simp add: sample_env_def sample_sys_def\<close>)
  then have s3: "?step ?g2 ?g3"
    by (intro gr_process [where wk = ?w1 and f = sample_fetch and r = None])
      (simp_all add: sample_fetch_def zero consume_step_def)
  let ?env = "\<lparr>ce_ctx = None, ce_generation_ctx = None, ce_closing_late = False, ce_rpc = CommitOk\<rparr>"
  obtain wk' c' b' where c: "consume_step ''t'' 0 (EvCommit ?env) ?w2 (gr_coord ?g3) (gr_broker ?g3) = (wk', c', b')"
    by (metis prod.collapse)
  with t have b: "b' 0 = Some 1"
    by (auto simp: consume_step_def Commit_def zero Let_def target_def sample_fetch_def sample_message_def)
  let ?g4 = "?g3\<lparr>gr_workers := (gr_workers ?g3)(0 \<mapsto> wk'), gr_coord := c', gr_broker := b'\<rparr>"
  have s4: "?step ?g3 ?g4"
    by (rule gr_commit [where wk = ?w2 and env = ?env]) (use c in \<open>simp_all add: zero\<close>)
  have view: "member_view (put_member G i g) i = g" for G :: "embedding_db consumer_group" and i g
    by (simp add: member_view_def put_member_def)
  have lift: "sample_group_step (put_member G i g) (put_member G i g')" if "?step g g'" for G i g g'
    using cg_member [of _ _ _ "put_member G i g" i g'] that by (simp add: view) (simp add: put_member_def)
  have first: "sample_group_step ?G1 (put_member ?G1 0 ?g1)" by (rule cg_member [OF s1])
  let ?G5 = "put_member ?G1 0 ?g4"
  let ?G6 = "?G5\<lparr>cg_members := \<lambda>i. new_member ''t'' (cg_broker ?G5) (if i = 1 then [0] else [])\<rparr>"
  have r2: "sample_group_step ?G5 ?G6" by (rule cg_rebalance) (simp split: if_splits)
  have "sample_group_step\<^sup>*\<^sup>* ?G0 ?G6"
    using r1 first lift [OF s2] lift [OF s3] lift [OF s4] r2
    by (meson rtranclp.rtrancl_into_rtrancl rtranclp.rtrancl_refl)
  moreover have "cg_broker ?G6 0 = Some 1" using b by (simp add: put_member_def)
  ultimately show ?thesis by blast
qed

theorem committed_requests_settled_witness:
  "\<exists>G. sample_group_step\<^sup>*\<^sup>* (group_init ''t'' Map.empty sample_db) G \<and> cg_broker G 0 = Some 1 \<and>
     request_settled (\<lambda>c. c) (\<lambda>_. True) (\<lambda>_. 0) ''v1'' sample_message (cg_world G)"
proof -
  obtain G where G: "sample_group_step\<^sup>*\<^sup>* (group_init ''t'' Map.empty sample_db) G" "cg_broker G 0 = Some 1"
    using sample_commits by blast
  have idle: "sample_group_step G (G\<lparr>cg_members := \<lambda>i. new_member ''t'' (cg_broker G) []\<rparr>)"
    by (rule cg_rebalance) simp
  have m: "sample_message \<in> sample_published 0" "km_offset sample_message = 0"
    by (simp_all add: sample_published_def sample_message_def)
  have "trim_space ''v1'' = ''v1''" by code_simp
  with committed_requests_settled [OF G idle] m
  have "request_settled (\<lambda>c. c) (\<lambda>_. True) (\<lambda>_. 0) ''v1'' sample_message (cg_world G)" by simp
  with G show ?thesis by blast
qed

end
