(* ===== verification/KafkaBatch.thy ===== *)
theory KafkaBatch
  imports OffsetCommit
begin

text \<open>
  Batches of a Kafka consumer that projects events into the database
  (\<open>tasks/kafka_backlog.go\<close>, \<open>tasks/kafka_foreign_key_recovery.go\<close> and what
  \<open>tasks/user_behavior_consumer.go\<close> and \<open>tasks/recommendation_metrics_consumer.go\<close> have in
  common): collecting a batch, sorting out the messages that can never be processed, applying
  the others in one transaction, cutting a batch in halves when a row it refers to is missing,
  and committing the offsets. The locale \<open>projection_effect\<close> is what such a consumer asks of its
  transaction; what follows for the committed messages is proved in it once.
\<close>

section \<open>Collecting a batch\<close>

text \<open>
  What the reader and the contexts say at the \<open>k\<close>-th fetch of a batch: a message, or an error
  with the caller's context and whether the window was over.
\<close>

datatype fetch_answer = Fetched kafka_message | FetchFailed string "net_error option" bool

record batch_fetch =
  bf_messages :: "kafka_message list"
  bf_terminal :: "string option"
  bf_ctx :: "net_error option"

fun collect_loop :: "nat \<Rightarrow> fetch_answer list \<Rightarrow> kafka_message list \<Rightarrow> batch_fetch" where
  "collect_loop 0 answers ms = \<lparr>bf_messages = ms, bf_terminal = None, bf_ctx = None\<rparr>"
| "collect_loop (Suc left) [] ms = \<lparr>bf_messages = ms, bf_terminal = None, bf_ctx = None\<rparr>"
| "collect_loop (Suc left) (Fetched m # rest) ms = collect_loop left rest (ms @ [m])"
| "collect_loop (Suc left) (FetchFailed e ctx over # rest) ms =
     (case ctx of
        Some c \<Rightarrow> \<lparr>bf_messages = ms, bf_terminal = None, bf_ctx = Some c\<rparr>
      | None \<Rightarrow> \<lparr>bf_messages = ms, bf_terminal = (if over then None else Some e), bf_ctx = None\<rparr>)"

definition collectKafkaBatch :: "kafka_message \<Rightarrow> int \<Rightarrow> int \<Rightarrow> fetch_answer list \<Rightarrow> batch_fetch" where
  "collectKafkaBatch first batchSize window answers =
     (if batchSize \<le> 1 \<or> window \<le> 0 then \<lparr>bf_messages = [first], bf_terminal = None, bf_ctx = None\<rparr>
      else collect_loop (nat (batchSize - 1)) answers [first])"

definition fetchKafkaBatch :: "int \<Rightarrow> int \<Rightarrow> fetch_answer \<Rightarrow> fetch_answer list \<Rightarrow> batch_fetch" where
  "fetchKafkaBatch batchSize window first answers =
     (if batchSize < 1
      then \<lparr>bf_messages = [], bf_terminal = None, bf_ctx = Some (NetOther ''Kafka batch size must be positive'')\<rparr>
      else
        (case first of
           FetchFailed e (Some c) _ \<Rightarrow> \<lparr>bf_messages = [], bf_terminal = None, bf_ctx = Some c\<rparr>
         | FetchFailed e None _ \<Rightarrow> \<lparr>bf_messages = [], bf_terminal = Some e, bf_ctx = None\<rparr>
         | Fetched m \<Rightarrow> collectKafkaBatch m batchSize window answers))"

section \<open>Errors of the database\<close>

text \<open>
  \<open>PgError\<close> is an error of the server with its code and the name of the constraint. An error
  of the consumer comes with the error of the database it wraps.
\<close>

datatype pg_error = PgError string string | DatabaseError string

type_synonym batch_error = "kafka_error \<times> pg_error option"

fun pg_text :: "pg_error \<Rightarrow> string" where
  "pg_text (PgError code constraint) = code @ '': '' @ constraint"
| "pg_text (DatabaseError e) = e"

fun kafkaPostgresForeignKeyConstraint :: "batch_error \<Rightarrow> string option" where
  "kafkaPostgresForeignKeyConstraint (_, Some (PgError code constraint)) =
     (if code \<noteq> ''23503'' \<or> trim_space constraint = '''' then None else Some (trim_space constraint))"
| "kafkaPostgresForeignKeyConstraint _ = None"

definition kafkaPostgresForeignKeyIsAllowed :: "string list \<Rightarrow> batch_error \<Rightarrow> bool" where
  "kafkaPostgresForeignKeyIsAllowed allowlist err =
     (case kafkaPostgresForeignKeyConstraint err of None \<Rightarrow> False | Some c \<Rightarrow> c \<in> set allowlist)"

definition kafkaForeignKeyParent :: "string \<Rightarrow> nat \<Rightarrow> nat \<Rightarrow> (string \<times> nat) option" where
  "kafkaForeignKeyParent constraint user post =
     (if constraint \<in> {''fk_post_behaviors_user'', ''fk_post_reaction_user'', ''fk_user_reco_profile_dirty_user'',
           ''fk_notifications_recipient'', ''fk_notifications_actor''}
      then (if user \<noteq> 0 then Some (''users'', user) else None)
      else if constraint \<in> {''fk_post_behaviors_post'', ''fk_post_reaction_post'', ''fk_notifications_post''}
      then (if post \<noteq> 0 then Some (''posts'', post) else None)
      else None)"

section \<open>Cutting a batch in halves\<close>

lemma half_lengths:
  assumes "rs \<noteq> []" "length rs \<noteq> Suc 0"
  shows "0 < length rs div 2" "length rs div 2 < length rs" "length rs - length rs div 2 < length rs"
    "min (length rs) (length rs div 2) < length rs"
proof -
  have "2 \<le> length rs" using assms by (cases rs) (auto simp: Suc_le_eq)
  then show "0 < length rs div 2" "length rs div 2 < length rs" "length rs - length rs div 2 < length rs"
    "min (length rs) (length rs div 2) < length rs" by auto
qed

function applyKafkaBatchWithForeignKeyIsolation ::
  "('s \<Rightarrow> 's \<times> net_error option) \<Rightarrow> ('r list \<Rightarrow> 's \<Rightarrow> 's \<times> batch_error option) \<Rightarrow> (batch_error \<Rightarrow> bool) \<Rightarrow>
   ('r \<Rightarrow> batch_error \<Rightarrow> 's \<Rightarrow> 's \<times> batch_error option) \<Rightarrow> 'r list \<Rightarrow> 's \<Rightarrow> 's \<times> batch_error option" where
  "applyKafkaBatchWithForeignKeyIsolation ctx apply allowed handle rs s =
     (if rs = [] then (s, None)
      else
        (case ctx s of
           (s, Some c) \<Rightarrow> (s, Some (CtxErr c, None))
         | (s, None) \<Rightarrow>
            (case apply rs s of
               (s, None) \<Rightarrow> (s, None)
             | (s, Some err) \<Rightarrow>
                (case ctx s of
                   (s, Some c) \<Rightarrow> (s, Some (CtxErr c, None))
                 | (s, None) \<Rightarrow>
                    (if \<not> allowed err then (s, Some err)
                     else if length rs = 1 then handle (hd rs) err s
                     else
                       (case applyKafkaBatchWithForeignKeyIsolation ctx apply allowed handle (take (length rs div 2) rs) s of
                          (s, Some err) \<Rightarrow> (s, Some err)
                        | (s, None) \<Rightarrow>
                           applyKafkaBatchWithForeignKeyIsolation ctx apply allowed handle (drop (length rs div 2) rs) s))))))"
  by pat_completeness auto
termination
  by (relation "measure (\<lambda>(_, _, _, _, rs, _). length rs)") (auto simp: half_lengths)

declare applyKafkaBatchWithForeignKeyIsolation.simps [simp del]

section \<open>The surroundings of a batch\<close>

text \<open>
  A transaction commits, or is rolled back, or commits while the answer is lost. What the
  consumer meets at its \<open>i\<close>-th call: the context, the fate of a transaction, what others did to
  the database since the call before, the answer of the look-up of a parent row, the publisher
  of dead letters and whether the dead letter of a message can be built.
\<close>

datatype write_fault = WriteOk | WriteFailed pg_error | WriteUnknown pg_error

record 'db batch_env =
  be_ctx :: "nat \<Rightarrow> net_error option"
  be_retry_ctx :: "nat \<Rightarrow> nat \<Rightarrow> net_error option"
  be_write :: "nat \<Rightarrow> write_fault"
  be_other :: "nat \<Rightarrow> 'db \<Rightarrow> 'db"
  be_parent :: "nat \<Rightarrow> string \<Rightarrow> nat \<Rightarrow> string + bool"
  be_dlq :: "nat \<Rightarrow> (dead_letter \<Rightarrow> string option) option"
  be_build :: "kafka_message \<Rightarrow> dead_letter \<Rightarrow> string option"

record 'db batch_sys =
  bs_calls :: nat
  bs_db :: 'db
  bs_dlq :: "(kafka_message \<times> dead_letter) list"

definition meets :: "'db batch_env \<Rightarrow> 'db batch_sys \<Rightarrow> 'db batch_sys" where
  "meets env s = s\<lparr>bs_db := be_other env (bs_calls s) (bs_db s), bs_calls := bs_calls s + 1\<rparr>"

definition ctx_err :: "'db batch_env \<Rightarrow> 'db batch_sys \<Rightarrow> 'db batch_sys \<times> net_error option" where
  "ctx_err env s = (meets env s, be_ctx env (bs_calls s))"

text \<open>A dead letter for a message, through \<open>publishConsumerDLQ\<close>.\<close>

definition dead_letter_of ::
  "'db batch_env \<Rightarrow> string \<Rightarrow> kafka_message \<Rightarrow> kafka_error \<Rightarrow> 'db batch_sys \<Rightarrow> 'db batch_sys \<times> kafka_error option" where
  "dead_letter_of env consumer m err s =
     (let i = bs_calls s; s = meets env s in
      case publishConsumerDLQ (be_ctx env i) (be_dlq env i) (be_build env m) consumer err 1 of
        Inl e \<Rightarrow> (s, Some e)
      | Inr d \<Rightarrow> (s\<lparr>bs_dlq := bs_dlq s @ [(m, d)]\<rparr>, None))"

definition retryable_db :: "batch_error \<Rightarrow> batch_error" where
  "retryable_db err =
     (ProcessErr Retryable ''database_transaction'' (case snd err of Some e \<Rightarrow> pg_text e | None \<Rightarrow> ''''), snd err)"

definition publishConfirmedMissingParentKafkaForeignKeyDLQ ::
  "'db batch_env \<Rightarrow> string \<Rightarrow> kafka_message \<Rightarrow> batch_error \<Rightarrow> nat \<Rightarrow> nat \<Rightarrow> 'db batch_sys \<Rightarrow> 'db batch_sys \<times> batch_error option" where
  "publishConfirmedMissingParentKafkaForeignKeyDLQ env consumer m err user post s =
     (case ctx_err env s of
        (s, Some c) \<Rightarrow> (s, Some (CtxErr c, None))
      | (s, None) \<Rightarrow>
         (case kafkaPostgresForeignKeyConstraint err of
            None \<Rightarrow> (s, Some (retryable_db err))
          | Some constraint \<Rightarrow>
             (case kafkaForeignKeyParent constraint user post of
                None \<Rightarrow> (s, Some (retryable_db err))
              | Some (table, key) \<Rightarrow>
                 (let i = bs_calls s; s = meets env s in
                  case be_parent env i table key of
                    Inl e \<Rightarrow>
                      (case ctx_err env s of
                         (s, Some c) \<Rightarrow> (s, Some (CtxErr c, None))
                       | (s, None) \<Rightarrow> (s, Some (ProcessErr Retryable ''database_unavailable'' e, None)))
                  | Inr exists \<Rightarrow>
                      (case ctx_err env s of
                         (s, Some c) \<Rightarrow> (s, Some (CtxErr c, None))
                       | (s, None) \<Rightarrow>
                          (if exists then (s, Some (retryable_db err))
                           else
                             (case dead_letter_of env consumer m
                                     (ProcessErr Permanent ''database_foreign_key'' constraint) s of
                                (s, Some e) \<Rightarrow> (s, Some (e, None))
                              | (s, None) \<Rightarrow> (s, None))))))))"

section \<open>A consumer\<close>

text \<open>
  What distinguishes one consumer from another: its name, group and database, how a message is
  decoded, what a decoded record names, its transaction, the constraints whose violation cuts a
  batch, and for which records such a violation is final.
\<close>

record ('r, 'db) projection =
  pj_consumer :: string
  pj_group :: string
  pj_has_db :: bool
  pj_decode :: "kafka_message \<Rightarrow> kafka_error + 'r"
  pj_message :: "'r \<Rightarrow> kafka_message"
  pj_event :: "'r \<Rightarrow> string"
  pj_user :: "'r \<Rightarrow> nat"
  pj_post :: "'r \<Rightarrow> nat"
  pj_tx :: "'r list \<Rightarrow> 'db \<Rightarrow> pg_error + 'db"
  pj_allowed :: "string list"
  pj_permanent :: "'r \<Rightarrow> string \<Rightarrow> bool"

fun decode_batch ::
  "(kafka_message \<Rightarrow> kafka_error + 'r) \<Rightarrow> kafka_message list \<Rightarrow> 'r list \<Rightarrow> (kafka_message \<times> kafka_error) list \<Rightarrow>
   kafka_error + 'r list \<times> (kafka_message \<times> kafka_error) list" where
  "decode_batch decode [] valid permanent = Inr (valid, permanent)"
| "decode_batch decode (m # ms) valid permanent =
     (case decode m of
        Inl err \<Rightarrow>
          (if kafkaFailureClassOf err \<noteq> Some Permanent then Inl err
           else decode_batch decode ms valid (permanent @ [(m, err)]))
      | Inr r \<Rightarrow> decode_batch decode ms (valid @ [r]) permanent)"

fun dead_letters ::
  "'db batch_env \<Rightarrow> string \<Rightarrow> (kafka_message \<times> kafka_error) list \<Rightarrow> 'db batch_sys \<Rightarrow> 'db batch_sys \<times> kafka_error option" where
  "dead_letters env consumer [] s = (s, None)"
| "dead_letters env consumer ((m, err) # rest) s =
     (case ctx_err env s of
        (s, Some c) \<Rightarrow> (s, Some (CtxErr c))
      | (s, None) \<Rightarrow>
         (case dead_letter_of env consumer m err s of
            (s, Some e) \<Rightarrow> (s, Some e)
          | (s, None) \<Rightarrow> dead_letters env consumer rest s))"

fun first_of_each :: "('r \<Rightarrow> string) \<Rightarrow> 'r list \<Rightarrow> string list \<Rightarrow> 'r list" where
  "first_of_each event [] seen = []"
| "first_of_each event (r # rs) seen =
     (if event r \<in> set seen then first_of_each event rs seen else r # first_of_each event rs (event r # seen))"

definition classify_batch ::
  "'db batch_env \<Rightarrow> ('r, 'db) projection \<Rightarrow> kafka_message list \<Rightarrow> 'db batch_sys \<Rightarrow> 'db batch_sys \<times> (kafka_error + 'r list)" where
  "classify_batch env P ms s =
     (case ctx_err env s of
        (s, Some c) \<Rightarrow> (s, Inl (CtxErr c))
      | (s, None) \<Rightarrow>
         (case decode_batch (pj_decode P) ms [] [] of
            Inl err \<Rightarrow> (s, Inl err)
          | Inr (valid, permanent) \<Rightarrow>
             (case dead_letters env (pj_consumer P) permanent s of
                (s, Some e) \<Rightarrow> (s, Inl e)
              | (s, None) \<Rightarrow> (s, Inr (first_of_each (pj_event P) valid [])))))"

text \<open>The transaction of a list of records; its error unless the context is done.\<close>

definition failed_tx :: "'db batch_env \<Rightarrow> pg_error \<Rightarrow> 'db batch_sys \<Rightarrow> 'db batch_sys \<times> batch_error option" where
  "failed_tx env e s =
     (case ctx_err env s of
        (s, Some c) \<Rightarrow> (s, Some (CtxErr c, None))
      | (s, None) \<Rightarrow> (s, Some (ProcessErr Retryable ''database_transaction'' (pg_text e), Some e)))"

definition apply_records ::
  "'db batch_env \<Rightarrow> ('r, 'db) projection \<Rightarrow> 'r list \<Rightarrow> 'db batch_sys \<Rightarrow> 'db batch_sys \<times> batch_error option" where
  "apply_records env P rs s =
     (case ctx_err env s of
        (s, Some c) \<Rightarrow> (s, Some (CtxErr c, None))
      | (s, None) \<Rightarrow>
         (if rs = [] then (s, None)
          else if \<not> pj_has_db P then (s, Some (ProcessErr Retryable ''database_unavailable'' ''database is not initialized'', None))
          else if trim_space (pj_group P) = '''' then (s, Some (PlainErr ''consumer group is not configured'', None))
          else
            (let i = bs_calls s; s = meets env s in
             case pj_tx P rs (bs_db s) of
               Inl e \<Rightarrow> failed_tx env e s
             | Inr db \<Rightarrow>
                (case be_write env i of
                   WriteOk \<Rightarrow> (s\<lparr>bs_db := db\<rparr>, None)
                 | WriteFailed e \<Rightarrow> failed_tx env e s
                 | WriteUnknown e \<Rightarrow> failed_tx env e (s\<lparr>bs_db := db\<rparr>)))))"

definition kafkaMessageIdentityOf :: "kafka_message \<Rightarrow> string \<times> int \<times> int" where
  "kafkaMessageIdentityOf m = (km_topic m, km_partition m, km_offset m)"

text \<open>
  A single record whose row refers to a missing one, and an attempt at all that is not in the
  dead letter topic yet; the second component lists the messages that are.
\<close>

type_synonym 'db attempt_state = "'db batch_sys \<times> (string \<times> int \<times> int) list"

definition route_missing_parent ::
  "'db batch_env \<Rightarrow> ('r, 'db) projection \<Rightarrow> 'r \<Rightarrow> batch_error \<Rightarrow> 'db attempt_state \<Rightarrow> 'db attempt_state \<times> batch_error option" where
  "route_missing_parent env P r err st =
     (if \<not> pj_permanent P r (case kafkaPostgresForeignKeyConstraint err of Some c \<Rightarrow> c | None \<Rightarrow> '''')
      then (st, Some (retryable_db err))
      else
        (case publishConfirmedMissingParentKafkaForeignKeyDLQ env (pj_consumer P) (pj_message P r) err
                (pj_user P r) (pj_post P r) (fst st) of
           (s, Some e) \<Rightarrow> ((s, snd st), Some e)
         | (s, None) \<Rightarrow> ((s, snd st @ [kafkaMessageIdentityOf (pj_message P r)]), None)))"

definition attempt_ctx :: "'db batch_env \<Rightarrow> 'db attempt_state \<Rightarrow> 'db attempt_state \<times> net_error option" where
  "attempt_ctx env st = (case ctx_err env (fst st) of (s, c) \<Rightarrow> ((s, snd st), c))"

definition attempt_apply ::
  "'db batch_env \<Rightarrow> ('r, 'db) projection \<Rightarrow> 'r list \<Rightarrow> 'db attempt_state \<Rightarrow> 'db attempt_state \<times> batch_error option" where
  "attempt_apply env P rs st = (case apply_records env P rs (fst st) of (s, e) \<Rightarrow> ((s, snd st), e))"

definition batch_attempt ::
  "'db batch_env \<Rightarrow> ('r, 'db) projection \<Rightarrow> 'r list \<Rightarrow> 'db attempt_state \<Rightarrow> 'db attempt_state \<times> kafka_error option" where
  "batch_attempt env P records st =
     (case applyKafkaBatchWithForeignKeyIsolation (attempt_ctx env) (attempt_apply env P)
             (kafkaPostgresForeignKeyIsAllowed (pj_allowed P)) (route_missing_parent env P)
             (filter (\<lambda>r. kafkaMessageIdentityOf (pj_message P r) \<notin> set (snd st)) records) st of
        (st, e) \<Rightarrow> (st, map_option fst e))"

definition process_batch ::
  "'db batch_env \<Rightarrow> kafkaRetryPolicy \<Rightarrow> ('r, 'db) projection \<Rightarrow> kafka_message list \<Rightarrow> 'db batch_sys \<Rightarrow>
   'db batch_sys \<times> kafka_error option" where
  "process_batch env policy P ms s =
     (case classify_batch env P ms s of
        (s, Inl e) \<Rightarrow> (s, Some e)
      | (s, Inr records) \<Rightarrow>
         (if records = [] then (s, None)
          else
            (case retryKafkaOperation (be_retry_ctx env (bs_calls s)) policy (batch_attempt env P records) (s, []) of
               ((s, _), None, _) \<Rightarrow> (s, None)
             | ((s, _), Some err, _) \<Rightarrow>
                (case ctx_err env s of
                   (s, Some c) \<Rightarrow> (s, Some (CtxErr c))
                 | (s, None) \<Rightarrow> (s, Some err)))))"

section \<open>Commits\<close>

text \<open>
  The state of a consumer and the messages whose offsets the broker was asked to commit and
  committed, with or without the consumer learning of it.
\<close>

definition commit_messages ::
  "'db batch_env \<Rightarrow> commit_fault \<Rightarrow> batch_fetch \<Rightarrow> 'db batch_sys \<times> kafka_message list \<Rightarrow>
   ('db batch_sys \<times> kafka_message list) \<times> kafka_error option" where
  "commit_messages env rpc f st =
     (let refused = (\<lambda>e st. case ctx_err env (fst st) of
          (s, Some c) \<Rightarrow> ((s, snd st), Some (CtxErr c))
        | (s, None) \<Rightarrow> ((s, snd st), Some (ProcessErr Retryable ''kafka_commit'' e)))
      in case rpc of
           CommitOk \<Rightarrow> ((fst st, snd st @ bf_messages f), map_option PlainErr (bf_terminal f))
         | CommitRefused e \<Rightarrow> refused e st
         | CommitUncertain e \<Rightarrow> refused e (fst st, snd st @ bf_messages f))"

definition finishKafkaBatch ::
  "'db batch_env \<Rightarrow> (kafka_message list \<Rightarrow> 'db batch_sys \<Rightarrow> 'db batch_sys \<times> kafka_error option) \<Rightarrow> commit_fault \<Rightarrow> batch_fetch \<Rightarrow>
   'db batch_sys \<times> kafka_message list \<Rightarrow> ('db batch_sys \<times> kafka_message list) \<times> kafka_error option" where
  "finishKafkaBatch env process rpc f st =
     (case bf_ctx f of
        Some c \<Rightarrow> (st, Some (CtxErr c))
      | None \<Rightarrow>
         (case ctx_err env (fst st) of
            (s, Some c) \<Rightarrow> ((s, snd st), Some (CtxErr c))
          | (s, None) \<Rightarrow>
             (if bf_messages f = [] then ((s, snd st), map_option PlainErr (bf_terminal f))
              else
                (case process (bf_messages f) s of
                   (s, Some e) \<Rightarrow>
                     (case ctx_err env s of
                        (s, Some c) \<Rightarrow> ((s, snd st), Some (CtxErr c))
                      | (s, None) \<Rightarrow> ((s, snd st), Some e))
                 | (s, None) \<Rightarrow>
                     (case ctx_err env s of
                        (s, Some c) \<Rightarrow> ((s, snd st), Some (CtxErr c))
                      | (s, None) \<Rightarrow> commit_messages env rpc f (s, snd st))))))"

text \<open>The loop over the batches fetched; it ends at the first error.\<close>

fun consume_batches ::
  "('db batch_env \<Rightarrow> commit_fault \<Rightarrow> batch_fetch \<Rightarrow> 'db batch_sys \<times> kafka_message list \<Rightarrow>
      ('db batch_sys \<times> kafka_message list) \<times> kafka_error option) \<Rightarrow>
   (batch_fetch \<times> 'db batch_env \<times> commit_fault) list \<Rightarrow> 'db batch_sys \<times> kafka_message list \<Rightarrow>
   ('db batch_sys \<times> kafka_message list) \<times> kafka_error option" where
  "consume_batches step [] st = (st, None)"
| "consume_batches step ((f, env, rpc) # rest) st =
     (case step env rpc f st of
        (st, Some e) \<Rightarrow> (st, Some e)
      | (st, None) \<Rightarrow> consume_batches step rest st)"

section \<open>What cutting a batch does\<close>

lemma isolation_effect:
  assumes "applyKafkaBatchWithForeignKeyIsolation ctx apply allowed handle rs s = (s', e)"
    and refl: "\<And>x. R x x" and trans: "\<And>x y z. R x y \<Longrightarrow> R y z \<Longrightarrow> R x z"
    and rc: "\<And>x. R x (fst (ctx x))" and ra: "\<And>q x. R x (fst (apply q x))" and rh: "\<And>t d x. R x (fst (handle t d x))"
    and applied: "\<And>q x y t. apply q x = (y, None) \<Longrightarrow> t \<in> set q \<Longrightarrow> good t y"
    and handled: "\<And>t d x y. handle t d x = (y, None) \<Longrightarrow> good t y"
    and mono: "\<And>t x y. R x y \<Longrightarrow> good t x \<Longrightarrow> good t y"
  shows "R s s' \<and> (e = None \<longrightarrow> (\<forall>t \<in> set rs. good t s'))"
  using assms(1)
proof (induction rs arbitrary: s s' e rule: measure_induct_rule [of length])
  case (less rs)
  let ?iso = "applyKafkaBatchWithForeignKeyIsolation ctx apply allowed handle"
  note run = less.prems [unfolded applyKafkaBatchWithForeignKeyIsolation.simps [of ctx "apply" allowed handle rs s]]
  obtain s1 c1 where c1: "ctx s = (s1, c1)" by fastforce
  obtain s2 e2 where a: "apply rs s1 = (s2, e2)" by fastforce
  obtain s3 c3 where c3: "ctx s2 = (s3, c3)" by fastforce
  have r1: "R s s1" and r2: "R s1 s2" and r3: "R s2 s3"
    using rc [of s] ra [of s1 rs] rc [of s2] c1 a c3 by simp_all
  note r12 = trans [OF r1 r2]
  note r13 = trans [OF r12 r3]
  consider "rs = []" | "rs \<noteq> []" "c1 \<noteq> None" | "rs \<noteq> []" "c1 = None" "e2 = None"
    | err where "rs \<noteq> []" "c1 = None" "e2 = Some err" "c3 \<noteq> None \<or> \<not> allowed err"
    | err where "rs \<noteq> []" "c1 = None" "e2 = Some err" "c3 = None" "allowed err" "length rs = Suc 0"
    | err where "rs \<noteq> []" "c1 = None" "e2 = Some err" "c3 = None" "allowed err" "length rs \<noteq> Suc 0"
    by (cases e2) blast+
  then show ?case
  proof cases
    case 1
    with run refl show ?thesis by simp
  next
    case 2
    with run c1 r1 show ?thesis by auto
  next
    case 3
    with run c1 a r12 applied [of rs s1 s2] show ?thesis by simp
  next
    case 4
    with run c1 a c3 r12 r13 show ?thesis by (auto split: option.splits)
  next
    case 5
    obtain t where t: "rs = [t]" using 5(6) by (auto simp: length_Suc_conv)
    from run 5 c1 a c3 t have h: "handle t err s3 = (s', e)" by simp
    with rh [of s3 t err] have "R s3 s'" by simp
    moreover have "e = None \<Longrightarrow> good t s'" using handled [of t err s3 s'] h by simp
    ultimately show ?thesis using trans [OF r13] t by simp
  next
    case 6
    let ?k = "length rs div 2"
    note hl = half_lengths [OF 6(1,6)]
    obtain s4 e4 where f: "?iso (take ?k rs) s3 = (s4, e4)" by fastforce
    from less.IH [OF _ f] hl have ih1: "R s3 s4" "e4 = None \<Longrightarrow> \<forall>t \<in> set (take ?k rs). good t s4" by auto
    note r14 = trans [OF r13 ih1(1)]
    show ?thesis
    proof (cases e4)
      case (Some err)
      with run 6 c1 a c3 f r14 show ?thesis by auto
    next
      case None
      with run 6 c1 a c3 f have g: "?iso (drop ?k rs) s4 = (s', e)" by simp
      from less.IH [OF _ g] hl have ih2: "R s4 s'" "e = None \<Longrightarrow> \<forall>t \<in> set (drop ?k rs). good t s'" by auto
      have "set rs = set (take ?k rs) \<union> set (drop ?k rs)" by (metis append_take_drop_id set_append)
      with ih1(2) [OF None] ih2 mono [OF ih2(1)] trans [OF r14 ih2(1)] show ?thesis by auto
    qed
  qed
qed

text \<open>Only the records of the batch are ever handled one by one.\<close>

lemma isolation_cong:
  assumes "\<And>r err x. r \<in> set rs \<Longrightarrow> h r err x = h' r err x"
  shows "applyKafkaBatchWithForeignKeyIsolation ctx apply allowed h rs s =
    applyKafkaBatchWithForeignKeyIsolation ctx apply allowed h' rs s"
  using assms
proof (induction rs arbitrary: s rule: measure_induct_rule [of length])
  case (less rs)
  show ?case
  proof (cases "rs = [] \<or> length rs = Suc 0")
    case True
    then show ?thesis using less.prems
      by (subst (1 2) applyKafkaBatchWithForeignKeyIsolation.simps) (auto split: prod.splits option.splits)
  next
    case False
    note hl = half_lengths [of rs]
    have False': "(rs = []) = False" "(length rs = 1) = False" using False by simp_all
    have t: "applyKafkaBatchWithForeignKeyIsolation ctx apply allowed h (take (length rs div 2) rs) x =
        applyKafkaBatchWithForeignKeyIsolation ctx apply allowed h' (take (length rs div 2) rs) x" for x
      by (rule less.IH) (use hl False in auto, rule less.prems, rule in_set_takeD)
    have d: "applyKafkaBatchWithForeignKeyIsolation ctx apply allowed h (drop (length rs div 2) rs) x =
        applyKafkaBatchWithForeignKeyIsolation ctx apply allowed h' (drop (length rs div 2) rs) x" for x
      by (rule less.IH) (use hl False in auto, rule less.prems, rule in_set_dropD)
    have u: "applyKafkaBatchWithForeignKeyIsolation ctx apply allowed g rs s = (case ctx s of
        (s, Some c) \<Rightarrow> (s, Some (CtxErr c, None))
      | (s, None) \<Rightarrow> (case apply rs s of
          (s, None) \<Rightarrow> (s, None)
        | (s, Some err) \<Rightarrow> (case ctx s of
            (s, Some c) \<Rightarrow> (s, Some (CtxErr c, None))
          | (s, None) \<Rightarrow> (if \<not> allowed err then (s, Some err)
              else (case applyKafkaBatchWithForeignKeyIsolation ctx apply allowed g (take (length rs div 2) rs) s of
                  (s, Some err) \<Rightarrow> (s, Some err)
                | (s, None) \<Rightarrow> applyKafkaBatchWithForeignKeyIsolation ctx apply allowed g (drop (length rs div 2) rs) s)))))" for g
      by (subst applyKafkaBatchWithForeignKeyIsolation.simps) (simp only: False' if_False)
    show ?thesis by (simp only: u t d)
  qed
qed

section \<open>How often a batch is applied\<close>

text \<open>Counting the applications: the second component of the state.\<close>

definition counted :: "('r list \<Rightarrow> 's \<Rightarrow> 's \<times> batch_error option) \<Rightarrow> 'r list \<Rightarrow> 's \<times> nat \<Rightarrow> ('s \<times> nat) \<times> batch_error option" where
  "counted app rs st = (case app rs (fst st) of (s, e) \<Rightarrow> ((s, snd st + 1), e))"

definition uncounted :: "('s \<Rightarrow> 's \<times> 'a) \<Rightarrow> 's \<times> nat \<Rightarrow> ('s \<times> nat) \<times> 'a" where
  "uncounted f st = (case f (fst st) of (s, a) \<Rightarrow> ((s, snd st), a))"

text \<open>
  C40. Cutting a batch in halves ends and applies at most twice as many transactions as it has
  records, less one: 999 for the 500 records of a full batch. This holds whatever fails.
\<close>

theorem isolation_applies_boundedly:
  assumes "applyKafkaBatchWithForeignKeyIsolation (uncounted ctx) (counted app) allowed
      (\<lambda>r err. uncounted (single r err)) rs (s, 0) = ((s', n), e)"
  shows "n \<le> 2 * length rs - 1"
proof -
  let ?iso = "applyKafkaBatchWithForeignKeyIsolation (uncounted ctx) (counted app) allowed (\<lambda>r err. uncounted (single r err))"
  have "?iso rs st = (st', e') \<Longrightarrow> snd st' \<le> snd st + (2 * length rs - 1)" for st st' e'
  proof (induction rs arbitrary: st st' e' rule: measure_induct_rule [of length])
    case (less rs)
    let ?k = "length rs div 2"
    note run = less.prems [unfolded applyKafkaBatchWithForeignKeyIsolation.simps [of "uncounted ctx" "counted app" _ _ rs st]]
    obtain s1 c1 where c1: "ctx (fst st) = (s1, c1)" by fastforce
    obtain s2 e2 where a: "app rs s1 = (s2, e2)" by fastforce
    obtain s3 c3 where c3: "ctx s2 = (s3, c3)" by fastforce
    let ?st3 = "(s3, snd st + 1)"
    show ?case
    proof (cases "rs \<noteq> [] \<and> c1 = None \<and> c3 = None \<and> length rs \<noteq> Suc 0 \<and> (\<exists>err. e2 = Some err \<and> allowed err)")
      case False
      have "1 \<le> 2 * length rs - 1" if "rs \<noteq> []" using that by (cases rs) auto
      with False run c1 a c3 show ?thesis
        by (auto simp: uncounted_def counted_def split: option.splits if_splits prod.splits)
    next
      case True
      then obtain err where err: "e2 = Some err" "allowed err" by blast
      note hl = half_lengths [of rs]
      obtain st4 e4 where f: "?iso (take ?k rs) ?st3 = (st4, e4)" by fastforce
      from less.IH [OF _ f] hl True have b1: "snd st4 \<le> snd st + 1 + (2 * ?k - 1)" by simp
      show ?thesis
      proof (cases e4)
        case (Some x)
        with run True err c1 a c3 f have "st' = st4" by (simp add: uncounted_def counted_def)
        with b1 hl True show ?thesis by auto
      next
        case None
        with run True err c1 a c3 f have g: "?iso (drop ?k rs) st4 = (st', e')" by (simp add: uncounted_def counted_def)
        from less.IH [OF _ g] hl True have "snd st' \<le> snd st4 + (2 * (length rs - ?k) - 1)" by simp
        with b1 hl True show ?thesis by auto
      qed
    qed
  qed
  from this [OF assms] show ?thesis by simp
qed

theorem isolation_applies_boundedly_witness:
  "\<exists>s n e. applyKafkaBatchWithForeignKeyIsolation (uncounted (\<lambda>s. (s, None)))
      (counted (\<lambda>rs s. (s @ [length rs], Some (PlainErr [], None)))) (\<lambda>_. True)
      (\<lambda>r err. uncounted (\<lambda>s. (s, None))) [7 :: nat, 8] ([], 0) = ((s, n), e) \<and> n \<le> 3"
proof -
  obtain s n e where run: "applyKafkaBatchWithForeignKeyIsolation (uncounted (\<lambda>s. (s, None)))
      (counted (\<lambda>rs s. (s @ [length rs], Some (PlainErr [], None)))) (\<lambda>_. True)
      (\<lambda>r err. uncounted (\<lambda>s. (s, None))) [7 :: nat, 8] ([], 0) = ((s, n), e)" by (metis surj_pair)
  from isolation_applies_boundedly [OF run] show ?thesis unfolding run by simp
qed

section \<open>Settled messages\<close>

text \<open>Offsets identify messages: the broker delivers one message at an offset.\<close>

definition one_per_offset :: "kafka_message list \<Rightarrow> bool" where
  "one_per_offset ms \<longleftrightarrow> (\<forall>m \<in> set ms. \<forall>m' \<in> set ms. kafkaMessageIdentityOf m = kafkaMessageIdentityOf m' \<longrightarrow> m = m')"

text \<open>
  What a consumer asks of its transaction: once it commits, every record is marked as processed,
  marks stay, and records of the same event share them.
\<close>

locale projection_effect =
  fixes P :: "('r, 'db) projection" and marked :: "'r \<Rightarrow> 'db \<Rightarrow> bool"
  assumes tx_marks: "pj_tx P rs db = Inr db' \<Longrightarrow> r \<in> set rs \<Longrightarrow> marked r db'"
    and tx_keeps: "pj_tx P rs db = Inr db' \<Longrightarrow> marked r db \<Longrightarrow> marked r db'"
    and same_event: "pj_event P q = pj_event P r \<Longrightarrow> marked q db \<Longrightarrow> marked r db"
    and decode_message: "pj_decode P m = Inr r \<Longrightarrow> pj_message P r = m"
begin

text \<open>
  A record is handled when it is marked, or when a message that decodes to the very event it
  carries is in the dead letter topic because a row it refers to is missing.
\<close>

definition handled :: "'db batch_sys \<Rightarrow> 'r \<Rightarrow> bool" where
  "handled s r \<longleftrightarrow> marked r (bs_db s) \<or>
     (\<exists>m q d. pj_decode P m = Inr q \<and> pj_event P q = pj_event P r \<and> (m, d) \<in> set (bs_dlq s) \<and>
        dl_code d = ''database_foreign_key'')"

definition settled :: "'db batch_sys \<Rightarrow> kafka_message \<Rightarrow> bool" where
  "settled s m \<longleftrightarrow>
     (case pj_decode P m of
        Inl err \<Rightarrow> \<exists>d. (m, d) \<in> set (bs_dlq s) \<and> dl_code d = kafkaFailureCode err
      | Inr r \<Rightarrow> handled s r)"

definition grows :: "'db batch_sys \<Rightarrow> 'db batch_sys \<Rightarrow> bool" where
  "grows s s' \<longleftrightarrow> (\<forall>r. marked r (bs_db s) \<longrightarrow> marked r (bs_db s')) \<and> set (bs_dlq s) \<subseteq> set (bs_dlq s')"

definition fair :: "'db batch_env \<Rightarrow> bool" where
  "fair env \<longleftrightarrow> (\<forall>i db r. marked r db \<longrightarrow> marked r (be_other env i db))"

lemma grows_refl [simp]: "grows s s"
  by (simp add: grows_def)

lemma grows_trans [trans]: "grows a b \<Longrightarrow> grows b c \<Longrightarrow> grows a c"
  by (auto simp: grows_def)

lemma handled_grows: "grows s s' \<Longrightarrow> handled s r \<Longrightarrow> handled s' r"
  unfolding grows_def handled_def by blast

lemma settled_grows: "grows s s' \<Longrightarrow> settled s m \<Longrightarrow> settled s' m"
  using handled_grows [of s s'] by (auto simp: settled_def grows_def split: sum.splits)

lemma handled_same: "pj_event P q = pj_event P r \<Longrightarrow> handled s q \<Longrightarrow> handled s r"
  unfolding handled_def using same_event [of q r "bs_db s"] by metis

lemma meets_grows: "fair env \<Longrightarrow> grows s (meets env s)"
  by (simp add: grows_def meets_def fair_def)

lemma ctx_err_grows: "fair env \<Longrightarrow> ctx_err env s = (s', c) \<Longrightarrow> grows s s'"
  using meets_grows by (auto simp: ctx_err_def)

lemma dead_letter_effect:
  assumes "fair env" "dead_letter_of env consumer m err s = (s', e)"
  shows "grows s s'" "e = None \<Longrightarrow> \<exists>d. (m, d) \<in> set (bs_dlq s') \<and> dl_code d = kafkaFailureCode err"
proof -
  have g: "grows s (meets env s)" using assms(1) by (rule meets_grows)
  have "grows s s' \<and> (e = None \<longrightarrow> (\<exists>d. (m, d) \<in> set (bs_dlq s') \<and> dl_code d = kafkaFailureCode err))"
    using assms(2) g
    by (cases err) (auto simp: dead_letter_of_def publishConsumerDLQ_def deadLetterFailure_def grows_def Let_def
        split: option.splits sum.splits if_splits)
  then show "grows s s'" "e = None \<Longrightarrow> \<exists>d. (m, d) \<in> set (bs_dlq s') \<and> dl_code d = kafkaFailureCode err" by blast+
qed

lemma missing_parent_effect:
  assumes fair: "fair env"
    and run: "publishConfirmedMissingParentKafkaForeignKeyDLQ env consumer m err user post s = (s', e)"
  shows "grows s s'" "e = None \<Longrightarrow> \<exists>d. (m, d) \<in> set (bs_dlq s') \<and> dl_code d = ''database_foreign_key''"
proof -
  let ?dl = "\<lambda>k. dead_letter_of env consumer m (ProcessErr Permanent ''database_foreign_key'' k) (meets env (meets env (meets env s)))"
  have m: "grows x (meets env x)" for x using fair by (rule meets_grows)
  have g3: "grows s (meets env (meets env (meets env s)))" using grows_trans [OF m grows_trans [OF m m]] .
  have "(e \<noteq> None \<and> s' \<in> {meets env s, meets env (meets env (meets env s))}) \<or>
      (\<exists>k e'. ?dl k = (s', e') \<and> (e = None \<longleftrightarrow> e' = None))"
    using run by (auto simp: publishConfirmedMissingParentKafkaForeignKeyDLQ_def ctx_err_def Let_def
        split: option.splits sum.splits if_splits prod.splits)
  then have "grows s s' \<and> (e = None \<longrightarrow> (\<exists>d. (m, d) \<in> set (bs_dlq s') \<and> dl_code d = ''database_foreign_key''))"
  proof
    assume "e \<noteq> None \<and> s' \<in> {meets env s, meets env (meets env (meets env s))}"
    with m [of s] g3 show ?thesis by auto
  next
    assume "\<exists>k e'. ?dl k = (s', e') \<and> (e = None \<longleftrightarrow> e' = None)"
    then obtain k e' where d: "?dl k = (s', e')" "e = None \<longleftrightarrow> e' = None" by blast
    from dead_letter_effect [OF fair d(1)] d(2) grows_trans [OF g3] show ?thesis by simp
  qed
  then show "grows s s'" "e = None \<Longrightarrow> \<exists>d. (m, d) \<in> set (bs_dlq s') \<and> dl_code d = ''database_foreign_key''" by blast+
qed

lemma failed_tx_effect:
  assumes "fair env" "failed_tx env x s = (s', e)"
  shows "grows s s'" "e \<noteq> None"
  using assms meets_grows by (auto simp: failed_tx_def ctx_err_def split: option.splits)

lemma apply_records_effect:
  assumes fair: "fair env" and run: "apply_records env P rs s = (s', e)"
  shows "grows s s'" "e = None \<Longrightarrow> r \<in> set rs \<Longrightarrow> handled s' r"
proof -
  let ?s1 = "meets env s"
  let ?s2 = "meets env ?s1"
  have g1: "grows s ?s1" and g2: "grows s ?s2"
    using meets_grows [OF fair] grows_trans by blast+
  have db: "grows s (?s2\<lparr>bs_db := db\<rparr>)" "r \<in> set rs \<Longrightarrow> handled (?s2\<lparr>bs_db := db\<rparr>) r"
    if "pj_tx P rs (bs_db ?s2) = Inr db" for db
    using that g2 tx_keeps tx_marks by (auto simp: grows_def handled_def)
  consider "s' = ?s1" "e \<noteq> None \<or> rs = []"
    | x where "failed_tx env x ?s2 = (s', e)"
    | db where "pj_tx P rs (bs_db ?s2) = Inr db" "s' = ?s2\<lparr>bs_db := db\<rparr>"
    | db x where "pj_tx P rs (bs_db ?s2) = Inr db" "failed_tx env x (?s2\<lparr>bs_db := db\<rparr>) = (s', e)"
  proof (cases "be_ctx env (bs_calls s) = None \<and> rs \<noteq> [] \<and> pj_has_db P \<and> trim_space (pj_group P) \<noteq> []")
    case False
    with run that(1) show thesis by (auto simp: apply_records_def ctx_err_def split: option.splits if_splits)
  next
    case True
    with run have *: "(case pj_tx P rs (bs_db ?s2) of Inl e \<Rightarrow> failed_tx env e ?s2
        | Inr db \<Rightarrow> (case be_write env (bs_calls ?s1) of WriteOk \<Rightarrow> (?s2\<lparr>bs_db := db\<rparr>, None)
            | WriteFailed e \<Rightarrow> failed_tx env e ?s2 | WriteUnknown e \<Rightarrow> failed_tx env e (?s2\<lparr>bs_db := db\<rparr>))) = (s', e)"
      by (simp add: apply_records_def ctx_err_def Let_def)
    show thesis
    proof (cases "pj_tx P rs (bs_db ?s2)")
      case (Inl x)
      with * that(2) show thesis by simp
    next
      case (Inr db)
      with * that(2-4) show thesis by (cases "be_write env (bs_calls ?s1)") auto
    qed
  qed
  then have "grows s s' \<and> (e = None \<longrightarrow> r \<in> set rs \<longrightarrow> handled s' r)"
  proof cases
    case 1
    with g1 show ?thesis by auto
  next
    case 2
    from failed_tx_effect [OF fair 2] grows_trans [OF g2] show ?thesis by blast
  next
    case 3
    with db [OF 3(1)] show ?thesis by blast
  next
    case 4
    from failed_tx_effect [OF fair 4(2)] grows_trans [OF db(1) [OF 4(1)]] show ?thesis by blast
  qed
  then show "grows s s'" "e = None \<Longrightarrow> r \<in> set rs \<Longrightarrow> handled s' r" by blast+
qed

text \<open>
  An attempt: the messages it lists as final are in the dead letter topic, so the records it
  leaves out are handled too.
\<close>

definition listed :: "'r set \<Rightarrow> 'db attempt_state \<Rightarrow> bool" where
  "listed D st \<longleftrightarrow> (\<forall>r \<in> D. kafkaMessageIdentityOf (pj_message P r) \<in> set (snd st) \<longrightarrow> handled (fst st) r)"

definition attempt_le :: "'r set \<Rightarrow> 'db attempt_state \<Rightarrow> 'db attempt_state \<Rightarrow> bool" where
  "attempt_le D st st' \<longleftrightarrow> grows (fst st) (fst st') \<and> (listed D st \<longrightarrow> listed D st')"

definition identified :: "'r set \<Rightarrow> bool" where
  "identified D \<longleftrightarrow> (\<forall>r \<in> D. pj_decode P (pj_message P r) = Inr r) \<and> (\<forall>q \<in> D. \<forall>r \<in> D.
     kafkaMessageIdentityOf (pj_message P q) = kafkaMessageIdentityOf (pj_message P r) \<longrightarrow> pj_event P q = pj_event P r)"

lemma listed_grows: "listed D st \<Longrightarrow> grows (fst st) s \<Longrightarrow> listed D (s, snd st)"
  using handled_grows by (auto simp: listed_def)

lemma attempt_leI: "grows (fst st) s \<Longrightarrow> attempt_le D st (s, snd st)"
  using listed_grows by (auto simp: attempt_le_def)

lemma route_effect:
  assumes fair: "fair env" and ident: "identified D" and r: "r \<in> D"
    and run: "route_missing_parent env P r err st = (st', e)"
  shows "attempt_le D st st'" "e = None \<Longrightarrow> handled (fst st') r"
proof -
  let ?p = "\<lambda>s. publishConfirmedMissingParentKafkaForeignKeyDLQ env (pj_consumer P) (pj_message P r) err (pj_user P r) (pj_post P r) s"
  obtain s e' where p: "?p (fst st) = (s, e')" by fastforce
  note eff = missing_parent_effect [OF fair p]
  have "pj_decode P (pj_message P r) = Inr r" using ident r by (simp add: identified_def)
  then have h: "handled s r" if "e' = None" using eff(2) [OF that] unfolding handled_def by blast
  have "attempt_le D st st' \<and> (e = None \<longrightarrow> handled (fst st') r)"
  proof (cases "e' = None \<and> st' = (s, snd st @ [kafkaMessageIdentityOf (pj_message P r)])")
    case True
    have "handled s q" if "q \<in> D" "kafkaMessageIdentityOf (pj_message P q) = kafkaMessageIdentityOf (pj_message P r)" for q
      using ident that r h True by (metis identified_def handled_same)
    then have "listed D st'" if "listed D st" using listed_grows [OF that eff(1)] True by (auto simp: listed_def)
    with True h eff(1) show ?thesis by (simp add: attempt_le_def)
  next
    case False
    with run p have "st' = st \<or> st' = (s, snd st)" "e \<noteq> None"
      by (auto simp: route_missing_parent_def split: if_splits option.splits)
    with attempt_leI [OF eff(1)] show ?thesis by (auto simp: attempt_le_def)
  qed
  then show "attempt_le D st st'" "e = None \<Longrightarrow> handled (fst st') r" by blast+
qed

lemma batch_attempt_effect:
  assumes fair: "fair env" and ident: "identified (set records)" and listed: "listed (set records) st"
    and run: "batch_attempt env P records st = (st', e)"
  shows "grows (fst st) (fst st')" "listed (set records) st'" "e = None \<Longrightarrow> \<forall>r \<in> set records. handled (fst st') r"
proof -
  let ?D = "set records"
  let ?h = "\<lambda>r err st. if r \<in> ?D then route_missing_parent env P r err st else (st, Some err)"
  let ?rs = "filter (\<lambda>r. kafkaMessageIdentityOf (pj_message P r) \<notin> set (snd st)) records"
  let ?iso = "\<lambda>h. applyKafkaBatchWithForeignKeyIsolation (attempt_ctx env) (attempt_apply env P)
      (kafkaPostgresForeignKeyIsAllowed (pj_allowed P)) h ?rs st"
  have same: "?iso (route_missing_parent env P) = ?iso ?h"
    by (rule isolation_cong) auto
  obtain e1 where iso: "?iso ?h = (st', e1)" "e = map_option fst e1"
    using run same by (auto simp: batch_attempt_def split: prod.splits)
  have "attempt_le ?D st st' \<and> (e1 = None \<longrightarrow> (\<forall>t \<in> set ?rs. handled (fst st') t))"
  proof (rule isolation_effect [OF iso(1), where R = "attempt_le ?D" and good = "\<lambda>t x. handled (fst x) t"])
    show "attempt_le ?D x x" for x by (simp add: attempt_le_def)
    show "attempt_le ?D x y \<Longrightarrow> attempt_le ?D y z \<Longrightarrow> attempt_le ?D x z" for x y z
      using grows_trans by (auto simp: attempt_le_def)
    show "attempt_le ?D x (fst (attempt_ctx env x))" for x
      using attempt_leI meets_grows [OF fair] by (simp add: attempt_ctx_def ctx_err_def)
    show "attempt_le ?D x (fst (attempt_apply env P q x))" for q x
      using attempt_leI apply_records_effect(1) [OF fair] by (auto simp: attempt_apply_def split: prod.splits)
    show "attempt_le ?D x (fst (?h t d x))" for t d x
      using route_effect(1) [OF fair ident] by (cases "route_missing_parent env P t d x") (auto simp: attempt_le_def)
    show "handled (fst y) t" if "attempt_apply env P q x = (y, None)" "t \<in> set q" for q x y t
      using that apply_records_effect(2) [OF fair] by (auto simp: attempt_apply_def split: prod.splits)
    show "handled (fst y) t" if "?h t d x = (y, None)" for t d x y
      using that route_effect(2) [OF fair ident] by (auto split: if_splits)
    show "attempt_le ?D x y \<Longrightarrow> handled (fst x) t \<Longrightarrow> handled (fst y) t" for t x y
      using handled_grows by (auto simp: attempt_le_def)
  qed
  with listed iso(2) show "grows (fst st) (fst st')" "listed ?D st'" "e = None \<Longrightarrow> \<forall>r \<in> ?D. handled (fst st') r"
    using handled_grows by (auto simp: attempt_le_def listed_def)
qed

lemma dead_letters_effect:
  assumes "dead_letters env consumer ps s = (s', e)" "fair env"
  shows "grows s s' \<and>
    (e = None \<longrightarrow> (\<forall>(m, err) \<in> set ps. \<exists>d. (m, d) \<in> set (bs_dlq s') \<and> dl_code d = kafkaFailureCode err))"
  using assms
proof (induction env consumer ps s arbitrary: s' e rule: dead_letters.induct)
  case (1 env consumer s)
  then show ?case by simp
next
  case (2 env consumer m err rest s)
  obtain s1 c where c: "ctx_err env s = (s1, c)" by fastforce
  obtain s2 e2 where d: "dead_letter_of env consumer m err s1 = (s2, e2)" by fastforce
  note g1 = ctx_err_grows [OF "2.prems"(2) c]
  note d2 = dead_letter_effect [OF "2.prems"(2) d]
  show ?case
  proof (cases "c = None \<and> e2 = None")
    case False
    with "2.prems"(1) c d g1 grows_trans [OF g1 d2(1)] show ?thesis by (auto split: option.splits)
  next
    case True
    with "2.prems"(1) c d have r: "dead_letters env consumer rest s2 = (s', e)" by simp
    from "2.IH" [OF c [symmetric] _ d [symmetric] _ r "2.prems"(2)] True
    have ih: "grows s2 s'" "e = None \<Longrightarrow> \<forall>(m, err) \<in> set rest. \<exists>d. (m, d) \<in> set (bs_dlq s') \<and> dl_code d = kafkaFailureCode err"
      by auto
    have "\<exists>d. (m, d) \<in> set (bs_dlq s') \<and> dl_code d = kafkaFailureCode err"
      using d2(2) True ih(1) by (auto simp: grows_def)
    with ih grows_trans [OF g1 grows_trans [OF d2(1) ih(1)]] show ?thesis by simp
  qed
qed

lemma decode_batch_split:
  assumes "decode_batch (pj_decode P) ms valid permanent = Inr (valid', permanent')"
  shows "set valid \<subseteq> set valid'" "set permanent \<subseteq> set permanent'"
    "\<forall>m \<in> set ms. case pj_decode P m of Inl err \<Rightarrow> (m, err) \<in> set permanent' | Inr r \<Rightarrow> r \<in> set valid'"
    "\<forall>r \<in> set valid'. r \<in> set valid \<or> (\<exists>m \<in> set ms. pj_decode P m = Inr r)"
proof -
  have "set valid \<subseteq> set valid' \<and> set permanent \<subseteq> set permanent' \<and>
    (\<forall>m \<in> set ms. case pj_decode P m of Inl err \<Rightarrow> (m, err) \<in> set permanent' | Inr r \<Rightarrow> r \<in> set valid') \<and>
    (\<forall>r \<in> set valid'. r \<in> set valid \<or> (\<exists>m \<in> set ms. pj_decode P m = Inr r))"
    using assms
  proof (induction "pj_decode P" ms valid permanent rule: decode_batch.induct)
    case (2 m ms valid permanent)
    show ?case
    proof (cases "pj_decode P m")
      case (Inl err)
      with 2 show ?thesis by (auto split: if_splits)
    next
      case (Inr r)
      with 2 show ?thesis by (auto split: sum.splits)
    qed
  qed simp
  then show "set valid \<subseteq> set valid'" "set permanent \<subseteq> set permanent'"
    "\<forall>m \<in> set ms. case pj_decode P m of Inl err \<Rightarrow> (m, err) \<in> set permanent' | Inr r \<Rightarrow> r \<in> set valid'"
    "\<forall>r \<in> set valid'. r \<in> set valid \<or> (\<exists>m \<in> set ms. pj_decode P m = Inr r)" by blast+
qed

lemma first_of_each_events:
  "set (first_of_each ev rs seen) \<subseteq> set rs"
  "r \<in> set rs \<Longrightarrow> ev r \<notin> set seen \<Longrightarrow> \<exists>q \<in> set (first_of_each ev rs seen). ev q = ev r"
proof (induction ev rs seen rule: first_of_each.induct)
  case (2 event r0 rs seen)
  case 1
  from 2 show ?case by auto
next
  case (2 event r0 rs seen)
  case 2
  from "2.prems" show ?case
    using "2.IH" by (cases "event r = event r0") (auto split: if_splits)
qed auto

lemma classify_effect:
  assumes fair: "fair env" and run: "classify_batch env P ms s = (s', q)"
  shows "grows s s'"
    "q = Inr records \<Longrightarrow> m \<in> set ms \<Longrightarrow> settled s' m \<or> (\<exists>r q. pj_decode P m = Inr r \<and> q \<in> set records \<and> pj_event P q = pj_event P r)"
    "q = Inr records \<Longrightarrow> r \<in> set records \<Longrightarrow> \<exists>m \<in> set ms. pj_decode P m = Inr r"
proof -
  obtain s1 c where c: "ctx_err env s = (s1, c)" by fastforce
  note g1 = ctx_err_grows [OF fair c]
  have "grows s s' \<and> (q = Inr records \<longrightarrow>
      (m \<in> set ms \<longrightarrow> settled s' m \<or> (\<exists>r q. pj_decode P m = Inr r \<and> q \<in> set records \<and> pj_event P q = pj_event P r)) \<and>
      (r \<in> set records \<longrightarrow> (\<exists>m \<in> set ms. pj_decode P m = Inr r)))"
  proof (cases "c = None \<and> (\<exists>v p. decode_batch (pj_decode P) ms [] [] = Inr (v, p))")
    case False
    then show ?thesis using run c g1 by (auto simp: classify_batch_def split: option.splits sum.splits)
  next
    case True
    then obtain v p where d: "decode_batch (pj_decode P) ms [] [] = Inr (v, p)" by blast
    obtain s2 e where l: "dead_letters env (pj_consumer P) p s1 = (s2, e)" by fastforce
    note sp = decode_batch_split [OF d]
    note eff = dead_letters_effect [OF l fair]
    have s': "s' = s2" "q = (case e of Some x \<Rightarrow> Inl x | None \<Rightarrow> Inr (first_of_each (pj_event P) v []))"
      using run c d l True by (auto simp: classify_batch_def split: option.splits)
    show ?thesis
    proof (cases e)
      case (Some x)
      with s' eff grows_trans [OF g1] show ?thesis by simp
    next
      case None
      have "settled s2 m \<or> (\<exists>r q. pj_decode P m = Inr r \<and> q \<in> set (first_of_each (pj_event P) v []) \<and> pj_event P q = pj_event P r)"
        if "m \<in> set ms"
      proof (cases "pj_decode P m")
        case (Inl err)
        with sp(3) that have "(m, err) \<in> set p" by (auto dest: bspec)
        with eff None Inl show ?thesis by (auto simp: settled_def)
      next
        case (Inr r0)
        with sp(3) that have "r0 \<in> set v" by (auto dest: bspec)
        from first_of_each_events(2) [OF this, of "pj_event P" "[]"] Inr show ?thesis by auto
      qed
      moreover have "r \<in> set (first_of_each (pj_event P) v []) \<Longrightarrow> \<exists>m \<in> set ms. pj_decode P m = Inr r"
        using sp(4) first_of_each_events(1) [of "pj_event P" v "[]"] by auto
      ultimately show ?thesis using s' None eff grows_trans [OF g1] by auto
    qed
  qed
  then show "grows s s'"
    "q = Inr records \<Longrightarrow> m \<in> set ms \<Longrightarrow> settled s' m \<or> (\<exists>r q. pj_decode P m = Inr r \<and> q \<in> set records \<and> pj_event P q = pj_event P r)"
    "q = Inr records \<Longrightarrow> r \<in> set records \<Longrightarrow> \<exists>m \<in> set ms. pj_decode P m = Inr r" by blast+
qed

lemma process_batch_effect:
  assumes fair: "fair env" and one: "one_per_offset ms" and run: "process_batch env policy P ms s = (s', e)"
  shows "grows s s'" "e = None \<Longrightarrow> m \<in> set ms \<Longrightarrow> settled s' m"
proof -
  obtain s1 q where c: "classify_batch env P ms s = (s1, q)" by fastforce
  note cl = classify_effect [OF fair c]
  have "grows s s' \<and> (e = None \<longrightarrow> m \<in> set ms \<longrightarrow> settled s' m)"
  proof (cases q)
    case (Inl x)
    with run c cl(1) show ?thesis by (auto simp: process_batch_def)
  next
    case (Inr records)
    show ?thesis
    proof (cases "records = []")
      case True
      with run c Inr cl show ?thesis by (auto simp: process_batch_def)
    next
      case False
      obtain s2 t r k where retry: "retryKafkaOperation (be_retry_ctx env (bs_calls s1)) policy (batch_attempt env P records) (s1, []) = ((s2, t), r, k)"
        by (metis prod_cases3 surj_pair)
      have ident: "identified (set records)"
        unfolding identified_def
      proof (intro conjI ballI impI)
        show "pj_decode P (pj_message P r) = Inr r" if "r \<in> set records" for r
          using cl(3) [OF Inr that] decode_message by auto
        show "pj_event P q = pj_event P r" if "q \<in> set records" "r \<in> set records"
          "kafkaMessageIdentityOf (pj_message P q) = kafkaMessageIdentityOf (pj_message P r)" for q r
          using one cl(3) [OF Inr] decode_message that unfolding one_per_offset_def by (metis sum.inject(2))
      qed
      let ?I = "\<lambda>st. grows s1 (fst st) \<and> listed (set records) st"
      let ?G = "\<lambda>st. \<forall>r \<in> set records. handled (fst st) r"
      have att: "?I (fst (batch_attempt env P records x))" if "?I x" for x
      proof -
        obtain y e' where y: "batch_attempt env P records x = (y, e')" by fastforce
        from batch_attempt_effect [OF fair ident _ y] that grows_trans show ?thesis by (auto simp: y)
      qed
      have good: "?G y" if "?I x" "batch_attempt env P records x = (y, None)" for x y
        using batch_attempt_effect(3) [OF fair ident _ that(2)] that(1) by blast
      have "?I (s1, [])" by (simp add: listed_def)
      from retry_invariant [where I = ?I and G = ?G, OF retry this att good]
      have i: "grows s1 s2" "r = None \<Longrightarrow> \<forall>r \<in> set records. handled s2 r" by simp_all
      show ?thesis
      proof (cases r)
        case None
        with run c Inr False retry have s': "s' = s2" "e = None" by (simp_all add: process_batch_def)
        have "settled s2 m" if "m \<in> set ms"
          using cl(2) [OF Inr that]
        proof
          assume "settled s1 m"
          then show ?thesis by (rule settled_grows [OF i(1)])
        next
          assume "\<exists>r q. pj_decode P m = Inr r \<and> q \<in> set records \<and> pj_event P q = pj_event P r"
          then obtain r0 q0 where "pj_decode P m = Inr r0" "q0 \<in> set records" "pj_event P q0 = pj_event P r0" by blast
          with i(2) [OF None] handled_same show ?thesis by (auto simp: settled_def)
        qed
        with s' grows_trans [OF cl(1) i(1)] show ?thesis by simp
      next
        case (Some x)
        with run c Inr False retry have "s' = meets env s2" "e \<noteq> None"
          by (auto simp: process_batch_def ctx_err_def split: option.splits)
        with grows_trans [OF grows_trans [OF cl(1) i(1)] meets_grows [OF fair]] show ?thesis by auto
      qed
    qed
  qed
  then show "grows s s'" "e = None \<Longrightarrow> m \<in> set ms \<Longrightarrow> settled s' m" by blast+
qed

definition committed_ok :: "'db batch_sys \<times> kafka_message list \<Rightarrow> bool" where
  "committed_ok st \<longleftrightarrow> (\<forall>m \<in> set (snd st). settled (fst st) m)"

lemma committed_ok_grows: "committed_ok (s, ms) \<Longrightarrow> grows s s' \<Longrightarrow> committed_ok (s', ms)"
  using settled_grows by (auto simp: committed_ok_def)

lemma commit_effect:
  assumes fair: "fair env" and ok: "committed_ok st" and batch: "\<forall>m \<in> set (bf_messages f). settled (fst st) m"
    and run: "commit_messages env rpc f st = (st', e)"
  shows "committed_ok st'"
proof -
  have all: "committed_ok (fst st, snd st @ bf_messages f)" using ok batch by (auto simp: committed_ok_def)
  note g = meets_grows [OF fair, of "fst st"]
  from run committed_ok_grows [OF all g] committed_ok_grows [OF _ g, of "snd st"] ok all show ?thesis
    by (auto simp: commit_messages_def ctx_err_def split: commit_fault.splits option.splits)
qed

lemma finish_effect:
  assumes fair: "fair env" and ok: "committed_ok st" and run: "finishKafkaBatch env process rpc f st = (st', e)"
    and process: "\<And>x y d m. process (bf_messages f) x = (y, d) \<Longrightarrow> grows x y \<and> (d = None \<longrightarrow> m \<in> set (bf_messages f) \<longrightarrow> settled y m)"
  shows "committed_ok st'"
proof -
  let ?s1 = "meets env (fst st)"
  obtain s2 d where p: "process (bf_messages f) ?s1 = (s2, d)" by fastforce
  note m = meets_grows [OF fair]
  have ok1: "committed_ok (?s1, snd st)" using committed_ok_grows [OF _ m, of "fst st" "snd st"] ok by simp
  have g2: "grows ?s1 s2" and set: "d = None \<Longrightarrow> \<forall>x \<in> set (bf_messages f). settled s2 x" using process [OF p] by blast+
  have ok2: "committed_ok (s2, snd st)" by (rule committed_ok_grows [OF ok1 g2])
  have ok3: "committed_ok (meets env s2, snd st)" by (rule committed_ok_grows [OF ok2 m])
  consider "st' = st" | "st' = (?s1, snd st)" | "st' = (meets env s2, snd st)"
    | "d = None" "commit_messages env rpc f (meets env s2, snd st) = (st', e)"
    using run p by (auto simp: finishKafkaBatch_def ctx_err_def split: option.splits if_splits)
  then show ?thesis
  proof cases
    case 4
    show ?thesis by (rule commit_effect [OF fair ok3 _ 4(2)]) (use set [OF 4(1)] settled_grows [OF m] in auto)
  qed (use ok ok1 ok3 in simp_all)
qed

lemma consume_effect:
  assumes "consume_batches step fs st = (st', e)" "committed_ok st"
    and "\<And>f env rpc x y d. (f, env, rpc) \<in> set fs \<Longrightarrow> committed_ok x \<Longrightarrow> step env rpc f x = (y, d) \<Longrightarrow> committed_ok y"
  shows "committed_ok st'"
  using assms
proof (induction step fs st rule: consume_batches.induct)
  case (2 step f env rpc rest st)
  obtain st1 e1 where s: "step env rpc f st = (st1, e1)" by fastforce
  have ok: "committed_ok st1" using "2.prems"(3) [OF _ "2.prems"(2) s] by simp
  show ?case
  proof (cases e1)
    case None
    with "2.prems"(1) s have r: "consume_batches step rest st1 = (st', e)" by simp
    show ?thesis by (rule "2.IH" [OF s [symmetric] None r ok]) (erule (1) "2.prems"(3) [OF list.set_intros(2)])
  next
    case (Some x)
    with "2.prems"(1) s ok show ?thesis by simp
  qed
qed simp

text \<open>
  The messages whose offsets are committed are settled, whatever failed and was retried, cut
  or sent to the dead letter topic on the way.
\<close>

theorem committed_settled:
  assumes "consume_batches (\<lambda>env. finishKafkaBatch env (process_batch env policy P)) fs (s, []) = ((s', ms), e)"
    and "\<forall>(f, env, rpc) \<in> set fs. fair env \<and> one_per_offset (bf_messages f)"
    and "m \<in> set ms"
  shows "settled s' m"
proof -
  have "committed_ok (s', ms)"
  proof (rule consume_effect [OF assms(1)])
    show "committed_ok (s, [])" by (simp add: committed_ok_def)
    fix f env rpc x y d assume f: "(f, env, rpc) \<in> set fs" and ok: "committed_ok x"
      and run: "finishKafkaBatch env (process_batch env policy P) rpc f x = (y, d)"
    from f assms(2) have "fair env" "one_per_offset (bf_messages f)" by auto
    from finish_effect [OF this(1) ok run] process_batch_effect [OF this] show "committed_ok y" by blast
  qed
  with assms(3) show ?thesis by (auto simp: committed_ok_def)
qed

end



end
