(* ===== verification/BehaviorRows.thy ===== *)
theory BehaviorRows
  imports KafkaBatch LikeProjection EmbeddingBatch
begin

text \<open>
  What the two projections of user behaviour share in the database: the inbox, the table
  \<open>post_behaviors\<close> with a row per user, post and action, and the dirty profiles. The statement
  that adds counts to \<open>post_behaviors\<close> is the same in \<open>tasks/user_behavior_consumer.go\<close> and
  \<open>tasks/recommendation_metrics_consumer.go\<close>. Instants are nanoseconds of the epoch.
\<close>

section \<open>Fields of payloads\<close>

text \<open>\<open>json.Unmarshal\<close> into a string, an \<open>int64\<close> and a \<open>uint\<close>.\<close>

fun unmarshal_string :: "json \<Rightarrow> string \<Rightarrow> string option" where
  "unmarshal_string (JString s) old = Some s"
| "unmarshal_string JNull old = Some old"
| "unmarshal_string _ old = None"

definition int64_field :: "json \<Rightarrow> int \<Rightarrow> int option" where
  "int64_field v old = unmarshal_int (- (2 ^ 63)) (2 ^ 63 - 1) v old"

definition uint_field :: "json \<Rightarrow> nat \<Rightarrow> nat option" where
  "uint_field v old = map_option nat (unmarshal_int 0 (2 ^ 64 - 1) v (int old))"

section \<open>The inbox\<close>

type_synonym behavior_key = "nat \<times> nat \<times> string"

record projection_db =
  pd_inbox :: "(string \<times> string) fset"
  pd_behaviors :: "behavior_key \<rightharpoonup> int \<times> int"
  pd_dirty :: "nat \<rightharpoonup> int"

text \<open>\<open>MarkInboxProcessedBatch\<close> on the inbox of this database.\<close>

definition mark_inbox :: "string \<Rightarrow> string list \<Rightarrow> 'a projection_db_scheme \<Rightarrow> pg_error + 'a projection_db_scheme \<times> string fset" where
  "mark_inbox consumer ids db =
     (case MarkInboxProcessedBatch consumer ids \<lparr>inbox = pd_inbox db, posts = Map.empty\<rparr> of
        Inl e \<Rightarrow> Inl (DatabaseError e)
      | Inr (marked, first) \<Rightarrow> Inr (db\<lparr>pd_inbox := inbox marked\<rparr>, first))"

definition in_inbox :: "string \<Rightarrow> string \<Rightarrow> 'a projection_db_scheme \<Rightarrow> bool" where
  "in_inbox consumer eid db \<longleftrightarrow> (trim_space consumer, eid) |\<in>| pd_inbox db"

lemma mark_inbox_effect:
  assumes "mark_inbox consumer ids db = Inr (db', first)"
  shows "\<exists>box. db' = db\<lparr>pd_inbox := box\<rparr>" "\<forall>i \<in> set ids. NormalizeEventID i \<noteq> None"
    "in_inbox consumer e db' \<longleftrightarrow> in_inbox consumer e db \<or> (\<exists>i \<in> set ids. NormalizeEventID i = Some e)"
    "e |\<in>| first \<longleftrightarrow> \<not> in_inbox consumer e db \<and> (\<exists>i \<in> set ids. NormalizeEventID i = Some e)"
proof -
  obtain us where u: "unique_ids ids [] = Inr us"
    using assms by (auto simp: mark_inbox_def MarkInboxProcessedBatch_def Let_def split: sum.splits if_splits)
  note sp = unique_ids_spec [OF u]
  have us: "e \<in> set us \<longleftrightarrow> (\<exists>i \<in> set ids. NormalizeEventID i = Some e)" and "\<forall>i \<in> set ids. NormalizeEventID i \<noteq> None"
    using sp by auto
  then show "\<forall>i \<in> set ids. NormalizeEventID i \<noteq> None" by blast
  have "[] \<notin> set us" using sp NormalizeEventID_nonempty by fastforce
  with assms u us show "\<exists>box. db' = db\<lparr>pd_inbox := box\<rparr>"
    "in_inbox consumer e db' \<longleftrightarrow> in_inbox consumer e db \<or> (\<exists>i \<in> set ids. NormalizeEventID i = Some e)"
    "e |\<in>| first \<longleftrightarrow> \<not> in_inbox consumer e db \<and> (\<exists>i \<in> set ids. NormalizeEventID i = Some e)"
    by (auto simp: mark_inbox_def MarkInboxProcessedBatch_def insert_returning_def in_inbox_def Let_def
        fset_of_list.rep_eq split: sum.splits if_splits)
qed

lemma unique_ids_defined: "\<forall>i \<in> set ids. NormalizeEventID i \<noteq> None \<Longrightarrow> \<exists>us. unique_ids ids acc = Inr us"
  by (induction ids acc rule: unique_ids.induct) auto

lemma mark_inbox_defined:
  assumes "\<forall>i \<in> set ids. NormalizeEventID i \<noteq> None" "trim_space consumer \<noteq> []"
  shows "\<exists>db' first. mark_inbox consumer ids db = Inr (db', first)"
  using unique_ids_defined [OF assms(1), of "[]"] assms(2)
  by (auto simp: mark_inbox_def MarkInboxProcessedBatch_def insert_returning_def Let_def)

lemma mark_inbox_consumer: "mark_inbox consumer ids db = Inr x \<Longrightarrow> trim_space consumer \<noteq> []"
  by (auto simp: mark_inbox_def MarkInboxProcessedBatch_def Let_def)

text \<open>Ids that are all in the inbox change nothing.\<close>

lemma mark_inbox_again:
  assumes "\<forall>i \<in> set ids. \<exists>e. NormalizeEventID i = Some e \<and> in_inbox consumer e db" "trim_space consumer \<noteq> []"
  shows "mark_inbox consumer ids db = Inr (db, {||})"
proof -
  obtain us where u: "unique_ids ids [] = Inr us" using unique_ids_defined [of ids "[]"] assms(1) by auto
  have us: "\<forall>e \<in> set us. (trim_space consumer, e) |\<in>| pd_inbox db"
    using unique_ids_spec [OF u] assms(1) by (fastforce simp: in_inbox_def)
  then have "pd_inbox db |\<union>| fset_of_list (map (Pair (trim_space consumer)) us) = pd_inbox db"
    "filter (\<lambda>i. (trim_space consumer, i) |\<notin>| pd_inbox db) us = []"
    by (auto simp: fset_of_list.rep_eq filter_empty_conv)
  then show ?thesis using assms(2) u
    by (auto simp: mark_inbox_def MarkInboxProcessedBatch_def insert_returning_def Let_def simp del: fset_of_list_map)
qed

definition marked_event :: "string \<Rightarrow> string \<Rightarrow> 'a projection_db_scheme \<Rightarrow> bool" where
  "marked_event grp i db \<longleftrightarrow> (\<exists>e. NormalizeEventID i = Some e \<and> in_inbox grp e db)"

lemma marked_after_inbox:
  assumes "mark_inbox grp ids db = Inr (db', first)"
  shows "i \<in> set ids \<Longrightarrow> marked_event grp i db'" "marked_event grp i db \<Longrightarrow> marked_event grp i db'"
  using mark_inbox_effect(2,3) [OF assms] unfolding marked_event_def by blast+

section \<open>Behaviour rows\<close>

text \<open>
  One more event of a key, and adding the rows of a batch to the table. The aggregate of a batch
  is a map; the order in which its rows are written, which fixes the order of row locks, is not
  modelled.
\<close>

definition count_behavior :: "behavior_key \<Rightarrow> int \<Rightarrow> (behavior_key \<rightharpoonup> int \<times> int) \<Rightarrow> (behavior_key \<rightharpoonup> int \<times> int)" where
  "count_behavior key t rows =
     (case rows key of
        None \<Rightarrow> rows(key \<mapsto> (1, t))
      | Some (n, seen) \<Rightarrow> rows(key \<mapsto> (n + 1, if seen = EmbeddingBatch.zero_time \<or> seen < t then t else seen)))"

definition add_behaviors :: "(behavior_key \<rightharpoonup> int \<times> int) \<Rightarrow> (behavior_key \<rightharpoonup> int \<times> int) \<Rightarrow> (behavior_key \<rightharpoonup> int \<times> int)" where
  "add_behaviors rows table = (\<lambda>key.
     case rows key of
       None \<Rightarrow> table key
     | Some (n, seen) \<Rightarrow>
        (case table key of
           None \<Rightarrow> Some (n, seen)
         | Some (n0, seen0) \<Rightarrow> Some (n0 + n, max seen0 seen)))"

lemma add_behaviors_empty [simp]: "add_behaviors Map.empty table = table"
  by (simp add: add_behaviors_def)

definition behavior_count :: "(behavior_key \<rightharpoonup> int \<times> int) \<Rightarrow> behavior_key \<Rightarrow> int" where
  "behavior_count table key = (case table key of None \<Rightarrow> 0 | Some (n, seen) \<Rightarrow> n)"

lemma behavior_count_count: "behavior_count (count_behavior k t rows) key = behavior_count rows key + (if key = k then 1 else 0)"
  by (auto simp: behavior_count_def count_behavior_def split: option.splits)

lemma behavior_count_add: "behavior_count (add_behaviors rows table) key = behavior_count rows key + behavior_count table key"
  by (simp add: behavior_count_def add_behaviors_def split: option.splits)

lemma InvalidateProfiles_none [simp]: "InvalidateProfiles {} dirty = dirty"
  by (simp add: InvalidateProfiles_def)

end
