(* ===== verification/CtrMetrics.thy ===== *)
theory CtrMetrics
  imports BehaviorRows
begin

text \<open>
  The projection of recommendation events into daily metrics
  (\<open>tasks/recommendation_metrics_consumer.go\<close>, \<open>tasks/recommendation_metrics_validation.go\<close>).
  An opportunity is what a user, a signed request and a post identify; it counts one impression
  and one click, whatever is delivered how often and in which order, and both on the day of the
  impression. A table of claims, one row per opportunity and kind, is the memory of this.
\<close>

section \<open>Events\<close>

record reco_payload =
  rb_user :: nat
  rb_post :: nat
  rb_request :: string
  rb_scene :: string
  rb_position :: int
  rb_ranker :: string
  rb_hash :: string
  rb_strategy :: string
  rb_opportunity :: bool
  rb_mode :: string
  rb_reason :: string
  rb_received :: int
  rb_foreground :: "int option"
  rb_scroll :: "int option"
  rb_exit :: "string option"
  rb_estimated :: "int option"
  rb_policy :: "string option"
  rb_outcome :: "string option"
  rb_visible :: "int option"

definition empty_reco :: reco_payload where
  "empty_reco = \<lparr>rb_user = 0, rb_post = 0, rb_request = '''', rb_scene = '''', rb_position = 0, rb_ranker = '''',
     rb_hash = '''', rb_strategy = '''', rb_opportunity = False, rb_mode = '''', rb_reason = '''',
     rb_received = EmbeddingBatch.zero_time, rb_foreground = None, rb_scroll = None, rb_exit = None, rb_estimated = None,
     rb_policy = None, rb_outcome = None, rb_visible = None\<rparr>"

text \<open>\<open>json.Unmarshal\<close> into a boolean, an instant and a pointer.\<close>

fun unmarshal_bool :: "json \<Rightarrow> bool \<Rightarrow> bool option" where
  "unmarshal_bool (JBool b) old = Some b"
| "unmarshal_bool JNull old = Some old"
| "unmarshal_bool _ old = None"

fun unmarshal_time :: "(string \<Rightarrow> int option) \<Rightarrow> json \<Rightarrow> int \<Rightarrow> int option" where
  "unmarshal_time rfc3339 (JString s) old = rfc3339 s"
| "unmarshal_time rfc3339 JNull old = Some old"
| "unmarshal_time rfc3339 _ old = None"

definition unmarshal_pointer :: "(json \<Rightarrow> 'a option) \<Rightarrow> json \<Rightarrow> 'a option option" where
  "unmarshal_pointer read v = (if v = JNull then Some None else map_option Some (read v))"

definition reco_field :: "(string \<Rightarrow> int option) \<Rightarrow> string \<Rightarrow> json \<Rightarrow> reco_payload \<Rightarrow> reco_payload option" where
  "reco_field rfc3339 n v p =
     (if n = ''user_id'' then map_option (\<lambda>x. p\<lparr>rb_user := x\<rparr>) (uint_field v (rb_user p))
      else if n = ''post_id'' then map_option (\<lambda>x. p\<lparr>rb_post := x\<rparr>) (uint_field v (rb_post p))
      else if n = ''request_id'' then map_option (\<lambda>x. p\<lparr>rb_request := x\<rparr>) (unmarshal_string v (rb_request p))
      else if n = ''scene'' then map_option (\<lambda>x. p\<lparr>rb_scene := x\<rparr>) (unmarshal_string v (rb_scene p))
      else if n = ''position'' then map_option (\<lambda>x. p\<lparr>rb_position := x\<rparr>) (int64_field v (rb_position p))
      else if n = ''ranker_version'' then map_option (\<lambda>x. p\<lparr>rb_ranker := x\<rparr>) (unmarshal_string v (rb_ranker p))
      else if n = ''ranker_config_hash'' then map_option (\<lambda>x. p\<lparr>rb_hash := x\<rparr>) (unmarshal_string v (rb_hash p))
      else if n = ''strategy_id'' then map_option (\<lambda>x. p\<lparr>rb_strategy := x\<rparr>) (unmarshal_string v (rb_strategy p))
      else if n = ''exploration_opportunity'' then map_option (\<lambda>x. p\<lparr>rb_opportunity := x\<rparr>) (unmarshal_bool v (rb_opportunity p))
      else if n = ''selection_mode'' then map_option (\<lambda>x. p\<lparr>rb_mode := x\<rparr>) (unmarshal_string v (rb_mode p))
      else if n = ''exploration_reason'' then map_option (\<lambda>x. p\<lparr>rb_reason := x\<rparr>) (unmarshal_string v (rb_reason p))
      else if n = ''received_at'' then map_option (\<lambda>x. p\<lparr>rb_received := x\<rparr>) (unmarshal_time rfc3339 v (rb_received p))
      else if n = ''foreground_time_ms'' then map_option (\<lambda>x. p\<lparr>rb_foreground := x\<rparr>) (unmarshal_pointer (\<lambda>v. int64_field v 0) v)
      else if n = ''scroll_progress_percent'' then map_option (\<lambda>x. p\<lparr>rb_scroll := x\<rparr>) (unmarshal_pointer (\<lambda>v. int64_field v 0) v)
      else if n = ''exit_type'' then map_option (\<lambda>x. p\<lparr>rb_exit := x\<rparr>) (unmarshal_pointer (\<lambda>v. unmarshal_string v '''') v)
      else if n = ''estimated_read_time_ms'' then map_option (\<lambda>x. p\<lparr>rb_estimated := x\<rparr>) (unmarshal_pointer (\<lambda>v. int64_field v 0) v)
      else if n = ''read_policy_version'' then map_option (\<lambda>x. p\<lparr>rb_policy := x\<rparr>) (unmarshal_pointer (\<lambda>v. unmarshal_string v '''') v)
      else if n = ''read_outcome'' then map_option (\<lambda>x. p\<lparr>rb_outcome := x\<rparr>) (unmarshal_pointer (\<lambda>v. unmarshal_string v '''') v)
      else if n = ''feed_visible_time_ms'' then map_option (\<lambda>x. p\<lparr>rb_visible := x\<rparr>) (unmarshal_pointer (\<lambda>v. int64_field v 0) v)
      else Some p)"

fun reco_fields :: "(string \<Rightarrow> int option) \<Rightarrow> (string \<times> json) list \<Rightarrow> reco_payload \<Rightarrow> reco_payload option" where
  "reco_fields rfc3339 [] p = Some p"
| "reco_fields rfc3339 ((n, v) # fs) p =
     (case reco_field rfc3339 (fold_name n) v p of None \<Rightarrow> None | Some p \<Rightarrow> reco_fields rfc3339 fs p)"

fun unmarshal_reco :: "(string \<Rightarrow> int option) \<Rightarrow> json \<Rightarrow> reco_payload option" where
  "unmarshal_reco rfc3339 (JObject fs) = reco_fields rfc3339 fs empty_reco"
| "unmarshal_reco rfc3339 JNull = Some empty_reco"
| "unmarshal_reco rfc3339 _ = None"

section \<open>Validation\<close>

definition EventTypeRecommendationImpression :: string where "EventTypeRecommendationImpression = ''recommendation.impression''"
definition EventTypeRecommendationClick :: string where "EventTypeRecommendationClick = ''recommendation.click''"
definition EventTypeRecommendationReadEnd :: string where "EventTypeRecommendationReadEnd = ''recommendation.read_end''"
definition EventTypeRecommendationFeedDwell :: string where "EventTypeRecommendationFeedDwell = ''recommendation.feed_dwell''"
definition EventTypeRecommendationNotInterested :: string where
  "EventTypeRecommendationNotInterested = ''recommendation.not_interested''"

lemmas event_types = EventTypeRecommendationImpression_def EventTypeRecommendationClick_def
  EventTypeRecommendationReadEnd_def EventTypeRecommendationFeedDwell_def EventTypeRecommendationNotInterested_def

definition IsRecommendationEventType :: "string \<Rightarrow> bool" where
  "IsRecommendationEventType t \<longleftrightarrow> trim_space t \<in> {EventTypeRecommendationImpression, EventTypeRecommendationClick,
     EventTypeRecommendationReadEnd, EventTypeRecommendationFeedDwell, EventTypeRecommendationNotInterested}"

definition ValidateRecommendationProvenance :: "bool \<Rightarrow> string \<Rightarrow> string \<Rightarrow> bool" where
  "ValidateRecommendationProvenance opportunity mode reason \<longleftrightarrow>
     mode = ''ranked'' \<and> reason = '''' \<or>
     opportunity \<and> mode = ''exploration'' \<and> reason \<in> {''recent'', ''novel_author'', ''recent_novel_author''}"

definition validRecommendationMetricsReadOutcome :: "string \<Rightarrow> bool" where
  "validRecommendationMetricsReadOutcome outcome \<longleftrightarrow> outcome \<in> {''qualified'', ''quick_bounce'', ''neutral''}"

definition validRecommendationMetricsExitType :: "string \<Rightarrow> bool" where
  "validRecommendationMetricsExitType e \<longleftrightarrow>
     e \<in> {''back_to_recommendation'', ''navigate_to_post'', ''route_leave'', ''page_hide'', ''refresh'', ''unknown''}"

definition no_reading :: "reco_payload \<Rightarrow> bool" where
  "no_reading p \<longleftrightarrow> rb_foreground p = None \<and> rb_scroll p = None \<and> rb_exit p = None \<and> rb_estimated p = None \<and>
     rb_policy p = None \<and> rb_outcome p = None"

definition validRecommendationMetricsPayload :: "string \<Rightarrow> reco_payload \<Rightarrow> bool" where
  "validRecommendationMetricsPayload t p \<longleftrightarrow>
     ValidateRecommendationProvenance (rb_opportunity p) (rb_mode p) (rb_reason p) \<and>
     (if t \<in> {EventTypeRecommendationImpression, EventTypeRecommendationClick, EventTypeRecommendationNotInterested}
      then no_reading p \<and> rb_visible p = None
      else if t = EventTypeRecommendationReadEnd then
        (case (rb_foreground p, rb_scroll p, rb_exit p, rb_estimated p, rb_policy p, rb_outcome p, rb_visible p) of
           (Some f, Some s, Some e, Some est, Some pol, Some out, None) \<Rightarrow>
             \<not> (f < 0 \<or> f > 6 * 60 * 60 * 1000 \<or> s < 0 \<or> s > 100 \<or> est \<le> 0 \<or> trim_space pol = '''' \<or>
                \<not> validRecommendationMetricsExitType e \<or> \<not> validRecommendationMetricsReadOutcome out) \<and>
             pol = ''read_v1''
         | _ \<Rightarrow> False)
      else if t = EventTypeRecommendationFeedDwell then
        (case rb_visible p of None \<Rightarrow> False | Some v \<Rightarrow> \<not> (v < 1 \<or> v > 6 * 60 * 60 * 1000) \<and> no_reading p)
      else False)"

text \<open>
  A decoded event, with the day its click is attributed to once that is known. What the code
  takes from elsewhere: the reading of UUIDs, which gives the value the database stores, and of
  instants.
\<close>

record metric_event =
  me_id :: string
  me_type :: string
  me_occurred :: int
  me_payload :: reco_payload
  me_message :: kafka_message
  me_override :: "int option"

definition decodeRecommendationMetricEvent ::
  "(string \<Rightarrow> string option) \<Rightarrow> (string \<Rightarrow> int option) \<Rightarrow> kafka_message \<Rightarrow> kafka_error + metric_event" where
  "decodeRecommendationMetricEvent uuid rfc3339 m =
     (case DecodeEnvelope (km_value m) of
        Inl e \<Rightarrow> Inl (ProcessErr Permanent ''decode_envelope'' e)
      | Inr ev \<Rightarrow>
         (if uuid (ev_id ev) = None
          then Inl (ProcessErr Permanent ''invalid_payload'' ''recommendation event id must be UUID'')
          else if ev_schema ev \<noteq> 3
          then Inl (ProcessErr Permanent ''unsupported_schema'' (show_int (ev_schema ev)))
          else if \<not> IsRecommendationEventType (ev_type ev)
          then Inl (ProcessErr Permanent ''unsupported_event_type'' (ev_type ev))
          else if ev_occurred ev = EmbeddingBatch.zero_time
          then Inl (ProcessErr Permanent ''invalid_payload'' ''recommendation event occurred_at is required'')
          else
            (case unmarshal_reco rfc3339 (ev_payload ev) of
               None \<Rightarrow> Inl (ProcessErr Permanent ''decode_payload'' '''')
             | Some p \<Rightarrow>
                (if rb_user p = 0 \<or> rb_post p = 0 \<or> trim_space (rb_request p) = '''' \<or> trim_space (rb_scene p) = '''' \<or>
                    rb_position p \<le> 0 \<or> trim_space (rb_ranker p) = '''' \<or> trim_space (rb_hash p) = '''' \<or>
                    trim_space (rb_strategy p) = '''' \<or> rb_received p = EmbeddingBatch.zero_time \<or>
                    \<not> validRecommendationMetricsPayload (ev_type ev) p
                 then Inl (ProcessErr Permanent ''invalid_payload'' ''recommendation behavior payload failed validation'')
                 else if uuid (rb_request p) = None
                 then Inl (ProcessErr Permanent ''invalid_payload'' ''recommendation request_id must be UUID'')
                 else Inr \<lparr>me_id = ev_id ev, me_type = ev_type ev, me_occurred = ev_occurred ev, me_payload = p,
                           me_message = m, me_override = None\<rparr>))))"

section \<open>The tables\<close>

record metric_key =
  mk_date :: int
  mk_scene :: string
  mk_ranker :: string
  mk_hash :: string
  mk_strategy :: string
  mk_opportunity :: bool
  mk_mode :: string
  mk_reason :: string
  mk_position :: int
  mk_post :: nat

record metric_delta =
  ImpressionCount :: int
  ClickCount :: int
  QualifiedReadCount :: int
  QuickBounceCount :: int
  NotInterestedCount :: int
  FeedDwellCount :: int
  FeedVisibleTimeMS :: int

definition no_delta :: metric_delta where
  "no_delta = \<lparr>ImpressionCount = 0, ClickCount = 0, QualifiedReadCount = 0, QuickBounceCount = 0,
     NotInterestedCount = 0, FeedDwellCount = 0, FeedVisibleTimeMS = 0\<rparr>"

definition plus_delta :: "metric_delta \<Rightarrow> metric_delta \<Rightarrow> metric_delta" where
  "plus_delta a b = \<lparr>ImpressionCount = ImpressionCount a + ImpressionCount b, ClickCount = ClickCount a + ClickCount b,
     QualifiedReadCount = QualifiedReadCount a + QualifiedReadCount b, QuickBounceCount = QuickBounceCount a + QuickBounceCount b,
     NotInterestedCount = NotInterestedCount a + NotInterestedCount b, FeedDwellCount = FeedDwellCount a + FeedDwellCount b,
     FeedVisibleTimeMS = FeedVisibleTimeMS a + FeedVisibleTimeMS b\<rparr>"

text \<open>An opportunity; the two kinds of claims; the claims hold a day, counted from the epoch in UTC.\<close>

type_synonym opportunity = "nat \<times> string \<times> nat"

datatype claim_kind = ImpressionClaim | ClickClaim

record metrics_db = projection_db +
  md_claims :: "opportunity \<times> claim_kind \<rightharpoonup> int"
  md_metrics :: "metric_key \<rightharpoonup> metric_delta"

definition day_of :: "int \<Rightarrow> int" where
  "day_of t = t div (24 * 60 * 60 * go_second)"

definition opportunity_of :: "(string \<Rightarrow> string option) \<Rightarrow> reco_payload \<Rightarrow> opportunity" where
  "opportunity_of uuid p = (rb_user p, case uuid (rb_request p) of Some u \<Rightarrow> u | None \<Rightarrow> rb_request p, rb_post p)"

definition key_at :: "reco_payload \<Rightarrow> int \<Rightarrow> metric_key" where
  "key_at p day = \<lparr>mk_date = day, mk_scene = rb_scene p, mk_ranker = rb_ranker p, mk_hash = rb_hash p,
     mk_strategy = rb_strategy p, mk_opportunity = rb_opportunity p, mk_mode = rb_mode p, mk_reason = rb_reason p,
     mk_position = rb_position p, mk_post = rb_post p\<rparr>"

text \<open>The upsert of the daily rows; as for the behaviour rows, the order of the writes is not modelled.\<close>

definition bulkUpsertRecommendationDailyMetrics :: "(metric_key \<rightharpoonup> metric_delta) \<Rightarrow> metrics_db \<Rightarrow> metrics_db" where
  "bulkUpsertRecommendationDailyMetrics rows db = db\<lparr>md_metrics := (\<lambda>k.
     case rows k of
       None \<Rightarrow> md_metrics db k
     | Some d \<Rightarrow> (case md_metrics db k of None \<Rightarrow> Some d | Some m \<Rightarrow> Some (plus_delta m d)))\<rparr>"

section \<open>Claims\<close>

definition insertRecommendationCTRClaim ::
  "(string \<Rightarrow> string option) \<Rightarrow> metric_event \<Rightarrow> claim_kind \<Rightarrow> metrics_db \<Rightarrow> metrics_db \<times> bool" where
  "insertRecommendationCTRClaim uuid r kind db =
     (let key = (opportunity_of uuid (me_payload r), kind)
      in case md_claims db key of
           Some _ \<Rightarrow> (db, False)
         | None \<Rightarrow> (db\<lparr>md_claims := (md_claims db)(key \<mapsto> day_of (me_occurred r))\<rparr>, True))"

text \<open>
  The primary key of the claims allows one click per opportunity, so the count of the clicks is
  0 or 1 and the two checks of the code that it is not more never fail.
\<close>

definition moveRecommendationCTRToEarlierImpression ::
  "(string \<Rightarrow> string option) \<Rightarrow> metric_event \<Rightarrow> metrics_db \<Rightarrow> pg_error + metrics_db" where
  "moveRecommendationCTRToEarlierImpression uuid r db =
     (let p = me_payload r; opp = opportunity_of uuid p; earlier = day_of (me_occurred r)
      in case md_claims db (opp, ImpressionClaim) of
           None \<Rightarrow> Inl (DatabaseError ''record not found'')
         | Some claimed \<Rightarrow>
            (if \<not> earlier < claimed then Inr db
             else
               (let clicks = (if md_claims db (opp, ClickClaim) = None then 0 else 1);
                    missing = Inl (DatabaseError (''CTR old cohort missing or insufficient counts for request '' @ rb_request p))
                in case md_metrics db (key_at p claimed) of
                     None \<Rightarrow> missing
                   | Some old \<Rightarrow>
                      (if \<not> ImpressionCount old \<ge> 1 \<or> clicks = 1 \<and> \<not> ClickCount old \<ge> 1 then missing
                       else
                         (let old' = old\<lparr>ImpressionCount := ImpressionCount old - 1, ClickCount := ClickCount old - clicks\<rparr>;
                              claims = (md_claims db)((opp, ImpressionClaim) \<mapsto> earlier);
                              claims = (if clicks = 1 then claims((opp, ClickClaim) \<mapsto> earlier) else claims)
                          in Inr (bulkUpsertRecommendationDailyMetrics
                                    [key_at p earlier \<mapsto> no_delta\<lparr>ImpressionCount := 1, ClickCount := clicks\<rparr>]
                                    (db\<lparr>md_metrics := (md_metrics db)(key_at p claimed \<mapsto> old'), md_claims := claims\<rparr>)))))))"

text \<open>
  One record of a batch: the tables after it, and the events it adds to those that count, in
  their order.
\<close>

definition claim_record ::
  "(string \<Rightarrow> string option) \<Rightarrow> metric_event \<Rightarrow> metrics_db \<Rightarrow> pg_error + metrics_db \<times> metric_event list" where
  "claim_record uuid r db =
     (let opp = opportunity_of uuid (me_payload r)
      in if me_type r = EventTypeRecommendationImpression then
           (case insertRecommendationCTRClaim uuid r ImpressionClaim db of
              (db, True) \<Rightarrow> Inr (db, [r])
            | (db, False) \<Rightarrow>
               (case moveRecommendationCTRToEarlierImpression uuid r db of Inl e \<Rightarrow> Inl e | Inr db \<Rightarrow> Inr (db, [])))
         else if me_type r = EventTypeRecommendationClick then
           (case insertRecommendationCTRClaim uuid r ClickClaim db of
              (db, False) \<Rightarrow> Inr (db, [])
            | (db, True) \<Rightarrow>
               (case insertRecommendationCTRClaim uuid r ImpressionClaim db of
                  (db, True) \<Rightarrow> Inr (db, [r\<lparr>me_type := EventTypeRecommendationImpression\<rparr>, r])
                | (db, False) \<Rightarrow>
                   (case md_claims db (opp, ImpressionClaim) of
                      None \<Rightarrow> Inl (DatabaseError ''record not found'')
                    | Some day \<Rightarrow>
                       Inr (db\<lparr>md_claims := (md_claims db)((opp, ClickClaim) \<mapsto> day)\<rparr>, [r\<lparr>me_override := Some day\<rparr>]))))
         else Inr (db, [r]))"

fun claim_records ::
  "(string \<Rightarrow> string option) \<Rightarrow> string fset \<Rightarrow> metric_event list \<Rightarrow> metrics_db \<Rightarrow> pg_error + metrics_db \<times> metric_event list" where
  "claim_records uuid first [] db = Inr (db, [])"
| "claim_records uuid first (r # rs) db =
     (if me_id r |\<notin>| first then claim_records uuid first rs db
      else
        (case claim_record uuid r db of
           Inl e \<Rightarrow> Inl e
         | Inr (db, effective) \<Rightarrow>
            (case claim_records uuid first rs db of Inl e \<Rightarrow> Inl e | Inr (db, rest) \<Rightarrow> Inr (db, effective @ rest))))"

definition claimRecommendationCTREvents ::
  "(string \<Rightarrow> string option) \<Rightarrow> metric_event list \<Rightarrow> string fset \<Rightarrow> metrics_db \<Rightarrow> pg_error + metrics_db \<times> metric_event list" where
  "claimRecommendationCTREvents uuid records first db = claim_records uuid first (sort_key me_occurred records) db"

section \<open>Aggregation\<close>

definition metricDeltaFor :: "string \<Rightarrow> reco_payload \<Rightarrow> metric_delta" where
  "metricDeltaFor t p =
     (if t = EventTypeRecommendationImpression then no_delta\<lparr>ImpressionCount := 1\<rparr>
      else if t = EventTypeRecommendationClick then no_delta\<lparr>ClickCount := 1\<rparr>
      else if t = EventTypeRecommendationReadEnd then
        (if rb_outcome p = Some ''qualified'' then no_delta\<lparr>QualifiedReadCount := 1\<rparr>
         else if rb_outcome p = Some ''quick_bounce'' then no_delta\<lparr>QuickBounceCount := 1\<rparr>
         else no_delta)
      else if t = EventTypeRecommendationNotInterested then no_delta\<lparr>NotInterestedCount := 1\<rparr>
      else if t = EventTypeRecommendationFeedDwell then
        no_delta\<lparr>FeedDwellCount := 1, FeedVisibleTimeMS := (case rb_visible p of Some v \<Rightarrow> v | None \<Rightarrow> 0)\<rparr>
      else no_delta)"

definition metric_key_of :: "metric_event \<Rightarrow> metric_key" where
  "metric_key_of r = key_at (me_payload r) (case me_override r of Some day \<Rightarrow> day | None \<Rightarrow> day_of (me_occurred r))"

definition count_metric :: "string fset \<Rightarrow> metric_event \<Rightarrow> (metric_key \<rightharpoonup> metric_delta) \<Rightarrow> (metric_key \<rightharpoonup> metric_delta)" where
  "count_metric first r rows =
     (if me_id r |\<notin>| first then rows
      else
        rows(metric_key_of r \<mapsto>
          plus_delta (case rows (metric_key_of r) of Some d \<Rightarrow> d | None \<Rightarrow> no_delta) (metricDeltaFor (me_type r) (me_payload r))))"

definition aggregateRecommendationMetrics :: "metric_event list \<Rightarrow> string fset \<Rightarrow> (metric_key \<rightharpoonup> metric_delta)" where
  "aggregateRecommendationMetrics records first = fold (count_metric first) records Map.empty"

definition recommendationBehaviorAction :: "metric_event \<Rightarrow> string" where
  "recommendationBehaviorAction r =
     (if me_type r = EventTypeRecommendationClick then ''recommendation_click''
      else if me_type r = EventTypeRecommendationReadEnd then
        (if rb_outcome (me_payload r) = Some ''qualified'' then ''recommendation_read_qualified''
         else if rb_outcome (me_payload r) = Some ''quick_bounce'' then ''recommendation_read_quick_bounce''
         else ''recommendation_read_neutral'')
      else if me_type r = EventTypeRecommendationNotInterested then ''recommendation_not_interested''
      else '''')"

definition count_reco_behavior :: "string fset \<Rightarrow> metric_event \<Rightarrow> (behavior_key \<rightharpoonup> int \<times> int) \<Rightarrow> (behavior_key \<rightharpoonup> int \<times> int)" where
  "count_reco_behavior first r rows =
     (if me_id r |\<notin>| first \<or> recommendationBehaviorAction r = '''' then rows
      else count_behavior (rb_user (me_payload r), rb_post (me_payload r), recommendationBehaviorAction r) (me_occurred r) rows)"

definition aggregateRecommendationBehavior :: "metric_event list \<Rightarrow> string fset \<Rightarrow> (behavior_key \<rightharpoonup> int \<times> int)" where
  "aggregateRecommendationBehavior records first = fold (count_reco_behavior first) records Map.empty"

definition bulkUpsertRecommendationBehavior :: "(behavior_key \<rightharpoonup> int \<times> int) \<Rightarrow> metrics_db \<Rightarrow> metrics_db" where
  "bulkUpsertRecommendationBehavior rows db = db\<lparr>pd_behaviors := add_behaviors rows (pd_behaviors db)\<rparr>"

definition recommendationMetricProfileInvalidationUsers :: "metric_event list \<Rightarrow> string fset \<Rightarrow> nat set" where
  "recommendationMetricProfileInvalidationUsers records first =
     set (map (\<lambda>r. rb_user (me_payload r))
       (filter (\<lambda>r. me_id r |\<in>| first \<and> rb_user (me_payload r) \<noteq> 0 \<and> recommendationBehaviorAction r \<noteq> '''') records))"

section \<open>The transaction and the consumer\<close>

definition metrics_tx :: "(string \<Rightarrow> string option) \<Rightarrow> string \<Rightarrow> metric_event list \<Rightarrow> metrics_db \<Rightarrow> pg_error + metrics_db" where
  "metrics_tx uuid grp records db =
     (case mark_inbox grp (map me_id records) db of
        Inl e \<Rightarrow> Inl e
      | Inr (db, first) \<Rightarrow>
         (case claimRecommendationCTREvents uuid records first db of
            Inl e \<Rightarrow> Inl e
          | Inr (db, effective) \<Rightarrow>
             (let db = bulkUpsertRecommendationDailyMetrics (aggregateRecommendationMetrics effective first) db;
                  db = bulkUpsertRecommendationBehavior (aggregateRecommendationBehavior effective first) db
              in Inr (db\<lparr>pd_dirty := InvalidateProfiles
                   (recommendationMetricProfileInvalidationUsers effective first) (pd_dirty db)\<rparr>))))"

definition metrics_projection ::
  "(string \<Rightarrow> string option) \<Rightarrow> (string \<Rightarrow> int option) \<Rightarrow> string \<Rightarrow> bool \<Rightarrow> (metric_event, metrics_db) projection" where
  "metrics_projection uuid rfc3339 grp has_db =
     \<lparr>pj_consumer = ''recommendation_metrics'', pj_group = grp, pj_has_db = has_db,
      pj_decode = decodeRecommendationMetricEvent uuid rfc3339, pj_message = me_message, pj_event = me_id,
      pj_user = (\<lambda>r. rb_user (me_payload r)), pj_post = (\<lambda>r. rb_post (me_payload r)),
      pj_tx = metrics_tx uuid grp,
      pj_allowed = [''fk_post_behaviors_user'', ''fk_post_behaviors_post'', ''fk_user_reco_profile_dirty_user''],
      pj_permanent = (\<lambda>_ _. True)\<rparr>"

definition applyRecommendationMetricRecords ::
  "(string \<Rightarrow> string option) \<Rightarrow> (string \<Rightarrow> int option) \<Rightarrow> string \<Rightarrow> bool \<Rightarrow> metrics_db batch_env \<Rightarrow> metric_event list \<Rightarrow>
   metrics_db batch_sys \<Rightarrow> metrics_db batch_sys \<times> batch_error option" where
  "applyRecommendationMetricRecords uuid rfc3339 grp has_db env records s =
     apply_records env (metrics_projection uuid rfc3339 grp has_db) records s"

text \<open>One round of the loop of \<open>consumeRecommendationMetricsMessagesWithForeignKeyLookup\<close>.\<close>

definition metrics_round ::
  "(string \<Rightarrow> string option) \<Rightarrow> (string \<Rightarrow> int option) \<Rightarrow> kafkaRetryPolicy \<Rightarrow> string \<Rightarrow> bool \<Rightarrow>
   metrics_db batch_env \<Rightarrow> commit_fault \<Rightarrow> batch_fetch \<Rightarrow> metrics_db batch_sys \<times> kafka_message list \<Rightarrow>
   (metrics_db batch_sys \<times> kafka_message list) \<times> kafka_error option" where
  "metrics_round uuid rfc3339 policy grp has_db env rpc f st =
     (case bf_ctx f of
        Some c \<Rightarrow> (st, Some (CtxErr c))
      | None \<Rightarrow>
         (if bf_messages f = [] \<and> bf_terminal f \<noteq> None then (st, map_option PlainErr (bf_terminal f))
          else
            (case process_batch env policy (metrics_projection uuid rfc3339 grp has_db) (bf_messages f) (fst st) of
               (s, Some e) \<Rightarrow> ((s, snd st), Some e)
             | (s, None) \<Rightarrow>
                (case ctx_err env s of
                   (s, Some c) \<Rightarrow> ((s, snd st), Some (CtxErr c))
                 | (s, None) \<Rightarrow> commit_messages env rpc f (s, snd st)))))"

definition consumeRecommendationMetricsMessages where
  "consumeRecommendationMetricsMessages uuid rfc3339 policy grp has_db =
     consume_batches (metrics_round uuid rfc3339 policy grp has_db)"

section \<open>Counting claims\<close>

text \<open>
  The counters of a row and the number of claims that belong to it. \<open>K\<close> gives the row of an
  opportunity on a day: the dimensions of an opportunity are signed by the server, so every
  event of an opportunity carries the same ones.
\<close>

definition counter :: "claim_kind \<Rightarrow> metric_delta \<Rightarrow> int" where
  "counter kind d = (case kind of ImpressionClaim \<Rightarrow> ImpressionCount d | ClickClaim \<Rightarrow> ClickCount d)"

definition row_count :: "claim_kind \<Rightarrow> (metric_key \<rightharpoonup> metric_delta) \<Rightarrow> metric_key \<Rightarrow> int" where
  "row_count kind rows k = (case rows k of None \<Rightarrow> 0 | Some d \<Rightarrow> counter kind d)"

definition claimed_by :: "(opportunity \<Rightarrow> int \<Rightarrow> metric_key) \<Rightarrow> (opportunity \<times> claim_kind \<rightharpoonup> int) \<Rightarrow> claim_kind \<Rightarrow> metric_key \<Rightarrow> opportunity set" where
  "claimed_by K claims kind k = {opp. \<exists>day. claims (opp, kind) = Some day \<and> K opp day = k}"

definition signed :: "(string \<Rightarrow> string option) \<Rightarrow> (opportunity \<Rightarrow> int \<Rightarrow> metric_key) \<Rightarrow> metric_event \<Rightarrow> bool" where
  "signed uuid K r \<longleftrightarrow> key_at (me_payload r) = K (opportunity_of uuid (me_payload r)) \<and> me_override r = None"

lemma counter_simps [simp]:
  "counter kind (plus_delta a b) = counter kind a + counter kind b" "counter kind no_delta = 0"
  by (simp_all add: counter_def plus_delta_def no_delta_def split: claim_kind.splits)

lemma row_count_upsert [simp]:
  "row_count kind (md_metrics (bulkUpsertRecommendationDailyMetrics rows db)) k = row_count kind (md_metrics db) k + row_count kind rows k"
  by (simp add: row_count_def bulkUpsertRecommendationDailyMetrics_def split: option.splits)

text \<open>The counts of the events that are still to be written.\<close>

definition pending_count :: "string fset \<Rightarrow> claim_kind \<Rightarrow> metric_event list \<Rightarrow> metric_key \<Rightarrow> int" where
  "pending_count first kind es k =
     (\<Sum>r\<leftarrow>es. if me_id r |\<in>| first \<and> metric_key_of r = k then counter kind (metricDeltaFor (me_type r) (me_payload r)) else 0)"

lemma row_count_fold:
  "row_count kind (fold (count_metric first) es rows) k = row_count kind rows k + pending_count first kind es k"
proof (induction es arbitrary: rows)
  case (Cons r es)
  have "row_count kind (count_metric first r rows) k = row_count kind rows k +
      (if me_id r |\<in>| first \<and> metric_key_of r = k then counter kind (metricDeltaFor (me_type r) (me_payload r)) else 0)"
    by (auto simp: count_metric_def row_count_def split: option.splits)
  with Cons.IH show ?case by (simp add: pending_count_def)
qed (simp add: pending_count_def)

lemma row_count_aggregate [simp]: "row_count kind (aggregateRecommendationMetrics es first) k = pending_count first kind es k"
  by (simp add: aggregateRecommendationMetrics_def row_count_fold) (simp add: row_count_def)

lemma finite_claimed: "finite (dom claims) \<Longrightarrow> finite (claimed_by K claims kind k)"
  by (rule finite_subset [of _ "fst ` dom claims"]) (force simp: claimed_by_def)+

lemma claimed_update:
  assumes "finite (dom claims)"
  shows "int (card (claimed_by K (claims((opp, kind) \<mapsto> day)) kind' k)) = int (card (claimed_by K claims kind' k)) +
    (if kind' = kind then (if K opp day = k then 1 else 0) -
       (case claims (opp, kind) of Some old \<Rightarrow> if K opp old = k then 1 else 0 | None \<Rightarrow> 0) else 0)"
proof (cases "kind' = kind")
  case False
  then have "claimed_by K (claims((opp, kind) \<mapsto> day)) kind' k = claimed_by K claims kind' k" by (auto simp: claimed_by_def)
  with False show ?thesis by simp
next
  case True
  let ?C = "claimed_by K claims kind k"
  have f: "finite ?C" using assms by (rule finite_claimed)
  have new: "claimed_by K (claims((opp, kind) \<mapsto> day)) kind k = (if K opp day = k then insert opp (?C - {opp}) else ?C - {opp})"
    by (auto simp: claimed_by_def)
  have old: "opp \<in> ?C \<longleftrightarrow> (case claims (opp, kind) of Some old \<Rightarrow> K opp old = k | None \<Rightarrow> False)"
    by (auto simp: claimed_by_def split: option.splits)
  have "int (card (?C - {opp})) = int (card ?C) - (if opp \<in> ?C then 1 else 0)"
    using f card_gt_0_iff [of ?C] by (auto simp: card_Diff_singleton of_nat_diff Suc_le_eq)
  with f True old show ?thesis unfolding True new by (auto simp: insert_absorb split: option.splits)
qed

definition claims_inv :: "(opportunity \<Rightarrow> int \<Rightarrow> metric_key) \<Rightarrow> string fset \<Rightarrow> metric_event list \<Rightarrow> metrics_db \<Rightarrow> bool" where
  "claims_inv K first es db \<longleftrightarrow> finite (dom (md_claims db)) \<and>
     (\<forall>opp day. md_claims db (opp, ClickClaim) = Some day \<longrightarrow> md_claims db (opp, ImpressionClaim) = Some day) \<and>
     (\<forall>kind k. row_count kind (md_metrics db) k + pending_count first kind es k =
        int (card (claimed_by K (md_claims db) kind k)))"

lemma claims_inv_click:
  "claims_inv K first es db \<Longrightarrow> md_claims db (opp, ClickClaim) = Some day \<Longrightarrow> md_claims db (opp, ImpressionClaim) = Some day"
  unfolding claims_inv_def by blast

lemma pending_append [simp]:
  "pending_count first kind (a @ b) k = pending_count first kind a k + pending_count first kind b k"
  "pending_count first kind [] k = 0"
  by (simp_all add: pending_count_def)

lemma pending_one [simp]:
  "pending_count first kind [r] k =
     (if me_id r |\<in>| first \<and> metric_key_of r = k then counter kind (metricDeltaFor (me_type r) (me_payload r)) else 0)"
  "pending_count first kind [q, r] k = pending_count first kind [q] k + pending_count first kind [r] k"
  by (simp_all add: pending_count_def)

lemma delta_counters [simp]:
  "counter kind (metricDeltaFor EventTypeRecommendationImpression p) = (if kind = ImpressionClaim then 1 else 0)"
  "counter kind (metricDeltaFor EventTypeRecommendationClick p) = (if kind = ClickClaim then 1 else 0)"
  by (simp_all add: metricDeltaFor_def counter_def no_delta_def event_types split: claim_kind.splits)

lemma delta_other:
  "t \<noteq> EventTypeRecommendationImpression \<Longrightarrow> t \<noteq> EventTypeRecommendationClick \<Longrightarrow> counter kind (metricDeltaFor t p) = 0"
  by (simp add: metricDeltaFor_def counter_def no_delta_def split: claim_kind.splits)

section \<open>Every opportunity counts once\<close>

lemma insert_claim_inv:
  assumes inv: "claims_inv K first es db" and sg: "key_at (me_payload r) = K (opportunity_of uuid (me_payload r))"
    and run: "insertRecommendationCTRClaim uuid r kind db = (db', fresh)"
  shows "fresh \<longleftrightarrow> md_claims db (opportunity_of uuid (me_payload r), kind) = None"
    "\<not> fresh \<Longrightarrow> db' = db"
    "fresh \<Longrightarrow> db' = db\<lparr>md_claims := (md_claims db)((opportunity_of uuid (me_payload r), kind) \<mapsto> day_of (me_occurred r))\<rparr>"
  using run by (auto simp: insertRecommendationCTRClaim_def Let_def split: option.splits)

lemma move_effect:
  assumes run: "moveRecommendationCTRToEarlierImpression uuid r db = Inr db'"
    and inv: "claims_inv K first es db" and sg: "signed uuid K r"
  shows "claims_inv K first es db'"
proof -
  let ?p = "me_payload r" and ?o = "opportunity_of uuid (me_payload r)" and ?e = "day_of (me_occurred r)"
  let ?c = "md_claims db"
  have key: "key_at ?p = K ?o" using sg by (simp add: signed_def)
  have fin: "finite (dom ?c)" and sub: "\<And>q d. ?c (q, ClickClaim) = Some d \<Longrightarrow> ?c (q, ImpressionClaim) = Some d"
    and cnt: "\<And>kind k. row_count kind (md_metrics db) k + pending_count first kind es k = int (card (claimed_by K ?c kind k))"
    using inv by (auto simp: claims_inv_def)
  show ?thesis
  proof (cases "\<exists>d. ?c (?o, ImpressionClaim) = Some d \<and> ?e < d")
    case False
    with run inv show ?thesis by (auto simp: moveRecommendationCTRToEarlierImpression_def Let_def split: option.splits)
  next
    case True
    then obtain d where d: "?c (?o, ImpressionClaim) = Some d" "?e < d" by blast
    with run obtain old where old: "md_metrics db (K ?o d) = Some old"
      by (auto simp: moveRecommendationCTRToEarlierImpression_def Let_def key split: option.splits)
    let ?n = "if ?c (?o, ClickClaim) = None then 0 else 1 :: int"
    let ?c1 = "?c((?o, ImpressionClaim) \<mapsto> ?e)"
    let ?c2 = "if ?n = 1 then ?c1((?o, ClickClaim) \<mapsto> ?e) else ?c1"
    let ?m = "(md_metrics db)(K ?o d \<mapsto> old\<lparr>ImpressionCount := ImpressionCount old - 1, ClickCount := ClickCount old - ?n\<rparr>)"
    have db': "db' = bulkUpsertRecommendationDailyMetrics [K ?o ?e \<mapsto> no_delta\<lparr>ImpressionCount := 1, ClickCount := ?n\<rparr>]
        (db\<lparr>md_metrics := ?m, md_claims := ?c2\<rparr>)"
      using run d old by (cases old) (auto simp: moveRecommendationCTRToEarlierImpression_def Let_def key split: if_splits)
    have claims': "md_claims db' = ?c2" by (simp add: db' bulkUpsertRecommendationDailyMetrics_def)
    let ?w = "\<lambda>kind. case kind of ImpressionClaim \<Rightarrow> 1 | ClickClaim \<Rightarrow> ?n"
    have rows: "row_count kind (md_metrics db') k = row_count kind (md_metrics db) k
        - (if K ?o d = k then ?w kind else 0) + (if K ?o ?e = k then ?w kind else 0)" for kind k
      unfolding db' row_count_upsert using old by (auto simp: row_count_def counter_def no_delta_def split: claim_kind.splits)
    have click: "?c (?o, ClickClaim) = None \<or> ?c (?o, ClickClaim) = Some d" using sub [of ?o] d(1) by (cases "?c (?o, ClickClaim)") auto
    have tally: "int (card (claimed_by K ?c2 kind k)) = int (card (claimed_by K ?c kind k))
        - (if K ?o d = k then ?w kind else 0) + (if K ?o ?e = k then ?w kind else 0)" for kind k
    proof -
      have f1: "finite (dom ?c1)" using fin by simp
      note u = claimed_update [OF fin, of K ?o ImpressionClaim ?e kind k] claimed_update [OF f1, of K ?o ClickClaim ?e kind k]
      show ?thesis using u d(1) click by (cases kind) (auto split: if_splits)
    qed
    have "finite (dom ?c2)" using fin by simp
    moreover have "?c2 (q, ImpressionClaim) = Some x" if "?c2 (q, ClickClaim) = Some x" for q x
      using that sub by (auto split: if_splits)
    moreover have "row_count kind (md_metrics db') k + pending_count first kind es k = int (card (claimed_by K ?c2 kind k))" for kind k
      using cnt [of kind k] rows [of kind k] tally [of kind k] by linarith
    ultimately show ?thesis unfolding claims_inv_def claims' by blast
  qed
qed

lemma claim_record_inv:
  assumes run: "claim_record uuid r db = Inr (db', new)" and inv: "claims_inv K first es db"
    and sg: "signed uuid K r" and fst: "me_id r |\<in>| first"
  shows "claims_inv K first (es @ new) db'"
proof -
  let ?p = "me_payload r" and ?o = "opportunity_of uuid (me_payload r)" and ?e = "day_of (me_occurred r)"
  let ?c = "md_claims db"
  have key: "key_at ?p = K ?o" and ov: "me_override r = None" using sg by (simp_all add: signed_def)
  have fin: "finite (dom ?c)" and sub: "\<And>q d. ?c (q, ClickClaim) = Some d \<Longrightarrow> ?c (q, ImpressionClaim) = Some d"
    and cnt: "\<And>kind k. row_count kind (md_metrics db) k + pending_count first kind es k = int (card (claimed_by K ?c kind k))"
    using inv by (auto simp: claims_inv_def)
  have sub': "?c (?o, ImpressionClaim) = None \<Longrightarrow> ?c (?o, ClickClaim) = None" using sub [of ?o] by (cases "?c (?o, ClickClaim)") auto
  have mk: "metric_key_of r = K ?o ?e" "metric_key_of (r\<lparr>me_type := t\<rparr>) = K ?o ?e" "metric_key_of (r\<lparr>me_override := Some d\<rparr>) = K ?o d" for t d
    by (simp_all add: metric_key_of_def key ov)
  have ne: "EventTypeRecommendationClick \<noteq> EventTypeRecommendationImpression" by (simp add: event_types)
  consider (seen) "me_type r = EventTypeRecommendationImpression" "?c (?o, ImpressionClaim) \<noteq> None"
    | (new) "me_type r = EventTypeRecommendationImpression" "?c (?o, ImpressionClaim) = None"
    | (again) "me_type r = EventTypeRecommendationClick" "?c (?o, ClickClaim) \<noteq> None"
    | (both) "me_type r = EventTypeRecommendationClick" "?c (?o, ClickClaim) = None" "?c (?o, ImpressionClaim) = None"
    | (click) d where "me_type r = EventTypeRecommendationClick" "?c (?o, ClickClaim) = None" "?c (?o, ImpressionClaim) = Some d"
    | (other) "me_type r \<noteq> EventTypeRecommendationImpression" "me_type r \<noteq> EventTypeRecommendationClick"
    by blast
  then show ?thesis
  proof cases
    case seen
    with run have "moveRecommendationCTRToEarlierImpression uuid r db = Inr db'" "new = []"
      by (auto simp: claim_record_def insertRecommendationCTRClaim_def Let_def split: option.splits sum.splits)
    with move_effect [OF _ inv sg] show ?thesis by simp
  next
    case new
    with run have "db' = db\<lparr>md_claims := ?c((?o, ImpressionClaim) \<mapsto> ?e)\<rparr>" "new = [r]"
      by (simp_all add: claim_record_def insertRecommendationCTRClaim_def Let_def)
    with new fin sub sub' cnt fst mk show ?thesis by (auto simp: claims_inv_def claimed_update add.assoc [symmetric])
  next
    case again
    with run inv ne show ?thesis by (auto simp: claim_record_def insertRecommendationCTRClaim_def Let_def)
  next
    case both
    with run ne have "db' = db\<lparr>md_claims := ?c((?o, ClickClaim) \<mapsto> ?e, (?o, ImpressionClaim) \<mapsto> ?e)\<rparr>"
      "new = [r\<lparr>me_type := EventTypeRecommendationImpression\<rparr>, r]"
      by (simp_all add: claim_record_def insertRecommendationCTRClaim_def Let_def)
    with both fin sub sub' cnt fst mk show ?thesis by (auto simp: claims_inv_def claimed_update add.assoc [symmetric])
  next
    case click
    with run ne have "db' = db\<lparr>md_claims := ?c((?o, ClickClaim) \<mapsto> d)\<rparr>" "new = [r\<lparr>me_override := Some d\<rparr>]"
      by (simp_all add: claim_record_def insertRecommendationCTRClaim_def Let_def)
    with click fin sub cnt fst mk show ?thesis by (auto simp: claims_inv_def claimed_update add.assoc [symmetric])
  next
    case other
    with run have "db' = db" "new = [r]" by (simp_all add: claim_record_def Let_def)
    with other inv show ?thesis by (simp add: claims_inv_def delta_other)
  qed
qed

lemma claim_records_inv:
  assumes "claim_records uuid first rs db = Inr (db', new)" "claims_inv K first es db" "\<forall>r \<in> set rs. signed uuid K r"
  shows "claims_inv K first (es @ new) db'"
  using assms
proof (induction rs arbitrary: db es db' new)
  case (Cons r rs)
  show ?case
  proof (cases "me_id r |\<in>| first")
    case False
    with Cons show ?thesis by simp
  next
    case True
    with Cons.prems(1) obtain db1 a b where a: "claim_record uuid r db = Inr (db1, a)"
      "claim_records uuid first rs db1 = Inr (db', b)" "new = a @ b" by (auto split: sum.splits)
    from claim_record_inv [OF a(1) Cons.prems(2) _ True] Cons.prems(3) have "claims_inv K first (es @ a) db1" by simp
    from Cons.IH [OF a(2) this] Cons.prems(3) a(3) show ?thesis by simp
  qed
qed simp

lemma bulk_upsert_none [simp]:
  "bulkUpsertRecommendationDailyMetrics Map.empty db = db" "bulkUpsertRecommendationBehavior Map.empty db = db"
  by (simp_all add: bulkUpsertRecommendationDailyMetrics_def bulkUpsertRecommendationBehavior_def)

lemma metrics_tx_Inr:
  assumes "metrics_tx uuid grp rs db = Inr db'"
  obtains db1 first db2 es where "mark_inbox grp (map me_id rs) db = Inr (db1, first)"
    "claim_records uuid first (sort_key me_occurred rs) db1 = Inr (db2, es)"
    "md_claims db1 = md_claims db" "md_metrics db1 = md_metrics db" "md_claims db' = md_claims db2"
    "md_metrics db' = md_metrics (bulkUpsertRecommendationDailyMetrics (aggregateRecommendationMetrics es first) db2)"
    "pd_inbox db' = pd_inbox db2"
proof -
  from assms obtain db1 first db2 es where m: "mark_inbox grp (map me_id rs) db = Inr (db1, first)"
    and c: "claim_records uuid first (sort_key me_occurred rs) db1 = Inr (db2, es)"
    and d: "db' = bulkUpsertRecommendationBehavior (aggregateRecommendationBehavior es first)
        (bulkUpsertRecommendationDailyMetrics (aggregateRecommendationMetrics es first) db2)
        \<lparr>pd_dirty := InvalidateProfiles (recommendationMetricProfileInvalidationUsers es first) (pd_dirty db2)\<rparr>"
    by (auto simp: metrics_tx_def claimRecommendationCTREvents_def Let_def bulkUpsertRecommendationBehavior_def
        bulkUpsertRecommendationDailyMetrics_def split: sum.splits)
  from mark_inbox_effect(1) [OF m] obtain box where "db1 = db\<lparr>pd_inbox := box\<rparr>" by blast
  with m c d that show thesis
    by (simp add: bulkUpsertRecommendationBehavior_def bulkUpsertRecommendationDailyMetrics_def)
qed

lemma claim_record_inbox: "claim_record uuid r db = Inr (db', new) \<Longrightarrow> pd_inbox db' = pd_inbox db"
  by (auto simp: claim_record_def insertRecommendationCTRClaim_def moveRecommendationCTRToEarlierImpression_def
      bulkUpsertRecommendationDailyMetrics_def Let_def split: option.splits if_splits sum.splits)

lemma claim_records_inbox: "claim_records uuid first rs db = Inr (db', new) \<Longrightarrow> pd_inbox db' = pd_inbox db"
  by (induction rs arbitrary: db db' new) (auto dest!: claim_record_inbox split: if_splits sum.splits)

text \<open>
  The databases the consumer can reach from empty tables: batches of signed events that are
  applied, with anything happening to the other tables. A batch that fails leaves no trace.
\<close>

inductive metrics_reach :: "(string \<Rightarrow> string option) \<Rightarrow> (opportunity \<Rightarrow> int \<Rightarrow> metric_key) \<Rightarrow> metrics_db \<Rightarrow> bool"
  for uuid K where
  mr_start: "md_claims db = Map.empty \<Longrightarrow> md_metrics db = Map.empty \<Longrightarrow> metrics_reach uuid K db"
| mr_batch: "metrics_reach uuid K db \<Longrightarrow> \<forall>r \<in> set rs. signed uuid K r \<Longrightarrow> metrics_tx uuid grp rs db = Inr db' \<Longrightarrow>
    metrics_reach uuid K db'"
| mr_other: "metrics_reach uuid K db \<Longrightarrow> md_claims db' = md_claims db \<Longrightarrow> md_metrics db' = md_metrics db \<Longrightarrow>
    metrics_reach uuid K db'"

lemma claims_inv_cong: "md_claims a = md_claims b \<Longrightarrow> md_metrics a = md_metrics b \<Longrightarrow> claims_inv K first [] a = claims_inv K first' [] b"
  by (simp add: claims_inv_def)

lemma metrics_reach_inv: "metrics_reach uuid K db \<Longrightarrow> claims_inv K {||} [] db"
proof (induction rule: metrics_reach.induct)
  case (mr_start db)
  then show ?case by (simp add: claims_inv_def row_count_def claimed_by_def)
next
  case (mr_batch db rs grp db')
  from mr_batch.hyps(3) obtain db1 first db2 es where m:
    "claim_records uuid first (sort_key me_occurred rs) db1 = Inr (db2, es)"
    "md_claims db1 = md_claims db" "md_metrics db1 = md_metrics db" "md_claims db' = md_claims db2"
    "md_metrics db' = md_metrics (bulkUpsertRecommendationDailyMetrics (aggregateRecommendationMetrics es first) db2)"
    by (rule metrics_tx_Inr)
  have "claims_inv K first [] db1" using mr_batch.IH claims_inv_cong [OF m(2,3)] by blast
  from claim_records_inv [OF m(1) this] mr_batch.hyps(2) have "claims_inv K first es db2" by simp
  then show ?case by (simp add: claims_inv_def m(4,5))
next
  case (mr_other db db')
  then show ?case using claims_inv_cong by blast
qed

text \<open>
  C33. Every row of the daily metrics counts opportunities: its impressions are the opportunities
  whose impression is claimed for that row, its clicks those whose click is, so an opportunity
  counts at most one of each however often its events are delivered. A click is claimed on the
  day of its impression, and no row has more clicks than impressions.
\<close>

theorem daily_rows_count_opportunities:
  assumes "metrics_reach uuid K db"
  shows "row_count ImpressionClaim (md_metrics db) k =
      int (card {opp. \<exists>day. md_claims db (opp, ImpressionClaim) = Some day \<and> K opp day = k}) \<and>
    row_count ClickClaim (md_metrics db) k =
      int (card {opp. \<exists>day. md_claims db (opp, ClickClaim) = Some day \<and> K opp day = k}) \<and>
    row_count ClickClaim (md_metrics db) k \<le> row_count ImpressionClaim (md_metrics db) k \<and>
    (\<forall>opp day. md_claims db (opp, ClickClaim) = Some day \<longrightarrow> md_claims db (opp, ImpressionClaim) = Some day)"
proof -
  have inv: "claims_inv K {||} [] db" using assms by (rule metrics_reach_inv)
  then have c: "row_count kind (md_metrics db) k = int (card (claimed_by K (md_claims db) kind k))" for kind
    by (simp add: claims_inv_def)
  have sub: "\<forall>opp day. md_claims db (opp, ClickClaim) = Some day \<longrightarrow> md_claims db (opp, ImpressionClaim) = Some day"
    using inv unfolding claims_inv_def by blast
  then have "claimed_by K (md_claims db) ClickClaim k \<subseteq> claimed_by K (md_claims db) ImpressionClaim k"
    unfolding claimed_by_def by blast
  then have "card (claimed_by K (md_claims db) ClickClaim k) \<le> card (claimed_by K (md_claims db) ImpressionClaim k)"
    using inv by (intro card_mono finite_claimed) (simp_all add: claims_inv_def)
  with c sub show ?thesis by (simp add: claimed_by_def)
qed

text \<open>
  A batch, or any part of it, that is delivered again after its transaction committed changes
  nothing.
\<close>

theorem redelivered_metrics_change_nothing:
  assumes "metrics_tx uuid grp rs db = Inr db'" "me_id ` set rs' \<subseteq> me_id ` set rs"
  shows "metrics_tx uuid grp rs' db' = Inr db'"
proof -
  from assms(1) obtain db1 first db2 es where m: "mark_inbox grp (map me_id rs) db = Inr (db1, first)"
    "claim_records uuid first (sort_key me_occurred rs) db1 = Inr (db2, es)" "pd_inbox db' = pd_inbox db2"
    by (rule metrics_tx_Inr)
  have box: "pd_inbox db2 = pd_inbox db1" using claim_records_inbox [OF m(2)] .
  have "\<exists>e. NormalizeEventID i = Some e \<and> in_inbox grp e db'" if "i \<in> set (map me_id rs')" for i
  proof -
    from that assms(2) have i: "i \<in> set (map me_id rs)" by auto
    then obtain e where e: "NormalizeEventID i = Some e" using mark_inbox_effect(2) [OF m(1)] by blast
    with i mark_inbox_effect(3) [OF m(1), of e] have "in_inbox grp e db1" by auto
    with e box m(3) show ?thesis by (auto simp: in_inbox_def)
  qed
  then have "mark_inbox grp (map me_id rs') db' = Inr (db', {||})"
    by (intro mark_inbox_again mark_inbox_consumer [OF m(1)]) blast
  moreover have "claim_records uuid {||} xs db' = Inr (db', [])" for xs by (induction xs) simp_all
  ultimately show ?thesis
    by (simp add: metrics_tx_def claimRecommendationCTREvents_def aggregateRecommendationMetrics_def
        aggregateRecommendationBehavior_def recommendationMetricProfileInvalidationUsers_def)
qed

section \<open>The day of an opportunity\<close>

definition claim_le :: "(opportunity \<times> claim_kind \<rightharpoonup> int) \<Rightarrow> (opportunity \<times> claim_kind \<rightharpoonup> int) \<Rightarrow> bool" where
  "claim_le a b \<longleftrightarrow> (\<forall>opp day. a (opp, ImpressionClaim) = Some day \<longrightarrow> (\<exists>day' \<le> day. b (opp, ImpressionClaim) = Some day'))"

lemma claim_le_refl [simp]: "claim_le a a"
  by (auto simp: claim_le_def)

lemma claim_le_trans: "claim_le a b \<Longrightarrow> claim_le b c \<Longrightarrow> claim_le a c"
  unfolding claim_le_def by (meson order_trans)

lemma move_claims:
  assumes "moveRecommendationCTRToEarlierImpression uuid r db = Inr db'"
  defines "opp \<equiv> opportunity_of uuid (me_payload r)"
  shows "md_claims db' = md_claims db \<and> (\<exists>day. md_claims db (opp, ImpressionClaim) = Some day \<and> day \<le> day_of (me_occurred r)) \<or>
    (\<exists>day. md_claims db (opp, ImpressionClaim) = Some day \<and> day_of (me_occurred r) < day \<and>
      md_claims db' = (if md_claims db (opp, ClickClaim) = None then md_claims db
        else (md_claims db)((opp, ClickClaim) \<mapsto> day_of (me_occurred r)))((opp, ImpressionClaim) \<mapsto> day_of (me_occurred r)))"
  using assms(1)
  by (auto simp: moveRecommendationCTRToEarlierImpression_def bulkUpsertRecommendationDailyMetrics_def Let_def opp_def [symmetric]
      fun_upd_twist split: option.splits if_splits)

lemma claim_record_days:
  assumes "claim_record uuid r db = Inr (db', new)"
  shows "claim_le (md_claims db) (md_claims db')"
    "me_type r = EventTypeRecommendationImpression \<Longrightarrow>
      \<exists>day \<le> day_of (me_occurred r). md_claims db' (opportunity_of uuid (me_payload r), ImpressionClaim) = Some day"
proof -
  let ?o = "opportunity_of uuid (me_payload r)"
  have ne: "EventTypeRecommendationClick \<noteq> EventTypeRecommendationImpression" by (simp add: event_types)
  have "claim_le (md_claims db) (md_claims db') \<and> (me_type r = EventTypeRecommendationImpression \<longrightarrow>
      (\<exists>day \<le> day_of (me_occurred r). md_claims db' (?o, ImpressionClaim) = Some day))"
  proof (cases "me_type r = EventTypeRecommendationImpression \<and> md_claims db (?o, ImpressionClaim) \<noteq> None")
    case True
    with assms have "moveRecommendationCTRToEarlierImpression uuid r db = Inr db'"
      by (auto simp: claim_record_def insertRecommendationCTRClaim_def Let_def split: option.splits sum.splits)
    from move_claims [OF this] show ?thesis by (auto simp: claim_le_def)
  next
    case False
    with assms ne show ?thesis
      by (auto simp: claim_record_def insertRecommendationCTRClaim_def claim_le_def Let_def split: if_splits option.splits)
  qed
  then show "claim_le (md_claims db) (md_claims db')"
    "me_type r = EventTypeRecommendationImpression \<Longrightarrow>
      \<exists>day \<le> day_of (me_occurred r). md_claims db' (?o, ImpressionClaim) = Some day" by blast+
qed

lemma claim_records_days:
  assumes "claim_records uuid first rs db = Inr (db', new)"
  shows "claim_le (md_claims db) (md_claims db')"
    "r \<in> set rs \<Longrightarrow> me_id r |\<in>| first \<Longrightarrow> me_type r = EventTypeRecommendationImpression \<Longrightarrow>
      \<exists>day \<le> day_of (me_occurred r). md_claims db' (opportunity_of uuid (me_payload r), ImpressionClaim) = Some day"
proof -
  have "claim_le (md_claims db) (md_claims db') \<and> (r \<in> set rs \<longrightarrow> me_id r |\<in>| first \<longrightarrow> me_type r = EventTypeRecommendationImpression \<longrightarrow>
      (\<exists>day \<le> day_of (me_occurred r). md_claims db' (opportunity_of uuid (me_payload r), ImpressionClaim) = Some day))"
    using assms
  proof (induction rs arbitrary: db db' new)
    case (Cons q rs)
    show ?case
    proof (cases "me_id q |\<in>| first")
      case False
      with Cons show ?thesis by auto
    next
      case True
      with Cons.prems obtain db1 a b where a: "claim_record uuid q db = Inr (db1, a)"
        "claim_records uuid first rs db1 = Inr (db', b)" by (auto split: sum.splits)
      note q = claim_record_days [OF a(1)]
      from Cons.IH [OF a(2)] have ih: "claim_le (md_claims db1) (md_claims db')"
        "r \<in> set rs \<Longrightarrow> me_id r |\<in>| first \<Longrightarrow> me_type r = EventTypeRecommendationImpression \<Longrightarrow>
          \<exists>day \<le> day_of (me_occurred r). md_claims db' (opportunity_of uuid (me_payload r), ImpressionClaim) = Some day"
        by blast+
      have "\<exists>day \<le> day_of (me_occurred q). md_claims db' (opportunity_of uuid (me_payload q), ImpressionClaim) = Some day"
        if "me_type q = EventTypeRecommendationImpression"
        using q(2) [OF that] ih(1) unfolding claim_le_def by (meson order_trans)
      with ih(2) claim_le_trans [OF q(1) ih(1)] show ?thesis by auto
    qed
  qed simp
  then show "claim_le (md_claims db) (md_claims db')"
    "r \<in> set rs \<Longrightarrow> me_id r |\<in>| first \<Longrightarrow> me_type r = EventTypeRecommendationImpression \<Longrightarrow>
      \<exists>day \<le> day_of (me_occurred r). md_claims db' (opportunity_of uuid (me_payload r), ImpressionClaim) = Some day"
    by blast+
qed

text \<open>
  The day an opportunity is counted on only moves back, and after a batch it is not after
  any impression in it that was delivered for the first time.
\<close>

theorem opportunity_day_is_earliest:
  assumes "metrics_tx uuid grp rs db = Inr db'"
  shows "(md_claims db (opp, ImpressionClaim) = Some day \<longrightarrow>
      (\<exists>day' \<le> day. md_claims db' (opp, ImpressionClaim) = Some day')) \<and>
    (r \<in> set rs \<and> me_type r = EventTypeRecommendationImpression \<and> NormalizeEventID (me_id r) = Some (me_id r) \<and>
       \<not> in_inbox grp (me_id r) db \<longrightarrow>
      (\<exists>day' \<le> day_of (me_occurred r). md_claims db' (opportunity_of uuid (me_payload r), ImpressionClaim) = Some day'))"
proof -
  from assms obtain db1 first db2 es where m: "mark_inbox grp (map me_id rs) db = Inr (db1, first)"
    "claim_records uuid first (sort_key me_occurred rs) db1 = Inr (db2, es)" "md_claims db1 = md_claims db"
    "md_claims db' = md_claims db2" by (rule metrics_tx_Inr)
  have "me_id r |\<in>| first" if "r \<in> set rs" "NormalizeEventID (me_id r) = Some (me_id r)" "\<not> in_inbox grp (me_id r) db"
    using mark_inbox_effect(4) [OF m(1), of "me_id r"] that by auto
  note f = this
  have le: "claim_le (md_claims db) (md_claims db')" using claim_records_days(1) [OF m(2)] m(3,4) by simp
  show ?thesis
  proof (intro conjI impI)
    assume "md_claims db (opp, ImpressionClaim) = Some day"
    with le show "\<exists>day' \<le> day. md_claims db' (opp, ImpressionClaim) = Some day'" unfolding claim_le_def by blast
  next
    assume "r \<in> set rs \<and> me_type r = EventTypeRecommendationImpression \<and> NormalizeEventID (me_id r) = Some (me_id r) \<and>
       \<not> in_inbox grp (me_id r) db"
    with claim_records_days(2) [OF m(2), of r] f m(4)
    show "\<exists>day' \<le> day_of (me_occurred r). md_claims db' (opportunity_of uuid (me_payload r), ImpressionClaim) = Some day'"
      by simp
  qed
qed

section \<open>When a batch goes through\<close>

text \<open>
  The claims made since the start of a batch. The counts still to be written are those of these
  claims, so a claim that was there before is already counted in its row. The condition keeps an
  impression that comes before the claimed day away from a click that is claimed in the same batch.
\<close>

definition made_since :: "(opportunity \<times> claim_kind \<rightharpoonup> int) \<Rightarrow> (opportunity \<times> claim_kind \<rightharpoonup> int) \<Rightarrow> (opportunity \<times> claim_kind \<rightharpoonup> int)" where
  "made_since old claims = (\<lambda>x. if old x = None then claims x else None)"

definition no_early_impression :: "(string \<Rightarrow> string option) \<Rightarrow> (opportunity \<times> claim_kind \<rightharpoonup> int) \<Rightarrow> metric_event list \<Rightarrow> bool" where
  "no_early_impression uuid old rs \<longleftrightarrow>
     (\<forall>c \<in> set rs. \<forall>i \<in> set rs. me_type c = EventTypeRecommendationClick \<and> me_type i = EventTypeRecommendationImpression \<and>
        opportunity_of uuid (me_payload c) = opportunity_of uuid (me_payload i) \<and>
        old (opportunity_of uuid (me_payload c), ClickClaim) = None \<longrightarrow>
        (case old (opportunity_of uuid (me_payload c), ImpressionClaim) of Some day \<Rightarrow> day \<le> day_of (me_occurred i) | None \<Rightarrow> True))"

definition batch_inv where
  "batch_inv uuid K first old rs es t db \<longleftrightarrow>
     (\<forall>kind k. pending_count first kind es k = int (card (claimed_by K (made_since old (md_claims db)) kind k))) \<and>
     (\<forall>opp day. old (opp, ImpressionClaim) = None \<longrightarrow> md_claims db (opp, ImpressionClaim) = Some day \<longrightarrow> day \<le> t) \<and>
     (\<forall>opp. old (opp, ClickClaim) = None \<longrightarrow> md_claims db (opp, ClickClaim) \<noteq> None \<longrightarrow>
        (\<exists>c \<in> set rs. me_type c = EventTypeRecommendationClick \<and> opportunity_of uuid (me_payload c) = opp)) \<and>
     claim_le old (md_claims db) \<and> (\<forall>x. old x \<noteq> None \<longrightarrow> md_claims db x \<noteq> None)"

lemma batch_invD:
  assumes "batch_inv uuid K first old rs es t db"
  shows "pending_count first kind es k = int (card (claimed_by K (made_since old (md_claims db)) kind k))"
    "old (opp, ImpressionClaim) = None \<Longrightarrow> md_claims db (opp, ImpressionClaim) = Some day \<Longrightarrow> day \<le> t"
    "old (opp, ClickClaim) = None \<Longrightarrow> md_claims db (opp, ClickClaim) \<noteq> None \<Longrightarrow>
      \<exists>c \<in> set rs. me_type c = EventTypeRecommendationClick \<and> opportunity_of uuid (me_payload c) = opp"
    "claim_le old (md_claims db)" "old x \<noteq> None \<Longrightarrow> md_claims db x \<noteq> None"
  using assms unfolding batch_inv_def by blast+

lemma batch_inv_raise:
  assumes "batch_inv uuid K first old rs es t db" "t \<le> t'"
  shows "batch_inv uuid K first old rs es t' db"
  unfolding batch_inv_def using batch_invD [OF assms(1)] order_trans [OF _ assms(2)] by blast

lemma made_since_update:
  "made_since old (claims(x \<mapsto> d)) = (if old x = None then (made_since old claims)(x \<mapsto> d) else made_since old claims)"
  by (auto simp: made_since_def fun_eq_iff)

lemma finite_made_since: "finite (dom claims) \<Longrightarrow> finite (dom (made_since old claims))"
  by (rule finite_subset [of _ "dom claims"]) (auto simp: made_since_def split: if_splits)

lemma old_claim_counted:
  assumes inv: "claims_inv K first es db" and b: "batch_inv uuid K first old rs es t db"
    and c: "old (opp, kind) \<noteq> None" "md_claims db (opp, kind) = Some day"
  shows "1 \<le> row_count kind (md_metrics db) (K opp day)"
proof -
  let ?A = "claimed_by K (md_claims db) kind (K opp day)"
  let ?B = "claimed_by K (made_since old (md_claims db)) kind (K opp day)"
  have "finite ?A" using inv by (intro finite_claimed) (simp add: claims_inv_def)
  moreover have "?B \<subset> ?A"
  proof
    show "?B \<subseteq> ?A" by (auto simp: claimed_by_def made_since_def split: if_splits)
    have "opp \<in> ?A" "opp \<notin> ?B" using c by (auto simp: claimed_by_def made_since_def)
    then show "?B \<noteq> ?A" by blast
  qed
  ultimately have "card ?B < card ?A" by (rule psubset_card_mono)
  moreover have "row_count kind (md_metrics db) (K opp day) + int (card ?B) = int (card ?A)"
    using inv b unfolding claims_inv_def batch_inv_def by metis
  ultimately show ?thesis by linarith
qed

lemma move_progress:
  assumes inv: "claims_inv K first es db" and b: "batch_inv uuid K first old rs es t db"
    and sg: "signed uuid K r" and r: "r \<in> set rs" "me_type r = EventTypeRecommendationImpression"
    and cond: "no_early_impression uuid old rs" and t: "t \<le> day_of (me_occurred r)"
    and seen: "md_claims db (opportunity_of uuid (me_payload r), ImpressionClaim) \<noteq> None"
  shows "\<exists>db'. moveRecommendationCTRToEarlierImpression uuid r db = Inr db' \<and> batch_inv uuid K first old rs es (day_of (me_occurred r)) db'"
proof -
  let ?o = "opportunity_of uuid (me_payload r)" and ?e = "day_of (me_occurred r)"
  have key: "key_at (me_payload r) = K ?o" using sg by (simp add: signed_def)
  obtain d where d: "md_claims db (?o, ImpressionClaim) = Some d" using seen by blast
  have raise: "batch_inv uuid K first old rs es ?e db"
    using b t by (rule batch_inv_raise)
  show ?thesis
  proof (cases "?e < d")
    case False
    with d raise show ?thesis by (auto simp: moveRecommendationCTRToEarlierImpression_def Let_def)
  next
    case True
    have oi: "old (?o, ImpressionClaim) \<noteq> None"
    proof
      assume "old (?o, ImpressionClaim) = None"
      from batch_invD(2) [OF b this d] t have "d \<le> ?e" by simp
      with True show False by simp
    qed
    then obtain d0 where d0: "old (?o, ImpressionClaim) = Some d0" by blast
    have "d \<le> d0" using batch_invD(4) [OF b] d d0 unfolding claim_le_def by fastforce
    have oc: "old (?o, ClickClaim) \<noteq> None" if "md_claims db (?o, ClickClaim) \<noteq> None"
    proof
      assume n: "old (?o, ClickClaim) = None"
      from batch_invD(3) [OF b n that] obtain c where "c \<in> set rs" "me_type c = EventTypeRecommendationClick" "opportunity_of uuid (me_payload c) = ?o"
        by blast
      with cond r n d0 have "d0 \<le> ?e" unfolding no_early_impression_def by fastforce
      with True \<open>d \<le> d0\<close> show False by simp
    qed
    have click: "md_claims db (?o, ClickClaim) = None \<or> md_claims db (?o, ClickClaim) = Some d"
      using claims_inv_click [OF inv, of ?o] d by (cases "md_claims db (?o, ClickClaim)") auto
    have i1: "1 \<le> row_count ImpressionClaim (md_metrics db) (K ?o d)" by (rule old_claim_counted [OF inv b oi d])
    then obtain m where m: "md_metrics db (K ?o d) = Some m" "1 \<le> ImpressionCount m"
      by (auto simp: row_count_def counter_def split: option.splits)
    have cc: "1 \<le> ClickCount m" if "md_claims db (?o, ClickClaim) \<noteq> None"
    proof -
      from click have "md_claims db (?o, ClickClaim) = Some d" by (rule disjE) (simp_all add: that)
      from old_claim_counted [OF inv b oc [OF that] this] m(1) show ?thesis by (simp add: row_count_def counter_def)
    qed
    have "\<exists>db'. moveRecommendationCTRToEarlierImpression uuid r db = Inr db'"
    proof (cases "md_claims db (?o, ClickClaim)")
      case None
      with d m True show ?thesis by (simp add: moveRecommendationCTRToEarlierImpression_def Let_def key)
    next
      case (Some a)
      with cc have "1 \<le> ClickCount m" by simp
      with Some d m True show ?thesis by (simp add: moveRecommendationCTRToEarlierImpression_def Let_def key)
    qed
    then obtain db' where run: "moveRecommendationCTRToEarlierImpression uuid r db = Inr db'" by blast
    from move_claims [OF run] d True have c': "md_claims db' = (if md_claims db (?o, ClickClaim) = None then md_claims db
        else (md_claims db)((?o, ClickClaim) \<mapsto> ?e))((?o, ImpressionClaim) \<mapsto> ?e)" by auto
    have ms: "made_since old (md_claims db') = made_since old (md_claims db)"
      using oi oc by (auto simp: c' made_since_update)
    have "claim_le (md_claims db) (md_claims db')" using d True by (auto simp: claim_le_def c')
    note le = claim_le_trans [OF batch_invD(4) [OF b] this]
    have other: "md_claims db' (q, kind) = md_claims db (q, kind)" if "q \<noteq> ?o" for q kind using that by (simp add: c')
    have "batch_inv uuid K first old rs es ?e db'"
      unfolding batch_inv_def ms
    proof (intro conjI allI impI)
      show "pending_count first kind es k = int (card (claimed_by K (made_since old (md_claims db)) kind k))" for kind k
        by (rule batch_invD(1) [OF b])
    next
      fix q day assume q: "old (q, ImpressionClaim) = None" "md_claims db' (q, ImpressionClaim) = Some day"
      with oi have "q \<noteq> ?o" by auto
      with batch_invD(2) [OF raise q(1)] q(2) other show "day \<le> ?e" by simp
    next
      fix q assume q: "old (q, ClickClaim) = None" "md_claims db' (q, ClickClaim) \<noteq> None"
      have "md_claims db (q, ClickClaim) \<noteq> None"
        using q(2) other by (cases "q = ?o") (auto simp: c' split: if_splits)
      then show "\<exists>c \<in> set rs. me_type c = EventTypeRecommendationClick \<and> opportunity_of uuid (me_payload c) = q"
        by (rule batch_invD(3) [OF b q(1)])
    next
      show "claim_le old (md_claims db')" by (rule le)
    next
      fix x assume "old x \<noteq> None"
      from batch_invD(5) [OF b this] show "md_claims db' x \<noteq> None" by (simp add: c')
    qed
    with run show ?thesis by blast
  qed
qed

lemma batch_inv_add:
  assumes b: "batch_inv uuid K first old rs es t db" and fin: "finite (dom (md_claims db))"
    and none: "md_claims db (opp, kind) = None" and t: "t \<le> t'" and d: "kind = ImpressionClaim \<Longrightarrow> day \<le> t'"
    and c: "kind = ClickClaim \<Longrightarrow> \<exists>c \<in> set rs. me_type c = EventTypeRecommendationClick \<and> opportunity_of uuid (me_payload c) = opp"
    and new: "\<And>kind' k. pending_count first kind' new k = (if kind' = kind \<and> K opp day = k then 1 else 0)"
  shows "batch_inv uuid K first old rs (es @ new) t' (db\<lparr>md_claims := (md_claims db)((opp, kind) \<mapsto> day)\<rparr>)"
proof -
  let ?c = "(md_claims db)((opp, kind) \<mapsto> day)"
  have old: "old (opp, kind) = None" using batch_invD(5) [OF b] none by blast
  have ms: "made_since old ?c = (made_since old (md_claims db))((opp, kind) \<mapsto> day)" using old by (simp add: made_since_update)
  have m0: "made_since old (md_claims db) (opp, kind) = None" using none by (simp add: made_since_def)
  show ?thesis
    unfolding batch_inv_def
  proof (intro conjI allI impI)
    fix kind' k
    from claimed_update [OF finite_made_since [OF fin], of K old opp kind day kind' k] batch_invD(1) [OF b, of kind' k] new [of kind' k]
    show "pending_count first kind' (es @ new) k =
        int (card (claimed_by K (made_since old (md_claims (db\<lparr>md_claims := ?c\<rparr>))) kind' k))"
      by (simp add: ms m0)
  next
    fix q day' assume q: "old (q, ImpressionClaim) = None" "md_claims (db\<lparr>md_claims := ?c\<rparr>) (q, ImpressionClaim) = Some day'"
    show "day' \<le> t'"
    proof (cases "q = opp \<and> kind = ImpressionClaim")
      case True
      with q d show ?thesis by simp
    next
      case False
      with q have "md_claims db (q, ImpressionClaim) = Some day'" by (auto split: if_splits)
      from batch_invD(2) [OF b q(1) this] t show ?thesis by simp
    qed
  next
    fix q assume q: "old (q, ClickClaim) = None" "md_claims (db\<lparr>md_claims := ?c\<rparr>) (q, ClickClaim) \<noteq> None"
    show "\<exists>c \<in> set rs. me_type c = EventTypeRecommendationClick \<and> opportunity_of uuid (me_payload c) = q"
    proof (cases "q = opp \<and> kind = ClickClaim")
      case True
      with c show ?thesis by simp
    next
      case False
      with q have "md_claims db (q, ClickClaim) \<noteq> None" by (auto split: if_splits)
      then show ?thesis by (rule batch_invD(3) [OF b q(1)])
    qed
  next
    have "claim_le (md_claims db) ?c" using none by (auto simp: claim_le_def)
    from claim_le_trans [OF batch_invD(4) [OF b] this] show "claim_le old (md_claims (db\<lparr>md_claims := ?c\<rparr>))" by simp
  next
    fix x assume "old x \<noteq> None"
    from batch_invD(5) [OF b this] show "md_claims (db\<lparr>md_claims := ?c\<rparr>) x \<noteq> None" by simp
  qed
qed

lemma claim_progress:
  assumes inv: "claims_inv K first es db" and b: "batch_inv uuid K first old rs es t db"
    and sg: "signed uuid K r" and r: "r \<in> set rs" "me_id r |\<in>| first"
    and cond: "no_early_impression uuid old rs" and t: "t \<le> day_of (me_occurred r)"
  shows "\<exists>db' new. claim_record uuid r db = Inr (db', new) \<and> batch_inv uuid K first old rs (es @ new) (day_of (me_occurred r)) db'"
proof -
  let ?o = "opportunity_of uuid (me_payload r)" and ?e = "day_of (me_occurred r)"
  let ?c = "md_claims db"
  have key: "key_at (me_payload r) = K ?o" and ov: "me_override r = None" using sg by (simp_all add: signed_def)
  have mk: "metric_key_of r = K ?o ?e" "metric_key_of (r\<lparr>me_type := ty\<rparr>) = K ?o ?e" "metric_key_of (r\<lparr>me_override := Some d\<rparr>) = K ?o d" for ty d
    by (simp_all add: metric_key_of_def key ov)
  have ne: "EventTypeRecommendationClick \<noteq> EventTypeRecommendationImpression" by (simp add: event_types)
  have fin: "finite (dom ?c)" using inv by (simp add: claims_inv_def)
  note raise = batch_inv_raise [OF b t]
  consider (seen) "me_type r = EventTypeRecommendationImpression" "?c (?o, ImpressionClaim) \<noteq> None"
    | (new) "me_type r = EventTypeRecommendationImpression" "?c (?o, ImpressionClaim) = None"
    | (again) "me_type r = EventTypeRecommendationClick" "?c (?o, ClickClaim) \<noteq> None"
    | (both) "me_type r = EventTypeRecommendationClick" "?c (?o, ClickClaim) = None" "?c (?o, ImpressionClaim) = None"
    | (click) d where "me_type r = EventTypeRecommendationClick" "?c (?o, ClickClaim) = None" "?c (?o, ImpressionClaim) = Some d"
    | (other) "me_type r \<noteq> EventTypeRecommendationImpression" "me_type r \<noteq> EventTypeRecommendationClick"
    by blast
  then show ?thesis
  proof cases
    case seen
    from move_progress [OF inv b sg r(1) seen(1) cond t seen(2)] obtain db' where
      m: "moveRecommendationCTRToEarlierImpression uuid r db = Inr db'" "batch_inv uuid K first old rs es ?e db'" by blast
    obtain day where "?c (?o, ImpressionClaim) = Some day" using seen(2) by blast
    with m seen(1) have "claim_record uuid r db = Inr (db', [])"
      by (simp add: claim_record_def insertRecommendationCTRClaim_def Let_def)
    with m(2) show ?thesis by simp
  next
    case new
    have "claim_record uuid r db = Inr (db\<lparr>md_claims := ?c((?o, ImpressionClaim) \<mapsto> ?e)\<rparr>, [r])"
      using new by (simp add: claim_record_def insertRecommendationCTRClaim_def Let_def)
    moreover have "batch_inv uuid K first old rs (es @ [r]) ?e (db\<lparr>md_claims := ?c((?o, ImpressionClaim) \<mapsto> ?e)\<rparr>)"
      by (rule batch_inv_add [OF b fin new(2) t]) (use r(2) new(1) mk in auto)
    ultimately show ?thesis by blast
  next
    case again
    then obtain day where "?c (?o, ClickClaim) = Some day" by blast
    with again ne have "claim_record uuid r db = Inr (db, [])"
      by (simp add: claim_record_def insertRecommendationCTRClaim_def Let_def)
    with raise show ?thesis by simp
  next
    case both
    let ?r = "r\<lparr>me_type := EventTypeRecommendationImpression\<rparr>"
    let ?db1 = "db\<lparr>md_claims := ?c((?o, ImpressionClaim) \<mapsto> ?e)\<rparr>"
    let ?db2 = "?db1\<lparr>md_claims := (md_claims ?db1)((?o, ClickClaim) \<mapsto> ?e)\<rparr>"
    have "claim_record uuid r db = Inr (?db2, [?r, r])"
      using both ne by (simp add: claim_record_def insertRecommendationCTRClaim_def Let_def fun_upd_twist)
    moreover have b1: "batch_inv uuid K first old rs (es @ [?r]) ?e ?db1"
      by (rule batch_inv_add [OF b fin both(3) t]) (use r(2) mk in auto)
    have "batch_inv uuid K first old rs ((es @ [?r]) @ [r]) ?e ?db2"
      by (rule batch_inv_add [OF b1 _ _ order_refl]) (use r both fin mk in auto)
    ultimately show ?thesis by auto
  next
    case click
    have "claim_record uuid r db = Inr (db\<lparr>md_claims := ?c((?o, ClickClaim) \<mapsto> d)\<rparr>, [r\<lparr>me_override := Some d\<rparr>])"
      using click ne by (simp add: claim_record_def insertRecommendationCTRClaim_def Let_def)
    moreover have "batch_inv uuid K first old rs (es @ [r\<lparr>me_override := Some d\<rparr>]) ?e (db\<lparr>md_claims := ?c((?o, ClickClaim) \<mapsto> d)\<rparr>)"
      by (rule batch_inv_add [OF b fin click(2) t]) (use r click(1) mk in auto)
    ultimately show ?thesis by blast
  next
    case other
    then have "claim_record uuid r db = Inr (db, [r])" by (simp add: claim_record_def Let_def)
    moreover have "batch_inv uuid K first old rs (es @ [r]) ?e db"
      using batch_invD [OF raise] other unfolding batch_inv_def by (auto simp: delta_other)
    ultimately show ?thesis by blast
  qed
qed

lemma claim_records_progress:
  assumes "claims_inv K first es db" "batch_inv uuid K first old all es t db" "set rs \<subseteq> set all" "\<forall>r \<in> set rs. signed uuid K r"
    and "no_early_impression uuid old all" "sorted (map me_occurred rs)" "\<forall>r \<in> set rs. t \<le> day_of (me_occurred r)"
  shows "\<exists>db' new. claim_records uuid first rs db = Inr (db', new)"
  using assms
proof (induction rs arbitrary: es t db)
  case (Cons r rs)
  show ?case
  proof (cases "me_id r |\<in>| first")
    case False
    with Cons.IH [OF Cons.prems(1,2)] Cons.prems show ?thesis by simp
  next
    case True
    from Cons.prems have sg: "signed uuid K r" and r: "r \<in> set all" and t: "t \<le> day_of (me_occurred r)" by simp_all
    from claim_progress [OF Cons.prems(1,2) sg r True Cons.prems(5) t] obtain db1 new where
      c: "claim_record uuid r db = Inr (db1, new)" "batch_inv uuid K first old all (es @ new) (day_of (me_occurred r)) db1" by blast
    have inv: "claims_inv K first (es @ new) db1" by (rule claim_record_inv [OF c(1) Cons.prems(1) sg True])
    have "\<forall>q \<in> set rs. day_of (me_occurred r) \<le> day_of (me_occurred q)"
      using Cons.prems(6) by (auto simp: day_of_def go_second_def intro!: zdiv_mono1)
    with Cons.IH [OF inv c(2)] Cons.prems obtain db' b where "claim_records uuid first rs db1 = Inr (db', b)" by auto
    with c(1) True show ?thesis by simp
  qed
qed simp

lemma batch_progress:
  assumes "metrics_reach uuid K db" "\<forall>r \<in> set rs. signed uuid K r \<and> NormalizeEventID (me_id r) \<noteq> None"
    and "trim_space grp \<noteq> []" "no_early_impression uuid (md_claims db) rs"
  shows "\<exists>db'. metrics_tx uuid grp rs db = Inr db'"
proof -
  obtain db1 first where m: "mark_inbox grp (map me_id rs) db = Inr (db1, first)"
    using mark_inbox_defined [of "map me_id rs" grp db] assms(2,3) by auto
  from mark_inbox_effect(1) [OF m] obtain box where db1: "db1 = db\<lparr>pd_inbox := box\<rparr>" by blast
  have inv: "claims_inv K first [] db1"
    using metrics_reach_inv [OF assms(1)] claims_inv_cong [of db1 db K first "{||}"] by (simp add: db1)
  show ?thesis
  proof (cases "rs = []")
    case True
    with m show ?thesis by (simp add: metrics_tx_def claimRecommendationCTREvents_def Let_def)
  next
    case False
    let ?rs = "sort_key me_occurred rs"
    let ?t = "day_of (me_occurred (hd ?rs))"
    have "made_since (md_claims db) (md_claims db) = Map.empty" by (auto simp: made_since_def)
    then have b: "batch_inv uuid K first (md_claims db) rs [] ?t db1"
      by (auto simp: batch_inv_def db1 claimed_by_def)
    have "\<forall>r \<in> set ?rs. ?t \<le> day_of (me_occurred r)"
    proof -
      have "sorted (map me_occurred ?rs)" by simp
      moreover have "?rs \<noteq> []" using False by (metis set_empty set_sort)
      ultimately have "\<forall>r \<in> set ?rs. me_occurred (hd ?rs) \<le> me_occurred r" by (cases ?rs) auto
      then show ?thesis by (auto simp: day_of_def go_second_def intro!: zdiv_mono1)
    qed
    from claim_records_progress [OF inv b _ _ assms(4) _ this] assms(2) obtain db2 es where
      "claim_records uuid first ?rs db1 = Inr (db2, es)" by auto
    with m show ?thesis by (simp add: metrics_tx_def claimRecommendationCTREvents_def Let_def)
  qed
qed

text \<open>
  C35. A batch goes through unless it contains an impression earlier than the day its opportunity
  is counted on together with a click of that opportunity, whose click is not claimed yet: no
  cohort is ever missing, and only the database itself can make the transaction fail.
\<close>

theorem metrics_batch_goes_through:
  assumes "metrics_reach uuid K db" "\<forall>r \<in> set rs. signed uuid K r \<and> NormalizeEventID (me_id r) \<noteq> None"
    and "trim_space grp \<noteq> []" "no_early_impression uuid (md_claims db) rs"
  shows "\<exists>db'. metrics_tx uuid grp rs db = Inr db'"
  using assms by (rule batch_progress)

section \<open>A batch that is refused although its events are not\<close>

definition sample_payload :: reco_payload where
  "sample_payload = empty_reco\<lparr>rb_user := 1, rb_post := 7, rb_request := ''q'', rb_scene := ''feed'', rb_position := 1,
     rb_ranker := ''v'', rb_hash := ''h'', rb_strategy := ''s'', rb_mode := ''ranked'', rb_received := 1\<rparr>"

definition sample_event :: "string \<Rightarrow> string \<Rightarrow> int \<Rightarrow> metric_event" where
  "sample_event i t occurred = \<lparr>me_id = i, me_type = t, me_occurred = occurred, me_payload = sample_payload,
     me_message = \<lparr>km_topic = ''t'', km_partition = 0, km_offset = 0, km_value = None\<rparr>, me_override = None\<rparr>"

definition sample_metrics :: metrics_db where
  "sample_metrics = \<lparr>pd_inbox = {||}, pd_behaviors = Map.empty, pd_dirty = Map.empty, md_claims = Map.empty, md_metrics = Map.empty\<rparr>"

text \<open>An impression of the third day; a click and then an impression of the second.\<close>

definition late_impression :: metric_event where
  "late_impression = sample_event ''e1'' EventTypeRecommendationImpression (3 * 24 * 60 * 60 * go_second)"
definition early_click :: metric_event where
  "early_click = sample_event ''e2'' EventTypeRecommendationClick (2 * 24 * 60 * 60 * go_second)"
definition early_impression :: metric_event where
  "early_impression = sample_event ''e3'' EventTypeRecommendationImpression (2 * 24 * 60 * 60 * go_second + 1)"

lemma sample_ids: "trim_space ''g'' = ''g''"
  "NormalizeEventID ''e1'' = Some ''e1''" "NormalizeEventID ''e2'' = Some ''e2''" "NormalizeEventID ''e3'' = Some ''e3''"
  by (simp_all add: NormalizeEventID_def trim_space_def strip_left_id space_runes_def ConsumerInboxEventIDMaxLength_def byte_def)

lemma sample_fields: "rb_user sample_payload = 1" "rb_request sample_payload = ''q''" "rb_post sample_payload = 7"
  by (simp_all add: sample_payload_def empty_reco_def)

lemma sample_reads:
  "me_id late_impression = ''e1''" "me_id early_click = ''e2''" "me_id early_impression = ''e3''"
  "me_type late_impression = EventTypeRecommendationImpression" "me_type early_click = EventTypeRecommendationClick"
  "me_type early_impression = EventTypeRecommendationImpression" "me_payload late_impression = sample_payload"
  "me_payload early_click = sample_payload" "me_payload early_impression = sample_payload"
  "me_occurred late_impression = 3 * 24 * 60 * 60 * go_second" "me_occurred early_click = 2 * 24 * 60 * 60 * go_second"
  "me_occurred early_impression = 2 * 24 * 60 * 60 * go_second + 1" "me_override late_impression = None"
  "me_override early_click = None" "me_override early_impression = None"
  by (simp_all add: late_impression_def early_click_def early_impression_def sample_event_def)

lemmas sample_claim_defs = claim_record_def insertRecommendationCTRClaim_def moveRecommendationCTRToEarlierImpression_def
  opportunity_of_def sample_reads sample_fields day_of_def go_second_def no_delta_def event_types Let_def

lemmas sample_inbox_defs = mark_inbox_def MarkInboxProcessedBatch_def insert_returning_def sample_ids Let_def

lemma sample_first:
  "\<exists>db1. metrics_tx Some ''g'' [late_impression] sample_metrics = Inr db1 \<and> md_claims db1 = [((1, ''q'', 7), ImpressionClaim) \<mapsto> 3] \<and>
     pd_inbox db1 = {|(''g'', ''e1'')|} \<and> md_metrics db1 (key_at sample_payload 3) = Some (no_delta\<lparr>ImpressionCount := 1\<rparr>)"
proof -
  let ?c3 = "[((1, ''q'', 7), ImpressionClaim) \<mapsto> 3]"
  have m1: "mark_inbox ''g'' [''e1''] sample_metrics = Inr (sample_metrics\<lparr>pd_inbox := {|(''g'', ''e1'')|}\<rparr>, {|''e1''|})"
    by (simp add: sample_inbox_defs sample_metrics_def) fastforce
  have c1: "claim_records Some {|''e1''|} [late_impression] (sample_metrics\<lparr>pd_inbox := {|(''g'', ''e1'')|}\<rparr>) =
      Inr (sample_metrics\<lparr>pd_inbox := {|(''g'', ''e1'')|}, md_claims := ?c3\<rparr>, [late_impression])"
    by (simp add: sample_claim_defs sample_metrics_def)
  show ?thesis
    using m1 c1
    by (simp add: metrics_tx_def claimRecommendationCTREvents_def sample_reads bulkUpsertRecommendationBehavior_def
        bulkUpsertRecommendationDailyMetrics_def aggregateRecommendationMetrics_def count_metric_def metric_key_of_def
        metricDeltaFor_def plus_delta_def no_delta_def event_types day_of_def go_second_def sample_metrics_def)
qed




section \<open>The consumer\<close>

lemma metrics_tx_marks:
  assumes "metrics_tx uuid grp rs db = Inr db'"
  shows "r \<in> set rs \<Longrightarrow> marked_event grp (me_id r) db'" "marked_event grp i db \<Longrightarrow> marked_event grp i db'"
proof -
  from assms obtain db1 first db2 es where m: "mark_inbox grp (map me_id rs) db = Inr (db1, first)"
    "claim_records uuid first (sort_key me_occurred rs) db1 = Inr (db2, es)" "pd_inbox db' = pd_inbox db2"
    by (rule metrics_tx_Inr)
  have "marked_event grp i db' = marked_event grp i db1" for i
    using m(3) claim_records_inbox [OF m(2)] by (simp add: marked_event_def in_inbox_def)
  with marked_after_inbox [OF m(1)] show "r \<in> set rs \<Longrightarrow> marked_event grp (me_id r) db'"
    "marked_event grp i db \<Longrightarrow> marked_event grp i db'" by auto
qed

lemma metrics_projection_reads [simp]:
  "pj_decode (metrics_projection uuid rfc3339 grp has_db) = decodeRecommendationMetricEvent uuid rfc3339"
  "pj_message (metrics_projection uuid rfc3339 grp has_db) = me_message" "pj_event (metrics_projection uuid rfc3339 grp has_db) = me_id"
  "pj_tx (metrics_projection uuid rfc3339 grp has_db) = metrics_tx uuid grp"
  "pj_consumer (metrics_projection uuid rfc3339 grp has_db) = ''recommendation_metrics''"
  by (simp_all add: metrics_projection_def)

lemma decoded_metric_message: "decodeRecommendationMetricEvent uuid rfc3339 m = Inr r \<Longrightarrow> me_message r = m"
  by (auto simp: decodeRecommendationMetricEvent_def split: sum.splits option.splits if_splits)

interpretation metrics: projection_effect "metrics_projection uuid rfc3339 grp has_db" "\<lambda>r. marked_event grp (me_id r)"
  for uuid rfc3339 grp has_db
  by unfold_locales
    (auto simp: metrics_tx_marks decoded_metric_message)

lemma metrics_round_effect:
  assumes fair: "metrics.fair grp env" and one: "one_per_offset (bf_messages f)"
    and ok: "metrics.committed_ok uuid rfc3339 grp has_db st"
    and run: "metrics_round uuid rfc3339 policy grp has_db env rpc f st = (st', e)"
  shows "metrics.committed_ok uuid rfc3339 grp has_db st'"
proof -
  let ?P = "metrics_projection uuid rfc3339 grp has_db"
  let ?ok = "metrics.committed_ok uuid rfc3339 grp has_db"
  obtain s d where p: "process_batch env policy ?P (bf_messages f) (fst st) = (s, d)" by fastforce
  note eff = metrics.process_batch_effect [OF fair one p]
  note m = metrics.meets_grows [OF fair, of s]
  have ok1: "?ok (s, snd st)" using metrics.committed_ok_grows [OF _ eff(1), of uuid rfc3339 has_db "snd st"] ok by simp
  have ok2: "?ok (meets env s, snd st)" by (rule metrics.committed_ok_grows [OF ok1 m])
  consider "st' = st" | "st' = (s, snd st)" | "st' = (meets env s, snd st)"
    | "d = None" "commit_messages env rpc f (meets env s, snd st) = (st', e)"
    using run p by (auto simp: metrics_round_def ctx_err_def split: option.splits if_splits)
  then show ?thesis
  proof cases
    case 4
    show ?thesis
      by (rule metrics.commit_effect [OF fair ok2 _ 4(2)]) (use eff(2) [OF 4(1)] metrics.settled_grows [OF m] in auto)
  qed (use ok ok1 ok2 in simp_all)
qed

text \<open>
  Every message whose offset the consumer committed is accounted for, whatever transactions
  failed or lost their answer, however the batches were cut and whatever the dead letter topic
  said: its event is in the inbox of the group, so it was applied in the same transaction; or a
  message that decodes to an event of its id is in the dead letter topic because a row it refers
  to is missing; or it cannot be decoded and is in the dead letter topic under the code of its failure.
\<close>

theorem committed_metrics_settled:
  assumes "consumeRecommendationMetricsMessages uuid rfc3339 policy grp has_db fs (s, []) = ((s', ms), e)"
    and "\<forall>(f, env, rpc) \<in> set fs. one_per_offset (bf_messages f) \<and>
      (\<forall>i db. pd_inbox db |\<subseteq>| pd_inbox (be_other env i db))"
    and "m \<in> set ms"
  shows "case decodeRecommendationMetricEvent uuid rfc3339 m of
      Inl err \<Rightarrow> \<exists>d. (m, d) \<in> set (bs_dlq s') \<and> dl_code d = kafkaFailureCode err
    | Inr r \<Rightarrow> (\<exists>eid. NormalizeEventID (me_id r) = Some eid \<and> (trim_space grp, eid) |\<in>| pd_inbox (bs_db s')) \<or>
        (\<exists>m' q d. decodeRecommendationMetricEvent uuid rfc3339 m' = Inr q \<and> me_id q = me_id r \<and> (m', d) \<in> set (bs_dlq s') \<and>
           dl_code d = ''database_foreign_key'')"
proof -
  have "metrics.committed_ok uuid rfc3339 grp has_db (s', ms)"
  proof (rule metrics.consume_effect [OF assms(1) [unfolded consumeRecommendationMetricsMessages_def]])
    show "metrics.committed_ok uuid rfc3339 grp has_db (s, [])" by (simp add: metrics.committed_ok_def)
    fix f env rpc x y d assume f: "(f, env, rpc) \<in> set fs" and ok: "metrics.committed_ok uuid rfc3339 grp has_db x"
      and run: "metrics_round uuid rfc3339 policy grp has_db env rpc f x = (y, d)"
    from f assms(2) have "one_per_offset (bf_messages f)" "metrics.fair grp env"
      by (fastforce simp: metrics.fair_def marked_event_def in_inbox_def)+
    from metrics_round_effect [OF this(2,1) ok run] show "metrics.committed_ok uuid rfc3339 grp has_db y" .
  qed
  with assms(3) have "metrics.settled uuid rfc3339 grp has_db s' m" by (simp add: metrics.committed_ok_def)
  then show ?thesis
    by (auto simp: metrics.settled_def metrics.handled_def marked_event_def in_inbox_def split: sum.splits)
qed

section \<open>Witnesses\<close>

lemma sample_signed: "signed Some (\<lambda>_. key_at sample_payload) late_impression"
  "signed Some (\<lambda>_. key_at sample_payload) early_click" "signed Some (\<lambda>_. key_at sample_payload) early_impression"
  by (simp_all add: signed_def sample_reads)

lemma sample_reach: "metrics_reach uuid K sample_metrics"
  by (rule mr_start) (simp_all add: sample_metrics_def)

theorem daily_rows_count_opportunities_witness:
  "\<exists>db :: metrics_db. row_count ImpressionClaim (md_metrics db) (key_at sample_payload 3) = 1 \<and>
     row_count ClickClaim (md_metrics db) (key_at sample_payload 3) \<le> row_count ImpressionClaim (md_metrics db) (key_at sample_payload 3)"
proof -
  obtain db1 where d: "metrics_tx Some ''g'' [late_impression] sample_metrics = Inr db1"
    "md_metrics db1 (key_at sample_payload 3) = Some (no_delta\<lparr>ImpressionCount := 1\<rparr>)" using sample_first by blast
  have "metrics_reach Some (\<lambda>_. key_at sample_payload) db1"
    by (rule mr_batch [OF sample_reach _ d(1)]) (simp add: sample_signed)
  from daily_rows_count_opportunities [OF this, of "key_at sample_payload 3"] d(2)
  show ?thesis by (intro exI [of _ db1]) (simp add: row_count_def counter_def no_delta_def)
qed


theorem redelivered_metrics_change_nothing_witness:
  "\<exists>db. in_inbox ''g'' ''e1'' db \<and> metrics_tx Some ''g'' [late_impression, late_impression] db = Inr db"
proof -
  obtain db1 where d: "metrics_tx Some ''g'' [late_impression] sample_metrics = Inr db1" "pd_inbox db1 = {|(''g'', ''e1'')|}"
    using sample_first by blast
  from redelivered_metrics_change_nothing [OF d(1), of "[late_impression, late_impression]"] d(2)
  show ?thesis by (intro exI [of _ db1]) (simp add: in_inbox_def sample_ids)
qed

theorem opportunity_day_is_earliest_witness:
  "\<exists>(db :: metrics_db) day. day \<le> 3 \<and> md_claims db ((1, ''q'', 7), ImpressionClaim) = Some day"
proof -
  obtain db1 where d: "metrics_tx Some ''g'' [late_impression] sample_metrics = Inr db1" using sample_first by blast
  from opportunity_day_is_earliest [OF d, of _ _ late_impression]
  have "\<exists>day \<le> day_of (me_occurred late_impression). md_claims db1 (opportunity_of Some (me_payload late_impression), ImpressionClaim) = Some day"
    by (simp add: sample_reads sample_ids in_inbox_def sample_metrics_def)
  then show ?thesis by (auto simp: sample_reads sample_fields opportunity_of_def day_of_def go_second_def)
qed

theorem metrics_batch_goes_through_witness:
  "\<exists>db. metrics_tx Some ''g'' [early_click, early_impression] sample_metrics = Inr db"
  by (rule metrics_batch_goes_through [OF sample_reach [of Some "\<lambda>_. key_at sample_payload"]])
    (simp_all add: sample_signed sample_reads sample_ids no_early_impression_def sample_metrics_def)

definition sample_batch_env :: "metrics_db batch_env" where
  "sample_batch_env = \<lparr>be_ctx = \<lambda>_. None, be_retry_ctx = \<lambda>_ _. None, be_write = \<lambda>_. WriteOk, be_other = \<lambda>_ db. db,
     be_parent = \<lambda>_ _ _. Inr True, be_dlq = \<lambda>_. Some (\<lambda>_. None), be_build = \<lambda>_ _. None\<rparr>"

definition sample_garbage :: kafka_message where
  "sample_garbage = \<lparr>km_topic = ''t'', km_partition = 0, km_offset = 4, km_value = None\<rparr>"

theorem committed_metrics_settled_witness:
  "\<exists>s' d. consumeRecommendationMetricsMessages Some (\<lambda>_. None) defaultKafkaRetryPolicy ''g'' True
      [(\<lparr>bf_messages = [sample_garbage], bf_terminal = None, bf_ctx = None\<rparr>, sample_batch_env, CommitOk)]
      (\<lparr>bs_calls = 0, bs_db = sample_metrics, bs_dlq = []\<rparr>, []) = ((s', [sample_garbage]), None) \<and>
    (sample_garbage, d) \<in> set (bs_dlq s') \<and> dl_code d = ''decode_envelope''"
proof -
  let ?fs = "[(\<lparr>bf_messages = [sample_garbage], bf_terminal = None, bf_ctx = None\<rparr>, sample_batch_env, CommitOk)]"
  have dec: "decodeRecommendationMetricEvent Some (\<lambda>_. None) sample_garbage =
      Inl (ProcessErr Permanent ''decode_envelope'' ''decode event envelope'')"
    by (simp add: decodeRecommendationMetricEvent_def DecodeEnvelope_def sample_garbage_def)
  obtain s' where run: "consumeRecommendationMetricsMessages Some (\<lambda>_. None) defaultKafkaRetryPolicy ''g'' True ?fs
      (\<lparr>bs_calls = 0, bs_db = sample_metrics, bs_dlq = []\<rparr>, []) = ((s', [sample_garbage]), None)"
    by (simp add: consumeRecommendationMetricsMessages_def metrics_round_def process_batch_def classify_batch_def dec
        ctx_err_def dead_letter_of_def publishConsumerDLQ_def deadLetterFailure_def commit_messages_def meets_def
        sample_batch_env_def Let_def)
  from committed_metrics_settled [OF run, of sample_garbage] dec run
  show ?thesis by (auto simp: one_per_offset_def sample_batch_env_def)
qed

end
