(* ===== verification/BehaviorProjection.thy ===== *)
theory BehaviorProjection
  imports BehaviorRows "HOL-Library.Product_Lexorder"
begin

text \<open>
  The projection of views, likes and unlikes (\<open>tasks/user_behavior_consumer.go\<close>): rows of
  behaviour, view counts of posts, the reaction of every user to every post behind a gate of
  versions, one activity event for every reaction that passes the pass_gate, and the profiles that
  become dirty, in one transaction with the inbox.
\<close>

section \<open>Events\<close>

record user_behavior_payload =
  bp_user :: nat
  bp_post :: nat
  bp_action :: string
  bp_source :: string
  bp_version :: int

definition empty_behavior :: user_behavior_payload where
  "empty_behavior = \<lparr>bp_user = 0, bp_post = 0, bp_action = '''', bp_source = '''', bp_version = 0\<rparr>"

fun behavior_fields :: "(string \<times> json) list \<Rightarrow> user_behavior_payload \<Rightarrow> user_behavior_payload option" where
  "behavior_fields [] p = Some p"
| "behavior_fields ((n, v) # fs) p =
     (if fold_name n = ''user_id'' then
        (case uint_field v (bp_user p) of None \<Rightarrow> None | Some i \<Rightarrow> behavior_fields fs (p\<lparr>bp_user := i\<rparr>))
      else if fold_name n = ''post_id'' then
        (case uint_field v (bp_post p) of None \<Rightarrow> None | Some i \<Rightarrow> behavior_fields fs (p\<lparr>bp_post := i\<rparr>))
      else if fold_name n = ''action'' then
        (case unmarshal_string v (bp_action p) of None \<Rightarrow> None | Some s \<Rightarrow> behavior_fields fs (p\<lparr>bp_action := s\<rparr>))
      else if fold_name n = ''source'' then
        (case unmarshal_string v (bp_source p) of None \<Rightarrow> None | Some s \<Rightarrow> behavior_fields fs (p\<lparr>bp_source := s\<rparr>))
      else if fold_name n = ''like_version'' then
        (case int64_field v (bp_version p) of None \<Rightarrow> None | Some i \<Rightarrow> behavior_fields fs (p\<lparr>bp_version := i\<rparr>))
      else behavior_fields fs p)"

fun unmarshal_behavior :: "json \<Rightarrow> user_behavior_payload option" where
  "unmarshal_behavior (JObject fs) = behavior_fields fs empty_behavior"
| "unmarshal_behavior JNull = Some empty_behavior"
| "unmarshal_behavior _ = None"

definition EventTypePostViewed :: string where "EventTypePostViewed = ''post.viewed''"
definition EventTypePostLiked :: string where "EventTypePostLiked = ''post.liked''"
definition EventTypePostUnliked :: string where "EventTypePostUnliked = ''post.unliked''"

lemmas behavior_types = EventTypePostViewed_def EventTypePostLiked_def EventTypePostUnliked_def

record behavior_event =
  ub_id :: string
  ub_type :: string
  ub_occurred :: int
  ub_payload :: user_behavior_payload
  ub_message :: kafka_message

definition isUserBehaviorEvent :: "string \<Rightarrow> bool" where
  "isUserBehaviorEvent t \<longleftrightarrow> t = EventTypePostViewed \<or> t = EventTypePostLiked \<or> t = EventTypePostUnliked"

definition decodeUserBehaviorMessage :: "kafka_message \<Rightarrow> kafka_error + behavior_event" where
  "decodeUserBehaviorMessage m =
     (case DecodeEnvelope (km_value m) of
        Inl e \<Rightarrow> Inl (ProcessErr Permanent ''decode_envelope'' e)
      | Inr ev \<Rightarrow>
         (if \<not> isUserBehaviorEvent (ev_type ev)
          then Inl (ProcessErr Permanent ''unsupported_event_type'' (ev_type ev))
          else if ev_schema ev \<noteq> 1
          then Inl (ProcessErr Permanent ''unsupported_schema'' (show_int (ev_schema ev)))
          else
            (case unmarshal_behavior (ev_payload ev) of
               None \<Rightarrow> Inl (ProcessErr Permanent ''decode_payload'' '''')
             | Some p \<Rightarrow>
                (if bp_user p = 0 \<or> bp_post p = 0
                 then Inl (ProcessErr Permanent ''invalid_payload'' ''user behavior payload requires user_id and post_id'')
                 else if (ev_type ev = EventTypePostLiked \<or> ev_type ev = EventTypePostUnliked) \<and> bp_version p \<le> 0
                 then Inl (ProcessErr Permanent ''invalid_payload'' ''like behavior payload requires positive like_version'')
                 else Inr \<lparr>ub_id = ev_id ev, ub_type = ev_type ev, ub_occurred = ev_occurred ev, ub_payload = p, ub_message = m\<rparr>))))"

definition userBehaviorForeignKeyIsPermanentForRecord :: "behavior_event \<Rightarrow> string \<Rightarrow> bool" where
  "userBehaviorForeignKeyIsPermanentForRecord r constraint \<longleftrightarrow>
     (if ub_type r = EventTypePostViewed
      then constraint \<in> {''fk_post_behaviors_user'', ''fk_post_behaviors_post'', ''fk_user_reco_profile_dirty_user''}
      else if ub_type r = EventTypePostLiked \<or> ub_type r = EventTypePostUnliked
      then constraint \<in> {''fk_post_reaction_user'', ''fk_post_reaction_post'', ''fk_user_reco_profile_dirty_user''}
      else False)"

section \<open>The tables\<close>

type_synonym user_post = "nat \<times> nat"

record post_row =
  po_author :: nat
  po_views :: int
  po_deleted :: bool

record reaction_row =
  rx_liked :: bool
  rx_version :: int
  rx_changed :: int

text \<open>The payload of an activity event in the outbox; its id is a fresh UUID.\<close>

record reaction_activity =
  ac_pair :: user_post
  ac_author :: nat
  ac_liked :: bool
  ac_version :: int
  ac_changed :: int

text \<open>\<open>rd_now\<close> is the clock, which others advance.\<close>

record reactions_db = projection_db +
  rd_posts :: "nat \<rightharpoonup> post_row"
  rd_reactions :: "user_post \<rightharpoonup> reaction_row"
  rd_activities :: "reaction_activity list"
  rd_now :: int

definition reacting_pair :: "behavior_event \<Rightarrow> user_post" where
  "reacting_pair r = (bp_user (ub_payload r), bp_post (ub_payload r))"

definition userBehaviorOccurredAt :: "int \<Rightarrow> int \<Rightarrow> int" where
  "userBehaviorOccurredAt now occurred = (if occurred = EmbeddingBatch.zero_time then now else occurred)"

section \<open>Views\<close>

definition is_view :: "string fset \<Rightarrow> behavior_event \<Rightarrow> bool" where
  "is_view first r \<longleftrightarrow> ub_type r = EventTypePostViewed \<and> ub_id r |\<in>| first"

definition aggregateUserBehaviorViews :: "int \<Rightarrow> behavior_event list \<Rightarrow> string fset \<Rightarrow> (behavior_key \<rightharpoonup> int \<times> int)" where
  "aggregateUserBehaviorViews now records first =
     fold (\<lambda>r rows. if is_view first r
        then count_behavior (bp_user (ub_payload r), bp_post (ub_payload r), ''view'') (userBehaviorOccurredAt now (ub_occurred r)) rows
        else rows) records Map.empty"

definition bulkUpsertPostViewBehavior :: "(behavior_key \<rightharpoonup> int \<times> int) \<Rightarrow> reactions_db \<Rightarrow> reactions_db" where
  "bulkUpsertPostViewBehavior rows db = db\<lparr>pd_behaviors := add_behaviors rows (pd_behaviors db)\<rparr>"

definition aggregatePostViewCountDeltas :: "behavior_event list \<Rightarrow> string fset \<Rightarrow> nat \<Rightarrow> int" where
  "aggregatePostViewCountDeltas records first post =
     int (length (filter (\<lambda>r. is_view first r \<and> bp_post (ub_payload r) \<noteq> 0 \<and> bp_post (ub_payload r) = post) records))"

text \<open>The model of a post has a time of deletion, so gorm leaves deleted posts alone.\<close>

definition bulkIncrementPostViewCounts :: "(nat \<Rightarrow> int) \<Rightarrow> reactions_db \<Rightarrow> reactions_db" where
  "bulkIncrementPostViewCounts deltas db = db\<lparr>rd_posts := (\<lambda>post.
     case rd_posts db post of
       None \<Rightarrow> None
     | Some row \<Rightarrow> Some (if po_deleted row then row else row\<lparr>po_views := po_views row + deltas post\<rparr>))\<rparr>"

section \<open>Reactions\<close>

record reaction_candidate =
  cd_pair :: user_post
  cd_liked :: bool
  cd_version :: int
  cd_occurred :: int

definition candidate_of :: "behavior_event \<Rightarrow> reaction_candidate" where
  "candidate_of r = \<lparr>cd_pair = reacting_pair r, cd_liked = (ub_type r = EventTypePostLiked),
     cd_version = bp_version (ub_payload r), cd_occurred = ub_occurred r\<rparr>"

text \<open>Of the candidates of a pair the newest stays; of equally new ones the first.\<close>

fun collapse_into :: "reaction_candidate \<Rightarrow> reaction_candidate list \<Rightarrow> reaction_candidate list" where
  "collapse_into c [] = [c]"
| "collapse_into c (d # ds) =
     (if cd_pair d = cd_pair c then (if cd_version c > cd_version d then c else d) # ds
      else d # collapse_into c ds)"

definition is_reaction :: "string fset \<Rightarrow> behavior_event \<Rightarrow> bool" where
  "is_reaction first r \<longleftrightarrow> (ub_type r = EventTypePostLiked \<or> ub_type r = EventTypePostUnliked) \<and> ub_id r |\<in>| first"

definition collapseUserBehaviorReactions :: "behavior_event list \<Rightarrow> string fset \<Rightarrow> reaction_candidate list" where
  "collapseUserBehaviorReactions records first =
     sort_key cd_pair (fold collapse_into (map candidate_of (filter (is_reaction first) records)) [])"

text \<open>The gate of versions: a row is inserted, or replaced by a newer one, or left alone.\<close>

definition reaction_of :: "int \<Rightarrow> reaction_candidate \<Rightarrow> reaction_row" where
  "reaction_of now c = \<lparr>rx_liked = cd_liked c, rx_version = cd_version c, rx_changed = userBehaviorOccurredAt now (cd_occurred c)\<rparr>"

definition passes :: "reaction_row option \<Rightarrow> reaction_candidate \<Rightarrow> bool" where
  "passes row c \<longleftrightarrow> (case row of None \<Rightarrow> True | Some r \<Rightarrow> rx_version r < cd_version c)"

text \<open>
  The statement, candidate after candidate. PostgreSQL refuses one with two candidates of a pair;
  a collapsed list has none (\<open>collapsed_distinct\<close>).
\<close>

fun upsert_reactions :: "int \<Rightarrow> reaction_candidate list \<Rightarrow> (user_post \<rightharpoonup> reaction_row) \<Rightarrow>
    (user_post \<rightharpoonup> reaction_row) \<times> reaction_candidate list" where
  "upsert_reactions now [] table = (table, [])"
| "upsert_reactions now (c # cs) table =
     (if passes (table (cd_pair c)) c
      then (case upsert_reactions now cs (table(cd_pair c \<mapsto> reaction_of now c)) of (t, applied) \<Rightarrow> (t, c # applied))
      else upsert_reactions now cs table)"

definition bulkUpsertPostReactionsReturningApplied ::
  "reaction_candidate list \<Rightarrow> reactions_db \<Rightarrow> reactions_db \<times> reaction_candidate list" where
  "bulkUpsertPostReactionsReturningApplied cs db =
     (case upsert_reactions (rd_now db) cs (rd_reactions db) of (t, applied) \<Rightarrow> (db\<lparr>rd_reactions := t\<rparr>, applied))"

definition bulkUpsertPostReactions :: "reaction_candidate list \<Rightarrow> reactions_db \<Rightarrow> reactions_db" where
  "bulkUpsertPostReactions cs db = db\<lparr>rd_reactions := fst (upsert_reactions (rd_now db) cs (rd_reactions db))\<rparr>"

definition applyPostReactionProjection :: "behavior_event \<Rightarrow> reactions_db \<Rightarrow> reactions_db" where
  "applyPostReactionProjection r db =
     (if ub_type r \<noteq> EventTypePostLiked \<and> ub_type r \<noteq> EventTypePostUnliked then db
      else if bp_version (ub_payload r) \<le> 0 then db
      else bulkUpsertPostReactions [candidate_of r] db)"

definition activity_of :: "(nat \<rightharpoonup> post_row) \<Rightarrow> int \<Rightarrow> reaction_candidate \<Rightarrow> reaction_activity" where
  "activity_of rows now c =
     \<lparr>ac_pair = cd_pair c, ac_author = (case rows (snd (cd_pair c)) of None \<Rightarrow> 0 | Some row \<Rightarrow> po_author row),
      ac_liked = cd_liked c, ac_version = cd_version c, ac_changed = userBehaviorOccurredAt now (cd_occurred c)\<rparr>"

definition valid_activity :: "reaction_activity \<Rightarrow> bool" where
  "valid_activity a \<longleftrightarrow> fst (ac_pair a) \<noteq> 0 \<and> snd (ac_pair a) \<noteq> 0 \<and> ac_author a \<noteq> 0 \<and> ac_version a > 0 \<and>
     ac_changed a \<noteq> EmbeddingBatch.zero_time"

definition appendAppliedReactionActivities ::
  "string \<Rightarrow> reaction_candidate list \<Rightarrow> reactions_db \<Rightarrow> pg_error + reactions_db" where
  "appendAppliedReactionActivities topic applied db =
     (if applied = [] then Inr db
      else if trim_space topic = '''' then Inl (DatabaseError ''Kafka activity events topic is not configured'')
      else
        (let activities = map (activity_of (rd_posts db) (rd_now db)) applied
         in if list_all valid_activity activities then Inr (db\<lparr>rd_activities := rd_activities db @ activities\<rparr>)
            else Inl (DatabaseError ''post author is missing for reaction activity'')))"

section \<open>The transaction and the consumer\<close>

definition userBehaviorProfileInvalidationUsers :: "behavior_event list \<Rightarrow> string fset \<Rightarrow> nat set" where
  "userBehaviorProfileInvalidationUsers records first =
     set (map (\<lambda>r. bp_user (ub_payload r))
       (filter (\<lambda>r. ub_id r |\<in>| first \<and> bp_user (ub_payload r) \<noteq> 0 \<and> bp_post (ub_payload r) \<noteq> 0 \<and>
          isUserBehaviorEvent (ub_type r)) records))"

definition behavior_tx :: "string \<Rightarrow> string \<Rightarrow> behavior_event list \<Rightarrow> reactions_db \<Rightarrow> pg_error + reactions_db" where
  "behavior_tx topic grp records db =
     (case mark_inbox grp (map ub_id records) db of
        Inl e \<Rightarrow> Inl e
      | Inr (db, first) \<Rightarrow>
         (let db = bulkUpsertPostViewBehavior (aggregateUserBehaviorViews (rd_now db) records first) db;
              db = bulkIncrementPostViewCounts (aggregatePostViewCountDeltas records first) db
          in case bulkUpsertPostReactionsReturningApplied (collapseUserBehaviorReactions records first) db of
               (db, applied) \<Rightarrow>
                 (case appendAppliedReactionActivities topic applied db of
                    Inl e \<Rightarrow> Inl e
                  | Inr db \<Rightarrow>
                     Inr (db\<lparr>pd_dirty := InvalidateProfiles (userBehaviorProfileInvalidationUsers records first) (pd_dirty db)\<rparr>))))"

definition behavior_projection :: "string \<Rightarrow> string \<Rightarrow> bool \<Rightarrow> (behavior_event, reactions_db) projection" where
  "behavior_projection topic grp has_db =
     \<lparr>pj_consumer = ''user_behavior_projection'', pj_group = grp, pj_has_db = has_db,
      pj_decode = decodeUserBehaviorMessage, pj_message = ub_message, pj_event = ub_id,
      pj_user = (\<lambda>r. bp_user (ub_payload r)), pj_post = (\<lambda>r. bp_post (ub_payload r)),
      pj_tx = behavior_tx topic grp,
      pj_allowed = [''fk_post_behaviors_user'', ''fk_post_behaviors_post'', ''fk_post_reaction_user'', ''fk_post_reaction_post'',
        ''fk_user_reco_profile_dirty_user''],
      pj_permanent = userBehaviorForeignKeyIsPermanentForRecord\<rparr>"

definition processUserBehaviorBatch where
  "processUserBehaviorBatch topic grp has_db policy env = process_batch env policy (behavior_projection topic grp has_db)"

definition consumeUserBehaviorMessages where
  "consumeUserBehaviorMessages topic grp has_db policy =
     consume_batches (\<lambda>env. finishKafkaBatch env (processUserBehaviorBatch topic grp has_db policy env))"

section \<open>Batches of reactions and single ones\<close>

definition pass_gate :: "int \<Rightarrow> reaction_candidate \<Rightarrow> reaction_row option \<Rightarrow> reaction_row option" where
  "pass_gate now c row = (if passes row c then Some (reaction_of now c) else row)"

definition newer :: "reaction_candidate \<Rightarrow> reaction_candidate \<Rightarrow> reaction_candidate" where
  "newer c d = (if cd_version c > cd_version d then c else d)"

definition pick :: "reaction_candidate \<Rightarrow> reaction_candidate option \<Rightarrow> reaction_candidate option" where
  "pick c best = Some (case best of None \<Rightarrow> c | Some d \<Rightarrow> newer c d)"

lemma gate_gate: "pass_gate now c (pass_gate now d row) = pass_gate now (newer c d) row"
  by (auto simp: pass_gate_def newer_def passes_def reaction_of_def split: option.splits)

lemma fold_gate: "fold (pass_gate now) cs row = (case fold pick cs None of None \<Rightarrow> row | Some c \<Rightarrow> pass_gate now c row)"
proof -
  have *: "fold (pass_gate now) cs (pass_gate now d row) = (case fold pick cs (Some d) of None \<Rightarrow> row | Some c \<Rightarrow> pass_gate now c row)" for cs d
    by (induction cs arbitrary: d) (simp_all add: gate_gate pick_def)
  show ?thesis by (cases cs) (simp_all add: * pick_def)
qed

lemma upsert_reactions_row:
  "fst (upsert_reactions now cs table) pair = fold (pass_gate now) (filter (\<lambda>c. cd_pair c = pair) cs) (table pair)"
proof (induction cs arbitrary: table)
  case (Cons c cs)
  have head: "fst (upsert_reactions now (c # cs) table) =
      fst (upsert_reactions now cs (if passes (table (cd_pair c)) c then table(cd_pair c \<mapsto> reaction_of now c) else table))"
    by (simp split: prod.splits)
  show ?case
    unfolding head Cons.IH by (cases "cd_pair c = pair") (auto simp: pass_gate_def [of now c])
qed simp

definition look :: "user_post \<Rightarrow> reaction_candidate list \<Rightarrow> reaction_candidate option" where
  "look pair ds = find (\<lambda>d. cd_pair d = pair) ds"

lemma collapse_into_pairs: "set (map cd_pair (collapse_into c ds)) = insert (cd_pair c) (set (map cd_pair ds))"
  by (induction c ds rule: collapse_into.induct) auto

lemma collapse_into_distinct: "distinct (map cd_pair ds) \<Longrightarrow> distinct (map cd_pair (collapse_into c ds))"
proof (induction c ds rule: collapse_into.induct)
  case (2 c d ds)
  show ?case
  proof (cases "cd_pair d = cd_pair c")
    case True
    with 2 show ?thesis by auto
  next
    case False
    with 2 have "distinct (map cd_pair (collapse_into c ds))" by simp
    moreover have "cd_pair d \<notin> set (map cd_pair (collapse_into c ds))"
      using 2 False unfolding collapse_into_pairs by simp
    ultimately show ?thesis using False by simp
  qed
qed simp

lemma look_collapse_into: "look pair (collapse_into c ds) = (if pair = cd_pair c then pick c (look pair ds) else look pair ds)"
  by (induction c ds rule: collapse_into.induct) (auto simp: look_def pick_def newer_def)

lemma look_filter: "distinct (map cd_pair ds) \<Longrightarrow> filter (\<lambda>c. cd_pair c = pair) ds = (case look pair ds of None \<Rightarrow> [] | Some d \<Rightarrow> [d])"
proof (induction ds)
  case (Cons d ds)
  show ?case
  proof (cases "cd_pair d = pair")
    case True
    with Cons.prems have "filter (\<lambda>c. cd_pair c = pair) ds = []" by (auto simp: filter_empty_conv image_iff)
    with True show ?thesis by (simp add: look_def)
  next
    case False
    with Cons show ?thesis by (simp add: look_def)
  qed
qed (simp add: look_def)

lemma collapse_fold:
  assumes "distinct (map cd_pair ds)"
  shows "distinct (map cd_pair (fold collapse_into cs ds))"
    "look pair (fold collapse_into cs ds) = fold pick (filter (\<lambda>c. cd_pair c = pair) cs) (look pair ds)"
  using assms by (induction cs arbitrary: ds) (auto simp: collapse_into_distinct look_collapse_into)

lemma collapsed_pair:
  "filter (\<lambda>c. cd_pair c = pair) (sort_key cd_pair (fold collapse_into cs [])) =
     (case fold pick (filter (\<lambda>c. cd_pair c = pair) cs) None of None \<Rightarrow> [] | Some c \<Rightarrow> [c])"
  using look_filter [OF collapse_fold(1) [of "[]" cs], of pair] collapse_fold(2) [of "[]" pair cs]
  by (simp add: filter_sort look_def split: option.splits)

lemma collapsed_distinct: "distinct (map cd_pair (collapseUserBehaviorReactions records first))"
  using collapse_fold(1) [of "[]" "map candidate_of (filter (is_reaction first) records)"]
  by (simp add: collapseUserBehaviorReactions_def distinct_map)

text \<open>
  C36. A batch leaves the reactions as its events would one after the other: collapsing the
  reactions of a batch to the newest of each pair and passing them through the gate in one
  statement is the same as applying each new event on its own in the order of the batch.
\<close>

theorem batched_reactions_as_one_by_one:
  assumes "\<forall>r \<in> set records. is_reaction first r \<longrightarrow> 0 < bp_version (ub_payload r)"
  shows "rd_reactions (fst (bulkUpsertPostReactionsReturningApplied (collapseUserBehaviorReactions records first) db)) =
    rd_reactions (fold applyPostReactionProjection (filter (\<lambda>r. ub_id r |\<in>| first) records) db)"
proof
  fix pair
  let ?cs = "map candidate_of (filter (is_reaction first) records)"
  let ?one = "\<lambda>rs db. fold applyPostReactionProjection (filter (\<lambda>r. ub_id r |\<in>| first) rs) db"
  have one: "rd_reactions (?one rs db) pair =
      fold (pass_gate (rd_now db)) (filter (\<lambda>c. cd_pair c = pair) (map candidate_of (filter (is_reaction first) rs))) (rd_reactions db pair) \<and>
      rd_now (?one rs db) = rd_now db"
    if "\<forall>r \<in> set rs. is_reaction first r \<longrightarrow> 0 < bp_version (ub_payload r)" for rs db
    using that
  proof (induction rs arbitrary: db)
    case (Cons r rs)
    have c: "cd_pair (candidate_of r) = reacting_pair r" by (simp add: candidate_of_def)
    show ?case
    proof (cases "is_reaction first r")
      case True
      let ?db = "applyPostReactionProjection r db"
      have now: "rd_now ?db = rd_now db"
        by (simp add: applyPostReactionProjection_def bulkUpsertPostReactions_def)
      have "rd_reactions ?db pair = (if reacting_pair r = pair then pass_gate (rd_now db) (candidate_of r) (rd_reactions db pair) else rd_reactions db pair)"
        using True Cons.prems c
        by (auto simp: applyPostReactionProjection_def bulkUpsertPostReactions_def is_reaction_def pass_gate_def)
      with Cons.IH [of ?db] Cons.prems True now c show ?thesis by (simp add: is_reaction_def)
    next
      case False
      then have "ub_id r |\<in>| first \<Longrightarrow> applyPostReactionProjection r db = db"
        by (simp add: applyPostReactionProjection_def is_reaction_def)
      with Cons False show ?thesis by simp
    qed
  qed simp
  have "rd_reactions (fst (bulkUpsertPostReactionsReturningApplied (collapseUserBehaviorReactions records first) db)) pair =
      fold (pass_gate (rd_now db)) (filter (\<lambda>c. cd_pair c = pair) (collapseUserBehaviorReactions records first)) (rd_reactions db pair)"
    by (simp add: bulkUpsertPostReactionsReturningApplied_def upsert_reactions_row [symmetric] split: prod.splits)
  also have "\<dots> = fold (pass_gate (rd_now db)) (filter (\<lambda>c. cd_pair c = pair) ?cs) (rd_reactions db pair)"
    unfolding collapseUserBehaviorReactions_def collapsed_pair fold_gate [of _ "filter _ ?cs"] by (simp split: option.splits)
  finally show "rd_reactions (fst (bulkUpsertPostReactionsReturningApplied (collapseUserBehaviorReactions records first) db)) pair =
      rd_reactions (?one records db) pair"
    using one [OF assms] by simp
qed

section \<open>Reactions and their activities\<close>

definition row_of :: "reaction_activity \<Rightarrow> reaction_row" where
  "row_of a = \<lparr>rx_liked = ac_liked a, rx_version = ac_version a, rx_changed = ac_changed a\<rparr>"

definition announced :: "reaction_activity list \<Rightarrow> reaction_row option \<Rightarrow> bool" where
  "announced own row \<longleftrightarrow> sorted_wrt (<) (map ac_version own) \<and> row = (if own = [] then None else Some (row_of (last own)))"

abbreviation activities_of :: "user_post \<Rightarrow> reaction_activity list \<Rightarrow> reaction_activity list" where
  "activities_of pair \<equiv> filter (\<lambda>a. ac_pair a = pair)"

lemma announced_snoc:
  assumes "announced own row" "passes row c"
  shows "announced (own @ [activity_of rows now c]) (Some (reaction_of now c))"
proof -
  have "ac_version a < cd_version c" if "a \<in> set own" for a
  proof (cases own rule: rev_cases)
    case (snoc old b)
    with assms that show ?thesis
      by (auto simp: announced_def sorted_wrt_append passes_def row_of_def)
  qed (use that in simp)
  with assms(1) show ?thesis
    by (auto simp: announced_def sorted_wrt_append activity_of_def reaction_of_def row_of_def)
qed

lemma upsert_announced:
  assumes "upsert_reactions now cs table = (t, applied)" "announced (activities_of pair old) (table pair)"
  shows "announced (activities_of pair (old @ map (activity_of rows now) applied)) (t pair)"
  using assms
proof (induction cs arbitrary: table t applied old)
  case (Cons c cs)
  have pair: "ac_pair (activity_of rows now c) = cd_pair c" by (simp add: activity_of_def)
  show ?case
  proof (cases "passes (table (cd_pair c)) c")
    case True
    with Cons.prems(1) obtain more where more: "applied = c # more"
      "upsert_reactions now cs (table(cd_pair c \<mapsto> reaction_of now c)) = (t, more)" by (auto split: prod.splits)
    have "announced (activities_of pair (old @ [activity_of rows now c])) ((table(cd_pair c \<mapsto> reaction_of now c)) pair)"
      using Cons.prems(2) True announced_snoc [of _ "table pair" c rows now] by (auto simp: pair)
    from Cons.IH [OF more(2) this] more(1) show ?thesis by simp
  next
    case False
    with Cons show ?thesis by simp
  qed
qed simp

inductive reaction_reach :: "reactions_db \<Rightarrow> bool" where
  rr_start: "rd_activities db = [] \<Longrightarrow> rd_reactions db = Map.empty \<Longrightarrow> reaction_reach db"
| rr_batch: "reaction_reach db \<Longrightarrow> behavior_tx topic grp records db = Inr db' \<Longrightarrow> reaction_reach db'"
| rr_other: "reaction_reach db \<Longrightarrow> rd_reactions db' = rd_reactions db \<Longrightarrow> rd_activities db' = rd_activities db \<Longrightarrow> reaction_reach db'"

lemma behavior_tx_Inr:
  assumes "behavior_tx topic grp records db = Inr db'"
  obtains db1 first t applied where "mark_inbox grp (map ub_id records) db = Inr (db1, first)"
    "upsert_reactions (rd_now db1) (collapseUserBehaviorReactions records first) (rd_reactions db1) = (t, applied)"
    "rd_reactions db' = t" "pd_inbox db' = pd_inbox db1"
    "rd_activities db' = rd_activities db1 @ map (activity_of (rd_posts db') (rd_now db1)) applied"
    "list_all valid_activity (map (activity_of (rd_posts db') (rd_now db1)) applied)"
    "pd_behaviors db' = add_behaviors (aggregateUserBehaviorViews (rd_now db1) records first) (pd_behaviors db1)"
    "rd_posts db' = rd_posts (bulkIncrementPostViewCounts (aggregatePostViewCountDeltas records first) db1)"
  using assms
  by (auto simp: behavior_tx_def Let_def bulkUpsertPostReactionsReturningApplied_def appendAppliedReactionActivities_def
      bulkUpsertPostViewBehavior_def bulkIncrementPostViewCounts_def split: sum.splits prod.splits if_splits)

lemma mark_inbox_reactions:
  assumes "mark_inbox grp ids db = Inr (db1, first)"
  shows "rd_reactions db1 = rd_reactions db" "rd_activities db1 = rd_activities db" "rd_posts db1 = rd_posts db"
    "rd_now db1 = rd_now db" "pd_behaviors db1 = pd_behaviors db"
  using mark_inbox_effect(1) [OF assms] by auto

text \<open>
  C37. The activities in the outbox are the history of the reactions: for every user and post their
  versions strictly increase, the row of the table is what the last of them says, and there is a
  row exactly when there is one. Each has a user, a post, an author, a positive version and a time.
\<close>

theorem activities_are_the_history_of_reactions:
  assumes "reaction_reach db"
  shows "sorted_wrt (<) (map ac_version (filter (\<lambda>a. ac_pair a = pair) (rd_activities db))) \<and>
    rd_reactions db pair = (case rev (filter (\<lambda>a. ac_pair a = pair) (rd_activities db)) of
      [] \<Rightarrow> None
    | a # _ \<Rightarrow> Some \<lparr>rx_liked = ac_liked a, rx_version = ac_version a, rx_changed = ac_changed a\<rparr>) \<and>
    list_all valid_activity (rd_activities db)"
proof -
  from assms have "announced (activities_of pair (rd_activities db)) (rd_reactions db pair) \<and> list_all valid_activity (rd_activities db)"
  proof (induction rule: reaction_reach.induct)
    case (rr_batch db topic grp records db')
    from rr_batch.hyps(2) show ?case
    proof (rule behavior_tx_Inr)
      fix db1 first t applied
      assume m: "mark_inbox grp (map ub_id records) db = Inr (db1, first)"
        and u: "upsert_reactions (rd_now db1) (collapseUserBehaviorReactions records first) (rd_reactions db1) = (t, applied)"
        and t: "rd_reactions db' = t"
        and a: "rd_activities db' = rd_activities db1 @ map (activity_of (rd_posts db') (rd_now db1)) applied"
        and v: "list_all valid_activity (map (activity_of (rd_posts db') (rd_now db1)) applied)"
      have "announced (activities_of pair (rd_activities db1)) (rd_reactions db1 pair)"
        using rr_batch.IH mark_inbox_reactions [OF m] by simp
      from upsert_announced [OF u this] rr_batch.IH t a v mark_inbox_reactions [OF m] show ?case by simp
    qed
  qed (simp_all add: announced_def)
  then show ?thesis
    by (cases "activities_of pair (rd_activities db)" rule: rev_cases) (simp_all add: announced_def row_of_def)
qed

section \<open>Views and the number of views\<close>

lemma aggregate_views_count:
  "behavior_count (fold (\<lambda>r rows. if is_view first r
        then count_behavior (bp_user (ub_payload r), bp_post (ub_payload r), ''view'') (userBehaviorOccurredAt now (ub_occurred r)) rows
        else rows) rs rows) (u, p, ''view'') =
     behavior_count rows (u, p, ''view'') + int (length (filter (\<lambda>r. is_view first r \<and> reacting_pair r = (u, p)) rs))"
  by (induction rs arbitrary: rows) (auto simp: behavior_count_count reacting_pair_def)

text \<open>
  C38. A batch that commits counts exactly the views the group has not seen: the row of every user
  and post gains the number of views in the batch by that user of that post whose events are not
  in the inbox yet, and the post itself, unless it is deleted, gains the number of all of them.
\<close>

theorem new_views_are_counted:
  assumes "behavior_tx topic grp records db = Inr db'"
    and "\<forall>r \<in> set records. NormalizeEventID (ub_id r) = Some (ub_id r)" and "0 < p"
  shows "behavior_count (pd_behaviors db') (u, p, ''view'') = behavior_count (pd_behaviors db) (u, p, ''view'') +
      int (length [r \<leftarrow> records. ub_type r = EventTypePostViewed \<and> \<not> in_inbox grp (ub_id r) db \<and> reacting_pair r = (u, p)]) \<and>
    rd_posts db' p = (case rd_posts db p of
        None \<Rightarrow> None
      | Some row \<Rightarrow> Some (if po_deleted row then row else row\<lparr>po_views := po_views row +
          int (length [r \<leftarrow> records. ub_type r = EventTypePostViewed \<and> \<not> in_inbox grp (ub_id r) db \<and> bp_post (ub_payload r) = p])\<rparr>))"
  using assms(1)
proof (rule behavior_tx_Inr)
  fix db1 first
  assume m: "mark_inbox grp (map ub_id records) db = Inr (db1, first)"
    and b: "pd_behaviors db' = add_behaviors (aggregateUserBehaviorViews (rd_now db1) records first) (pd_behaviors db1)"
    and posts: "rd_posts db' = rd_posts (bulkIncrementPostViewCounts (aggregatePostViewCountDeltas records first) db1)"
  have first: "ub_id r |\<in>| first \<longleftrightarrow> \<not> in_inbox grp (ub_id r) db" if "r \<in> set records" for r
    using mark_inbox_effect(3) [OF m] that assms(2) mark_inbox_effect(4) [OF m] by auto
  have one: "filter (\<lambda>r. is_view first r \<and> reacting_pair r = (u, p)) records =
      [r \<leftarrow> records. ub_type r = EventTypePostViewed \<and> \<not> in_inbox grp (ub_id r) db \<and> reacting_pair r = (u, p)]"
    "filter (\<lambda>r. is_view first r \<and> 0 < bp_post (ub_payload r) \<and> bp_post (ub_payload r) = p) records =
      [r \<leftarrow> records. ub_type r = EventTypePostViewed \<and> \<not> in_inbox grp (ub_id r) db \<and> bp_post (ub_payload r) = p]"
    using first assms(3) by (auto simp: is_view_def intro!: filter_cong)
  show ?thesis
    by (simp add: b posts behavior_count_add aggregateUserBehaviorViews_def aggregate_views_count one
        bulkIncrementPostViewCounts_def aggregatePostViewCountDeltas_def mark_inbox_reactions [OF m]
        behavior_count_def [of Map.empty] split: option.splits)
qed

section \<open>The consumer\<close>

lemma behavior_tx_marks:
  assumes "behavior_tx topic grp rs db = Inr db'"
  shows "r \<in> set rs \<Longrightarrow> marked_event grp (ub_id r) db'" "marked_event grp i db \<Longrightarrow> marked_event grp i db'"
proof -
  from assms obtain db1 first where m: "mark_inbox grp (map ub_id rs) db = Inr (db1, first)" "pd_inbox db' = pd_inbox db1"
    by (rule behavior_tx_Inr)
  have "marked_event grp i db' = marked_event grp i db1" for i
    using m(2) by (simp add: marked_event_def in_inbox_def)
  with marked_after_inbox [OF m(1)] show "r \<in> set rs \<Longrightarrow> marked_event grp (ub_id r) db'"
    "marked_event grp i db \<Longrightarrow> marked_event grp i db'" by auto
qed

lemma behavior_projection_reads [simp]:
  "pj_decode (behavior_projection topic grp has_db) = decodeUserBehaviorMessage"
  "pj_message (behavior_projection topic grp has_db) = ub_message" "pj_event (behavior_projection topic grp has_db) = ub_id"
  "pj_tx (behavior_projection topic grp has_db) = behavior_tx topic grp"
  by (simp_all add: behavior_projection_def)

lemma decoded_behavior_message: "decodeUserBehaviorMessage m = Inr r \<Longrightarrow> ub_message r = m"
  by (auto simp: decodeUserBehaviorMessage_def split: sum.splits option.splits if_splits)

interpretation behavior: projection_effect "behavior_projection topic grp has_db" "\<lambda>r. marked_event grp (ub_id r)"
  for topic grp has_db
  by unfold_locales (auto simp: behavior_tx_marks decoded_behavior_message)

text \<open>
  C39. Every message whose offset the consumer committed is accounted for, whatever transactions
  failed or lost their answer and however the batches were cut: its event is in the inbox of the
  group, so it was applied in the same transaction; or a message that decodes to an event of its
  id is in the dead letter topic because a row it refers to is missing; or it cannot be decoded and is in the dead letter
  topic under the code of its failure.
\<close>

theorem committed_behavior_settled:
  assumes "consumeUserBehaviorMessages topic grp has_db policy fs (s, []) = ((s', ms), e)"
    and "\<forall>(f, env, rpc) \<in> set fs. one_per_offset (bf_messages f) \<and>
      (\<forall>i db. pd_inbox db |\<subseteq>| pd_inbox (be_other env i db))"
    and "m \<in> set ms"
  shows "case decodeUserBehaviorMessage m of
      Inl err \<Rightarrow> \<exists>d. (m, d) \<in> set (bs_dlq s') \<and> dl_code d = kafkaFailureCode err
    | Inr r \<Rightarrow> (\<exists>eid. NormalizeEventID (ub_id r) = Some eid \<and> (trim_space grp, eid) |\<in>| pd_inbox (bs_db s')) \<or>
        (\<exists>m' q d. decodeUserBehaviorMessage m' = Inr q \<and> ub_id q = ub_id r \<and> (m', d) \<in> set (bs_dlq s') \<and>
           dl_code d = ''database_foreign_key'')"
proof -
  have "\<forall>(f, env, rpc) \<in> set fs. behavior.fair grp env \<and> one_per_offset (bf_messages f)"
    using assms(2) by (fastforce simp: behavior.fair_def marked_event_def in_inbox_def)
  then have "behavior.settled topic grp has_db s' m"
    by (rule behavior.committed_settled [OF assms(1) [unfolded consumeUserBehaviorMessages_def processUserBehaviorBatch_def] _ assms(3)])
  then show ?thesis
    by (auto simp: behavior.settled_def behavior.handled_def marked_event_def in_inbox_def split: sum.splits)
qed

section \<open>Witnesses\<close>

definition reaction_payload :: "string \<Rightarrow> int \<Rightarrow> user_behavior_payload" where
  "reaction_payload action version = \<lparr>bp_user = 1, bp_post = 7, bp_action = action, bp_source = ''feed'', bp_version = version\<rparr>"

definition some_message :: kafka_message where
  "some_message = \<lparr>km_topic = ''t'', km_partition = 0, km_offset = 4, km_value = None\<rparr>"

definition some_like :: behavior_event where
  "some_like = \<lparr>ub_id = ''e1'', ub_type = EventTypePostLiked, ub_occurred = 50, ub_payload = reaction_payload ''like'' 2, ub_message = some_message\<rparr>"

definition some_unlike :: behavior_event where
  "some_unlike = \<lparr>ub_id = ''e2'', ub_type = EventTypePostUnliked, ub_occurred = 40, ub_payload = reaction_payload ''unlike'' 1, ub_message = some_message\<rparr>"

definition some_view :: behavior_event where
  "some_view = \<lparr>ub_id = ''e3'', ub_type = EventTypePostViewed, ub_occurred = 30, ub_payload = reaction_payload ''view'' 0, ub_message = some_message\<rparr>"

lemmas some_events = some_like_def some_unlike_def some_view_def reaction_payload_def behavior_types

definition some_reactions :: reactions_db where
  "some_reactions = \<lparr>pd_inbox = {||}, pd_behaviors = Map.empty, pd_dirty = Map.empty,
     rd_posts = [7 \<mapsto> \<lparr>po_author = 3, po_views = 0, po_deleted = False\<rparr>], rd_reactions = Map.empty, rd_activities = [], rd_now = 60\<rparr>"

lemma some_ids: "NormalizeEventID ''e1'' = Some ''e1''" "NormalizeEventID ''e2'' = Some ''e2''" "NormalizeEventID ''e3'' = Some ''e3''"
  "trim_space ''g'' = ''g''" "trim_space ''a'' = ''a''"
  by (simp_all add: NormalizeEventID_def trim_space_def strip_left_id space_runes_def ConsumerInboxEventIDMaxLength_def byte_def)

definition some_activity :: reaction_activity where
  "some_activity = \<lparr>ac_pair = (1, 7), ac_author = 3, ac_liked = True, ac_version = 2, ac_changed = 50\<rparr>"

lemma some_batch:
  "\<exists>db. behavior_tx ''a'' ''g'' [some_like, some_unlike, some_view] some_reactions = Inr db \<and> rd_activities db = [some_activity]"
proof -
  have m: "mark_inbox ''g'' [''e1'', ''e2'', ''e3''] some_reactions =
      Inr (some_reactions\<lparr>pd_inbox := {|(''g'', ''e1''), (''g'', ''e2''), (''g'', ''e3'')|}\<rparr>, {|''e1'', ''e2'', ''e3''|})"
    by (simp add: mark_inbox_def MarkInboxProcessedBatch_def insert_returning_def some_ids Let_def some_reactions_def) fastforce
  have c: "collapseUserBehaviorReactions [some_like, some_unlike, some_view] {|''e1'', ''e2'', ''e3''|} = [candidate_of some_like]"
    by (simp add: collapseUserBehaviorReactions_def is_reaction_def candidate_of_def reacting_pair_def some_events)
  show ?thesis
    using m c
    by (simp add: behavior_tx_def some_like_def some_unlike_def some_view_def) (simp add: some_events candidate_of_def
        reacting_pair_def bulkUpsertPostReactionsReturningApplied_def passes_def appendAppliedReactionActivities_def some_ids
        some_reactions_def activity_of_def valid_activity_def some_activity_def userBehaviorOccurredAt_def EmbeddingBatch.zero_time_def go_second_def
        bulkUpsertPostViewBehavior_def bulkIncrementPostViewCounts_def)
qed

theorem batched_reactions_as_one_by_one_witness:
  "rd_reactions (fold applyPostReactionProjection [some_like, some_unlike] some_reactions) (1, 7) =
     Some \<lparr>rx_liked = True, rx_version = 2, rx_changed = 50\<rparr>"
proof -
  have "rd_reactions (fst (bulkUpsertPostReactionsReturningApplied (collapseUserBehaviorReactions [some_like, some_unlike]
      {|''e1'', ''e2''|}) some_reactions)) (1, 7) = Some \<lparr>rx_liked = True, rx_version = 2, rx_changed = 50\<rparr>"
    by (simp add: collapseUserBehaviorReactions_def is_reaction_def candidate_of_def reacting_pair_def some_events
        bulkUpsertPostReactionsReturningApplied_def passes_def some_reactions_def reaction_of_def userBehaviorOccurredAt_def
        EmbeddingBatch.zero_time_def go_second_def)
  with batched_reactions_as_one_by_one [of "[some_like, some_unlike]" "{|''e1'', ''e2''|}" some_reactions]
  show ?thesis by (simp add: some_events)
qed

theorem activities_are_the_history_of_reactions_witness:
  "\<exists>db. behavior_tx ''a'' ''g'' [some_like, some_unlike, some_view] some_reactions = Inr db \<and>
     rd_reactions db (1, 7) = Some \<lparr>rx_liked = True, rx_version = 2, rx_changed = 50\<rparr>"
proof -
  obtain db where db: "behavior_tx ''a'' ''g'' [some_like, some_unlike, some_view] some_reactions = Inr db" "rd_activities db = [some_activity]"
    using some_batch by blast
  have "reaction_reach db" by (rule rr_batch [OF rr_start db(1)]) (simp_all add: some_reactions_def)
  from activities_are_the_history_of_reactions [OF this, of "(1, 7)"] db show ?thesis by (simp add: some_activity_def)
qed

theorem new_views_are_counted_witness:
  "\<exists>db. behavior_tx ''a'' ''g'' [some_like, some_unlike, some_view] some_reactions = Inr db \<and>
     behavior_count (pd_behaviors db) (1, 7, ''view'') = 1 \<and>
     rd_posts db 7 = Some \<lparr>po_author = 3, po_views = 1, po_deleted = False\<rparr>"
proof -
  obtain db where db: "behavior_tx ''a'' ''g'' [some_like, some_unlike, some_view] some_reactions = Inr db"
    using some_batch by blast
  from new_views_are_counted [OF db, of 7 1] db show ?thesis
    by (simp add: some_events some_ids in_inbox_def some_reactions_def reacting_pair_def behavior_count_def)
qed

definition user_behavior_env :: "reactions_db batch_env" where
  "user_behavior_env = \<lparr>be_ctx = \<lambda>_. None, be_retry_ctx = \<lambda>_ _. None, be_write = \<lambda>_. WriteOk, be_other = \<lambda>_ db. db,
     be_parent = \<lambda>_ _ _. Inr True, be_dlq = \<lambda>_. Some (\<lambda>_. None), be_build = \<lambda>_ _. None\<rparr>"

theorem committed_behavior_settled_witness:
  "\<exists>s' d. consumeUserBehaviorMessages ''a'' ''g'' True defaultKafkaRetryPolicy
      [(\<lparr>bf_messages = [some_message], bf_terminal = None, bf_ctx = None\<rparr>, user_behavior_env, CommitOk)]
      (\<lparr>bs_calls = 0, bs_db = some_reactions, bs_dlq = []\<rparr>, []) = ((s', [some_message]), None) \<and>
    (some_message, d) \<in> set (bs_dlq s') \<and> dl_code d = ''decode_envelope''"
proof -
  let ?fs = "[(\<lparr>bf_messages = [some_message], bf_terminal = None, bf_ctx = None\<rparr>, user_behavior_env, CommitOk)]"
  have dec: "decodeUserBehaviorMessage some_message = Inl (ProcessErr Permanent ''decode_envelope'' ''decode event envelope'')"
    by (simp add: decodeUserBehaviorMessage_def DecodeEnvelope_def some_message_def)
  obtain s' where run: "consumeUserBehaviorMessages ''a'' ''g'' True defaultKafkaRetryPolicy ?fs
      (\<lparr>bs_calls = 0, bs_db = some_reactions, bs_dlq = []\<rparr>, []) = ((s', [some_message]), None)"
    by (simp add: consumeUserBehaviorMessages_def processUserBehaviorBatch_def finishKafkaBatch_def process_batch_def
        classify_batch_def dec ctx_err_def dead_letter_of_def publishConsumerDLQ_def deadLetterFailure_def commit_messages_def
        meets_def user_behavior_env_def Let_def)
  from committed_behavior_settled [OF run, of some_message] dec run
  show ?thesis by (auto simp: one_per_offset_def user_behavior_env_def)
qed

end
