(* ===== verification/Spec2Isabelle.thy ===== *)
theory Spec2Isabelle
  imports LikeUser LikePipeline LikeBehaviorRelay LikeRecovery RecSelection AuthService RateLimit ImageBudget EmbeddingBatch
    CtrMetrics BehaviorProjection
begin

text \<open>
  Verification of the Go back end of a content community (under \<open>src/Go.exchange\<close>; paths below
  are relative to it). The program is an API process and a worker process over PostgreSQL, Redis
  and Kafka. The API keeps likes, sessions and rate limits in Redis, through Lua scripts; the
  worker relays dirty state to Kafka and projects events from Kafka into the database; the
  recommendation service ranks candidate posts into pages. The development models the code that
  carries this logic.

  \<^bold>\<open>How the code is translated.\<close> A Go struct is a record, an enumeration a datatype. A Lua script
  is one function on the store of Redis, a map from keys to typed values with their expiry; a
  script reply that is an error is \<open>Inl\<close>. A Go method is a function of its inputs, of the store or
  database, and of an environment that says what each of its numbered calls meets: how it fails,
  whether its effect happened although the answer was lost, and what other clients did before it.
  Errors are values of datatypes and every early return is a branch. Goroutines under a mutex are
  step relations, one step for each critical section. Instants and durations are integers of
  nanoseconds, milliseconds or microseconds, as the code has them; 64-bit wrap-around is written
  out where it can be reached; \<open>float64\<close> is binary floating point with Go's rounding. JSON is a
  parsed value, decoded field by field as \<open>json.Unmarshal\<close> does.

  \<^bold>\<open>Shared vocabulary.\<close>
  \<open>Prelude\<close>: decimal rendering and parsing, guards, lists and finite sets. \<open>RedisModel\<close>: the
  keyspace and the commands of the scripts. \<open>GoFloat\<close>: \<open>float64\<close>. \<open>Eventing\<close>: event ids, envelopes,
  the two events of likes and the outbox batches (\<open>eventing/event_id.go\<close>, \<open>like_events.go\<close>,
  \<open>outbox.go\<close>, \<open>events.go\<close>). \<open>KafkaRetry\<close>: failure classes, bounded retry with backoff, dead letters
  (\<open>tasks/kafka_recovery.go\<close>).

  \<^bold>\<open>Likes\<close> (\<open>likes/\<close>, \<open>config/\<close>, \<open>tasks/like_*\<close>).
  \<open>LikeKeys\<close> (\<open>keys.go\<close>) shows that no two keys collide. \<open>LikeConfig\<close> has the settings.
  \<open>LikeErrors\<close> and \<open>LikeStore\<close> have the Go side of a call (\<open>types.go\<close>, \<open>store.go\<close>,
  \<open>snapshot_batch.go\<close>). \<open>LikeMutate\<close> has \<open>mutateScript\<close>: a like or unlike with eviction at the cap;
  it keeps the invariant of every user, the balance of counters and relations, refines a bounded
  recency index, and announces every change of a counter. \<open>LikeQueue\<close> states the work queue
  (claim, acknowledge, requeue, reap) as the locale \<open>work_queue\<close> and interprets it on the snapshot
  scripts; \<open>LikeBehavior\<close> (\<open>behavior_scripts.go\<close>, \<open>behavior_store.go\<close>) interprets it on the queue of
  behaviours. \<open>LikeRelay\<close> extends it with writers to \<open>queue_system\<close>: no announced change is lost in any
  interleaving. \<open>LikeRelayRound\<close> and \<open>LikeBehaviorRelay\<close> have the rounds of the relays
  (\<open>tasks/like_snapshot_relay.go\<close>, \<open>tasks/like_behavior_relay.go\<close>) with every failure path, as
  sequences of its steps. \<open>LikeRebuild\<close> (\<open>rebuild.go\<close>) has initialisation, recovery and deletion of
  a post. \<open>LikeUser\<close> has the scripts on the relations of a user (\<open>user_lifecycle_scripts.go\<close>),
  \<open>LikeRestore\<close> and \<open>LikeRecovery\<close> the recovery of a cold user (\<open>user_lifecycle.go\<close>): safety whatever
  fails, and completion when nothing fails. \<open>LikeProjection\<close> (\<open>tasks/like_snapshot_consumer.go\<close>)
  writes snapshots into the database behind a version guard and commits only after the effect.
  \<open>LikePipeline\<close> joins all of it: from the mutation to the row of the post.

  \<^bold>\<open>Projections of behaviour\<close> (\<open>tasks/user_behavior_consumer.go\<close>,
  \<open>tasks/recommendation_metrics_consumer.go\<close>). \<open>KafkaBatch\<close> has what the two consumers share: the
  collection of a batch, the recursive cut of a batch when a row it refers to is missing
  (\<open>kafka_foreign_key_recovery.go\<close>), dead letters and the commit (\<open>kafka_backlog.go\<close>). The locale
  \<open>projection_effect\<close> asks of a transaction that it marks its events in the inbox, and yields that
  every committed message is settled: marked, or in the dead letter topic as undecodable, or its
  event there for a missing row. \<open>BehaviorRows\<close> has the shared tables. \<open>BehaviorProjection\<close>
  interprets the locale on views and reactions: a batch equals its events one by one, the activity
  events are the history of the reactions, and views are counted once. \<open>CtrMetrics\<close> interprets it
  on daily metrics, where an opportunity (user, request, post) counts one impression and one click
  on the day of its earliest impression. It also proves a defect: a batch whose click is claimed
  before an earlier impression moves its opportunity is refused, exactly while the row of the old
  day counts no other click, although its events one by one go through.

  \<^bold>\<open>Embedding pipeline\<close> (\<open>tasks/post_embedding*.go\<close>).
  \<open>WakeUp\<close> states as a locale why a goroutine that waits on a channel closed at every change does
  not miss its turn. \<open>ProviderGate\<close> has the circuit breaker for any number of workers and interprets
  it. \<open>OffsetCommit\<close> has the partition workers, the coordinator of commits, and a group of any number
  of processes through any number of generations; its locale \<open>batch_effect\<close> says what processing a
  batch has to give, and \<open>EmbeddingBatch\<close>, with decoding, provider calls, retries, splits and checked
  writes, interprets it: committed requests are settled. The database keeps the contents a post
  has had, so that a request is settled only for the revision it was written for; that this
  revision is in the database when its request is processed is the hypothesis \<open>visible\<close>, which
  writing both in one transaction gives. Kafka is taken to deliver a partition in order and
  without a gap from the offset asked for, and the broker to take commits of the current
  generation only.

  \<^bold>\<open>Recommendation\<close> (\<open>recommendation/fusion.go\<close>, \<open>selection.go\<close>, \<open>profile.go\<close>, \<open>ranker.go\<close>).
  \<open>RecFusion\<close>: the fusion of recall lists equals its description by post. \<open>RecPositions\<close>: positions
  of exploration. \<open>RecSelection\<close>: the greedy selection of a page; it adds the best admissible item
  at each place.

  \<^bold>\<open>Sessions and limits\<close> (\<open>auth/\<close>, \<open>ratelimit/\<close>, \<open>imagebudget/\<close>).
  \<open>AuthStore\<close>: the scripts on refresh sessions, a typing invariant, and that a rotated secret stays
  spent. \<open>AuthService\<close>: tokens, the sealed recovery answer, and the check of versions. \<open>RateLimit\<close>:
  both limiters as interpretations of the locale \<open>fixed_window\<close>. \<open>ImageBudget\<close>: the limiter of
  image work, as an interpretation of \<open>wake_up\<close>.

  \<^bold>\<open>Bounds.\<close> Loops are structural, or have a measure, or a number of turns that the code itself
  bounds: the retry loops run for the attempts of their policy, backoff doubles at most as often as
  there are attempts, the wait for another client's recovery runs over a given list of polls, and a
  consumer over a given list of fetched batches. No claim rests on fuel that could run out.

  \<^bold>\<open>Parameters.\<close> Code outside the repository is an argument, with what the code relies on as a
  hypothesis where there is one: SHA-256, HMAC and AES-GCM, JWT signing, UUID and IP address
  parsing, RFC 3339 parsing, the embedding provider, the jitter of backoff, the random choice of
  \<open>SPOP\<close> and \<open>SRANDMEMBER\<close>, and lower-casing.

  \<^bold>\<open>Not modelled\<close>, and what the models leave open. Lua's numbers are floating point: its concatenation
  renders them with \<open>%.14g\<close>, as modelled for the behaviour state (\<open>lua_text\<close>), so a version of
  \<open>10^14\<close> or more is refused by its reader; its arithmetic, and the number
  arguments of commands, are taken to be exact, as they are below \<open>2^53\<close>.
  The second element of the reply of the finishing restore script, which the Go code does not
  read, is left out. Durations with a fraction are exact. The zero of a float has no sign, and
  similarities are taken to be numbers. \<open>sort.Slice\<close> is a stable sort, which decides ties the code
  leaves open. The order in which a statement locks rows is not modelled, and neither is the
  rounding of instants to microseconds by PostgreSQL. In the relays other clients are writers and
  relays; the failure counter and the epoch of the gate are unbounded. A done context is what the
  environment says at each check. Metrics, logs, health reports and the starting of goroutines
  have no effect on the modelled state and are left out, among them the registry of readers and
  the sampling of backlogs in \<open>kafka_backlog.go\<close> and the slots and delays of the embedding group.
  HTTP handlers, SQL behind gorm outside the modelled transactions, configuration other than the
  settings of likes, media, translation, schema migrations, developer tools, the notification
  consumer, the maintenance tasks, and the loading and caching of recommendation data are not
  modelled: most of them are wiring or calls of libraries and services; the notification consumer,
  a third client of \<open>KafkaBatch\<close>, and the snapshot store of the recommendation service have state
  of their own and are left to do.
\<close>

end
